(* ===== verification/Prelude.thy ===== *)
theory Prelude
  imports Main "HOL-Library.Word" "HOL-Library.Signed_Division"
begin

text \<open>
  What every component of the development shares: bytes, the faults a C program can run
  into (an access outside its object, a signed overflow), the sum type that carries them,
  reads and writes of byte buffers, NUL-terminated strings, and the character classes of
  the C locale.
\<close>

unbundle bit_operations_syntax

named_theorems cmem \<open>reads and writes of buffers that are in range\<close>
named_theorems ctype \<open>character classes\<close>

section \<open>Bytes, faults and results\<close>

type_synonym byte = "8 word"
type_synonym bytes = "byte list"

text \<open>What has no defined behaviour in C, or does not end, is a value of this type.\<close>

datatype cfault = ReadOOB | WriteOOB | IntOverflow | NullDeref | Overlap | Diverge

type_synonym 'a cres = "cfault + 'a"

definition sbind :: "'e + 'a \<Rightarrow> ('a \<Rightarrow> 'e + 'b) \<Rightarrow> 'e + 'b" where
  "sbind m f = (case m of Inl e \<Rightarrow> Inl e | Inr a \<Rightarrow> f a)"

lemma sbind_Inl [simp]: "sbind (Inl e) f = Inl e"
  by (simp add: sbind_def)

lemma sbind_Inr [simp]: "sbind (Inr a) f = f a"
  by (simp add: sbind_def)

lemma sbind_cong [fundef_cong]:
  "m = m' \<Longrightarrow> (\<And>a. m' = Inr a \<Longrightarrow> f a = f' a) \<Longrightarrow> sbind m f = sbind m' f'"
  by (auto simp: sbind_def split: sum.splits)

lemma sbind_eq_Inr_iff: "sbind m f = Inr b \<longleftrightarrow> (\<exists>a. m = Inr a \<and> f a = Inr b)"
  by (auto simp: sbind_def split: sum.splits)

lemma sbind_eq_Inl_iff: "sbind m f = Inl e \<longleftrightarrow> m = Inl e \<or> (\<exists>a. m = Inr a \<and> f a = Inl e)"
  by (auto simp: sbind_def split: sum.splits)

lemma sbind_assoc: "sbind (sbind m f) g = sbind m (\<lambda>a. sbind (f a) g)"
  by (simp add: sbind_def split: sum.splits)

definition isInr :: "'e + 'a \<Rightarrow> bool" where
  "isInr m = (case m of Inl _ \<Rightarrow> False | Inr _ \<Rightarrow> True)"

lemma isInr_simps [simp]: "isInr (Inr a)" "\<not> isInr (Inl e)"
  by (simp_all add: isInr_def)

section \<open>Machine integers\<close>

text \<open>A signed 32-bit result: outside its range the C expression is undefined.\<close>

definition int_max :: int where "int_max = 2147483647"
definition int_min :: int where "int_min = - 2147483648"

definition chk32 :: "int \<Rightarrow> int cres" where
  "chk32 x = (if int_min \<le> x \<and> x \<le> int_max then Inr x else Inl IntOverflow)"

lemma chk32_Inr [simp]: "int_min \<le> x \<Longrightarrow> x \<le> int_max \<Longrightarrow> chk32 x = Inr x"
  by (simp add: chk32_def)

text \<open>The conversion of an integer to \<open>int\<close>, which keeps the low 32 bits.\<close>

definition cast_int :: "int \<Rightarrow> int" where
  "cast_int x = (x + 2147483648) mod 4294967296 - 2147483648"

lemma cast_int_id [simp]: "int_min \<le> x \<Longrightarrow> x \<le> int_max \<Longrightarrow> cast_int x = x"
  by (simp add: cast_int_def int_min_def int_max_def)

text \<open>C's division of a non-negative int is the division of integers.\<close>

lemma sdiv_nonneg: "0 \<le> (a::int) \<Longrightarrow> 0 < b \<Longrightarrow> a sdiv b = a div b"
  by (cases "a = 0") (simp_all add: signed_divide_int_def)

lemma smod_nonneg: "0 \<le> (a::int) \<Longrightarrow> 0 < b \<Longrightarrow> a smod b = a mod b"
  by (cases "a = 0") (simp_all add: signed_modulo_int_def)

section \<open>Buffers\<close>

definition rd :: "'a list \<Rightarrow> nat \<Rightarrow> 'a cres" where
  "rd b i = (if i < length b then Inr (b ! i) else Inl ReadOOB)"

definition wr :: "'a list \<Rightarrow> nat \<Rightarrow> 'a \<Rightarrow> 'a list cres" where
  "wr b i v = (if i < length b then Inr (b[i := v]) else Inl WriteOOB)"

lemma rd_in [simp, cmem]: "i < length b \<Longrightarrow> rd b i = Inr (b ! i)"
  by (simp add: rd_def)

lemma wr_in [simp, cmem]: "i < length b \<Longrightarrow> wr b i v = Inr (b[i := v])"
  by (simp add: wr_def)

lemma rd_out: "length b \<le> i \<Longrightarrow> rd b i = Inl ReadOOB"
  by (simp add: rd_def)

lemma wr_out: "length b \<le> i \<Longrightarrow> wr b i v = Inl WriteOOB"
  by (simp add: wr_def)

lemma rd_eq_Inr_iff: "rd b i = Inr v \<longleftrightarrow> i < length b \<and> v = b ! i"
  by (auto simp: rd_def)

lemma wr_eq_Inr_iff: "wr b i v = Inr b' \<longleftrightarrow> i < length b \<and> b' = b[i := v]"
  by (auto simp: wr_def)

text \<open>A buffer with the bytes \<open>vs\<close> in place from position \<open>i\<close> on.\<close>

definition overlay :: "'a list \<Rightarrow> nat \<Rightarrow> 'a list \<Rightarrow> 'a list" where
  "overlay b i vs = take i b @ vs @ drop (i + length vs) b"

lemma overlay_Nil [simp]: "overlay b i [] = b"
  by (simp add: overlay_def)

lemma length_overlay [simp]: "i + length vs \<le> length b \<Longrightarrow> length (overlay b i vs) = length b"
  by (simp add: overlay_def)

lemma overlay_overlay:
  assumes "j = i + length vs" "j + length ws \<le> length b"
  shows "overlay (overlay b i vs) j ws = overlay b i (vs @ ws)"
proof -
  have "length (take i b @ vs) = j" using assms by simp
  then have "take j (overlay b i vs) = take i b @ vs"
    unfolding overlay_def by (metis append_assoc append_eq_conv_conj)
  moreover have "drop (j + length ws) (overlay b i vs) = drop (j + length ws) b"
    using assms by (simp add: overlay_def ac_simps)
  ultimately show ?thesis using assms(1) by (simp add: overlay_def add.assoc)
qed

lemma take_overlay: "j = i + length vs \<Longrightarrow> j \<le> length b \<Longrightarrow> take j (overlay b i vs) = take i b @ vs"
  by (simp add: overlay_def)

lemma overlay_0: "overlay b 0 vs = vs @ drop (length vs) b"
  by (simp add: overlay_def)

lemma overlay_single: "i < length b \<Longrightarrow> overlay b i [v] = b[i := v]"
  by (simp add: overlay_def upd_conv_take_nth_drop)

lemma overlay_Cons:
  "i + length vs < length b \<Longrightarrow> overlay (b[i := v]) (Suc i) vs = overlay b i (v # vs)"
  using overlay_overlay [of "Suc i" i "[v]" vs b] by (simp add: overlay_single)

text \<open>Several bytes written one after the other, from position \<open>i\<close> on.\<close>

fun wrs :: "'a list \<Rightarrow> nat \<Rightarrow> 'a list \<Rightarrow> 'a list cres" where
  "wrs b i [] = Inr b"
| "wrs b i (v # vs) = sbind (wr b i v) (\<lambda>b'. wrs b' (Suc i) vs)"

lemma wrs_in: "i + length vs \<le> length b \<Longrightarrow> wrs b i vs = Inr (overlay b i vs)"
proof (induction vs arbitrary: b i)
  case Nil
  then show ?case by simp
next
  case (Cons v vs)
  then have i: "i < length b" by simp
  have "overlay b i [v] = b[i := v]"
    using i by (simp add: overlay_def upd_conv_take_nth_drop)
  then show ?case
    using Cons.prems i Cons.IH [of "Suc i" "b[i := v]"] overlay_overlay [of "Suc i" i "[v]" vs b] by simp
qed

lemma wrs_out: "length b < i + length vs \<Longrightarrow> vs \<noteq> [] \<Longrightarrow> wrs b i vs = Inl WriteOOB"
proof (induction vs arbitrary: b i)
  case Nil
  then show ?case by simp
next
  case (Cons v vs)
  then show ?case
    using Cons.IH [of "b[i := v]" "Suc i"] by (cases "vs = []") (auto simp: wr_def sbind_def)
qed

lemma wrs_length: "wrs b i vs = Inr b' \<Longrightarrow> length b' = length b"
  by (induction vs arbitrary: b i) (auto simp: sbind_eq_Inr_iff wr_eq_Inr_iff)

section \<open>Strings ended by NUL\<close>

text \<open>
  A C string is the list of its bytes before the terminator. A read at its length gives
  the NUL, a read past it is a fault.
\<close>

definition cget :: "bytes \<Rightarrow> nat \<Rightarrow> byte cres" where
  "cget s i = rd (s @ [0]) i"

lemma cget_in [simp, cmem]: "i < length s \<Longrightarrow> cget s i = Inr (s ! i)"
  by (simp add: cget_def nth_append)

lemma cget_end [simp, cmem]: "cget s (length s) = Inr 0"
  by (simp add: cget_def)

lemma cget_out: "length s < i \<Longrightarrow> cget s i = Inl ReadOOB"
  by (simp add: cget_def rd_def)

text \<open>The bytes before the first NUL of a buffer, as \<open>strlen\<close> and \<open>lua_pushstring\<close> see them.\<close>

definition cstr :: "bytes \<Rightarrow> bytes cres" where
  "cstr b = (if 0 \<in> set b then Inr (takeWhile (\<lambda>c. c \<noteq> 0) b) else Inl ReadOOB)"

lemma cstr_app: "0 \<notin> set s \<Longrightarrow> cstr (s @ 0 # r) = Inr s"
  by (auto simp: cstr_def takeWhile_append)

lemma cstr_zeros: "0 \<notin> set s \<Longrightarrow> 0 < n \<Longrightarrow> cstr (s @ replicate n 0) = Inr s"
  by (cases n) (auto simp: cstr_app)

section \<open>Characters\<close>

definition chr :: "char \<Rightarrow> byte" where
  "chr c = word_of_int (of_char c)"

definition str :: "string \<Rightarrow> bytes" where
  "str s = map chr s"

text \<open>The classes of <ctype.h> in the C locale, of a byte (an \<open>unsigned char\<close>).\<close>

definition isdigit :: "byte \<Rightarrow> bool" where
  [ctype]: "isdigit c = (48 \<le> c \<and> c \<le> 57)"

definition isupper :: "byte \<Rightarrow> bool" where
  [ctype]: "isupper c = (65 \<le> c \<and> c \<le> 90)"

definition islower :: "byte \<Rightarrow> bool" where
  [ctype]: "islower c = (97 \<le> c \<and> c \<le> 122)"

definition isalpha :: "byte \<Rightarrow> bool" where
  [ctype]: "isalpha c = (isupper c \<or> islower c)"

definition isalnum :: "byte \<Rightarrow> bool" where
  [ctype]: "isalnum c = (isalpha c \<or> isdigit c)"

definition iscntrl :: "byte \<Rightarrow> bool" where
  [ctype]: "iscntrl c = (c < 32 \<or> c = 127)"

definition isspace :: "byte \<Rightarrow> bool" where
  [ctype]: "isspace c = (c = 32 \<or> 9 \<le> c \<and> c \<le> 13)"

definition isprint :: "byte \<Rightarrow> bool" where
  [ctype]: "isprint c = (32 \<le> c \<and> c \<le> 126)"

definition ispunct :: "byte \<Rightarrow> bool" where
  [ctype]: "ispunct c = (isprint c \<and> c \<noteq> 32 \<and> \<not> isalnum c)"

definition isxdigit :: "byte \<Rightarrow> bool" where
  [ctype]: "isxdigit c = (isdigit c \<or> 65 \<le> c \<and> c \<le> 70 \<or> 97 \<le> c \<and> c \<le> 102)"

definition toupper :: "byte \<Rightarrow> byte" where
  [ctype]: "toupper c = (if islower c then c - 32 else c)"

definition tolower :: "byte \<Rightarrow> byte" where
  [ctype]: "tolower c = (if isupper c then c + 32 else c)"

section \<open>Searching\<close>

text \<open>The position of the first element that satisfies a predicate.\<close>

fun find_pos :: "('a \<Rightarrow> bool) \<Rightarrow> 'a list \<Rightarrow> nat option" where
  "find_pos P [] = None"
| "find_pos P (x # xs) = (if P x then Some 0 else map_option Suc (find_pos P xs))"

lemma find_pos_None: "find_pos P xs = None \<longleftrightarrow> (\<forall>x \<in> set xs. \<not> P x)"
  by (induction xs) auto

lemma find_pos_Some:
  "find_pos P xs = Some i \<longleftrightarrow> i < length xs \<and> P (xs ! i) \<and> (\<forall>j < i. \<not> P (xs ! j))"
proof (induction xs arbitrary: i)
  case Nil
  then show ?case by simp
next
  case (Cons x xs)
  then show ?case by (cases i) (auto simp: All_less_Suc2)
qed

text \<open>\<open>strchr\<close> finds the terminator too.\<close>

definition strchr :: "bytes \<Rightarrow> byte \<Rightarrow> nat option" where
  "strchr s c = find_pos (\<lambda>d. d = c) (s @ [0])"

section \<open>Numbers in bytes\<close>

text \<open>The \<open>k\<close> bytes of a number, the least significant first, and back.\<close>

fun le_bytes :: "nat \<Rightarrow> nat \<Rightarrow> bytes" where
  "le_bytes 0 n = []"
| "le_bytes (Suc k) n = word_of_nat n # le_bytes k (n div 256)"

fun le_val :: "bytes \<Rightarrow> nat" where
  "le_val [] = 0"
| "le_val (b # bs) = unat b + 256 * le_val bs"

lemma length_le_bytes [simp]: "length (le_bytes k n) = k"
  by (induction k arbitrary: n) auto

lemma unat_word_of_nat_byte: "unat (word_of_nat n :: byte) = n mod 256"
  by (simp add: unsigned_of_nat take_bit_eq_mod)

lemma le_val_le_bytes: "le_val (le_bytes k n) = n mod 256 ^ k"
proof (induction k arbitrary: n)
  case 0
  then show ?case by simp
next
  case (Suc k)
  then show ?case
    using mod_mult2_eq [of n 256 "256 ^ k"] by (simp add: unat_word_of_nat_byte)
qed

lemma le_val_less: "le_val bs < 256 ^ length bs"
proof (induction bs)
  case Nil
  then show ?case by simp
next
  case (Cons b bs)
  have "unat b < 256" using unsigned_less [of b] by simp
  with Cons show ?case by simp
qed

text \<open>Decimal notation, as \<open>%d\<close> prints it.\<close>

fun dec_nat :: "nat \<Rightarrow> bytes" where
  "dec_nat n = (if n < 10 then [48 + word_of_nat n] else dec_nat (n div 10) @ [48 + word_of_nat (n mod 10)])"

declare dec_nat.simps [simp del]

definition dec :: "int \<Rightarrow> bytes" where
  "dec i = (if i < 0 then 45 # dec_nat (nat (- i)) else dec_nat (nat i))"

section \<open>Lists\<close>

lemma drop_length_plus: "drop (length xs + n) (xs @ ys) = drop n ys"
  by simp

lemma byte_all: "(\<And>n. n < 256 \<Longrightarrow> P (word_of_nat n :: byte)) \<Longrightarrow> P b"
proof -
  assume *: "\<And>n. n < 256 \<Longrightarrow> P (word_of_nat n :: byte)"
  have "unat b < 256" using unsigned_less [of b] by simp
  from * [OF this] show "P b" by simp
qed

lemma byte_bit_out [simp]: "8 \<le> n \<Longrightarrow> \<not> bit (b :: byte) n"
  using bit_imp_le_length [of b n] by auto

lemma byte_eqI:
  "bit a 0 = bit b 0 \<Longrightarrow> bit a 1 = bit b 1 \<Longrightarrow> bit a 2 = bit b 2 \<Longrightarrow> bit a 3 = bit b 3 \<Longrightarrow>
   bit a 4 = bit b 4 \<Longrightarrow> bit a 5 = bit b 5 \<Longrightarrow> bit a 6 = bit b 6 \<Longrightarrow> bit a 7 = bit b 7 \<Longrightarrow> a = b"
  for a b :: byte
proof (rule bit_word_eqI)
  fix n
  assume "n < LENGTH(8)"
  then have "n \<in> {0, 1, 2, 3, 4, 5, 6, 7}" by auto
  moreover assume "bit a 0 = bit b 0" "bit a 1 = bit b 1" "bit a 2 = bit b 2" "bit a 3 = bit b 3"
    "bit a 4 = bit b 4" "bit a 5 = bit b 5" "bit a 6 = bit b 6" "bit a 7 = bit b 7"
  ultimately show "bit a n = bit b n" by auto
qed

lemma and_low_bits:
  "(a::byte) AND 3 = take_bit 2 a" "a AND 15 = take_bit 4 a" "a AND 63 = take_bit 6 a"
  by (simp_all add: take_bit_eq_mask mask_eq_exp_minus_1)

lemma nibble_less: "unat ((v::byte) AND 15) < 16"
  using take_bit_nat_less_exp [of 4 "unat v"]
  by (simp only: and_low_bits unsigned_take_bit_eq) simp

lemma take_bit_6_less: "take_bit 6 (b :: byte) < 64"
  using take_bit_nat_less_exp [of 6 "unat b"]
  by (simp add: word_less_nat_alt unsigned_take_bit_eq)

end
