(* ===== verification/Base64.thy ===== *)
theory Base64
  imports Prelude
begin

text \<open>
  The base64 codec of \<open>src/src/tools/base64.c\<close>: its two tables, the group coders and the
  two entry points, over explicit input and output buffers. The alphabet is the
  URL-safe one. \<open>b64\<close> is the abstract encoder the buffer code is proved to refine.
\<close>

section \<open>Tables\<close>

definition XX :: byte where "XX = 127"

definition index_64 :: bytes where
  "index_64 =
   [XX,XX,XX,XX, XX,XX,XX,XX, XX,XX,XX,XX, XX,XX,XX,XX,
    XX,XX,XX,XX, XX,XX,XX,XX, XX,XX,XX,XX, XX,XX,XX,XX,
    XX,XX,XX,XX, XX,XX,XX,XX, XX,XX,XX,XX, XX,62,XX,XX,
    52,53,54,55, 56,57,58,59, 60,61,XX,XX, XX,XX,XX,XX,
    XX, 0, 1, 2,  3, 4, 5, 6,  7, 8, 9,10, 11,12,13,14,
    15,16,17,18, 19,20,21,22, 23,24,25,XX, XX,XX,XX,63,
    XX,26,27,28, 29,30,31,32, 33,34,35,36, 37,38,39,40,
    41,42,43,44, 45,46,47,48, 49,50,51,XX, XX,XX,XX,XX]
   @ replicate 128 XX"

definition CHAR64 :: "byte \<Rightarrow> byte" where
  "CHAR64 c = index_64 ! unat c"

definition base64_char :: bytes where
  "base64_char = str ''ABCDEFGHIJKLMNOPQRSTUVWXYZabcdefghijklmnopqrstuvwxyz0123456789-_''"

text \<open>The padding character, written \<open>'='\<close> in the source.\<close>

definition pad :: byte where "pad = 61"

definition b64c :: "byte \<Rightarrow> byte" where
  "b64c v = base64_char ! unat v"

section \<open>Group coders\<close>

text \<open>
  \<open>Base64EncodeGroup\<close> gets pointers into the two buffers: here the buffers and the
  positions \<open>ip\<close> and \<open>op\<close> the pointers point to.
\<close>

definition Base64EncodeGroup :: "bytes \<Rightarrow> nat \<Rightarrow> int \<Rightarrow> bytes \<Rightarrow> nat \<Rightarrow> bytes cres" where
  "Base64EncodeGroup input ip grpLen output op =
    (if grpLen = 3 then
       sbind (rd input ip) (\<lambda>i0. sbind (rd input (ip + 1)) (\<lambda>i1. sbind (rd input (ip + 2)) (\<lambda>i2.
       wrs output op
        [b64c (drop_bit 2 i0),
         b64c (push_bit 4 (i0 AND 3) + drop_bit 4 i1),
         b64c (push_bit 2 (i1 AND 15) + drop_bit 6 i2),
         b64c (i2 AND 63)])))
     else if grpLen = 2 then
       sbind (rd input ip) (\<lambda>i0. sbind (rd input (ip + 1)) (\<lambda>i1.
       wrs output op
        [b64c (drop_bit 2 i0),
         b64c (push_bit 4 (i0 AND 3) + drop_bit 4 i1),
         b64c (push_bit 2 (i1 AND 15)),
         pad]))
     else if grpLen = 1 then
       sbind (rd input ip) (\<lambda>i0.
       wrs output op
        [b64c (drop_bit 2 i0),
         b64c (push_bit 4 (i0 AND 3)),
         pad,
         pad])
     else Inr output)"

text \<open>
  \<open>Base64DecodeGroup\<close> reads four characters, writes one to three bytes and returns the
  number written through \<open>pWrite\<close>.
\<close>

definition Base64DecodeGroup :: "byte \<Rightarrow> byte \<Rightarrow> byte \<Rightarrow> byte \<Rightarrow> bytes \<Rightarrow> nat \<Rightarrow> (bytes \<times> int) cres" where
  "Base64DecodeGroup c0 c1 c2 c3 output op =
    (if c2 = pad \<and> c3 = pad then
       sbind (wrs output op
         [push_bit 2 (CHAR64 c0) OR drop_bit 4 (CHAR64 c1)]) (\<lambda>o'. Inr (o', 1))
     else if c3 = pad then
       sbind (wrs output op
         [push_bit 2 (CHAR64 c0) OR drop_bit 4 (CHAR64 c1),
          push_bit 4 (CHAR64 c1) OR drop_bit 2 (CHAR64 c2)]) (\<lambda>o'. Inr (o', 2))
     else
       sbind (wrs output op
         [push_bit 2 (CHAR64 c0) OR drop_bit 4 (CHAR64 c1),
          push_bit 4 (CHAR64 c1) OR drop_bit 2 (CHAR64 c2),
          push_bit 6 (CHAR64 c2) OR CHAR64 c3]) (\<lambda>o'. Inr (o', 3)))"

section \<open>Entry points\<close>

function Base64_Encode_loop :: "bytes \<Rightarrow> int \<Rightarrow> int \<Rightarrow> int \<Rightarrow> bytes \<Rightarrow> bytes cres" where
  "Base64_Encode_loop input input_len grpCount i output =
    (if i < grpCount then
       sbind (if i = grpCount - 1
              then Base64EncodeGroup input (nat (i * 3)) (input_len - i * 3) output (nat (i * 4))
              else Base64EncodeGroup input (nat (i * 3)) 3 output (nat (i * 4)))
             (\<lambda>o'. Base64_Encode_loop input input_len grpCount (i + 1) o')
     else Inr output)"
  by pat_completeness auto
termination
  by (relation "measure (\<lambda>(_, _, g, i, _). nat (g - i))") auto

declare Base64_Encode_loop.simps [simp del]

text \<open>
  The state an entry point leaves: its return value, the cell behind \<open>result_length\<close> and
  the output buffer. A null \<open>output\<close> is \<open>None\<close>.
\<close>

record b64_result =
  ret :: int
  result_length :: int
  out :: "bytes option"

definition Base64_Encode :: "bytes \<Rightarrow> int \<Rightarrow> bytes option \<Rightarrow> int \<Rightarrow> int \<Rightarrow> b64_result cres" where
  "Base64_Encode input input_len output output_size rl =
    (case output of
       None \<Rightarrow> Inr \<lparr>ret = - 1, result_length = rl, out = None\<rparr>
     | Some o0 \<Rightarrow>
       sbind (chk32 (input_len + 2)) (\<lambda>l2.
       sbind (chk32 (l2 sdiv 3 * 4)) (\<lambda>encode_length.
       if output_size < encode_length
       then Inr \<lparr>ret = - 2, result_length = rl, out = Some o0\<rparr>
       else sbind (Base64_Encode_loop input input_len (l2 sdiv 3) 0 o0) (\<lambda>o1.
         Inr \<lparr>ret = 0, result_length = encode_length, out = Some o1\<rparr>))))"

text \<open>
  The check of one group before it is decoded: 0, or the error code. The four characters
  are read first: the code always reads the last one, which has the largest index.
\<close>

definition check_group :: "byte \<Rightarrow> byte \<Rightarrow> byte \<Rightarrow> byte \<Rightarrow> int" where
  "check_group c0 c1 c2 c3 =
    (if c2 = pad \<and> c3 = pad then
       (if CHAR64 c0 = XX \<or> CHAR64 c1 = XX then - 4 else 0)
     else if c3 = pad then
       (if CHAR64 c0 = XX \<or> CHAR64 c1 = XX \<or> CHAR64 c2 = XX then - 5 else 0)
     else if list_ex (\<lambda>c. CHAR64 c = XX \<or> c = pad) [c0, c1, c2, c3] then - 6 else 0)"

function Base64_Decode_loop :: "bytes \<Rightarrow> int \<Rightarrow> int \<Rightarrow> int \<Rightarrow> int \<Rightarrow> bytes \<Rightarrow> b64_result cres" where
  "Base64_Decode_loop input input_len output_size count rl output =
    (if count < input_len then
       if rl \<ge> output_size then Inr \<lparr>ret = - 3, result_length = rl, out = Some output\<rparr>
       else
         sbind (rd input (nat count)) (\<lambda>c0. sbind (rd input (nat (count + 1))) (\<lambda>c1.
         sbind (rd input (nat (count + 2))) (\<lambda>c2. sbind (rd input (nat (count + 3))) (\<lambda>c3.
         if check_group c0 c1 c2 c3 \<noteq> 0
         then Inr \<lparr>ret = check_group c0 c1 c2 c3, result_length = rl, out = Some output\<rparr>
         else sbind (Base64DecodeGroup c0 c1 c2 c3 output (nat rl)) (\<lambda>(o', written).
           Base64_Decode_loop input input_len output_size (count + 4) (rl + written) o')))))
     else Inr \<lparr>ret = 0, result_length = rl, out = Some output\<rparr>)"
  by pat_completeness auto
termination
  by (relation "measure (\<lambda>(_, l, _, c, _, _). nat (l - c))") auto

declare Base64_Decode_loop.simps [simp del]

definition Base64_Decode :: "bytes \<Rightarrow> int \<Rightarrow> bytes option \<Rightarrow> int \<Rightarrow> int \<Rightarrow> b64_result cres" where
  "Base64_Decode input input_len output output_size rl =
    (case output of
       None \<Rightarrow> Inr \<lparr>ret = - 1, result_length = rl, out = None\<rparr>
     | Some o0 \<Rightarrow>
       if input_len smod 4 \<noteq> 0 then Inr \<lparr>ret = - 2, result_length = rl, out = Some o0\<rparr>
       else Base64_Decode_loop input input_len output_size 0 0 o0)"

section \<open>The alphabet\<close>

lemma alphabet_table: "\<forall>v\<in>set [0..<64]. index_64 ! unat (base64_char ! v) = word_of_nat v \<and>
    base64_char ! v \<noteq> pad \<and> base64_char ! v \<noteq> 0"
  by code_simp

lemma b64c_table:
  assumes "v < 64"
  shows CHAR64_b64c [simp]: "CHAR64 (b64c v) = v"
    and b64c_not_pad [simp]: "b64c v \<noteq> pad"
    and b64c_not_0 [simp]: "b64c v \<noteq> 0"
proof -
  have "unat v \<in> set [0..<64]"
    using assms by (simp add: word_less_nat_alt)
  with alphabet_table have "index_64 ! unat (base64_char ! unat v) = word_of_nat (unat v) \<and>
    base64_char ! unat v \<noteq> pad \<and> base64_char ! unat v \<noteq> 0" by blast
  then show "CHAR64 (b64c v) = v" "b64c v \<noteq> pad" "b64c v \<noteq> 0"
    by (simp_all add: CHAR64_def b64c_def)
qed

lemma less_64_not_XX: "v < 64 \<Longrightarrow> v \<noteq> XX"
  by (auto simp: XX_def)

lemma CHAR64_b64c_not_XX [simp]: "v < 64 \<Longrightarrow> CHAR64 (b64c v) \<noteq> XX"
  by (simp add: less_64_not_XX)

section \<open>Sextets\<close>

text \<open>The four sextets of three bytes, and the bytes they come back to.\<close>

definition sx0 :: "byte \<Rightarrow> byte" where "sx0 a = drop_bit 2 a"
definition sx1 :: "byte \<Rightarrow> byte \<Rightarrow> byte" where "sx1 a b = push_bit 4 (a AND 3) + drop_bit 4 b"
definition sx2 :: "byte \<Rightarrow> byte \<Rightarrow> byte" where "sx2 b c = push_bit 2 (b AND 15) + drop_bit 6 c"
definition sx3 :: "byte \<Rightarrow> byte" where "sx3 c = c AND 63"

lemma sx1_or: "sx1 a b = push_bit 4 (take_bit 2 a) OR drop_bit 4 b"
  unfolding sx1_def and_low_bits
  by (rule disjunctive_add) (auto simp: bit_simps dest: bit_imp_le_length)

lemma sx2_or: "sx2 b c = push_bit 2 (take_bit 4 b) OR drop_bit 6 c"
  unfolding sx2_def and_low_bits
  by (rule disjunctive_add) (auto simp: bit_simps dest: bit_imp_le_length)

lemma sx3_take: "sx3 c = take_bit 6 c"
  by (simp add: sx3_def and_low_bits)

lemma less_64_take: "(v::byte) = take_bit 6 w \<Longrightarrow> v < 64"
  using take_bit_6_less [of w] by simp

lemma sx_less [simp]: "sx0 a < 64" "sx1 a b < 64" "sx2 b c < 64" "sx3 c < 64"
proof -
  have "sx0 a = take_bit 6 (sx0 a)" "sx1 a b = take_bit 6 (sx1 a b)"
    "sx2 b c = take_bit 6 (sx2 b c)"
    unfolding sx0_def sx1_or sx2_or
    by (rule bit_word_eqI, auto simp: bit_simps dest: bit_imp_le_length)+
  then show "sx0 a < 64" "sx1 a b < 64" "sx2 b c < 64" "sx3 c < 64"
    by (blast intro: less_64_take sx3_take)+
qed

lemma sx_last: "push_bit 4 (a AND 3) = sx1 a 0" "push_bit 2 (b AND 15) = sx2 b 0"
  by (simp_all add: sx1_def sx2_def)

text \<open>What \<open>Base64DecodeGroup\<close> computes from the sextets.\<close>

lemma unsextet:
  "push_bit 2 (sx0 a) OR drop_bit 4 (sx1 a b) = a"
  "push_bit 4 (sx1 a b) OR drop_bit 2 (sx2 b c) = b"
  "push_bit 6 (sx2 b c) OR sx3 c = c"
  unfolding sx0_def sx1_or sx2_or sx3_take
  by (rule byte_eqI; simp add: bit_simps)+

section \<open>The abstract encoder\<close>

fun b64 :: "bytes \<Rightarrow> bytes" where
  "b64 [] = []"
| "b64 [a] = [b64c (sx0 a), b64c (sx1 a 0), pad, pad]"
| "b64 [a, b] = [b64c (sx0 a), b64c (sx1 a b), b64c (sx2 b 0), pad]"
| "b64 (a # b # c # r) = b64c (sx0 a) # b64c (sx1 a b) # b64c (sx2 b c) # b64c (sx3 c) # b64 r"

lemma b64_length [simp]: "length (b64 bs) = (length bs + 2) div 3 * 4"
proof (induction bs rule: b64.induct)
  case (4 a b c r)
  have "(length (a # b # c # r) + 2) div 3 = Suc ((length r + 2) div 3)"
    using div_add_self2 [of 3 "length r + 2"] by simp
  with "4.IH" show ?case by simp
qed simp_all

lemma b64_nonzero: "0 \<notin> set (b64 bs)"
proof -
  have p: "(0::byte) \<noteq> pad" by (simp add: pad_def)
  show ?thesis
    by (induction bs rule: b64.induct) (use p b64c_not_0 in \<open>auto simp del: b64c_not_0\<close>)
qed

lemma Base64EncodeGroup_simps:
  assumes "p = length pre" "q + 4 \<le> length buf"
  shows "Base64EncodeGroup (pre @ a # b # c # r) p 3 buf q = Inr (overlay buf q (b64 [a, b, c]))"
    and "Base64EncodeGroup (pre @ a # b # r) p 2 buf q = Inr (overlay buf q (b64 [a, b]))"
    and "Base64EncodeGroup (pre @ a # r) p 1 buf q = Inr (overlay buf q (b64 [a]))"
  using assms
  by (simp_all add: Base64EncodeGroup_def rd_def wrs_in nth_append sx_last
      del: wrs.simps) (simp_all add: sx0_def sx1_def sx2_def sx3_def)

lemma Base64_Encode_loop_done:
  "g \<le> i \<Longrightarrow> Base64_Encode_loop input l g i buf = Inr buf"
  by (subst Base64_Encode_loop.simps) simp

lemma Base64_Encode_loop_b64:
  assumes "length pre = 3 * k" "n = (length bs + 2) div 3" "4 * (k + n) \<le> length buf"
  shows "Base64_Encode_loop (pre @ bs @ rest) (int (3 * k + length bs)) (int (k + n)) (int k) buf =
    Inr (overlay buf (4 * k) (b64 bs))"
  using assms
proof (induction bs arbitrary: pre k n buf rule: b64.induct)
  case 1
  then show ?case by (simp add: Base64_Encode_loop_done)
next
  case (2 a)
  then show ?case
    by (subst Base64_Encode_loop.simps)
      (simp add: Base64EncodeGroup_simps Base64_Encode_loop_done nat_mult_distrib mult.commute)
next
  case (3 a b)
  then show ?case
    by (subst Base64_Encode_loop.simps)
      (simp add: Base64EncodeGroup_simps Base64_Encode_loop_done nat_mult_distrib mult.commute)
next
  case (4 a b c r)
  let ?o = "overlay buf (4 * k) (b64 [a, b, c])"
  let ?inp = "pre @ (a # b # c # r) @ rest"
  let ?l = "int (3 * k + length (a # b # c # r))"
  have n: "n = Suc ((length r + 2) div 3)" using "4.prems" by simp
  have g: "Base64EncodeGroup ?inp (3 * k) 3 buf (4 * k) = Inr ?o"
    using "4.prems" n Base64EncodeGroup_simps(1) [of "3 * k" pre "4 * k" buf a b c "r @ rest"] by simp
  have l: "?l - int k * 3 = 3" if "int k = int (k + n) - 1"
    using that n by (cases r) auto
  have "Base64_Encode_loop ?inp ?l (int (k + n)) (int k) buf
    = Base64_Encode_loop ?inp ?l (int (k + n)) (int k + 1) ?o"
    using n g l
    by (subst Base64_Encode_loop.simps) (auto simp add: nat_mult_distrib mult.commute)
  also have "\<dots> = Base64_Encode_loop ((pre @ [a, b, c]) @ r @ rest) (int (3 * Suc k + length r)) (int (Suc k + (length r + 2) div 3)) (int (Suc k)) ?o"
    by (simp add: n algebra_simps)
  also have "\<dots> = Inr (overlay ?o (4 * Suc k) (b64 r))"
    by (rule "4.IH") (use "4.prems" n in auto)
  also have "overlay ?o (4 * Suc k) (b64 r) = overlay buf (4 * k) (b64 (a # b # c # r))"
    using overlay_overlay [of "4 * Suc k" "4 * k" "b64 [a, b, c]" "b64 r" buf] "4.prems" n by simp
  finally show ?case .
qed

section \<open>Decoding what was encoded\<close>

lemma Base64_Decode_loop_done:
  "l \<le> count \<Longrightarrow> Base64_Decode_loop input l osz count rl buf =
     Inr \<lparr>ret = 0, result_length = rl, out = Some buf\<rparr>"
  by (subst Base64_Decode_loop.simps) simp

lemma Base64_Decode_loop_full:
  "count < l \<Longrightarrow> osz \<le> rl \<Longrightarrow>
    Base64_Decode_loop input l osz count rl buf = Inr \<lparr>ret = - 3, result_length = rl, out = Some buf\<rparr>"
  by (subst Base64_Decode_loop.simps) simp

text \<open>One round of the loop on four characters that pass the check.\<close>

lemma Base64_Decode_loop_step:
  assumes "count = int (length pre)" "count + 4 \<le> l" "rl < osz"
    and "check_group c0 c1 c2 c3 = 0"
  shows "Base64_Decode_loop (pre @ c0 # c1 # c2 # c3 # rest) l osz count rl buf =
    sbind (Base64DecodeGroup c0 c1 c2 c3 buf (nat rl)) (\<lambda>(buf', w).
    Base64_Decode_loop (pre @ c0 # c1 # c2 # c3 # rest) l osz (count + 4) (rl + w) buf')"
  using assms
  by (subst Base64_Decode_loop.simps) (simp add: nat_add_distrib rd_def nth_append)

lemma check_group_b64:
  "check_group (b64c (sx0 a)) (b64c (sx1 a b)) (b64c (sx2 b c)) (b64c (sx3 d)) = 0"
  "check_group (b64c (sx0 a)) (b64c (sx1 a b)) (b64c (sx2 b c)) pad = 0"
  "check_group (b64c (sx0 a)) (b64c (sx1 a b)) pad pad = 0"
  by (simp_all add: check_group_def less_64_not_XX)

lemma Base64DecodeGroup_b64:
  "Base64DecodeGroup (b64c (sx0 a)) (b64c (sx1 a b)) (b64c (sx2 b c)) (b64c (sx3 c)) buf k =
    sbind (wrs buf k [a, b, c]) (\<lambda>buf'. Inr (buf', 3))"
  "Base64DecodeGroup (b64c (sx0 a)) (b64c (sx1 a b)) (b64c (sx2 b c)) pad buf k =
    sbind (wrs buf k [a, b]) (\<lambda>buf'. Inr (buf', 2))"
  "Base64DecodeGroup (b64c (sx0 a)) (b64c (sx1 a b)) pad pad buf k =
    sbind (wrs buf k [a]) (\<lambda>buf'. Inr (buf', 1))"
  by (simp_all add: Base64DecodeGroup_def unsextet del: wrs.simps)

text \<open>
  The decoder on encoded bytes, for an output buffer of the stated size. The check of the
  output size looks only at the bytes already written: a group that does not fit is
  written past the end, unless the buffer ends at a group boundary.
\<close>

definition b64_decoded :: "bytes \<Rightarrow> bytes \<Rightarrow> nat \<Rightarrow> b64_result cres" where
  "b64_decoded bs buf k =
    (if k + length bs \<le> length buf
     then Inr \<lparr>ret = 0, result_length = int (k + length bs), out = Some (overlay buf k bs)\<rparr>
     else if (length buf - k) mod 3 = 0
     then Inr \<lparr>ret = - 3, result_length = int (length buf),
               out = Some (take k buf @ take (length buf - k) bs)\<rparr>
     else Inl WriteOOB)"

lemma b64_decoded_overlay:
  assumes "k + 3 \<le> length buf"
  shows "b64_decoded r (overlay buf k [a, b, c]) (k + 3) = b64_decoded (a # b # c # r) buf k"
proof (cases "k + 3 + length r \<le> length buf")
  case True
  then show ?thesis
    using overlay_overlay [of "k + 3" k "[a, b, c]" r buf] by (simp add: b64_decoded_def)
next
  case False
  have "take (k + 3) (overlay buf k [a, b, c]) = take k buf @ [a, b, c]"
    using assms by (simp add: take_overlay)
  moreover have "(length buf - (k + 3)) mod 3 = (length buf - k) mod 3"
    using assms le_mod_geq [of 3 "length buf - k"] by simp
  moreover have "take (length buf - k) (a # b # c # r) = [a, b, c] @ take (length buf - (k + 3)) r"
  proof -
    have "length buf - k = Suc (Suc (Suc (length buf - (k + 3))))" using assms by linarith
    then show ?thesis by (simp only: take_Suc_Cons append.simps)
  qed
  ultimately show ?thesis
    using assms False by (simp add: b64_decoded_def del: take_Cons)
qed

lemma Base64_Decode_loop_b64:
  assumes "l = int (length pre + length (b64 bs))" "k \<le> length buf"
  shows "Base64_Decode_loop (pre @ b64 bs @ rest) l (int (length buf)) (int (length pre)) (int k) buf =
    b64_decoded bs buf k"
  using assms
proof (induction bs arbitrary: pre k buf rule: b64.induct)
  case 1
  then show ?case by (simp add: Base64_Decode_loop_done b64_decoded_def)
next
  case (2 a)
  then show ?case
    by (cases "k = length buf")
      (simp_all add: Base64_Decode_loop_full Base64_Decode_loop_step [OF refl _ _ check_group_b64(3)]
        Base64DecodeGroup_b64 wrs_in Base64_Decode_loop_done b64_decoded_def del: wrs.simps)
next
  case (3 a b)
  then consider "length buf = k" | "length buf = k + 1" | "k + 2 \<le> length buf" by linarith
  then show ?case
    using "3.prems"
    by cases
      (simp_all add: Base64_Decode_loop_full Base64_Decode_loop_step [OF refl _ _ check_group_b64(2)]
        Base64DecodeGroup_b64 wrs_in wrs_out Base64_Decode_loop_done b64_decoded_def del: wrs.simps)
next
  case (4 a b c r)
  let ?g = "[b64c (sx0 a), b64c (sx1 a b), b64c (sx2 b c), b64c (sx3 c)]"
  let ?buf = "overlay buf k [a, b, c]"
  let ?loop = "Base64_Decode_loop (pre @ b64 (a # b # c # r) @ rest) l (int (length buf))"
  consider "length buf = k" | "k < length buf" "length buf < k + 3" | "k + 3 \<le> length buf"
    using "4.prems" by linarith
  then show ?case
  proof cases
    case 1
    with "4.prems" show ?thesis
      by (simp add: Base64_Decode_loop_full b64_decoded_def)
  next
    case 2
    then have "(length buf - k) mod 3 \<noteq> 0" by (simp add: mod_less)
    with 2 "4.prems" show ?thesis
      by (simp add: Base64_Decode_loop_step [OF refl _ _ check_group_b64(1)]
        Base64DecodeGroup_b64 wrs_out b64_decoded_def del: wrs.simps)
  next
    case 3
    then have len: "length ?buf = length buf" by simp
    have "?loop (int (length pre)) (int k) buf =
      Base64_Decode_loop ((pre @ ?g) @ b64 r @ rest) l (int (length ?buf)) (int (length (pre @ ?g))) (int (k + 3)) ?buf"
      using 3 "4.prems" len
      by (simp add: Base64_Decode_loop_step [OF refl _ _ check_group_b64(1)]
        Base64DecodeGroup_b64 wrs_in ac_simps del: wrs.simps)
    also have "\<dots> = b64_decoded r ?buf (k + 3)"
      by (rule "4.IH") (use "4.prems" 3 len in auto)
    also have "\<dots> = b64_decoded (a # b # c # r) buf k"
      by (rule b64_decoded_overlay [OF 3])
    finally show ?thesis .
  qed
qed

section \<open>The entry points\<close>

text \<open>The longest input whose encoded length is an int.\<close>

definition b64_max_input :: int where "b64_max_input = 1610612733"

lemma encode_length_range:
  assumes "int (length bs) \<le> b64_max_input"
  shows "chk32 (int (length bs) + 2) = Inr (int (length bs + 2))"
    and "chk32 (int (length bs + 2) sdiv 3 * 4) = Inr (int (length (b64 bs)))"
proof -
  have "int (length bs + 2) sdiv 3 = int ((length bs + 2) div 3)"
    by (simp only: sdiv_nonneg zdiv_int of_nat_numeral)
  moreover have "(int (length bs) + 2) div 3 \<le> 536870911"
    using assms unfolding b64_max_input_def by linarith
  ultimately show "chk32 (int (length bs) + 2) = Inr (int (length bs + 2))"
    and "chk32 (int (length bs + 2) sdiv 3 * 4) = Inr (int (length (b64 bs)))"
    using assms by (simp_all add: chk32_def int_min_def int_max_def b64_max_input_def zdiv_int add.commute)
qed

lemma Base64_Encode_eq:
  assumes "int (length bs) \<le> b64_max_input"
  shows "Base64_Encode (bs @ rest) (int (length bs)) (Some buf) osz rl =
    (if osz < int (length (b64 bs)) then Inr \<lparr>ret = - 2, result_length = rl, out = Some buf\<rparr>
     else sbind (Base64_Encode_loop (bs @ rest) (int (length bs)) (int ((length bs + 2) div 3)) 0 buf)
       (\<lambda>o1. Inr \<lparr>ret = 0, result_length = int (length (b64 bs)), out = Some o1\<rparr>))"
proof -
  have "int (length bs + 2) sdiv 3 = int ((length bs + 2) div 3)"
    by (simp only: sdiv_nonneg zdiv_int of_nat_numeral)
  then show ?thesis
    using encode_length_range [OF assms] by (simp add: Base64_Encode_def)
qed

lemma Base64_Encode_refines_eq:
  assumes "int (length bs) \<le> b64_max_input"
  shows "Base64_Encode (bs @ rest) (int (length bs)) (Some buf) (int (length buf)) rl =
    (if length buf < (length bs + 2) div 3 * 4
     then Inr \<lparr>ret = - 2, result_length = rl, out = Some buf\<rparr>
     else Inr \<lparr>ret = 0, result_length = int ((length bs + 2) div 3 * 4),
               out = Some (overlay buf 0 (b64 bs))\<rparr>)"
  using Base64_Encode_eq [OF assms, of rest buf "int (length buf)" rl]
    Base64_Encode_loop_b64 [of "[]" 0 "(length bs + 2) div 3" bs buf rest]
  by auto

lemma Base64_Decode_b64:
  "Base64_Decode (b64 bs @ rest) (int (length (b64 bs))) (Some buf) (int (length buf)) rl =
    b64_decoded bs buf 0"
proof -
  let ?n = "length (b64 bs)"
  have "int ?n smod 4 = 0" by (simp add: smod_nonneg)
  then show ?thesis
    using Base64_Decode_loop_b64 [of "int ?n" "[]" bs 0 buf rest]
    by (simp add: Base64_Decode_def)
qed

text \<open>
  C1: \<open>Base64_Encode\<close> refines the abstract encoder: for every input whose encoded length
  is an int, and every output buffer of the length it is told, it returns -2 and changes
  nothing when the encoding does not fit; otherwise it returns 0, puts exactly the
  encoding at the start of the buffer, leaves the rest of the buffer alone and reports the
  encoded length. It faults in no case.
\<close>

theorem Base64_Encode_refines:
  assumes "int (length bs) \<le> b64_max_input"
  shows "Base64_Encode (bs @ rest) (int (length bs)) (Some buf) (int (length buf)) rl =
    (if length buf < (length bs + 2) div 3 * 4
     then Inr \<lparr>ret = - 2, result_length = rl, out = Some buf\<rparr>
     else Inr \<lparr>ret = 0, result_length = int ((length bs + 2) div 3 * 4),
               out = Some (overlay buf 0 (b64 bs))\<rparr>)"
  by (rule Base64_Encode_refines_eq [OF assms])

theorem Base64_Encode_refines_witness:
  "Base64_Encode [77, 97] 2 (Some [0, 0, 0, 0, 9]) 5 7 =
    Inr \<lparr>ret = 0, result_length = 4, out = Some [84, 87, 69, 61, 9]\<rparr>"
proof -
  have "b64 [77, 97] = [84, 87, 69, 61]" by code_simp
  then show ?thesis
    using Base64_Encode_refines [of "[77, 97]" "[]" "[0, 0, 0, 0, 9]" 7]
    by (simp add: b64_max_input_def overlay_0)
qed

text \<open>
  C2: decoding inverts encoding. What \<open>Base64_Encode\<close> leaves in its buffer, with the
  length it reports, is decoded by \<open>Base64_Decode\<close> into the original bytes, for every
  input and any two buffers that are large enough.
\<close>

theorem base64_roundtrip:
  assumes "int (length bs) \<le> b64_max_input"
    and "(length bs + 2) div 3 * 4 \<le> length buf" and "length bs \<le> length buf2"
  shows "\<exists>r e. Base64_Encode bs (int (length bs)) (Some buf) (int (length buf)) rl = Inr r
    \<and> ret r = 0 \<and> out r = Some e
    \<and> Base64_Decode e (result_length r) (Some buf2) (int (length buf2)) rl2 =
       Inr \<lparr>ret = 0, result_length = int (length bs), out = Some (overlay buf2 0 bs)\<rparr>"
proof -
  have "Base64_Encode bs (int (length bs)) (Some buf) (int (length buf)) rl =
      Inr \<lparr>ret = 0, result_length = int (length (b64 bs)), out = Some (b64 bs @ drop (length (b64 bs)) buf)\<rparr>"
    using assms(2) Base64_Encode_refines_eq [OF assms(1), of "[]" buf rl] by (simp add: overlay_0)
  moreover have "b64_decoded bs buf2 0 =
      Inr \<lparr>ret = 0, result_length = int (length bs), out = Some (overlay buf2 0 bs)\<rparr>"
    using assms(3) by (simp add: b64_decoded_def)
  ultimately show ?thesis
    using Base64_Decode_b64 [of bs "drop (length (b64 bs)) buf" buf2 rl2] by simp
qed

theorem base64_roundtrip_witness:
  "\<exists>r e. Base64_Encode [0, 255, 16] 3 (Some [0, 0, 0, 0]) 4 0 = Inr r
    \<and> ret r = 0 \<and> out r = Some e
    \<and> Base64_Decode e (result_length r) (Some [0, 0, 0]) 3 0 =
       Inr \<lparr>ret = 0, result_length = 3, out = Some [0, 255, 16]\<rparr>"
  using base64_roundtrip [of "[0, 255, 16]" "[0, 0, 0, 0]" "[0, 0, 0]" 0 0]
  by (simp add: b64_max_input_def overlay_0)

text \<open>
  What \<open>Base64_Decode\<close> does on encoded bytes when it is told the true size of its
  output buffer: it succeeds when the bytes fit; when they do not, it stops with -3 if the
  buffer ends at a group boundary, and otherwise writes past the end of the buffer.
\<close>

theorem Base64_Decode_small_buffer:
  "Base64_Decode (b64 bs @ rest) (int (length (b64 bs))) (Some buf) (int (length buf)) rl =
    (if length bs \<le> length buf
     then Inr \<lparr>ret = 0, result_length = int (length bs), out = Some (overlay buf 0 bs)\<rparr>
     else if length buf mod 3 = 0
     then Inr \<lparr>ret = - 3, result_length = int (length buf), out = Some (take (length buf) bs)\<rparr>
     else Inl WriteOOB)"
  using Base64_Decode_b64 [of bs rest buf rl] by (simp add: b64_decoded_def)

section \<open>Bounds of the decoder on any input\<close>

lemma Base64DecodeGroup_bounds:
  assumes "k + 3 \<le> length buf"
  shows "\<exists>buf' w. Base64DecodeGroup c0 c1 c2 c3 buf k = Inr (buf', w) \<and> 1 \<le> w \<and> w \<le> 3
    \<and> length buf' = length buf"
  using assms by (simp add: Base64DecodeGroup_def wrs_in del: wrs.simps)

lemma check_group_codes: "check_group c0 c1 c2 c3 \<in> {0, - 4, - 5, - 6}"
  by (simp add: check_group_def)

text \<open>
  The decoder stops when the stated size is reached, and each group of four characters gives at most three bytes: either makes
  a bound of what it writes.
\<close>

definition decode_room :: "int \<Rightarrow> int \<Rightarrow> int" where
  "decode_room l osz = min (osz + 2) (3 * (l div 4))"

lemma Base64_Decode_loop_bounds:
  assumes "l \<le> int (length input)" "l smod 4 = 0" "0 \<le> count" "count mod 4 = 0"
    and "decode_room l osz \<le> int (length buf)" "0 \<le> rl" "rl \<le> 3 * (count div 4)" "rl \<le> max 0 (decode_room l osz)"
  shows "\<exists>r b. Base64_Decode_loop input l osz count rl buf = Inr r \<and> out r = Some b
    \<and> length b = length buf \<and> ret r \<in> {0, - 3, - 4, - 5, - 6}
    \<and> 0 \<le> result_length r \<and> result_length r \<le> max 0 (decode_room l osz)"
  using assms
proof (induction input l osz count rl buf rule: Base64_Decode_loop.induct)
  case (1 input l osz count rl buf)
  let ?c = "\<lambda>i. input ! nat (count + i)"
  show ?case
  proof (cases "count < l \<and> rl < osz")
    case False
    then show ?thesis
      using "1.prems" by (subst Base64_Decode_loop.simps) auto
  next
    case True
    then have "l mod 4 = 0" using "1.prems"(2,3) by (simp add: smod_nonneg)
    then have l4: "count + 4 \<le> l" using True "1.prems"(4) by presburger
    have "count div 4 + 1 \<le> l div 4" using zdiv_mono1 [OF l4, of 4] by simp
    then have room: "rl + 3 \<le> decode_room l osz" using True "1.prems"(7) by (simp add: decode_room_def)
    have reads: "rd input (nat count) = Inr (?c 0)" "rd input (nat (count + 1)) = Inr (?c 1)"
        "rd input (nat (count + 2)) = Inr (?c 2)" "rd input (nat (count + 3)) = Inr (?c 3)"
      using l4 "1.prems"(1,3) by auto
    obtain buf' w where g: "Base64DecodeGroup (?c 0) (?c 1) (?c 2) (?c 3) buf (nat rl) = Inr (buf', w)"
        and w: "1 \<le> w" "w \<le> 3" "length buf' = length buf"
    proof -
      have "nat rl + 3 \<le> length buf" using room "1.prems"(5,6) by linarith
      from Base64DecodeGroup_bounds [OF this] that show ?thesis by blast
    qed
    show ?thesis
    proof (cases "check_group (?c 0) (?c 1) (?c 2) (?c 3) = 0")
      case False
      then have "check_group (?c 0) (?c 1) (?c 2) (?c 3) \<in> {- 4, - 5, - 6}"
        using check_group_codes by blast
      then show ?thesis
        using True False "1.prems" reads by (subst Base64_Decode_loop.simps) auto
    next
      case ok: True
      have eq: "Base64_Decode_loop input l osz count rl buf =
          Base64_Decode_loop input l osz (count + 4) (rl + w) buf'"
        using True ok g reads by (subst Base64_Decode_loop.simps) simp
      have "\<exists>r b. Base64_Decode_loop input l osz (count + 4) (rl + w) buf' = Inr r \<and> out r = Some b
        \<and> length b = length buf' \<and> ret r \<in> {0, - 3, - 4, - 5, - 6}
        \<and> 0 \<le> result_length r \<and> result_length r \<le> max 0 (decode_room l osz)"
        by (rule "1.IH" [OF _ _ reads _ g refl]) (use True ok "1.prems" w room in auto)
      then show ?thesis unfolding eq w(3) .
    qed
  qed
qed

text \<open>
  C3: on any input of at least the stated length, with an output buffer of three quarters of that length, or of two bytes more
  than the stated size, \<open>Base64_Decode\<close> never reads or writes out of bounds, returns one of its documented codes, and
  reports at most as many bytes as either of these bounds. (\<open>Base64_Decode_small_buffer\<close> shows that the two extra bytes are
  needed.)
\<close>

theorem Base64_Decode_safe:
  assumes "input_len \<le> int (length input)"
    and "3 * (input_len div 4) \<le> int (length buf) \<or> output_size + 2 \<le> int (length buf)"
  shows "\<exists>r b. Base64_Decode input input_len (Some buf) output_size rl = Inr r \<and> out r = Some b
    \<and> length b = length buf \<and> ret r \<in> {0, - 2, - 3, - 4, - 5, - 6}
    \<and> (ret r = - 2 \<and> result_length r = rl
       \<or> 0 \<le> result_length r \<and> result_length r \<le> max 0 (min (output_size + 2) (3 * (input_len div 4))))"
proof (cases "input_len smod 4 = 0")
  case True
  have "decode_room input_len output_size \<le> int (length buf)" using assms(2) by (auto simp: decode_room_def)
  from Base64_Decode_loop_bounds [OF assms(1) True _ _ this, of 0 0]
  show ?thesis using True by (auto simp: Base64_Decode_def decode_room_def)
next
  case False
  then show ?thesis by (simp add: Base64_Decode_def)
qed

theorem Base64_Decode_safe_witness:
  "\<exists>r b. Base64_Decode [65, 65, 65, 65] 4 (Some [0, 0, 0]) 100 0 = Inr r \<and> out r = Some b
    \<and> length b = 3 \<and> ret r \<in> {0, - 2, - 3, - 4, - 5, - 6}
    \<and> (ret r = - 2 \<and> result_length r = 0 \<or> 0 \<le> result_length r \<and> result_length r \<le> 3)"
  using Base64_Decode_safe [of 4 "[65, 65, 65, 65]" "[0, 0, 0]" 100 0]
  by (simp add: eval_nat_numeral)

end
