(* ===== verification/Hex.thy ===== *)
theory Hex
  imports Prelude
begin

text \<open>
  The percent escapes of \<open>src/src/tools/hex.cpp\<close>: \<open>String_Encode\<close> and \<open>HexString_Encode\<close>,
  which differ in the bytes they escape, and the two decoders, which are the same loop.
  A string argument is the list of its bytes before the NUL; reads are checked against
  the string with its terminator, writes against the block \<open>malloc\<close> returned.
\<close>

section \<open>Tables and helpers\<close>

definition sEncodeTable :: bytes where
  "sEncodeTable = [61, 38, 37, 13, 10]"  \<comment> \<open>the characters = & % CR LF\<close>

definition sHexTable :: bytes where
  "sHexTable = str ''0123456789ABCDEF''"

definition percent :: byte where "percent = 37"

text \<open>\<open>strchr\<close> finds the terminator of the table: the index of a NUL is 16.\<close>

definition get_index :: "byte \<Rightarrow> int" where
  "get_index ch = (case strchr sHexTable (toupper ch) of Some i \<Rightarrow> int i | None \<Rightarrow> - 1)"

definition hex_hi :: "byte \<Rightarrow> byte" where
  "hex_hi c = sHexTable ! unat (signed_drop_bit 4 c AND 15)"

definition hex_lo :: "byte \<Rightarrow> byte" where
  "hex_lo c = sHexTable ! unat (c AND 15)"

section \<open>Encoders\<close>

text \<open>
  The loop of both encoders: \<open>esc\<close> tells which bytes are escaped, \<open>q\<close> is the write
  position in the block.
\<close>

fun encode_loop :: "(byte \<Rightarrow> bool) \<Rightarrow> bytes \<Rightarrow> bytes \<Rightarrow> nat \<Rightarrow> bytes cres" where
  "encode_loop esc [] buf q = Inr buf"
| "encode_loop esc (c # p) buf q =
    (if esc c
     then sbind (wrs buf q [percent, hex_hi c, hex_lo c]) (\<lambda>b. encode_loop esc p b (q + 3))
     else sbind (wrs buf q [c]) (\<lambda>b. encode_loop esc p b (q + 1)))"

text \<open>
  The result: the return value and the block behind the out parameter. The flag says
  whether \<open>malloc\<close> succeeds.
\<close>

type_synonym hex_result = "int \<times> bytes option"

definition String_esc :: "byte \<Rightarrow> bool" where
  "String_esc c = (strchr sEncodeTable c \<noteq> None)"

definition HexString_esc :: "byte \<Rightarrow> bool" where
  "HexString_esc c = (\<not> isprint c \<or> strchr sEncodeTable c \<noteq> None)"

definition String_Encode :: "bool \<Rightarrow> bytes \<Rightarrow> hex_result cres" where
  "String_Encode malloc_ok s =
    (if \<not> malloc_ok then Inr (- 1, None)
     else sbind (encode_loop String_esc s (replicate (length s * 3 + 4) 0) 0)
       (\<lambda>b. Inr (0, Some b)))"

definition HexString_Encode :: "bool \<Rightarrow> bytes \<Rightarrow> hex_result cres" where
  "HexString_Encode malloc_ok s =
    (if \<not> malloc_ok then Inr (- 1, None)
     else sbind (encode_loop HexString_esc s (replicate (length s * 3 + 4) 0) 0)
       (\<lambda>b. Inr (0, Some b)))"

section \<open>Decoders\<close>

lemma cget_le: "cget s p = Inr c \<Longrightarrow> p \<le> length s"
  by (auto simp: cget_def rd_def split: if_splits)

function decode_loop :: "bytes \<Rightarrow> nat \<Rightarrow> bytes \<Rightarrow> nat \<Rightarrow> hex_result cres" where
  "decode_loop s p buf q =
    sbind (cget s p) (\<lambda>c.
      if c = 0 then Inr (0, Some buf)
      else if c = percent then
        sbind (cget s (p + 1)) (\<lambda>a.
        if get_index a < 0 then Inr (- 2, Some buf) else
        sbind (cget s (p + 2)) (\<lambda>b.
        if get_index b < 0 then Inr (- 2, Some buf) else
        sbind (wr buf q (word_of_int (get_index a * 16 + get_index b))) (\<lambda>buf'.
        decode_loop s (p + 3) buf' (q + 1))))
      else sbind (wr buf q c) (\<lambda>buf'. decode_loop s (p + 1) buf' (q + 1)))"
  by pat_completeness auto
termination
  by (relation "measure (\<lambda>(s, p, _, _). Suc (length s) - p)") (auto dest: cget_le)

declare decode_loop.simps [simp del]

definition String_Decode :: "bool \<Rightarrow> bytes \<Rightarrow> hex_result cres" where
  "String_Decode malloc_ok s =
    (if \<not> malloc_ok then Inr (- 1, None)
     else decode_loop s 0 (replicate (length s + 4) 0) 0)"

definition HexString_Decode :: "bool \<Rightarrow> bytes \<Rightarrow> hex_result cres" where
  "HexString_Decode malloc_ok s =
    (if \<not> malloc_ok then Inr (- 1, None)
     else decode_loop s 0 (replicate (length s + 4) 0) 0)"

section \<open>What the loops compute\<close>

definition escape :: "(byte \<Rightarrow> bool) \<Rightarrow> bytes \<Rightarrow> bytes" where
  "escape esc s = concat (map (\<lambda>c. if esc c then [percent, hex_hi c, hex_lo c] else [c]) s)"

lemma escape_simps [simp]:
  "escape esc [] = []"
  "escape esc (c # s) = (if esc c then [percent, hex_hi c, hex_lo c] else [c]) @ escape esc s"
  by (simp_all add: escape_def)

lemma escape_length: "length (escape esc s) \<le> length s * 3"
  by (induction s) auto

lemma encode_loop_eq:
  "q + length (escape esc s) \<le> length buf \<Longrightarrow>
    encode_loop esc s buf q = Inr (overlay buf q (escape esc s))"
proof (induction s arbitrary: buf q)
  case Nil
  then show ?case by simp
next
  case (Cons c s)
  let ?e = "if esc c then [percent, hex_hi c, hex_lo c] else [c]"
  have len: "q + length ?e + length (escape esc s) \<le> length buf"
    using Cons.prems by simp
  then have "encode_loop esc (c # s) buf q = encode_loop esc s (overlay buf q ?e) (q + length ?e)"
    by (cases "esc c") (simp_all add: wrs_in numeral_3_eq_3 del: wrs.simps)
  also have "\<dots> = Inr (overlay (overlay buf q ?e) (q + length ?e) (escape esc s))"
    by (rule Cons.IH) (use len in auto)
  also have "overlay (overlay buf q ?e) (q + length ?e) (escape esc s) = overlay buf q (escape esc (c # s))"
    using len by (simp add: overlay_overlay)
  finally show ?case .
qed

lemma encode_block:
  "encode_loop esc s (replicate (length s * 3 + 4) 0) 0 =
    Inr (escape esc s @ replicate (length s * 3 + 4 - length (escape esc s)) 0)"
  using escape_length [of esc s] by (simp add: encode_loop_eq overlay_0)

text \<open>Hexadecimal digits.\<close>

lemma hex_table: "\<forall>v \<in> set [0..<16]. get_index (sHexTable ! v) = int v \<and> sHexTable ! v \<noteq> 0
    \<and> sHexTable ! v \<noteq> percent"
  by code_simp

lemma get_index_hex [simp]:
  "get_index (hex_hi c) = int (unat (signed_drop_bit 4 c AND 15))"
  "get_index (hex_lo c) = int (unat (c AND 15))"
  using hex_table nibble_less [of "signed_drop_bit 4 c"] nibble_less [of c]
  by (simp_all add: hex_hi_def hex_lo_def)

lemma hex_digit_ne [simp]: "hex_hi c \<noteq> 0" "hex_lo c \<noteq> 0" "hex_hi c \<noteq> percent" "hex_lo c \<noteq> percent"
  using hex_table nibble_less [of "signed_drop_bit 4 c"] nibble_less [of c]
  by (simp_all add: hex_hi_def hex_lo_def)

lemma hex_byte: "word_of_int (int (unat (signed_drop_bit 4 c AND 15)) * 16 + int (unat (c AND 15))) = c"
  for c :: byte
proof -
  have "(word_of_int (int (unat (signed_drop_bit 4 c AND 15)) * 16 + int (unat (c AND 15))) :: byte)
    = push_bit 4 (signed_drop_bit 4 c AND 15) + (c AND 15)"
    by (simp add: push_bit_eq_mult)
  also have "\<dots> = push_bit 4 (signed_drop_bit 4 c AND 15) OR (c AND 15)"
    unfolding and_low_bits by (rule disjunctive_add) (auto simp: bit_simps)
  also have "\<dots> = c"
    unfolding and_low_bits by (rule byte_eqI) (simp_all add: bit_simps)
  finally show ?thesis .
qed

section \<open>What the decoder computes\<close>

text \<open>
  The decoder on the string alone, without the block: the bytes it has written when it
  ends, with its return value. An escape cut off by the end of the string makes it read
  past the terminator, since \<open>get_index\<close> accepts the NUL.
\<close>

fun unescape :: "bytes \<Rightarrow> (int \<times> bytes) cres" where
  "unescape [] = Inr (0, [])"
| "unescape (c # r) =
    (if c \<noteq> percent then sbind (unescape r) (\<lambda>(e, bs). Inr (e, c # bs))
     else case r of
       [] \<Rightarrow> Inl ReadOOB
     | [a] \<Rightarrow> if get_index a < 0 then Inr (- 2, []) else Inl ReadOOB
     | a # b # r' \<Rightarrow>
         if get_index a < 0 then Inr (- 2, [])
         else if get_index b < 0 then Inr (- 2, [])
         else sbind (unescape r') (\<lambda>(e, bs). Inr (e, word_of_int (get_index a * 16 + get_index b) # bs)))"

lemma get_index_0: "get_index 0 = 16"
  by code_simp

lemma unescape_length: "unescape s = Inr (e, bs) \<Longrightarrow> length bs \<le> length s"
proof (induction s arbitrary: e bs rule: unescape.induct)
  case 1
  then show ?case by simp
next
  case (2 c r)
  then show ?case
    by (auto simp: sbind_eq_Inr_iff split: if_splits list.splits prod.splits) (fastforce+)?
qed

lemma cget_app: "cget (pre @ c # r) (length pre) = Inr c"
  by (simp add: nth_append)

lemma decode_loop_end: "decode_loop s (length s) buf q = Inr (0, Some buf)"
  by (subst decode_loop.simps) simp

lemma decode_loop_past: "length s < p \<Longrightarrow> decode_loop s p buf q = Inl ReadOOB"
  by (subst decode_loop.simps) (simp add: cget_out)

lemma decode_loop_plain:
  assumes "c \<noteq> 0" "c \<noteq> percent" "q < length buf"
  shows "decode_loop (pre @ c # r) (length pre) buf q =
    decode_loop (pre @ c # r) (Suc (length pre)) (buf[q := c]) (Suc q)"
  using assms by (subst decode_loop.simps) (simp add: nth_append)

lemma decode_loop_escape:
  assumes "q < length buf"
  shows "decode_loop (pre @ percent # r) (length pre) buf q =
    (case r of [] \<Rightarrow> Inl ReadOOB
     | a # r' \<Rightarrow> if get_index a < 0 then Inr (- 2, Some buf)
       else case r' of [] \<Rightarrow> Inl ReadOOB
       | b # r'' \<Rightarrow> if get_index b < 0 then Inr (- 2, Some buf)
         else decode_loop (pre @ percent # r) (length pre + 3)
           (buf[q := word_of_int (get_index a * 16 + get_index b)]) (Suc q))"
proof -
  have p: "percent \<noteq> 0" by (simp add: percent_def)
  show ?thesis
  proof (cases r)
    case Nil
    then show ?thesis
      using p by (subst decode_loop.simps) (simp add: cget_def rd_def nth_append get_index_0)
  next
    case (Cons a r')
    then show ?thesis
      using p assms
      by (subst decode_loop.simps; cases r')
        (simp_all add: cget_def rd_def nth_append get_index_0 decode_loop_past)
  qed
qed

lemma decode_loop_unescape:
  assumes "0 \<notin> set r" "q + length r < length buf"
  shows "decode_loop (pre @ r) (length pre) buf q =
    sbind (unescape r) (\<lambda>(e, bs). Inr (e, Some (overlay buf q bs)))"
  using assms
proof (induction r arbitrary: pre buf q rule: unescape.induct)
  case 1
  then show ?case using decode_loop_end [of pre] by simp
next
  case (2 c r)
  show ?case
  proof (cases "c = percent")
    case False
    have "decode_loop (pre @ c # r) (length pre) buf q =
        decode_loop ((pre @ [c]) @ r) (length (pre @ [c])) (buf[q := c]) (Suc q)"
      using decode_loop_plain [of c q buf pre r] "2.prems" False by simp
    also have "\<dots> = sbind (unescape r) (\<lambda>(e, bs). Inr (e, Some (overlay (buf[q := c]) (Suc q) bs)))"
      by (rule "2.IH"(1)) (use "2.prems" False in auto)
    also have "\<dots> = sbind (unescape (c # r)) (\<lambda>(e, bs). Inr (e, Some (overlay buf q bs)))"
    proof (cases "unescape r")
      case (Inr x)
      then obtain e bs where "unescape r = Inr (e, bs)" by (cases x) auto
      moreover from this have "length bs \<le> length r" by (rule unescape_length)
      ultimately show ?thesis using "2.prems" False by (simp add: overlay_Cons)
    qed (use False in simp)
    finally show ?thesis .
  next
    case True
    show ?thesis
    proof (cases "\<exists>a b r'. r = a # b # r' \<and> 0 \<le> get_index a \<and> 0 \<le> get_index b")
      case False
      with True show ?thesis
        using decode_loop_escape [of q buf pre r] "2.prems"
        by (auto split: list.splits)
    next
      case ex: True
      then obtain a b r' where r: "r = a # b # r'" "0 \<le> get_index a" "0 \<le> get_index b" by blast
      let ?v = "word_of_int (get_index a * 16 + get_index b)"
      have "decode_loop (pre @ c # r) (length pre) buf q =
          decode_loop ((pre @ [percent, a, b]) @ r') (length (pre @ [percent, a, b])) (buf[q := ?v]) (Suc q)"
        using decode_loop_escape [of q buf pre r] "2.prems" True r by (simp add: numeral_3_eq_3)
      also have "\<dots> = sbind (unescape r') (\<lambda>(e, bs). Inr (e, Some (overlay (buf[q := ?v]) (Suc q) bs)))"
        by (rule "2.IH"(2)) (use "2.prems" True r in auto)
      also have "\<dots> = sbind (unescape (c # r)) (\<lambda>(e, bs). Inr (e, Some (overlay buf q bs)))"
      proof (cases "unescape r'")
        case (Inr x)
        then obtain e bs where "unescape r' = Inr (e, bs)" by (cases x) auto
        moreover from this have "length bs \<le> length r'" by (rule unescape_length)
        ultimately show ?thesis using "2.prems" True r by (simp add: overlay_Cons)
      qed (use True r in simp)
      finally show ?thesis .
    qed
  qed
qed

section \<open>Round trip\<close>

lemma hex_byte': "(signed_drop_bit 4 c AND 15) * 16 + (c AND 15) = c"
  for c :: byte
  using hex_byte [of c] by simp

lemma unescape_escape: "esc percent \<Longrightarrow> unescape (escape esc s) = Inr (0, s)"
  by (induction s) (auto simp: hex_byte')

lemma escape_nonzero: "0 \<notin> set s \<Longrightarrow> 0 \<notin> set (escape esc s)"
  using hex_digit_ne by (induction s) (auto simp: percent_def)

lemma esc_percent: "String_esc percent" "HexString_esc percent"
  by code_simp+

lemma decode_block:
  assumes "0 \<notin> set e" "unescape e = Inr (0, s)" "0 \<notin> set s"
  shows "\<exists>b. decode_loop e 0 (replicate (length e + 4) 0) 0 = Inr (0, Some b) \<and> cstr b = Inr s"
proof -
  have le: "length s \<le> length e" using assms(2) by (rule unescape_length)
  have "decode_loop e 0 (replicate (length e + 4) 0) 0 =
      Inr (0, Some (overlay (replicate (length e + 4) 0) 0 s))"
    using decode_loop_unescape [of e 0 "replicate (length e + 4) 0" "[]"] assms(1,2) by simp
  moreover have "cstr (overlay (replicate (length e + 4) 0) 0 s) = Inr s"
    using assms(3) le by (simp add: overlay_0 cstr_zeros)
  ultimately show ?thesis by blast
qed

lemma encode_decode_block:
  assumes "0 \<notin> set s" "esc percent"
  shows "\<exists>b b'. encode_loop esc s (replicate (length s * 3 + 4) 0) 0 = Inr b \<and> cstr b = Inr (escape esc s)
    \<and> decode_loop (escape esc s) 0 (replicate (length (escape esc s) + 4) 0) 0 = Inr (0, Some b')
    \<and> cstr b' = Inr s"
  using decode_block [OF escape_nonzero [OF assms(1), of esc] unescape_escape [of esc s, OF assms(2)] assms(1)]
    encode_block [of esc s] escape_length [of esc s] assms(1)
  by (auto simp: cstr_zeros escape_nonzero)

text \<open>
  C4: the escapes round trip. For every C string, each encoder succeeds without leaving
  its block, the block holds a NUL-terminated string, and the matching decoder turns that
  string back into the original one.
\<close>

theorem hex_roundtrip:
  assumes "0 \<notin> set s"
  shows "(\<exists>b e b'. String_Encode True s = Inr (0, Some b) \<and> cstr b = Inr e
      \<and> String_Decode True e = Inr (0, Some b') \<and> cstr b' = Inr s)
    \<and> (\<exists>b e b'. HexString_Encode True s = Inr (0, Some b) \<and> cstr b = Inr e
      \<and> HexString_Decode True e = Inr (0, Some b') \<and> cstr b' = Inr s)"
  using encode_decode_block [of s String_esc, OF assms esc_percent(1)] encode_decode_block [of s HexString_esc, OF assms esc_percent(2)]
  by (auto simp: String_Encode_def String_Decode_def HexString_Encode_def HexString_Decode_def)

theorem hex_roundtrip_witness:
  "(\<exists>b e b'. String_Encode True [37, 61, 200] = Inr (0, Some b) \<and> cstr b = Inr e
      \<and> String_Decode True e = Inr (0, Some b') \<and> cstr b' = Inr [37, 61, 200])
    \<and> (\<exists>b e b'. HexString_Encode True [37, 61, 200] = Inr (0, Some b) \<and> cstr b = Inr e
      \<and> HexString_Decode True e = Inr (0, Some b') \<and> cstr b' = Inr [37, 61, 200])"
  by (rule hex_roundtrip) simp

section \<open>The alphabet of the encoders\<close>

lemma hex_digit_alnum: "\<forall>v \<in> set [0..<16]. isalnum (sHexTable ! v)"
  by code_simp

lemma hex_alnum: "isalnum (hex_hi c)" "isalnum (hex_lo c)"
  using hex_digit_alnum nibble_less [of "signed_drop_bit 4 c"] nibble_less [of c]
  by (simp_all add: hex_hi_def hex_lo_def)

lemma isalnum_safe:
  assumes "isalnum c"
  shows "isprint c" "c \<noteq> 61" "c \<noteq> 38" "c \<noteq> 13" "c \<noteq> 10"
  using assms by (auto simp: ctype word_le_nat_alt)

lemma String_esc_iff: "String_esc c \<longleftrightarrow> c \<in> {61, 38, 37, 13, 10, 0}"
  by (auto simp: String_esc_def strchr_def sEncodeTable_def)

lemma HexString_esc_iff: "HexString_esc c \<longleftrightarrow> \<not> isprint c \<or> c \<in> {61, 38, 37, 13, 10, 0}"
  by (auto simp: HexString_esc_def strchr_def sEncodeTable_def)

lemma set_escape: "set (escape esc s) \<subseteq>
    {c \<in> set s. \<not> esc c} \<union> {percent} \<union> hex_hi ` set s \<union> hex_lo ` set s"
  by (induction s) auto

lemma escaped_bytes:
  assumes "c \<in> set (escape esc s)"
  shows "c \<in> set s \<and> \<not> esc c \<or> c = percent \<or> isalnum c"
  using assms set_escape [of esc s] by (auto simp: hex_alnum)

text \<open>
  What the encoders put out is safe inside a query string: neither output contains
  an equals sign, an ampersand, a carriage return or a line feed, and the output of
  \<open>HexString_Encode\<close> is printable ASCII only.
\<close>

theorem encoded_alphabet:
  assumes "0 \<notin> set s"
  shows "(\<exists>b e. String_Encode True s = Inr (0, Some b) \<and> cstr b = Inr e
      \<and> set e \<inter> {61, 38, 13, 10} = {})
    \<and> (\<exists>b e. HexString_Encode True s = Inr (0, Some b) \<and> cstr b = Inr e
      \<and> set e \<inter> {61, 38, 13, 10} = {} \<and> list_all isprint e)"
proof -
  have p: "percent \<notin> {61, 38, 13, 10}" "isprint percent"
    by (simp_all add: percent_def ctype word_le_nat_alt)
  have 1: "set (escape String_esc s) \<inter> {61, 38, 13, 10} = {}"
  proof -
    have "c \<notin> {61, 38, 13, 10}" if "c \<in> set (escape String_esc s)" for c
      using escaped_bytes [OF that] p(1) isalnum_safe(2-5) [of c] by (auto simp: String_esc_iff)
    then show ?thesis by blast
  qed
  have 2: "c \<notin> {61, 38, 13, 10} \<and> isprint c" if "c \<in> set (escape HexString_esc s)" for c
    using escaped_bytes [OF that] p isalnum_safe [of c] by (auto simp: HexString_esc_iff)
  then have 3: "set (escape HexString_esc s) \<inter> {61, 38, 13, 10} = {}"
    "list_all isprint (escape HexString_esc s)"
    by (auto simp: list_all_iff)
  show ?thesis
    using encode_decode_block [of s String_esc, OF assms esc_percent(1)] encode_decode_block [of s HexString_esc, OF assms esc_percent(2)] 1 3
    by (auto simp: String_Encode_def HexString_Encode_def)
qed

theorem encoded_alphabet_witness:
  "(\<exists>b e. String_Encode True [10, 200] = Inr (0, Some b) \<and> cstr b = Inr e
      \<and> set e \<inter> {61, 38, 13, 10} = {})
    \<and> (\<exists>b e. HexString_Encode True [10, 200] = Inr (0, Some b) \<and> cstr b = Inr e
      \<and> set e \<inter> {61, 38, 13, 10} = {} \<and> list_all isprint e)"
  by (rule encoded_alphabet) simp

section \<open>Truncated escapes\<close>

text \<open>A string of whole tokens: plain bytes and escapes with two hexadecimal digits.\<close>

fun complete :: "bytes \<Rightarrow> bool" where
  "complete [] = True"
| "complete (c # r) =
    (if c \<noteq> percent then complete r
     else case r of a # b # r' \<Rightarrow> 0 \<le> get_index a \<and> 0 \<le> get_index b \<and> complete r' | _ \<Rightarrow> False)"

definition truncated :: "bytes \<Rightarrow> bool" where
  "truncated s = (\<exists>t. complete t \<and> (s = t @ [percent] \<or> (\<exists>a. 0 \<le> get_index a \<and> s = t @ [percent, a])))"

lemma truncated_Nil [simp]: "\<not> truncated []"
  by (simp add: truncated_def)

lemma truncated_tail:
  assumes "complete t"
  shows "truncated (t @ [percent])" "0 \<le> get_index a \<Longrightarrow> truncated (t @ [percent, a])"
  using assms by (auto simp: truncated_def)

lemma truncated_plain: "c \<noteq> percent \<Longrightarrow> truncated (c # r) \<longleftrightarrow> truncated r"
  unfolding truncated_def
proof
  assume c: "c \<noteq> percent"
  assume "\<exists>t. complete t \<and> (c # r = t @ [percent] \<or> (\<exists>a. 0 \<le> get_index a \<and> c # r = t @ [percent, a]))"
  then obtain t where "complete t" "c # r = t @ [percent] \<or> (\<exists>a. 0 \<le> get_index a \<and> c # r = t @ [percent, a])"
    by blast
  with c show "\<exists>t. complete t \<and> (r = t @ [percent] \<or> (\<exists>a. 0 \<le> get_index a \<and> r = t @ [percent, a]))"
    by (cases t) (auto split: if_splits)
next
  assume c: "c \<noteq> percent"
  assume "\<exists>t. complete t \<and> (r = t @ [percent] \<or> (\<exists>a. 0 \<le> get_index a \<and> r = t @ [percent, a]))"
  then obtain t where "complete (c # t)" "r = t @ [percent] \<or> (\<exists>a. 0 \<le> get_index a \<and> r = t @ [percent, a])"
    using c by auto
  then show "\<exists>t. complete t \<and> (c # r = t @ [percent] \<or> (\<exists>a. 0 \<le> get_index a \<and> c # r = t @ [percent, a]))"
    by (metis append_Cons)
qed

lemma truncated_escape: "truncated (percent # a # b # r) \<longleftrightarrow> 0 \<le> get_index a \<and> 0 \<le> get_index b \<and> truncated r"
proof
  assume "truncated (percent # a # b # r)"
  then obtain t where t: "complete t" "percent # a # b # r = t @ [percent]
      \<or> (\<exists>h. 0 \<le> get_index h \<and> percent # a # b # r = t @ [percent, h])"
    by (auto simp: truncated_def)
  then obtain t' where "t = percent # a # b # t'"
    by (cases t; cases "tl t"; cases "tl (tl t)") (auto split: list.splits)
  with t show "0 \<le> get_index a \<and> 0 \<le> get_index b \<and> truncated r"
    by (auto simp: truncated_def)
next
  assume "0 \<le> get_index a \<and> 0 \<le> get_index b \<and> truncated r"
  then obtain t where "complete (percent # a # b # t)"
      "r = t @ [percent] \<or> (\<exists>h. 0 \<le> get_index h \<and> r = t @ [percent, h])"
    by (auto simp: truncated_def)
  then show "truncated (percent # a # b # r)"
    unfolding truncated_def by (metis append_Cons)
qed

lemma truncated_short: "truncated [percent]" "truncated [percent, a] \<longleftrightarrow> 0 \<le> get_index a"
  using truncated_tail(1) [of "[]"] truncated_tail(2) [of "[]" a] by (auto simp: truncated_def Cons_eq_append_conv)

lemma unescape_fault: "unescape s = Inl e \<longleftrightarrow> e = ReadOOB \<and> truncated s"
proof (induction s arbitrary: e rule: unescape.induct)
  case 1
  then show ?case by simp
next
  case (2 c r)
  show ?case
  proof (cases "c = percent")
    case False
    with "2.IH"(1) show ?thesis by (auto simp: sbind_eq_Inl_iff truncated_plain)
  next
    case True
    show ?thesis
    proof (cases r)
      case Nil
      with True show ?thesis using truncated_short(1) by auto
    next
      case (Cons a r')
      with True show ?thesis
        using "2.IH"(2) [of a r']
        by (cases r') (auto simp: truncated_escape truncated_short sbind_eq_Inl_iff)
    qed
  qed
qed

text \<open>
  C5: exactly when the decoder leaves the bounds of a string. \<open>String_Decode\<close> (and
  \<open>HexString_Decode\<close>, the same loop) has undefined behaviour if and only if its input ends
  in an escape cut short: then it reads past the terminating NUL. It never writes outside
  its block.
\<close>

theorem decode_fault_iff:
  assumes "0 \<notin> set s"
  shows "(String_Decode True s = Inl e \<longleftrightarrow> e = ReadOOB \<and> truncated s)
    \<and> HexString_Decode True s = String_Decode True s"
proof -
  have "decode_loop s 0 (replicate (length s + 4) 0) 0 =
    sbind (unescape s) (\<lambda>(e, bs). Inr (e, Some (overlay (replicate (length s + 4) 0) 0 bs)))"
    using decode_loop_unescape [of s 0 "replicate (length s + 4) 0" "[]"] assms by simp
  then show ?thesis
    using unescape_fault [of s e]
    by (auto simp: String_Decode_def HexString_Decode_def sbind_eq_Inl_iff split: prod.splits)
qed

theorem decode_fault_iff_witness:
  "(String_Decode True [65, 37, 52] = Inl ReadOOB \<longleftrightarrow> ReadOOB = ReadOOB \<and> truncated [65, 37, 52])
    \<and> HexString_Decode True [65, 37, 52] = String_Decode True [65, 37, 52]"
  by (rule decode_fault_iff) simp

end
