(* ===== verification/Tools.thy ===== *)
theory Tools
  imports Base64 Hex
begin

text \<open>
  The Lua library \<open>libtools\<close> of \<open>src/src/tools/tools.cpp\<close>: six functions from a string to
  a return code and a string. The argument of each definition is the C string that
  \<open>luaL_checkstring\<close> gives (the bytes before the first NUL), the result the two values
  left on the Lua stack. \<open>malloc_ok\<close> says for which sizes \<open>malloc\<close> succeeds.
\<close>

section \<open>Results\<close>

text \<open>
  \<open>lua_pushstring\<close> copies the block up to its first NUL, and reads past its end when it
  holds none. Without a block the text depends on the code, with the two words swapped
  in the source.
\<close>

definition ret_result :: "int \<Rightarrow> bytes option \<Rightarrow> (int \<times> bytes) cres" where
  "ret_result r msg =
    (case msg of
       None \<Rightarrow> Inr (r, if r = 0 then str ''fail'' else str ''ok'')
     | Some b \<Rightarrow> sbind (cstr b) (\<lambda>s. Inr (r, s)))"

text \<open>
  The block the base64 functions allocate and clear: \<open>bzero\<close> on a null pointer is a fault
  unless the size is 0.
\<close>

definition alloc_zeroed :: "(int \<Rightarrow> bool) \<Rightarrow> int \<Rightarrow> bytes option cres" where
  "alloc_zeroed malloc_ok n =
    (if 0 \<le> n \<and> malloc_ok n then Inr (Some (replicate (nat n) 0))
     else if n = 0 then Inr None else Inl NullDeref)"

section \<open>The library functions\<close>

definition encode_base64 :: "(int \<Rightarrow> bool) \<Rightarrow> bytes \<Rightarrow> (int \<times> bytes) cres" where
  "encode_base64 malloc_ok input =
    (let iLen = cast_int (int (length input div 2 * 3)) in
     sbind (alloc_zeroed malloc_ok iLen) (\<lambda>block.
     sbind (Base64_Encode input (cast_int (int (length input))) block iLen iLen) (\<lambda>r.
     ret_result (ret r) (out r))))"

definition decode_base64 :: "(int \<Rightarrow> bool) \<Rightarrow> bytes \<Rightarrow> (int \<times> bytes) cres" where
  "decode_base64 malloc_ok input =
    (let iLen = cast_int (int (length input div 2 * 3)) in
     sbind (alloc_zeroed malloc_ok iLen) (\<lambda>block.
     sbind (Base64_Decode input (cast_int (int (length input))) block iLen iLen) (\<lambda>r.
     ret_result (ret r) (out r))))"

definition encode_hex :: "(int \<Rightarrow> bool) \<Rightarrow> bytes \<Rightarrow> (int \<times> bytes) cres" where
  "encode_hex malloc_ok input =
    sbind (HexString_Encode (malloc_ok (int (length input * 3 + 4))) input) (\<lambda>(r, block).
    ret_result r block)"

definition decode_hex :: "(int \<Rightarrow> bool) \<Rightarrow> bytes \<Rightarrow> (int \<times> bytes) cres" where
  "decode_hex malloc_ok input =
    sbind (HexString_Decode (malloc_ok (int (length input + 4))) input) (\<lambda>(r, block).
    ret_result r block)"

definition encode_string :: "(int \<Rightarrow> bool) \<Rightarrow> bytes \<Rightarrow> (int \<times> bytes) cres" where
  "encode_string malloc_ok input =
    sbind (String_Encode (malloc_ok (int (length input * 3 + 4))) input) (\<lambda>(r, block).
    ret_result r block)"

definition decode_string :: "(int \<Rightarrow> bool) \<Rightarrow> bytes \<Rightarrow> (int \<times> bytes) cres" where
  "decode_string malloc_ok input =
    sbind (String_Decode (malloc_ok (int (length input + 4))) input) (\<lambda>(r, block).
    ret_result r block)"

definition mylib :: "(string \<times> ((int \<Rightarrow> bool) \<Rightarrow> bytes \<Rightarrow> (int \<times> bytes) cres)) list" where
  "mylib =
    [(''encode_base64'', encode_base64),
     (''decode_base64'', decode_base64),
     (''encode_hex'', encode_hex),
     (''decode_hex'', decode_hex),
     (''encode_string'', encode_string),
     (''decode_string'', decode_string)]"

section \<open>The contract of a codec\<close>

text \<open>
  What a pair of library functions promises a script: on the strings of its domain,
  encoding succeeds with a text that decoding turns back.
\<close>

locale codec =
  fixes enc :: "bytes \<Rightarrow> (int \<times> bytes) cres"
    and dec :: "bytes \<Rightarrow> (int \<times> bytes) cres"
    and spec :: "bytes \<Rightarrow> bytes"
    and ok :: "bytes \<Rightarrow> bool"
  assumes enc_spec: "ok s \<Longrightarrow> enc s = Inr (0, spec s)"
    and dec_spec: "ok s \<Longrightarrow> dec (spec s) = Inr (0, s)"
begin

lemma roundtrip: "ok s \<Longrightarrow> sbind (enc s) (\<lambda>(r, e). dec e) = Inr (0, s)"
  by (simp add: enc_spec dec_spec)

lemma injective: "ok s \<Longrightarrow> ok t \<Longrightarrow> enc s = enc t \<Longrightarrow> s = t"
  by (metis enc_spec dec_spec sum.inject(2) prod.inject)

end

section \<open>The hexadecimal functions\<close>

lemma encode_decode_results:
  assumes "0 \<notin> set s" "esc percent"
  shows "\<exists>b. encode_loop esc s (replicate (length s * 3 + 4) 0) 0 = Inr b \<and> cstr b = Inr (escape esc s)"
    and "\<exists>b. decode_loop (escape esc s) 0 (replicate (length (escape esc s) + 4) 0) 0 = Inr (0, Some b)
       \<and> cstr b = Inr s"
  using encode_decode_block [of s esc, OF assms] by blast+

interpretation hex: codec "encode_hex (\<lambda>_. True)" "decode_hex (\<lambda>_. True)" "escape HexString_esc"
  "\<lambda>s. 0 \<notin> set s"
proof unfold_locales
  fix s :: bytes
  assume s: "0 \<notin> set s"
  show "encode_hex (\<lambda>_. True) s = Inr (0, escape HexString_esc s)"
    using encode_decode_results(1) [of s HexString_esc, OF s esc_percent(2)]
    by (auto simp: encode_hex_def HexString_Encode_def ret_result_def)
  show "decode_hex (\<lambda>_. True) (escape HexString_esc s) = Inr (0, s)"
    using encode_decode_results(2) [of s HexString_esc, OF s esc_percent(2)]
    by (auto simp: decode_hex_def HexString_Decode_def ret_result_def)
qed

interpretation pct: codec "encode_string (\<lambda>_. True)" "decode_string (\<lambda>_. True)" "escape String_esc"
  "\<lambda>s. 0 \<notin> set s"
proof unfold_locales
  fix s :: bytes
  assume s: "0 \<notin> set s"
  show "encode_string (\<lambda>_. True) s = Inr (0, escape String_esc s)"
    using encode_decode_results(1) [of s String_esc, OF s esc_percent(1)]
    by (auto simp: encode_string_def String_Encode_def ret_result_def)
  show "decode_string (\<lambda>_. True) (escape String_esc s) = Inr (0, s)"
    using encode_decode_results(2) [of s String_esc, OF s esc_percent(1)]
    by (auto simp: decode_string_def String_Decode_def ret_result_def)
qed

section \<open>The base64 functions\<close>

text \<open>The block has \<open>n div 2 * 3\<close> bytes for an input of \<open>n\<close>: the encoding needs more for short inputs.\<close>

definition b64_block :: "nat \<Rightarrow> nat" where
  "b64_block n = n div 2 * 3"

definition b64_need :: "nat \<Rightarrow> nat" where
  "b64_need n = (n + 2) div 3 * 4"

lemma b64_need_length: "length (b64 s) = b64_need (length s)"
  by (simp add: b64_need_def)

text \<open>The longest input whose lengths are all ints.\<close>

definition tools_max :: nat where "tools_max = 1431655764"

lemma tools_casts:
  assumes "length s \<le> tools_max"
  shows "cast_int (int (length s)) = int (length s)"
    and "cast_int (int (length s div 2 * 3)) = int (b64_block (length s))"
    and "int (length s) \<le> b64_max_input"
proof -
  have "length s div 2 * 3 \<le> 2147483647"
    using assms unfolding tools_max_def by linarith
  then have "int (length s div 2 * 3) \<le> int_max"
    unfolding int_max_def by linarith
  then show "cast_int (int (length s div 2 * 3)) = int (b64_block (length s))"
    unfolding b64_block_def by (intro cast_int_id) (simp_all add: int_min_def)
  show "cast_int (int (length s)) = int (length s)"
    using assms by (intro cast_int_id) (simp_all add: int_min_def int_max_def tools_max_def)
  show "int (length s) \<le> b64_max_input"
    using assms by (simp add: b64_max_input_def tools_max_def)
qed

lemma cstr_overlay:
  assumes "0 \<notin> set s" "length s \<le> n"
  shows "cstr (overlay (replicate n 0) 0 s) = (if length s < n then Inr s else Inl ReadOOB)"
proof (cases "length s < n")
  case True
  then show ?thesis using assms by (simp add: overlay_0 cstr_zeros)
next
  case False
  then show ?thesis using assms by (simp add: overlay_0 cstr_def)
qed

lemma cstr_blank: "cstr (replicate n 0) = (if 0 < n then Inr [] else Inl ReadOOB)"
  by (cases n) (simp_all add: cstr_def)

lemma encode_base64_cases:
  assumes "length s \<le> tools_max"
  shows "encode_base64 (\<lambda>_. True) s =
    (if b64_need (length s) < b64_block (length s) then Inr (0, b64 s)
     else if b64_need (length s) = b64_block (length s) then Inl ReadOOB
     else if b64_block (length s) = 0 then Inl ReadOOB
     else Inr (- 2, []))"
proof -
  let ?b = "replicate (b64_block (length s)) (0::byte)"
  note casts = tools_casts [OF assms]
  have "Base64_Encode s (int (length s)) (Some ?b) (int (b64_block (length s))) (int (b64_block (length s))) =
    (if b64_block (length s) < b64_need (length s)
     then Inr \<lparr>ret = - 2, result_length = int (b64_block (length s)), out = Some ?b\<rparr>
     else Inr \<lparr>ret = 0, result_length = int (b64_need (length s)), out = Some (overlay ?b 0 (b64 s))\<rparr>)"
    using Base64_Encode_refines_eq [OF casts(3), of "[]" ?b]
    by (simp add: b64_need_def)
  moreover have "alloc_zeroed (\<lambda>_. True) (int (b64_block (length s))) = Inr (Some ?b)"
    by (simp add: alloc_zeroed_def)
  ultimately show ?thesis
    using b64_nonzero [of s]
    unfolding encode_base64_def Let_def casts(1,2)
    by (simp add: ret_result_def cstr_overlay cstr_blank b64_need_length del: b64_length)
qed

lemma decode_base64_b64:
  assumes "length s \<le> 1000000000" "0 \<notin> set s" "s \<noteq> []"
  shows "decode_base64 (\<lambda>_. True) (b64 s) = Inr (0, s)"
proof -
  let ?n = "b64_block (length (b64 s))"
  let ?b = "replicate ?n (0::byte)"
  have len: "length (b64 s) \<le> tools_max"
    using assms(1) by (simp add: tools_max_def)
  note casts = tools_casts [OF len]
  have fit: "length s < ?n"
  proof -
    have "n < (n + 2) div 3 * 4 div 2 * 3" if "0 < n" for n :: nat
      proof -
      have "n \<le> 3 * ((n + 2) div 3)" by simp
      moreover have "(n + 2) div 3 * 4 div 2 * 3 = 6 * ((n + 2) div 3)" by simp
      ultimately show ?thesis using that by linarith
    qed
    then show ?thesis
      using assms(3) by (simp add: b64_block_def)
  qed
  have "Base64_Decode (b64 s) (int (length (b64 s))) (Some ?b) (int ?n) (int ?n) =
      Inr \<lparr>ret = 0, result_length = int (length s), out = Some (overlay ?b 0 s)\<rparr>"
    using Base64_Decode_b64 [of s "[]" ?b] fit by (simp add: b64_decoded_def)
  then show ?thesis
    using fit assms(2)
    unfolding decode_base64_def Let_def casts(1,2)
    by (simp add: alloc_zeroed_def ret_result_def cstr_overlay del: b64_length)
qed

lemma b64_block_enough:
  assumes "26 \<le> n"
  shows "b64_need n < b64_block n"
proof -
  have "3 * ((n + 2) div 3) \<le> n + 2" "n \<le> 2 * (n div 2) + 1" by simp_all
  with assms show ?thesis unfolding b64_need_def b64_block_def by linarith
qed

interpretation b64: codec "encode_base64 (\<lambda>_. True)" "decode_base64 (\<lambda>_. True)" b64
  "\<lambda>s. 0 \<notin> set s \<and> 26 \<le> length s \<and> length s \<le> 1000000000"
proof unfold_locales
  fix s :: bytes
  assume s: "0 \<notin> set s \<and> 26 \<le> length s \<and> length s \<le> 1000000000"
  with s b64_block_enough [of "length s"] show "encode_base64 (\<lambda>_. True) s = Inr (0, b64 s)"
    by (simp add: encode_base64_cases tools_max_def)
  show "decode_base64 (\<lambda>_. True) (b64 s) = Inr (0, s)"
    by (rule decode_base64_b64) (use s in auto)
qed

text \<open>
  C6: the three codecs of \<open>libtools\<close> round trip for a script: \<open>decode_x\<close> applied to the
  text that \<open>encode_x\<close> returns gives code 0 and the original string, for every string
  without a NUL, for base64 from 26 bytes on.
\<close>

theorem libtools_roundtrip:
  assumes "0 \<notin> set s"
  shows "sbind (encode_hex (\<lambda>_. True) s) (\<lambda>(r, e). decode_hex (\<lambda>_. True) e) = Inr (0, s)
    \<and> sbind (encode_string (\<lambda>_. True) s) (\<lambda>(r, e). decode_string (\<lambda>_. True) e) = Inr (0, s)
    \<and> (26 \<le> length s \<and> length s \<le> 1000000000 \<longrightarrow>
       sbind (encode_base64 (\<lambda>_. True) s) (\<lambda>(r, e). decode_base64 (\<lambda>_. True) e) = Inr (0, s))"
  using assms hex.roundtrip pct.roundtrip b64.roundtrip by blast

theorem libtools_roundtrip_witness:
  "(0::byte) \<notin> set (replicate 26 37)
    \<and> sbind (encode_hex (\<lambda>_. True) (replicate 26 37)) (\<lambda>(r, e). decode_hex (\<lambda>_. True) e) = Inr (0, replicate 26 37)
    \<and> sbind (encode_base64 (\<lambda>_. True) (replicate 26 37)) (\<lambda>(r, e). decode_base64 (\<lambda>_. True) e) = Inr (0, replicate 26 37)"
  using libtools_roundtrip [of "replicate 26 37"] by simp

lemma short_blocks: "list_all (\<lambda>n.
    ((b64_need n < b64_block n) = (n \<notin> {0, 1, 8, 9, 16, 17, 25} \<union> {2, 3, 4, 5, 7, 10, 11, 13, 19})) \<and>
    ((b64_need n = b64_block n \<or> b64_block n = 0) = (n \<in> {0, 1, 8, 9, 16, 17, 25}))) [0..<26]"
  by code_simp

text \<open>
  Which inputs \<open>encode_base64\<close> handles. Its block of \<open>n div 2 * 3\<close> bytes is too small
  for some short inputs: then the call fails with -2, or, where the encoding fills the
  block exactly and leaves no room for a NUL (and for inputs below two bytes), pushing
  the result reads past the block. Every input of 26 bytes or more is encoded.
\<close>

theorem encode_base64_short_inputs:
  assumes "length s \<le> tools_max"
  shows "encode_base64 (\<lambda>_. True) s =
    (if length s \<in> {0, 1, 8, 9, 16, 17, 25} then Inl ReadOOB
     else if length s \<in> {2, 3, 4, 5, 7, 10, 11, 13, 19} then Inr (- 2, [])
     else Inr (0, b64 s))"
proof (cases "26 \<le> length s")
  case True
  then have "b64_need (length s) < b64_block (length s)"
    by (rule b64_block_enough)
  moreover have "length s \<notin> {0, 1, 8, 9, 16, 17, 25}" "length s \<notin> {2, 3, 4, 5, 7, 10, 11, 13, 19}"
    using True by auto
  ultimately show ?thesis
    using assms by (simp only: encode_base64_cases if_True if_False)
next
  case False
  then have "length s \<in> set [0..<26]" by auto
  note * = bspec [OF short_blocks [unfolded list_all_iff] this]
  show ?thesis
  proof (cases "length s \<in> {0, 1, 8, 9, 16, 17, 25}")
    case True
    from * True have "\<not> b64_need (length s) < b64_block (length s)" by blast
    moreover have "b64_need (length s) = b64_block (length s) \<or> b64_block (length s) = 0"
      by (rule iffD2 [OF conjunct2 [OF *] True])
    ultimately show ?thesis
      using True unfolding encode_base64_cases [OF assms] by (elim disjE) (simp_all del: insert_iff)
  next
    case A: False
    show ?thesis
    proof (cases "length s \<in> {2, 3, 4, 5, 7, 10, 11, 13, 19}")
      case True
      with A * have "\<not> b64_need (length s) < b64_block (length s)"
        "b64_need (length s) \<noteq> b64_block (length s)" "b64_block (length s) \<noteq> 0" by blast+
      with True A show ?thesis
        by (simp add: encode_base64_cases [OF assms] del: insert_iff)
    next
      case False
      with A * have "b64_need (length s) < b64_block (length s)" by blast
      with False A show ?thesis
        by (simp add: encode_base64_cases [OF assms] del: insert_iff)
    qed
  qed
qed

theorem encode_base64_short_inputs_witness:
  "encode_base64 (\<lambda>_. True) [65, 66, 67] = Inr (- 2, [])"
  using encode_base64_short_inputs [of "[65, 66, 67]"] by (simp add: tools_max_def)

end
