(* ===== verification/Mainframe.thy ===== *)
theory Mainframe
  imports Prelude
begin

text \<open>
  The host program \<open>src/src/mainframe/test.cpp\<close>: the sequence numbers and the value store
  that its Lua functions share under one mutex, the search paths \<open>init\<close> sets, the signal
  handler, and the worker loop \<open>deal\<close> as a step relation in which the results of the Lua
  calls and the arrival of signals are left open.
\<close>

section \<open>State\<close>

record node =
  tm :: int
  content :: "bytes \<rightharpoonup> bytes \<rightharpoonup> bytes"

text \<open>
  The globals. The stack of free numbers has its top at the head of the list; the counter
  is the static variable of \<open>get_seqno\<close>.
\<close>

record app =
  g_stseq :: "int list"
  g_mapVal :: "int \<rightharpoonup> node"
  seqno :: int

definition start_app :: app where
  "start_app = \<lparr>g_stseq = [], g_mapVal = Map.empty, seqno = 1\<rparr>"

text \<open>
  An argument on the Lua stack, as the two \<open>get_data\<close> functions see it: the number
  \<open>lua_tonumber\<close> gives, truncated to an int (\<open>None\<close> if \<open>lua_isnumber\<close> is false), and the C
  string \<open>lua_tolstring\<close> gives.
\<close>

record larg =
  lnum :: "int option"
  lstr :: "bytes option"

definition get_data_int :: "larg \<Rightarrow> int \<Rightarrow> int \<times> int" where
  "get_data_int a num = (case lnum a of None \<Rightarrow> (- 1, num) | Some n \<Rightarrow> (0, n))"

definition get_data_str :: "larg \<Rightarrow> bytes \<Rightarrow> int \<times> bytes" where
  "get_data_str a s = (case lstr a of None \<Rightarrow> (- 1, s) | Some t \<Rightarrow> (0, t))"

section \<open>Initialisation\<close>

definition lua_path :: "bytes \<Rightarrow> string \<Rightarrow> bytes option \<Rightarrow> bytes" where
  "lua_path dir suffix old =
    dir @ str suffix @ (case old of None \<Rightarrow> [] | Some v \<Rightarrow> v) @ str '';;''"

text \<open>\<open>init\<close>: the new values of LUA_CPATH and LUA_PATH, and the first free number.\<close>

definition init :: "bytes \<Rightarrow> bytes \<Rightarrow> bytes option \<Rightarrow> bytes option \<Rightarrow> app \<Rightarrow> bytes \<times> bytes \<times> app" where
  "init strExtensionsPath strScriptsPath cpath path s =
    (lua_path strExtensionsPath ''/?.so;'' cpath,
     lua_path strScriptsPath ''/?.lua;'' path,
     s\<lparr>g_stseq := 1 # g_stseq s\<rparr>)"

text \<open>The command line: every argument also falls through to the ones before it.\<close>

record config =
  strFile :: bytes
  strFunc :: bytes
  strScriptsPath :: bytes
  strExtensionsPath :: bytes

definition default_config :: config where
  "default_config = \<lparr>strFile = str ''main.lua'', strFunc = str ''main'',
     strScriptsPath = str ''scripts'', strExtensionsPath = str ''extensions''\<rparr>"

fun parse_args :: "bytes list \<Rightarrow> config \<Rightarrow> config" where
  "parse_args [_, a1] c = c\<lparr>strFile := a1\<rparr>"
| "parse_args [_, a1, a2] c = c\<lparr>strFunc := a2, strFile := a1\<rparr>"
| "parse_args [_, a1, a2, a3] c = c\<lparr>strScriptsPath := a3, strFunc := a2, strFile := a1\<rparr>"
| "parse_args [_, a1, a2, a3, a4] c =
    c\<lparr>strExtensionsPath := a4, strScriptsPath := a3, strFunc := a2, strFile := a1\<rparr>"
| "parse_args _ c = c"

section \<open>Sequence numbers\<close>

text \<open>
  \<open>get_seqno\<close>: the value pushed and the new state. The top of an empty stack is undefined.
\<close>

definition get_seqno :: "larg \<Rightarrow> app \<Rightarrow> (int \<times> app) cres" where
  "get_seqno a s =
    (if snd (get_data_str a []) = str ''stack'' then
       (case g_stseq s of
          [] \<Rightarrow> Inl ReadOOB
        | current_seqno # rest \<Rightarrow>
            if rest = [] then
              sbind (chk32 (current_seqno + 1)) (\<lambda>n.
                Inr (current_seqno, s\<lparr>g_stseq := [n]\<rparr>))
            else Inr (current_seqno, s\<lparr>g_stseq := rest\<rparr>))
     else
       sbind (chk32 (seqno s + 1)) (\<lambda>n. Inr (seqno s, s\<lparr>seqno := n\<rparr>)))"

definition cls_seqno :: "larg \<Rightarrow> app \<Rightarrow> app" where
  "cls_seqno a s =
    (let n = snd (get_data_int a (- 1)) in
     if g_mapVal s n = None then s
     else s\<lparr>g_mapVal := (g_mapVal s)(n := None), g_stseq := n # g_stseq s\<rparr>)"

section \<open>The value store\<close>

text \<open>What \<open>operator[]\<close> of \<open>std::map\<close> makes of a missing entry.\<close>

definition node_at :: "(int \<rightharpoonup> node) \<Rightarrow> int \<Rightarrow> node" where
  "node_at m i = (case m i of None \<Rightarrow> \<lparr>tm = 0, content = Map.empty\<rparr> | Some n \<Rightarrow> n)"

definition inner_at :: "(bytes \<rightharpoonup> bytes \<rightharpoonup> bytes) \<Rightarrow> bytes \<Rightarrow> bytes \<rightharpoonup> bytes" where
  "inner_at c k = (case c k of None \<Rightarrow> Map.empty | Some m \<Rightarrow> m)"

definition value_at :: "(bytes \<rightharpoonup> bytes) \<Rightarrow> bytes \<Rightarrow> bytes" where
  "value_at m k = (case m k of None \<Rightarrow> [] | Some v \<Rightarrow> v)"

definition put_at :: "int \<Rightarrow> bytes \<Rightarrow> bytes \<Rightarrow> bytes \<Rightarrow> (int \<rightharpoonup> node) \<Rightarrow> (int \<rightharpoonup> node)" where
  "put_at i k1 k2 v m =
    (let n = node_at m i in
     m(i \<mapsto> n\<lparr>content := (content n)(k1 \<mapsto> (inner_at (content n) k1)(k2 \<mapsto> v))\<rparr>))"

text \<open>
  \<open>get_value\<close>: the pushed string, if any. Reading with \<open>operator[]\<close> creates the entries it
  does not find.
\<close>

definition get_value :: "larg \<Rightarrow> larg \<Rightarrow> larg \<Rightarrow> app \<Rightarrow> bytes option \<times> app" where
  "get_value a1 a2 a3 s =
    (let (e1, index) = get_data_int a1 (- 1) in
     if e1 \<noteq> 0 \<or> index \<le> 0 then (None, s)
     else let (e2, tmp1) = get_data_str a2 [] in
     if e2 \<noteq> 0 then (None, s)
     else let (e3, tmp2) = get_data_str a3 [] in
     if e3 \<noteq> 0 then (None, s)
     else let v = value_at (inner_at (content (node_at (g_mapVal s) index)) tmp1) tmp2 in
       (Some v, s\<lparr>g_mapVal := put_at index tmp1 tmp2 v (g_mapVal s)\<rparr>))"

definition set_value :: "int \<Rightarrow> larg \<Rightarrow> larg \<Rightarrow> larg \<Rightarrow> larg \<Rightarrow> app \<Rightarrow> app" where
  "set_value now a1 a2 a3 a4 s =
    (let (e1, index) = get_data_int a1 (- 1) in
     if e1 \<noteq> 0 \<or> index \<le> 0 then s
     else let (e2, tmp1) = get_data_str a2 [] in
     if e2 \<noteq> 0 then s
     else let (e3, tmp2) = get_data_str a3 [] in
     if e3 \<noteq> 0 then s
     else let (e4, tmp3) = get_data_str a4 [] in
     if e4 \<noteq> 0 then s
     else let m = (if g_mapVal s index = None
                   then (g_mapVal s)(index \<mapsto> (node_at (g_mapVal s) index)\<lparr>tm := now\<rparr>)
                   else g_mapVal s) in
       s\<lparr>g_mapVal := put_at index tmp1 tmp2 tmp3 m\<rparr>)"

section \<open>The worker\<close>

datatype signo = SIGTERM | SIGUSR1 | OtherSig

text \<open>The flags the handler sets. SIGTERM falls through to SIGUSR1.\<close>

record flags =
  bExit :: bool
  bUpdate :: bool

definition signal_handle :: "signo \<Rightarrow> flags \<Rightarrow> flags" where
  "signal_handle sg f =
    (case sg of
       SIGTERM \<Rightarrow> f\<lparr>bExit := True, bUpdate := True\<rparr>
     | SIGUSR1 \<Rightarrow> f\<lparr>bUpdate := True\<rparr>
     | OtherSig \<Rightarrow> f)"

text \<open>The points of \<open>deal\<close> between which something observable happens.\<close>

datatype deal_pc =
    TestExit     \<comment> \<open>the guard of the outer loop\<close>
  | Load         \<comment> \<open>a new Lua state, its libraries, the script is loaded and run\<close>
  | CallInit     \<comment> \<open>the script's \<open>init\<close>\<close>
  | ResetUpdate  \<comment> \<open>\<open>bUpdate = false\<close>\<close>
  | TestUpdate   \<comment> \<open>the guard of the inner loop; \<open>get_message\<close> returns 1\<close>
  | CallMain     \<comment> \<open>the script's main function\<close>
  | CallClear    \<comment> \<open>the script's \<open>clear\<close>, then the Lua state is closed\<close>
  | Exited

text \<open>
  The worker's state: where it is, the flags, and how often the main function was
  called. A step of the system is one of the worker's or a signal.
\<close>

record worker =
  pc :: deal_pc
  fl :: flags
  calls :: nat

inductive work_step :: "worker \<Rightarrow> worker \<Rightarrow> bool" where
  exit_test: "pc w = TestExit \<Longrightarrow>
    work_step w (w\<lparr>pc := (if bExit (fl w) then Exited else Load)\<rparr>)"
| load_ok: "pc w = Load \<Longrightarrow> work_step w (w\<lparr>pc := CallInit\<rparr>)"
| load_error: "pc w = Load \<Longrightarrow> work_step w (w\<lparr>pc := Exited\<rparr>)"
| call_init: "pc w = CallInit \<Longrightarrow> work_step w (w\<lparr>pc := ResetUpdate\<rparr>)"
| reset: "pc w = ResetUpdate \<Longrightarrow>
    work_step w (w\<lparr>pc := TestUpdate, fl := (fl w)\<lparr>bUpdate := False\<rparr>\<rparr>)"
| update_test: "pc w = TestUpdate \<Longrightarrow>
    work_step w (w\<lparr>pc := (if bUpdate (fl w) then CallClear else CallMain)\<rparr>)"
| main_ok: "pc w = CallMain \<Longrightarrow> work_step w (w\<lparr>pc := TestUpdate, calls := Suc (calls w)\<rparr>)"
| main_error: "pc w = CallMain \<Longrightarrow> work_step w (w\<lparr>pc := CallClear, calls := Suc (calls w)\<rparr>)"
| call_clear: "pc w = CallClear \<Longrightarrow> work_step w (w\<lparr>pc := TestExit\<rparr>)"

inductive deal_step :: "worker \<Rightarrow> worker \<Rightarrow> bool" where
  work: "work_step w w' \<Longrightarrow> deal_step w w'"
| signal: "deal_step w (w\<lparr>fl := signal_handle sg (fl w)\<rparr>)"

definition deal_start :: worker where
  "deal_start = \<lparr>pc = TestExit, fl = \<lparr>bExit = False, bUpdate = False\<rparr>, calls = 0\<rparr>"

section \<open>Numbers in use are not handed out again\<close>

text \<open>
  The protocol of the scripts: a number is taken with \<open>get_seqno("stack")\<close>, values are set
  and read under it while it is held, and it is given back with \<open>cls_seqno\<close>. The second
  component collects the numbers that are held.
\<close>

inductive seq_reach :: "app \<Rightarrow> int set \<Rightarrow> bool" where
  start: "seq_reach (snd (snd (init ep sp cpath path start_app))) {}"
| take: "seq_reach s H \<Longrightarrow> snd (get_data_str a []) = str ''stack'' \<Longrightarrow> get_seqno a s = Inr (n, s') \<Longrightarrow>
    seq_reach s' (insert n H)"
| put: "seq_reach s H \<Longrightarrow> lnum a1 = Some n \<Longrightarrow> n \<in> H \<Longrightarrow>
    seq_reach (set_value now a1 a2 a3 a4 s) H"
| look: "seq_reach s H \<Longrightarrow> lnum a1 = Some n \<Longrightarrow> n \<in> H \<Longrightarrow>
    seq_reach (snd (get_value a1 a2 a3 s)) H"
| give: "seq_reach s H \<Longrightarrow> lnum a1 = Some n \<Longrightarrow> n \<in> H \<Longrightarrow>
    seq_reach (cls_seqno a1 s) (H - {n})"

definition seq_inv :: "app \<Rightarrow> int set \<Rightarrow> bool" where
  "seq_inv s H \<longleftrightarrow> g_stseq s \<noteq> [] \<and> distinct (g_stseq s) \<and> set (g_stseq s) \<inter> H = {}
    \<and> dom (g_mapVal s) \<subseteq> H
    \<and> (\<forall>x \<in> H \<union> set (butlast (g_stseq s)). x < last (g_stseq s))
    \<and> (\<forall>x \<in> H \<union> set (g_stseq s). 1 \<le> x)"

lemma seq_inv_store:
  assumes "seq_inv s H" "g_stseq s' = g_stseq s" "dom (g_mapVal s') \<subseteq> H"
  shows "seq_inv s' H"
  using assms by (simp add: seq_inv_def)

lemma set_value_frame:
  "g_stseq (set_value now a1 a2 a3 a4 s) = g_stseq s"
  "lnum a1 = Some n \<Longrightarrow> dom (g_mapVal (set_value now a1 a2 a3 a4 s)) \<subseteq> insert n (dom (g_mapVal s))"
  by (auto simp: set_value_def get_data_int_def put_at_def Let_def split: prod.splits if_splits)

lemma get_value_frame:
  "g_stseq (snd (get_value a1 a2 a3 s)) = g_stseq s"
  "lnum a1 = Some n \<Longrightarrow> dom (g_mapVal (snd (get_value a1 a2 a3 s))) \<subseteq> insert n (dom (g_mapVal s))"
  by (auto simp: get_value_def get_data_int_def put_at_def Let_def split: prod.splits if_splits)

lemma get_seqno_stack:
  assumes "snd (get_data_str a []) = str ''stack''" "g_stseq s = c # rest"
  shows "get_seqno a s =
    (if rest = [] then sbind (chk32 (c + 1)) (\<lambda>n. Inr (c, s\<lparr>g_stseq := [n]\<rparr>))
     else Inr (c, s\<lparr>g_stseq := rest\<rparr>))"
  using assms by (simp add: get_seqno_def)

lemma seq_inv_take:
  assumes "seq_inv s H" "snd (get_data_str a []) = str ''stack''" "get_seqno a s = Inr (n, s')"
  shows "n \<notin> H \<and> 1 \<le> n \<and> seq_inv s' (insert n H)"
proof -
  obtain c rest where s: "g_stseq s = c # rest"
    using assms(1) by (cases "g_stseq s") (auto simp: seq_inv_def)
  show ?thesis
  proof (cases "rest = []")
    case True
    with assms s show ?thesis
      by (force simp: get_seqno_stack [OF assms(2) s] sbind_eq_Inr_iff chk32_def seq_inv_def split: if_splits)
  next
    case False
    with assms s show ?thesis
      by (auto simp: get_seqno_stack [OF assms(2) s] seq_inv_def subset_iff dom_def)
  qed
qed

lemma seq_inv_give:
  assumes "seq_inv s H" "lnum a1 = Some n" "n \<in> H"
  shows "seq_inv (cls_seqno a1 s) (H - {n})"
proof (cases "g_mapVal s n")
  case None
  with assms show ?thesis
    by (auto simp: cls_seqno_def get_data_int_def seq_inv_def domIff)
next
  case (Some nd)
  with assms show ?thesis
    by (auto simp: cls_seqno_def get_data_int_def seq_inv_def)
qed

lemma seq_reach_inv: "seq_reach s H \<Longrightarrow> seq_inv s H"
proof (induction rule: seq_reach.induct)
  case (start ep sp cpath path)
  show ?case by (simp add: init_def start_app_def seq_inv_def)
next
  case (take s H a n s')
  then show ?case using seq_inv_take by blast
next
  case (put s H a1 n now a2 a3 a4)
  have "dom (g_mapVal s) \<subseteq> H" using put.IH by (simp add: seq_inv_def)
  then have "dom (g_mapVal (set_value now a1 a2 a3 a4 s)) \<subseteq> H"
    using set_value_frame(2) [OF put.hyps(2), of now a2 a3 a4 s] put.hyps(3) by blast
  then show ?case by (rule seq_inv_store [OF put.IH set_value_frame(1)])
next
  case (look s H a1 n a2 a3)
  have "dom (g_mapVal s) \<subseteq> H" using look.IH by (simp add: seq_inv_def)
  then have "dom (g_mapVal (snd (get_value a1 a2 a3 s))) \<subseteq> H"
    using get_value_frame(2) [OF look.hyps(2), of a2 a3 s] look.hyps(3) by blast
  then show ?case by (rule seq_inv_store [OF look.IH get_value_frame(1)])
next
  case (give s H a1 n)
  then show ?case using seq_inv_give by blast
qed

text \<open>
  C7: mutual exclusion of sequence numbers. In every state reached by scripts that follow
  the protocol, \<open>get_seqno("stack")\<close> finds the stack non-empty, and the number it returns is
  positive and held by nobody; the only way it can fail is the overflow of an int.
\<close>

theorem seqno_exclusive:
  assumes "seq_reach s H" and "snd (get_data_str a []) = str ''stack''"
  shows "get_seqno a s = Inl IntOverflow
    \<or> (\<exists>n s'. get_seqno a s = Inr (n, s') \<and> n \<notin> H \<and> 1 \<le> n)"
proof -
  have inv: "seq_inv s H" using assms(1) by (rule seq_reach_inv)
  then obtain c rest where s: "g_stseq s = c # rest"
    by (cases "g_stseq s") (auto simp: seq_inv_def)
  show ?thesis
  proof (cases "get_seqno a s")
    case (Inl e)
    then show ?thesis
      by (auto simp: get_seqno_stack [OF assms(2) s] sbind_eq_Inl_iff chk32_def split: if_splits)
  next
    case (Inr r)
    then obtain n s' where "get_seqno a s = Inr (n, s')" by (cases r) auto
    with seq_inv_take [OF inv assms(2) this] show ?thesis by blast
  qed
qed

theorem seqno_exclusive_witness:
  "\<exists>s H a. seq_reach s H \<and> snd (get_data_str a []) = str ''stack'' \<and> H = {1}
    \<and> (get_seqno a s = Inl IntOverflow \<or> (\<exists>n s'. get_seqno a s = Inr (n, s') \<and> n \<notin> H \<and> 1 \<le> n))"
proof -
  let ?a = "\<lparr>lnum = None, lstr = Some (str ''stack'')\<rparr>"
  let ?s0 = "snd (snd (init [] [] None None start_app))"
  have a: "snd (get_data_str ?a []) = str ''stack''" by (simp add: get_data_str_def)
  have "get_seqno ?a ?s0 = Inr (1, ?s0\<lparr>g_stseq := [2]\<rparr>)"
    by (simp add: get_seqno_def a init_def start_app_def chk32_def int_min_def int_max_def)
  from seq_reach.take [OF seq_reach.start a this]
  have r: "seq_reach (?s0\<lparr>g_stseq := [2]\<rparr>) {1}" by simp
  show ?thesis
    using seqno_exclusive [OF r a] r a by blast
qed

text \<open>
  A number that is given back without a value having been set under it is lost: the
  store has no entry for it, and nothing is pushed on the stack.
\<close>

lemma cls_without_value:
  assumes "lnum a = Some n" "g_mapVal s n = None"
  shows "cls_seqno a s = s"
  using assms by (simp add: cls_seqno_def get_data_int_def)

text \<open>
  The two kinds of numbers collide. Every number that \<open>get_seqno("stack")\<close> hands out
  of the initial state is also what \<open>get_seqno()\<close> returns, so two scripts that use the
  two modes share one entry of the store.
\<close>

theorem seqno_modes_collide:
  "\<exists>a b s1 s2. snd (get_data_str a []) = str ''stack'' \<and> snd (get_data_str b []) \<noteq> str ''stack''
    \<and> get_seqno a (snd (snd (init ep sp cp lp start_app))) = Inr (1, s1)
    \<and> get_seqno b s1 = Inr (1, s2)"
proof -
  let ?a = "\<lparr>lnum = None, lstr = Some (str ''stack'')\<rparr>"
  let ?b = "\<lparr>lnum = None, lstr = None\<rparr>"
  let ?s1 = "\<lparr>g_stseq = [2], g_mapVal = Map.empty, seqno = 1\<rparr>"
  have ne: "str ''stack'' \<noteq> []" by (simp add: str_def)
  have ab: "snd (get_data_str ?a []) = str ''stack''" "snd (get_data_str ?b []) \<noteq> str ''stack''"
    using ne by (simp_all add: get_data_str_def)
  have "get_seqno ?a (snd (snd (init ep sp cp lp start_app))) = Inr (1, ?s1)"
    by (simp add: get_data_str_def get_seqno_def init_def start_app_def chk32_def int_min_def int_max_def)
  moreover have "get_seqno ?b ?s1 = Inr (1, ?s1\<lparr>seqno := 2\<rparr>)"
    using ab(2) by (simp add: get_seqno_def chk32_def int_min_def int_max_def)
  ultimately show ?thesis using ab by blast
qed

section \<open>The value store keeps what was set\<close>

text \<open>
  What a script expects of the store: a value just set is read back, setting and reading
  elsewhere changes nothing, and an entry never set reads as the empty string.
\<close>

locale value_store =
  fixes put :: "'k \<Rightarrow> 'v \<Rightarrow> 's \<Rightarrow> 's"
    and look :: "'k \<Rightarrow> 's \<Rightarrow> 'v \<times> 's"
  assumes look_put: "fst (look k (put k v s)) = v"
    and look_put_other: "k \<noteq> k' \<Longrightarrow> fst (look k (put k' v s)) = fst (look k s)"
    and look_look: "fst (look k (snd (look k' s))) = fst (look k s)"
begin

lemma look_after_puts:
  "fst (look k (fold (\<lambda>(k, v). put k v) kvs s)) =
    (case map_of (rev kvs) k of Some v \<Rightarrow> v | None \<Rightarrow> fst (look k s))"
proof (induction kvs arbitrary: s)
  case Nil
  then show ?case by simp
next
  case (Cons kv kvs)
  obtain k' v where kv: "kv = (k', v)" by (cases kv)
  show ?case
    using Cons.IH [of "put k' v s"]
    by (cases "map_of (rev kvs) k"; cases "k = k'")
      (auto simp: kv look_put look_put_other map_add_def split: option.splits)
qed

end

definition num_arg :: "int \<Rightarrow> larg" where
  "num_arg n = \<lparr>lnum = Some n, lstr = None\<rparr>"

definition str_arg :: "bytes \<Rightarrow> larg" where
  "str_arg s = \<lparr>lnum = None, lstr = Some s\<rparr>"

text \<open>The calls of a script, for a number it got and any keys.\<close>

definition script_set :: "int \<Rightarrow> int \<times> bytes \<times> bytes \<Rightarrow> bytes \<Rightarrow> app \<Rightarrow> app" where
  "script_set now = (\<lambda>(i, k1, k2) v. set_value now (num_arg i) (str_arg k1) (str_arg k2) (str_arg v))"

definition script_get :: "int \<times> bytes \<times> bytes \<Rightarrow> app \<Rightarrow> bytes option \<times> app" where
  "script_get = (\<lambda>(i, k1, k2). get_value (num_arg i) (str_arg k1) (str_arg k2))"

text \<open>Reading at a key, on the map alone.\<close>

definition entry :: "(int \<rightharpoonup> node) \<Rightarrow> int \<times> bytes \<times> bytes \<Rightarrow> bytes" where
  "entry m = (\<lambda>(i, k1, k2). value_at (inner_at (content (node_at m i)) k1) k2)"

lemma entry_put_at: "entry (put_at i k1 k2 v m) k = (if k = (i, k1, k2) then v else entry m k)"
  by (cases k) (auto simp: entry_def put_at_def node_at_def inner_at_def value_at_def Let_def
    split: option.splits)

lemma entry_tm: "entry (m(i \<mapsto> (node_at m i)\<lparr>tm := now\<rparr>)) k = entry m k"
  by (cases k) (auto simp: entry_def node_at_def split: option.splits)

lemma script_set_eq:
  "0 < i \<Longrightarrow> script_set now (i, k1, k2) v s =
    s\<lparr>g_mapVal := put_at i k1 k2 v (if g_mapVal s i = None
        then (g_mapVal s)(i \<mapsto> (node_at (g_mapVal s) i)\<lparr>tm := now\<rparr>) else g_mapVal s)\<rparr>"
  by (simp add: script_set_def set_value_def get_data_int_def get_data_str_def num_arg_def str_arg_def)

lemma script_get_eq:
  "0 < i \<Longrightarrow> script_get (i, k1, k2) s =
    (Some (entry (g_mapVal s) (i, k1, k2)),
     s\<lparr>g_mapVal := put_at i k1 k2 (entry (g_mapVal s) (i, k1, k2)) (g_mapVal s)\<rparr>)"
  by (simp add: script_get_def get_value_def get_data_int_def get_data_str_def num_arg_def str_arg_def
    entry_def Let_def)

text \<open>The keys a script can use: the number is positive.\<close>

typedef skey = "{(i, k1, k2). 0 < (i :: int)} :: (int \<times> bytes \<times> bytes) set"
  by (rule exI [of _ "(1, [], [])"]) simp

lemma skey_pos: "Rep_skey k = (i, k1, k2) \<Longrightarrow> 0 < i"
  using Rep_skey [of k] by simp

interpretation vals: value_store
  "\<lambda>k v. script_set now (Rep_skey k) v"
  "\<lambda>k s. (the (fst (script_get (Rep_skey k) s)), snd (script_get (Rep_skey k) s))"
proof unfold_locales
  fix k k' :: skey and v s
  obtain i k1 k2 where k: "Rep_skey k = (i, k1, k2)" by (cases "Rep_skey k")
  obtain i' k1' k2' where k': "Rep_skey k' = (i', k1', k2')" by (cases "Rep_skey k'")
  have pos: "0 < i" "0 < i'" using k k' by (auto intro: skey_pos)
  show "fst (the (fst (script_get (Rep_skey k) (script_set now (Rep_skey k) v s))),
      snd (script_get (Rep_skey k) (script_set now (Rep_skey k) v s))) = v"
    using pos by (simp add: k script_set_eq script_get_eq entry_put_at)
  show "fst (the (fst (script_get (Rep_skey k) (snd (the (fst (script_get (Rep_skey k') s)),
      snd (script_get (Rep_skey k') s))))),
      snd (script_get (Rep_skey k) (snd (the (fst (script_get (Rep_skey k') s)),
      snd (script_get (Rep_skey k') s))))) =
    fst (the (fst (script_get (Rep_skey k) s)), snd (script_get (Rep_skey k) s))"
    using pos by (simp add: k k' script_get_eq entry_put_at)
  assume "k \<noteq> k'"
  then have "(i, k1, k2) \<noteq> (i', k1', k2')" using k k' by (metis Rep_skey_inject)
  then show "fst (the (fst (script_get (Rep_skey k) (script_set now (Rep_skey k') v s))),
      snd (script_get (Rep_skey k) (script_set now (Rep_skey k') v s))) =
    fst (the (fst (script_get (Rep_skey k) s)), snd (script_get (Rep_skey k) s))"
    using pos by (auto simp: k k' script_set_eq script_get_eq entry_put_at entry_tm split: if_splits)
qed

text \<open>
  The value store. After any sequence of \<open>set_value\<close> calls on keys with positive
  numbers, \<open>get_value\<close> at a key returns the value set there last, or what it returned
  before the calls when the sequence does not set it.
\<close>

theorem get_value_after_sets:
  "the (fst (script_get (Rep_skey k) (fold (\<lambda>(k, v). script_set now (Rep_skey k) v) kvs s))) =
    (case map_of (rev kvs) k of Some v \<Rightarrow> v | None \<Rightarrow> the (fst (script_get (Rep_skey k) s)))"
  using vals.look_after_puts [of k now kvs s] by (simp split: option.splits)

section \<open>Signals and the worker\<close>

inductive_cases work_stepE: "work_step w w'"

text \<open>A run of the worker during which no signal arrives is a chain of \<open>work_step\<close>.\<close>

lemma inner_loop_round:
  assumes "pc w = TestUpdate" "\<not> bUpdate (fl w)"
  shows "(work_step ^^ (2 * n)) w (w\<lparr>calls := calls w + n\<rparr>)"
proof (induction n)
  case 0
  then show ?case by simp
next
  case (Suc n)
  let ?v = "w\<lparr>calls := calls w + n\<rparr>"
  have "work_step ?v (?v\<lparr>pc := CallMain\<rparr>)"
    using work_step.update_test [of ?v] assms by simp
  moreover have "work_step (?v\<lparr>pc := CallMain\<rparr>) (?v\<lparr>pc := CallMain\<rparr>\<lparr>pc := TestUpdate, calls := Suc (calls ?v)\<rparr>)"
    using work_step.main_ok [of "?v\<lparr>pc := CallMain\<rparr>"] by simp
  moreover have "?v\<lparr>pc := CallMain\<rparr>\<lparr>pc := TestUpdate, calls := Suc (calls ?v)\<rparr> = w\<lparr>calls := calls w + Suc n\<rparr>"
    using assms(1) by simp
  ultimately show ?case
    using Suc.IH by (metis (no_types, lifting) mult_Suc_right add_2_eq_Suc relpowp_Suc_I)
qed

text \<open>
  What a signal that arrived while the scripts are loaded leaves: \<open>bUpdate\<close> is still set until \<open>ResetUpdate\<close>, and clear in
  the inner loop.
\<close>

definition loading :: "deal_pc set" where "loading = {Load, CallInit, ResetUpdate}"

definition missed :: "worker \<Rightarrow> bool" where
  "missed w \<longleftrightarrow> bExit (fl w) \<and> (pc w \<in> {TestUpdate, CallMain} \<longrightarrow> \<not> bUpdate (fl w))"

lemma missed_step: "work_step w w' \<Longrightarrow> missed w \<Longrightarrow> missed w'"
  by (elim work_stepE) (auto simp: missed_def)

lemma missed_run: "work_step\<^sup>*\<^sup>* w w' \<Longrightarrow> missed w \<Longrightarrow> missed w'"
  by (induction rule: rtranclp_induct) (use missed_step in blast)+

lemma loaded:
  assumes "pc w \<in> loading"
  shows "work_step\<^sup>*\<^sup>* w (w\<lparr>pc := TestUpdate, fl := (fl w)\<lparr>bUpdate := False\<rparr>\<rparr>)"
proof -
  let ?at = "\<lambda>p. w\<lparr>pc := p\<rparr>" and ?u = "w\<lparr>pc := TestUpdate, fl := (fl w)\<lparr>bUpdate := False\<rparr>\<rparr>"
  have "work_step (?at ResetUpdate) ?u" using work_step.reset [of "?at ResetUpdate"] by simp
  then have 3: "work_step\<^sup>*\<^sup>* (?at ResetUpdate) ?u" by (rule r_into_rtranclp)
  have "work_step (?at CallInit) (?at ResetUpdate)" using work_step.call_init [of "?at CallInit"] by simp
  then have 2: "work_step\<^sup>*\<^sup>* (?at CallInit) ?u" using 3 by (rule converse_rtranclp_into_rtranclp)
  have "work_step (?at Load) (?at CallInit)" using work_step.load_ok [of "?at Load"] by simp
  then have "work_step\<^sup>*\<^sup>* (?at Load) ?u" using 2 by (rule converse_rtranclp_into_rtranclp)
  with 2 3 have "work_step\<^sup>*\<^sup>* (?at (pc w)) ?u" using assms unfolding loading_def by (elim insertE) simp_all
  then show ?thesis by simp
qed

text \<open>
  C8: a SIGTERM that arrives while the scripts are loaded is lost. The handler sets both flags; the worker can go on to its inner
  loop, where \<open>bUpdate\<close> is clear again and \<open>bExit\<close> is set, and can then call the main function any number of times and be
  where it was. Whatever it does, as long as there is no other signal, \<open>bUpdate\<close> is clear whenever it is in that loop, so that
  the loop ends only with an error of the main function.
\<close>

theorem sigterm_lost:
  assumes "pc w \<in> loading" "v = w\<lparr>fl := signal_handle SIGTERM (fl w)\<rparr>"
  shows "deal_step w v \<and> bExit (fl v) \<and> bUpdate (fl v)
    \<and> (\<exists>u. work_step\<^sup>*\<^sup>* v u \<and> pc u = TestUpdate \<and> fl u = \<lparr>bExit = True, bUpdate = False\<rparr> \<and> calls u = calls w
        \<and> (\<forall>n. (work_step ^^ (2 * n)) u (u\<lparr>calls := calls u + n\<rparr>)))
    \<and> (\<forall>u. work_step\<^sup>*\<^sup>* v u \<longrightarrow> pc u \<in> {TestUpdate, CallMain} \<longrightarrow> bExit (fl u) \<and> \<not> bUpdate (fl u))"
proof (intro conjI)
  show "deal_step w v" unfolding assms(2) by (rule deal_step.signal)
  show f: "bExit (fl v)" "bUpdate (fl v)" by (simp_all add: assms(2) signal_handle_def)
  have l: "pc v \<in> loading" using assms by simp
  let ?u = "v\<lparr>pc := TestUpdate, fl := (fl v)\<lparr>bUpdate := False\<rparr>\<rparr>"
  have "(work_step ^^ (2 * n)) ?u (?u\<lparr>calls := calls ?u + n\<rparr>)" for n by (rule inner_loop_round) simp_all
  moreover have "fl ?u = \<lparr>bExit = True, bUpdate = False\<rparr>" "calls ?u = calls w" "pc ?u = TestUpdate"
    using f by (simp_all add: assms(2))
  ultimately show "\<exists>u. work_step\<^sup>*\<^sup>* v u \<and> pc u = TestUpdate \<and> fl u = \<lparr>bExit = True, bUpdate = False\<rparr> \<and> calls u = calls w
        \<and> (\<forall>n. (work_step ^^ (2 * n)) u (u\<lparr>calls := calls u + n\<rparr>))"
    using loaded [OF l] by blast
  have "missed v" using f l by (auto simp: missed_def loading_def)
  then show "\<forall>u. work_step\<^sup>*\<^sup>* v u \<longrightarrow> pc u \<in> {TestUpdate, CallMain} \<longrightarrow> bExit (fl u) \<and> \<not> bUpdate (fl u)"
    using missed_run by (auto simp: missed_def)
qed

text \<open>The worker that has just started to load.\<close>

lemma start_loads: "work_step deal_start (deal_start\<lparr>pc := Load\<rparr>)"
  using work_step.exit_test [of deal_start] by (simp add: deal_start_def)

theorem sigterm_lost_witness:
  "\<exists>w v. deal_step\<^sup>*\<^sup>* deal_start w \<and> deal_step w v \<and> bExit (fl v) \<and> bUpdate (fl v)
    \<and> (\<exists>u. work_step\<^sup>*\<^sup>* v u \<and> pc u = TestUpdate \<and> fl u = \<lparr>bExit = True, bUpdate = False\<rparr>)"
proof -
  have "deal_step\<^sup>*\<^sup>* deal_start (deal_start\<lparr>pc := Load\<rparr>)" using deal_step.work [OF start_loads] by blast
  moreover have "pc (deal_start\<lparr>pc := Load\<rparr>) \<in> loading" by (simp add: loading_def)
  note sigterm_lost [OF this refl]
  ultimately show ?thesis by blast
qed

text \<open>How far a worker that has both flags set is from its exit.\<close>

fun exit_rank :: "deal_pc \<Rightarrow> nat" where
  "exit_rank CallMain = 4"
| "exit_rank TestUpdate = 3"
| "exit_rank CallClear = 2"
| "exit_rank TestExit = 1"
| "exit_rank Exited = 0"
| "exit_rank _ = 0"

definition stopping :: "worker \<Rightarrow> bool" where
  "stopping w \<longleftrightarrow> bExit (fl w) \<and> bUpdate (fl w) \<and> pc w \<in> {CallMain, TestUpdate, CallClear, TestExit, Exited}"

definition pending :: "worker \<Rightarrow> nat" where
  "pending w = calls w + (if pc w = CallMain then 1 else 0)"

lemma stopping_step:
  assumes "work_step w w'" "stopping w"
  shows "stopping w' \<and> exit_rank (pc w') < exit_rank (pc w) \<and> pending w' \<le> pending w"
  using assms by (elim work_stepE) (auto simp: stopping_def pending_def)

lemma stopping_run:
  assumes "(work_step ^^ k) w w'" "stopping w"
  shows "stopping w' \<and> k + exit_rank (pc w') \<le> exit_rank (pc w) \<and> pending w' \<le> pending w"
  using assms
proof (induction k arbitrary: w')
  case 0
  then show ?case by simp
next
  case (Suc k)
  then obtain v where v: "(work_step ^^ k) w v" "work_step v w'" by auto
  with Suc.IH [OF v(1) Suc.prems(2)] stopping_step [OF v(2)] show ?case by auto
qed

lemma stopping_progress: "stopping w \<Longrightarrow> pc w \<noteq> Exited \<Longrightarrow> \<exists>w'. work_step w w'"
  by (cases "pc w") (auto simp: stopping_def intro: work_step.intros)

text \<open>
  C9: a SIGTERM that arrives while the worker is in its inner loop, or later in the
  round, stops it: whatever the Lua calls do, the worker makes at most four more steps,
  starts no call of the main function but the one it was at, and a worker that can make
  no step has exited.
\<close>

theorem sigterm_stops:
  assumes "pc w \<in> {TestUpdate, CallMain, CallClear, TestExit}"
    and "(work_step ^^ k) (w\<lparr>fl := signal_handle SIGTERM (fl w)\<rparr>) w'"
  shows "k \<le> 4 \<and> calls w' \<le> calls w + (if pc w = CallMain then 1 else 0) \<and> ((\<nexists>w''. work_step w' w'') \<longrightarrow> pc w' = Exited)"
proof -
  let ?v = "w\<lparr>fl := signal_handle SIGTERM (fl w)\<rparr>"
  have v: "stopping ?v" using assms(1) by (auto simp add: stopping_def signal_handle_def)
  note run = stopping_run [OF assms(2) v]
  have "exit_rank (pc w) \<le> 4" by (cases "pc w") auto
  with run stopping_progress [of w'] show ?thesis
    by (auto simp: pending_def split: if_splits)
qed

theorem sigterm_stops_witness:
  "\<exists>w k w'. pc w \<in> {TestUpdate, CallMain, CallClear, TestExit}
    \<and> (work_step ^^ k) (w\<lparr>fl := signal_handle SIGTERM (fl w)\<rparr>) w'
    \<and> k \<le> 4 \<and> calls w' \<le> calls w + (if pc w = CallMain then 1 else 0) \<and> ((\<nexists>w''. work_step w' w'') \<longrightarrow> pc w' = Exited)"
proof -
  let ?w = "deal_start\<lparr>pc := TestUpdate\<rparr>"
  have "(work_step ^^ 0) (?w\<lparr>fl := signal_handle SIGTERM (fl ?w)\<rparr>) (?w\<lparr>fl := signal_handle SIGTERM (fl ?w)\<rparr>)"
    by simp
  from sigterm_stops [OF _ this] this show ?thesis
    by (intro exI [of _ ?w] exI [of _ 0] exI) auto
qed

end
