(* ===== verification/Message.thy ===== *)
theory Message
  imports Prelude
begin

text \<open>
  The Lua library \<open>libmsg\<close> of \<open>src/src/message/message.cpp\<close> over System V message queues.
  The kernel is not part of the repository: its three calls are the parameter \<open>sv\<close>, with a
  state of any type. A message is the raw bytes of the struct \<open>mtext\<close>: an 8-byte length,
  least significant byte first, and the text. The source names the two directions the
  other way round: \<open>enqueue\<close> receives and \<open>dequeue\<close> sends.
\<close>

section \<open>The kernel's interface\<close>

text \<open>
  \<open>msgget\<close> takes the key and whether to create the queue, and gives the id (negative on
  failure) and \<open>errno\<close>. \<open>msgrcv\<close> gives the number of bytes received, \<open>errno\<close> and those
  bytes; \<open>msgsnd\<close> gives its return value and \<open>errno\<close>.
\<close>

record 'q sysv =
  msgget :: "int \<Rightarrow> bool \<Rightarrow> 'q \<Rightarrow> int \<times> int \<times> 'q"
  msgrcv :: "int \<Rightarrow> nat \<Rightarrow> int \<Rightarrow> bool \<Rightarrow> 'q \<Rightarrow> (int \<times> int \<times> bytes) \<times> 'q"
  msgsnd :: "int \<Rightarrow> int \<Rightarrow> bytes \<Rightarrow> bool \<Rightarrow> 'q \<Rightarrow> (int \<times> int) \<times> 'q"
  strerror :: "int \<Rightarrow> bytes"

section \<open>Messages\<close>

definition MAX_MSG_LEN :: nat where "MAX_MSG_LEN = 1024 * 64"

text \<open>\<open>sizeof(mtext_t)\<close>: the length field, the text and its four bytes, padded to 8.\<close>

definition sizeof_mtext :: nat where "sizeof_mtext = 65552"

definition sizeof_long :: nat where "sizeof_long = 8"

text \<open>The struct as the constructor clears it, with the received bytes in place.\<close>

definition load_mtext :: "bytes \<Rightarrow> bytes cres" where
  "load_mtext payload =
    (if length payload \<le> sizeof_mtext then Inr (overlay (replicate sizeof_mtext 0) 0 payload)
     else Inl WriteOOB)"

definition mlen :: "bytes \<Rightarrow> nat" where
  "mlen m = le_val (take 8 m)"

definition mcontent :: "bytes \<Rightarrow> bytes" where
  "mcontent m = take (MAX_MSG_LEN + 4) (drop 8 m)"

text \<open>\<open>lua_pushlstring(L, mcontent, mlen)\<close>\<close>

definition push_content :: "bytes \<Rightarrow> bytes cres" where
  "push_content m =
    (if mlen m \<le> length (mcontent m) then Inr (take (mlen m) (mcontent m)) else Inl ReadOOB)"

text \<open>\<open>snprintf\<close> into the text: at most \<open>MAX_MSG_LEN - 1\<close> bytes and the NUL.\<close>

definition snprintf_content :: "bytes \<Rightarrow> bytes" where
  "snprintf_content s = take (MAX_MSG_LEN - 1) s"

definition errno_text :: "'q sysv \<Rightarrow> string \<Rightarrow> int \<Rightarrow> bytes" where
  "errno_text sv what errno =
    snprintf_content (str what @ str '' fail: errno='' @ dec errno @ str '','' @ strerror sv errno)"

section \<open>The library functions\<close>

text \<open>Each gives the two values pushed and the kernel's new state.\<close>

definition enqueue :: "'q sysv \<Rightarrow> int \<Rightarrow> int \<Rightarrow> int \<Rightarrow> 'q \<Rightarrow> (int \<times> bytes) cres \<times> 'q" where
  "enqueue sv key type flag q =
    (let (msgid, err, q1) = msgget sv key False q in
     if msgid < 0 then
       (let (msgid', err', q2) = msgget sv key True q1 in
        if msgid' < 0 then (Inr (- 1, errno_text sv ''msgget'' err'), q2)
        else (Inr (0, []), q2))
     else
       (let ((r, err, payload), q2) = msgrcv sv msgid sizeof_mtext type (flag \<noteq> 0) q1 in
        if r < 0 then (Inr (r, errno_text sv ''msgrcv'' err), q2)
        else (sbind (load_mtext payload) (\<lambda>m.
          if nat r < sizeof_long \<or> nat r + 4 > sizeof_mtext
             \<or> nat r \<noteq> (mlen m + sizeof_long) mod 2 ^ 64
          then Inr (- 2, snprintf_content (str ''getmsg fail: msg size error('' @ dec r @ str '')''))
          else sbind (push_content m) (\<lambda>c. Inr (r - int sizeof_long, c))), q2)))"

text \<open>The bytes of \<open>mtext\<close> that \<open>msgsnd\<close> is given for a string.\<close>

definition payload_of :: "bytes \<Rightarrow> bytes" where
  "payload_of p = le_bytes 8 (length p) @ snprintf_content p"

definition dequeue :: "'q sysv \<Rightarrow> int \<Rightarrow> bytes \<Rightarrow> int \<Rightarrow> int \<Rightarrow> 'q \<Rightarrow> (int \<times> bytes) cres \<times> 'q" where
  "dequeue sv key p type flag q =
    (if length p + 1 > MAX_MSG_LEN then
       (Inr (- 2, snprintf_content
          (str ''retmag fail: msg size error('' @ dec (cast_int (int (length p))) @ str '')'')), q)
     else
       (let (msgid, err, q1) = msgget sv key False q in
        if msgid < 0 then
          (let (msgid', err', q2) = msgget sv key True q1 in
           if msgid' < 0 then (Inr (- 1, errno_text sv ''msgget'' err'), q2)
           else (Inr (0, []), q2))
        else
          (let ((r, err), q2) = msgsnd sv msgid type (take (length p + sizeof_long) (payload_of p)) (flag \<noteq> 0) q1 in
           if r < 0 then (Inr (r, errno_text sv ''msgsnd'' err), q2)
           else (sbind (load_mtext (payload_of p)) (\<lambda>m. sbind (push_content m) (\<lambda>c. Inr (r, c))), q2))))"


section \<open>What the kernel promises\<close>

text \<open>The error numbers of a full and of an empty queue.\<close>

definition EAGAIN :: int where "EAGAIN = 11"
definition ENOMSG :: int where "ENOMSG = 42"

text \<open>
  The capacity of a queue, as \<open>msgop(2)\<close> has it: a queue is full for a message if that would make its bytes, or the number of
  its messages, more than \<open>msg_qbytes\<close>.
\<close>

definition has_space :: "nat \<Rightarrow> (int \<times> bytes) list \<Rightarrow> bytes \<Rightarrow> bool" where
  "has_space qbytes ms d \<longleftrightarrow> (\<Sum>m\<leftarrow>ms. length (snd m)) + length d \<le> qbytes \<and> length ms < qbytes"




definition packet :: "bytes \<Rightarrow> bytes" where
  "packet p = le_bytes 8 (length p) @ p"

section \<open>Loading and pushing a message\<close>



lemma length_packet [simp]: "length (packet p) = length p + 8"
  by (simp add: packet_def)


section \<open>The queue as the scripts see it\<close>




















section \<open>Properties\<close>


text \<open>A kernel with one queue, to evaluate the properties on.\<close>

definition one_queue :: "(int \<times> bytes) list option sysv" where
  "one_queue = \<lparr>
    msgget = \<lambda>key create q.
      (case q of Some ms \<Rightarrow> (if create then (- 1, 17, q) else (7, 0, q))
       | None \<Rightarrow> (if create then (7, 0, Some []) else (- 1, 2, None))),
    msgrcv = \<lambda>i n t b q.
      (case q of Some ((t', d) # ms) \<Rightarrow> ((int (length (take n d)), 0, take n d), Some ms)
       | _ \<Rightarrow> ((- 1, ENOMSG, []), q)),
    msgsnd = \<lambda>i t d b q.
      (case q of Some ms \<Rightarrow>
        (if \<not> (0 < t \<and> length d \<le> 8192) then ((- 1, 22), q)
         else if has_space 30 ms d then ((0, 0), Some (ms @ [(t, d)]))
         else ((- 1, EAGAIN), q))
       | None \<Rightarrow> ((- 1, 22), q)),
    strerror = \<lambda>e. str ''error'' \<rparr>"






text \<open>
  The string that finds no queue is lost. When the queue does not exist yet, the sender
  creates it and reports success with an empty text, but \<open>msgsnd\<close> is not called: the queue stays
  as \<open>msgget\<close> has made it.
\<close>

theorem first_message_lost:
  assumes "msgget sv key False q = (r, e, q1)" "r < 0" "msgget sv key True q1 = (i, e', q2)" "0 \<le> i" "length p < MAX_MSG_LEN"
  shows "dequeue sv key p t flag q = (Inr (0, []), q2)"
  using assms by (simp add: dequeue_def)

theorem first_message_lost_witness: "dequeue one_queue 5 (str ''hello'') 1 0 None = (Inr (0, []), Some [])"
  by (rule first_message_lost [of _ _ _ "- 1" 2 None 7 0]) (simp_all add: one_queue_def str_def MAX_MSG_LEN_def)

text \<open>
  C11: a receive is memory safe against any sender. Whatever bytes the kernel hands over, as
  long as it respects the size it was given, \<open>enqueue\<close> faults nowhere: it never reads beyond
  the text, and a non-negative result is exactly the number of bytes returned.
\<close>

theorem enqueue_safe:
  assumes "\<And>i t b q r e d q'. msgrcv sv i sizeof_mtext t b q = ((r, e, d), q') \<Longrightarrow>
      r < int (2 ^ 31) \<and> length d = nat r \<and> nat r \<le> sizeof_mtext"
  shows "\<exists>n c. fst (enqueue sv key t flag q) = Inr (n, c) \<and> (0 \<le> n \<longrightarrow> int (length c) = n)"
proof -
  obtain i e q1 where g: "msgget sv key False q = (i, e, q1)" by (metis prod_cases3)
  show ?thesis
  proof (cases "i < 0")
    case True
    obtain j e' q2 where "msgget sv key True q1 = (j, e', q2)" by (metis prod_cases3)
    with g True show ?thesis by (cases "j < 0") (simp_all add: enqueue_def)
  next
    case False
    obtain r e' d q2 where r: "msgrcv sv i sizeof_mtext t (flag \<noteq> 0) q1 = ((r, e', d), q2)"
      by (metis prod_cases3 surj_pair)
    have d: "length d = nat r" "nat r \<le> sizeof_mtext" using assms [OF r] by auto
    define m where "m = overlay (replicate sizeof_mtext (0 :: byte)) 0 d"
    have ld: "load_mtext d = Inr m" using d by (simp add: load_mtext_def m_def)
    have lm: "length m = 65552" using d by (simp add: m_def sizeof_mtext_def)
    have small: "mlen m < 256 ^ 8" using le_val_less [of "take 8 m"] lm by (simp add: mlen_def)
    show ?thesis
    proof (cases "r < 0 \<or> nat r < sizeof_long \<or> nat r + 4 > sizeof_mtext \<or> nat r \<noteq> (mlen m + sizeof_long) mod 2 ^ 64")
      case True
      then show ?thesis using g False r ld by (cases "r < 0") (auto simp: enqueue_def)
    next
      case ok: False
      have r8: "8 \<le> nat r" "nat r \<le> 65548" using ok by (simp_all add: sizeof_long_def sizeof_mtext_def)
      have eq: "nat r = (mlen m + 8) mod 2 ^ 64" using ok by (simp add: sizeof_long_def)
      have ml: "mlen m + 8 = nat r"
      proof (cases "mlen m + 8 < 2 ^ 64")
        case True
        with eq show ?thesis by simp
      next
        case False
        then have "(mlen m + 8) mod 2 ^ 64 = mlen m + 8 - 2 ^ 64"
          using small by (subst mod_if) (simp add: le_mod_geq)
        with eq small r8(1) show ?thesis by simp
      qed
      have "push_content m = Inr (take (mlen m) (mcontent m))"
        using ml r8 lm by (simp add: push_content_def mcontent_def MAX_MSG_LEN_def)
      moreover have "int (length (take (mlen m) (mcontent m))) = r - 8"
        using ml r8 lm by (simp add: mcontent_def MAX_MSG_LEN_def)
      ultimately show ?thesis using g False r ld ok by (simp add: enqueue_def sizeof_long_def)
    qed
  qed
qed

text \<open>A kernel that hands over a message whose length field lies.\<close>

definition lying_queue :: "unit sysv" where
  "lying_queue = \<lparr> msgget = \<lambda>key create q. (7, 0, q),
    msgrcv = \<lambda>i n t b q. ((9, 0, [255, 0, 0, 0, 0, 0, 0, 0, 65]), q),
    msgsnd = \<lambda>i t d b q. ((0, 0), q), strerror = \<lambda>e. [] \<rparr>"

theorem enqueue_safe_witness:
  "\<exists>n c. fst (enqueue lying_queue 5 0 0 ()) = Inr (n, c) \<and> (0 \<le> n \<longrightarrow> int (length c) = n)"
  by (rule enqueue_safe) (auto simp: lying_queue_def sizeof_mtext_def)

end
