(* ===== verification/Log.thy ===== *)
theory Log
  imports Prelude
begin

text \<open>
  The Lua library \<open>liblog\<close> of \<open>src/src/log/log.cpp\<close>: a log file written through POSIX
  asynchronous I/O. \<open>fdate\<close> is the object behind the handle: a buffer of \<open>BUFSIZE\<close> bytes of
  which the first \<open>m_dpos\<close> are in use, and a control block of which only \<open>aio_nbytes\<close> changes.
  The kernel's answers are arguments; what it does with the buffer between two calls is the
  step relation \<open>log_step\<close>.
\<close>

section \<open>The log object\<close>

datatype level_t = debug | info | error_level | none

fun level_num :: "level_t \<Rightarrow> int" where
  "level_num debug = 0"
| "level_num info = 1"
| "level_num error_level = 2"
| "level_num none = 3"

definition BUFSIZE :: int where "BUFSIZE = 1024 * 16"

definition O_RDWR :: int where "O_RDWR = 2"
definition O_CREAT :: int where "O_CREAT = 64"
definition O_EXCL :: int where "O_EXCL = 128"
definition O_APPEND :: int where "O_APPEND = 1024"
definition EINPROGRESS :: int where "EINPROGRESS = 115"
definition ECANCELED :: int where "ECANCELED = 125"

record fdate =
  m_fd :: int
  m_maxsize :: int
  m_cursize :: int
  m_num :: int
  m_level :: int
  m_flag :: int
  m_data :: bytes
  m_dpos :: int
  fname :: bytes
  aio_nbytes :: int

text \<open>The constructor leaves the descriptor, the bytes of the buffer and the control block as they are.\<close>

definition fdate_new :: "int \<Rightarrow> bytes \<Rightarrow> int \<Rightarrow> bytes \<Rightarrow> int \<Rightarrow> int \<Rightarrow> int \<Rightarrow> int \<Rightarrow> fdate" where
  "fdate_new fd0 data0 nb0 pfile isize inum ilevel iflag =
    \<lparr>m_fd = fd0, m_maxsize = isize, m_cursize = 0, m_num = inum, m_level = ilevel, m_flag = iflag,
     m_data = data0, m_dpos = 0, fname = pfile, aio_nbytes = nb0\<rparr>"

text \<open>
  \<open>_open\<close>: \<open>opn\<close> is the system call, of the name and the flags. The flag of the result tells
  whether the first, empty \<open>aio_write\<close> was issued. \<open>memset\<close> clears as many bytes as a
  pointer has.
\<close>

definition fdate_open :: "(bytes \<Rightarrow> int \<Rightarrow> int) \<Rightarrow> fdate \<Rightarrow> int \<times> bool \<times> fdate" where
  "fdate_open opn f =
    (let f1 = (if m_flag f AND 1 \<noteq> 0 then f\<lparr>m_flag := O_APPEND\<rparr> else f);
         f2 = f1\<lparr>m_flag := m_flag f1 OR O_RDWR\<rparr>;
         r1 = opn (fname f2) (m_flag f2);
         f3 = (if r1 < 0 then f2\<lparr>m_cursize := 0\<rparr> else f2);
         ret = (if r1 < 0 then opn (fname f2) (m_flag f2 OR O_CREAT OR O_EXCL) else r1)
     in if ret \<ge> 0
        then (ret, True, f3\<lparr>m_fd := ret, m_data := overlay (m_data f3) 0 (replicate 8 0),
                            aio_nbytes := 0, m_dpos := 0\<rparr>)
        else (ret, False, f3))"

definition lopen :: "(bytes \<Rightarrow> int \<Rightarrow> int) \<Rightarrow> bytes \<Rightarrow> int \<Rightarrow> bytes \<Rightarrow> int
    \<Rightarrow> bytes \<Rightarrow> int \<Rightarrow> int \<Rightarrow> int \<Rightarrow> int \<Rightarrow> int \<times> bytes \<times> bool \<times> fdate" where
  "lopen opn errmsg fd0 data0 nb0 p isize num lv flag =
    (let lv' = (if lv < level_num debug \<or> lv > level_num none then level_num debug else lv);
         (ret, w, f) = fdate_open opn (fdate_new fd0 data0 nb0 p isize num lv' flag)
     in (ret, if ret < 0 then errmsg else str ''OK'', w, f))"

definition lgetlevel :: "fdate \<Rightarrow> int" where
  "lgetlevel f = m_level f"

definition lsetlevel :: "int \<Rightarrow> fdate \<Rightarrow> fdate" where
  "lsetlevel lv f = (if lv \<ge> level_num debug \<and> lv \<le> level_num none then f\<lparr>m_level := lv\<rparr> else f)"

section \<open>Logging\<close>

text \<open>\<open>memcpy(m_data+ret, m_data, len)\<close>: regions that overlap are a fault of their own.\<close>

definition move_data :: "bytes \<Rightarrow> int \<Rightarrow> int \<Rightarrow> bytes cres" where
  "move_data d r len =
    (if r < 0 \<or> len < 0 \<or> int (length d) < r + len then Inl WriteOOB
     else if 0 < len \<and> r < len then Inl Overlap
     else Inr (overlay d (nat r) (take (nat len) d)))"

text \<open>\<open>memcpy(m_data+pos, p, strlen(p))\<close>\<close>

definition put_data :: "bytes \<Rightarrow> int \<Rightarrow> bytes \<Rightarrow> bytes cres" where
  "put_data d pos p =
    (if pos < 0 \<or> int (length d) < pos + int (length p) then Inl WriteOOB
     else Inr (overlay d (nat pos) p))"

text \<open>The comparison \<open>pos+strlen(p) < BUFSIZE\<close> is one of \<open>size_t\<close>.\<close>

definition room :: "int \<Rightarrow> bytes \<Rightarrow> bool" where
  "room pos p = ((pos + int (length p)) mod 2 ^ 64 < BUFSIZE)"

record answers =
  aio_error :: int
  aio_return :: int
  aio_suspend :: int
  errno_msg :: bytes

text \<open>
  The two values pushed, whether \<open>aio_write\<close> was issued, and the object. The level is read
  and not used: the code that compares it is disabled.
\<close>

definition llog :: "answers \<Rightarrow> int \<Rightarrow> bytes \<Rightarrow> fdate \<Rightarrow> ((int \<times> bytes) \<times> bool \<times> fdate) cres" where
  "llog a lv p f =
    (if aio_error a = 0 then
       (let ret = aio_return a in
        if ret < 0 then Inr ((ret, errno_msg a), False, f)
        else
          (let len = m_dpos f - ret in
           sbind (move_data (m_data f) ret len) (\<lambda>d.
           if room len p then
             sbind (put_data d len p) (\<lambda>d'.
             (let n = cast_int (len + int (length p)) in
              Inr ((ret, str ''OK''), True, f\<lparr>m_data := d', m_dpos := n, aio_nbytes := n\<rparr>)))
           else
             Inr ((- 1, str ''too long log oh''), True, f\<lparr>m_data := d, m_dpos := len, aio_nbytes := len\<rparr>))))
     else if aio_error a = EINPROGRESS then
       (let full = m_dpos f + 1024 * 2 > BUFSIZE;
            ret = (if full then aio_suspend a else 0);
            msg = (if full \<and> ret < 0 then errno_msg a else str ''OK'')
        in if ret \<ge> 0 then
             (if room (m_dpos f) p then
                sbind (put_data (m_data f) (m_dpos f) p) (\<lambda>d.
                Inr ((ret, msg), False, f\<lparr>m_data := d, m_dpos := cast_int (m_dpos f + int (length p))\<rparr>))
              else Inr ((- 1, str ''too much log''), False, f))
           else Inr ((ret, msg), False, f))
     else if aio_error a = ECANCELED then
       (if room (m_dpos f) p then
          sbind (put_data (m_data f) (m_dpos f) p) (\<lambda>d.
          (let n = cast_int (m_dpos f + int (length p)) in
           Inr ((aio_error a, str ''OK''), True, f\<lparr>m_data := d, m_dpos := n, aio_nbytes := n\<rparr>)))
        else Inr ((- 1, str ''too much log''), False, f))
     else Inr ((aio_error a, errno_msg a), False, f))"

section \<open>The log and the kernel\<close>

text \<open>
  What became of the last request: in flight, done with a number of bytes, cancelled, or
  failed with an error number. The file is open for appending.
\<close>

datatype request = InFlight | Done nat | Cancelled | Failed int

record log_sys =
  fp :: fdate
  disk :: bytes
  req :: request

fun answers_ok :: "request \<Rightarrow> answers \<Rightarrow> bool" where
  "answers_ok InFlight a = (aio_error a = EINPROGRESS)"
| "answers_ok (Done n) a = (aio_error a = 0 \<and> aio_return a = int n)"
| "answers_ok Cancelled a = (aio_error a = ECANCELED)"
| "answers_ok (Failed e) a = (aio_error a = e \<and> e \<notin> {0, EINPROGRESS, ECANCELED})"

definition log_call :: "((int \<times> bytes) \<times> bool \<times> fdate) \<Rightarrow> log_sys \<Rightarrow> log_sys" where
  "log_call r s = s\<lparr>fp := snd (snd r), req := (if fst (snd r) then InFlight else req s)\<rparr>"

definition finish :: "nat \<Rightarrow> log_sys \<Rightarrow> log_sys" where
  "finish n s = s\<lparr>disk := disk s @ take n (m_data (fp s)), req := Done n\<rparr>"

inductive log_step :: "log_sys \<Rightarrow> log_sys \<Rightarrow> bool" where
  written: "req s = InFlight \<Longrightarrow> int n \<le> aio_nbytes (fp s) \<Longrightarrow> log_step s (finish n s)"
| cancel: "req s = InFlight \<Longrightarrow> log_step s (s\<lparr>req := Cancelled\<rparr>)"
| fail: "req s = InFlight \<Longrightarrow> e \<notin> {0, EINPROGRESS, ECANCELED} \<Longrightarrow> log_step s (s\<lparr>req := Failed e\<rparr>)"
| call: "answers_ok (req s) a \<Longrightarrow> length p < 2 ^ 62 \<Longrightarrow> llog a lv p (fp s) = Inr r \<Longrightarrow> log_step s (log_call r s)"
| set_level: "log_step s (s\<lparr>fp := lsetlevel lv (fp s)\<rparr>)"

text \<open>The states from a successful \<open>lopen\<close> on.\<close>

inductive log_reach :: "log_sys \<Rightarrow> bool" where
  start: "lopen opn e fd0 data0 nb0 p isize num lv flag = (ret, msg, True, f) \<Longrightarrow>
    int (length data0) = BUFSIZE \<Longrightarrow> log_reach \<lparr>fp = f, disk = content, req = InFlight\<rparr>"
| step: "log_reach s \<Longrightarrow> log_step s s' \<Longrightarrow> log_reach s'"

inductive_cases log_stepE: "log_step s s'"

section \<open>Invariant\<close>

definition log_inv :: "log_sys \<Rightarrow> bool" where
  "log_inv s = (int (length (m_data (fp s))) = BUFSIZE
     \<and> 0 \<le> aio_nbytes (fp s) \<and> aio_nbytes (fp s) \<le> m_dpos (fp s) \<and> m_dpos (fp s) < BUFSIZE
     \<and> (\<forall>n. req s = Done n \<longrightarrow> int n \<le> aio_nbytes (fp s)))"

lemma room_iff:
  assumes "0 \<le> pos" "pos < BUFSIZE" "length p < 2 ^ 62"
  shows "room pos p \<longleftrightarrow> pos + int (length p) < BUFSIZE"
proof -
  have "int (length p) < 2 ^ 62" using assms(3) by (simp add: nat_less_iff [symmetric] nat_power_eq)
  then have "pos + int (length p) < 2 ^ 64" using assms(2) by (simp add: BUFSIZE_def)
  then show ?thesis using assms(1) by (simp add: room_def)
qed

lemma put_data_in:
  "0 \<le> pos \<Longrightarrow> pos + int (length p) \<le> int (length d) \<Longrightarrow> put_data d pos p = Inr (overlay d (nat pos) p)"
  by (simp add: put_data_def)

lemma cast_pos: "0 \<le> i \<Longrightarrow> i < BUFSIZE \<Longrightarrow> cast_int i = i"
  by (simp add: int_min_def int_max_def BUFSIZE_def)

lemma length_overlay_int:
  "0 \<le> pos \<Longrightarrow> pos + int (length p) \<le> int (length d) \<Longrightarrow> length (overlay d (nat pos) p) = length d"
  by (rule length_overlay) linarith

text \<open>One call, under the invariant: its only fault, and what it leaves.\<close>

definition overlapping :: "log_sys \<Rightarrow> bool" where
  "overlapping s = (\<exists>n. req s = Done n \<and> 2 * int n < m_dpos (fp s))"

lemma move_data_done:
  assumes "log_inv s" "req s = Done n"
  shows "move_data (m_data (fp s)) (int n) (m_dpos (fp s) - int n) =
    (if overlapping s then Inl Overlap
     else Inr (overlay (m_data (fp s)) n (take (nat (m_dpos (fp s)) - n) (m_data (fp s)))))"
proof -
  have b: "int n \<le> m_dpos (fp s)" "m_dpos (fp s) < int (length (m_data (fp s)))"
    using assms by (auto simp: log_inv_def)
  then have "nat (m_dpos (fp s) - int n) = nat (m_dpos (fp s)) - n" by linarith
  then show ?thesis
    using b assms(2) by (auto simp: move_data_def overlapping_def)
qed

lemma llog_done:
  assumes "log_inv s" "req s = Done n" "answers_ok (req s) a" "length p < 2 ^ 62"
  shows "llog a lv p (fp s) =
    (if overlapping s then Inl Overlap
     else let d = overlay (m_data (fp s)) n (take (nat (m_dpos (fp s)) - n) (m_data (fp s)));
              len = m_dpos (fp s) - int n
          in if len + int (length p) < BUFSIZE
             then Inr ((int n, str ''OK''), True, (fp s)\<lparr>m_data := overlay d (nat len) p,
               m_dpos := len + int (length p), aio_nbytes := len + int (length p)\<rparr>)
             else Inr ((- 1, str ''too long log oh''), True, (fp s)\<lparr>m_data := d, m_dpos := len, aio_nbytes := len\<rparr>))"
proof -
  have b: "int n \<le> m_dpos (fp s)" "m_dpos (fp s) < BUFSIZE" "int (length (m_data (fp s))) = BUFSIZE"
    using assms by (auto simp: log_inv_def)
  define d where "d = overlay (m_data (fp s)) n (take (nat (m_dpos (fp s)) - n) (m_data (fp s)))"
  have ld: "int (length d) = BUFSIZE" using b by (auto simp: d_def)
  have r: "room (m_dpos (fp s) - int n) p \<longleftrightarrow> m_dpos (fp s) - int n + int (length p) < BUFSIZE"
    by (rule room_iff) (use b assms(4) in auto)
  show ?thesis
    using b ld r move_data_done [OF assms(1,2)] assms(2,3)
    unfolding llog_def Let_def d_def [symmetric]
    by (auto simp: put_data_in cast_pos)
qed

lemma llog_inv:
  assumes inv: "log_inv s" and a: "answers_ok (req s) a" and p: "length p < 2 ^ 62"
  shows "llog a lv p (fp s) = Inl e \<longleftrightarrow> e = Overlap \<and> overlapping s"
    and "llog a lv p (fp s) = Inr r \<Longrightarrow> log_inv (log_call r s)"
proof -
  have b: "0 \<le> m_dpos (fp s)" "m_dpos (fp s) < BUFSIZE" "int (length (m_data (fp s))) = BUFSIZE"
    "0 \<le> aio_nbytes (fp s)" "aio_nbytes (fp s) \<le> m_dpos (fp s)"
    using inv by (auto simp: log_inv_def)
  have rm: "room (m_dpos (fp s)) p \<longleftrightarrow> m_dpos (fp s) + int (length p) < BUFSIZE"
    by (rule room_iff) (use b p in auto)
  have "(llog a lv p (fp s) = Inl e \<longleftrightarrow> e = Overlap \<and> overlapping s)
    \<and> (llog a lv p (fp s) = Inr r \<longrightarrow> log_inv (log_call r s))"
  proof (cases "req s")
    case (Done n)
    have n: "int n \<le> m_dpos (fp s)" using Done inv by (auto simp: log_inv_def)
    show ?thesis
      using b n unfolding llog_done [OF inv Done a p] Let_def log_inv_def log_call_def
      by (auto simp: length_overlay_int)
  next
    case (Failed e)
    then show ?thesis using a inv by (auto simp: llog_def overlapping_def log_call_def log_inv_def)
  qed (use a inv b rm in \<open>auto simp: llog_def overlapping_def log_call_def log_inv_def Let_def
        put_data_in cast_pos length_overlay_int EINPROGRESS_def ECANCELED_def split: if_splits\<close>)
  then show "llog a lv p (fp s) = Inl e \<longleftrightarrow> e = Overlap \<and> overlapping s"
    "llog a lv p (fp s) = Inr r \<Longrightarrow> log_inv (log_call r s)" by blast+
qed

lemma log_step_inv: "log_step s s' \<Longrightarrow> log_inv s \<Longrightarrow> log_inv s'"
proof (induction rule: log_step.induct)
  case (written s n)
  then show ?case by (simp add: log_inv_def finish_def)
next
  case (call s a p lv r)
  then show ?case using llog_inv (2) by blast
qed (auto simp: log_inv_def lsetlevel_def)

lemma log_reach_inv: "log_reach s \<Longrightarrow> log_inv s"
proof (induction rule: log_reach.induct)
  case (start opn e fd0 data0 nb0 p isize num lv flag ret msg f content)
  have "f = f\<lparr>m_data := overlay data0 0 (replicate 8 0), aio_nbytes := 0, m_dpos := 0\<rparr>"
    using start(1) by (auto simp: lopen_def fdate_open_def fdate_new_def Let_def split: if_splits prod.splits)
  then have "m_data f = overlay data0 0 (replicate 8 0)" "aio_nbytes f = 0" "m_dpos f = 0"
    by (metis fdate.select_convs fdate.update_convs fdate.surjective)+
  then show ?case using start(2) by (simp add: log_inv_def BUFSIZE_def)
qed (rule log_step_inv)

section \<open>Runs\<close>

definition done_answers :: "nat \<Rightarrow> answers" where
  "done_answers n = \<lparr>aio_error = 0, aio_return = int n, aio_suspend = 0, errno_msg = []\<rparr>"

definition busy_answers :: answers where
  "busy_answers = \<lparr>aio_error = EINPROGRESS, aio_return = 0, aio_suspend = 0, errno_msg = []\<rparr>"

text \<open>The kernel completes the whole request; then one call; a call while the request is in flight.\<close>

definition finish_all :: "log_sys \<Rightarrow> log_sys" where
  "finish_all s = finish (nat (aio_nbytes (fp s))) s"

definition log_after :: "bytes \<Rightarrow> log_sys \<Rightarrow> log_sys cres" where
  "log_after p s =
    (let s1 = finish_all s in
     sbind (llog (done_answers (nat (aio_nbytes (fp s)))) 0 p (fp s1)) (\<lambda>r. Inr (log_call r s1)))"

definition log_during :: "bytes \<Rightarrow> log_sys \<Rightarrow> log_sys cres" where
  "log_during p s = sbind (llog busy_answers 0 p (fp s)) (\<lambda>r. Inr (log_call r s))"

fun log_all :: "bytes list \<Rightarrow> log_sys \<Rightarrow> log_sys cres" where
  "log_all [] s = Inr s"
| "log_all (p # ps) s = sbind (log_after p s) (log_all ps)"

text \<open>The bytes of the buffer in use, and those handed to the kernel, of a request in flight.\<close>

definition in_use :: "log_sys \<Rightarrow> bytes" where
  "in_use s = take (nat (m_dpos (fp s))) (m_data (fp s))"

definition idle :: "log_sys \<Rightarrow> bool" where
  "idle s = (log_inv s \<and> req s = InFlight \<and> aio_nbytes (fp s) = m_dpos (fp s))"

lemma finish_all_inv: "log_inv s \<Longrightarrow> log_inv (finish_all s)"
  by (simp add: log_inv_def finish_all_def finish_def)

lemma log_after_eq:
  assumes "log_inv s" "m_dpos (fp s) \<le> 2 * aio_nbytes (fp s)"
    "m_dpos (fp s) - aio_nbytes (fp s) + int (length p) < BUFSIZE"
  shows "\<exists>s'. log_after p s = Inr s' \<and> idle s'
    \<and> disk s' = disk s @ take (nat (aio_nbytes (fp s))) (m_data (fp s))
    \<and> in_use s' = take (nat (m_dpos (fp s) - aio_nbytes (fp s))) (m_data (fp s)) @ p"
proof -
  define s1 where "s1 = finish_all s"
  define n where "n = nat (aio_nbytes (fp s))"
  define l where "l = nat (m_dpos (fp s)) - n"
  define d where "d = overlay (m_data (fp s)) n (take l (m_data (fp s)))"
  have b: "0 \<le> aio_nbytes (fp s)" "aio_nbytes (fp s) \<le> m_dpos (fp s)" "m_dpos (fp s) < BUFSIZE"
    "int (length (m_data (fp s))) = BUFSIZE"
    using assms(1) by (auto simp: log_inv_def)
  have i1: "log_inv s1" by (simp add: s1_def finish_all_inv assms(1))
  have r1: "req s1 = Done n" "fp s1 = fp s" "\<not> overlapping s1"
    using assms(2) b by (auto simp: s1_def n_def finish_all_def finish_def overlapping_def)
  have a1: "answers_ok (req s1) (done_answers n)" by (simp add: r1 done_answers_def)
  have pl: "length p < 2 ^ 62" using assms(3) b by (simp add: BUFSIZE_def)
  have l: "m_dpos (fp s) - int n = int l" "l \<le> n" "int n = aio_nbytes (fp s)"
    using b assms(2) by (simp_all add: l_def n_def)
  have lp: "int l + int (length p) < BUFSIZE" using assms(3) l by linarith
  define r where "r = ((int n, str ''OK''), True, (fp s)\<lparr>m_data := overlay d l p,
    m_dpos := int l + int (length p), aio_nbytes := int l + int (length p)\<rparr>)"
  have ll: "llog (done_answers n) 0 p (fp s1) = Inr r"
    using r1(3) lp
    unfolding r1(2) llog_done [OF i1 r1(1) a1 pl, unfolded r1(2)] Let_def l_def [symmetric] d_def [symmetric] l(1) r_def
    by simp
  have inv: "log_inv (log_call r s1)" by (rule llog_inv (2) [OF i1 a1 pl ll])
  have dl: "length d = length (m_data (fp s))" "l + length p \<le> length d" "take l d = take l (m_data (fp s))"
    using b l assms(3) by (auto simp: d_def overlay_def)
  then have "in_use (log_call r s1) = take l (m_data (fp s)) @ p"
    using take_overlay [of "l + length p" l p d] by (simp add: in_use_def log_call_def r_def nat_add_distrib)
  moreover have "idle (log_call r s1)" using inv by (simp add: idle_def log_call_def r_def)
  moreover have "disk (log_call r s1) = disk s @ take n (m_data (fp s))"
    by (simp add: log_call_def s1_def finish_all_def finish_def n_def)
  moreover have "log_after p s = Inr (log_call r s1)"
    using ll by (simp add: log_after_def Let_def s1_def n_def)
  moreover have "nat (m_dpos (fp s) - aio_nbytes (fp s)) = l" using l by linarith
  ultimately show ?thesis by (simp add: n_def)
qed

lemma log_after_idle:
  assumes "idle s" "int (length p) < BUFSIZE"
  shows "\<exists>s'. log_after p s = Inr s' \<and> idle s' \<and> disk s' = disk s @ in_use s \<and> in_use s' = p"
proof -
  have "log_inv s" "0 \<le> m_dpos (fp s)" "aio_nbytes (fp s) = m_dpos (fp s)"
    using assms(1) by (auto simp: idle_def log_inv_def)
  with log_after_eq [of s p] assms(2) show ?thesis by (simp add: in_use_def)
qed

lemma log_all_idle:
  "idle s \<Longrightarrow> list_all (\<lambda>p. int (length p) < BUFSIZE) ps \<Longrightarrow>
    \<exists>s'. log_all ps s = Inr s' \<and> idle s' \<and> disk s' @ in_use s' = disk s @ in_use s @ concat ps"
proof (induction ps arbitrary: s)
  case Nil
  then show ?case by simp
next
  case (Cons p ps)
  obtain s1 where s1: "log_after p s = Inr s1" "idle s1" "disk s1 = disk s @ in_use s" "in_use s1 = p"
    using log_after_idle [OF Cons.prems(1)] Cons.prems(2) by fastforce
  obtain s' where "log_all ps s1 = Inr s'" "idle s'" "disk s' @ in_use s' = disk s1 @ in_use s1 @ concat ps"
    using Cons.IH [OF s1(2)] Cons.prems(2) by auto
  with s1 show ?case by simp
qed

lemma finish_all_idle: "idle s \<Longrightarrow> disk (finish_all s) = disk s @ in_use s"
  by (simp add: idle_def finish_all_def finish_def in_use_def)

lemma log_during_idle:
  assumes "idle s" "m_dpos (fp s) + int (length p) < BUFSIZE"
  shows "\<exists>s'. log_during p s = Inr s' \<and> log_inv s' \<and> disk s' = disk s
    \<and> m_dpos (fp s') = m_dpos (fp s) + int (length p) \<and> aio_nbytes (fp s') = aio_nbytes (fp s)
    \<and> take (nat (m_dpos (fp s))) (m_data (fp s')) = in_use s"
proof -
  have b: "0 \<le> m_dpos (fp s)" "m_dpos (fp s) < BUFSIZE" "int (length (m_data (fp s))) = BUFSIZE"
    and i: "log_inv s" "req s = InFlight"
    using assms(1) by (auto simp: idle_def log_inv_def)
  have pl: "length p < 2 ^ 62" using assms(2) b by (simp add: BUFSIZE_def)
  have a: "answers_ok (req s) busy_answers" by (simp add: i(2) busy_answers_def)
  define r where "r = ((0 :: int, str ''OK''), False, (fp s)\<lparr>m_data := overlay (m_data (fp s)) (nat (m_dpos (fp s))) p,
    m_dpos := m_dpos (fp s) + int (length p)\<rparr>)"
  have ll: "llog busy_answers 0 p (fp s) = Inr r"
    using room_iff [OF b(1,2) pl] assms(2) b
    by (simp add: llog_def busy_answers_def EINPROGRESS_def Let_def put_data_in cast_pos r_def)
  have "log_inv (log_call r s)" by (rule llog_inv (2) [OF i(1) a pl ll])
  moreover have "take (nat (m_dpos (fp s))) (overlay (m_data (fp s)) (nat (m_dpos (fp s))) p) = in_use s"
    using b by (simp add: overlay_def in_use_def)
  ultimately show ?thesis
    using ll by (simp add: log_during_def log_call_def r_def)
qed

section \<open>Properties\<close>

text \<open>
  C12: the buffer of a log. In every state a log can reach, whatever the kernel does, the bytes
  handed to the kernel are bytes in use and those are within the buffer; and the only call that
  has no defined behaviour is the one that finds more unwritten bytes than written ones and then
  copies between overlapping regions.
\<close>

theorem log_buffer_bounds:
  assumes "log_reach s" "answers_ok (req s) a" "length p < 2 ^ 62"
  shows "0 \<le> aio_nbytes (fp s) \<and> aio_nbytes (fp s) \<le> m_dpos (fp s) \<and> m_dpos (fp s) < BUFSIZE
    \<and> int (length (m_data (fp s))) = BUFSIZE
    \<and> (llog a lv p (fp s) = Inl e \<longleftrightarrow> e = Overlap \<and> (\<exists>n. req s = Done n \<and> 2 * int n < m_dpos (fp s)))"
  using llog_inv (1) [OF log_reach_inv [OF assms(1)] assms(2,3)] log_reach_inv [OF assms(1)]
  by (simp add: log_inv_def overlapping_def)

text \<open>A log just opened.\<close>

definition fresh :: log_sys where
  "fresh = \<lparr>fp = (snd (snd (snd (lopen (\<lambda>n m. 3) [] 0 (replicate 16384 1) 0 (str ''f'') 0 0 0 1)))),
    disk = [], req = InFlight\<rparr>"

lemma fresh_reach: "log_reach fresh"
  unfolding fresh_def
  by (rule log_reach.start [of "\<lambda>n m. 3" "[]" 0 "replicate 16384 1" 0 "str ''f''" 0 0 0 1])
    (simp_all add: lopen_def fdate_open_def fdate_new_def Let_def BUFSIZE_def)

lemma fresh_idle: "idle fresh" "in_use fresh = []" "disk fresh = []" "m_dpos (fp fresh) = 0"
  using log_reach_inv [OF fresh_reach]
  by (simp_all add: idle_def in_use_def fresh_def lopen_def fdate_open_def fdate_new_def Let_def)

theorem log_buffer_bounds_witness:
  "0 \<le> aio_nbytes (fp fresh) \<and> aio_nbytes (fp fresh) \<le> m_dpos (fp fresh) \<and> m_dpos (fp fresh) < BUFSIZE
    \<and> int (length (m_data (fp fresh))) = BUFSIZE
    \<and> (llog busy_answers 0 (str ''x'') (fp fresh) = Inl WriteOOB \<longleftrightarrow>
        WriteOOB = Overlap \<and> (\<exists>n. req fresh = Done n \<and> 2 * int n < m_dpos (fp fresh)))"
  by (rule log_buffer_bounds [OF fresh_reach])
    (simp_all add: busy_answers_def str_def idle_def fresh_def)

text \<open>
  Messages one at a time. When every write is complete before the next message is logged,
  no call faults and the file holds the messages one after the other, each exactly once.
\<close>

theorem log_sequential:
  assumes "idle s" "in_use s = []" "list_all (\<lambda>p. int (length p) < BUFSIZE) ps"
  shows "\<exists>s'. log_all ps s = Inr s' \<and> disk (finish_all s') = disk s @ concat ps"
proof -
  obtain s' where "log_all ps s = Inr s'" "idle s'" "disk s' @ in_use s' = disk s @ in_use s @ concat ps"
    using log_all_idle [OF assms(1,3)] by blast
  with finish_all_idle [of s'] assms(2) show ?thesis by simp
qed

theorem log_sequential_witness:
  "\<exists>s'. log_all [str ''one'', str ''two''] fresh = Inr s' \<and> disk (finish_all s') = disk fresh @ concat [str ''one'', str ''two'']"
  by (rule log_sequential) (simp_all add: fresh_idle str_def BUFSIZE_def)

text \<open>
  C13: the message logged during a write is replaced. A message \<open>b\<close> that arrives while the text
  \<open>t\<close> is being written is kept in the buffer behind it; when the write is complete, the next call
  moves in the wrong direction: the file then continues with the first bytes of \<open>t\<close> again in the
  place of \<open>b\<close>.
\<close>

theorem message_during_write_lost:
  assumes "idle s" "in_use s = t" "length b \<le> length t"
    "int (length t) + int (length b) + int (length c) < BUFSIZE"
  shows "\<exists>s1 s2. log_during b s = Inr s1 \<and> log_after c s1 = Inr s2
    \<and> disk (finish_all s2) = disk s @ t @ take (length b) t @ c"
proof -
  have m: "0 \<le> m_dpos (fp s)" "m_dpos (fp s) = int (length t)" "aio_nbytes (fp s) = m_dpos (fp s)"
    using assms(1,2) by (auto simp: idle_def log_inv_def in_use_def)
  obtain s1 where s1: "log_during b s = Inr s1" "log_inv s1" "disk s1 = disk s"
    "m_dpos (fp s1) = int (length t) + int (length b)" "aio_nbytes (fp s1) = int (length t)"
    "take (length t) (m_data (fp s1)) = t"
    using log_during_idle [OF assms(1), of b] assms(2,4) m by auto
  have "take (length b) (m_data (fp s1)) = take (length b) t"
    using s1(6) assms(3) by (metis min.absorb1 take_take)
  then obtain s2 where "log_after c s1 = Inr s2" "idle s2" "disk s2 = disk s @ t" "in_use s2 = take (length b) t @ c"
    using log_after_eq [OF s1(2), of c] s1 assms(3,4) by auto
  with s1(1) finish_all_idle [of s2] show ?thesis by auto
qed

theorem message_during_write_lost_witness:
  "\<exists>s. log_after (str ''first'') fresh = Inr s \<and>
    (\<exists>s1 s2. log_during (str ''lost'') s = Inr s1 \<and> log_after (str ''last'') s1 = Inr s2
      \<and> disk (finish_all s2) = disk s @ str ''first'' @ take (length (str ''lost'')) (str ''first'') @ str ''last'')"
proof -
  obtain s where "log_after (str ''first'') fresh = Inr s" "idle s" "in_use s = str ''first''"
    using log_after_idle [OF fresh_idle(1), of "str ''first''"] by (auto simp: str_def BUFSIZE_def)
  with message_during_write_lost [of s "str ''first''" "str ''lost''" "str ''last''"] show ?thesis
    by (auto simp: str_def BUFSIZE_def)
qed

end
