(* ===== verification/Des.thy ===== *)
theory Des
  imports Prelude
begin

text \<open>
  The triple DES helpers of \<open>src/src/tools/test/3des.c\<close>: the password masking, the text form of
  a key and its parser, and the encryption of a buffer block by block. DES itself is OpenSSL's:
  the parameter \<open>des\<close>. The return codes come from a header that is not part of the repository:
  the parameter \<open>codes\<close>. The code compiled is that without \<open>NEW_SSL_VERSION\<close>.
\<close>

record 'sched des =
  string_to_key :: "bytes \<Rightarrow> bytes"
  set_key_checked :: "bytes \<Rightarrow> int \<times> 'sched"
  ecb3_encrypt :: "bytes \<Rightarrow> 'sched \<Rightarrow> 'sched \<Rightarrow> 'sched \<Rightarrow> int \<Rightarrow> bytes"

record codes =
  PAYPORTAL_OK :: int
  ENCRYPE_ERR_OUTPUT_NOT_ENOUGH :: int
  ENCRYPE_ERR_BAD_PARITY :: int
  ENCRYPE_ERR_WEAK_KEY :: int

section \<open>Masking\<close>

definition pPwd :: bytes where "pPwd = str ''dj@#kl$15*''"

text \<open>The index is \<open>j>=iLenPwd?j=0:j++\<close>: at the end it wraps to 0 and stays there once more.\<close>

function XorEncrypt_loop :: "bytes \<Rightarrow> int \<Rightarrow> int \<Rightarrow> nat \<Rightarrow> bytes cres" where
  "XorEncrypt_loop pInput iLen iPos j =
    (if iPos < iLen then
       sbind (rd pInput (nat iPos)) (\<lambda>c.
       sbind (cget pPwd (if j \<ge> length pPwd then 0 else j)) (\<lambda>k.
       sbind (wr pInput (nat iPos) (c XOR k)) (\<lambda>b.
       XorEncrypt_loop b iLen (iPos + 1) (if j \<ge> length pPwd then 0 else j + 1))))
     else Inr pInput)"
  by pat_completeness auto
termination
  by (relation "measure (\<lambda>(_, n, i, _). nat (n - i))") auto

declare XorEncrypt_loop.simps [simp del]

definition XorEncrypt :: "bytes \<Rightarrow> int \<Rightarrow> bytes cres" where
  "XorEncrypt pInput iLen = XorEncrypt_loop pInput iLen 0 0"

section \<open>Keys as text\<close>

text \<open>\<open>atoi\<close> of digits that a NUL ends.\<close>

fun atoi_from :: "nat \<Rightarrow> bytes \<Rightarrow> nat" where
  "atoi_from v [] = v"
| "atoi_from v (c # cs) = (if isdigit c then atoi_from (v * 10 + unat (c - 48)) cs else v)"

definition atoi :: "bytes \<Rightarrow> nat" where
  "atoi s = atoi_from 0 s"

type_synonym keys = "bytes \<times> bytes \<times> bytes"

fun put_key :: "int \<Rightarrow> byte \<Rightarrow> keys \<Rightarrow> keys" where
  "put_key iDone v (key1, key2, key3) =
    (let i = nat (iDone mod 8) in
     if iDone div 8 = 0 then (key1[i := v], key2, key3)
     else if iDone div 8 = 1 then (key1, key2[i := v], key3)
     else if iDone div 8 = 2 then (key1, key2, key3[i := v])
     else (key1, key2, key3))"

definition zeros :: "nat \<Rightarrow> bytes" where "zeros n = replicate n 0"

text \<open>\<open>p\<close> is the position of the pointer into \<open>szNumeric\<close>. The result holds the return value.\<close>

fun StringKey_loop :: "codes \<Rightarrow> bytes \<Rightarrow> bytes \<Rightarrow> nat \<Rightarrow> int \<Rightarrow> int \<Rightarrow> keys \<Rightarrow> (int \<times> keys) cres" where
  "StringKey_loop cs [] szNumeric p iNumCount iDone ks =
    (if iDone = 22
     then Inr (PAYPORTAL_OK cs, put_key 23 (word_of_nat (atoi szNumeric)) ks)
     else Inr (PAYPORTAL_OK cs, ks))"
| "StringKey_loop cs (c # pKey) szNumeric p iNumCount iDone ks =
    (if isdigit c then
       (if iNumCount + 1 > 3 then Inr (- 1, ks)
        else sbind (wr szNumeric p c) (\<lambda>b. StringKey_loop cs pKey b (p + 1) (iNumCount + 1) iDone ks))
     else if c = 44 then
       StringKey_loop cs pKey (zeros 4) 0 0 (iDone + 1)
         (put_key (iDone + 1) (word_of_nat (atoi szNumeric)) ks)
     else StringKey_loop cs pKey szNumeric p iNumCount iDone ks)"

definition StringKeyToDesKey :: "codes \<Rightarrow> bytes \<Rightarrow> (int \<times> keys) cres" where
  "StringKeyToDesKey cs pKey = StringKey_loop cs pKey (zeros 4) 0 0 (- 1) (zeros 8, zeros 8, zeros 8)"

text \<open>The check of one key: the error it stands for, or the schedule.\<close>

definition check_key :: "'s des \<Rightarrow> codes \<Rightarrow> bytes \<Rightarrow> int + 's" where
  "check_key d cs key =
    (let (r, sched) = set_key_checked d key in
     if r = - 1 then Inl (ENCRYPE_ERR_BAD_PARITY cs)
     else if r = - 2 then Inl (ENCRYPE_ERR_WEAK_KEY cs)
     else Inr sched)"

fun join_dec :: "bytes \<Rightarrow> bytes" where
  "join_dec [] = []"
| "join_dec [b] = dec (uint b)"
| "join_dec (b # bs) = dec (uint b) @ 44 # join_dec bs"

text \<open>
  \<open>Create3DesKey\<close>: the return value and the text written. The three parts of the password
  start at its bytes 0, 8 and 16.
\<close>

definition Create3DesKey :: "'s des \<Rightarrow> codes \<Rightarrow> bytes \<Rightarrow> int \<Rightarrow> (int \<times> bytes option) cres" where
  "Create3DesKey d cs pKey iLen =
    (if length pKey < 16 then Inl ReadOOB
     else
       (let key1 = string_to_key d pKey;
            key2 = string_to_key d (drop 8 pKey);
            key3 = string_to_key d (drop 16 pKey)
        in case sbind (check_key d cs key1) (\<lambda>_. sbind (check_key d cs key2) (\<lambda>_. check_key d cs key3)) of
          Inl e \<Rightarrow> Inr (e, None)
        | Inr _ \<Rightarrow> Inr (PAYPORTAL_OK cs, Some (take (nat iLen - 1) (join_dec (key1 @ key2 @ key3))))))"

section \<open>Encryption\<close>

text \<open>Eight bytes at a position, as \<open>memcpy\<close> reads them.\<close>

definition rd8 :: "bytes \<Rightarrow> nat \<Rightarrow> bytes cres" where
  "rd8 b i = (if i + 8 \<le> length b then Inr (take 8 (drop i b)) else Inl ReadOOB)"

fun des_loop :: "(bytes \<Rightarrow> bytes) \<Rightarrow> nat \<Rightarrow> bytes \<Rightarrow> nat \<Rightarrow> bytes \<Rightarrow> nat \<Rightarrow> bytes cres" where
  "des_loop crypt 0 inp ip outp op = Inr outp"
| "des_loop crypt (Suc iBlockCount) inp ip outp op =
    sbind (rd8 inp ip) (\<lambda>blockInput.
    sbind (wrs outp op (crypt blockInput)) (\<lambda>o'.
    des_loop crypt iBlockCount inp (ip + 8) o' (op + 8)))"

text \<open>The lengths are \<open>int\<close>; divided by a \<open>sizeof\<close> they are \<open>size_t\<close>.\<close>

definition size_t :: "int \<Rightarrow> int" where "size_t i = i mod 2 ^ 64"

definition block_count :: "int \<Rightarrow> int" where
  "block_count iInputLen =
    (let n = cast_int (size_t iInputLen div 8)
     in if size_t iInputLen mod 8 > 0 then n + 1 else n)"

text \<open>The return value, \<open>*iLenAfterEncrypt\<close> (when set) and the output buffer.\<close>

definition Portal_des_encrypt :: "'s des \<Rightarrow> codes \<Rightarrow> bytes \<Rightarrow> bytes \<Rightarrow> bytes \<Rightarrow> int \<Rightarrow> int \<Rightarrow> int
    \<Rightarrow> (int \<times> int option \<times> bytes) cres" where
  "Portal_des_encrypt d cs pKey pInput pOutput iInputLen iOutputLen enc =
    (let iBlockCount = block_count iInputLen in
     if size_t iBlockCount > size_t iOutputLen div 8
     then Inr (ENCRYPE_ERR_OUTPUT_NOT_ENOUGH cs, None, pOutput)
     else
       (let len = cast_int (size_t iBlockCount * 8) in
        if int (length pOutput) < size_t iOutputLen then Inl WriteOOB
        else
          (let o1 = overlay pOutput 0 (replicate (nat (size_t iOutputLen)) 0) in
           sbind (StringKeyToDesKey cs pKey) (\<lambda>(r, key1, key2, key3).
           if r \<noteq> PAYPORTAL_OK cs then Inr (ENCRYPE_ERR_BAD_PARITY cs, Some len, o1)
           else
             (case sbind (check_key d cs key1) (\<lambda>s1. sbind (check_key d cs key2) (\<lambda>s2.
                     sbind (check_key d cs key3) (\<lambda>s3. Inr (s1, s2, s3)))) of
                Inl e \<Rightarrow> Inr (e, Some len, o1)
              | Inr (s1, s2, s3) \<Rightarrow>
                  sbind (des_loop (\<lambda>b. ecb3_encrypt d b s1 s2 s3 enc) (nat iBlockCount) pInput 0 o1 0)
                    (\<lambda>o2. Inr (PAYPORTAL_OK cs, Some len, o2)))))))"

section \<open>Masking is its own inverse\<close>

text \<open>The mask has period 11, its first byte twice in a row.\<close>

definition mask_at :: "nat \<Rightarrow> byte" where
  "mask_at i = pPwd ! (if i mod 11 = 10 then 0 else i mod 11)"

lemma length_pPwd [simp]: "length pPwd = 10"
  by (simp add: pPwd_def str_def)

lemma mod11_Suc: "Suc i mod 11 = (if i mod 11 = 10 then 0 else Suc (i mod 11))"
  by (simp add: mod_Suc)

lemma XorEncrypt_loop_eq:
  "nat n \<le> length b \<Longrightarrow> j = i mod 11 \<Longrightarrow> int i \<le> n \<Longrightarrow>
    XorEncrypt_loop b n (int i) j =
      Inr (map (\<lambda>k. if i \<le> k \<and> int k < n then b ! k XOR mask_at k else b ! k) [0..<length b])"
proof (induction "nat n - i" arbitrary: b i j)
  case 0
  then have "map (\<lambda>k. if i \<le> k \<and> int k < n then b ! k XOR mask_at k else b ! k) [0..<length b] = b"
    by (intro nth_equalityI) auto
  moreover have "\<not> int i < n" using 0 by linarith
  ultimately show ?case by (subst XorEncrypt_loop.simps) simp
next
  case (Suc m)
  have i: "int i < n" "i < length b" using Suc.hyps(2) Suc.prems by linarith+
  have j: "j \<le> 10" using Suc.prems(2) mod_less_divisor [of 11 i] by linarith
  have jk: "cget pPwd (if length pPwd \<le> j then 0 else j) = Inr (mask_at i)"
    using j Suc.prems(2) by (auto simp: mask_at_def)
  define b' where "b' = b[i := b ! i XOR mask_at i]"
  have step: "XorEncrypt_loop b n (int i) j = XorEncrypt_loop b' n (int (Suc i)) (if length pPwd \<le> j then 0 else j + 1)"
    using i jk by (subst XorEncrypt_loop.simps) (simp add: b'_def add.commute)
  have "XorEncrypt_loop b' n (int (Suc i)) (if length pPwd \<le> j then 0 else j + 1) =
      Inr (map (\<lambda>k. if Suc i \<le> k \<and> int k < n then b' ! k XOR mask_at k else b' ! k) [0..<length b'])"
  proof (rule Suc.hyps(1))
    show "m = nat n - Suc i" using Suc.hyps(2) by simp
    show "(if length pPwd \<le> j then 0 else j + 1) = Suc i mod 11" using j Suc.prems(2) by (auto simp: mod11_Suc)
  qed (use i Suc.prems(1) in \<open>auto simp: b'_def\<close>)
  also have "\<dots> = Inr (map (\<lambda>k. if i \<le> k \<and> int k < n then b ! k XOR mask_at k else b ! k) [0..<length b])"
    using i by (auto simp: b'_def nth_list_update)
  finally show ?case using step by simp
qed

lemma XorEncrypt_eq:
  assumes "0 \<le> n" "n \<le> int (length b)"
  shows "XorEncrypt b n = Inr (map (\<lambda>k. if int k < n then b ! k XOR mask_at k else b ! k) [0..<length b])"
  using XorEncrypt_loop_eq [of n b 0 0] assms by (simp add: XorEncrypt_def)

section \<open>The parser reads the text\<close>

lemma length_zeros [simp]: "length (zeros n) = n"
  by (simp add: zeros_def)

lemma drop_zeros [simp]: "drop k (zeros n) = zeros (n - k)"
  by (simp add: zeros_def)

lemma dec_digit: "n < 10 \<Longrightarrow> isdigit (48 + word_of_nat n) \<and> unat (48 + word_of_nat n - 48 :: byte) = n"
proof -
  assume n: "n < 10"
  then have u: "unat (word_of_nat n :: byte) = n" by (subst unat_word_of_nat_byte) simp
  have "unat (48 + word_of_nat n :: byte) = 48 + n"
    using n u by (subst unat_word_ariths(1)) simp
  then show ?thesis using n u by (simp add: isdigit_def word_le_nat_alt)
qed

lemma dec_nat_digits: "list_all isdigit (dec_nat n)"
proof (induction n rule: dec_nat.induct)
  case (1 n)
  then show ?case by (subst dec_nat.simps) (auto simp: dec_digit)
qed

lemma atoi_from_app: "list_all isdigit ds \<Longrightarrow> atoi_from v (ds @ cs) = atoi_from (atoi_from v ds) cs"
  by (induction ds arbitrary: v) auto

lemma atoi_dec: "atoi_from 0 (dec_nat n) = n"
proof (induction n rule: dec_nat.induct)
  case (1 n)
  show ?case
  proof (cases "n < 10")
    case True
    then show ?thesis by (subst dec_nat.simps) (simp add: dec_digit unat_word_of_nat_byte)
  next
    case False
    then show ?thesis
      using 1 dec_nat_digits [of "n div 10"]
      by (subst dec_nat.simps) (simp add: atoi_from_app dec_digit unat_word_of_nat_byte)
  qed
qed

lemma length_dec_nat: "n < 256 \<Longrightarrow> length (dec_nat n) \<le> 3"
proof -
  assume "n < 256"
  then have "n div 10 < 26" "n div 10 div 10 < 10" by (simp_all add: less_mult_imp_div_less)
  then have "length (dec_nat (n div 10 div 10)) = 1" by (subst dec_nat.simps) simp
  then have "length (dec_nat (n div 10)) \<le> 2" by (subst dec_nat.simps) simp
  then show ?thesis by (subst dec_nat.simps) simp
qed

lemma isdigit_0: "\<not> isdigit 0"
  by (simp add: isdigit_def)

lemma atoi_padded: "atoi (dec_nat n @ zeros (Suc k)) = n"
  by (simp add: atoi_def atoi_from_app dec_nat_digits atoi_dec zeros_def isdigit_0)

lemma StringKey_digits:
  "list_all isdigit ds \<Longrightarrow> p + length ds \<le> 3 \<Longrightarrow> length b = 4 \<Longrightarrow>
    StringKey_loop cs (ds @ rest) b p (int p) iDone ks =
      StringKey_loop cs rest (overlay b p ds) (p + length ds) (int (p + length ds)) iDone ks"
proof (induction ds arbitrary: b p)
  case Nil
  then show ?case by simp
next
  case (Cons d ds)
  then show ?case
    using Cons.IH [of "Suc p" "b[p := d]"] overlay_Cons [of p ds b d]
    by (simp add: add.commute)
qed

lemma StringKey_number:
  fixes v :: byte
  shows "StringKey_loop cs (dec (uint v) @ rest) (zeros 4) 0 0 iDone ks =
    StringKey_loop cs rest (dec_nat (unat v) @ zeros (4 - length (dec_nat (unat v))))
      (length (dec_nat (unat v))) (int (length (dec_nat (unat v)))) iDone ks"
proof -
  have "unat v < 256" using unsigned_less [of v] by simp
  then have l: "length (dec_nat (unat v)) \<le> 3" by (rule length_dec_nat)
  have d: "dec (uint v) = dec_nat (unat v)" by (simp add: dec_def)
  show ?thesis
    using StringKey_digits [OF dec_nat_digits, of 0 "unat v" "zeros 4" cs rest iDone ks] l
    by (simp add: d overlay_0)
qed

lemma atoi_byte: "word_of_nat (atoi (dec_nat (unat (v::byte)) @ zeros (4 - length (dec_nat (unat v))))) = v"
proof -
  have "unat v < 256" using unsigned_less [of v] by simp
  then have "\<exists>k. 4 - length (dec_nat (unat v)) = Suc k"
    using length_dec_nat [of "unat v"] by (intro exI [of _ "3 - length (dec_nat (unat v))"]) simp
  then show ?thesis by (auto simp: atoi_padded)
qed

fun flat :: "keys \<Rightarrow> bytes" where
  "flat (key1, key2, key3) = key1 @ key2 @ key3"

fun full :: "keys \<Rightarrow> bool" where
  "full (key1, key2, key3) = (length key1 = 8 \<and> length key2 = 8 \<and> length key3 = 8)"

lemma full_put_key: "full ks \<Longrightarrow> full (put_key d v ks)"
  by (cases ks) (simp add: Let_def)

lemma flat_put_key:
  assumes "full ks" "0 \<le> d" "d < 24"
  shows "flat (put_key d v ks) = (flat ks)[nat d := v]"
proof -
  obtain k1 k2 k3 where ks: "ks = (k1, k2, k3)" by (cases ks)
  consider "d < 8" | "8 \<le> d" "d < 16" | "16 \<le> d" by linarith
  then show ?thesis
  proof cases
    case 1
    then have "d div 8 = 0" "d mod 8 = d" "nat d < 8" using assms(2) by simp_all
    then show ?thesis using assms ks by (simp add: list_update_append)
  next
    case 2
    have "d div 8 = 1" "d mod 8 = d - 8" using 2 by (simp_all add: int_div_pos_eq [of d 8 1 "d - 8"] int_mod_pos_eq [of d 8 1 "d - 8"])
    moreover have "nat (d - 8) = nat d - 8" "\<not> nat d < 8" "nat d < 16" "nat d - 8 < 8" using 2 by linarith+
    ultimately show ?thesis using assms ks by (simp add: list_update_append)
  next
    case 3
    have "d div 8 = 2" "d mod 8 = d - 16" using 3 assms by (simp_all add: int_div_pos_eq [of d 8 2 "d - 16"] int_mod_pos_eq [of d 8 2 "d - 16"])
    moreover have "nat (d - 16) = nat d - 16" "\<not> nat d < 8" "\<not> nat d < 16" "\<not> nat d - 8 < 8" "nat d - 8 - 8 = nat d - 16" using 3 by linarith+
    ultimately show ?thesis using assms ks by (simp add: list_update_append)
  qed
qed

lemma flat_inject: "full ks \<Longrightarrow> full ks' \<Longrightarrow> flat ks = flat ks' \<Longrightarrow> ks = ks'"
  by (cases ks, cases ks') simp

lemma StringKey_join:
  "full ks \<Longrightarrow> int (length vs) = 23 - iDone \<Longrightarrow> - 1 \<le> iDone \<Longrightarrow> vs \<noteq> [] \<Longrightarrow>
    \<exists>ks'. StringKey_loop cs (join_dec vs) (zeros 4) 0 0 iDone ks = Inr (PAYPORTAL_OK cs, ks')
      \<and> full ks' \<and> flat ks' = overlay (flat ks) (nat (iDone + 1)) vs"
proof (induction vs arbitrary: iDone ks rule: join_dec.induct)
  case 1
  then show ?case by simp
next
  case (2 v)
  have d: "iDone = 22" using 2 by simp
  have "length (flat ks) = 24" using 2(1) by (cases ks) simp
  then have "overlay (flat ks) 23 [v] = (flat ks)[23 := v]" by (simp add: overlay_single)
  then show ?case
    using StringKey_number [of cs v "[]" 22 ks] d 2(1) full_put_key flat_put_key [of ks 23 v]
    by (simp add: atoi_byte)
next
  case (3 v w vs)
  define ks1 where "ks1 = put_key (iDone + 1) v ks"
  have f: "full ks1" using 3(2) by (simp add: ks1_def full_put_key)
  have r: "0 \<le> iDone + 1" "iDone + 1 < 24" using 3(3,4) by simp_all
  have fl: "flat ks1 = (flat ks)[nat (iDone + 1) := v]"
    unfolding ks1_def by (rule flat_put_key [OF 3(2) r])
  have l24: "length (flat ks) = 24" using 3(2) by (cases ks) simp
  have step: "StringKey_loop cs (join_dec (v # w # vs)) (zeros 4) 0 0 iDone ks =
      StringKey_loop cs (join_dec (w # vs)) (zeros 4) 0 0 (iDone + 1) ks1"
    by (simp add: StringKey_number atoi_byte isdigit_def ks1_def)
  obtain ks' where ks': "StringKey_loop cs (join_dec (w # vs)) (zeros 4) 0 0 (iDone + 1) ks1 = Inr (PAYPORTAL_OK cs, ks')"
    "full ks'" "flat ks' = overlay (flat ks1) (nat (iDone + 1 + 1)) (w # vs)"
    using 3(1) [OF f, of "iDone + 1"] 3(3) r by auto
  have "nat (iDone + 1 + 1) = Suc (nat (iDone + 1))" using r by simp
  moreover have "nat (iDone + 1) + length (w # vs) < 24" using 3(3) r by simp
  ultimately have "flat ks' = overlay (flat ks) (nat (iDone + 1)) (v # w # vs)"
    using overlay_Cons [of "nat (iDone + 1)" "w # vs" "flat ks" v] l24 by (simp only: ks'(3) fl)
  with step ks'(1,2) show ?case by auto
qed

lemma StringKey_text:
  assumes "length k1 = 8" "length k2 = 8" "length k3 = 8"
  shows "StringKeyToDesKey cs (join_dec (k1 @ k2 @ k3)) = Inr (PAYPORTAL_OK cs, k1, k2, k3)"
proof -
  have z: "full (zeros 8, zeros 8, zeros 8)" by (simp add: zeros_def)
  have ne: "k1 @ k2 @ k3 \<noteq> []" using assms by auto
  obtain ks' where ks': "StringKeyToDesKey cs (join_dec (k1 @ k2 @ k3)) = Inr (PAYPORTAL_OK cs, ks')" "full ks'"
    "flat ks' = overlay (flat (zeros 8, zeros 8, zeros 8)) 0 (k1 @ k2 @ k3)"
    using StringKey_join [OF z, of "k1 @ k2 @ k3" "- 1" cs] ne assms by (auto simp: StringKeyToDesKey_def)
  then have "flat ks' = flat (k1, k2, k3)" using assms by (simp add: overlay_0 zeros_def)
  with flat_inject [OF ks'(2), of "(k1, k2, k3)"] ks'(1) assms show ?thesis by simp
qed

section \<open>Block by block\<close>

definition blocks :: "(bytes \<Rightarrow> bytes) \<Rightarrow> nat \<Rightarrow> bytes \<Rightarrow> bytes" where
  "blocks crypt n b = concat (map (\<lambda>k. crypt (take 8 (drop (8 * k) b))) [0..<n])"

lemma blocks_Suc: "blocks crypt (Suc n) b = crypt (take 8 b) @ blocks crypt n (drop 8 b)"
  by (simp add: blocks_def upt_rec [of 0] map_Suc_upt [symmetric] comp_def add.commute del: upt_Suc map_Suc_upt)

lemma length_blocks: "(\<And>b. length b = 8 \<Longrightarrow> length (crypt b) = 8) \<Longrightarrow> 8 * n \<le> length b \<Longrightarrow> length (blocks crypt n b) = 8 * n"
proof (induction n arbitrary: b)
  case 0
  then show ?case by (simp add: blocks_def)
next
  case (Suc n)
  then show ?case by (simp add: blocks_Suc)
qed

lemma des_loop_blocks:
  assumes c: "\<And>b. length b = 8 \<Longrightarrow> length (crypt b) = 8"
  shows "ip + 8 * n \<le> length inp \<Longrightarrow> op + 8 * n \<le> length outp \<Longrightarrow>
    des_loop crypt n inp ip outp op = Inr (overlay outp op (blocks crypt n (drop ip inp)))"
proof (induction n arbitrary: ip op outp)
  case 0
  then show ?case by (simp add: blocks_def)
next
  case (Suc n)
  define x where "x = crypt (take 8 (drop ip inp))"
  have lx: "length x = 8" using Suc.prems by (simp add: x_def c)
  have lb: "length (blocks crypt n (drop (ip + 8) inp)) = 8 * n"
    using Suc.prems by (intro length_blocks [OF c]) auto
  have "des_loop crypt (Suc n) inp ip outp op = des_loop crypt n inp (ip + 8) (overlay outp op x) (op + 8)"
    using Suc.prems lx by (simp add: rd8_def wrs_in x_def)
  also have "\<dots> = Inr (overlay (overlay outp op x) (op + 8) (blocks crypt n (drop (ip + 8) inp)))"
    using Suc.IH [of "ip + 8" "op + 8" "overlay outp op x"] Suc.prems lx by simp
  also have "\<dots> = Inr (overlay outp op (x @ blocks crypt n (drop (ip + 8) inp)))"
    using overlay_overlay [of "op + 8" op x "blocks crypt n (drop (ip + 8) inp)" outp] lx lb Suc.prems by simp
  finally show ?case by (simp add: blocks_Suc x_def add.commute)
qed

lemma blocks_inverse:
  assumes c: "\<And>b. length b = 8 \<Longrightarrow> length (crypt b) = 8" and inv: "\<And>b. length b = 8 \<Longrightarrow> decrypt (crypt b) = b"
  shows "8 * n \<le> length b \<Longrightarrow> blocks decrypt n (blocks crypt n b @ r) = take (8 * n) b"
proof (induction n arbitrary: b)
  case 0
  then show ?case by (simp add: blocks_def)
next
  case (Suc n)
  have l: "length (crypt (take 8 b)) = 8" using Suc.prems by (simp add: c)
  have "blocks decrypt (Suc n) (blocks crypt (Suc n) b @ r) = take 8 b @ take (8 * n) (drop 8 b)"
    using Suc l by (simp add: blocks_Suc inv)
  then show ?case by (simp add: take_add [symmetric])
qed

lemma block_count_range:
  assumes "0 \<le> n" "n \<le> int_max"
  shows "0 \<le> block_count n" "n \<le> 8 * block_count n"
    "8 * block_count n \<le> n + 7" "size_t n = n"
proof -
  have s: "size_t n = n" using assms by (simp add: size_t_def int_max_def)
  have d: "n = 8 * (n div 8) + n mod 8" "0 \<le> n mod 8" "n mod 8 < 8" "0 \<le> n div 8" using assms by simp_all
  then have c: "cast_int (n div 8) = n div 8"
    using zdiv_mono2 [of n 1 8] assms by (intro cast_int_id) (simp_all add: int_min_def)
  have q: "block_count n = (if n mod 8 > 0 then n div 8 + 1 else n div 8)"
    by (simp add: block_count_def s c Let_def)
  show "0 \<le> block_count n" "n \<le> 8 * block_count n" "8 * block_count n \<le> n + 7" "size_t n = n"
    using q d s by (simp_all split: if_splits; linarith)+
qed

section \<open>Properties\<close>

text \<open>
  Masking. \<open>XorEncrypt\<close> of a length within the buffer changes exactly the bytes before it,
  and applied twice it gives the buffer back.
\<close>

theorem XorEncrypt_involution:
  assumes "0 \<le> n" "n \<le> int (length b)"
  shows "\<exists>c. XorEncrypt b n = Inr c \<and> drop (nat n) c = drop (nat n) b \<and> XorEncrypt c n = Inr b"
proof -
  define c where "c = map (\<lambda>k. if int k < n then b ! k XOR mask_at k else b ! k) [0..<length b]"
  have "drop (nat n) c = drop (nat n) b"
    using assms by (intro nth_equalityI) (auto simp: c_def)
  moreover have "map (\<lambda>k. if int k < n then c ! k XOR mask_at k else c ! k) [0..<length c] = b"
    by (intro nth_equalityI) (auto simp: c_def xor.assoc)
  ultimately show ?thesis
    using XorEncrypt_eq [OF assms] XorEncrypt_eq [of n c] assms by (auto simp: c_def)
qed

theorem XorEncrypt_involution_witness:
  "\<exists>c. XorEncrypt (str ''hello, world'') 12 = Inr c \<and> drop (nat 12) c = drop (nat 12) (str ''hello, world'')
    \<and> XorEncrypt c 12 = Inr (str ''hello, world'')"
  by (rule XorEncrypt_involution) (simp_all add: str_def)

text \<open>
  The text of a key. Whenever \<open>Create3DesKey\<close> succeeds with a buffer that holds its whole
  text, the parser reads from that text exactly the three keys DES derived from the password.
\<close>

theorem key_text_roundtrip:
  assumes "\<And>s. length (string_to_key d s) = 8"
    and "Create3DesKey d cs pKey iLen = Inr (PAYPORTAL_OK cs, Some t)"
    and "length (join_dec (string_to_key d pKey @ string_to_key d (drop 8 pKey) @ string_to_key d (drop 16 pKey))) < nat iLen"
  shows "StringKeyToDesKey cs t =
    Inr (PAYPORTAL_OK cs, string_to_key d pKey, string_to_key d (drop 8 pKey), string_to_key d (drop 16 pKey))"
proof -
  have "t = join_dec (string_to_key d pKey @ string_to_key d (drop 8 pKey) @ string_to_key d (drop 16 pKey))"
    using assms(2,3) by (auto simp: Create3DesKey_def Let_def split: if_splits sum.splits)
  with StringKey_text [of "string_to_key d pKey" "string_to_key d (drop 8 pKey)" "string_to_key d (drop 16 pKey)" cs]
  show ?thesis by (simp add: assms(1))
qed

text \<open>A cipher to evaluate the properties on: it adds the key byte by byte.\<close>

definition add_cipher :: "bytes des" where
  "add_cipher = \<lparr>string_to_key = (\<lambda>s. take 8 (s @ replicate 8 7)), set_key_checked = (\<lambda>k. (0, k)),
    ecb3_encrypt = (\<lambda>b s1 s2 s3 enc. map2 (\<lambda>x k. if enc = 1 then x + k else x - k) b s1)\<rparr>"

definition some_codes :: codes where
  "some_codes = \<lparr>PAYPORTAL_OK = 0, ENCRYPE_ERR_OUTPUT_NOT_ENOUGH = 1, ENCRYPE_ERR_BAD_PARITY = 2, ENCRYPE_ERR_WEAK_KEY = 3\<rparr>"

definition some_key :: bytes where
  "some_key = str ''0123456789abcdef01234567''"

definition some_text :: bytes where
  "some_text = str ''48,49,50,51,52,53,54,55,56,57,97,98,99,100,101,102,48,49,50,51,52,53,54,55''"

lemma some_key_text:
  "Create3DesKey add_cipher some_codes some_key 100 = Inr (PAYPORTAL_OK some_codes, Some some_text)"
  "length (join_dec (string_to_key add_cipher some_key @ string_to_key add_cipher (drop 8 some_key)
        @ string_to_key add_cipher (drop 16 some_key))) < nat 100"
  by code_simp+

theorem key_text_roundtrip_witness:
  "StringKeyToDesKey some_codes some_text =
    Inr (PAYPORTAL_OK some_codes, string_to_key add_cipher some_key, string_to_key add_cipher (drop 8 some_key),
      string_to_key add_cipher (drop 16 some_key))"
  by (rule key_text_roundtrip [OF _ some_key_text]) (simp add: add_cipher_def)

text \<open>
  C14: decryption undoes encryption. For a cipher whose two directions are inverse on blocks of
  eight bytes and a key text that yields accepted keys, encrypting a buffer that is padded to whole
  blocks succeeds, reports the padded length, and decrypting that many bytes gives the padded input
  back.
\<close>

theorem des_roundtrip:
  assumes key: "StringKeyToDesKey cs pKey = Inr (PAYPORTAL_OK cs, k1, k2, k3)"
    and chk: "check_key d cs k1 = Inr s1" "check_key d cs k2 = Inr s2" "check_key d cs k3 = Inr s3"
    and len: "\<And>b e. length b = 8 \<Longrightarrow> length (ecb3_encrypt d b s1 s2 s3 e) = 8"
    and inv: "\<And>b. length b = 8 \<Longrightarrow> ecb3_encrypt d (ecb3_encrypt d b s1 s2 s3 1) s1 s2 s3 0 = b"
    and n: "0 \<le> n" "n \<le> int (length inp)" "length inp mod 8 = 0" "int (length inp) \<le> n + 7"
    and out: "length outp = length inp" "length outp' = length inp" "int (length inp) \<le> int_max"
  shows "\<exists>c. Portal_des_encrypt d cs pKey inp outp n (int (length outp)) 1 = Inr (PAYPORTAL_OK cs, Some (int (length inp)), c)
    \<and> Portal_des_encrypt d cs pKey c outp' (int (length inp)) (int (length outp')) 0 = Inr (PAYPORTAL_OK cs, Some (int (length inp)), inp)"
proof -
  have imx: "n \<le> int_max" "0 \<le> int (length inp)" using n out by simp_all
  obtain m where m: "length inp = 8 * m" using n(3) by auto
  have bc: "block_count i = int m" "size_t i = i" if "int (8 * m) - 7 \<le> i" "0 \<le> i" "i \<le> int (8 * m)" for i
    using block_count_range [of i] that out(3) m by simp_all
  have bn: "block_count n = int m" "block_count (int (8 * m)) = int m" "size_t (int (8 * m)) = int (8 * m)"
    using n m bc [of n] bc [of "int (8 * m)"] by simp_all
  have sm: "size_t (int m) = int m" "cast_int (int m * 8) = int (8 * m)"
    using out(3) m by (simp_all add: size_t_def int_max_def int_min_def)
  have le: "int m \<le> int (8 * m) div 8" by simp
  define enc where "enc = (\<lambda>b. ecb3_encrypt d b s1 s2 s3 1)"
  define de where "de = (\<lambda>b. ecb3_encrypt d b s1 s2 s3 0)"
  define c where "c = blocks enc m inp"
  have lc: "length c = 8 * m" unfolding c_def by (rule length_blocks) (simp_all add: enc_def len m)
  have run: "Portal_des_encrypt d cs pKey b o' i (int (8 * m)) e = Inr (PAYPORTAL_OK cs, Some (int (8 * m)), blocks (\<lambda>b. ecb3_encrypt d b s1 s2 s3 e) m b)"
    if "block_count i = int m" "length b = 8 * m" "length o' = 8 * m" for b o' i e
  proof -
    have "des_loop (\<lambda>b. ecb3_encrypt d b s1 s2 s3 e) m b 0 (replicate (8 * m) 0) 0
        = Inr (blocks (\<lambda>b. ecb3_encrypt d b s1 s2 s3 e) m b)"
      using des_loop_blocks [of "\<lambda>b. ecb3_encrypt d b s1 s2 s3 e" 0 m b 0 "replicate (8 * m) 0"] that
        length_blocks [of "\<lambda>b. ecb3_encrypt d b s1 s2 s3 e" m b]
      by (simp add: len overlay_0)
    then show ?thesis
      using that key chk sm bn(3) le
      by (simp add: Portal_des_encrypt_def Let_def overlay_0 del: of_nat_mult)
  qed
  have "blocks de m (c @ []) = take (8 * m) inp"
    unfolding c_def by (rule blocks_inverse) (simp_all add: enc_def de_def len inv m)
  then have "blocks de m c = inp" using m by simp
  then show ?thesis
    using run [OF bn(1), of inp outp 1] run [OF bn(2) lc, of outp' 0] m out
    by (simp add: c_def enc_def de_def del: of_nat_mult)
qed

lemma some_text_parsed:
  "StringKeyToDesKey some_codes some_text =
    Inr (PAYPORTAL_OK some_codes, str ''01234567'', str ''89abcdef'', str ''01234567'')"
  by code_simp

theorem des_roundtrip_witness:
  "\<exists>c. Portal_des_encrypt add_cipher some_codes some_text (str ''message?'') (replicate 8 9) 7 8 1
      = Inr (PAYPORTAL_OK some_codes, Some 8, c)
    \<and> Portal_des_encrypt add_cipher some_codes some_text c (replicate 8 5) 8 8 0
      = Inr (PAYPORTAL_OK some_codes, Some 8, str ''message?'')"
proof -
  have len: "length (str ''message?'') = 8" by (simp add: str_def)
  have k: "check_key add_cipher some_codes k = Inr k" for k
    by (simp add: check_key_def add_cipher_def)
  have e: "length (ecb3_encrypt add_cipher b (str ''01234567'') s2 s3 e) = 8" if "length b = 8" for b s2 s3 e
    using that by (simp add: add_cipher_def str_def)
  have i: "ecb3_encrypt add_cipher (ecb3_encrypt add_cipher b (str ''01234567'') s2 s3 1) (str ''01234567'') s2 s3 0 = b"
    if "length b = 8" for b s2 s3
    using that by (intro nth_equalityI) (simp_all add: add_cipher_def str_def)
  show ?thesis
    using des_roundtrip [OF some_text_parsed k k k e i, of 7 "str ''message?''" "replicate 8 9" "replicate 8 5"] len
    by (simp add: int_max_def)
qed

end
