(* ===== verification/LuaBase.thy ===== *)
theory LuaBase
  imports Prelude
begin

text \<open>
  What the models of the Lua interpreter's files share: an operation either gives a value,
  raises a Lua error with its message, or runs into a fault of the C program.
\<close>

datatype lua_error = CFault cfault | LuaError string

type_synonym 'a lres = "lua_error + 'a"

definition lift :: "'a cres \<Rightarrow> 'a lres" where
  "lift m = (case m of Inl e \<Rightarrow> Inl (CFault e) | Inr a \<Rightarrow> Inr a)"

lemma lift_simps [simp]: "lift (Inr a) = Inr a" "lift (Inl e) = Inl (CFault e)"
  by (simp_all add: lift_def)

abbreviation raise :: "string \<Rightarrow> 'a lres" where "raise msg \<equiv> Inl (LuaError msg)"

text \<open>No fault of the program: a value or a Lua error.\<close>

definition no_fault :: "'a lres \<Rightarrow> bool" where
  "no_fault m = (\<forall>e. m \<noteq> Inl (CFault e))"

lemma no_fault_simps [simp]: "no_fault (Inr a)" "no_fault (raise msg)" "\<not> no_fault (Inl (CFault e))"
  by (simp_all add: no_fault_def)

lemma no_fault_sbind:
  "no_fault m \<Longrightarrow> (\<And>a. m = Inr a \<Longrightarrow> no_fault (f a)) \<Longrightarrow> no_fault (sbind m f)"
  by (auto simp: no_fault_def sbind_eq_Inl_iff)

lemma no_fault_lift: "isInr m \<Longrightarrow> no_fault (lift m)"
  by (cases m) simp_all

text \<open>No fault, and the value has a property when there is one: the contract of an operation.\<close>

definition post :: "'a lres \<Rightarrow> ('a \<Rightarrow> bool) \<Rightarrow> bool" where
  "post m Q = (case m of Inl (CFault _) \<Rightarrow> False | Inl (LuaError _) \<Rightarrow> True | Inr a \<Rightarrow> Q a)"

lemma post_simps [simp]: "post (Inr a) Q = Q a" "post (raise msg) Q" "\<not> post (Inl (CFault e)) Q"
  by (simp_all add: post_def)

lemma post_alt: "post m Q \<longleftrightarrow> no_fault m \<and> (\<forall>a. m = Inr a \<longrightarrow> Q a)"
  by (auto simp: post_def no_fault_def split: sum.splits lua_error.splits)

lemma post_sbind: "post m P \<Longrightarrow> (\<And>a. P a \<Longrightarrow> post (f a) Q) \<Longrightarrow> post (sbind m f) Q"
  by (cases m) (auto simp: post_def split: lua_error.splits)

lemma post_mono: "post m P \<Longrightarrow> (\<And>a. P a \<Longrightarrow> Q a) \<Longrightarrow> post m Q"
  by (auto simp: post_def split: sum.splits lua_error.splits)

lemma post_no_fault: "post m P \<Longrightarrow> no_fault m"
  by (simp add: post_alt)

lemma postD: "post m P \<Longrightarrow> m = Inr a \<Longrightarrow> P a"
  by simp

lemma post_conj: "post m P \<Longrightarrow> post m Q \<Longrightarrow> post m (\<lambda>a. P a \<and> Q a)"
  by (simp add: post_alt)

text \<open>A byte of a string or of its terminator.\<close>

definition sget :: "bytes \<Rightarrow> nat \<Rightarrow> byte lres" where
  "sget s i = lift (cget s i)"

lemma sget_in [simp, cmem]: "i < length s \<Longrightarrow> sget s i = Inr (s ! i)"
  by (simp add: sget_def)

lemma sget_end [simp, cmem]: "sget s (length s) = Inr 0"
  by (simp add: sget_def)

lemma sget_eq_Inr: "sget s i = Inr c \<longleftrightarrow> i \<le> length s \<and> c = (if i < length s then s ! i else 0)"
  by (auto simp: sget_def cget_def rd_def nth_append lift_def split: if_splits)

lemma sget_le: "sget s i = Inr c \<Longrightarrow> i \<le> length s"
  by (simp add: sget_eq_Inr)

lemma sget_less: "sget s i = Inr c \<Longrightarrow> c \<noteq> 0 \<Longrightarrow> i < length s"
  by (auto simp: sget_eq_Inr split: if_splits)

lemma sget_ok: "i \<le> length s \<Longrightarrow> \<exists>c. sget s i = Inr c"
  by (simp add: sget_eq_Inr)

lemma no_fault_sget [simp]: "i \<le> length s \<Longrightarrow> no_fault (sget s i)"
  using sget_ok [of i s] by auto

end
