(* ===== verification/Opcodes.thy ===== *)
theory Opcodes
  imports Prelude
begin

text \<open>
  The instructions of the Lua virtual machine, \<open>lopcodes.h\<close> and \<open>lopcodes.c\<close>: 32-bit words
  with an operation of 6 bits and arguments of 8, 9 or 18 bits, the macros that read and write
  them, and the table of argument modes.
\<close>

type_synonym Instruction = "32 word"

datatype OpMode = iABC | iABx | iAsBx

datatype OpArgMask = OpArgN | OpArgU | OpArgR | OpArgK

datatype OpCode =
    OP_MOVE | OP_LOADK | OP_LOADBOOL | OP_LOADNIL | OP_GETUPVAL | OP_GETGLOBAL
  | OP_GETTABLE | OP_SETGLOBAL | OP_SETUPVAL | OP_SETTABLE | OP_NEWTABLE | OP_SELF
  | OP_ADD | OP_SUB | OP_MUL | OP_DIV | OP_MOD | OP_POW
  | OP_UNM | OP_NOT | OP_LEN | OP_CONCAT | OP_JMP | OP_EQ
  | OP_LT | OP_LE | OP_TEST | OP_TESTSET | OP_CALL | OP_TAILCALL
  | OP_RETURN | OP_FORLOOP | OP_FORPREP | OP_TFORLOOP | OP_SETLIST | OP_CLOSE
  | OP_CLOSURE | OP_VARARG

section \<open>Sizes and positions\<close>

definition SIZE_C :: nat where "SIZE_C = 9"
definition SIZE_B :: nat where "SIZE_B = 9"
definition SIZE_Bx :: nat where "SIZE_Bx = SIZE_C + SIZE_B"
definition SIZE_A :: nat where "SIZE_A = 8"
definition SIZE_OP :: nat where "SIZE_OP = 6"
definition POS_OP :: nat where "POS_OP = 0"
definition POS_A :: nat where "POS_A = POS_OP + SIZE_OP"
definition POS_C :: nat where "POS_C = POS_A + SIZE_A"
definition POS_B :: nat where "POS_B = POS_C + SIZE_C"
definition POS_Bx :: nat where "POS_Bx = POS_C"

definition MAXARG_A :: int where "MAXARG_A = 2 ^ SIZE_A - 1"
definition MAXARG_B :: int where "MAXARG_B = 2 ^ SIZE_B - 1"
definition MAXARG_C :: int where "MAXARG_C = 2 ^ SIZE_C - 1"
definition MAXARG_Bx :: int where "MAXARG_Bx = 2 ^ SIZE_Bx - 1"
definition MAXARG_sBx :: int where "MAXARG_sBx = MAXARG_Bx div 2"

lemmas field_sizes = SIZE_C_def SIZE_B_def SIZE_Bx_def SIZE_A_def SIZE_OP_def
  POS_OP_def POS_A_def POS_C_def POS_B_def POS_Bx_def

lemmas arg_limits = MAXARG_A_def MAXARG_B_def MAXARG_C_def MAXARG_Bx_def MAXARG_sBx_def

section \<open>Fields\<close>

definition MASK1 :: "nat \<Rightarrow> nat \<Rightarrow> Instruction" where
  "MASK1 n p = push_bit p (NOT (push_bit n (NOT 0)))"

definition MASK0 :: "nat \<Rightarrow> nat \<Rightarrow> Instruction" where
  "MASK0 n p = NOT (MASK1 n p)"

text \<open>What the \<open>GET\<close> and \<open>SET\<close> macros share: a field of \<open>n\<close> bits at position \<open>p\<close>.\<close>

definition getfield :: "nat \<Rightarrow> nat \<Rightarrow> Instruction \<Rightarrow> int" where
  "getfield n p i = uint (drop_bit p i AND MASK1 n 0)"

definition setfield :: "nat \<Rightarrow> nat \<Rightarrow> int \<Rightarrow> Instruction \<Rightarrow> Instruction" where
  "setfield n p v i = ((i AND MASK0 n p) OR (push_bit p (word_of_int v) AND MASK1 n p))"

definition GET_OPCODE :: "Instruction \<Rightarrow> nat" where
  "GET_OPCODE i = nat (getfield SIZE_OP POS_OP i)"

definition SET_OPCODE :: "nat \<Rightarrow> Instruction \<Rightarrow> Instruction" where
  "SET_OPCODE op i = setfield SIZE_OP POS_OP (int op) i"

definition GETARG_A :: "Instruction \<Rightarrow> int" where "GETARG_A i = getfield SIZE_A POS_A i"
definition SETARG_A :: "int \<Rightarrow> Instruction \<Rightarrow> Instruction" where "SETARG_A v i = setfield SIZE_A POS_A v i"
definition GETARG_B :: "Instruction \<Rightarrow> int" where "GETARG_B i = getfield SIZE_B POS_B i"
definition SETARG_B :: "int \<Rightarrow> Instruction \<Rightarrow> Instruction" where "SETARG_B v i = setfield SIZE_B POS_B v i"
definition GETARG_C :: "Instruction \<Rightarrow> int" where "GETARG_C i = getfield SIZE_C POS_C i"
definition SETARG_C :: "int \<Rightarrow> Instruction \<Rightarrow> Instruction" where "SETARG_C v i = setfield SIZE_C POS_C v i"
definition GETARG_Bx :: "Instruction \<Rightarrow> int" where "GETARG_Bx i = getfield SIZE_Bx POS_Bx i"
definition SETARG_Bx :: "int \<Rightarrow> Instruction \<Rightarrow> Instruction" where "SETARG_Bx v i = setfield SIZE_Bx POS_Bx v i"
definition GETARG_sBx :: "Instruction \<Rightarrow> int" where "GETARG_sBx i = GETARG_Bx i - MAXARG_sBx"
definition SETARG_sBx :: "int \<Rightarrow> Instruction \<Rightarrow> Instruction" where "SETARG_sBx v i = SETARG_Bx (v + MAXARG_sBx) i"

definition CREATE_ABC :: "nat \<Rightarrow> int \<Rightarrow> int \<Rightarrow> int \<Rightarrow> Instruction" where
  "CREATE_ABC op a b c = (((push_bit POS_OP (word_of_nat op) OR push_bit POS_A (word_of_int a))
    OR push_bit POS_B (word_of_int b)) OR push_bit POS_C (word_of_int c))"

definition CREATE_ABx :: "nat \<Rightarrow> int \<Rightarrow> int \<Rightarrow> Instruction" where
  "CREATE_ABx op a bc = ((push_bit POS_OP (word_of_nat op) OR push_bit POS_A (word_of_int a))
    OR push_bit POS_Bx (word_of_int bc))"

section \<open>Registers or constants\<close>

definition BITRK :: int where "BITRK = 256"
definition ISK :: "int \<Rightarrow> bool" where "ISK x = (x AND BITRK \<noteq> 0)"
definition INDEXK :: "int \<Rightarrow> int" where "INDEXK r = (r AND NOT BITRK)"
definition MAXINDEXRK :: int where "MAXINDEXRK = BITRK - 1"
definition RKASK :: "int \<Rightarrow> int" where "RKASK x = (x OR BITRK)"
definition NO_REG :: int where "NO_REG = MAXARG_A"

section \<open>Operations and their modes\<close>

definition opcodes :: "OpCode list" where
  "opcodes =
  [OP_MOVE, OP_LOADK, OP_LOADBOOL, OP_LOADNIL, OP_GETUPVAL, OP_GETGLOBAL,
   OP_GETTABLE, OP_SETGLOBAL, OP_SETUPVAL, OP_SETTABLE, OP_NEWTABLE, OP_SELF,
   OP_ADD, OP_SUB, OP_MUL, OP_DIV, OP_MOD, OP_POW,
   OP_UNM, OP_NOT, OP_LEN, OP_CONCAT, OP_JMP, OP_EQ,
   OP_LT, OP_LE, OP_TEST, OP_TESTSET, OP_CALL, OP_TAILCALL,
   OP_RETURN, OP_FORLOOP, OP_FORPREP, OP_TFORLOOP, OP_SETLIST, OP_CLOSE,
   OP_CLOSURE, OP_VARARG]"

definition NUM_OPCODES :: nat where "NUM_OPCODES = 38"

text \<open>The number of an operation, and the operation of a number.\<close>

definition opnum :: "OpCode \<Rightarrow> nat" where
  "opnum op = the (find_pos (\<lambda>x. x = op) opcodes)"

definition opcode_of :: "nat \<Rightarrow> OpCode option" where
  "opcode_of n = (if n < NUM_OPCODES then Some (opcodes ! n) else None)"

definition luaP_opnames :: "string list" where
  "luaP_opnames =
  [''MOVE'', ''LOADK'', ''LOADBOOL'', ''LOADNIL'', ''GETUPVAL'', ''GETGLOBAL'', ''GETTABLE'',
   ''SETGLOBAL'', ''SETUPVAL'', ''SETTABLE'', ''NEWTABLE'', ''SELF'', ''ADD'', ''SUB'',
   ''MUL'', ''DIV'', ''MOD'', ''POW'', ''UNM'', ''NOT'', ''LEN'',
   ''CONCAT'', ''JMP'', ''EQ'', ''LT'', ''LE'', ''TEST'', ''TESTSET'',
   ''CALL'', ''TAILCALL'', ''RETURN'', ''FORLOOP'', ''FORPREP'', ''TFORLOOP'', ''SETLIST'',
   ''CLOSE'', ''CLOSURE'', ''VARARG'']"

fun mode_num :: "OpMode \<Rightarrow> byte" where
  "mode_num iABC = 0"
| "mode_num iABx = 1"
| "mode_num iAsBx = 2"

fun arg_num :: "OpArgMask \<Rightarrow> byte" where
  "arg_num OpArgN = 0"
| "arg_num OpArgU = 1"
| "arg_num OpArgR = 2"
| "arg_num OpArgK = 3"

definition opmode :: "byte \<Rightarrow> byte \<Rightarrow> OpArgMask \<Rightarrow> OpArgMask \<Rightarrow> OpMode \<Rightarrow> byte" where
  "opmode t a b c m = ((((push_bit 7 t OR push_bit 6 a) OR push_bit 4 (arg_num b))
    OR push_bit 2 (arg_num c)) OR mode_num m)"

definition luaP_opmodes :: "byte list" where
  "luaP_opmodes =
  [opmode 0 1 OpArgR OpArgN iABC,
   opmode 0 1 OpArgK OpArgN iABx,
   opmode 0 1 OpArgU OpArgU iABC,
   opmode 0 1 OpArgR OpArgN iABC,
   opmode 0 1 OpArgU OpArgN iABC,
   opmode 0 1 OpArgK OpArgN iABx,
   opmode 0 1 OpArgR OpArgK iABC,
   opmode 0 0 OpArgK OpArgN iABx,
   opmode 0 0 OpArgU OpArgN iABC,
   opmode 0 0 OpArgK OpArgK iABC,
   opmode 0 1 OpArgU OpArgU iABC,
   opmode 0 1 OpArgR OpArgK iABC,
   opmode 0 1 OpArgK OpArgK iABC,
   opmode 0 1 OpArgK OpArgK iABC,
   opmode 0 1 OpArgK OpArgK iABC,
   opmode 0 1 OpArgK OpArgK iABC,
   opmode 0 1 OpArgK OpArgK iABC,
   opmode 0 1 OpArgK OpArgK iABC,
   opmode 0 1 OpArgR OpArgN iABC,
   opmode 0 1 OpArgR OpArgN iABC,
   opmode 0 1 OpArgR OpArgN iABC,
   opmode 0 1 OpArgR OpArgR iABC,
   opmode 0 0 OpArgR OpArgN iAsBx,
   opmode 1 0 OpArgK OpArgK iABC,
   opmode 1 0 OpArgK OpArgK iABC,
   opmode 1 0 OpArgK OpArgK iABC,
   opmode 1 1 OpArgR OpArgU iABC,
   opmode 1 1 OpArgR OpArgU iABC,
   opmode 0 1 OpArgU OpArgU iABC,
   opmode 0 1 OpArgU OpArgU iABC,
   opmode 0 0 OpArgU OpArgN iABC,
   opmode 0 1 OpArgR OpArgN iAsBx,
   opmode 0 1 OpArgR OpArgN iAsBx,
   opmode 1 0 OpArgN OpArgU iABC,
   opmode 0 0 OpArgU OpArgU iABC,
   opmode 0 0 OpArgN OpArgN iABC,
   opmode 0 1 OpArgU OpArgN iABx,
   opmode 0 1 OpArgU OpArgN iABC]"

text \<open>The readers of the table; an index past it is a fault.\<close>

definition getOpMode :: "nat \<Rightarrow> byte cres" where
  "getOpMode m = sbind (rd luaP_opmodes m) (\<lambda>b. Inr (b AND 3))"

definition getBMode :: "nat \<Rightarrow> byte cres" where
  "getBMode m = sbind (rd luaP_opmodes m) (\<lambda>b. Inr (drop_bit 4 b AND 3))"

definition getCMode :: "nat \<Rightarrow> byte cres" where
  "getCMode m = sbind (rd luaP_opmodes m) (\<lambda>b. Inr (drop_bit 2 b AND 3))"

definition testAMode :: "nat \<Rightarrow> bool cres" where
  "testAMode m = sbind (rd luaP_opmodes m) (\<lambda>b. Inr (b AND 64 \<noteq> 0))"

definition testTMode :: "nat \<Rightarrow> bool cres" where
  "testTMode m = sbind (rd luaP_opmodes m) (\<lambda>b. Inr (b AND 128 \<noteq> 0))"

section \<open>Bits of fields\<close>

lemma bit_MASK1: "bit (MASK1 n p) k \<longleftrightarrow> p \<le> k \<and> k < p + n \<and> k < 32"
  by (auto simp: MASK1_def bit_simps)

lemma bit_MASK0: "bit (MASK0 n p) k \<longleftrightarrow> (k < p \<or> p + n \<le> k) \<and> k < 32"
  by (auto simp: MASK0_def bit_simps bit_MASK1)

lemma bit_getfield: "bit (getfield n p i) k \<longleftrightarrow> k < n \<and> bit i (p + k)"
proof -
  have "bit i (p + k) \<Longrightarrow> p + k < 32" using bit_imp_le_length [of i "p + k"] by simp
  then show ?thesis by (auto simp: getfield_def bit_uint_iff bit_simps bit_MASK1)
qed

lemma bit_setfield:
  "bit (setfield n p v i) k \<longleftrightarrow> k < 32 \<and> (if p \<le> k \<and> k < p + n then bit v (k - p) else bit i k)"
proof -
  have "bit i k \<Longrightarrow> k < 32" using bit_imp_le_length [of i k] by simp
  then show ?thesis by (auto simp: setfield_def bit_simps bit_MASK1 bit_MASK0)
qed

lemma getfield_range: "0 \<le> getfield n p i" "getfield n p i < 2 ^ n"
proof -
  have "getfield n p i = take_bit n (getfield n p i)"
    by (rule bit_eqI) (simp add: bit_take_bit_iff bit_getfield)
  then show "getfield n p i < 2 ^ n" by (metis take_bit_int_less_exp)
  show "0 \<le> getfield n p i" by (simp add: getfield_def)
qed

text \<open>A field reads back the low bits written, and writing leaves the other fields alone.\<close>

lemma get_setfield: "p + n \<le> 32 \<Longrightarrow> getfield n p (setfield n p v i) = take_bit n v"
  by (rule bit_eqI) (auto simp: bit_getfield bit_setfield bit_take_bit_iff)

lemma get_setfield_other:
  "p + n \<le> q \<or> q + m \<le> p \<Longrightarrow> q + m \<le> 32 \<Longrightarrow> getfield m q (setfield n p v i) = getfield m q i"
  by (rule bit_eqI) (auto simp: bit_getfield bit_setfield)

lemma setfield_get: "setfield n p (getfield n p i) i = i"
proof (rule bit_word_eqI)
  fix k
  assume "k < LENGTH(32)"
  then show "bit (setfield n p (getfield n p i) i) k = bit i k"
    by (auto simp: bit_setfield bit_getfield)
qed

lemma take_bit_small: "0 \<le> v \<Longrightarrow> v < 2 ^ n \<Longrightarrow> take_bit n v = v" for v :: int
  by (simp add: take_bit_int_eq_self)

lemmas arg_defs = GET_OPCODE_def SET_OPCODE_def GETARG_A_def SETARG_A_def GETARG_B_def SETARG_B_def
  GETARG_C_def SETARG_C_def GETARG_Bx_def SETARG_Bx_def GETARG_sBx_def SETARG_sBx_def

text \<open>Creation is writing every field of an empty instruction.\<close>

lemma bit_small: "0 \<le> v \<Longrightarrow> v < 2 ^ n \<Longrightarrow> n \<le> k \<Longrightarrow> \<not> bit v k" for v :: int
  by (metis bit_take_bit_iff linorder_not_less take_bit_small)

lemma CREATE_ABC_fields:
  assumes "op < 2 ^ SIZE_OP" "0 \<le> a" "a \<le> MAXARG_A" "0 \<le> b" "b \<le> MAXARG_B" "0 \<le> c" "c \<le> MAXARG_C"
  shows "CREATE_ABC op a b c = SET_OPCODE op (SETARG_A a (SETARG_B b (SETARG_C c 0)))"
proof (rule bit_word_eqI)
  fix k
  assume k: "k < LENGTH(32)"
  have r: "\<And>k. 6 \<le> k \<Longrightarrow> \<not> bit (int op) k" "\<And>k. 8 \<le> k \<Longrightarrow> \<not> bit a k"
      "\<And>k. 9 \<le> k \<Longrightarrow> \<not> bit b k" "\<And>k. 9 \<le> k \<Longrightarrow> \<not> bit c k"
    using assms bit_small [of "int op" 6] bit_small [of a 8] bit_small [of b 9] bit_small [of c 9]
    by (simp_all add: arg_limits field_sizes)
  have w: "bit (word_of_nat op :: Instruction) m \<longleftrightarrow> m < 32 \<and> bit (int op) m" for m
    by (simp add: bit_simps)
  show "bit (CREATE_ABC op a b c) k = bit (SET_OPCODE op (SETARG_A a (SETARG_B b (SETARG_C c 0)))) k"
    using k r unfolding CREATE_ABC_def
    by (auto simp: arg_defs bit_setfield field_sizes bit_simps w split: if_splits)
qed

lemma CREATE_ABx_fields:
  assumes "op < 2 ^ SIZE_OP" "0 \<le> a" "a \<le> MAXARG_A" "0 \<le> b" "b \<le> MAXARG_Bx"
  shows "CREATE_ABx op a b = SET_OPCODE op (SETARG_A a (SETARG_Bx b 0))"
proof (rule bit_word_eqI)
  fix k
  assume k: "k < LENGTH(32)"
  have r: "\<And>k. 6 \<le> k \<Longrightarrow> \<not> bit (int op) k" "\<And>k. 8 \<le> k \<Longrightarrow> \<not> bit a k" "\<And>k. 18 \<le> k \<Longrightarrow> \<not> bit b k"
    using assms bit_small [of "int op" 6] bit_small [of a 8] bit_small [of b 18]
    by (simp_all add: arg_limits field_sizes)
  have w: "bit (word_of_nat op :: Instruction) m \<longleftrightarrow> m < 32 \<and> bit (int op) m" for m
    by (simp add: bit_simps)
  show "bit (CREATE_ABx op a b) k = bit (SET_OPCODE op (SETARG_A a (SETARG_Bx b 0))) k"
    using k r unfolding CREATE_ABx_def
    by (auto simp: arg_defs bit_setfield field_sizes bit_simps w split: if_splits)
qed

text \<open>The facts other components use: each reader over each writer.\<close>

lemma arg_range:
  "0 \<le> GETARG_A i" "GETARG_A i \<le> MAXARG_A" "0 \<le> GETARG_B i" "GETARG_B i \<le> MAXARG_B"
  "0 \<le> GETARG_C i" "GETARG_C i \<le> MAXARG_C" "0 \<le> GETARG_Bx i" "GETARG_Bx i \<le> MAXARG_Bx"
  using getfield_range [of SIZE_A POS_A i] getfield_range [of SIZE_B POS_B i]
    getfield_range [of SIZE_C POS_C i] getfield_range [of SIZE_Bx POS_Bx i]
  by (simp_all add: arg_defs arg_limits)

lemma opcode_range: "GET_OPCODE i < 64"
  using getfield_range [of SIZE_OP POS_OP i] by (simp add: arg_defs field_sizes)

lemma arg_get_set:
  "op < 64 \<Longrightarrow> GET_OPCODE (SET_OPCODE op i) = op"
  "0 \<le> a \<Longrightarrow> a \<le> MAXARG_A \<Longrightarrow> GETARG_A (SETARG_A a i) = a"
  "0 \<le> b \<Longrightarrow> b \<le> MAXARG_B \<Longrightarrow> GETARG_B (SETARG_B b i) = b"
  "0 \<le> c \<Longrightarrow> c \<le> MAXARG_C \<Longrightarrow> GETARG_C (SETARG_C c i) = c"
  "0 \<le> d \<Longrightarrow> d \<le> MAXARG_Bx \<Longrightarrow> GETARG_Bx (SETARG_Bx d i) = d"
  by (simp_all add: arg_defs arg_limits get_setfield field_sizes take_bit_small nat_less_iff)

lemma sBx_get_set: "- MAXARG_sBx \<le> v \<Longrightarrow> v \<le> MAXARG_sBx \<Longrightarrow> GETARG_sBx (SETARG_sBx v i) = v"
  using arg_get_set(5) [of "v + MAXARG_sBx" i]
  by (simp add: GETARG_sBx_def SETARG_sBx_def arg_limits field_sizes)

lemma arg_frame:
  "GETARG_A (SET_OPCODE op i) = GETARG_A i" "GETARG_B (SET_OPCODE op i) = GETARG_B i"
  "GETARG_C (SET_OPCODE op i) = GETARG_C i" "GETARG_Bx (SET_OPCODE op i) = GETARG_Bx i"
  "GET_OPCODE (SETARG_A v i) = GET_OPCODE i" "GETARG_B (SETARG_A v i) = GETARG_B i"
  "GETARG_C (SETARG_A v i) = GETARG_C i" "GETARG_Bx (SETARG_A v i) = GETARG_Bx i"
  "GET_OPCODE (SETARG_B v i) = GET_OPCODE i" "GETARG_A (SETARG_B v i) = GETARG_A i"
  "GETARG_C (SETARG_B v i) = GETARG_C i"
  "GET_OPCODE (SETARG_C v i) = GET_OPCODE i" "GETARG_A (SETARG_C v i) = GETARG_A i"
  "GETARG_B (SETARG_C v i) = GETARG_B i"
  "GET_OPCODE (SETARG_Bx v i) = GET_OPCODE i" "GETARG_A (SETARG_Bx v i) = GETARG_A i"
  "GET_OPCODE (SETARG_sBx v i) = GET_OPCODE i" "GETARG_A (SETARG_sBx v i) = GETARG_A i"
  by (simp_all add: arg_defs get_setfield_other field_sizes)

lemmas instr_simps [simp] = arg_get_set sBx_get_set arg_frame

text \<open>A list of all operations, in the order of the enumeration.\<close>

lemma opcodes_table: "\<forall>n\<in>set [0..<38]. find_pos (\<lambda>x. x = opcodes ! n) opcodes = Some n"
  by code_simp

lemma opcodes_all: "op \<in> set opcodes"
  by (cases op) (simp_all add: opcodes_def)

lemma length_opcodes: "length opcodes = 38"
  by (simp add: opcodes_def)

lemma opcode_opnum: "opcode_of (opnum op) = Some op" "opnum op < 38"
proof -
  obtain n where n: "n < 38" "op = opcodes ! n"
    using opcodes_all [of op] by (auto simp: in_set_conv_nth length_opcodes)
  then have "opnum op = n" using opcodes_table by (simp add: opnum_def del: upt_rec_numeral)
  with n show "opcode_of (opnum op) = Some op" "opnum op < 38" by (simp_all add: opcode_of_def NUM_OPCODES_def)
qed

lemma opnum_opcode: "opcode_of n = Some op \<Longrightarrow> opnum op = n"
  using opcodes_table by (auto simp: opcode_of_def NUM_OPCODES_def opnum_def split: if_splits simp del: upt_rec_numeral)

section \<open>Properties\<close>

text \<open>
  Instructions hold what was put in them. An instruction made from an operation and
  arguments in range gives back each of them; a signed offset written into it gives back that
  offset and leaves the operation and the first argument.
\<close>

theorem instruction_fields:
  assumes "0 \<le> a" "a \<le> MAXARG_A" "0 \<le> b" "b \<le> MAXARG_B" "0 \<le> c" "c \<le> MAXARG_C"
    "- MAXARG_sBx \<le> s" "s \<le> MAXARG_sBx"
  shows "opcode_of (GET_OPCODE (CREATE_ABC (opnum op) a b c)) = Some op
    \<and> GETARG_A (CREATE_ABC (opnum op) a b c) = a
    \<and> GETARG_B (CREATE_ABC (opnum op) a b c) = b
    \<and> GETARG_C (CREATE_ABC (opnum op) a b c) = c
    \<and> GETARG_sBx (SETARG_sBx s (CREATE_ABC (opnum op) a b c)) = s
    \<and> GETARG_A (SETARG_sBx s (CREATE_ABC (opnum op) a b c)) = a
    \<and> GET_OPCODE (SETARG_sBx s (CREATE_ABC (opnum op) a b c)) = opnum op"
proof -
  have o: "opnum op < 64" "opnum op < 2 ^ SIZE_OP" using opcode_opnum(2) [of op] by (simp_all add: field_sizes)
  show ?thesis
    using assms o(1) opcode_opnum(1) [of op] by (simp add: CREATE_ABC_fields [OF o(2) assms(1-6)])
qed

theorem instruction_fields_witness:
  "opcode_of (GET_OPCODE (CREATE_ABC (opnum OP_EQ) 1 300 511)) = Some OP_EQ
    \<and> GETARG_A (CREATE_ABC (opnum OP_EQ) 1 300 511) = 1
    \<and> GETARG_B (CREATE_ABC (opnum OP_EQ) 1 300 511) = 300
    \<and> GETARG_C (CREATE_ABC (opnum OP_EQ) 1 300 511) = 511
    \<and> GETARG_sBx (SETARG_sBx (- 5) (CREATE_ABC (opnum OP_EQ) 1 300 511)) = - 5
    \<and> GETARG_A (SETARG_sBx (- 5) (CREATE_ABC (opnum OP_EQ) 1 300 511)) = 1
    \<and> GET_OPCODE (SETARG_sBx (- 5) (CREATE_ABC (opnum OP_EQ) 1 300 511)) = opnum OP_EQ"
  by (rule instruction_fields) (simp_all add: arg_limits field_sizes)

end
