(* ===== verification/StrMatch.thy ===== *)
theory StrMatch
  imports LuaBase
begin

text \<open>
  The pattern matcher of Lua's string library, \<open>lstrlib.c\<close>. The source and the pattern are
  byte lists with a terminator behind them, the pointers are positions, and every read is
  checked. The match state is threaded: its array of captures is changed in place and only
  partly restored when a match fails. The functions that call \<open>match\<close> back take it as an
  argument.
\<close>

abbreviation "L_ESC \<equiv> (37 :: byte)"
abbreviation "C_DOLLAR \<equiv> (36 :: byte)"
abbreviation "C_LPAR \<equiv> (40 :: byte)"
abbreviation "C_RPAR \<equiv> (41 :: byte)"
abbreviation "C_STAR \<equiv> (42 :: byte)"
abbreviation "C_PLUS \<equiv> (43 :: byte)"
abbreviation "C_MINUS \<equiv> (45 :: byte)"
abbreviation "C_DOT \<equiv> (46 :: byte)"
abbreviation "C_OPT \<equiv> (63 :: byte)"
abbreviation "C_LBR \<equiv> (91 :: byte)"
abbreviation "C_RBR \<equiv> (93 :: byte)"
abbreviation "C_CARET \<equiv> (94 :: byte)"

section \<open>Match state\<close>

definition CAP_UNFINISHED :: int where "CAP_UNFINISHED = - 1"
definition CAP_POSITION :: int where "CAP_POSITION = - 2"
definition LUA_MAXCAPTURES :: nat where "LUA_MAXCAPTURES = 32"

record MatchState =
  level :: nat
  capture :: "(nat \<times> int) list"

text \<open>The state when matching starts; the array keeps what is in it.\<close>

definition fresh_ms :: "(nat \<times> int) list \<Rightarrow> MatchState" where
  "fresh_ms a = \<lparr>level = 0, capture = a\<rparr>"

definition cap_at :: "MatchState \<Rightarrow> nat \<Rightarrow> (nat \<times> int) lres" where
  "cap_at ms i = lift (rd (capture ms) i)"

definition check_capture :: "MatchState \<Rightarrow> byte \<Rightarrow> nat lres" where
  "check_capture ms l =
    (let i = uint l - 49 in
     if i < 0 \<or> i \<ge> int (level ms) then raise ''invalid capture index''
     else sbind (cap_at ms (nat i)) (\<lambda>(_, len).
       if len = CAP_UNFINISHED then raise ''invalid capture index'' else Inr (nat i)))"

fun close_from :: "MatchState \<Rightarrow> nat \<Rightarrow> nat lres" where
  "close_from ms 0 = raise ''invalid pattern capture''"
| "close_from ms (Suc l) =
    sbind (cap_at ms l) (\<lambda>(_, len). if len = CAP_UNFINISHED then Inr l else close_from ms l)"

definition capture_to_close :: "MatchState \<Rightarrow> nat lres" where
  "capture_to_close ms = close_from ms (level ms)"

section \<open>Classes\<close>

text \<open>The loop that looks for the end of a set; \<open>p\<close> is where an iteration starts.\<close>

function classend_set :: "bytes \<Rightarrow> nat \<Rightarrow> nat lres" where
  "classend_set P p =
    sbind (sget P p) (\<lambda>c.
    if c = 0 then raise ''malformed pattern (missing ']')''
    else
      sbind (if c = L_ESC then sbind (sget P (p + 1)) (\<lambda>d. Inr (if d \<noteq> 0 then p + 2 else p + 1))
             else Inr (p + 1)) (\<lambda>p'.
      sbind (sget P p') (\<lambda>e. if e = C_RBR then Inr (p' + 1) else classend_set P p')))"
  by pat_completeness auto
termination
  by (relation "measure (\<lambda>(P, p). Suc (length P) - p)") (auto dest!: sget_le split: if_splits simp: sbind_eq_Inr_iff)

declare classend_set.simps [simp del]

definition classend :: "bytes \<Rightarrow> nat \<Rightarrow> nat lres" where
  "classend P p =
    sbind (sget P p) (\<lambda>c.
    if c = L_ESC then
      sbind (sget P (p + 1)) (\<lambda>d.
        if d = 0 then raise ''malformed pattern (ends with '%')'' else Inr (p + 2))
    else if c = C_LBR then
      sbind (sget P (p + 1)) (\<lambda>d. classend_set P (if d = C_CARET then p + 2 else p + 1))
    else Inr (p + 1))"

definition match_class :: "byte \<Rightarrow> byte \<Rightarrow> bool" where
  "match_class c cl =
    (let k = tolower cl;
         signed = (\<lambda>res. if islower cl then res else \<not> res)
     in if k = 97 then signed (isalpha c)
     else if k = 99 then signed (iscntrl c)
     else if k = 100 then signed (isdigit c)
     else if k = 108 then signed (islower c)
     else if k = 112 then signed (ispunct c)
     else if k = 115 then signed (isspace c)
     else if k = 117 then signed (isupper c)
     else if k = 119 then signed (isalnum c)
     else if k = 120 then signed (isxdigit c)
     else if k = 122 then signed (c = 0)
     else cl = c)"

function bracket_loop :: "byte \<Rightarrow> bytes \<Rightarrow> bool \<Rightarrow> nat \<Rightarrow> nat \<Rightarrow> bool lres" where
  "bracket_loop c P sig p ec =
    (if p + 1 < ec then
       sbind (sget P (p + 1)) (\<lambda>x.
       if x = L_ESC then
         sbind (sget P (p + 2)) (\<lambda>cl.
           if match_class c cl then Inr sig else bracket_loop c P sig (p + 2) ec)
       else
         sbind (sget P (p + 2)) (\<lambda>y.
         if y = C_MINUS \<and> p + 3 < ec then
           sbind (sget P (p + 3)) (\<lambda>z.
             if x \<le> c \<and> c \<le> z then Inr sig else bracket_loop c P sig (p + 3) ec)
         else if x = c then Inr sig
         else bracket_loop c P sig (p + 1) ec))
     else Inr (\<not> sig))"
  by pat_completeness auto
termination
  by (relation "measure (\<lambda>(c, P, sig, p, ec). ec - p)") auto

declare bracket_loop.simps [simp del]

definition matchbracketclass :: "byte \<Rightarrow> bytes \<Rightarrow> nat \<Rightarrow> nat \<Rightarrow> bool lres" where
  "matchbracketclass c P p ec =
    sbind (sget P (p + 1)) (\<lambda>x.
      if x = C_CARET then bracket_loop c P False (p + 1) ec
      else bracket_loop c P True p ec)"

definition singlematch :: "byte \<Rightarrow> bytes \<Rightarrow> nat \<Rightarrow> nat \<Rightarrow> bool lres" where
  "singlematch c P p ep =
    sbind (sget P p) (\<lambda>x.
    if x = C_DOT then Inr True
    else if x = L_ESC then sbind (sget P (p + 1)) (\<lambda>cl. Inr (match_class c cl))
    else if x = C_LBR then matchbracketclass c P p (ep - 1)
    else Inr (x = c))"

text \<open>\<open>s<ms->src_end && singlematch(uchar( *s), p, ep)\<close>\<close>

definition single_at :: "bytes \<Rightarrow> bytes \<Rightarrow> nat \<Rightarrow> nat \<Rightarrow> nat \<Rightarrow> bool lres" where
  "single_at S P p ep s =
    (if s < length S then sbind (sget S s) (\<lambda>c. singlematch c P p ep) else Inr False)"

section \<open>Balanced strings and back references\<close>

function balance_loop :: "bytes \<Rightarrow> byte \<Rightarrow> byte \<Rightarrow> int \<Rightarrow> nat \<Rightarrow> nat option lres" where
  "balance_loop S b e cont s =
    (if s + 1 < length S then
       sbind (sget S (s + 1)) (\<lambda>c.
       if c = e then (if cont - 1 = 0 then Inr (Some (s + 2)) else balance_loop S b e (cont - 1) (s + 1))
       else if c = b then balance_loop S b e (cont + 1) (s + 1)
       else balance_loop S b e cont (s + 1))
     else Inr None)"
  by pat_completeness auto
termination
  by (relation "measure (\<lambda>(S, b, e, cont, s). length S - s)") auto

declare balance_loop.simps [simp del]

definition matchbalance :: "bytes \<Rightarrow> bytes \<Rightarrow> nat \<Rightarrow> nat \<Rightarrow> nat option lres" where
  "matchbalance S P s p =
    sbind (sget P p) (\<lambda>b.
    if b = 0 then raise ''unbalanced pattern''
    else sbind (sget P (p + 1)) (\<lambda>e.
    if e = 0 then raise ''unbalanced pattern''
    else sbind (sget S s) (\<lambda>c.
    if c \<noteq> b then Inr None else balance_loop S b e 1 s)))"

text \<open>\<open>len\<close> bytes of the source, as \<open>memcmp\<close> reads them.\<close>

definition mem_at :: "bytes \<Rightarrow> nat \<Rightarrow> nat \<Rightarrow> bytes lres" where
  "mem_at S i n = (if i + n \<le> length S + 1 then Inr (take n (drop i (S @ [0]))) else Inl (CFault ReadOOB))"

definition match_capture :: "bytes \<Rightarrow> MatchState \<Rightarrow> nat \<Rightarrow> byte \<Rightarrow> nat option lres" where
  "match_capture S ms s l =
    sbind (check_capture ms l) (\<lambda>i.
    sbind (cap_at ms i) (\<lambda>(init, clen).
    let len = clen mod 2 ^ 64 in
    if int (length S) - int s \<ge> len then
      sbind (mem_at S init (nat len)) (\<lambda>a.
      sbind (mem_at S s (nat len)) (\<lambda>b.
      Inr (if a = b then Some (s + nat len) else None)))
    else Inr None))"

section \<open>Matching\<close>

type_synonym mres = "(nat option \<times> MatchState) lres"

fun count_down :: "(MatchState \<Rightarrow> nat \<Rightarrow> mres) \<Rightarrow> MatchState \<Rightarrow> nat \<Rightarrow> nat \<Rightarrow> mres" where
  "count_down k ms s 0 = k ms s"
| "count_down k ms s (Suc i) =
    sbind (k ms (s + Suc i)) (\<lambda>(r, ms').
      case r of Some e \<Rightarrow> Inr (Some e, ms') | None \<Rightarrow> count_down k ms' s i)"

function count_up :: "bytes \<Rightarrow> bytes \<Rightarrow> nat \<Rightarrow> nat \<Rightarrow> nat \<Rightarrow> nat \<Rightarrow> nat lres" where
  "count_up S P p ep s i =
    sbind (single_at S P p ep (s + i)) (\<lambda>m. if m then count_up S P p ep s (i + 1) else Inr i)"
  by pat_completeness auto
termination
  by (relation "measure (\<lambda>(S, P, p, ep, s, i). length S - (s + i))")
    (auto simp: single_at_def split: if_splits)

declare count_up.simps [simp del]

definition max_expand :: "(MatchState \<Rightarrow> nat \<Rightarrow> mres) \<Rightarrow> bytes \<Rightarrow> bytes \<Rightarrow> MatchState \<Rightarrow> nat \<Rightarrow> nat \<Rightarrow> nat \<Rightarrow> mres" where
  "max_expand k S P ms s p ep = sbind (count_up S P p ep s 0) (\<lambda>i. count_down k ms s i)"

function min_expand :: "(MatchState \<Rightarrow> nat \<Rightarrow> mres) \<Rightarrow> bytes \<Rightarrow> bytes \<Rightarrow> MatchState \<Rightarrow> nat \<Rightarrow> nat \<Rightarrow> nat \<Rightarrow> mres" where
  "min_expand k S P ms s p ep =
    sbind (k ms s) (\<lambda>(r, ms').
      case r of Some e \<Rightarrow> Inr (Some e, ms')
      | None \<Rightarrow> sbind (single_at S P p ep s) (\<lambda>m.
          if m then min_expand k S P ms' (s + 1) p ep else Inr (None, ms')))"
  by pat_completeness auto
termination
  by (relation "measure (\<lambda>(k, S, P, ms, s, p, ep). length S - s)")
    (auto simp: single_at_def split: if_splits)

declare min_expand.simps [simp del]

definition start_capture :: "(MatchState \<Rightarrow> nat \<Rightarrow> mres) \<Rightarrow> MatchState \<Rightarrow> nat \<Rightarrow> int \<Rightarrow> mres" where
  "start_capture k ms s what =
    (if level ms \<ge> LUA_MAXCAPTURES then raise ''too many captures''
     else sbind (lift (wr (capture ms) (level ms) (s, what))) (\<lambda>c.
       sbind (k (ms\<lparr>capture := c, level := level ms + 1\<rparr>) s) (\<lambda>(r, ms').
         case r of Some e \<Rightarrow> Inr (Some e, ms')
         | None \<Rightarrow> Inr (None, ms'\<lparr>level := level ms' - 1\<rparr>))))"

definition end_capture :: "(MatchState \<Rightarrow> nat \<Rightarrow> mres) \<Rightarrow> MatchState \<Rightarrow> nat \<Rightarrow> mres" where
  "end_capture k ms s =
    sbind (capture_to_close ms) (\<lambda>l.
    sbind (cap_at ms l) (\<lambda>(init, _).
    sbind (k (ms\<lparr>capture := (capture ms)[l := (init, int s - int init)]\<rparr>) s) (\<lambda>(r, ms').
      case r of Some e \<Rightarrow> Inr (Some e, ms')
      | None \<Rightarrow> sbind (cap_at ms' l) (\<lambda>(init', _).
          Inr (None, ms'\<lparr>capture := (capture ms')[l := (init', CAP_UNFINISHED)]\<rparr>)))))"

text \<open>The default case of \<open>match\<close>: a pattern item; \<open>k ms s p\<close> is the rest of the match.\<close>

definition match_item :: "(MatchState \<Rightarrow> nat \<Rightarrow> nat \<Rightarrow> mres) \<Rightarrow> bytes \<Rightarrow> bytes \<Rightarrow> MatchState \<Rightarrow> nat \<Rightarrow> nat \<Rightarrow> mres" where
  "match_item k S P ms s p =
    sbind (classend P p) (\<lambda>ep.
    sbind (single_at S P p ep s) (\<lambda>m.
    sbind (sget P ep) (\<lambda>c.
    if c = C_OPT then
      (if m then sbind (k ms (s + 1) (ep + 1)) (\<lambda>(r, ms').
         case r of Some e \<Rightarrow> Inr (Some e, ms') | None \<Rightarrow> k ms' s (ep + 1))
       else k ms s (ep + 1))
    else if c = C_STAR then max_expand (\<lambda>ms s. k ms s (ep + 1)) S P ms s p ep
    else if c = C_PLUS then
      (if m then max_expand (\<lambda>ms s. k ms s (ep + 1)) S P ms (s + 1) p ep else Inr (None, ms))
    else if c = C_MINUS then min_expand (\<lambda>ms s. k ms s (ep + 1)) S P ms s p ep
    else if m then k ms (s + 1) ep else Inr (None, ms))))"

definition frontier :: "bytes \<Rightarrow> bytes \<Rightarrow> nat \<Rightarrow> nat \<Rightarrow> nat \<Rightarrow> bool lres" where
  "frontier S P s p ep =
    sbind (if s = 0 then Inr 0 else sget S (s - 1)) (\<lambda>previous.
    sbind (matchbracketclass previous P p (ep - 1)) (\<lambda>b1.
    if b1 then Inr False
    else sbind (sget S s) (\<lambda>c. matchbracketclass c P p (ep - 1))))"

text \<open>What the matcher's recursion rests on: the rest of a pattern begins after the item.\<close>

lemma classend_set_bounds: "classend_set P p = Inr ep \<Longrightarrow> p < ep \<and> ep \<le> length P"
proof (induction P p rule: classend_set.induct)
  case (1 P p)
  define q where "q c = (if c = L_ESC then sbind (sget P (p + 1)) (\<lambda>d. Inr (if d \<noteq> 0 then p + 2 else p + 1))
             else Inr (p + 1))" for c
  obtain c p' e where c: "sget P p = Inr c" "c \<noteq> 0" "q c = Inr p'" "sget P p' = Inr e"
      "(if e = C_RBR then Inr (p' + 1) else classend_set P p') = Inr ep"
    using "1.prems" by (subst (asm) classend_set.simps) (auto simp: sbind_eq_Inr_iff q_def [symmetric] split: if_splits)
  have p': "p < p'" using c(3) by (auto simp: q_def sbind_eq_Inr_iff split: if_splits)
  show ?case
  proof (cases "e = C_RBR")
    case True
    with c(4,5) p' sget_less [of P p' e] show ?thesis by auto
  next
    case False
    with "1.IH" [OF c(1,2) c(3) [unfolded q_def] c(4) False] c(5) p' show ?thesis by simp
  qed
qed

lemma classend_bounds: "classend P p = Inr ep \<Longrightarrow> ep \<le> Suc (length P) \<and> p < ep \<and> p \<le> length P
    \<and> ((\<exists>c. sget P p = Inr c \<and> c \<noteq> 0) \<longrightarrow> ep \<le> length P)"
  by (auto simp: classend_def sbind_eq_Inr_iff split: if_splits
      dest: sget_less sget_le dest!: classend_set_bounds)

lemma match_item_cong [fundef_cong]:
  assumes "S = S'" "P = P'" "ms = ms'" "s = s'" "p = p'"
    and k: "\<And>ms s q. p' < q \<Longrightarrow> p' \<le> length P' \<Longrightarrow> k ms s q = k' ms s q"
  shows "match_item k S P ms s p = match_item k' S' P' ms' s' p'"
proof -
  have eq: "k ms s ep = k' ms s ep" "(\<lambda>ms s. k ms s (ep + 1)) = (\<lambda>ms s. k' ms s (ep + 1))"
    if "classend P' p' = Inr ep" for ep ms s
    using classend_bounds [OF that] k by auto
  show ?thesis
    unfolding match_item_def assms(1-5)
    by (intro sbind_cong refl) (auto dest: eq intro!: sbind_cong split: option.splits simp: fun_eq_iff)
qed

function match :: "bytes \<Rightarrow> bytes \<Rightarrow> MatchState \<Rightarrow> nat \<Rightarrow> nat \<Rightarrow> mres" where
  "match S P ms s p =
    sbind (sget P p) (\<lambda>c.
    if c = C_LPAR then
      sbind (sget P (p + 1)) (\<lambda>d.
        if d = C_RPAR then start_capture (\<lambda>ms s. match S P ms s (p + 2)) ms s CAP_POSITION
        else start_capture (\<lambda>ms s. match S P ms s (p + 1)) ms s CAP_UNFINISHED)
    else if c = C_RPAR then end_capture (\<lambda>ms s. match S P ms s (p + 1)) ms s
    else if c = L_ESC then
      sbind (sget P (p + 1)) (\<lambda>d.
        if d = 98 then
          sbind (matchbalance S P s (p + 2)) (\<lambda>r.
            case r of None \<Rightarrow> Inr (None, ms) | Some s' \<Rightarrow> match S P ms s' (p + 4))
        else if d = 102 then
          sbind (sget P (p + 2)) (\<lambda>x.
          if x \<noteq> C_LBR then raise ''missing '[' after '%f' in pattern''
          else sbind (classend P (p + 2)) (\<lambda>ep.
          sbind (frontier S P s (p + 2) ep) (\<lambda>b.
          if b then match S P ms s ep else Inr (None, ms))))
        else if isdigit d then
          sbind (match_capture S ms s d) (\<lambda>r.
            case r of None \<Rightarrow> Inr (None, ms) | Some s' \<Rightarrow> match S P ms s' (p + 2))
        else match_item (match S P) S P ms s p)
    else if c = 0 then Inr (Some s, ms)
    else if c = C_DOLLAR then
      sbind (sget P (p + 1)) (\<lambda>d.
        if d = 0 then Inr (if s = length S then Some s else None, ms)
        else match_item (match S P) S P ms s p)
    else match_item (match S P) S P ms s p)"
  by pat_completeness auto
termination
  by (relation "measure (\<lambda>(S, P, ms, s, p). Suc (length P) - p)") (auto dest: sget_le classend_bounds)

declare match.simps [simp del]

section \<open>What a pattern matches\<close>

text \<open>
  The relation the matcher searches: from position \<open>s\<close> of the source and \<open>p\<close> of the pattern, with
  the captures \<open>C\<close> open or closed so far, the rest of the pattern matches up to \<open>e\<close> and leaves the
  captures \<open>C'\<close>. It says nothing about the order in which the matcher tries the possibilities.
\<close>

type_synonym caps = "(nat \<times> int) list"

definition caps_of :: "MatchState \<Rightarrow> caps" where
  "caps_of ms = take (level ms) (capture ms)"

text \<open>The suffixes of an item, and how often they let it repeat.\<close>

definition is_rep :: "byte \<Rightarrow> bool" where
  "is_rep c = (c = C_OPT \<or> c = C_STAR \<or> c = C_PLUS \<or> c = C_MINUS)"

definition reps :: "byte \<Rightarrow> nat \<Rightarrow> bool" where
  "reps c i = (if c = C_OPT then i \<le> 1 else if c = C_STAR \<or> c = C_MINUS then True
     else if c = C_PLUS then 1 \<le> i else i = 1)"

definition run :: "bytes \<Rightarrow> bytes \<Rightarrow> nat \<Rightarrow> nat \<Rightarrow> nat \<Rightarrow> nat \<Rightarrow> bool" where
  "run S P p ep s i = (\<forall>j < i. single_at S P p ep (s + j) = Inr True)"

definition is_item :: "bytes \<Rightarrow> nat \<Rightarrow> bool" where
  "is_item P p = (\<exists>c. sget P p = Inr c \<and> c \<notin> {0, C_LPAR, C_RPAR}
     \<and> (c = L_ESC \<longrightarrow> (\<exists>d. sget P (p + 1) = Inr d \<and> d \<notin> {98, 102} \<and> \<not> isdigit d))
     \<and> (c = C_DOLLAR \<longrightarrow> sget P (p + 1) \<noteq> Inr 0))"

text \<open>The last capture that is open.\<close>

definition to_close :: "caps \<Rightarrow> nat \<Rightarrow> bool" where
  "to_close C l = (l < length C \<and> snd (C ! l) = CAP_UNFINISHED
     \<and> (\<forall>j < length C. l < j \<longrightarrow> snd (C ! j) \<noteq> CAP_UNFINISHED))"

inductive matches :: "bytes \<Rightarrow> bytes \<Rightarrow> nat \<Rightarrow> nat \<Rightarrow> caps \<Rightarrow> nat \<Rightarrow> caps \<Rightarrow> bool" for S P where
  m_end: "sget P p = Inr 0 \<Longrightarrow> matches S P s p C s C"
| m_eos: "sget P p = Inr C_DOLLAR \<Longrightarrow> sget P (p + 1) = Inr 0 \<Longrightarrow> s = length S \<Longrightarrow> matches S P s p C s C"
| m_open: "sget P p = Inr C_LPAR \<Longrightarrow> sget P (p + 1) \<noteq> Inr C_RPAR \<Longrightarrow>
    matches S P s (p + 1) (C @ [(s, CAP_UNFINISHED)]) e C' \<Longrightarrow> matches S P s p C e C'"
| m_pos: "sget P p = Inr C_LPAR \<Longrightarrow> sget P (p + 1) = Inr C_RPAR \<Longrightarrow>
    matches S P s (p + 2) (C @ [(s, CAP_POSITION)]) e C' \<Longrightarrow> matches S P s p C e C'"
| m_close: "sget P p = Inr C_RPAR \<Longrightarrow> to_close C l \<Longrightarrow>
    matches S P s (p + 1) (C[l := (fst (C ! l), int s - int (fst (C ! l)))]) e C' \<Longrightarrow> matches S P s p C e C'"
| m_balance: "sget P p = Inr L_ESC \<Longrightarrow> sget P (p + 1) = Inr 98 \<Longrightarrow> matchbalance S P s (p + 2) = Inr (Some s') \<Longrightarrow>
    matches S P s' (p + 4) C e C' \<Longrightarrow> matches S P s p C e C'"
| m_frontier: "sget P p = Inr L_ESC \<Longrightarrow> sget P (p + 1) = Inr 102 \<Longrightarrow> classend P (p + 2) = Inr ep \<Longrightarrow>
    frontier S P s (p + 2) ep = Inr True \<Longrightarrow> matches S P s ep C e C' \<Longrightarrow> matches S P s p C e C'"
| m_back: "sget P p = Inr L_ESC \<Longrightarrow> sget P (p + 1) = Inr d \<Longrightarrow> isdigit d \<Longrightarrow>
    unat d = i + 49 \<Longrightarrow> i < length C \<Longrightarrow> C ! i = (init, int n) \<Longrightarrow> s + n \<le> length S \<Longrightarrow>
    take n (drop s S) = take n (drop init S) \<Longrightarrow> matches S P (s + n) (p + 2) C e C' \<Longrightarrow> matches S P s p C e C'"
| m_item: "is_item P p \<Longrightarrow> classend P p = Inr ep \<Longrightarrow> sget P ep = Inr c \<Longrightarrow> reps c i \<Longrightarrow> run S P p ep s i \<Longrightarrow>
    matches S P (s + i) (if is_rep c then ep + 1 else ep) C e C' \<Longrightarrow> matches S P s p C e C'"

section \<open>Reads are in range\<close>

lemma sget_nonzero: "p < length P \<Longrightarrow> sget P p = Inr (P ! p)"
  by (rule sget_in)

lemma classend_set_no_fault: "p \<le> length P \<Longrightarrow> no_fault (classend_set P p)"
proof (induction P p rule: classend_set.induct)
  case (1 P p)
  define q where "q c = (if c = L_ESC then sbind (sget P (p + 1)) (\<lambda>d. Inr (if d \<noteq> 0 then p + 2 else p + 1))
             else Inr (p + 1))" for c
  have q: "no_fault (q c) \<and> (\<forall>p'. q c = Inr p' \<longrightarrow> p' \<le> length P)" if "sget P p = Inr c" "c \<noteq> 0" for c
    using sget_less [OF that] sget_less [of P "p + 1"]
    by (auto simp: q_def sbind_eq_Inr_iff intro!: no_fault_sbind)
  have "no_fault (sbind (sget P p) (\<lambda>c. if c = 0 then raise ''malformed pattern (missing ']')''
    else sbind (q c) (\<lambda>p'. sbind (sget P p') (\<lambda>e. if e = C_RBR then Inr (p' + 1) else classend_set P p'))))"
  proof (rule no_fault_sbind)
    fix c
    assume c: "sget P p = Inr c"
    have "no_fault (sbind (q c) (\<lambda>p'. sbind (sget P p') (\<lambda>e. if e = C_RBR then Inr (p' + 1) else classend_set P p')))" if "c \<noteq> 0"
    proof (intro no_fault_sbind)
      fix p' e
      assume p': "q c = Inr p'" and e: "sget P p' = Inr e"
      show "no_fault (if e = C_RBR then Inr (p' + 1) else classend_set P p')"
        using "1.IH" [OF c that p' [unfolded q_def] e] q [OF c that] p' by simp
    qed (use q [OF c that] in auto)
    then show "no_fault (if c = 0 then raise ''malformed pattern (missing ']')''
      else sbind (q c) (\<lambda>p'. sbind (sget P p') (\<lambda>e. if e = C_RBR then Inr (p' + 1) else classend_set P p')))"
      by simp
  qed (use "1.prems" in simp)
  then show ?case unfolding classend_set.simps [of P p] q_def .
qed

lemma classend_no_fault: "sget P p = Inr c \<Longrightarrow> c \<noteq> 0 \<Longrightarrow> no_fault (classend P p)"
  using sget_less [of P p c]
  by (auto simp: classend_def Suc_le_eq intro!: no_fault_sbind classend_set_no_fault dest: sget_less)

lemma bracket_loop_no_fault: "ec \<le> length P \<Longrightarrow> no_fault (bracket_loop c P sig p ec)"
proof (induction c P sig p ec rule: bracket_loop.induct)
  case (1 c P sig p ec)
  then show ?case
    by (subst bracket_loop.simps) (auto intro!: no_fault_sbind)
qed

lemma matchbracketclass_no_fault: "p < length P \<Longrightarrow> ec \<le> length P \<Longrightarrow> no_fault (matchbracketclass c P p ec)"
  by (auto simp: matchbracketclass_def intro!: no_fault_sbind bracket_loop_no_fault)

lemma singlematch_no_fault: "p < length P \<Longrightarrow> ep \<le> Suc (length P) \<Longrightarrow> no_fault (singlematch c P p ep)"
  by (auto simp: singlematch_def intro!: no_fault_sbind matchbracketclass_no_fault)

lemma single_at_no_fault: "p < length P \<Longrightarrow> ep \<le> Suc (length P) \<Longrightarrow> no_fault (single_at S P p ep s)"
  by (auto simp: single_at_def intro!: no_fault_sbind singlematch_no_fault)

lemma frontier_no_fault:
  "p < length P \<Longrightarrow> ep \<le> Suc (length P) \<Longrightarrow> s \<le> length S \<Longrightarrow> no_fault (frontier S P s p ep)"
  by (auto simp: frontier_def intro!: no_fault_sbind matchbracketclass_no_fault)

lemma balance_loop_ok: "no_fault (balance_loop S b e cont s)"
proof (induction S b e cont s rule: balance_loop.induct)
  case (1 S b e cont s)
  then show ?case by (subst balance_loop.simps) (auto intro!: no_fault_sbind)
qed

lemma balance_loop_bounds: "balance_loop S b e cont s = Inr (Some s') \<Longrightarrow> s < s' \<and> s' \<le> length S"
proof (induction S b e cont s rule: balance_loop.induct)
  case (1 S b e cont s)
  have "s + 1 < length S"
    using "1.prems" by (subst (asm) balance_loop.simps) (simp split: if_splits)
  moreover from this obtain c where c: "sget S (s + 1) = Inr c" using sget_ok [of "s + 1" S] by auto
  ultimately have "(if c = e then (if cont - 1 = 0 then Inr (Some (s + 2)) else balance_loop S b e (cont - 1) (s + 1))
       else if c = b then balance_loop S b e (cont + 1) (s + 1)
       else balance_loop S b e cont (s + 1)) = Inr (Some s')"
    using "1.prems" by (subst (asm) balance_loop.simps) simp
  then show ?case
    using "1.IH" [OF \<open>s + 1 < length S\<close> c] \<open>s + 1 < length S\<close>
    by (auto split: if_splits)
qed

lemma matchbalance_no_fault: "p \<le> length P \<Longrightarrow> s \<le> length S \<Longrightarrow> no_fault (matchbalance S P s p)"
  by (cases "p < length P") (auto simp: matchbalance_def intro!: no_fault_sbind balance_loop_ok)

lemma matchbalance_bounds:
  "matchbalance S P s p = Inr (Some s') \<Longrightarrow> s < s' \<and> s' \<le> length S \<and> p + 2 \<le> length P"
  by (auto simp: matchbalance_def sbind_eq_Inr_iff split: if_splits dest!: balance_loop_bounds dest: sget_less)

section \<open>States within the source\<close>

definition cap_ok :: "nat \<Rightarrow> nat \<times> int \<Rightarrow> bool" where
  "cap_ok s c = (fst c \<le> s \<and> (snd c = CAP_UNFINISHED \<or> snd c = CAP_POSITION \<or>
     0 \<le> snd c \<and> int (fst c) + snd c \<le> int s))"

definition good :: "bytes \<Rightarrow> MatchState \<Rightarrow> nat \<Rightarrow> bool" where
  "good S ms s = (length (capture ms) = LUA_MAXCAPTURES \<and> level ms \<le> LUA_MAXCAPTURES \<and> s \<le> length S
     \<and> length S < 2 ^ 63 \<and> (\<forall>j < level ms. cap_ok s (capture ms ! j)))"

lemma cap_ok_mono: "cap_ok s c \<Longrightarrow> s \<le> t \<Longrightarrow> cap_ok t c"
  by (auto simp: cap_ok_def)

lemma length_caps_of: "good S ms s \<Longrightarrow> length (caps_of ms) = level ms"
  by (simp add: good_def caps_of_def)

lemma caps_of_nth: "j < level ms \<Longrightarrow> caps_of ms ! j = capture ms ! j"
  by (simp add: caps_of_def)

lemma good_mono: "good S ms s \<Longrightarrow> s \<le> t \<Longrightarrow> t \<le> length S \<Longrightarrow> good S ms t"
  by (auto simp: good_def intro: cap_ok_mono)

text \<open>What goodness says of the captures depends on the captures in use only.\<close>

lemma good_same_caps:
  assumes "good S ms s" "caps_of ms' = caps_of ms" "good S ms' t"
  shows "good S ms' s" "level ms' = level ms"
proof -
  show l: "level ms' = level ms"
    using assms length_caps_of by metis
  have "capture ms' ! j = capture ms ! j" if "j < level ms" for j
    using that assms(2) l caps_of_nth by metis
  then show "good S ms' s" using assms(1,3) l by (simp add: good_def)
qed

text \<open>
  The contract of a matching step that starts at \<open>s\<close> with state \<open>ms\<close>: no fault; when it fails
  the captures are as before and nothing in \<open>M\<close> is possible; when it succeeds the end is in the
  source and in \<open>M\<close>.
\<close>

definition okr :: "bytes \<Rightarrow> nat \<Rightarrow> (nat \<Rightarrow> caps \<Rightarrow> bool) \<Rightarrow> MatchState \<Rightarrow> mres \<Rightarrow> bool" where
  "okr S s M ms r = (case r of
      Inl e \<Rightarrow> no_fault r
    | Inr (None, ms') \<Rightarrow> good S ms' s \<and> caps_of ms' = caps_of ms \<and> (\<forall>e C. \<not> M e C)
    | Inr (Some e, ms') \<Rightarrow> good S ms' e \<and> s \<le> e \<and> M e (caps_of ms'))"

lemma okr_simps [simp]:
  "okr S s M ms (raise msg)"
  "okr S s M ms (Inr (None, ms')) \<longleftrightarrow> good S ms' s \<and> caps_of ms' = caps_of ms \<and> (\<forall>e C. \<not> M e C)"
  "okr S s M ms (Inr (Some e, ms')) \<longleftrightarrow> good S ms' e \<and> s \<le> e \<and> M e (caps_of ms')"
  "\<not> okr S s M ms (Inl (CFault f))"
  by (simp_all add: okr_def)

lemma okr_sbind:
  assumes "no_fault m" "\<And>a. m = Inr a \<Longrightarrow> okr S s M ms (f a)"
  shows "okr S s M ms (sbind m f)"
proof (cases m)
  case (Inl e)
  then show ?thesis using assms(1) by (cases e) simp_all
qed (use assms(2) in simp)

lemma okr_imp:
  assumes "okr S s M ms r" "\<And>e C. M e C \<longleftrightarrow> M' e C"
  shows "okr S s M' ms r"
proof -
  have "M = M'" using assms(2) by (intro ext)
  with assms(1) show ?thesis by simp
qed

text \<open>A step that starts further on; an alternative after a step that failed.\<close>

lemma okr_later:
  assumes "okr S t M ms r" "good S ms s" "s \<le> t"
  shows "okr S s M ms r"
  using assms good_same_caps (1) [OF assms(2)] by (auto simp: okr_def split: sum.splits option.splits)

lemma okr_else:
  assumes r: "okr S s M1 ms r" and g: "good S ms s"
    and f: "\<And>ms'. good S ms' s \<Longrightarrow> caps_of ms' = caps_of ms \<Longrightarrow> okr S s M2 ms (f ms')"
  shows "okr S s (\<lambda>e C. M1 e C \<or> M2 e C) ms
    (sbind r (\<lambda>(x, ms'). case x of Some e \<Rightarrow> Inr (Some e, ms') | None \<Rightarrow> f ms'))"
proof (cases r)
  case (Inl e)
  then show ?thesis using r by (cases e) simp_all
next
  case (Inr y)
  obtain x ms' where y: "y = (x, ms')" by (cases y)
  show ?thesis
  proof (cases x)
    case None
    have n: "good S ms' s" "caps_of ms' = caps_of ms" "\<forall>e C. \<not> M1 e C" using r Inr y None by simp_all
    show ?thesis
      using okr_imp [OF f [OF n(1,2)], of "\<lambda>e C. M1 e C \<or> M2 e C"] n(3) Inr y None by simp
  qed (use r Inr y in simp)
qed

lemma okr_same: "okr S s M ms r \<Longrightarrow> caps_of ms = caps_of ms0 \<Longrightarrow> okr S s M ms0 r"
  by (auto simp: okr_def split: sum.splits option.splits prod.splits)

text \<open>A continuation that matches the pattern from \<open>q\<close> on.\<close>

definition rest_ok :: "bytes \<Rightarrow> bytes \<Rightarrow> nat \<Rightarrow> (MatchState \<Rightarrow> nat \<Rightarrow> mres) \<Rightarrow> bool" where
  "rest_ok S P q k = (\<forall>ms s. good S ms s \<longrightarrow> okr S s (matches S P s q (caps_of ms)) ms (k ms s))"

lemma rest_okD: "rest_ok S P q k \<Longrightarrow> good S ms s \<Longrightarrow> okr S s (matches S P s q (caps_of ms)) ms (k ms s)"
  by (simp add: rest_ok_def)

lemma rest_ok_at:
  assumes "rest_ok S P q k" "good S ms s" "s \<le> t" "t \<le> length S" "caps_of ms = caps_of ms0"
  shows "okr S s (matches S P t q (caps_of ms0)) ms0 (k ms t)"
proof -
  have "okr S t (matches S P t q (caps_of ms)) ms (k ms t)"
    by (rule rest_okD [OF assms(1) good_mono [OF assms(2,3,4)]])
  then show ?thesis
    using okr_later [OF _ assms(2,3)] assms(5) by (auto intro: okr_same)
qed

lemma count_down_ok:
  assumes k: "rest_ok S P q k"
  shows "good S ms s \<Longrightarrow> s + i \<le> length S \<Longrightarrow> caps_of ms = caps_of ms0 \<Longrightarrow>
    okr S s (\<lambda>e C. \<exists>j \<le> i. matches S P (s + j) q (caps_of ms0) e C) ms0 (count_down k ms s i)"
proof (induction i arbitrary: ms)
  case 0
  then show ?case using rest_ok_at [OF k, of ms s s ms0] by simp
next
  case (Suc i)
  have A: "okr S s (\<lambda>e C. matches S P (s + Suc i) q (caps_of ms0) e C \<or> (\<exists>j \<le> i. matches S P (s + j) q (caps_of ms0) e C)) ms0
      (sbind (k ms (s + Suc i)) (\<lambda>(x, ms'). case x of Some e \<Rightarrow> Inr (Some e, ms') | None \<Rightarrow> count_down k ms' s i))"
  proof (rule okr_same [OF okr_else])
    show "okr S s (matches S P (s + Suc i) q (caps_of ms0)) ms (k ms (s + Suc i))"
      using rest_ok_at [OF k Suc.prems(1) _ Suc.prems(2) refl] Suc.prems(3) by simp
    show "good S ms s" "caps_of ms = caps_of ms0" by fact+
    fix ms'
    assume "good S ms' s" "caps_of ms' = caps_of ms"
    then show "okr S s (\<lambda>e C. \<exists>j \<le> i. matches S P (s + j) q (caps_of ms0) e C) ms (count_down k ms' s i)"
      using Suc.IH [of ms'] Suc.prems by (auto intro: okr_same)
  qed
  have eqv: "(\<exists>j \<le> Suc i. matches S P (s + j) q (caps_of ms0) e C) \<longleftrightarrow>
      matches S P (s + Suc i) q (caps_of ms0) e C \<or> (\<exists>j \<le> i. matches S P (s + j) q (caps_of ms0) e C)" for e C
    by (auto simp: le_Suc_eq)
  show ?case unfolding count_down.simps by (rule okr_imp [OF A]) (simp only: eqv)
qed

lemma single_at_less: "single_at S P p ep s = Inr True \<Longrightarrow> s < length S"
  by (simp add: single_at_def split: if_splits)

lemma run_0 [simp]: "run S P p ep s 0"
  by (simp add: run_def)

lemma run_Suc: "run S P p ep s (Suc i) \<longleftrightarrow> single_at S P p ep s = Inr True \<and> run S P p ep (Suc s) i"
  by (auto simp: run_def less_Suc_eq_0_disj)

lemma run_bound: "run S P p ep s i \<Longrightarrow> s \<le> length S \<Longrightarrow> s + i \<le> length S"
  by (cases i) (auto simp: run_def dest!: spec [of _ "i - 1"] dest: single_at_less)

lemma count_up_ok:
  assumes "p < length P" "ep \<le> Suc (length P)"
  shows "no_fault (count_up S P p ep s i)"
    and "count_up S P p ep s i = Inr n \<Longrightarrow> run S P p ep s i \<Longrightarrow>
      i \<le> n \<and> run S P p ep s n \<and> single_at S P p ep (s + n) = Inr False"
  using assms
proof (induction S P p ep s i rule: count_up.induct)
  case (1 S P p ep s i)
  {
    case 1
    have "no_fault (if m then count_up S P p ep s (i + 1) else Inr i)" if "single_at S P p ep (s + i) = Inr m" for m
      using "1.IH" (1) [OF that] 1 by simp
    then show ?case
      by (subst count_up.simps) (rule no_fault_sbind [OF single_at_no_fault [OF 1]])
  next
    case 2
    obtain m where m: "single_at S P p ep (s + i) = Inr m" "(if m then count_up S P p ep s (i + 1) else Inr i) = Inr n"
      using 2(1) by (subst (asm) count_up.simps) (auto simp: sbind_eq_Inr_iff)
    show ?case
    proof (cases m)
      case True
      then have "run S P p ep s (i + 1)" using m(1) 2(2) by (auto simp: run_def less_Suc_eq)
      then show ?thesis using "1.IH" (2) [OF m(1)] True m(2) 2 by auto
    qed (use m 2 in auto)
  }
qed

lemma run_le: "run S P p ep s n \<Longrightarrow> single_at S P p ep (s + n) = Inr False \<Longrightarrow> run S P p ep s i \<longleftrightarrow> i \<le> n"
  unfolding run_def by (metis Inr_inject le_less_trans linorder_le_cases nle_le order_le_less)

lemma max_expand_ok:
  assumes k: "rest_ok S P q k" and p: "p < length P" "ep \<le> Suc (length P)"
    and g: "good S ms s"
  shows "okr S s (\<lambda>e C. \<exists>j. run S P p ep s j \<and> matches S P (s + j) q (caps_of ms) e C) ms (max_expand k S P ms s p ep)"
  unfolding max_expand_def
proof (rule okr_sbind)
  show "no_fault (count_up S P p ep s 0)" by (rule count_up_ok (1) [OF p])
  fix n
  assume "count_up S P p ep s 0 = Inr n"
  from count_up_ok (2) [OF p this] have n: "run S P p ep s n" "single_at S P p ep (s + n) = Inr False" by simp_all
  have b: "s + n \<le> length S" using run_bound [OF n(1)] g by (simp add: good_def)
  show "okr S s (\<lambda>e C. \<exists>j. run S P p ep s j \<and> matches S P (s + j) q (caps_of ms) e C) ms (count_down k ms s n)"
    using count_down_ok [OF k g b refl] by (simp add: run_le [OF n])
qed

lemma min_expand_ok:
  assumes k: "rest_ok S P q k" and p: "p < length P" "ep \<le> Suc (length P)"
  shows "good S ms s \<Longrightarrow> caps_of ms = caps_of ms0 \<Longrightarrow>
    okr S s (\<lambda>e C. \<exists>j. run S P p ep s j \<and> matches S P (s + j) q (caps_of ms0) e C) ms0 (min_expand k S P ms s p ep)"
proof (induction "length S - s" arbitrary: s ms rule: less_induct)
  case less
  define M2 where "M2 e C \<longleftrightarrow> (\<exists>j. run S P p ep s (Suc j) \<and> matches S P (s + Suc j) q (caps_of ms0) e C)" for e C
  define f where "f ms' = sbind (single_at S P p ep s) (\<lambda>m.
          if m then min_expand k S P ms' (s + 1) p ep else Inr (None, ms'))" for ms'
  have "okr S s (\<lambda>e C. matches S P s q (caps_of ms0) e C \<or> M2 e C) ms
     (sbind (k ms s) (\<lambda>(x, ms'). case x of Some e \<Rightarrow> Inr (Some e, ms') | None \<Rightarrow> f ms'))"
  proof (rule okr_else)
    show "okr S s (matches S P s q (caps_of ms0)) ms (k ms s)"
      using rest_okD [OF k less.prems(1)] less.prems(2) by simp
    show "good S ms s" by fact
    fix ms'
    assume ms': "good S ms' s" "caps_of ms' = caps_of ms"
    show "okr S s M2 ms (f ms')"
      unfolding f_def
    proof (rule okr_sbind [OF single_at_no_fault [OF p]])
      fix m
      assume m: "single_at S P p ep s = Inr m"
      show "okr S s M2 ms (if m then min_expand k S P ms' (s + 1) p ep else Inr (None, ms'))"
      proof (cases m)
        case True
        have s: "s < length S" using m True single_at_less by simp
        have g: "good S ms' (s + 1)" using good_mono [OF ms'(1)] s by simp
        have "okr S (s + 1) (\<lambda>e C. \<exists>j. run S P p ep (s + 1) j \<and> matches S P (s + 1 + j) q (caps_of ms0) e C) ms0
            (min_expand k S P ms' (s + 1) p ep)"
          by (rule less.hyps [OF _ g]) (use s ms'(2) less.prems(2) in auto)
        moreover have M2: "(\<exists>j. run S P p ep (s + 1) j \<and> matches S P (s + 1 + j) q (caps_of ms0) e C) \<longleftrightarrow> M2 e C" for e C
          using m True by (simp add: M2_def run_Suc)
        ultimately have "okr S (s + 1) M2 ms (min_expand k S P ms' (s + 1) p ep)"
          using less.prems(2) by (intro okr_same [OF okr_imp [OF _ M2]]) simp_all
        then show ?thesis using okr_later [OF _ less.prems(1), of "s + 1"] True by simp
      next
        case False
        then show ?thesis using m ms' by (auto simp: M2_def run_Suc)
      qed
    qed
  qed
  then have *: "okr S s (\<lambda>e C. matches S P s q (caps_of ms0) e C \<or> M2 e C) ms0 (min_expand k S P ms s p ep)"
    using less.prems(2) unfolding f_def by (subst min_expand.simps) (rule okr_same)
  have "(\<exists>j. run S P p ep s j \<and> matches S P (s + j) q (caps_of ms0) e C) \<longleftrightarrow>
      matches S P s q (caps_of ms0) e C \<or> M2 e C" for e C
    unfolding M2_def by (metis add_0_right not0_implies_Suc run_0)
  with * show ?case by (elim okr_imp) simp
qed

section \<open>The relation, by the first character of the pattern\<close>

lemma matches_end: "sget P p = Inr 0 \<Longrightarrow> matches S P s p C e C' \<longleftrightarrow> e = s \<and> C' = C"
  by (subst matches.simps) (auto simp: is_item_def)

lemma matches_eos:
  "sget P p = Inr C_DOLLAR \<Longrightarrow> sget P (p + 1) = Inr 0 \<Longrightarrow> matches S P s p C e C' \<longleftrightarrow> s = length S \<and> e = s \<and> C' = C"
  by (subst matches.simps) (auto simp: is_item_def)

lemma matches_lpar:
  "sget P p = Inr C_LPAR \<Longrightarrow> sget P (p + 1) = Inr d \<Longrightarrow> matches S P s p C e C' \<longleftrightarrow>
    (if d = C_RPAR then matches S P s (p + 2) (C @ [(s, CAP_POSITION)]) e C'
     else matches S P s (p + 1) (C @ [(s, CAP_UNFINISHED)]) e C')"
  by (subst matches.simps) (auto simp: is_item_def)

lemma matches_rpar:
  "sget P p = Inr C_RPAR \<Longrightarrow> matches S P s p C e C' \<longleftrightarrow>
    (\<exists>l. to_close C l \<and> matches S P s (p + 1) (C[l := (fst (C ! l), int s - int (fst (C ! l)))]) e C')"
  by (subst matches.simps) (auto simp: is_item_def)

lemma matches_balance:
  "sget P p = Inr L_ESC \<Longrightarrow> sget P (p + 1) = Inr 98 \<Longrightarrow> matches S P s p C e C' \<longleftrightarrow>
    (\<exists>s'. matchbalance S P s (p + 2) = Inr (Some s') \<and> matches S P s' (p + 4) C e C')"
  by (subst matches.simps) (auto simp: is_item_def isdigit_def)

lemma matches_frontier:
  "sget P p = Inr L_ESC \<Longrightarrow> sget P (p + 1) = Inr 102 \<Longrightarrow> classend P (p + 2) = Inr ep \<Longrightarrow> matches S P s p C e C' \<longleftrightarrow>
    frontier S P s (p + 2) ep = Inr True \<and> matches S P s ep C e C'"
  by (subst matches.simps) (auto simp: is_item_def isdigit_def)

lemma matches_back:
  "sget P p = Inr L_ESC \<Longrightarrow> sget P (p + 1) = Inr d \<Longrightarrow> isdigit d \<Longrightarrow> matches S P s p C e C' \<longleftrightarrow>
    (\<exists>i init n. unat d = i + 49 \<and> i < length C \<and> C ! i = (init, int n) \<and> s + n \<le> length S \<and>
      take n (drop s S) = take n (drop init S) \<and> matches S P (s + n) (p + 2) C e C')"
  by (subst matches.simps) (auto simp: is_item_def isdigit_def)

lemma matches_item:
  assumes "is_item P p" "classend P p = Inr ep" "sget P ep = Inr c"
  shows "matches S P s p C e C' \<longleftrightarrow>
    (\<exists>i. reps c i \<and> run S P p ep s i \<and> matches S P (s + i) (if is_rep c then ep + 1 else ep) C e C')"
proof -
  obtain x where x: "sget P p = Inr x" "x \<notin> {0, C_LPAR, C_RPAR}"
    "x = L_ESC \<longrightarrow> (\<exists>d. sget P (p + 1) = Inr d \<and> d \<notin> {98, 102} \<and> \<not> isdigit d)"
    "x = C_DOLLAR \<longrightarrow> sget P (p + 1) \<noteq> Inr 0"
    using assms(1) by (auto simp: is_item_def)
  show ?thesis
  proof
    assume "matches S P s p C e C'"
    then show "\<exists>i. reps c i \<and> run S P p ep s i \<and> matches S P (s + i) (if is_rep c then ep + 1 else ep) C e C'"
    proof cases
      case (m_item ep' c' i)
      have "ep' = ep" using m_item(2) assms(2) by simp
      moreover from this have "c' = c" using m_item(3) assms(3) by simp
      ultimately show ?thesis using m_item(4-6) by blast
    qed (use x in auto)
  next
    assume "\<exists>i. reps c i \<and> run S P p ep s i \<and> matches S P (s + i) (if is_rep c then ep + 1 else ep) C e C'"
    then obtain i where "reps c i" "run S P p ep s i" "matches S P (s + i) (if is_rep c then ep + 1 else ep) C e C'"
      by blast
    then show "matches S P s p C e C'" by (rule matches.m_item [OF assms])
  qed
qed

section \<open>Each step keeps the contract\<close>

lemma is_item_less: "is_item P p \<Longrightarrow> p < length P"
  by (auto simp: is_item_def dest: sget_less)

lemma run_1: "run S P p ep s (Suc 0) \<longleftrightarrow> single_at S P p ep s = Inr True"
  using run_Suc [of S P p ep s 0] by simp

lemma match_item_ok:
  assumes item: "is_item P p" and g: "good S ms s"
    and k: "\<And>q. p < q \<Longrightarrow> q \<le> length P \<Longrightarrow> rest_ok S P q (\<lambda>ms s. k ms s q)"
  shows "okr S s (matches S P s p (caps_of ms)) ms (match_item k S P ms s p)"
  unfolding match_item_def
proof (intro okr_sbind)
  obtain x where x: "sget P p = Inr x" "x \<noteq> 0" using item by (auto simp: is_item_def)
  show "no_fault (classend P p)" by (rule classend_no_fault [OF x])
  fix ep
  assume ce: "classend P p = Inr ep"
  have p: "p < length P" by (rule is_item_less [OF item])
  have ep: "p < ep" "ep \<le> length P" using classend_bounds [OF ce] x by auto
  then have ep': "ep \<le> Suc (length P)" by simp
  show "no_fault (single_at S P p ep s)" by (rule single_at_no_fault [OF p ep'])
  show "no_fault (sget P ep)" using ep by simp
  fix m c
  assume m: "single_at S P p ep s = Inr m" and c: "sget P ep = Inr c"
  define M where "M e C \<longleftrightarrow> (\<exists>i. reps c i \<and> run S P p ep s i \<and>
      matches S P (s + i) (if is_rep c then ep + 1 else ep) (caps_of ms) e C)" for e C
  have M: "M e C \<longleftrightarrow> matches S P s p (caps_of ms) e C" for e C
    unfolding M_def matches_item [OF item ce c] ..
  have sl: "m \<Longrightarrow> s < length S" using m single_at_less by simp
  have next_ep: "ep + 1 \<le> length P" if "is_rep c"
    using that sget_less [OF c] by (auto simp: is_rep_def)
  have k1: "rest_ok S P (ep + 1) (\<lambda>ms s. k ms s (ep + 1))" if "is_rep c"
    using k [of "ep + 1"] next_ep [OF that] ep by simp
  have k0: "rest_ok S P ep (\<lambda>ms s. k ms s ep)" using k ep by simp
  have "okr S s M ms (if c = C_OPT then
      (if m then sbind (k ms (s + 1) (ep + 1)) (\<lambda>(r, ms').
         case r of Some e \<Rightarrow> Inr (Some e, ms') | None \<Rightarrow> k ms' s (ep + 1))
       else k ms s (ep + 1))
    else if c = C_STAR then max_expand (\<lambda>ms s. k ms s (ep + 1)) S P ms s p ep
    else if c = C_PLUS then
      (if m then max_expand (\<lambda>ms s. k ms s (ep + 1)) S P ms (s + 1) p ep else Inr (None, ms))
    else if c = C_MINUS then min_expand (\<lambda>ms s. k ms s (ep + 1)) S P ms s p ep
    else if m then k ms (s + 1) ep else Inr (None, ms))"
  proof -
    consider (opt) "c = C_OPT" | (star) "c = C_STAR" | (plus) "c = C_PLUS" | (minus) "c = C_MINUS"
      | (one) "\<not> is_rep c" by (auto simp: is_rep_def)
    then show ?thesis
    proof cases
      case opt
      have r: "is_rep c" by (simp add: is_rep_def opt)
      have le1: "(\<exists>i. i \<le> Suc 0 \<and> Q i) \<longleftrightarrow> Q 0 \<or> Q (Suc 0)" for Q by (auto simp: le_Suc_eq)
      have MO: "M e C \<longleftrightarrow> (m \<and> matches S P (s + 1) (ep + 1) (caps_of ms) e C) \<or> matches S P s (ep + 1) (caps_of ms) e C" for e C
        unfolding M_def by (simp add: opt reps_def is_rep_def le1 run_1 m) blast
      have rest: "okr S s (matches S P s (ep + 1) (caps_of ms)) ms (k ms' s (ep + 1))"
        if "good S ms' s" "caps_of ms' = caps_of ms" for ms'
        using okr_same [OF rest_okD [OF k1 [OF r] that(1)]] that(2) by simp
      show ?thesis
      proof (cases m)
        case True
        have "okr S s (\<lambda>e C. matches S P (s + 1) (ep + 1) (caps_of ms) e C \<or> matches S P s (ep + 1) (caps_of ms) e C) ms
            (sbind (k ms (s + 1) (ep + 1)) (\<lambda>(r, ms').
               case r of Some e \<Rightarrow> Inr (Some e, ms') | None \<Rightarrow> k ms' s (ep + 1)))"
          by (rule okr_else [OF rest_ok_at [OF k1 [OF r] g] g rest]) (use sl [OF True] in auto)
        with True opt show ?thesis by (auto intro!: okr_imp [OF _ MO [symmetric]])
      next
        case False
        have "M e C \<longleftrightarrow> matches S P s (ep + 1) (caps_of ms) e C" for e C using MO False by simp
        with rest [OF g refl] False opt show ?thesis by (auto intro: okr_imp)
      qed
    next
      case star
      then have "is_rep c" by (simp add: is_rep_def)
      from max_expand_ok [OF k1 [OF this] p ep' g] star show ?thesis
        by (auto simp: M_def reps_def is_rep_def elim!: okr_imp)
    next
      case plus
      have r: "is_rep c" by (simp add: is_rep_def plus)
      have MP: "M e C \<longleftrightarrow> (\<exists>j. m \<and> run S P p ep (s + 1) j \<and> matches S P (s + 1 + j) (ep + 1) (caps_of ms) e C)" for e C
      proof -
        have "(\<exists>i. (1::nat) \<le> i \<and> Q i) \<longleftrightarrow> (\<exists>j. Q (Suc j))" for Q by (metis Suc_le_D Suc_le_mono le0 One_nat_def)
        then show ?thesis unfolding M_def by (simp add: plus reps_def is_rep_def run_Suc m)
      qed
      show ?thesis
      proof (cases m)
        case True
        have "good S ms (s + 1)" using good_mono [OF g] sl [OF True] by simp
        from okr_later [OF max_expand_ok [OF k1 [OF r] p ep' this] g] True plus show ?thesis
          by (auto simp: MP elim!: okr_imp)
      next
        case False
        then show ?thesis using plus g by (simp add: MP)
      qed
    next
      case minus
      then have "is_rep c" by (simp add: is_rep_def)
      from min_expand_ok [OF k1 [OF this] p ep' g refl] minus show ?thesis
        by (auto simp: M_def reps_def is_rep_def elim!: okr_imp)
    next
      case one
      then have c1: "c \<noteq> C_OPT" "c \<noteq> C_STAR" "c \<noteq> C_PLUS" "c \<noteq> C_MINUS" by (auto simp: is_rep_def)
      have M1: "M e C \<longleftrightarrow> m \<and> matches S P (s + 1) ep (caps_of ms) e C" for e C
        using one c1 by (simp add: M_def reps_def run_1 m)
      show ?thesis
      proof (cases m)
        case True
        with rest_ok_at [OF k0 g _ _ refl, of "s + 1"] sl c1 M1 show ?thesis by (auto elim!: okr_imp)
      next
        case False
        then show ?thesis using c1 g M1 by simp
      qed
    qed
  qed
  then show "okr S s (matches S P s p (caps_of ms)) ms (if c = C_OPT then
      (if m then sbind (k ms (s + 1) (ep + 1)) (\<lambda>(r, ms').
         case r of None \<Rightarrow> k ms' s (ep + 1) | Some e \<Rightarrow> Inr (Some e, ms'))
       else k ms s (ep + 1))
    else if c = C_STAR then max_expand (\<lambda>ms s. k ms s (ep + 1)) S P ms s p ep
    else if c = C_PLUS then
      (if m then max_expand (\<lambda>ms s. k ms s (ep + 1)) S P ms (s + 1) p ep else Inr (None, ms))
    else if c = C_MINUS then min_expand (\<lambda>ms s. k ms s (ep + 1)) S P ms s p ep
    else if m then k ms (s + 1) ep else Inr (None, ms))"
    by (rule okr_imp) (rule M)
qed

lemma caps_of_push:
  assumes "good S ms s" "level ms < LUA_MAXCAPTURES"
  shows "caps_of (ms\<lparr>capture := (capture ms)[level ms := x], level := level ms + 1\<rparr>) = caps_of ms @ [x]"
  using assms by (simp add: caps_of_def good_def take_Suc_conv_app_nth)

lemma good_push:
  assumes "good S ms s" "level ms < LUA_MAXCAPTURES" "cap_ok s x"
  shows "good S (ms\<lparr>capture := (capture ms)[level ms := x], level := level ms + 1\<rparr>) s"
  using assms by (auto simp: good_def nth_list_update less_Suc_eq)

lemma good_update:
  assumes "good S ms s" "cap_ok s x"
  shows "good S (ms\<lparr>capture := (capture ms)[l := x]\<rparr>) s"
proof -
  have "cap_ok s ((capture ms)[l := x] ! j)" if "j < level ms" for j
    using that assms by (cases "l < length (capture ms)") (auto simp: good_def nth_list_update list_update_beyond)
  then show ?thesis using assms(1) by (simp add: good_def)
qed

lemma start_capture_ok:
  assumes k: "rest_ok S P q k" and g: "good S ms s" and w: "what = CAP_UNFINISHED \<or> what = CAP_POSITION"
  shows "okr S s (matches S P s q (caps_of ms @ [(s, what)])) ms (start_capture k ms s what)"
proof (cases "level ms \<ge> LUA_MAXCAPTURES")
  case True
  then show ?thesis by (simp add: start_capture_def)
next
  case False
  then have l: "level ms < LUA_MAXCAPTURES" "level ms < length (capture ms)" using g by (simp_all add: good_def)
  define ms1 where "ms1 = ms\<lparr>capture := (capture ms)[level ms := (s, what)], level := level ms + 1\<rparr>"
  have c: "cap_ok s (s, what)" using w by (auto simp: cap_ok_def)
  have g1: "good S ms1 s" unfolding ms1_def by (rule good_push [OF g l(1) c])
  have c1: "caps_of ms1 = caps_of ms @ [(s, what)]" unfolding ms1_def by (rule caps_of_push [OF g l(1)])
  have r: "okr S s (matches S P s q (caps_of ms @ [(s, what)])) ms1 (k ms1 s)"
    using rest_okD [OF k g1] c1 by simp
  have eq: "start_capture k ms s what = sbind (k ms1 s) (\<lambda>(r, ms').
      case r of Some e \<Rightarrow> Inr (Some e, ms') | None \<Rightarrow> Inr (None, ms'\<lparr>level := level ms' - 1\<rparr>))"
    using l by (simp add: start_capture_def ms1_def)
  show ?thesis
  proof (cases "k ms1 s")
    case (Inl e)
    then show ?thesis using r eq by (cases e) simp_all
  next
    case (Inr y)
    obtain x ms' where y: "y = (x, ms')" by (cases y)
    show ?thesis
    proof (cases x)
      case None
      have n: "good S ms' s" "caps_of ms' = caps_of ms1" "\<forall>e C. \<not> matches S P s q (caps_of ms @ [(s, what)]) e C"
        using r Inr y None by simp_all
      have lv: "level ms' = level ms + 1" using good_same_caps (2) [OF g1 n(2,1)] by (simp add: ms1_def)
      have "caps_of (ms'\<lparr>level := level ms' - 1\<rparr>) = take (level ms) (caps_of ms')"
        using lv by (simp add: caps_of_def)
      also have "\<dots> = caps_of ms" using n(2) c1 length_caps_of [OF g] by simp
      finally have "caps_of (ms'\<lparr>level := level ms' - 1\<rparr>) = caps_of ms" .
      moreover have "good S (ms'\<lparr>level := level ms' - 1\<rparr>) s" using n(1) by (auto simp: good_def)
      ultimately show ?thesis using eq Inr y None n(3) by simp
    next
      case (Some e)
      then show ?thesis using r eq Inr y by simp
    qed
  qed
qed

lemma close_from_ok:
  assumes "good S ms s" "l \<le> level ms" "\<forall>j < level ms. l \<le> j \<longrightarrow> snd (capture ms ! j) \<noteq> CAP_UNFINISHED"
  shows "(\<exists>i. close_from ms l = Inr i \<and> to_close (caps_of ms) i) \<or>
    (close_from ms l = raise ''invalid pattern capture'' \<and> (\<forall>i. \<not> to_close (caps_of ms) i))"
  using assms(2,3)
proof (induction l)
  case 0
  then show ?case using length_caps_of [OF assms(1)] by (auto simp: to_close_def caps_of_nth)
next
  case (Suc l)
  have l: "l < level ms" "l < length (capture ms)" using Suc.prems(1) assms(1) by (simp_all add: good_def)
  have at: "cap_at ms l = Inr (capture ms ! l)" using l by (simp add: cap_at_def)
  show ?case
  proof (cases "snd (capture ms ! l) = CAP_UNFINISHED")
    case True
    then have "to_close (caps_of ms) l"
      using l Suc.prems(2) length_caps_of [OF assms(1)] by (simp add: to_close_def caps_of_nth)
    then show ?thesis using at True by (simp add: case_prod_beta)
  next
    case False
    then have "\<forall>j < level ms. l \<le> j \<longrightarrow> snd (capture ms ! j) \<noteq> CAP_UNFINISHED"
      using Suc.prems(2) by (metis le_neq_implies_less Suc_leI)
    then show ?thesis using Suc.IH Suc.prems(1) at False by (simp add: case_prod_beta)
  qed
qed

lemma to_close_unique: "to_close C i \<Longrightarrow> to_close C j \<Longrightarrow> i = j"
  unfolding to_close_def by (metis linorder_neqE_nat)

lemma end_capture_ok:
  assumes k: "rest_ok S P q k" and g: "good S ms s"
  shows "okr S s (\<lambda>e C'. \<exists>l. to_close (caps_of ms) l \<and>
      matches S P s q ((caps_of ms)[l := (fst (caps_of ms ! l), int s - int (fst (caps_of ms ! l)))]) e C') ms
    (end_capture k ms s)"
proof -
  consider (none) "capture_to_close ms = raise ''invalid pattern capture''"
    | (some) l where "capture_to_close ms = Inr l" "to_close (caps_of ms) l"
    using close_from_ok [OF g, of "level ms"] by (auto simp: capture_to_close_def)
  then show ?thesis
  proof cases
    case none
    then show ?thesis by (simp add: end_capture_def)
  next
    case (some l)
    have l: "l < level ms" "snd (caps_of ms ! l) = CAP_UNFINISHED"
      using some(2) length_caps_of [OF g] by (simp_all add: to_close_def)
    then have l2: "l < length (capture ms)" "capture ms ! l = caps_of ms ! l"
      using g by (simp_all add: good_def caps_of_nth)
    define init where "init = fst (caps_of ms ! l)"
    define ms1 where "ms1 = ms\<lparr>capture := (capture ms)[l := (init, int s - int init)]\<rparr>"
    have "cap_ok s (caps_of ms ! l)" using g l(1) l2(2) by (auto simp: good_def)
    then have i: "init \<le> s" by (simp add: cap_ok_def init_def)
    have g1: "good S ms1 s"
      unfolding ms1_def using i by (intro good_update [OF g]) (simp add: cap_ok_def)
    have c1: "caps_of ms1 = (caps_of ms)[l := (init, int s - int init)]"
      by (simp add: caps_of_def ms1_def take_update_swap)
    define M where "M = matches S P s q ((caps_of ms)[l := (init, int s - int init)])"
    have r: "okr S s M ms1 (k ms1 s)" using rest_okD [OF k g1] c1 by (simp add: M_def)
    have eq: "end_capture k ms s = sbind (k ms1 s) (\<lambda>(r, ms').
      case r of Some e \<Rightarrow> Inr (Some e, ms')
      | None \<Rightarrow> sbind (cap_at ms' l) (\<lambda>(init', _).
          Inr (None, ms'\<lparr>capture := (capture ms')[l := (init', CAP_UNFINISHED)]\<rparr>)))"
      using some(1) l2 by (simp add: end_capture_def cap_at_def ms1_def init_def case_prod_beta)
    have MM: "M e C' \<longleftrightarrow> (\<exists>l. to_close (caps_of ms) l \<and>
      matches S P s q ((caps_of ms)[l := (fst (caps_of ms ! l), int s - int (fst (caps_of ms ! l)))]) e C')" for e C'
      unfolding M_def init_def using some(2) to_close_unique by blast
    have "okr S s M ms (end_capture k ms s)"
    proof (cases "k ms1 s")
      case (Inl e)
      then show ?thesis using r eq by (cases e) simp_all
    next
      case (Inr y)
      obtain x ms' where y: "y = (x, ms')" by (cases y)
      show ?thesis
      proof (cases x)
        case None
        have n: "good S ms' s" "caps_of ms' = caps_of ms1" "\<forall>e C. \<not> M e C"
          using r Inr y None by simp_all
        have lv: "level ms' = level ms" using good_same_caps (2) [OF g1 n(2,1)] by (simp add: ms1_def)
        have l3: "l < length (capture ms')" using n(1) l(1) lv by (simp add: good_def)
        have "capture ms' ! l = caps_of ms' ! l" using caps_of_nth [of l ms'] l(1) lv by simp
        also have "\<dots> = (init, int s - int init)" using n(2) c1 l(1) length_caps_of [OF g] by simp
        finally have at: "cap_at ms' l = Inr (init, int s - int init)" using l3 by (simp add: cap_at_def)
        define ms2 where "ms2 = ms'\<lparr>capture := (capture ms')[l := (init, CAP_UNFINISHED)]\<rparr>"
        have "caps_of ms2 = (caps_of ms')[l := (init, CAP_UNFINISHED)]"
          by (simp add: caps_of_def ms2_def take_update_swap)
        also have "\<dots> = (caps_of ms)[l := (init, CAP_UNFINISHED)]" using n(2) c1 by simp
        also have "(init, CAP_UNFINISHED) = caps_of ms ! l" using l(2) by (simp add: init_def prod_eq_iff)
        finally have c2: "caps_of ms2 = caps_of ms" by simp
        have "good S ms2 s"
          unfolding ms2_def using i by (intro good_update [OF n(1)]) (simp add: cap_ok_def)
        then show ?thesis using eq Inr y None at c2 n(3) by (simp add: ms2_def)
      qed (use r eq Inr y in simp)
    qed
    then show ?thesis by (rule okr_imp) (rule MM)
  qed
qed

text \<open>A back reference compares as many bytes as the closed capture has.\<close>

lemma match_capture_ok:
  assumes g: "good S ms s" and d: "isdigit d"
  shows "no_fault (match_capture S ms s d)"
    and "match_capture S ms s d = Inr r \<Longrightarrow>
      \<exists>i init c. unat d = i + 49 \<and> i < level ms \<and> caps_of ms ! i = (init, c) \<and>
        r = (if 0 \<le> c \<and> s + nat c \<le> length S \<and> take (nat c) (drop s S) = take (nat c) (drop init S)
             then Some (s + nat c) else None)"
proof -
  have "(\<exists>m. match_capture S ms s d = raise m) \<or>
    (\<exists>i init c r. match_capture S ms s d = Inr r \<and> unat d = i + 49 \<and> i < level ms \<and> caps_of ms ! i = (init, c) \<and>
        r = (if 0 \<le> c \<and> s + nat c \<le> length S \<and> take (nat c) (drop s S) = take (nat c) (drop init S)
             then Some (s + nat c) else None))"
  proof (cases "uint d - 49 < 0 \<or> uint d - 49 \<ge> int (level ms)")
    case True
    then show ?thesis by (auto simp: match_capture_def check_capture_def Let_def)
  next
    case False
    define i where "i = nat (uint d - 49)"
    have i: "uint d = int i + 49" "i < level ms" "i < length (capture ms)"
      using False g by (auto simp: i_def good_def)
    then have u: "unat d = i + 49" by (metis nat_int of_nat_add of_nat_numeral unat_eq_nat_uint)
    obtain init c where c: "capture ms ! i = (init, c)" by (cases "capture ms ! i")
    have at: "cap_at ms i = Inr (init, c)" using i c by (simp add: cap_at_def)
    have co: "caps_of ms ! i = (init, c)" using caps_of_nth [OF i(2)] c by simp
    have ck: "check_capture ms d = (if c = CAP_UNFINISHED then raise ''invalid capture index'' else Inr i)"
      using False at by (simp add: check_capture_def Let_def i_def [symmetric])
    have ok: "cap_ok s (init, c)" using g i(2) c by (auto simp: good_def)
    have sz: "int (length S) < 2 ^ 63" "s \<le> length S"
      using g of_nat_less_iff [of "length S" "2 ^ 63", where ?'a = int] by (simp_all add: good_def)
    consider (unf) "c = CAP_UNFINISHED" | (pos) "c = CAP_POSITION" | (len) "0 \<le> c" "int init + c \<le> int s" "init \<le> s"
      using ok by (auto simp: cap_ok_def)
    then show ?thesis
    proof cases
      case unf
      then show ?thesis using ck by (simp add: match_capture_def)
    next
      case pos
      then have "match_capture S ms s d = Inr None"
        using ck at sz by (simp add: match_capture_def CAP_POSITION_def CAP_UNFINISHED_def)
      then show ?thesis using u i(2) co pos by (auto simp: CAP_POSITION_def)
    next
      case len
      have m: "c mod 2 ^ 64 = c" using len sz by simp
      have un: "c \<noteq> CAP_UNFINISHED" using len(1) by (simp add: CAP_UNFINISHED_def)
      have r1: "mem_at S init (nat c) = Inr (take (nat c) (drop init S))"
        using len sz by (simp add: mem_at_def)
      show ?thesis
      proof (cases "s + nat c \<le> length S")
        case True
        then have r2: "mem_at S s (nat c) = Inr (take (nat c) (drop s S))" by (simp add: mem_at_def)
        have "match_capture S ms s d = Inr (if take (nat c) (drop s S) = take (nat c) (drop init S) then Some (s + nat c) else None)"
          using ck at un m r1 r2 True len(1) by (auto simp: match_capture_def)
        then show ?thesis using u i(2) co True len(1) by auto
      next
        case False
        then have "\<not> c \<le> int (length S) - int s" using len(1) sz by linarith
        then have "match_capture S ms s d = Inr None"
          using ck at un m by (simp add: match_capture_def)
        then show ?thesis using u i(2) co False by auto
      qed
    qed
  qed
  then show "no_fault (match_capture S ms s d)"
    and "match_capture S ms s d = Inr r \<Longrightarrow>
      \<exists>i init c. unat d = i + 49 \<and> i < level ms \<and> caps_of ms ! i = (init, c) \<and>
        r = (if 0 \<le> c \<and> s + nat c \<le> length S \<and> take (nat c) (drop s S) = take (nat c) (drop init S)
             then Some (s + nat c) else None)"
    by auto
qed

section \<open>The matcher meets its contract\<close>

lemma frontier_result: "frontier S P s p ep = Inr b \<Longrightarrow> b \<longleftrightarrow> frontier S P s p ep = Inr True"
  by auto

lemma match_ok:
  "p \<le> length P \<Longrightarrow> good S ms s \<Longrightarrow> okr S s (matches S P s p (caps_of ms)) ms (match S P ms s p)"
proof (induction "Suc (length P) - p" arbitrary: p ms s rule: less_induct)
  case less
  have rest: "rest_ok S P q (\<lambda>ms s. match S P ms s q)" if "p < q" "q \<le> length P" for q
    unfolding rest_ok_def
    by (intro allI impI less.hyps) (use that less.prems(1) in auto)
  have at: "okr S s (matches S P t q (caps_of ms)) ms (match S P ms t q)"
    if "p < q" "q \<le> length P" "s \<le> t" "t \<le> length S" for q t
    using rest_ok_at [OF rest [OF that(1,2)] less.prems(2) that(3,4) refl] .
  have none: "okr S s M ms (Inr (None, ms))" if "\<And>e C. \<not> M e C" for M
    using that less.prems(2) by simp
  have some: "okr S s M ms (Inr (Some s, ms))" if "M s (caps_of ms)" for M
    using that less.prems(2) by simp
  have sl: "s \<le> length S" using less.prems(2) by (simp add: good_def)
  have item: "okr S s (matches S P s p (caps_of ms)) ms (match_item (match S P) S P ms s p)" if "is_item P p"
    by (rule match_item_ok [OF that less.prems(2)]) (rule rest)
  obtain c where c: "sget P p = Inr c" using sget_ok [OF less.prems(1)] by auto
  have nxt: "\<exists>d. sget P (p + 1) = Inr d" if "c \<noteq> 0"
    using sget_less [OF c that] sget_ok [of "p + 1" P] by simp
  have next_le: "p + 1 \<le> length P" if "c \<noteq> 0"
    using sget_less [OF c that] by simp
  have step2: "p + 2 \<le> length P" if "sget P (p + 1) = Inr d" "d \<noteq> 0" for d
    using sget_less [OF that] by simp
  consider (lpar) "c = C_LPAR" | (rpar) "c = C_RPAR" | (esc) "c = L_ESC" | (zero) "c = 0" | (dollar) "c = C_DOLLAR"
    | (other) "c \<notin> {C_LPAR, C_RPAR, L_ESC, 0, C_DOLLAR}" by blast
  then show ?case
  proof cases
    case lpar
    obtain d where d: "sget P (p + 1) = Inr d" using nxt lpar by auto
    note cs = c [unfolded lpar] d
    show ?thesis
    proof (cases "d = C_RPAR")
      case True
      then show ?thesis
        using start_capture_ok [OF rest [of "p + 2"] less.prems(2), of CAP_POSITION] step2 [OF d] cs
        by (subst match.simps) (auto simp: matches_lpar [OF cs] elim!: okr_imp)
    next
      case False
      then show ?thesis
        using start_capture_ok [OF rest [of "p + 1"] less.prems(2), of CAP_UNFINISHED] next_le lpar cs
        by (subst match.simps) (auto simp: matches_lpar [OF cs] elim!: okr_imp)
    qed
  next
    case rpar
    show ?thesis
      using end_capture_ok [OF rest [of "p + 1"] less.prems(2)] next_le rpar c
      by (subst match.simps) (auto simp: matches_rpar [OF c [unfolded rpar]] elim!: okr_imp)
  next
    case esc
    obtain d where d: "sget P (p + 1) = Inr d" using nxt esc by auto
    note cs = c [unfolded esc] d
    consider (b) "d = 98" | (f) "d = 102" | (digit) "isdigit d" "d \<noteq> 98" "d \<noteq> 102" | (plain) "d \<noteq> 98" "d \<noteq> 102" "\<not> isdigit d" by blast
    then show ?thesis
    proof cases
      case b
      have p2: "p + 2 \<le> length P" using step2 [OF d] b by simp
      have "okr S s (matches S P s p (caps_of ms)) ms (sbind (matchbalance S P s (p + 2)) (\<lambda>r.
            case r of None \<Rightarrow> Inr (None, ms) | Some s' \<Rightarrow> match S P ms s' (p + 4)))"
      proof (rule okr_sbind)
        show "no_fault (matchbalance S P s (p + 2))" by (rule matchbalance_no_fault [OF p2 sl])
        fix r
        assume r: "matchbalance S P s (p + 2) = Inr r"
        show "okr S s (matches S P s p (caps_of ms)) ms (case r of None \<Rightarrow> Inr (None, ms) | Some s' \<Rightarrow> match S P ms s' (p + 4))"
        proof (cases r)
          case None
          then show ?thesis using less.prems(2) r by (simp add: matches_balance [OF c [unfolded esc] d [unfolded b]])
        next
          case (Some s')
          have bd: "s < s'" "s' \<le> length S" "p + 4 \<le> length P" using matchbalance_bounds [of S P s "p + 2" s'] r Some by auto
          have "okr S s (matches S P s' (p + 4) (caps_of ms)) ms (match S P ms s' (p + 4))"
            using at [of "p + 4" s'] bd by simp
          then show ?thesis using r Some
            by (auto simp: matches_balance [OF c [unfolded esc] d [unfolded b]] elim!: okr_imp)
        qed
      qed
      then show ?thesis using c d esc b by (subst match.simps) simp
    next
      case f
      have p2: "p + 2 \<le> length P" using step2 [OF d] f by simp
      obtain x where x: "sget P (p + 2) = Inr x" using sget_ok [OF p2] by auto
      show ?thesis
      proof (cases "x = C_LBR")
        case False
        then show ?thesis using c d x esc f by (subst match.simps) simp
      next
        case True
        have x0: "x \<noteq> 0" using True by simp
        have "okr S s (matches S P s p (caps_of ms)) ms (sbind (classend P (p + 2)) (\<lambda>ep.
          sbind (frontier S P s (p + 2) ep) (\<lambda>b. if b then match S P ms s ep else Inr (None, ms))))"
        proof (intro okr_sbind)
          show "no_fault (classend P (p + 2))" by (rule classend_no_fault [OF x x0])
          fix ep
          assume ce: "classend P (p + 2) = Inr ep"
          have ep: "p + 2 < ep" "ep \<le> length P" using classend_bounds [OF ce] x x0 by auto
          show "no_fault (frontier S P s (p + 2) ep)"
            using sget_less [OF x x0] ep sl by (intro frontier_no_fault) auto
          fix b
          assume fr: "frontier S P s (p + 2) ep = Inr b"
          have m: "matches S P s p (caps_of ms) e C \<longleftrightarrow> b \<and> matches S P s ep (caps_of ms) e C" for e C
            using fr by (simp add: matches_frontier [OF c [unfolded esc] d [unfolded f] ce])
          show "okr S s (matches S P s p (caps_of ms)) ms (if b then match S P ms s ep else Inr (None, ms))"
            using at [of ep s] ep sl none m by (auto elim!: okr_imp)
        qed
        then show ?thesis using c d x True esc f by (subst match.simps) simp
      qed
    next
      case digit
      have d0: "d \<noteq> 0" using digit(1) by (auto simp: isdigit_def)
      have p2: "p + 2 \<le> length P" using step2 [OF d d0] .
      have "okr S s (matches S P s p (caps_of ms)) ms (sbind (match_capture S ms s d) (\<lambda>r.
            case r of None \<Rightarrow> Inr (None, ms) | Some s' \<Rightarrow> match S P ms s' (p + 2)))"
      proof (rule okr_sbind)
        show "no_fault (match_capture S ms s d)" by (rule match_capture_ok (1) [OF less.prems(2) digit(1)])
        fix r
        assume "match_capture S ms s d = Inr r"
        then obtain i init k where i: "unat d = i + 49" "i < level ms" "caps_of ms ! i = (init, k)"
          and r: "r = (if 0 \<le> k \<and> s + nat k \<le> length S \<and> take (nat k) (drop s S) = take (nat k) (drop init S)
             then Some (s + nat k) else None)"
          using match_capture_ok (2) [OF less.prems(2) digit(1)] by blast
        have m: "matches S P s p (caps_of ms) e C \<longleftrightarrow> 0 \<le> k \<and> s + nat k \<le> length S \<and>
            take (nat k) (drop s S) = take (nat k) (drop init S) \<and> matches S P (s + nat k) (p + 2) (caps_of ms) e C" for e C
        proof -
          have k: "(\<exists>n. k = int n \<and> Q n) \<longleftrightarrow> 0 \<le> k \<and> Q (nat k)" for Q
            by (metis int_nat_eq nat_int of_nat_0_le_iff)
          show ?thesis
            unfolding matches_back [OF cs digit(1)]
            using i length_caps_of [OF less.prems(2)] k by simp
        qed
        show "okr S s (matches S P s p (caps_of ms)) ms (case r of None \<Rightarrow> Inr (None, ms) | Some s' \<Rightarrow> match S P ms s' (p + 2))"
        proof (cases "0 \<le> k \<and> s + nat k \<le> length S \<and> take (nat k) (drop s S) = take (nat k) (drop init S)")
          case True
          have "okr S s (matches S P (s + nat k) (p + 2) (caps_of ms)) ms (match S P ms (s + nat k) (p + 2))"
            using at [of "p + 2" "s + nat k"] p2 True by simp
          moreover have "matches S P (s + nat k) (p + 2) (caps_of ms) e C \<longleftrightarrow> matches S P s p (caps_of ms) e C" for e C
            using m True by simp
          ultimately have "okr S s (matches S P s p (caps_of ms)) ms (match S P ms (s + nat k) (p + 2))"
            by (rule okr_imp)
          then show ?thesis using r True by simp
        next
          case False
          then show ?thesis using r m none by auto
        qed
      qed
      then show ?thesis using c d esc digit by (subst match.simps) (simp del: add_2_eq_Suc add_2_eq_Suc')
    next
      case plain
      then have "is_item P p" using c d esc by (simp add: is_item_def)
      then show ?thesis using item c d esc plain by (subst match.simps) simp
    qed
  next
    case zero
    then show ?thesis using less.prems(2) c by (subst match.simps) (simp add: matches_end)
  next
    case dollar
    obtain d where d: "sget P (p + 1) = Inr d" using nxt dollar by auto
    show ?thesis
    proof (cases "d = 0")
      case True
      then show ?thesis
        using less.prems(2) c d dollar by (subst match.simps) (auto simp: matches_eos)
    next
      case False
      then have "is_item P p" using c d dollar by (simp add: is_item_def)
      then show ?thesis using item c d dollar False by (subst match.simps) simp
    qed
  next
    case other
    then have "is_item P p" using c by (simp add: is_item_def)
    then show ?thesis using item c other by (subst match.simps) simp
  qed
qed

section \<open>Searching\<close>

text \<open>
  \<open>lmemfind\<close>: \<open>memchr\<close> finds the first byte, \<open>memcmp\<close> checks the rest. The argument \<open>s1\<close> is a
  position in \<open>S\<close>; the result is the position of the match.
\<close>

definition memchr :: "bytes \<Rightarrow> nat \<Rightarrow> byte \<Rightarrow> nat \<Rightarrow> nat option" where
  "memchr S s c n = map_option (\<lambda>i. s + i) (find_pos (\<lambda>d. d = c) (take n (drop s S)))"

function lmemfind_loop :: "bytes \<Rightarrow> nat \<Rightarrow> nat \<Rightarrow> bytes \<Rightarrow> nat option" where
  "lmemfind_loop S s1 l1 s2 =
    (if l1 > 0 then
       (case memchr S s1 (hd s2) l1 of
          None \<Rightarrow> None
        | Some i \<Rightarrow>
            if take (length s2 - 1) (drop (i + 1) S) = drop 1 s2 then Some i
            else lmemfind_loop S (i + 1) (l1 - (i + 1 - s1)) s2)
     else None)"
  by pat_completeness auto
termination
  by (relation "measure (\<lambda>(S, s1, l1, s2). l1)")
    (auto simp: memchr_def find_pos_Some)

declare lmemfind_loop.simps [simp del]

definition lmemfind :: "bytes \<Rightarrow> nat \<Rightarrow> nat \<Rightarrow> bytes \<Rightarrow> nat option" where
  "lmemfind S s1 l1 s2 =
    (if length s2 = 0 then Some s1
     else if length s2 > l1 then None
     else lmemfind_loop S s1 (l1 - (length s2 - 1)) s2)"

text \<open>A string occurs at a position; the first position where it does.\<close>

definition occurs_at :: "bytes \<Rightarrow> bytes \<Rightarrow> nat \<Rightarrow> bool" where
  "occurs_at S w i = (i + length w \<le> length S \<and> take (length w) (drop i S) = w)"

definition first_occurrence :: "bytes \<Rightarrow> bytes \<Rightarrow> nat \<Rightarrow> nat option \<Rightarrow> bool" where
  "first_occurrence S w s r = (case r of
      None \<Rightarrow> (\<forall>i \<ge> s. \<not> occurs_at S w i)
    | Some i \<Rightarrow> s \<le> i \<and> occurs_at S w i \<and> (\<forall>j. s \<le> j \<and> j < i \<longrightarrow> \<not> occurs_at S w j))"

lemma occurs_at_Cons:
  "occurs_at S (c # w) i \<longleftrightarrow> i < length S \<and> S ! i = c \<and> occurs_at S w (Suc i)"
proof (cases "i < length S")
  case True
  then have "drop i S = S ! i # drop (Suc i) S" by (simp add: Cons_nth_drop_Suc)
  then show ?thesis using True by (auto simp: occurs_at_def)
qed (simp add: occurs_at_def)

lemma lmemfind_loop_first:
  assumes w: "w = c # w'"
  shows "s + l + length w' = length S \<Longrightarrow> first_occurrence S w s (lmemfind_loop S s l w)"
proof (induction l arbitrary: s rule: less_induct)
  case (less l)
  have past: "\<not> occurs_at S w i" if "s + l \<le> i" for i
    using that less.prems by (simp add: w occurs_at_def)
  show ?case
  proof (cases "0 < l")
    case False
    then show ?thesis using past by (subst lmemfind_loop.simps) (simp add: first_occurrence_def)
  next
    case True
    show ?thesis
    proof (cases "find_pos (\<lambda>d. d = c) (take l (drop s S))")
      case None
      have "\<not> occurs_at S w i" if "s \<le> i" for i
      proof (cases "i < s + l")
        case True
        then have "S ! i \<in> set (take l (drop s S))"
          using that less.prems by (auto simp: in_set_conv_nth intro!: exI [of _ "i - s"])
        then show ?thesis using None by (auto simp: find_pos_None w occurs_at_Cons)
      qed (use past in simp)
      then show ?thesis using None True
        by (subst lmemfind_loop.simps) (simp add: first_occurrence_def memchr_def w)
    next
      case (Some k)
      have k: "k < l" "S ! (s + k) = c" "\<And>j. j < k \<Longrightarrow> S ! (s + j) \<noteq> c"
        using Some less.prems by (auto simp: find_pos_Some)
      have before: "\<not> occurs_at S w j" if "s \<le> j" "j < s + k" for j
        using k(3) [of "j - s"] that by (auto simp: w occurs_at_Cons)
      have here: "take (length w - 1) (drop (s + k + 1) S) = drop 1 w \<longleftrightarrow> occurs_at S w (s + k)"
        unfolding w occurs_at_Cons using k less.prems by (auto simp: occurs_at_def)
      show ?thesis
      proof (cases "occurs_at S w (s + k)")
        case True
        then have "lmemfind_loop S s l w = Some (s + k)"
          using Some \<open>0 < l\<close> here by (subst lmemfind_loop.simps) (simp add: memchr_def w)
        then show ?thesis using True before by (simp add: first_occurrence_def)
      next
        case False
        have "first_occurrence S w (s + k + 1) (lmemfind_loop S (s + k + 1) (l - (k + 1)) w)"
          by (rule less.IH) (use k less.prems in auto)
        moreover have "lmemfind_loop S s l w = lmemfind_loop S (s + k + 1) (l - (k + 1)) w"
          using Some \<open>0 < l\<close> here False by (subst lmemfind_loop.simps) (simp add: memchr_def w)
        ultimately show ?thesis
          using before False unfolding first_occurrence_def
          by (auto split: option.splits simp: less_Suc_eq)
            (metis (no_types, lifting) Suc_leI less_Suc_eq linorder_le_less_linear not_less_eq_eq le_neq_implies_less)+
      qed
    qed
  qed
qed

lemma lmemfind_first:
  assumes "s \<le> length S"
  shows "first_occurrence S w s (lmemfind S s (length S - s) w)"
proof (cases w)
  case Nil
  then show ?thesis using assms by (simp add: lmemfind_def first_occurrence_def occurs_at_def)
next
  case (Cons c w')
  show ?thesis
  proof (cases "length w > length S - s")
    case True
    then show ?thesis using Cons by (auto simp: lmemfind_def first_occurrence_def occurs_at_def)
  next
    case False
    then have "lmemfind S s (length S - s) w = lmemfind_loop S s (length S - s - length w') w"
      using Cons by (simp add: lmemfind_def)
    moreover have "first_occurrence S w s (lmemfind_loop S s (length S - s - length w') w)"
      by (rule lmemfind_loop_first [OF Cons]) (use False Cons assms in simp)
    ultimately show ?thesis by simp
  qed
qed

lemma caps_of_fresh [simp]: "caps_of (fresh_ms a) = []"
  by (simp add: caps_of_def fresh_ms_def)

lemma good_fresh: "length a = LUA_MAXCAPTURES \<Longrightarrow> s \<le> length S \<Longrightarrow> length S < 2 ^ 63 \<Longrightarrow> good S (fresh_ms a) s"
  by (simp add: good_def fresh_ms_def)

text \<open>What the library functions use: a match from a fresh state.\<close>

lemma match_fresh:
  assumes "length a = LUA_MAXCAPTURES" "s \<le> length S" "length S < 2 ^ 63" "p \<le> length P"
  shows "no_fault (match S P (fresh_ms a) s p)"
    and "match S P (fresh_ms a) s p = Inr (Some e, ms) \<Longrightarrow> s \<le> e \<and> good S ms e \<and> matches S P s p [] e (caps_of ms)"
    and "match S P (fresh_ms a) s p = Inr (None, ms) \<Longrightarrow> length (capture ms) = LUA_MAXCAPTURES \<and> (\<forall>e C. \<not> matches S P s p [] e C)"
proof -
  have *: "okr S s (matches S P s p []) (fresh_ms a) (match S P (fresh_ms a) s p)"
    using match_ok [OF assms(4) good_fresh [OF assms(1-3)]] by simp
  then show "no_fault (match S P (fresh_ms a) s p)"
    by (auto simp: okr_def no_fault_def split: sum.splits)
  show "match S P (fresh_ms a) s p = Inr (Some e, ms) \<Longrightarrow> s \<le> e \<and> good S ms e \<and> matches S P s p [] e (caps_of ms)"
    using * by auto
  show "match S P (fresh_ms a) s p = Inr (None, ms) \<Longrightarrow> length (capture ms) = LUA_MAXCAPTURES \<and> (\<forall>e C. \<not> matches S P s p [] e C)"
    using * by (auto simp: good_def)
qed

section \<open>Properties\<close>

text \<open>
  C15: the matcher is total, memory safe, sound and complete. For every source, pattern and
  position \<open>match\<close> either raises a Lua error, or returns an end inside the source that the
  relation allows, with the captures it describes, or returns null and the relation allows no
  end at all. It reads neither string out of range and uses no capture slot beyond the array.
\<close>

theorem match_sound_complete:
  assumes "length a = LUA_MAXCAPTURES" "s \<le> length S" "length S < 2 ^ 63" "p \<le> length P"
  shows "case match S P (fresh_ms a) s p of
      Inl (CFault f) \<Rightarrow> False
    | Inl (LuaError msg) \<Rightarrow> True
    | Inr (Some e, ms) \<Rightarrow> s \<le> e \<and> e \<le> length S \<and> matches S P s p [] e (caps_of ms)
    | Inr (None, ms) \<Rightarrow> \<not> (\<exists>e C. matches S P s p [] e C)"
  using match_fresh [OF assms]
  by (auto simp: good_def split: sum.split lua_error.split option.split)

theorem match_sound_complete_witness:
  "case match (str ''key = value'') (str ''(%w+)%s*='') (fresh_ms (replicate 32 (0, 0))) 0 0 of
      Inl (CFault f) \<Rightarrow> False
    | Inl (LuaError msg) \<Rightarrow> True
    | Inr (Some e, ms) \<Rightarrow> 0 \<le> e \<and> e \<le> length (str ''key = value'')
        \<and> matches (str ''key = value'') (str ''(%w+)%s*='') 0 0 [] e (caps_of ms)
    | Inr (None, ms) \<Rightarrow> \<not> (\<exists>e C. matches (str ''key = value'') (str ''(%w+)%s*='') 0 0 [] e C)"
  by (rule match_sound_complete) (simp_all add: LUA_MAXCAPTURES_def str_def)

text \<open>
  \<open>lmemfind\<close> finds the first occurrence. The search by \<open>memchr\<close> and \<open>memcmp\<close> returns the
  first position from the start on where the string occurs, or null when it occurs nowhere.
\<close>

theorem lmemfind_first_occurrence:
  assumes "s \<le> length S"
  shows "case lmemfind S s (length S - s) w of
      None \<Rightarrow> \<not> (\<exists>i. s \<le> i \<and> occurs_at S w i)
    | Some i \<Rightarrow> s \<le> i \<and> occurs_at S w i \<and> \<not> (\<exists>j. s \<le> j \<and> j < i \<and> occurs_at S w j)"
  using lmemfind_first [OF assms, of w] by (auto simp: first_occurrence_def split: option.splits)

theorem lmemfind_first_occurrence_witness:
  "case lmemfind (str ''ababac'') 1 (length (str ''ababac'') - 1) (str ''bac'') of
      None \<Rightarrow> \<not> (\<exists>i. 1 \<le> i \<and> occurs_at (str ''ababac'') (str ''bac'') i)
    | Some i \<Rightarrow> 1 \<le> i \<and> occurs_at (str ''ababac'') (str ''bac'') i
        \<and> \<not> (\<exists>j. 1 \<le> j \<and> j < i \<and> occurs_at (str ''ababac'') (str ''bac'') j)"
  by (rule lmemfind_first_occurrence) (simp add: str_def)

end
