(* ===== verification/StrLib.thy ===== *)
theory StrLib
  imports StrMatch
begin

text \<open>
  The functions of Lua's string library, \<open>lstrlib.c\<close>, from their arguments to the values they
  push. A \<open>luaL_Buffer\<close> is the list of the bytes added to it; integers that Lua holds as numbers
  are \<open>int\<close>.
\<close>

datatype lval = Lnil | Lint int | Lstr bytes

section \<open>Positions and slices\<close>

definition posrelat :: "int \<Rightarrow> nat \<Rightarrow> int" where
  "posrelat pos len = (let p = (if pos < 0 then pos + (int len + 1) else pos) in if p \<ge> 0 then p else 0)"

definition str_len :: "bytes \<Rightarrow> int" where "str_len s = int (length s)"

definition str_sub :: "bytes \<Rightarrow> int \<Rightarrow> int \<Rightarrow> bytes lres" where
  "str_sub s i j =
    (let l = length s;
         start = posrelat i l;
         start = (if start < 1 then 1 else start);
         stop = posrelat j l;
         stop = (if stop > int l then int l else stop)
     in if start \<le> stop then mem_at s (nat (start - 1)) (nat (stop - start + 1)) else Inr [])"

fun reverse_loop :: "bytes \<Rightarrow> nat \<Rightarrow> bytes \<Rightarrow> bytes lres" where
  "reverse_loop s 0 b = Inr b"
| "reverse_loop s (Suc l) b = sbind (sget s l) (\<lambda>c. reverse_loop s l (b @ [c]))"

definition str_reverse :: "bytes \<Rightarrow> bytes lres" where "str_reverse s = reverse_loop s (length s) []"

definition str_lower :: "bytes \<Rightarrow> bytes" where "str_lower s = map tolower s"

definition str_upper :: "bytes \<Rightarrow> bytes" where "str_upper s = map toupper s"

fun rep_loop :: "bytes \<Rightarrow> nat \<Rightarrow> bytes \<Rightarrow> bytes" where
  "rep_loop s 0 b = b"
| "rep_loop s (Suc n) b = rep_loop s n (b @ s)"

definition str_rep :: "bytes \<Rightarrow> int \<Rightarrow> bytes" where
  "str_rep s n = rep_loop s (nat n) []"

text \<open>\<open>str_byte\<close>: the numbers pushed. The last position defaults to the first as given.\<close>

fun byte_loop :: "bytes \<Rightarrow> nat \<Rightarrow> nat \<Rightarrow> int list lres" where
  "byte_loop s i 0 = Inr []"
| "byte_loop s i (Suc n) = sbind (sget s i) (\<lambda>c. sbind (byte_loop s (i + 1) n) (\<lambda>r. Inr (uint c # r)))"

definition str_byte :: "bytes \<Rightarrow> int \<Rightarrow> int option \<Rightarrow> int list lres" where
  "str_byte s i j =
    (let l = length s;
         posi = posrelat i l;
         pose = posrelat (case j of Some x \<Rightarrow> x | None \<Rightarrow> posi) l;
         posi = (if posi \<le> 0 then 1 else posi);
         pose = (if pose mod 2 ^ 64 > int l then int l else pose)
     in if posi > pose then Inr []
        else
          (let n = cast_int (pose - posi + 1)
           in if posi + n \<le> pose then raise ''string slice too long''
              else byte_loop s (nat (posi - 1)) (nat n)))"

fun char_loop :: "int list \<Rightarrow> bytes \<Rightarrow> bytes lres" where
  "char_loop [] b = Inr b"
| "char_loop (c # cs) b =
    (if uint (word_of_int c :: byte) = c then char_loop cs (b @ [word_of_int c])
     else raise ''invalid value'')"

definition str_char :: "int list \<Rightarrow> bytes lres" where "str_char cs = char_loop cs []"

section \<open>Captures pushed\<close>

definition push_onecapture :: "bytes \<Rightarrow> MatchState \<Rightarrow> int \<Rightarrow> nat \<Rightarrow> nat \<Rightarrow> lval lres" where
  "push_onecapture S ms i s e =
    (if i \<ge> int (level ms) then
       (if i = 0 then sbind (mem_at S s (e - s)) (\<lambda>b. Inr (Lstr b))
        else raise ''invalid capture index'')
     else if i < 0 then Inl (CFault ReadOOB)
     else sbind (cap_at ms (nat i)) (\<lambda>(init, l).
       if l = CAP_UNFINISHED then raise ''unfinished capture''
       else if l = CAP_POSITION then Inr (Lint (int init + 1))
       else sbind (mem_at S init (nat l)) (\<lambda>b. Inr (Lstr b))))"

fun push_from :: "bytes \<Rightarrow> MatchState \<Rightarrow> nat \<Rightarrow> nat \<Rightarrow> nat \<Rightarrow> nat \<Rightarrow> lval list lres" where
  "push_from S ms i 0 s e = Inr []"
| "push_from S ms i (Suc n) s e =
    sbind (push_onecapture S ms (int i) s e) (\<lambda>v. sbind (push_from S ms (i + 1) n s e) (\<lambda>vs. Inr (v # vs)))"

text \<open>\<open>whole\<close> tells whether the argument \<open>s\<close> is not null.\<close>

definition push_captures :: "bytes \<Rightarrow> MatchState \<Rightarrow> bool \<Rightarrow> nat \<Rightarrow> nat \<Rightarrow> lval list lres" where
  "push_captures S ms whole s e =
    (let nlevels = (if level ms = 0 \<and> whole then 1 else level ms) in push_from S ms 0 nlevels s e)"

section \<open>Find and match\<close>

definition SPECIALS :: bytes where
  "SPECIALS = [C_CARET, C_DOLLAR, C_STAR, C_PLUS, C_OPT, C_DOT, C_LPAR, C_LBR, L_ESC, C_MINUS]"

text \<open>\<open>strpbrk(p, SPECIALS) == NULL\<close>: no special character before the first NUL.\<close>

definition no_specials :: "bytes \<Rightarrow> bool" where
  "no_specials P = list_all (\<lambda>c. c \<notin> set SPECIALS) (takeWhile (\<lambda>c. c \<noteq> 0) P)"

text \<open>The loop over the starting positions: the start, the end and the state of the first match.\<close>

function find_loop :: "bytes \<Rightarrow> bytes \<Rightarrow> nat \<Rightarrow> bool \<Rightarrow> (nat \<times> int) list \<Rightarrow> nat \<Rightarrow> (nat \<times> nat \<times> MatchState) option lres" where
  "find_loop S P p anchor a s1 =
    sbind (match S P (fresh_ms a) s1 p) (\<lambda>(r, ms).
      case r of
        Some e \<Rightarrow> Inr (Some (s1, e, ms))
      | None \<Rightarrow> if s1 < length S \<and> \<not> anchor then find_loop S P p anchor (capture ms) (s1 + 1) else Inr None)"
  by pat_completeness auto
termination
  by (relation "measure (\<lambda>(S, P, p, anchor, a, s1). length S - s1)") auto

declare find_loop.simps [simp del]

definition start_pos :: "int \<Rightarrow> nat \<Rightarrow> nat" where
  "start_pos i l1 =
    (let init = posrelat i l1 - 1 in
     if init < 0 then 0 else if init > int l1 then l1 else nat init)"

definition pattern_start :: "bytes \<Rightarrow> bool \<times> nat" where
  "pattern_start P = (if P \<noteq> [] \<and> hd P = C_CARET then (True, 1) else (False, 0))"

definition str_find_aux :: "bytes \<Rightarrow> bytes \<Rightarrow> int \<Rightarrow> bool \<Rightarrow> bool \<Rightarrow> (nat \<times> int) list \<Rightarrow> lval list lres" where
  "str_find_aux S P i plain find_mode a =
    (let init = start_pos i (length S) in
     if find_mode \<and> (plain \<or> no_specials P) then
       (case lmemfind S init (length S - init) P of
          Some s2 \<Rightarrow> Inr [Lint (int s2 + 1), Lint (int s2 + int (length P))]
        | None \<Rightarrow> Inr [Lnil])
     else
       (let (anchor, p) = pattern_start P in
        sbind (find_loop S P p anchor a init) (\<lambda>r.
        case r of
          None \<Rightarrow> Inr [Lnil]
        | Some (s1, e, ms) \<Rightarrow>
            if find_mode then
              sbind (push_captures S ms False 0 0) (\<lambda>vs. Inr (Lint (int s1 + 1) # Lint (int e) # vs))
            else push_captures S ms True s1 e)))"

definition str_find :: "bytes \<Rightarrow> bytes \<Rightarrow> int \<Rightarrow> bool \<Rightarrow> (nat \<times> int) list \<Rightarrow> lval list lres" where
  "str_find S P i plain a = str_find_aux S P i plain True a"

definition str_match :: "bytes \<Rightarrow> bytes \<Rightarrow> int \<Rightarrow> (nat \<times> int) list \<Rightarrow> lval list lres" where
  "str_match S P i a = str_find_aux S P i False False a"

text \<open>One step of the iterator: the new start and the captures, or nothing more.\<close>

function gmatch_loop :: "bytes \<Rightarrow> bytes \<Rightarrow> (nat \<times> int) list \<Rightarrow> nat \<Rightarrow> (nat \<times> nat \<times> MatchState) option lres" where
  "gmatch_loop S P a src =
    (if src \<le> length S then
       sbind (match S P (fresh_ms a) src 0) (\<lambda>(r, ms).
         case r of Some e \<Rightarrow> Inr (Some (src, e, ms)) | None \<Rightarrow> gmatch_loop S P (capture ms) (src + 1))
     else Inr None)"
  by pat_completeness auto
termination
  by (relation "measure (\<lambda>(S, P, a, src). Suc (length S) - src)") auto

declare gmatch_loop.simps [simp del]

definition gmatch_aux :: "bytes \<Rightarrow> bytes \<Rightarrow> (nat \<times> int) list \<Rightarrow> nat \<Rightarrow> (nat \<times> lval list) option lres" where
  "gmatch_aux S P a start =
    sbind (gmatch_loop S P a start) (\<lambda>r.
      case r of
        None \<Rightarrow> Inr None
      | Some (src, e, ms) \<Rightarrow>
          sbind (push_captures S ms True src e) (\<lambda>vs. Inr (Some (if e = src then e + 1 else e, vs))))"

section \<open>Substitution\<close>

text \<open>
  The replacement: a string (or number) with escapes, or a function or table, which give for
  the captures nil or false, a text, or a value of another type.
\<close>

datatype rval = Rfalse | Rtext bytes | Rother string

datatype repl = Rstring bytes | Rfun "lval list \<Rightarrow> rval lres" | Rtable "lval \<Rightarrow> rval lres"

text \<open>\<open>luaL_addvalue\<close> of a pushed capture; a position is converted to its decimal text.\<close>

fun lval_text :: "lval \<Rightarrow> bytes" where
  "lval_text (Lstr b) = b"
| "lval_text (Lint i) = dec i"
| "lval_text Lnil = []"

function add_s_loop :: "bytes \<Rightarrow> MatchState \<Rightarrow> nat \<Rightarrow> nat \<Rightarrow> bytes \<Rightarrow> nat \<Rightarrow> bytes \<Rightarrow> bytes lres" where
  "add_s_loop S ms s e news i b =
    (if i < length news then
       (if news ! i \<noteq> L_ESC then add_s_loop S ms s e news (i + 1) (b @ [news ! i])
        else
          sbind (sget news (i + 1)) (\<lambda>c.
          if \<not> isdigit c then add_s_loop S ms s e news (i + 2) (b @ [c])
          else if c = 48 then sbind (mem_at S s (e - s)) (\<lambda>w. add_s_loop S ms s e news (i + 2) (b @ w))
          else sbind (push_onecapture S ms (uint c - 49) s e) (\<lambda>v.
            add_s_loop S ms s e news (i + 2) (b @ lval_text v))))
     else Inr b)"
  by pat_completeness auto
termination
  by (relation "measure (\<lambda>(S, ms, s, e, news, i, b). length news - i)") auto

declare add_s_loop.simps [simp del]

definition add_s :: "bytes \<Rightarrow> MatchState \<Rightarrow> bytes \<Rightarrow> bytes \<Rightarrow> nat \<Rightarrow> nat \<Rightarrow> bytes lres" where
  "add_s S ms news b s e = add_s_loop S ms s e news 0 b"

definition add_result :: "bytes \<Rightarrow> bytes \<Rightarrow> nat \<Rightarrow> nat \<Rightarrow> rval \<Rightarrow> bytes lres" where
  "add_result S b s e v = (case v of
      Rfalse \<Rightarrow> sbind (mem_at S s (e - s)) (\<lambda>w. Inr (b @ w))
    | Rother t \<Rightarrow> raise (''invalid replacement value (a '' @ t @ '')'')
    | Rtext w \<Rightarrow> Inr (b @ w))"

definition add_value :: "bytes \<Rightarrow> MatchState \<Rightarrow> repl \<Rightarrow> bytes \<Rightarrow> nat \<Rightarrow> nat \<Rightarrow> bytes lres" where
  "add_value S ms r b s e = (case r of
      Rstring news \<Rightarrow> add_s S ms news b s e
    | Rfun f \<Rightarrow> sbind (push_captures S ms True s e) (\<lambda>vs. sbind (f vs) (add_result S b s e))
    | Rtable f \<Rightarrow> sbind (push_onecapture S ms 0 s e) (\<lambda>v. sbind (f v) (add_result S b s e)))"

text \<open>The buffer, the position and the number of substitutions when the loop ends.\<close>

function gsub_loop :: "bytes \<Rightarrow> bytes \<Rightarrow> nat \<Rightarrow> bool \<Rightarrow> repl \<Rightarrow> int \<Rightarrow> (nat \<times> int) list \<Rightarrow> nat \<Rightarrow> int \<Rightarrow> bytes
    \<Rightarrow> (bytes \<times> nat \<times> int) lres" where
  "gsub_loop S P p anchor r max_s a src n b =
    (if n < max_s then
       sbind (match S P (fresh_ms a) src p) (\<lambda>(e, ms).
       sbind (case e of Some e' \<Rightarrow> add_value S ms r b src e' | None \<Rightarrow> Inr b) (\<lambda>b'.
       let n' = (case e of Some _ \<Rightarrow> n + 1 | None \<Rightarrow> n) in
       case e of
         Some e' \<Rightarrow>
           (if e' > src then
              (if anchor then Inr (b', e', n')
               else gsub_loop S P p anchor r max_s (capture ms) e' (n + 1) b')
            else if src < length S then
              sbind (sget S src) (\<lambda>c.
              if anchor then Inr (b' @ [c], src + 1, n')
              else gsub_loop S P p anchor r max_s (capture ms) (src + 1) (n + 1) (b' @ [c]))
            else Inr (b', src, n'))
       | None \<Rightarrow>
           (if src < length S then
              sbind (sget S src) (\<lambda>c.
              if anchor then Inr (b' @ [c], src + 1, n')
              else gsub_loop S P p anchor r max_s (capture ms) (src + 1) n (b' @ [c]))
            else Inr (b', src, n'))))
     else Inr (b, src, n))"
  by pat_completeness auto
termination
  by (relation "(\<lambda>(S, P, p, anchor, r, max_s, a, src, n, b). nat (max_s - n)) <*mlex*>
      measure (\<lambda>(S, P, p, anchor, r, max_s, a, src, n, b). length S - src)")
    (auto intro: mlex_less mlex_leq simp: wf_mlex)

declare gsub_loop.simps [simp del]

definition str_gsub :: "bytes \<Rightarrow> bytes \<Rightarrow> repl \<Rightarrow> int \<Rightarrow> (nat \<times> int) list \<Rightarrow> (bytes \<times> int) lres" where
  "str_gsub S P r max_s a =
    (let (anchor, p) = pattern_start P in
     sbind (gsub_loop S P p anchor r max_s a 0 0 []) (\<lambda>(b, src, n).
     sbind (mem_at S src (length S - src)) (\<lambda>w. Inr (b @ w, n))))"

text \<open>The default of the fourth argument.\<close>

definition gsub_max :: "bytes \<Rightarrow> int" where "gsub_max S = cast_int (int (length S) + 1)"

section \<open>Formats\<close>

definition FLAGS :: bytes where "FLAGS = str ''-+ #0''"

text \<open>The bytes \<open>addquoted\<close> adds for one byte, and for a string.\<close>

definition quote_byte :: "byte \<Rightarrow> bytes" where
  "quote_byte c =
    (if c = 34 \<or> c = 92 \<or> c = 10 then [92, c]
     else if c = 13 then [92, 114]
     else if c = 0 then [92, 48, 48, 48]
     else [c])"

definition addquoted :: "bytes \<Rightarrow> bytes \<Rightarrow> bytes" where
  "addquoted b s = b @ 34 # concat (map quote_byte s) @ [34]"

text \<open>
  \<open>scanformat\<close>: the format item and the position of the conversion character. \<open>form\<close> has
  \<open>MAX_FORMAT\<close> bytes: \<open>sizeof(FLAGS) + sizeof("l") + 10\<close>.
\<close>

definition MAX_FORMAT :: nat where "MAX_FORMAT = 18"

function skip_flags :: "bytes \<Rightarrow> nat \<Rightarrow> nat lres" where
  "skip_flags f p =
    sbind (sget f p) (\<lambda>c. if c \<noteq> 0 \<and> strchr FLAGS c \<noteq> None then skip_flags f (p + 1) else Inr p)"
  by pat_completeness auto
termination
  by (relation "measure (\<lambda>(f, p). Suc (length f) - p)") (auto dest: sget_le)

declare skip_flags.simps [simp del]

definition skip_digit :: "bytes \<Rightarrow> nat \<Rightarrow> nat lres" where
  "skip_digit f p = sbind (sget f p) (\<lambda>c. Inr (if isdigit c then p + 1 else p))"

definition scanformat :: "bytes \<Rightarrow> nat \<Rightarrow> (bytes \<times> nat) lres" where
  "scanformat f start =
    sbind (skip_flags f start) (\<lambda>p.
    if p - start \<ge> length FLAGS + 1 then raise ''invalid format (repeated flags)''
    else
      sbind (skip_digit f p) (\<lambda>p. sbind (skip_digit f p) (\<lambda>p.
      sbind (sget f p) (\<lambda>c.
      sbind (if c = C_DOT then sbind (skip_digit f (p + 1)) (skip_digit f) else Inr p) (\<lambda>p.
      sbind (sget f p) (\<lambda>c.
      if isdigit c then raise ''invalid format (width or precision too long)''
      else sbind (mem_at f start (p - start + 1)) (\<lambda>w.
        if length w + 2 \<le> MAX_FORMAT then Inr (L_ESC # w, p) else Inl (CFault WriteOOB))))))))"

text \<open>\<open>addintlen\<close> puts the length modifier before the conversion character.\<close>

definition LUA_INTFRMLEN :: bytes where "LUA_INTFRMLEN = str ''l''"

definition addintlen :: "bytes \<Rightarrow> bytes lres" where
  "addintlen form =
    (let l = length form in
     if l = 0 then Inl (CFault ReadOOB)
     else if l + length LUA_INTFRMLEN + 1 \<le> MAX_FORMAT
     then Inr (take (l - 1) form @ LUA_INTFRMLEN @ [form ! (l - 1)])
     else Inl (CFault WriteOOB))"

section \<open>Pushed captures are in the source\<close>

lemma mem_at_in: "i + n \<le> length S \<Longrightarrow> mem_at S i n = Inr (take n (drop i S))"
  by (simp add: mem_at_def)

text \<open>The text of a capture.\<close>

fun capture_value :: "bytes \<Rightarrow> nat \<times> int \<Rightarrow> lval" where
  "capture_value S (init, l) = (if l = CAP_POSITION then Lint (int init + 1) else Lstr (take (nat l) (drop init S)))"

lemma push_onecapture_ok:
  assumes g: "good S ms e" and s: "s \<le> e" and i: "0 \<le> i"
  shows "push_onecapture S ms i s e =
    (if i < int (level ms) then
       (if snd (caps_of ms ! nat i) = CAP_UNFINISHED then raise ''unfinished capture''
        else Inr (capture_value S (caps_of ms ! nat i)))
     else if i = 0 then Inr (Lstr (take (e - s) (drop s S)))
     else raise ''invalid capture index'')"
proof (cases "i < int (level ms)")
  case True
  then have l: "nat i < level ms" using i by linarith
  obtain init c where c: "capture ms ! nat i = (init, c)" by (cases "capture ms ! nat i")
  have "cap_ok e (init, c)" using g l c by (auto simp: good_def)
  then have ok: "c = CAP_UNFINISHED \<or> c = CAP_POSITION \<or> 0 \<le> c \<and> init + nat c \<le> length S"
    using g by (auto simp: cap_ok_def good_def)
  have at: "cap_at ms (nat i) = Inr (init, c)" using g l c by (simp add: cap_at_def good_def)
  have co: "caps_of ms ! nat i = (init, c)" using l c by (simp add: caps_of_nth)
  show ?thesis
    using ok True i at co by (auto simp: push_onecapture_def mem_at_in CAP_UNFINISHED_def CAP_POSITION_def)
next
  case False
  have "mem_at S s (e - s) = Inr (take (e - s) (drop s S))" using g s by (simp add: mem_at_in good_def)
  then show ?thesis using False by (simp add: push_onecapture_def)
qed

lemma push_onecapture_no_fault: "good S ms e \<Longrightarrow> s \<le> e \<Longrightarrow> 0 \<le> i \<Longrightarrow> no_fault (push_onecapture S ms i s e)"
  by (simp add: push_onecapture_ok)

lemma push_from_no_fault: "good S ms e \<Longrightarrow> s \<le> e \<Longrightarrow> no_fault (push_from S ms i n s e)"
  by (induction n arbitrary: i) (auto intro!: no_fault_sbind push_onecapture_no_fault)

lemma push_from_inside: "i + n \<le> level ms \<Longrightarrow> push_from S ms i n s e = push_from S ms i n s' e'"
  by (induction n arbitrary: i) (simp_all add: push_onecapture_def)

lemma push_captures_no_fault: "good S ms e \<Longrightarrow> s \<le> e \<Longrightarrow> no_fault (push_captures S ms w s e)"
  by (simp add: push_captures_def Let_def push_from_no_fault)

section \<open>The loop over the starting positions\<close>

lemma find_loop_ok:
  assumes "p \<le> length P" "length S < 2 ^ 63"
  shows "length a = LUA_MAXCAPTURES \<Longrightarrow> s \<le> length S \<Longrightarrow>
    (case find_loop S P p anchor a s of
       Inl e \<Rightarrow> \<exists>msg. e = LuaError msg
     | Inr (Some (s1, e, ms)) \<Rightarrow> s \<le> s1 \<and> s1 \<le> e \<and> (anchor \<longrightarrow> s1 = s) \<and> good S ms e \<and> matches S P s1 p [] e (caps_of ms)
         \<and> (\<forall>j e C. s \<le> j \<and> j < s1 \<longrightarrow> \<not> matches S P j p [] e C)
     | Inr None \<Rightarrow> (\<forall>j e C. s \<le> j \<and> j \<le> length S \<and> (anchor \<longrightarrow> j = s) \<longrightarrow> \<not> matches S P j p [] e C))"
proof (induction "length S - s" arbitrary: a s)
  case (0 s a)
  then have s: "s = length S" by simp
  show ?case
  proof (cases "match S P (fresh_ms a) s p")
    case (Inl e)
    then show ?thesis using match_fresh (1) [OF 0(2,3) assms(2,1)]
      by (subst find_loop.simps) (cases e, simp_all)
  next
    case (Inr y)
    obtain r ms where y: "y = (r, ms)" by (cases y)
    show ?thesis
      using Inr y s match_fresh (2) [OF 0(2,3) assms(2,1), of "the r" ms] match_fresh (3) [OF 0(2,3) assms(2,1), of ms]
      by (subst find_loop.simps) (cases r, auto simp: le_antisym)
  qed
next
  case (Suc n s a)
  show ?case
  proof (cases "match S P (fresh_ms a) s p")
    case (Inl e)
    then show ?thesis using match_fresh (1) [OF Suc(3,4) assms(2,1)]
      by (subst find_loop.simps) (cases e, simp_all)
  next
    case (Inr y)
    obtain r ms where y: "y = (r, ms)" by (cases y)
    show ?thesis
    proof (cases r)
      case (Some e)
      then show ?thesis
        using Inr y match_fresh (2) [OF Suc(3,4) assms(2,1), of e ms]
        by (subst find_loop.simps) auto
    next
      case None
      have n: "length (capture ms) = LUA_MAXCAPTURES" "\<And>e C. \<not> matches S P s p [] e C"
        using match_fresh (3) [OF Suc(3,4) assms(2,1), of ms] Inr y None by auto
      show ?thesis
      proof (cases anchor)
        case True
        then show ?thesis using Inr y None n by (subst find_loop.simps) auto
      next
        case False
        have lt: "s < length S" "n = length S - (s + 1)" using Suc(2) by simp_all
        have eq: "find_loop S P p anchor a s = find_loop S P p anchor (capture ms) (s + 1)"
          using Inr y None False lt(1) by (subst find_loop.simps) simp
        have split: "s \<le> j \<longleftrightarrow> j = s \<or> s + 1 \<le> j" for j by auto
        show ?thesis
          using Suc(1) [OF lt(2) n(1)] lt(1) False n(2) unfolding eq
          by (auto split: sum.splits option.splits simp: split Suc_le_eq)
      qed
    qed
  qed
qed

section \<open>Patterns without special characters\<close>

text \<open>The closing parenthesis is not among the characters the code looks for.\<close>

definition plain_pattern :: "bytes \<Rightarrow> bool" where
  "plain_pattern P = (no_specials P \<and> 0 \<notin> set P \<and> C_RPAR \<notin> set P)"

lemma plain_patternD: "plain_pattern P \<Longrightarrow> c \<in> set P \<Longrightarrow> c \<noteq> 0 \<and> c \<noteq> C_RPAR \<and> c \<notin> set SPECIALS"
proof -
  assume P: "plain_pattern P" and c: "c \<in> set P"
  have "\<And>x. x \<in> set P \<Longrightarrow> x \<noteq> 0" using P by (auto simp: plain_pattern_def)
  then have tw: "takeWhile (\<lambda>c. c \<noteq> 0) P = P" by (simp add: takeWhile_eq_all_conv)
  have "list_all (\<lambda>c. c \<notin> set SPECIALS) P"
    using P unfolding plain_pattern_def no_specials_def tw by simp
  then show ?thesis using P c by (auto simp: plain_pattern_def list_all_iff)
qed

lemma match_plain:
  assumes "plain_pattern P" "length S < 2 ^ 63"
  shows "p \<le> length P \<Longrightarrow> s \<le> length S \<Longrightarrow>
    match S P ms s p = Inr (if occurs_at S (drop p P) s then Some (s + (length P - p)) else None, ms)"
proof (induction "length P - p" arbitrary: p s)
  case 0
  then have "p = length P" by simp
  with 0 show ?case by (subst match.simps) (simp add: occurs_at_def)
next
  case (Suc n)
  have p: "p < length P" using Suc.hyps(2) by simp
  define c where "c = P ! p"
  have "c \<in> set P" using p by (simp add: c_def)
  then have c: "c \<noteq> 0" "c \<noteq> C_RPAR" "c \<notin> set SPECIALS" using plain_patternD [OF assms(1)] by auto
  have at: "sget P p = Inr c" using p by (simp add: c_def)
  have ce: "classend P p = Inr (p + 1)" using c at by (simp add: classend_def SPECIALS_def)
  obtain d where d: "sget P (p + 1) = Inr d" "d \<notin> {C_OPT, C_STAR, C_PLUS, C_MINUS}"
  proof (cases "p + 1 < length P")
    case True
    then have "P ! (p + 1) \<in> set P" by simp
    then have "P ! (p + 1) \<notin> set SPECIALS" using plain_patternD [OF assms(1)] by auto
    with True that [of "P ! (p + 1)"] show ?thesis by (simp add: SPECIALS_def)
  next
    case False
    then have "p + 1 = length P" using p by simp
    with that [of 0] show ?thesis by (simp add: sget_eq_Inr)
  qed
  have single: "single_at S P p (p + 1) s = Inr (s < length S \<and> S ! s = c)"
    using at c by (auto simp: single_at_def singlematch_def SPECIALS_def)
  have dp: "drop p P = c # drop (p + 1) P" using p by (simp add: c_def Cons_nth_drop_Suc)
  have item: "match_item (match S P) S P ms s p =
      (if s < length S \<and> S ! s = c then match S P ms (s + 1) (p + 1) else Inr (None, ms))"
    using ce single d by (auto simp: match_item_def)
  have "match S P ms s p = match_item (match S P) S P ms s p"
    using at c by (subst match.simps) (simp add: SPECIALS_def)
  also have "\<dots> = Inr (if occurs_at S (drop p P) s then Some (s + (length P - p)) else None, ms)"
    using Suc.hyps(1) [of "p + 1" "s + 1"] Suc.hyps(2) p unfolding item dp occurs_at_Cons by auto
  finally show ?case .
qed

lemma find_loop_plain:
  assumes "plain_pattern P" "length S < 2 ^ 63"
  shows "s \<le> length S \<Longrightarrow> \<exists>r. find_loop S P 0 False a s = Inr r \<and>
    (case r of None \<Rightarrow> first_occurrence S P s None
     | Some (s1, e, ms) \<Rightarrow> e = s1 + length P \<and> level ms = 0 \<and> first_occurrence S P s (Some s1))"
proof (induction "length S - s" arbitrary: a s)
  case (0 s a)
  have m: "match S P (fresh_ms a) s 0 = Inr (if occurs_at S P s then Some (s + length P) else None, fresh_ms a)"
    using match_plain [OF assms, of 0 s] 0 by simp
  have "\<not> occurs_at S P s \<Longrightarrow> first_occurrence S P s None"
    using 0 by (auto simp: first_occurrence_def occurs_at_def)
  then show ?case
    using 0 m by (subst find_loop.simps) (auto simp: first_occurrence_def fresh_ms_def)
next
  case (Suc n s a)
  have m: "match S P (fresh_ms a) s 0 = Inr (if occurs_at S P s then Some (s + length P) else None, fresh_ms a)"
    using match_plain [OF assms, of 0 s] Suc by simp
  show ?case
  proof (cases "occurs_at S P s")
    case True
    then show ?thesis using m by (subst find_loop.simps) (auto simp: first_occurrence_def fresh_ms_def)
  next
    case False
    have eq: "find_loop S P 0 False a s = find_loop S P 0 False a (s + 1)"
    proof -
      have "s < length S" using Suc(2) by simp
      then show ?thesis using m False by (subst find_loop.simps) (simp add: fresh_ms_def)
    qed
    have split: "s \<le> j \<longleftrightarrow> j = s \<or> s + 1 \<le> j" for j by auto
    have later: "first_occurrence S P (s + 1) x \<Longrightarrow> first_occurrence S P s x" for x
      using False by (auto simp: first_occurrence_def split split: option.splits)
    obtain r where "find_loop S P 0 False a (s + 1) = Inr r"
      "case r of None \<Rightarrow> first_occurrence S P (s + 1) None
       | Some (s1, e, ms) \<Rightarrow> e = s1 + length P \<and> level ms = 0 \<and> first_occurrence S P (s + 1) (Some s1)"
    proof -
      have "n = length S - (s + 1)" "s + 1 \<le> length S" using Suc(2) by simp_all
      from Suc(1) [OF this, of a] that show thesis by blast
    qed
    then show ?thesis unfolding eq using later by (auto split: option.splits)
  qed
qed

lemma first_occurrence_unique: "first_occurrence S w s x \<Longrightarrow> first_occurrence S w s y \<Longrightarrow> x = y"
  by (cases x; cases y) (auto simp: first_occurrence_def, metis linorder_neqE_nat)

section \<open>Substitution keeps what is between the matches\<close>

text \<open>A replacement that gives each match back, and one that runs into no fault.\<close>

definition keeps :: "bytes \<Rightarrow> repl \<Rightarrow> bool" where
  "keeps S r = (\<forall>ms b s e b'. good S ms e \<and> s \<le> e \<and> add_value S ms r b s e = Inr b'
     \<longrightarrow> b' = b @ take (e - s) (drop s S))"

fun repl_no_fault :: "repl \<Rightarrow> bool" where
  "repl_no_fault (Rstring news) = True"
| "repl_no_fault (Rfun f) = (\<forall>vs. no_fault (f vs))"
| "repl_no_fault (Rtable f) = (\<forall>v. no_fault (f v))"

lemma add_s_loop_no_fault:
  "good S ms e \<Longrightarrow> s \<le> e \<Longrightarrow> no_fault (add_s_loop S ms s e news i b)"
proof (induction S ms s e news i b rule: add_s_loop.induct)
  case (1 S ms s e news i b)
  have m: "mem_at S s (e - s) = Inr (take (e - s) (drop s S))" using "1.prems" by (simp add: mem_at_in good_def)
  show ?case
  proof (cases "i < length news")
    case True
    show ?thesis
    proof (cases "news ! i = L_ESC")
      case esc: True
      obtain c where c: "sget news (i + 1) = Inr c" using sget_ok [of "i + 1" news] True by auto
      have d: "isdigit c \<Longrightarrow> c \<noteq> 48 \<Longrightarrow> 0 \<le> uint c - 49"
      proof -
        assume "isdigit c" "c \<noteq> 48"
        then have "48 < c" by (simp add: isdigit_def order_neq_le_trans)
        then have "uint (48 :: byte) < uint c" by (simp only: word_less_def)
        then show ?thesis by simp
      qed
      have "no_fault (if \<not> isdigit c then add_s_loop S ms s e news (i + 2) (b @ [c])
          else if c = 48 then sbind (mem_at S s (e - s)) (\<lambda>w. add_s_loop S ms s e news (i + 2) (b @ w))
          else sbind (push_onecapture S ms (uint c - 49) s e) (\<lambda>v. add_s_loop S ms s e news (i + 2) (b @ lval_text v)))"
        using "1.IH" (2-) c esc True "1.prems" m d
        by (auto intro!: no_fault_sbind push_onecapture_no_fault)
      then show ?thesis using True esc c by (subst add_s_loop.simps) simp
    next
      case False
      then show ?thesis using True "1.IH" (1) "1.prems" by (subst add_s_loop.simps) simp
    qed
  qed (subst add_s_loop.simps, simp)
qed

lemma add_result_no_fault: "e \<le> length S \<Longrightarrow> s \<le> e \<Longrightarrow> no_fault (add_result S b s e v)"
  by (cases v) (simp_all add: add_result_def mem_at_in)

lemma add_value_no_fault:
  assumes "good S ms e" "s \<le> e" "repl_no_fault r"
  shows "no_fault (add_value S ms r b s e)"
proof -
  have e: "e \<le> length S" using assms(1) by (simp add: good_def)
  show ?thesis
    using assms e
    by (cases r) (auto simp: add_value_def add_s_def add_s_loop_no_fault
        intro!: no_fault_sbind push_captures_no_fault push_onecapture_no_fault add_result_no_fault)
qed

lemma take_drop_split: "s \<le> e \<Longrightarrow> take (e - s) (drop s S) @ drop e S = drop s S"
  by (metis append_take_drop_id drop_drop le_add_diff_inverse2)

lemma gsub_loop_ok:
  assumes "repl_no_fault r" "p \<le> length P" "length S < 2 ^ 63"
  shows "length a = LUA_MAXCAPTURES \<Longrightarrow> src \<le> length S \<Longrightarrow>
    no_fault (gsub_loop S P p anchor r max_s a src n b) \<and>
    (\<forall>b' src' n'. gsub_loop S P p anchor r max_s a src n b = Inr (b', src', n') \<longrightarrow>
       src' \<le> length S \<and> n \<le> n' \<and> n' \<le> max max_s n \<and> (keeps S r \<longrightarrow> b' @ drop src' S = b @ drop src S))"
proof (induction "nat (max_s - n) + (length S - src)" arbitrary: a src n b rule: less_induct)
  case (less src n a b)
  note pre = less.prems(1,2) assms(3,2)
  define ok where "ok x \<longleftrightarrow> no_fault x \<and> (\<forall>b' src' n'. x = Inr (b', src', n') \<longrightarrow>
       src' \<le> length S \<and> n \<le> n' \<and> n' \<le> max max_s n \<and> (keeps S r \<longrightarrow> b' @ drop src' S = b @ drop src S))" for x
  have one: "drop src S = S ! src # drop (src + 1) S" if "src < length S"
    using that by (simp add: Cons_nth_drop_Suc)
  have again: "ok (gsub_loop S P p anchor r max_s a' src' n' b')"
    if "length a' = LUA_MAXCAPTURES" "src < src'" "src' \<le> length S" "n \<le> n'" "n' \<le> max_s" "n < max_s"
      "keeps S r \<Longrightarrow> b' @ drop src' S = b @ drop src S" for a' src' n' b'
    using less.hyps [of n' src' a' b'] that by (fastforce simp: ok_def)
  have "ok (gsub_loop S P p anchor r max_s a src n b)"
  proof (cases "n < max_s")
    case False
    then show ?thesis using less.prems by (subst gsub_loop.simps) (simp add: ok_def)
  next
    case nm: True
    show ?thesis
    proof (cases "match S P (fresh_ms a) src p")
      case (Inl e)
      then show ?thesis using match_fresh (1) [OF pre] nm
        by (subst gsub_loop.simps) (cases e, simp_all add: ok_def)
    next
      case (Inr y)
      obtain e ms where "y = (e, ms)" by (cases y)
      then have mt: "match S P (fresh_ms a) src p = Inr (e, ms)" using Inr by simp
      define step where "step k b1 = (if src < length S then
              (if anchor then Inr (b1 @ [S ! src], src + 1, k)
              else gsub_loop S P p anchor r max_s (capture ms) (src + 1) k (b1 @ [S ! src]))
            else Inr (b1, src, k))" for k b1
      have step: "ok (step k b1)" if "length (capture ms) = LUA_MAXCAPTURES" "n \<le> k" "k \<le> max_s" "keeps S r \<Longrightarrow> b1 = b" for k b1
        using that again [of "capture ms" "src + 1" k "b1 @ [S ! src]"] nm one less.prems(2)
        by (auto simp: step_def ok_def)
      show ?thesis
      proof (cases e)
        case None
        have cap: "length (capture ms) = LUA_MAXCAPTURES" using match_fresh (3) [OF pre] mt None by auto
        have "gsub_loop S P p anchor r max_s a src n b = step n b"
          using nm mt None by (subst gsub_loop.simps) (simp add: step_def)
        then show ?thesis using step [OF cap, of n b] nm by simp
      next
        case (Some e')
        have g: "src \<le> e'" "good S ms e'" using match_fresh (2) [OF pre] mt Some by auto
        then have cap: "length (capture ms) = LUA_MAXCAPTURES" "e' \<le> length S" by (simp_all add: good_def)
        show ?thesis
        proof (cases "add_value S ms r b src e'")
          case (Inl x)
          then show ?thesis using add_value_no_fault [OF g(2,1) assms(1), of b] nm mt Some
            by (subst gsub_loop.simps) (cases x, simp_all add: ok_def)
        next
          case (Inr b1)
          have kp: "b1 = b @ take (e' - src) (drop src S)" if "keeps S r"
            using that g Inr unfolding keeps_def by blast
          have eq: "gsub_loop S P p anchor r max_s a src n b =
              (if e' > src then (if anchor then Inr (b1, e', n + 1)
                 else gsub_loop S P p anchor r max_s (capture ms) e' (n + 1) b1)
               else step (n + 1) b1)"
            using nm mt Some Inr by (subst gsub_loop.simps) (simp add: step_def)
          show ?thesis
          proof (cases "e' > src")
            case True
            have kd: "b1 @ drop e' S = b @ drop src S" if "keeps S r"
              using kp [OF that] take_drop_split [OF g(1), of S] by simp
            then show ?thesis
              using True cap nm again [OF cap(1) True cap(2), of "n + 1" b1] unfolding eq by (auto simp: ok_def)
          next
            case False
            then have "e' = src" using g(1) by simp
            then show ?thesis using False step [OF cap(1), of "n + 1" b1] kp nm unfolding eq by simp
          qed
        qed
      qed
    qed
  qed
  then show ?case by (simp add: ok_def)
qed

lemma keeps_whole: "keeps S (Rstring (str ''%0''))"
proof -
  have "str ''%0'' = [L_ESC, 48]" by (simp add: str_def chr_def)
  then show ?thesis
    unfolding keeps_def add_value_def add_s_def
    by (auto simp: add_s_loop.simps [of _ _ _ _ "[L_ESC, 48]"] isdigit_def mem_at_in good_def)
qed

lemma keeps_false: "keeps S (Rfun (\<lambda>vs. Inr Rfalse))" "keeps S (Rtable (\<lambda>v. Inr Rfalse))"
  by (auto simp: keeps_def add_value_def add_result_def sbind_eq_Inr_iff mem_at_in good_def)

lemma pattern_start_le: "snd (pattern_start P) \<le> length P"
  by (cases P) (simp_all add: pattern_start_def)

lemma pattern_start_plain: "plain_pattern P \<Longrightarrow> pattern_start P = (False, 0)"
  using plain_patternD [of P "hd P"] by (cases P) (auto simp: pattern_start_def SPECIALS_def)

lemma start_pos_le: "start_pos i l \<le> l"
  by (simp add: start_pos_def Let_def nat_le_iff)

section \<open>Slices\<close>

lemma byte_loop_eq: "i + n \<le> length s \<Longrightarrow> byte_loop s i n = Inr (map uint (take n (drop i s)))"
proof (induction n arbitrary: i)
  case (Suc n)
  then show ?case by (simp add: Cons_nth_drop_Suc [symmetric])
qed simp

lemma char_loop_eq: "char_loop (map uint w) b = Inr (b @ w)"
  by (induction w arbitrary: b) simp_all

lemma posrelat_nonneg: "0 \<le> posrelat i l"
  by (simp add: posrelat_def Let_def)

section \<open>Format items\<close>

lemma skip_flags_ok:
  "p \<le> length f \<Longrightarrow> no_fault (skip_flags f p) \<and> (\<forall>q. skip_flags f p = Inr q \<longrightarrow> p \<le> q \<and> q \<le> length f)"
proof (induction f p rule: skip_flags.induct)
  case (1 f p)
  obtain c where c: "sget f p = Inr c" using sget_ok [OF "1.prems"] by auto
  show ?case
  proof (cases "c \<noteq> 0 \<and> strchr FLAGS c \<noteq> None")
    case True
    then have "p + 1 \<le> length f" using sget_less [OF c] by simp
    then show ?thesis using "1.IH" [OF c True] c True
      by (subst skip_flags.simps, subst (2) skip_flags.simps) auto
  next
    case False
    then show ?thesis using c "1.prems" by (subst skip_flags.simps, subst (2) skip_flags.simps) auto
  qed
qed

lemma skip_digit_ok:
  "p \<le> length f \<Longrightarrow> \<exists>q. skip_digit f p = Inr q \<and> p \<le> q \<and> q \<le> p + 1 \<and> q \<le> length f"
proof -
  assume p: "p \<le> length f"
  then obtain c where c: "sget f p = Inr c" using sget_ok by blast
  have "isdigit c \<Longrightarrow> c \<noteq> 0" by (auto simp: isdigit_def)
  then have "isdigit c \<Longrightarrow> p < length f" using sget_less [OF c] by blast
  then show ?thesis using c p by (auto simp: skip_digit_def)
qed

lemma scanformat_ok:
  assumes "start \<le> length f"
  shows "no_fault (scanformat f start) \<and>
    (\<forall>form p. scanformat f start = Inr (form, p) \<longrightarrow> start \<le> p \<and> p \<le> length f \<and> length form = p - start + 2 \<and> length form \<le> 12)"
proof (cases "skip_flags f start")
  case (Inl e)
  then show ?thesis using skip_flags_ok [OF assms] by (cases e) (simp_all add: scanformat_def)
next
  case (Inr p1)
  have p1: "start \<le> p1" "p1 \<le> length f" using skip_flags_ok [OF assms] Inr by auto
  show ?thesis
  proof (cases "p1 - start \<ge> length FLAGS + 1")
    case True
    then show ?thesis using Inr by (simp add: scanformat_def)
  next
    case False
    then have fl: "p1 - start \<le> 5" by (simp add: FLAGS_def str_def)
    obtain p2 where p2: "skip_digit f p1 = Inr p2" "p1 \<le> p2" "p2 \<le> p1 + 1" "p2 \<le> length f"
      using skip_digit_ok [OF p1(2)] by blast
    obtain p3 where p3: "skip_digit f p2 = Inr p3" "p2 \<le> p3" "p3 \<le> p2 + 1" "p3 \<le> length f"
      using skip_digit_ok [OF p2(4)] by blast
    obtain c where c: "sget f p3 = Inr c" using sget_ok [OF p3(4)] by auto
    have "\<exists>p6. (if c = C_DOT then sbind (skip_digit f (p3 + 1)) (skip_digit f) else Inr p3) = Inr p6
        \<and> p3 \<le> p6 \<and> p6 \<le> p3 + 3 \<and> p6 \<le> length f"
    proof (cases "c = C_DOT")
      case True
      then have "p3 + 1 \<le> length f" using sget_less [OF c] by simp
      then obtain p5 where p5: "skip_digit f (p3 + 1) = Inr p5" "p3 + 1 \<le> p5" "p5 \<le> p3 + 2" "p5 \<le> length f"
        using skip_digit_ok [of "p3 + 1" f] by auto
      obtain p6 where "skip_digit f p5 = Inr p6" "p5 \<le> p6" "p6 \<le> p5 + 1" "p6 \<le> length f"
        using skip_digit_ok [OF p5(4)] by blast
      then show ?thesis using p5 True by auto
    qed (use p3 in auto)
    then obtain p6 where p6: "(if c = C_DOT then sbind (skip_digit f (p3 + 1)) (skip_digit f) else Inr p3) = Inr p6"
      "p3 \<le> p6" "p6 \<le> p3 + 3" "p6 \<le> length f" by blast
    obtain d where d: "sget f p6 = Inr d" using sget_ok [OF p6(4)] by auto
    have m: "mem_at f start (p6 - start + 1) = Inr (take (p6 - start + 1) (drop start (f @ [0])))"
      using assms p6 p3 p2 p1 by (simp add: mem_at_def)
    have len: "length (take (p6 - start + 1) (drop start (f @ [0]))) = p6 - start + 1" "p6 - start \<le> 10"
      using assms p6 p3 p2 p1 fl by simp_all
    have "scanformat f start = (if isdigit d then raise ''invalid format (width or precision too long)''
        else Inr (L_ESC # take (p6 - start + 1) (drop start (f @ [0])), p6))"
      using Inr False p2(1) p3(1) c p6(1) d m len unfolding scanformat_def by (simp add: MAX_FORMAT_def)
    then show ?thesis using len p6 p3 p2 p1 by simp
  qed
qed

section \<open>Properties\<close>

text \<open>
  C16: \<open>string.find\<close> finds the first match. With a pattern, the search either raises a Lua error,
  or returns nil and the pattern matches at no starting position, or returns the position of the
  first starting point where it matches, with an end the relation allows. An anchored pattern is
  tried at one position only. No read leaves the two strings.
\<close>

theorem str_find_first_match:
  assumes "length a = LUA_MAXCAPTURES" "length S < 2 ^ 63" "\<not> plain" "\<not> no_specials P"
  shows "case str_find S P i plain a of
      Inl (CFault f) \<Rightarrow> False
    | Inl (LuaError msg) \<Rightarrow> True
    | Inr vs \<Rightarrow>
        (vs = [Lnil] \<and> \<not> (\<exists>j e C. start_pos i (length S) \<le> j \<and> j \<le> length S
            \<and> (fst (pattern_start P) \<longrightarrow> j = start_pos i (length S)) \<and> matches S P j (snd (pattern_start P)) [] e C))
        \<or> (\<exists>s1 e C ws. vs = Lint (int s1 + 1) # Lint (int e) # ws \<and> start_pos i (length S) \<le> s1
            \<and> matches S P s1 (snd (pattern_start P)) [] e C
            \<and> \<not> (\<exists>j e C. start_pos i (length S) \<le> j \<and> j < s1 \<and> matches S P j (snd (pattern_start P)) [] e C))"
proof -
  obtain anchor p where ps: "pattern_start P = (anchor, p)" by (cases "pattern_start P")
  have p: "p \<le> length P" using pattern_start_le [of P] ps by simp
  define s where "s = start_pos i (length S)"
  have fl: "case find_loop S P p anchor a s of
       Inl e \<Rightarrow> \<exists>msg. e = LuaError msg
     | Inr (Some (s1, e, ms)) \<Rightarrow> s \<le> s1 \<and> s1 \<le> e \<and> (anchor \<longrightarrow> s1 = s) \<and> good S ms e \<and> matches S P s1 p [] e (caps_of ms)
         \<and> (\<forall>j e C. s \<le> j \<and> j < s1 \<longrightarrow> \<not> matches S P j p [] e C)
     | Inr None \<Rightarrow> (\<forall>j e C. s \<le> j \<and> j \<le> length S \<and> (anchor \<longrightarrow> j = s) \<longrightarrow> \<not> matches S P j p [] e C)"
    unfolding s_def by (rule find_loop_ok [OF p assms(2,1) start_pos_le])
  have eq: "str_find S P i plain a = sbind (find_loop S P p anchor a s) (\<lambda>r.
        case r of None \<Rightarrow> Inr [Lnil]
        | Some (s1, e, ms) \<Rightarrow> sbind (push_captures S ms False 0 0) (\<lambda>vs. Inr (Lint (int s1 + 1) # Lint (int e) # vs)))"
    using assms(3,4) ps by (simp add: str_find_def str_find_aux_def s_def Let_def)
  show ?thesis
  proof (cases "find_loop S P p anchor a s")
    case (Inl e)
    then show ?thesis using fl eq by auto
  next
    case (Inr r)
    show ?thesis
    proof (cases r)
      case None
      then show ?thesis using fl eq Inr ps by (auto simp: s_def)
    next
      case (Some x)
      obtain s1 e ms where x: "x = (s1, e, ms)" by (cases x)
      have f: "s \<le> s1" "good S ms e" "matches S P s1 p [] e (caps_of ms)"
        "\<forall>j e C. s \<le> j \<and> j < s1 \<longrightarrow> \<not> matches S P j p [] e C"
        using fl Inr Some x by auto
      have pc: "no_fault (push_captures S ms False 0 0)"
        using push_from_no_fault [OF f(2) le_refl, of 0 "level ms"] push_from_inside [of 0 "level ms" ms S e e 0 0]
        by (simp add: push_captures_def Let_def)
      show ?thesis
      proof (cases "push_captures S ms False 0 0")
        case (Inl e')
        then show ?thesis using pc eq Inr Some x by (cases e') simp_all
      next
        case (Inr vs)
        then have "str_find S P i plain a = Inr (Lint (int s1 + 1) # Lint (int e) # vs)"
          using eq \<open>find_loop S P p anchor a s = Inr r\<close> Some x by simp
        then show ?thesis using f ps by (auto simp: s_def)
      qed
    qed
  qed
qed

text \<open>A source of captures to start with.\<close>

definition no_caps :: "(nat \<times> int) list" where "no_caps = replicate LUA_MAXCAPTURES (0, 0)"

lemma length_no_caps: "length no_caps = LUA_MAXCAPTURES"
  by (simp add: no_caps_def)

theorem str_find_first_match_witness:
  "case str_find (str ''the end'') (str ''%sen'') 1 False no_caps of
      Inl (CFault f) \<Rightarrow> False
    | Inl (LuaError msg) \<Rightarrow> True
    | Inr vs \<Rightarrow>
        (vs = [Lnil] \<and> \<not> (\<exists>j e C. start_pos 1 (length (str ''the end'')) \<le> j \<and> j \<le> length (str ''the end'')
            \<and> (fst (pattern_start (str ''%sen'')) \<longrightarrow> j = start_pos 1 (length (str ''the end'')))
            \<and> matches (str ''the end'') (str ''%sen'') j (snd (pattern_start (str ''%sen''))) [] e C))
        \<or> (\<exists>s1 e C ws. vs = Lint (int s1 + 1) # Lint (int e) # ws \<and> start_pos 1 (length (str ''the end'')) \<le> s1
            \<and> matches (str ''the end'') (str ''%sen'') s1 (snd (pattern_start (str ''%sen''))) [] e C
            \<and> \<not> (\<exists>j e C. start_pos 1 (length (str ''the end'')) \<le> j \<and> j < s1
                \<and> matches (str ''the end'') (str ''%sen'') j (snd (pattern_start (str ''%sen''))) [] e C))"
  by (rule str_find_first_match) (simp_all add: length_no_caps str_def chr_def no_specials_def SPECIALS_def)

text \<open>
  C17: the shortcut of \<open>string.find\<close>. For a pattern without special characters (and without a
  closing parenthesis, which the test misses) the plain search that the code takes gives the
  positions the matcher would have found.
\<close>

theorem find_shortcut_equivalent:
  assumes "plain_pattern P" "length S < 2 ^ 63"
  shows "\<exists>r. find_loop S P 0 False a (start_pos i (length S)) = Inr r \<and>
    str_find S P i plain a = Inr (case r of
        None \<Rightarrow> [Lnil]
      | Some (s1, e, ms) \<Rightarrow> [Lint (int s1 + 1), Lint (int e)])"
proof -
  define s where "s = start_pos i (length S)"
  obtain r where r: "find_loop S P 0 False a s = Inr r"
    "case r of None \<Rightarrow> first_occurrence S P s None
     | Some (s1, e, ms) \<Rightarrow> e = s1 + length P \<and> level ms = 0 \<and> first_occurrence S P s (Some s1)"
    using find_loop_plain [OF assms start_pos_le, of a i] unfolding s_def by blast
  have "first_occurrence S P s (lmemfind S s (length S - s) P)"
    unfolding s_def by (rule lmemfind_first [OF start_pos_le])
  then have l: "lmemfind S s (length S - s) P = (case r of None \<Rightarrow> None | Some (s1, e, ms) \<Rightarrow> Some s1)"
    using r(2) first_occurrence_unique by (cases r) (auto split: prod.splits)
  have "no_specials P" using assms(1) by (simp add: plain_pattern_def)
  then have "str_find S P i plain a = Inr (case r of None \<Rightarrow> [Lnil] | Some (s1, e, ms) \<Rightarrow> [Lint (int s1 + 1), Lint (int e)])"
    using l r(2) by (cases r) (auto simp: str_find_def str_find_aux_def Let_def s_def)
  with r(1) show ?thesis by (auto simp: s_def)
qed

lemma plain_ca: "plain_pattern (str ''ca'')"
  by code_simp

theorem find_shortcut_equivalent_witness:
  "\<exists>r. find_loop (str ''abcabc'') (str ''ca'') 0 False no_caps (start_pos 1 (length (str ''abcabc''))) = Inr r \<and>
    str_find (str ''abcabc'') (str ''ca'') 1 False no_caps = Inr (case r of
        None \<Rightarrow> [Lnil]
      | Some (s1, e, ms) \<Rightarrow> [Lint (int s1 + 1), Lint (int e)])"
  by (rule find_shortcut_equivalent [OF plain_ca]) (simp add: str_def)

text \<open>
  C18: \<open>string.gsub\<close> loses nothing between the matches. With a replacement that itself runs into
  no fault it never faults and makes at most the allowed number of substitutions; and when every
  match is replaced by itself (by \<open>%0\<close>, or by a function or table that gives nil or false), the
  result is the source.
\<close>

theorem gsub_safe_and_conservative:
  assumes "length a = LUA_MAXCAPTURES" "length S < 2 ^ 63" "repl_no_fault r"
  shows "case str_gsub S P r max_s a of
      Inl (CFault f) \<Rightarrow> False
    | Inl (LuaError msg) \<Rightarrow> True
    | Inr (b, n) \<Rightarrow> 0 \<le> n \<and> n \<le> max 0 max_s
        \<and> (r \<in> {Rstring (str ''%0''), Rfun (\<lambda>vs. Inr Rfalse), Rtable (\<lambda>v. Inr Rfalse)} \<longrightarrow> b = S)"
proof -
  obtain anchor p where ps: "pattern_start P = (anchor, p)" by (cases "pattern_start P")
  have p: "p \<le> length P" using pattern_start_le [of P] ps by simp
  have g: "no_fault (gsub_loop S P p anchor r max_s a 0 0 []) \<and>
    (\<forall>b' src' n'. gsub_loop S P p anchor r max_s a 0 0 [] = Inr (b', src', n') \<longrightarrow>
       src' \<le> length S \<and> 0 \<le> n' \<and> n' \<le> max max_s 0 \<and> (keeps S r \<longrightarrow> b' @ drop src' S = [] @ drop 0 S))"
    by (rule gsub_loop_ok [OF assms(3) p assms(2,1)]) simp
  have k: "r \<in> {Rstring (str ''%0''), Rfun (\<lambda>vs. Inr Rfalse), Rtable (\<lambda>v. Inr Rfalse)} \<Longrightarrow> keeps S r"
    using keeps_whole keeps_false by auto
  show ?thesis
  proof (cases "gsub_loop S P p anchor r max_s a 0 0 []")
    case (Inl e)
    then show ?thesis using g ps by (cases e) (simp_all add: str_gsub_def)
  next
    case (Inr x)
    obtain b src n where x: "x = (b, src, n)" by (cases x)
    have "src \<le> length S" "0 \<le> n" "n \<le> max 0 max_s" "keeps S r \<longrightarrow> b @ drop src S = S"
      using g Inr x by (simp_all add: max.commute)
    moreover have "str_gsub S P r max_s a = Inr (b @ drop src S, n)"
      using Inr x ps \<open>src \<le> length S\<close> by (simp add: str_gsub_def mem_at_in)
    moreover have "r \<in> {Rstring (str ''%0''), Rfun (\<lambda>vs. Inr Rfalse), Rtable (\<lambda>v. Inr Rfalse)} \<longrightarrow> b @ drop src S = S"
      using k calculation(4) by blast
    ultimately show ?thesis by (simp del: insert_iff)
  qed
qed

theorem gsub_safe_and_conservative_witness:
  "case str_gsub (str ''hello world'') (str ''(o)%s?'') (Rstring (str ''%0'')) 12 no_caps of
      Inl (CFault f) \<Rightarrow> False
    | Inl (LuaError msg) \<Rightarrow> True
    | Inr (b, n) \<Rightarrow> 0 \<le> n \<and> n \<le> max 0 12
        \<and> (Rstring (str ''%0'') \<in> {Rstring (str ''%0''), Rfun (\<lambda>vs. Inr Rfalse), Rtable (\<lambda>v. Inr Rfalse)}
            \<longrightarrow> b = str ''hello world'')"
  by (rule gsub_safe_and_conservative) (simp_all add: length_no_caps str_def)

text \<open>
  Slices by bytes. For every string below 2 GB and all positions, negative and out of range
  ones included, the numbers \<open>string.byte\<close> gives, put together by \<open>string.char\<close>, are the slice
  \<open>string.sub\<close> gives, and that slice is read within the string.
\<close>

theorem byte_char_sub:
  assumes "length s < 2 ^ 31" "j < 2 ^ 63"
  shows "\<exists>vs w. str_byte s i (Some j) = Inr vs \<and> str_char vs = Inr w \<and> str_sub s i j = Inr w"
proof -
  define x where "x = (if posrelat i (length s) < 1 then 1 else posrelat i (length s))"
  define y where "y = (if posrelat j (length s) > int (length s) then int (length s) else posrelat j (length s))"
  have len: "int (length s) < 2147483648" using assms(1) by simp
  have nn: "0 \<le> posrelat i (length s)" "0 \<le> posrelat j (length s)" by (rule posrelat_nonneg)+
  have bj: "posrelat j (length s) < 2 ^ 64" using assms(2) len by (simp add: posrelat_def Let_def)
  have x: "(if posrelat i (length s) \<le> 0 then 1 else posrelat i (length s)) = x" "1 \<le> x"
    using nn by (simp_all add: x_def)
  have y: "(if posrelat j (length s) mod 2 ^ 64 > int (length s) then int (length s) else posrelat j (length s)) = y"
    "y \<le> int (length s)"
    using nn bj by (simp_all add: y_def)
  have bs: "str_byte s i (Some j) = (if x > y then Inr []
        else (let n = cast_int (y - x + 1) in if x + n \<le> y then raise ''string slice too long''
              else byte_loop s (nat (x - 1)) (nat n)))"
    by (simp only: str_byte_def Let_def option.case x(1) y(1))
  have sb: "str_sub s i j = (if x \<le> y then mem_at s (nat (x - 1)) (nat (y - x + 1)) else Inr [])"
    by (simp add: str_sub_def Let_def x_def y_def)
  show ?thesis
  proof (cases "x \<le> y")
    case True
    have r: "0 \<le> y - x + 1" "y - x + 1 \<le> int_max" "nat (x - 1) + nat (y - x + 1) \<le> length s"
      using True x(2) y(2) len by (simp_all add: int_max_def)
    have c: "cast_int (y - x + 1) = y - x + 1" using r by (intro cast_int_id) (simp_all add: int_min_def)
    show ?thesis
      using True unfolding bs sb Let_def c
      by (simp add: byte_loop_eq [OF r(3)] mem_at_in [OF r(3)] str_char_def char_loop_eq)
  next
    case False
    then show ?thesis unfolding bs sb by (simp add: str_char_def)
  qed
qed

theorem byte_char_sub_witness:
  "\<exists>vs w. str_byte (str ''hello'') (- 3) (Some 9) = Inr vs \<and> str_char vs = Inr w \<and> str_sub (str ''hello'') (- 3) 9 = Inr w"
  by (rule byte_char_sub) (simp_all add: str_def)

text \<open>
  Format items fit. Whatever the format string is, scanning an item stays within it and
  the item copied, with the length modifier added to it, stays within the buffer for it.
\<close>

theorem scanformat_fits:
  assumes "start \<le> length f"
  shows "case scanformat f start of
      Inl (CFault e) \<Rightarrow> False
    | Inl (LuaError msg) \<Rightarrow> True
    | Inr (form, p) \<Rightarrow> start \<le> p \<and> p \<le> length f \<and> length form + 1 \<le> MAX_FORMAT
        \<and> (\<exists>form'. addintlen form = Inr form' \<and> length form' + 1 \<le> MAX_FORMAT)"
proof (cases "scanformat f start")
  case (Inl e)
  then show ?thesis using scanformat_ok [OF assms] by (cases e) simp_all
next
  case (Inr x)
  obtain form p where x: "x = (form, p)" by (cases x)
  have "start \<le> p" "p \<le> length f" "2 \<le> length form" "length form \<le> 12"
    using scanformat_ok [OF assms] Inr x by auto
  then show ?thesis using Inr x by (auto simp: addintlen_def Let_def LUA_INTFRMLEN_def str_def MAX_FORMAT_def)
qed

theorem scanformat_fits_witness:
  "case scanformat (str ''%-010.12d'') 1 of
      Inl (CFault e) \<Rightarrow> False
    | Inl (LuaError msg) \<Rightarrow> True
    | Inr (form, p) \<Rightarrow> 1 \<le> p \<and> p \<le> length (str ''%-010.12d'') \<and> length form + 1 \<le> MAX_FORMAT
        \<and> (\<exists>form'. addintlen form = Inr form' \<and> length form' + 1 \<le> MAX_FORMAT)"
  by (rule scanformat_fits) (simp add: str_def)

end
