(* ===== verification/LObject.thy ===== *)
theory LObject
  imports LuaBase
begin

text \<open>
  Lua values and the helpers of \<open>lobject.c\<close>: the floating point byte, the logarithm, raw equality
  and the name of a chunk; and the hash function of \<open>lstring.c\<close>.
\<close>

section \<open>Values\<close>

text \<open>
  A number is an integral double, another double that is not NaN (by a code), or NaN; the two
  zeros are one number. Strings are interned, so a reference to one is its contents; another
  object is its type and its address. A dead key keeps the reference only.
\<close>

datatype lnum = Nint int | Nfrac nat | Nnan

datatype gctype = TTable | TFunction | TUserdata | TThread

datatype gcref = StrRef bytes | ObjRef gctype nat

datatype TValue = Nil | Boolean bool | LightUD nat | Number lnum | Collectable gcref | DeadKey gcref

abbreviation "String s \<equiv> Collectable (StrRef s)"

definition luai_numeq :: "lnum \<Rightarrow> lnum \<Rightarrow> bool" where
  "luai_numeq a b = (a = b \<and> a \<noteq> Nnan)"

fun luaO_rawequalObj :: "TValue \<Rightarrow> TValue \<Rightarrow> bool" where
  "luaO_rawequalObj Nil Nil = True"
| "luaO_rawequalObj (Number a) (Number b) = luai_numeq a b"
| "luaO_rawequalObj (Boolean a) (Boolean b) = (a = b)"
| "luaO_rawequalObj (LightUD a) (LightUD b) = (a = b)"
| "luaO_rawequalObj (Collectable a) (Collectable b) = (a = b)"
| "luaO_rawequalObj (DeadKey a) (DeadKey b) = (a = b)"
| "luaO_rawequalObj _ _ = False"

lemma rawequal_iff: "luaO_rawequalObj a b \<longleftrightarrow> a = b \<and> a \<noteq> Number Nnan"
  by (cases a; cases b) (auto simp: luai_numeq_def)

section \<open>Floating point bytes\<close>

function int2fb_loop :: "nat \<Rightarrow> nat \<Rightarrow> nat \<times> nat" where
  "int2fb_loop x e = (if x \<ge> 16 then int2fb_loop (((x + 1) mod 2 ^ 32) div 2) (e + 1) else (x, e))"
  by pat_completeness auto
termination
proof (relation "measure fst", simp)
  fix x e :: nat
  assume x: "16 \<le> x"
  have "((x + 1) mod 2 ^ 32) div 2 \<le> (x + 1) div 2" by (intro div_le_mono) (simp add: mod_less_eq_dividend)
  also have "\<dots> < x" using x by simp
  finally show "((((x + 1) mod 2 ^ 32) div 2, e + 1), (x, e)) \<in> measure fst" by simp
qed

declare int2fb_loop.simps [simp del]

definition luaO_int2fb :: "nat \<Rightarrow> nat" where
  "luaO_int2fb x = (let (x, e) = int2fb_loop x 0 in if x < 8 then x else push_bit 3 (e + 1) OR (x - 8))"

definition luaO_fb2int :: "nat \<Rightarrow> nat" where
  "luaO_fb2int x = (let e = drop_bit 3 x AND 31 in if e = 0 then x else push_bit (e - 1) ((x AND 7) + 8))"

section \<open>Logarithm\<close>

definition log_2 :: "nat list" where
  "log_2 =
  [0, 1, 2, 2, 3, 3, 3, 3, 4, 4, 4, 4, 4, 4, 4, 4, 5, 5, 5, 5, 5, 5, 5, 5, 5, 5, 5, 5, 5, 5, 5, 5,
   6, 6, 6, 6, 6, 6, 6, 6, 6, 6, 6, 6, 6, 6, 6, 6, 6, 6, 6, 6, 6, 6, 6, 6, 6, 6, 6, 6, 6, 6, 6, 6,
   7, 7, 7, 7, 7, 7, 7, 7, 7, 7, 7, 7, 7, 7, 7, 7, 7, 7, 7, 7, 7, 7, 7, 7, 7, 7, 7, 7, 7, 7, 7, 7,
   7, 7, 7, 7, 7, 7, 7, 7, 7, 7, 7, 7, 7, 7, 7, 7, 7, 7, 7, 7, 7, 7, 7, 7, 7, 7, 7, 7, 7, 7, 7, 7,
   8, 8, 8, 8, 8, 8, 8, 8, 8, 8, 8, 8, 8, 8, 8, 8, 8, 8, 8, 8, 8, 8, 8, 8, 8, 8, 8, 8, 8, 8, 8, 8,
   8, 8, 8, 8, 8, 8, 8, 8, 8, 8, 8, 8, 8, 8, 8, 8, 8, 8, 8, 8, 8, 8, 8, 8, 8, 8, 8, 8, 8, 8, 8, 8,
   8, 8, 8, 8, 8, 8, 8, 8, 8, 8, 8, 8, 8, 8, 8, 8, 8, 8, 8, 8, 8, 8, 8, 8, 8, 8, 8, 8, 8, 8, 8, 8,
   8, 8, 8, 8, 8, 8, 8, 8, 8, 8, 8, 8, 8, 8, 8, 8, 8, 8, 8, 8, 8, 8, 8, 8, 8, 8, 8, 8, 8, 8, 8, 8]"

function log2_loop :: "nat \<Rightarrow> int \<Rightarrow> int" where
  "log2_loop x l = (if x \<ge> 256 then log2_loop (drop_bit 8 x) (l + 8) else l + int (log_2 ! x))"
  by pat_completeness auto
termination
  by (relation "measure fst") (auto simp: drop_bit_eq_div)

declare log2_loop.simps [simp del]

definition luaO_log2 :: "nat \<Rightarrow> int" where
  "luaO_log2 x = log2_loop x (- 1)"

text \<open>\<open>ceillog2(x)\<close> on \<open>unsigned int\<close>: the subtraction wraps.\<close>

definition ceillog2 :: "nat \<Rightarrow> int" where
  "ceillog2 x = luaO_log2 ((x + 2 ^ 32 - 1) mod 2 ^ 32) + 1"

section \<open>Hash of a string\<close>

function hash_loop :: "bytes \<Rightarrow> nat \<Rightarrow> nat \<Rightarrow> 32 word \<Rightarrow> 32 word" where
  "hash_loop s step l1 h =
    (if l1 \<ge> step \<and> 0 < step then
       hash_loop s step (l1 - step) (h XOR (push_bit 5 h + drop_bit 2 h + ucast (s ! (l1 - 1))))
     else h)"
  by pat_completeness auto
termination
  by (relation "measure (\<lambda>(s, step, l1, h). l1)") auto

declare hash_loop.simps [simp del]

definition str_hash :: "bytes \<Rightarrow> 32 word" where
  "str_hash s = hash_loop s (length s div 32 + 1) (length s) (word_of_nat (length s))"

section \<open>Chunk names\<close>

text \<open>The text written to \<open>out\<close>, without its NUL; \<open>LUA_IDSIZE\<close> bytes are available.\<close>

definition LUA_IDSIZE :: nat where "LUA_IDSIZE = 60"

definition strcspn_nl :: "bytes \<Rightarrow> nat" where
  "strcspn_nl s = length (takeWhile (\<lambda>c. c \<noteq> 10 \<and> c \<noteq> 13) s)"

definition luaO_chunkid :: "bytes \<Rightarrow> nat \<Rightarrow> bytes" where
  "luaO_chunkid source bufflen =
    (if source \<noteq> [] \<and> hd source = 61 then take (bufflen - 1) (tl source)
     else if source \<noteq> [] \<and> hd source = 64 then
       (let source = tl source; bufflen = bufflen - 8; l = length source in
        if l > bufflen then str ''...'' @ drop (l - bufflen) source else source)
     else
       (let bufflen = bufflen - 17; len = strcspn_nl source; len = (if len > bufflen then bufflen else len) in
        str ''[string \"'' @ (if len < length source then take len source @ str ''...'' else source) @ str ''\"]''))"

section \<open>Lemmas\<close>

lemma fb_or: "b < 8 \<Longrightarrow> push_bit 3 a OR b = 8 * a + (b :: nat)"
proof -
  assume b: "b < 8"
  have "push_bit 3 a OR b = push_bit 3 a + b"
  proof (rule disjunctive_add [symmetric])
    fix n
    have "\<not> bit b n" if "3 \<le> n"
    proof -
      have "take_bit 3 b = b" using b by (simp add: take_bit_eq_mod)
      then show ?thesis using that by (metis bit_take_bit_iff linorder_not_less)
    qed
    then show "\<not> bit (push_bit 3 a) n \<or> \<not> bit b n" by (cases "3 \<le> n") (simp_all add: bit_simps)
  qed
  then show ?thesis by (simp add: push_bit_eq_mult)
qed

lemma nat_and_7: "(b :: nat) AND 7 = b mod 8"
  using take_bit_eq_mask [of 3 b] by (simp add: mask_eq_exp_minus_1 take_bit_eq_mod)

lemma nat_and_31: "(b :: nat) AND 31 = b mod 32"
  using take_bit_eq_mask [of 5 b] by (simp add: mask_eq_exp_minus_1 take_bit_eq_mod)

lemma int2fb_loop_bounds:
  "x < 2 ^ 32 - 1 \<Longrightarrow> int2fb_loop x e = (y, f) \<Longrightarrow> e \<le> f \<and> y < 16 \<and> (8 \<le> y \<or> e = f \<and> x = y)
    \<and> x \<le> y * 2 ^ (f - e) \<and> y * 2 ^ (f - e) < x + 2 ^ (f - e)"
proof (induction x e arbitrary: y f rule: int2fb_loop.induct)
  case (1 x e)
  show ?case
  proof (cases "x \<ge> 16")
    case False
    then show ?thesis using "1.prems"(2) by (subst (asm) int2fb_loop.simps) auto
  next
    case True
    define x' where "x' = (x + 1) div 2"
    have x': "((x + 1) mod 2 ^ 32) div 2 = x'" using "1.prems"(1) by (simp add: x'_def)
    have b: "8 \<le> x'" "x \<le> 2 * x'" "2 * x' \<le> x + 1" "x' < 2 ^ 32 - 1" using True "1.prems"(1) by (simp_all add: x'_def)
    have "int2fb_loop x' (e + 1) = (y, f)" using "1.prems"(2) True x' by (subst (asm) int2fb_loop.simps) simp
    from "1.IH" [OF True, unfolded x', OF b(4) this]
    have i: "e + 1 \<le> f" "y < 16" "8 \<le> y \<or> e + 1 = f \<and> x' = y" "x' \<le> y * 2 ^ (f - (e + 1))"
      "y * 2 ^ (f - (e + 1)) < x' + 2 ^ (f - (e + 1))" by auto
    have p: "2 ^ (f - e) = 2 * 2 ^ (f - (e + 1))" using i(1) by (metis Suc_diff_le Suc_eq_plus1 diff_Suc_Suc power_Suc)
    define q :: nat where "q = 2 ^ (f - (e + 1))"
    have "8 \<le> y" using i(3) b(1) by auto
    moreover have "x \<le> y * 2 ^ (f - e) \<and> y * 2 ^ (f - e) < x + 2 ^ (f - e)"
      using i(4,5) b(2,3) unfolding p q_def [symmetric] by (simp add: algebra_simps)
    ultimately show ?thesis using i(1,2) by simp
  qed
qed

lemma fb2int_int2fb:
  assumes "x \<le> 2 ^ 30"
  shows "x \<le> luaO_fb2int (luaO_int2fb x) \<and> 7 * luaO_fb2int (luaO_int2fb x) \<le> 8 * x
    \<and> (x < 16 \<longrightarrow> luaO_fb2int (luaO_int2fb x) = x)"
proof -
  obtain y f where yf: "int2fb_loop x 0 = (y, f)" by (cases "int2fb_loop x 0")
  have b: "y < 16" "8 \<le> y \<or> f = 0 \<and> x = y" "x \<le> y * 2 ^ f" "y * 2 ^ f < x + 2 ^ f"
    using int2fb_loop_bounds [OF _ yf] assms by auto
  show ?thesis
  proof (cases "y < 8")
    case True
    then have x: "x = y" "x < 8" using b(2) by auto
    have "luaO_int2fb x = x" using yf x True by (simp add: luaO_int2fb_def)
    moreover have "luaO_fb2int x = x" using x(2) by (simp add: luaO_fb2int_def drop_bit_eq_div)
    ultimately show ?thesis using x by simp
  next
    case False
    have f30: "f < 31"
    proof (rule ccontr)
      assume "\<not> f < 31"
      then have "(2::nat) ^ 31 \<le> 2 ^ f" by (intro power_increasing) auto
      moreover have "2 ^ f * (y - 1) < x" using b(4) False by (cases y) (simp_all add: algebra_simps)
      moreover have "2 ^ f * 1 \<le> 2 ^ f * (y - 1)" using False by (intro mult_le_mono) auto
      ultimately have "2 ^ 31 < x" by linarith
      then show False using assms by simp
    qed
    have i: "luaO_int2fb x = 8 * (f + 1) + (y - 8)"
      using yf False fb_or [of "y - 8" "f + 1"] b(1) by (simp add: luaO_int2fb_def)
    have d: "drop_bit 3 (8 * (f + 1) + (y - 8)) = f + 1" using b(1) by (simp add: drop_bit_eq_div)
    have m: "(8 * (f + 1) + (y - 8)) AND 7 = y - 8" 
    proof -
      have "8 * (f + 1) + (y - 8) = (y - 8) + (f + 1) * 8" by simp
      then have "(8 * (f + 1) + (y - 8)) mod 8 = (y - 8) mod 8" by (simp only: mod_mult_self1)
      then show ?thesis using b(1) by (simp only: nat_and_7) simp
    qed
    have a: "(f + 1) AND 31 = f + 1" if "f < 31" using that by (simp only: nat_and_31) simp
    have v: "luaO_fb2int (luaO_int2fb x) = y * 2 ^ f"
      unfolding luaO_fb2int_def Let_def i d m a [OF f30] using False by (simp add: push_bit_eq_mult)
    have "7 * 2 ^ f \<le> (y - 1) * 2 ^ f" using False by (intro mult_le_mono) auto
    moreover have "(y - 1) * 2 ^ f < x" using b(4) False by (cases y) (simp_all add: algebra_simps)
    ultimately have "7 * 2 ^ f < x" by linarith
    then have "7 * (y * 2 ^ f) \<le> 8 * x" using b(4) by linarith
    moreover have "x < 16 \<longrightarrow> y * 2 ^ f = x"
      using yf b(4) by (subst (asm) int2fb_loop.simps) auto
    ultimately show ?thesis using b(3) v by simp
  qed
qed

lemma log_2_blocks:
  "log_2 = [0, 1] @ replicate 2 2 @ replicate 4 3 @ replicate 8 4 @ replicate 16 5 @ replicate 32 6
    @ replicate 64 7 @ replicate 128 8"
  by (simp add: log_2_def numeral_eq_Suc)

lemma log_2_nth:
  assumes "1 \<le> x" "x < 256"
  shows "1 \<le> log_2 ! x \<and> 2 ^ (log_2 ! x - 1) \<le> x \<and> x < 2 ^ (log_2 ! x)"
proof -
  consider "x = 1" | "2 \<le> x" "x < 4" | "4 \<le> x" "x < 8" | "8 \<le> x" "x < 16" | "16 \<le> x" "x < 32" | "32 \<le> x" "x < 64"
    | "64 \<le> x" "x < 128" | "128 \<le> x" "x < 256" using assms by linarith
  then show ?thesis by cases (auto simp: log_2_blocks nth_append)
qed

lemma log2_loop_spec: "0 < x \<Longrightarrow> \<exists>k. log2_loop x l = l + 1 + int k \<and> 2 ^ k \<le> x \<and> x < 2 ^ (k + 1)"
proof (induction x l rule: log2_loop.induct)
  case (1 x l)
  show ?case
  proof (cases "x \<ge> 256")
    case True
    have d: "drop_bit 8 x = x div 256" by (simp add: drop_bit_eq_div)
    obtain k where k: "log2_loop (x div 256) (l + 8) = l + 8 + 1 + int k" "2 ^ k \<le> x div 256" "x div 256 < 2 ^ (k + 1)"
    proof -
      have "0 < x div 256" using True by (simp add: div_greater_zero_iff)
      then show thesis using "1.IH" [OF True] that unfolding d by auto
    qed
    have "256 * (x div 256) \<le> x" "x < 256 * (x div 256 + 1)" by simp_all
    then have "2 ^ (k + 8) \<le> x" "x < 2 ^ (k + 8 + 1)"
      using k(2,3) by (simp_all add: power_add)
    moreover have "log2_loop x l = l + 1 + int (k + 8)"
      using True k(1) d by (subst log2_loop.simps) simp
    ultimately show ?thesis by blast
  next
    case False
    then have t: "1 \<le> log_2 ! x" "2 ^ (log_2 ! x - 1) \<le> x" "x < 2 ^ (log_2 ! x)"
      using log_2_nth [of x] "1.prems" by auto
    then show ?thesis
      using False by (intro exI [of _ "log_2 ! x - 1"]) (subst log2_loop.simps, simp)
  qed
qed

lemma log2_0: "luaO_log2 0 = - 1"
  by (simp add: luaO_log2_def log2_loop.simps log_2_def)

lemma ceillog2_spec:
  assumes "1 \<le> x" "x < 2 ^ 32"
  shows "\<exists>k. ceillog2 x = int k \<and> x \<le> 2 ^ k \<and> (k = 0 \<or> 2 ^ (k - 1) < x)"
proof -
  have m: "(x + 2 ^ 32 - 1) mod 2 ^ 32 = x - 1"
  proof -
    have "x + 2 ^ 32 - 1 = (x - 1) + 2 ^ 32" using assms(1) by linarith
    then have "(x + 2 ^ 32 - 1) mod 2 ^ 32 = (x - 1) mod 2 ^ 32" by (simp only: mod_add_self2)
    then show ?thesis using assms(2) by simp
  qed
  show ?thesis
  proof (cases "x = 1")
    case True
    then show ?thesis using m log2_0 by (simp add: ceillog2_def)
  next
    case False
    then have "0 < x - 1" using assms by simp
    from log2_loop_spec [OF this, of "- 1"] obtain k where
      "log2_loop (x - 1) (- 1) = int k" "2 ^ k \<le> x - 1" "x - 1 < 2 ^ (k + 1)" by auto
    then show ?thesis
      using m assms by (intro exI [of _ "k + 1"]) (auto simp: ceillog2_def luaO_log2_def)
  qed
qed

lemma length_str [simp]: "length (str s) = length s"
  by (simp add: str_def)

lemma luaO_chunkid_fits: "length (luaO_chunkid source LUA_IDSIZE) < LUA_IDSIZE"
  by (auto simp: luaO_chunkid_def LUA_IDSIZE_def Let_def min_def)

section \<open>Properties\<close>

text \<open>
  The floating point byte rounds up. For every size up to 2 ^ 30 the byte decodes to a number
  that is not smaller than it and larger by at most a seventh, and small sizes are kept exactly.
\<close>

theorem fb_rounds_up:
  assumes "x \<le> 2 ^ 30"
  shows "x \<le> luaO_fb2int (luaO_int2fb x) \<and> 7 * luaO_fb2int (luaO_int2fb x) \<le> 8 * x
    \<and> (x < 16 \<longrightarrow> luaO_fb2int (luaO_int2fb x) = x)"
  by (rule fb2int_int2fb [OF assms])

theorem fb_rounds_up_witness:
  "1000 \<le> luaO_fb2int (luaO_int2fb 1000) \<and> 7 * luaO_fb2int (luaO_int2fb 1000) \<le> 8 * 1000"
  using fb_rounds_up [of 1000] by simp

end
