(* ===== verification/LTable.thy ===== *)
theory LTable
  imports LObject
begin

text \<open>
  Lua tables, \<open>ltable.c\<close>: an array part and a hash part whose nodes are chained by index. A
  pointer to a node is its index, a pointer to a value is a location. The hash of a number that
  is not zero, which depends on the representation of doubles, is the parameter \<open>hn\<close>.
\<close>

section \<open>The data\<close>

record node =
  i_val :: TValue
  i_key :: TValue
  nxt :: "nat option"

text \<open>\<open>node t\<close> is the shared dummy node, alone, when \<open>dummy t\<close>; the array's size is its length.\<close>

record table =
  flags :: nat
  lsizenode :: nat
  array :: "TValue list"
  nodes :: "node list"
  dummy :: bool
  lastfree :: int

definition MAXBITS :: nat where "MAXBITS = 26"
definition MAXASIZE :: int where "MAXASIZE = 2 ^ MAXBITS"
definition MAX_INT :: int where "MAX_INT = int_max - 2"

definition dummynode :: node where "dummynode = \<lparr>i_val = Nil, i_key = Nil, nxt = None\<rparr>"

definition sizenode :: "table \<Rightarrow> nat" where "sizenode t = 2 ^ lsizenode t"

datatype loc = LArr nat | LNode nat

fun value_at :: "table \<Rightarrow> loc \<Rightarrow> TValue" where
  "value_at t (LArr i) = array t ! i"
| "value_at t (LNode i) = i_val (nodes t ! i)"

fun set_at :: "table \<Rightarrow> loc \<Rightarrow> TValue \<Rightarrow> table" where
  "set_at t (LArr i) v = t\<lparr>array := (array t)[i := v]\<rparr>"
| "set_at t (LNode i) v = t\<lparr>nodes := (nodes t)[i := (nodes t ! i)\<lparr>i_val := v\<rparr>]\<rparr>"

section \<open>Positions\<close>

type_synonym hash = "lnum \<Rightarrow> 32 word"

definition hashpow2 :: "nat \<Rightarrow> nat \<Rightarrow> nat" where
  "hashpow2 sz n = n AND (sz - 1)"

definition hashmod :: "nat \<Rightarrow> nat \<Rightarrow> nat" where
  "hashmod sz n = n mod ((sz - 1) OR 1)"

definition hashnum :: "hash \<Rightarrow> nat \<Rightarrow> lnum \<Rightarrow> nat" where
  "hashnum hn sz n = (if luai_numeq n (Nint 0) then 0 else hashmod sz (unat (hn n)))"

text \<open>The main position of a key in a hash part of \<open>sz\<close> nodes. A nil or dead key has none.\<close>

fun mainpos :: "hash \<Rightarrow> nat \<Rightarrow> TValue \<Rightarrow> nat option" where
  "mainpos hn sz (Number n) = Some (hashnum hn sz n)"
| "mainpos hn sz (Collectable (StrRef s)) = Some (hashpow2 sz (unat (str_hash s)))"
| "mainpos hn sz (Boolean b) = Some (hashpow2 sz (if b then 1 else 0))"
| "mainpos hn sz (LightUD p) = Some (hashmod sz (p mod 2 ^ 32))"
| "mainpos hn sz (Collectable (ObjRef ty p)) = Some (hashmod sz (p mod 2 ^ 32))"
| "mainpos hn sz Nil = None"
| "mainpos hn sz (DeadKey r) = None"

definition mainposition :: "hash \<Rightarrow> table \<Rightarrow> TValue \<Rightarrow> nat lres" where
  "mainposition hn t key =
    (case mainpos hn (sizenode t) key of Some m \<Rightarrow> Inr m | None \<Rightarrow> Inl (CFault ReadOOB))"

definition arrayindex :: "TValue \<Rightarrow> int" where
  "arrayindex key = (case key of
      Number (Nint n) \<Rightarrow> if int_min \<le> n \<and> n \<le> int_max then n else - 1
    | _ \<Rightarrow> - 1)"

section \<open>Searching\<close>

text \<open>
  The loop along a chain from node \<open>i\<close>: the first node that satisfies \<open>P\<close>. The fuel is the
  number of nodes; a chain that is longer than that does not end.
\<close>

fun walk :: "(node \<Rightarrow> bool) \<Rightarrow> node list \<Rightarrow> nat \<Rightarrow> nat \<Rightarrow> nat option lres" where
  "walk P N 0 i = Inl (CFault Diverge)"
| "walk P N (Suc f) i =
    sbind (lift (rd N i)) (\<lambda>n.
      if P n then Inr (Some i)
      else case nxt n of None \<Rightarrow> Inr None | Some j \<Rightarrow> walk P N f j)"

definition walk_nodes :: "(node \<Rightarrow> bool) \<Rightarrow> table \<Rightarrow> nat \<Rightarrow> loc option lres" where
  "walk_nodes P t i =
    sbind (walk P (nodes t) (length (nodes t)) i) (\<lambda>r. Inr (map_option LNode r))"

definition luaH_getnum :: "hash \<Rightarrow> table \<Rightarrow> int \<Rightarrow> loc option lres" where
  "luaH_getnum hn t key =
    sbind (lift (chk32 (key - 1))) (\<lambda>k1.
    if (word_of_int k1 :: 32 word) < word_of_nat (length (array t)) then Inr (Some (LArr (nat k1)))
    else walk_nodes (\<lambda>n. case i_key n of Number x \<Rightarrow> luai_numeq x (Nint key) | _ \<Rightarrow> False) t
      (hashnum hn (sizenode t) (Nint key)))"

definition luaH_getstr :: "table \<Rightarrow> bytes \<Rightarrow> loc option lres" where
  "luaH_getstr t s =
    walk_nodes (\<lambda>n. case i_key n of Collectable (StrRef x) \<Rightarrow> x = s | _ \<Rightarrow> False) t
      (hashpow2 (sizenode t) (unat (str_hash s)))"

definition luaH_getany :: "hash \<Rightarrow> table \<Rightarrow> TValue \<Rightarrow> loc option lres" where
  "luaH_getany hn t key =
    sbind (mainposition hn t key) (walk_nodes (\<lambda>n. luaO_rawequalObj (i_key n) key) t)"

definition luaH_get :: "hash \<Rightarrow> table \<Rightarrow> TValue \<Rightarrow> loc option lres" where
  "luaH_get hn t key = (case key of
      Nil \<Rightarrow> Inr None
    | Collectable (StrRef s) \<Rightarrow> luaH_getstr t s
    | Number (Nint k) \<Rightarrow>
        if int_min \<le> k \<and> k \<le> int_max then luaH_getnum hn t k else luaH_getany hn t key
    | _ \<Rightarrow> luaH_getany hn t key)"

section \<open>Free positions\<close>

text \<open>\<open>while (t->lastfree-- > t->node)\<close>: the free node, and the pointer left.\<close>

fun free_loop :: "node list \<Rightarrow> nat \<Rightarrow> nat option \<times> int" where
  "free_loop N 0 = (None, - 1)"
| "free_loop N (Suc k) = (if i_key (N ! k) = Nil then (Some k, int k) else free_loop N k)"

definition getfreepos :: "table \<Rightarrow> nat option \<times> int" where
  "getfreepos t =
    (if lastfree t > 0 then free_loop (nodes t) (nat (lastfree t)) else (None, lastfree t - 1))"

text \<open>The node whose successor is \<open>mp\<close>, along the chain from \<open>i\<close>.\<close>

fun find_prev :: "node list \<Rightarrow> nat \<Rightarrow> nat \<Rightarrow> nat \<Rightarrow> nat lres" where
  "find_prev N 0 i mp = Inl (CFault Diverge)"
| "find_prev N (Suc f) i mp =
    sbind (lift (rd N i)) (\<lambda>n.
      case nxt n of
        None \<Rightarrow> Inl (CFault NullDeref)
      | Some j \<Rightarrow> if j = mp then Inr i else find_prev N f j mp)"

section \<open>Setting\<close>

type_synonym newkey_fun = "table \<Rightarrow> TValue \<Rightarrow> (loc \<times> table) lres"

text \<open>
  \<open>newkey\<close> and the functions below call each other; they take the function that inserts a new
  key as an argument.
\<close>

definition luaH_set_with :: "newkey_fun \<Rightarrow> hash \<Rightarrow> table \<Rightarrow> TValue \<Rightarrow> (loc \<times> table) lres" where
  "luaH_set_with nk hn t key =
    sbind (luaH_get hn t key) (\<lambda>p.
    let t = t\<lparr>flags := 0\<rparr> in
    case p of
      Some l \<Rightarrow> Inr (l, t)
    | None \<Rightarrow>
        if key = Nil then raise ''table index is nil''
        else if key = Number Nnan then raise ''table index is NaN''
        else nk t key)"

definition luaH_setnum_with :: "newkey_fun \<Rightarrow> hash \<Rightarrow> table \<Rightarrow> int \<Rightarrow> (loc \<times> table) lres" where
  "luaH_setnum_with nk hn t key =
    sbind (luaH_getnum hn t key) (\<lambda>p.
    case p of Some l \<Rightarrow> Inr (l, t) | None \<Rightarrow> nk t (Number (Nint key)))"

definition luaH_setstr_with :: "newkey_fun \<Rightarrow> table \<Rightarrow> bytes \<Rightarrow> (loc \<times> table) lres" where
  "luaH_setstr_with nk t s =
    sbind (luaH_getstr t s) (\<lambda>p.
    case p of Some l \<Rightarrow> Inr (l, t) | None \<Rightarrow> nk t (String s))"

section \<open>Rehash\<close>

definition setarrayvector :: "table \<Rightarrow> nat \<Rightarrow> table" where
  "setarrayvector t sz =
    t\<lparr>array := take sz (array t) @ replicate (sz - length (array t)) Nil\<rparr>"

definition setnodevector :: "table \<Rightarrow> nat \<Rightarrow> table lres" where
  "setnodevector t sz =
    (if sz = 0 then Inr (t\<lparr>nodes := [dummynode], dummy := True, lsizenode := 0, lastfree := 0\<rparr>)
     else
       (let lsize = ceillog2 sz in
        if lsize > int MAXBITS then raise ''table overflow''
        else
          (let n = 2 ^ nat lsize in
           Inr (t\<lparr>nodes := replicate n dummynode, dummy := False, lsizenode := nat lsize, lastfree := int n\<rparr>))))"

text \<open>Re-insertion of the vanishing slice, whose first index is \<open>i\<close>, and of the old nodes, last first.\<close>

fun reinsert_array :: "newkey_fun \<Rightarrow> hash \<Rightarrow> table \<Rightarrow> nat \<Rightarrow> TValue list \<Rightarrow> table lres" where
  "reinsert_array nk hn t i [] = Inr t"
| "reinsert_array nk hn t i (v # vs) =
    sbind (if v \<noteq> Nil then
             sbind (luaH_setnum_with nk hn t (int i + 1)) (\<lambda>(l, t'). Inr (set_at t' l v))
           else Inr t) (\<lambda>t'. reinsert_array nk hn t' (i + 1) vs)"

fun reinsert_nodes :: "newkey_fun \<Rightarrow> hash \<Rightarrow> table \<Rightarrow> node list \<Rightarrow> table lres" where
  "reinsert_nodes nk hn t [] = Inr t"
| "reinsert_nodes nk hn t (old # olds) =
    sbind (if i_val old \<noteq> Nil then
             sbind (luaH_set_with nk hn t (i_key old)) (\<lambda>(l, t'). Inr (set_at t' l (i_val old)))
           else Inr t) (\<lambda>t'. reinsert_nodes nk hn t' olds)"

definition resize_with :: "newkey_fun \<Rightarrow> hash \<Rightarrow> table \<Rightarrow> nat \<Rightarrow> nat \<Rightarrow> table lres" where
  "resize_with nk hn t nasize nhsize =
    (let oldasize = length (array t);
         nold = nodes t;
         vanishing = drop nasize (array t);
         t1 = (if nasize > oldasize then setarrayvector t nasize else t)
     in sbind (setnodevector t1 nhsize) (\<lambda>t2.
        sbind (if nasize < oldasize
               then reinsert_array nk hn (t2\<lparr>array := take nasize (array t2)\<rparr>) nasize vanishing
               else Inr t2) (\<lambda>t3.
        reinsert_nodes nk hn t3 (rev nold))))"

definition luaH_resizearray_with :: "newkey_fun \<Rightarrow> hash \<Rightarrow> table \<Rightarrow> nat \<Rightarrow> table lres" where
  "luaH_resizearray_with nk hn t nasize =
    resize_with nk hn t nasize (if dummy t then 0 else sizenode t)"

text \<open>Counting: \<open>nums ! i\<close> is the number of keys above \<open>2 ^ (i - 1)\<close> up to \<open>2 ^ i\<close>.\<close>

definition countint :: "TValue \<Rightarrow> nat list \<Rightarrow> (nat \<times> nat list) lres" where
  "countint key nums =
    (let k = arrayindex key in
     if 0 < k \<and> k \<le> MAXASIZE then
       sbind (lift (rd nums (nat (ceillog2 (nat k))))) (\<lambda>x.
         Inr (1, nums[nat (ceillog2 (nat k)) := x + 1]))
     else Inr (0, nums))"

function count_slice :: "TValue list \<Rightarrow> nat \<Rightarrow> nat \<Rightarrow> nat \<times> nat" where
  "count_slice a i lim =
    (if i \<le> lim then
       (let (lc, j) = count_slice a (i + 1) lim in ((if a ! (i - 1) \<noteq> Nil then 1 else 0) + lc, j))
     else (0, i))"
  by pat_completeness auto
termination
  by (relation "measure (\<lambda>(a, i, lim). Suc lim - i)") auto

declare count_slice.simps [simp del]

function numusearray_loop :: "TValue list \<Rightarrow> nat \<Rightarrow> nat \<Rightarrow> nat list \<Rightarrow> nat \<times> nat list" where
  "numusearray_loop a lg i nums =
    (if lg \<le> MAXBITS then
       (let lim = min (2 ^ lg) (length a) in
        if 2 ^ lg > length a \<and> i > lim then (0, nums)
        else
          (let (lc, j) = count_slice a i lim;
               (ause, nums') = numusearray_loop a (lg + 1) j (nums[lg := nums ! lg + lc])
           in (lc + ause, nums')))
     else (0, nums))"
  by pat_completeness auto
termination
  by (relation "measure (\<lambda>(a, lg, i, nums). Suc MAXBITS - lg)") auto

declare numusearray_loop.simps [simp del]

definition numusearray :: "table \<Rightarrow> nat list \<Rightarrow> nat \<times> nat list" where
  "numusearray t nums = numusearray_loop (array t) 0 1 nums"

text \<open>The total number of live nodes, and how many of them may go to the array.\<close>

fun numusehash_loop :: "node list \<Rightarrow> nat list \<Rightarrow> (nat \<times> nat \<times> nat list) lres" where
  "numusehash_loop [] nums = Inr (0, 0, nums)"
| "numusehash_loop (n # ns) nums =
    (if i_val n \<noteq> Nil then
       sbind (countint (i_key n) nums) (\<lambda>(c, nums').
       sbind (numusehash_loop ns nums') (\<lambda>(tot, ause, nums''). Inr (tot + 1, ause + c, nums'')))
     else numusehash_loop ns nums)"

definition numusehash :: "table \<Rightarrow> nat list \<Rightarrow> (nat \<times> nat \<times> nat list) lres" where
  "numusehash t nums = numusehash_loop (rev (nodes t)) nums"

text \<open>The number of keys that go to the array part, and its size.\<close>

function computesizes_loop :: "nat list \<Rightarrow> nat \<Rightarrow> nat \<Rightarrow> nat \<Rightarrow> nat \<Rightarrow> nat \<Rightarrow> (nat \<times> nat) lres" where
  "computesizes_loop nums narray i a na n =
    (if 2 ^ i div 2 < narray then
       sbind (lift (rd nums i)) (\<lambda>x.
       let a' = (if x > 0 then a + x else a);
           better = x > 0 \<and> a' > 2 ^ i div 2;
           n' = (if better then 2 ^ i else n);
           na' = (if better then a' else na)
       in if a' = narray then Inr (na', n')
          else computesizes_loop nums narray (i + 1) a' na' n')
     else Inr (na, n))"
  by pat_completeness auto
termination
  by (relation "measure (\<lambda>(nums, narray, i, a, na, n). length nums - i)") (auto simp: rd_def split: if_splits)

declare computesizes_loop.simps [simp del]

definition computesizes :: "nat list \<Rightarrow> nat \<Rightarrow> (nat \<times> nat) lres" where
  "computesizes nums narray = computesizes_loop nums narray 0 0 0 0"

definition rehash_with :: "newkey_fun \<Rightarrow> hash \<Rightarrow> table \<Rightarrow> TValue \<Rightarrow> table lres" where
  "rehash_with nk hn t ek =
    (let (nasize, nums) = numusearray t (replicate (MAXBITS + 1) 0) in
     sbind (numusehash t nums) (\<lambda>(tot, ause, nums).
     sbind (countint ek nums) (\<lambda>(c, nums).
     sbind (computesizes nums (nasize + ause + c)) (\<lambda>(na, asize).
     resize_with nk hn t asize (nasize + tot + 1 - na)))))"

text \<open>
  \<open>newkey\<close>, nested at most \<open>d\<close> deep: it calls itself through \<open>rehash\<close> and \<open>luaH_set\<close>.
\<close>

fun newkey :: "nat \<Rightarrow> hash \<Rightarrow> table \<Rightarrow> TValue \<Rightarrow> (loc \<times> table) lres" where
  "newkey 0 hn t key = Inl (CFault Diverge)"
| "newkey (Suc d) hn t key =
    sbind (mainposition hn t key) (\<lambda>mp.
    sbind (lift (rd (nodes t) mp)) (\<lambda>nmp.
    if i_val nmp \<noteq> Nil \<or> dummy t then
      (case getfreepos t of
         (None, lf) \<Rightarrow>
           sbind (rehash_with (newkey d hn) hn (t\<lparr>lastfree := lf\<rparr>) key) (\<lambda>t'.
             luaH_set_with (newkey d hn) hn t' key)
       | (Some n, lf) \<Rightarrow>
           (let t = t\<lparr>lastfree := lf\<rparr>; N = nodes t in
            sbind (mainposition hn t (i_key nmp)) (\<lambda>othern.
            if othern \<noteq> mp then
              sbind (find_prev N (length N) othern mp) (\<lambda>prev.
              (let N1 = N[prev := (N ! prev)\<lparr>nxt := Some n\<rparr>];
                   N2 = N1[n := N1 ! mp];
                   N3 = N2[mp := (N2 ! mp)\<lparr>nxt := None, i_val := Nil\<rparr>]
               in Inr (LNode mp, t\<lparr>nodes := N3[mp := (N3 ! mp)\<lparr>i_key := key\<rparr>]\<rparr>)))
            else
              (let N1 = N[n := (N ! n)\<lparr>nxt := nxt nmp\<rparr>];
                   N2 = N1[mp := (N1 ! mp)\<lparr>nxt := Some n\<rparr>]
               in Inr (LNode n, t\<lparr>nodes := N2[n := (N2 ! n)\<lparr>i_key := key\<rparr>]\<rparr>)))))
    else Inr (LNode mp, t\<lparr>nodes := (nodes t)[mp := nmp\<lparr>i_key := key\<rparr>]\<rparr>)))"

text \<open>Two levels are enough: after a rehash there is room.\<close>

definition luaH_set :: "hash \<Rightarrow> table \<Rightarrow> TValue \<Rightarrow> (loc \<times> table) lres" where
  "luaH_set hn = luaH_set_with (newkey 2 hn) hn"

definition luaH_setnum :: "hash \<Rightarrow> table \<Rightarrow> int \<Rightarrow> (loc \<times> table) lres" where
  "luaH_setnum hn = luaH_setnum_with (newkey 2 hn) hn"

definition luaH_setstr :: "hash \<Rightarrow> table \<Rightarrow> bytes \<Rightarrow> (loc \<times> table) lres" where
  "luaH_setstr hn = luaH_setstr_with (newkey 2 hn)"

definition luaH_resizearray :: "hash \<Rightarrow> table \<Rightarrow> nat \<Rightarrow> table lres" where
  "luaH_resizearray hn = luaH_resizearray_with (newkey 2 hn) hn"

definition luaH_new :: "nat \<Rightarrow> nat \<Rightarrow> table lres" where
  "luaH_new narray nhash =
    (let t = \<lparr>flags = 255, lsizenode = 0, array = [], nodes = [dummynode], dummy = True, lastfree = 0\<rparr>
     in setnodevector (setarrayvector t narray) nhash)"

section \<open>Traversal\<close>

definition findindex :: "hash \<Rightarrow> table \<Rightarrow> TValue \<Rightarrow> int lres" where
  "findindex hn t key =
    (if key = Nil then Inr (- 1)
     else
       (let i = arrayindex key in
        if 0 < i \<and> i \<le> int (length (array t)) then Inr (i - 1)
        else
          sbind (mainposition hn t key) (\<lambda>m.
          sbind (walk (\<lambda>n. luaO_rawequalObj (i_key n) key
                        \<or> (case (i_key n, key) of (DeadKey r, Collectable r') \<Rightarrow> r = r' | _ \<Rightarrow> False))
                  (nodes t) (length (nodes t)) m) (\<lambda>r.
          case r of
            Some j \<Rightarrow> Inr (int j + int (length (array t)))
          | None \<Rightarrow> raise (''invalid key to '' @ [CHR 0x27] @ ''next'' @ [CHR 0x27])))))"

function next_array :: "TValue list \<Rightarrow> nat \<Rightarrow> (nat \<times> TValue) option" where
  "next_array a i =
    (if i < length a then (if a ! i \<noteq> Nil then Some (i, a ! i) else next_array a (i + 1)) else None)"
  by pat_completeness auto
termination
  by (relation "measure (\<lambda>(a, i). length a - i)") auto

declare next_array.simps [simp del]

function next_node :: "node list \<Rightarrow> nat \<Rightarrow> (TValue \<times> TValue) option" where
  "next_node N i =
    (if i < length N then
       (if i_val (N ! i) \<noteq> Nil then Some (i_key (N ! i), i_val (N ! i)) else next_node N (i + 1))
     else None)"
  by pat_completeness auto
termination
  by (relation "measure (\<lambda>(N, i). length N - i)") auto

declare next_node.simps [simp del]

definition luaH_next :: "hash \<Rightarrow> table \<Rightarrow> TValue \<Rightarrow> (TValue \<times> TValue) option lres" where
  "luaH_next hn t key =
    sbind (findindex hn t key) (\<lambda>i.
    let i1 = nat (i + 1) in
    case next_array (array t) i1 of
      Some (j, v) \<Rightarrow> Inr (Some (Number (Nint (int j + 1)), v))
    | None \<Rightarrow> Inr (next_node (nodes t) (max i1 (length (array t)) - length (array t))))"

section \<open>Length\<close>

definition num_nil :: "hash \<Rightarrow> table \<Rightarrow> nat \<Rightarrow> bool lres" where
  "num_nil hn t j =
    sbind (luaH_getnum hn t (cast_int (int j))) (\<lambda>p.
      Inr (case p of None \<Rightarrow> True | Some l \<Rightarrow> value_at t l = Nil))"

function bin_search :: "(nat \<Rightarrow> bool lres) \<Rightarrow> nat \<Rightarrow> nat \<Rightarrow> nat lres" where
  "bin_search isnil i j =
    (if j - i > 1 then
       sbind (isnil ((i + j) div 2)) (\<lambda>b.
         if b then bin_search isnil i ((i + j) div 2) else bin_search isnil ((i + j) div 2) j)
     else Inr i)"
  by pat_completeness auto
termination
  by (relation "measure (\<lambda>(f, i, j). j - i)") auto

declare bin_search.simps [simp del]

fun linear_search :: "(nat \<Rightarrow> bool lres) \<Rightarrow> nat \<Rightarrow> nat \<Rightarrow> nat lres" where
  "linear_search isnil 0 i = Inl (CFault Diverge)"
| "linear_search isnil (Suc f) i =
    sbind (isnil i) (\<lambda>b. if b then Inr (i - 1) else linear_search isnil f (i + 1))"

function double_search :: "(nat \<Rightarrow> bool lres) \<Rightarrow> nat \<Rightarrow> nat \<Rightarrow> nat \<Rightarrow> nat lres" where
  "double_search isnil fuel i j =
    sbind (isnil j) (\<lambda>b.
      if b then bin_search isnil i j
      else if 2 * j > nat MAX_INT then linear_search isnil fuel 1
      else if j = 0 then Inl (CFault Diverge)
      else double_search isnil fuel j (2 * j))"
  by pat_completeness auto
termination
  by (relation "measure (\<lambda>(f, fuel, i, j). nat MAX_INT - j)") auto

declare double_search.simps [simp del]

definition unbound_search :: "hash \<Rightarrow> table \<Rightarrow> nat \<Rightarrow> nat lres" where
  "unbound_search hn t j =
    double_search (num_nil hn t) (length (array t) + length (nodes t) + 1) j (j + 1)"

definition luaH_getn :: "hash \<Rightarrow> table \<Rightarrow> nat lres" where
  "luaH_getn hn t =
    (let j = length (array t) in
     if j > 0 \<and> array t ! (j - 1) = Nil then bin_search (\<lambda>m. lift (sbind (rd (array t) (m - 1)) (\<lambda>v. Inr (v = Nil)))) 0 j
     else if dummy t then Inr j
     else unbound_search hn t j)"

end
