(* ===== verification/LTableInv.thy ===== *)
theory LTableInv
  imports LTable
begin

text \<open>
  The invariant of the hash part of a table: its chains end, each key can be reached from its
  main position, and a main position in use holds a key of its own. Searching is complete, and
  the three cases of \<open>newkey\<close> keep the invariant.
\<close>

section \<open>Chains\<close>

definition step :: "node list \<Rightarrow> nat \<Rightarrow> nat \<Rightarrow> bool" where
  "step N a b = (a < length N \<and> nxt (N ! a) = Some b)"

abbreviation reach :: "node list \<Rightarrow> nat \<Rightarrow> nat \<Rightarrow> bool" where
  "reach N \<equiv> (step N)\<^sup>*\<^sup>*"

definition chained :: "node list \<Rightarrow> bool" where
  "chained N \<longleftrightarrow>
    (\<forall>a b. step N a b \<longrightarrow> b < length N) \<and>
    (\<forall>a b c. step N a c \<longrightarrow> step N b c \<longrightarrow> a = b) \<and>
    (\<exists>rank :: nat \<Rightarrow> nat. \<forall>a b. step N a b \<longrightarrow> rank a < rank b)"

lemma chained_range: "chained N \<Longrightarrow> step N a b \<Longrightarrow> b < length N"
  by (auto simp: chained_def)

lemma chained_inj: "chained N \<Longrightarrow> step N a c \<Longrightarrow> step N b c \<Longrightarrow> a = b"
  by (auto simp: chained_def)

lemma step_fun: "step N a b \<Longrightarrow> step N a c \<Longrightarrow> b = c"
  by (auto simp: step_def)

lemma reach_range: "reach N a b \<Longrightarrow> chained N \<Longrightarrow> a < length N \<Longrightarrow> b < length N"
  by (induction rule: rtranclp_induct) (auto simp: chained_range)

lemma reach_rank:
  fixes rank :: "nat \<Rightarrow> nat"
  shows "reach N a b \<Longrightarrow> \<forall>a b. step N a b \<longrightarrow> rank a < rank b \<Longrightarrow> rank a \<le> rank b"
proof (induction rule: rtranclp_induct)
  case (step y z)
  then have "rank a \<le> rank y" "rank y < rank z" by auto
  then show ?case by simp
qed simp

lemma chained_no_return: "chained N \<Longrightarrow> step N a b \<Longrightarrow> \<not> reach N b a"
proof
  assume "chained N" "step N a b" "reach N b a"
  then obtain rank :: "nat \<Rightarrow> nat" where r: "\<forall>a b. step N a b \<longrightarrow> rank a < rank b"
    by (auto simp: chained_def)
  with reach_rank [OF \<open>reach N b a\<close> r] \<open>step N a b\<close> show False by fastforce
qed

lemma reach_from: "reach N a b \<Longrightarrow> a = b \<or> (\<exists>c. step N a c \<and> reach N c b)"
  by (erule converse_rtranclpE) auto

lemma reach_to: "reach N a b \<Longrightarrow> a = b \<or> (\<exists>c. reach N a c \<and> step N c b)"
  by (erule rtranclp.cases) auto

text \<open>The number of nodes left on a chain, which the fuel of a walk must not be below.\<close>

definition todo :: "node list \<Rightarrow> nat \<Rightarrow> nat" where
  "todo N i = card {j. reach N i j}"

lemma reach_finite: "chained N \<Longrightarrow> i < length N \<Longrightarrow> finite {j. reach N i j}"
  by (rule finite_subset [of _ "{..<length N}"]) (auto simp: reach_range)

lemma todo_le: "chained N \<Longrightarrow> i < length N \<Longrightarrow> todo N i \<le> length N"
proof -
  assume "chained N" "i < length N"
  then have "{j. reach N i j} \<subseteq> {..<length N}" by (auto simp: reach_range)
  from card_mono [OF _ this] show ?thesis by (simp add: todo_def)
qed

lemma todo_pos: "chained N \<Longrightarrow> i < length N \<Longrightarrow> 0 < todo N i"
  unfolding todo_def by (subst card_gt_0_iff) (auto simp: reach_finite)

lemma todo_step:
  assumes "chained N" "step N i j"
  shows "todo N j < todo N i"
  unfolding todo_def
proof (rule psubset_card_mono)
  show "finite {k. reach N i k}" using assms by (simp add: reach_finite step_def)
  have "{k. reach N j k} \<subseteq> {k. reach N i k}" using assms(2) by (auto intro: converse_rtranclp_into_rtranclp)
  moreover have "i \<notin> {k. reach N j k}" using chained_no_return [OF assms] by simp
  ultimately show "{k. reach N j k} \<subset> {k. reach N i k}" by auto
qed

lemma walk_todo:
  "chained N \<Longrightarrow> i < length N \<Longrightarrow> todo N i \<le> f \<Longrightarrow>
    (\<exists>j. walk P N f i = Inr (Some j) \<and> reach N i j \<and> j < length N \<and> P (N ! j)) \<or>
    walk P N f i = Inr None \<and> (\<forall>j. reach N i j \<longrightarrow> \<not> P (N ! j))"
proof (induction f arbitrary: i)
  case 0
  then show ?case using todo_pos [of N i] by simp
next
  case (Suc f)
  show ?case
  proof (cases "P (N ! i)")
    case True
    then show ?thesis using Suc.prems by auto
  next
    case False
    show ?thesis
    proof (cases "nxt (N ! i)")
      case None
      then have "j = i" if "reach N i j" for j using that reach_from [OF that] by (auto simp: step_def)
      then show ?thesis using False None Suc.prems by auto
    next
      case (Some k)
      then have s: "step N i k" using Suc.prems by (simp add: step_def)
      then have k: "k < length N" "todo N k \<le> f"
        using Suc.prems todo_step [OF _ s] chained_range by auto
      have "reach N k j" if "reach N i j" "j \<noteq> i" for j using that reach_from [OF that(1)] s step_fun by blast
      moreover have "reach N i j" if "reach N k j" for j using that s by (rule converse_rtranclp_into_rtranclp [rotated])
      ultimately show ?thesis using Suc.IH [OF Suc.prems(1) k] False Some Suc.prems(2)
        by (simp add: rd_in) blast
    qed
  qed
qed

lemma walk_full:
  assumes "chained N" "i < length N"
  shows "(\<exists>j. walk P N (length N) i = Inr (Some j) \<and> reach N i j \<and> j < length N \<and> P (N ! j)) \<or>
    walk P N (length N) i = Inr None \<and> (\<forall>j. reach N i j \<longrightarrow> \<not> P (N ! j))"
  by (rule walk_todo [OF assms todo_le [OF assms]])

lemma find_prev_todo:
  "chained N \<Longrightarrow> i < length N \<Longrightarrow> todo N i \<le> f \<Longrightarrow> reach N i mp \<Longrightarrow> i \<noteq> mp \<Longrightarrow>
    \<exists>p. find_prev N f i mp = Inr p \<and> step N p mp"
proof (induction f arbitrary: i)
  case 0
  then show ?case using todo_pos [of N i] by simp
next
  case (Suc f)
  from reach_from [OF Suc.prems(4)] Suc.prems(5) obtain k where k: "step N i k" "reach N k mp" by blast
  then have n: "nxt (N ! i) = Some k" "k < length N" "todo N k \<le> f"
    using Suc.prems todo_step [OF _ k(1)] chained_range by (auto simp: step_def)
  show ?case
  proof (cases "k = mp")
    case True
    then show ?thesis using n k Suc.prems by simp
  next
    case False
    then show ?thesis using Suc.IH [OF Suc.prems(1) n(2,3) k(2)] n(1) Suc.prems(2) by simp
  qed
qed

lemma find_prev_full:
  assumes "chained N" "i < length N" "reach N i mp" "i \<noteq> mp"
  shows "\<exists>p. find_prev N (length N) i mp = Inr p \<and> step N p mp"
  by (rule find_prev_todo [OF assms(1,2) todo_le [OF assms(1,2)] assms(3,4)])

section \<open>The hash part\<close>

definition live :: "TValue \<Rightarrow> bool" where
  "live k = (case k of Nil \<Rightarrow> False | DeadKey _ \<Rightarrow> False | Number n \<Rightarrow> n \<noteq> Nnan | _ \<Rightarrow> True)"

definition has_key :: "node list \<Rightarrow> TValue \<Rightarrow> nat \<Rightarrow> bool" where
  "has_key N k i = (i < length N \<and> i_key (N ! i) = k)"

text \<open>A node without a key is unused; a value has a live key; live keys are in one place.\<close>

definition free_ok :: "node list \<Rightarrow> bool" where
  "free_ok N = (\<forall>i < length N. i_key (N ! i) = Nil \<longrightarrow>
     i_val (N ! i) = Nil \<and> nxt (N ! i) = None \<and> (\<forall>a. \<not> step N a i))"

definition vals_ok :: "node list \<Rightarrow> bool" where
  "vals_ok N = (\<forall>i < length N. i_key (N ! i) \<noteq> Number Nnan \<and> (i_val (N ! i) \<noteq> Nil \<longrightarrow> live (i_key (N ! i))))"

definition keys_ok :: "node list \<Rightarrow> bool" where
  "keys_ok N = (\<forall>k i j. live k \<longrightarrow> has_key N k i \<longrightarrow> has_key N k j \<longrightarrow> i = j)"

definition mains_ok :: "hash \<Rightarrow> node list \<Rightarrow> bool" where
  "mains_ok hn N = (\<forall>k i m. has_key N k i \<longrightarrow> mainpos hn (length N) k = Some m \<longrightarrow>
     reach N m i \<and> mainpos hn (length N) (i_key (N ! m)) \<in> {None, Some m})"

definition hwf :: "hash \<Rightarrow> node list \<Rightarrow> bool" where
  "hwf hn N \<longleftrightarrow> chained N \<and> free_ok N \<and> vals_ok N \<and> keys_ok N \<and> mains_ok hn N \<and>
    (\<exists>l. length N = 2 ^ l \<and> l \<le> MAXBITS)"

lemma hwfD:
  assumes "hwf hn N"
  shows "chained N" "free_ok N" "vals_ok N" "keys_ok N" "mains_ok hn N" "0 < length N"
  using assms by (auto simp: hwf_def)

lemma keys_okD: "keys_ok N \<Longrightarrow> live k \<Longrightarrow> has_key N k i \<Longrightarrow> has_key N k j \<Longrightarrow> i = j"
  by (simp add: keys_ok_def)

lemma live_mainpos: "live k \<Longrightarrow> \<exists>m. mainpos hn sz k = Some m"
  by (cases "(hn, sz, k)" rule: mainpos.cases) (auto simp: live_def)

lemma mainpos_live: "mainpos hn sz k = Some m \<Longrightarrow> k \<noteq> Number Nnan \<Longrightarrow> live k"
  by (cases "(hn, sz, k)" rule: mainpos.cases) (auto simp: live_def)

lemma hashpow2_less: "sz = 2 ^ l \<Longrightarrow> hashpow2 sz n < sz"
proof -
  assume sz: "sz = 2 ^ l"
  have "hashpow2 sz n = take_bit l n" by (simp add: sz hashpow2_def take_bit_eq_mask mask_eq_exp_minus_1)
  then show ?thesis using sz by simp
qed

lemma hashmod_less: "sz = 2 ^ l \<Longrightarrow> hashmod sz n < sz"
proof -
  assume sz: "sz = 2 ^ l"
  have "0 < (sz - 1) OR 1 \<and> (sz - 1) OR 1 \<le> sz"
  proof (cases l)
    case 0
    then show ?thesis using sz by simp
  next
    case (Suc l')
    then have "odd (sz - 1)" using sz by simp
    then have "(sz - 1) OR 1 = sz - 1" by (simp only: or_one_eq) simp
    moreover have "1 \<le> (2 :: nat) ^ l'" by simp
    then have "2 \<le> sz" unfolding sz Suc power_Suc by linarith
    ultimately show ?thesis by simp
  qed
  then have "n mod ((sz - 1) OR 1) < sz" using mod_less_divisor [of "(sz - 1) OR 1" n] by linarith
  then show ?thesis by (simp add: hashmod_def)
qed

lemma mainpos_less: "mainpos hn sz k = Some m \<Longrightarrow> sz = 2 ^ l \<Longrightarrow> m < sz"
  by (cases "(hn, sz, k)" rule: mainpos.cases) (auto simp: hashnum_def hashpow2_less hashmod_less)

lemma hwf_main_less: "hwf hn N \<Longrightarrow> mainpos hn (length N) k = Some m \<Longrightarrow> m < length N"
  using mainpos_less by (auto simp: hwf_def)

text \<open>A search from the main position of a key finds its node, or there is none.\<close>

lemma search_key:
  assumes "hwf hn N" "live k" "mainpos hn (length N) k = Some m" "\<And>n. P n \<longleftrightarrow> i_key n = k"
  shows "(\<exists>j. walk P N (length N) m = Inr (Some j) \<and> has_key N k j) \<or>
    walk P N (length N) m = Inr None \<and> (\<forall>j. \<not> has_key N k j)"
proof -
  have "reach N m j" if "has_key N k j" for j
    using hwfD(5) [OF assms(1)] that assms(3) by (auto simp: mains_ok_def)
  then show ?thesis
    using walk_full [OF hwfD(1) [OF assms(1)] hwf_main_less [OF assms(1,3)], of P] assms(4)
    by (auto simp: has_key_def)
qed

section \<open>Entries and unused nodes\<close>

definition entries :: "node list \<Rightarrow> (TValue \<times> TValue) set" where
  "entries N = {(i_key n, i_val n) |n. n \<in> set N \<and> i_val n \<noteq> Nil}"

definition unused :: "node list \<Rightarrow> nat set" where
  "unused N = {i. i < length N \<and> i_key (N ! i) = Nil}"

lemma entries_iff: "(k, v) \<in> entries N \<longleftrightarrow> (\<exists>i. has_key N k i \<and> i_val (N ! i) = v \<and> v \<noteq> Nil)"
  by (auto simp: entries_def has_key_def in_set_conv_nth)

lemma entries_eqI:
  assumes "\<And>k i w. w \<noteq> Nil \<Longrightarrow> has_key N' k i \<and> i_val (N' ! i) = w \<longleftrightarrow> has_key N k i \<and> i_val (N ! i) = w"
  shows "entries N' = entries N"
proof (rule set_eqI)
  fix p
  show "p \<in> entries N' \<longleftrightarrow> p \<in> entries N" using assms by (cases p) (auto simp: entries_iff)
qed

lemma entries_fun: "hwf hn N \<Longrightarrow> (k, v) \<in> entries N \<Longrightarrow> (k, w) \<in> entries N \<Longrightarrow> v = w"
proof -
  assume h: "hwf hn N" and v: "(k, v) \<in> entries N" and w: "(k, w) \<in> entries N"
  then have "live k" using hwfD(3) [OF h] by (auto simp: entries_iff vals_ok_def has_key_def)
  with v w keys_okD [OF hwfD(4) [OF h]] show ?thesis by (auto simp: entries_iff)
qed

lemma finite_unused [simp]: "finite (unused N)"
  by (simp add: unused_def)

lemma unused_isolated: "free_ok N \<Longrightarrow> n \<in> unused N \<Longrightarrow> \<not> step N n b \<and> \<not> step N a n \<and> i_val (N ! n) = Nil"
  by (auto simp: free_ok_def unused_def step_def)

lemma unused_reach: "free_ok N \<Longrightarrow> n \<in> unused N \<Longrightarrow> reach N n b \<longleftrightarrow> b = n"
  using unused_isolated reach_from by blast

lemma unused_reach_to: "free_ok N \<Longrightarrow> n \<in> unused N \<Longrightarrow> reach N a n \<longleftrightarrow> a = n"
  using unused_isolated reach_to by blast

text \<open>No key but \<open>k\<close> has been added.\<close>

definition keys_from :: "node list \<Rightarrow> TValue \<Rightarrow> node list \<Rightarrow> bool" where
  "keys_from N' k N = (\<forall>k' i. has_key N' k' i \<longrightarrow> k' = k \<or> (\<exists>i'. has_key N k' i'))"

section \<open>The free main position\<close>

lemma put_main:
  assumes h: "hwf hn N" and k: "live k" "\<And>i. \<not> has_key N k i"
    and m: "mainpos hn (length N) k = Some mp" and v: "i_val (N ! mp) = Nil"
  defines "N' \<equiv> N[mp := (N ! mp)\<lparr>i_key := k\<rparr>]"
  shows "hwf hn N'" "entries N' = entries N" "unused N' = unused N - {mp}" "has_key N' k mp" "i_val (N' ! mp) = Nil"
    "keys_from N' k N"
proof -
  have mp: "mp < length N" using hwf_main_less [OF h m] .
  have kn: "k \<noteq> Nil" "k \<noteq> Number Nnan" using k(1) by (auto simp: live_def)
  have st: "step N' = step N" using mp by (intro ext) (auto simp: N'_def step_def nth_list_update)
  have ln [simp]: "length N' = length N" by (simp add: N'_def)
  have at: "N' ! i = (if i = mp then (N ! mp)\<lparr>i_key := k\<rparr> else N ! i)" if "i < length N" for i
    using that mp by (simp add: N'_def nth_list_update)
  have hk: "has_key N' k' i \<longleftrightarrow> (if i = mp then k' = k else has_key N k' i)" for k' i
    using mp by (auto simp: has_key_def at)
  show "has_key N' k mp" "i_val (N' ! mp) = Nil" using mp v by (simp_all add: hk at)
  show "keys_from N' k N" by (auto simp: keys_from_def hk split: if_splits)
  show "unused N' = unused N - {mp}" using kn by (auto simp: unused_def at split: if_splits)
  have "has_key N' k' i \<and> i_val (N' ! i) = w \<longleftrightarrow> has_key N k' i \<and> i_val (N ! i) = w" if "w \<noteq> Nil" for k' i w
    using that v mp by (cases "i = mp") (auto simp: hk at has_key_def)
  then show "entries N' = entries N" by (rule entries_eqI)
  have "chained N'" using hwfD(1) [OF h] by (simp add: chained_def st)
  moreover have "free_ok N'" using hwfD(2) [OF h] kn by (auto simp: free_ok_def at st)
  moreover have "vals_ok N'" using hwfD(3) [OF h] kn v by (auto simp: vals_ok_def at)
  moreover have "keys_ok N'"
  proof -
    have "i = j" if "live k'" "has_key N' k' i" "has_key N' k' j" for k' i j
      using that(2,3) k(2) keys_okD [OF hwfD(4) [OF h] that(1)] unfolding hk by metis
    then show ?thesis unfolding keys_ok_def by blast
  qed
  moreover have "mains_ok hn N'"
    unfolding mains_ok_def
  proof (intro allI impI)
    fix k' i m'
    assume "has_key N' k' i" and m': "mainpos hn (length N') k' = Some m'"
    then have o: "i \<noteq> mp \<Longrightarrow> has_key N k' i" "i = mp \<Longrightarrow> k' = k" by (simp_all add: hk)
    have m'l: "m' < length N" using hwf_main_less [OF h] m' by simp
    show "reach N' m' i \<and> mainpos hn (length N') (i_key (N' ! m')) \<in> {None, Some m'}"
    proof (cases "i = mp")
      case True
      then show ?thesis using o(2) m m' mp by (simp add: at)
    next
      case False
      with o(1) hwfD(5) [OF h] m' have
        "reach N m' i \<and> mainpos hn (length N) (i_key (N ! m')) \<in> {None, Some m'}" by (auto simp: mains_ok_def)
      then show ?thesis using m m'l by (simp add: st at)
    qed
  qed
  ultimately show "hwf hn N'" using h by (simp add: hwf_def)
qed

section \<open>A collision with a key in its own main position\<close>

lemma chain_new:
  assumes h: "hwf hn N" and k: "live k" "\<And>i. \<not> has_key N k i"
    and m: "mainpos hn (length N) k = Some mp" "mainpos hn (length N) (i_key (N ! mp)) = Some mp"
    and n: "n \<in> unused N" "n \<noteq> mp"
    and N': "length N' = length N" "\<And>i. i < length N \<Longrightarrow> N' ! i =
      (if i = n then (N ! n)\<lparr>nxt := nxt (N ! mp), i_key := k\<rparr>
       else if i = mp then (N ! mp)\<lparr>nxt := Some n\<rparr> else N ! i)"
  shows "hwf hn N' \<and> entries N' = entries N \<and> unused N' = unused N - {n} \<and> has_key N' k n \<and> i_val (N' ! n) = Nil
    \<and> keys_from N' k N"
proof -
  note h' = hwfD [OF h]
  note iso = unused_isolated [OF h'(2) n(1)]
  have mp: "mp < length N" using hwf_main_less [OF h m(1)] .
  have nl: "n < length N" using n(1) by (simp add: unused_def)
  have kn: "k \<noteq> Nil" "k \<noteq> Number Nnan" using k(1) by (auto simp: live_def)
  have mpk: "i_key (N ! mp) \<noteq> Nil" using m(2) by auto
  have st: "step N' a b \<longleftrightarrow> (if a = mp then b = n else if a = n then step N mp b else step N a b)" for a b
    using mp nl n(2) N' by (auto simp: step_def)
  have hk: "has_key N' k' i \<longleftrightarrow> (if i = n then k' = k else has_key N k' i)" for k' i
    using nl N' by (auto simp: has_key_def)
  have vl: "i_val (N' ! i) = i_val (N ! i)" if "i < length N" for i using N'(2) [OF that] by simp
  have ky: "i_key (N' ! i) = (if i = n then k else i_key (N ! i))" if "i < length N" for i using N'(2) [OF that] by simp
  have re: "reach N' a b" if "reach N a b" for a b
    using that
  proof (induction rule: rtranclp_induct)
    case (step y z)
    have "y \<noteq> n" using step(2) iso by auto
    then have "step N' y z \<or> y = mp \<and> step N' mp n \<and> step N' n z" using step(2) st n(2) by auto
    then have "reach N' y z" by (auto intro: r_into_rtranclp converse_rtranclp_into_rtranclp)
    with step(3) show ?case by (rule rtranclp_trans)
  qed simp
  have "chained N'"
  proof -
    obtain rank :: "nat \<Rightarrow> nat" where r: "\<forall>a b. step N a b \<longrightarrow> rank a < rank b"
      using h'(1) by (auto simp: chained_def)
    define rank' where "rank' x = (if x = n then 2 * rank mp + 1 else 2 * rank x)" for x
    have "rank' a < rank' b" if "step N' a b" for a b
      using that r iso n(2) by (auto simp: st rank'_def split: if_splits) (metis Suc_mult_less_cancel1 numeral_2_eq_2 Suc_lessI Suc_leI Suc_double_not_eq_double less_Suc_eq n_not_Suc_n not_less_eq)
    moreover have "b < length N'" if "step N' a b" for a b
      using that chained_range [OF h'(1)] nl N'(1) by (auto simp: st split: if_splits)
    moreover have "a = b" if "step N' a c" "step N' b c" for a b c
      using that chained_inj [OF h'(1)] iso by (auto simp: st split: if_splits)
    ultimately show ?thesis unfolding chained_def by blast
  qed
  moreover have "free_ok N'"
    using h'(2) kn mpk by (auto simp: free_ok_def N' st split: if_splits)
  moreover have "vals_ok N'" using h'(3) kn k(1) N'(1) by (auto simp: vals_ok_def ky vl)
  moreover have "keys_ok N'"
  proof -
    have "i = j" if "live k'" "has_key N' k' i" "has_key N' k' j" for k' i j
      using that(2,3) k(2) keys_okD [OF h'(4) that(1)] unfolding hk by metis
    then show ?thesis unfolding keys_ok_def by blast
  qed
  moreover have "mains_ok hn N'"
    unfolding mains_ok_def
  proof (intro allI impI)
    fix k' i m'
    assume a: "has_key N' k' i" and "mainpos hn (length N') k' = Some m'"
    then have m': "mainpos hn (length N) k' = Some m'" using N'(1) by simp
    have m'l: "m' < length N" using hwf_main_less [OF h m'] .
    show "reach N' m' i \<and> mainpos hn (length N') (i_key (N' ! m')) \<in> {None, Some m'}"
    proof (cases "i = n")
      case True
      then have "m' = mp" using a m' m(1) by (simp add: hk)
      then show ?thesis using True m(2) mp n(2) st [of mp n] by (auto simp: ky N'(1))
    next
      case False
      with a have o: "has_key N k' i" by (simp add: hk)
      then have r: "reach N m' i" "mainpos hn (length N) (i_key (N ! m')) \<in> {None, Some m'}"
        using h'(5) m' by (auto simp: mains_ok_def)
      then have "m' \<noteq> n" using unused_reach [OF h'(2) n(1)] False by auto
      then show ?thesis using r re m'l by (simp add: ky N'(1))
    qed
  qed
  ultimately have "hwf hn N'" using h N'(1) by (simp add: hwf_def)
  moreover have "entries N' = entries N"
  proof (rule entries_eqI)
    show "has_key N' k' i \<and> i_val (N' ! i) = w \<longleftrightarrow> has_key N k' i \<and> i_val (N ! i) = w" if "w \<noteq> Nil" for k' i w
      using that iso nl by (cases "i = n") (auto simp: N'(1) ky vl has_key_def)
  qed
  moreover have "unused N' = unused N - {n}" using kn N'(1) by (auto simp: unused_def ky split: if_splits)
  moreover have "keys_from N' k N" unfolding keys_from_def hk by auto
  ultimately show ?thesis using nl iso by (simp add: hk vl)
qed

section \<open>A collision with a key out of its main position\<close>

lemma rtranclp_iso:
  assumes "\<And>a b. R' a b \<longleftrightarrow> R (f a) (f b)" "\<And>a. f (f a) = a"
  shows "R'\<^sup>*\<^sup>* a b \<longleftrightarrow> R\<^sup>*\<^sup>* (f a) (f b)"
proof
  assume "R'\<^sup>*\<^sup>* a b"
  then show "R\<^sup>*\<^sup>* (f a) (f b)"
    by (induction rule: rtranclp_induct) (auto simp: assms(1) intro: rtranclp.rtrancl_into_rtrancl)
next
  have "R\<^sup>*\<^sup>* a b \<Longrightarrow> R'\<^sup>*\<^sup>* (f a) (f b)" for a b
    by (induction rule: rtranclp_induct) (auto simp: assms intro: rtranclp.rtrancl_into_rtrancl)
  moreover assume "R\<^sup>*\<^sup>* (f a) (f b)"
  ultimately have "R'\<^sup>*\<^sup>* (f (f a)) (f (f b))" by blast
  then show "R'\<^sup>*\<^sup>* a b" by (simp add: assms(2))
qed

lemma chain_move:
  assumes h: "hwf hn N" and k: "live k" "\<And>i. \<not> has_key N k i"
    and m: "mainpos hn (length N) k = Some mp" "mainpos hn (length N) (i_key (N ! mp)) = Some oth" "oth \<noteq> mp"
    and n: "n \<in> unused N" "n \<noteq> mp" and prev: "step N prev mp"
    and N': "length N' = length N" "\<And>i. i < length N \<Longrightarrow> N' ! i =
      (if i = mp then (N ! mp)\<lparr>nxt := None, i_val := Nil, i_key := k\<rparr> else if i = n then N ! mp
       else if i = prev then (N ! prev)\<lparr>nxt := Some n\<rparr> else N ! i)"
  shows "hwf hn N' \<and> entries N' = entries N \<and> unused N' = unused N - {n} \<and> has_key N' k mp \<and> i_val (N' ! mp) = Nil
    \<and> keys_from N' k N"
proof -
  note h' = hwfD [OF h]
  note iso = unused_isolated [OF h'(2) n(1)]
  have mp: "mp < length N" using hwf_main_less [OF h m(1)] .
  have nl: "n < length N" using n(1) by (simp add: unused_def)
  have pl: "prev < length N" using prev by (simp add: step_def)
  have pm: "prev \<noteq> mp" using chained_no_return [OF h'(1) prev] by auto
  have pn: "prev \<noteq> n" using prev iso by auto
  have kn: "k \<noteq> Nil" "k \<noteq> Number Nnan" using k(1) by (auto simp: live_def)
  have mpk: "i_key (N ! mp) \<noteq> Nil" using m(2) by auto
  define f where "f x = (if x = mp then n else if x = n then mp else x)" for x
  have ff [simp]: "f (f x) = x" for x by (simp add: f_def)
  have fl [simp]: "f x < length N \<longleftrightarrow> x < length N" for x using mp nl by (simp add: f_def)
  have st: "step N' a b \<longleftrightarrow> step N (f a) (f b)" for a b
  proof -
    have self: "\<not> step N mp mp" using chained_no_return [OF h'(1)] by blast
    consider "a = mp" | "a = n" | "a = prev" | "a \<noteq> mp" "a \<noteq> n" "a \<noteq> prev" by blast
    then show ?thesis
    proof cases
      case 1 then show ?thesis using mp iso N' by (simp add: step_def f_def)
    next
      case 2 then show ?thesis using nl n(2) N' mp iso self by (auto simp: step_def f_def)
    next
      case 3 then show ?thesis using pl pm pn N' prev iso n(2) by (auto simp: step_def f_def)
    next
      case 4
      then have "\<not> step N a mp" using chained_inj [OF h'(1) prev] by auto
      with 4 show ?thesis using N' iso n(2) by (auto simp: step_def f_def)
    qed
  qed
  have re: "reach N' a b \<longleftrightarrow> reach N (f a) (f b)" for a b by (rule rtranclp_iso) (simp_all add: st)
  have ky: "i_key (N' ! i) = (if i = mp then k else i_key (N ! f i))" if "i < length N" for i
    using N'(2) [OF that] by (simp add: f_def)
  have vl: "i_val (N' ! i) = (if i = mp then Nil else i_val (N ! f i))" if "i < length N" for i
    using N'(2) [OF that] by (simp add: f_def)
  have hk: "has_key N' k' i \<longleftrightarrow> (if i = mp then k' = k else has_key N k' (f i))" for k' i
    using mp by (auto simp: has_key_def ky N'(1))
  have "chained N'"
  proof -
    obtain rank :: "nat \<Rightarrow> nat" where r: "\<forall>a b. step N a b \<longrightarrow> rank a < rank b"
      using h'(1) by (auto simp: chained_def)
    then have "\<forall>a b. step N' a b \<longrightarrow> rank (f a) < rank (f b)" by (simp add: st)
    moreover have "b < length N'" if "step N' a b" for a b
      using chained_range [OF h'(1)] that N'(1) st fl by metis
    moreover have "a = b" if "step N' a c" "step N' b c" for a b c
      using chained_inj [OF h'(1)] that st ff by metis
    ultimately show ?thesis unfolding chained_def by (intro conjI exI [of _ "\<lambda>x. rank (f x)"]) blast+
  qed
  moreover have "free_ok N'"
  proof -
    have "i \<noteq> mp \<and> f i \<in> unused N" if "i < length N" "i_key (N' ! i) = Nil" for i
      using that kn by (auto simp: ky unused_def split: if_splits)
    then have "i \<noteq> mp \<and> i_val (N' ! i) = Nil \<and> \<not> step N' i b \<and> \<not> step N' a i"
      if "i < length N" "i_key (N' ! i) = Nil" for i a b
      using that unused_isolated [OF h'(2)] by (simp add: vl st)
    then show ?thesis unfolding free_ok_def N'(1) step_def
      by (metis N'(1) not_Some_eq)
  qed
  moreover have "vals_ok N'" using h'(3) kn k(1) N'(1) by (auto simp: vals_ok_def ky vl)
  moreover have "keys_ok N'"
  proof -
    have "i = j" if "live k'" "has_key N' k' i" "has_key N' k' j" for k' i j
      using that(2,3) k(2) keys_okD [OF h'(4) that(1)] ff [of i] ff [of j] unfolding hk by (metis)
    then show ?thesis unfolding keys_ok_def by blast
  qed
  moreover have "mains_ok hn N'"
    unfolding mains_ok_def
  proof (intro allI impI)
    fix k' i m'
    assume a: "has_key N' k' i" and "mainpos hn (length N') k' = Some m'"
    then have m': "mainpos hn (length N) k' = Some m'" using N'(1) by simp
    have m'l: "m' < length N" using hwf_main_less [OF h m'] .
    show "reach N' m' i \<and> mainpos hn (length N') (i_key (N' ! m')) \<in> {None, Some m'}"
    proof (cases "i = mp")
      case True
      then have "m' = mp" using a m' m(1) by (simp add: hk)
      then show ?thesis using True m(1) mp by (simp add: ky N'(1))
    next
      case False
      with a have o: "has_key N k' (f i)" by (simp add: hk)
      then have r: "reach N m' (f i)" "mainpos hn (length N) (i_key (N ! m')) \<in> {None, Some m'}"
        using h'(5) m' by (auto simp: mains_ok_def)
      have "m' \<noteq> mp" using r(2) m(2,3) by auto
      moreover have "m' \<noteq> n" using unused_reach [OF h'(2) n(1)] r(1) False by (auto simp: f_def split: if_splits)
      ultimately show ?thesis using r m'l by (simp add: ky N'(1) re) (simp add: f_def)
    qed
  qed
  ultimately have "hwf hn N'" using h N'(1) by (simp add: hwf_def)
  moreover have "entries N' = entries N"
  proof -
    have "(k', w) \<in> entries N'" if "has_key N k' i" "i_val (N ! i) = w" "w \<noteq> Nil" for k' i w
    proof -
      have "i \<noteq> n" using that iso by auto
      then have "f i \<noteq> mp" by (auto simp: f_def)
      then have "has_key N' k' (f i) \<and> i_val (N' ! f i) = w" using that by (simp add: N'(1) ky vl has_key_def)
      then show ?thesis using that(3) by (auto simp: entries_iff)
    qed
    moreover have "(k', w) \<in> entries N" if "has_key N' k' i" "i_val (N' ! i) = w" "w \<noteq> Nil" for k' i w
      using that by (auto simp: entries_iff vl ky has_key_def N'(1) split: if_splits intro!: exI [of _ "f i"])
    ultimately show ?thesis by (auto simp: entries_iff)
  qed
  moreover have "unused N' = unused N - {n}"
    using kn mpk nl mp n N'(1) by (auto simp: unused_def ky f_def split: if_splits)
  moreover have "keys_from N' k N" unfolding keys_from_def hk by auto
  ultimately show ?thesis using mp by (simp add: hk vl)
qed

section \<open>Tables\<close>

definition in_array :: "table \<Rightarrow> TValue \<Rightarrow> nat \<Rightarrow> bool" where
  "in_array t k i = (i < length (array t) \<and> k = Number (Nint (int i + 1)))"

fun at_loc :: "table \<Rightarrow> TValue \<Rightarrow> loc \<Rightarrow> bool" where
  "at_loc t k (LArr i) = in_array t k i"
| "at_loc t k (LNode j) = has_key (nodes t) k j"

text \<open>A key that a table can hold; the smallest integer is excluded, see \<open>luaH_getnum\<close>.\<close>

definition ok_key :: "TValue \<Rightarrow> bool" where
  "ok_key k = (live k \<and> k \<noteq> Number (Nint int_min))"

definition twf :: "hash \<Rightarrow> table \<Rightarrow> bool" where
  "twf hn t \<longleftrightarrow> hwf hn (nodes t) \<and> length (nodes t) = 2 ^ lsizenode t
    \<and> int (length (array t)) \<le> MAXASIZE
    \<and> (if dummy t then nodes t = [dummynode] \<and> lastfree t \<le> 0
       else lastfree t \<le> int (length (nodes t)) \<and> (\<forall>i \<in> unused (nodes t). int i < lastfree t))
    \<and> (\<forall>k i j. in_array t k i \<longrightarrow> \<not> has_key (nodes t) k j)
    \<and> (\<forall>j. \<not> has_key (nodes t) (Number (Nint int_min)) j)"

text \<open>The map a table stands for.\<close>

definition tget :: "table \<Rightarrow> TValue \<Rightarrow> TValue" where
  "tget t k = (case find (\<lambda>i. k = Number (Nint (int i + 1))) [0..<length (array t)] of
      Some i \<Rightarrow> array t ! i
    | None \<Rightarrow> (case find (\<lambda>n. i_key n = k) (nodes t) of Some n \<Rightarrow> i_val n | None \<Rightarrow> Nil))"

definition contents :: "table \<Rightarrow> (TValue \<times> TValue) set" where
  "contents t = {(Number (Nint (int i + 1)), array t ! i) |i. i < length (array t) \<and> array t ! i \<noteq> Nil}
    \<union> entries (nodes t)"

lemma twfD:
  assumes "twf hn t"
  shows "hwf hn (nodes t)" "length (nodes t) = 2 ^ lsizenode t" "int (length (array t)) \<le> MAXASIZE"
    "dummy t \<Longrightarrow> nodes t = [dummynode]" "\<not> dummy t \<Longrightarrow> lastfree t \<le> int (length (nodes t))"
    "\<not> dummy t \<Longrightarrow> i \<in> unused (nodes t) \<Longrightarrow> int i < lastfree t"
    "in_array t k i \<Longrightarrow> \<not> has_key (nodes t) k j" "\<not> has_key (nodes t) (Number (Nint int_min)) j"
  using assms by (auto simp: twf_def)

lemma in_array_inj: "in_array t k i \<Longrightarrow> in_array t k j \<Longrightarrow> i = j"
  by (auto simp: in_array_def)

lemma find_array: "in_array t k i \<Longrightarrow> find (\<lambda>i. k = Number (Nint (int i + 1))) [0..<length (array t)] = Some i"
  unfolding find_Some_iff by (rule exI [of _ i]) (auto simp: in_array_def)

lemma find_array_None:
  "\<forall>i. \<not> in_array t k i \<Longrightarrow> find (\<lambda>i. k = Number (Nint (int i + 1))) [0..<length (array t)] = None"
  by (auto simp: in_array_def find_None_iff)

lemma find_node: "keys_ok N \<Longrightarrow> live k \<Longrightarrow> has_key N k j \<Longrightarrow> find (\<lambda>n. i_key n = k) N = Some (N ! j)"
proof -
  assume a: "keys_ok N" "live k" and j: "has_key N k j"
  then have "\<not> (i < j \<and> i_key (N ! i) = k)" for i using keys_okD [OF a, of i j] by (auto simp: has_key_def)
  with j show ?thesis by (auto simp: find_Some_iff has_key_def intro!: exI [of _ j])
qed

lemma find_node_None: "\<forall>j. \<not> has_key N k j \<Longrightarrow> find (\<lambda>n. i_key n = k) N = None"
  by (auto simp: find_None_iff has_key_def in_set_conv_nth)

lemma at_loc_inj:
  assumes "twf hn t" "live k" "at_loc t k l" "at_loc t k l'"
  shows "l = l'"
  using assms(3,4) twfD(7) [OF assms(1)] keys_okD [OF hwfD(4) [OF twfD(1) [OF assms(1)]] assms(2)]
  by (cases l; cases l') (auto dest: in_array_inj)

lemma tget_at: "twf hn t \<Longrightarrow> live k \<Longrightarrow> at_loc t k l \<Longrightarrow> tget t k = value_at t l"
proof (cases l)
  case (LNode j)
  assume t: "twf hn t" "live k" "at_loc t k l"
  then have "\<forall>i. \<not> in_array t k i" using LNode twfD(7) [OF t(1)] by auto
  then show ?thesis
    using t LNode find_node [OF hwfD(4) [OF twfD(1) [OF t(1)]] t(2)] by (simp add: tget_def find_array_None)
qed (simp add: tget_def find_array)

lemma tget_none: "\<forall>l. \<not> at_loc t k l \<Longrightarrow> tget t k = Nil"
proof -
  assume "\<forall>l. \<not> at_loc t k l"
  then have "\<forall>i. \<not> in_array t k i" "\<forall>j. \<not> has_key (nodes t) k j"
    by (metis at_loc.simps(1), metis at_loc.simps(2))
  then show ?thesis by (simp add: tget_def find_array_None find_node_None)
qed

lemma contents_at: "(k, v) \<in> contents t \<longleftrightarrow> v \<noteq> Nil \<and> (\<exists>l. at_loc t k l \<and> value_at t l = v)"
proof
  assume "(k, v) \<in> contents t"
  then consider i where "in_array t k i" "array t ! i = v" "v \<noteq> Nil"
    | j where "has_key (nodes t) k j" "i_val (nodes t ! j) = v" "v \<noteq> Nil"
    by (auto simp: contents_def in_array_def entries_iff)
  then show "v \<noteq> Nil \<and> (\<exists>l. at_loc t k l \<and> value_at t l = v)"
    by cases (metis at_loc.simps value_at.simps)+
next
  assume "v \<noteq> Nil \<and> (\<exists>l. at_loc t k l \<and> value_at t l = v)"
  then obtain l where l: "v \<noteq> Nil" "at_loc t k l" "value_at t l = v" by blast
  then show "(k, v) \<in> contents t"
    by (cases l) (auto simp: contents_def in_array_def entries_iff)
qed

lemma tget_contents:
  assumes "twf hn t" "live k" "v \<noteq> Nil"
  shows "(k, v) \<in> contents t \<longleftrightarrow> tget t k = v"
  using assms contents_at [of k v t] tget_at [OF assms(1,2)] tget_none [of t k] by (metis at_loc_inj)

lemma contents_live: "twf hn t \<Longrightarrow> (k, v) \<in> contents t \<Longrightarrow> live k \<and> v \<noteq> Nil"
proof -
  assume t: "twf hn t" and "(k, v) \<in> contents t"
  then show ?thesis using hwfD(3) [OF twfD(1) [OF t]]
    by (auto simp: contents_def entries_iff vals_ok_def has_key_def live_def)
qed

lemma tget_eq:
  assumes "twf hn t" "twf hn t'" "contents t' = contents t" "live k"
  shows "tget t' k = tget t k"
proof (rule ccontr)
  assume ne: "tget t' k \<noteq> tget t k"
  have "tget t k = Nil \<or> (k, tget t k) \<in> contents t" using tget_contents [OF assms(1,4)] by blast
  moreover have "tget t' k = Nil \<or> (k, tget t' k) \<in> contents t" using tget_contents [OF assms(2,4)] assms(3) by auto
  ultimately show False using ne assms tget_contents [OF assms(1,4)] tget_contents [OF assms(2,4)] by metis
qed

section \<open>Looking up\<close>

lemma unsigned_range:
  assumes "int_min \<le> k" "k \<le> int_max" "int n \<le> MAXASIZE"
  shows "(word_of_int k :: 32 word) < word_of_nat n \<longleftrightarrow> 0 \<le> k \<and> k < int n"
proof -
  have n: "int n \<le> 67108864" using assms(3) by (simp add: MAXASIZE_def MAXBITS_def)
  have u: "uint (word_of_nat n :: 32 word) = int n"
    using n by (simp add: unsigned_of_nat take_bit_eq_mod)
  show ?thesis
  proof (cases "0 \<le> k")
    case True
    then have "uint (word_of_int k :: 32 word) = k"
      using assms(2) by (simp add: unsigned_of_int take_bit_eq_mod int_max_def)
    with u True show ?thesis by (simp add: word_less_alt)
  next
    case False
    have "k mod 2 ^ 32 = k + 2 ^ 32"
      using False assms(1) by (subst mod_add_self2 [symmetric], subst mod_pos_pos_trivial) (simp_all add: int_min_def)
    then have "uint (word_of_int k :: 32 word) = k + 2 ^ 32"
      by (simp add: unsigned_of_int take_bit_eq_mod)
    with u n False assms(1) show ?thesis by (simp add: word_less_alt int_min_def)
  qed
qed

definition found :: "table \<Rightarrow> TValue \<Rightarrow> loc option lres \<Rightarrow> bool" where
  "found t k r = ((\<exists>l. r = Inr (Some l) \<and> at_loc t k l) \<or> r = Inr None \<and> (\<forall>l. \<not> at_loc t k l))"

lemma walk_nodes_found:
  assumes t: "twf hn t" "live k" "mainpos hn (sizenode t) k = Some m" "\<And>n. P n \<longleftrightarrow> i_key n = k"
    and a: "\<forall>i. \<not> in_array t k i"
  shows "found t k (walk_nodes P t m)"
proof -
  have m: "mainpos hn (length (nodes t)) k = Some m" using t(3) twfD(2) [OF t(1)] by (simp add: sizenode_def)
  have "\<not> at_loc t k l" if "\<forall>j. \<not> has_key (nodes t) k j" for l using that a by (cases l) auto
  then show ?thesis
    using search_key [OF twfD(1) [OF t(1)] t(2) m, of P] t(4) by (auto simp: found_def walk_nodes_def)
qed

lemma getnum_found:
  assumes t: "twf hn t" and k: "int_min < key" "key \<le> int_max"
  shows "found t (Number (Nint key)) (luaH_getnum hn t key)"
proof -
  have c: "chk32 (key - 1) = Inr (key - 1)" using k by (simp add: int_min_def int_max_def)
  have r: "(word_of_int (key - 1) :: 32 word) < word_of_nat (length (array t)) \<longleftrightarrow>
    0 \<le> key - 1 \<and> key - 1 < int (length (array t))"
    by (rule unsigned_range) (use k twfD(3) [OF t] in auto)
  show ?thesis
  proof (cases "0 \<le> key - 1 \<and> key - 1 < int (length (array t))")
    case True
    then have "in_array t (Number (Nint key)) (nat (key - 1))" by (auto simp: in_array_def)
    then show ?thesis using True c r by (auto simp: found_def luaH_getnum_def)
  next
    case False
    then have a: "\<forall>i. \<not> in_array t (Number (Nint key)) i" by (auto simp: in_array_def)
    have "luai_numeq x (Nint key) \<longleftrightarrow> x = Nint key" for x by (auto simp: luai_numeq_def)
    then have p: "(case i_key n of Number x \<Rightarrow> luai_numeq x (Nint key) | _ \<Rightarrow> False) \<longleftrightarrow> i_key n = Number (Nint key)"
      for n by (auto split: TValue.splits)
    show ?thesis
      using False c r walk_nodes_found [OF t _ _ p a] by (auto simp: luaH_getnum_def live_def)
  qed
qed

lemma getstr_found: "twf hn t \<Longrightarrow> found t (String s) (luaH_getstr t s)"
  unfolding luaH_getstr_def
  by (rule walk_nodes_found) (auto simp: live_def in_array_def split: TValue.splits gcref.splits)

lemma getany_found:
  assumes "twf hn t" "live k" "\<forall>i. \<not> in_array t k i"
  shows "found t k (luaH_getany hn t k)"
proof -
  obtain m where m: "mainpos hn (sizenode t) k = Some m" using live_mainpos [OF assms(2)] by blast
  have "luaO_rawequalObj x k \<longleftrightarrow> x = k" for x using assms(2) by (auto simp: rawequal_iff live_def)
  then show ?thesis
    using m walk_nodes_found [OF assms(1,2) m, of "\<lambda>n. luaO_rawequalObj (i_key n) k"] assms(3)
    by (simp add: luaH_getany_def mainposition_def)
qed

lemma get_found:
  assumes t: "twf hn t" and k: "ok_key k"
  shows "found t k (luaH_get hn t k)"
proof -
  have l: "live k" using k by (simp add: ok_key_def)
  consider (str) s where "k = String s" | (int) n where "k = Number (Nint n)" "int_min < n" "n \<le> int_max"
    | (any) "luaH_get hn t k = luaH_getany hn t k" "\<forall>i. \<not> in_array t k i"
  proof (cases k)
    case (Number x)
    show ?thesis
    proof (cases x)
      case (Nint n)
      show ?thesis
      proof (cases "int_min < n \<and> n \<le> int_max")
        case True
        with Number Nint that(2) show ?thesis by blast
      next
        case False
        have "int (length (array t)) \<le> int_max" using twfD(3) [OF t] by (simp add: MAXASIZE_def MAXBITS_def int_max_def)
        then have "\<forall>i. \<not> in_array t k i" using False Number Nint by (auto simp: in_array_def int_min_def int_max_def)
        moreover have "n \<noteq> int_min" using k Number Nint by (auto simp: ok_key_def)
        ultimately show ?thesis using False Number Nint that(3) by (auto simp: luaH_get_def)
      qed
    qed (use Number that(3) in \<open>auto simp: luaH_get_def in_array_def\<close>)
  next
    case (Collectable r)
    then show ?thesis using that by (cases r) (auto simp: luaH_get_def in_array_def)
  qed (use l that(3) in \<open>auto simp: luaH_get_def in_array_def live_def\<close>)
  then show ?thesis
  proof cases
    case str
    then show ?thesis using getstr_found [OF t] by (simp add: luaH_get_def)
  next
    case int
    then show ?thesis using getnum_found [OF t int(2,3)] by (simp add: luaH_get_def)
  next
    case any
    then show ?thesis using getany_found [OF t l] by simp
  qed
qed

section \<open>Storing a value\<close>

lemma set_node:
  fixes v
  assumes h: "hwf hn N" and j: "has_key N k j" and k: "live k"
  defines "N' \<equiv> N[j := (N ! j)\<lparr>i_val := v\<rparr>]"
  shows "hwf hn N'" "\<And>k' i. has_key N' k' i \<longleftrightarrow> has_key N k' i" "unused N' = unused N"
proof -
  have jl: "j < length N" "i_key (N ! j) = k" using j by (auto simp: has_key_def)
  have ln [simp]: "length N' = length N" by (simp add: N'_def)
  have at: "N' ! i = (if i = j then (N ! j)\<lparr>i_val := v\<rparr> else N ! i)" if "i < length N" for i
    using that jl by (simp add: N'_def nth_list_update)
  have ky: "i_key (N' ! i) = i_key (N ! i)" "nxt (N' ! i) = nxt (N ! i)" if "i < length N" for i
    using that by (simp_all add: at)
  show hk: "has_key N' k' i \<longleftrightarrow> has_key N k' i" for k' i by (auto simp: has_key_def ky)
  have st: "step N' = step N" by (intro ext) (auto simp: step_def ky)
  show "unused N' = unused N" by (auto simp: unused_def ky)
  have "chained N'" using hwfD(1) [OF h] by (simp add: chained_def st)
  moreover have "free_ok N'" using hwfD(2) [OF h] k jl by (auto simp: free_ok_def at st live_def)
  moreover have "vals_ok N'" using hwfD(3) [OF h] k jl by (auto simp: vals_ok_def at)
  moreover have "keys_ok N'" using hwfD(4) [OF h] unfolding keys_ok_def hk .
  moreover have "mains_ok hn N'"
    using hwfD(5) [OF h] hwf_main_less [OF h] by (simp add: mains_ok_def hk st ky)
  ultimately show "hwf hn N'" using h by (simp add: hwf_def)
qed

lemma set_at_twf:
  assumes t: "twf hn t" and k: "live k" and l: "at_loc t k l"
  shows "twf hn (set_at t l v)" "\<And>k' l'. at_loc (set_at t l v) k' l' \<longleftrightarrow> at_loc t k' l'"
    "value_at (set_at t l v) l = v" "\<And>l'. l' \<noteq> l \<Longrightarrow> value_at (set_at t l v) l' = value_at t l'"
    "unused (nodes (set_at t l v)) = unused (nodes t)"
    "length (array (set_at t l v)) = length (array t)" "dummy (set_at t l v) = dummy t"
proof -
  show "length (array (set_at t l v)) = length (array t)" "dummy (set_at t l v) = dummy t" by (cases l; simp)+
  show "value_at (set_at t l v) l = v" using l by (cases l) (auto simp: in_array_def has_key_def)
  show "value_at (set_at t l v) l' = value_at t l'" if "l' \<noteq> l" for l'
    using that by (cases l; cases l') (auto simp: nth_list_update_neq)
  show u: "unused (nodes (set_at t l v)) = unused (nodes t)"
    using l set_node(3) [OF twfD(1) [OF t] _ k] by (cases l) auto
  have hk: "has_key (nodes (set_at t l v)) k' j \<longleftrightarrow> has_key (nodes t) k' j" for k' j
    using l set_node(2) [OF twfD(1) [OF t] _ k] by (cases l) auto
  have ia: "in_array (set_at t l v) k' i \<longleftrightarrow> in_array t k' i" for k' i by (cases l) (auto simp: in_array_def)
  show "at_loc (set_at t l v) k' l' \<longleftrightarrow> at_loc t k' l'" for k' l' by (cases l') (auto simp: hk ia)
  have h: "hwf hn (nodes (set_at t l v))"
    using l set_node(1) [OF twfD(1) [OF t] _ k] twfD(1) [OF t] by (cases l) auto
  have d: "nodes (set_at t l v) = [dummynode]" if "dummy t"
  proof (cases l)
    case (LNode j)
    then have "k = Nil" using l twfD(4) [OF t that] by (auto simp: has_key_def dummynode_def)
    then show ?thesis using k by (simp add: live_def)
  qed (use twfD(4) [OF t that] in simp)
  have f: "dummy (set_at t l v) = dummy t" "lastfree (set_at t l v) = lastfree t"
    "lsizenode (set_at t l v) = lsizenode t" "length (array (set_at t l v)) = length (array t)"
    "length (nodes (set_at t l v)) = length (nodes t)" by (cases l; simp)+
  show "twf hn (set_at t l v)"
    using t h d unfolding twf_def f hk ia u by (auto split: if_splits)
qed

text \<open>Storing at the location of a key updates the map there and nowhere else.\<close>

lemma tget_set_at:
  assumes t: "twf hn t" and k: "live k" and l: "at_loc t k l" and k': "live k'"
  shows "tget (set_at t l v) k' = (if k' = k then v else tget t k')"
proof (cases "\<exists>l'. at_loc t k' l'")
  case True
  then obtain l' where l': "at_loc t k' l'" by blast
  have s: "tget (set_at t l v) k' = value_at (set_at t l v) l'"
    using tget_at [OF set_at_twf(1) [OF t k l] k'] l' set_at_twf(2) [OF t k l] by blast
  show ?thesis
  proof (cases "l' = l")
    case True
    moreover have "k' = k" using True l l' by (cases l) (auto simp: in_array_def has_key_def)
    ultimately show ?thesis using s set_at_twf(3) [OF t k l] by simp
  next
    case False
    then have "k' \<noteq> k" using at_loc_inj [OF t k l] l' by auto
    then show ?thesis using s set_at_twf(4) [OF t k l False] tget_at [OF t k' l'] by simp
  qed
next
  case False
  then have "k' \<noteq> k" using l by auto
  moreover have "tget (set_at t l v) k' = Nil" "tget t k' = Nil"
    using False set_at_twf(2) [OF t k l] by (auto intro: tget_none)
  ultimately show ?thesis by simp
qed

section \<open>A new key where there is room\<close>

lemma free_loop_spec:
  "k \<le> length N \<Longrightarrow> \<forall>i \<in> unused N. i < k \<Longrightarrow>
    (\<exists>n \<in> unused N. free_loop N k = (Some n, int n) \<and> (\<forall>i \<in> unused N. i \<le> n)) \<or>
    unused N = {} \<and> free_loop N k = (None, - 1)"
proof (induction k)
  case 0
  then show ?case by auto
next
  case (Suc k)
  show ?case
  proof (cases "i_key (N ! k) = Nil")
    case True
    then have "k \<in> unused N" using Suc.prems(1) by (simp add: unused_def)
    then show ?thesis using True Suc.prems(2) by (auto simp: less_Suc_eq_le intro!: bexI [of _ k])
  next
    case False
    then have "k \<notin> unused N" by (simp add: unused_def)
    then have "\<forall>i \<in> unused N. i < k" using Suc.prems(2) less_SucE by blast
    then show ?thesis using Suc.IH Suc.prems(1) False by simp
  qed
qed

lemma getfreepos_spec:
  assumes t: "twf hn t" and d: "\<not> dummy t"
  shows "(\<exists>n \<in> unused (nodes t). getfreepos t = (Some n, int n) \<and> (\<forall>i \<in> unused (nodes t). i \<le> n)) \<or>
    unused (nodes t) = {} \<and> (\<exists>lf. getfreepos t = (None, lf))"
proof (cases "lastfree t > 0")
  case True
  have "\<forall>i \<in> unused (nodes t). i < nat (lastfree t)" using twfD(6) [OF t d] by fastforce
  then show ?thesis
    using free_loop_spec [of "nat (lastfree t)" "nodes t"] twfD(5) [OF t d] True
    by (auto simp: getfreepos_def)
next
  case False
  then have "unused (nodes t) = {}" using twfD(6) [OF t d] by fastforce
  then show ?thesis using False by (simp add: getfreepos_def)
qed

end
