(* ===== verification/LTableOps.thy ===== *)
theory LTableOps
  imports LTableInv
begin

text \<open>
  The operations of tables that move keys: a new key, the reinsertion of the old entries into a
  resized table, and rehash. What each does to the map a table stands for.
\<close>

section \<open>A new key\<close>

definition placed :: "hash \<Rightarrow> table \<Rightarrow> TValue \<Rightarrow> loc \<Rightarrow> table \<Rightarrow> bool" where
  "placed hn t k l t' \<longleftrightarrow> twf hn t' \<and> at_loc t' k l \<and> value_at t' l = Nil \<and> contents t' = contents t
    \<and> array t' = array t \<and> dummy t' = dummy t \<and> card (unused (nodes t)) \<le> card (unused (nodes t')) + 1"

lemma placed_nodes:
  assumes t: "twf hn t" and d: "\<not> dummy t" and k: "ok_key k" "\<forall>l. \<not> at_loc t k l"
    and N': "hwf hn N'" "entries N' = entries (nodes t)" "unused N' = unused (nodes t) - {x}"
      "has_key N' k j" "i_val (N' ! j) = Nil" "keys_from N' k (nodes t)" "length N' = length (nodes t)"
    and lf: "lf \<le> int (length (nodes t))" "\<forall>i \<in> unused N'. int i < lf"
  shows "placed hn t k (LNode j) (t\<lparr>lastfree := lf, nodes := N'\<rparr>)"
proof -
  let ?t = "t\<lparr>lastfree := lf, nodes := N'\<rparr>"
  have ia: "in_array ?t k' i \<longleftrightarrow> in_array t k' i" for k' i by (simp add: in_array_def)
  have na: "\<not> in_array t k i" for i using k(2) by (metis at_loc.simps(1))
  have "\<not> has_key N' k' j'" if "in_array t k' i" for k' i j'
    using that N'(6) na twfD(7) [OF t] unfolding keys_from_def by metis
  moreover have "\<not> has_key N' (Number (Nint int_min)) j'" for j'
    using N'(6) k(1) twfD(8) [OF t] unfolding keys_from_def ok_key_def by metis
  ultimately have "twf hn ?t" using t d N'(1,7) lf by (simp add: twf_def ia)
  moreover have "card (unused (nodes t)) \<le> card (unused N') + 1"
    using N'(3) by (cases "x \<in> unused (nodes t)") (auto simp: card_Diff_singleton_if)
  ultimately show ?thesis using N'(2,4,5) by (simp add: placed_def contents_def)
qed

lemma newkey_placed:
  assumes t: "twf hn t" and k: "ok_key k" "\<forall>l. \<not> at_loc t k l"
    and d: "\<not> dummy t" and mp: "mainpos hn (length (nodes t)) k = Some mp"
    and room: "i_val (nodes t ! mp) = Nil \<or> unused (nodes t) \<noteq> {}"
  shows "\<exists>l t'. newkey (Suc n) hn t k = Inr (l, t') \<and> placed hn t k l t'"
proof -
  let ?N = "nodes t"
  have sz: "sizenode t = length ?N" using twfD(2) [OF t] by (simp add: sizenode_def)
  note h = twfD(1) [OF t]
  have l: "live k" using k(1) by (simp add: ok_key_def)
  have nk: "\<not> has_key ?N k i" for i using k(2) by (metis at_loc.simps(2))
  have ml: "mp < length ?N" using hwf_main_less [OF h mp] .
  have ms: "mainposition hn t k = Inr mp" using mp by (simp add: mainposition_def sz)
  show ?thesis
  proof (cases "i_val (?N ! mp) = Nil")
    case True
    let ?N' = "?N[mp := (?N ! mp)\<lparr>i_key := k\<rparr>]"
    have "placed hn t k (LNode mp) (t\<lparr>lastfree := lastfree t, nodes := ?N'\<rparr>)"
      using put_main [OF h l nk mp True] twfD(5,6) [OF t d] by (intro placed_nodes [OF t d k]) auto
    then show ?thesis using True d ms ml by simp
  next
    case False
    with room obtain n where n: "n \<in> unused ?N" "getfreepos t = (Some n, int n)" "\<forall>i \<in> unused ?N. i \<le> n"
      using getfreepos_spec [OF t d] by blast
    have nl: "n < length ?N" using n(1) by (simp add: unused_def)
    have nm: "n \<noteq> mp" using n(1) False hwfD(2) [OF h] by (auto simp: unused_def free_ok_def)
    have lv: "live (i_key (?N ! mp))" using False ml hwfD(3) [OF h] by (simp add: vals_ok_def)
    obtain oth where oth: "mainpos hn (length ?N) (i_key (?N ! mp)) = Some oth" using live_mainpos [OF lv] by blast
    have lf: "\<forall>i \<in> unused ?N - {n}. int i < int n" using n(3) by (auto simp: le_less)
    have mo: "mainposition hn (t\<lparr>lastfree := int n\<rparr>) (i_key (?N ! mp)) = Inr oth"
      using oth by (simp add: mainposition_def sizenode_def flip: twfD(2) [OF t])
    show ?thesis
    proof (cases "oth = mp")
      case True
      define N' where "N' = (let N1 = ?N[n := (?N ! n)\<lparr>nxt := nxt (?N ! mp)\<rparr>];
        N2 = N1[mp := (N1 ! mp)\<lparr>nxt := Some n\<rparr>] in N2[n := (N2 ! n)\<lparr>i_key := k\<rparr>])"
      have "length N' = length ?N" "\<And>i. i < length ?N \<Longrightarrow> N' ! i =
        (if i = n then (?N ! n)\<lparr>nxt := nxt (?N ! mp), i_key := k\<rparr>
         else if i = mp then (?N ! mp)\<lparr>nxt := Some n\<rparr> else ?N ! i)"
        using nl ml nm by (simp_all add: N'_def Let_def nth_list_update)
      note c = chain_new [OF h l nk mp oth [unfolded True] n(1) nm this] this(1)
      have "placed hn t k (LNode n) (t\<lparr>lastfree := int n, nodes := N'\<rparr>)"
        using c lf nl by (intro placed_nodes [OF t d k]) auto
      then show ?thesis using False n(2) ms ml mo True by (simp add: N'_def Let_def)
    next
      case o: False
      have "reach ?N oth mp" using hwfD(5) [OF h] oth ml by (auto simp: mains_ok_def has_key_def)
      from find_prev_full [OF hwfD(1) [OF h] hwf_main_less [OF h oth] this o] obtain prev where
        p: "find_prev ?N (length ?N) oth mp = Inr prev" "step ?N prev mp" by blast
      have pl: "prev < length ?N" using p(2) by (simp add: step_def)
      have pm: "prev \<noteq> mp" "prev \<noteq> n"
        using chained_no_return [OF hwfD(1) [OF h] p(2)] unused_isolated [OF hwfD(2) [OF h] n(1)] p(2) by auto
      define N' where "N' = (let N1 = ?N[prev := (?N ! prev)\<lparr>nxt := Some n\<rparr>]; N2 = N1[n := N1 ! mp];
        N3 = N2[mp := (N2 ! mp)\<lparr>nxt := None, i_val := Nil\<rparr>] in N3[mp := (N3 ! mp)\<lparr>i_key := k\<rparr>])"
      have "length N' = length ?N" "\<And>i. i < length ?N \<Longrightarrow> N' ! i =
        (if i = mp then (?N ! mp)\<lparr>nxt := None, i_val := Nil, i_key := k\<rparr> else if i = n then ?N ! mp
         else if i = prev then (?N ! prev)\<lparr>nxt := Some n\<rparr> else ?N ! i)"
        using nl ml nm pl pm by (simp_all add: N'_def Let_def nth_list_update)
      note c = chain_move [OF h l nk mp oth o n(1) nm p(2) this] this(1)
      have "placed hn t k (LNode mp) (t\<lparr>lastfree := int n, nodes := N'\<rparr>)"
        using c lf nl by (intro placed_nodes [OF t d k]) auto
      then show ?thesis using False n(2) ms ml mo o p(1) by (simp add: N'_def Let_def)
    qed
  qed
qed

text \<open>Otherwise there is a rehash.\<close>

lemma newkey_full:
  assumes t: "twf hn t" and k: "ok_key k" and mp: "mainpos hn (length (nodes t)) k = Some mp"
    and full: "dummy t \<or> i_val (nodes t ! mp) \<noteq> Nil \<and> unused (nodes t) = {}"
  shows "\<exists>lf. newkey (Suc n) hn t k = sbind (rehash_with (newkey n hn) hn (t\<lparr>lastfree := lf\<rparr>) k)
    (\<lambda>t'. luaH_set_with (newkey n hn) hn t' k) \<and> twf hn (t\<lparr>lastfree := lf\<rparr>)"
proof -
  have sz: "sizenode t = length (nodes t)" using twfD(2) [OF t] by (simp add: sizenode_def)
  have ml: "mp < length (nodes t)" using hwf_main_less [OF twfD(1) [OF t] mp] .
  have ms: "mainposition hn t k = Inr mp" using mp by (simp add: mainposition_def sz)
  have "\<exists>lf. getfreepos t = (None, lf) \<and> twf hn (t\<lparr>lastfree := lf\<rparr>)"
  proof (cases "dummy t")
    case True
    then have "lastfree t \<le> 0" using t by (simp add: twf_def)
    then show ?thesis using t True by (auto simp: getfreepos_def twf_def in_array_def)
  next
    case False
    then have u: "unused (nodes t) = {}" using full by simp
    then obtain lf where g: "getfreepos t = (None, lf)" using getfreepos_spec [OF t False] by auto
    have "lf \<le> int (length (nodes t))"
    proof (cases "lastfree t > 0")
      case True
      then have "lf = - 1" using g u free_loop_spec [of "nat (lastfree t)" "nodes t"] twfD(5) [OF t False]
        by (simp add: getfreepos_def)
      then show ?thesis by simp
    qed (use g in \<open>auto simp: getfreepos_def\<close>)
    then show ?thesis using t g False u by (auto simp: twf_def in_array_def)
  qed
  then show ?thesis using ms ml full by auto
qed

declare newkey.simps [simp del]

section \<open>Inserting where there is room\<close>

definition room :: "table \<Rightarrow> nat" where
  "room t = (if dummy t then 0 else card (unused (nodes t)))"

text \<open>The key has a location, the map and the sizes are the same.\<close>

definition inserted :: "hash \<Rightarrow> table \<Rightarrow> TValue \<Rightarrow> loc \<Rightarrow> table \<Rightarrow> bool" where
  "inserted hn t k l t' \<longleftrightarrow> twf hn t' \<and> at_loc t' k l \<and> contents t' = contents t
    \<and> length (array t') = length (array t) \<and> dummy t' = dummy t
    \<and> room t \<le> room t' + (if \<exists>i. in_array t k i then 0 else 1)"

lemma twf_flags [simp]: "twf hn (t\<lparr>flags := x\<rparr>) = twf hn t"
  by (simp add: twf_def in_array_def)

lemma at_loc_flags [simp]: "at_loc (t\<lparr>flags := x\<rparr>) = at_loc t"
proof (intro ext)
  show "at_loc (t\<lparr>flags := x\<rparr>) k l = at_loc t k l" for k l by (cases l) (auto simp: in_array_def)
qed

lemma contents_flags [simp]: "contents (t\<lparr>flags := x\<rparr>) = contents t"
  by (simp add: contents_def)

lemma in_array_flags [simp]: "in_array (t\<lparr>flags := x\<rparr>) = in_array t"
  by (intro ext) (simp add: in_array_def)

lemma room_flags [simp]: "room (t\<lparr>flags := x\<rparr>) = room t"
  by (simp add: room_def)

lemma inserted_flags [simp]: "inserted hn (t\<lparr>flags := x\<rparr>) k l t' = inserted hn t k l t'"
  by (simp add: inserted_def room_def in_array_def)

lemma inserted_refl: "twf hn t \<Longrightarrow> at_loc t k l \<Longrightarrow> inserted hn t k l t"
  by (simp add: inserted_def)

lemma newkey_inserted:
  assumes t: "twf hn t" and k: "ok_key k" "\<forall>l. \<not> at_loc t k l" and r: "0 < room t"
  shows "\<exists>l t'. newkey (Suc n) hn t k = Inr (l, t') \<and> inserted hn t k l t'"
proof -
  have d: "\<not> dummy t" "unused (nodes t) \<noteq> {}" using r by (auto simp: room_def split: if_splits)
  obtain mp where mp: "mainpos hn (length (nodes t)) k = Some mp" using k(1) live_mainpos [of k hn "length (nodes t)"] by (auto simp: ok_key_def)
  obtain l t' where n: "newkey (Suc n) hn t k = Inr (l, t')" "placed hn t k l t'"
    using newkey_placed [OF t k d(1) mp] d(2) by blast
  have "\<forall>i. \<not> in_array t k i" using k(2) by (metis at_loc.simps(1))
  then have "inserted hn t k l t'" using n(2) d(1) by (auto simp: inserted_def placed_def room_def)
  with n(1) show ?thesis by blast
qed

lemma room_set_at: "twf hn t \<Longrightarrow> live k \<Longrightarrow> at_loc t k l \<Longrightarrow> room (set_at t l v) = room t"
  using set_at_twf(5,7) by (simp add: room_def)

text \<open>What \<open>luaH_set\<close> and \<open>luaH_setnum\<close> have in common.\<close>

lemma set_inserted:
  assumes t: "twf hn t" and k: "ok_key k" and r: "(\<exists>i. in_array t k i) \<or> 0 < room t"
    and f: "found t k g"
  shows "\<exists>l t'. sbind g (\<lambda>p. case p of Some l \<Rightarrow> Inr (l, t) | None \<Rightarrow> newkey (Suc n) hn t k) = Inr (l, t')
    \<and> inserted hn t k l t'"
  using f unfolding found_def
proof (elim disjE exE conjE)
  fix l
  assume "g = Inr (Some l)" "at_loc t k l"
  then show ?thesis using inserted_refl [OF t] by auto
next
  assume g: "g = Inr None" "\<forall>l. \<not> at_loc t k l"
  then have "0 < room t" using r by (metis at_loc.simps(1))
  from newkey_inserted [OF t k g(2) this] show ?thesis using g(1) by simp
qed

lemma luaH_set_inserted:
  assumes t: "twf hn t" and k: "ok_key k" and r: "(\<exists>i. in_array t k i) \<or> 0 < room t"
  shows "\<exists>l t'. luaH_set_with (newkey (Suc n) hn) hn t k = Inr (l, t') \<and> inserted hn t k l t'"
proof -
  let ?t = "t\<lparr>flags := 0\<rparr>"
  have k': "k \<noteq> Nil" "k \<noteq> Number Nnan" using k by (auto simp: ok_key_def live_def)
  have f: "found ?t k (luaH_get hn t k)" using get_found [OF t k] by (simp add: found_def)
  have r': "(\<exists>i. in_array ?t k i) \<or> 0 < room ?t" using r by simp
  have t': "twf hn ?t" using t by simp
  obtain l t' where
    "sbind (luaH_get hn t k) (\<lambda>p. case p of Some l \<Rightarrow> Inr (l, ?t) | None \<Rightarrow> newkey (Suc n) hn ?t k) = Inr (l, t')"
    "inserted hn ?t k l t'" using set_inserted [OF t' k r' f, of n] by blast
  then show ?thesis using k' by (simp add: luaH_set_with_def Let_def)
qed

lemma luaH_setnum_inserted:
  assumes t: "twf hn t" and k: "int_min < key" "key \<le> int_max"
    and r: "(\<exists>i. in_array t (Number (Nint key)) i) \<or> 0 < room t"
  shows "\<exists>l t'. luaH_setnum_with (newkey (Suc n) hn) hn t key = Inr (l, t')
    \<and> inserted hn t (Number (Nint key)) l t'"
proof -
  have "ok_key (Number (Nint key))" using k(1) by (simp add: ok_key_def live_def)
  from set_inserted [OF t this r getnum_found [OF t k]] show ?thesis by (simp add: luaH_setnum_with_def)
qed

lemma store_inserted:
  fixes v
  assumes t: "twf hn t" and k: "live k" and i: "inserted hn t k l t'"
  defines "t'' \<equiv> set_at t' l v"
  shows "twf hn t''" "length (array t'') = length (array t)" "dummy t'' = dummy t"
    "room t \<le> room t'' + (if \<exists>i. in_array t k i then 0 else 1)"
    "\<And>k'. live k' \<Longrightarrow> tget t'' k' = (if k' = k then v else tget t k')"
proof -
  note i' = i [unfolded inserted_def]
  have a: "twf hn t'" "at_loc t' k l" using i' by simp_all
  show "twf hn t''" "length (array t'') = length (array t)" "dummy t'' = dummy t"
    using set_at_twf(1,6,7) [OF a(1) k a(2)] i' by (simp_all add: t''_def)
  show "room t \<le> room t'' + (if \<exists>i. in_array t k i then 0 else 1)"
    using room_set_at [OF a(1) k a(2)] i' by (simp add: t''_def)
  show "tget t'' k' = (if k' = k then v else tget t k')" if "live k'" for k'
    using tget_set_at [OF a(1) k a(2) that] tget_eq [OF t a(1) _ that] i' by (simp add: t''_def)
qed

section \<open>Reinsertion\<close>

text \<open>The map with the pairs whose value is not nil stored in their order.\<close>

fun upd :: "(TValue \<Rightarrow> TValue) \<Rightarrow> (TValue \<times> TValue) list \<Rightarrow> TValue \<Rightarrow> TValue" where
  "upd m [] = m"
| "upd m ((k, v) # ps) = upd (if v = Nil then m else m(k := v)) ps"

lemma upd_same: "(\<And>v. (k, v) \<in> set ps \<Longrightarrow> v = Nil) \<Longrightarrow> upd m ps k = m k"
  by (induction m ps rule: upd.induct) auto

lemma upd_in:
  "(k, v) \<in> set ps \<Longrightarrow> v \<noteq> Nil \<Longrightarrow> (\<And>w. (k, w) \<in> set ps \<Longrightarrow> w \<noteq> Nil \<Longrightarrow> w = v) \<Longrightarrow> upd m ps k = v"
proof (induction m ps rule: upd.induct)
  case (2 m k' v' ps)
  show ?case
  proof (cases "(k, v) \<in> set ps")
    case True
    have "upd (if v' = Nil then m else m(k' := v')) ps k = v"
      by (rule "2.IH" [OF True "2.prems"(2)]) (rule "2.prems"(3), simp_all)
    then show ?thesis by simp
  next
    case False
    then have "k' = k \<and> v' = v" using 2(2) by auto
    moreover have "upd m' ps k = m' k" for m' using False 2(3,4) by (intro upd_same) (metis list.set_intros(2))
    ultimately show ?thesis using 2(3) by simp
  qed
qed simp

lemma upd_cong: "(\<And>k. live k \<Longrightarrow> m k = m' k) \<Longrightarrow> live k \<Longrightarrow> upd m ps k = upd m' ps k"
proof (induction ps arbitrary: m m')
  case (Cons p ps)
  obtain k' v' where "p = (k', v')" by (cases p)
  moreover have "upd (m(k' := v')) ps k = upd (m'(k' := v')) ps k" by (rule Cons.IH) (use Cons.prems in auto)
  ultimately show ?case using Cons.IH [OF Cons.prems] by simp
qed simp

text \<open>The number of pairs that need a node.\<close>

definition cost :: "nat \<Rightarrow> (TValue \<times> TValue) list \<Rightarrow> nat" where
  "cost len ps = length (filter (\<lambda>(k, v). v \<noteq> Nil \<and> \<not> (\<exists>i < len. k = Number (Nint (int i + 1)))) ps)"

definition refilled :: "hash \<Rightarrow> table \<Rightarrow> (TValue \<times> TValue) list \<Rightarrow> table \<Rightarrow> bool" where
  "refilled hn t ps t' \<longleftrightarrow> twf hn t' \<and> length (array t') = length (array t) \<and> dummy t' = dummy t
    \<and> room t \<le> room t' + cost (length (array t)) ps \<and> (\<forall>k. live k \<longrightarrow> tget t' k = upd (tget t) ps k)"

lemma refilled_step:
  assumes t: "twf hn t" and k: "live k" and i: "inserted hn t k l t'" and v: "v \<noteq> Nil"
    and r: "refilled hn (set_at t' l v) ps t''"
  shows "refilled hn t ((k, v) # ps) t''"
proof -
  note s = store_inserted [OF t k i, where v = v]
  have "tget t'' k' = upd ((tget t)(k := v)) ps k'" if "live k'" for k'
  proof -
    have "upd (tget (set_at t' l v)) ps k' = upd ((tget t)(k := v)) ps k'"
      by (rule upd_cong [OF _ that]) (simp add: s(5) k)
    then show ?thesis using r that by (simp add: refilled_def)
  qed
  moreover have "room t \<le> room t'' + cost (length (array t)) ((k, v) # ps)"
    using s(2,4) r v by (auto simp: refilled_def cost_def in_array_def split: if_splits)
  ultimately show ?thesis using r s(2,3) v by (simp add: refilled_def)
qed

lemma reinsert_nodes_refilled:
  "twf hn t \<Longrightarrow> \<forall>n \<in> set olds. i_val n \<noteq> Nil \<longrightarrow> ok_key (i_key n) \<Longrightarrow>
   cost (length (array t)) (map (\<lambda>n. (i_key n, i_val n)) olds) \<le> room t \<Longrightarrow>
   \<exists>t'. reinsert_nodes (newkey (Suc d) hn) hn t olds = Inr t' \<and> refilled hn t (map (\<lambda>n. (i_key n, i_val n)) olds) t'"
proof (induction olds arbitrary: t)
  case Nil
  then show ?case by (simp add: refilled_def)
next
  case (Cons old olds)
  let ?ps = "map (\<lambda>n. (i_key n, i_val n)) olds"
  show ?case
  proof (cases "i_val old = Nil")
    case True
    then show ?thesis using Cons.IH [OF Cons.prems(1)] Cons.prems(2,3) by (auto simp: cost_def refilled_def)
  next
    case False
    then have k: "ok_key (i_key old)" "live (i_key old)" using Cons.prems(2) by (auto simp: ok_key_def)
    have r: "(\<exists>i. in_array t (i_key old) i) \<or> 0 < room t"
      using Cons.prems(3) False by (auto simp: cost_def in_array_def split: if_splits)
    from luaH_set_inserted [OF Cons.prems(1) k(1) r] obtain l t' where
      i: "luaH_set_with (newkey (Suc d) hn) hn t (i_key old) = Inr (l, t')" "inserted hn t (i_key old) l t'" by blast
    note s = store_inserted [OF Cons.prems(1) k(2) i(2), where v = "i_val old"]
    have "cost (length (array t)) ?ps \<le> room (set_at t' l (i_val old))"
      using Cons.prems(3) False s(4) by (auto simp: cost_def in_array_def split: if_splits)
    then obtain t'' where "reinsert_nodes (newkey (Suc d) hn) hn (set_at t' l (i_val old)) olds = Inr t''"
      "refilled hn (set_at t' l (i_val old)) ?ps t''"
      using Cons.IH [OF s(1)] Cons.prems(2) s(2) by auto
    then show ?thesis using refilled_step [OF Cons.prems(1) k(2) i(2) False] i(1) False by simp
  qed
qed

text \<open>The pairs of a slice of the array that starts at index \<open>i\<close>.\<close>

fun slice_pairs :: "nat \<Rightarrow> TValue list \<Rightarrow> (TValue \<times> TValue) list" where
  "slice_pairs i [] = []"
| "slice_pairs i (v # vs) = (Number (Nint (int i + 1)), v) # slice_pairs (i + 1) vs"

lemma slice_pairs_iff:
  "(k, v) \<in> set (slice_pairs i vs) \<longleftrightarrow> (\<exists>j < length vs. k = Number (Nint (int (i + j) + 1)) \<and> v = vs ! j)"
  by (induction i vs rule: slice_pairs.induct) (auto simp: Ex_less_Suc2)

lemma reinsert_array_refilled:
  "twf hn t \<Longrightarrow> int (i + length vs) \<le> MAXASIZE \<Longrightarrow>
   cost (length (array t)) (slice_pairs i vs) \<le> room t \<Longrightarrow>
   \<exists>t'. reinsert_array (newkey (Suc d) hn) hn t i vs = Inr t' \<and> refilled hn t (slice_pairs i vs) t'"
proof (induction vs arbitrary: t i)
  case Nil
  then show ?case by (simp add: refilled_def)
next
  case (Cons v vs)
  let ?k = "Number (Nint (int i + 1))"
  show ?case
  proof (cases "v = Nil")
    case True
    then show ?thesis using Cons.IH [OF Cons.prems(1), of "i + 1"] Cons.prems(2,3) by (auto simp: cost_def refilled_def)
  next
    case False
    have k: "live ?k" "int_min < int i + 1" "int i + 1 \<le> int_max"
      using Cons.prems(2) by (simp_all add: live_def int_min_def int_max_def MAXASIZE_def MAXBITS_def)
    have r: "(\<exists>i. in_array t ?k i) \<or> 0 < room t"
      using Cons.prems(3) False by (auto simp: cost_def in_array_def split: if_splits)
    from luaH_setnum_inserted [OF Cons.prems(1) k(2,3) r] obtain l t' where
      i: "luaH_setnum_with (newkey (Suc d) hn) hn t (int i + 1) = Inr (l, t')" "inserted hn t ?k l t'" by blast
    note s = store_inserted [OF Cons.prems(1) k(1) i(2), where v = v]
    have "cost (length (array t)) (slice_pairs (i + 1) vs) \<le> room (set_at t' l v)"
      using Cons.prems(3) False s(4) by (auto simp: cost_def in_array_def split: if_splits)
    then obtain t'' where "reinsert_array (newkey (Suc d) hn) hn (set_at t' l v) (i + 1) vs = Inr t''"
      "refilled hn (set_at t' l v) (slice_pairs (i + 1) vs) t''"
      using Cons.IH [OF s(1), of "i + 1"] Cons.prems(2) s(2) by auto
    then show ?thesis using refilled_step [OF Cons.prems(1) k(1) i(2) False] i(1) False by simp
  qed
qed

section \<open>Fresh tables\<close>

lemma hwf_fresh: "l \<le> MAXBITS \<Longrightarrow> hwf hn (replicate (2 ^ l) dummynode)"
proof -
  let ?N = "replicate (2 ^ l) dummynode"
  assume "l \<le> MAXBITS"
  moreover have "\<not> step ?N a b" for a b by (simp add: step_def dummynode_def)
  moreover have "\<not> has_key ?N k i" if "k \<noteq> Nil" for k i using that by (auto simp: has_key_def dummynode_def)
  moreover have "mainpos hn sz Nil = None" for sz by simp
  ultimately show ?thesis
    by (auto simp: hwf_def chained_def free_ok_def vals_ok_def keys_ok_def mains_ok_def dummynode_def live_def has_key_def)
qed

lemma twf_fresh:
  assumes "l \<le> MAXBITS" "nodes t = replicate (2 ^ l) dummynode" "lsizenode t = l" "int (length (array t)) \<le> MAXASIZE"
    "dummy t \<Longrightarrow> l = 0 \<and> lastfree t \<le> 0" "\<not> dummy t \<Longrightarrow> lastfree t = 2 ^ l"
  shows "twf hn t"
proof -
  have "\<not> has_key (nodes t) k i" if "k \<noteq> Nil" for k i using that assms(2) by (auto simp: has_key_def dummynode_def)
  moreover have "i < 2 ^ l" if "i \<in> unused (nodes t)" for i using that assms(2) by (simp add: unused_def)
  ultimately show ?thesis
    using assms hwf_fresh [of l hn] by (auto simp: twf_def in_array_def of_nat_less_numeral_power_cancel_iff)
qed

lemma setnodevector_cases:
  assumes "sz < 2 ^ 32" "int (length b) \<le> MAXASIZE"
  shows "setnodevector t sz = raise ''table overflow'' \<and> 2 ^ MAXBITS < sz \<or> (\<exists>t'. setnodevector t sz = Inr t' \<and> twf hn (t'\<lparr>array := b\<rparr>)
    \<and> array t' = array t \<and> sz \<le> room t' \<and> (\<forall>n \<in> set (nodes t'). n = dummynode))"
proof (cases "sz = 0")
  case True
  let ?t = "t\<lparr>nodes := [dummynode], dummy := True, lsizenode := 0, lastfree := 0\<rparr>"
  have "twf hn (?t\<lparr>array := b\<rparr>)" by (rule twf_fresh [of 0]) (use assms in auto)
  then show ?thesis using True by (simp add: setnodevector_def room_def)
next
  case False
  then obtain k where k: "ceillog2 sz = int k" "sz \<le> 2 ^ k" "k = 0 \<or> 2 ^ (k - 1) < sz" using ceillog2_spec [of sz] assms(1) by auto
  show ?thesis
  proof (cases "k > MAXBITS")
    case True
    have "(2 :: nat) ^ MAXBITS \<le> 2 ^ (k - 1)" using True by (intro power_increasing) auto
    moreover have "2 ^ (k - 1) < sz" using k(3) True by auto
    ultimately have "2 ^ MAXBITS < sz" by linarith
    then show ?thesis using False True k(1) by (simp add: setnodevector_def)
  next
    case kb: False
    let ?t = "t\<lparr>nodes := replicate (2 ^ k) dummynode, dummy := False, lsizenode := k, lastfree := 2 ^ k\<rparr>"
    have "twf hn (?t\<lparr>array := b\<rparr>)" by (rule twf_fresh [of k]) (use kb assms in auto)
    moreover have "unused (replicate (2 ^ k) dummynode) = {..<2 ^ k}" by (auto simp: unused_def dummynode_def)
    ultimately show ?thesis using False k kb by (simp add: setnodevector_def room_def)
  qed
qed

lemma tget_fresh:
  assumes "\<forall>n \<in> set (nodes t). n = dummynode" "live k" "twf hn t"
  shows "tget t k = v \<longleftrightarrow> (v = Nil \<and> (\<forall>i. in_array t k i \<longrightarrow> array t ! i = Nil) \<or> (\<exists>i. in_array t k i \<and> array t ! i = v))"
proof (cases "\<exists>i. in_array t k i")
  case True
  then show ?thesis using find_array in_array_inj by (fastforce simp: tget_def)
next
  case False
  have "\<not> has_key (nodes t) k j" for j
  proof
    assume j: "has_key (nodes t) k j"
    then have "nodes t ! j = dummynode" using assms(1) by (simp add: has_key_def)
    then show False using j assms(2) by (auto simp: has_key_def dummynode_def live_def)
  qed
  then show ?thesis using False by (auto simp: tget_def find_array_None find_node_None)
qed

section \<open>Resizing\<close>

abbreviation node_pairs :: "node list \<Rightarrow> (TValue \<times> TValue) list" where
  "node_pairs N \<equiv> map (\<lambda>n. (i_key n, i_val n)) N"

text \<open>The number of entries that need a node when the array part has size \<open>na\<close>.\<close>

definition outside :: "table \<Rightarrow> nat \<Rightarrow> nat" where
  "outside t na = cost na (slice_pairs 0 (array t)) + cost na (node_pairs (nodes t))"

lemma cost_append: "cost na (ps @ qs) = cost na ps + cost na qs"
  by (simp add: cost_def)

lemma cost_rev: "cost na (rev ps) = cost na ps"
  by (simp add: cost_def flip: rev_filter)

lemma slice_pairs_append: "slice_pairs i (xs @ ys) = slice_pairs i xs @ slice_pairs (i + length xs) ys"
  by (induction i xs rule: slice_pairs.induct) auto

lemma cost_vanishing: "cost na (slice_pairs na (drop na a)) \<le> cost na (slice_pairs 0 a)"
proof (cases "na \<le> length a")
  case True
  then have "slice_pairs 0 a = slice_pairs 0 (take na a) @ slice_pairs na (drop na a)"
    using slice_pairs_append [of 0 "take na a" "drop na a"] by (simp add: min_def)
  then show ?thesis by (simp add: cost_append)
qed (simp add: cost_def)

lemma contents_pairs:
  "(k, v) \<in> contents t \<longleftrightarrow> v \<noteq> Nil \<and> (k, v) \<in> set (slice_pairs 0 (array t)) \<union> set (node_pairs (nodes t))"
  by (auto simp: contents_def entries_def slice_pairs_iff)

definition resized_array :: "TValue list \<Rightarrow> nat \<Rightarrow> TValue list" where
  "resized_array a na = take na a @ replicate (na - length a) Nil"

lemma length_resized_array [simp]: "length (resized_array a na) = na"
  by (simp add: resized_array_def)

lemma nth_resized_array: "i < na \<Longrightarrow> resized_array a na ! i = (if i < length a then a ! i else Nil)"
  by (auto simp: resized_array_def nth_append)

lemma array_same: "array t = a \<Longrightarrow> t\<lparr>array := a\<rparr> = t"
  by (cases t) simp

lemma resize_unfold:
  "resize_with nk hn t na nh =
    (if na > length (array t) then
       sbind (setnodevector (t\<lparr>array := resized_array (array t) na\<rparr>) nh) (\<lambda>t2.
         reinsert_nodes nk hn t2 (rev (nodes t)))
     else
       sbind (setnodevector t nh) (\<lambda>t2.
       sbind (reinsert_array nk hn (t2\<lparr>array := take na (array t2)\<rparr>) na (drop na (array t))) (\<lambda>t3.
         reinsert_nodes nk hn t3 (rev (nodes t)))))" if "\<And>t'. setnodevector t nh = Inr t' \<Longrightarrow> array t' = array t"
proof -
  consider "na > length (array t)" | "na < length (array t)" | "na = length (array t)" by linarith
  then show ?thesis
  proof cases
    case 3
    then show ?thesis using that by (auto simp: resize_with_def sbind_def array_same split: sum.splits)
  qed (simp_all add: resize_with_def setarrayvector_def resized_array_def)
qed

text \<open>The map after the base table got the vanishing slice and the old nodes is the old map.\<close>

lemma refill_map:
  assumes t: "twf hn t" and k: "live k"
    and b: "\<forall>n \<in> set (nodes b). n = dummynode" "twf hn b" "array b = resized_array (array t) na"
  shows "upd (upd (tget b) (slice_pairs na (drop na (array t)))) (rev (node_pairs (nodes t))) k = tget t k"
proof -
  let ?P = "slice_pairs na (drop na (array t))" and ?Q = "rev (node_pairs (nodes t))"
  have uni: "w = v" if "(k, v) \<in> contents t" "(k, w) \<in> contents t" for v w
    using tget_contents [OF t k] contents_live [OF t] that by metis
  have cP: "(k, v) \<in> contents t" if kv: "(k, v) \<in> set ?P" "v \<noteq> Nil" for v
  proof -
    obtain j where j: "j < length (array t) - na" "k = Number (Nint (int (na + j) + 1))" "v = array t ! (na + j)"
      using kv(1) by (auto simp: slice_pairs_iff)
    then have "at_loc t k (LArr (na + j))" by (simp add: in_array_def)
    then show ?thesis using j(3) kv(2) contents_at [of k v t] by (metis value_at.simps(1))
  qed
  have cQ: "(k, v) \<in> contents t" if "(k, v) \<in> set ?Q" "v \<noteq> Nil" for v
    using that by (auto simp: contents_pairs)
  have cb: "(k, tget b k) \<in> contents t" if "tget b k \<noteq> Nil"
    using that tget_fresh [OF b(1) k b(2), of "tget b k"] b(3)
    by (auto simp: contents_def in_array_def nth_resized_array split: if_splits)
  show ?thesis
  proof (cases "\<exists>v. (k, v) \<in> set ?Q \<and> v \<noteq> Nil")
    case True
    then obtain v where v: "(k, v) \<in> set ?Q" "v \<noteq> Nil" by blast
    have "upd m ?Q k = v" for m by (rule upd_in [OF v]) (use uni cQ v in blast)
    then show ?thesis using cQ [OF v] tget_contents [OF t k v(2)] by simp
  next
    case noQ: False
    have Q: "upd m ?Q k = m k" for m by (rule upd_same) (use noQ in blast)
    show ?thesis
    proof (cases "\<exists>v. (k, v) \<in> set ?P \<and> v \<noteq> Nil")
      case True
      then obtain v where v: "(k, v) \<in> set ?P" "v \<noteq> Nil" by blast
      have "upd m ?P k = v" for m by (rule upd_in [OF v]) (use uni cP v in blast)
      then show ?thesis using Q cP [OF v] tget_contents [OF t k v(2)] by simp
    next
      case noP: False
      have P': "upd m ?P k = m k" for m by (rule upd_same) (use noP in blast)
      show ?thesis
      proof (cases "tget b k = Nil")
        case False
        then show ?thesis using Q P' cb tget_contents [OF t k] by metis
      next
        case nb: True
        have "tget t k = Nil"
        proof (rule ccontr)
          assume ne: "tget t k \<noteq> Nil"
          then have "(k, tget t k) \<in> contents t" using tget_contents [OF t k ne] by simp
          then obtain i where i: "i < length (array t)" "k = Number (Nint (int i + 1))" "tget t k = array t ! i"
            using noQ by (auto simp: contents_pairs slice_pairs_iff)
          show False
          proof (cases "i < na")
            case True
            then have "in_array b k i \<and> array b ! i = array t ! i"
              using i b(3) by (simp add: in_array_def resized_array_def nth_append)
            then show False using tget_fresh [OF b(1) k b(2), of "array t ! i"] nb ne i(3) by auto
          next
            case False
            then have "(k, array t ! i) \<in> set ?P"
              using i by (auto simp: slice_pairs_iff intro!: exI [of _ "i - na"])
            then show False using noP ne i(3) by auto
          qed
        qed
        then show ?thesis using Q P' nb by simp
      qed
    qed
  qed
qed

lemma nodes_ok_keys: "twf hn t \<Longrightarrow> n \<in> set (nodes t) \<Longrightarrow> i_val n \<noteq> Nil \<Longrightarrow> ok_key (i_key n)"
proof -
  assume t: "twf hn t" "n \<in> set (nodes t)" "i_val n \<noteq> Nil"
  then obtain i where i: "i < length (nodes t)" "n = nodes t ! i" by (auto simp: in_set_conv_nth)
  then show ?thesis
    using t(3) hwfD(3) [OF twfD(1) [OF t(1)]] twfD(8) [OF t(1), of i]
    by (auto simp: vals_ok_def ok_key_def has_key_def)
qed

lemma refilled_trans:
  assumes "refilled hn t ps t'" "refilled hn t' qs t''"
  shows "twf hn t'' \<and> length (array t'') = length (array t) \<and> (\<forall>k. live k \<longrightarrow> tget t'' k = upd (upd (tget t) ps) qs k)
    \<and> room t \<le> room t'' + cost (length (array t)) ps + cost (length (array t)) qs"
proof -
  have "upd (tget t') qs k = upd (upd (tget t) ps) qs k" if "live k" for k
    by (rule upd_cong [OF _ that]) (use assms(1) in \<open>simp add: refilled_def\<close>)
  then show ?thesis using assms by (simp add: refilled_def)
qed

lemma resize_spec:
  assumes t: "twf hn t" and na: "int na \<le> MAXASIZE" and nh: "nh < 2 ^ 32" "outside t na \<le> nh"
  shows "resize_with (newkey (Suc d) hn) hn t na nh = raise ''table overflow'' \<and> 2 ^ MAXBITS < nh \<or>
    (\<exists>t'. resize_with (newkey (Suc d) hn) hn t na nh = Inr t' \<and> twf hn t' \<and> length (array t') = na
      \<and> (\<forall>k. live k \<longrightarrow> tget t' k = tget t k) \<and> nh \<le> room t' + outside t na)"
proof -
  let ?nk = "newkey (Suc d) hn" and ?b = "resized_array (array t) na"
  let ?t1 = "if na > length (array t) then t\<lparr>array := ?b\<rparr> else t"
  let ?P = "slice_pairs na (drop na (array t))" and ?Q = "node_pairs (rev (nodes t))"
  have arr: "array t' = array t1" if "setnodevector t1 nh = Inr t'" for t1 t'
    using that by (auto simp: setnodevector_def Let_def split: if_splits)
  have lb: "int (length ?b) \<le> MAXASIZE" using na by simp
  consider "setnodevector ?t1 nh = raise ''table overflow''" "2 ^ MAXBITS < nh" | t2 where "setnodevector ?t1 nh = Inr t2"
    "twf hn (t2\<lparr>array := ?b\<rparr>)" "array t2 = array ?t1" "nh \<le> room t2" "\<forall>n \<in> set (nodes t2). n = dummynode"
    using setnodevector_cases [OF nh(1) lb, of ?t1 hn] by blast
  then show ?thesis
  proof cases
    case 1
    then show ?thesis using resize_unfold [of t nh ?nk hn na] arr by (auto split: if_splits)
  next
    case 2
    let ?tb = "t2\<lparr>array := ?b\<rparr>"
    have rb: "room ?tb = room t2" "length (array ?tb) = na" by (simp_all add: room_def)
    have c: "cost na ?P + cost na ?Q \<le> outside t na"
      using cost_vanishing [of na "array t"] cost_rev [of na "node_pairs (nodes t)"] by (simp add: outside_def rev_map)
    have ra: "resize_with ?nk hn t na nh = sbind (reinsert_array ?nk hn ?tb na (drop na (array t))) (\<lambda>t3.
        reinsert_nodes ?nk hn t3 (rev (nodes t)))"
    proof (cases "na > length (array t)")
      case True
      then have tb: "?tb = t2" using 2(3) by (simp add: array_same)
      show ?thesis unfolding tb using True 2(1) resize_unfold [of t nh ?nk hn na] arr by simp
    next
      case False
      then have "take na (array t2) = ?b" using 2(3) by (simp add: resized_array_def)
      then show ?thesis using False 2(1) resize_unfold [of t nh ?nk hn na] arr by simp
    qed
    have "\<exists>t3. reinsert_array ?nk hn ?tb na (drop na (array t)) = Inr t3 \<and> refilled hn ?tb ?P t3"
    proof (rule reinsert_array_refilled [OF 2(2)])
      show "int (na + length (drop na (array t))) \<le> MAXASIZE" using na twfD(3) [OF t] by (cases "na \<le> length (array t)") auto
      show "cost (length (array ?tb)) ?P \<le> room ?tb" using c rb 2(4) nh(2) by simp
    qed
    then obtain t3 where t3: "reinsert_array ?nk hn ?tb na (drop na (array t)) = Inr t3" "refilled hn ?tb ?P t3" by blast
    have "\<exists>t4. reinsert_nodes ?nk hn t3 (rev (nodes t)) = Inr t4 \<and> refilled hn t3 ?Q t4"
      by (rule reinsert_nodes_refilled)
        (use t3(2) c rb 2(4) nh(2) nodes_ok_keys [OF t] in \<open>auto simp: refilled_def\<close>)
    then obtain t4 where t4: "reinsert_nodes ?nk hn t3 (rev (nodes t)) = Inr t4" "refilled hn t3 ?Q t4" by blast
    note r = refilled_trans [OF t3(2) t4(2)]
    have "\<forall>k. live k \<longrightarrow> tget t4 k = tget t k"
      using r refill_map [OF t _ _ 2(2), of _ na] 2(5) by (simp add: rev_map)
    moreover have "nh \<le> room t4 + outside t na" using r rb 2(4) c by auto
    ultimately show ?thesis using ra t3(1) t4(1) r rb by simp
  qed
qed

end
