(* ===== verification/LTableProps.thy ===== *)
theory LTableProps
  imports LTableOps
begin

text \<open>
  Tables as maps: rehash counts the keys so that the resized table has room, hence
  \<open>luaH_set\<close> always finds or makes a place; the length operator finds a boundary, and a
  traversal visits every entry once.
\<close>

section \<open>Counting integer keys\<close>

definition cand :: "TValue \<Rightarrow> bool" where
  "cand k = (0 < arrayindex k \<and> arrayindex k \<le> MAXASIZE)"

definition slice_of :: "TValue \<Rightarrow> nat" where
  "slice_of k = nat (ceillog2 (nat (arrayindex k)))"

definition cnt :: "nat \<Rightarrow> TValue list \<Rightarrow> nat" where
  "cnt i ks = length (filter (\<lambda>k. cand k \<and> slice_of k = i) ks)"

definition cands :: "TValue list \<Rightarrow> nat" where
  "cands ks = length (filter cand ks)"

lemma ceillog2_le:
  assumes "1 \<le> x" "x < 2 ^ 32"
  shows "nat (ceillog2 x) \<le> j \<longleftrightarrow> x \<le> 2 ^ j" "0 \<le> ceillog2 x"
proof -
  from ceillog2_spec [OF assms] obtain k where k: "ceillog2 x = int k" "x \<le> 2 ^ k" "k = 0 \<or> 2 ^ (k - 1) < x" by blast
  have "x \<le> 2 ^ j" if "k \<le> j" using k(2) power_increasing [OF that, of "2 :: nat"] by linarith
  moreover have "k \<le> j" if "x \<le> 2 ^ j"
  proof (rule ccontr)
    assume "\<not> k \<le> j"
    then have "j \<le> k - 1" "k \<noteq> 0" by auto
    then have "(2 :: nat) ^ j \<le> 2 ^ (k - 1)" "2 ^ (k - 1) < x" using k(3) by (auto intro: power_increasing)
    then show False using that by linarith
  qed
  ultimately show "nat (ceillog2 x) \<le> j \<longleftrightarrow> x \<le> 2 ^ j" "0 \<le> ceillog2 x" using k(1) by auto
qed

lemma slice_le: "cand k \<Longrightarrow> slice_of k \<le> j \<longleftrightarrow> arrayindex k \<le> 2 ^ j"
proof -
  assume c: "cand k"
  then have "nat (arrayindex k) < 2 ^ 32" "1 \<le> nat (arrayindex k)"
    by (auto simp: cand_def MAXASIZE_def MAXBITS_def)
  from ceillog2_le(1) [OF this(2,1), of j] show ?thesis
    using c by (simp add: slice_of_def cand_def nat_le_iff)
qed

lemma slice_bound: "cand k \<Longrightarrow> slice_of k \<le> MAXBITS"
  by (simp add: slice_le) (simp add: cand_def MAXASIZE_def)

lemma cnt_simps [simp]: "cnt i [] = 0" "cnt i (k # ks) = (if cand k \<and> slice_of k = i then 1 else 0) + cnt i ks"
  by (simp_all add: cnt_def)

lemma cnt_append: "cnt i (ks @ ls) = cnt i ks + cnt i ls"
  by (simp add: cnt_def)

lemma cands_simps [simp]: "cands [] = 0" "cands (k # ks) = (if cand k then 1 else 0) + cands ks"
  by (simp_all add: cands_def)

lemma cands_append: "cands (ks @ ls) = cands ks + cands ls"
  by (simp add: cands_def)

lemma sum_cnt: "(\<Sum>i \<le> j. cnt i ks) = length (filter (\<lambda>k. 0 < arrayindex k \<and> arrayindex k \<le> 2 ^ j) ks)" if "j \<le> MAXBITS"
proof (induction ks)
  case (Cons k ks)
  have e: "(2 :: int) ^ j \<le> MAXASIZE" using that by (simp add: MAXASIZE_def power_increasing)
  have "(\<Sum>i \<le> j. if cand k \<and> slice_of k = i then 1 else 0 :: nat) = (if cand k \<and> slice_of k \<le> j then 1 else 0)"
    by (cases "cand k") (auto simp: sum.delta)
  also have "cand k \<and> slice_of k \<le> j \<longleftrightarrow> 0 < arrayindex k \<and> arrayindex k \<le> 2 ^ j"
    using slice_le [of k j] e by (auto simp: cand_def)
  finally show ?case using Cons by (simp add: sum.distrib)
qed simp

lemma sum_cnt_all: "(\<Sum>i \<le> MAXBITS. cnt i ks) = cands ks"
  by (simp add: sum_cnt cands_def cand_def [abs_def] MAXASIZE_def)

text \<open>The counters after the keys \<open>ks\<close> have been counted too.\<close>

definition counted :: "nat list \<Rightarrow> TValue list \<Rightarrow> nat list \<Rightarrow> bool" where
  "counted nums ks nums' = (length nums = Suc MAXBITS \<and> length nums' = Suc MAXBITS
    \<and> (\<forall>i \<le> MAXBITS. nums' ! i = nums ! i + cnt i ks))"

lemma counted_trans: "counted n ks n' \<Longrightarrow> counted n' ls n'' \<Longrightarrow> counted n (ks @ ls) n''"
  by (simp add: counted_def cnt_append)

lemma countint_counted:
  assumes "length nums = Suc MAXBITS"
  shows "\<exists>nums'. countint k nums = Inr (cands [k], nums') \<and> counted nums [k] nums'"
proof (cases "cand k")
  case True
  then have b: "slice_of k < length nums" using slice_bound [OF True] assms by simp
  have "countint k nums = Inr (1, nums[slice_of k := nums ! slice_of k + 1])"
    using True b by (simp add: countint_def Let_def cand_def slice_of_def)
  then show ?thesis using True b assms by (auto simp: counted_def nth_list_update)
next
  case False
  then show ?thesis using assms by (auto simp: countint_def counted_def cand_def Let_def)
qed

definition live_keys :: "node list \<Rightarrow> TValue list" where
  "live_keys N = map i_key (filter (\<lambda>n. i_val n \<noteq> Nil) N)"

lemma numusehash_counted:
  "length nums = Suc MAXBITS \<Longrightarrow> \<exists>nums'. numusehash_loop N nums =
    Inr (length (live_keys N), cands (live_keys N), nums') \<and> counted nums (live_keys N) nums'"
proof (induction N nums rule: numusehash_loop.induct)
  case (1 nums)
  then show ?case by (simp add: live_keys_def counted_def)
next
  case (2 n ns nums)
  show ?case
  proof (cases "i_val n = Nil")
    case True
    then show ?thesis using 2 by (simp add: live_keys_def)
  next
    case False
    from countint_counted [OF "2.prems", of "i_key n"] obtain nums' where
      c: "countint (i_key n) nums = Inr (cands [i_key n], nums')" "counted nums [i_key n] nums'" by blast
    then have "length nums' = Suc MAXBITS" by (simp add: counted_def)
    from "2.IH"(1) [OF False c(1) refl this] obtain nums'' where
      i: "numusehash_loop ns nums' = Inr (length (live_keys ns), cands (live_keys ns), nums'')"
      "counted nums' (live_keys ns) nums''" by blast
    have l: "live_keys (n # ns) = [i_key n] @ live_keys ns" using False by (simp add: live_keys_def)
    show ?thesis using c(1) i(1) counted_trans [OF c(2) i(2)] False by (simp add: l)
  qed
qed

text \<open>The keys in use of the array part, from an index on.\<close>

definition array_keys :: "TValue list \<Rightarrow> nat \<Rightarrow> nat \<Rightarrow> TValue list" where
  "array_keys a i j = map (\<lambda>p. Number (Nint (int p + 1))) (filter (\<lambda>p. a ! p \<noteq> Nil) [i..<j])"

lemma array_keys_append: "i \<le> j \<Longrightarrow> j \<le> k \<Longrightarrow> array_keys a i k = array_keys a i j @ array_keys a j k"
  using upt_add_eq_append [of i j "k - j"] by (simp add: array_keys_def)

lemma arrayindex_nat: "int p < MAXASIZE \<Longrightarrow> arrayindex (Number (Nint (int p + 1))) = int p + 1"
  by (simp add: arrayindex_def int_min_def int_max_def MAXASIZE_def MAXBITS_def)

lemma count_slice_spec: "1 \<le> i \<Longrightarrow> count_slice a i lim = (length (array_keys a (i - 1) lim), max i (lim + 1))"
proof (induction a i lim rule: count_slice.induct)
  case (1 a i lim)
  show ?case
  proof (cases "i \<le> lim")
    case True
    have "[i - 1..<lim] = (i - 1) # [i..<lim]" using True 1(2) by (cases i) (auto simp: upt_conv_Cons)
    then have "length (array_keys a (i - 1) lim) = (if a ! (i - 1) \<noteq> Nil then 1 else 0) + length (array_keys a i lim)"
      by (simp add: array_keys_def)
    then show ?thesis using 1 True by (subst count_slice.simps) auto
  next
    case False
    then show ?thesis by (subst count_slice.simps) (simp add: array_keys_def)
  qed
qed

text \<open>The first index of slice \<open>lg\<close>, from 0.\<close>

definition first_of :: "nat \<Rightarrow> nat" where
  "first_of lg = (if lg = 0 then 0 else 2 ^ (lg - 1))"

lemma cnt_slice:
  assumes "lg \<le> MAXBITS" "j \<le> 2 ^ lg"
  shows "cnt i (array_keys a (first_of lg) j) = (if i = lg then length (array_keys a (first_of lg) j) else 0)"
proof -
  have b: "int p < MAXASIZE" if "p < j" for p
  proof -
    have "p < 2 ^ lg" using that assms(2) by simp
    also have "(2 :: nat) ^ lg \<le> 2 ^ MAXBITS" using assms(1) by (intro power_increasing) auto
    finally show ?thesis by (simp add: MAXASIZE_def)
  qed
  have s: "cand k \<and> slice_of k = lg" if "k \<in> set (array_keys a (first_of lg) j)" for k
  proof -
    from that obtain p where p: "first_of lg \<le> p" "p < j" "k = Number (Nint (int p + 1))" by (auto simp: array_keys_def)
    then have x: "arrayindex k = int p + 1" using b arrayindex_nat by simp
    then have c: "cand k" using b [OF p(2)] by (simp add: cand_def)
    have "p + 1 \<le> 2 ^ lg" using p(2) assms(2) by simp
    then have "int (p + 1) \<le> int (2 ^ lg)" by (simp only: of_nat_le_iff)
    then have "int p + 1 \<le> 2 ^ lg" by simp
    then have "slice_of k \<le> lg" using slice_le [OF c] x by simp
    moreover have "\<not> slice_of k \<le> lg - 1" if "lg \<noteq> 0"
    proof -
      have "2 ^ (lg - 1) \<le> p" using p(1) that by (simp add: first_of_def)
      then have "int (2 ^ (lg - 1)) \<le> int p" by (simp only: of_nat_le_iff)
      moreover have "int (2 ^ (lg - 1)) = 2 ^ (lg - 1)" by simp
      ultimately have "\<not> int p + 1 \<le> 2 ^ (lg - 1)" by linarith
      then show ?thesis using slice_le [OF c, of "lg - 1"] x by simp
    qed
    ultimately show ?thesis using c by (cases "lg = 0") auto
  qed
  show ?thesis
  proof (cases "i = lg")
    case True
    then show ?thesis using s by (simp add: cnt_def filter_id_conv)
  next
    case False
    then show ?thesis using s by (auto simp: cnt_def filter_empty_conv)
  qed
qed

lemma first_of_Suc: "first_of (Suc lg) = 2 ^ lg"
  by (simp add: first_of_def)

lemma first_le: "first_of lg \<le> 2 ^ lg"
  by (simp add: first_of_def power_increasing)

lemma numusearray_loop_counted:
  "length nums = Suc MAXBITS \<Longrightarrow> length a \<le> 2 ^ MAXBITS \<Longrightarrow> lg \<le> Suc MAXBITS \<Longrightarrow> i = min (first_of lg) (length a) + 1 \<Longrightarrow>
   \<exists>nums'. numusearray_loop a lg i nums = (length (array_keys a (first_of lg) (length a)), nums')
     \<and> counted nums (array_keys a (first_of lg) (length a)) nums'"
proof (induction a lg i nums rule: numusearray_loop.induct)
  case (1 a lg i nums)
  let ?lim = "min (2 ^ lg) (length a)"
  show ?case
  proof (cases "length a \<le> first_of lg")
    case True
    then have e: "array_keys a (first_of lg) (length a) = []" by (simp add: array_keys_def)
    have i: "i = length a + 1" using True "1.prems"(4) by simp
    have "numusearray_loop a lg i nums = (0, nums)"
    proof (cases "lg \<le> MAXBITS")
      case lg: True
      show ?thesis
      proof (cases "2 ^ lg > length a")
        case True
        then show ?thesis using lg i by (subst numusearray_loop.simps) (simp add: Let_def)
      next
        case False
        then have l2: "2 ^ lg = length a" using True first_le [of lg] by simp
        have lg0: "lg = 0"
        proof (cases lg)
          case (Suc n)
          have "(0 :: nat) < 2 ^ n" by simp
          then show ?thesis using True l2 Suc unfolding Suc first_of_Suc power_Suc by linarith
        qed simp
        have "length a \<le> 0" using True lg0 by (simp add: first_of_def)
        then show ?thesis using l2 by simp
      qed
    next
      case False
      then show ?thesis by (subst numusearray_loop.simps) simp
    qed
    then show ?thesis using "1.prems"(1) by (simp add: e counted_def)
  next
    case False
    then have lg: "lg \<le> MAXBITS"
    proof -
      have "lg \<noteq> Suc MAXBITS" using False "1.prems"(2) by (auto simp: first_of_def)
      then show ?thesis using "1.prems"(3) by simp
    qed
    have i: "i = first_of lg + 1" using False "1.prems"(4) by simp
    have fl: "first_of lg \<le> ?lim" using False first_le [of lg] by simp
    have c: "count_slice a i ?lim = (length (array_keys a (first_of lg) ?lim), ?lim + 1)"
      using count_slice_spec [of i a ?lim] i fl by simp
    let ?ks = "array_keys a (first_of lg) ?lim" and ?n = "nums[lg := nums ! lg + length (array_keys a (first_of lg) ?lim)]"
    have k: "counted nums ?ks ?n"
      using "1.prems"(1) lg cnt_slice [OF lg, of ?lim _ a] by (auto simp: counted_def nth_list_update)
    have nb: "\<not> (2 ^ lg > length a \<and> i > ?lim)" using i False by auto
    have ln: "length ?n = Suc MAXBITS" using "1.prems"(1) by simp
    have "?lim + 1 = min (first_of (Suc lg)) (length a) + 1" by (simp add: first_of_Suc)
    from "1.IH" [OF lg refl nb c [symmetric] refl ln "1.prems"(2) _ this [unfolded Suc_eq_plus1]] lg obtain nums' where
      n: "numusearray_loop a (lg + 1) (?lim + 1) ?n = (length (array_keys a (first_of (lg + 1)) (length a)), nums')"
      "counted ?n (array_keys a (first_of (lg + 1)) (length a)) nums'" by auto
    have s: "array_keys a (first_of lg) (length a) = ?ks @ array_keys a (first_of (lg + 1)) (length a)"
    proof (cases "2 ^ lg \<le> length a")
      case True
      then show ?thesis using array_keys_append [OF first_le True, of a] by (simp add: first_of_Suc)
    next
      case False
      then show ?thesis by (simp add: first_of_Suc array_keys_def)
    qed
    have "numusearray_loop a lg i nums = (length ?ks + length (array_keys a (first_of (lg + 1)) (length a)), nums')"
      by (subst numusearray_loop.simps) (simp only: Let_def if_P [OF lg] if_not_P [OF nb] c n(1) prod.case)
    then show ?thesis using counted_trans [OF k n(2)] by (simp add: s)
  qed
qed

lemma numusearray_counted:
  assumes "length (array t) \<le> 2 ^ MAXBITS" "length nums = Suc MAXBITS"
  shows "\<exists>nums'. numusearray t nums = (length (array_keys (array t) 0 (length (array t))), nums')
    \<and> counted nums (array_keys (array t) 0 (length (array t))) nums'"
  using numusearray_loop_counted [OF assms(2,1), of 0 1] by (simp add: numusearray_def first_of_def)

section \<open>The new size of the array\<close>

text \<open>The result is 0, or a power of two more than half of which is in use.\<close>

definition good_size :: "nat list \<Rightarrow> nat \<times> nat \<Rightarrow> bool" where
  "good_size nums r = (r = (0, 0) \<or>
    (\<exists>j \<le> MAXBITS. snd r = 2 ^ j \<and> fst r = (\<Sum>i \<le> j. nums ! i) \<and> snd r < 2 * fst r))"

lemma computesizes_loop_spec:
  "length nums = Suc MAXBITS \<Longrightarrow> narray = (\<Sum>i \<le> MAXBITS. nums ! i) \<Longrightarrow> i \<le> Suc MAXBITS \<Longrightarrow>
   a = (\<Sum>j < i. nums ! j) \<Longrightarrow> (i = Suc MAXBITS \<longrightarrow> a \<noteq> narray) \<Longrightarrow> good_size nums (na, n) \<Longrightarrow>
   \<exists>r. computesizes_loop nums narray i a na n = Inr r \<and> good_size nums r"
proof (induction nums narray i a na n rule: computesizes_loop.induct)
  case (1 nums narray i a na n)
  have il: "i \<le> MAXBITS" using "1.prems" by (auto simp: lessThan_Suc_atMost le_Suc_eq)
  show ?case
  proof (cases "2 ^ i div 2 < narray")
    case False
    then show ?thesis using "1.prems"(6) by (subst computesizes_loop.simps) auto
  next
    case True
    let ?x = "nums ! i" and ?a = "if nums ! i > 0 then a + nums ! i else a"
    let ?b = "?x > 0 \<and> ?a > 2 ^ i div 2"
    let ?n = "if ?b then 2 ^ i else n" and ?na = "if ?b then ?a else na"
    have x: "rd nums i = Inr ?x" using il "1.prems"(1) by simp
    have a: "?a = (\<Sum>j < Suc i. nums ! j)" using "1.prems"(4) by simp
    have g: "good_size nums (?na, ?n)"
    proof (cases ?b)
      case True
      then have "2 ^ i < 2 * ?a" by (cases i) auto
      then have "\<exists>j \<le> MAXBITS. 2 ^ i = (2 :: nat) ^ j \<and> ?a = (\<Sum>i \<le> j. nums ! i) \<and> 2 ^ i < 2 * ?a"
        using il a by (intro exI [of _ i]) (simp add: lessThan_Suc_atMost)
      moreover have "(?na, ?n) = (?a, 2 ^ i)" by (simp only: if_P [OF True])
      ultimately show ?thesis unfolding good_size_def by (simp only: fst_conv snd_conv) blast
    qed (use "1.prems"(6) in auto)
    have u: "computesizes_loop nums narray i a na n =
      (if ?a = narray then Inr (?na, ?n) else computesizes_loop nums narray (i + 1) ?a ?na ?n)"
      using True x by (subst computesizes_loop.simps) (simp add: Let_def)
    show ?thesis
    proof (cases "?a = narray")
      case t: True
      then show ?thesis using u g by auto
    next
      case False
      have "lift (rd nums i) = Inr ?x" using x by simp
      moreover have "i + 1 \<le> Suc MAXBITS" "?a = (\<Sum>j < i + 1. nums ! j)" "i + 1 = Suc MAXBITS \<longrightarrow> ?a \<noteq> narray"
        using il a by (simp, simp) (rule impI, rule False)
      ultimately show ?thesis unfolding u if_not_P [OF False]
        using "1.IH" [OF True _ refl refl refl refl False "1.prems"(1,2) _ _ _ g] by blast
    qed
  qed
qed

lemma computesizes_spec:
  assumes "length nums = Suc MAXBITS"
  shows "\<exists>r. computesizes nums (\<Sum>i \<le> MAXBITS. nums ! i) = Inr r \<and> good_size nums r"
  unfolding computesizes_def by (rule computesizes_loop_spec) (use assms in \<open>simp_all add: good_size_def\<close>)

section \<open>Rehash\<close>

definition all_keys :: "table \<Rightarrow> TValue list" where
  "all_keys t = array_keys (array t) 0 (length (array t)) @ live_keys (nodes t)"

lemma array_keys_outside:
  "cost na (slice_pairs 0 (array t)) =
    length (filter (\<lambda>k. \<not> (\<exists>i < na. k = Number (Nint (int i + 1)))) (array_keys (array t) 0 (length (array t))))"
proof -
  have "slice_pairs i vs = map (\<lambda>p. (Number (Nint (int p + 1)), a ! p)) [i..<i + length vs]"
    if "\<And>j. j < length vs \<Longrightarrow> a ! (i + j) = vs ! j" for i vs and a :: "TValue list"
    using that
  proof (induction i vs rule: slice_pairs.induct)
    case (2 i v vs)
    then have "a ! i = v" using "2.prems" [of 0] by simp
    moreover have "slice_pairs (i + 1) vs = map (\<lambda>p. (Number (Nint (int p + 1)), a ! p)) [i + 1..<i + 1 + length vs]"
      using "2.prems" [of "Suc _"] by (intro "2.IH") simp
    moreover have "[i..<i + length (v # vs)] = i # [i + 1..<i + 1 + length vs]"
      by (simp add: upt_conv_Cons del: upt_Suc)
    ultimately show ?case by (simp only: slice_pairs.simps list.map)
  qed simp
  from this [of "array t" "array t" 0]
  have "slice_pairs 0 (array t) = map (\<lambda>p. (Number (Nint (int p + 1)), array t ! p)) [0..<length (array t)]" by simp
  then show ?thesis unfolding cost_def array_keys_def by (simp add: filter_map o_def conj_commute)
qed

lemma outside_keys:
  "outside t na = length (filter (\<lambda>k. \<not> (\<exists>i < na. k = Number (Nint (int i + 1)))) (all_keys t))"
  unfolding outside_def array_keys_outside
  by (simp add: all_keys_def live_keys_def cost_def filter_map o_def conj_commute case_prod_beta)

lemma in_range_iff:
  "int na \<le> MAXASIZE \<Longrightarrow> (\<exists>i < na. k = Number (Nint (int i + 1))) \<longleftrightarrow> 0 < arrayindex k \<and> arrayindex k \<le> int na"
proof
  assume "int na \<le> MAXASIZE" "\<exists>i < na. k = Number (Nint (int i + 1))"
  then show "0 < arrayindex k \<and> arrayindex k \<le> int na" by (auto simp: arrayindex_nat)
next
  assume "0 < arrayindex k \<and> arrayindex k \<le> int na"
  then obtain n where "k = Number (Nint n)" "0 < n" "n \<le> int na"
    by (auto simp: arrayindex_def split: TValue.splits lnum.splits if_splits)
  then show "\<exists>i < na. k = Number (Nint (int i + 1))" by (intro exI [of _ "nat (n - 1)"]) auto
qed

lemma good_size_range:
  assumes "good_size nums (na, n)" "counted (replicate (Suc MAXBITS) 0) ks nums"
  shows "int n \<le> MAXASIZE" "na = length (filter (\<lambda>k. \<exists>i < n. k = Number (Nint (int i + 1))) ks)"
proof -
  from assms(1) consider "na = 0" "n = 0" | j where "j \<le> MAXBITS" "n = 2 ^ j" "na = (\<Sum>i \<le> j. nums ! i)"
    by (auto simp: good_size_def)
  then have "int n \<le> MAXASIZE \<and> na = length (filter (\<lambda>k. \<exists>i < n. k = Number (Nint (int i + 1))) ks)"
  proof cases
    case 2
    then have le: "int n \<le> MAXASIZE" by (simp add: MAXASIZE_def power_increasing)
    have "na = (\<Sum>i \<le> j. cnt i ks)" unfolding 2(3) using assms(2) 2(1) by (intro sum.cong) (auto simp: counted_def simp del: replicate_Suc)
    then show ?thesis using sum_cnt [OF 2(1), of ks] le by (simp add: in_range_iff [OF le]) (simp add: 2(2))
  qed (simp add: MAXASIZE_def)
  then show "int n \<le> MAXASIZE" "na = length (filter (\<lambda>k. \<exists>i < n. k = Number (Nint (int i + 1))) ks)" by auto
qed

lemma length_all_keys: "length (all_keys t) \<le> length (array t) + length (nodes t)"
proof -
  have "length (filter P xs) \<le> length xs" for P and xs :: "'b list" by (rule length_filter_le)
  from this [of "\<lambda>p. array t ! p \<noteq> Nil" "[0..<length (array t)]"]
  show ?thesis by (simp add: all_keys_def array_keys_def live_keys_def add_mono)
qed

lemma all_keys_small: "twf hn t \<Longrightarrow> length (all_keys t) < 2 ^ 31"
proof -
  assume t: "twf hn t"
  then obtain l where l: "length (nodes t) = 2 ^ l" "l \<le> MAXBITS" using twfD(1) by (auto simp: hwf_def)
  note length_all_keys [of t]
  moreover have "(2 :: nat) ^ l \<le> 2 ^ MAXBITS" using l(2) by (intro power_increasing) auto
  moreover have "length (array t) \<le> 2 ^ MAXBITS"
    using twfD(3) [OF t] unfolding MAXASIZE_def by (metis of_nat_le_iff of_nat_numeral of_nat_power)
  ultimately show ?thesis using l(1) by (simp add: MAXBITS_def)
qed

text \<open>After a rehash there is a place for the extra key.\<close>

lemma rehash_spec:
  assumes t: "twf hn t" and ek: "ok_key ek"
  shows "rehash_with (newkey (Suc d) hn) hn t ek = raise ''table overflow'' \<and> 2 ^ MAXBITS \<le> length (all_keys t) \<or>
    (\<exists>t'. rehash_with (newkey (Suc d) hn) hn t ek = Inr t' \<and> twf hn t' \<and> (\<forall>k. live k \<longrightarrow> tget t' k = tget t k)
      \<and> ((\<exists>i. in_array t' ek i) \<or> 0 < room t'))"
proof -
  let ?z = "replicate (Suc MAXBITS) (0 :: nat)"
  let ?ak = "array_keys (array t) 0 (length (array t))" and ?hk = "live_keys (nodes t)"
  let ?in = "\<lambda>n k. \<exists>i < n. k = Number (Nint (int i + 1))"
  have la: "length (array t) \<le> 2 ^ MAXBITS"
    using twfD(3) [OF t] unfolding MAXASIZE_def by (metis of_nat_le_iff of_nat_numeral of_nat_power)
  obtain n1 where n1: "numusearray t ?z = (length ?ak, n1)" "counted ?z ?ak n1"
    using numusearray_counted [OF la, of ?z] by auto
  then have l1: "length n1 = Suc MAXBITS" by (simp add: counted_def)
  have hr: "live_keys (rev (nodes t)) = rev ?hk" by (simp add: live_keys_def rev_map flip: rev_filter)
  obtain n2 where n2: "numusehash t n1 = Inr (length ?hk, cands (rev ?hk), n2)" "counted n1 (rev ?hk) n2"
    using numusehash_counted [OF l1, of "rev (nodes t)"] unfolding numusehash_def hr by auto
  then have l2: "length n2 = Suc MAXBITS" by (simp add: counted_def)
  obtain n3 where n3: "countint ek n2 = Inr (cands [ek], n3)" "counted n2 [ek] n3"
    using countint_counted [OF l2] by blast
  let ?ks = "?ak @ rev ?hk @ [ek]"
  have c: "counted ?z ?ks n3" using counted_trans [OF n1(2) counted_trans [OF n2(2) n3(2)]] by simp
  have l3: "length n3 = Suc MAXBITS" using c by (simp add: counted_def)
  have "(\<Sum>i \<le> MAXBITS. n3 ! i) = (\<Sum>i \<le> MAXBITS. cnt i ?ks)"
    using c by (intro sum.cong) (auto simp: counted_def simp del: replicate_Suc)
  also have "\<dots> = cands ?ks" by (rule sum_cnt_all)
  also have "cands ?ks = length ?ak + cands (rev ?hk) + cands [ek]"
  proof -
    have "cand k" if k: "k \<in> set ?ak" for k
    proof -
      obtain p where "p < length (array t)" "k = Number (Nint (int p + 1))" using k by (auto simp: array_keys_def)
      then show ?thesis using arrayindex_nat [of p] twfD(3) [OF t] by (simp add: cand_def)
    qed
    then show ?thesis by (simp add: cands_append) (simp add: cands_def filter_id_conv)
  qed
  finally obtain na n where r: "computesizes n3 (length ?ak + cands (rev ?hk) + cands [ek]) = Inr (na, n)"
    "good_size n3 (na, n)" using computesizes_spec [OF l3] by auto
  let ?nh = "length ?ak + length ?hk + 1 - na"
  have e: "rehash_with (newkey (Suc d) hn) hn t ek = resize_with (newkey (Suc d) hn) hn t n ?nh"
    using n1(1) n2(1) n3(1) r(1) by (simp add: rehash_with_def del: replicate_Suc)
  note g = good_size_range [OF r(2) c]
  have na: "na = length (filter (?in n) (all_keys t)) + (if ?in n ek then 1 else 0)"
    unfolding g(2) by (simp add: all_keys_def flip: rev_filter)
  have "length (all_keys t) = length (filter (?in n) (all_keys t)) + outside t n"
    unfolding outside_keys by (rule sum_length_filter_compl [symmetric])
  then have nh: "?nh = outside t n + (if ?in n ek then 0 else 1)"
    using na by (simp add: all_keys_def)
  have "?nh < 2 ^ 32" using all_keys_small [OF t] by (simp add: all_keys_def)
  moreover have "?nh \<le> length (all_keys t) + 1" by (simp add: all_keys_def)
  ultimately show ?thesis unfolding e using resize_spec [OF t g(1), of ?nh d] nh
    by (auto simp: in_array_def split: if_splits)
qed

section \<open>Setting a key\<close>

lemma newkey_spec:
  assumes t: "twf hn t" and k: "ok_key k" "\<forall>l. \<not> at_loc t k l"
  shows "newkey 2 hn t k = raise ''table overflow'' \<and> 2 ^ MAXBITS \<le> length (all_keys t) \<or> (\<exists>l t'. newkey 2 hn t k = Inr (l, t')
    \<and> twf hn t' \<and> at_loc t' k l \<and> (\<forall>k'. live k' \<longrightarrow> tget t' k' = tget t k'))"
proof -
  have two: "2 = Suc (Suc 0)" by simp
  obtain mp where mp: "mainpos hn (length (nodes t)) k = Some mp"
    using k(1) live_mainpos [of k hn "length (nodes t)"] by (auto simp: ok_key_def)
  show ?thesis
  proof (cases "dummy t \<or> i_val (nodes t ! mp) \<noteq> Nil \<and> unused (nodes t) = {}")
    case True
    from newkey_full [OF t k(1) mp True, of "Suc 0"] obtain lf where
      f: "newkey 2 hn t k = sbind (rehash_with (newkey (Suc 0) hn) hn (t\<lparr>lastfree := lf\<rparr>) k)
        (\<lambda>t'. luaH_set_with (newkey (Suc 0) hn) hn t' k)" "twf hn (t\<lparr>lastfree := lf\<rparr>)" unfolding two by blast
    have g: "tget (t\<lparr>lastfree := lf\<rparr>) k' = tget t k'" for k' by (simp add: tget_def split: option.splits)
    from rehash_spec [OF f(2) k(1), of 0] consider
      "rehash_with (newkey (Suc 0) hn) hn (t\<lparr>lastfree := lf\<rparr>) k = raise ''table overflow''" "2 ^ MAXBITS \<le> length (all_keys t)"
      | t' where "rehash_with (newkey (Suc 0) hn) hn (t\<lparr>lastfree := lf\<rparr>) k = Inr t'" "twf hn t'"
        "\<forall>k'. live k' \<longrightarrow> tget t' k' = tget t k'" "(\<exists>i. in_array t' k i) \<or> 0 < room t'" unfolding g by (auto simp: all_keys_def)
    then show ?thesis
    proof cases
      case 2
      from luaH_set_inserted [OF 2(2) k(1) 2(4), of 0] obtain l t'' where
        s: "luaH_set_with (newkey (Suc 0) hn) hn t' k = Inr (l, t'')" "inserted hn t' k l t''" by blast
      then have w: "twf hn t''" "at_loc t'' k l" "contents t'' = contents t'" by (simp_all add: inserted_def)
      have "tget t'' k' = tget t k'" if "live k'" for k' using tget_eq [OF 2(2) w(1,3) that] 2(3) that by simp
      then show ?thesis using f(1) 2(1) s(1) w by simp
    qed (use f(1) in simp)
  next
    case False
    then have "\<not> dummy t" "i_val (nodes t ! mp) = Nil \<or> unused (nodes t) \<noteq> {}" by auto
    from newkey_placed [OF t k this(1) mp this(2), of "Suc 0"] show ?thesis
      unfolding two using tget_eq [OF t] by (auto simp: placed_def)
  qed
qed

lemma luaH_set_spec:
  assumes t: "twf hn t" and k: "ok_key k"
  shows "luaH_set hn t k = raise ''table overflow'' \<and> 2 ^ MAXBITS \<le> length (all_keys t) \<or> (\<exists>l t'. luaH_set hn t k = Inr (l, t')
    \<and> twf hn t' \<and> at_loc t' k l \<and> (\<forall>k'. live k' \<longrightarrow> tget t' k' = tget t k'))"
proof -
  let ?t = "t\<lparr>flags := 0\<rparr>"
  have k': "k \<noteq> Nil" "k \<noteq> Number Nnan" using k by (auto simp: ok_key_def live_def)
  have g: "tget ?t k' = tget t k'" for k' by (simp add: tget_def split: option.splits)
  have "found t k (luaH_get hn t k)" by (rule get_found [OF t k])
  then show ?thesis
    unfolding found_def
  proof (elim disjE exE conjE)
    fix l
    assume "luaH_get hn t k = Inr (Some l)" "at_loc t k l"
    then show ?thesis using t g by (simp add: luaH_set_def luaH_set_with_def Let_def)
  next
    assume "luaH_get hn t k = Inr None" "\<forall>l. \<not> at_loc t k l"
    then show ?thesis
      using newkey_spec [of hn ?t k] t k k' g by (simp add: all_keys_def luaH_set_def luaH_set_with_def Let_def)
  qed
qed

section \<open>Boundaries\<close>

definition boundary :: "(nat \<Rightarrow> bool) \<Rightarrow> nat \<Rightarrow> bool" where
  "boundary isnil r = ((r = 0 \<or> \<not> isnil r) \<and> isnil (r + 1))"

lemma bin_search_spec:
  "i < j \<Longrightarrow> (i = 0 \<or> \<not> P i) \<Longrightarrow> P j \<Longrightarrow> (\<And>m. i < m \<Longrightarrow> m < j \<Longrightarrow> f m = Inr (P m)) \<Longrightarrow>
    \<exists>r. bin_search f i j = Inr r \<and> boundary P r"
proof (induction f i j rule: bin_search.induct)
  case (1 f i j)
  show ?case
  proof (cases "j - i > 1")
    case False
    then have "j = i + 1" using "1.prems"(1) by simp
    then show ?thesis using "1.prems"(2,3) by (subst bin_search.simps) (simp add: boundary_def)
  next
    case True
    let ?m = "(i + j) div 2"
    have m: "i < ?m" "?m < j" using True by auto
    have fm: "f ?m = Inr (P ?m)" using "1.prems"(4) m by simp
    show ?thesis
    proof (cases "P ?m")
      case p: True
      have "\<exists>r. bin_search f i ?m = Inr r \<and> boundary P r"
        by (rule "1.IH"(1) [OF True fm p m(1) "1.prems"(2) p]) (use "1.prems"(4) m in auto)
      then show ?thesis using True fm p by (subst bin_search.simps) simp
    next
      case p: False
      have "\<exists>r. bin_search f ?m j = Inr r \<and> boundary P r"
        by (rule "1.IH"(2) [OF True fm p m(2) _ "1.prems"(3)]) (use "1.prems"(4) m p in auto)
      then show ?thesis using True fm p by (subst bin_search.simps) simp
    qed
  qed
qed

lemma linear_search_spec:
  "0 < i \<Longrightarrow> i \<le> n \<Longrightarrow> P n \<Longrightarrow> n - i < fuel \<Longrightarrow> (i = 1 \<or> \<not> P (i - 1)) \<Longrightarrow>
   (\<And>m. i \<le> m \<Longrightarrow> m \<le> n \<Longrightarrow> f m = Inr (P m)) \<Longrightarrow>
   \<exists>r. linear_search f fuel i = Inr r \<and> boundary P r"
proof (induction fuel arbitrary: i)
  case (Suc fuel)
  have fi: "f i = Inr (P i)" using Suc.prems(2,6) by simp
  show ?case
  proof (cases "P i")
    case True
    then show ?thesis using fi Suc.prems(1,5) by (auto simp: boundary_def)
  next
    case False
    then have "i < n" using Suc.prems(2,3) by (cases "i = n") auto
    then show ?thesis using Suc.IH [of "i + 1"] Suc.prems fi False by simp
  qed
qed simp

lemma double_search_spec:
  "i < j \<Longrightarrow> (i = 0 \<or> \<not> P i) \<Longrightarrow> j \<le> nat MAX_INT \<Longrightarrow> P n \<Longrightarrow> 0 < n \<Longrightarrow> n \<le> fuel \<Longrightarrow> n \<le> nat MAX_INT \<Longrightarrow>
   (\<And>m. 0 < m \<Longrightarrow> m \<le> nat MAX_INT \<Longrightarrow> f m = Inr (P m)) \<Longrightarrow>
   \<exists>r. double_search f fuel i j = Inr r \<and> boundary P r"
proof (induction f fuel i j rule: double_search.induct)
  case (1 f fuel i j)
  have fj: "f j = Inr (P j)" using "1.prems"(1,3,8) by simp
  show ?case
  proof (cases "P j")
    case True
    have "\<exists>r. bin_search f i j = Inr r \<and> boundary P r"
      by (rule bin_search_spec [OF "1.prems"(1,2) True]) (use "1.prems"(3,8) in auto)
    then show ?thesis using fj True by (subst double_search.simps) simp
  next
    case False
    show ?thesis
    proof (cases "2 * j > nat MAX_INT")
      case True
      have "\<exists>r. linear_search f fuel 1 = Inr r \<and> boundary P r"
        by (rule linear_search_spec [of _ n]) (use "1.prems" in auto)
      then show ?thesis using fj False True by (subst double_search.simps) simp
    next
      case le: False
      have "\<exists>r. double_search f fuel j (2 * j) = Inr r \<and> boundary P r"
        by (rule "1.IH" [OF fj False le]) (use "1.prems" False le in auto)
      then show ?thesis using fj False le "1.prems"(1) by (subst double_search.simps) simp
    qed
  qed
qed

text \<open>The integer keys of a table.\<close>

definition nil_at :: "table \<Rightarrow> nat \<Rightarrow> bool" where
  "nil_at t j = (tget t (Number (Nint (int j))) = Nil)"

lemma num_nil_at:
  assumes "twf hn t" "0 < m" "m \<le> nat MAX_INT"
  shows "num_nil hn t m = Inr (nil_at t m)"
proof -
  have r: "int_min < int m" "int m \<le> int_max" using assms(3) by (auto simp: MAX_INT_def int_min_def int_max_def)
  have l: "live (Number (Nint (int m)))" by (simp add: live_def)
  show ?thesis
    using getnum_found [OF assms(1) r] r tget_at [OF assms(1) l] tget_none [of t "Number (Nint (int m))"]
    by (auto simp: found_def num_nil_def nil_at_def)
qed

lemma contents_all_keys: "(k, v) \<in> contents t \<Longrightarrow> k \<in> set (all_keys t)"
  by (auto simp: contents_def entries_def all_keys_def array_keys_def live_keys_def)

text \<open>Among the first numbers there is one that is no key.\<close>

lemma some_nil:
  assumes "twf hn t"
  shows "\<exists>n. nil_at t n \<and> 0 < n \<and> n \<le> length (array t) + length (nodes t) + 1"
proof (rule ccontr)
  let ?A = "length (array t) + length (nodes t)" and ?f = "\<lambda>m. Number (Nint (int m))"
  assume "\<not> ?thesis"
  then have "\<not> nil_at t m" if "m \<in> {1..?A + 1}" for m using that by auto
  then have "?f m \<in> set (all_keys t)" if "m \<in> {1..?A + 1}" for m
    using that tget_contents [OF assms, of "?f m" "tget t (?f m)"] contents_all_keys by (auto simp: nil_at_def live_def)
  then have "?f ` {1..?A + 1} \<subseteq> set (all_keys t)" by blast
  then have "card (?f ` {1..?A + 1}) \<le> card (set (all_keys t))" by (intro card_mono) auto
  moreover have "card (?f ` {1..?A + 1}) = ?A + 1" by (subst card_image) (auto simp: inj_on_def)
  ultimately show False using card_length [of "all_keys t"] length_all_keys [of t] by linarith
qed

lemma tget_array: "i < length (array t) \<Longrightarrow> tget t (Number (Nint (int i + 1))) = array t ! i"
proof -
  assume "i < length (array t)"
  then have "in_array t (Number (Nint (int i + 1))) i" by (simp add: in_array_def)
  then show ?thesis by (simp only: tget_def find_array option.case)
qed

lemma nil_at_array: "0 < m \<Longrightarrow> m \<le> length (array t) \<Longrightarrow> nil_at t m \<longleftrightarrow> array t ! (m - 1) = Nil"
  using tget_array [of "m - 1" t] by (simp add: nil_at_def of_nat_diff)

lemma luaH_getn_spec:
  assumes t: "twf hn t"
  shows "\<exists>r. luaH_getn hn t = Inr r \<and> boundary (nil_at t) r"
proof -
  let ?j = "length (array t)"
  have j: "?j \<le> 2 ^ 26" using twfD(3) [OF t] unfolding MAXASIZE_def MAXBITS_def
    by (metis of_nat_le_iff of_nat_numeral of_nat_power)
  show ?thesis
  proof (cases "?j > 0 \<and> array t ! (?j - 1) = Nil")
    case True
    let ?f = "\<lambda>m. lift (sbind (rd (array t) (m - 1)) (\<lambda>v. Inr (v = Nil))) :: bool lres"
    have "\<exists>r. bin_search ?f 0 ?j = Inr r \<and> boundary (nil_at t) r"
    proof (rule bin_search_spec)
      show "nil_at t ?j" using True nil_at_array by auto
      show "?f m = Inr (nil_at t m)" if "0 < m" "m < ?j" for m
        using that nil_at_array [of m t] by simp
    qed (use True in simp_all)
    then show ?thesis using True by (simp add: luaH_getn_def)
  next
    case False
    then have p: "?j = 0 \<or> \<not> nil_at t ?j" using nil_at_array [of ?j t] by auto
    show ?thesis
    proof (cases "dummy t")
      case True
      have "tget t (Number (Nint (int (?j + 1)))) = Nil"
      proof (rule tget_none, rule allI)
        show "\<not> at_loc t (Number (Nint (int (?j + 1)))) l" for l
          using twfD(4) [OF t True] by (cases l) (auto simp: in_array_def has_key_def dummynode_def)
      qed
      then have "boundary (nil_at t) ?j" using p by (simp add: boundary_def nil_at_def)
      then show ?thesis using False True by (auto simp: luaH_getn_def Let_def)
    next
      case d: False
      obtain n where n: "nil_at t n" "0 < n" "n \<le> ?j + length (nodes t) + 1" using some_nil [OF t] by blast
      obtain l where l: "length (nodes t) = 2 ^ l" "l \<le> MAXBITS" using twfD(1) [OF t] by (auto simp: hwf_def)
      have "(2 :: nat) ^ l \<le> 2 ^ 26" using l(2) by (intro power_increasing) (auto simp: MAXBITS_def)
      then have b: "?j + 1 \<le> nat MAX_INT" "n \<le> nat MAX_INT" using n(3) j l(1) by (auto simp: MAX_INT_def int_max_def)
      have "\<exists>r. double_search (num_nil hn t) (?j + length (nodes t) + 1) ?j (?j + 1) = Inr r \<and> boundary (nil_at t) r"
        by (rule double_search_spec [OF _ p b(1) n b(2)]) (use num_nil_at [OF t] in auto)
      then show ?thesis using False d by (auto simp: luaH_getn_def Let_def unbound_search_def)
    qed
  qed
qed

section \<open>Traversal\<close>

text \<open>A loop over \<open>luaH_next\<close>: the pairs it gives from a key on.\<close>

fun traverse :: "nat \<Rightarrow> hash \<Rightarrow> table \<Rightarrow> TValue \<Rightarrow> (TValue \<times> TValue) list lres" where
  "traverse 0 hn t key = Inl (CFault Diverge)"
| "traverse (Suc f) hn t key =
    sbind (luaH_next hn t key) (\<lambda>r. case r of
      None \<Rightarrow> Inr []
    | Some (k, v) \<Rightarrow> sbind (traverse f hn t k) (\<lambda>ps. Inr ((k, v) # ps)))"

definition all_pairs :: "table \<Rightarrow> (TValue \<times> TValue) list" where
  "all_pairs t = slice_pairs 0 (array t) @ node_pairs (nodes t)"

text \<open>No dead key is the address of an object that is a key too.\<close>

definition no_stale :: "table \<Rightarrow> bool" where
  "no_stale t = (\<forall>n \<in> set (nodes t). \<forall>m \<in> set (nodes t).
     case (i_key n, i_key m) of (DeadKey r, Collectable r') \<Rightarrow> r \<noteq> r' | _ \<Rightarrow> True)"

lemma length_slice_pairs [simp]: "length (slice_pairs i vs) = length vs"
  by (induction i vs rule: slice_pairs.induct) auto

lemma nth_slice_pairs: "j < length vs \<Longrightarrow> slice_pairs i vs ! j = (Number (Nint (int (i + j) + 1)), vs ! j)"
proof (induction i vs arbitrary: j rule: slice_pairs.induct)
  case (2 i v vs)
  then show ?case by (cases j) auto
qed simp

lemma nth_all_pairs:
  "j < length (array t) \<Longrightarrow> all_pairs t ! j = (Number (Nint (int j + 1)), array t ! j)"
  "length (array t) \<le> j \<Longrightarrow> j < length (all_pairs t) \<Longrightarrow>
    all_pairs t ! j = (i_key (nodes t ! (j - length (array t))), i_val (nodes t ! (j - length (array t))))"
  by (simp_all add: all_pairs_def nth_append nth_slice_pairs)

lemma length_all_pairs: "length (all_pairs t) = length (array t) + length (nodes t)"
  by (simp add: all_pairs_def)

text \<open>A loop upwards to the first index that satisfies \<open>P\<close>.\<close>

lemma scan_spec:
  fixes n :: nat
  assumes g: "\<And>i. g i = (if i < n then (if P i then Some (r i) else g (i + 1)) else None)"
  shows "(\<exists>j. g i = Some (r j) \<and> i \<le> j \<and> j < n \<and> P j \<and> (\<forall>m. i \<le> m \<longrightarrow> m < j \<longrightarrow> \<not> P m))
    \<or> g i = None \<and> (\<forall>m. i \<le> m \<longrightarrow> m < n \<longrightarrow> \<not> P m)"
proof (induction "n - i" arbitrary: i)
  case 0
  then show ?case using g [of i] by simp
next
  case (Suc d)
  then have i: "i < n" by simp
  show ?case
  proof (cases "P i")
    case True
    then show ?thesis using g [of i] i by auto
  next
    case False
    then have e: "g i = g (i + 1)" using g [of i] i by simp
    have m: "(\<forall>m. i \<le> m \<longrightarrow> m < k \<longrightarrow> \<not> P m) \<longleftrightarrow> (\<forall>m. i + 1 \<le> m \<longrightarrow> m < k \<longrightarrow> \<not> P m)" for k
    proof -
      have "(i \<le> m \<longrightarrow> m < k \<longrightarrow> \<not> P m) \<longleftrightarrow> (i + 1 \<le> m \<longrightarrow> m < k \<longrightarrow> \<not> P m)" for m
        using False by (cases "m = i") auto
      then show ?thesis by (rule all_cong1)
    qed
    have "d = n - (i + 1)" using Suc(2) by simp
    from Suc(1) [OF this] show ?thesis unfolding e m by (auto dest: Suc_leD)
  qed
qed

lemmas next_array_spec = scan_spec [of "next_array a" "length a" "\<lambda>i. a ! i \<noteq> Nil" "\<lambda>i. (i, a ! i)" for a,
  OF next_array.simps]

lemmas next_node_spec = scan_spec [of "next_node N" "length N" "\<lambda>i. i_val (N ! i) \<noteq> Nil"
  "\<lambda>i. (i_key (N ! i), i_val (N ! i))" for N, OF next_node.simps]

text \<open>The pair after index \<open>i\<close>.\<close>

lemma luaH_next_spec:
  assumes "findindex hn t key = Inr (int i - 1)"
  shows "(\<exists>j. luaH_next hn t key = Inr (Some (all_pairs t ! j)) \<and> i \<le> j \<and> j < length (all_pairs t)
      \<and> snd (all_pairs t ! j) \<noteq> Nil \<and> (\<forall>m. i \<le> m \<longrightarrow> m < j \<longrightarrow> snd (all_pairs t ! m) = Nil))
    \<or> luaH_next hn t key = Inr None \<and> (\<forall>m. i \<le> m \<longrightarrow> m < length (all_pairs t) \<longrightarrow> snd (all_pairs t ! m) = Nil)"
    (is "?found \<or> ?none")
proof -
  let ?l = "length (array t)"
  have n: "luaH_next hn t key = (case next_array (array t) i of
      Some (j, v) \<Rightarrow> Inr (Some (Number (Nint (int j + 1)), v))
    | None \<Rightarrow> Inr (next_node (nodes t) (max i ?l - ?l)))"
    using assms by (simp add: luaH_next_def)
  have A: "all_pairs t ! m = (Number (Nint (int m + 1)), array t ! m)" if "m < ?l" for m
    using nth_all_pairs(1) that .
  have B: "all_pairs t ! (?l + m) = (i_key (nodes t ! m), i_val (nodes t ! m))" if "m < length (nodes t)" for m
    using nth_all_pairs(2) [of t "?l + m"] that by (simp add: length_all_pairs)
  from next_array_spec [of "array t" i, unfolded not_not] show ?thesis
  proof (elim disjE exE conjE)
    fix j
    assume j: "next_array (array t) i = Some (j, array t ! j)" "i \<le> j" "j < ?l" "array t ! j \<noteq> Nil"
      "\<forall>m. i \<le> m \<longrightarrow> m < j \<longrightarrow> array t ! m = Nil"
    then have ?found using n A by (intro exI [of _ j]) (simp add: length_all_pairs)
    then show ?thesis by blast
  next
    assume a: "next_array (array t) i = None" "\<forall>m. i \<le> m \<longrightarrow> m < ?l \<longrightarrow> array t ! m = Nil"
    let ?i = "max i ?l - ?l"
    have split: "m < ?l \<or> (\<exists>k. m = ?l + k)" for m by (metis le_add_diff_inverse not_le)
    have pre: "snd (all_pairs t ! m) = Nil" if "i \<le> m" "m < ?l" for m using a(2) A that by simp
    from next_node_spec [of "nodes t" ?i, unfolded not_not] show ?thesis
    proof (elim disjE exE conjE)
      fix j
      assume j: "next_node (nodes t) ?i = Some (i_key (nodes t ! j), i_val (nodes t ! j))" "?i \<le> j"
        "j < length (nodes t)" "i_val (nodes t ! j) \<noteq> Nil" "\<forall>m. ?i \<le> m \<longrightarrow> m < j \<longrightarrow> i_val (nodes t ! m) = Nil"
      have "snd (all_pairs t ! m) = Nil" if "i \<le> m" "m < ?l + j" for m
        using split [of m] that pre j(3,5) B by auto
      then have ?found using n a(1) j B by (intro exI [of _ "?l + j"]) (simp add: length_all_pairs)
      then show ?thesis by blast
    next
      assume j: "next_node (nodes t) ?i = None" "\<forall>m. ?i \<le> m \<longrightarrow> m < length (nodes t) \<longrightarrow> i_val (nodes t ! m) = Nil"
      have "snd (all_pairs t ! m) = Nil" if "i \<le> m" "m < length (all_pairs t)" for m
        using split [of m] that pre j(2) B by (auto simp: length_all_pairs)
      then show ?thesis using n a(1) j(1) by simp
    qed
  qed
qed

lemma findindex_pair:
  assumes t: "twf hn t" and s: "no_stale t" and j: "j < length (all_pairs t)" "snd (all_pairs t ! j) \<noteq> Nil"
  shows "findindex hn t (fst (all_pairs t ! j)) = Inr (int j)"
proof (cases "j < length (array t)")
  case True
  then have "int j < MAXASIZE" using twfD(3) [OF t] by simp
  then show ?thesis using True nth_all_pairs(1) [OF True] arrayindex_nat [of j] by (simp add: findindex_def)
next
  case False
  let ?N = "nodes t" and ?j = "j - length (array t)"
  let ?k = "i_key (?N ! ?j)"
  let ?P = "\<lambda>n. luaO_rawequalObj (i_key n) ?k \<or> (case (i_key n, ?k) of (DeadKey r, Collectable r') \<Rightarrow> r = r' | _ \<Rightarrow> False)"
  have p: "all_pairs t ! j = (?k, i_val (?N ! ?j))" using nth_all_pairs(2) False j(1) by simp
  have jl: "?j < length ?N" using False j(1) by (simp add: length_all_pairs)
  have l: "live ?k" using hwfD(3) [OF twfD(1) [OF t]] j(2) jl by (simp add: p vals_ok_def)
  have hk: "has_key ?N ?k ?j" using jl by (simp add: has_key_def)
  obtain m where m: "mainpos hn (length ?N) ?k = Some m" using live_mainpos [OF l] by blast
  have ml: "m < length ?N" using hwf_main_less [OF twfD(1) [OF t] m] .
  have r: "reach ?N m ?j" using hwfD(5) [OF twfD(1) [OF t]] hk m by (auto simp: mains_ok_def)
  have P: "?P n \<longleftrightarrow> i_key n = ?k" if "n \<in> set ?N" for n
    using s l that jl by (auto simp: no_stale_def rawequal_iff live_def split: TValue.splits dest: nth_mem)
  have Pj: "?P (?N ! ?j)" using P jl by simp
  from walk_full [OF hwfD(1) [OF twfD(1) [OF t]] ml, of ?P] obtain i where
    i: "walk ?P ?N (length ?N) m = Inr (Some i)" "i < length ?N" "?P (?N ! i)" using r Pj by blast
  have "i_key (?N ! i) = ?k" using i(2,3) P by simp
  then have ij: "i = ?j" using keys_okD [OF hwfD(4) [OF twfD(1) [OF t]] l _ hk, of i] i(2) by (simp add: has_key_def)
  have "\<not> (0 < arrayindex ?k \<and> arrayindex ?k \<le> int (length (array t)))"
    using in_range_iff [OF twfD(3) [OF t], of ?k] twfD(7) [OF t _ , of ?k _ ?j] hk by (auto simp: in_array_def)
  moreover have "?k \<noteq> Nil" using l by (auto simp: live_def)
  moreover have "mainposition hn t ?k = Inr m" using m twfD(2) [OF t] by (simp add: mainposition_def sizenode_def)
  ultimately show ?thesis using i(1) ij False by (simp add: findindex_def p Let_def)
qed

lemma filter_drop_first:
  "i \<le> j \<Longrightarrow> j < length xs \<Longrightarrow> P (xs ! j) \<Longrightarrow> \<forall>m. i \<le> m \<longrightarrow> m < j \<longrightarrow> \<not> P (xs ! m) \<Longrightarrow>
   filter P (drop i xs) = xs ! j # filter P (drop (Suc j) xs)"
proof (induction "j - i" arbitrary: i)
  case 0
  then show ?case by (simp add: Cons_nth_drop_Suc [symmetric])
next
  case (Suc d)
  then have "drop i xs = xs ! i # drop (Suc i) xs" "\<not> P (xs ! i)" by (simp_all add: Cons_nth_drop_Suc)
  then show ?case using Suc(1) [of "Suc i"] Suc(2-) by simp
qed

lemma filter_drop_none: "\<forall>m. i \<le> m \<longrightarrow> m < length xs \<longrightarrow> \<not> P (xs ! m) \<Longrightarrow> filter P (drop i xs) = []"
  by (auto simp: filter_empty_conv in_set_conv_nth)

lemma traverse_from:
  assumes t: "twf hn t" and s: "no_stale t"
  shows "findindex hn t key = Inr (int i - 1) \<Longrightarrow> length (filter (\<lambda>p. snd p \<noteq> Nil) (drop i (all_pairs t))) < f \<Longrightarrow>
    traverse f hn t key = Inr (filter (\<lambda>p. snd p \<noteq> Nil) (drop i (all_pairs t)))"
proof (induction f arbitrary: key i)
  case (Suc f)
  from luaH_next_spec [OF Suc.prems(1)] show ?case
  proof (elim disjE exE conjE)
    fix j
    assume j: "luaH_next hn t key = Inr (Some (all_pairs t ! j))" "i \<le> j" "j < length (all_pairs t)"
      "snd (all_pairs t ! j) \<noteq> Nil" "\<forall>m. i \<le> m \<longrightarrow> m < j \<longrightarrow> snd (all_pairs t ! m) = Nil"
    obtain k v where kv: "all_pairs t ! j = (k, v)" by (cases "all_pairs t ! j")
    have f: "filter (\<lambda>p. snd p \<noteq> Nil) (drop i (all_pairs t)) =
      (k, v) # filter (\<lambda>p. snd p \<noteq> Nil) (drop (Suc j) (all_pairs t))"
      using filter_drop_first [OF j(2,3), of "\<lambda>p. snd p \<noteq> Nil"] j(4,5) kv by simp
    have "findindex hn t k = Inr (int (Suc j) - 1)" using findindex_pair [OF t s j(3,4)] kv by simp
    from Suc.IH [OF this] f Suc.prems(2) show ?thesis using j(1) kv by simp
  next
    assume "luaH_next hn t key = Inr None" "\<forall>m. i \<le> m \<longrightarrow> m < length (all_pairs t) \<longrightarrow> snd (all_pairs t ! m) = Nil"
    then show ?thesis using filter_drop_none [of i "all_pairs t" "\<lambda>p. snd p \<noteq> Nil"] by simp
  qed
qed simp

declare traverse.simps [simp del]

lemma distinct_map_filter:
  "(\<And>i j. i < j \<Longrightarrow> j < length xs \<Longrightarrow> P (xs ! i) \<Longrightarrow> P (xs ! j) \<Longrightarrow> f (xs ! i) \<noteq> f (xs ! j)) \<Longrightarrow> distinct (map f (filter P xs))"
proof (induction xs)
  case (Cons x xs)
  have "distinct (map f (filter P xs))"
    by (rule Cons.IH) (use Cons.prems [of "Suc _" "Suc _"] in simp)
  moreover have "f x \<notin> f ` set (filter P xs)" if "P x"
    using Cons.prems [of 0 "Suc _"] that by (fastforce simp: in_set_conv_nth)
  ultimately show ?case by simp
qed simp

lemma distinct_pairs:
  assumes t: "twf hn t"
  shows "distinct (map fst (filter (\<lambda>p. snd p \<noteq> Nil) (all_pairs t)))"
proof -
  let ?E = "all_pairs t" and ?P = "\<lambda>p. snd p \<noteq> Nil"
  have at: "at_loc t (fst (?E ! i)) (if i < length (array t) then LArr i else LNode (i - length (array t)))"
    if "i < length ?E" for i
    using that nth_all_pairs [where j = i and t = t] by (auto simp: in_array_def has_key_def length_all_pairs)
  have inj: "i = j" if "i < length ?E" "j < length ?E" "?P (?E ! i)" "fst (?E ! i) = fst (?E ! j)" for i j
  proof -
    have "live (fst (?E ! i))"
    proof (cases "i < length (array t)")
      case True
      then show ?thesis using nth_all_pairs(1) [OF True] by (simp add: live_def)
    next
      case False
      then show ?thesis using that(1,3) nth_all_pairs(2) [of t i] hwfD(3) [OF twfD(1) [OF t]]
        by (auto simp: vals_ok_def length_all_pairs)
    qed
    from at_loc_inj [OF t this at [OF that(1)]] at [OF that(2), folded that(4)]
    have "(if i < length (array t) then LArr i else LNode (i - length (array t))) =
      (if j < length (array t) then LArr j else LNode (j - length (array t)))" by blast
    then show ?thesis by (simp split: if_splits)
  qed
  from inj have "i \<noteq> j \<Longrightarrow> i < length ?E \<Longrightarrow> j < length ?E \<Longrightarrow> ?P (?E ! i) \<Longrightarrow> fst (?E ! i) \<noteq> fst (?E ! j)" for i j by blast
  then show ?thesis by (intro distinct_map_filter) simp
qed

section \<open>New tables\<close>

lemma luaH_new_spec:
  assumes "int na \<le> MAXASIZE" "nh \<le> 2 ^ MAXBITS"
  shows "\<exists>t. luaH_new na nh = Inr t \<and> twf hn t \<and> length (array t) = na \<and> (\<forall>k. live k \<longrightarrow> tget t k = Nil)"
proof -
  let ?t = "\<lparr>flags = 255, lsizenode = 0, array = replicate na Nil, nodes = [dummynode], dummy = True, lastfree = 0\<rparr>"
  have nh: "nh < 2 ^ 32" using assms(2) by (simp add: MAXBITS_def)
  have n: "luaH_new na nh = setnodevector ?t nh" by (simp add: luaH_new_def setarrayvector_def)
  obtain t where t: "setnodevector ?t nh = Inr t" "twf hn (t\<lparr>array := replicate na Nil\<rparr>)" "array t = replicate na Nil"
    "\<forall>n \<in> set (nodes t). n = dummynode"
    using setnodevector_cases [OF nh, of "replicate na Nil" ?t hn] assms by auto
  have w: "twf hn t" using t(2,3) by (simp add: array_same)
  have "tget t k = Nil" if "live k" for k
    using tget_fresh [OF t(4) that w, of Nil] t(3) by (auto simp: in_array_def)
  then show ?thesis using n t w by simp
qed

section \<open>Properties\<close>

text \<open>
  C24: a table is a map. Under the invariant, \<open>luaH_get\<close> gives the value of the map at a key;
  \<open>luaH_set\<close> gives a place for the key, growing the table when it has to, and fails only in a table
  of 2 ^ 26 entries; storing a value there updates the map at this key and nowhere else, and the
  invariant holds again.
\<close>

theorem table_refines_map:
  assumes t: "twf hn t" and k: "ok_key k"
  shows "(\<exists>r. luaH_get hn t k = Inr r \<and> (case r of None \<Rightarrow> Nil | Some l \<Rightarrow> value_at t l) = tget t k)
    \<and> (luaH_set hn t k = raise ''table overflow'' \<and> 2 ^ 26 \<le> length (all_keys t)
      \<or> (\<exists>l t'. luaH_set hn t k = Inr (l, t') \<and> twf hn (set_at t' l v)
          \<and> (\<forall>k'. live k' \<longrightarrow> tget (set_at t' l v) k' = (if k' = k then v else tget t k'))))"
proof
  have l: "live k" using k by (simp add: ok_key_def)
  show "\<exists>r. luaH_get hn t k = Inr r \<and> (case r of None \<Rightarrow> Nil | Some l \<Rightarrow> value_at t l) = tget t k"
    using get_found [OF t k] tget_at [OF t l] tget_none [of t k] by (auto simp: found_def)
  show "luaH_set hn t k = raise ''table overflow'' \<and> 2 ^ 26 \<le> length (all_keys t)
      \<or> (\<exists>l t'. luaH_set hn t k = Inr (l, t') \<and> twf hn (set_at t' l v)
          \<and> (\<forall>k'. live k' \<longrightarrow> tget (set_at t' l v) k' = (if k' = k then v else tget t k')))"
    using luaH_set_spec [OF t k]
  proof (elim disjE exE conjE)
    fix p t'
    assume s: "luaH_set hn t k = Inr (p, t')" "twf hn t'" "at_loc t' k p" "\<forall>k'. live k' \<longrightarrow> tget t' k' = tget t k'"
    then show ?thesis
      using set_at_twf(1) [OF s(2) l s(3), of v] tget_set_at [OF s(2) l s(3), of _ v] by auto
  qed (simp add: MAXBITS_def)
qed

definition sample :: table where
  "sample = \<lparr>flags = 0, lsizenode = 0, array = [Boolean True, Nil], nodes = [dummynode], dummy = True, lastfree = 0\<rparr>"

lemma sample_twf: "twf hn sample"
  by (rule twf_fresh [of 0]) (simp_all add: sample_def MAXASIZE_def MAXBITS_def)

theorem table_refines_map_witness:
  "\<exists>l t'. luaH_set (\<lambda>_. 7) sample (String [1]) = Inr (l, t') \<and> tget (set_at t' l (Boolean False)) (String [1]) = Boolean False
    \<and> tget (set_at t' l (Boolean False)) (Number (Nint 1)) = Boolean True"
proof -
  have "length (all_keys sample) < 2 ^ 26" using length_all_keys [of sample] by (simp add: sample_def)
  moreover have "tget sample (Number (Nint 1)) = Boolean True" using tget_array [of 0 sample] by (simp add: sample_def)
  ultimately show ?thesis
    using table_refines_map [OF sample_twf, of "String [1]" "\<lambda>_. 7" "Boolean False"]
    by (auto simp: ok_key_def live_def)
qed

text \<open>
  Giving the array part more room keeps the map. \<open>luaH_resizearray\<close> with a size that is not
  smaller always succeeds, and the entries that move from the nodes to the array are still there.
\<close>

theorem resizearray_keeps_map:
  assumes t: "twf hn t" and na: "length (array t) \<le> na" "int na \<le> MAXASIZE"
  shows "\<exists>t'. luaH_resizearray hn t na = Inr t' \<and> twf hn t' \<and> length (array t') = na
    \<and> (\<forall>k. live k \<longrightarrow> tget t' k = tget t k)"
proof -
  let ?nh = "if dummy t then 0 else sizenode t"
  obtain l where l: "length (nodes t) = 2 ^ l" "l \<le> MAXBITS" using twfD(1) [OF t] by (auto simp: hwf_def)
  then have "(2 :: nat) ^ l \<le> 2 ^ MAXBITS" by (intro power_increasing) auto
  moreover have "?nh \<le> length (nodes t)" using twfD(2) [OF t] by (simp add: sizenode_def)
  ultimately have nh: "?nh \<le> 2 ^ MAXBITS" using l by linarith
  have "\<exists>i < na. k = Number (Nint (int i + 1))" if k: "(k, v) \<in> set (slice_pairs 0 (array t))" for k v
  proof -
    obtain j where "j < length (array t)" "k = Number (Nint (int j + 1))" using k by (auto simp: slice_pairs_iff)
    then show ?thesis using na(1) by (intro exI [of _ j]) simp
  qed
  then have "cost na (slice_pairs 0 (array t)) = 0" by (auto simp: cost_def filter_empty_conv)
  moreover have "cost na (node_pairs (nodes t)) \<le> ?nh"
  proof (cases "dummy t")
    case True
    then show ?thesis using twfD(4) [OF t True] by (simp add: cost_def dummynode_def)
  next
    case False
    then show ?thesis using twfD(2) [OF t] length_filter_le [of _ "node_pairs (nodes t)"] by (simp add: cost_def sizenode_def)
  qed
  ultimately have o: "outside t na \<le> ?nh" by (simp add: outside_def)
  have "?nh < 2 ^ 32" using nh by (simp add: MAXBITS_def)
  from resize_spec [OF t na(2) this o, of "Suc 0"] nh show ?thesis
    by (auto simp: luaH_resizearray_def luaH_resizearray_with_def numeral_2_eq_2)
qed

theorem resizearray_keeps_map_witness:
  "\<exists>t'. luaH_resizearray (\<lambda>_. 7) sample 5 = Inr t' \<and> tget t' (Number (Nint 1)) = Boolean True"
proof -
  have "tget sample (Number (Nint 1)) = Boolean True" using tget_array [of 0 sample] by (simp add: sample_def)
  then show ?thesis
    using resizearray_keeps_map [OF sample_twf, of 5 "\<lambda>_. 7"]
    by (auto simp: live_def sample_def MAXASIZE_def MAXBITS_def)
qed

text \<open>
  C25: the length operator is total on tables that satisfy the invariant, and what it returns is a
  boundary: 0 or the index of a value that is not nil, followed by nil.
\<close>

theorem getn_boundary:
  assumes "twf hn t"
  shows "\<exists>r. luaH_getn hn t = Inr r \<and> (r = 0 \<or> tget t (Number (Nint (int r))) \<noteq> Nil)
    \<and> tget t (Number (Nint (int r + 1))) = Nil"
  using luaH_getn_spec [OF assms] by (auto simp: boundary_def nil_at_def add.commute)

theorem getn_boundary_witness:
  "\<exists>r. luaH_getn (\<lambda>_. 7) sample = Inr r \<and> tget sample (Number (Nint (int r + 1))) = Nil"
  using getn_boundary [OF sample_twf, of "\<lambda>_. 7"] by blast

text \<open>
  C26: a traversal that starts at nil and follows \<open>luaH_next\<close> ends, and gives every entry of the map
  exactly once; \<open>no_stale\<close> is what it needs of dead keys, which \<open>findindex\<close> compares by address.
\<close>

theorem next_visits_all:
  assumes "twf hn t" "no_stale t"
  shows "\<exists>ps. traverse (length (array t) + length (nodes t) + 1) hn t Nil = Inr ps \<and> distinct (map fst ps)
    \<and> set ps = {(k, tget t k) |k. live k \<and> tget t k \<noteq> Nil}"
proof -
  let ?ps = "filter (\<lambda>p. snd p \<noteq> Nil) (all_pairs t)"
  have "length ?ps < length (array t) + length (nodes t) + 1"
    using length_filter_le [of _ "all_pairs t"] by (simp add: length_all_pairs less_Suc_eq_le)
  then have "traverse (length (array t) + length (nodes t) + 1) hn t Nil = Inr ?ps"
    using traverse_from [OF assms, of Nil 0] by (simp add: findindex_def)
  moreover have "(k, v) \<in> set ?ps \<longleftrightarrow> (k, v) \<in> {(k, tget t k) |k. live k \<and> tget t k \<noteq> Nil}" for k v
    using contents_pairs [of k v t] tget_contents [OF assms(1), of k v] contents_live [OF assms(1), of k v]
    by (auto simp: all_pairs_def)
  then have "set ?ps = {(k, tget t k) |k. live k \<and> tget t k \<noteq> Nil}" by (intro set_eqI) (simp only: split_paired_all)
  ultimately show ?thesis using distinct_pairs [OF assms(1)] by blast
qed

theorem next_visits_all_witness:
  "\<exists>ps. traverse 4 (\<lambda>_. 7) sample Nil = Inr ps \<and> set ps = {(k, tget sample k) |k. live k \<and> tget sample k \<noteq> Nil}"
proof -
  have "no_stale sample" by (simp add: no_stale_def sample_def dummynode_def)
  moreover have "length (array sample) + length (nodes sample) + 1 = 4" by (simp add: sample_def)
  ultimately show ?thesis using next_visits_all [OF sample_twf, of "\<lambda>_. 7"] by metis
qed

end
