(* ===== verification/LCode.thy ===== *)
theory LCode
  imports LTable Opcodes
begin

text \<open>
  The code generator, \<open>lcode.c\<close>: instructions and their jump lists, registers, constants, and
  the code of expressions. The state is the part of \<open>FuncState\<close> and of its \<open>Proto\<close> that the file
  uses. Parameters are the hash of numbers, for the table of constants, and the arithmetic on
  constants.
\<close>

section \<open>State\<close>

text \<open>
  \<open>fcode\<close> are the instructions written so far and \<open>fpc\<close> the next position, which one step of the
  generator moves back; \<open>fk\<close> are the \<open>nk\<close> constants.
\<close>

record FuncState =
  fcode :: "Instruction list"
  flineinfo :: "int list"
  fk :: "TValue list"
  fh :: table
  fh_addr :: nat
  fpc :: nat
  lasttarget :: int
  jpc :: int
  freereg :: int
  nactvar :: int
  maxstacksize :: int
  lastline :: int

datatype expkind = VVOID | VNIL | VTRUE | VFALSE | VK | VKNUM | VLOCAL | VUPVAL | VGLOBAL
  | VINDEXED | VJMP | VRELOCABLE | VNONRELOC | VCALL | VVARARG

record expdesc =
  e_k :: expkind
  e_info :: int
  e_aux :: int
  e_nval :: lnum
  e_t :: int
  e_f :: int

datatype BinOpr = OPR_ADD | OPR_SUB | OPR_MUL | OPR_DIV | OPR_MOD | OPR_POW | OPR_CONCAT
  | OPR_NE | OPR_EQ | OPR_LT | OPR_LE | OPR_GT | OPR_GE | OPR_AND | OPR_OR | OPR_NOBINOPR

datatype UnOpr = OPR_MINUS | OPR_NOT | OPR_LEN | OPR_NOUNOPR

definition NO_JUMP :: int where "NO_JUMP = - 1"
definition MAXSTACK :: int where "MAXSTACK = 250"
definition LUA_MULTRET :: int where "LUA_MULTRET = - 1"
definition LFIELDS_PER_FLUSH :: int where "LFIELDS_PER_FLUSH = 50"

definition hasjumps :: "expdesc \<Rightarrow> bool" where "hasjumps e = (e_t e \<noteq> e_f e)"

definition isnumeral :: "expdesc \<Rightarrow> bool" where
  "isnumeral e = (e_k e = VKNUM \<and> e_t e = NO_JUMP \<and> e_f e = NO_JUMP)"

text \<open>Reading and changing the instruction at an \<open>int\<close> index.\<close>

definition icode :: "FuncState \<Rightarrow> int \<Rightarrow> Instruction lres" where
  "icode fs i = (if 0 \<le> i then lift (rd (fcode fs) (nat i)) else Inl (CFault ReadOOB))"

definition set_icode :: "FuncState \<Rightarrow> int \<Rightarrow> (Instruction \<Rightarrow> Instruction) \<Rightarrow> FuncState lres" where
  "set_icode fs i g =
    sbind (icode fs i) (\<lambda>x. Inr (fs\<lparr>fcode := (fcode fs)[nat i := g x]\<rparr>))"

abbreviation op_of :: "Instruction \<Rightarrow> OpCode \<Rightarrow> bool" where
  "op_of i op \<equiv> GET_OPCODE i = opnum op"

section \<open>Jump lists\<close>

definition fixjump :: "FuncState \<Rightarrow> int \<Rightarrow> int \<Rightarrow> FuncState lres" where
  "fixjump fs pc dest =
    (let offset = dest - (pc + 1) in
     if \<bar>offset\<bar> > MAXARG_sBx then raise ''control structure too long''
     else set_icode fs pc (SETARG_sBx offset))"

definition luaK_getlabel :: "FuncState \<Rightarrow> int \<times> FuncState" where
  "luaK_getlabel fs = (int (fpc fs), fs\<lparr>lasttarget := int (fpc fs)\<rparr>)"

definition getjump :: "FuncState \<Rightarrow> int \<Rightarrow> int lres" where
  "getjump fs pc =
    sbind (icode fs pc) (\<lambda>i.
      Inr (if GETARG_sBx i = NO_JUMP then NO_JUMP else (pc + 1) + GETARG_sBx i))"

text \<open>The index of the instruction that controls a jump.\<close>

definition getjumpcontrol :: "FuncState \<Rightarrow> int \<Rightarrow> int lres" where
  "getjumpcontrol fs pc =
    (if pc \<ge> 1 then
       sbind (icode fs (pc - 1)) (\<lambda>i.
       sbind (lift (testTMode (GET_OPCODE i))) (\<lambda>t. Inr (if t then pc - 1 else pc)))
     else Inr pc)"

text \<open>The loops along a list have as fuel one more than the number of instructions.\<close>

fun need_value_loop :: "nat \<Rightarrow> FuncState \<Rightarrow> int \<Rightarrow> bool lres" where
  "need_value_loop 0 fs list = Inl (CFault Diverge)"
| "need_value_loop (Suc f) fs list =
    (if list \<noteq> NO_JUMP then
       sbind (getjumpcontrol fs list) (\<lambda>c.
       sbind (icode fs c) (\<lambda>i.
       if \<not> op_of i OP_TESTSET then Inr True
       else sbind (getjump fs list) (\<lambda>list. need_value_loop f fs list)))
     else Inr False)"

definition need_value :: "FuncState \<Rightarrow> int \<Rightarrow> bool lres" where
  "need_value fs list = need_value_loop (Suc (length (fcode fs))) fs list"

definition patchtestreg :: "FuncState \<Rightarrow> int \<Rightarrow> int \<Rightarrow> (bool \<times> FuncState) lres" where
  "patchtestreg fs nd reg =
    sbind (getjumpcontrol fs nd) (\<lambda>c.
    sbind (icode fs c) (\<lambda>i.
    if \<not> op_of i OP_TESTSET then Inr (False, fs)
    else
      sbind (if reg \<noteq> NO_REG \<and> reg \<noteq> GETARG_B i then set_icode fs c (SETARG_A reg)
             else set_icode fs c (\<lambda>i. CREATE_ABC (opnum OP_TEST) (GETARG_B i) 0 (GETARG_C i)))
        (\<lambda>fs. Inr (True, fs))))"

fun removevalues_loop :: "nat \<Rightarrow> FuncState \<Rightarrow> int \<Rightarrow> FuncState lres" where
  "removevalues_loop 0 fs list = Inl (CFault Diverge)"
| "removevalues_loop (Suc f) fs list =
    (if list \<noteq> NO_JUMP then
       sbind (patchtestreg fs list NO_REG) (\<lambda>(_, fs).
       sbind (getjump fs list) (\<lambda>list. removevalues_loop f fs list))
     else Inr fs)"

definition removevalues :: "FuncState \<Rightarrow> int \<Rightarrow> FuncState lres" where
  "removevalues fs list = removevalues_loop (Suc (length (fcode fs))) fs list"

fun patchlist_loop :: "nat \<Rightarrow> FuncState \<Rightarrow> int \<Rightarrow> int \<Rightarrow> int \<Rightarrow> int \<Rightarrow> FuncState lres" where
  "patchlist_loop 0 fs list vtarget reg dtarget = Inl (CFault Diverge)"
| "patchlist_loop (Suc f) fs list vtarget reg dtarget =
    (if list \<noteq> NO_JUMP then
       sbind (getjump fs list) (\<lambda>next.
       sbind (patchtestreg fs list reg) (\<lambda>(patched, fs).
       sbind (fixjump fs list (if patched then vtarget else dtarget)) (\<lambda>fs.
         patchlist_loop f fs next vtarget reg dtarget)))
     else Inr fs)"

definition patchlistaux :: "FuncState \<Rightarrow> int \<Rightarrow> int \<Rightarrow> int \<Rightarrow> int \<Rightarrow> FuncState lres" where
  "patchlistaux fs list vtarget reg dtarget =
    patchlist_loop (Suc (length (fcode fs))) fs list vtarget reg dtarget"

definition dischargejpc :: "FuncState \<Rightarrow> FuncState lres" where
  "dischargejpc fs =
    sbind (patchlistaux fs (jpc fs) (int (fpc fs)) NO_REG (int (fpc fs))) (\<lambda>fs.
      Inr (fs\<lparr>jpc := NO_JUMP\<rparr>))"

text \<open>The last element of a list.\<close>

fun last_jump :: "nat \<Rightarrow> FuncState \<Rightarrow> int \<Rightarrow> int lres" where
  "last_jump 0 fs list = Inl (CFault Diverge)"
| "last_jump (Suc f) fs list =
    sbind (getjump fs list) (\<lambda>next. if next \<noteq> NO_JUMP then last_jump f fs next else Inr list)"

definition luaK_concat :: "FuncState \<Rightarrow> int \<Rightarrow> int \<Rightarrow> (int \<times> FuncState) lres" where
  "luaK_concat fs l1 l2 =
    (if l2 = NO_JUMP then Inr (l1, fs)
     else if l1 = NO_JUMP then Inr (l2, fs)
     else
       sbind (last_jump (Suc (length (fcode fs))) fs l1) (\<lambda>list.
       sbind (fixjump fs list l2) (\<lambda>fs. Inr (l1, fs))))"

definition luaK_patchtohere :: "FuncState \<Rightarrow> int \<Rightarrow> FuncState lres" where
  "luaK_patchtohere fs list =
    (let (_, fs) = luaK_getlabel fs in
     sbind (luaK_concat fs (jpc fs) list) (\<lambda>(l, fs). Inr (fs\<lparr>jpc := l\<rparr>)))"

definition luaK_patchlist :: "FuncState \<Rightarrow> int \<Rightarrow> int \<Rightarrow> FuncState lres" where
  "luaK_patchlist fs list target =
    (if target = int (fpc fs) then luaK_patchtohere fs list
     else patchlistaux fs list target NO_REG target)"

section \<open>Instructions\<close>

definition put :: "'a list \<Rightarrow> nat \<Rightarrow> 'a \<Rightarrow> 'a list" where
  "put xs i x = take i xs @ x # drop (Suc i) xs"

definition luaK_code :: "FuncState \<Rightarrow> Instruction \<Rightarrow> int \<Rightarrow> (int \<times> FuncState) lres" where
  "luaK_code fs i line =
    sbind (dischargejpc fs) (\<lambda>fs.
    if int (fpc fs) \<ge> MAX_INT then raise ''code size overflow''
    else
      Inr (int (fpc fs), fs\<lparr>fcode := put (fcode fs) (fpc fs) i,
                           flineinfo := put (flineinfo fs) (fpc fs) line,
                           fpc := fpc fs + 1\<rparr>))"

definition luaK_codeABC :: "FuncState \<Rightarrow> OpCode \<Rightarrow> int \<Rightarrow> int \<Rightarrow> int \<Rightarrow> (int \<times> FuncState) lres" where
  "luaK_codeABC fs op a b c = luaK_code fs (CREATE_ABC (opnum op) a b c) (lastline fs)"

definition luaK_codeABx :: "FuncState \<Rightarrow> OpCode \<Rightarrow> int \<Rightarrow> int \<Rightarrow> (int \<times> FuncState) lres" where
  "luaK_codeABx fs op a bc = luaK_code fs (CREATE_ABx (opnum op) a bc) (lastline fs)"

definition luaK_codeAsBx :: "FuncState \<Rightarrow> OpCode \<Rightarrow> int \<Rightarrow> int \<Rightarrow> (int \<times> FuncState) lres" where
  "luaK_codeAsBx fs op a sbx = luaK_codeABx fs op a (sbx + MAXARG_sBx)"

definition luaK_fixline :: "FuncState \<Rightarrow> int \<Rightarrow> FuncState" where
  "luaK_fixline fs line = fs\<lparr>flineinfo := (flineinfo fs)[fpc fs - 1 := line]\<rparr>"

text \<open>The last instruction when it may be changed: no jump goes to the current position.\<close>

definition luaK_nil :: "FuncState \<Rightarrow> int \<Rightarrow> int \<Rightarrow> FuncState lres" where
  "luaK_nil fs from_reg n =
    (let emit = sbind (luaK_codeABC fs OP_LOADNIL from_reg (from_reg + n - 1) 0) (\<lambda>(_, fs). Inr fs) in
     if int (fpc fs) > lasttarget fs then
       if fpc fs = 0 then (if from_reg \<ge> nactvar fs then Inr fs else emit)
       else
         sbind (icode fs (int (fpc fs) - 1)) (\<lambda>previous.
         if op_of previous OP_LOADNIL \<and> GETARG_A previous \<le> from_reg \<and> from_reg \<le> GETARG_B previous + 1 then
           if from_reg + n - 1 > GETARG_B previous
           then set_icode fs (int (fpc fs) - 1) (SETARG_B (from_reg + n - 1))
           else Inr fs
         else emit)
     else emit)"

definition luaK_jump :: "FuncState \<Rightarrow> (int \<times> FuncState) lres" where
  "luaK_jump fs =
    (let l = jpc fs in
     sbind (luaK_codeAsBx (fs\<lparr>jpc := NO_JUMP\<rparr>) OP_JMP 0 NO_JUMP) (\<lambda>(j, fs). luaK_concat fs j l))"

definition luaK_ret :: "FuncState \<Rightarrow> int \<Rightarrow> int \<Rightarrow> FuncState lres" where
  "luaK_ret fs first nret = sbind (luaK_codeABC fs OP_RETURN first (nret + 1) 0) (\<lambda>(_, fs). Inr fs)"

definition condjump :: "FuncState \<Rightarrow> OpCode \<Rightarrow> int \<Rightarrow> int \<Rightarrow> int \<Rightarrow> (int \<times> FuncState) lres" where
  "condjump fs op a b c = sbind (luaK_codeABC fs op a b c) (\<lambda>(_, fs). luaK_jump fs)"

section \<open>Registers\<close>

definition luaK_checkstack :: "FuncState \<Rightarrow> int \<Rightarrow> FuncState lres" where
  "luaK_checkstack fs n =
    (let newstack = freereg fs + n in
     if newstack > maxstacksize fs then
       if newstack \<ge> MAXSTACK then raise ''function or expression too complex''
       else Inr (fs\<lparr>maxstacksize := newstack\<rparr>)
     else Inr fs)"

definition luaK_reserveregs :: "FuncState \<Rightarrow> int \<Rightarrow> FuncState lres" where
  "luaK_reserveregs fs n =
    sbind (luaK_checkstack fs n) (\<lambda>fs. Inr (fs\<lparr>freereg := freereg fs + n\<rparr>))"

definition free_reg :: "FuncState \<Rightarrow> int \<Rightarrow> FuncState" where
  "free_reg fs reg =
    (if \<not> ISK reg \<and> reg \<ge> nactvar fs then fs\<lparr>freereg := freereg fs - 1\<rparr> else fs)"

definition freeexp :: "FuncState \<Rightarrow> expdesc \<Rightarrow> FuncState" where
  "freeexp fs e = (if e_k e = VNONRELOC then free_reg fs (e_info e) else fs)"

section \<open>Constants\<close>

definition addk :: "hash \<Rightarrow> FuncState \<Rightarrow> TValue \<Rightarrow> TValue \<Rightarrow> (int \<times> FuncState) lres" where
  "addk hn fs key v =
    sbind (luaH_set hn (fh fs) key) (\<lambda>(idx, t).
    case value_at t idx of
      Number (Nint n) \<Rightarrow> Inr (n, fs\<lparr>fh := t\<rparr>)
    | Number _ \<Rightarrow> Inl (CFault IntOverflow)
    | _ \<Rightarrow>
      if int (length (fk fs)) \<ge> MAXARG_Bx then raise ''constant table overflow''
      else Inr (int (length (fk fs)), fs\<lparr>fh := set_at t idx (Number (Nint (int (length (fk fs))))),
                                      fk := fk fs @ [v]\<rparr>))"

definition luaK_stringK :: "hash \<Rightarrow> FuncState \<Rightarrow> bytes \<Rightarrow> (int \<times> FuncState) lres" where
  "luaK_stringK hn fs s = addk hn fs (String s) (String s)"

definition luaK_numberK :: "hash \<Rightarrow> FuncState \<Rightarrow> lnum \<Rightarrow> (int \<times> FuncState) lres" where
  "luaK_numberK hn fs r = addk hn fs (Number r) (Number r)"

definition boolK :: "hash \<Rightarrow> FuncState \<Rightarrow> bool \<Rightarrow> (int \<times> FuncState) lres" where
  "boolK hn fs b = addk hn fs (Boolean b) (Boolean b)"

definition nilK :: "hash \<Rightarrow> FuncState \<Rightarrow> (int \<times> FuncState) lres" where
  "nilK hn fs = addk hn fs (Collectable (ObjRef TTable (fh_addr fs))) Nil"

end
