(* ===== verification/LCodeExp.thy ===== *)
theory LCodeExp
  imports LCode
begin

text \<open>
  The code of expressions, the second half of \<open>lcode.c\<close>: where the value of an expression is and
  how it gets into a register, conditions and jumps, operators and constant folding. \<open>ar\<close> is the
  arithmetic on constants.
\<close>

section \<open>Values in registers\<close>

definition luaK_setreturns :: "FuncState \<Rightarrow> expdesc \<Rightarrow> int \<Rightarrow> FuncState lres" where
  "luaK_setreturns fs e nresults =
    (if e_k e = VCALL then set_icode fs (e_info e) (SETARG_C (nresults + 1))
     else if e_k e = VVARARG then
       sbind (set_icode fs (e_info e) (SETARG_B (nresults + 1))) (\<lambda>fs.
       sbind (set_icode fs (e_info e) (SETARG_A (freereg fs))) (\<lambda>fs.
         luaK_reserveregs fs 1))
     else Inr fs)"

definition luaK_setoneret :: "FuncState \<Rightarrow> expdesc \<Rightarrow> (expdesc \<times> FuncState) lres" where
  "luaK_setoneret fs e =
    (if e_k e = VCALL then
       sbind (icode fs (e_info e)) (\<lambda>i. Inr (e\<lparr>e_k := VNONRELOC, e_info := GETARG_A i\<rparr>, fs))
     else if e_k e = VVARARG then
       sbind (set_icode fs (e_info e) (SETARG_B 2)) (\<lambda>fs. Inr (e\<lparr>e_k := VRELOCABLE\<rparr>, fs))
     else Inr (e, fs))"

definition luaK_dischargevars :: "FuncState \<Rightarrow> expdesc \<Rightarrow> (expdesc \<times> FuncState) lres" where
  "luaK_dischargevars fs e =
    (case e_k e of
      VLOCAL \<Rightarrow> Inr (e\<lparr>e_k := VNONRELOC\<rparr>, fs)
    | VUPVAL \<Rightarrow>
        sbind (luaK_codeABC fs OP_GETUPVAL 0 (e_info e) 0) (\<lambda>(pc, fs).
          Inr (e\<lparr>e_info := pc, e_k := VRELOCABLE\<rparr>, fs))
    | VGLOBAL \<Rightarrow>
        sbind (luaK_codeABx fs OP_GETGLOBAL 0 (e_info e)) (\<lambda>(pc, fs).
          Inr (e\<lparr>e_info := pc, e_k := VRELOCABLE\<rparr>, fs))
    | VINDEXED \<Rightarrow>
        (let fs = free_reg fs (e_aux e); fs = free_reg fs (e_info e) in
         sbind (luaK_codeABC fs OP_GETTABLE 0 (e_info e) (e_aux e)) (\<lambda>(pc, fs).
           Inr (e\<lparr>e_info := pc, e_k := VRELOCABLE\<rparr>, fs)))
    | VVARARG \<Rightarrow> luaK_setoneret fs e
    | VCALL \<Rightarrow> luaK_setoneret fs e
    | _ \<Rightarrow> Inr (e, fs))"

definition code_label :: "FuncState \<Rightarrow> int \<Rightarrow> int \<Rightarrow> int \<Rightarrow> (int \<times> FuncState) lres" where
  "code_label fs a b jump = (let (_, fs) = luaK_getlabel fs in luaK_codeABC fs OP_LOADBOOL a b jump)"

definition discharge2reg :: "hash \<Rightarrow> FuncState \<Rightarrow> expdesc \<Rightarrow> int \<Rightarrow> (expdesc \<times> FuncState) lres" where
  "discharge2reg hn fs e reg =
    sbind (luaK_dischargevars fs e) (\<lambda>(e, fs).
    let fin = (\<lambda>fs. Inr (e\<lparr>e_info := reg, e_k := VNONRELOC\<rparr>, fs)) in
    case e_k e of
      VNIL \<Rightarrow> sbind (luaK_nil fs reg 1) fin
    | VFALSE \<Rightarrow> sbind (luaK_codeABC fs OP_LOADBOOL reg 0 0) (\<lambda>(_, fs). fin fs)
    | VTRUE \<Rightarrow> sbind (luaK_codeABC fs OP_LOADBOOL reg 1 0) (\<lambda>(_, fs). fin fs)
    | VK \<Rightarrow> sbind (luaK_codeABx fs OP_LOADK reg (e_info e)) (\<lambda>(_, fs). fin fs)
    | VKNUM \<Rightarrow>
        sbind (luaK_numberK hn fs (e_nval e)) (\<lambda>(c, fs).
        sbind (luaK_codeABx fs OP_LOADK reg c) (\<lambda>(_, fs). fin fs))
    | VRELOCABLE \<Rightarrow> sbind (set_icode fs (e_info e) (SETARG_A reg)) fin
    | VNONRELOC \<Rightarrow>
        if reg \<noteq> e_info e then sbind (luaK_codeABC fs OP_MOVE reg (e_info e) 0) (\<lambda>(_, fs). fin fs)
        else fin fs
    | _ \<Rightarrow> Inr (e, fs))"

definition discharge2anyreg :: "hash \<Rightarrow> FuncState \<Rightarrow> expdesc \<Rightarrow> (expdesc \<times> FuncState) lres" where
  "discharge2anyreg hn fs e =
    (if e_k e \<noteq> VNONRELOC then
       sbind (luaK_reserveregs fs 1) (\<lambda>fs. discharge2reg hn fs e (freereg fs - 1))
     else Inr (e, fs))"

definition exp2reg :: "hash \<Rightarrow> FuncState \<Rightarrow> expdesc \<Rightarrow> int \<Rightarrow> (expdesc \<times> FuncState) lres" where
  "exp2reg hn fs e reg =
    sbind (discharge2reg hn fs e reg) (\<lambda>(e, fs).
    sbind (if e_k e = VJMP then
             sbind (luaK_concat fs (e_t e) (e_info e)) (\<lambda>(l, fs). Inr (e\<lparr>e_t := l\<rparr>, fs))
           else Inr (e, fs)) (\<lambda>(e, fs).
    sbind (if hasjumps e then
             sbind (need_value fs (e_t e)) (\<lambda>nt.
             sbind (if nt then Inr True else need_value fs (e_f e)) (\<lambda>nv.
             sbind (if nv then
                      sbind (if e_k e = VJMP then Inr (NO_JUMP, fs) else luaK_jump fs) (\<lambda>(fj, fs).
                      sbind (code_label fs reg 0 1) (\<lambda>(p_f, fs).
                      sbind (code_label fs reg 1 0) (\<lambda>(p_t, fs).
                      sbind (luaK_patchtohere fs fj) (\<lambda>fs. Inr (p_f, p_t, fs)))))
                    else Inr (NO_JUMP, NO_JUMP, fs)) (\<lambda>(p_f, p_t, fs).
             let (final, fs) = luaK_getlabel fs in
             sbind (patchlistaux fs (e_f e) final reg p_f) (\<lambda>fs.
               patchlistaux fs (e_t e) final reg p_t))))
           else Inr fs) (\<lambda>fs.
      Inr (e\<lparr>e_f := NO_JUMP, e_t := NO_JUMP, e_info := reg, e_k := VNONRELOC\<rparr>, fs))))"

definition luaK_exp2nextreg :: "hash \<Rightarrow> FuncState \<Rightarrow> expdesc \<Rightarrow> (expdesc \<times> FuncState) lres" where
  "luaK_exp2nextreg hn fs e =
    sbind (luaK_dischargevars fs e) (\<lambda>(e, fs).
    let fs = freeexp fs e in
    sbind (luaK_reserveregs fs 1) (\<lambda>fs. exp2reg hn fs e (freereg fs - 1)))"

text \<open>The register is \<open>e_info\<close> of the expression returned.\<close>

definition luaK_exp2anyreg :: "hash \<Rightarrow> FuncState \<Rightarrow> expdesc \<Rightarrow> (expdesc \<times> FuncState) lres" where
  "luaK_exp2anyreg hn fs e =
    sbind (luaK_dischargevars fs e) (\<lambda>(e, fs).
    if e_k e = VNONRELOC \<and> \<not> hasjumps e then Inr (e, fs)
    else if e_k e = VNONRELOC \<and> e_info e \<ge> nactvar fs then exp2reg hn fs e (e_info e)
    else luaK_exp2nextreg hn fs e)"

definition luaK_exp2val :: "hash \<Rightarrow> FuncState \<Rightarrow> expdesc \<Rightarrow> (expdesc \<times> FuncState) lres" where
  "luaK_exp2val hn fs e =
    (if hasjumps e then luaK_exp2anyreg hn fs e else luaK_dischargevars fs e)"

definition luaK_exp2RK :: "hash \<Rightarrow> FuncState \<Rightarrow> expdesc \<Rightarrow> (int \<times> expdesc \<times> FuncState) lres" where
  "luaK_exp2RK hn fs e =
    sbind (luaK_exp2val hn fs e) (\<lambda>(e, fs).
    let anyreg = sbind (luaK_exp2anyreg hn fs e) (\<lambda>(e, fs). Inr (e_info e, e, fs));
        const = (\<lambda>m. if int (length (fk fs)) \<le> MAXINDEXRK
                     then sbind m (\<lambda>(c, fs). Inr (RKASK c, e\<lparr>e_info := c, e_k := VK\<rparr>, fs))
                     else anyreg)
    in case e_k e of
      VKNUM \<Rightarrow> const (luaK_numberK hn fs (e_nval e))
    | VTRUE \<Rightarrow> const (boolK hn fs True)
    | VFALSE \<Rightarrow> const (boolK hn fs False)
    | VNIL \<Rightarrow> const (nilK hn fs)
    | VK \<Rightarrow> if e_info e \<le> MAXINDEXRK then Inr (RKASK (e_info e), e, fs) else anyreg
    | _ \<Rightarrow> anyreg)"

definition luaK_storevar :: "hash \<Rightarrow> FuncState \<Rightarrow> expdesc \<Rightarrow> expdesc \<Rightarrow> (expdesc \<times> FuncState) lres" where
  "luaK_storevar hn fs var ex =
    (case e_k var of
      VLOCAL \<Rightarrow> exp2reg hn (freeexp fs ex) ex (e_info var)
    | VUPVAL \<Rightarrow>
        sbind (luaK_exp2anyreg hn fs ex) (\<lambda>(ex, fs).
        sbind (luaK_codeABC fs OP_SETUPVAL (e_info ex) (e_info var) 0) (\<lambda>(_, fs). Inr (ex, freeexp fs ex)))
    | VGLOBAL \<Rightarrow>
        sbind (luaK_exp2anyreg hn fs ex) (\<lambda>(ex, fs).
        sbind (luaK_codeABx fs OP_SETGLOBAL (e_info ex) (e_info var)) (\<lambda>(_, fs). Inr (ex, freeexp fs ex)))
    | VINDEXED \<Rightarrow>
        sbind (luaK_exp2RK hn fs ex) (\<lambda>(rk, ex, fs).
        sbind (luaK_codeABC fs OP_SETTABLE (e_info var) (e_aux var) rk) (\<lambda>(_, fs). Inr (ex, freeexp fs ex)))
    | _ \<Rightarrow> Inr (ex, freeexp fs ex))"

definition luaK_self :: "hash \<Rightarrow> FuncState \<Rightarrow> expdesc \<Rightarrow> expdesc \<Rightarrow> (expdesc \<times> FuncState) lres" where
  "luaK_self hn fs e key =
    sbind (luaK_exp2anyreg hn fs e) (\<lambda>(e, fs).
    let fs = freeexp fs e; func = freereg fs in
    sbind (luaK_reserveregs fs 2) (\<lambda>fs.
    sbind (luaK_exp2RK hn fs key) (\<lambda>(rk, key, fs).
    sbind (luaK_codeABC fs OP_SELF func (e_info e) rk) (\<lambda>(_, fs).
      Inr (e\<lparr>e_info := func, e_k := VNONRELOC\<rparr>, freeexp fs key)))))"

section \<open>Conditions\<close>

definition invertjump :: "FuncState \<Rightarrow> expdesc \<Rightarrow> FuncState lres" where
  "invertjump fs e =
    sbind (getjumpcontrol fs (e_info e)) (\<lambda>c.
      set_icode fs c (\<lambda>i. SETARG_A (if GETARG_A i = 0 then 1 else 0) i))"

definition jumponcond :: "hash \<Rightarrow> FuncState \<Rightarrow> expdesc \<Rightarrow> int \<Rightarrow> (int \<times> expdesc \<times> FuncState) lres" where
  "jumponcond hn fs e cond =
    (let general =
       sbind (discharge2anyreg hn fs e) (\<lambda>(e, fs).
       sbind (condjump (freeexp fs e) OP_TESTSET NO_REG (e_info e) cond) (\<lambda>(pc, fs). Inr (pc, e, fs)))
     in if e_k e = VRELOCABLE then
          sbind (icode fs (e_info e)) (\<lambda>ie.
          if op_of ie OP_NOT then
            sbind (condjump (fs\<lparr>fpc := fpc fs - 1\<rparr>) OP_TEST (GETARG_B ie) 0 (if cond = 0 then 1 else 0))
              (\<lambda>(pc, fs). Inr (pc, e, fs))
          else general)
        else general)"

definition luaK_goiftrue :: "hash \<Rightarrow> FuncState \<Rightarrow> expdesc \<Rightarrow> (expdesc \<times> FuncState) lres" where
  "luaK_goiftrue hn fs e =
    sbind (luaK_dischargevars fs e) (\<lambda>(e, fs).
    sbind (case e_k e of
        VK \<Rightarrow> Inr (NO_JUMP, e, fs)
      | VKNUM \<Rightarrow> Inr (NO_JUMP, e, fs)
      | VTRUE \<Rightarrow> Inr (NO_JUMP, e, fs)
      | VFALSE \<Rightarrow> sbind (luaK_jump fs) (\<lambda>(pc, fs). Inr (pc, e, fs))
      | VJMP \<Rightarrow> sbind (invertjump fs e) (\<lambda>fs. Inr (e_info e, e, fs))
      | _ \<Rightarrow> jumponcond hn fs e 0) (\<lambda>(pc, e, fs).
    sbind (luaK_concat fs (e_f e) pc) (\<lambda>(f, fs).
    sbind (luaK_patchtohere fs (e_t e)) (\<lambda>fs.
      Inr (e\<lparr>e_f := f, e_t := NO_JUMP\<rparr>, fs)))))"

definition luaK_goiffalse :: "hash \<Rightarrow> FuncState \<Rightarrow> expdesc \<Rightarrow> (expdesc \<times> FuncState) lres" where
  "luaK_goiffalse hn fs e =
    sbind (luaK_dischargevars fs e) (\<lambda>(e, fs).
    sbind (case e_k e of
        VNIL \<Rightarrow> Inr (NO_JUMP, e, fs)
      | VFALSE \<Rightarrow> Inr (NO_JUMP, e, fs)
      | VTRUE \<Rightarrow> sbind (luaK_jump fs) (\<lambda>(pc, fs). Inr (pc, e, fs))
      | VJMP \<Rightarrow> Inr (e_info e, e, fs)
      | _ \<Rightarrow> jumponcond hn fs e 1) (\<lambda>(pc, e, fs).
    sbind (luaK_concat fs (e_t e) pc) (\<lambda>(t, fs).
    sbind (luaK_patchtohere fs (e_f e)) (\<lambda>fs.
      Inr (e\<lparr>e_t := t, e_f := NO_JUMP\<rparr>, fs)))))"

definition codenot :: "hash \<Rightarrow> FuncState \<Rightarrow> expdesc \<Rightarrow> (expdesc \<times> FuncState) lres" where
  "codenot hn fs e =
    (let inreg = (\<lambda>fs e.
       sbind (discharge2anyreg hn fs e) (\<lambda>(e, fs).
       sbind (luaK_codeABC (freeexp fs e) OP_NOT 0 (e_info e) 0) (\<lambda>(pc, fs).
         Inr (e\<lparr>e_info := pc, e_k := VRELOCABLE\<rparr>, fs))))
     in
    sbind (luaK_dischargevars fs e) (\<lambda>(e, fs).
    sbind (case e_k e of
        VNIL \<Rightarrow> Inr (e\<lparr>e_k := VTRUE\<rparr>, fs)
      | VFALSE \<Rightarrow> Inr (e\<lparr>e_k := VTRUE\<rparr>, fs)
      | VK \<Rightarrow> Inr (e\<lparr>e_k := VFALSE\<rparr>, fs)
      | VKNUM \<Rightarrow> Inr (e\<lparr>e_k := VFALSE\<rparr>, fs)
      | VTRUE \<Rightarrow> Inr (e\<lparr>e_k := VFALSE\<rparr>, fs)
      | VJMP \<Rightarrow> sbind (invertjump fs e) (\<lambda>fs. Inr (e, fs))
      | VRELOCABLE \<Rightarrow> inreg fs e
      | VNONRELOC \<Rightarrow> inreg fs e
      | _ \<Rightarrow> Inr (e, fs)) (\<lambda>(e, fs).
    let e = e\<lparr>e_f := e_t e, e_t := e_f e\<rparr> in
    sbind (removevalues fs (e_f e)) (\<lambda>fs.
    sbind (removevalues fs (e_t e)) (\<lambda>fs. Inr (e, fs))))))"

definition luaK_indexed :: "hash \<Rightarrow> FuncState \<Rightarrow> expdesc \<Rightarrow> expdesc \<Rightarrow> (expdesc \<times> FuncState) lres" where
  "luaK_indexed hn fs t key =
    sbind (luaK_exp2RK hn fs key) (\<lambda>(rk, key, fs). Inr (t\<lparr>e_aux := rk, e_k := VINDEXED\<rparr>, fs))"

section \<open>Operators\<close>

type_synonym arithmetic = "OpCode \<Rightarrow> lnum \<Rightarrow> lnum \<Rightarrow> lnum"

definition constfolding :: "arithmetic \<Rightarrow> OpCode \<Rightarrow> expdesc \<Rightarrow> expdesc \<Rightarrow> expdesc option" where
  "constfolding ar op e1 e2 =
    (if \<not> isnumeral e1 \<or> \<not> isnumeral e2 then None
     else if (op = OP_DIV \<or> op = OP_MOD) \<and> luai_numeq (e_nval e2) (Nint 0) then None
     else if op = OP_LEN then None
     else
       (let r = (if op \<in> {OP_ADD, OP_SUB, OP_MUL, OP_DIV, OP_MOD, OP_POW, OP_UNM}
                 then ar op (e_nval e1) (e_nval e2) else Nint 0) in
        if r = Nnan then None else Some (e1\<lparr>e_nval := r\<rparr>)))"

definition codearith :: "hash \<Rightarrow> arithmetic \<Rightarrow> FuncState \<Rightarrow> OpCode \<Rightarrow> expdesc \<Rightarrow> expdesc \<Rightarrow> (expdesc \<times> FuncState) lres" where
  "codearith hn ar fs op e1 e2 =
    (case constfolding ar op e1 e2 of
      Some e \<Rightarrow> Inr (e, fs)
    | None \<Rightarrow>
      sbind (if op \<noteq> OP_UNM \<and> op \<noteq> OP_LEN then luaK_exp2RK hn fs e2 else Inr (0, e2, fs)) (\<lambda>(o2, e2, fs).
      sbind (luaK_exp2RK hn fs e1) (\<lambda>(o1, e1, fs).
      let fs = (if o1 > o2 then freeexp (freeexp fs e1) e2 else freeexp (freeexp fs e2) e1) in
      sbind (luaK_codeABC fs op 0 o1 o2) (\<lambda>(pc, fs).
        Inr (e1\<lparr>e_info := pc, e_k := VRELOCABLE\<rparr>, fs)))))"

definition codecomp :: "hash \<Rightarrow> FuncState \<Rightarrow> OpCode \<Rightarrow> int \<Rightarrow> expdesc \<Rightarrow> expdesc \<Rightarrow> (expdesc \<times> FuncState) lres" where
  "codecomp hn fs op cond e1 e2 =
    sbind (luaK_exp2RK hn fs e1) (\<lambda>(o1, e1, fs).
    sbind (luaK_exp2RK hn fs e2) (\<lambda>(o2, e2, fs).
    let fs = freeexp (freeexp fs e2) e1;
        (o1, o2, cond) = (if cond = 0 \<and> op \<noteq> OP_EQ then (o2, o1, 1) else (o1, o2, cond)) in
    sbind (condjump fs op cond o1 o2) (\<lambda>(pc, fs).
      Inr (e1\<lparr>e_info := pc, e_k := VJMP\<rparr>, fs))))"

definition luaK_prefix :: "hash \<Rightarrow> arithmetic \<Rightarrow> FuncState \<Rightarrow> UnOpr \<Rightarrow> expdesc \<Rightarrow> (expdesc \<times> FuncState) lres" where
  "luaK_prefix hn ar fs op e =
    (let e2 = \<lparr>e_k = VKNUM, e_info = 0, e_aux = 0, e_nval = Nint 0, e_t = NO_JUMP, e_f = NO_JUMP\<rparr> in
     case op of
       OPR_MINUS \<Rightarrow>
         sbind (if \<not> isnumeral e then luaK_exp2anyreg hn fs e else Inr (e, fs)) (\<lambda>(e, fs).
           codearith hn ar fs OP_UNM e e2)
     | OPR_NOT \<Rightarrow> codenot hn fs e
     | OPR_LEN \<Rightarrow> sbind (luaK_exp2anyreg hn fs e) (\<lambda>(e, fs). codearith hn ar fs OP_LEN e e2)
     | OPR_NOUNOPR \<Rightarrow> Inr (e, fs))"

definition luaK_infix :: "hash \<Rightarrow> FuncState \<Rightarrow> BinOpr \<Rightarrow> expdesc \<Rightarrow> (expdesc \<times> FuncState) lres" where
  "luaK_infix hn fs op v =
    (let rk = sbind (luaK_exp2RK hn fs v) (\<lambda>(_, v, fs). Inr (v, fs)) in
     if op = OPR_AND then luaK_goiftrue hn fs v
     else if op = OPR_OR then luaK_goiffalse hn fs v
     else if op = OPR_CONCAT then luaK_exp2nextreg hn fs v
     else if op \<in> {OPR_ADD, OPR_SUB, OPR_MUL, OPR_DIV, OPR_MOD, OPR_POW}
       then (if \<not> isnumeral v then rk else Inr (v, fs))
     else rk)"

definition luaK_posfix :: "hash \<Rightarrow> arithmetic \<Rightarrow> FuncState \<Rightarrow> BinOpr \<Rightarrow> expdesc \<Rightarrow> expdesc \<Rightarrow> (expdesc \<times> FuncState) lres" where
  "luaK_posfix hn ar fs op e1 e2 =
    (case op of
      OPR_AND \<Rightarrow>
        sbind (luaK_dischargevars fs e2) (\<lambda>(e2, fs).
        sbind (luaK_concat fs (e_f e2) (e_f e1)) (\<lambda>(f, fs). Inr (e2\<lparr>e_f := f\<rparr>, fs)))
    | OPR_OR \<Rightarrow>
        sbind (luaK_dischargevars fs e2) (\<lambda>(e2, fs).
        sbind (luaK_concat fs (e_t e2) (e_t e1)) (\<lambda>(t, fs). Inr (e2\<lparr>e_t := t\<rparr>, fs)))
    | OPR_CONCAT \<Rightarrow>
        sbind (luaK_exp2val hn fs e2) (\<lambda>(e2, fs).
        let other = sbind (luaK_exp2nextreg hn fs e2) (\<lambda>(e2, fs). codearith hn ar fs OP_CONCAT e1 e2) in
        if e_k e2 = VRELOCABLE then
          sbind (icode fs (e_info e2)) (\<lambda>i.
          if op_of i OP_CONCAT then
            sbind (set_icode (freeexp fs e1) (e_info e2) (SETARG_B (e_info e1))) (\<lambda>fs.
              Inr (e1\<lparr>e_k := VRELOCABLE, e_info := e_info e2\<rparr>, fs))
          else other)
        else other)
    | OPR_ADD \<Rightarrow> codearith hn ar fs OP_ADD e1 e2
    | OPR_SUB \<Rightarrow> codearith hn ar fs OP_SUB e1 e2
    | OPR_MUL \<Rightarrow> codearith hn ar fs OP_MUL e1 e2
    | OPR_DIV \<Rightarrow> codearith hn ar fs OP_DIV e1 e2
    | OPR_MOD \<Rightarrow> codearith hn ar fs OP_MOD e1 e2
    | OPR_POW \<Rightarrow> codearith hn ar fs OP_POW e1 e2
    | OPR_EQ \<Rightarrow> codecomp hn fs OP_EQ 1 e1 e2
    | OPR_NE \<Rightarrow> codecomp hn fs OP_EQ 0 e1 e2
    | OPR_LT \<Rightarrow> codecomp hn fs OP_LT 1 e1 e2
    | OPR_LE \<Rightarrow> codecomp hn fs OP_LE 1 e1 e2
    | OPR_GT \<Rightarrow> codecomp hn fs OP_LT 0 e1 e2
    | OPR_GE \<Rightarrow> codecomp hn fs OP_LE 0 e1 e2
    | OPR_NOBINOPR \<Rightarrow> Inr (e1, fs))"

definition luaK_setlist :: "FuncState \<Rightarrow> int \<Rightarrow> int \<Rightarrow> int \<Rightarrow> FuncState lres" where
  "luaK_setlist fs base nelems tostore =
    (let c = (nelems - 1) sdiv LFIELDS_PER_FLUSH + 1;
         b = (if tostore = LUA_MULTRET then 0 else tostore) in
     sbind (if c \<le> MAXARG_C then luaK_codeABC fs OP_SETLIST base b c
            else
              sbind (luaK_codeABC fs OP_SETLIST base b 0) (\<lambda>(_, fs).
                luaK_code fs (word_of_int c) (lastline fs))) (\<lambda>(_, fs).
       Inr (fs\<lparr>freereg := base + 1\<rparr>)))"

end
