(* ===== verification/LCodeProps.thy ===== *)
theory LCodeProps
  imports LCodeExp LTableProps
begin

text \<open>
  Properties of the code generator: jump lists and what patching them does, constants, registers.
\<close>

section \<open>Instructions and their targets\<close>

abbreviation ilen :: "FuncState \<Rightarrow> int" where "ilen fs \<equiv> int (length (fcode fs))"

definition ins :: "FuncState \<Rightarrow> int \<Rightarrow> Instruction" where "ins fs j = fcode fs ! nat j"

definition in_code :: "FuncState \<Rightarrow> int \<Rightarrow> bool" where "in_code fs j = (0 \<le> j \<and> j < ilen fs)"

text \<open>Every word is an instruction of the table of modes.\<close>

definition ops_ok :: "FuncState \<Rightarrow> bool" where
  "ops_ok fs = (\<forall>i \<in> set (fcode fs). GET_OPCODE i < NUM_OPCODES)"

definition tmode :: "Instruction \<Rightarrow> bool" where
  "tmode i = (testTMode (GET_OPCODE i) = Inr True)"

definition isjmp :: "FuncState \<Rightarrow> int \<Rightarrow> bool" where
  "isjmp fs j = (in_code fs j \<and> op_of (ins fs j) OP_JMP)"

definition dest :: "FuncState \<Rightarrow> int \<Rightarrow> int" where
  "dest fs j = j + 1 + GETARG_sBx (ins fs j)"

text \<open>The jump is controlled by a \<open>TESTSET\<close>.\<close>

definition testset :: "FuncState \<Rightarrow> int \<Rightarrow> bool" where
  "testset fs j = (1 \<le> j \<and> op_of (ins fs (j - 1)) OP_TESTSET)"

fun jlist :: "FuncState \<Rightarrow> int \<Rightarrow> int list \<Rightarrow> bool" where
  "jlist fs l [] = (l = NO_JUMP)"
| "jlist fs l (j # js) = (l = j \<and> isjmp fs j \<and>
    jlist fs (if GETARG_sBx (ins fs j) = NO_JUMP then NO_JUMP else dest fs j) js)"

lemma testTMode_Inr: "n < NUM_OPCODES \<Longrightarrow> \<exists>b. testTMode n = Inr b"
  by (simp add: testTMode_def NUM_OPCODES_def luaP_opmodes_def)

lemma opnums: "opnum OP_JMP = 22" "opnum OP_TEST = 26" "opnum OP_TESTSET = 27"
  by code_simp+

lemma tmodes: "testTMode 22 = Inr False" "testTMode 26 = Inr True" "testTMode 27 = Inr True"
  by code_simp+

lemma tmode_jmp: "op_of i OP_JMP \<Longrightarrow> \<not> tmode i" "op_of i OP_TESTSET \<Longrightarrow> tmode i" "op_of i OP_TEST \<Longrightarrow> tmode i"
  by (simp_all add: tmode_def opnums tmodes)

lemma icode_in: "in_code fs j \<Longrightarrow> icode fs j = Inr (ins fs j)"
  by (simp add: icode_def in_code_def ins_def nat_less_iff)

lemma ops_okD: "ops_ok fs \<Longrightarrow> in_code fs j \<Longrightarrow> GET_OPCODE (ins fs j) < NUM_OPCODES"
  by (simp add: ops_ok_def in_code_def ins_def nat_less_iff)

lemma getjumpcontrol_eq:
  assumes "ops_ok fs" "in_code fs j"
  shows "getjumpcontrol fs j = Inr (if 1 \<le> j \<and> tmode (ins fs (j - 1)) then j - 1 else j)"
proof (cases "1 \<le> j")
  case True
  then have c: "in_code fs (j - 1)" using assms(2) by (simp add: in_code_def)
  obtain b where "testTMode (GET_OPCODE (ins fs (j - 1))) = Inr b" using testTMode_Inr [OF ops_okD [OF assms(1) c]] by blast
  then show ?thesis using True icode_in [OF c] by (simp add: getjumpcontrol_def tmode_def)
qed (simp add: getjumpcontrol_def)

lemma getjump_eq: "in_code fs j \<Longrightarrow> getjump fs j = Inr (if GETARG_sBx (ins fs j) = NO_JUMP then NO_JUMP else dest fs j)"
  by (simp add: getjump_def icode_in dest_def)

text \<open>The state after a change of the instruction at \<open>j\<close>.\<close>

definition upd_ins :: "FuncState \<Rightarrow> int \<Rightarrow> Instruction \<Rightarrow> FuncState" where
  "upd_ins fs j i = fs\<lparr>fcode := (fcode fs)[nat j := i]\<rparr>"

lemma set_icode_in: "in_code fs j \<Longrightarrow> set_icode fs j g = Inr (upd_ins fs j (g (ins fs j)))"
  by (simp add: set_icode_def icode_in upd_ins_def ins_def)

lemma upd_ins_simps [simp]:
  "in_code (upd_ins fs j i) k = in_code fs k" "length (fcode (upd_ins fs j i)) = length (fcode fs)"
  "fpc (upd_ins fs j i) = fpc fs"
  by (simp_all add: upd_ins_def in_code_def)

lemma ins_upd: "in_code fs j \<Longrightarrow> in_code fs k \<Longrightarrow> ins (upd_ins fs j i) k = (if k = j then i else ins fs k)"
  by (auto simp: upd_ins_def ins_def in_code_def nth_list_update nat_less_iff)

lemma ops_ok_iff: "ops_ok fs \<longleftrightarrow> (\<forall>k. in_code fs k \<longrightarrow> GET_OPCODE (ins fs k) < NUM_OPCODES)"
proof
  assume "\<forall>k. in_code fs k \<longrightarrow> GET_OPCODE (ins fs k) < NUM_OPCODES"
  then have "GET_OPCODE (fcode fs ! n) < NUM_OPCODES" if "n < length (fcode fs)" for n
    using that by (metis in_code_def ins_def nat_int of_nat_0_le_iff of_nat_less_iff)
  then show "ops_ok fs" by (auto simp: ops_ok_def in_set_conv_nth)
qed (simp add: ops_okD)

section \<open>Patching\<close>

text \<open>What patching the jumps \<open>J\<close> leaves alone.\<close>

definition patch_frame :: "FuncState \<Rightarrow> FuncState \<Rightarrow> int set \<Rightarrow> bool" where
  "patch_frame fs fs' J \<longleftrightarrow> fs' = fs\<lparr>fcode := fcode fs'\<rparr> \<and> length (fcode fs') = length (fcode fs) \<and> ops_ok fs'
    \<and> (\<forall>k. in_code fs k \<longrightarrow> tmode (ins fs' k) = tmode (ins fs k) \<and> (op_of (ins fs' k) OP_JMP) = (op_of (ins fs k) OP_JMP))
    \<and> (\<forall>k. in_code fs k \<longrightarrow> k \<notin> J \<longrightarrow> \<not> (k + 1 \<in> J \<and> op_of (ins fs k) OP_TESTSET) \<longrightarrow> ins fs' k = ins fs k)"

lemma patch_frame_in: "patch_frame fs fs' J \<Longrightarrow> in_code fs' k = in_code fs k"
  by (simp add: patch_frame_def in_code_def)

lemma patch_frame_trans:
  assumes a: "patch_frame fs fs' J" and b: "patch_frame fs' fs'' K" and d: "\<forall>k \<in> K. isjmp fs k" "J \<inter> K = {}"
  shows "patch_frame fs fs'' (J \<union> K)"
proof -
  have i: "in_code fs' k = in_code fs k" for k by (rule patch_frame_in [OF a])
  have "ins fs'' k = ins fs k" if k: "in_code fs k" "k \<notin> J \<union> K" "\<not> (k + 1 \<in> J \<union> K \<and> op_of (ins fs k) OP_TESTSET)" for k
  proof -
    have "ins fs' k = ins fs k" using a k by (auto simp: patch_frame_def)
    moreover have "ins fs'' k = ins fs' k" using b k i calculation by (auto simp: patch_frame_def)
    ultimately show ?thesis by simp
  qed
  moreover have "fs'' = fs\<lparr>fcode := fcode fs''\<rparr>"
  proof -
    have "fs' = fs\<lparr>fcode := fcode fs'\<rparr>" "fs'' = fs'\<lparr>fcode := fcode fs''\<rparr>" using a b by (auto simp: patch_frame_def)
    then show ?thesis by (metis FuncState.update_convs(1) FuncState.surjective)
  qed
  ultimately show ?thesis using a b i unfolding patch_frame_def by auto
qed

lemma patch_frame_refl: "ops_ok fs \<Longrightarrow> patch_frame fs fs J"
  by (simp add: patch_frame_def)

text \<open>An instruction that may change, and what it may become.\<close>

lemma patch_frame_upd:
  assumes o: "ops_ok fs" and c: "in_code fs c" and J: "c \<in> J \<or> c + 1 \<in> J \<and> op_of (ins fs c) OP_TESTSET"
    and i: "GET_OPCODE i < NUM_OPCODES" "tmode i = tmode (ins fs c)" "op_of i OP_JMP = op_of (ins fs c) OP_JMP"
  shows "patch_frame fs (upd_ins fs c i) J"
proof -
  have "ops_ok (upd_ins fs c i)" unfolding ops_ok_iff using o c i(1) by (auto simp: ins_upd ops_okD)
  moreover have "upd_ins fs c i = fs\<lparr>fcode := fcode (upd_ins fs c i)\<rparr>" by (simp add: upd_ins_def)
  ultimately show ?thesis using c J i by (auto simp: patch_frame_def ins_upd)
qed

lemma opcode_TEST: "GET_OPCODE (CREATE_ABC (opnum OP_TEST) (GETARG_B i) 0 (GETARG_C i)) = opnum OP_TEST"
proof -
  text \<open>The register in B may take a bit more than A has; the operation is the low bits anyway.\<close>
  have "getfield SIZE_OP POS_OP (CREATE_ABC 26 (GETARG_B i) 0 (GETARG_C i)) = 26"
  proof (rule bit_eqI)
    fix k
    have "bit (26 :: int) k \<Longrightarrow> k < 6" using bit_small [of 26 6 k] by (cases "6 \<le> k") auto
    then show "bit (getfield SIZE_OP POS_OP (CREATE_ABC 26 (GETARG_B i) 0 (GETARG_C i))) k = bit (26 :: int) k"
      by (auto simp: bit_getfield CREATE_ABC_def field_sizes bit_simps)
  qed
  then show ?thesis by (simp add: GET_OPCODE_def opnums)
qed

lemma patchtestreg_step:
  assumes o: "ops_ok fs" and j: "isjmp fs j"
  shows "\<exists>fs'. patchtestreg fs j reg = Inr (testset fs j, fs') \<and> patch_frame fs fs' {j} \<and> ins fs' j = ins fs j"
proof -
  have jc: "in_code fs j" "op_of (ins fs j) OP_JMP" using j by (auto simp: isjmp_def)
  note g = getjumpcontrol_eq [OF o jc(1)]
  have nj: "\<not> op_of (ins fs j) OP_TESTSET" using jc(2) by (simp add: opnums)
  show ?thesis
  proof (cases "testset fs j")
    case True
    then have t: "1 \<le> j" "op_of (ins fs (j - 1)) OP_TESTSET" by (auto simp: testset_def)
    then have c: "in_code fs (j - 1)" using jc(1) by (simp add: in_code_def)
    have gc: "getjumpcontrol fs j = Inr (j - 1)" using g t tmode_jmp(2) by simp
    let ?i = "ins fs (j - 1)"
    let ?n = "if reg \<noteq> NO_REG \<and> reg \<noteq> GETARG_B ?i then SETARG_A reg ?i
      else CREATE_ABC (opnum OP_TEST) (GETARG_B ?i) 0 (GETARG_C ?i)"
    have op: "GET_OPCODE ?n = opnum OP_TESTSET \<or> GET_OPCODE ?n = opnum OP_TEST"
      using t(2) by (simp add: arg_frame opcode_TEST)
    then have n: "GET_OPCODE ?n < NUM_OPCODES" "tmode ?n" "\<not> op_of ?n OP_JMP"
      using tmode_jmp(2,3) [of ?n] by (auto simp: opnums NUM_OPCODES_def)
    have "patch_frame fs (upd_ins fs (j - 1) ?n) {j}"
      by (rule patch_frame_upd [OF o c]) (use t n tmode_jmp(2) [OF t(2)] opnums in auto)
    moreover have "ins (upd_ins fs (j - 1) ?n) j = ins fs j" using c jc by (simp add: ins_upd)
    moreover have "patchtestreg fs j reg = Inr (True, upd_ins fs (j - 1) ?n)"
      using gc t(2) icode_in [OF c] by (auto simp: patchtestreg_def set_icode_in [OF c])
    ultimately show ?thesis using True by auto
  next
    case False
    have "\<exists>c i. getjumpcontrol fs j = Inr c \<and> icode fs c = Inr i \<and> \<not> op_of i OP_TESTSET"
    proof (cases "1 \<le> j \<and> tmode (ins fs (j - 1))")
      case True
      then have "in_code fs (j - 1)" using jc(1) by (simp add: in_code_def)
      then show ?thesis using g True False icode_in by (auto simp: testset_def)
    next
      case f: False
      then show ?thesis using g nj icode_in [OF jc(1)] by auto
    qed
    then show ?thesis using False patch_frame_refl [OF o] by (auto simp: patchtestreg_def)
  qed
qed

lemma fixjump_step:
  assumes o: "ops_ok fs" and j: "isjmp fs j" and d: "\<bar>d - (j + 1)\<bar> \<le> MAXARG_sBx"
  shows "\<exists>fs'. fixjump fs j d = Inr fs' \<and> patch_frame fs fs' {j} \<and> dest fs' j = d \<and> isjmp fs' j"
proof -
  have jc: "in_code fs j" "op_of (ins fs j) OP_JMP" using j by (auto simp: isjmp_def)
  let ?i = "SETARG_sBx (d - (j + 1)) (ins fs j)"
  have op: "GET_OPCODE ?i = GET_OPCODE (ins fs j)" by (simp add: arg_frame)
  have "patch_frame fs (upd_ins fs j ?i) {j}"
    by (rule patch_frame_upd [OF o jc(1)]) (use op ops_okD [OF o jc(1)] in \<open>auto simp: tmode_def\<close>)
  moreover have "GETARG_sBx ?i = d - (j + 1)" using d by (intro sBx_get_set) auto
  ultimately show ?thesis using jc d op
    by (auto simp: fixjump_def Let_def set_icode_in dest_def ins_upd isjmp_def)
qed

lemma patch_frame_jmp: "patch_frame fs fs' J \<Longrightarrow> isjmp fs' k = isjmp fs k"
  using patch_frame_in [of fs fs' J k] by (auto simp: patch_frame_def isjmp_def)

lemma patch_frame_same: "patch_frame fs fs' J \<Longrightarrow> isjmp fs k \<Longrightarrow> k \<notin> J \<Longrightarrow> ins fs' k = ins fs k"
  by (auto simp: patch_frame_def isjmp_def opnums)

lemma patch_frame_testset:
  "patch_frame fs fs' J \<Longrightarrow> isjmp fs k \<Longrightarrow> k \<notin> J \<Longrightarrow> (\<forall>j \<in> J. isjmp fs j) \<Longrightarrow> testset fs' k = testset fs k"
proof -
  assume p: "patch_frame fs fs' J" and k: "isjmp fs k" "k \<notin> J" and J: "\<forall>j \<in> J. isjmp fs j"
  show ?thesis
  proof (cases "1 \<le> k")
    case True
    then have c: "in_code fs (k - 1)" using k(1) by (simp add: isjmp_def in_code_def)
    show ?thesis
    proof (cases "k - 1 \<in> J")
      case True
      then have "isjmp fs (k - 1)" "isjmp fs' (k - 1)" using J patch_frame_jmp [OF p] by auto
      then show ?thesis by (simp add: testset_def isjmp_def opnums)
    next
      case False
      then show ?thesis using p c k(2) by (auto simp: patch_frame_def testset_def)
    qed
  qed (simp add: testset_def)
qed

lemma jlist_frame:
  "patch_frame fs fs' J \<Longrightarrow> jlist fs l js \<Longrightarrow> J \<inter> set js = {} \<Longrightarrow> jlist fs' l js"
proof (induction fs l js rule: jlist.induct)
  case (2 fs l j js)
  have j: "isjmp fs j" "j \<notin> J" using "2.prems" by auto
  have "ins fs' j = ins fs j" using patch_frame_same [OF "2.prems"(1) j] .
  then have "dest fs' j = dest fs j" by (simp add: dest_def)
  then show ?case using 2 patch_frame_jmp [OF "2.prems"(1)] \<open>ins fs' j = ins fs j\<close> by auto
qed simp

lemma jlist_jmps: "jlist fs l js \<Longrightarrow> j \<in> set js \<Longrightarrow> isjmp fs j"
  by (induction fs l js rule: jlist.induct) auto

lemma jlist_start: "jlist fs l js \<Longrightarrow> js \<noteq> [] \<Longrightarrow> l \<noteq> NO_JUMP"
  by (cases js) (auto simp: isjmp_def in_code_def NO_JUMP_def)

lemma jlist_length: "jlist fs l js \<Longrightarrow> distinct js \<Longrightarrow> length js \<le> length (fcode fs)"
proof -
  assume j: "jlist fs l js" "distinct js"
  have "set js \<subseteq> {0..<ilen fs}" using jlist_jmps [OF j(1)] by (auto simp: isjmp_def in_code_def)
  then have "card (set js) \<le> card {0..<ilen fs}" by (intro card_mono) auto
  then show ?thesis using distinct_card [OF j(2)] by simp
qed

section \<open>Whole lists\<close>

text \<open>Where the jump \<open>j\<close> goes when its list is patched.\<close>

definition goal :: "FuncState \<Rightarrow> int \<Rightarrow> int \<Rightarrow> int \<Rightarrow> int" where
  "goal fs vtarget dtarget j = (if testset fs j then vtarget else dtarget)"

lemma patchlist_loop_spec:
  "ops_ok fs \<Longrightarrow> jlist fs l js \<Longrightarrow> distinct js \<Longrightarrow> length js < f \<Longrightarrow>
   \<forall>j \<in> set js. \<bar>goal fs vt dt j - (j + 1)\<bar> \<le> MAXARG_sBx \<Longrightarrow>
   \<exists>fs'. patchlist_loop f fs l vt reg dt = Inr fs' \<and> patch_frame fs fs' (set js)
     \<and> (\<forall>j \<in> set js. dest fs' j = goal fs vt dt j)"
proof (induction js arbitrary: fs l f)
  case Nil
  then obtain g where "f = Suc g" by (cases f) auto
  then show ?case using Nil patch_frame_refl by auto
next
  case (Cons j js)
  then obtain g where f: "f = Suc g" by (cases f) auto
  have l: "l = j" "isjmp fs j" and n: "jlist fs (if GETARG_sBx (ins fs j) = NO_JUMP then NO_JUMP else dest fs j) js"
    using Cons.prems(2) by auto
  let ?n = "if GETARG_sBx (ins fs j) = NO_JUMP then NO_JUMP else dest fs j"
  have jc: "in_code fs j" "j \<noteq> NO_JUMP" using l(2) by (auto simp: isjmp_def in_code_def NO_JUMP_def)
  obtain fs1 where p1: "patchtestreg fs j reg = Inr (testset fs j, fs1)" "patch_frame fs fs1 {j}"
    using patchtestreg_step [OF Cons.prems(1) l(2)] by blast
  have o1: "ops_ok fs1" using p1(2) by (simp add: patch_frame_def)
  have j1: "isjmp fs1 j" using patch_frame_jmp [OF p1(2)] l(2) by simp
  have d: "\<bar>goal fs vt dt j - (j + 1)\<bar> \<le> MAXARG_sBx" using Cons.prems(5) by simp
  obtain fs2 where p2: "fixjump fs1 j (goal fs vt dt j) = Inr fs2" "patch_frame fs1 fs2 {j}" "dest fs2 j = goal fs vt dt j"
    using fixjump_step [OF o1 j1 d] by blast
  have o2: "ops_ok fs2" using p2(2) by (simp add: patch_frame_def)
  have nj: "{j} \<inter> set js = {}" using Cons.prems(3) by auto
  have jl: "jlist fs2 ?n js" by (rule jlist_frame [OF p2(2) jlist_frame [OF p1(2) n nj] nj])
  have js: "isjmp fs k" "isjmp fs1 k" if "k \<in> set js" for k
    using jlist_jmps [OF n that] patch_frame_jmp [OF p1(2)] by auto
  have gl: "goal fs2 vt dt k = goal fs vt dt k" if "k \<in> set js" for k
  proof -
    have k: "k \<notin> {j}" using that nj by auto
    have "testset fs1 k = testset fs k" using patch_frame_testset [OF p1(2) js(1) [OF that] k] l(2) by simp
    moreover have "testset fs2 k = testset fs1 k" using patch_frame_testset [OF p2(2) js(2) [OF that] k] j1 by simp
    ultimately show ?thesis by (simp add: goal_def)
  qed
  have "\<forall>k \<in> set js. \<bar>goal fs2 vt dt k - (k + 1)\<bar> \<le> MAXARG_sBx" using Cons.prems(5) gl by simp
  from Cons.IH [OF o2 jl _ _ this, of g] Cons.prems(3,4) f obtain fs' where
    r: "patchlist_loop g fs2 ?n vt reg dt = Inr fs'" "patch_frame fs2 fs' (set js)"
      "\<forall>k \<in> set js. dest fs' k = goal fs2 vt dt k" by auto
  have "isjmp fs2 j" using patch_frame_jmp [OF p2(2)] j1 by simp
  then have "dest fs' j = goal fs vt dt j"
    using patch_frame_same [OF r(2)] nj p2(3) by (simp add: dest_def)
  moreover have "patch_frame fs fs2 {j}"
  proof -
    have "fs2 = fs1\<lparr>fcode := fcode fs2\<rparr>" "fs1 = fs\<lparr>fcode := fcode fs1\<rparr>" using p1(2) p2(2) by (auto simp: patch_frame_def)
    then have "fs2 = fs\<lparr>fcode := fcode fs2\<rparr>" by (metis FuncState.update_convs(1) FuncState.surjective)
    then show ?thesis using p1(2) p2(2) patch_frame_in [OF p1(2)] o2 unfolding patch_frame_def
      by (auto simp: opnums)
  qed
  then have "patch_frame fs fs' ({j} \<union> set js)"
    using patch_frame_trans [OF _ r(2)] js nj by blast
  then have "patch_frame fs fs' (set (j # js))" by simp
  moreover have "patchlist_loop f fs l vt reg dt = Inr fs'"
    using f l jc getjump_eq [OF jc(1)] p1(1) p2(1) r(1) by (simp add: goal_def)
  ultimately show ?case using r(3) gl by auto
qed

lemma patchlistaux_spec:
  assumes "ops_ok fs" "jlist fs l js" "distinct js" "\<forall>j \<in> set js. \<bar>goal fs vt dt j - (j + 1)\<bar> \<le> MAXARG_sBx"
  shows "\<exists>fs'. patchlistaux fs l vt reg dt = Inr fs' \<and> patch_frame fs fs' (set js)
     \<and> (\<forall>j \<in> set js. dest fs' j = goal fs vt dt j)"
  unfolding patchlistaux_def
  by (rule patchlist_loop_spec [OF assms(1-3) _ assms(4)]) (use jlist_length [OF assms(2,3)] in simp)

lemma last_jump_spec: "jlist fs l (xs @ [k]) \<Longrightarrow> length xs < f \<Longrightarrow> last_jump f fs l = Inr k"
proof (induction xs arbitrary: l f)
  case Nil
  then obtain g where "f = Suc g" by (cases f) auto
  then show ?case using Nil getjump_eq [of fs k] by (auto simp: isjmp_def split: if_splits)
next
  case (Cons j xs)
  then obtain g where f: "f = Suc g" by (cases f) auto
  have j: "l = j" "in_code fs j" and n: "jlist fs (if GETARG_sBx (ins fs j) = NO_JUMP then NO_JUMP else dest fs j) (xs @ [k])"
    using Cons.prems(1) by (auto simp: isjmp_def)
  have "\<not> jlist fs NO_JUMP (xs @ [k])"
    by (cases xs) (auto simp: isjmp_def in_code_def NO_JUMP_def)
  then have ne: "GETARG_sBx (ins fs j) \<noteq> NO_JUMP" "jlist fs (dest fs j) (xs @ [k])" using n by (auto split: if_splits)
  then have "dest fs j \<noteq> NO_JUMP" using \<open>\<not> jlist fs NO_JUMP (xs @ [k])\<close> by auto
  then show ?case using Cons.IH [OF ne(2), of g] Cons.prems(2) f j ne(1) getjump_eq [OF j(2)] by simp
qed

lemma jlist_extend:
  assumes "patch_frame fs fs' {k}" "isjmp fs' k" "GETARG_sBx (ins fs' k) \<noteq> NO_JUMP" "jlist fs' (dest fs' k) ys"
  shows "jlist fs l (xs @ [k]) \<Longrightarrow> k \<notin> set xs \<Longrightarrow> jlist fs' l ((xs @ [k]) @ ys)"
proof (induction xs arbitrary: l)
  case (Cons j xs)
  have j: "isjmp fs j" "j \<notin> {k}" using Cons.prems by auto
  have "ins fs' j = ins fs j" by (rule patch_frame_same [OF assms(1) j])
  then show ?case using Cons patch_frame_jmp [OF assms(1)] by (auto simp: dest_def)
qed (use assms in auto)

lemma luaK_concat_spec:
  assumes o: "ops_ok fs" and l: "jlist fs l1 js1" "jlist fs l2 js2" "distinct (js1 @ js2)"
    and r: "js1 \<noteq> [] \<Longrightarrow> js2 \<noteq> [] \<Longrightarrow> \<bar>l2 - (last js1 + 1)\<bar> \<le> MAXARG_sBx"
  shows "\<exists>l fs'. luaK_concat fs l1 l2 = Inr (l, fs') \<and> jlist fs' l (js1 @ js2) \<and> patch_frame fs fs' (set js1)"
proof (cases "js1 = [] \<or> js2 = []")
  case True
  show ?thesis
  proof (cases js2)
    case Nil
    then show ?thesis using l patch_frame_refl [OF o] by (auto simp: luaK_concat_def)
  next
    case (Cons j js)
    then have "js1 = []" using True by simp
    then show ?thesis using l jlist_start [OF l(2)] Cons patch_frame_refl [OF o] by (auto simp: luaK_concat_def)
  qed
next
  case False
  then obtain xs k where js1: "js1 = xs @ [k]" by (metis rev_exhaust)
  obtain y ys where js2: "js2 = y # ys" using False by (cases js2) auto
  have kj: "isjmp fs k" using jlist_jmps [OF l(1)] js1 by simp
  have yj: "isjmp fs y" "l2 = y" using l(2) js2 by auto
  have nn: "l1 \<noteq> NO_JUMP" "l2 \<noteq> NO_JUMP"
    using jlist_start [OF l(1)] jlist_start [OF l(2)] js1 js2 by simp_all
  have yk: "y \<noteq> k" "k \<notin> set xs" "{k} \<inter> set js2 = {}" using l(3) js1 js2 by auto
  have d: "\<bar>l2 - (k + 1)\<bar> \<le> MAXARG_sBx" using r False js1 by simp
  obtain fs' where f: "fixjump fs k l2 = Inr fs'" "patch_frame fs fs' {k}" "dest fs' k = l2" "isjmp fs' k"
    using fixjump_step [OF o kj d] by blast
  have g: "GETARG_sBx (ins fs' k) \<noteq> NO_JUMP" using f(3) yk(1) yj(2) by (simp add: dest_def NO_JUMP_def)
  have "jlist fs' (dest fs' k) js2" using jlist_frame [OF f(2) l(2) yk(3)] f(3) by simp
  then have "jlist fs' l1 (js1 @ js2)"
    using jlist_extend [OF f(2,4) g] l(1) yk(2) unfolding js1 by blast
  moreover have "length xs < Suc (length (fcode fs))" using jlist_length [OF l(1)] l(3) js1 by simp
  then have "last_jump (Suc (length (fcode fs))) fs l1 = Inr k" using last_jump_spec l(1) js1 by blast
  moreover have "patch_frame fs fs' (set js1)" using f(2) js1 by (auto simp: patch_frame_def)
  ultimately show ?thesis using nn f(1) by (simp add: luaK_concat_def)
qed

section \<open>Pending jumps\<close>

lemma put_eq: "i < length xs \<Longrightarrow> put xs i x = xs[i := x]" "put xs (length xs) x = xs @ [x]"
  by (simp_all add: put_def upd_conv_take_nth_drop)

lemma length_put: "i \<le> length xs \<Longrightarrow> length (put xs i x) = max (length xs) (Suc i)"
  by (cases "i < length xs") (auto simp: put_eq le_less)

lemma nth_put: "i \<le> length xs \<Longrightarrow> j < length (put xs i x) \<Longrightarrow> put xs i x ! j = (if j = i then x else xs ! j)"
  by (cases "i < length xs") (auto simp: put_eq le_less nth_append)

lemma luaK_code_spec:
  assumes o: "ops_ok fs" and j: "jlist fs (jpc fs) js" "distinct js" and p: "fpc fs \<le> length (fcode fs)"
    and b: "\<forall>k \<in> set js. k < int (fpc fs)" "int (fpc fs) \<le> MAXARG_sBx"
  shows "\<exists>fs'. luaK_code fs i line = Inr (int (fpc fs), fs') \<and> jpc fs' = NO_JUMP \<and> fpc fs' = fpc fs + 1
    \<and> ins fs' (int (fpc fs)) = i \<and> (\<forall>k \<in> set js. isjmp fs' k \<and> dest fs' k = int (fpc fs))
    \<and> freereg fs' = freereg fs \<and> fk fs' = fk fs"
proof -
  let ?p = "int (fpc fs)"
  have c: "0 \<le> k" if "k \<in> set js" for k using jlist_jmps [OF j(1) that] by (simp add: isjmp_def in_code_def)
  have "\<forall>k \<in> set js. \<bar>goal fs ?p ?p k - (k + 1)\<bar> \<le> MAXARG_sBx"
  proof
    fix k
    assume "k \<in> set js"
    then have "k < ?p" "0 \<le> k" using b(1) c by auto
    then show "\<bar>goal fs ?p ?p k - (k + 1)\<bar> \<le> MAXARG_sBx" using b(2) by (simp add: goal_def)
  qed
  from patchlistaux_spec [OF o j this, of NO_REG] obtain f1 where
    f1: "patchlistaux fs (jpc fs) ?p NO_REG ?p = Inr f1" "patch_frame fs f1 (set js)" "\<forall>k \<in> set js. dest f1 k = ?p"
    by (auto simp: goal_def)
  let ?f2 = "f1\<lparr>jpc := NO_JUMP, fcode := put (fcode f1) (fpc f1) i, flineinfo := put (flineinfo f1) (fpc f1) line, fpc := fpc f1 + 1\<rparr>"
  have e: "fpc f1 = fpc fs" "length (fcode f1) = length (fcode fs)" "freereg f1 = freereg fs" "fk f1 = fk fs"
  proof -
    obtain c' where "f1 = fs\<lparr>fcode := c'\<rparr>" using f1(2) unfolding patch_frame_def by blast
    then show "fpc f1 = fpc fs" "freereg f1 = freereg fs" "fk f1 = fk fs" by simp_all
    show "length (fcode f1) = length (fcode fs)" using f1(2) by (simp add: patch_frame_def)
  qed
  have m: "?p < MAX_INT" using b(2) by (simp add: MAX_INT_def int_max_def arg_limits field_sizes)
  have "luaK_code fs i line = Inr (?p, ?f2)" using f1(1) e(1) m by (simp add: luaK_code_def dischargejpc_def)
  moreover have "ins ?f2 k = (if k = ?p then i else ins f1 k)" if "0 \<le> k" "k < int (length (fcode ?f2))" for k
    using that p e nth_put [of "fpc fs" "fcode f1" "nat k" i] by (auto simp: ins_def nat_less_iff)
  moreover have "isjmp f1 k" if "k \<in> set js" for k
    using patch_frame_jmp [OF f1(2)] jlist_jmps [OF j(1) that] by simp
  ultimately show ?thesis
    using b(1) c f1(3) e p by (auto simp: isjmp_def dest_def in_code_def length_put)
qed

section \<open>Constants\<close>

text \<open>The key of a constant in the table that finds it: nil is the table itself.\<close>

definition konst :: "FuncState \<Rightarrow> TValue \<Rightarrow> TValue" where
  "konst fs v = (if v = Nil then Collectable (ObjRef TTable (fh_addr fs)) else v)"

definition const_ok :: "FuncState \<Rightarrow> TValue \<Rightarrow> bool" where
  "const_ok fs v = (ok_key (konst fs v) \<and> v \<noteq> Collectable (ObjRef TTable (fh_addr fs)))"

text \<open>The numbers of the table are the indices of the constants; what the scanner keeps alive has other values.\<close>

definition kwf :: "hash \<Rightarrow> FuncState \<Rightarrow> bool" where
  "kwf hn fs \<longleftrightarrow> twf hn (fh fs) \<and> (\<forall>c \<in> set (fk fs). const_ok fs c)
    \<and> (\<forall>i < length (fk fs). tget (fh fs) (konst fs (fk fs ! i)) = Number (Nint (int i)))
    \<and> (\<forall>key x. live key \<longrightarrow> tget (fh fs) key = Number x \<longrightarrow> (\<exists>i < length (fk fs). key = konst fs (fk fs ! i)))"

lemma konst_inj: "const_ok fs v \<Longrightarrow> const_ok fs w \<Longrightarrow> konst fs v = konst fs w \<longleftrightarrow> v = w"
  by (auto simp: konst_def const_ok_def)

lemma kwf_distinct: "kwf hn fs \<Longrightarrow> distinct (fk fs)"
  unfolding distinct_conv_nth kwf_def by (metis TValue.inject(3) lnum.inject(1) of_nat_eq_iff)

lemma addk_spec:
  assumes w: "kwf hn fs" and v: "const_ok fs v"
  shows "addk hn fs (konst fs v) v = raise ''table overflow'' \<or> addk hn fs (konst fs v) v = raise ''constant table overflow''
    \<or> (\<exists>n fs'. addk hn fs (konst fs v) v = Inr (int n, fs') \<and> kwf hn fs' \<and> n < length (fk fs') \<and> fk fs' ! n = v
        \<and> fk fs' = (if v \<in> set (fk fs) then fk fs else fk fs @ [v]))"
proof -
  let ?key = "konst fs v"
  have t: "twf hn (fh fs)" and cs: "\<forall>c \<in> set (fk fs). const_ok fs c" using w by (auto simp: kwf_def)
  have ix: "tget (fh fs) (konst fs (fk fs ! i)) = Number (Nint (int i))" if "i < length (fk fs)" for i
    using w that by (simp add: kwf_def)
  have has_ix: "\<exists>i < length (fk fs). key = konst fs (fk fs ! i)" if "live key" "tget (fh fs) key = Number x" for key x
    using w that by (simp add: kwf_def)
  have k: "ok_key ?key" "live ?key" using v by (auto simp: const_ok_def ok_key_def)
  from luaH_set_spec [OF t k(1)] show ?thesis
  proof (elim disjE exE conjE)
    fix l t'
    assume s: "luaH_set hn (fh fs) ?key = Inr (l, t')" "twf hn t'" "at_loc t' ?key l"
      "\<forall>k'. live k' \<longrightarrow> tget t' k' = tget (fh fs) k'"
    have val: "value_at t' l = tget (fh fs) ?key" using tget_at [OF s(2) k(2) s(3)] s(4) k(2) by simp
    have lv: "live (konst fs (fk fs ! i))" if "i < length (fk fs)" for i
      using cs that by (auto simp: const_ok_def ok_key_def)
    show ?thesis
    proof (cases "\<exists>x. tget (fh fs) ?key = Number x")
      case True
      then obtain i where i: "i < length (fk fs)" "?key = konst fs (fk fs ! i)" using has_ix [OF k(2)] by blast
      then have vi: "fk fs ! i = v" using konst_inj v cs by fastforce
      have ko: "konst (fs\<lparr>fh := t'\<rparr>) = konst fs" "const_ok (fs\<lparr>fh := t'\<rparr>) = const_ok fs"
        by (intro ext; simp add: konst_def const_ok_def)+
      have "kwf hn (fs\<lparr>fh := t'\<rparr>)"
        unfolding kwf_def ko using s(2,4) cs ix has_ix lv by simp
      moreover have "addk hn fs ?key v = Inr (int i, fs\<lparr>fh := t'\<rparr>)" using s(1) val ix [OF i(1)] i(2) by (simp add: addk_def)
      moreover have "v \<in> set (fk fs)" using i(1) vi by auto
      ultimately show ?thesis using i(1) vi by auto
    next
      case False
      then have nn: "tget (fh fs) ?key \<noteq> Number x" for x by simp
      let ?n = "length (fk fs)"
      let ?fs = "fs\<lparr>fh := set_at t' l (Number (Nint (int ?n))), fk := fk fs @ [v]\<rparr>"
      have nin: "v \<notin> set (fk fs)"
      proof
        assume "v \<in> set (fk fs)"
        then obtain i where "i < ?n" "fk fs ! i = v" by (auto simp: in_set_conv_nth)
        then show False using ix nn by force
      qed
      have g: "tget (fh ?fs) k' = (if k' = ?key then Number (Nint (int ?n)) else tget (fh fs) k')" if "live k'" for k'
        using tget_set_at [OF s(2) k(2) s(3) that] s(4) that by simp
      have ko: "konst ?fs = konst fs" "const_ok ?fs = const_ok fs" by (intro ext; simp add: konst_def const_ok_def)+
      have kn: "konst fs (fk fs ! i) \<noteq> ?key" if "i < ?n" for i
        using konst_inj [of fs "fk fs ! i" v] v cs nin that by (metis nth_mem)
      have "kwf hn ?fs"
        unfolding kwf_def ko
      proof (intro conjI allI impI ballI)
        show "twf hn (fh ?fs)" using set_at_twf(1) [OF s(2) k(2) s(3)] by simp
        show "const_ok fs c" if "c \<in> set (fk ?fs)" for c using that cs v by auto
        show "tget (fh ?fs) (konst fs (fk ?fs ! i)) = Number (Nint (int i))" if "i < length (fk ?fs)" for i
        proof (cases "i < ?n")
          case True
          then show ?thesis using g [OF lv [OF True]] kn [OF True] ix [OF True] by (simp add: nth_append)
        next
          case False
          then have "i = ?n" using that by simp
          then show ?thesis using g [OF k(2)] by simp
        qed
        show "\<exists>i < length (fk ?fs). key = konst fs (fk ?fs ! i)" if ky: "live key" "tget (fh ?fs) key = Number x" for key x
        proof (cases "key = ?key")
          case True
          then show ?thesis by (intro exI [of _ ?n]) simp
        next
          case False
          then obtain i where "i < ?n" "key = konst fs (fk fs ! i)" using g [OF ky(1)] ky has_ix by auto
          then show ?thesis by (intro exI [of _ i]) (simp add: nth_append)
        qed
      qed
      moreover have "addk hn fs ?key v = (if int ?n \<ge> MAXARG_Bx then raise ''constant table overflow'' else Inr (int ?n, ?fs))"
        using s(1) val nn by (simp add: addk_def split: TValue.splits)
      ultimately show ?thesis using nin by auto
    qed
  qed (simp add: addk_def)
qed

section \<open>Properties\<close>

text \<open>
  C27: patching a list of jumps sets the target of every jump of the list, the first target for those
  that a \<open>TESTSET\<close> controls and the second for the others, ends, and changes no other instruction but
  these \<open>TESTSET\<close>s.
\<close>

theorem patchlist_sets_targets:
  assumes "ops_ok fs" "jlist fs l js" "distinct js"
    and "\<forall>j \<in> set js. \<bar>(if testset fs j then vt else dt) - (j + 1)\<bar> \<le> MAXARG_sBx"
  shows "\<exists>fs'. patchlistaux fs l vt reg dt = Inr fs' \<and> length (fcode fs') = length (fcode fs)
    \<and> (\<forall>j \<in> set js. dest fs' j = (if testset fs j then vt else dt))
    \<and> (\<forall>k. in_code fs k \<and> k \<notin> set js \<and> \<not> (k + 1 \<in> set js \<and> testset fs (k + 1)) \<longrightarrow> ins fs' k = ins fs k)"
proof -
  obtain fs' where f: "patchlistaux fs l vt reg dt = Inr fs'" "patch_frame fs fs' (set js)"
    "\<forall>j \<in> set js. dest fs' j = goal fs vt dt j"
    using patchlistaux_spec [OF assms(1-3), of vt dt reg] assms(4) by (auto simp: goal_def)
  have "testset fs (k + 1) \<longleftrightarrow> op_of (ins fs k) OP_TESTSET" if "in_code fs k" for k
    using that by (auto simp: testset_def in_code_def)
  then show ?thesis using f by (intro exI [of _ fs']) (auto simp: goal_def patch_frame_def)
qed

definition jump_code :: FuncState where
  "jump_code = \<lparr>fcode = [CREATE_ABC 27 255 3 0, CREATE_ABx 22 0 (MAXARG_sBx - 1), CREATE_ABx 22 0 (MAXARG_sBx - 2)],
     flineinfo = [1, 1, 1], fk = [], fh = sample, fh_addr = 0, fpc = 3, lasttarget = - 1, jpc = - 1, freereg = 0,
     nactvar = 0, maxstacksize = 2, lastline = 1\<rparr>"

lemma jump_code_facts:
  "ops_ok jump_code" "GET_OPCODE (ins jump_code 0) = 27" "GET_OPCODE (ins jump_code 1) = 22" "GET_OPCODE (ins jump_code 2) = 22"
  "GETARG_sBx (ins jump_code 1) = - 1" "GETARG_sBx (ins jump_code 2) = - 2" "MAXARG_sBx = 131071"
  by code_simp+

lemma jump_code_list: "jlist jump_code 2 [2, 1]"
  using jump_code_facts opnums by (simp add: isjmp_def in_code_def dest_def NO_JUMP_def) (simp add: jump_code_def)

theorem patchlist_sets_targets_witness:
  "\<exists>fs'. patchlistaux jump_code 2 9 4 7 = Inr fs' \<and> dest fs' 1 = 9 \<and> dest fs' 2 = 7"
  using patchlist_sets_targets [OF jump_code_facts(1) jump_code_list, of 9 7 4] jump_code_facts opnums
  by (auto simp: testset_def)

text \<open>
  C28: jumps to here. After \<open>luaK_patchtohere\<close> adds a list to the pending jumps, the next instruction
  written is the target of all of them, old and new.
\<close>

theorem pending_jumps_arrive:
  assumes o: "ops_ok fs" and j: "jlist fs (jpc fs) ps" "jlist fs l js" "distinct (ps @ js)"
    and p: "fpc fs \<le> length (fcode fs)" "\<forall>k \<in> set (ps @ js). k < int (fpc fs)" "int (fpc fs) \<le> MAXARG_sBx"
  shows "\<exists>fs1 fs2. luaK_patchtohere fs l = Inr fs1 \<and> luaK_code fs1 i line = Inr (int (fpc fs), fs2)
    \<and> ins fs2 (int (fpc fs)) = i \<and> jpc fs2 = NO_JUMP \<and> (\<forall>k \<in> set (ps @ js). dest fs2 k = int (fpc fs))"
proof -
  let ?fs = "fs\<lparr>lasttarget := int (fpc fs)\<rparr>"
  have same: "ins (f\<lparr>lasttarget := x\<rparr>) k = ins f k" "in_code (f\<lparr>lasttarget := x\<rparr>) k = in_code f k"
    "ins (f\<lparr>jpc := x\<rparr>) k = ins f k" "in_code (f\<lparr>jpc := x\<rparr>) k = in_code f k" for f x k
    by (simp_all add: ins_def in_code_def)
  have jl: "jlist (f\<lparr>lasttarget := x\<rparr>) m ks = jlist f m ks" "jlist (f\<lparr>jpc := x\<rparr>) m ks = jlist f m ks" for f x m ks
    by (induction ks arbitrary: m) (simp_all add: isjmp_def dest_def same)
  have o': "ops_ok ?fs" using o by (simp add: ops_ok_def)
  have neg: "0 \<le> k" if "k \<in> set (ps @ js)" for k
    using that jlist_jmps [OF j(1), of k] jlist_jmps [OF j(2), of k] by (auto simp: isjmp_def in_code_def)
  have "\<bar>l - (last ps + 1)\<bar> \<le> MAXARG_sBx" if "ps \<noteq> []" "js \<noteq> []"
  proof -
    have "last ps \<in> set (ps @ js)" "l \<in> set (ps @ js)" using that j(2) by (auto; cases js; auto)+
    then have "0 \<le> last ps" "last ps < int (fpc fs)" "0 \<le> l" "l < int (fpc fs)" using neg p(2) by auto
    then show ?thesis using p(3) by simp
  qed
  then obtain l' f1 where c: "luaK_concat ?fs (jpc fs) l = Inr (l', f1)" "jlist f1 l' (ps @ js)" "patch_frame ?fs f1 (set ps)"
    using luaK_concat_spec [OF o', of "jpc fs" ps l js] j by (auto simp: jl)
  let ?f1 = "f1\<lparr>jpc := l'\<rparr>"
  have e: "fpc f1 = fpc fs" "length (fcode f1) = length (fcode fs)"
  proof -
    obtain c' where "f1 = ?fs\<lparr>fcode := c'\<rparr>" using c(3) unfolding patch_frame_def by blast
    then show "fpc f1 = fpc fs" by simp
    show "length (fcode f1) = length (fcode fs)" using c(3) by (simp add: patch_frame_def)
  qed
  have o1: "ops_ok ?f1" using c(3) by (simp add: patch_frame_def ops_ok_def)
  obtain f2 where "luaK_code ?f1 i line = Inr (int (fpc ?f1), f2)" "jpc f2 = NO_JUMP" "ins f2 (int (fpc ?f1)) = i"
    "\<forall>k \<in> set (ps @ js). dest f2 k = int (fpc ?f1)"
    using luaK_code_spec [OF o1, of "ps @ js" i line] c(2) j(3) p e by (auto simp: jl)
  then show ?thesis using c(1) e by (simp add: luaK_patchtohere_def luaK_getlabel_def)
qed

theorem pending_jumps_arrive_witness:
  "\<exists>fs1 fs2. luaK_patchtohere jump_code 2 = Inr fs1 \<and> luaK_code fs1 7 1 = Inr (3, fs2) \<and> dest fs2 1 = 3 \<and> dest fs2 2 = 3"
  using pending_jumps_arrive [OF jump_code_facts(1) _ jump_code_list, of "[]" 7 1] jump_code_facts(7)
  by (simp add: jump_code_def NO_JUMP_def) blast

text \<open>
  C29: constants are shared. Adding a constant gives an index at which it is, keeps the indices of the
  others, adds an entry only for a new constant, and so no constant is there twice; the two overflows
  are the only errors.
\<close>

theorem constants_shared:
  assumes "kwf hn fs" "const_ok fs v"
  shows "addk hn fs (konst fs v) v \<in> {raise ''table overflow'', raise ''constant table overflow''}
    \<or> (\<exists>n fs'. addk hn fs (konst fs v) v = Inr (int n, fs') \<and> kwf hn fs' \<and> n < length (fk fs') \<and> fk fs' ! n = v
        \<and> fk fs' = (if v \<in> set (fk fs) then fk fs else fk fs @ [v]) \<and> distinct (fk fs'))"
  using addk_spec [OF assms] kwf_distinct by blast

theorem constants_shared_witness:
  "addk (\<lambda>_. 7) (jump_code\<lparr>fh := \<lparr>flags = 0, lsizenode = 0, array = [], nodes = [dummynode], dummy = True, lastfree = 0\<rparr>\<rparr>)
      (String [65]) (String [65]) \<in> {raise ''table overflow'', raise ''constant table overflow''}
    \<or> (\<exists>fs'. addk (\<lambda>_. 7) (jump_code\<lparr>fh := \<lparr>flags = 0, lsizenode = 0, array = [], nodes = [dummynode], dummy = True, lastfree = 0\<rparr>\<rparr>)
      (String [65]) (String [65]) = Inr (0, fs') \<and> fk fs' = [String [65]])"
proof -
  let ?t = "\<lparr>flags = 0, lsizenode = 0, array = [], nodes = [dummynode], dummy = True, lastfree = 0\<rparr>"
  let ?fs = "jump_code\<lparr>fh := ?t\<rparr>"
  have w: "twf (\<lambda>_. 7) ?t" by (rule twf_fresh [of 0]) (simp_all add: MAXASIZE_def MAXBITS_def)
  have "tget ?t k = Nil" if "live k" for k using tget_fresh [OF _ that w, of Nil] by (auto simp: in_array_def)
  then have "kwf (\<lambda>_. 7) ?fs" using w by (simp add: kwf_def jump_code_def)
  moreover have "const_ok ?fs (String [65])" by (simp add: const_ok_def konst_def ok_key_def live_def)
  moreover have "konst ?fs (String [65]) = String [65]" "fk ?fs = []" by (simp_all add: konst_def jump_code_def)
  ultimately show ?thesis using constants_shared [of "\<lambda>_. 7" ?fs "String [65]"] by auto
qed

section \<open>The count of a long list\<close>

lemma discharge_none: "jpc fs = NO_JUMP \<Longrightarrow> dischargejpc fs = Inr fs"
  by (simp add: dischargejpc_def patchlistaux_def)

lemma code_none:
  assumes "jpc fs = NO_JUMP" "int (fpc fs) < MAX_INT"
  shows "luaK_code fs i line = Inr (int (fpc fs), fs\<lparr>fcode := put (fcode fs) (fpc fs) i, flineinfo := put (flineinfo fs) (fpc fs) line, fpc := fpc fs + 1\<rparr>)"
  using assms by (simp add: luaK_code_def discharge_none)

lemma put_app: "length xs = k \<Longrightarrow> put (xs @ rest) k x = xs @ x # drop 1 rest"
  by (auto simp: put_def)

text \<open>
  A list of more than 25550 elements needs the number of its block in a word of its own behind \<open>OP_SETLIST\<close>. \<open>getjumpcontrol\<close>
  takes the word before a jump for an instruction, and a jump may follow that word, as the \<open>break\<close> of a loop behind the list
  does: the elements are stored, a jump is made, patched to what follows, and that is the instruction \<open>i\<close>.
\<close>

definition long_list :: "FuncState \<Rightarrow> int \<Rightarrow> int \<Rightarrow> int \<Rightarrow> Instruction \<Rightarrow> FuncState lres" where
  "long_list fs base n tostore i =
    sbind (luaK_setlist fs base n tostore) (\<lambda>fs.
    sbind (luaK_jump fs) (\<lambda>(j, fs).
    sbind (luaK_patchtohere fs j) (\<lambda>fs.
    sbind (luaK_code fs i (lastline fs)) (\<lambda>(_, fs). Inr fs))))"

definition block_word :: "int \<Rightarrow> Instruction" where
  "block_word n = word_of_int ((n - 1) div LFIELDS_PER_FLUSH + 1)"

text \<open>What the word has become when the jump is patched.\<close>

definition patched_word :: "Instruction \<Rightarrow> Instruction" where
  "patched_word w = (if op_of w OP_TESTSET then CREATE_ABC (opnum OP_TEST) (GETARG_B w) 0 (GETARG_C w) else w)"

lemma patched_word_changed: "op_of w OP_TESTSET \<Longrightarrow> patched_word w \<noteq> w"
  using opcode_TEST [of w] by (auto simp: patched_word_def opnums)

lemma GET_OPCODE_count: "GET_OPCODE (word_of_int c) = nat (c mod 64)"
proof -
  have "getfield SIZE_OP POS_OP (word_of_int c) = c mod 64"
  proof (rule bit_eqI)
    fix k
    have "bit (c mod 64) k \<longleftrightarrow> k < 6 \<and> bit c k" using bit_take_bit_iff [of 6 c k] by (simp add: take_bit_eq_mod)
    then show "bit (getfield SIZE_OP POS_OP (word_of_int c)) k = bit (c mod 64) k"
      by (auto simp: bit_getfield field_sizes bit_simps)
  qed
  then show ?thesis by (simp add: GET_OPCODE_def)
qed

lemma testTMode_out: "NUM_OPCODES \<le> n \<Longrightarrow> testTMode n = Inl ReadOOB"
proof -
  have "length luaP_opmodes = NUM_OPCODES" by (simp add: luaP_opmodes_def NUM_OPCODES_def)
  then show "NUM_OPCODES \<le> n \<Longrightarrow> testTMode n = Inl ReadOOB" by (simp add: testTMode_def rd_out)
qed

lemma jmp_word: "GET_OPCODE (CREATE_ABx (opnum OP_JMP) 0 (NO_JUMP + MAXARG_sBx)) = opnum OP_JMP"
    "GETARG_sBx (CREATE_ABx (opnum OP_JMP) 0 (NO_JUMP + MAXARG_sBx)) = NO_JUMP"
    "SETARG_sBx 0 (CREATE_ABx (opnum OP_JMP) 0 (NO_JUMP + MAXARG_sBx)) = CREATE_ABx (opnum OP_JMP) 0 MAXARG_sBx"
  by code_simp+

text \<open>A pending jump at the end of the code, with a word that is not an instruction before it.\<close>

lemma discharge_behind_word:
  assumes c: "fcode fs = xs @ w # CREATE_ABx (opnum OP_JMP) 0 (NO_JUMP + MAXARG_sBx) # rest" "fpc fs = length xs + 2" "jpc fs = int (length xs) + 1"
  shows "dischargejpc fs = (if NUM_OPCODES \<le> GET_OPCODE w then Inl (CFault ReadOOB)
    else Inr (fs\<lparr>fcode := xs @ patched_word w # CREATE_ABx (opnum OP_JMP) 0 MAXARG_sBx # rest, jpc := NO_JUMP\<rparr>))"
proof -
  let ?j = "int (length xs) + 1" and ?J = "CREATE_ABx (opnum OP_JMP) 0 (NO_JUMP + MAXARG_sBx)"
  have i: "icode fs ?j = Inr ?J" "icode fs (int (length xs)) = Inr w"
    using c by (simp_all add: icode_def nat_add_distrib nth_append)
  have g: "getjump fs ?j = Inr NO_JUMP" by (simp add: getjump_def i jmp_word)
  have s: "set_icode fs (int (length xs)) f = Inr (fs\<lparr>fcode := xs @ f w # ?J # rest\<rparr>)" for f
    using i c by (simp add: set_icode_def)
  have x: "fixjump (fs\<lparr>fcode := xs @ v # ?J # rest\<rparr>) ?j (?j + 1) = Inr (fs\<lparr>fcode := xs @ v # CREATE_ABx (opnum OP_JMP) 0 MAXARG_sBx # rest\<rparr>)" for v
  proof -
    have "(xs @ v # ?J # rest)[Suc (length xs) := z] = xs @ v # z # rest" for z by (simp add: list_update_append)
    moreover have "0 \<le> MAXARG_sBx" by (simp add: arg_limits field_sizes)
    ultimately show ?thesis by (simp add: fixjump_def set_icode_def icode_def nat_add_distrib nth_append jmp_word)
  qed
  have p: "patchtestreg fs ?j NO_REG = (if NUM_OPCODES \<le> GET_OPCODE w then Inl (CFault ReadOOB)
      else Inr (op_of w OP_TESTSET, fs\<lparr>fcode := xs @ patched_word w # ?J # rest\<rparr>))"
  proof (cases "NUM_OPCODES \<le> GET_OPCODE w")
    case True
    then show ?thesis using i by (simp add: patchtestreg_def getjumpcontrol_def testTMode_out)
  next
    case False
    then obtain b where b: "testTMode (GET_OPCODE w) = Inr b" using testTMode_Inr by (metis not_le)
    have id: "fs\<lparr>fcode := xs @ w # ?J # rest\<rparr> = fs" using c(1) by simp
    show ?thesis
    proof (cases "op_of w OP_TESTSET")
      case t: True
      then have "b = True" using b by (simp add: opnums tmodes)
      then show ?thesis using False t b i s by (simp add: patchtestreg_def getjumpcontrol_def patched_word_def)
    next
      case t: False
      have "\<not> op_of ?J OP_TESTSET" by (simp only: jmp_word) (simp add: opnums)
      then show ?thesis using False t b i id by (cases b) (simp_all add: patchtestreg_def getjumpcontrol_def patched_word_def)
    qed
  qed
  have l: "patchlistaux fs ?j v NO_REG v = sbind (patchtestreg fs ?j NO_REG) (\<lambda>(_, fs). fixjump fs ?j v)" for v
    using g c(1) by (simp add: patchlistaux_def split_beta NO_JUMP_def) (auto simp: sbind_def split: sum.splits)
  have v: "int (fpc fs) = ?j + 1" using c(2) by simp
  show ?thesis unfolding dischargejpc_def c(3) v l p using x [of "patched_word w"] by simp
qed

lemma setlist_long:
  assumes "jpc fs = NO_JUMP" "fpc fs \<le> length (fcode fs)" "int (fpc fs) + 1 < MAX_INT" "25550 < n"
  obtains fs' where "luaK_setlist fs base n tostore = Inr fs'" "jpc fs' = NO_JUMP" "fpc fs' = fpc fs + 2"
    "fcode fs' = (take (fpc fs) (fcode fs) @ [CREATE_ABC (opnum OP_SETLIST) base (if tostore = LUA_MULTRET then 0 else tostore) 0, block_word n])
      @ drop (fpc fs + 2) (fcode fs)"
proof -
  let ?p = "fpc fs" and ?xs = "take (fpc fs) (fcode fs)" and ?S = "CREATE_ABC (opnum OP_SETLIST) base (if tostore = LUA_MULTRET then 0 else tostore) 0"
  have pl: "length ?xs = ?p" using assms(2) by simp
  have c: "(n - 1) sdiv LFIELDS_PER_FLUSH + 1 = (n - 1) div LFIELDS_PER_FLUSH + 1" "MAXARG_C < (n - 1) div LFIELDS_PER_FLUSH + 1"
    using assms(4) by (simp_all add: sdiv_nonneg LFIELDS_PER_FLUSH_def arg_limits field_sizes)
  have "put (fcode fs) ?p ?S = ?xs @ ?S # drop (?p + 1) (fcode fs)" using put_app [OF pl, of "drop ?p (fcode fs)" ?S] by simp
  moreover have "put ((?xs @ [?S]) @ drop (?p + 1) (fcode fs)) (?p + 1) v = (?xs @ [?S]) @ v # drop (?p + 2) (fcode fs)" for v
    using put_app [of "?xs @ [?S]" "?p + 1"] pl by simp
  ultimately show ?thesis
    using that assms(1,3) c by (simp add: luaK_setlist_def luaK_codeABC_def code_none Let_def block_word_def)
qed

text \<open>
  C40: the number of the block of a long list is not safe from a jump behind it. For every list of more than 25550 elements, at
  any place of the code where no jump is pending: if the low six bits of the number are no operation, the table of modes is
  read past its end when the jump is patched; if they are those of \<open>OP_TESTSET\<close>, the number is changed, so that the elements
  are stored elsewhere; and it is kept otherwise.
\<close>

theorem long_list_count:
  assumes "jpc fs = NO_JUMP" "fpc fs \<le> length (fcode fs)" "int (fpc fs) + 3 < MAX_INT" "25550 < n"
  defines "w \<equiv> block_word n"
  shows "map_sum id fcode (long_list fs base n tostore i) =
      (if 38 \<le> ((n - 1) div 50 + 1) mod 64 then Inl (CFault ReadOOB)
       else Inr (take (fpc fs) (fcode fs) @ [CREATE_ABC (opnum OP_SETLIST) base (if tostore = LUA_MULTRET then 0 else tostore) 0,
                patched_word w, CREATE_ABx (opnum OP_JMP) 0 MAXARG_sBx, i] @ drop (fpc fs + 4) (fcode fs)))
    \<and> (patched_word w \<noteq> w \<longleftrightarrow> ((n - 1) div 50 + 1) mod 64 = 27)"
proof
  let ?c = "(n - 1) div 50 + 1" and ?p = "fpc fs" and ?xs = "take (fpc fs) (fcode fs)"
  let ?S = "CREATE_ABC (opnum OP_SETLIST) base (if tostore = LUA_MULTRET then 0 else tostore) 0" and ?J = "CREATE_ABx (opnum OP_JMP) 0 (NO_JUMP + MAXARG_sBx)"
  have w: "w = word_of_int ?c" by (simp add: w_def block_word_def LFIELDS_PER_FLUSH_def)
  have op: "GET_OPCODE w = nat (?c mod 64)" unfolding w by (rule GET_OPCODE_count)
  have "op_of w OP_TESTSET \<longleftrightarrow> ?c mod 64 = 27" by (auto simp: op opnums nat_eq_iff)
  then show "patched_word w \<noteq> w \<longleftrightarrow> ?c mod 64 = 27" using patched_word_changed by (auto simp: patched_word_def)
  have pl: "length ?xs = ?p" using assms(2) by simp
  obtain f1 where f1: "luaK_setlist fs base n tostore = Inr f1" "jpc f1 = NO_JUMP" "fpc f1 = ?p + 2" "fcode f1 = (?xs @ [?S, w]) @ drop (?p + 2) (fcode fs)"
    using setlist_long [OF assms(1,2) _ assms(4)] assms(3) unfolding w_def by auto
  let ?f2 = "f1\<lparr>fcode := (?xs @ [?S]) @ w # ?J # drop (?p + 3) (fcode fs), flineinfo := put (flineinfo f1) (?p + 2) (lastline f1), fpc := ?p + 3\<rparr>"
  have "put (fcode f1) (?p + 2) ?J = (?xs @ [?S]) @ w # ?J # drop (?p + 3) (fcode fs)"
    using put_app [of "?xs @ [?S, w]" "?p + 2"] pl f1(4) by (simp add: numeral_3_eq_3)
  moreover have "f1\<lparr>jpc := NO_JUMP\<rparr> = f1" using f1(2) by simp
  ultimately have f2: "luaK_jump f1 = Inr (int (?p + 2), ?f2)"
    using assms(3) f1(2,3) by (simp add: luaK_jump_def luaK_codeAsBx_def luaK_codeABx_def luaK_concat_def code_none)
  let ?f3 = "?f2\<lparr>lasttarget := int (?p + 3), jpc := int (?p + 2)\<rparr>"
  have f3: "luaK_patchtohere ?f2 (int (?p + 2)) = Inr ?f3"
    using f1(2) by (simp add: luaK_patchtohere_def luaK_getlabel_def luaK_concat_def NO_JUMP_def)
  have d: "dischargejpc ?f3 = (if NUM_OPCODES \<le> GET_OPCODE w then Inl (CFault ReadOOB)
    else Inr (?f3\<lparr>fcode := (?xs @ [?S]) @ patched_word w # CREATE_ABx (opnum OP_JMP) 0 MAXARG_sBx # drop (?p + 3) (fcode fs), jpc := NO_JUMP\<rparr>))"
    by (rule discharge_behind_word) (use pl in simp_all)
  have pu: "put ((?xs @ [?S]) @ v # J # drop (?p + 3) (fcode fs)) (?p + 3) i = ?xs @ [?S, v, J, i] @ drop (?p + 4) (fcode fs)" for v J
    using put_app [of "?xs @ [?S, v, J]" "?p + 3" "drop (?p + 3) (fcode fs)"] pl by (simp add: add.commute)
  have k: "NUM_OPCODES \<le> GET_OPCODE w \<longleftrightarrow> 38 \<le> ?c mod 64" by (simp add: op NUM_OPCODES_def le_nat_iff)
  show "map_sum id fcode (long_list fs base n tostore i) =
      (if 38 \<le> ?c mod 64 then Inl (CFault ReadOOB)
       else Inr (?xs @ [?S, patched_word w, CREATE_ABx (opnum OP_JMP) 0 MAXARG_sBx, i] @ drop (?p + 4) (fcode fs)))"
    unfolding long_list_def f1(1) sbind_Inr f2 prod.case f3 luaK_code_def d k using assms(3) pu by simp
qed

theorem long_list_count_witness:
  "map_sum id fcode (long_list (jump_code\<lparr>fcode := [], fpc := 0\<rparr>) 0 26901 1 (CREATE_ABC (opnum OP_RETURN) 0 1 0)) =
      Inr [CREATE_ABC (opnum OP_SETLIST) 0 1 0, 26, CREATE_ABx (opnum OP_JMP) 0 MAXARG_sBx, CREATE_ABC (opnum OP_RETURN) 0 1 0]
    \<and> block_word 26901 = 539
    \<and> map_sum id fcode (long_list (jump_code\<lparr>fcode := [], fpc := 0\<rparr>) 0 27451 1 (CREATE_ABC (opnum OP_RETURN) 0 1 0)) = Inl (CFault ReadOOB)"
proof -
  let ?fs = "jump_code\<lparr>fcode := [], fpc := 0\<rparr>"
  have "patched_word (block_word 26901) = 26" "block_word 26901 = 539" by code_simp+
  moreover have fs: "jpc ?fs = NO_JUMP" "fpc ?fs \<le> length (fcode ?fs)" "int (fpc ?fs) + 3 < MAX_INT"
    by (simp_all add: jump_code_def NO_JUMP_def MAX_INT_def int_max_def)
  ultimately show ?thesis
    using long_list_count [OF fs, of 26901 0 1] long_list_count [OF fs, of 27451 0 1] by (simp add: LUA_MULTRET_def)
qed

end
