(* ===== verification/TabLib.thy ===== *)
theory TabLib
  imports LObject
begin

text \<open>
  The table library, \<open>ltablib.c\<close>. A table is used through \<open>lua_rawgeti\<close> (\<open>get\<close>), \<open>lua_rawseti\<close>
  (\<open>seti\<close>) and \<open>luaL_getn\<close> (\<open>len\<close>), which are arguments here; the comparison and the functions
  called for each element are arguments too. The values on the Lua stack are bound variables.
\<close>

type_synonym 't getter = "'t \<Rightarrow> int \<Rightarrow> TValue lres"
type_synonym 't setter = "'t \<Rightarrow> int \<Rightarrow> TValue \<Rightarrow> 't lres"

section \<open>Insertion, removal, concatenation\<close>

text \<open>The loop \<open>for (i = e; i > pos; i--) t[i] = t[i-1]\<close>.\<close>

function move_up :: "'t getter \<Rightarrow> 't setter \<Rightarrow> 't \<Rightarrow> int \<Rightarrow> int \<Rightarrow> 't lres" where
  "move_up get seti t i pos =
    (if i > pos then
       sbind (get t (i - 1)) (\<lambda>v. sbind (seti t i v) (\<lambda>t. move_up get seti t (i - 1) pos))
     else Inr t)"
  by pat_completeness auto
termination by (relation "measure (\<lambda>(get, seti, t, i, pos). nat (i - pos))") auto

declare move_up.simps [simp del]

text \<open>The arguments after the table: \<open>[v]\<close> or \<open>[pos, v]\<close>, the position already an integer.\<close>

datatype insert_args = InsertEnd TValue | InsertAt int TValue | InsertOther

definition tinsert :: "'t getter \<Rightarrow> 't setter \<Rightarrow> ('t \<Rightarrow> int lres) \<Rightarrow> 't \<Rightarrow> insert_args \<Rightarrow> 't lres" where
  "tinsert get seti len t args =
    sbind (len t) (\<lambda>n.
    sbind (lift (chk32 (n + 1))) (\<lambda>e.
    case args of
      InsertEnd v \<Rightarrow> seti t e v
    | InsertAt pos v \<Rightarrow>
        (let e = (if pos > e then pos else e) in
         sbind (move_up get seti t e pos) (\<lambda>t. seti t pos v))
    | InsertOther \<Rightarrow> raise (''wrong number of arguments to '' @ [CHR 0x27] @ ''insert'' @ [CHR 0x27])))"

text \<open>The loop \<open>for ( ; pos < e; pos++) t[pos] = t[pos+1]\<close>.\<close>

function move_down :: "'t getter \<Rightarrow> 't setter \<Rightarrow> 't \<Rightarrow> int \<Rightarrow> int \<Rightarrow> 't lres" where
  "move_down get seti t pos e =
    (if pos < e then
       sbind (get t (pos + 1)) (\<lambda>v. sbind (seti t pos v) (\<lambda>t. move_down get seti t (pos + 1) e))
     else Inr t)"
  by pat_completeness auto
termination by (relation "measure (\<lambda>(get, seti, t, pos, e). nat (e - pos))") auto

declare move_down.simps [simp del]

text \<open>The position is optional; the value removed is the result, if there is one.\<close>

definition tremove :: "'t getter \<Rightarrow> 't setter \<Rightarrow> ('t \<Rightarrow> int lres) \<Rightarrow> 't \<Rightarrow> int option \<Rightarrow> (TValue option \<times> 't) lres" where
  "tremove get seti len t opt_pos =
    sbind (len t) (\<lambda>e.
    let pos = (case opt_pos of None \<Rightarrow> e | Some p \<Rightarrow> p) in
    if \<not> (1 \<le> pos \<and> pos \<le> e) then Inr (None, t)
    else
      sbind (get t pos) (\<lambda>v.
      sbind (move_down get seti t pos e) (\<lambda>t.
      sbind (seti t e Nil) (\<lambda>t. Inr (Some v, t)))))"

definition lua_typename :: "TValue \<Rightarrow> string" where
  "lua_typename v = (case v of
      Nil \<Rightarrow> ''nil'' | Boolean _ \<Rightarrow> ''boolean'' | LightUD _ \<Rightarrow> ''userdata'' | Number _ \<Rightarrow> ''number''
    | Collectable (StrRef _) \<Rightarrow> ''string'' | Collectable (ObjRef TTable _) \<Rightarrow> ''table''
    | Collectable (ObjRef TFunction _) \<Rightarrow> ''function'' | Collectable (ObjRef TUserdata _) \<Rightarrow> ''userdata''
    | Collectable (ObjRef TThread _) \<Rightarrow> ''thread'' | DeadKey _ \<Rightarrow> ''no value'')"

definition dec_string :: "int \<Rightarrow> string" where
  "dec_string i = map (\<lambda>b. char_of (unat b)) (dec i)"

text \<open>\<open>num\<close> is the conversion of a number to a string.\<close>

definition addfield :: "(lnum \<Rightarrow> bytes) \<Rightarrow> 't getter \<Rightarrow> 't \<Rightarrow> bytes \<Rightarrow> int \<Rightarrow> bytes lres" where
  "addfield num get t b i =
    sbind (get t i) (\<lambda>v. case v of
      Collectable (StrRef s) \<Rightarrow> Inr (b @ s)
    | Number n \<Rightarrow> Inr (b @ num n)
    | _ \<Rightarrow> raise (''invalid value ('' @ lua_typename v @ '') at index '' @ dec_string i @ '' in table for ''
              @ [CHR 0x27] @ ''concat'' @ [CHR 0x27]))"

function concat_loop :: "(lnum \<Rightarrow> bytes) \<Rightarrow> 't getter \<Rightarrow> 't \<Rightarrow> bytes \<Rightarrow> bytes \<Rightarrow> int \<Rightarrow> int \<Rightarrow> bytes lres" where
  "concat_loop num get t sep b i last_i =
    (if i < last_i then
       sbind (addfield num get t b i) (\<lambda>b. concat_loop num get t sep (b @ sep) (i + 1) last_i)
     else if i = last_i then addfield num get t b i
     else Inr b)"
  by pat_completeness auto
termination by (relation "measure (\<lambda>(num, get, t, sep, b, i, last_i). nat (last_i - i))") auto

declare concat_loop.simps [simp del]

definition tconcat :: "(lnum \<Rightarrow> bytes) \<Rightarrow> 't getter \<Rightarrow> ('t \<Rightarrow> int lres) \<Rightarrow> 't \<Rightarrow> bytes option \<Rightarrow> int option \<Rightarrow> int option \<Rightarrow> bytes lres" where
  "tconcat num get len t sep i last_i =
    sbind (case last_i of Some j \<Rightarrow> Inr j | None \<Rightarrow> len t) (\<lambda>last_i.
      concat_loop num get t (case sep of Some s \<Rightarrow> s | None \<Rightarrow> []) [] (case i of Some i \<Rightarrow> i | None \<Rightarrow> 1) last_i)"

section \<open>Calls for each element\<close>

text \<open>The function called may change the table.\<close>

function foreachi_loop :: "'t getter \<Rightarrow> ('t \<Rightarrow> int \<Rightarrow> TValue \<Rightarrow> (TValue \<times> 't) lres) \<Rightarrow> 't \<Rightarrow> int \<Rightarrow> int \<Rightarrow> (TValue option \<times> 't) lres" where
  "foreachi_loop get f t i n =
    (if i \<le> n then
       sbind (get t i) (\<lambda>v.
       sbind (f t i v) (\<lambda>(r, t).
         if r \<noteq> Nil then Inr (Some r, t) else foreachi_loop get f t (i + 1) n))
     else Inr (None, t))"
  by pat_completeness auto
termination by (relation "measure (\<lambda>(get, f, t, i, n). nat (n + 1 - i))") auto

declare foreachi_loop.simps [simp del]

definition foreachi :: "'t getter \<Rightarrow> ('t \<Rightarrow> int lres) \<Rightarrow> ('t \<Rightarrow> int \<Rightarrow> TValue \<Rightarrow> (TValue \<times> 't) lres) \<Rightarrow> 't \<Rightarrow> (TValue option \<times> 't) lres" where
  "foreachi get len f t = sbind (len t) (\<lambda>n. foreachi_loop get f t 1 n)"

text \<open>The loops over \<open>lua_next\<close> (\<open>nx\<close>) may not end when the function called changes the table: they have fuel.\<close>

fun foreach_loop :: "nat \<Rightarrow> ('t \<Rightarrow> TValue \<Rightarrow> (TValue \<times> TValue) option lres) \<Rightarrow> ('t \<Rightarrow> TValue \<Rightarrow> TValue \<Rightarrow> (TValue \<times> 't) lres)
    \<Rightarrow> 't \<Rightarrow> TValue \<Rightarrow> (TValue option \<times> 't) lres" where
  "foreach_loop 0 nx f t key = Inl (CFault Diverge)"
| "foreach_loop (Suc d) nx f t key =
    sbind (nx t key) (\<lambda>p. case p of
      None \<Rightarrow> Inr (None, t)
    | Some (k, v) \<Rightarrow>
        sbind (f t k v) (\<lambda>(r, t). if r \<noteq> Nil then Inr (Some r, t) else foreach_loop d nx f t k))"

fun maxn_loop :: "nat \<Rightarrow> (lnum \<Rightarrow> lnum \<Rightarrow> bool) \<Rightarrow> ('t \<Rightarrow> TValue \<Rightarrow> (TValue \<times> TValue) option lres) \<Rightarrow> 't \<Rightarrow> TValue \<Rightarrow> lnum \<Rightarrow> lnum lres" where
  "maxn_loop 0 gt nx t key m = Inl (CFault Diverge)"
| "maxn_loop (Suc d) gt nx t key m =
    sbind (nx t key) (\<lambda>p. case p of
      None \<Rightarrow> Inr m
    | Some (k, v) \<Rightarrow> maxn_loop d gt nx t k (case k of Number n \<Rightarrow> if gt n m then n else m | _ \<Rightarrow> m))"

definition maxn :: "nat \<Rightarrow> (lnum \<Rightarrow> lnum \<Rightarrow> bool) \<Rightarrow> ('t \<Rightarrow> TValue \<Rightarrow> (TValue \<times> TValue) option lres) \<Rightarrow> 't \<Rightarrow> lnum lres" where
  "maxn d gt nx t = maxn_loop d gt nx t Nil (Nint 0)"

section \<open>Sorting\<close>

type_synonym order = "TValue \<Rightarrow> TValue \<Rightarrow> bool lres"

text \<open>\<open>t[i] = v\<close> and \<open>t[j] = w\<close>, where \<open>w\<close> is below \<open>v\<close> on the stack.\<close>

definition set2 :: "'t setter \<Rightarrow> 't \<Rightarrow> int \<Rightarrow> int \<Rightarrow> TValue \<Rightarrow> TValue \<Rightarrow> 't lres" where
  "set2 seti t i j v w = sbind (seti t i v) (\<lambda>t. seti t j w)"

text \<open>\<open>while (lua_rawgeti(L, 1, ++i), sort_comp(L, -1, -2))\<close> and its mirror image.\<close>

function scan_up :: "'t getter \<Rightarrow> order \<Rightarrow> 't \<Rightarrow> TValue \<Rightarrow> int \<Rightarrow> int \<Rightarrow> (int \<times> TValue) lres" where
  "scan_up get lt t p u i =
    (let i' = i + 1 in
     sbind (get t i') (\<lambda>v.
     sbind (lt v p) (\<lambda>b.
     if b then if i' > u then raise ''invalid order function for sorting'' else scan_up get lt t p u i'
     else Inr (i', v))))"
  by pat_completeness auto
termination by (relation "measure (\<lambda>(get, lt, t, p, u, i). nat (u + 1 - i))") auto

function scan_down :: "'t getter \<Rightarrow> order \<Rightarrow> 't \<Rightarrow> TValue \<Rightarrow> int \<Rightarrow> int \<Rightarrow> (int \<times> TValue) lres" where
  "scan_down get lt t p l j =
    (let j' = j - 1 in
     sbind (get t j') (\<lambda>v.
     sbind (lt p v) (\<lambda>b.
     if b then if j' < l then raise ''invalid order function for sorting'' else scan_down get lt t p l j'
     else Inr (j', v))))"
  by pat_completeness auto
termination by (relation "measure (\<lambda>(get, lt, t, p, l, j). nat (j + 1 - l))") auto

declare scan_up.simps [simp del] scan_down.simps [simp del]

text \<open>The loop that splits the interval; the fuel is the distance of the two indices.\<close>

fun split_loop :: "nat \<Rightarrow> 't getter \<Rightarrow> 't setter \<Rightarrow> order \<Rightarrow> TValue \<Rightarrow> int \<Rightarrow> int \<Rightarrow> 't \<Rightarrow> int \<Rightarrow> int \<Rightarrow> (int \<times> int \<times> 't) lres" where
  "split_loop 0 get seti lt p l u t i j = Inl (CFault Diverge)"
| "split_loop (Suc d) get seti lt p l u t i j =
    sbind (scan_up get lt t p u i) (\<lambda>(i, vi).
    sbind (scan_down get lt t p l j) (\<lambda>(j, vj).
    if j < i then Inr (i, j, t)
    else sbind (set2 seti t i j vj vi) (\<lambda>t. split_loop d get seti lt p l u t i j)))"

text \<open>The body up to the split: \<open>a[l]\<close>, \<open>a[i]\<close> and \<open>a[u]\<close> put in order.\<close>

definition order_ends :: "'t getter \<Rightarrow> 't setter \<Rightarrow> order \<Rightarrow> 't \<Rightarrow> int \<Rightarrow> int \<Rightarrow> 't lres" where
  "order_ends get seti lt t l u =
    sbind (get t l) (\<lambda>al. sbind (get t u) (\<lambda>au.
    sbind (lt au al) (\<lambda>b. if b then set2 seti t l u au al else Inr t)))"

definition order_middle :: "'t getter \<Rightarrow> 't setter \<Rightarrow> order \<Rightarrow> 't \<Rightarrow> int \<Rightarrow> int \<Rightarrow> int \<Rightarrow> 't lres" where
  "order_middle get seti lt t l i u =
    sbind (get t i) (\<lambda>ai. sbind (get t l) (\<lambda>al.
    sbind (lt ai al) (\<lambda>b.
    if b then set2 seti t i l al ai
    else
      sbind (get t u) (\<lambda>au.
      sbind (lt au ai) (\<lambda>b. if b then set2 seti t i u au ai else Inr t)))))"

text \<open>
  \<open>auxsort\<close>; its loop and its recursive call share the fuel, since with a comparison that is no
  order it need not end.
\<close>

fun auxsort :: "nat \<Rightarrow> 't getter \<Rightarrow> 't setter \<Rightarrow> order \<Rightarrow> 't \<Rightarrow> int \<Rightarrow> int \<Rightarrow> 't lres" where
  "auxsort 0 get seti lt t l u = Inl (CFault Diverge)"
| "auxsort (Suc d) get seti lt t l u =
    (if l < u then
       sbind (order_ends get seti lt t l u) (\<lambda>t.
       if u - l = 1 then Inr t
       else
         sbind (lift (chk32 (l + u))) (\<lambda>lu.
         let i = lu div 2 in
         sbind (order_middle get seti lt t l i u) (\<lambda>t.
         if u - l = 2 then Inr t
         else
           sbind (get t i) (\<lambda>p.
           sbind (get t (u - 1)) (\<lambda>v.
           sbind (set2 seti t i (u - 1) v p) (\<lambda>t.
           sbind (split_loop (nat (u - l) + 2) get seti lt p l u t l (u - 1)) (\<lambda>(i, j, t).
           sbind (get t (u - 1)) (\<lambda>w.
           sbind (get t i) (\<lambda>v.
           sbind (set2 seti t (u - 1) i v w) (\<lambda>t.
           let (j, i, l, u) = (if i - l < u - i then (l, i - 1, i + 1, u) else (i + 1, u, l, i - 1)) in
           sbind (auxsort d get seti lt t j i) (\<lambda>t. auxsort d get seti lt t l u)))))))))))
     else Inr t)"

definition sort_table :: "'t getter \<Rightarrow> 't setter \<Rightarrow> ('t \<Rightarrow> int lres) \<Rightarrow> order \<Rightarrow> nat \<Rightarrow> 't \<Rightarrow> 't lres" where
  "sort_table get seti len lt d t = sbind (len t) (\<lambda>n. auxsort d get seti lt t 1 n)"

end
