(* ===== verification/TabLibProps.thy ===== *)
theory TabLibProps
  imports TabLib
begin

text \<open>
  The table library over any table that keeps the contract \<open>int_table\<close>: sorting by a strict weak
  order sorts, and insertion and removal shift the elements.
\<close>

section \<open>Rearrangements\<close>

text \<open>\<open>g\<close> is \<open>f\<close> rearranged inside an interval.\<close>

definition perm_on :: "int \<Rightarrow> int \<Rightarrow> (int \<Rightarrow> 'a) \<Rightarrow> (int \<Rightarrow> 'a) \<Rightarrow> bool" where
  "perm_on l u f g = (\<exists>p. bij p \<and> (\<forall>i. \<not> (l \<le> i \<and> i \<le> u) \<longrightarrow> p i = i) \<and> g = f \<circ> p)"

lemma perm_on_refl: "perm_on l u f f"
  unfolding perm_on_def by (rule exI [of _ id]) simp

lemma perm_on_trans: "perm_on l u f g \<Longrightarrow> perm_on l u g h \<Longrightarrow> perm_on l u f h"
proof -
  assume "perm_on l u f g" "perm_on l u g h"
  then obtain p q where "bij p" "\<forall>i. \<not> (l \<le> i \<and> i \<le> u) \<longrightarrow> p i = i" "g = f \<circ> p"
    "bij q" "\<forall>i. \<not> (l \<le> i \<and> i \<le> u) \<longrightarrow> q i = i" "h = g \<circ> q" by (auto simp: perm_on_def)
  then show ?thesis unfolding perm_on_def by (intro exI [of _ "p \<circ> q"]) (auto simp: bij_comp o_assoc)
qed

lemma perm_on_mono: "perm_on l u f g \<Longrightarrow> l' \<le> l \<Longrightarrow> u \<le> u' \<Longrightarrow> perm_on l' u' f g"
  unfolding perm_on_def by (elim exE conjE, rule exI) auto

lemma perm_on_out: "perm_on l u f g \<Longrightarrow> \<not> (l \<le> i \<and> i \<le> u) \<Longrightarrow> g i = f i"
  by (auto simp: perm_on_def)

lemma perm_on_in: "perm_on l u f g \<Longrightarrow> l \<le> k \<Longrightarrow> k \<le> u \<Longrightarrow> \<exists>m. l \<le> m \<and> m \<le> u \<and> g k = f m"
proof -
  assume "perm_on l u f g" and k: "l \<le> k" "k \<le> u"
  then obtain p where p: "bij p" "\<forall>i. \<not> (l \<le> i \<and> i \<le> u) \<longrightarrow> p i = i" "g = f \<circ> p" by (auto simp: perm_on_def)
  have "l \<le> p k \<and> p k \<le> u"
  proof (rule ccontr)
    assume "\<not> (l \<le> p k \<and> p k \<le> u)"
    then have "p (p k) = p k" using p(2) by blast
    then have "p k = k" using p(1) by (metis bij_pointE)
    then show False using k \<open>\<not> (l \<le> p k \<and> p k \<le> u)\<close> by simp
  qed
  then show ?thesis using p(3) by auto
qed

lemma perm_on_swap:
  assumes "l \<le> i" "i \<le> u" "l \<le> j" "j \<le> u"
  shows "perm_on l u f (f(i := f j, j := f i))"
proof -
  let ?p = "id(i := j, j := i)"
  have "?p \<circ> ?p = id" by (rule ext) simp
  then have "bij ?p" using o_bij by blast
  moreover have "f(i := f j, j := f i) = f \<circ> ?p" by (rule ext) simp
  ultimately show ?thesis using assms unfolding perm_on_def by (intro exI [of _ ?p]) auto
qed

section \<open>Orders\<close>

definition strict_weak :: "('a \<Rightarrow> 'a \<Rightarrow> bool) \<Rightarrow> 'a set \<Rightarrow> bool" where
  "strict_weak lss W \<longleftrightarrow> (\<forall>x \<in> W. \<forall>y \<in> W. lss x y \<longrightarrow> \<not> lss y x)
    \<and> (\<forall>x \<in> W. \<forall>y \<in> W. \<forall>z \<in> W. \<not> lss y x \<longrightarrow> \<not> lss z y \<longrightarrow> \<not> lss z x)"

lemma strict_weak_asym: "strict_weak lss W \<Longrightarrow> x \<in> W \<Longrightarrow> y \<in> W \<Longrightarrow> lss x y \<Longrightarrow> \<not> lss y x"
  unfolding strict_weak_def by blast

lemma strict_weak_irrefl: "strict_weak lss W \<Longrightarrow> x \<in> W \<Longrightarrow> \<not> lss x x"
  using strict_weak_asym by metis

lemma strict_weak_trans:
  "strict_weak lss W \<Longrightarrow> x \<in> W \<Longrightarrow> y \<in> W \<Longrightarrow> z \<in> W \<Longrightarrow> \<not> lss y x \<Longrightarrow> \<not> lss z y \<Longrightarrow> \<not> lss z x"
  unfolding strict_weak_def by blast

definition ordered_on :: "('a \<Rightarrow> 'a \<Rightarrow> bool) \<Rightarrow> int \<Rightarrow> int \<Rightarrow> (int \<Rightarrow> 'a) \<Rightarrow> bool" where
  "ordered_on lss l u f = (\<forall>i j. l \<le> i \<longrightarrow> i \<le> j \<longrightarrow> j \<le> u \<longrightarrow> \<not> lss (f j) (f i))"

definition vals_in :: "'a set \<Rightarrow> int \<Rightarrow> int \<Rightarrow> (int \<Rightarrow> 'a) \<Rightarrow> bool" where
  "vals_in W l u f = (\<forall>k. l \<le> k \<longrightarrow> k \<le> u \<longrightarrow> f k \<in> W)"

lemma vals_inD: "vals_in W l u f \<Longrightarrow> l \<le> k \<Longrightarrow> k \<le> u \<Longrightarrow> f k \<in> W"
  by (simp add: vals_in_def)

lemma vals_in_perm: "vals_in W l u f \<Longrightarrow> perm_on l u f g \<Longrightarrow> vals_in W l u g"
  unfolding vals_in_def using perm_on_in by metis

lemma ordered_join:
  assumes w: "strict_weak lss W" "vals_in W l u f" and i: "l \<le> i" "i \<le> u"
    and o: "ordered_on lss l (i - 1) f" "ordered_on lss (i + 1) u f"
    and p: "\<And>k. l \<le> k \<Longrightarrow> k < i \<Longrightarrow> \<not> lss (f i) (f k)" "\<And>k. i < k \<Longrightarrow> k \<le> u \<Longrightarrow> \<not> lss (f k) (f i)"
  shows "ordered_on lss l u f"
  unfolding ordered_on_def
proof (intro allI impI)
  fix x y
  assume xy: "l \<le> x" "x \<le> y" "y \<le> u"
  have W: "f x \<in> W" "f y \<in> W" "f i \<in> W" using vals_inD [OF w(2)] xy i by auto
  consider "y < i" | "i < x" | "x = y" | "x < i" "y = i" | "x = i" "i < y" | "x < i" "i < y" using xy by linarith
  then show "\<not> lss (f y) (f x)"
  proof cases
    case 1 then show ?thesis using o(1) xy by (simp add: ordered_on_def)
  next
    case 2 then show ?thesis using o(2) xy by (simp add: ordered_on_def)
  next
    case 3 then show ?thesis using strict_weak_irrefl [OF w(1)] W by simp
  next
    case 4 then show ?thesis using p(1) xy by simp
  next
    case 5 then show ?thesis using p(2) xy by simp
  next
    case 6 then show ?thesis using strict_weak_trans [OF w(1) W(1,3,2)] p xy by simp
  qed
qed

lemma vals_in_sub: "vals_in W l u f \<Longrightarrow> l \<le> l' \<Longrightarrow> u' \<le> u \<Longrightarrow> vals_in W l' u' f"
  by (simp add: vals_in_def)

lemma ordered_on_cong: "ordered_on lss l u f \<Longrightarrow> \<forall>k. l \<le> k \<longrightarrow> k \<le> u \<longrightarrow> g k = f k \<Longrightarrow> ordered_on lss l u g"
  by (simp add: ordered_on_def)

lemma ordered_le1: "strict_weak lss W \<Longrightarrow> vals_in W l u f \<Longrightarrow> u \<le> l \<Longrightarrow> ordered_on lss l u f"
  unfolding ordered_on_def vals_in_def using strict_weak_irrefl [of lss W] by (metis order_antisym order_trans)

text \<open>What is left after the split: an element in its place, and the two sides rearranged apart from each other.\<close>

lemma ordered_sides:
  assumes sw: "strict_weak lss W" and W: "vals_in W l u f" and i: "l \<le> i" "i \<le> u"
    and sides: "\<forall>k. l \<le> k \<longrightarrow> k < i \<longrightarrow> \<not> lss (f i) (f k)" "\<forall>k. i < k \<longrightarrow> k \<le> u \<longrightarrow> \<not> lss (f k) (f i)"
    and perm: "perm_on l (i - 1) f g \<and> perm_on (i + 1) u g h \<or> perm_on (i + 1) u f g \<and> perm_on l (i - 1) g h"
    and o: "ordered_on lss l (i - 1) h" "ordered_on lss (i + 1) u h"
  shows "ordered_on lss l u h \<and> perm_on l u f h"
proof -
  have ends: "l \<le> l" "i - 1 \<le> u" "l \<le> i + 1" "u \<le> u" using i by auto
  have P: "perm_on l u f h" using perm perm_on_mono [OF _ ends(1,2)] perm_on_mono [OF _ ends(3,4)] perm_on_trans by metis
  have below: "\<exists>m. l \<le> m \<and> m < i \<and> h k = f m" if k: "l \<le> k" "k < i" for k
    using perm
  proof
    assume a: "perm_on l (i - 1) f g \<and> perm_on (i + 1) u g h"
    show ?thesis using perm_on_in [OF conjunct1 [OF a], of k] perm_on_out [OF conjunct2 [OF a], of k] k by auto
  next
    assume a: "perm_on (i + 1) u f g \<and> perm_on l (i - 1) g h"
    obtain m where m: "l \<le> m" "m < i" "h k = g m" using perm_on_in [OF conjunct2 [OF a], of k] k by auto
    show ?thesis using perm_on_out [OF conjunct1 [OF a], of m] m by auto
  qed
  have above: "\<exists>m. i < m \<and> m \<le> u \<and> h k = f m" if k: "i < k" "k \<le> u" for k
    using perm
  proof
    assume a: "perm_on l (i - 1) f g \<and> perm_on (i + 1) u g h"
    obtain m where m: "i + 1 \<le> m" "m \<le> u" "h k = g m" using perm_on_in [OF conjunct2 [OF a], of k] k by auto
    show ?thesis using perm_on_out [OF conjunct1 [OF a], of m] m by (intro exI [of _ m]) auto
  next
    assume a: "perm_on (i + 1) u f g \<and> perm_on l (i - 1) g h"
    obtain m where m: "i + 1 \<le> m" "m \<le> u" "g k = f m" using perm_on_in [OF conjunct1 [OF a], of k] k by auto
    show ?thesis using perm_on_out [OF conjunct2 [OF a], of k] k m by (intro exI [of _ m]) auto
  qed
  have mid: "h i = f i" using perm perm_on_out [of l "i - 1" _ _ i] perm_on_out [of "i + 1" u _ _ i] by (metis add_le_same_cancel1 le_diff_eq not_one_le_zero)
  have "ordered_on lss l u h"
  proof (rule ordered_join [OF sw vals_in_perm [OF W P] i o])
    show "\<not> lss (h i) (h k)" if "l \<le> k" "k < i" for k using below [OF that] sides(1) mid by auto
    show "\<not> lss (h k) (h i)" if "i < k" "k \<le> u" for k using above [OF that] sides(2) mid by auto
  qed
  then show ?thesis using P by simp
qed

section \<open>Lists\<close>

text \<open>A list of length \<open>n\<close> with \<open>v\<close> put in at a position, and with a position taken out.\<close>

definition put_at :: "int \<Rightarrow> int \<Rightarrow> TValue \<Rightarrow> (int \<Rightarrow> TValue) \<Rightarrow> int \<Rightarrow> TValue" where
  "put_at n pos v f = (\<lambda>k. if k = pos then v else if pos < k \<and> k \<le> n + 1 then f (k - 1) else f k)"

definition take_at :: "int \<Rightarrow> int \<Rightarrow> (int \<Rightarrow> TValue) \<Rightarrow> int \<Rightarrow> TValue" where
  "take_at n pos f = (\<lambda>k. if k = n then Nil else if pos \<le> k \<and> k < n then f (k + 1) else f k)"

lemma take_put_at: "1 \<le> pos \<Longrightarrow> pos \<le> n + 1 \<Longrightarrow> f (n + 1) = Nil \<Longrightarrow> take_at (n + 1) pos (put_at n pos v f) = f"
  by (auto simp: take_at_def put_at_def fun_eq_iff)

section \<open>The contract\<close>

text \<open>
  What the library relies on: reading gives the value at an index; writing updates it and succeeds
  where there is a value already.
\<close>

locale int_table =
  fixes get :: "'t getter" and seti :: "'t setter" and inv :: "'t \<Rightarrow> bool" and val :: "'t \<Rightarrow> int \<Rightarrow> TValue" and hi :: int
  assumes get_val: "inv t \<Longrightarrow> 0 < i \<Longrightarrow> i \<le> hi \<Longrightarrow> get t i = Inr (val t i)"
    and set_any: "inv t \<Longrightarrow> 0 < i \<Longrightarrow> i \<le> hi \<Longrightarrow>
      seti t i v = raise ''table overflow'' \<or> (\<exists>t'. seti t i v = Inr t' \<and> inv t' \<and> val t' = (val t)(i := v))"
    and set_present: "inv t \<Longrightarrow> 0 < i \<Longrightarrow> i \<le> hi \<Longrightarrow> val t i \<noteq> Nil \<Longrightarrow>
      \<exists>t'. seti t i v = Inr t' \<and> inv t' \<and> val t' = (val t)(i := v)"
    and hi_small: "hi \<le> 2 ^ 30"
begin

lemma set2_swap:
  assumes "inv t" "0 < i" "i \<le> hi" "0 < j" "j \<le> hi" "val t i \<noteq> Nil" "val t j \<noteq> Nil"
  shows "\<exists>t'. set2 seti t i j (val t j) (val t i) = Inr t' \<and> inv t' \<and> val t' = (val t)(i := val t j, j := val t i)"
proof -
  obtain t1 where 1: "seti t i (val t j) = Inr t1" "inv t1" "val t1 = (val t)(i := val t j)"
    using set_present assms(1-3,6) by blast
  then have "val t1 j \<noteq> Nil" using assms(7) by simp
  then obtain t2 where 2: "seti t1 j (val t i) = Inr t2" "inv t2" "val t2 = (val t1)(j := val t i)"
    using set_present 1(2) assms(4,5) by blast
  show ?thesis using 1 2 by (simp add: set2_def)
qed

lemma scan_up_spec:
  assumes lt: "\<And>x y. x \<in> W \<Longrightarrow> y \<in> W \<Longrightarrow> lt x y = Inr (lss x y)" and t: "inv t" and p: "p \<in> W" and u: "u \<le> hi"
  shows "0 \<le> i \<Longrightarrow> i < k \<Longrightarrow> k \<le> u \<Longrightarrow> vals_in W (i + 1) k (val t) \<Longrightarrow> \<not> lss (val t k) p \<Longrightarrow>
    \<exists>i'. scan_up get lt t p u i = Inr (i', val t i') \<and> i < i' \<and> i' \<le> k \<and> \<not> lss (val t i') p
      \<and> (\<forall>m. i < m \<longrightarrow> m < i' \<longrightarrow> lss (val t m) p)"
proof (induction "nat (k - i)" arbitrary: i)
  case (Suc d)
  have g: "get t (i + 1) = Inr (val t (i + 1))" using get_val [OF t] Suc.prems u by simp
  have c: "lt (val t (i + 1)) p = Inr (lss (val t (i + 1)) p)" using lt p vals_inD [OF Suc.prems(4)] Suc.prems(2) by simp
  show ?case
  proof (cases "lss (val t (i + 1)) p")
    case False
    then show ?thesis using g c Suc.prems(2) by (intro exI [of _ "i + 1"]) (subst scan_up.simps, auto simp: Let_def)
  next
    case True
    then have k: "i + 1 < k" using Suc.prems(2,5) by (cases "k = i + 1") auto
    have "vals_in W (i + 1 + 1) k (val t)" using Suc.prems(4) by (simp add: vals_in_def)
    moreover have "d = nat (k - (i + 1))" "0 \<le> i + 1" using Suc(2) Suc.prems(1) by simp_all
    ultimately obtain i' where i': "scan_up get lt t p u (i + 1) = Inr (i', val t i')" "i + 1 < i'" "i' \<le> k"
      "\<not> lss (val t i') p" "\<forall>m. i + 1 < m \<longrightarrow> m < i' \<longrightarrow> lss (val t m) p"
      using Suc(1) [of "i + 1", OF _ _ k Suc.prems(3) _ Suc.prems(5)] by blast
    have "lss (val t m) p" if "i < m" "m < i'" for m
      using that True i'(5) by (cases "m = i + 1") auto
    then show ?thesis using g c True k Suc.prems(3) i'
      by (intro exI [of _ i']) (subst scan_up.simps, auto simp: Let_def)
  qed
qed simp

lemma scan_down_spec:
  assumes lt: "\<And>x y. x \<in> W \<Longrightarrow> y \<in> W \<Longrightarrow> lt x y = Inr (lss x y)" and t: "inv t" and p: "p \<in> W" and l: "0 < l"
  shows "j \<le> hi \<Longrightarrow> k < j \<Longrightarrow> l \<le> k \<Longrightarrow> vals_in W k (j - 1) (val t) \<Longrightarrow> \<not> lss p (val t k) \<Longrightarrow>
    \<exists>j'. scan_down get lt t p l j = Inr (j', val t j') \<and> k \<le> j' \<and> j' < j \<and> \<not> lss p (val t j')
      \<and> (\<forall>m. j' < m \<longrightarrow> m < j \<longrightarrow> lss p (val t m))"
proof (induction "nat (j - k)" arbitrary: j)
  case (Suc d)
  have g: "get t (j - 1) = Inr (val t (j - 1))" using get_val [OF t] Suc.prems l by simp
  have c: "lt p (val t (j - 1)) = Inr (lss p (val t (j - 1)))" using lt p vals_inD [OF Suc.prems(4)] Suc.prems(2) by simp
  show ?case
  proof (cases "lss p (val t (j - 1))")
    case False
    then show ?thesis using g c Suc.prems(2) by (intro exI [of _ "j - 1"]) (subst scan_down.simps, auto simp: Let_def)
  next
    case True
    then have k: "k < j - 1" using Suc.prems(2,5) by (cases "k = j - 1") auto
    have "vals_in W k (j - 1 - 1) (val t)" using Suc.prems(4) by (simp add: vals_in_def)
    moreover have "d = nat (j - 1 - k)" "j - 1 \<le> hi" using Suc(2) Suc.prems(1) by simp_all
    ultimately obtain j' where j': "scan_down get lt t p l (j - 1) = Inr (j', val t j')" "k \<le> j'" "j' < j - 1"
      "\<not> lss p (val t j')" "\<forall>m. j' < m \<longrightarrow> m < j - 1 \<longrightarrow> lss p (val t m)"
      using Suc(1) [of "j - 1", OF _ _ k Suc.prems(3) _ Suc.prems(5)] by blast
    have "lss p (val t m)" if "j' < m" "m < j" for m
      using that True j'(5) by (cases "m = j - 1") auto
    then show ?thesis using g c True k Suc.prems(3) j'
      by (intro exI [of _ j']) (subst scan_down.simps, auto simp: Let_def)
  qed
qed simp

text \<open>The exchange of two elements, and what it does to the interval around them.\<close>

lemma set2_perm:
  assumes t: "inv t" "0 < l" "u \<le> hi" and i: "l \<le> i" "i \<le> u" "l \<le> j" "j \<le> u"
    and W: "vals_in W l u (val t)" "Nil \<notin> W"
  shows "\<exists>t'. set2 seti t i j (val t j) (val t i) = Inr t' \<and> inv t' \<and> val t' = (val t)(i := val t j, j := val t i)
    \<and> perm_on l u (val t) (val t')"
proof -
  have "val t i \<noteq> Nil" "val t j \<noteq> Nil" using vals_inD [OF W(1)] W(2) i by metis+
  then obtain t' where "set2 seti t i j (val t j) (val t i) = Inr t'" "inv t'" "val t' = (val t)(i := val t j, j := val t i)"
    using set2_swap [OF t(1), of i j] t i by auto
  then show ?thesis using perm_on_swap [OF i] by metis
qed

lemma split_loop_spec:
  assumes lt: "\<And>x y. x \<in> W \<Longrightarrow> y \<in> W \<Longrightarrow> lt x y = Inr (lss x y)" and sw: "strict_weak lss W" and N: "Nil \<notin> W"
    and p: "p \<in> W" and l: "0 < l" and u: "u \<le> hi"
  shows "inv t \<Longrightarrow> vals_in W l u (val t) \<Longrightarrow> val t (u - 1) = p \<Longrightarrow> l \<le> i \<Longrightarrow> i \<le> j \<Longrightarrow> j \<le> u - 1 \<Longrightarrow> i < u - 1 \<Longrightarrow> l < j \<Longrightarrow>
    \<forall>k. l \<le> k \<longrightarrow> k \<le> i \<longrightarrow> \<not> lss p (val t k) \<Longrightarrow> \<forall>k. j \<le> k \<longrightarrow> k \<le> u \<longrightarrow> \<not> lss (val t k) p \<Longrightarrow> nat (j - i) < d \<Longrightarrow>
    \<exists>i' j' t'. split_loop d get seti lt p l u t i j = Inr (i', j', t') \<and> inv t' \<and> perm_on (l + 1) (u - 2) (val t) (val t')
      \<and> l < i' \<and> i' \<le> u - 1 \<and> (\<forall>k. l \<le> k \<longrightarrow> k < i' \<longrightarrow> \<not> lss p (val t' k)) \<and> (\<forall>k. i' \<le> k \<longrightarrow> k \<le> u \<longrightarrow> \<not> lss (val t' k) p)"
proof (induction d arbitrary: t i j)
  case (Suc d)
  note [simp] = Suc.prems(1)
  have irr: "\<not> lss p p" using strict_weak_irrefl [OF sw p] .
  have up: "vals_in W (i + 1) (u - 1) (val t)" "vals_in W l (j - 1) (val t)" using Suc.prems(2,4,6) by (auto simp: vals_in_def)
  obtain i' where i': "scan_up get lt t p u i = Inr (i', val t i')" "i < i'" "i' \<le> u - 1" "\<not> lss (val t i') p"
    "\<forall>m. i < m \<longrightarrow> m < i' \<longrightarrow> lss (val t m) p"
    using scan_up_spec [where lt = lt and lss = lss and i = i and k = "u - 1", OF lt Suc.prems(1) p u] up(1) irr Suc.prems(3,4,7) l by auto
  have "\<not> lss p (val t l)" using Suc.prems(4,9) by simp
  then obtain j' where j': "scan_down get lt t p l j = Inr (j', val t j')" "l \<le> j'" "j' < j" "\<not> lss p (val t j')"
    "\<forall>m. j' < m \<longrightarrow> m < j \<longrightarrow> lss p (val t m)"
    using scan_down_spec [where lt = lt and lss = lss and j = j and k = l, OF lt Suc.prems(1) p l] up(2) Suc.prems(6,8) u by auto
  have W: "val t k \<in> W" if "l \<le> k" "k \<le> u" for k using vals_inD [OF Suc.prems(2)] that .
  have low: "\<not> lss p (val t k)" if "l \<le> k" "k < i'" for k
    using strict_weak_asym [OF sw W p, of k] that i' Suc.prems(9) by (cases "k \<le> i") auto
  have high: "\<not> lss (val t k) p" if "j' < k" "k \<le> u" for k
    using strict_weak_asym [OF sw p W, of k] that j' Suc.prems(10) by (cases "j \<le> k") auto
  show ?case
  proof (cases "j' < i'")
    case True
    then show ?thesis using i' j' low high Suc.prems(4) perm_on_refl by (intro exI [of _ i'] exI [of _ j'] exI [of _ t]) auto
  next
    case False
    have b: "l + 1 \<le> i'" "i' \<le> u - 2" "l + 1 \<le> j'" "j' \<le> u - 2" using False i' j' Suc.prems(4,6) by linarith+
    have "vals_in W (l + 1) (u - 2) (val t)" using Suc.prems(2) by (simp add: vals_in_def)
    then obtain t1 where t1: "set2 seti t i' j' (val t j') (val t i') = Inr t1" "inv t1"
      "val t1 = (val t)(i' := val t j', j' := val t i')" "perm_on (l + 1) (u - 2) (val t) (val t1)"
      using set2_perm [OF Suc.prems(1) _ _ b] N l u by fastforce
    have P: "perm_on l u (val t) (val t1)" using perm_on_mono [OF t1(4)] by simp
    have "\<forall>k. l \<le> k \<longrightarrow> k \<le> i' \<longrightarrow> \<not> lss p (val t1 k)" using low j'(4) t1(3) False by (auto simp: order_le_less)
    moreover have "\<forall>k. j' \<le> k \<longrightarrow> k \<le> u \<longrightarrow> \<not> lss (val t1 k) p" using high i'(4) t1(3) False by (auto simp: order_le_less)
    moreover have "val t1 (u - 1) = p" using t1(3) b Suc.prems(3) by simp
    moreover have "nat (j' - i') < d" using Suc.prems(11) i'(2) j'(3) False by linarith
    ultimately obtain i2 j2 t2 where r: "split_loop d get seti lt p l u t1 i' j' = Inr (i2, j2, t2)" "inv t2"
      "perm_on (l + 1) (u - 2) (val t1) (val t2)" "l < i2" "i2 \<le> u - 1" "\<forall>k. l \<le> k \<longrightarrow> k < i2 \<longrightarrow> \<not> lss p (val t2 k)"
      "\<forall>k. i2 \<le> k \<longrightarrow> k \<le> u \<longrightarrow> \<not> lss (val t2 k) p"
      using Suc.IH [OF t1(2) vals_in_perm [OF Suc.prems(2) P], of i' j'] b False by auto
    then show ?thesis using i'(1) j'(1) t1(1) False perm_on_trans [OF t1(4) r(3)] by (intro exI [of _ i2] exI [of _ j2] exI [of _ t2]) simp
  qed
qed simp

lemma order_ends_spec:
  assumes lt: "\<And>x y. x \<in> W \<Longrightarrow> y \<in> W \<Longrightarrow> lt x y = Inr (lss x y)" and sw: "strict_weak lss W" and N: "Nil \<notin> W"
    and l: "0 < l" "l \<le> u" "u \<le> hi" and t: "inv t" "vals_in W l u (val t)"
  shows "\<exists>t'. order_ends get seti lt t l u = Inr t' \<and> inv t' \<and> perm_on l u (val t) (val t') \<and> \<not> lss (val t' u) (val t' l)"
proof -
  have W: "val t l \<in> W" "val t u \<in> W" using vals_inD [OF t(2)] l by auto
  have g: "get t l = Inr (val t l)" "get t u = Inr (val t u)" using get_val [OF t(1)] l by auto
  obtain t1 where "set2 seti t l u (val t u) (val t l) = Inr t1" "inv t1" "val t1 = (val t)(l := val t u, u := val t l)"
    "perm_on l u (val t) (val t1)" using set2_perm [OF t(1) l(1,3) _ _ _ _ t(2) N, of l u] l by auto
  then show ?thesis using g lt [OF W(2,1)] strict_weak_asym [OF sw W(2,1)] strict_weak_irrefl [OF sw W(1)] t(1) perm_on_refl
    by (cases "lss (val t u) (val t l)"; cases "l = u") (auto simp: order_ends_def)
qed

lemma order_middle_spec:
  assumes lt: "\<And>x y. x \<in> W \<Longrightarrow> y \<in> W \<Longrightarrow> lt x y = Inr (lss x y)" and sw: "strict_weak lss W" and N: "Nil \<notin> W"
    and l: "0 < l" "l < i" "i < u" "u \<le> hi" and t: "inv t" "vals_in W l u (val t)" "\<not> lss (val t u) (val t l)"
  shows "\<exists>t'. order_middle get seti lt t l i u = Inr t' \<and> inv t' \<and> perm_on l u (val t) (val t')
    \<and> \<not> lss (val t' i) (val t' l) \<and> \<not> lss (val t' u) (val t' i)"
proof -
  have W: "val t l \<in> W" "val t u \<in> W" "val t i \<in> W" using vals_inD [OF t(2)] l by auto
  have g: "get t l = Inr (val t l)" "get t u = Inr (val t u)" "get t i = Inr (val t i)" using get_val [OF t(1)] l by auto
  obtain t1 where t1: "set2 seti t i l (val t l) (val t i) = Inr t1" "inv t1" "val t1 = (val t)(i := val t l, l := val t i)"
    "perm_on l u (val t) (val t1)" using set2_perm [OF t(1) l(1,4) _ _ _ _ t(2) N, of i l] l by auto
  obtain t2 where t2: "set2 seti t i u (val t u) (val t i) = Inr t2" "inv t2" "val t2 = (val t)(i := val t u, u := val t i)"
    "perm_on l u (val t) (val t2)" using set2_perm [OF t(1) l(1,4) _ _ _ _ t(2) N, of i u] l by auto
  show ?thesis
  proof (cases "lss (val t i) (val t l)")
    case True
    then show ?thesis using g t1 lt [OF W(3,1)] strict_weak_asym [OF sw W(3,1)] t(3) l
      by (intro exI [of _ t1]) (auto simp: order_middle_def)
  next
    case False
    then show ?thesis using g t2 t lt [OF W(3,1)] lt [OF W(2,3)] strict_weak_asym [OF sw W(2,3)] l perm_on_refl
      by (cases "lss (val t u) (val t i)") (auto simp: order_middle_def)
  qed
qed

text \<open>The two recursive calls, on intervals apart from each other.\<close>

definition sorts :: "order \<Rightarrow> (TValue \<Rightarrow> TValue \<Rightarrow> bool) \<Rightarrow> TValue set \<Rightarrow> nat \<Rightarrow> bool" where
  "sorts lt lss W d \<longleftrightarrow> (\<forall>t l u. inv t \<longrightarrow> vals_in W l u (val t) \<longrightarrow> 0 < l \<longrightarrow> u \<le> hi \<longrightarrow> nat (u - l) < d \<longrightarrow>
    (\<exists>t'. auxsort d get seti lt t l u = Inr t' \<and> inv t' \<and> perm_on l u (val t) (val t') \<and> ordered_on lss l u (val t')))"

lemma sortsD:
  assumes "sorts lt lss W d" "inv t" "vals_in W l u (val t)" "0 < l" "u \<le> hi" "nat (u - l) < d"
  obtains t' where "auxsort d get seti lt t l u = Inr t'" "inv t'" "perm_on l u (val t) (val t')" "ordered_on lss l u (val t')"
  using assms unfolding sorts_def by blast

lemma two_sorts:
  assumes IH: "sorts lt lss W d" and d: "b < c \<or> e < a" and t: "inv t" "vals_in W a b (val t)" "vals_in W c e (val t)"
    and b: "0 < a" "0 < c" "b \<le> hi" "e \<le> hi" "nat (b - a) < d" "nat (e - c) < d"
  shows "\<exists>t1 t2. sbind (auxsort d get seti lt t a b) (\<lambda>t. auxsort d get seti lt t c e) = Inr t2 \<and> inv t2
    \<and> perm_on a b (val t) (val t1) \<and> perm_on c e (val t1) (val t2) \<and> ordered_on lss a b (val t2) \<and> ordered_on lss c e (val t2)"
proof -
  obtain t1 where t1: "auxsort d get seti lt t a b = Inr t1" "inv t1" "perm_on a b (val t) (val t1)" "ordered_on lss a b (val t1)"
    using sortsD [OF IH t(1,2) b(1,3,5)] .
  have "vals_in W c e (val t1)" using t(3) perm_on_out [OF t1(3)] d by (auto simp: vals_in_def)
  then obtain t2 where t2: "auxsort d get seti lt t1 c e = Inr t2" "inv t2" "perm_on c e (val t1) (val t2)" "ordered_on lss c e (val t2)"
    using sortsD [OF IH t1(2) _ b(2,4,6)] by blast
  have "ordered_on lss a b (val t2)" using ordered_on_cong [OF t1(4)] perm_on_out [OF t2(3)] d by force
  then show ?thesis using t1 t2 by (intro exI [of _ t1] exI [of _ t2]) simp
qed

text \<open>From the three elements in order to the split interval with the pivot in its place.\<close>

lemma partition_spec:
  assumes lt: "\<And>x y. x \<in> W \<Longrightarrow> y \<in> W \<Longrightarrow> lt x y = Inr (lss x y)" and sw: "strict_weak lss W" and N: "Nil \<notin> W"
    and l: "0 < l" "u \<le> hi" and m: "l < m" "m < u" "2 < u - l"
    and t: "inv t" "vals_in W l u (val t)" "\<not> lss (val t m) (val t l)" "\<not> lss (val t u) (val t m)"
  shows "\<exists>i t'. sbind (get t m) (\<lambda>p. sbind (get t (u - 1)) (\<lambda>v. sbind (set2 seti t m (u - 1) v p) (\<lambda>t.
      sbind (split_loop (nat (u - l) + 2) get seti lt p l u t l (u - 1)) (\<lambda>(i, j, t).
      sbind (get t (u - 1)) (\<lambda>w. sbind (get t i) (\<lambda>v. sbind (set2 seti t (u - 1) i v w) (k i))))))) = k i t'
    \<and> inv t' \<and> perm_on l u (val t) (val t') \<and> l < i \<and> i < u
    \<and> (\<forall>k. l \<le> k \<longrightarrow> k < i \<longrightarrow> \<not> lss (val t' i) (val t' k)) \<and> (\<forall>k. i < k \<longrightarrow> k \<le> u \<longrightarrow> \<not> lss (val t' k) (val t' i))"
proof -
  have b: "l \<le> m" "m \<le> u" "l \<le> u - 1" "u - 1 \<le> u" using m by auto
  obtain t3 where t3: "set2 seti t m (u - 1) (val t (u - 1)) (val t m) = Inr t3" "inv t3"
    "val t3 = (val t)(m := val t (u - 1), u - 1 := val t m)" "perm_on l u (val t) (val t3)"
    using set2_perm [OF t(1) l b t(2) N] by blast
  define p where "p = val t m"
  note W3 = vals_in_perm [OF t(2) t3(4)]
  have p: "p \<in> W" "val t3 (u - 1) = p" using vals_inD [OF t(2)] b t3(3) by (auto simp: p_def)
  have ends: "\<not> lss p (val t3 l)" "\<not> lss (val t3 u) p" "\<not> lss p p" using t(3,4) t3(3) m strict_weak_irrefl [OF sw p(1)] by (auto simp: p_def)
  have lo: "\<forall>k. l \<le> k \<longrightarrow> k \<le> l \<longrightarrow> \<not> lss p (val t3 k)" using ends(1) by (metis order_antisym)
  have up: "\<forall>k. u - 1 \<le> k \<longrightarrow> k \<le> u \<longrightarrow> \<not> lss (val t3 k) p"
  proof (intro allI impI)
    fix k
    assume "u - 1 \<le> k" "k \<le> u"
    then have "k = u - 1 \<or> k = u" by linarith
    then show "\<not> lss (val t3 k) p" using ends(2,3) p(2) by metis
  qed
  have fuel: "nat (u - 1 - l) < nat (u - l) + 2" by linarith
  obtain i j t4 where t4: "split_loop (nat (u - l) + 2) get seti lt p l u t3 l (u - 1) = Inr (i, j, t4)" "inv t4"
    "perm_on (l + 1) (u - 2) (val t3) (val t4)" "l < i" "i \<le> u - 1"
    "\<forall>k. l \<le> k \<longrightarrow> k < i \<longrightarrow> \<not> lss p (val t4 k)" "\<forall>k. i \<le> k \<longrightarrow> k \<le> u \<longrightarrow> \<not> lss (val t4 k) p"
    using split_loop_spec [where lt = lt and lss = lss, OF lt sw N p(1) l t3(2) W3 p(2), of l "u - 1" "nat (u - l) + 2", OF _ _ order_refl _ order_refl _ _ lo up fuel] m
    by (auto simp del: split_loop.simps)
  have P4: "perm_on l u (val t3) (val t4)" using perm_on_mono [OF t4(3)] by simp
  have p4: "val t4 (u - 1) = p" using perm_on_out [OF t4(3)] p(2) by simp
  have bi: "l \<le> i" "i \<le> u" using t4(4,5) by auto
  obtain t5 where t5: "set2 seti t4 (u - 1) i (val t4 i) (val t4 (u - 1)) = Inr t5" "inv t5"
    "val t5 = (val t4)(u - 1 := val t4 i, i := val t4 (u - 1))" "perm_on l u (val t4) (val t5)"
    using set2_perm [OF t4(2) l b(3,4) bi vals_in_perm [OF W3 P4] N] by blast
  have "get t m = Inr p" "get t (u - 1) = Inr (val t (u - 1))" "get t4 (u - 1) = Inr (val t4 (u - 1))" "get t4 i = Inr (val t4 i)"
    using get_val t(1) t4(2) l b bi by (auto simp: p_def)
  moreover have "val t5 i = p" using t5(3) p4 by simp
  moreover have "perm_on l u (val t) (val t5)" using perm_on_trans t3(4) P4 t5(4) by metis
  ultimately show ?thesis using t3(1) t4 t5 p4
    by (intro exI [of _ i] exI [of _ t5]) (auto simp: p_def simp del: split_loop.simps)
qed

lemma pivot_sorts:
  assumes IH: "sorts lt lss W d" and sw: "strict_weak lss W" and l: "0 < l" "u \<le> hi" and d: "nat (u - l) < Suc d"
    and t: "inv t" "vals_in W l u (val t)" and i: "l < i" "i < u"
    and sides: "\<forall>k. l \<le> k \<longrightarrow> k < i \<longrightarrow> \<not> lss (val t i) (val t k)" "\<forall>k. i < k \<longrightarrow> k \<le> u \<longrightarrow> \<not> lss (val t k) (val t i)"
  shows "\<exists>t'. (let (j, i, l, u) = (if i - l < u - i then (l, i - 1, i + 1, u) else (i + 1, u, l, i - 1)) in
      sbind (auxsort d get seti lt t j i) (\<lambda>t. auxsort d get seti lt t l u)) = Inr t'
    \<and> inv t' \<and> perm_on l u (val t) (val t') \<and> ordered_on lss l u (val t')"
proof -
  have W: "vals_in W l (i - 1) (val t)" "vals_in W (i + 1) u (val t)" using i by (auto intro: vals_in_sub [OF t(2)])
  have r: "0 < l" "0 < i + 1" "i - 1 \<le> hi" "u \<le> hi" "nat (i - 1 - l) < d" "nat (u - (i + 1)) < d" using i l d by auto
  note j = ordered_sides [OF sw t(2) order_less_imp_le [OF i(1)] order_less_imp_le [OF i(2)] sides]
  show ?thesis
  proof (cases "i - l < u - i")
    case True
    then show ?thesis using two_sorts [OF IH _ t(1) W r] j by fastforce
  next
    case False
    then show ?thesis using two_sorts [OF IH _ t(1) W(2,1) r(2,1,4,3,6,5)] j by fastforce
  qed
qed

lemma auxsort_spec:
  assumes lt: "\<And>x y. x \<in> W \<Longrightarrow> y \<in> W \<Longrightarrow> lt x y = Inr (lss x y)" and sw: "strict_weak lss W" and N: "Nil \<notin> W"
  shows "sorts lt lss W d"
proof (induction d)
  case (Suc d)
  have "\<exists>t'. auxsort (Suc d) get seti lt t l u = Inr t' \<and> inv t' \<and> perm_on l u (val t) (val t') \<and> ordered_on lss l u (val t')"
    if t: "inv t" "vals_in W l u (val t)" and l: "0 < l" "u \<le> hi" and d: "nat (u - l) < Suc d" for t l u
  proof (cases "l < u")
    case False
    then show ?thesis using ordered_le1 [OF sw t(2)] t(1) perm_on_refl by auto
  next
    case lu: True
    obtain t1 where t1: "order_ends get seti lt t l u = Inr t1" "inv t1" "perm_on l u (val t) (val t1)" "\<not> lss (val t1 u) (val t1 l)"
      using order_ends_spec [where lt = lt and lss = lss, OF lt sw N l(1) _ l(2) t] lu by auto
    note W1 = vals_in_perm [OF t(2) t1(3)]
    show ?thesis
    proof (cases "u - l = 1")
      case True
      then have "u = l + 1" by simp
      then have "ordered_on lss l u (val t1)"
        using ordered_join [OF sw W1, of l] t1(4) ordered_le1 [OF sw vals_in_sub [OF W1]] by (auto simp: ordered_on_def order_le_less)
      then show ?thesis using t1 True lu by simp
    next
      case False
      define m where "m = (l + u) div 2"
      have m: "l < m" "m < u" using False lu by (auto simp: m_def)
      have c: "lift (chk32 (l + u)) = Inr (l + u)" using l lu hi_small by (simp add: chk32_def int_min_def int_max_def)
      obtain t2 where t2: "order_middle get seti lt t1 l m u = Inr t2" "inv t2" "perm_on l u (val t1) (val t2)"
        "\<not> lss (val t2 m) (val t2 l)" "\<not> lss (val t2 u) (val t2 m)"
        using order_middle_spec [where lt = lt and lss = lss, OF lt sw N l(1) m l(2) t1(2) W1 t1(4)] by auto
      note W2 = vals_in_perm [OF W1 t2(3)]
      note P2 = perm_on_trans [OF t1(3) t2(3)]
      show ?thesis
      proof (cases "u - l = 2")
        case True
        then have "m = l + 1" "u = l + 2" using m by linarith+
        then have "ordered_on lss l u (val t2)"
          using ordered_join [OF sw W2, of m] t2(4,5) m ordered_le1 [OF sw vals_in_sub [OF W2]] by (auto simp: order_le_less)
        then show ?thesis using t1(1) t2 P2 lu False True c by (simp add: Let_def m_def)
      next
        case 3: False
        obtain i t3 where t3: "inv t3" "perm_on l u (val t2) (val t3)" "l < i" "i < u"
          "\<forall>k. l \<le> k \<longrightarrow> k < i \<longrightarrow> \<not> lss (val t3 i) (val t3 k)" "\<forall>k. i < k \<longrightarrow> k \<le> u \<longrightarrow> \<not> lss (val t3 k) (val t3 i)"
          and eq: "auxsort (Suc d) get seti lt t l u = (let (j, i, l, u) = (if i - l < u - i then (l, i - 1, i + 1, u) else (i + 1, u, l, i - 1)) in
              sbind (auxsort d get seti lt t3 j i) (\<lambda>t. auxsort d get seti lt t l u))"
          using partition_spec [where lt = lt and lss = lss, OF lt sw N l m _ t2(2) W2 t2(4,5), where k = "\<lambda>i t. (let (j, i, l, u) = (if i - l < u - i then (l, i - 1, i + 1, u) else (i + 1, u, l, i - 1)) in
              sbind (auxsort d get seti lt t j i) (\<lambda>t. auxsort d get seti lt t l u))"] t1(1) t2(1) lu False 3 m c
          by (auto simp add: Let_def m_def [symmetric] simp del: split_loop.simps)
        then show ?thesis using pivot_sorts [OF Suc.IH sw l d t3(1) vals_in_perm [OF W2 t3(2)] t3(3-6)] perm_on_trans [OF P2] by (metis perm_on_trans)
      qed
    qed
  qed
  then show ?case unfolding sorts_def by blast
qed (simp add: sorts_def)

text \<open>Insertion and removal. The loops write where there is an element, except at the end of the list.\<close>

lemma move_up_spec:
  "inv t \<Longrightarrow> 0 < pos \<Longrightarrow> pos \<le> e \<Longrightarrow> e \<le> hi \<Longrightarrow>
    move_up get seti t e pos = raise ''table overflow'' \<or>
    (\<exists>t'. move_up get seti t e pos = Inr t' \<and> inv t' \<and> val t' = (\<lambda>k. if pos < k \<and> k \<le> e then val t (k - 1) else val t k))"
proof (induction "nat (e - pos)" arbitrary: t e)
  case 0
  then show ?case by (subst (1 2) move_up.simps) (auto simp: fun_eq_iff)
next
  case (Suc d)
  then have e: "pos \<le> e - 1" "e - 1 \<le> hi" "d = nat (e - 1 - pos)" "0 < e" by linarith+
  have g: "get t (e - 1) = Inr (val t (e - 1))" using get_val [OF Suc.prems(1)] Suc.prems(2) e by simp
  consider "seti t e (val t (e - 1)) = raise ''table overflow''"
    | t1 where "seti t e (val t (e - 1)) = Inr t1" "inv t1" "val t1 = (val t)(e := val t (e - 1))"
    using set_any [OF Suc.prems(1) e(4) Suc.prems(4)] by metis
  then show ?case
  proof cases
    case 1
    then show ?thesis using g e by (subst move_up.simps) simp
  next
    case 2
    have m: "move_up get seti t e pos = move_up get seti t1 (e - 1) pos" using 2(1) g e by (subst move_up.simps) simp
    have "(\<lambda>k. if pos < k \<and> k \<le> e - 1 then val t1 (k - 1) else val t1 k) = (\<lambda>k. if pos < k \<and> k \<le> e then val t (k - 1) else val t k)"
      using 2(3) e by (auto simp: fun_eq_iff)
    then show ?thesis using Suc(1) [OF e(3) 2(2) Suc.prems(2) e(1,2)] m by simp
  qed
qed

lemma move_down_spec:
  "inv t \<Longrightarrow> 0 < pos \<Longrightarrow> pos \<le> e \<Longrightarrow> e \<le> hi \<Longrightarrow> \<forall>k. pos \<le> k \<longrightarrow> k \<le> e \<longrightarrow> val t k \<noteq> Nil \<Longrightarrow>
    \<exists>t'. move_down get seti t pos e = Inr t' \<and> inv t' \<and> val t' = (\<lambda>k. if pos \<le> k \<and> k < e then val t (k + 1) else val t k)"
proof (induction "nat (e - pos)" arbitrary: t pos)
  case 0
  then show ?case by (subst move_down.simps) (auto simp: fun_eq_iff)
next
  case (Suc d)
  then have e: "pos + 1 \<le> e" "d = nat (e - (pos + 1))" "0 < pos + 1" by linarith+
  have g: "get t (pos + 1) = Inr (val t (pos + 1))" using get_val [OF Suc.prems(1)] Suc.prems(2,4) e by simp
  have n: "val t pos \<noteq> Nil" "0 < pos" "pos \<le> hi" using Suc.prems by auto
  obtain t1 where t1: "seti t pos (val t (pos + 1)) = Inr t1" "inv t1" "val t1 = (val t)(pos := val t (pos + 1))"
    using set_present [OF Suc.prems(1) n(2,3,1)] by blast
  have m: "move_down get seti t pos e = move_down get seti t1 (pos + 1) e" using t1(1) g e by (subst move_down.simps) simp
  have nn: "\<forall>k. pos + 1 \<le> k \<longrightarrow> k \<le> e \<longrightarrow> val t1 k \<noteq> Nil" using Suc.prems(5) t1(3) by auto
  have eq: "(\<lambda>k. if pos + 1 \<le> k \<and> k < e then val t1 (k + 1) else val t1 k) = (\<lambda>k. if pos \<le> k \<and> k < e then val t (k + 1) else val t k)"
    using t1(3) e by (auto simp: fun_eq_iff)
  show ?case using Suc(1) [OF e(2) t1(2) e(3,1) Suc.prems(4) nn] by (simp only: m eq)
qed

lemma tinsert_at:
  assumes t: "inv t" "len t = Inr n" "0 \<le> n" "n < hi" and pos: "1 \<le> pos" "pos \<le> n + 1"
  shows "tinsert get seti len t (InsertAt pos v) = raise ''table overflow'' \<or>
    (\<exists>t'. tinsert get seti len t (InsertAt pos v) = Inr t' \<and> inv t' \<and> val t' = put_at n pos v (val t))"
proof -
  have c: "chk32 (n + 1) = Inr (n + 1)" using t hi_small by (simp add: chk32_def int_min_def int_max_def)
  consider "move_up get seti t (n + 1) pos = raise ''table overflow''"
    | t1 where "move_up get seti t (n + 1) pos = Inr t1" "inv t1" "val t1 = (\<lambda>k. if pos < k \<and> k \<le> n + 1 then val t (k - 1) else val t k)"
    using move_up_spec [OF t(1), of pos "n + 1"] t pos by force
  then show ?thesis
  proof cases
    case 1
    then show ?thesis using t(2) c pos by (simp add: tinsert_def)
  next
    case 2
    have eq: "tinsert get seti len t (InsertAt pos v) = seti t1 pos v" using 2(1) t(2) c pos by (simp add: tinsert_def)
    have "(val t1)(pos := v) = put_at n pos v (val t)" using 2(3) by (auto simp: put_at_def fun_eq_iff)
    then show ?thesis using set_any [OF 2(2), of pos v] eq pos t(4) by force
  qed
qed

lemma tremove_at:
  assumes t: "inv t" "len t = Inr n" "n \<le> hi" and pos: "1 \<le> pos" "pos \<le> n"
    and v: "\<forall>k. pos \<le> k \<longrightarrow> k \<le> n \<longrightarrow> val t k \<noteq> Nil"
  shows "\<exists>t'. tremove get seti len t (Some pos) = Inr (Some (val t pos), t') \<and> inv t' \<and> val t' = take_at n pos (val t)"
proof -
  have r: "0 < pos" "0 < n" using pos by auto
  obtain t1 where t1: "move_down get seti t pos n = Inr t1" "inv t1" "val t1 = (\<lambda>k. if pos \<le> k \<and> k < n then val t (k + 1) else val t k)"
    using move_down_spec [OF t(1) r(1) pos(2) t(3) v] by blast
  have "val t1 n \<noteq> Nil" using t1(3) v pos by simp
  then obtain t2 where t2: "seti t1 n Nil = Inr t2" "inv t2" "val t2 = (val t1)(n := Nil)"
    using set_present [OF t1(2) r(2) t(3)] by blast
  have "val t2 = take_at n pos (val t)" using t1(3) t2(3) by (auto simp: take_at_def fun_eq_iff)
  then show ?thesis using get_val [OF t(1) r(1)] t t1(1) t2 pos by (auto simp: tremove_def)
qed

lemma sort_table_sorts:
  assumes lt: "\<And>x y. x \<in> W \<Longrightarrow> y \<in> W \<Longrightarrow> lt x y = Inr (lss x y)" and sw: "strict_weak lss W" and N: "Nil \<notin> W"
    and t: "inv t" "len t = Inr n" "n \<le> hi" "vals_in W 1 n (val t)" and d: "nat (n - 1) < d"
  shows "\<exists>t'. sort_table get seti len lt d t = Inr t' \<and> inv t' \<and> perm_on 1 n (val t) (val t') \<and> ordered_on lss 1 n (val t')"
proof -
  have "sorts lt lss W d" using auxsort_spec [where lt = lt and lss = lss, OF lt sw N] .
  from sortsD [OF this t(1,4) zero_less_one t(3) d] show ?thesis using t(2) by (auto simp: sort_table_def)
qed

end

end
