(* ===== verification/LApiTab.thy ===== *)
theory LApiTab
  imports LTableProps TabLibProps
begin

text \<open>
  The raw accesses of \<open>lapi.c\<close> that the table library makes, on the tables of \<open>ltable.c\<close>, and the
  proof that they keep the contract of the library.
\<close>

definition lua_rawgeti :: "hash \<Rightarrow> table \<Rightarrow> int \<Rightarrow> TValue lres" where
  "lua_rawgeti hn t n =
    sbind (luaH_getnum hn t n) (\<lambda>p. Inr (case p of Some l \<Rightarrow> value_at t l | None \<Rightarrow> Nil))"

definition lua_rawseti :: "hash \<Rightarrow> table \<Rightarrow> int \<Rightarrow> TValue \<Rightarrow> table lres" where
  "lua_rawseti hn t n v = sbind (luaH_setnum hn t n) (\<lambda>(l, t). Inr (set_at t l v))"

definition lua_rawget :: "hash \<Rightarrow> table \<Rightarrow> TValue \<Rightarrow> TValue lres" where
  "lua_rawget hn t k =
    sbind (luaH_get hn t k) (\<lambda>p. Inr (case p of Some l \<Rightarrow> value_at t l | None \<Rightarrow> Nil))"

definition lua_rawset :: "hash \<Rightarrow> table \<Rightarrow> TValue \<Rightarrow> TValue \<Rightarrow> table lres" where
  "lua_rawset hn t k v = sbind (luaH_set hn t k) (\<lambda>(l, t). Inr (set_at t l v))"

text \<open>The length as the macro \<open>luaL_getn\<close> reads it, an \<open>int\<close>.\<close>

definition luaL_getn :: "hash \<Rightarrow> table \<Rightarrow> int lres" where
  "luaL_getn hn t = sbind (luaH_getn hn t) (\<lambda>n. Inr (cast_int (int n)))"

lemma live_num [simp]: "live (Number (Nint i))"
  by (simp add: live_def)

lemma rawgeti_val:
  assumes "twf hn t" "0 < i" "i \<le> int_max"
  shows "lua_rawgeti hn t i = Inr (tget t (Number (Nint i)))"
proof -
  have "int_min < i" unfolding int_min_def using assms(2) by linarith
  then have "found t (Number (Nint i)) (luaH_getnum hn t i)" by (rule getnum_found [OF assms(1) _ assms(3)])
  then show ?thesis using tget_at [OF assms(1) live_num] tget_none by (auto simp: found_def lua_rawgeti_def)
qed

lemma setnum_spec:
  assumes t: "twf hn t" and i: "0 < i" "i \<le> int_max"
  shows "luaH_setnum hn t i = raise ''table overflow'' \<and> tget t (Number (Nint i)) = Nil \<or> (\<exists>l t'. luaH_setnum hn t i = Inr (l, t')
    \<and> twf hn t' \<and> at_loc t' (Number (Nint i)) l \<and> (\<forall>k'. live k' \<longrightarrow> tget t' k' = tget t k'))"
proof -
  have "int_min < i" unfolding int_min_def using i(1) by linarith
  then have "found t (Number (Nint i)) (luaH_getnum hn t i)" by (rule getnum_found [OF t _ i(2)])
  then show ?thesis
    unfolding found_def
  proof (elim disjE exE conjE)
    fix l
    assume "luaH_getnum hn t i = Inr (Some l)" "at_loc t (Number (Nint i)) l"
    then show ?thesis using t by (simp add: luaH_setnum_def luaH_setnum_with_def)
  next
    assume n: "luaH_getnum hn t i = Inr None" "\<forall>l. \<not> at_loc t (Number (Nint i)) l"
    have "ok_key (Number (Nint i))" using \<open>int_min < i\<close> by (simp add: ok_key_def live_def)
    from newkey_spec [OF t this n(2)] show ?thesis
      using n(1) tget_none [OF n(2)] by (auto simp: luaH_setnum_def luaH_setnum_with_def)
  qed
qed

abbreviation elem :: "table \<Rightarrow> int \<Rightarrow> TValue" where
  "elem t i \<equiv> tget t (Number (Nint i))"

lemma rawseti_spec:
  assumes t: "twf hn t" and i: "0 < i" "i \<le> int_max"
  shows "lua_rawseti hn t i v = raise ''table overflow'' \<and> elem t i = Nil
    \<or> (\<exists>t'. lua_rawseti hn t i v = Inr t' \<and> twf hn t' \<and> elem t' = (elem t)(i := v))"
  using setnum_spec [OF assms]
proof (elim disjE exE conjE)
  fix l t'
  assume s: "luaH_setnum hn t i = Inr (l, t')" "twf hn t'" "at_loc t' (Number (Nint i)) l"
    "\<forall>k'. live k' \<longrightarrow> tget t' k' = tget t k'"
  have "elem (set_at t' l v) = (elem t)(i := v)"
    using tget_set_at [OF s(2) live_num s(3) live_num] s(4) by (auto simp: fun_eq_iff)
  then show ?thesis using s(1) set_at_twf(1) [OF s(2) live_num s(3)] by (simp add: lua_rawseti_def)
qed (simp add: lua_rawseti_def)

interpretation raw: int_table "lua_rawgeti hn" "lua_rawseti hn" "twf hn" elem "2 ^ 30" for hn
proof (unfold_locales, goal_cases)
  case (1 t i)
  then show ?case using rawgeti_val by (simp add: int_max_def)
next
  case (2 t i v)
  then show ?case using rawseti_spec [of hn t i v] by (simp add: int_max_def) blast
next
  case (3 t i v)
  then show ?case using rawseti_spec [of hn t i v] by (simp add: int_max_def)
qed simp

text \<open>Accesses to an array of two elements.\<close>

lemma getnum_two: "array t = [a, b] \<Longrightarrow> luaH_getnum hn t 1 = Inr (Some (LArr 0))" "array t = [a, b] \<Longrightarrow> luaH_getnum hn t 2 = Inr (Some (LArr 1))"
  by (simp_all add: luaH_getnum_def int_min_def int_max_def)

lemma raw_two:
  "array t = [a, b] \<Longrightarrow> lua_rawgeti hn t 1 = Inr a" "array t = [a, b] \<Longrightarrow> lua_rawgeti hn t 2 = Inr b"
  "array t = [a, b] \<Longrightarrow> lua_rawseti hn t 1 v = Inr (t\<lparr>array := [v, b]\<rparr>)"
  "array t = [a, b] \<Longrightarrow> lua_rawseti hn t 2 v = Inr (t\<lparr>array := [a, v]\<rparr>)"
  by (simp_all add: lua_rawgeti_def lua_rawseti_def luaH_setnum_def luaH_setnum_with_def getnum_two)

definition two :: "TValue \<Rightarrow> TValue \<Rightarrow> table" where
  "two a b = sample\<lparr>array := [a, b]\<rparr>"

lemma two_twf: "twf hn (two a b)"
  by (rule twf_fresh [of 0]) (simp_all add: two_def sample_def MAXASIZE_def MAXBITS_def)

lemma two_elems: "elem (two a b) 1 = a" "elem (two a b) 2 = b"
  using tget_array [of 0 "two a b"] tget_array [of 1 "two a b"] by (simp_all add: two_def)

lemma two_array: "array (two a b) = [a, b]"
  by (simp add: two_def)

lemma two_getn: "b \<noteq> Nil \<Longrightarrow> luaL_getn hn (two a b) = Inr 2"
  by (simp add: luaL_getn_def luaH_getn_def two_def sample_def int_min_def int_max_def)

lemma sample_getn: "a \<noteq> Nil \<Longrightarrow> luaL_getn hn (two a Nil) = Inr 1"
  by (simp add: luaL_getn_def luaH_getn_def two_def sample_def bin_search.simps int_min_def int_max_def)

text \<open>
  C30: \<open>table.sort\<close> on a table of \<open>ltable.c\<close>. With a comparison that does not fail and is a strict weak
  order on the elements, none of which is nil, it ends without an error (so the check for an invalid order
  function does not fire), the elements are in order, and they are the old ones rearranged.
\<close>

theorem sort_sorts:
  assumes lt: "\<And>x y. x \<in> W \<Longrightarrow> y \<in> W \<Longrightarrow> lt x y = Inr (lss x y)" and sw: "strict_weak lss W" and N: "Nil \<notin> W"
    and t: "twf hn t" "luaL_getn hn t = Inr n" "n \<le> 2 ^ 30" "vals_in W 1 n (elem t)" and d: "nat n \<le> d" "0 < d"
  shows "\<exists>t'. sort_table (lua_rawgeti hn) (lua_rawseti hn) (luaL_getn hn) lt d t = Inr t' \<and> twf hn t'
    \<and> perm_on 1 n (elem t) (elem t') \<and> ordered_on lss 1 n (elem t')"
proof -
  have "nat (n - 1) < d" using d by linarith
  from raw.sort_table_sorts [where lt = lt and lss = lss and len = "luaL_getn hn", OF lt sw N t this] show ?thesis by blast
qed

definition num_lt :: "TValue \<Rightarrow> TValue \<Rightarrow> bool" where
  "num_lt x y = (case (x, y) of (Number (Nint a), Number (Nint b)) \<Rightarrow> a < b | _ \<Rightarrow> False)"

theorem sort_sorts_witness:
  "\<exists>t'. sort_table (lua_rawgeti (\<lambda>_. 7)) (lua_rawseti (\<lambda>_. 7)) (luaL_getn (\<lambda>_. 7)) (\<lambda>x y. Inr (num_lt x y)) 2
      (two (Number (Nint 5)) (Number (Nint 3))) = Inr t'
    \<and> perm_on 1 2 (elem (two (Number (Nint 5)) (Number (Nint 3)))) (elem t') \<and> ordered_on num_lt 1 2 (elem t')"
proof -
  let ?W = "range (\<lambda>a. Number (Nint a))"
  have sw: "strict_weak num_lt ?W" unfolding strict_weak_def by (auto simp: num_lt_def)
  have "k = 1 \<or> k = 2" if "1 \<le> k" "k \<le> 2" for k :: int using that by linarith
  then have W: "vals_in ?W 1 2 (elem (two (Number (Nint 5)) (Number (Nint 3))))" unfolding vals_in_def by (metis two_elems rangeI)
  have "Nil \<notin> ?W" "(2::int) \<le> 2 ^ 30" "nat 2 \<le> (2::nat)" "0 < (2::nat)" by auto
  from sort_sorts [where lt = "\<lambda>x y. Inr (num_lt x y)" and lss = num_lt, OF refl sw this(1) two_twf two_getn this(2) W this(3,4)]
  show ?thesis by blast
qed

text \<open>
  \<open>table.remove\<close> undoes \<open>table.insert\<close> at the same position: it gives back the value, and the list is
  what it was.
\<close>

theorem insert_remove:
  assumes t: "twf hn t" "luaL_getn hn t = Inr n" "0 \<le> n" "n < 2 ^ 30" and pos: "1 \<le> pos" "pos \<le> n + 1" and v: "v \<noteq> Nil"
    and list: "vals_in (- {Nil}) 1 n (elem t)" "elem t (n + 1) = Nil"
    and ins: "tinsert (lua_rawgeti hn) (lua_rawseti hn) (luaL_getn hn) t (InsertAt pos v) = Inr t1" and n1: "luaL_getn hn t1 = Inr (n + 1)"
  shows "\<exists>t2. tremove (lua_rawgeti hn) (lua_rawseti hn) (luaL_getn hn) t1 (Some pos) = Inr (Some v, t2) \<and> twf hn t2 \<and> elem t2 = elem t"
proof -
  have t1: "twf hn t1" "elem t1 = put_at n pos v (elem t)" using raw.tinsert_at [where len = "luaL_getn hn", OF t pos, of v] ins by auto
  have e: "elem t1 k = put_at n pos v (elem t) k" for k using fun_cong [OF t1(2)] .
  have "\<forall>k. pos \<le> k \<longrightarrow> k \<le> n + 1 \<longrightarrow> elem t1 k \<noteq> Nil" using list(1) v pos unfolding e by (auto simp: put_at_def vals_in_def)
  moreover have "n + 1 \<le> 2 ^ 30" using t(4) by simp
  ultimately obtain t2 where t2: "tremove (lua_rawgeti hn) (lua_rawseti hn) (luaL_getn hn) t1 (Some pos) = Inr (Some (elem t1 pos), t2)"
    "twf hn t2" "elem t2 = take_at (n + 1) pos (elem t1)"
    using raw.tremove_at [where len = "luaL_getn hn", OF t1(1) n1 _ pos] by blast
  have "elem t2 = elem t" unfolding t2(3) t1(2) by (rule take_put_at [where f = "elem t", OF pos list(2)])
  moreover have "elem t1 pos = v" unfolding e by (simp add: put_at_def)
  ultimately show ?thesis using t2 by simp
qed

theorem insert_remove_witness:
  "\<exists>t2. tremove (lua_rawgeti (\<lambda>_. 7)) (lua_rawseti (\<lambda>_. 7)) (luaL_getn (\<lambda>_. 7)) (two (Boolean False) (Boolean True)) (Some 1)
      = Inr (Some (Boolean False), t2) \<and> elem t2 = elem (two (Boolean True) Nil)"
proof -
  have m: "move_up get seti t 2 1 = sbind (get t 1) (\<lambda>v. sbind (seti t 2 v) Inr)" for get :: "table getter" and seti t
    by (simp add: move_up.simps)
  have "tinsert (lua_rawgeti (\<lambda>_. 7)) (lua_rawseti (\<lambda>_. 7)) (luaL_getn (\<lambda>_. 7)) (two (Boolean True) Nil) (InsertAt 1 (Boolean False))
      = Inr (two (Boolean False) (Boolean True))"
    using sample_getn [of "Boolean True"] two_array [of "Boolean True" Nil]
    by (simp add: tinsert_def m raw_two int_min_def int_max_def) (simp add: two_def sample_def)
  moreover have "vals_in (- {Nil}) 1 1 (elem (two (Boolean True) Nil))"
    unfolding vals_in_def using two_elems(1) [of "Boolean True" Nil] by (metis ComplI TValue.distinct(1) order_antisym singletonD)
  ultimately show ?thesis
    using insert_remove [OF two_twf sample_getn, of "Boolean True" 1 "Boolean False" "\<lambda>_. 7" "two (Boolean False) (Boolean True)"]
      two_elems(2) [of "Boolean True" Nil] two_getn [of "Boolean True"] by (simp, blast)
qed

end
