(* ===== verification/LDebug.thy ===== *)
theory LDebug
  imports LCode TabLib
begin

text \<open>
  Function prototypes (\<open>lobject.h\<close>), the names of local variables (\<open>lfunc.c\<close>), and the code checker
  of \<open>ldebug.c\<close>: the symbolic execution that accepts or refuses the code of a prototype and finds
  the instruction that last changed a register, and the names it gives to values.
\<close>

section \<open>Prototypes\<close>

record LocVar =
  varname :: "bytes option"
  startpc :: int
  endpc :: int

datatype Proto = Proto
  (p_k: "TValue list") (p_code: "Instruction list") (p_p: "Proto list") (p_lineinfo: "int list")
  (p_locvars: "LocVar list") (p_upvalues: "bytes option list") (p_source: "bytes option")
  (p_linedefined: int) (p_lastlinedefined: int)
  (p_nups: byte) (p_numparams: byte) (p_is_vararg: byte) (p_maxstacksize: byte)

abbreviation sizecode :: "Proto \<Rightarrow> nat" where "sizecode pt \<equiv> length (p_code pt)"
abbreviation sizek :: "Proto \<Rightarrow> nat" where "sizek pt \<equiv> length (p_k pt)"

definition VARARG_HASARG :: byte where "VARARG_HASARG = 1"
definition VARARG_ISVARARG :: byte where "VARARG_ISVARARG = 2"
definition VARARG_NEEDSARG :: byte where "VARARG_NEEDSARG = 4"

text \<open>A variable without a name is read through the null pointer.\<close>

fun getlocalname_loop :: "LocVar list \<Rightarrow> int \<Rightarrow> int \<Rightarrow> bytes option lres" where
  "getlocalname_loop [] n pc = Inr None"
| "getlocalname_loop (v # vs) n pc =
    (if startpc v \<le> pc then
       if pc < endpc v then
         if n - 1 = 0 then (case varname v of Some s \<Rightarrow> Inr (Some s) | None \<Rightarrow> Inl (CFault NullDeref))
         else getlocalname_loop vs (n - 1) pc
       else getlocalname_loop vs n pc
     else Inr None)"

definition luaF_getlocalname :: "Proto \<Rightarrow> int \<Rightarrow> int \<Rightarrow> bytes option lres" where
  "luaF_getlocalname f local_number pc = getlocalname_loop (p_locvars f) local_number pc"

section \<open>Checks\<close>

text \<open>The macro \<open>check\<close>: a check that fails ends the function with 0, here \<open>None\<close>.\<close>

definition check :: "bool \<Rightarrow> 'a option lres \<Rightarrow> 'a option lres" where
  "check b m = (if b then m else Inr None)"

definition obind :: "'a option lres \<Rightarrow> ('a \<Rightarrow> 'b option lres) \<Rightarrow> 'b option lres" where
  "obind m f = sbind m (\<lambda>r. case r of None \<Rightarrow> Inr None | Some a \<Rightarrow> f a)"

definition is_op :: "Instruction \<Rightarrow> OpCode \<Rightarrow> bool" where
  "is_op i op = (GET_OPCODE i = opnum op)"

definition code_at :: "Proto \<Rightarrow> nat \<Rightarrow> Instruction lres" where
  "code_at pt pc = lift (rd (p_code pt) pc)"

definition isreg :: "Proto \<Rightarrow> int \<Rightarrow> bool" where
  "isreg pt reg = (reg < uint (p_maxstacksize pt))"

definition precheck :: "Proto \<Rightarrow> unit option lres" where
  "precheck pt =
    check (uint (p_maxstacksize pt) \<le> MAXSTACK)
    (check (uint (p_numparams pt) + uint (p_is_vararg pt AND VARARG_HASARG) \<le> uint (p_maxstacksize pt))
    (check (\<not> (p_is_vararg pt AND VARARG_NEEDSARG \<noteq> 0) \<or> p_is_vararg pt AND VARARG_HASARG \<noteq> 0)
    (check (int (length (p_upvalues pt)) \<le> uint (p_nups pt))
    (check (length (p_lineinfo pt) = sizecode pt \<or> length (p_lineinfo pt) = 0)
    (if sizecode pt > 0 then sbind (code_at pt (sizecode pt - 1)) (\<lambda>i. check (is_op i OP_RETURN) (Inr (Some ())))
     else Inr None)))))"

definition luaG_checkopenop :: "Instruction \<Rightarrow> bool" where
  "luaG_checkopenop i =
    (if is_op i OP_CALL \<or> is_op i OP_TAILCALL \<or> is_op i OP_RETURN \<or> is_op i OP_SETLIST then GETARG_B i = 0 else False)"

definition checkopenop :: "Proto \<Rightarrow> nat \<Rightarrow> unit option lres" where
  "checkopenop pt pc = sbind (code_at pt (pc + 1)) (\<lambda>i. check (luaG_checkopenop i) (Inr (Some ())))"

definition checkArgMode :: "Proto \<Rightarrow> int \<Rightarrow> byte \<Rightarrow> bool" where
  "checkArgMode pt r mode =
    (if mode = arg_num OpArgN then r = 0
     else if mode = arg_num OpArgU then True
     else if mode = arg_num OpArgR then isreg pt r
     else if ISK r then INDEXK r < int (sizek pt) else isreg pt r)"

section \<open>Symbolic execution\<close>

text \<open>The words before \<open>dest\<close> that look like a SETLIST followed by a count.\<close>

fun setlist_run :: "Proto \<Rightarrow> nat \<Rightarrow> nat lres" where
  "setlist_run pt 0 = Inr 0"
| "setlist_run pt (Suc dest) =
    sbind (code_at pt dest) (\<lambda>d.
      if \<not> (is_op d OP_SETLIST \<and> GETARG_C d = 0) then Inr 0
      else sbind (setlist_run pt dest) (\<lambda>j. Inr (Suc j)))"

text \<open>The arguments \<open>b\<close> and \<open>c\<close>, checked by the mode of the operation.\<close>

definition operands :: "Proto \<Rightarrow> nat \<Rightarrow> Instruction \<Rightarrow> nat \<Rightarrow> (int \<times> int) option lres" where
  "operands pt pc i op =
    sbind (lift (getOpMode op)) (\<lambda>m.
    sbind (lift (getBMode op)) (\<lambda>bm.
    if m = mode_num iABC then
      let b = GETARG_B i; c = GETARG_C i in
      check (checkArgMode pt b bm)
      (sbind (lift (getCMode op)) (\<lambda>cm.
      check (checkArgMode pt c cm) (Inr (Some (b, c)))))
    else if m = mode_num iABx then
      let b = GETARG_Bx i in
      if bm = arg_num OpArgK then check (b < int (sizek pt)) (Inr (Some (b, 0))) else Inr (Some (b, 0))
    else if m = mode_num iAsBx then
      let b = GETARG_sBx i in
      if bm = arg_num OpArgR then
        sbind (lift (chk32 (int pc + 1 + b))) (\<lambda>dest.
        check (0 \<le> dest \<and> dest < int (sizecode pt))
        (if dest > 0 then sbind (setlist_run pt (nat dest)) (\<lambda>j. check (even j) (Inr (Some (b, 0))))
         else Inr (Some (b, 0))))
      else Inr (Some (b, 0))
    else Inr (Some (0, 0))))"

text \<open>The pseudo-instructions after a CLOSURE.\<close>

fun upvalue_ops :: "Proto \<Rightarrow> nat \<Rightarrow> nat \<Rightarrow> unit option lres" where
  "upvalue_ops pt pc 0 = Inr (Some ())"
| "upvalue_ops pt pc (Suc n) =
    sbind (code_at pt (pc + 1)) (\<lambda>i.
    check (is_op i OP_GETUPVAL \<or> is_op i OP_MOVE) (upvalue_ops pt (pc + 1) n))"

text \<open>The jump that the tracer follows: forward, and not past \<open>lastpc\<close>.\<close>

definition follow_jump :: "nat \<Rightarrow> int \<Rightarrow> nat \<Rightarrow> nat \<Rightarrow> int \<Rightarrow> (nat \<times> nat) option lres" where
  "follow_jump lastpc reg pc lst b =
    sbind (lift (chk32 (int pc + 1 + b))) (\<lambda>dest.
      Inr (Some (if reg \<noteq> NO_REG \<and> int pc < dest \<and> dest \<le> int lastpc then nat (int pc + b) else pc, lst)))"

text \<open>The second \<open>switch\<close>: the position (before the step of the loop) and \<open>lst\<close> afterwards.\<close>

definition op_effect :: "Proto \<Rightarrow> nat \<Rightarrow> int \<Rightarrow> nat \<Rightarrow> nat \<Rightarrow> OpCode \<Rightarrow> int \<Rightarrow> int \<Rightarrow> int \<Rightarrow> (nat \<times> nat) option lres" where
  "op_effect pt lastpc reg pc lst op a b c = (case op of
      OP_LOADBOOL \<Rightarrow>
        if c = 1 then
          sbind (lift (chk32 (int pc + 2))) (\<lambda>p2.
          check (p2 < int (sizecode pt))
          (sbind (code_at pt (pc + 1)) (\<lambda>i. check (\<not> is_op i OP_SETLIST \<or> GETARG_C i \<noteq> 0) (Inr (Some (pc, lst))))))
        else Inr (Some (pc, lst))
    | OP_LOADNIL \<Rightarrow> Inr (Some (pc, if a \<le> reg \<and> reg \<le> b then pc else lst))
    | OP_GETUPVAL \<Rightarrow> check (b < uint (p_nups pt)) (Inr (Some (pc, lst)))
    | OP_SETUPVAL \<Rightarrow> check (b < uint (p_nups pt)) (Inr (Some (pc, lst)))
    | OP_GETGLOBAL \<Rightarrow> sbind (lift (rd (p_k pt) (nat b))) (\<lambda>v. check (case v of String _ \<Rightarrow> True | _ \<Rightarrow> False) (Inr (Some (pc, lst))))
    | OP_SETGLOBAL \<Rightarrow> sbind (lift (rd (p_k pt) (nat b))) (\<lambda>v. check (case v of String _ \<Rightarrow> True | _ \<Rightarrow> False) (Inr (Some (pc, lst))))
    | OP_SELF \<Rightarrow> check (isreg pt (a + 1)) (Inr (Some (pc, if reg = a + 1 then pc else lst)))
    | OP_CONCAT \<Rightarrow> check (b < c) (Inr (Some (pc, lst)))
    | OP_TFORLOOP \<Rightarrow>
        check (c \<ge> 1) (check (isreg pt (a + 2 + c)) (Inr (Some (pc, if reg \<ge> a + 2 then pc else lst))))
    | OP_FORLOOP \<Rightarrow> check (isreg pt (a + 3)) (follow_jump lastpc reg pc lst b)
    | OP_FORPREP \<Rightarrow> check (isreg pt (a + 3)) (follow_jump lastpc reg pc lst b)
    | OP_JMP \<Rightarrow> follow_jump lastpc reg pc lst b
    | OP_RETURN \<Rightarrow> let b = b - 1 in check (\<not> b > 0 \<or> isreg pt (a + b - 1)) (Inr (Some (pc, lst)))
    | OP_SETLIST \<Rightarrow>
        check (\<not> b > 0 \<or> isreg pt (a + b))
        (if c = 0 then check (int (pc + 1) < int (sizecode pt) - 1) (Inr (Some (pc + 1, lst))) else Inr (Some (pc, lst)))
    | OP_CLOSURE \<Rightarrow>
        check (b < int (length (p_p pt)))
        (sbind (lift (rd (p_p pt) (nat b))) (\<lambda>f.
         let nup = unat (p_nups f) in
         sbind (lift (chk32 (int pc + int nup))) (\<lambda>p2.
         check (p2 < int (sizecode pt))
         (obind (upvalue_ops pt pc nup) (\<lambda>_.
          Inr (Some (if reg \<noteq> NO_REG then pc + nup else pc, lst)))))))
    | OP_VARARG \<Rightarrow>
        check (p_is_vararg pt AND VARARG_ISVARARG \<noteq> 0 \<and> p_is_vararg pt AND VARARG_NEEDSARG = 0)
        (let b = b - 1 in
         obind (if b = LUA_MULTRET then checkopenop pt pc else Inr (Some ())) (\<lambda>_.
         check (isreg pt (a + b - 1)) (Inr (Some (pc, lst)))))
    | _ \<Rightarrow>
        if op = OP_CALL \<or> op = OP_TAILCALL then
          check (\<not> b \<noteq> 0 \<or> isreg pt (a + b - 1))
          (let c = c - 1 in
           obind (if c = LUA_MULTRET then checkopenop pt pc
                  else if c \<noteq> 0 then check (isreg pt (a + c - 1)) (Inr (Some ())) else Inr (Some ())) (\<lambda>_.
           Inr (Some (pc, if reg \<ge> a then pc else lst))))
        else Inr (Some (pc, lst)))"

definition testskip :: "Proto \<Rightarrow> nat \<Rightarrow> bool \<Rightarrow> unit option lres" where
  "testskip pt pc t =
    (if t then
       sbind (lift (chk32 (int pc + 2))) (\<lambda>p2.
       check (p2 < int (sizecode pt))
       (sbind (code_at pt (pc + 1)) (\<lambda>i. check (is_op i OP_JMP) (Inr (Some ())))))
     else Inr (Some ()))"

definition symb_step :: "Proto \<Rightarrow> nat \<Rightarrow> int \<Rightarrow> nat \<Rightarrow> nat \<Rightarrow> (nat \<times> nat) option lres" where
  "symb_step pt lastpc reg pc lst =
    sbind (code_at pt pc) (\<lambda>i.
    let op = GET_OPCODE i; a = GETARG_A i in
    check (op < NUM_OPCODES)
    (check (isreg pt a)
    (obind (operands pt pc i op) (\<lambda>(b, c).
    sbind (lift (testAMode op)) (\<lambda>ta.
    let lst = (if ta \<and> a = reg then pc else lst) in
    sbind (lift (testTMode op)) (\<lambda>tt.
    obind (testskip pt pc tt) (\<lambda>_.
    op_effect pt lastpc reg pc lst (opcodes ! op) a b c)))))))"

lemma check_eq: "check b m = Inr (Some r) \<longleftrightarrow> b \<and> m = Inr (Some r)"
  by (simp add: check_def)

lemma obind_eq: "obind m f = Inr (Some r) \<longleftrightarrow> (\<exists>a. m = Inr (Some a) \<and> f a = Inr (Some r))"
  by (auto simp: obind_def sbind_eq_Inr_iff split: option.splits)

lemma follow_jump_pc: "follow_jump lastpc reg pc lst b = Inr (Some (pc', lst')) \<Longrightarrow> pc \<le> pc'"
  by (auto simp: follow_jump_def sbind_eq_Inr_iff lift_def chk32_def split: if_splits sum.splits)

lemma op_effect_pc: "op_effect pt lastpc reg pc lst op a b c = Inr (Some (pc', lst')) \<Longrightarrow> pc \<le> pc'"
  by (cases op) (auto simp: op_effect_def check_eq obind_eq sbind_eq_Inr_iff Let_def split: if_splits dest: follow_jump_pc)

lemma symb_step_pc: "symb_step pt lastpc reg pc lst = Inr (Some (pc', lst')) \<Longrightarrow> pc \<le> pc'"
  by (auto simp: symb_step_def check_eq obind_eq sbind_eq_Inr_iff Let_def dest: op_effect_pc)

function symb_loop :: "Proto \<Rightarrow> nat \<Rightarrow> int \<Rightarrow> nat \<Rightarrow> nat \<Rightarrow> nat option lres" where
  "symb_loop pt lastpc reg pc lst =
    (if pc < lastpc then
       sbind (symb_step pt lastpc reg pc lst) (\<lambda>r. case r of
         None \<Rightarrow> Inr None
       | Some (pc', lst') \<Rightarrow> symb_loop pt lastpc reg (pc' + 1) lst')
     else Inr (Some lst))"
  by pat_completeness auto
termination
  by (relation "measure (\<lambda>(pt, lastpc, reg, pc, lst). lastpc - pc)") (auto dest!: symb_step_pc)

declare symb_loop.simps [simp del]

definition symbexec :: "Proto \<Rightarrow> nat \<Rightarrow> int \<Rightarrow> Instruction option lres" where
  "symbexec pt lastpc reg =
    obind (precheck pt) (\<lambda>_.
    obind (symb_loop pt lastpc reg 0 (sizecode pt - 1)) (\<lambda>lst.
    sbind (code_at pt lst) (\<lambda>i. Inr (Some i))))"

definition luaG_checkcode :: "Proto \<Rightarrow> bool lres" where
  "luaG_checkcode pt =
    sbind (symbexec pt (sizecode pt) NO_REG) (\<lambda>r. Inr (case r of None \<Rightarrow> False | Some i \<Rightarrow> i \<noteq> 0))"

text \<open>The instruction found by tracing a register that is a MOVE moves into that register.\<close>

definition moves_to :: "Proto \<Rightarrow> int \<Rightarrow> nat \<Rightarrow> bool" where
  "moves_to pt reg lst = (\<forall>i. code_at pt lst = Inr i \<longrightarrow> is_op i OP_MOVE \<longrightarrow> GETARG_A i = reg)"

lemma op_effect_moves:
  assumes "op_effect pt n reg pc lst op a b c = Inr (Some (pc', lst'))"
  shows "lst' = lst \<or> lst' = pc \<and> op \<noteq> OP_MOVE"
  using assms by (cases op) (auto simp: op_effect_def follow_jump_def check_eq obind_eq sbind_eq_Inr_iff Let_def split: if_splits)

lemma symb_step_moves:
  assumes "symb_step pt n reg pc lst = Inr (Some (pc', lst'))" "moves_to pt reg lst"
  shows "moves_to pt reg lst'"
proof -
  obtain i b c ta where i: "code_at pt pc = Inr i" "GET_OPCODE i < NUM_OPCODES"
    "op_effect pt n reg pc (if ta \<and> GETARG_A i = reg then pc else lst) (opcodes ! GET_OPCODE i) (GETARG_A i) b c = Inr (Some (pc', lst'))"
    using assms(1) unfolding symb_step_def by (auto simp: check_eq obind_eq sbind_eq_Inr_iff Let_def)
  have "opcodes ! GET_OPCODE i = OP_MOVE" if "is_op i OP_MOVE"
    using opnum_opcode [of "GET_OPCODE i"] opcode_opnum(1) [of OP_MOVE] that i(2) by (simp add: is_op_def opcode_of_def split: if_splits)
  then show ?thesis using op_effect_moves [OF i(3)] assms(2) i(1) by (auto simp: moves_to_def split: if_splits)
qed

lemma symb_loop_moves: "symb_loop pt n reg pc lst = Inr (Some r) \<Longrightarrow> moves_to pt reg lst \<Longrightarrow> moves_to pt reg r"
proof (induction pt n reg pc lst rule: symb_loop.induct)
  case (1 pt n reg pc lst)
  show ?case
  proof (cases "pc < n")
    case True
    then obtain pc' lst' where s: "symb_step pt n reg pc lst = Inr (Some (pc', lst'))" "symb_loop pt n reg (pc' + 1) lst' = Inr (Some r)"
      using 1(2) by (subst (asm) symb_loop.simps) (auto simp: sbind_eq_Inr_iff split: option.splits)
    show ?thesis by (rule 1(1) [OF True s(1) refl refl s(2) symb_step_moves [OF s(1) 1(3)]])
  next
    case False
    then show ?thesis using 1(2,3) by (simp add: symb_loop.simps)
  qed
qed

lemma op_distinct: "is_op i op \<Longrightarrow> is_op i op' \<Longrightarrow> op = op'"
  unfolding is_op_def by (metis opcode_opnum(1) option.inject)

lemma symbexec_move:
  assumes "symbexec pt n reg = Inr (Some i)" "is_op i OP_MOVE"
  shows "GETARG_A i = reg"
proof -
  obtain r where r: "precheck pt = Inr (Some ())" "symb_loop pt n reg 0 (sizecode pt - 1) = Inr (Some r)" "code_at pt r = Inr i"
    using assms(1) by (auto simp: symbexec_def obind_eq sbind_eq_Inr_iff)
  have "\<exists>i. code_at pt (sizecode pt - 1) = Inr i \<and> is_op i OP_RETURN"
    using r(1) unfolding precheck_def by (auto simp: check_eq sbind_eq_Inr_iff split: if_splits)
  then have "moves_to pt reg (sizecode pt - 1)" by (auto simp: moves_to_def dest: op_distinct)
  from symb_loop_moves [OF r(2) this] show ?thesis using r(3) assms(2) by (simp add: moves_to_def)
qed

section \<open>Names for values\<close>

text \<open>
  \<open>svalue\<close> of something that is not a string, a name that is missing and an index past the names are reads
  through a wrong pointer.
\<close>

definition svalue :: "TValue \<Rightarrow> bytes lres" where
  "svalue v = (case v of String s \<Rightarrow> Inr s | _ \<Rightarrow> Inl (CFault ReadOOB))"

definition kname :: "Proto \<Rightarrow> int \<Rightarrow> bytes lres" where
  "kname p c =
    (if ISK c then
       sbind (lift (rd (p_k p) (nat (INDEXK c)))) (\<lambda>v. case v of String s \<Rightarrow> Inr s | _ \<Rightarrow> Inr (str ''?''))
     else Inr (str ''?''))"

definition upvalname :: "Proto \<Rightarrow> int \<Rightarrow> bytes lres" where
  "upvalname p u =
    (if p_upvalues p \<noteq> [] then
       sbind (lift (rd (p_upvalues p) (nat u))) (\<lambda>n. case n of Some s \<Rightarrow> Inr s | None \<Rightarrow> Inl (CFault NullDeref))
     else Inr (str ''?''))"

text \<open>The name of the value in a register of a function of Lua at the position \<open>pc\<close>.\<close>

function getobjname :: "Proto \<Rightarrow> nat \<Rightarrow> int \<Rightarrow> (string \<times> bytes) option lres" where
  "getobjname p pc stackpos =
    sbind (luaF_getlocalname p (stackpos + 1) (int pc)) (\<lambda>name.
    case name of Some s \<Rightarrow> Inr (Some (''local'', s))
    | None \<Rightarrow>
        sbind (symbexec p pc stackpos) (\<lambda>r.
        case r of None \<Rightarrow> Inr None
        | Some i \<Rightarrow>
            if is_op i OP_GETGLOBAL then
              sbind (lift (rd (p_k p) (nat (GETARG_Bx i)))) (\<lambda>v. sbind (svalue v) (\<lambda>s. Inr (Some (''global'', s))))
            else if is_op i OP_MOVE then
              (if GETARG_B i < GETARG_A i then getobjname p pc (GETARG_B i) else Inr None)
            else if is_op i OP_GETTABLE then sbind (kname p (GETARG_C i)) (\<lambda>s. Inr (Some (''field'', s)))
            else if is_op i OP_GETUPVAL then sbind (upvalname p (GETARG_B i)) (\<lambda>s. Inr (Some (''upvalue'', s)))
            else if is_op i OP_SELF then sbind (kname p (GETARG_C i)) (\<lambda>s. Inr (Some (''method'', s)))
            else Inr None))"
  by pat_completeness auto
termination
proof (relation "measure (\<lambda>(p, pc, stackpos). nat stackpos)", simp)
  fix p pc stackpos and name :: "bytes option" and r i
  assume i: "symbexec p pc stackpos = Inr r" "r = Some i" "is_op i OP_MOVE" "GETARG_B i < GETARG_A i"
  then have "GETARG_A i = stackpos" using symbexec_move by simp
  then show "((p, pc, GETARG_B i), (p, pc, stackpos)) \<in> measure (\<lambda>(p, pc, stackpos). nat stackpos)"
    using i(4) arg_range(3) [of i] by simp
qed

declare getobjname.simps [simp del]

text \<open>
  The name of a function being called, from the instruction that calls it. \<open>lost\<close> says that the frame lost
  calls to tail calls, \<open>caller\<close> is the function below it with its position, if it is one of Lua.
\<close>

definition getfuncname :: "bool \<Rightarrow> (Proto \<times> nat) option \<Rightarrow> (string \<times> bytes) option lres" where
  "getfuncname lost caller =
    (case caller of
       None \<Rightarrow> Inr None
     | Some (p, pc) \<Rightarrow>
         if lost then Inr None
         else
           sbind (code_at p pc) (\<lambda>i.
           if is_op i OP_CALL \<or> is_op i OP_TAILCALL \<or> is_op i OP_TFORLOOP then getobjname p pc (GETARG_A i) else Inr None))"

section \<open>Error messages\<close>

definition chars :: "bytes \<Rightarrow> string" where
  "chars s = map (\<lambda>b. char_of (unat b)) s"

text \<open>\<open>getline\<close>, and the position put before a message when the function being run is one of Lua.\<close>

definition currentline :: "Proto \<Rightarrow> nat \<Rightarrow> int lres" where
  "currentline p pc = (if p_lineinfo p \<noteq> [] then lift (rd (p_lineinfo p) pc) else Inr 0)"

definition addinfo :: "(Proto \<times> nat) option \<Rightarrow> string \<Rightarrow> string lres" where
  "addinfo ci msg =
    (case ci of
       None \<Rightarrow> Inr msg
     | Some (p, pc) \<Rightarrow>
         sbind (currentline p pc) (\<lambda>line.
         case p_source p of
           None \<Rightarrow> Inl (CFault NullDeref)
         | Some src \<Rightarrow> Inr (chars (luaO_chunkid src LUA_IDSIZE) @ '':'' @ dec_string line @ '': '' @ msg)))"

definition luaG_runerror :: "(Proto \<times> nat) option \<Rightarrow> string \<Rightarrow> 'a lres" where
  "luaG_runerror ci msg = sbind (addinfo ci msg) (\<lambda>msg. raise msg)"

text \<open>\<open>pos\<close> is the place of the value in the frame of the running function, if it is there.\<close>

definition luaG_typeerror :: "(Proto \<times> nat) option \<Rightarrow> int option \<Rightarrow> TValue \<Rightarrow> string \<Rightarrow> 'a lres" where
  "luaG_typeerror ci pos v op =
    (let t = lua_typename v in
     sbind (case (pos, ci) of (Some n, Some (p, pc)) \<Rightarrow> getobjname p pc n | _ \<Rightarrow> Inr None) (\<lambda>kind.
     case kind of
       Some (k, name) \<Rightarrow> luaG_runerror ci (''attempt to '' @ op @ '' '' @ k @ '' '' @ [CHR 0x27] @ chars name @ [CHR 0x27] @ '' (a '' @ t @ '' value)'')
     | None \<Rightarrow> luaG_runerror ci (''attempt to '' @ op @ '' a '' @ t @ '' value'')))"

definition luaG_concaterror :: "(Proto \<times> nat) option \<Rightarrow> TValue \<times> int option \<Rightarrow> TValue \<times> int option \<Rightarrow> 'a lres" where
  "luaG_concaterror ci p1 p2 =
    (let p1 = (case fst p1 of String _ \<Rightarrow> p2 | Number _ \<Rightarrow> p2 | _ \<Rightarrow> p1) in luaG_typeerror ci (snd p1) (fst p1) ''concatenate'')"

text \<open>\<open>tonum\<close> says whether the first operand converts to a number.\<close>

definition luaG_aritherror :: "(Proto \<times> nat) option \<Rightarrow> (TValue \<Rightarrow> bool) \<Rightarrow> TValue \<times> int option \<Rightarrow> TValue \<times> int option \<Rightarrow> 'a lres" where
  "luaG_aritherror ci tonum p1 p2 =
    (let p2 = (if \<not> tonum (fst p1) then p1 else p2) in luaG_typeerror ci (snd p2) (fst p2) ''perform arithmetic on'')"

definition luaG_ordererror :: "(Proto \<times> nat) option \<Rightarrow> TValue \<Rightarrow> TValue \<Rightarrow> 'a lres" where
  "luaG_ordererror ci p1 p2 =
    (let t1 = lua_typename p1; t2 = lua_typename p2 in
     if t1 ! 2 = t2 ! 2 then luaG_runerror ci (''attempt to compare two '' @ t1 @ '' values'')
     else luaG_runerror ci (''attempt to compare '' @ t1 @ '' with '' @ t2))"

section \<open>Information about a function\<close>

record lua_Debug =
  d_source :: bytes
  d_short_src :: bytes
  d_linedefined :: int
  d_lastlinedefined :: int
  d_currentline :: int
  d_what :: string
  d_name :: "bytes option"
  d_namewhat :: string
  d_nups :: int

text \<open>A closure is a C function or has a prototype.\<close>

definition funcinfo :: "lua_Debug \<Rightarrow> Proto option \<Rightarrow> lua_Debug lres" where
  "funcinfo ar cl =
    sbind (case cl of
        None \<Rightarrow> Inr (ar\<lparr>d_source := str ''=[C]'', d_linedefined := - 1, d_lastlinedefined := - 1, d_what := ''C''\<rparr>)
      | Some p \<Rightarrow>
          (case p_source p of
             None \<Rightarrow> Inl (CFault NullDeref)
           | Some src \<Rightarrow> Inr (ar\<lparr>d_source := src, d_linedefined := p_linedefined p, d_lastlinedefined := p_lastlinedefined p,
               d_what := (if p_linedefined p = 0 then ''main'' else ''Lua'')\<rparr>)))
      (\<lambda>ar. Inr (ar\<lparr>d_short_src := luaO_chunkid (d_source ar) LUA_IDSIZE\<rparr>))"

definition info_tailcall :: "lua_Debug \<Rightarrow> lua_Debug" where
  "info_tailcall ar = ar\<lparr>d_name := Some [], d_namewhat := [], d_what := ''tail'', d_lastlinedefined := - 1, d_linedefined := - 1,
    d_currentline := - 1, d_source := str ''=(tail call)'', d_short_src := luaO_chunkid (str ''=(tail call)'') LUA_IDSIZE, d_nups := 0\<rparr>"

end
