(* ===== verification/LDebugProps.thy ===== *)
theory LDebugProps
  imports LDebug
begin

text \<open>
  What the code checker guarantees: it reads nothing out of range, and in code it accepts the
  machine goes from instruction to instruction inside the code.
\<close>

section \<open>Where instructions start\<close>

text \<open>A SETLIST whose third argument is 0 is followed by a word that is not an instruction.\<close>

definition with_count :: "Proto \<Rightarrow> nat \<Rightarrow> bool" where
  "with_count pt pc = (pc < sizecode pt \<and> is_op (p_code pt ! pc) OP_SETLIST \<and> GETARG_C (p_code pt ! pc) = 0)"

definition instr_end :: "Proto \<Rightarrow> nat \<Rightarrow> nat" where
  "instr_end pt pc = pc + 1 + (if with_count pt pc then 1 else 0)"

fun nth_start :: "Proto \<Rightarrow> nat \<Rightarrow> nat" where
  "nth_start pt 0 = 0"
| "nth_start pt (Suc n) = instr_end pt (nth_start pt n)"

definition instr_start :: "Proto \<Rightarrow> nat \<Rightarrow> bool" where
  "instr_start pt pc = (\<exists>n. pc = nth_start pt n)"

lemma start_0 [simp]: "instr_start pt 0"
  unfolding instr_start_def by (rule exI [of _ 0]) simp

lemma start_end: "instr_start pt pc \<Longrightarrow> instr_start pt (instr_end pt pc)"
  unfolding instr_start_def by (metis nth_start.simps(2))

lemma nth_start_mono: "strict_mono (nth_start pt)"
  by (rule strict_mono_Suc_iff [THEN iffD2]) (simp add: instr_end_def)

lemma start_between:
  assumes "instr_start pt a" "instr_start pt b" "a < b"
  shows "instr_end pt a \<le> b"
proof -
  obtain m n where mn: "a = nth_start pt m" "b = nth_start pt n" using assms by (auto simp: instr_start_def)
  then have "Suc m \<le> n" using assms(3) strict_mono_less [OF nth_start_mono] by (metis Suc_leI)
  then have "nth_start pt (Suc m) \<le> nth_start pt n" using strict_mono_less_eq [OF nth_start_mono] by blast
  then show ?thesis by (simp add: mn)
qed

lemma start_cover: "instr_start pt d \<or> (\<exists>e. d = Suc e \<and> instr_start pt e \<and> with_count pt e)"
proof (induction d)
  case (Suc d)
  then show ?case using start_end [of pt d] start_end [of pt "d - 1"] by (auto simp: instr_end_def split: if_splits)
qed simp

lemma start_Suc: "instr_start pt (Suc d) \<longleftrightarrow> \<not> (instr_start pt d \<and> with_count pt d)"
proof
  assume s: "instr_start pt (Suc d)"
  show "\<not> (instr_start pt d \<and> with_count pt d)"
    using start_between [OF _ s, of d] by (auto simp: instr_end_def)
qed (use start_cover [of pt "Suc d"] in auto)

lemma code_at_in [simp]: "pc < sizecode pt \<Longrightarrow> code_at pt pc = Inr (p_code pt ! pc)"
  by (simp add: code_at_def)

lemma code_at_eq: "code_at pt pc = Inr i \<longleftrightarrow> pc < sizecode pt \<and> i = p_code pt ! pc"
  by (auto simp: code_at_def rd_def)

text \<open>The test of the checker on jump targets: the run before a start has even length.\<close>

lemma setlist_run_start: "dest \<le> sizecode pt \<Longrightarrow> \<exists>j. setlist_run pt dest = Inr j \<and> (instr_start pt dest \<longleftrightarrow> even j)"
proof (induction dest)
  case (Suc dest)
  then obtain j where j: "setlist_run pt dest = Inr j" "instr_start pt dest \<longleftrightarrow> even j" by auto
  have w: "with_count pt dest \<longleftrightarrow> is_op (p_code pt ! dest) OP_SETLIST \<and> GETARG_C (p_code pt ! dest) = 0"
    using Suc.prems by (simp add: with_count_def)
  show ?case using j w Suc.prems by (auto simp: start_Suc)
qed simp

section \<open>What a step of the checker has checked\<close>

definition step_ok :: "Proto \<Rightarrow> nat \<Rightarrow> bool" where
  "step_ok pt pc = (\<exists>lst r. symb_step pt (sizecode pt) NO_REG pc lst = Inr (Some r))"

lemma lift_chk_eq: "lift (chk32 x) = Inr y \<longleftrightarrow> int_min \<le> x \<and> x \<le> int_max \<and> y = x"
  by (auto simp: lift_def chk32_def split: sum.splits)

lemma lift_rd_eq: "lift (rd xs n) = Inr y \<longleftrightarrow> n < length xs \<and> y = xs ! n"
  by (auto simp: lift_def rd_def split: sum.splits)

lemmas step_eqs = check_eq obind_eq sbind_eq_Inr_iff lift_chk_eq lift_rd_eq code_at_eq Let_def

lemma op_effect_next:
  assumes "op_effect pt n NO_REG pc lst op a b c = Inr (Some (pc', lst'))"
  shows "pc' = pc + (if op = OP_SETLIST \<and> c = 0 then 1 else 0)"
  using assms by (cases op) (auto simp: op_effect_def follow_jump_def step_eqs split: if_splits)

lemma op_of_num: "n < NUM_OPCODES \<Longrightarrow> opnum (opcodes ! n) = n"
  using opnum_opcode [of n "opcodes ! n"] by (simp add: opcode_of_def)

lemma is_op_iff: "GET_OPCODE i < NUM_OPCODES \<Longrightarrow> is_op i op \<longleftrightarrow> opcodes ! GET_OPCODE i = op"
  using op_of_num opcode_opnum [of op] by (auto simp: is_op_def opcode_of_def NUM_OPCODES_def)

text \<open>The modes of the operations that matter for the flow of control.\<close>

lemma opnum_vals:
  "opnum OP_LOADBOOL = 2" "opnum OP_GETGLOBAL = 5" "opnum OP_SETGLOBAL = 7" "opnum OP_JMP = 22" "opnum OP_EQ = 23" "opnum OP_LT = 24"
  "opnum OP_LE = 25" "opnum OP_TEST = 26" "opnum OP_TESTSET = 27" "opnum OP_FORLOOP = 31" "opnum OP_FORPREP = 32" "opnum OP_TFORLOOP = 33"
  "opnum OP_SETLIST = 34" "opnum OP_CLOSURE = 36"
  using op_of_num [of 2] op_of_num [of 5] op_of_num [of 7] op_of_num [of 22] op_of_num [of 23] op_of_num [of 24] op_of_num [of 25]
    op_of_num [of 26] op_of_num [of 27] op_of_num [of 31] op_of_num [of 32] op_of_num [of 33] op_of_num [of 34] op_of_num [of 36]
  by (simp_all add: opcodes_def NUM_OPCODES_def)

lemma opmodes_at:
  "rd luaP_opmodes 2 = Inr (opmode 0 1 OpArgU OpArgU iABC)" "rd luaP_opmodes 5 = Inr (opmode 0 1 OpArgK OpArgN iABx)"
  "rd luaP_opmodes 7 = Inr (opmode 0 0 OpArgK OpArgN iABx)" "rd luaP_opmodes 22 = Inr (opmode 0 0 OpArgR OpArgN iAsBx)"
  "rd luaP_opmodes 23 = Inr (opmode 1 0 OpArgK OpArgK iABC)" "rd luaP_opmodes 24 = Inr (opmode 1 0 OpArgK OpArgK iABC)"
  "rd luaP_opmodes 25 = Inr (opmode 1 0 OpArgK OpArgK iABC)" "rd luaP_opmodes 26 = Inr (opmode 1 1 OpArgR OpArgU iABC)"
  "rd luaP_opmodes 27 = Inr (opmode 1 1 OpArgR OpArgU iABC)" "rd luaP_opmodes 31 = Inr (opmode 0 1 OpArgR OpArgN iAsBx)"
  "rd luaP_opmodes 32 = Inr (opmode 0 1 OpArgR OpArgN iAsBx)" "rd luaP_opmodes 33 = Inr (opmode 1 0 OpArgN OpArgU iABC)"
  "rd luaP_opmodes 34 = Inr (opmode 0 0 OpArgU OpArgU iABC)" "rd luaP_opmodes 36 = Inr (opmode 0 1 OpArgU OpArgN iABx)"
  by (simp_all add: luaP_opmodes_def)

lemmas mode_defs = opnum_vals opmodes_at getOpMode_def getBMode_def getCMode_def testTMode_def opmode_def

lemma modes_abc:
  "getOpMode (opnum OP_SETLIST) = Inr 0" "getOpMode (opnum OP_LOADBOOL) = Inr 0"
  by (simp_all add: mode_defs)

lemma modes_jump:
  "op = OP_JMP \<or> op = OP_FORLOOP \<or> op = OP_FORPREP \<Longrightarrow> getOpMode (opnum op) = Inr 2 \<and> getBMode (opnum op) = Inr 2"
  "getOpMode (opnum OP_CLOSURE) = Inr 1"
  by (elim disjE; simp add: mode_defs) (simp add: mode_defs)

lemma tmode_tests:
  "op = OP_EQ \<or> op = OP_LT \<or> op = OP_LE \<or> op = OP_TEST \<or> op = OP_TESTSET \<or> op = OP_TFORLOOP \<Longrightarrow> testTMode (opnum op) = Inr True"
  by (elim disjE; simp add: mode_defs)

lemma stepD:
  assumes "symb_step pt n NO_REG pc lst = Inr (Some (pc', lst'))"
  obtains b c lst1 t where "pc < sizecode pt" "GET_OPCODE (p_code pt ! pc) < NUM_OPCODES" "isreg pt (GETARG_A (p_code pt ! pc))"
    "operands pt pc (p_code pt ! pc) (GET_OPCODE (p_code pt ! pc)) = Inr (Some (b, c))"
    "testTMode (GET_OPCODE (p_code pt ! pc)) = Inr t" "testskip pt pc t = Inr (Some ())"
    "op_effect pt n NO_REG pc lst1 (opcodes ! GET_OPCODE (p_code pt ! pc)) (GETARG_A (p_code pt ! pc)) b c = Inr (Some (pc', lst'))"
proof -
  have l: "lift m = Inr x \<longleftrightarrow> m = Inr x" for m :: "bool cres" and x by (cases m) auto
  show ?thesis using assms that unfolding symb_step_def by (auto simp: step_eqs l)
qed

lemma operands_abc:
  assumes "operands pt pc i op = Inr (Some (b, c))" "getOpMode op = Inr 0"
  shows "b = GETARG_B i \<and> c = GETARG_C i"
  using assms by (auto simp: operands_def step_eqs)

lemma operands_jump:
  assumes "operands pt pc i op = Inr (Some (b, c))" "getOpMode op = Inr 2" "getBMode op = Inr 2"
  shows "b = GETARG_sBx i \<and> 0 \<le> int pc + 1 + b \<and> int pc + 1 + b < int (sizecode pt) \<and> instr_start pt (nat (int pc + 1 + b))"
  using assms setlist_run_start [of "nat (int pc + 1 + b)" pt] by (auto simp: operands_def step_eqs split: if_splits)

lemma operands_abx:
  assumes "operands pt pc i op = Inr (Some (b, c))" "getOpMode op = Inr 1"
  shows "b = GETARG_Bx i"
  using assms by (auto simp: operands_def step_eqs split: if_splits)

lemma step_next:
  assumes "symb_step pt n NO_REG pc lst = Inr (Some (pc', lst'))"
  shows "pc' + 1 = instr_end pt pc"
  using assms
proof (rule stepD)
  fix b c lst1
  let ?i = "p_code pt ! pc"
  assume a: "pc < sizecode pt" "GET_OPCODE ?i < NUM_OPCODES" "operands pt pc ?i (GET_OPCODE ?i) = Inr (Some (b, c))"
    "op_effect pt n NO_REG pc lst1 (opcodes ! GET_OPCODE ?i) (GETARG_A ?i) b c = Inr (Some (pc', lst'))"
  have "c = GETARG_C ?i" if "opcodes ! GET_OPCODE ?i = OP_SETLIST"
    using operands_abc [OF a(3)] modes_abc(1) op_of_num [OF a(2)] that by simp
  then show ?thesis using op_effect_next [OF a(4)] a(1) is_op_iff [OF a(2)] by (auto simp: instr_end_def with_count_def)
qed

text \<open>All instructions have been checked when the loop ends.\<close>

lemma symb_loop_checks:
  "symb_loop pt n NO_REG pc lst = Inr (Some r) \<Longrightarrow> n = sizecode pt \<Longrightarrow> instr_start pt pc \<Longrightarrow>
    instr_start pt q \<Longrightarrow> pc \<le> q \<Longrightarrow> q < n \<Longrightarrow> step_ok pt q"
proof (induction pt n "NO_REG" pc lst rule: symb_loop.induct)
  case (1 pt n pc lst)
  obtain pc' lst' where s: "symb_step pt n NO_REG pc lst = Inr (Some (pc', lst'))" "symb_loop pt n NO_REG (pc' + 1) lst' = Inr (Some r)"
    using 1(2,6,7) by (subst (asm) symb_loop.simps) (auto simp: sbind_eq_Inr_iff split: option.splits if_splits)
  have e: "pc' + 1 = instr_end pt pc" by (rule step_next [OF s(1)])
  show ?case
  proof (cases "q = pc")
    case True
    then show ?thesis using s(1) 1(3) by (auto simp: step_ok_def)
  next
    case False
    then have "pc' + 1 \<le> q" using start_between [OF 1(4,5)] 1(6) e by simp
    then show ?thesis using 1(1) [OF _ s(1) refl refl s(2) 1(3) _ 1(5)] start_end [OF 1(4)] e 1(6,7) by simp
  qed
qed

lemma checkcodeD:
  assumes "luaG_checkcode pt = Inr True"
  shows "precheck pt = Inr (Some ())" "\<And>q. instr_start pt q \<Longrightarrow> q < sizecode pt \<Longrightarrow> step_ok pt q"
proof -
  obtain r where r: "precheck pt = Inr (Some ())" "symb_loop pt (sizecode pt) NO_REG 0 (sizecode pt - 1) = Inr (Some r)"
    using assms by (auto simp: luaG_checkcode_def symbexec_def step_eqs split: option.splits)
  then show "precheck pt = Inr (Some ())" by simp
  show "step_ok pt q" if "instr_start pt q" "q < sizecode pt" for q
    using symb_loop_checks [OF r(2) refl start_0 that(1) _ that(2)] by simp
qed

lemma precheck_last:
  "precheck pt = Inr (Some ()) \<Longrightarrow> 0 < sizecode pt \<and> is_op (p_code pt ! (sizecode pt - 1)) OP_RETURN"
  by (auto simp: precheck_def step_eqs split: if_splits)

section \<open>The flow of control\<close>

text \<open>
  The positions where the virtual machine (\<open>luaV_execute\<close>) may continue after the instruction at \<open>pc\<close>.
  A test looks at the jump after it; LOADBOOL skips an instruction when its third argument is not zero;
  SETLIST skips its count and CLOSURE the instructions that tell the upvalues.
\<close>

definition jump_dest :: "Proto \<Rightarrow> nat \<Rightarrow> int" where
  "jump_dest pt pc = int pc + 1 + GETARG_sBx (p_code pt ! pc)"

definition flow :: "Proto \<Rightarrow> nat \<Rightarrow> int set" where
  "flow pt pc =
    (let i = p_code pt ! pc; op = opcodes ! GET_OPCODE i in
     if op \<in> {OP_JMP, OP_FORPREP} then {jump_dest pt pc}
     else if op = OP_FORLOOP then {int pc + 1, jump_dest pt pc}
     else if op \<in> {OP_EQ, OP_LT, OP_LE, OP_TEST, OP_TESTSET, OP_TFORLOOP} then {int pc + 2, jump_dest pt (pc + 1)}
     else if op = OP_LOADBOOL then {int pc + (if GETARG_C i \<noteq> 0 then 2 else 1)}
     else if op = OP_SETLIST then {int pc + (if GETARG_C i = 0 then 2 else 1)}
     else if op = OP_CLOSURE then {int pc + 1 + uint (p_nups (p_p pt ! nat (GETARG_Bx i)))}
     else if op = OP_RETURN then {}
     else {int pc + 1})"

definition inside :: "Proto \<Rightarrow> int \<Rightarrow> bool" where
  "inside pt q = (0 \<le> q \<and> q < int (sizecode pt) \<and> instr_start pt (nat q))"

lemma inside_int [simp]: "inside pt (int pc) \<longleftrightarrow> pc < sizecode pt \<and> instr_start pt pc"
  by (simp add: inside_def)

lemma step_ok_valid:
  assumes "step_ok pt pc"
  shows "pc < sizecode pt" "GET_OPCODE (p_code pt ! pc) < NUM_OPCODES" "isreg pt (GETARG_A (p_code pt ! pc))"
  using assms unfolding step_ok_def by (auto elim!: stepD)

lemma step_ok_jump:
  assumes "step_ok pt pc" "is_op (p_code pt ! pc) op" "op = OP_JMP \<or> op = OP_FORLOOP \<or> op = OP_FORPREP"
  shows "inside pt (jump_dest pt pc)"
proof -
  obtain lst pc' lst' where "symb_step pt (sizecode pt) NO_REG pc lst = Inr (Some (pc', lst'))" using assms(1) by (auto simp: step_ok_def)
  then show ?thesis
  proof (rule stepD)
    fix b c
    assume "operands pt pc (p_code pt ! pc) (GET_OPCODE (p_code pt ! pc)) = Inr (Some (b, c))"
    then have "operands pt pc (p_code pt ! pc) (opnum op) = Inr (Some (b, c))" using assms(2) by (simp add: is_op_def)
    then show ?thesis using operands_jump modes_jump(1) [OF assms(3)] by (auto simp: inside_def jump_dest_def)
  qed
qed

lemma step_ok_test:
  assumes "step_ok pt pc" "is_op (p_code pt ! pc) op"
    "op = OP_EQ \<or> op = OP_LT \<or> op = OP_LE \<or> op = OP_TEST \<or> op = OP_TESTSET \<or> op = OP_TFORLOOP"
  shows "pc + 2 < sizecode pt \<and> is_op (p_code pt ! (pc + 1)) OP_JMP"
proof -
  obtain lst pc' lst' where "symb_step pt (sizecode pt) NO_REG pc lst = Inr (Some (pc', lst'))" using assms(1) by (auto simp: step_ok_def)
  then show ?thesis
  proof (rule stepD)
    fix t
    assume "testTMode (GET_OPCODE (p_code pt ! pc)) = Inr t" "testskip pt pc t = Inr (Some ())"
    then show ?thesis using tmode_tests [OF assms(3)] assms(2) by (auto simp: is_op_def testskip_def step_eqs)
  qed
qed

lemma step_ok_effect:
  assumes "step_ok pt pc"
  obtains b c lst1 r where "operands pt pc (p_code pt ! pc) (GET_OPCODE (p_code pt ! pc)) = Inr (Some (b, c))"
    "op_effect pt (sizecode pt) NO_REG pc lst1 (opcodes ! GET_OPCODE (p_code pt ! pc)) (GETARG_A (p_code pt ! pc)) b c = Inr (Some r)"
  using assms unfolding step_ok_def by (auto elim!: stepD)

lemma upvalue_ops_all:
  "upvalue_ops pt pc n = Inr (Some ()) \<Longrightarrow>
    \<forall>j. pc < j \<longrightarrow> j \<le> pc + n \<longrightarrow> is_op (p_code pt ! j) OP_GETUPVAL \<or> is_op (p_code pt ! j) OP_MOVE"
proof (induction n arbitrary: pc)
  case (Suc n)
  then have u: "is_op (p_code pt ! (pc + 1)) OP_GETUPVAL \<or> is_op (p_code pt ! (pc + 1)) OP_MOVE" "upvalue_ops pt (pc + 1) n = Inr (Some ())"
    by (auto simp: step_eqs)
  show ?case
  proof (intro allI impI)
    fix j
    assume "pc < j" "j \<le> pc + Suc n"
    then show "is_op (p_code pt ! j) OP_GETUPVAL \<or> is_op (p_code pt ! j) OP_MOVE"
      using u(1) Suc.IH [OF u(2)] by (cases "j = pc + 1") auto
  qed
qed simp

lemma starts_over:
  "instr_start pt pc \<Longrightarrow> \<not> with_count pt pc \<Longrightarrow> \<forall>j. pc < j \<longrightarrow> j \<le> pc + n \<longrightarrow> \<not> is_op (p_code pt ! j) OP_SETLIST \<Longrightarrow>
    instr_start pt (pc + 1 + n)"
proof (induction n)
  case 0
  then show ?case by (simp add: start_Suc)
next
  case (Suc n)
  then have "instr_start pt (pc + 1 + n)" by simp
  moreover have "\<not> with_count pt (pc + 1 + n)" using Suc.prems(3) by (simp add: with_count_def)
  ultimately show ?case by (simp add: start_Suc)
qed

lemma step_ok_flow:
  assumes ok: "step_ok pt pc" "instr_start pt pc" "instr_start pt (pc + 1) \<and> pc + 1 < sizecode pt \<longrightarrow> step_ok pt (pc + 1)"
    and last: "is_op (p_code pt ! (sizecode pt - 1)) OP_RETURN"
    and lb: "is_op (p_code pt ! pc) OP_LOADBOOL \<Longrightarrow> GETARG_C (p_code pt ! pc) \<le> 1" and q: "q \<in> flow pt pc"
  shows "inside pt q"
proof -
  let ?i = "p_code pt ! pc"
  define op where "op = opcodes ! GET_OPCODE ?i"
  note v = step_ok_valid [OF ok(1)]
  have op: "is_op ?i op'  \<longleftrightarrow> op' = op" for op' using is_op_iff [OF v(2)] by (auto simp: op_def)
  have num2: "opcodes ! GET_OPCODE ?i = op" by (simp add: op_def)
  have num: "GET_OPCODE ?i = opnum op" using op by (simp add: is_op_def)
  have next_in: "inside pt (int (pc + 1))" if "op \<noteq> OP_RETURN" "\<not> with_count pt pc"
  proof -
    have "pc \<noteq> sizecode pt - 1" using last op that(1) by metis
    then show ?thesis using v(1) ok(2) that(2) by (auto simp: start_Suc simp del: of_nat_Suc of_nat_add)
  qed
  obtain b c lst1 r where e: "operands pt pc ?i (opnum op) = Inr (Some (b, c))"
    "op_effect pt (sizecode pt) NO_REG pc lst1 op (GETARG_A ?i) b c = Inr (Some r)"
    using step_ok_effect [OF ok(1)] unfolding num2 unfolding num .
  have nc: "op \<noteq> OP_SETLIST \<Longrightarrow> \<not> with_count pt pc" using op by (auto simp: with_count_def)
  have fl: "flow pt pc = (if op \<in> {OP_JMP, OP_FORPREP} then {jump_dest pt pc}
     else if op = OP_FORLOOP then {int pc + 1, jump_dest pt pc}
     else if op \<in> {OP_EQ, OP_LT, OP_LE, OP_TEST, OP_TESTSET, OP_TFORLOOP} then {int pc + 2, jump_dest pt (pc + 1)}
     else if op = OP_LOADBOOL then {int pc + (if GETARG_C ?i \<noteq> 0 then 2 else 1)}
     else if op = OP_SETLIST then {int pc + (if GETARG_C ?i = 0 then 2 else 1)}
     else if op = OP_CLOSURE then {int pc + 1 + uint (p_nups (p_p pt ! nat (GETARG_Bx ?i)))}
     else if op = OP_RETURN then {}
     else {int pc + 1})" by (simp only: flow_def Let_def op_def)
  consider (jump) "q = jump_dest pt pc" "op = OP_JMP \<or> op = OP_FORLOOP \<or> op = OP_FORPREP"
    | (test) "q = int pc + 2 \<or> q = jump_dest pt (pc + 1)" "op = OP_EQ \<or> op = OP_LT \<or> op = OP_LE \<or> op = OP_TEST \<or> op = OP_TESTSET \<or> op = OP_TFORLOOP"
    | (loadbool) "q = int pc + 2" "op = OP_LOADBOOL" "GETARG_C ?i \<noteq> 0"
    | (setlist) "q = int pc + 2" "op = OP_SETLIST" "GETARG_C ?i = 0"
    | (closure) "q = int pc + 1 + uint (p_nups (p_p pt ! nat (GETARG_Bx ?i)))" "op = OP_CLOSURE"
    | (step) "q = int (pc + 1)" "op \<noteq> OP_RETURN" "\<not> with_count pt pc"
    using q unfolding fl by (auto simp: with_count_def op split: if_splits)
  then show ?thesis
  proof cases
    case jump
    then show ?thesis using step_ok_jump [OF ok(1)] op by auto
  next
    case test
    then have t: "pc + 2 < sizecode pt" "is_op (p_code pt ! (pc + 1)) OP_JMP" using step_ok_test [OF ok(1)] op by auto
    have "\<not> with_count pt pc" using nc test(2) by auto
    moreover from this have jd: "inside pt (jump_dest pt (pc + 1))" using step_ok_jump [OF _ t(2)] ok(2,3) t(1) by (simp add: start_Suc)
    moreover have "\<not> is_op (p_code pt ! (pc + 1)) OP_SETLIST" using op_distinct [OF t(2)] by blast
    then have "\<forall>j. pc < j \<longrightarrow> j \<le> pc + 1 \<longrightarrow> \<not> is_op (p_code pt ! j) OP_SETLIST" by (metis Suc_eq_plus1 Suc_leI order_antisym)
    ultimately have "instr_start pt (pc + 1 + 1)" using starts_over [OF ok(2)] by blast
    then have "inside pt (int pc + 2)" using t(1) inside_int [of pt "pc + 2"] by (simp add: add.commute)
    then show ?thesis using test(1) jd by auto
  next
    case loadbool
    have "GETARG_C ?i = 1" using lb op loadbool arg_range(5) [of ?i] by (auto simp: order_le_less)
    then have "c = 1" using operands_abc [OF e(1)] modes_abc(2) loadbool(2) by simp
    then have l: "pc + 2 < sizecode pt" "\<not> with_count pt (pc + 1)" using e(2) loadbool(2) by (auto simp: op_effect_def step_eqs with_count_def)
    have "instr_start pt (pc + 1)" using ok(2) nc loadbool(2) by (simp add: start_Suc)
    then have "instr_start pt (Suc (pc + 1))" using l(2) unfolding start_Suc by simp
    then show ?thesis using loadbool(1) l(1) inside_int [of pt "pc + 2"] by (simp add: add.commute)
  next
    case setlist
    have "c = 0" using operands_abc [OF e(1)] modes_abc(1) setlist by simp
    then have "pc + 2 < sizecode pt" using e(2) setlist(2) by (auto simp: op_effect_def step_eqs)
    moreover have "with_count pt pc" using op setlist v(1) by (simp add: with_count_def)
    then have "instr_start pt (pc + 2)" using start_end [OF ok(2)] by (simp add: instr_end_def)
    ultimately show ?thesis using setlist(1) inside_int [of pt "pc + 2"] by (simp add: add.commute)
  next
    case closure
    define nup where "nup = unat (p_nups (p_p pt ! nat (GETARG_Bx ?i)))"
    have "b = GETARG_Bx ?i" using operands_abx [OF e(1)] modes_jump(2) closure(2) by simp
    then have u': "int pc + int nup < int (sizecode pt)" "upvalue_ops pt pc nup = Inr (Some ())"
      using e(2) closure(2) by (auto simp: op_effect_def step_eqs nup_def)
    then have u: "pc + nup < sizecode pt" "upvalue_ops pt pc nup = Inr (Some ())" by linarith+
    have ps: "is_op (p_code pt ! j) OP_GETUPVAL \<or> is_op (p_code pt ! j) OP_MOVE" if "pc < j" "j \<le> pc + nup" for j
      using upvalue_ops_all [OF u(2)] that by blast
    have "\<forall>j. pc < j \<longrightarrow> j \<le> pc + nup \<longrightarrow> \<not> is_op (p_code pt ! j) OP_SETLIST" using ps op_distinct by blast
    then have st: "instr_start pt (pc + 1 + nup)" using starts_over [OF ok(2)] nc closure(2) by blast
    have "pc + nup \<noteq> sizecode pt - 1"
    proof (cases "nup = 0")
      case True
      then show ?thesis using last op closure(2) by auto
    next
      case False
      then have "is_op (p_code pt ! (pc + nup)) OP_GETUPVAL \<or> is_op (p_code pt ! (pc + nup)) OP_MOVE" using ps by simp
      then have "\<not> is_op (p_code pt ! (pc + nup)) OP_RETURN" using op_distinct by blast
      then show ?thesis using last by auto
    qed
    then have "pc + 1 + nup < sizecode pt" using u(1) by linarith
    moreover have "q = int (pc + 1 + nup)" using closure(1) by (simp add: nup_def)
    ultimately show ?thesis using st inside_int [of pt "pc + 1 + nup"] by simp
  next
    case step
    then show ?thesis using next_in by simp
  qed
qed

text \<open>The positions the machine can reach from the start of the code.\<close>

inductive flow_reach :: "Proto \<Rightarrow> int \<Rightarrow> bool" for pt where
  flow_start: "flow_reach pt 0"
| flow_next: "flow_reach pt p \<Longrightarrow> q \<in> flow pt (nat p) \<Longrightarrow> flow_reach pt q"

text \<open>
  C31: code the checker accepts keeps the machine inside: if no LOADBOOL has a third argument above 1, every
  position reached from the start of the code is the first word of an instruction (never the count of a
  SETLIST), with a known operation and a first register in the stack frame.
\<close>

theorem checked_code_stays_inside:
  assumes chk: "luaG_checkcode pt = Inr True"
    and lb: "\<forall>i \<in> set (p_code pt). is_op i OP_LOADBOOL \<longrightarrow> GETARG_C i \<le> 1" and r: "flow_reach pt q"
  shows "inside pt q \<and> GET_OPCODE (p_code pt ! nat q) < NUM_OPCODES \<and> isreg pt (GETARG_A (p_code pt ! nat q))"
proof -
  note c = checkcodeD [OF chk]
  note last = precheck_last [OF c(1)]
  have "inside pt q" using r
  proof (induction rule: flow_reach.induct)
    case flow_start
    then show ?case using last by (simp add: inside_def)
  next
    case (flow_next p q)
    then have p: "nat p < sizecode pt" "instr_start pt (nat p)" by (auto simp: inside_def)
    have ok: "step_ok pt (nat p)" by (rule c(2) [OF p(2,1)])
    show ?case
      using step_ok_flow [OF ok p(2) _ conjunct2 [OF last] _ flow_next.hyps(2)] c(2) lb nth_mem [OF p(1)] by blast
  qed
  then show ?thesis using step_ok_valid [OF c(2)] by (auto simp: inside_def)
qed

section \<open>The checker stays inside the code too\<close>

lemma no_fault_check: "(b \<Longrightarrow> no_fault m) \<Longrightarrow> no_fault (check b m)"
  by (simp add: check_def)

lemma no_fault_obind: "no_fault m \<Longrightarrow> (\<And>a. m = Inr (Some a) \<Longrightarrow> no_fault (f a)) \<Longrightarrow> no_fault (obind m f)"
  unfolding obind_def by (rule no_fault_sbind) (auto split: option.splits)

lemma no_fault_code_at: "pc < sizecode pt \<Longrightarrow> no_fault (code_at pt pc)"
  by simp

lemma no_fault_chk: "\<bar>x\<bar> < 2 ^ 31 \<Longrightarrow> no_fault (lift (chk32 x))"
  by (rule no_fault_lift) (simp add: int_min_def int_max_def)

lemma no_fault_rd: "n < length xs \<Longrightarrow> no_fault (lift (rd xs n))"
  by simp

lemma no_fault_precheck: "no_fault (precheck pt)"
  unfolding precheck_def by (intro no_fault_check) (simp add: no_fault_check)

lemma no_fault_checkopenop: "pc + 1 < sizecode pt \<Longrightarrow> no_fault (checkopenop pt pc)"
  by (simp add: checkopenop_def no_fault_check)

lemma mode_rd: "op < NUM_OPCODES \<Longrightarrow> rd luaP_opmodes op = Inr (luaP_opmodes ! op)"
  by (rule rd_in) (simp add: NUM_OPCODES_def luaP_opmodes_def)

lemma sBx_range: "- 131071 \<le> GETARG_sBx i" "GETARG_sBx i \<le> 131072"
  using arg_range(7,8) [of i] by (simp_all add: GETARG_sBx_def arg_limits field_sizes)

lemma no_fault_operands:
  assumes "pc < sizecode pt" "sizecode pt \<le> 2 ^ 30" "op < NUM_OPCODES"
  shows "no_fault (operands pt pc i op)"
proof -
  have "\<bar>int pc + 1 + GETARG_sBx i\<bar> < 2 ^ 31" using assms sBx_range [of i] by simp
  note c = no_fault_chk [OF this]
  have "no_fault (setlist_run pt (nat dest))" if "dest < int (sizecode pt)" for dest
  proof -
    have "nat dest \<le> sizecode pt" using that by linarith
    then show ?thesis using setlist_run_start [of "nat dest" pt] by auto
  qed
  then show ?thesis
    using c mode_rd [OF assms(3)] unfolding operands_def
    by (auto simp: getOpMode_def getBMode_def getCMode_def Let_def intro!: no_fault_check no_fault_sbind)
qed

lemma operands_small:
  assumes "operands pt pc i op = Inr (Some (b, c))"
  shows "\<bar>b\<bar> < 2 ^ 18"
  using assms arg_range(3,4,7,8) [of i] sBx_range [of i]
  by (auto simp: operands_def step_eqs arg_limits field_sizes split: if_splits)

lemma modes_global:
  "op = OP_GETGLOBAL \<or> op = OP_SETGLOBAL \<Longrightarrow> getOpMode (opnum op) = Inr 1 \<and> getBMode (opnum op) = Inr 3"
  by (elim disjE; simp add: mode_defs)

lemma operands_global:
  assumes "operands pt pc i (opnum op) = Inr (Some (b, c))" "op = OP_GETGLOBAL \<or> op = OP_SETGLOBAL"
  shows "nat b < sizek pt"
  using assms(1) modes_global [OF assms(2)] arg_range(7) [of i] by (auto simp: operands_def step_eqs)

lemma operands_closure:
  assumes "operands pt pc i (opnum OP_CLOSURE) = Inr (Some (b, c))"
  shows "0 \<le> b"
  using operands_abx [OF assms modes_jump(2)] arg_range(7) [of i] by simp

lemma no_fault_upvalue_ops: "pc + n < sizecode pt \<Longrightarrow> no_fault (upvalue_ops pt pc n)"
  by (induction n arbitrary: pc) (auto intro!: no_fault_check)

lemma pc_plus_byte: "int pc + uint w < int n \<longleftrightarrow> pc + unat w < n" for w :: byte
proof -
  have "int (unat w) = uint w" by simp
  then show ?thesis by linarith
qed

lemma no_fault_op_effect:
  assumes pc: "pc < sizecode pt" "sizecode pt \<le> 2 ^ 30" "op \<noteq> OP_RETURN \<Longrightarrow> pc + 1 < sizecode pt"
    and b: "\<bar>b\<bar> < 2 ^ 18" "op = OP_GETGLOBAL \<or> op = OP_SETGLOBAL \<Longrightarrow> nat b < sizek pt" "op = OP_CLOSURE \<Longrightarrow> 0 \<le> b"
  shows "no_fault (op_effect pt n reg pc lst op a b c)"
proof -
  have c: "no_fault (lift (chk32 (int pc + 1 + b)))" "no_fault (lift (chk32 (int pc + 2)))" "no_fault (lift (chk32 (int pc + int (unat (w :: byte)))))" for w
    using pc b(1) uint_lt2p [of w] by (auto intro!: no_fault_chk)
  show ?thesis
    using assms c
    by (cases op) (auto simp: op_effect_def follow_jump_def Let_def lift_chk_eq nat_less_iff pc_plus_byte
      intro!: no_fault_check no_fault_sbind no_fault_obind no_fault_checkopenop no_fault_rd no_fault_upvalue_ops)
qed

lemma no_fault_testskip: "int pc + 2 < 2 ^ 31 \<Longrightarrow> no_fault (testskip pt pc t)"
  unfolding testskip_def by (auto simp: lift_chk_eq intro!: no_fault_sbind no_fault_chk no_fault_check)

lemma no_fault_symb_step:
  assumes pc: "pc < sizecode pt" "sizecode pt \<le> 2 ^ 30" and last: "is_op (p_code pt ! (sizecode pt - 1)) OP_RETURN"
  shows "no_fault (symb_step pt n reg pc lst)"
proof -
  let ?i = "p_code pt ! pc"
  have "no_fault (symb_step pt n reg pc lst)" if op: "GET_OPCODE ?i < NUM_OPCODES"
  proof -
    obtain ta tt where m: "testAMode (GET_OPCODE ?i) = Inr ta" "testTMode (GET_OPCODE ?i) = Inr tt"
      using mode_rd [OF op] by (simp add: testAMode_def testTMode_def)
    have num: "GET_OPCODE ?i = opnum (opcodes ! GET_OPCODE ?i)" using op_of_num [OF op] by simp
    have "no_fault (op_effect pt n reg pc l (opcodes ! GET_OPCODE ?i) (GETARG_A ?i) b c)"
      if o: "operands pt pc ?i (GET_OPCODE ?i) = Inr (Some (b, c))" for b c l
    proof (rule no_fault_op_effect [OF pc _ operands_small [OF o]])
      show "pc + 1 < sizecode pt" if "opcodes ! GET_OPCODE ?i \<noteq> OP_RETURN"
      proof -
        have "pc \<noteq> sizecode pt - 1" using last is_op_iff [OF op] that by metis
        then show ?thesis using pc by linarith
      qed
      show "nat b < sizek pt" if "opcodes ! GET_OPCODE ?i = OP_GETGLOBAL \<or> opcodes ! GET_OPCODE ?i = OP_SETGLOBAL"
        using operands_global [OF _ that] o num by metis
      show "0 \<le> b" if "opcodes ! GET_OPCODE ?i = OP_CLOSURE" using operands_closure o num that by metis
    qed
    then show ?thesis
      using m pc no_fault_operands [OF pc op] unfolding symb_step_def Let_def
      by (auto simp del: not_less intro!: no_fault_check no_fault_obind no_fault_testskip)
  qed
  then show ?thesis using pc by (cases "GET_OPCODE ?i < NUM_OPCODES") (auto simp: symb_step_def check_def)
qed

text \<open>The last change found is at an instruction.\<close>

lemma op_effect_lst: "op_effect pt n reg pc lst op a b c = Inr (Some (pc', lst')) \<Longrightarrow> lst' = lst \<or> lst' = pc"
  by (cases op) (auto simp: op_effect_def follow_jump_def step_eqs split: if_splits)

lemma symb_step_lst: "symb_step pt n reg pc lst = Inr (Some (pc', lst')) \<Longrightarrow> lst' = lst \<or> lst' = pc"
  unfolding symb_step_def by (auto simp: step_eqs split: if_splits dest!: op_effect_lst)

lemma symb_loop_safe:
  "sizecode pt \<le> 2 ^ 30 \<Longrightarrow> is_op (p_code pt ! (sizecode pt - 1)) OP_RETURN \<Longrightarrow> n \<le> sizecode pt \<Longrightarrow> lst < sizecode pt \<Longrightarrow>
    no_fault (symb_loop pt n reg pc lst) \<and> (\<forall>r. symb_loop pt n reg pc lst = Inr (Some r) \<longrightarrow> r < sizecode pt)"
proof (induction pt n reg pc lst rule: symb_loop.induct)
  case (1 pt n reg pc lst)
  show ?case
  proof (cases "pc < n")
    case False
    then show ?thesis using 1 by (simp add: symb_loop.simps)
  next
    case True
    then have pc: "pc < sizecode pt" using 1(4) by simp
    have nf: "no_fault (symb_step pt n reg pc lst)" by (rule no_fault_symb_step [OF pc 1(2,3)])
    have eq: "symb_loop pt n reg pc lst = sbind (symb_step pt n reg pc lst) (\<lambda>r. case r of None \<Rightarrow> Inr None
        | Some (pc', lst') \<Rightarrow> symb_loop pt n reg (pc' + 1) lst')"
      using True by (subst symb_loop.simps) simp
    consider e where "symb_step pt n reg pc lst = Inl e" | "symb_step pt n reg pc lst = Inr None"
      | pc' lst' where "symb_step pt n reg pc lst = Inr (Some (pc', lst'))"
      by (metis old.prod.exhaust option.exhaust sum.exhaust)
    then show ?thesis
    proof cases
      case 1
      then show ?thesis using nf unfolding eq by (simp add: no_fault_def)
    next
      case 2
      then show ?thesis unfolding eq by simp
    next
      case 3
      then have "lst' < sizecode pt" using symb_step_lst [OF 3] 1(5) pc by auto
      then show ?thesis using 1(1) [OF True 3 refl refl 1(2-4)] unfolding eq 3 by simp
    qed
  qed
qed

text \<open>
  C32: the checker is safe on any prototype, checked or not, whose code has at most \<open>2\<^sup>3\<^sup>0\<close> words: it reads nothing
  outside the code, the constants and the inner prototypes, and no sum overflows.
\<close>

theorem symbexec_safe:
  assumes "sizecode pt \<le> 2 ^ 30" "lastpc \<le> sizecode pt"
  shows "no_fault (symbexec pt lastpc reg) \<and> no_fault (luaG_checkcode pt)"
proof -
  have s: "no_fault (symbexec pt n reg)" if n: "n \<le> sizecode pt" for n reg
    unfolding symbexec_def
  proof (intro no_fault_obind no_fault_precheck)
    fix a :: unit
    assume p: "precheck pt = Inr (Some a)"
    have l: "0 < sizecode pt" "is_op (p_code pt ! (sizecode pt - 1)) OP_RETURN" using precheck_last p by auto
    show "no_fault (symb_loop pt n reg 0 (sizecode pt - 1))"
      using symb_loop_safe [OF assms(1) l(2) n] l(1) by simp
    fix lst
    assume "symb_loop pt n reg 0 (sizecode pt - 1) = Inr (Some lst)"
    moreover have "sizecode pt - 1 < sizecode pt" using l(1) by simp
    ultimately have "lst < sizecode pt" using symb_loop_safe [OF assms(1) l(2) n] by blast
    then show "no_fault (sbind (code_at pt lst) (\<lambda>i. Inr (Some i)))" by simp
  qed
  have "no_fault (luaG_checkcode pt)" unfolding luaG_checkcode_def by (intro no_fault_sbind s) simp_all
  then show ?thesis using s [OF assms(2)] by blast
qed

section \<open>Witnesses and limits\<close>

text \<open>A function of two instructions; the first is a LOADBOOL whose third argument is \<open>c\<close>.\<close>

definition loadbool_code :: "int \<Rightarrow> Proto" where
  "loadbool_code c = Proto [] [CREATE_ABC (opnum OP_LOADBOOL) 0 1 c, CREATE_ABC (opnum OP_RETURN) 0 1 0] [] [] [] [] None 0 0 0 0 0 2"

theorem checked_code_stays_inside_witness:
  "inside (loadbool_code 0) 1 \<and> GET_OPCODE (p_code (loadbool_code 0) ! 1) < NUM_OPCODES"
proof -
  have a: "luaG_checkcode (loadbool_code 0) = Inr True" "1 \<in> flow (loadbool_code 0) (nat 0)"
    "\<forall>i \<in> set (p_code (loadbool_code 0)). is_op i OP_LOADBOOL \<longrightarrow> GETARG_C i \<le> 1" by code_simp+
  show ?thesis using checked_code_stays_inside [OF a(1,3) flow_next [OF flow_start a(2)]] by simp
qed

theorem symbexec_safe_witness:
  "no_fault (symbexec (loadbool_code 2) 1 0) \<and> no_fault (luaG_checkcode (loadbool_code 2))"
  by (rule symbexec_safe) (simp_all add: loadbool_code_def)

text \<open>
  The checker looks at the skip of a LOADBOOL only when its third argument is 1, the machine skips when it is
  not 0: accepted code can leave the code.
\<close>

lemma loadbool_leaves_code: "luaG_checkcode (loadbool_code 2) = Inr True \<and> flow (loadbool_code 2) 0 = {int (sizecode (loadbool_code 2))}"
  by (intro conjI) (code_simp, simp add: loadbool_code_def flow_def is_op_def CREATE_ABC_fields arg_limits field_sizes opnum_vals opcodes_def)

text \<open>
  The checker accepts fewer names than upvalues, and \<open>getobjname\<close> reads the name of an upvalue by its index.
\<close>

definition few_names :: Proto where
  "few_names = Proto [] [CREATE_ABC (opnum OP_GETUPVAL) 0 1 0, CREATE_ABC (opnum OP_CALL) 0 1 1, CREATE_ABC (opnum OP_RETURN) 0 1 0]
     [] [] [] [Some []] None 0 0 2 0 0 2"

lemma upvalue_name_out_of_range: "luaG_checkcode few_names = Inr True \<and> getobjname few_names 1 0 = Inl (CFault ReadOOB)"
proof
  show "luaG_checkcode few_names = Inr True" by code_simp
  have "symbexec few_names 1 0 = Inr (Some (CREATE_ABC (opnum OP_GETUPVAL) 0 1 0))" by code_simp
  moreover have "\<not> is_op (CREATE_ABC (opnum OP_GETUPVAL) 0 1 0) OP_GETGLOBAL \<and> \<not> is_op (CREATE_ABC (opnum OP_GETUPVAL) 0 1 0) OP_MOVE
    \<and> \<not> is_op (CREATE_ABC (opnum OP_GETUPVAL) 0 1 0) OP_GETTABLE \<and> is_op (CREATE_ABC (opnum OP_GETUPVAL) 0 1 0) OP_GETUPVAL
    \<and> GETARG_B (CREATE_ABC (opnum OP_GETUPVAL) 0 1 0) = 1" by code_simp
  ultimately show "getobjname few_names 1 0 = Inl (CFault ReadOOB)"
    by (simp add: getobjname.simps luaF_getlocalname_def upvalname_def rd_def) (simp add: few_names_def)
qed

text \<open>A string and a thread have names with the same third letter, which is what the message looks at.\<close>

lemma ordererror_thread: "luaG_ordererror None (String s) (Collectable (ObjRef TThread n)) = raise ''attempt to compare two string values''"
  by (simp add: luaG_ordererror_def lua_typename_def luaG_runerror_def addinfo_def)

end
