(* ===== verification/LZio.thy ===== *)
theory LZio
  imports LuaBase
begin

text \<open>
  Buffered input streams, \<open>lzio.c\<close>, and the readers of \<open>lauxlib.c\<close> behind them. A reader gives the next
  block of bytes, or the null pointer or an empty block at the end.
\<close>

type_synonym 'r reader = "'r \<Rightarrow> bytes option \<times> 'r"

text \<open>\<open>zn\<close> is the field \<open>n\<close>; \<open>zp\<close> are the bytes that can be read from \<open>p\<close> on.\<close>

record 'r ZIO =
  zn :: nat
  zp :: bytes
  zdata :: 'r

definition EOZ :: int where "EOZ = - 1"

definition char2int :: "byte \<Rightarrow> int" where "char2int c = uint c"

definition luaZ_init :: "'r \<Rightarrow> 'r ZIO" where
  "luaZ_init r = \<lparr>zn = 0, zp = [], zdata = r\<rparr>"

definition luaZ_fill :: "'r reader \<Rightarrow> 'r ZIO \<Rightarrow> int \<times> 'r ZIO" where
  "luaZ_fill reader z =
    (let (buff, r) = reader (zdata z); z = z\<lparr>zdata := r\<rparr> in
     case buff of
       None \<Rightarrow> (EOZ, z)
     | Some [] \<Rightarrow> (EOZ, z)
     | Some (b # bs) \<Rightarrow> (char2int b, z\<lparr>zn := length bs, zp := bs\<rparr>))"

text \<open>The macro \<open>zgetc\<close>: the count goes below 0, that is wraps, when there is nothing left.\<close>

definition zgetc :: "'r reader \<Rightarrow> 'r ZIO \<Rightarrow> (int \<times> 'r ZIO) lres" where
  "zgetc reader z =
    (if zn z > 0 then
       (case zp z of b # bs \<Rightarrow> Inr (char2int b, z\<lparr>zn := zn z - 1, zp := bs\<rparr>) | [] \<Rightarrow> Inl (CFault ReadOOB))
     else Inr (luaZ_fill reader (z\<lparr>zn := 2 ^ 64 - 1\<rparr>)))"

text \<open>The byte that \<open>luaZ_fill\<close> took is put back.\<close>

definition luaZ_lookahead :: "'r reader \<Rightarrow> 'r ZIO \<Rightarrow> (int \<times> 'r ZIO) lres" where
  "luaZ_lookahead reader z =
    (if zn z = 0 then
       (let (c, z') = luaZ_fill reader z in
        if c = EOZ then Inr (EOZ, z') else Inr (c, z'\<lparr>zn := zn z' + 1, zp := word_of_int c # zp z'\<rparr>))
     else (case zp z of b # bs \<Rightarrow> Inr (char2int b, z) | [] \<Rightarrow> Inl (CFault ReadOOB)))"

lemma lookahead_zn: "luaZ_lookahead reader z = Inr (c, z') \<Longrightarrow> c \<noteq> EOZ \<Longrightarrow> 0 < zn z'"
  by (auto simp: luaZ_lookahead_def split: if_splits list.splits prod.splits)

text \<open>The number of bytes that are missing, the bytes read and the stream.\<close>

function luaZ_read :: "'r reader \<Rightarrow> 'r ZIO \<Rightarrow> nat \<Rightarrow> (nat \<times> bytes \<times> 'r ZIO) lres" where
  "luaZ_read reader z n =
    (if n = 0 then Inr (0, [], z)
     else
       sbind (luaZ_lookahead reader z) (\<lambda>(c, z).
       if c = EOZ then Inr (n, [], z)
       else
         (let m = (if n \<le> zn z then n else zn z) in
          if m \<le> length (zp z) then
            sbind (luaZ_read reader (z\<lparr>zn := zn z - m, zp := drop m (zp z)\<rparr>) (n - m)) (\<lambda>(r, b, z').
              Inr (r, take m (zp z) @ b, z'))
          else Inl (CFault ReadOOB))))"
  by pat_completeness auto
termination
  by (relation "measure (\<lambda>(reader, z, n). n)") (auto dest: lookahead_zn)

declare luaZ_read.simps [simp del]

lemma char2int_ne [simp]: "char2int b \<noteq> EOZ" "uint b \<noteq> EOZ" for b :: byte
proof -
  have "0 \<le> uint b" by simp
  then show "uint b \<noteq> EOZ" "char2int b \<noteq> EOZ" unfolding char2int_def EOZ_def by linarith+
qed

section \<open>Readers\<close>

text \<open>The reader of \<open>luaL_loadbuffer\<close>: the bytes not yet given out.\<close>

definition getS :: "bytes reader" where
  "getS s = (if s = [] then (None, s) else (Some s, []))"

text \<open>
  The reader of \<open>luaL_loadfile\<close>. The state says whether a newline stands for a first line that was skipped, and
  holds the file; \<open>feof\<close> and \<open>fread\<close> are arguments.
\<close>

definition LUAL_BUFFERSIZE :: nat where "LUAL_BUFFERSIZE = 8192"

definition getF :: "('f \<Rightarrow> bool) \<Rightarrow> ('f \<Rightarrow> nat \<Rightarrow> bytes \<times> 'f) \<Rightarrow> (bool \<times> 'f) reader" where
  "getF feof fread lf =
    (let (extraline, f) = lf in
     if extraline then (Some [10], (False, f))
     else if feof f then (None, (False, f))
     else (let (b, f) = fread f LUAL_BUFFERSIZE in (if length b > 0 then Some b else None, (False, f))))"

section \<open>The contract of a reader\<close>

text \<open>What a reader gives out, block by block, is some string of bytes; at the end it stays at the end.\<close>

locale byte_source =
  fixes reader :: "'r reader" and content :: "'r \<Rightarrow> bytes"
  assumes at_end: "content r = [] \<Longrightarrow> fst (reader r) \<in> {None, Some []} \<and> content (snd (reader r)) = []"
    and block: "content r \<noteq> [] \<Longrightarrow> \<exists>b r'. reader r = (Some b, r') \<and> b \<noteq> [] \<and> content r = b @ content r'"
begin

definition zok :: "'r ZIO \<Rightarrow> bool" where
  "zok z = (zn z = length (zp z))"

definition zrest :: "'r ZIO \<Rightarrow> bytes" where
  "zrest z = zp z @ content (zdata z)"

lemma zok_init [simp]: "zok (luaZ_init r)" "zrest (luaZ_init r) = content r"
  by (simp_all add: zok_def zrest_def luaZ_init_def)

lemma fill_spec:
  "if content (zdata z) = [] then \<exists>r'. luaZ_fill reader z = (EOZ, z\<lparr>zdata := r'\<rparr>) \<and> content r' = []
   else \<exists>b bs r'. luaZ_fill reader z = (char2int b, z\<lparr>zdata := r', zn := length bs, zp := bs\<rparr>) \<and> content (zdata z) = b # bs @ content r'"
proof (cases "content (zdata z) = []")
  case True
  then show ?thesis using at_end [OF True] by (cases "reader (zdata z)") (auto simp: luaZ_fill_def Let_def)
next
  case False
  then obtain b r' where "reader (zdata z) = (Some b, r')" "b \<noteq> []" "content (zdata z) = b @ content r'" using block by blast
  then show ?thesis using False by (cases b) (auto simp: luaZ_fill_def Let_def)
qed

lemma lookahead_spec:
  assumes "zok z"
  shows "\<exists>z'. zok z' \<and> zrest z' = zrest z \<and> luaZ_lookahead reader z = Inr (if zrest z = [] then EOZ else char2int (hd (zrest z)), z')
    \<and> (zrest z \<noteq> [] \<longrightarrow> zp z' \<noteq> [])"
proof (cases "zp z")
  case Nil
  then have n: "zn z = 0" using assms by (simp add: zok_def)
  show ?thesis
  proof (cases "content (zdata z) = []")
    case True
    then show ?thesis using fill_spec [of z] Nil n by (auto simp: luaZ_lookahead_def zok_def zrest_def)
  next
    case False
    then obtain b bs r' where "luaZ_fill reader z = (char2int b, z\<lparr>zdata := r', zn := length bs, zp := bs\<rparr>)" "content (zdata z) = b # bs @ content r'"
      using fill_spec [of z] by auto
    then show ?thesis using Nil n by (auto simp: luaZ_lookahead_def zok_def zrest_def char2int_def)
  qed
next
  case (Cons b bs)
  then show ?thesis using assms by (intro exI [of _ z]) (auto simp: luaZ_lookahead_def zok_def zrest_def)
qed

lemma zgetc_spec:
  assumes "zok z"
  shows "(zrest z = [] \<and> (\<exists>z'. zgetc reader z = Inr (EOZ, z')))
    \<or> (\<exists>b z'. zgetc reader z = Inr (char2int b, z') \<and> zok z' \<and> zrest z = b # zrest z')"
proof (cases "zp z")
  case Nil
  then have n: "zn z = 0" using assms by (simp add: zok_def)
  show ?thesis using fill_spec [of "z\<lparr>zn := 2 ^ 64 - 1\<rparr>"] Nil n by (auto simp: zgetc_def zok_def zrest_def split: if_splits)
next
  case (Cons b bs)
  then show ?thesis using assms by (auto simp: zgetc_def zok_def zrest_def)
qed

text \<open>Reading gives the next bytes of the stream, whatever the blocks of the reader are.\<close>

lemma read_spec:
  "zok z \<Longrightarrow> \<exists>z'. luaZ_read reader z n = Inr (n - length (zrest z), take n (zrest z), z') \<and> zok z' \<and> zrest z' = drop n (zrest z)"
proof (induction n arbitrary: z rule: less_induct)
  case (less n)
  show ?case
  proof (cases "n = 0")
    case True
    then show ?thesis using less.prems by (simp add: luaZ_read.simps)
  next
    case False
    obtain z1 where z1: "zok z1" "zrest z1 = zrest z" "zrest z \<noteq> [] \<Longrightarrow> zp z1 \<noteq> []"
      "luaZ_lookahead reader z = Inr (if zrest z = [] then EOZ else char2int (hd (zrest z)), z1)"
      using lookahead_spec [OF less.prems] by auto
    show ?thesis
    proof (cases "zrest z = []")
      case True
      then show ?thesis using False z1 by (subst luaZ_read.simps) simp
    next
      case ne: False
      define m where "m = (if n \<le> zn z1 then n else zn z1)"
      define z2 where "z2 = z1\<lparr>zn := zn z1 - m, zp := drop m (zp z1)\<rparr>"
      have m: "0 < m" "m \<le> n" "m \<le> length (zp z1)" using z1(1) z1(3) [OF ne] False by (auto simp: m_def zok_def)
      have z: "zrest z = zp z1 @ content (zdata z1)" using z1(2) by (simp add: zrest_def)
      have z2: "zok z2" "zrest z2 = drop m (zrest z)" using z1(1) m(3) unfolding z by (auto simp: z2_def zok_def zrest_def)
      have t: "take m (zp z1) = take m (zrest z)" using m(3) unfolding z by simp
      obtain z3 where z3: "luaZ_read reader z2 (n - m) = Inr (n - m - length (zrest z2), take (n - m) (zrest z2), z3)" "zok z3"
        "zrest z3 = drop (n - m) (zrest z2)" using less.IH [OF _ z2(1), of "n - m"] m by fastforce
      have "luaZ_read reader z n = sbind (luaZ_read reader z2 (n - m)) (\<lambda>(r, b, z'). Inr (r, take m (zp z1) @ b, z'))"
        using False z1(4) ne m(3) by (subst luaZ_read.simps) (simp add: Let_def m_def [symmetric] z2_def)
      moreover have "take m (zrest z) @ take (n - m) (drop m (zrest z)) = take n (zrest z)" using m(2) by (metis le_add_diff_inverse take_add)
      moreover have "drop (n - m) (drop m (zrest z)) = drop n (zrest z)" using m(2) by simp
      moreover have "m \<le> length (zrest z)" using m(3) unfolding z by simp
      ultimately show ?thesis using z3 z2(2) t m by auto
    qed
  qed
qed

end

interpretation getS: byte_source getS "\<lambda>s. s"
  by unfold_locales (auto simp: getS_def)

text \<open>
  The reader of \<open>luaL_loadfile\<close> gives the bytes left of the file, when \<open>fread\<close> gives at least a byte as long as
  there is one, and \<open>feof\<close> is not true before the end.
\<close>

lemma getF_source:
  assumes "\<And>f. feof f \<Longrightarrow> left f = []"
    and "\<And>f n. 0 < n \<Longrightarrow> left f \<noteq> [] \<Longrightarrow> fst (fread f n) \<noteq> [] \<and> left f = fst (fread f n) @ left (snd (fread f n))"
    and "\<And>f n. left f = [] \<Longrightarrow> fst (fread f n) = [] \<and> left (snd (fread f n)) = []"
  shows "byte_source (getF feof fread) (\<lambda>(extraline, f). (if extraline then [10] else []) @ left f)"
proof (unfold_locales, goal_cases)
  case (1 r)
  then show ?case using assms(3) [of "snd r" LUAL_BUFFERSIZE] by (cases r) (auto simp: getF_def split: prod.splits if_splits)
next
  case (2 r)
  then show ?case using assms(1) [of "snd r"] assms(2) [of LUAL_BUFFERSIZE "snd r"] by (cases r) (auto simp: getF_def LUAL_BUFFERSIZE_def split: prod.splits if_splits)
qed

end
