(* ===== verification/LUndump.thy ===== *)
theory LUndump
  imports LDebug LZio
begin

text \<open>
  Precompiled chunks: writing them, \<open>ldump.c\<close>, and loading them, \<open>lundump.c\<close>. An \<open>int\<close> and an instruction have
  4 bytes, a \<open>size_t\<close> and a number have 8, least significant byte first. The bytes of a number are an
  argument (\<open>num\<close>, and \<open>denum\<close> for the way back). Memory is not exhausted.
\<close>

section \<open>Writing\<close>

record 'w DumpState =
  d_writer :: "'w \<Rightarrow> bytes \<Rightarrow> int \<times> 'w"
  d_data :: 'w
  d_strip :: bool
  d_status :: int

definition DumpBlock :: "bytes \<Rightarrow> 'w DumpState \<Rightarrow> 'w DumpState" where
  "DumpBlock b D =
    (if d_status D = 0 then
       (let (st, w) = d_writer D (d_data D) b in D\<lparr>d_status := st, d_data := w\<rparr>)
     else D)"

definition int_bytes :: "int \<Rightarrow> bytes" where
  "int_bytes x = le_bytes 4 (unat (word_of_int x :: 32 word))"

definition size_bytes :: "nat \<Rightarrow> bytes" where
  "size_bytes n = le_bytes 8 n"

definition DumpChar :: "byte \<Rightarrow> 'w DumpState \<Rightarrow> 'w DumpState" where
  "DumpChar y D = DumpBlock [y] D"

definition DumpInt :: "int \<Rightarrow> 'w DumpState \<Rightarrow> 'w DumpState" where
  "DumpInt x D = DumpBlock (int_bytes x) D"

definition DumpNumber :: "(lnum \<Rightarrow> bytes) \<Rightarrow> lnum \<Rightarrow> 'w DumpState \<Rightarrow> 'w DumpState" where
  "DumpNumber num x D = DumpBlock (num x) D"

definition DumpString :: "bytes option \<Rightarrow> 'w DumpState \<Rightarrow> 'w DumpState" where
  "DumpString s D =
    (case s of
       None \<Rightarrow> DumpBlock (size_bytes 0) D
     | Some s \<Rightarrow> DumpBlock (s @ [0]) (DumpBlock (size_bytes (length s + 1)) D))"

definition word_bytes :: "Instruction list \<Rightarrow> bytes" where
  "word_bytes ws = concat (map (\<lambda>w. le_bytes 4 (unat w)) ws)"

definition DumpCode :: "Proto \<Rightarrow> 'w DumpState \<Rightarrow> 'w DumpState" where
  "DumpCode f D = DumpBlock (word_bytes (p_code f)) (DumpInt (int (sizecode f)) D)"

definition ttype :: "TValue \<Rightarrow> byte" where
  "ttype v = (case v of
      Nil \<Rightarrow> 0 | Boolean _ \<Rightarrow> 1 | LightUD _ \<Rightarrow> 2 | Number _ \<Rightarrow> 3
    | Collectable (StrRef _) \<Rightarrow> 4 | Collectable (ObjRef TTable _) \<Rightarrow> 5 | Collectable (ObjRef TFunction _) \<Rightarrow> 6
    | Collectable (ObjRef TUserdata _) \<Rightarrow> 7 | Collectable (ObjRef TThread _) \<Rightarrow> 8 | DeadKey _ \<Rightarrow> 11)"

definition DumpConstant :: "(lnum \<Rightarrow> bytes) \<Rightarrow> TValue \<Rightarrow> 'w DumpState \<Rightarrow> 'w DumpState" where
  "DumpConstant num v D =
    (let D = DumpChar (ttype v) D in
     case v of
       Boolean b \<Rightarrow> DumpChar (if b then 1 else 0) D
     | Number n \<Rightarrow> DumpNumber num n D
     | String s \<Rightarrow> DumpString (Some s) D
     | _ \<Rightarrow> D)"

definition DumpLocVar :: "LocVar \<Rightarrow> 'w DumpState \<Rightarrow> 'w DumpState" where
  "DumpLocVar v D = DumpInt (endpc v) (DumpInt (startpc v) (DumpString (varname v) D))"

definition DumpDebug :: "Proto \<Rightarrow> 'w DumpState \<Rightarrow> 'w DumpState" where
  "DumpDebug f D =
    (let li = (if d_strip D then [] else p_lineinfo f);
         lv = (if d_strip D then [] else p_locvars f);
         uv = (if d_strip D then [] else p_upvalues f);
         D = DumpBlock (concat (map int_bytes li)) (DumpInt (int (length li)) D);
         D = fold DumpLocVar lv (DumpInt (int (length lv)) D)
     in fold DumpString uv (DumpInt (int (length uv)) D))"

text \<open>The inner functions are written among the constants.\<close>

lemma size_inner [termination_simp]: "f \<in> set (p_p pt) \<Longrightarrow> size f < size pt"
  by (cases pt) (use size_list_estimation' [of f _ "size f" size] in fastforce)

function DumpFunction :: "(lnum \<Rightarrow> bytes) \<Rightarrow> Proto \<Rightarrow> bytes option \<Rightarrow> 'w DumpState \<Rightarrow> 'w DumpState" where
  "DumpFunction num f p D =
    (let D = DumpString (if p_source f = p \<or> d_strip D then None else p_source f) D;
         D = DumpInt (p_lastlinedefined f) (DumpInt (p_linedefined f) D);
         D = DumpChar (p_maxstacksize f) (DumpChar (p_is_vararg f) (DumpChar (p_numparams f) (DumpChar (p_nups f) D)));
         D = DumpCode f D;
         D = fold (DumpConstant num) (p_k f) (DumpInt (int (sizek f)) D);
         D = fold (\<lambda>g. DumpFunction num g (p_source f)) (p_p f) (DumpInt (int (length (p_p f))) D)
     in DumpDebug f D)"
  by pat_completeness auto
termination
  by (relation "measure (\<lambda>(num, f, p, D). size f)") (auto dest: size_inner)

declare DumpFunction.simps [simp del]

definition LUA_SIGNATURE :: bytes where "LUA_SIGNATURE = 27 # str ''Lua''"
definition LUAC_VERSION :: byte where "LUAC_VERSION = 0x51"
definition LUAC_FORMAT :: byte where "LUAC_FORMAT = 0"
definition LUAC_HEADERSIZE :: nat where "LUAC_HEADERSIZE = 12"

definition luaU_header :: bytes where
  "luaU_header = LUA_SIGNATURE @ [LUAC_VERSION, LUAC_FORMAT, 1, 4, 8, 4, 8, 0]"

definition DumpHeader :: "'w DumpState \<Rightarrow> 'w DumpState" where
  "DumpHeader D = DumpBlock luaU_header D"

definition luaU_dump :: "(lnum \<Rightarrow> bytes) \<Rightarrow> Proto \<Rightarrow> ('w \<Rightarrow> bytes \<Rightarrow> int \<times> 'w) \<Rightarrow> 'w \<Rightarrow> bool \<Rightarrow> int \<times> 'w" where
  "luaU_dump num f w data strip =
    (let D = DumpFunction num f None (DumpHeader \<lparr>d_writer = w, d_data = data, d_strip = strip, d_status = 0\<rparr>)
     in (d_status D, d_data D))"

section \<open>Loading\<close>

record 'r LoadState =
  l_Z :: "'r ZIO"
  l_name :: bytes
  l_nCcalls :: nat

type_synonym ('r, 'a) loader = "'r LoadState \<Rightarrow> ('a \<times> 'r LoadState) lres"

definition lbind :: "('r, 'a) loader \<Rightarrow> ('a \<Rightarrow> ('r, 'b) loader) \<Rightarrow> ('r, 'b) loader" where
  "lbind m f S = sbind (m S) (\<lambda>(a, S). f a S)"

definition lret :: "'a \<Rightarrow> ('r, 'a) loader" where
  "lret a S = Inr (a, S)"

definition lerror :: "string \<Rightarrow> ('r, 'a) loader" where
  "lerror why S = raise (chars (l_name S) @ '': '' @ why @ '' in precompiled chunk'')"

definition LoadBlock :: "'r reader \<Rightarrow> nat \<Rightarrow> ('r, bytes) loader" where
  "LoadBlock rdr sz S =
    sbind (luaZ_read rdr (l_Z S) sz) (\<lambda>(r, b, z).
      if r \<noteq> 0 then lerror ''unexpected end'' (S\<lparr>l_Z := z\<rparr>) else Inr (b, S\<lparr>l_Z := z\<rparr>))"

definition LoadByte :: "'r reader \<Rightarrow> ('r, byte) loader" where
  "LoadByte rdr = lbind (LoadBlock rdr 1) (\<lambda>b. lret (hd b))"

definition LoadChar :: "'r reader \<Rightarrow> ('r, int) loader" where
  "LoadChar rdr = lbind (LoadBlock rdr 1) (\<lambda>b. lret (sint (hd b)))"

definition bytes_int :: "bytes \<Rightarrow> int" where
  "bytes_int b = sint (word_of_nat (le_val b) :: 32 word)"

definition LoadInt :: "'r reader \<Rightarrow> ('r, int) loader" where
  "LoadInt rdr = lbind (LoadBlock rdr 4) (\<lambda>b. let x = bytes_int b in if x < 0 then lerror ''bad integer'' else lret x)"

definition LoadNumber :: "(bytes \<Rightarrow> lnum) \<Rightarrow> 'r reader \<Rightarrow> ('r, lnum) loader" where
  "LoadNumber denum rdr = lbind (LoadBlock rdr 8) (\<lambda>b. lret (denum b))"

definition LoadString :: "'r reader \<Rightarrow> ('r, bytes option) loader" where
  "LoadString rdr =
    lbind (LoadBlock rdr 8) (\<lambda>b. let sz = le_val b in
      if sz = 0 then lret None
      else lbind (LoadBlock rdr sz) (\<lambda>s. lret (Some (take (sz - 1) s))))"

text \<open>The elements of a vector of words of 4 bytes.\<close>

fun words4 :: "bytes \<Rightarrow> Instruction list" where
  "words4 (a # b # c # d # rest) = word_of_nat (le_val [a, b, c, d]) # words4 rest"
| "words4 _ = []"

definition LoadCode :: "'r reader \<Rightarrow> ('r, Instruction list) loader" where
  "LoadCode rdr = lbind (LoadInt rdr) (\<lambda>n. lbind (LoadBlock rdr (nat n * 4)) (\<lambda>b. lret (words4 b)))"

text \<open>The loops that load \<open>n\<close> elements.\<close>

fun load_n :: "('r, 'a) loader \<Rightarrow> nat \<Rightarrow> ('r, 'a list) loader" where
  "load_n m 0 = lret []"
| "load_n m (Suc n) = lbind m (\<lambda>x. lbind (load_n m n) (\<lambda>xs. lret (x # xs)))"

text \<open>A string that is missing among the constants leaves a null pointer in a value of type string.\<close>

definition LoadConstant :: "(bytes \<Rightarrow> lnum) \<Rightarrow> 'r reader \<Rightarrow> ('r, TValue) loader" where
  "LoadConstant denum rdr =
    lbind (LoadChar rdr) (\<lambda>t.
      if t = 0 then lret Nil
      else if t = 1 then lbind (LoadChar rdr) (\<lambda>b. lret (Boolean (b \<noteq> 0)))
      else if t = 3 then lbind (LoadNumber denum rdr) (\<lambda>n. lret (Number n))
      else if t = 4 then
        lbind (LoadString rdr) (\<lambda>s. case s of Some s \<Rightarrow> lret (String s) | None \<Rightarrow> (\<lambda>S. Inl (CFault NullDeref)))
      else lerror ''bad constant'')"

definition LoadLocVar :: "'r reader \<Rightarrow> ('r, LocVar) loader" where
  "LoadLocVar rdr =
    lbind (LoadString rdr) (\<lambda>v. lbind (LoadInt rdr) (\<lambda>s. lbind (LoadInt rdr) (\<lambda>e.
      lret \<lparr>varname = v, startpc = s, endpc = e\<rparr>)))"

text \<open>\<open>lineinfo\<close>, \<open>locvars\<close> and \<open>upvalues\<close>.\<close>

definition LoadDebug :: "'r reader \<Rightarrow> ('r, int list \<times> LocVar list \<times> bytes option list) loader" where
  "LoadDebug rdr =
    lbind (LoadInt rdr) (\<lambda>n. lbind (LoadBlock rdr (nat n * 4)) (\<lambda>li.
    lbind (LoadInt rdr) (\<lambda>n. lbind (load_n (LoadLocVar rdr) (nat n)) (\<lambda>lv.
    lbind (LoadInt rdr) (\<lambda>n. lbind (load_n (LoadString rdr) (nat n)) (\<lambda>uv.
      lret (map sint (words4 li), lv, uv)))))))"

definition LUAI_MAXCCALLS :: nat where "LUAI_MAXCCALLS = 200"

definition check_loaded :: "Proto \<Rightarrow> ('r, Proto) loader" where
  "check_loaded f S =
    sbind (luaG_checkcode f) (\<lambda>ok. if \<not> ok then lerror ''bad code'' S else Inr (f, S\<lparr>l_nCcalls := l_nCcalls S - 1\<rparr>))"

text \<open>The depth of the recursion is bounded by \<open>nCcalls\<close>; the first argument is fuel for it.\<close>

fun LoadFunction :: "nat \<Rightarrow> (bytes \<Rightarrow> lnum) \<Rightarrow> 'r reader \<Rightarrow> bytes option \<Rightarrow> ('r, Proto) loader" where
  "LoadFunction 0 denum rdr p S = Inl (CFault Diverge)"
| "LoadFunction (Suc d) denum rdr p S =
    (let S = S\<lparr>l_nCcalls := l_nCcalls S + 1\<rparr> in
     if l_nCcalls S > LUAI_MAXCCALLS then lerror ''code too deep'' S
     else
       lbind (LoadString rdr) (\<lambda>source. let source = (if source = None then p else source) in
       lbind (LoadInt rdr) (\<lambda>linedefined.
       lbind (LoadInt rdr) (\<lambda>lastlinedefined.
       lbind (LoadByte rdr) (\<lambda>nups.
       lbind (LoadByte rdr) (\<lambda>numparams.
       lbind (LoadByte rdr) (\<lambda>is_vararg.
       lbind (LoadByte rdr) (\<lambda>maxstack.
       lbind (LoadCode rdr) (\<lambda>code.
       lbind (LoadInt rdr) (\<lambda>n. lbind (load_n (LoadConstant denum rdr) (nat n)) (\<lambda>k.
       lbind (LoadInt rdr) (\<lambda>n. lbind (load_n (LoadFunction d denum rdr source) (nat n)) (\<lambda>ps.
       lbind (LoadDebug rdr) (\<lambda>(li, lv, uv).
       check_loaded (Proto k code ps li lv uv source linedefined lastlinedefined nups numparams is_vararg maxstack)))))))))))))) S)"

definition LoadHeader :: "'r reader \<Rightarrow> ('r, unit) loader" where
  "LoadHeader rdr =
    lbind (LoadBlock rdr LUAC_HEADERSIZE) (\<lambda>s. if luaU_header \<noteq> s then lerror ''bad header'' else lret ())"

definition chunk_name :: "bytes \<Rightarrow> bytes" where
  "chunk_name name =
    (case name of
       c # cs \<Rightarrow> if c = 64 \<or> c = 61 then cs else if c = hd LUA_SIGNATURE then str ''binary string'' else name
     | [] \<Rightarrow> name)"

definition luaU_undump :: "(bytes \<Rightarrow> lnum) \<Rightarrow> 'r reader \<Rightarrow> 'r ZIO \<Rightarrow> nat \<Rightarrow> bytes \<Rightarrow> (Proto \<times> 'r LoadState) lres" where
  "luaU_undump denum rdr z nCcalls name =
    lbind (LoadHeader rdr) (\<lambda>_. LoadFunction (LUAI_MAXCCALLS + 1) denum rdr (Some (str ''=?'')))
      \<lparr>l_Z = z, l_name = chunk_name name, l_nCcalls = nCcalls\<rparr>"

end
