(* ===== verification/LUndumpProps.thy ===== *)
theory LUndumpProps
  imports LUndump LDebugProps
begin

text \<open>
  Writing a prototype and loading it gives it back, whatever the blocks of the reader are; stripped, without its
  debug information. The writer stops at its first error. Loading any bytes ends.
\<close>

section \<open>The blocks written\<close>

definition string_blocks :: "bytes option \<Rightarrow> bytes list" where
  "string_blocks s = (case s of None \<Rightarrow> [size_bytes 0] | Some s \<Rightarrow> [size_bytes (length s + 1), s @ [0]])"

definition constant_blocks :: "(lnum \<Rightarrow> bytes) \<Rightarrow> TValue \<Rightarrow> bytes list" where
  "constant_blocks num v =
    [ttype v] # (case v of Boolean b \<Rightarrow> [[if b then 1 else 0]] | Number n \<Rightarrow> [num n] | String s \<Rightarrow> string_blocks (Some s) | _ \<Rightarrow> [])"

definition locvar_blocks :: "LocVar \<Rightarrow> bytes list" where
  "locvar_blocks v = string_blocks (varname v) @ [int_bytes (startpc v), int_bytes (endpc v)]"

definition debug_blocks :: "int list \<Rightarrow> LocVar list \<Rightarrow> bytes option list \<Rightarrow> bytes list" where
  "debug_blocks li lv uv =
    [int_bytes (int (length li)), concat (map int_bytes li), int_bytes (int (length lv))] @ concat (map locvar_blocks lv)
    @ [int_bytes (int (length uv))] @ concat (map string_blocks uv)"

function function_blocks :: "(lnum \<Rightarrow> bytes) \<Rightarrow> bool \<Rightarrow> Proto \<Rightarrow> bytes option \<Rightarrow> bytes list" where
  "function_blocks num strip f p =
    string_blocks (if p_source f = p \<or> strip then None else p_source f)
    @ [int_bytes (p_linedefined f), int_bytes (p_lastlinedefined f), [p_nups f], [p_numparams f], [p_is_vararg f], [p_maxstacksize f],
       int_bytes (int (sizecode f)), word_bytes (p_code f), int_bytes (int (sizek f))] @ concat (map (constant_blocks num) (p_k f))
    @ [int_bytes (int (length (p_p f)))] @ concat (map (\<lambda>g. function_blocks num strip g (p_source f)) (p_p f))
    @ (if strip then debug_blocks [] [] [] else debug_blocks (p_lineinfo f) (p_locvars f) (p_upvalues f))"
  by pat_completeness auto
termination
  by (relation "measure (\<lambda>(num, strip, f, p). size f)") (auto dest: size_inner)

declare function_blocks.simps [simp del]

definition put_blocks :: "bytes list \<Rightarrow> 'w DumpState \<Rightarrow> 'w DumpState" where
  "put_blocks bs D = fold DumpBlock bs D"

lemma put_blocks_simps [simp]: "put_blocks [] D = D" "put_blocks (b # bs) D = put_blocks bs (DumpBlock b D)"
  "put_blocks (bs @ cs) D = put_blocks cs (put_blocks bs D)"
  by (simp_all add: put_blocks_def)

lemma strip_DumpBlock [simp]: "d_strip (DumpBlock b D) = d_strip D"
  by (simp add: DumpBlock_def split: prod.splits)

lemma strip_put [simp]: "d_strip (put_blocks bs D) = d_strip D"
  by (induction bs arbitrary: D) simp_all

lemma put_concat: "(\<And>x D. x \<in> set xs \<Longrightarrow> d_strip D = s \<Longrightarrow> g x D = put_blocks (h x) D) \<Longrightarrow> d_strip D = s \<Longrightarrow>
    fold g xs D = put_blocks (concat (map h xs)) D"
  by (induction xs arbitrary: D) simp_all

lemma DumpString_blocks: "DumpString s D = put_blocks (string_blocks s) D"
  by (simp add: DumpString_def string_blocks_def split: option.splits)

lemma DumpConstant_blocks: "DumpConstant num v D = put_blocks (constant_blocks num v) D"
  by (simp add: DumpConstant_def constant_blocks_def Let_def DumpChar_def DumpNumber_def DumpString_blocks split: TValue.splits gcref.splits)

lemma DumpLocVar_blocks: "DumpLocVar v D = put_blocks (locvar_blocks v) D"
  by (simp add: DumpLocVar_def locvar_blocks_def DumpInt_def DumpString_blocks)

lemma DumpDebug_blocks: "DumpDebug f D =
    put_blocks (if d_strip D then debug_blocks [] [] [] else debug_blocks (p_lineinfo f) (p_locvars f) (p_upvalues f)) D"
proof -
  have l: "fold DumpLocVar xs D = put_blocks (concat (map locvar_blocks xs)) D" for xs and D :: "'a DumpState"
    by (rule put_concat [OF DumpLocVar_blocks refl])
  have u: "fold DumpString xs D = put_blocks (concat (map string_blocks xs)) D" for xs and D :: "'a DumpState"
    by (rule put_concat [OF DumpString_blocks refl])
  show ?thesis by (simp add: DumpDebug_def debug_blocks_def Let_def DumpInt_def l u)
qed

lemma DumpFunction_blocks: "d_strip D = strip \<Longrightarrow> DumpFunction num f p D = put_blocks (function_blocks num strip f p) D"
proof (induction num strip f p arbitrary: D rule: function_blocks.induct)
  case (1 num strip f p)
  have c: "fold (DumpConstant num) (p_k f) D = put_blocks (concat (map (constant_blocks num) (p_k f))) D" for D :: "'a DumpState"
    by (rule put_concat) (rule DumpConstant_blocks, rule refl)
  have i: "fold (\<lambda>g. DumpFunction num g (p_source f)) (p_p f) D = put_blocks (concat (map (\<lambda>g. function_blocks num strip g (p_source f)) (p_p f))) D"
    if "d_strip D = strip" for D :: "'a DumpState"
    using 1(1) that by (intro put_concat) auto
  show ?case
    using 1(2) by (subst DumpFunction.simps, subst function_blocks.simps)
      (simp add: Let_def DumpString_blocks DumpInt_def DumpChar_def DumpCode_def c i DumpDebug_blocks)
qed

text \<open>A writer that has failed once is not called again.\<close>

lemma put_blocks_failed: "d_status D \<noteq> 0 \<Longrightarrow> put_blocks bs D = D"
  by (induction bs) (simp_all add: DumpBlock_def)

fun write_until :: "('w \<Rightarrow> bytes \<Rightarrow> int \<times> 'w) \<Rightarrow> bytes list \<Rightarrow> 'w \<Rightarrow> int \<times> 'w" where
  "write_until w [] d = (0, d)"
| "write_until w (b # bs) d = (let (st, d) = w d b in if st = 0 then write_until w bs d else (st, d))"

lemma put_blocks_until:
  "d_status D = 0 \<Longrightarrow> (d_status (put_blocks bs D), d_data (put_blocks bs D)) = write_until (d_writer D) bs (d_data D)"
proof (induction bs arbitrary: D)
  case (Cons b bs)
  obtain st d where w: "d_writer D (d_data D) b = (st, d)" by fastforce
  then have "DumpBlock b D = D\<lparr>d_status := st, d_data := d\<rparr>" using Cons.prems by (simp add: DumpBlock_def)
  then show ?case using Cons.IH [of "D\<lparr>d_status := st, d_data := d\<rparr>"] w put_blocks_failed [of "D\<lparr>d_status := st, d_data := d\<rparr>" bs] by simp
qed simp

definition chunk_blocks :: "(lnum \<Rightarrow> bytes) \<Rightarrow> bool \<Rightarrow> Proto \<Rightarrow> bytes list" where
  "chunk_blocks num strip f = luaU_header # function_blocks num strip f None"

lemma luaU_dump_blocks: "luaU_dump num f w data strip = write_until w (chunk_blocks num strip f) data"
proof -
  let ?D = "\<lparr>d_writer = w, d_data = data, d_strip = strip, d_status = 0\<rparr>"
  have "luaU_dump num f w data strip = (d_status (put_blocks (chunk_blocks num strip f) ?D), d_data (put_blocks (chunk_blocks num strip f) ?D))"
    by (simp add: luaU_dump_def DumpHeader_def chunk_blocks_def DumpFunction_blocks Let_def)
  then show ?thesis using put_blocks_until [of ?D] by simp
qed

lemma write_until_all: "(\<And>d b. w d b = (0, d @ b)) \<Longrightarrow> write_until w bs d = (0, d @ concat bs)"
  by (induction bs arbitrary: d) simp_all

section \<open>Loading what was written\<close>

text \<open>Numbers and words in bytes.\<close>

lemma unat_32: "unat w < 2 ^ 32" for w :: "32 word"
  using unsigned_less [of w] by simp

lemma bytes_int_bytes: "int_min \<le> x \<Longrightarrow> x \<le> int_max \<Longrightarrow> bytes_int (int_bytes x) = x"
proof -
  assume "int_min \<le> x" "x \<le> int_max"
  then have s: "sint (word_of_int x :: 32 word) = x" by (simp add: sint_sbintrunc' signed_take_bit_int_eq_self int_min_def int_max_def)
  have "unat (word_of_int x :: 32 word) mod 256 ^ 4 = unat (word_of_int x :: 32 word)"
    using unat_32 [of "word_of_int x"] by simp
  then show ?thesis using s by (simp add: bytes_int_def int_bytes_def le_val_le_bytes del: le_bytes.simps)
qed

lemma length_int_bytes [simp]: "length (int_bytes x) = 4"
  by (simp add: int_bytes_def del: le_bytes.simps)

lemma length_word_bytes [simp]: "length (word_bytes ws) = length ws * 4"
  by (induction ws) (simp_all add: word_bytes_def del: le_bytes.simps)

lemma le4: "\<exists>a b c d. le_bytes 4 n = [a, b, c, d]"
proof -
  have "length xs = 4 \<Longrightarrow> \<exists>a b c d. xs = [a, b, c, d]" for xs :: bytes by (auto simp: numeral_eq_Suc length_Suc_conv)
  then show ?thesis using length_le_bytes by blast
qed

lemma words4_cons: "words4 (le_bytes 4 (unat w) @ bs) = w # words4 bs"
proof -
  obtain a b c d where l: "le_bytes 4 (unat w) = [a, b, c, d]" using le4 by blast
  have "le_val (le_bytes 4 (unat w)) = unat w" using unat_32 [of w] by (simp add: le_val_le_bytes del: le_bytes.simps)
  then show ?thesis unfolding l by simp
qed

lemma words4_bytes [simp]: "words4 (word_bytes ws) = ws"
  by (induction ws) (simp_all add: word_bytes_def words4_cons del: le_bytes.simps)

lemma words4_ints: "(\<forall>x \<in> set xs. int_min \<le> x \<and> x \<le> int_max) \<Longrightarrow> map sint (words4 (concat (map int_bytes xs))) = xs"
proof (induction xs)
  case (Cons x xs)
  then have "sint (word_of_int x :: 32 word) = x" by (simp add: sint_sbintrunc' signed_take_bit_int_eq_self int_min_def int_max_def)
  then show ?case using Cons by (simp add: int_bytes_def words4_cons del: le_bytes.simps)
qed simp

lemma le_val_size: "n < 2 ^ 64 \<Longrightarrow> le_val (size_bytes n) = n"
  by (simp add: size_bytes_def le_val_le_bytes del: le_bytes.simps)

text \<open>What can be stored: sizes and lines are not negative, inner functions are at most \<open>n\<close> deep.\<close>

definition short_string :: "bytes option \<Rightarrow> bool" where
  "short_string s = (case s of None \<Rightarrow> True | Some s \<Rightarrow> length s + 1 < 2 ^ 64)"

definition small_int :: "int \<Rightarrow> bool" where "small_int x = (0 \<le> x \<and> x \<le> int_max)"

definition storable_const :: "(lnum \<Rightarrow> bytes) \<Rightarrow> (bytes \<Rightarrow> lnum) \<Rightarrow> TValue \<Rightarrow> bool" where
  "storable_const num denum v = (case v of Nil \<Rightarrow> True | Boolean _ \<Rightarrow> True | Number n \<Rightarrow> length (num n) = 8 \<and> denum (num n) = n
    | Collectable (StrRef s) \<Rightarrow> short_string (Some s) | _ \<Rightarrow> False)"

definition storable_debug :: "Proto \<Rightarrow> bool" where
  "storable_debug f \<longleftrightarrow> small_int (int (length (p_lineinfo f))) \<and> small_int (int (length (p_locvars f))) \<and> small_int (int (length (p_upvalues f)))
    \<and> (\<forall>x \<in> set (p_lineinfo f). int_min \<le> x \<and> x \<le> int_max)
    \<and> (\<forall>v \<in> set (p_locvars f). short_string (varname v) \<and> small_int (startpc v) \<and> small_int (endpc v))
    \<and> (\<forall>s \<in> set (p_upvalues f). short_string s) \<and> p_source f \<noteq> None \<and> short_string (p_source f)"

fun storable :: "(lnum \<Rightarrow> bytes) \<Rightarrow> (bytes \<Rightarrow> lnum) \<Rightarrow> bool \<Rightarrow> nat \<Rightarrow> Proto \<Rightarrow> bool" where
  "storable num denum strip 0 f \<longleftrightarrow> False"
| "storable num denum strip (Suc n) f \<longleftrightarrow>
    small_int (p_linedefined f) \<and> small_int (p_lastlinedefined f) \<and> small_int (int (sizecode f)) \<and> small_int (int (sizek f))
    \<and> small_int (int (length (p_p f))) \<and> (\<forall>v \<in> set (p_k f). storable_const num denum v) \<and> (\<not> strip \<longrightarrow> storable_debug f)
    \<and> (\<forall>g \<in> set (p_p f). storable num denum strip n g)"

text \<open>A prototype without its debug information; the source is the one the loader gives.\<close>

function stripped :: "bytes option \<Rightarrow> Proto \<Rightarrow> Proto" where
  "stripped q f = Proto (p_k f) (p_code f) (map (stripped q) (p_p f)) [] [] [] q (p_linedefined f) (p_lastlinedefined f)
    (p_nups f) (p_numparams f) (p_is_vararg f) (p_maxstacksize f)"
  by pat_completeness auto
termination
  by (relation "measure (\<lambda>(q, f). size f)") (auto dest: size_inner)

declare stripped.simps [simp del]

text \<open>All functions are accepted by the checker.\<close>

function accepted :: "Proto \<Rightarrow> bool" where
  "accepted f \<longleftrightarrow> luaG_checkcode f = Inr True \<and> (\<forall>g \<in> set (p_p f). accepted g)"
  by pat_completeness auto
termination
  by (relation "measure size") (auto dest: size_inner)

declare accepted.simps [simp del]

text \<open>
  \<open>m\<close> loads \<open>x\<close> from the bytes \<open>e\<close>, from the call depth \<open>c\<close> to \<open>c'\<close>, and leaves what follows.
\<close>

context byte_source
begin

definition loads :: "nat \<Rightarrow> nat \<Rightarrow> ('r, 'a) loader \<Rightarrow> bytes \<Rightarrow> 'a \<Rightarrow> bool" where
  "loads c c' m e x \<longleftrightarrow> (\<forall>S more. l_nCcalls S = c \<longrightarrow> zok (l_Z S) \<longrightarrow> zrest (l_Z S) = e @ more \<longrightarrow>
    (\<exists>z. m S = Inr (x, S\<lparr>l_Z := z, l_nCcalls := c'\<rparr>) \<and> zok z \<and> zrest z = more))"

lemma same_depth: "l_nCcalls S = c \<Longrightarrow> S\<lparr>l_nCcalls := c\<rparr> = S" "l_nCcalls S = c \<Longrightarrow> S\<lparr>l_Z := z, l_nCcalls := c\<rparr> = S\<lparr>l_Z := z\<rparr>"
  by (cases S; simp)+

lemma loads_ret: "loads c c (lret x) [] x"
  unfolding loads_def lret_def
proof (intro allI impI)
  fix S :: "'r LoadState" and more
  assume "l_nCcalls S = c" "zok (l_Z S)" "zrest (l_Z S) = [] @ more"
  then show "\<exists>z. Inr (x, S) = Inr (x, S\<lparr>l_Z := z, l_nCcalls := c\<rparr>) \<and> zok z \<and> zrest z = more"
    by (intro exI [of _ "l_Z S"]) (simp add: same_depth)
qed

lemma loads_bind:
  assumes "loads c c1 m e1 x" "loads c1 c2 (f x) e2 y"
  shows "loads c c2 (lbind m f) (e1 @ e2) y"
  unfolding loads_def
proof (intro allI impI)
  fix S :: "'r LoadState" and more
  assume a: "l_nCcalls S = c" "zok (l_Z S)" "zrest (l_Z S) = (e1 @ e2) @ more"
  then obtain z where z: "m S = Inr (x, S\<lparr>l_Z := z, l_nCcalls := c1\<rparr>)" "zok z" "zrest z = e2 @ more"
    using assms(1) unfolding loads_def by (metis append_assoc)
  let ?S = "S\<lparr>l_Z := z, l_nCcalls := c1\<rparr>"
  have "l_nCcalls ?S = c1" "zok (l_Z ?S)" "zrest (l_Z ?S) = e2 @ more" using z by simp_all
  then obtain z' where "f x ?S = Inr (y, ?S\<lparr>l_Z := z', l_nCcalls := c2\<rparr>)" "zok z'" "zrest z' = more"
    using assms(2) unfolding loads_def by blast
  then show "\<exists>z. lbind m f S = Inr (y, S\<lparr>l_Z := z, l_nCcalls := c2\<rparr>) \<and> zok z \<and> zrest z = more"
    using z by (intro exI [of _ z']) (simp add: lbind_def)
qed

lemma loads_block: "length e = n \<Longrightarrow> loads c c (LoadBlock reader n) e e"
  unfolding loads_def
proof (intro allI impI)
  fix S :: "'r LoadState" and more
  assume a: "length e = n" "l_nCcalls S = c" "zok (l_Z S)" "zrest (l_Z S) = e @ more"
  obtain z where "luaZ_read reader (l_Z S) n = Inr (0, e, z)" "zok z" "zrest z = more"
    using read_spec [OF a(3), of n] a(1,4) by auto
  then show "\<exists>z. LoadBlock reader n S = Inr (e, S\<lparr>l_Z := z, l_nCcalls := c\<rparr>) \<and> zok z \<and> zrest z = more"
    using a(2) by (intro exI [of _ z]) (simp add: LoadBlock_def same_depth)
qed

lemma loads_map:
  assumes "loads c c m e x" "\<And>S. f x S = lret y S"
  shows "loads c c (lbind m f) e y"
proof -
  have "loads c c (f x) [] y" using loads_ret [of c y] assms(2) by (simp add: loads_def)
  then show ?thesis using loads_bind [where f = f and ?e2.0 = "[]", OF assms(1)] by simp
qed

lemma loads_byte: "loads c c (LoadByte reader) [b] b"
  unfolding LoadByte_def by (rule loads_map [OF loads_block]) simp_all

lemma loads_char: "loads c c (LoadChar reader) [b] (sint b)"
  unfolding LoadChar_def by (rule loads_map [OF loads_block]) simp_all

lemma loads_int: "0 \<le> x \<Longrightarrow> x \<le> int_max \<Longrightarrow> loads c c (LoadInt reader) (int_bytes x) x"
  unfolding LoadInt_def by (rule loads_map [OF loads_block]) (simp_all add: bytes_int_bytes int_min_def)

lemma loads_num: "length (num n) = 8 \<Longrightarrow> denum (num n) = n \<Longrightarrow> loads c c (LoadNumber denum reader) (num n) n"
  unfolding LoadNumber_def by (rule loads_map [OF loads_block]) simp_all

lemma loads_string:
  assumes "short_string s"
  shows "loads c c (LoadString reader) (concat (string_blocks s)) s"
proof (cases s)
  case None
  have "loads c c (LoadString reader) (size_bytes 0) None"
    unfolding LoadString_def by (rule loads_map [OF loads_block]) (simp_all add: size_bytes_def le_val_le_bytes del: le_bytes.simps)
  then show ?thesis by (simp add: None string_blocks_def)
next
  case (Some t)
  have v: "le_val (size_bytes (length t + 1)) = length t + 1" using assms Some by (intro le_val_size) (simp add: short_string_def)
  have "loads c c (lbind (LoadBlock reader (length t + 1)) (\<lambda>s. lret (Some (take (length t + 1 - 1) s)))) (t @ [0]) (Some t)"
    by (rule loads_map [OF loads_block]) simp_all
  then have "loads c c (LoadString reader) (size_bytes (length t + 1) @ t @ [0]) (Some t)"
    unfolding LoadString_def using v by (intro loads_bind [OF loads_block]) (simp_all add: Let_def size_bytes_def del: le_bytes.simps)
  then show ?thesis by (simp add: Some string_blocks_def)
qed

lemma loads_list:
  "(\<And>x. x \<in> set xs \<Longrightarrow> loads c c m (enc x) (g x)) \<Longrightarrow> loads c c (load_n m (length xs)) (concat (map enc xs)) (map g xs)"
proof (induction xs)
  case (Cons x xs)
  have "loads c c (lbind (load_n m (length xs)) (\<lambda>ys. lret (g x # ys))) (concat (map enc xs)) (g x # map g xs)"
    by (rule loads_map [OF Cons.IH]) (use Cons.prems in simp_all)
  then show ?case using Cons.prems by (auto intro!: loads_bind)
qed (simp add: loads_ret)

lemma loads_counted:
  assumes "int (length xs) \<le> int_max" "\<And>x. x \<in> set xs \<Longrightarrow> loads c c m (enc x) (g x)" "loads c c' (f (map g xs)) e y"
  shows "loads c c' (lbind (LoadInt reader) (\<lambda>n. lbind (load_n m (nat n)) f)) (int_bytes (int (length xs)) @ concat (map enc xs) @ e) y"
  by (rule loads_bind [OF loads_int]) (use assms in \<open>auto intro!: loads_bind loads_list\<close>)

lemma loads_constant:
  assumes "storable_const num denum v"
  shows "loads c c (LoadConstant denum reader) (concat (constant_blocks num v)) v"
proof -
  have t: "sint (0 :: byte) = 0" "sint (1 :: byte) = 1" "sint (3 :: byte) = 3" "sint (4 :: byte) = 4" by simp_all
  consider "v = Nil" | b where "v = Boolean b" | n where "v = Number n" "length (num n) = 8" "denum (num n) = n"
    | s where "v = String s" "short_string (Some s)"
    using assms by (auto simp: storable_const_def split: TValue.splits gcref.splits)
  then show ?thesis
  proof cases
    case 1
    have "loads c c (LoadConstant denum reader) [0] Nil" unfolding LoadConstant_def by (rule loads_map [OF loads_char]) simp
    then show ?thesis by (simp add: 1 constant_blocks_def ttype_def)
  next
    case (2 b)
    have "loads c c (lbind (LoadChar reader) (\<lambda>b. lret (Boolean (b \<noteq> 0)))) [if b then 1 else 0] (Boolean b)"
      by (rule loads_map [OF loads_char]) simp
    then have "loads c c (LoadConstant denum reader) ([1] @ [if b then 1 else 0]) (Boolean b)"
      unfolding LoadConstant_def by (intro loads_bind [OF loads_char]) simp
    then show ?thesis by (simp add: 2 constant_blocks_def ttype_def)
  next
    case (3 n)
    have "loads c c (lbind (LoadNumber denum reader) (\<lambda>n. lret (Number n))) (num n) (Number n)"
      by (rule loads_map [OF loads_num]) (simp_all add: 3)
    then have "loads c c (LoadConstant denum reader) ([3] @ num n) (Number n)"
      unfolding LoadConstant_def by (intro loads_bind [OF loads_char]) simp
    then show ?thesis by (simp add: 3 constant_blocks_def ttype_def)
  next
    case (4 s)
    have "loads c c (lbind (LoadString reader) (\<lambda>s. case s of Some s \<Rightarrow> lret (String s) | None \<Rightarrow> (\<lambda>S. Inl (CFault NullDeref))))
        (concat (string_blocks (Some s))) (String s)"
      by (rule loads_map [OF loads_string [OF 4(2)]]) simp
    then have "loads c c (LoadConstant denum reader) ([4] @ concat (string_blocks (Some s))) (String s)"
      unfolding LoadConstant_def by (intro loads_bind [OF loads_char]) simp
    then show ?thesis by (simp add: 4 constant_blocks_def ttype_def)
  qed
qed

lemma loads_small: "small_int x \<Longrightarrow> loads c c (LoadInt reader) (int_bytes x) x"
  by (simp add: small_int_def loads_int)

lemma loads_locvar:
  assumes "short_string (varname v)" "small_int (startpc v)" "small_int (endpc v)"
  shows "loads c c (LoadLocVar reader) (concat (locvar_blocks v)) v"
proof -
  have "loads c c (lbind (LoadInt reader) (\<lambda>e. lret \<lparr>varname = varname v, startpc = startpc v, endpc = e\<rparr>)) (int_bytes (endpc v)) v"
    by (rule loads_map [OF loads_small [OF assms(3)]]) (cases v, simp)
  then have "loads c c (LoadLocVar reader) (concat (string_blocks (varname v)) @ int_bytes (startpc v) @ int_bytes (endpc v)) v"
    unfolding LoadLocVar_def by (intro loads_bind [OF loads_string] loads_bind [OF loads_small] assms)
  then show ?thesis by (simp add: locvar_blocks_def)
qed

lemma concat_map_concat: "concat (concat xss) = concat (map concat xss)"
  by (induction xss) simp_all

lemma length_int_lists [simp]: "length (concat (map int_bytes xs)) = length xs * 4"
  by (induction xs) simp_all

lemma loads_debug:
  assumes "small_int (int (length li))" "small_int (int (length lv))" "small_int (int (length uv))"
    and "\<forall>x \<in> set li. int_min \<le> x \<and> x \<le> int_max"
    and "\<forall>v \<in> set lv. short_string (varname v) \<and> small_int (startpc v) \<and> small_int (endpc v)" "\<forall>s \<in> set uv. short_string s"
  shows "loads c c (LoadDebug reader) (concat (debug_blocks li lv uv)) (li, lv, uv)"
proof -
  have "loads c c (lbind (LoadInt reader) (\<lambda>n. lbind (load_n (LoadString reader) (nat n)) (\<lambda>uv. lret (li, lv, uv))))
      (int_bytes (int (length uv)) @ concat (map (\<lambda>s. concat (string_blocks s)) uv) @ []) (li, lv, uv)"
    by (rule loads_counted [where g = "\<lambda>s. s"]) (use assms in \<open>auto simp: small_int_def intro: loads_string loads_ret\<close>)
  then have "loads c c (lbind (LoadInt reader) (\<lambda>n. lbind (load_n (LoadLocVar reader) (nat n)) (\<lambda>lv.
      lbind (LoadInt reader) (\<lambda>n. lbind (load_n (LoadString reader) (nat n)) (\<lambda>uv. lret (li, lv, uv))))))
      (int_bytes (int (length lv)) @ concat (map (\<lambda>v. concat (locvar_blocks v)) lv) @
       int_bytes (int (length uv)) @ concat (map (\<lambda>s. concat (string_blocks s)) uv)) (li, lv, uv)"
    by (intro loads_counted [where g = "\<lambda>v. v"]) (use assms in \<open>auto simp: small_int_def intro: loads_locvar\<close>)
  then have "loads c c (lbind (LoadBlock reader (nat (int (length li)) * 4)) (\<lambda>b. lbind (LoadInt reader) (\<lambda>n. lbind (load_n (LoadLocVar reader) (nat n)) (\<lambda>lv.
      lbind (LoadInt reader) (\<lambda>n. lbind (load_n (LoadString reader) (nat n)) (\<lambda>uv. lret (map sint (words4 b), lv, uv)))))))
      (concat (map int_bytes li) @ int_bytes (int (length lv)) @ concat (map (\<lambda>v. concat (locvar_blocks v)) lv) @
       int_bytes (int (length uv)) @ concat (map (\<lambda>s. concat (string_blocks s)) uv)) (li, lv, uv)"
    by (intro loads_bind [OF loads_block]) (simp_all add: words4_ints [OF assms(4)])
  then have "loads c c (LoadDebug reader) (int_bytes (int (length li)) @ concat (map int_bytes li) @ int_bytes (int (length lv))
      @ concat (map (\<lambda>v. concat (locvar_blocks v)) lv) @ int_bytes (int (length uv)) @ concat (map (\<lambda>s. concat (string_blocks s)) uv)) (li, lv, uv)"
    unfolding LoadDebug_def by (rule loads_bind [OF loads_small [OF assms(1)]])
  then show ?thesis by (simp add: debug_blocks_def concat_map_concat o_def)
qed

text \<open>The loaded function: as it was, or stripped.\<close>

lemma accepted_check: "accepted f \<Longrightarrow> loads (Suc c) c (check_loaded f) [] f"
  unfolding loads_def
proof (intro allI impI)
  fix S :: "'r LoadState" and more
  assume "accepted f" "l_nCcalls S = Suc c" "zok (l_Z S)" "zrest (l_Z S) = [] @ more"
  then show "\<exists>z. check_loaded f S = Inr (f, S\<lparr>l_Z := z, l_nCcalls := c\<rparr>) \<and> zok z \<and> zrest z = more"
    by (intro exI [of _ "l_Z S"]) (simp add: check_loaded_def accepted.simps [of f])
qed

lemma loads_code: "small_int (int (length ws)) \<Longrightarrow> loads c c (LoadCode reader) (int_bytes (int (length ws)) @ word_bytes ws) ws"
  unfolding LoadCode_def by (rule loads_bind [OF loads_small]) (auto intro!: loads_map [OF loads_block])

lemma loads_enter:
  assumes "loads (Suc c) c' m e x" "Suc c \<le> LUAI_MAXCCALLS"
    and m0: "\<And>S. m0 S = (let S = S\<lparr>l_nCcalls := l_nCcalls S + 1\<rparr> in if l_nCcalls S > LUAI_MAXCCALLS then lerror why S else m S)"
  shows "loads c c' m0 e x"
  unfolding loads_def
proof (intro allI impI)
  fix S :: "'r LoadState" and more
  assume a: "l_nCcalls S = c" "zok (l_Z S)" "zrest (l_Z S) = e @ more"
  let ?S = "S\<lparr>l_nCcalls := Suc c\<rparr>"
  have "l_nCcalls ?S = Suc c" "zok (l_Z ?S)" "zrest (l_Z ?S) = e @ more" using a by simp_all
  then obtain z where "m ?S = Inr (x, ?S\<lparr>l_Z := z, l_nCcalls := c'\<rparr>)" "zok z" "zrest z = more"
    using assms(1) unfolding loads_def by blast
  then show "\<exists>z. m0 S = Inr (x, S\<lparr>l_Z := z, l_nCcalls := c'\<rparr>) \<and> zok z \<and> zrest z = more"
    using assms(2) a(1) by (intro exI [of _ z]) (simp add: m0)
qed

lemma loads_function:
  "storable num denum strip n f \<Longrightarrow> n \<le> d \<Longrightarrow> c + n \<le> LUAI_MAXCCALLS \<Longrightarrow> (strip \<or> p = None \<or> p = q) \<Longrightarrow>
    accepted (if strip then stripped q f else f) \<Longrightarrow>
    loads c c (LoadFunction d denum reader q) (concat (function_blocks num strip f p)) (if strip then stripped q f else f)"
proof (induction n arbitrary: f d c p q)
  case (Suc n)
  obtain d' where d: "d = Suc d'" "n \<le> d'" using Suc.prems(2) by (cases d) auto
  define g where "g = (if strip then stripped q f else f)"
  define src where "src = (if p_source f = p \<or> strip then None else p_source f)"
  note st = Suc.prems(1) [unfolded storable.simps]
  have dbg: "\<not> strip \<Longrightarrow> storable_debug f" using st by blast
  have src: "short_string src" "(if src = None then q else src) = p_source g"
    using dbg Suc.prems(4) by (auto simp: src_def g_def storable_debug_def short_string_def stripped.simps [of q f])
  have gs: "p_k g = p_k f" "p_code g = p_code f" "p_linedefined g = p_linedefined f" "p_lastlinedefined g = p_lastlinedefined f"
    "p_nups g = p_nups f" "p_numparams g = p_numparams f" "p_is_vararg g = p_is_vararg f" "p_maxstacksize g = p_maxstacksize f"
    "p_p g = (if strip then map (stripped q) (p_p f) else p_p f)"
    by (simp_all add: g_def stripped.simps [of q f])
  have inner: "loads (Suc c) (Suc c) (LoadFunction d' denum reader (p_source g)) (concat (function_blocks num strip h (p_source f)))
      (if strip then stripped q h else h)" if h: "h \<in> set (p_p f)" for h
  proof -
    have a: "accepted (if strip then stripped q h else h)"
      using Suc.prems(5) h unfolding g_def [symmetric] accepted.simps [of g] gs by (auto split: if_splits)
    have q: "strip \<Longrightarrow> p_source g = q" "\<not> strip \<Longrightarrow> p_source g = p_source f" by (simp_all add: g_def stripped.simps [of q f])
    show ?thesis
      using Suc.IH [of h d' "Suc c" "p_source f" "p_source g"] st h d(2) Suc.prems(3) a q by (cases strip) auto
  qed
  have db: "loads (Suc c) (Suc c) (LoadDebug reader)
      (concat (if strip then debug_blocks [] [] [] else debug_blocks (p_lineinfo f) (p_locvars f) (p_upvalues f)))
      (p_lineinfo g, p_locvars g, p_upvalues g)"
  proof (cases strip)
    case True
    then show ?thesis using loads_debug [of "[]" "[]" "[]" "Suc c"] by (simp add: g_def stripped.simps [of q f] small_int_def int_max_def)
  next
    case False
    then show ?thesis using dbg by (auto simp: g_def storable_debug_def intro: loads_debug)
  qed
  define mk where "mk = (\<lambda>k code ps li lv uv. check_loaded (Proto k code ps li lv uv (p_source g) (p_linedefined f) (p_lastlinedefined f)
    (p_nups f) (p_numparams f) (p_is_vararg f) (p_maxstacksize f)) :: ('r, Proto) loader)"
  define E1 where "E1 = concat (if strip then debug_blocks [] [] [] else debug_blocks (p_lineinfo f) (p_locvars f) (p_upvalues f))"
  define E2 where "E2 = int_bytes (int (length (p_p f))) @ concat (map (\<lambda>h. concat (function_blocks num strip h (p_source f))) (p_p f)) @ E1"
  define E3 where "E3 = int_bytes (int (sizek f)) @ concat (map (\<lambda>v. concat (constant_blocks num v)) (p_k f)) @ E2"
  have "mk (p_k f) (p_code f) (p_p g) (p_lineinfo g) (p_locvars g) (p_upvalues g) = check_loaded g"
    unfolding mk_def gs [symmetric] by simp
  then have "loads (Suc c) c (lbind (LoadDebug reader) (\<lambda>(li, lv, uv). mk (p_k f) (p_code f) (p_p g) li lv uv)) (E1 @ []) g"
    using Suc.prems(5) by (intro loads_bind [OF db [folded E1_def]]) (simp add: accepted_check g_def)
  moreover have "map (\<lambda>h. if strip then stripped q h else h) (p_p f) = p_p g" unfolding gs by simp
  ultimately have "loads (Suc c) c (lbind (LoadInt reader) (\<lambda>n. lbind (load_n (LoadFunction d' denum reader (p_source g)) (nat n)) (\<lambda>ps.
      lbind (LoadDebug reader) (\<lambda>(li, lv, uv). mk (p_k f) (p_code f) ps li lv uv)))) E2 g"
    unfolding E2_def using st inner by (intro loads_counted [where g = "\<lambda>h. if strip then stripped q h else h"]) (auto simp: small_int_def)
  then have "loads (Suc c) c (lbind (LoadInt reader) (\<lambda>n. lbind (load_n (LoadConstant denum reader) (nat n)) (\<lambda>k.
      lbind (LoadInt reader) (\<lambda>n. lbind (load_n (LoadFunction d' denum reader (p_source g)) (nat n)) (\<lambda>ps.
      lbind (LoadDebug reader) (\<lambda>(li, lv, uv). mk k (p_code f) ps li lv uv)))))) E3 g"
    unfolding E3_def using st by (intro loads_counted [where g = "\<lambda>v. v"]) (auto simp: small_int_def intro: loads_constant)
  then have "loads (Suc c) c
       (lbind (LoadString reader) (\<lambda>source. let source = (if source = None then q else source) in
       lbind (LoadInt reader) (\<lambda>linedefined.
       lbind (LoadInt reader) (\<lambda>lastlinedefined.
       lbind (LoadByte reader) (\<lambda>nups.
       lbind (LoadByte reader) (\<lambda>numparams.
       lbind (LoadByte reader) (\<lambda>is_vararg.
       lbind (LoadByte reader) (\<lambda>maxstack.
       lbind (LoadCode reader) (\<lambda>code.
       lbind (LoadInt reader) (\<lambda>n. lbind (load_n (LoadConstant denum reader) (nat n)) (\<lambda>k.
       lbind (LoadInt reader) (\<lambda>n. lbind (load_n (LoadFunction d' denum reader source) (nat n)) (\<lambda>ps.
       lbind (LoadDebug reader) (\<lambda>(li, lv, uv).
       check_loaded (Proto k code ps li lv uv source linedefined lastlinedefined nups numparams is_vararg maxstack)))))))))))))))
      (concat (string_blocks src) @ int_bytes (p_linedefined f) @ int_bytes (p_lastlinedefined f) @ [p_nups f] @ [p_numparams f]
        @ [p_is_vararg f] @ [p_maxstacksize f] @ (int_bytes (int (sizecode f)) @ word_bytes (p_code f)) @ E3) g"
    unfolding Let_def mk_def
    by (intro loads_bind [OF loads_string [OF src(1)]], unfold src(2))
      (use st in \<open>intro loads_bind [OF loads_small] loads_bind [OF loads_byte] loads_bind [OF loads_code]; simp\<close>)
  moreover have "concat (string_blocks src) @ int_bytes (p_linedefined f) @ int_bytes (p_lastlinedefined f) @ [p_nups f] @ [p_numparams f]
        @ [p_is_vararg f] @ [p_maxstacksize f] @ (int_bytes (int (sizecode f)) @ word_bytes (p_code f)) @ E3 = concat (function_blocks num strip f p)"
    by (subst function_blocks.simps) (simp add: src_def E1_def E2_def E3_def concat_map_concat o_def)
  ultimately show ?case
    unfolding d(1) g_def [symmetric] using Suc.prems(3) by (intro loads_enter [OF _ _ LoadFunction.simps(2)]) simp_all
qed simp

section \<open>Loading any bytes\<close>

text \<open>
  On a stream of less than \<open>2\<^sup>3\<^sup>2\<close> bytes the loader ends with a Lua error or with a value for which \<open>Q\<close>; of the
  faults only the null string of a constant is possible.
\<close>

definition fine :: "nat \<Rightarrow> ('a \<Rightarrow> bool) \<Rightarrow> ('a \<times> 'r LoadState) lres \<Rightarrow> bool" where
  "fine c' Q r = (case r of
       Inl (CFault e) \<Rightarrow> e = NullDeref
     | Inl (LuaError msg) \<Rightarrow> True
     | Inr (x, S') \<Rightarrow> Q x \<and> l_nCcalls S' = c' \<and> zok (l_Z S') \<and> length (zrest (l_Z S')) < 2 ^ 32)"

lemma fine_simps [simp]:
  "fine c' Q (Inl (CFault e)) \<longleftrightarrow> e = NullDeref" "fine c' Q (raise msg)"
  "fine c' Q (Inr (x, S')) \<longleftrightarrow> Q x \<and> l_nCcalls S' = c' \<and> zok (l_Z S') \<and> length (zrest (l_Z S')) < 2 ^ 32"
  by (simp_all add: fine_def)

lemma fine_Inl: "fine c' Q (Inl e) \<Longrightarrow> fine c'' R (Inl e)"
  by (cases e) simp_all

definition safe :: "nat \<Rightarrow> nat \<Rightarrow> ('a \<Rightarrow> bool) \<Rightarrow> ('r, 'a) loader \<Rightarrow> bool" where
  "safe c c' Q m \<longleftrightarrow> (\<forall>S. l_nCcalls S = c \<longrightarrow> zok (l_Z S) \<longrightarrow> length (zrest (l_Z S)) < 2 ^ 32 \<longrightarrow> fine c' Q (m S))"

lemma safe_ret: "Q x \<Longrightarrow> safe c c Q (lret x)"
  by (simp add: safe_def lret_def)

lemma safe_error: "safe c c' Q (lerror why)"
  by (simp add: safe_def lerror_def)

lemma safe_bind:
  assumes "safe c c1 Q m" "\<And>x. Q x \<Longrightarrow> safe c1 c2 R (f x)"
  shows "safe c c2 R (lbind m f)"
  unfolding safe_def
proof (intro allI impI)
  fix S :: "'r LoadState"
  assume a: "l_nCcalls S = c" "zok (l_Z S)" "length (zrest (l_Z S)) < 2 ^ 32"
  have m: "fine c1 Q (m S)" using assms(1) a by (simp add: safe_def)
  show "fine c2 R (lbind m f S)"
  proof (cases "m S")
    case (Inl e)
    then show ?thesis using m fine_Inl [of c1 Q e c2 R] by (simp add: lbind_def)
  next
    case (Inr xS)
    obtain x S' where xS: "xS = (x, S')" by (cases xS)
    then show ?thesis using assms(2) [of x] m Inr by (simp add: safe_def lbind_def)
  qed
qed

lemma safe_block: "safe c c (\<lambda>b. length b = n \<and> n < 2 ^ 32) (LoadBlock reader n)"
  unfolding safe_def
proof (intro allI impI)
  fix S :: "'r LoadState"
  assume a: "l_nCcalls S = c" "zok (l_Z S)" "length (zrest (l_Z S)) < 2 ^ 32"
  obtain z where "luaZ_read reader (l_Z S) n = Inr (n - length (zrest (l_Z S)), take n (zrest (l_Z S)), z)" "zok z"
    "zrest z = drop n (zrest (l_Z S))" using read_spec [OF a(2)] by blast
  then show "fine c (\<lambda>x. (length x = n \<and> n < 2 ^ 32)) (LoadBlock reader n S)"
    using a by (auto simp: LoadBlock_def lerror_def)
qed

lemma safe_int: "safe c c (\<lambda>x. 0 \<le> x) (LoadInt reader)"
  unfolding LoadInt_def by (rule safe_bind [OF safe_block]) (simp add: Let_def safe_error safe_ret)

lemma safe_byte: "safe c c (\<lambda>x. True) (LoadByte reader)"
  unfolding LoadByte_def by (rule safe_bind [OF safe_block]) (simp add: safe_ret)

lemma safe_char: "safe c c (\<lambda>x. True) (LoadChar reader)"
  unfolding LoadChar_def by (rule safe_bind [OF safe_block]) (simp add: safe_ret)

lemma safe_number: "safe c c (\<lambda>x. True) (LoadNumber denum reader)"
  unfolding LoadNumber_def by (rule safe_bind [OF safe_block]) (simp add: safe_ret)

lemma safe_string: "safe c c (\<lambda>x. True) (LoadString reader)"
  unfolding LoadString_def Let_def
  by (rule safe_bind [OF safe_block]) (auto intro!: safe_ret safe_bind [OF safe_block])

lemma words4_length: "length (words4 b) \<le> length b div 4"
  by (induction b rule: words4.induct) auto

lemma safe_code: "safe c c (\<lambda>ws. length ws \<le> 2 ^ 30) (LoadCode reader)"
  unfolding LoadCode_def
proof (rule safe_bind [OF safe_int], rule safe_bind [OF safe_block], rule safe_ret)
  fix n :: int and b :: bytes
  assume "length b = nat n * 4 \<and> nat n * 4 < 2 ^ 32"
  then show "length (words4 b) \<le> 2 ^ 30" using words4_length [of b] by simp
qed

lemma safe_n: "safe c c Q m \<Longrightarrow> safe c c (\<lambda>xs. \<forall>x \<in> set xs. Q x) (load_n m n)"
  by (induction n) (auto intro!: safe_ret safe_bind [of c c Q m] elim!: safe_bind)

lemma safe_constant: "safe c c (\<lambda>x. True) (LoadConstant denum reader)"
proof -
  have null: "safe c c (\<lambda>x. True) (\<lambda>S. Inl (CFault NullDeref))" by (simp add: safe_def)
  show ?thesis
    unfolding LoadConstant_def
    by (rule safe_bind [OF safe_char])
      (auto intro!: safe_ret safe_error safe_bind [OF safe_char] safe_bind [OF safe_number] safe_bind [OF safe_string] null split: option.splits)
qed

lemma safe_locvar: "safe c c (\<lambda>x. True) (LoadLocVar reader)"
  unfolding LoadLocVar_def by (intro safe_bind [OF safe_string] safe_bind [OF safe_int] safe_ret) simp

lemma safe_debug: "safe c c (\<lambda>x. True) (LoadDebug reader)"
  unfolding LoadDebug_def
  by (intro safe_bind [OF safe_int] safe_bind [OF safe_block] safe_bind [OF safe_n [OF safe_locvar]] safe_bind [OF safe_n [OF safe_string]] safe_ret) simp

lemma safe_check:
  assumes "sizecode f \<le> 2 ^ 30" "\<forall>g \<in> set (p_p f). accepted g"
  shows "safe (Suc c) c accepted (check_loaded f)"
  unfolding safe_def
proof (intro allI impI)
  fix S :: "'r LoadState"
  assume a: "l_nCcalls S = Suc c" "zok (l_Z S)" "length (zrest (l_Z S)) < 2 ^ 32"
  have "no_fault (luaG_checkcode f)" using symbexec_safe [OF assms(1) order_refl] by blast
  then show "fine c (\<lambda>x. accepted x) (check_loaded f S)"
    using a assms(2) by (cases "luaG_checkcode f") (auto simp: check_loaded_def lerror_def no_fault_def accepted.simps [of f] fine_def split: lua_error.splits)
qed

lemma safe_enter:
  assumes "Suc c \<le> LUAI_MAXCCALLS \<Longrightarrow> safe (Suc c) c' Q m"
    and m0: "\<And>S. m0 S = (let S = S\<lparr>l_nCcalls := l_nCcalls S + 1\<rparr> in if l_nCcalls S > LUAI_MAXCCALLS then lerror why S else m S)"
  shows "safe c c' Q m0"
  unfolding safe_def
proof (intro allI impI)
  fix S :: "'r LoadState"
  assume a: "l_nCcalls S = c" "zok (l_Z S)" "length (zrest (l_Z S)) < 2 ^ 32"
  let ?S = "S\<lparr>l_nCcalls := Suc c\<rparr>"
  have "l_nCcalls ?S = Suc c" "zok (l_Z ?S)" "length (zrest (l_Z ?S)) < 2 ^ 32" using a by simp_all
  then show "fine c' (\<lambda>x. Q x) (m0 S)"
    using assms(1) a(1) unfolding safe_def m0 by (cases "Suc c \<le> LUAI_MAXCCALLS") (auto simp: Let_def lerror_def)
qed

lemma safe_function: "LUAI_MAXCCALLS < d + c \<Longrightarrow> 0 < d \<Longrightarrow> safe c c accepted (LoadFunction d denum reader p)"
proof (induction d arbitrary: c p)
  case (Suc d)
  show ?case
  proof (rule safe_enter [OF _ LoadFunction.simps(2)])
    assume "Suc c \<le> LUAI_MAXCCALLS"
    then have inner: "safe (Suc c) (Suc c) accepted (LoadFunction d denum reader q)" for q using Suc by simp
    show "safe (Suc c) c accepted
       (lbind (LoadString reader) (\<lambda>source. let source = (if source = None then p else source) in
       lbind (LoadInt reader) (\<lambda>linedefined.
       lbind (LoadInt reader) (\<lambda>lastlinedefined.
       lbind (LoadByte reader) (\<lambda>nups.
       lbind (LoadByte reader) (\<lambda>numparams.
       lbind (LoadByte reader) (\<lambda>is_vararg.
       lbind (LoadByte reader) (\<lambda>maxstack.
       lbind (LoadCode reader) (\<lambda>code.
       lbind (LoadInt reader) (\<lambda>n. lbind (load_n (LoadConstant denum reader) (nat n)) (\<lambda>k.
       lbind (LoadInt reader) (\<lambda>n. lbind (load_n (LoadFunction d denum reader source) (nat n)) (\<lambda>ps.
       lbind (LoadDebug reader) (\<lambda>(li, lv, uv).
       check_loaded (Proto k code ps li lv uv source linedefined lastlinedefined nups numparams is_vararg maxstack)))))))))))))))"
      unfolding Let_def
      by (intro safe_bind [OF safe_string] safe_bind [OF safe_int] safe_bind [OF safe_byte] safe_bind [OF safe_code]
          safe_bind [OF safe_n [OF safe_constant]] safe_bind [OF safe_n [OF inner]] safe_bind [OF safe_debug])
        (auto intro!: safe_check split: prod.splits)
  qed
qed simp

end

section \<open>Properties\<close>

text \<open>
  C33: a chunk that was dumped loads back. For any reader that gives out the bytes \<open>luaU_dump\<close> wrote, in
  blocks of any size, \<open>luaU_undump\<close> gives the prototype that was dumped, and its stripped version if it was
  stripped, when the sizes are not negative, the functions are at most 200 deep and the checker accepts
  the code.
\<close>

theorem undump_dump:
  assumes src: "byte_source rdr content" "content r = snd (luaU_dump num f (\<lambda>d b. (0, d @ b)) [] strip)"
    and f: "storable num denum strip LUAI_MAXCCALLS f" "accepted (if strip then stripped (Some (str ''=?'')) f else f)"
  shows "\<exists>S. luaU_undump denum rdr (luaZ_init r) 0 name = Inr (if strip then stripped (Some (str ''=?'')) f else f, S)"
proof -
  let ?S = "\<lparr>l_Z = luaZ_init r, l_name = chunk_name name, l_nCcalls = 0\<rparr>"
  let ?g = "if strip then stripped (Some (str ''=?'')) f else f"
  have "content r = luaU_header @ concat (function_blocks num strip f None)"
    using src(2) write_until_all [of "\<lambda>d b. (0, d @ b)" "chunk_blocks num strip f" "[]"] by (simp add: luaU_dump_blocks chunk_blocks_def)
  then have z: "byte_source.zrest content (l_Z ?S) = (luaU_header @ concat (function_blocks num strip f None)) @ []" "byte_source.zok (l_Z ?S)"
    using byte_source.zok_init [OF src(1)] by simp_all
  have "length luaU_header = LUAC_HEADERSIZE" by (simp add: luaU_header_def LUA_SIGNATURE_def LUAC_HEADERSIZE_def str_def)
  then have h: "byte_source.loads content 0 0 (LoadHeader rdr) luaU_header ()"
    unfolding LoadHeader_def by (intro byte_source.loads_map [OF src(1) byte_source.loads_block [OF src(1)]]) simp_all
  have "byte_source.loads content 0 0 (LoadFunction (LUAI_MAXCCALLS + 1) denum rdr (Some (str ''=?''))) (concat (function_blocks num strip f None)) ?g"
    by (rule byte_source.loads_function [OF src(1) f(1) _ _ _ f(2)]) auto
  then have "byte_source.loads content 0 0 (lbind (LoadHeader rdr) (\<lambda>_. LoadFunction (LUAI_MAXCCALLS + 1) denum rdr (Some (str ''=?''))))
      (luaU_header @ concat (function_blocks num strip f None)) ?g"
    by (rule byte_source.loads_bind [OF src(1) h])
  then show ?thesis using z unfolding byte_source.loads_def [OF src(1)] luaU_undump_def by (metis LoadState.select_convs(1,3))
qed

text \<open>A function with a string among its constants that returns at once.\<close>

definition tiny :: Proto where
  "tiny = Proto [String [104, 105]] [CREATE_ABC (opnum OP_RETURN) 0 1 0] [] [1] [] [] (Some [64, 120]) 0 0 0 0 2 2"

lemma tiny_ok: "storable (\<lambda>_. []) (\<lambda>_. Nint 0) False LUAI_MAXCCALLS tiny" "accepted tiny"
proof -
  have m: "LUAI_MAXCCALLS = Suc 199" by (simp add: LUAI_MAXCCALLS_def)
  show "storable (\<lambda>_. []) (\<lambda>_. Nint 0) False LUAI_MAXCCALLS tiny"
    by (simp only: m storable.simps) (simp add: tiny_def storable_debug_def storable_const_def small_int_def short_string_def int_max_def int_min_def)
  have "luaG_checkcode tiny = Inr True" by code_simp
  then show "accepted tiny" by (subst accepted.simps) (simp add: tiny_def)
qed

theorem undump_dump_witness:
  "\<exists>S. luaU_undump (\<lambda>_. Nint 0) getS (luaZ_init (snd (luaU_dump (\<lambda>_. []) tiny (\<lambda>d b. (0, d @ b)) [] False))) 0 [] = Inr (tiny, S)"
  using undump_dump [OF getS.byte_source_axioms refl, where num = "\<lambda>_. []" and f = tiny and strip = False and denum = "\<lambda>_. Nint 0" and name = "[]"] tiny_ok by simp

text \<open>
  C34: loading never goes wrong. On any stream of less than \<open>2\<^sup>3\<^sup>2\<close> bytes, whatever they are, the loader ends with a
  Lua error or with a prototype all of whose functions the checker accepts; the only fault is the null string of a
  constant that is stored with size 0.
\<close>

theorem undump_safe:
  assumes src: "byte_source rdr content" and r: "length (content r) < 2 ^ 32"
  shows "(\<exists>msg. luaU_undump denum rdr (luaZ_init r) 0 name = raise msg)
    \<or> luaU_undump denum rdr (luaZ_init r) 0 name = Inl (CFault NullDeref)
    \<or> (\<exists>f S. luaU_undump denum rdr (luaZ_init r) 0 name = Inr (f, S) \<and> accepted f)"
proof -
  let ?S = "\<lparr>l_Z = luaZ_init r, l_name = chunk_name name, l_nCcalls = 0\<rparr>"
  have h: "byte_source.safe content 0 0 (\<lambda>_. True) (LoadHeader rdr)"
    unfolding LoadHeader_def
    by (rule byte_source.safe_bind [OF src byte_source.safe_block [OF src]]) (auto intro: byte_source.safe_error [OF src] byte_source.safe_ret [OF src])
  have "byte_source.safe content 0 0 accepted (lbind (LoadHeader rdr) (\<lambda>_. LoadFunction (LUAI_MAXCCALLS + 1) denum rdr (Some (str ''=?''))))"
    by (rule byte_source.safe_bind [OF src h], rule byte_source.safe_function [OF src]) simp_all
  then have "byte_source.fine content 0 accepted (luaU_undump denum rdr (luaZ_init r) 0 name)"
    using r byte_source.zok_init [OF src] unfolding byte_source.safe_def [OF src] luaU_undump_def by simp
  then show ?thesis unfolding byte_source.fine_def [OF src] by (auto split: sum.splits lua_error.splits)
qed

theorem undump_safe_witness:
  "(\<exists>msg. luaU_undump (\<lambda>_. Nint 0) getS (luaZ_init [27, 76]) 0 [] = raise msg)
    \<or> luaU_undump (\<lambda>_. Nint 0) getS (luaZ_init [27, 76]) 0 [] = Inl (CFault NullDeref)
    \<or> (\<exists>f S. luaU_undump (\<lambda>_. Nint 0) getS (luaZ_init [27, 76]) 0 [] = Inr (f, S) \<and> accepted f)"
  by (rule undump_safe [OF getS.byte_source_axioms]) simp

text \<open>
  The writer is called block by block until it fails, and its status is the result of \<open>luaU_dump\<close>.
\<close>

lemma dump_status: "w data luaU_header = (st, data') \<Longrightarrow> st \<noteq> 0 \<Longrightarrow> luaU_dump num f w data strip = (st, data')"
  by (simp add: luaU_dump_blocks chunk_blocks_def)

end
