(* ===== verification/LNum.thy ===== *)
theory LNum
  imports LObject
begin

text \<open>
  Text to number, \<open>luaO_str2d\<close> of \<open>lobject.c\<close>. \<open>strtod\<close> is an argument: the number and the position at which it
  stops. \<open>strtoul\<close> for base 16, which hexadecimal constants need, and the conversion of its result to a double are
  written out.
\<close>

section \<open>Hexadecimal constants\<close>

definition hexval :: "byte \<Rightarrow> nat" where
  "hexval c = (if isdigit c then unat c - 48 else unat (tolower c) - 87)"

definition at0 :: "bytes \<Rightarrow> nat \<Rightarrow> byte" where
  "at0 s i = (if i < length s then s ! i else 0)"

definition ULONG_MAX :: nat where "ULONG_MAX = 2 ^ 64 - 1"

definition strtoul16 :: "bytes \<Rightarrow> nat \<times> nat" where
  "strtoul16 s =
    (let i = length (takeWhile isspace s);
         neg = (at0 s i = 45);
         i = (if at0 s i = 45 \<or> at0 s i = 43 then i + 1 else i);
         i = (if at0 s i = 48 \<and> tolower (at0 s (i + 1)) = 120 \<and> isxdigit (at0 s (i + 2)) then i + 2 else i);
         ds = takeWhile isxdigit (drop i s);
         v = foldl (\<lambda>a d. 16 * a + hexval d) 0 ds
     in if ds = [] then (0, 0)
        else (if v > ULONG_MAX then ULONG_MAX else if neg then (2 ^ 64 - v) mod 2 ^ 64 else v, i + length ds))"

text \<open>The nearest double, the even one of two: 53 bits are kept.\<close>

fun bitlen :: "nat \<Rightarrow> nat" where
  "bitlen n = (if n = 0 then 0 else Suc (bitlen (n div 2)))"

declare bitlen.simps [simp del]

definition cast_num :: "nat \<Rightarrow> lnum" where
  "cast_num n =
    (if bitlen n \<le> 53 then Nint (int n)
     else
       (let e = bitlen n - 53; q = n div 2 ^ e; r = n mod 2 ^ e; h = 2 ^ (e - 1) in
        Nint (int ((if r > h \<or> r = h \<and> odd q then q + 1 else q) * 2 ^ e))))"

section \<open>Numerals\<close>

text \<open>The text is the one before its NUL; the result is None when it is not a numeral.\<close>

definition luaO_str2d :: "(bytes \<Rightarrow> lnum \<times> nat) \<Rightarrow> bytes \<Rightarrow> lnum option lres" where
  "luaO_str2d strtod s =
    (let (r, e) = strtod s in
     if e = 0 then Inr None
     else
       sbind (sget s e) (\<lambda>c.
       let (r, e) = (if c = 120 \<or> c = 88 then let (n, e) = strtoul16 s in (cast_num n, e) else (r, e)) in
       if dropWhile isspace (drop e s) = [] then Inr (Some r) else Inr None))"

definition strtod_ok :: "(bytes \<Rightarrow> lnum \<times> nat) \<Rightarrow> bool" where
  "strtod_ok strtod = (\<forall>s. snd (strtod s) \<le> length s)"

lemma str2d_total: "strtod_ok strtod \<Longrightarrow> isInr (luaO_str2d strtod s)"
  using sget_ok [of "snd (strtod s)" s] by (auto simp: strtod_ok_def luaO_str2d_def split: prod.splits)

end
