(* ===== verification/LLex.thy ===== *)
theory LLex
  imports LNum LCode LZio LDebug
begin

text \<open>
  The scanner, \<open>llex.c\<close>. The reader of the stream, the hash of numbers, \<open>strtod\<close> and the decimal point of the locale
  are parameters. The states of the functions being compiled, innermost first, are the parser's: the scanner uses the
  table of constants of the innermost, which keeps the strings alive.
\<close>

section \<open>Tokens\<close>

datatype RESERVED = TK_AND | TK_BREAK | TK_DO | TK_ELSE | TK_ELSEIF | TK_END | TK_FALSE | TK_FOR | TK_FUNCTION
  | TK_IF | TK_IN | TK_LOCAL | TK_NIL | TK_NOT | TK_OR | TK_REPEAT | TK_RETURN | TK_THEN | TK_TRUE | TK_UNTIL | TK_WHILE
  | TK_CONCAT | TK_DOTS | TK_EQ | TK_GE | TK_LE | TK_NE | TK_NUMBER | TK_NAME | TK_STRING | TK_EOS

definition FIRST_RESERVED :: int where "FIRST_RESERVED = 257"
definition NUM_RESERVED :: nat where "NUM_RESERVED = 21"

text \<open>The number of a token, which is a byte when it is not one of these.\<close>

fun tk :: "RESERVED \<Rightarrow> int" where
  "tk TK_AND = 257" | "tk TK_BREAK = 258" | "tk TK_DO = 259" | "tk TK_ELSE = 260" | "tk TK_ELSEIF = 261" | "tk TK_END = 262"
| "tk TK_FALSE = 263" | "tk TK_FOR = 264" | "tk TK_FUNCTION = 265" | "tk TK_IF = 266" | "tk TK_IN = 267" | "tk TK_LOCAL = 268"
| "tk TK_NIL = 269" | "tk TK_NOT = 270" | "tk TK_OR = 271" | "tk TK_REPEAT = 272" | "tk TK_RETURN = 273" | "tk TK_THEN = 274"
| "tk TK_TRUE = 275" | "tk TK_UNTIL = 276" | "tk TK_WHILE = 277" | "tk TK_CONCAT = 278" | "tk TK_DOTS = 279" | "tk TK_EQ = 280"
| "tk TK_GE = 281" | "tk TK_LE = 282" | "tk TK_NE = 283" | "tk TK_NUMBER = 284" | "tk TK_NAME = 285" | "tk TK_STRING = 286"
| "tk TK_EOS = 287"

definition luaX_tokens :: "bytes list" where
  "luaX_tokens = map str [''and'', ''break'', ''do'', ''else'', ''elseif'', ''end'', ''false'', ''for'', ''function'', ''if'',
    ''in'', ''local'', ''nil'', ''not'', ''or'', ''repeat'', ''return'', ''then'', ''true'', ''until'', ''while'',
    ''..'', ''...'', ''=='', ''>='', ''<='', ''~='', ''<number>'', ''<name>'', ''<string>'', ''<eof>'']"

text \<open>\<open>luaX_init\<close> sets the field \<open>reserved\<close> of the strings of the reserved words.\<close>

fun mark_reserved :: "nat \<Rightarrow> bytes list \<Rightarrow> (bytes \<Rightarrow> nat) \<Rightarrow> bytes \<Rightarrow> nat" where
  "mark_reserved i [] r = r"
| "mark_reserved i (t # ts) r = mark_reserved (i + 1) ts (r(t := i + 1))"

definition luaX_init :: "bytes \<Rightarrow> nat" where
  "luaX_init = mark_reserved 0 (take NUM_RESERVED luaX_tokens) (\<lambda>_. 0)"

text \<open>A union; nothing is read that was not written.\<close>

datatype SemInfo = NoInfo | SemR lnum | SemTs bytes

record Token =
  token :: int
  seminfo :: SemInfo

section \<open>State\<close>

text \<open>\<open>buff\<close> are the bytes in the buffer, whose size is \<open>buffsize\<close>.\<close>

record ('r, 'f) LexState =
  current :: int
  linenumber :: int
  lxlastline :: int
  tok :: Token
  lookahead :: Token
  lfs :: "'f FuncState_scheme list"
  zio :: "'r ZIO"
  buff :: bytes
  buffsize :: nat
  source :: bytes
  decpoint :: byte

record 'r lexenv =
  rdr :: "'r reader"
  numhash :: hash
  env_strtod :: "bytes \<Rightarrow> lnum \<times> nat"
  decimal_point :: byte

type_synonym ('r, 'f) lstep = "'r lexenv \<Rightarrow> ('r, 'f) LexState \<Rightarrow> ('r, 'f) LexState lres"

definition MAX_SIZET :: nat where "MAX_SIZET = 2 ^ 64 - 3"
definition LUA_MINBUFFER :: nat where "LUA_MINBUFFER = 32"
definition MAXSRC :: nat where "MAXSRC = 80"

definition next_char :: "('r, 'f) lstep" where
  "next_char E ls = sbind (zgetc (rdr E) (zio ls)) (\<lambda>(c, z). Inr (ls\<lparr>current := c, zio := z\<rparr>))"

definition currIsNewline :: "('r, 'f) LexState \<Rightarrow> bool" where
  "currIsNewline ls = (current ls = 10 \<or> current ls = 13)"

text \<open>The classes of \<open><ctype.h>\<close>, which are false at \<open>EOZ\<close>.\<close>

definition cls :: "(byte \<Rightarrow> bool) \<Rightarrow> ('r, 'f) LexState \<Rightarrow> bool" where
  "cls P ls = (current ls \<noteq> EOZ \<and> P (word_of_int (current ls)))"

section \<open>Errors\<close>

text \<open>A C string ends at its first NUL.\<close>

definition upto_nul :: "bytes \<Rightarrow> bytes" where
  "upto_nul = takeWhile (\<lambda>c. c \<noteq> 0)"

definition luaX_token2str :: "int \<Rightarrow> string lres" where
  "luaX_token2str t =
    (if t < FIRST_RESERVED then
       Inr (if iscntrl (word_of_int t) then ''char('' @ dec_string t @ '')'' else chars [word_of_int t])
     else sbind (lift (rd luaX_tokens (nat (t - FIRST_RESERVED)))) (\<lambda>s. Inr (chars s)))"

definition lex_message :: "('r, 'f) LexState \<Rightarrow> string \<Rightarrow> string" where
  "lex_message ls msg = chars (luaO_chunkid (upto_nul (source ls)) MAXSRC) @ '':'' @ dec_string (linenumber ls) @ '': '' @ msg"

definition save :: "byte \<Rightarrow> ('r, 'f) LexState \<Rightarrow> ('r, 'f) LexState lres" where
  "save c ls =
    (if length (buff ls) + 1 > buffsize ls then
       if buffsize ls \<ge> MAX_SIZET div 2 then raise (lex_message ls ''lexical element too long'')
       else if length (buff ls) < buffsize ls * 2 then Inr (ls\<lparr>buffsize := buffsize ls * 2, buff := buff ls @ [c]\<rparr>)
       else Inl (CFault WriteOOB)
     else Inr (ls\<lparr>buff := buff ls @ [c]\<rparr>))"

definition txtToken :: "('r, 'f) LexState \<Rightarrow> int \<Rightarrow> string lres" where
  "txtToken ls t =
    (if t \<in> {tk TK_NAME, tk TK_STRING, tk TK_NUMBER} then sbind (save 0 ls) (\<lambda>ls. Inr (chars (upto_nul (buff ls))))
     else luaX_token2str t)"

definition luaX_lexerror :: "('r, 'f) LexState \<Rightarrow> string \<Rightarrow> int \<Rightarrow> 'a lres" where
  "luaX_lexerror ls msg t =
    (if t \<noteq> 0 then
       sbind (txtToken ls t) (\<lambda>s. raise (lex_message ls msg @ '' near '' @ [CHR 0x27] @ s @ [CHR 0x27]))
     else raise (lex_message ls msg))"

definition luaX_syntaxerror :: "('r, 'f) LexState \<Rightarrow> string \<Rightarrow> 'a lres" where
  "luaX_syntaxerror ls msg = luaX_lexerror ls msg (token (tok ls))"

section \<open>Characters and lines\<close>

definition save_and_next :: "('r, 'f) lstep" where
  "save_and_next E ls = sbind (save (word_of_int (current ls)) ls) (next_char E)"

definition luaX_newstring :: "'r lexenv \<Rightarrow> bytes \<Rightarrow> ('r, 'f) LexState \<Rightarrow> (bytes \<times> ('r, 'f) LexState) lres" where
  "luaX_newstring E s ls =
    (case lfs ls of
       [] \<Rightarrow> Inl (CFault NullDeref)
     | fs # fss \<Rightarrow>
         sbind (luaH_setstr (numhash E) (fh fs) s) (\<lambda>(o', t).
           Inr (s, ls\<lparr>lfs := fs\<lparr>fh := (if value_at t o' = Nil then set_at t o' (Boolean True) else t)\<rparr> # fss\<rparr>)))"

definition inclinenumber :: "('r, 'f) lstep" where
  "inclinenumber E ls =
    (let old = current ls in
     sbind (next_char E ls) (\<lambda>ls.
     sbind (if currIsNewline ls \<and> current ls \<noteq> old then next_char E ls else Inr ls) (\<lambda>ls.
     sbind (lift (chk32 (linenumber ls + 1))) (\<lambda>n.
     let ls = ls\<lparr>linenumber := n\<rparr> in
     if n \<ge> MAX_INT then luaX_syntaxerror ls ''chunk has too many lines'' else Inr ls))))"

definition luaX_setinput :: "'r lexenv \<Rightarrow> 'r ZIO \<Rightarrow> bytes \<Rightarrow> ('r, 'f) LexState \<Rightarrow> ('r, 'f) LexState lres" where
  "luaX_setinput E z src ls =
    next_char E (ls\<lparr>decpoint := 46, lookahead := (lookahead ls)\<lparr>token := tk TK_EOS\<rparr>, zio := z, lfs := [], linenumber := 1,
      lxlastline := 1, source := src, buffsize := LUA_MINBUFFER\<rparr>)"

section \<open>Numerals\<close>

text \<open>\<open>strchr\<close> finds the terminator of the set as well.\<close>

definition check_next :: "bytes \<Rightarrow> 'r lexenv \<Rightarrow> ('r, 'f) LexState \<Rightarrow> (bool \<times> ('r, 'f) LexState) lres" where
  "check_next S E ls =
    (if strchr S (word_of_int (current ls)) = None then Inr (False, ls)
     else sbind (save_and_next E ls) (\<lambda>ls. Inr (True, ls)))"

text \<open>Loops have as fuel one more than the bytes left of the stream.\<close>

fun save_while :: "nat \<Rightarrow> (('r, 'f) LexState \<Rightarrow> bool) \<Rightarrow> ('r, 'f) lstep" where
  "save_while 0 P E ls = Inl (CFault Diverge)"
| "save_while (Suc n) P E ls = (if P ls then sbind (save_and_next E ls) (save_while n P E) else Inr ls)"

fun skip_while :: "nat \<Rightarrow> (('r, 'f) LexState \<Rightarrow> bool) \<Rightarrow> ('r, 'f) lstep" where
  "skip_while 0 P E ls = Inl (CFault Diverge)"
| "skip_while (Suc n) P E ls = (if P ls then sbind (next_char E ls) (skip_while n P E) else Inr ls)"

definition buffreplace :: "byte \<Rightarrow> byte \<Rightarrow> ('r, 'f) LexState \<Rightarrow> ('r, 'f) LexState" where
  "buffreplace from to ls = ls\<lparr>buff := map (\<lambda>c. if c = from then to else c) (buff ls)\<rparr>"

definition buff_number :: "'r lexenv \<Rightarrow> ('r, 'f) LexState \<Rightarrow> lnum option lres" where
  "buff_number E ls = sbind (lift (cstr (buff ls))) (luaO_str2d (env_strtod E))"

definition trydecpoint :: "'r lexenv \<Rightarrow> ('r, 'f) LexState \<Rightarrow> (lnum \<times> ('r, 'f) LexState) lres" where
  "trydecpoint E ls =
    (let old = decpoint ls; ls = buffreplace old (decimal_point E) (ls\<lparr>decpoint := decimal_point E\<rparr>) in
     sbind (buff_number E ls) (\<lambda>r. case r of
       Some x \<Rightarrow> Inr (x, ls)
     | None \<Rightarrow> luaX_lexerror (buffreplace (decpoint ls) 46 ls) ''malformed number'' (tk TK_NUMBER)))"

definition read_numeral :: "nat \<Rightarrow> 'r lexenv \<Rightarrow> ('r, 'f) LexState \<Rightarrow> (lnum \<times> ('r, 'f) LexState) lres" where
  "read_numeral n E ls =
    sbind (save_and_next E ls) (\<lambda>ls.
    sbind (save_while n (\<lambda>ls. cls isdigit ls \<or> current ls = 46) E ls) (\<lambda>ls.
    sbind (check_next (str ''Ee'') E ls) (\<lambda>(b, ls).
    sbind (if b then check_next (str ''+-'') E ls else Inr (b, ls)) (\<lambda>(_, ls).
    sbind (save_while n (\<lambda>ls. cls isalnum ls \<or> current ls = 95) E ls) (\<lambda>ls.
    sbind (save 0 ls) (\<lambda>ls.
    let ls = buffreplace 46 (decpoint ls) ls in
    sbind (buff_number E ls) (\<lambda>r. case r of
      Some x \<Rightarrow> Inr (x, ls)
    | None \<Rightarrow> trydecpoint E ls)))))))"

section \<open>Long strings\<close>

fun skip_eqs :: "nat \<Rightarrow> int \<Rightarrow> 'r lexenv \<Rightarrow> ('r, 'f) LexState \<Rightarrow> (int \<times> ('r, 'f) LexState) lres" where
  "skip_eqs 0 count E ls = Inl (CFault Diverge)"
| "skip_eqs (Suc n) count E ls =
    (if current ls = 61 then
       sbind (save_and_next E ls) (\<lambda>ls.
       sbind (lift (chk32 (count + 1))) (\<lambda>count. skip_eqs n count E ls))
     else Inr (count, ls))"

definition skip_sep :: "nat \<Rightarrow> 'r lexenv \<Rightarrow> ('r, 'f) LexState \<Rightarrow> (int \<times> ('r, 'f) LexState) lres" where
  "skip_sep n E ls =
    (let s = current ls in
     sbind (save_and_next E ls) (\<lambda>ls.
     sbind (skip_eqs n 0 E ls) (\<lambda>(count, ls).
     Inr (if current ls = s then count else - count - 1, ls))))"

text \<open>The body of the loop, which ends with the closing bracket; \<open>isstr\<close> says that there is a \<open>seminfo\<close> to fill.\<close>

fun long_loop :: "nat \<Rightarrow> bool \<Rightarrow> int \<Rightarrow> ('r, 'f) lstep" where
  "long_loop 0 isstr sep E ls = Inl (CFault Diverge)"
| "long_loop (Suc n) isstr sep E ls =
    (let c = current ls in
     if c = EOZ then luaX_lexerror ls (if isstr then ''unfinished long string'' else ''unfinished long comment'') (tk TK_EOS)
     else if c = 91 then
       sbind (skip_sep n E ls) (\<lambda>(k, ls).
       if k = sep then
         sbind (save_and_next E ls) (\<lambda>ls.
         if sep = 0 then luaX_lexerror ls ''nesting of [[...]] is deprecated'' 91
         else long_loop n isstr sep E ls)
       else long_loop n isstr sep E ls)
     else if c = 93 then
       sbind (skip_sep n E ls) (\<lambda>(k, ls).
       if k = sep then save_and_next E ls else long_loop n isstr sep E ls)
     else if c = 10 \<or> c = 13 then
       sbind (save 10 ls) (\<lambda>ls.
       sbind (inclinenumber E ls) (\<lambda>ls.
       long_loop n isstr sep E (if isstr then ls else ls\<lparr>buff := []\<rparr>)))
     else sbind (if isstr then save_and_next E ls else next_char E ls) (long_loop n isstr sep E))"

text \<open>\<open>luaX_newstring(ls, luaZ_buffer(ls->buff) + k, luaZ_bufflen(ls->buff) - 2*k)\<close>.\<close>

definition newstring_inside :: "'r lexenv \<Rightarrow> nat \<Rightarrow> ('r, 'f) LexState \<Rightarrow> (bytes \<times> ('r, 'f) LexState) lres" where
  "newstring_inside E k ls =
    (if 2 * k \<le> length (buff ls) then luaX_newstring E (take (length (buff ls) - 2 * k) (drop k (buff ls))) ls
     else Inl (CFault ReadOOB))"

definition read_long_string :: "nat \<Rightarrow> bool \<Rightarrow> int \<Rightarrow> 'r lexenv \<Rightarrow> ('r, 'f) LexState \<Rightarrow> (bytes \<times> ('r, 'f) LexState) lres" where
  "read_long_string n isstr sep E ls =
    sbind (save_and_next E ls) (\<lambda>ls.
    sbind (if currIsNewline ls then inclinenumber E ls else Inr ls) (\<lambda>ls.
    sbind (long_loop n isstr sep E ls) (\<lambda>ls.
    if isstr then newstring_inside E (nat (2 + sep)) ls else Inr ([], ls))))"

section \<open>Strings\<close>

definition UCHAR_MAX :: int where "UCHAR_MAX = 255"

text \<open>At most \<open>i\<close> digits of an escape, the first of which is there.\<close>

fun read_digits :: "nat \<Rightarrow> int \<Rightarrow> 'r lexenv \<Rightarrow> ('r, 'f) LexState \<Rightarrow> (int \<times> ('r, 'f) LexState) lres" where
  "read_digits 0 c E ls = Inr (c, ls)"
| "read_digits (Suc i) c E ls =
    (let c = 10 * c + (current ls - 48) in
     sbind (next_char E ls) (\<lambda>ls. if cls isdigit ls then read_digits i c E ls else Inr (c, ls)))"

definition escape :: "int \<Rightarrow> byte option" where
  "escape c = (if c = 97 then Some 7 else if c = 98 then Some 8 else if c = 102 then Some 12 else if c = 110 then Some 10
    else if c = 114 then Some 13 else if c = 116 then Some 9 else if c = 118 then Some 11 else None)"

text \<open>The case of a backslash.\<close>

definition read_escape :: "('r, 'f) lstep" where
  "read_escape E ls =
    sbind (next_char E ls) (\<lambda>ls.
    case escape (current ls) of
      Some c \<Rightarrow> sbind (save c ls) (next_char E)
    | None \<Rightarrow>
        if currIsNewline ls then sbind (save 10 ls) (inclinenumber E)
        else if current ls = EOZ then Inr ls
        else if \<not> cls isdigit ls then save_and_next E ls
        else
          sbind (read_digits 3 0 E ls) (\<lambda>(c, ls).
          if c > UCHAR_MAX then luaX_lexerror ls ''escape sequence too large'' (tk TK_STRING)
          else save (word_of_int c) ls))"

fun string_loop :: "nat \<Rightarrow> int \<Rightarrow> ('r, 'f) lstep" where
  "string_loop 0 del E ls = Inl (CFault Diverge)"
| "string_loop (Suc n) del E ls =
    (if current ls \<noteq> del then
       if current ls = EOZ then luaX_lexerror ls ''unfinished string'' (tk TK_EOS)
       else if currIsNewline ls then luaX_lexerror ls ''unfinished string'' (tk TK_STRING)
       else sbind (if current ls = 92 then read_escape E ls else save_and_next E ls) (string_loop n del E)
     else Inr ls)"

definition read_string :: "nat \<Rightarrow> int \<Rightarrow> 'r lexenv \<Rightarrow> ('r, 'f) LexState \<Rightarrow> (bytes \<times> ('r, 'f) LexState) lres" where
  "read_string n del E ls =
    sbind (save_and_next E ls) (\<lambda>ls.
    sbind (string_loop n del E ls) (\<lambda>ls.
    sbind (save_and_next E ls) (newstring_inside E 1)))"

section \<open>The next token\<close>

type_synonym ('r, 'f) scan = "(Token \<times> ('r, 'f) LexState) lres"

text \<open>A comment, after its first minus; the second is the current character.\<close>

definition read_comment :: "nat \<Rightarrow> ('r, 'f) lstep" where
  "read_comment n E ls =
    (let short = skip_while n (\<lambda>ls. \<not> currIsNewline ls \<and> current ls \<noteq> EOZ) E in
     sbind (next_char E ls) (\<lambda>ls.
     if current ls = 91 then
       sbind (skip_sep n E ls) (\<lambda>(sep, ls).
       let ls = ls\<lparr>buff := []\<rparr> in
       if sep \<ge> 0 then sbind (read_long_string n False sep E ls) (\<lambda>(_, ls). Inr (ls\<lparr>buff := []\<rparr>))
       else short ls)
     else short ls))"

text \<open>A character, alone or with \<open>=\<close> after it.\<close>

definition with_equal :: "int \<Rightarrow> RESERVED \<Rightarrow> SemInfo \<Rightarrow> 'r lexenv \<Rightarrow> ('r, 'f) LexState \<Rightarrow> ('r, 'f) scan" where
  "with_equal c two si E ls =
    sbind (next_char E ls) (\<lambda>ls.
    if current ls \<noteq> 61 then Inr (\<lparr>token = c, seminfo = si\<rparr>, ls)
    else sbind (next_char E ls) (\<lambda>ls. Inr (\<lparr>token = tk two, seminfo = si\<rparr>, ls)))"

definition string_token :: "bytes \<times> ('r, 'f) LexState \<Rightarrow> ('r, 'f) scan" where
  "string_token r = Inr (\<lparr>token = tk TK_STRING, seminfo = SemTs (fst r)\<rparr>, snd r)"

definition number_token :: "lnum \<times> ('r, 'f) LexState \<Rightarrow> ('r, 'f) scan" where
  "number_token r = Inr (\<lparr>token = tk TK_NUMBER, seminfo = SemR (fst r)\<rparr>, snd r)"

definition long_bracket :: "nat \<Rightarrow> SemInfo \<Rightarrow> 'r lexenv \<Rightarrow> ('r, 'f) LexState \<Rightarrow> ('r, 'f) scan" where
  "long_bracket n si E ls =
    sbind (skip_sep n E ls) (\<lambda>(sep, ls).
    if sep \<ge> 0 then sbind (read_long_string n True sep E ls) string_token
    else if sep = - 1 then Inr (\<lparr>token = 91, seminfo = si\<rparr>, ls)
    else luaX_lexerror ls ''invalid long string delimiter'' (tk TK_STRING))"

definition dots :: "nat \<Rightarrow> SemInfo \<Rightarrow> 'r lexenv \<Rightarrow> ('r, 'f) LexState \<Rightarrow> ('r, 'f) scan" where
  "dots n si E ls =
    sbind (save_and_next E ls) (\<lambda>ls.
    sbind (check_next (str ''.'') E ls) (\<lambda>(b, ls).
    if b then
      sbind (check_next (str ''.'') E ls) (\<lambda>(b, ls).
      Inr (\<lparr>token = (if b then tk TK_DOTS else tk TK_CONCAT), seminfo = si\<rparr>, ls))
    else if \<not> cls isdigit ls then Inr (\<lparr>token = 46, seminfo = si\<rparr>, ls)
    else sbind (read_numeral n E ls) number_token))"

definition read_name :: "nat \<Rightarrow> SemInfo \<Rightarrow> 'r lexenv \<Rightarrow> ('r, 'f) LexState \<Rightarrow> ('r, 'f) scan" where
  "read_name n si E ls =
    sbind (save_and_next E ls) (\<lambda>ls.
    sbind (save_while n (\<lambda>ls. cls isalnum ls \<or> current ls = 95) E ls) (\<lambda>ls.
    sbind (luaX_newstring E (buff ls) ls) (\<lambda>(ts, ls).
    if luaX_init ts > 0 then Inr (\<lparr>token = int (luaX_init ts) - 1 + FIRST_RESERVED, seminfo = si\<rparr>, ls)
    else Inr (\<lparr>token = tk TK_NAME, seminfo = SemTs ts\<rparr>, ls))))"

text \<open>The token, in whose \<open>seminfo\<close> \<open>si\<close> was, and the state.\<close>

fun llex_loop :: "nat \<Rightarrow> SemInfo \<Rightarrow> 'r lexenv \<Rightarrow> ('r, 'f) LexState \<Rightarrow> ('r, 'f) scan" where
  "llex_loop 0 si E ls = Inl (CFault Diverge)"
| "llex_loop (Suc n) si E ls =
    (let c = current ls in
     if currIsNewline ls then sbind (inclinenumber E ls) (llex_loop n si E)
     else if c = 45 then
       sbind (next_char E ls) (\<lambda>ls.
       if current ls \<noteq> 45 then Inr (\<lparr>token = 45, seminfo = si\<rparr>, ls)
       else sbind (read_comment n E ls) (llex_loop n si E))
     else if c = 91 then long_bracket n si E ls
     else if c = 61 then with_equal 61 TK_EQ si E ls
     else if c = 60 then with_equal 60 TK_LE si E ls
     else if c = 62 then with_equal 62 TK_GE si E ls
     else if c = 126 then with_equal 126 TK_NE si E ls
     else if c = 34 \<or> c = 39 then sbind (read_string n c E ls) string_token
     else if c = 46 then dots n si E ls
     else if c = EOZ then Inr (\<lparr>token = tk TK_EOS, seminfo = si\<rparr>, ls)
     else if cls isspace ls then sbind (next_char E ls) (llex_loop n si E)
     else if cls isdigit ls then sbind (read_numeral n E ls) number_token
     else if cls isalpha ls \<or> c = 95 then read_name n si E ls
     else sbind (next_char E ls) (\<lambda>ls. Inr (\<lparr>token = c, seminfo = si\<rparr>, ls)))"

definition llex :: "nat \<Rightarrow> SemInfo \<Rightarrow> 'r lexenv \<Rightarrow> ('r, 'f) LexState \<Rightarrow> ('r, 'f) scan" where
  "llex n si E ls = llex_loop n si E (ls\<lparr>buff := []\<rparr>)"

definition luaX_next :: "nat \<Rightarrow> ('r, 'f) lstep" where
  "luaX_next n E ls =
    (let ls = ls\<lparr>lxlastline := linenumber ls\<rparr> in
     if token (lookahead ls) \<noteq> tk TK_EOS then
       Inr (ls\<lparr>tok := lookahead ls, lookahead := (lookahead ls)\<lparr>token := tk TK_EOS\<rparr>\<rparr>)
     else sbind (llex n (seminfo (tok ls)) E ls) (\<lambda>(t, ls). Inr (ls\<lparr>tok := t\<rparr>)))"

definition luaX_lookahead :: "nat \<Rightarrow> ('r, 'f) lstep" where
  "luaX_lookahead n E ls =
    sbind (llex n (seminfo (lookahead ls)) E ls) (\<lambda>(t, ls). Inr (ls\<lparr>lookahead := t\<rparr>))"

end
