(* ===== verification/LLexProps.thy ===== *)
theory LLexProps
  imports LLex LTableProps LCodeProps StrLib
begin

text \<open>
  The scanner stays within its stream, its buffer and its tables on any text and ends; what \<open>string.format\<close> writes for
  \<open>%q\<close> is scanned back as the same string; and the table of constants stays well formed.
\<close>

section \<open>The strings kept alive\<close>

lemma luaH_setstr_spec:
  assumes t: "twf hn t"
  shows "luaH_setstr hn t s = raise ''table overflow'' \<and> 2 ^ MAXBITS \<le> length (all_keys t) \<or> (\<exists>l t'. luaH_setstr hn t s = Inr (l, t')
    \<and> twf hn t' \<and> at_loc t' (String s) l \<and> (\<forall>k'. live k' \<longrightarrow> tget t' k' = tget t k'))"
proof -
  have k: "ok_key (String s)" by (simp add: ok_key_def live_def)
  have f: "found t (String s) (luaH_getstr t s)" by (rule getstr_found [OF t])
  show ?thesis
    using f unfolding found_def
  proof (elim disjE exE conjE)
    fix l
    assume "luaH_getstr t s = Inr (Some l)" "at_loc t (String s) l"
    then show ?thesis using t by (simp add: luaH_setstr_def luaH_setstr_with_def)
  next
    assume "luaH_getstr t s = Inr None" "\<forall>l. \<not> at_loc t (String s) l"
    then show ?thesis using newkey_spec [OF t k] by (simp add: luaH_setstr_def luaH_setstr_with_def)
  qed
qed

definition anchor :: "hash \<Rightarrow> table \<Rightarrow> bytes \<Rightarrow> table lres" where
  "anchor hn t s = sbind (luaH_setstr hn t s) (\<lambda>(l, t). Inr (if value_at t l = Nil then set_at t l (Boolean True) else t))"

lemma newstring_anchor:
  "luaX_newstring E s ls = (case lfs ls of [] \<Rightarrow> Inl (CFault NullDeref)
    | fs # fss \<Rightarrow> sbind (anchor (numhash E) (fh fs) s) (\<lambda>t. Inr (s, ls\<lparr>lfs := fs\<lparr>fh := t\<rparr> # fss\<rparr>)))"
  by (auto simp: luaX_newstring_def anchor_def sbind_def split: sum.splits prod.splits list.splits)

lemma anchor_spec:
  assumes t: "twf hn t"
  shows "anchor hn t s = raise ''table overflow'' \<and> 2 ^ MAXBITS \<le> length (all_keys t) \<or> (\<exists>t'. anchor hn t s = Inr t' \<and> twf hn t'
    \<and> tget t' (String s) \<noteq> Nil \<and> (\<forall>k. live k \<longrightarrow> k \<noteq> String s \<or> tget t k \<noteq> Nil \<longrightarrow> tget t' k = tget t k)
    \<and> (\<forall>x. tget t' (String s) = Number x \<longleftrightarrow> tget t (String s) = Number x))"
  using luaH_setstr_spec [OF t, of s]
proof (elim disjE exE conjE)
  fix l t'
  assume s: "luaH_setstr hn t s = Inr (l, t')" "twf hn t'" "at_loc t' (String s) l" "\<forall>k'. live k' \<longrightarrow> tget t' k' = tget t k'"
  have k: "live (String s)" by (simp add: live_def)
  have v: "value_at t' l = tget t (String s)" using tget_at [OF s(2) k s(3)] s(4) k by simp
  show ?thesis
  proof (cases "value_at t' l = Nil")
    case True
    then have "anchor hn t s = Inr (set_at t' l (Boolean True))" using s(1) by (simp add: anchor_def)
    moreover have "tget (set_at t' l (Boolean True)) k' = (if k' = String s then Boolean True else tget t k')" if "live k'" for k'
      using tget_set_at [OF s(2) k s(3) that] s(4) that by simp
    ultimately show ?thesis using set_at_twf(1) [OF s(2) k s(3)] v True k by auto
  next
    case False
    then have "anchor hn t s = Inr t'" using s(1) by (simp add: anchor_def)
    then show ?thesis using s(2,4) v False k by auto
  qed
qed (simp add: anchor_def)

section \<open>Numbers of tokens\<close>

lemma tk_range: "257 \<le> tk r" "tk r < 288"
  by (cases r; simp)+

lemma mark_reserved_le: "mark_reserved i ts r s \<le> max (r s) (i + length ts)"
proof (induction ts arbitrary: i r)
  case (Cons t ts)
  show ?case using Cons.IH [of "i + 1" "r(t := i + 1)"] by (auto simp: fun_upd_def split: if_splits)
qed simp

lemma luaX_init_le: "luaX_init s \<le> 21"
  using mark_reserved_le [of 0 "take NUM_RESERVED luaX_tokens" "\<lambda>_. 0" s] by (simp add: luaX_init_def NUM_RESERVED_def)

section \<open>Errors\<close>

lemma post_lexerror:
  assumes "t < 288" "length (buff ls) \<le> buffsize ls" "0 < buffsize ls"
  shows "post (luaX_lexerror ls msg t) Q"
proof -
  have s: "post (save 0 ls) (\<lambda>_. True)" using assms(2,3) by (auto simp: save_def)
  have "post (luaX_token2str t) (\<lambda>_. True)"
    using assms(1) by (auto simp: luaX_token2str_def rd_def FIRST_RESERVED_def luaX_tokens_def)
  then have "post (txtToken ls t) (\<lambda>_. True)" by (auto simp: txtToken_def intro: post_sbind [OF s])
  then show ?thesis by (auto simp: luaX_lexerror_def intro: post_sbind)
qed

section \<open>A whole text\<close>

text \<open>All the tokens up to the end, of a text given by a reader, for a function whose state is \<open>fs\<close>.\<close>

fun scan_all :: "nat \<Rightarrow> nat \<Rightarrow> 'r lexenv \<Rightarrow> ('r, 'f) LexState \<Rightarrow> (Token list \<times> ('r, 'f) LexState) lres" where
  "scan_all 0 n E ls = Inl (CFault Diverge)"
| "scan_all (Suc k) n E ls =
    sbind (luaX_next n E ls) (\<lambda>ls.
    if token (tok ls) = tk TK_EOS then Inr ([], ls)
    else sbind (scan_all k n E ls) (\<lambda>(ts, ls'). Inr (tok ls # ts, ls')))"

definition scan_text :: "'r lexenv \<Rightarrow> nat \<Rightarrow> 'r \<Rightarrow> 'f FuncState_scheme \<Rightarrow> ('r, 'f) LexState \<Rightarrow> (Token list \<times> ('r, 'f) LexState) lres" where
  "scan_text E len r fs ls =
    sbind (luaX_setinput E (luaZ_init r) [] ls) (\<lambda>ls. scan_all (len + 1) (len + 1) E (ls\<lparr>lfs := [fs]\<rparr>))"

section \<open>Safety\<close>

context byte_source
begin

text \<open>The bytes from the current one on, and the invariant of the state.\<close>

definition ltext :: "('r, 'f) LexState \<Rightarrow> bytes" where
  "ltext ls = (if current ls = EOZ then [] else word_of_int (current ls) # zrest (zio ls))"

definition env_ok :: "'r lexenv \<Rightarrow> bool" where
  "env_ok E \<longleftrightarrow> rdr E = reader \<and> strtod_ok (env_strtod E) \<and> decimal_point E \<noteq> 0"

definition lok :: "'r lexenv \<Rightarrow> ('r, 'f) LexState \<Rightarrow> bool" where
  "lok E ls \<longleftrightarrow> env_ok E \<and> (current ls = EOZ \<or> 0 \<le> current ls \<and> current ls < 256 \<and> zok (zio ls))
    \<and> length (buff ls) \<le> buffsize ls \<and> 0 < buffsize ls \<and> 0 \<le> linenumber ls \<and> linenumber ls < MAX_INT
    \<and> lfs ls \<noteq> [] \<and> twf (numhash E) (fh (hd (lfs ls))) \<and> token (tok ls) < 288 \<and> token (lookahead ls) = tk TK_EOS \<and> decpoint ls \<noteq> 0"

text \<open>At most \<open>L\<close> bytes are left and at least \<open>b\<close> bytes are in the buffer.\<close>

definition good :: "'r lexenv \<Rightarrow> nat \<Rightarrow> nat \<Rightarrow> ('r, 'f) LexState \<Rightarrow> bool" where
  "good E L b ls \<longleftrightarrow> lok E ls \<and> length (ltext ls) \<le> L \<and> b \<le> length (buff ls)"

lemma good_lok: "good E L b ls \<Longrightarrow> lok E ls"
  by (simp add: good_def)

lemma good_weaken: "good E L b ls \<Longrightarrow> L \<le> M \<Longrightarrow> c \<le> b \<Longrightarrow> good E M c ls"
  by (simp add: good_def)

lemma post_weaken: "post m (good E L b) \<Longrightarrow> L \<le> M \<Longrightarrow> c \<le> b \<Longrightarrow> post m (good E M c)"
  by (erule post_mono) (rule good_weaken)

lemma ltext_simps [simp]: "ltext (ls\<lparr>buff := b\<rparr>) = ltext ls" "ltext (ls\<lparr>linenumber := n\<rparr>) = ltext ls" "ltext (ls\<lparr>lfs := f\<rparr>) = ltext ls"
  "ltext (ls\<lparr>tok := t\<rparr>) = ltext ls" "ltext (ls\<lparr>lookahead := t\<rparr>) = ltext ls" "ltext (ls\<lparr>decpoint := c\<rparr>) = ltext ls"
  "ltext (ls\<lparr>buffsize := k\<rparr>) = ltext ls" "ltext (ls\<lparr>lxlastline := n\<rparr>) = ltext ls"
  by (simp_all add: ltext_def)

lemma ltext_Nil: "ltext ls = [] \<longleftrightarrow> current ls = EOZ"
  by (simp add: ltext_def)

lemma next_char_spec:
  assumes "lok E ls" "current ls \<noteq> EOZ"
  shows "\<exists>c z. next_char E ls = Inr (ls\<lparr>current := c, zio := z\<rparr>) \<and> ltext (ls\<lparr>current := c, zio := z\<rparr>) = tl (ltext ls)
    \<and> (c = EOZ \<or> 0 \<le> c \<and> c < 256 \<and> zok z)"
proof -
  have z: "zok (zio ls)" "rdr E = reader" using assms by (auto simp: lok_def env_ok_def)
  from zgetc_spec [OF z(1)] show ?thesis
  proof (elim disjE exE conjE)
    fix b z'
    assume b: "zgetc reader (zio ls) = Inr (char2int b, z')" "zok z'" "zrest (zio ls) = b # zrest z'"
    have "uint b < 256" using unsigned_less [of b] by simp
    then show ?thesis using b assms(2) z(2)
      by (intro exI [of _ "uint b"] exI [of _ z']) (simp add: next_char_def ltext_def char2int_def)
  next
    fix z'
    assume "zrest (zio ls) = []" "zgetc reader (zio ls) = Inr (EOZ, z')"
    then show ?thesis using assms(2) z(2) by (intro exI [of _ EOZ] exI [of _ z']) (simp add: next_char_def ltext_def)
  qed
qed

lemma good_pos: "good E L b ls \<Longrightarrow> current ls \<noteq> EOZ \<Longrightarrow> 0 < L"
  by (cases "ltext ls") (auto simp: good_def ltext_Nil)

lemma g_next: "good E L b ls \<Longrightarrow> current ls \<noteq> EOZ \<Longrightarrow> post (next_char E ls) (good E (L - 1) b)"
  using next_char_spec [of E ls] by (cases "ltext ls") (auto simp: good_def lok_def ltext_Nil)

lemma g_save: "good E L b ls \<Longrightarrow> post (save c ls) (\<lambda>ls'. good E L (b + 1) ls' \<and> current ls' = current ls)"
  by (auto simp: save_def good_def lok_def MAX_SIZET_def)

lemma g_save_next: "good E L b ls \<Longrightarrow> current ls \<noteq> EOZ \<Longrightarrow> post (save_and_next E ls) (good E (L - 1) (b + 1))"
  unfolding save_and_next_def by (rule post_sbind [OF g_save]) (auto intro!: g_next simp del: One_nat_def)

lemma post_err: "good E L b ls \<Longrightarrow> t < 288 \<Longrightarrow> post (luaX_lexerror ls msg t) Q"
  by (rule post_lexerror) (auto simp: good_def lok_def)

lemma newline_ne: "currIsNewline ls \<Longrightarrow> current ls \<noteq> EOZ"
  by (auto simp: currIsNewline_def EOZ_def)

lemma g_inclinenumber:
  assumes "good E L b ls" "currIsNewline ls"
  shows "post (inclinenumber E ls) (good E (L - 1) b)"
proof -
  have n: "post (if currIsNewline ls1 \<and> P then next_char E ls1 else Inr ls1) (good E M b)" if "good E M b ls1" for ls1 P M
    using that post_weaken [OF g_next [OF that newline_ne]] by auto
  have e: "post (sbind (lift (chk32 (linenumber ls2 + 1))) (\<lambda>n. let ls = ls2\<lparr>linenumber := n\<rparr> in
      if n \<ge> MAX_INT then luaX_syntaxerror ls ''chunk has too many lines'' else Inr ls)) (good E M b)" if "good E M b ls2" for ls2 :: "('r, 'f) LexState" and M
  proof -
    have "chk32 (linenumber ls2 + 1) = Inr (linenumber ls2 + 1)" using that by (simp add: good_def lok_def MAX_INT_def int_max_def int_min_def)
    then show ?thesis using that
      by (auto simp: Let_def lok_def good_def luaX_syntaxerror_def intro!: post_lexerror)
  qed
  show ?thesis
    unfolding inclinenumber_def Let_def [of "current ls"]
    by (rule post_sbind [OF g_next [OF assms(1) newline_ne [OF assms(2)]]] post_sbind [OF n] e | assumption)+
qed

lemma g_save_while: "good E L b ls \<Longrightarrow> L < n \<Longrightarrow> (\<And>ls. P ls \<Longrightarrow> current ls \<noteq> EOZ) \<Longrightarrow> post (save_while n P E ls) (good E L b)"
proof (induction n arbitrary: ls L b)
  case (Suc n)
  have "post (save_while n P E ls1) (good E L b)" if "good E (L - 1) (b + 1) ls1" "P ls" for ls1
    using that Suc.prems by (intro post_weaken [OF Suc.IH [OF that(1)]]) (auto dest: good_pos)
  then show ?case using Suc.prems by (auto intro: post_sbind [OF g_save_next])
qed simp

lemma g_skip_while: "good E L b ls \<Longrightarrow> L < n \<Longrightarrow> (\<And>ls. P ls \<Longrightarrow> current ls \<noteq> EOZ) \<Longrightarrow> post (skip_while n P E ls) (good E L b)"
proof (induction n arbitrary: ls L b)
  case (Suc n)
  have "post (skip_while n P E ls1) (good E L b)" if "good E (L - 1) b ls1" "P ls" for ls1
    using that Suc.prems by (intro post_weaken [OF Suc.IH [OF that(1)]]) (auto dest: good_pos)
  then show ?case using Suc.prems by (auto intro: post_sbind [OF g_next])
qed simp

lemma g_check_next:
  assumes "good E L b ls" "-1 \<notin> set S"
  shows "post (check_next S E ls) (\<lambda>r. good E L b (snd r))"
proof (cases "strchr S (word_of_int (current ls)) = None")
  case False
  have "current ls \<noteq> EOZ" using False assms(2) by (auto simp: strchr_def find_pos_None EOZ_def)
  then have "post (save_and_next E ls) (good E (L - 1) (b + 1))" using assms(1) g_save_next by blast
  then show ?thesis using False by (auto simp: check_next_def intro!: post_sbind simp del: One_nat_def elim!: good_weaken)
qed (use assms in \<open>simp add: check_next_def\<close>)

lemma lok_upd [simp]: "c \<noteq> 0 \<Longrightarrow> lok E ls \<Longrightarrow> lok E (ls\<lparr>decpoint := c\<rparr>)" "lok E (ls\<lparr>lxlastline := n\<rparr>) = lok E ls"   "token t < 288 \<Longrightarrow> lok E ls \<Longrightarrow> lok E (ls\<lparr>tok := t\<rparr>)"
  by (simp_all add: lok_def)

lemma ltext_buffreplace [simp]: "ltext (buffreplace c d ls) = ltext ls"
  by (simp add: buffreplace_def)

lemma lok_buffreplace [simp]: "lok E (buffreplace c d ls) = lok E ls"
  by (simp add: lok_def buffreplace_def)

lemma good_buffreplace [simp]: "good E L b (buffreplace c d ls) = good E L b ls"
  by (simp add: good_def) (simp add: buffreplace_def)

lemma post_buff_number: "good E L b ls \<Longrightarrow> 0 \<in> set (buff ls) \<Longrightarrow> post (buff_number E ls) (\<lambda>_. True)"
  using str2d_total [of "env_strtod E" "takeWhile (\<lambda>c. c \<noteq> 0) (buff ls)"]
  by (auto simp: buff_number_def cstr_def good_def lok_def env_ok_def post_def isInr_def split: sum.splits)

lemma g_trydecpoint:
  assumes "good E L b ls" "0 \<in> set (buff ls)"
  shows "post (trydecpoint E ls) (\<lambda>r. good E L b (snd r))"
proof -
  let ?dp = "decimal_point E"
  let ?ls = "buffreplace (decpoint ls) ?dp (ls\<lparr>decpoint := ?dp\<rparr>)"
  have d: "?dp \<noteq> 0" "decpoint ls \<noteq> 0" using assms(1) by (auto simp: good_def lok_def env_ok_def)
  have l: "good E L b ?ls" using assms(1) d unfolding good_buffreplace by (simp add: good_def)
  have z: "0 \<in> set (buff ?ls)" using assms(2) d by (auto simp: buffreplace_def image_iff)
  show ?thesis
    unfolding trydecpoint_def Let_def
    by (rule post_sbind [OF post_buff_number [OF l z]]) (use l tk_range in \<open>auto split: option.splits intro!: post_err\<close>)
qed

lemma g_read_numeral:
  assumes "good E L b ls" "current ls \<noteq> EOZ" "L \<le> n"
  shows "post (read_numeral n E ls) (\<lambda>r. good E (L - 1) b (snd r))"
proof -
  let ?M = "L - 1"
  have cl: "cls P ls1 \<or> current ls1 = 46 \<or> current ls1 = 95 \<Longrightarrow> current ls1 \<noteq> EOZ" for P and ls1 :: "('r, 'f) LexState"
    by (auto simp: cls_def EOZ_def)
  have n: "?M < n" using good_pos [OF assms(1,2)] assms(3) by simp
  have fin: "post (sbind (buff_number E (buffreplace 46 (decpoint ls1) ls1)) (\<lambda>r. case r of
      Some x \<Rightarrow> Inr (x, buffreplace 46 (decpoint ls1) ls1) | None \<Rightarrow> trydecpoint E (buffreplace 46 (decpoint ls1) ls1))) (\<lambda>r. good E ?M b (snd r))"
    if "good E ?M (b + 2) ls1 \<and> 0 \<in> set (buff ls1)" for ls1 :: "('r, 'f) LexState"
  proof -
    have g: "good E ?M b ls1" using that by (auto elim: good_weaken)
    have d: "decpoint ls1 \<noteq> 0" using that(1) by (simp add: good_def lok_def)
    have z: "0 \<in> set (buff (buffreplace 46 (decpoint ls1) ls1))" using that by (auto simp: buffreplace_def image_iff)
    then show ?thesis using g g_trydecpoint [of E ?M b "buffreplace 46 (decpoint ls1) ls1"]
      by (intro post_sbind [OF post_buff_number]) (auto split: option.splits)
  qed
  have s: "post (save 0 ls1) (\<lambda>ls2. good E ?M (b + 2) ls2 \<and> 0 \<in> set (buff ls2))" if "good E ?M (b + 1) ls1" for ls1 :: "('r, 'f) LexState"
    using that by (auto simp: save_def good_def lok_def MAX_SIZET_def)
  have e: "- 1 \<notin> set (str ''Ee'')" "- 1 \<notin> set (str ''+-'')" by (simp_all add: str_def chr_def)
  have w1: "post (save_while n (\<lambda>ls. cls isdigit ls \<or> current ls = 46) E ls1) (good E ?M (b + 1))" if "good E ?M (b + 1) ls1" for ls1 :: "('r, 'f) LexState"
    using cl by (intro g_save_while [OF that n]) auto
  have w2: "post (save_while n (\<lambda>ls. cls isalnum ls \<or> current ls = 95) E ls1) (good E ?M (b + 1))" if "good E ?M (b + 1) ls1" for ls1 :: "('r, 'f) LexState"
    using cl by (intro g_save_while [OF that n]) auto
  have c2: "post (if x then check_next (str ''+-'') E ls1 else Inr (x, ls1)) (\<lambda>r. good E ?M (b + 1) (snd r))" if "good E ?M (b + 1) ls1" for x and ls1 :: "('r, 'f) LexState"
    using g_check_next [OF that e(2)] that by simp
  show ?thesis
    unfolding read_numeral_def Let_def
    by (rule post_sbind [OF g_save_next [OF assms(1,2)]] post_sbind [OF w1] post_sbind [OF g_check_next [OF _ e(1)]]
      post_sbind [OF c2] post_sbind [OF w2] post_sbind [OF s] fin | assumption | simp only: split_beta)+
qed

lemma g_skip_eqs:
  "good E L b (ls :: ('r, 'f) LexState) \<Longrightarrow> L < n \<Longrightarrow> 0 \<le> k \<Longrightarrow> k + int L < 2 ^ 31 \<Longrightarrow>
    post (skip_eqs n k E ls) (\<lambda>r. k \<le> fst r \<and> fst r < 2 ^ 31 \<and> good E L (b + nat (fst r - k)) (snd r))"
proof (induction n arbitrary: ls L b k)
  case (Suc n)
  show ?case
  proof (cases "current ls = 61")
    case True
    then have ne: "current ls \<noteq> EOZ" by (simp add: EOZ_def)
    then have L: "0 < L" using Suc.prems(1) good_pos by blast
    have c: "chk32 (k + 1) = Inr (k + 1)" using Suc.prems(3,4) L by (simp add: int_min_def int_max_def)
    have "post (skip_eqs n (k + 1) E ls1) (\<lambda>r. k \<le> fst r \<and> fst r < 2 ^ 31 \<and> good E L (b + nat (fst r - k)) (snd r))"
      if "good E (L - 1) (b + 1) ls1" for ls1 :: "('r, 'f) LexState"
      using Suc.prems L by (intro post_mono [OF Suc.IH [OF that]]) (auto elim!: good_weaken)
    then show ?thesis using True Suc.prems c ne by (auto intro!: post_sbind [OF g_save_next] simp del: One_nat_def)
  qed (use Suc.prems in simp)
qed simp

lemma g_skip_sep:
  assumes "good E L b ls" "L \<le> n" "int L < 2 ^ 31" "current ls \<noteq> EOZ"
  shows "post (skip_sep n E ls) (\<lambda>r. good E (L - 1) (b + 1) (snd r) \<and> fst r < 2 ^ 31
    \<and> (0 \<le> fst r \<longrightarrow> good E (L - 1) (b + 1 + nat (fst r)) (snd r) \<and> current (snd r) = current ls))"
proof -
  have L: "0 < L" using good_pos assms by blast
  have e: "post (skip_eqs n 0 E ls1) (\<lambda>r. 0 \<le> fst r \<and> fst r < 2 ^ 31 \<and> good E (L - 1) (b + 1 + nat (fst r)) (snd r))"
    if "good E (L - 1) (b + 1) ls1" for ls1
    using g_skip_eqs [OF that, of n 0] L assms by simp
  show ?thesis
    unfolding skip_sep_def Let_def
    by (rule post_sbind [OF g_save_next [OF assms(1,4)]], rule post_sbind [OF e], assumption)
      (auto elim!: good_weaken)
qed

text \<open>The bytes read before the bracket that closes are at least those of the brackets.\<close>

lemma g_long_loop:
  "good E L b (ls :: ('r, 'f) LexState) \<Longrightarrow> L < n \<Longrightarrow> int L < 2 ^ 31 \<Longrightarrow> 0 \<le> sep \<Longrightarrow>
    post (long_loop n isstr sep E ls) (good E L (if isstr then b + nat sep + 2 else 0))"
proof (induction n arbitrary: ls L b)
  case (Suc n)
  define Q :: "('r, 'f) LexState \<Rightarrow> bool" where "Q = good E L (if isstr then b + nat sep + 2 else 0)"
  have ih: "post (long_loop n isstr sep E ls1) Q" if "good E M c ls1" "M < L" "isstr \<longrightarrow> b \<le> c" for M c and ls1 :: "('r, 'f) LexState"
    using Suc.prems that unfolding Q_def by (intro post_weaken [OF Suc.IH [OF that(1)]]) (auto split: if_splits)
  note sep = g_skip_sep [OF Suc.prems(1) _ Suc.prems(3)]
  have "post (long_loop (Suc n) isstr sep E ls) Q"
  proof (cases "current ls = EOZ")
    case True
    then show ?thesis using Suc.prems(1) by (auto elim: post_err)
  next
    case ne: False
    then have L: "0 < L" using Suc.prems(1) good_pos by blast
    consider "current ls = 91" | "current ls = 93" | "currIsNewline ls" | "current ls \<notin> {91, 93, 10, 13}" by (auto simp: currIsNewline_def)
    then show ?thesis
    proof cases
      case 1
      have *: "post (if k = sep then sbind (save_and_next E ls1) (\<lambda>ls. if sep = 0 then luaX_lexerror ls ''nesting of [[...]] is deprecated'' 91
          else long_loop n isstr sep E ls) else long_loop n isstr sep E ls1) Q"
        if "good E (L - 1) (b + 1) ls1" "0 \<le> k \<Longrightarrow> current ls1 = 91" for k and ls1 :: "('r, 'f) LexState"
      proof -
        have "current ls1 \<noteq> EOZ" if "k = sep" using \<open>0 \<le> k \<Longrightarrow> current ls1 = 91\<close> that Suc.prems(4) by (auto simp: EOZ_def)
        moreover have "post (if sep = 0 then luaX_lexerror a ''nesting of [[...]] is deprecated'' 91 else long_loop n isstr sep E a) Q"
          if "good E (L - 1 - 1) (b + 1 + 1) a" for a
          using ih [OF that] post_err [OF that, where t = 91 and Q = Q] L by simp
        ultimately show ?thesis using that ih [OF that(1)] L
          by (auto intro!: post_sbind [OF g_save_next] simp del: One_nat_def)
      qed
      show ?thesis using 1 ne Suc.prems by (auto simp: split_beta intro!: post_sbind [OF sep] * split del: if_split)
    next
      case 2
      have *: "post (if k = sep then save_and_next E ls1 else long_loop n isstr sep E ls1) Q"
        if "good E (L - 1) (b + 1) ls1" "0 \<le> k \<Longrightarrow> good E (L - 1) (b + 1 + nat k) ls1 \<and> current ls1 = 93" for k and ls1 :: "('r, 'f) LexState"
      proof (cases "k = sep")
        case True
        then have "good E (L - 1) (b + 1 + nat sep) ls1" "current ls1 \<noteq> EOZ" using that(2) Suc.prems(4) by (auto simp: EOZ_def)
        then show ?thesis using True unfolding Q_def by (auto intro!: post_weaken [OF g_save_next])
      qed (use that(1) L in \<open>auto elim: ih\<close>)
      show ?thesis using 2 ne Suc.prems by (auto simp: split_beta intro!: post_sbind [OF sep] * split del: if_split)
    next
      case 3
      have "post (sbind (inclinenumber E ls1) (\<lambda>ls. long_loop n isstr sep E (if isstr then ls else ls\<lparr>buff := []\<rparr>))) Q"
        if "good E L (b + 1) ls1 \<and> current ls1 = current ls" for ls1 :: "('r, 'f) LexState"
      proof -
        have "good E (L - 1) (b + 1) ls2 \<Longrightarrow> \<not> isstr \<Longrightarrow> good E (L - 1) 0 (ls2\<lparr>buff := []\<rparr>)" for ls2 :: "('r, 'f) LexState" by (auto simp: good_def lok_def)
        then have "post (long_loop n isstr sep E (if isstr then ls2 else ls2\<lparr>buff := []\<rparr>)) Q" if "good E (L - 1) (b + 1) ls2" for ls2
          using that L ih [of "L - 1" "b + 1" ls2] ih [of "L - 1" 0 "ls2\<lparr>buff := []\<rparr>"] by (cases isstr) simp_all
        then show ?thesis using that 3 by (intro post_sbind [OF g_inclinenumber]) (auto simp: currIsNewline_def)
      qed
      then show ?thesis using 3 ne Suc.prems(1) by (auto simp: currIsNewline_def intro!: post_sbind [OF g_save])
    next
      case 4
      have a: "post (if isstr then save_and_next E ls else next_char E ls) (good E (L - 1) b)"
        using g_next [OF Suc.prems(1) ne] post_weaken [OF g_save_next [OF Suc.prems(1) ne]] by simp
      show ?thesis using 4 ne L by (auto intro!: post_sbind [OF a ih] simp del: One_nat_def split del: if_split)
    qed
  qed
  then show ?case by (simp only: Q_def)
qed simp

lemma g_newstring:
  assumes "good E L b ls"
  shows "post (luaX_newstring E s ls) (\<lambda>r. good E L b (snd r) \<and> fst r = s)"
proof -
  obtain fs fss where f: "lfs ls = fs # fss" "twf (numhash E) (fh fs)" using assms by (cases "lfs ls") (auto simp: good_def lok_def)
  show ?thesis
    using anchor_spec [OF f(2), of s] assms f(1) by (auto simp: newstring_anchor good_def lok_def)
qed

lemma g_newstring_inside:
  "good E L b ls \<Longrightarrow> 2 * k \<le> b \<Longrightarrow> post (newstring_inside E k ls) (\<lambda>r. good E L b (snd r))"
  by (auto simp: newstring_inside_def good_def [of E L b ls] intro!: post_mono [OF g_newstring [of E L b ls]])

lemma good_0: "good E L b ls \<Longrightarrow> good E L 0 (ls\<lparr>buff := []\<rparr>)"
  by (simp add: good_def lok_def)

lemma g_read_long_string:
  assumes "good E L (if isstr then nat sep + 1 else 0) ls" "L \<le> n" "int L < 2 ^ 31" "0 \<le> sep" "current ls \<noteq> EOZ"
  shows "post (read_long_string n isstr sep E ls) (\<lambda>r. good E (L - 1) 0 (snd r))"
proof -
  let ?b = "if isstr then nat sep + 2 else 0"
  have L: "0 < L" using good_pos assms by blast
  have 1: "post (save_and_next E ls) (good E (L - 1) ?b)"
    using post_weaken [OF g_save_next [OF assms(1,5)], of "L - 1" ?b] by auto
  have 2: "post (if currIsNewline ls1 then inclinenumber E ls1 else Inr ls1) (good E (L - 1) ?b)" if "good E (L - 1) ?b ls1" for ls1
    using post_weaken [OF g_inclinenumber [OF that], of "L - 1" ?b] that by auto
  have 3: "post (long_loop n isstr sep E ls1) (good E (L - 1) (if isstr then ?b + nat sep + 2 else 0))" if "good E (L - 1) ?b ls1" for ls1
    using that L assms(2-4) by (intro g_long_loop) auto
  have 4: "post (if isstr then newstring_inside E (nat (2 + sep)) ls1 else Inr ([], ls1)) (\<lambda>r. good E (L - 1) 0 (snd r))"
    if "good E (L - 1) (if isstr then ?b + nat sep + 2 else 0) ls1" for ls1
    using that assms(4) by (auto intro!: post_mono [OF g_newstring_inside [where b = "nat sep + 2 + nat sep + 2"]] elim: good_weaken)
  show ?thesis
    unfolding read_long_string_def by (rule post_sbind [OF 1] post_sbind [OF 2] post_sbind [OF 3] 4 | assumption)+
qed

lemma cls_ne: "cls P ls \<Longrightarrow> current ls \<noteq> EOZ"
  by (simp add: cls_def)

lemma g_read_digits:
  "good E L b (ls :: ('r, 'f) LexState) \<Longrightarrow> current ls \<noteq> EOZ \<Longrightarrow> post (read_digits i c E ls) (\<lambda>r. good E (if i = 0 then L else L - 1) b (snd r))"
proof (induction i arbitrary: c ls L)
  case (Suc i)
  have "post (if cls isdigit ls1 then read_digits i x E ls1 else Inr (x, ls1)) (\<lambda>r. good E (L - 1) b (snd r))"
    if "good E (L - 1) b ls1" for x and ls1 :: "('r, 'f) LexState"
    using that by (auto intro!: post_mono [OF Suc.IH [OF that cls_ne]] elim!: good_weaken split: if_splits)
  then show ?case using Suc.prems by (auto simp: Let_def intro!: post_sbind [OF g_next])
qed simp

lemma g_read_escape:
  assumes "good E L b ls" "current ls = 92"
  shows "post (read_escape E ls) (good E (L - 1) b)"
proof -
  let ?M = "L - 1"
  have s: "post (save c ls1) (good E ?M b)" if "good E ?M b ls1" for c ls1
    using that by (auto intro!: post_mono [OF g_save] elim: good_weaken)
  have body: "post (case escape (current ls1) of Some c \<Rightarrow> sbind (save c ls1) (next_char E)
    | None \<Rightarrow> if currIsNewline ls1 then sbind (save 10 ls1) (inclinenumber E) else if current ls1 = EOZ then Inr ls1
        else if \<not> cls isdigit ls1 then save_and_next E ls1
        else sbind (read_digits 3 0 E ls1) (\<lambda>(c, ls). if c > UCHAR_MAX then luaX_lexerror ls ''escape sequence too large'' (tk TK_STRING)
          else save (word_of_int c) ls)) (good E ?M b)" (is "post ?body _") if g: "good E ?M b ls1" for ls1
  proof (cases "current ls1 = EOZ")
    case True
    then show ?thesis using g by (auto simp: escape_def EOZ_def currIsNewline_def)
  next
    case False
    have 1: "post (sbind (save c ls1) (next_char E)) (good E ?M b)" for c
      using False by (intro post_sbind [OF g_save [OF g]]) (auto intro: post_weaken [OF g_next])
    have 2: "post (sbind (save 10 ls1) (inclinenumber E)) (good E ?M b)" if "currIsNewline ls1"
      using that by (intro post_sbind [OF g_save [OF g]]) (auto intro!: post_weaken [OF g_inclinenumber] simp: currIsNewline_def)
    have 3: "post (save_and_next E ls1) (good E ?M b)" using post_weaken [OF g_save_next [OF g False]] by simp
    have 4: "post (sbind (read_digits 3 0 E ls1) (\<lambda>(c, ls). if c > UCHAR_MAX then luaX_lexerror ls ''escape sequence too large'' (tk TK_STRING)
          else save (word_of_int c) ls)) (good E ?M b)"
      by (rule post_sbind [OF g_read_digits [OF g False]]) (auto simp: split_beta simp del: One_nat_def diff_diff_left intro!: s elim!: good_weaken elim: post_err)
    show ?thesis using False 1 2 3 4 by (auto split: option.split)
  qed
  have "current ls \<noteq> EOZ" using assms(2) by (simp add: EOZ_def)
  then show ?thesis unfolding read_escape_def by (rule post_sbind [OF g_next [OF assms(1)] body])
qed

lemma g_string_loop:
  "good E L b (ls :: ('r, 'f) LexState) \<Longrightarrow> L < n \<Longrightarrow> del \<noteq> EOZ \<Longrightarrow>
    post (string_loop n del E ls) (\<lambda>ls'. good E L b ls' \<and> current ls' = del)"
proof (induction n arbitrary: ls L b)
  case (Suc n)
  show ?case
  proof (cases "current ls = EOZ \<or> currIsNewline ls \<or> current ls = del")
    case True
    then show ?thesis using Suc.prems by (auto intro!: post_lexerror simp: good_def lok_def)
  next
    case False
    then have L: "0 < L" using good_pos Suc.prems(1) by blast
    have 1: "post (if current ls = 92 then read_escape E ls else save_and_next E ls) (good E (L - 1) b)"
      using g_read_escape [OF Suc.prems(1)] post_weaken [OF g_save_next [OF Suc.prems(1)]] False by auto
    have 2: "post (string_loop n del E ls1) (\<lambda>ls'. good E L b ls' \<and> current ls' = del)" if "good E (L - 1) b ls1" for ls1 :: "('r, 'f) LexState"
      using Suc.prems L by (intro post_mono [OF Suc.IH [OF that]]) (auto elim: good_weaken)
    show ?thesis using False post_sbind [OF 1 2] by simp
  qed
qed simp

lemma g_read_string:
  assumes "good E L 0 ls" "L \<le> n" "current ls \<noteq> EOZ"
  shows "post (read_string n (current ls) E ls) (\<lambda>r. good E (L - 1) 0 (snd r))"
proof -
  have L: "0 < L" using good_pos assms by blast
  have 1: "post (string_loop n (current ls) E ls1) (\<lambda>ls'. good E (L - 1) 1 ls' \<and> current ls' = current ls)" if "good E (L - 1) (0 + 1) ls1" for ls1
    using g_string_loop [OF that] L assms by simp
  have 2: "post (sbind (save_and_next E ls1) (newstring_inside E 1)) (\<lambda>r. good E (L - 1) 0 (snd r))"
    if "good E (L - 1) 1 ls1 \<and> current ls1 = current ls" for ls1
    using that assms(3)
    by (intro post_sbind [OF g_save_next]) (auto intro!: post_mono [OF g_newstring_inside [where b = 2]] elim: good_weaken)
  show ?thesis
    unfolding read_string_def by (rule post_sbind [OF g_save_next [OF assms(1,3)]] post_sbind [OF 1] 2 | assumption)+
qed

section \<open>Tokens\<close>

definition scanned :: "'r lexenv \<Rightarrow> nat \<Rightarrow> Token \<times> ('r, 'f) LexState \<Rightarrow> bool" where
  "scanned E L r \<longleftrightarrow> good E L 0 (snd r) \<and> token (fst r) < 288 \<and> (token (fst r) = tk TK_EOS \<or> length (ltext (snd r)) < L)"

lemma scannedI: "good E (L - 1) b ls \<Longrightarrow> 0 < L \<Longrightarrow> t < 288 \<Longrightarrow> scanned E L (\<lparr>token = t, seminfo = si\<rparr>, ls)"
  by (auto simp: scanned_def good_def)

lemma g_read_comment:
  assumes "good E L b ls" "L \<le> n" "int L < 2 ^ 31" "current ls \<noteq> EOZ"
  shows "post (read_comment n E ls) (good E (L - 1) 0)"
proof -
  let ?short = "skip_while n (\<lambda>ls. \<not> currIsNewline ls \<and> current ls \<noteq> EOZ) E"
  have L: "0 < L" using good_pos assms by blast
  have s: "post (?short ls1) (good E (L - 1) 0)" if "good E (L - 1) 0 ls1" for ls1
    using that L assms(2) by (intro g_skip_while) auto
  have l: "post (sbind (skip_sep n E ls1) (\<lambda>(sep, ls). let ls = ls\<lparr>buff := []\<rparr> in
       if sep \<ge> 0 then sbind (read_long_string n False sep E ls) (\<lambda>(_, ls). Inr (ls\<lparr>buff := []\<rparr>)) else ?short ls)) (good E (L - 1) 0)"
    if "good E (L - 1) b ls1" "current ls1 = 91" for ls1
  proof -
    have *: "post (if sep \<ge> 0 then sbind (read_long_string n False sep E ls2) (\<lambda>(_, ls). Inr (ls\<lparr>buff := []\<rparr>)) else ?short ls2) (good E (L - 1) 0)"
      if "good E (L - 1) 0 ls2" "0 \<le> sep \<Longrightarrow> current ls2 \<noteq> EOZ" for sep ls2
      using s [OF that(1)] that L assms(2,3) 
      by (auto intro!: post_sbind [OF g_read_long_string [where L = "L - 1"]] good_0 elim!: good_weaken)
    show ?thesis
      using that L assms(2,3)
      by (intro post_sbind [OF g_skip_sep [where L = "L - 1"]])
        (auto simp: Let_def split_beta EOZ_def simp del: One_nat_def split del: if_split intro!: * good_0 elim!: good_weaken)
  qed
  have *: "post (if current ls1 = 91 then sbind (skip_sep n E ls1) (\<lambda>(sep, ls). let ls = ls\<lparr>buff := []\<rparr> in
       if sep \<ge> 0 then sbind (read_long_string n False sep E ls) (\<lambda>(_, ls). Inr (ls\<lparr>buff := []\<rparr>)) else ?short ls) else ?short ls1) (good E (L - 1) 0)"
    if "good E (L - 1) b ls1" for ls1
    using s [OF good_weaken [OF that order_refl]] l [OF that] by auto
  show ?thesis
    unfolding read_comment_def Let_def [of ?short] by (rule post_sbind [OF g_next [OF assms(1,4)]]) (rule *)
qed

lemma g_with_equal:
  assumes "good E L b ls" "current ls \<noteq> EOZ" "c < 288"
  shows "post (with_equal c two si E ls) (scanned E L)"
proof -
  have L: "0 < L" using good_pos assms by blast
  have n: "post (sbind (next_char E ls1) (\<lambda>ls. Inr (\<lparr>token = tk two, seminfo = si\<rparr>, ls))) (scanned E L)"
    if "good E (L - 1) b ls1" "current ls1 \<noteq> EOZ" for ls1
    by (rule post_sbind [OF post_weaken [OF g_next [OF that], of "L - 1" b]]) (use L tk_range in \<open>auto intro: scannedI\<close>)
  have "post (if current ls1 \<noteq> 61 then Inr (\<lparr>token = c, seminfo = si\<rparr>, ls1)
      else sbind (next_char E ls1) (\<lambda>ls. Inr (\<lparr>token = tk two, seminfo = si\<rparr>, ls))) (scanned E L)" if "good E (L - 1) b ls1" for ls1
    using n [OF that] scannedI [OF that L assms(3)] by (auto simp: EOZ_def)
  then show ?thesis unfolding with_equal_def by (rule post_sbind [OF g_next [OF assms(1,2)]])
qed

lemma post_string_token: "post m (\<lambda>r. good E (L - 1) b (snd r)) \<Longrightarrow> 0 < L \<Longrightarrow> post (sbind m string_token) (scanned E L)"
  by (erule post_sbind) (auto simp: string_token_def intro: scannedI)

lemma post_number_token: "post m (\<lambda>r. good E (L - 1) b (snd r)) \<Longrightarrow> 0 < L \<Longrightarrow> post (sbind m number_token) (scanned E L)"
  by (erule post_sbind) (auto simp: number_token_def intro: scannedI)

lemma g_long_bracket:
  assumes "good E L 0 ls" "L \<le> n" "int L < 2 ^ 31" "current ls \<noteq> EOZ"
  shows "post (long_bracket n si E ls) (scanned E L)"
proof -
  have L: "0 < L" using good_pos assms by blast
  have *: "post (if sep \<ge> 0 then sbind (read_long_string n True sep E ls1) string_token
      else if sep = - 1 then Inr (\<lparr>token = 91, seminfo = si\<rparr>, ls1) else luaX_lexerror ls1 ''invalid long string delimiter'' (tk TK_STRING)) (scanned E L)"
    if "good E (L - 1) 1 ls1" "0 \<le> sep \<Longrightarrow> good E (L - 1) (1 + nat sep) ls1 \<and> current ls1 \<noteq> EOZ" for sep ls1
  proof (cases "0 \<le> sep")
    case True
    have "post (read_long_string n True sep E ls1) (\<lambda>r. good E (L - 1) 0 (snd r))"
      by (rule post_mono [OF g_read_long_string [where L = "L - 1"]])
        (use that(2) [OF True] True assms(2,3) in \<open>auto elim!: good_weaken\<close>)
    then show ?thesis using True L post_string_token by simp
  next
    case False
    then show ?thesis using scannedI [OF that(1) L] by (auto intro!: post_err [OF that(1)])
  qed
  show ?thesis
    unfolding long_bracket_def using assms
    by (intro post_sbind [OF g_skip_sep [OF assms(1-4)]])
      (auto simp: split_beta EOZ_def simp del: One_nat_def split del: if_split intro!: * elim!: good_weaken)
qed

lemma g_dots:
  assumes "good E L 0 ls" "L \<le> n" "current ls \<noteq> EOZ"
  shows "post (dots n si E ls) (scanned E L)"
proof -
  have L: "0 < L" using good_pos assms by blast
  have e: "- 1 \<notin> set (str ''.'')" by (simp add: str_def chr_def)
  have 1: "post (sbind (check_next (str ''.'') E ls1) (\<lambda>(b, ls). Inr (\<lparr>token = (if b then tk TK_DOTS else tk TK_CONCAT), seminfo = si\<rparr>, ls))) (scanned E L)"
    if "good E (L - 1) 1 ls1" for ls1
    by (rule post_sbind [OF g_check_next [OF that e]]) (use L in \<open>auto simp: split_beta simp del: One_nat_def intro!: scannedI\<close>)
  have 2: "post (sbind (read_numeral n E ls1) number_token) (scanned E L)" if "good E (L - 1) 1 ls1" "cls isdigit ls1" for ls1
    using assms(2) L by (intro post_number_token post_mono [OF g_read_numeral [OF that(1) cls_ne [OF that(2)]]]) (auto elim!: good_weaken)
  have 3: "scanned E L (\<lparr>token = 46, seminfo = si\<rparr>, ls1)" if "good E (L - 1) 1 ls1" for ls1
    using scannedI [OF that L] by simp
  have 4: "post (if b then sbind (check_next (str ''.'') E ls1) (\<lambda>(b, ls). Inr (\<lparr>token = (if b then tk TK_DOTS else tk TK_CONCAT), seminfo = si\<rparr>, ls))
      else if \<not> cls isdigit ls1 then Inr (\<lparr>token = 46, seminfo = si\<rparr>, ls1) else sbind (read_numeral n E ls1) number_token) (scanned E L)"
    if "good E (L - 1) 1 ls1" for b ls1
    using 1 [OF that] 2 [OF that] 3 [OF that] by simp
  have s: "post (save_and_next E ls) (good E (L - 1) 1)" using g_save_next [OF assms(1,3)] by simp
  show ?thesis
    unfolding dots_def
    by (rule post_sbind [OF s], rule post_sbind [OF g_check_next [OF _ e]], assumption) (simp only: split_beta 4)
qed

lemma g_read_name:
  assumes "good E L 0 ls" "L \<le> n" "current ls \<noteq> EOZ"
  shows "post (read_name n si E ls) (scanned E L)"
proof -
  have L: "0 < L" using good_pos assms by blast
  have cl: "cls P ls1 \<or> current ls1 = 95 \<Longrightarrow> current ls1 \<noteq> EOZ" for P and ls1 :: "('r, 'f) LexState"
    by (auto simp: cls_def EOZ_def)
  have w: "post (save_while n (\<lambda>ls. cls isalnum ls \<or> current ls = 95) E ls1) (good E (L - 1) (0 + 1))" if "good E (L - 1) (0 + 1) ls1" for ls1 :: "('r, 'f) LexState"
    using cl L assms(2) by (intro g_save_while [OF that]) auto
  have k: "int (luaX_init s) - 1 + FIRST_RESERVED < 288" for s using luaX_init_le [of s] by (simp add: FIRST_RESERVED_def)
  have f: "post (sbind (luaX_newstring E (buff ls1) ls1) (\<lambda>(ts, ls). if luaX_init ts > 0 then Inr (\<lparr>token = int (luaX_init ts) - 1 + FIRST_RESERVED, seminfo = si\<rparr>, ls)
      else Inr (\<lparr>token = tk TK_NAME, seminfo = SemTs ts\<rparr>, ls))) (scanned E L)" if "good E (L - 1) (0 + 1) ls1" for ls1
    by (rule post_sbind [OF g_newstring [OF that]]) (use L k in \<open>auto simp: split_beta simp del: One_nat_def intro!: scannedI\<close>)
  show ?thesis
    unfolding read_name_def by (rule post_sbind [OF g_save_next [OF assms(1,3)]] post_sbind [OF w] f | assumption)+
qed

lemma g_llex_loop:
  "good E L 0 (ls :: ('r, 'f) LexState) \<Longrightarrow> L < n \<Longrightarrow> int L < 2 ^ 31 \<Longrightarrow> post (llex_loop n si E ls) (scanned E L)"
proof (induction n arbitrary: ls L)
  case (Suc n)
  show ?case
  proof (cases "current ls = EOZ")
    case True
    then show ?thesis using Suc.prems(1) by (simp add: scanned_def EOZ_def currIsNewline_def)
  next
    case ne: False
    then have L: "0 < L" using Suc.prems(1) good_pos by blast
    have ih: "post (llex_loop n si E ls1) (scanned E L)" if "good E (L - 1) 0 ls1" for ls1 :: "('r, 'f) LexState"
      using Suc.prems L by (intro post_mono [OF Suc.IH [OF that]]) (auto simp: scanned_def elim: good_weaken)
    note g = Suc.prems(1) and n = g_next [OF Suc.prems(1) ne]
    have c: "current ls < 288" "L \<le> n" using g ne Suc.prems(2) by (auto simp: good_def lok_def)
    have 1: "post (sbind (next_char E ls) (\<lambda>ls. if current ls \<noteq> 45 then Inr (\<lparr>token = 45, seminfo = si\<rparr>, ls)
        else sbind (read_comment n E ls) (llex_loop n si E))) (scanned E L)"
    proof (rule post_sbind [OF n], goal_cases)
      case (1 ls1)
      have "post (sbind (read_comment n E ls1) (llex_loop n si E)) (scanned E L)" if "current ls1 = 45"
      proof (rule post_sbind)
        show "post (read_comment n E ls1) (good E (L - 1) 0)"
          using that c(2) Suc.prems(3) by (intro post_weaken [OF g_read_comment [OF 1]]) (auto simp: EOZ_def)
      qed (rule ih)
      then show ?case using scannedI [OF 1 L] by auto
    qed
    have 2: "post (sbind (inclinenumber E ls) (llex_loop n si E)) (scanned E L)" if "currIsNewline ls"
      by (rule post_sbind [OF g_inclinenumber [OF g that] ih])
    have 3: "post (sbind (next_char E ls) (llex_loop n si E)) (scanned E L)"
      by (rule post_sbind [OF n ih])
    have 4: "post (sbind (read_string n (current ls) E ls) string_token) (scanned E L)"
      by (rule post_string_token [OF g_read_string [OF g c(2) ne] L])
    have 5: "post (sbind (read_numeral n E ls) number_token) (scanned E L)"
      by (rule post_number_token [OF g_read_numeral [OF g ne c(2)] L])
    have 6: "post (sbind (next_char E ls) (\<lambda>ls'. Inr (\<lparr>token = current ls, seminfo = si\<rparr>, ls'))) (scanned E L)"
      by (rule post_sbind [OF n]) (use L c(1) in \<open>auto simp del: One_nat_def intro: scannedI\<close>)
    note ops = g_long_bracket [OF g c(2) Suc.prems(3) ne] g_with_equal [OF g ne] g_dots [OF g c(2) ne] g_read_name [OF g c(2) ne]
    have q: "34 = current ls \<or> 39 = current ls \<Longrightarrow> post (sbind (read_string n (current ls) E ls) string_token) (scanned E L)" using 4 by simp
    show ?thesis
      unfolding llex_loop.simps Let_def using 1 2 3 4 5 6 ops ne
      by (simp only: if_split simp_thms split: if_split) (auto simp: tk_range)
  qed
qed simp

lemma post_llex:
  assumes "lok E ls" "length (ltext ls) < n" "length (ltext ls) < 2 ^ 31"
  shows "post (llex n si E ls) (scanned E (length (ltext ls)))"
  using assms g_llex_loop [of E "length (ltext ls)" "ls\<lparr>buff := []\<rparr>" n si] by (simp add: llex_def good_def lok_def)

lemma post_luaX_next:
  assumes "lok E ls" "length (ltext ls) < n" "length (ltext ls) < 2 ^ 31"
  shows "post (luaX_next n E ls) (\<lambda>ls'. lok E ls' \<and> (token (tok ls') = tk TK_EOS \<or> length (ltext ls') < length (ltext ls)))"
proof -
  let ?ls = "ls\<lparr>lxlastline := linenumber ls\<rparr>"
  have l: "lok E ?ls" "ltext ?ls = ltext ls" "token (lookahead ls) = tk TK_EOS" using assms(1) by (simp_all add: lok_def)
  show ?thesis
    using l(3) post_llex [OF l(1), of n "seminfo (tok ?ls)"] assms(2,3)
    by (auto simp: luaX_next_def Let_def l(2) scanned_def good_def intro!: post_sbind)
qed

lemma post_scan_all:
  "lok E (ls :: ('r, 'f) LexState) \<Longrightarrow> length (ltext ls) < k \<Longrightarrow> length (ltext ls) < n \<Longrightarrow> length (ltext ls) < 2 ^ 31 \<Longrightarrow>
    post (scan_all k n E ls) (\<lambda>(ts, ls'). length ts \<le> length (ltext ls) \<and> (\<forall>t \<in> set ts. token t < 288 \<and> token t \<noteq> tk TK_EOS))"
proof (induction k arbitrary: ls)
  case (Suc k)
  have "post (if token (tok ls1) = tk TK_EOS then Inr ([], ls1) else sbind (scan_all k n E ls1) (\<lambda>(ts, ls'). Inr (tok ls1 # ts, ls')))
      (\<lambda>(ts, ls'). length ts \<le> length (ltext ls) \<and> (\<forall>t \<in> set ts. token t < 288 \<and> token t \<noteq> tk TK_EOS))"
    if "lok E ls1 \<and> (token (tok ls1) = tk TK_EOS \<or> length (ltext ls1) < length (ltext ls))" for ls1 :: "('r, 'f) LexState"
  proof (cases "token (tok ls1) = tk TK_EOS")
    case False
    have "token (tok ls1) < 288" using that by (simp add: lok_def)
    then show ?thesis using that False Suc.prems by (auto intro!: post_sbind [OF Suc.IH])
  qed simp
  then show ?case using Suc.prems by (auto intro!: post_sbind [OF post_luaX_next] split del: if_split)
qed simp

lemma setinput_spec:
  assumes "env_ok E" "twf (numhash E) (fh fs)" "token (tok ls) < 288" "buff ls = []"
  shows "\<exists>ls'. luaX_setinput E (luaZ_init r) src ls = Inr ls' \<and> lok E (ls'\<lparr>lfs := [fs]\<rparr>) \<and> ltext ls' = content r \<and> linenumber ls' = 1"
proof -
  let ?ls = "ls\<lparr>decpoint := 46, lookahead := (lookahead ls)\<lparr>token := tk TK_EOS\<rparr>, zio := luaZ_init r, lfs := [], linenumber := 1,
      lxlastline := 1, source := src, buffsize := LUA_MINBUFFER\<rparr>"
  let ?l0 = "?ls\<lparr>current := 0, lfs := [fs]\<rparr>"
  have l0: "lok E ?l0" using assms by (simp add: lok_def LUA_MINBUFFER_def MAX_INT_def int_max_def)
  have "current ?l0 \<noteq> EOZ" by (simp add: EOZ_def)
  from next_char_spec [OF l0 this] obtain c z where
    n: "next_char E ?l0 = Inr (?l0\<lparr>current := c, zio := z\<rparr>)" "ltext (?l0\<lparr>current := c, zio := z\<rparr>) = tl (ltext ?l0)" "c = EOZ \<or> 0 \<le> c \<and> c < 256 \<and> zok z" by blast
  from n(1) obtain a b where ab: "zgetc (rdr E) (luaZ_init r) = Inr (a, b)" "?l0\<lparr>current := a, zio := b\<rparr> = ?l0\<lparr>current := c, zio := z\<rparr>"
    by (auto simp: next_char_def sbind_eq_Inr_iff)
  have "zgetc (rdr E) (luaZ_init r) = Inr (c, z)" using ab(1) arg_cong [OF ab(2), of current] arg_cong [OF ab(2), of zio] by simp
  then have "luaX_setinput E (luaZ_init r) src ls = Inr (?ls\<lparr>current := c, zio := z\<rparr>)" by (simp add: luaX_setinput_def next_char_def)
  moreover have "tl (ltext ?l0) = content r" by (simp add: ltext_def EOZ_def)
  ultimately show ?thesis using n l0 by (auto simp: lok_def ltext_def)
qed

lemma post_scan_text:
  assumes "env_ok E" "twf (numhash E) (fh fs)" "token (tok ls) < 288" "buff ls = []" "length (content r) \<le> len" "len < 2 ^ 31 - 1"
  shows "post (scan_text E len r fs ls) (\<lambda>(ts, ls'). length ts \<le> length (content r) \<and> (\<forall>t \<in> set ts. token t < 288 \<and> token t \<noteq> tk TK_EOS))"
proof -
  obtain ls1 where "luaX_setinput E (luaZ_init r) [] ls = Inr ls1" "lok E (ls1\<lparr>lfs := [fs]\<rparr>)" "ltext ls1 = content r"
    using setinput_spec [OF assms(1-4)] by blast
  then show ?thesis using post_scan_all [of E "ls1\<lparr>lfs := [fs]\<rparr>" "len + 1" "len + 1"] assms(5,6) by (simp add: scan_text_def)
qed

section \<open>Strings written by \<open>%q\<close>\<close>

definition seen :: "'r lexenv \<Rightarrow> bytes \<Rightarrow> bytes \<Rightarrow> int \<Rightarrow> 'f FuncState_scheme list \<Rightarrow> ('r, 'f) LexState \<Rightarrow> bool" where
  "seen E t b l f ls \<longleftrightarrow> lok E ls \<and> ltext ls = t \<and> buff ls = b \<and> linenumber ls = l \<and> lfs ls = f"

lemma seen_current: "seen E (c # t) b l f ls \<Longrightarrow> current ls = uint c"
  by (auto simp: seen_def ltext_def lok_def unsigned_of_int take_bit_eq_mod split: if_splits)

lemma seen_next: "seen E (c # t) b l f ls \<Longrightarrow> \<exists>ls'. next_char E ls = Inr ls' \<and> seen E t b l f ls'"
  using next_char_spec [of E ls] ltext_Nil [of ls] by (auto simp: seen_def lok_def)

lemma seen_save: "seen E t b l f ls \<Longrightarrow> length b < 2 ^ 62 \<Longrightarrow> \<exists>ls'. save c ls = Inr ls' \<and> seen E t (b @ [c]) l f ls' \<and> current ls' = current ls"
  by (auto simp: save_def seen_def lok_def MAX_SIZET_def)

lemma seen_save_next: "seen E (c # t) b l f ls \<Longrightarrow> length b < 2 ^ 62 \<Longrightarrow> \<exists>ls'. save_and_next E ls = Inr ls' \<and> seen E t (b @ [c]) l f ls'"
  using seen_save [of E "c # t" b l f ls c] seen_next seen_current by (fastforce simp: save_and_next_def)

lemma seen_newline:
  assumes "seen E (10 # t) b l f ls" "t = [] \<or> hd t \<noteq> 13" "l + 1 < MAX_INT"
  shows "\<exists>ls'. inclinenumber E ls = Inr ls' \<and> seen E t b (l + 1) f ls'"
proof -
  obtain ls1 where 1: "next_char E ls = Inr ls1" "seen E t b l f ls1" using seen_next [OF assms(1)] by blast
  have c: "\<not> (currIsNewline ls1 \<and> current ls1 \<noteq> 10)"
  proof (cases t)
    case Nil
    then show ?thesis using 1(2) by (simp add: seen_def ltext_Nil currIsNewline_def EOZ_def)
  next
    case (Cons d ds)
    then have "current ls1 = uint d" "d \<noteq> 13" using 1(2) seen_current assms(2) by auto
    moreover have "uint d = 13 \<Longrightarrow> d = 13" by (simp add: word_uint_eq_iff)
    ultimately show ?thesis by (auto simp: currIsNewline_def)
  qed
  have "current ls = 10" using seen_current [OF assms(1)] by simp
  moreover have "0 \<le> l" "linenumber ls1 = l" using 1(2) by (auto simp: seen_def lok_def)
  moreover have "seen E t b (l + 1) f (ls1\<lparr>linenumber := l + 1\<rparr>)" using 1(2) assms(3) by (auto simp: seen_def lok_def)
  ultimately show ?thesis using 1(1) c assms(3) by (auto simp: inclinenumber_def Let_def int_min_def int_max_def MAX_INT_def)
qed

text \<open>Each byte that was quoted adds itself to the buffer.\<close>

lemma quote_step:
  assumes s: "seen E (quote_byte c @ t) b l f ls" and t: "t = [] \<or> hd t \<noteq> 13" and b: "length b < 2 ^ 61"
    and l: "l + (if c = 10 then 1 else 0) < MAX_INT"
  shows "\<exists>ls'. current ls \<noteq> 34 \<and> current ls \<noteq> EOZ \<and> \<not> currIsNewline ls
    \<and> (if current ls = 92 then read_escape E ls else save_and_next E ls) = Inr ls' \<and> seen E t (b @ [c]) (l + (if c = 10 then 1 else 0)) f ls'"
proof -
  have b': "length b < 2 ^ 62" using b by simp
  have dig: "cls isdigit ls1" if "seen E (48 # u) b l f ls1" for u ls1
    using seen_current [OF that] by (simp add: cls_def EOZ_def isdigit_def)
  consider "c \<in> {34, 92}" | "c = 10" | "c = 13" | "c = 0" | "c \<notin> {34, 92, 10, 13, 0}" by blast
  then show ?thesis
  proof cases
    case 5
    then have q: "quote_byte c = [c]" by (auto simp: quote_byte_def)
    obtain ls1 where 1: "save_and_next E ls = Inr ls1" "seen E t (b @ [c]) l f ls1" using seen_save_next [OF s [unfolded q, simplified] b'] by blast
    have "current ls = uint c" using s q seen_current by auto
    moreover have "uint c = uint (d :: byte) \<longleftrightarrow> c = d" for d by (simp add: word_uint_eq_iff)
    from this [of 34] this [of 92] this [of 10] this [of 13] have "uint c \<notin> {34, 92, 10, 13}" using 5 by auto
    ultimately show ?thesis using 1 5 by (auto simp: currIsNewline_def EOZ_def [symmetric])
  next
    case 1
    then have q: "quote_byte c = [92, c]" by (auto simp: quote_byte_def)
    obtain ls1 where 1: "next_char E ls = Inr ls1" "seen E (c # t) b l f ls1" using seen_next s q by fastforce
    obtain ls2 where 2: "save_and_next E ls1 = Inr ls2" "seen E t (b @ [c]) l f ls2" using seen_save_next [OF 1(2) b'] by blast
    have "current ls = 92" "current ls1 = uint c" using seen_current [of E 92 "tl (quote_byte c) @ t" b l f ls] s q seen_current [OF 1(2)] by auto
    then show ?thesis using 1 2 \<open>c \<in> {34, 92}\<close>
      by (auto simp: read_escape_def escape_def currIsNewline_def EOZ_def cls_def isdigit_def)
  next
    case 2
    then have q: "quote_byte c = [92, 10]" by (auto simp: quote_byte_def)
    obtain ls1 where 1: "next_char E ls = Inr ls1" "seen E (10 # t) b l f ls1" using seen_next s q by fastforce
    obtain ls2 where 2: "save 10 ls1 = Inr ls2" "seen E (10 # t) (b @ [10]) l f ls2" using seen_save [OF 1(2) b'] by blast
    obtain ls3 where 3: "inclinenumber E ls2 = Inr ls3" "seen E t (b @ [10]) (l + 1) f ls3" using seen_newline [OF 2(2) t] l \<open>c = 10\<close> by auto
    have "current ls = 92" "current ls1 = 10" using seen_current [of E 92 "tl (quote_byte c) @ t" b l f ls] s q seen_current [OF 1(2)] by auto
    then show ?thesis using 1 2 3 \<open>c = 10\<close> by (auto simp: read_escape_def escape_def currIsNewline_def EOZ_def)
  next
    case 3
    then have q: "quote_byte c = [92, 114]" by (auto simp: quote_byte_def)
    obtain ls1 where 1: "next_char E ls = Inr ls1" "seen E (114 # t) b l f ls1" using seen_next s q by fastforce
    obtain ls2 where 2: "save 13 ls1 = Inr ls2" "seen E (114 # t) (b @ [13]) l f ls2" using seen_save [OF 1(2) b'] by blast
    obtain ls3 where 3: "next_char E ls2 = Inr ls3" "seen E t (b @ [13]) l f ls3" using seen_next [OF 2(2)] by auto
    have "current ls = 92" "current ls1 = 114" using seen_current [of E 92 "tl (quote_byte c) @ t" b l f ls] s q seen_current [OF 1(2)] by auto
    then show ?thesis using 1 2 3 \<open>c = 13\<close> by (auto simp: read_escape_def escape_def currIsNewline_def EOZ_def)
  next
    case 4
    then have q: "quote_byte c = [92, 48, 48, 48]" by (auto simp: quote_byte_def)
    obtain ls1 where 1: "next_char E ls = Inr ls1" "seen E (48 # 48 # 48 # t) b l f ls1" using seen_next s q by fastforce
    obtain ls2 where 2: "next_char E ls1 = Inr ls2" "seen E (48 # 48 # t) b l f ls2" using seen_next [OF 1(2)] by blast
    obtain ls3 where 3: "next_char E ls2 = Inr ls3" "seen E (48 # t) b l f ls3" using seen_next [OF 2(2)] by blast
    obtain ls4 where 4: "next_char E ls3 = Inr ls4" "seen E t b l f ls4" using seen_next [OF 3(2)] by blast
    obtain ls5 where 5: "save 0 ls4 = Inr ls5" "seen E t (b @ [0]) l f ls5" using seen_save [OF 4(2) b'] by blast
    have cu: "current ls = 92" "current ls1 = 48" "current ls2 = 48" "current ls3 = 48" using seen_current [of E 92 "tl (quote_byte c) @ t" b l f ls] s q seen_current [OF 1(2)] seen_current [OF 2(2)] seen_current [OF 3(2)] by auto
    have r: "read_digits 3 0 E ls1 = Inr (0, ls4)"
      using cu dig [OF 2(2)] dig [OF 3(2)] 2(1) 3(1) 4(1) by (simp add: numeral_3_eq_3)
    show ?thesis using cu dig [OF 1(2)] 1(1) 5 r \<open>c = 0\<close> by (auto simp: read_escape_def escape_def currIsNewline_def EOZ_def UCHAR_MAX_def)
  qed
qed

lemma quoted_loop:
  "seen E (concat (map quote_byte s) @ 34 # t) b l f ls \<Longrightarrow> length b + length s < 2 ^ 61 \<Longrightarrow> l + int (count_list s 10) < MAX_INT \<Longrightarrow> length s < n \<Longrightarrow>
    \<exists>ls'. string_loop n 34 E ls = Inr ls' \<and> seen E (34 # t) (b @ s) (l + int (count_list s 10)) f ls'"
proof (induction s arbitrary: b l ls n)
  case Nil
  then have "current ls = 34" using seen_current [of E 34] by auto
  then show ?case using Nil by (cases n) auto
next
  case (Cons c s)
  let ?t = "concat (map quote_byte s) @ 34 # t"
  obtain m where n: "n = Suc m" using Cons.prems(4) by (cases n) auto
  have "hd ?t \<noteq> 13" by (cases s) (auto simp: quote_byte_def)
  then obtain ls1 where 1: "current ls \<noteq> 34" "current ls \<noteq> EOZ" "\<not> currIsNewline ls"
    "(if current ls = 92 then read_escape E ls else save_and_next E ls) = Inr ls1" "seen E ?t (b @ [c]) (l + (if c = 10 then 1 else 0)) f ls1"
    using quote_step [of E c ?t b l f ls] Cons.prems by (auto split: if_splits)
  from Cons.IH [OF 1(5), of m] Cons.prems n obtain ls2 where
    "string_loop m 34 E ls1 = Inr ls2" "seen E (34 # t) ((b @ [c]) @ s) (l + (if c = 10 then 1 else 0) + int (count_list s 10)) f ls2"
    by (auto split: if_splits)
  then show ?case using 1 n by (auto simp: add.assoc split: if_splits)
qed

lemma quoted_token:
  assumes "lok E ls" "ltext ls = addquoted [] s @ t" "lfs ls = fs # fss" "length (all_keys (fh fs)) < 2 ^ MAXBITS"
    and "length s < 2 ^ 60" "linenumber ls + int (count_list s 10) < MAX_INT" "length s + 1 < n"
  shows "\<exists>ls'. llex n si E ls = Inr (\<lparr>token = tk TK_STRING, seminfo = SemTs s\<rparr>, ls') \<and> lok E ls' \<and> ltext ls' = t
    \<and> linenumber ls' = linenumber ls + int (count_list s 10)"
proof -
  let ?ls = "ls\<lparr>buff := []\<rparr>" and ?l = "linenumber ls + int (count_list s 10)" and ?q = "concat (map quote_byte s) @ 34 # t"
  obtain m where n: "n = Suc m" using assms(7) by (cases n) auto
  have 0: "seen E (34 # ?q) [] (linenumber ls) (fs # fss) ?ls" using assms(1-3) by (simp add: seen_def lok_def addquoted_def)
  obtain ls1 where 1: "save_and_next E ?ls = Inr ls1" "seen E ?q [34] (linenumber ls) (fs # fss) ls1" using seen_save_next [OF 0] by auto
  obtain ls2 where 2: "string_loop m 34 E ls1 = Inr ls2" "seen E (34 # t) (34 # s) ?l (fs # fss) ls2"
    using quoted_loop [OF 1(2), of m] assms(5-7) n by auto
  obtain ls3 where 3: "save_and_next E ls2 = Inr ls3" "seen E t ((34 # s) @ [34]) ?l (fs # fss) ls3"
    using seen_save_next [OF 2(2)] assms(5) by auto
  have "lok E ls3" "lfs ls3 = fs # fss" using 3(2) by (simp_all add: seen_def)
  then have w: "twf (numhash E) (fh fs)" by (simp add: lok_def)
  obtain t' where a: "anchor (numhash E) (fh fs) s = Inr t'" "twf (numhash E) t'" using anchor_spec [OF w, of s] assms(4) by auto
  let ?ls4 = "ls3\<lparr>lfs := fs\<lparr>fh := t'\<rparr> # fss\<rparr>"
  have i: "newstring_inside E 1 ls3 = Inr (s, ?ls4)" using 3(2) a(1) by (simp add: seen_def newstring_inside_def newstring_anchor)
  have "read_string m 34 E ?ls = Inr (s, ?ls4)" using 1(1) 2(1) 3(1) i by (simp add: read_string_def)
  moreover have "current ls = 34" using seen_current [OF 0] by simp
  ultimately have "llex n si E ls = Inr (\<lparr>token = tk TK_STRING, seminfo = SemTs s\<rparr>, ?ls4)"
    by (simp add: llex_def n Let_def currIsNewline_def string_token_def)
  moreover have "lok E ?ls4" using 3(2) a(2) by (auto simp: seen_def lok_def)
  ultimately show ?thesis using 3(2) by (auto simp: seen_def)
qed

lemma next_llex:
  assumes "lok E ls" "llex n (seminfo (tok ls)) E (ls\<lparr>lxlastline := linenumber ls\<rparr>) = Inr (t, ls')"
  shows "luaX_next n E ls = Inr (ls'\<lparr>tok := t\<rparr>)"
proof -
  have "token (lookahead ls) = tk TK_EOS" using assms(1) by (simp add: lok_def)
  then show ?thesis using assms(2) by (simp add: luaX_next_def Let_def)
qed

lemma next_at_end:
  assumes "lok E ls" "ltext ls = []" "0 < n"
  shows "\<exists>ls'. luaX_next n E ls = Inr ls' \<and> token (tok ls') = tk TK_EOS \<and> linenumber ls' = linenumber ls"
proof -
  obtain m where n: "n = Suc m" using assms(3) by (cases n) auto
  have "current ls = EOZ" using assms(2) by (simp add: ltext_Nil)
  then have "llex n si E (ls\<lparr>lxlastline := linenumber ls\<rparr>)
      = Inr (\<lparr>token = tk TK_EOS, seminfo = si\<rparr>, ls\<lparr>lxlastline := linenumber ls, buff := []\<rparr>)" for si
    by (simp add: llex_def n Let_def currIsNewline_def EOZ_def)
  from next_llex [OF assms(1) this] show ?thesis by simp
qed

lemma scan_quoted_text:
  assumes "env_ok E" "twf (numhash E) (fh fs)" "token (tok ls) < 288" "buff ls = []" "content r = addquoted [] s"
    and "length s + 2 \<le> len" "length s < 2 ^ 31 - 4" "length (all_keys (fh fs)) < 2 ^ MAXBITS"
  shows "\<exists>ls'. scan_text E len r fs ls = Inr ([\<lparr>token = tk TK_STRING, seminfo = SemTs s\<rparr>], ls') \<and> linenumber ls' = 1 + int (count_list s 10)"
proof -
  obtain ls1 where 1: "luaX_setinput E (luaZ_init r) [] ls = Inr ls1" "lok E (ls1\<lparr>lfs := [fs]\<rparr>)" "ltext ls1 = content r" "linenumber ls1 = 1"
    using setinput_spec [OF assms(1-4)] by blast
  let ?l1 = "ls1\<lparr>lfs := [fs]\<rparr>" and ?n = "len + 1" and ?t = "\<lparr>token = tk TK_STRING, seminfo = SemTs s\<rparr>"
  have c: "count_list s 10 \<le> length s" by (rule count_le_length)
  have "lok E (?l1\<lparr>lxlastline := linenumber ?l1\<rparr>)" using 1(2) by simp
  from quoted_token [OF this, of s "[]" fs "[]" ?n "seminfo (tok ?l1)"] 1(3,4) assms(5-8) c obtain ls2 where
    2: "llex ?n (seminfo (tok ?l1)) E (?l1\<lparr>lxlastline := linenumber ?l1\<rparr>) = Inr (?t, ls2)" "lok E ls2" "ltext ls2 = []"
      "linenumber ls2 = 1 + int (count_list s 10)" by (auto simp: MAX_INT_def int_max_def)
  have n1: "luaX_next ?n E ?l1 = Inr (ls2\<lparr>tok := ?t\<rparr>)" by (rule next_llex [OF 1(2) 2(1)])
  have "lok E (ls2\<lparr>tok := ?t\<rparr>)" using 2(2) by simp
  from next_at_end [OF this, of ?n] 2(3) obtain ls3 where
    3: "luaX_next ?n E (ls2\<lparr>tok := ?t\<rparr>) = Inr ls3" "token (tok ls3) = tk TK_EOS" "linenumber ls3 = linenumber ls2" by auto
  have "scan_all ?n ?n E ?l1 = Inr ([?t], ls3)"
  proof -
    obtain m where "?n = Suc (Suc m)" using assms(6) by (cases len) auto
    then show ?thesis using n1 3 by simp
  qed
  then show ?thesis using 1(1) 2(4) 3(3) by (auto simp: scan_text_def)
qed

end

section \<open>Constants\<close>

text \<open>Keeping a string alive leaves the constants of a function as they are.\<close>

lemma newstring_kwf:
  assumes "kwf hn fs" "numhash E = hn" "lfs ls = fs # fss" "luaX_newstring E s ls = Inr (s', ls')"
  shows "\<exists>fs'. lfs ls' = fs' # fss \<and> kwf hn fs' \<and> fk fs' = fk fs \<and> fcode fs' = fcode fs"
proof -
  have t: "twf hn (fh fs)" and cs: "\<forall>c \<in> set (fk fs). const_ok fs c" using assms(1) by (auto simp: kwf_def)
  obtain t' where a: "anchor hn (fh fs) s = Inr t'" "ls' = ls\<lparr>lfs := fs\<lparr>fh := t'\<rparr> # fss\<rparr>"
    using assms(2-4) by (auto simp: newstring_anchor sbind_eq_Inr_iff)
  from anchor_spec [OF t, of s] a(1) have t': "twf hn t'" "\<forall>k. live k \<longrightarrow> k \<noteq> String s \<or> tget (fh fs) k \<noteq> Nil \<longrightarrow> tget t' k = tget (fh fs) k"
    "\<forall>x. tget t' (String s) = Number x \<longleftrightarrow> tget (fh fs) (String s) = Number x" by auto
  have ko: "konst (fs\<lparr>fh := t'\<rparr>) = konst fs" "const_ok (fs\<lparr>fh := t'\<rparr>) = const_ok fs"
    by (intro ext; simp add: konst_def const_ok_def)+
  have num: "tget t' k = Number x \<longleftrightarrow> tget (fh fs) k = Number x" if "live k" for k x
    using t'(2,3) that by (cases "k = String s") auto
  have "live (konst fs (fk fs ! i))" if "i < length (fk fs)" for i using cs that by (auto simp: const_ok_def ok_key_def)
  then have "kwf hn (fs\<lparr>fh := t'\<rparr>)" using assms(1) t'(1) num unfolding kwf_def ko by simp
  then show ?thesis using a(2) by auto
qed

section \<open>Properties\<close>

text \<open>A table without entries, for the examples.\<close>

abbreviation no_table :: table where
  "no_table \<equiv> \<lparr>flags = 0, lsizenode = 0, array = [], nodes = [dummynode], dummy = True, lastfree = 0\<rparr>"

abbreviation plain_env :: "bytes lexenv" where
  "plain_env \<equiv> \<lparr>rdr = getS, numhash = (\<lambda>_. 7), env_strtod = (\<lambda>s. (Nint 1, length (takeWhile isdigit s))), decimal_point = 46\<rparr>"

definition blank_state :: "(bytes, unit) LexState" where
  "blank_state = \<lparr>current = 0, linenumber = 0, lxlastline = 0, tok = \<lparr>token = 0, seminfo = NoInfo\<rparr>, lookahead = \<lparr>token = 0, seminfo = NoInfo\<rparr>,
    lfs = [], zio = luaZ_init [], buff = [], buffsize = 0, source = [], decpoint = 0\<rparr>"

lemma no_table_twf: "twf hn no_table"
  by (rule twf_fresh [of 0]) (simp_all add: MAXASIZE_def MAXBITS_def)

lemma plain_strtod_ok: "strtod_ok (\<lambda>s. (x, length (takeWhile P s)))"
  by (simp add: strtod_ok_def length_takeWhile_le)

text \<open>
  C35: the scanner is safe and ends. On any text of less than \<open>2 ^ 31 - 1\<close> bytes, whatever blocks the reader gives, scanning it
  to the end reads nothing past the end of the stream, of the buffer or of the names of the tokens, and writes nothing past the
  buffer; the result is a Lua error or at most as many tokens as bytes, each of a known number.
\<close>

theorem scan_safe:
  assumes "byte_source (rdr E) content" "strtod_ok (env_strtod E)" "decimal_point E \<noteq> 0" "twf (numhash E) (fh fs)"
    and "token (tok ls) < 288" "buff ls = []" "length (content r) \<le> len" "len < 2 ^ 31 - 1"
  shows "post (scan_text E len r fs ls) (\<lambda>(ts, ls'). length ts \<le> length (content r) \<and> (\<forall>t \<in> set ts. token t < 288 \<and> token t \<noteq> tk TK_EOS))"
  by (rule byte_source.post_scan_text) (use assms in \<open>auto simp: byte_source.env_ok_def [OF assms(1)]\<close>)

theorem scan_safe_witness:
  "post (scan_text plain_env 9 [120, 61, 57] (jump_code\<lparr>fh := no_table\<rparr>) blank_state)
    (\<lambda>(ts, ls'). length ts \<le> 3 \<and> (\<forall>t \<in> set ts. token t < 288 \<and> token t \<noteq> tk TK_EOS))"
  using scan_safe [of plain_env "\<lambda>s. s" "jump_code\<lparr>fh := no_table\<rparr>" blank_state "[120, 61, 57]" 9]
    getS.byte_source_axioms no_table_twf plain_strtod_ok
  by (simp add: blank_state_def numeral_3_eq_3)

text \<open>
  C36: what \<open>string.format\<close> writes for a string with \<open>%q\<close> is read back by the scanner as that string and nothing else, for every
  string, with newlines, carriage returns, zeros, quotes and backslashes in it; and the lines are counted.
\<close>

theorem scan_quoted:
  assumes "byte_source (rdr E) content" "strtod_ok (env_strtod E)" "decimal_point E \<noteq> 0" "twf (numhash E) (fh fs)"
    and "token (tok ls) < 288" "buff ls = []" "content r = addquoted [] s" "length s + 2 \<le> len" "length s < 2 ^ 31 - 4"
    and "length (all_keys (fh fs)) < 2 ^ MAXBITS"
  shows "\<exists>ls'. scan_text E len r fs ls = Inr ([\<lparr>token = tk TK_STRING, seminfo = SemTs s\<rparr>], ls') \<and> linenumber ls' = 1 + int (count_list s 10)"
  by (rule byte_source.scan_quoted_text [OF assms(1)]) (use assms in \<open>auto simp: byte_source.env_ok_def [OF assms(1)]\<close>)

theorem scan_quoted_witness:
  "\<exists>ls'. scan_text plain_env 10 [34, 92, 10, 92, 114, 92, 34, 92, 48, 48, 48, 34] (jump_code\<lparr>fh := no_table\<rparr>) blank_state
    = Inr ([\<lparr>token = tk TK_STRING, seminfo = SemTs [10, 13, 34, 0]\<rparr>], ls') \<and> linenumber ls' = 2"
  using scan_quoted [of plain_env "\<lambda>s. s" "jump_code\<lparr>fh := no_table\<rparr>" blank_state "[34, 92, 10, 92, 114, 92, 34, 92, 48, 48, 48, 34]" "[10, 13, 34, 0]" 10]
    getS.byte_source_axioms no_table_twf plain_strtod_ok
  by (simp add: blank_state_def addquoted_def quote_byte_def all_keys_def array_keys_def live_keys_def dummynode_def MAXBITS_def)

text \<open>\<open>check_next\<close> takes a zero for one of the set, which its terminator is: a dot and a zero are a concatenation.\<close>

lemma dot_zero_is_concat:
  "map_sum (\<lambda>_. ()) (map token \<circ> fst) (scan_text plain_env (Suc (Suc 0)) [46, 0] (jump_code\<lparr>fh := no_table\<rparr>) blank_state) = Inr [tk TK_CONCAT]"
  by (simp add: scan_text_def luaX_setinput_def next_char_def zgetc_def luaZ_fill_def luaZ_init_def getS_def blank_state_def char2int_def
      luaX_next_def llex_def currIsNewline_def EOZ_def dots_def save_and_next_def save_def check_next_def strchr_def str_def chr_def
      LUA_MINBUFFER_def MAX_SIZET_def Let_def)

end
