(* ===== verification/LParser.thy ===== *)
theory LParser
  imports LCodeExp LLex
begin

text \<open>
  The parser, \<open>lparser.c\<close>: functions under compilation, their variables, upvalues and blocks, and the grammar, whose rules
  read tokens and call the code generator. A rule is a function of the state to a value and the next state, or an error.
  The rules that expressions and blocks share with each other take \<open>expr\<close> (\<open>ex\<close>) and \<open>chunk\<close> (\<open>ch\<close>) as arguments; the
  definitions at the end close the recursion.
\<close>

section \<open>State\<close>

text \<open>A node of the block list, which is a list of them, innermost first.\<close>

record BlockCnt =
  breaklist :: int
  bl_nactvar :: int
  bl_upval :: bool
  isbreakable :: bool

text \<open>
  The rest of \<open>FuncState\<close> and of its prototype: \<open>nlocvars\<close>, \<open>np\<close> and \<open>nups\<close> are the lengths of \<open>f_locvars\<close>, \<open>f_p\<close>
  and \<open>f_upvalues\<close>.
\<close>

record ParFunc = FuncState +
  f_bl :: "BlockCnt list"
  f_locvars :: "LocVar list"
  f_actvar :: "nat list"
  f_p :: "Proto list"
  f_upvalues :: "bytes list"
  f_updescs :: "(expkind \<times> byte) list"
  f_linedefined :: int
  f_lastlinedefined :: int
  f_numparams :: byte
  f_is_vararg :: byte
  f_source :: bytes

type_synonym 'r PLex = "('r, unit ParFunc_ext) LexState"

text \<open>The lexical state, with the functions being compiled, and the counter of C calls of the Lua state.\<close>

record 'r ParState =
  pls :: "'r PLex"
  nCcalls :: nat

text \<open>\<open>fuel\<close> bounds the loops of the scanner and of the rules: one more than the bytes of the text.\<close>

record 'r parenv =
  plex :: "'r lexenv"
  parith :: arithmetic
  fuel :: nat

abbreviation phash :: "'r parenv \<Rightarrow> hash" where "phash E \<equiv> numhash (plex E)"

definition LUAI_MAXVARS :: int where "LUAI_MAXVARS = 200"
definition LUAI_MAXUPVALUES :: int where "LUAI_MAXUPVALUES = 60"
definition LUAI_MAXCCALLS :: nat where "LUAI_MAXCCALLS = 200"
definition SHRT_MAX :: int where "SHRT_MAX = 32767"

section \<open>Rules as functions of the state\<close>

type_synonym ('r, 'a) rule = "'r ParState \<Rightarrow> ('a \<times> 'r ParState) lres"

definition preturn :: "'a \<Rightarrow> ('r, 'a) rule" where
  "preturn x = (\<lambda>s. Inr (x, s))"

definition pbind :: "('r, 'a) rule \<Rightarrow> ('a \<Rightarrow> ('r, 'b) rule) \<Rightarrow> ('r, 'b) rule" where
  "pbind m k = (\<lambda>s. sbind (m s) (\<lambda>(x, s). k x s))"

definition pseq :: "('r, unit) rule \<Rightarrow> ('r, 'b) rule \<Rightarrow> ('r, 'b) rule" where
  "pseq m k = pbind m (\<lambda>_. k)"

text \<open>Reading the state, and an operation that gives an error or a value without changing it.\<close>

definition pget :: "('r PLex \<Rightarrow> 'a) \<Rightarrow> ('r, 'a) rule" where
  "pget f = (\<lambda>s. Inr (f (pls s), s))"

definition plift :: "('r PLex \<Rightarrow> 'a lres) \<Rightarrow> ('r, 'a) rule" where
  "plift f = (\<lambda>s. sbind (f (pls s)) (\<lambda>x. Inr (x, s)))"

text \<open>A step of the scanner, and one that gives a value.\<close>

definition lexv :: "('r PLex \<Rightarrow> ('a \<times> 'r PLex) lres) \<Rightarrow> ('r, 'a) rule" where
  "lexv f = (\<lambda>s. sbind (f (pls s)) (\<lambda>(x, ls). Inr (x, s\<lparr>pls := ls\<rparr>)))"

definition lexs :: "('r PLex \<Rightarrow> 'r PLex lres) \<Rightarrow> ('r, unit) rule" where
  "lexs f = lexv (\<lambda>ls. sbind (f ls) (\<lambda>ls. Inr ((), ls)))"

text \<open>A step on the function being compiled, \<open>ls->fs\<close>, which may look at the lexical state.\<close>

definition onfs :: "('r PLex \<Rightarrow> ParFunc \<Rightarrow> ('a \<times> ParFunc) lres) \<Rightarrow> ('r, 'a) rule" where
  "onfs f = lexv (\<lambda>ls. case lfs ls of
     [] \<Rightarrow> Inl (CFault NullDeref)
   | fs # fss \<Rightarrow> sbind (f ls fs) (\<lambda>(x, fs). Inr (x, ls\<lparr>lfs := fs # fss\<rparr>)))"

definition fsget :: "(ParFunc \<Rightarrow> 'a) \<Rightarrow> ('r, 'a) rule" where
  "fsget f = onfs (\<lambda>ls fs. Inr (f fs, fs))"

definition fsset :: "(ParFunc \<Rightarrow> ParFunc) \<Rightarrow> ('r, unit) rule" where
  "fsset f = onfs (\<lambda>ls fs. Inr ((), f fs))"

text \<open>
  A step of the code generator. It takes the line of its instructions from the scanner, and two of its errors are
  raised through the scanner.
\<close>

definition code_syntax_errors :: "string list" where
  "code_syntax_errors = [''control structure too long'', ''function or expression too complex'']"

definition code_step :: "(FuncState \<Rightarrow> ('a \<times> FuncState) lres) \<Rightarrow> 'r PLex \<Rightarrow> ParFunc \<Rightarrow> ('a \<times> ParFunc) lres" where
  "code_step f ls fs =
    (case f ((FuncState.truncate fs)\<lparr>lastline := lxlastline ls\<rparr>) of
       Inr (x, g) \<Rightarrow> Inr (x, FuncState.extend g (FuncState.more fs))
     | Inl (LuaError m) \<Rightarrow>
         if m \<in> set code_syntax_errors then luaX_syntaxerror ls m else Inl (LuaError m)
     | Inl e \<Rightarrow> Inl e)"

definition code :: "(FuncState \<Rightarrow> ('a \<times> FuncState) lres) \<Rightarrow> ('r, 'a) rule" where
  "code f = onfs (code_step f)"

definition codes :: "(FuncState \<Rightarrow> FuncState lres) \<Rightarrow> ('r, unit) rule" where
  "codes f = code (\<lambda>fs. sbind (f fs) (\<lambda>fs. Inr ((), fs)))"

text \<open>An instruction whose index is not used.\<close>

definition emit :: "OpCode \<Rightarrow> int \<Rightarrow> int \<Rightarrow> int \<Rightarrow> ('r, unit) rule" where
  "emit op a b c = codes (\<lambda>fs. sbind (luaK_codeABC fs op a b c) (\<lambda>(_, fs). Inr fs))"

section \<open>Tokens and errors\<close>

abbreviation ptoken :: "('r, int) rule" where "ptoken \<equiv> pget (\<lambda>ls. token (tok ls))"
abbreviation pline :: "('r, int) rule" where "pline \<equiv> pget linenumber"

definition quote :: "string \<Rightarrow> string" where
  "quote s = [CHR 0x27] @ s @ [CHR 0x27]"

definition pnext :: "'r parenv \<Rightarrow> ('r, unit) rule" where
  "pnext E = lexs (luaX_next (fuel E) (plex E))"

definition syntaxerror :: "string \<Rightarrow> ('r, 'a) rule" where
  "syntaxerror msg = plift (\<lambda>ls. luaX_syntaxerror ls msg)"

definition anchor_token :: "'r parenv \<Rightarrow> ('r, unit) rule" where
  "anchor_token E = lexs (\<lambda>ls.
    if token (tok ls) = tk TK_NAME \<or> token (tok ls) = tk TK_STRING then
      (case seminfo (tok ls) of
         SemTs ts \<Rightarrow> sbind (luaX_newstring (plex E) ts ls) (\<lambda>(_, ls). Inr ls)
       | _ \<Rightarrow> Inl (CFault NullDeref))
    else Inr ls)"

definition error_expected :: "int \<Rightarrow> ('r, 'a) rule" where
  "error_expected t = plift (\<lambda>ls. sbind (luaX_token2str t) (\<lambda>s. luaX_syntaxerror ls (quote s @ '' expected'')))"

definition errorlimit :: "'r PLex \<Rightarrow> ParFunc \<Rightarrow> int \<Rightarrow> string \<Rightarrow> 'a lres" where
  "errorlimit ls fs limit what =
    luaX_lexerror ls
      (if f_linedefined fs = 0 then ''main function has more than '' @ dec_string limit @ '' '' @ what
       else ''function at line '' @ dec_string (f_linedefined fs) @ '' has more than '' @ dec_string limit @ '' '' @ what) 0"

definition luaY_checklimit :: "'r PLex \<Rightarrow> ParFunc \<Rightarrow> int \<Rightarrow> int \<Rightarrow> string \<Rightarrow> unit lres" where
  "luaY_checklimit ls fs v l m = (if v > l then errorlimit ls fs l m else Inr ())"

definition checklimit :: "int \<Rightarrow> int \<Rightarrow> string \<Rightarrow> ('r, unit) rule" where
  "checklimit v l m = onfs (\<lambda>ls fs. sbind (luaY_checklimit ls fs v l m) (\<lambda>_. Inr ((), fs)))"

definition testnext :: "'r parenv \<Rightarrow> int \<Rightarrow> ('r, bool) rule" where
  "testnext E c = pbind ptoken (\<lambda>t. if t = c then pseq (pnext E) (preturn True) else preturn False)"

definition check_token :: "int \<Rightarrow> ('r, unit) rule" where
  "check_token c = pbind ptoken (\<lambda>t. if t \<noteq> c then error_expected c else preturn ())"

definition checknext :: "'r parenv \<Rightarrow> int \<Rightarrow> ('r, unit) rule" where
  "checknext E c = pseq (check_token c) (pnext E)"

definition check_match :: "'r parenv \<Rightarrow> int \<Rightarrow> int \<Rightarrow> int \<Rightarrow> ('r, unit) rule" where
  "check_match E what who line0 =
    pbind (testnext E what) (\<lambda>b.
    if \<not> b then
      pbind pline (\<lambda>l.
      if line0 = l then error_expected what
      else plift (\<lambda>ls.
        sbind (luaX_token2str what) (\<lambda>w1.
        sbind (luaX_token2str who) (\<lambda>w2.
          luaX_syntaxerror ls (quote w1 @ '' expected (to close '' @ quote w2 @ '' at line '' @ dec_string line0 @ '')'')))))
    else preturn ())"

definition str_checkname :: "'r parenv \<Rightarrow> ('r, bytes) rule" where
  "str_checkname E =
    pseq (check_token (tk TK_NAME)) (
    pbind (plift (\<lambda>ls. case seminfo (tok ls) of SemTs ts \<Rightarrow> Inr ts | _ \<Rightarrow> Inl (CFault NullDeref))) (\<lambda>ts.
    pseq (pnext E) (preturn ts)))"

text \<open>The fields that \<open>init_exp\<close> leaves as they are are not read before they are written.\<close>

definition init_exp :: "expkind \<Rightarrow> int \<Rightarrow> expdesc" where
  "init_exp k i = \<lparr>e_k = k, e_info = i, e_aux = 0, e_nval = Nint 0, e_t = NO_JUMP, e_f = NO_JUMP\<rparr>"

definition codestring :: "'r parenv \<Rightarrow> bytes \<Rightarrow> ('r, expdesc) rule" where
  "codestring E s = pbind (code (\<lambda>fs. luaK_stringK (phash E) fs s)) (\<lambda>i. preturn (init_exp VK i))"

definition checkname :: "'r parenv \<Rightarrow> ('r, expdesc) rule" where
  "checkname E = pbind (str_checkname E) (codestring E)"

section \<open>Local variables\<close>

definition registerlocalvar :: "ParFunc \<Rightarrow> bytes \<Rightarrow> (nat \<times> ParFunc) lres" where
  "registerlocalvar fs name =
    (if int (length (f_locvars fs)) \<ge> SHRT_MAX then raise ''too many local variables''
     else Inr (length (f_locvars fs),
               fs\<lparr>f_locvars := f_locvars fs @ [\<lparr>varname = Some name, startpc = 0, endpc = 0\<rparr>]\<rparr>))"

definition set_actvar :: "ParFunc \<Rightarrow> int \<Rightarrow> nat \<Rightarrow> ParFunc lres" where
  "set_actvar fs i j =
    (if 0 \<le> i \<and> i < int (length (f_actvar fs)) then Inr (fs\<lparr>f_actvar := (f_actvar fs)[nat i := j]\<rparr>)
     else Inl (CFault WriteOOB))"

definition new_localvar :: "bytes \<Rightarrow> int \<Rightarrow> ('r, unit) rule" where
  "new_localvar name n = onfs (\<lambda>ls fs.
    sbind (luaY_checklimit ls fs (nactvar fs + n + 1) LUAI_MAXVARS ''local variables'') (\<lambda>_.
    sbind (registerlocalvar fs name) (\<lambda>(j, fs).
    sbind (set_actvar fs (nactvar fs + n) j) (\<lambda>fs. Inr ((), fs)))))"

definition new_localvarliteral :: "'r parenv \<Rightarrow> string \<Rightarrow> int \<Rightarrow> ('r, unit) rule" where
  "new_localvarliteral E v n = pbind (lexv (luaX_newstring (plex E) (str v))) (\<lambda>ts. new_localvar ts n)"

text \<open>The macro \<open>getlocvar\<close>, to read and to write.\<close>

definition getlocvar :: "ParFunc \<Rightarrow> int \<Rightarrow> LocVar lres" where
  "getlocvar fs i =
    (if 0 \<le> i then sbind (lift (rd (f_actvar fs) (nat i))) (\<lambda>j. lift (rd (f_locvars fs) j))
     else Inl (CFault ReadOOB))"

definition updlocvar :: "ParFunc \<Rightarrow> int \<Rightarrow> (LocVar \<Rightarrow> LocVar) \<Rightarrow> ParFunc lres" where
  "updlocvar fs i g =
    sbind (getlocvar fs i) (\<lambda>v. Inr (fs\<lparr>f_locvars := (f_locvars fs)[f_actvar fs ! nat i := g v]\<rparr>))"

fun start_vars :: "nat \<Rightarrow> ParFunc \<Rightarrow> ParFunc lres" where
  "start_vars 0 fs = Inr fs"
| "start_vars (Suc nvars) fs =
    sbind (updlocvar fs (nactvar fs - int (Suc nvars)) (\<lambda>v. v\<lparr>startpc := int (fpc fs)\<rparr>)) (start_vars nvars)"

definition adjustlocalvars :: "int \<Rightarrow> ('r, unit) rule" where
  "adjustlocalvars nvars = onfs (\<lambda>ls fs.
    sbind (start_vars (nat nvars) (fs\<lparr>nactvar := (nactvar fs + nvars) mod 256\<rparr>)) (\<lambda>fs. Inr ((), fs)))"

fun end_vars :: "nat \<Rightarrow> ParFunc \<Rightarrow> ParFunc lres" where
  "end_vars 0 fs = Inr fs"
| "end_vars (Suc n) fs =
    (let fs = fs\<lparr>nactvar := nactvar fs - 1\<rparr> in
     sbind (updlocvar fs (nactvar fs) (\<lambda>v. v\<lparr>endpc := int (fpc fs)\<rparr>)) (end_vars n))"

definition removevars :: "ParFunc \<Rightarrow> int \<Rightarrow> ParFunc lres" where
  "removevars fs tolevel = end_vars (nat (nactvar fs - tolevel)) fs"

section \<open>Upvalues\<close>

definition indexupvalue :: "'r PLex \<Rightarrow> ParFunc \<Rightarrow> bytes \<Rightarrow> expdesc \<Rightarrow> (int \<times> ParFunc) lres" where
  "indexupvalue ls fs name v =
    (case find_pos (\<lambda>(k, i). k = e_k v \<and> uint i = e_info v) (f_updescs fs) of
       Some i \<Rightarrow> Inr (int i, fs)
     | None \<Rightarrow>
         let nups = length (f_upvalues fs) in
         sbind (luaY_checklimit ls fs (int nups + 1) LUAI_MAXUPVALUES ''upvalues'') (\<lambda>_.
           Inr (int nups, fs\<lparr>f_upvalues := f_upvalues fs @ [name],
                             f_updescs := f_updescs fs @ [(e_k v, word_of_int (e_info v))]\<rparr>)))"

text \<open>The loop of \<open>searchvar\<close>, from the last variable down.\<close>

fun search_from :: "nat \<Rightarrow> ParFunc \<Rightarrow> bytes \<Rightarrow> int lres" where
  "search_from 0 fs n = Inr (- 1)"
| "search_from (Suc i) fs n =
    sbind (getlocvar fs (int i)) (\<lambda>v. if varname v = Some n then Inr (int i) else search_from i fs n)"

definition searchvar :: "ParFunc \<Rightarrow> bytes \<Rightarrow> int lres" where
  "searchvar fs n = search_from (nat (nactvar fs)) fs n"

fun mark_block :: "int \<Rightarrow> BlockCnt list \<Rightarrow> BlockCnt list" where
  "mark_block level [] = []"
| "mark_block level (bl # bls) =
    (if bl_nactvar bl > level then bl # mark_block level bls else bl\<lparr>bl_upval := True\<rparr> # bls)"

definition markupval :: "int \<Rightarrow> ParFunc \<Rightarrow> ParFunc" where
  "markupval level fs = fs\<lparr>f_bl := mark_block level (f_bl fs)\<rparr>"

text \<open>The kind returned is the kind of the expression.\<close>

fun singlevaraux :: "'r PLex \<Rightarrow> ParFunc list \<Rightarrow> bytes \<Rightarrow> bool \<Rightarrow> (expdesc \<times> ParFunc list) lres" where
  "singlevaraux ls [] n base = Inr (init_exp VGLOBAL NO_REG, [])"
| "singlevaraux ls (fs # fss) n base =
    sbind (searchvar fs n) (\<lambda>v.
    if v \<ge> 0 then Inr (init_exp VLOCAL v, (if base then fs else markupval v fs) # fss)
    else
      sbind (singlevaraux ls fss n False) (\<lambda>(var, fss).
      if e_k var = VGLOBAL then Inr (var, fs # fss)
      else
        sbind (indexupvalue ls fs n var) (\<lambda>(i, fs). Inr (var\<lparr>e_info := i, e_k := VUPVAL\<rparr>, fs # fss))))"

definition singlevar :: "'r parenv \<Rightarrow> ('r, expdesc) rule" where
  "singlevar E =
    pbind (str_checkname E) (\<lambda>name.
    pbind (lexv (\<lambda>ls. sbind (singlevaraux ls (lfs ls) name True) (\<lambda>(var, fss). Inr (var, ls\<lparr>lfs := fss\<rparr>)))) (\<lambda>var.
    if e_k var = VGLOBAL then
      pbind (code (\<lambda>fs. luaK_stringK (phash E) fs name)) (\<lambda>i. preturn (var\<lparr>e_info := i\<rparr>))
    else preturn var))"

definition hasmultret :: "expkind \<Rightarrow> bool" where
  "hasmultret k = (k = VCALL \<or> k = VVARARG)"

definition adjust_assign :: "'r parenv \<Rightarrow> int \<Rightarrow> int \<Rightarrow> expdesc \<Rightarrow> ('r, unit) rule" where
  "adjust_assign E nvars nexps e =
    (let extra = nvars - nexps in
     if hasmultret (e_k e) then
       let extra = (if extra + 1 < 0 then 0 else extra + 1) in
       pseq (codes (\<lambda>fs. luaK_setreturns fs e extra))
         (if extra > 1 then codes (\<lambda>fs. luaK_reserveregs fs (extra - 1)) else preturn ())
     else
       pseq (if e_k e \<noteq> VVOID then codes (\<lambda>fs. sbind (luaK_exp2nextreg (phash E) fs e) (\<lambda>(_, fs). Inr fs)) else preturn ())
         (if extra > 0 then
            pbind (fsget freereg) (\<lambda>reg.
            pseq (codes (\<lambda>fs. luaK_reserveregs fs extra))
              (codes (\<lambda>fs. luaK_nil fs reg extra)))
          else preturn ()))"

section \<open>Levels, blocks and functions\<close>

definition enterlevel :: "('r, unit) rule" where
  "enterlevel = (\<lambda>s.
    if nCcalls s + 1 > LUAI_MAXCCALLS then luaX_lexerror (pls s) ''chunk has too many syntax levels'' 0
    else Inr ((), s\<lparr>nCcalls := nCcalls s + 1\<rparr>))"

definition leavelevel :: "('r, unit) rule" where
  "leavelevel = (\<lambda>s. Inr ((), s\<lparr>nCcalls := nCcalls s - 1\<rparr>))"

definition enterblock :: "bool \<Rightarrow> ('r, unit) rule" where
  "enterblock breakable = fsset (\<lambda>fs.
    fs\<lparr>f_bl := \<lparr>breaklist = NO_JUMP, bl_nactvar = nactvar fs, bl_upval = False, isbreakable = breakable\<rparr> # f_bl fs\<rparr>)"

definition leaveblock :: "('r, unit) rule" where
  "leaveblock =
    pbind (onfs (\<lambda>ls fs. case f_bl fs of
        [] \<Rightarrow> Inl (CFault NullDeref)
      | bl # bls \<Rightarrow> sbind (removevars (fs\<lparr>f_bl := bls\<rparr>) (bl_nactvar bl)) (\<lambda>fs. Inr (bl, fs)))) (\<lambda>bl.
    pseq (if bl_upval bl then emit OP_CLOSE (bl_nactvar bl) 0 0 else preturn ()) (
    pseq (fsset (\<lambda>fs. fs\<lparr>freereg := nactvar fs\<rparr>))
      (codes (\<lambda>fs. luaK_patchtohere fs (breaklist bl)))))"

text \<open>The prototype, with its vectors cut to the elements in use.\<close>

definition proto_of :: "ParFunc \<Rightarrow> Proto" where
  "proto_of fs = Proto (fk fs) (take (fpc fs) (fcode fs)) (f_p fs) (take (fpc fs) (flineinfo fs)) (f_locvars fs)
    (map Some (f_upvalues fs)) (Some (f_source fs)) (f_linedefined fs) (f_lastlinedefined fs)
    (word_of_nat (length (f_upvalues fs))) (f_numparams fs) (f_is_vararg fs) (word_of_int (maxstacksize fs))"

fun emit_upvalues :: "(expkind \<times> byte) list \<Rightarrow> ('r, unit) rule" where
  "emit_upvalues [] = preturn ()"
| "emit_upvalues ((k, info) # us) =
    pseq (emit (if k = VLOCAL then OP_MOVE else OP_GETUPVAL) 0 (uint info) 0) (emit_upvalues us)"

definition pushclosure :: "ParFunc \<Rightarrow> ('r, expdesc) rule" where
  "pushclosure func =
    pbind (onfs (\<lambda>ls fs.
      if int (length (f_p fs)) \<ge> MAXARG_Bx then raise ''constant table overflow''
      else Inr (int (length (f_p fs)), fs\<lparr>f_p := f_p fs @ [proto_of func]\<rparr>))) (\<lambda>i.
    pbind (code (\<lambda>fs. luaK_codeABx fs OP_CLOSURE 0 i)) (\<lambda>pc.
    pseq (emit_upvalues (f_updescs func))
      (preturn (init_exp VRELOCABLE pc))))"

text \<open>The address of the table of constants is only compared with itself: it is the depth of the function.\<close>

definition open_func :: "('r, unit) rule" where
  "open_func = lexs (\<lambda>ls.
    sbind (luaH_new 0 0) (\<lambda>t.
    Inr (ls\<lparr>lfs := \<lparr>fcode = [], flineinfo = [], fk = [], fh = t, fh_addr = length (lfs ls), fpc = 0,
      lasttarget = - 1, jpc = NO_JUMP, freereg = 0, nactvar = 0, maxstacksize = 2, lastline = 0,
      f_bl = [], f_locvars = [], f_actvar = replicate (nat LUAI_MAXVARS) 0, f_p = [], f_upvalues = [], f_updescs = [],
      f_linedefined = 0, f_lastlinedefined = 0, f_numparams = 0, f_is_vararg = 0, f_source = source ls\<rparr> # lfs ls\<rparr>)))"

text \<open>The function state closed is the value.\<close>

definition close_func :: "'r parenv \<Rightarrow> ('r, ParFunc) rule" where
  "close_func E =
    pseq (onfs (\<lambda>ls fs. sbind (removevars fs 0) (\<lambda>fs. Inr ((), fs)))) (
    pseq (codes (\<lambda>fs. luaK_ret fs 0 0)) (
    pbind (lexv (\<lambda>ls. case lfs ls of
        [] \<Rightarrow> Inl (CFault NullDeref)
      | fs # fss \<Rightarrow> Inr (fs, ls\<lparr>lfs := fss\<rparr>))) (\<lambda>fs.
    pseq (anchor_token E) (preturn fs))))"

end
