(* ===== verification/LGrammar.thy ===== *)
theory LGrammar
  imports LParser
begin

text \<open>
  The grammar rules of \<open>lparser.c\<close>, in its order.
\<close>

text \<open>Operations of the code generator on an expression, as rules.\<close>

definition exp2nextreg :: "'r parenv \<Rightarrow> expdesc \<Rightarrow> ('r, expdesc) rule" where
  "exp2nextreg E v = code (\<lambda>fs. luaK_exp2nextreg (phash E) fs v)"

definition exp2anyreg :: "'r parenv \<Rightarrow> expdesc \<Rightarrow> ('r, expdesc) rule" where
  "exp2anyreg E v = code (\<lambda>fs. luaK_exp2anyreg (phash E) fs v)"

definition exp2RK :: "'r parenv \<Rightarrow> expdesc \<Rightarrow> ('r, int) rule" where
  "exp2RK E v = code (\<lambda>fs. sbind (luaK_exp2RK (phash E) fs v) (\<lambda>(rk, _, fs). Inr (rk, fs)))"

definition indexed :: "'r parenv \<Rightarrow> expdesc \<Rightarrow> expdesc \<Rightarrow> ('r, expdesc) rule" where
  "indexed E v key = code (\<lambda>fs. luaK_indexed (phash E) fs v key)"

definition storevar :: "'r parenv \<Rightarrow> expdesc \<Rightarrow> expdesc \<Rightarrow> ('r, unit) rule" where
  "storevar E v e = codes (\<lambda>fs. sbind (luaK_storevar (phash E) fs v e) (\<lambda>(_, fs). Inr fs))"

definition setmultret :: "expdesc \<Rightarrow> ('r, unit) rule" where
  "setmultret e = codes (\<lambda>fs. luaK_setreturns fs e LUA_MULTRET)"

abbreviation reserveregs :: "int \<Rightarrow> ('r, unit) rule" where
  "reserveregs n \<equiv> codes (\<lambda>fs. luaK_reserveregs fs n)"

abbreviation patchtohere :: "int \<Rightarrow> ('r, unit) rule" where
  "patchtohere l \<equiv> codes (\<lambda>fs. luaK_patchtohere fs l)"

abbreviation patchlist :: "int \<Rightarrow> int \<Rightarrow> ('r, unit) rule" where
  "patchlist l target \<equiv> codes (\<lambda>fs. luaK_patchlist fs l target)"

abbreviation concat_jumps :: "int \<Rightarrow> int \<Rightarrow> ('r, int) rule" where
  "concat_jumps l1 l2 \<equiv> code (\<lambda>fs. luaK_concat fs l1 l2)"

abbreviation getlabel :: "('r, int) rule" where
  "getlabel \<equiv> code (\<lambda>fs. Inr (luaK_getlabel fs))"

type_synonym ('r) expr = "('r, expdesc) rule"
type_synonym ('r) chunk = "('r, unit) rule"

text \<open>Field access.\<close>

definition field :: "'r parenv \<Rightarrow> expdesc \<Rightarrow> ('r, expdesc) rule" where
  "field E v =
    pbind (exp2anyreg E v) (\<lambda>v.
    pseq (pnext E) (
    pbind (checkname E) (\<lambda>key. indexed E v key)))"

definition yindex :: "'r parenv \<Rightarrow> 'r expr \<Rightarrow> ('r, expdesc) rule" where
  "yindex E ex =
    pseq (pnext E) (
    pbind ex (\<lambda>v.
    pbind (code (\<lambda>fs. luaK_exp2val (phash E) fs v)) (\<lambda>v.
    pseq (checknext E 93) (preturn v))))"

section \<open>Constructors\<close>

text \<open>\<open>cc_info\<close> is the register of the table, \<open>cc->t->u.s.info\<close>.\<close>

record ConsControl =
  cc_v :: expdesc
  cc_info :: int
  cc_nh :: int
  cc_na :: int
  cc_tostore :: int

definition incr :: "int \<Rightarrow> ('r, int) rule" where
  "incr i = plift (\<lambda>_. lift (chk32 (i + 1)))"

definition recfield :: "'r parenv \<Rightarrow> 'r expr \<Rightarrow> ConsControl \<Rightarrow> ('r, ConsControl) rule" where
  "recfield E ex cc =
    pbind (fsget freereg) (\<lambda>reg.
    pbind ptoken (\<lambda>t.
    pbind (if t = tk TK_NAME then pseq (checklimit (cc_nh cc) MAX_INT ''items in a constructor'') (checkname E)
           else yindex E ex) (\<lambda>key.
    pbind (incr (cc_nh cc)) (\<lambda>nh.
    pseq (checknext E 61) (
    pbind (exp2RK E key) (\<lambda>rkkey.
    pbind ex (\<lambda>val.
    pbind (exp2RK E val) (\<lambda>rkval.
    pseq (emit OP_SETTABLE (cc_info cc) rkkey rkval) (
    pseq (fsset (\<lambda>fs. fs\<lparr>freereg := reg\<rparr>)) (preturn (cc\<lparr>cc_nh := nh\<rparr>)))))))))))"

definition closelistfield :: "'r parenv \<Rightarrow> ConsControl \<Rightarrow> ('r, ConsControl) rule" where
  "closelistfield E cc =
    (if e_k (cc_v cc) = VVOID then preturn cc
     else
       pbind (exp2nextreg E (cc_v cc)) (\<lambda>v.
       let cc = cc\<lparr>cc_v := v\<lparr>e_k := VVOID\<rparr>\<rparr> in
       if cc_tostore cc = LFIELDS_PER_FLUSH then
         pseq (codes (\<lambda>fs. luaK_setlist fs (cc_info cc) (cc_na cc) (cc_tostore cc))) (preturn (cc\<lparr>cc_tostore := 0\<rparr>))
       else preturn cc))"

definition lastlistfield :: "'r parenv \<Rightarrow> ConsControl \<Rightarrow> ('r, ConsControl) rule" where
  "lastlistfield E cc =
    (if cc_tostore cc = 0 then preturn cc
     else if hasmultret (e_k (cc_v cc)) then
       pseq (setmultret (cc_v cc)) (
       pseq (codes (\<lambda>fs. luaK_setlist fs (cc_info cc) (cc_na cc) LUA_MULTRET)) (preturn (cc\<lparr>cc_na := cc_na cc - 1\<rparr>)))
     else
       pseq (if e_k (cc_v cc) \<noteq> VVOID then pbind (exp2nextreg E (cc_v cc)) (\<lambda>_. preturn ()) else preturn ()) (
       pseq (codes (\<lambda>fs. luaK_setlist fs (cc_info cc) (cc_na cc) (cc_tostore cc))) (preturn cc)))"

definition listfield :: "'r parenv \<Rightarrow> 'r expr \<Rightarrow> ConsControl \<Rightarrow> ('r, ConsControl) rule" where
  "listfield E ex cc =
    pbind ex (\<lambda>v.
    pseq (checklimit (cc_na cc) MAX_INT ''items in a constructor'') (
    pbind (incr (cc_na cc)) (\<lambda>na.
      preturn (cc\<lparr>cc_v := v, cc_na := na, cc_tostore := cc_tostore cc + 1\<rparr>))))"

text \<open>One item, and the loop over them.\<close>

definition cons_item :: "'r parenv \<Rightarrow> 'r expr \<Rightarrow> ConsControl \<Rightarrow> ('r, ConsControl) rule" where
  "cons_item E ex cc =
    pbind ptoken (\<lambda>t.
    if t = tk TK_NAME then
      pseq (lexs (luaX_lookahead (fuel E) (plex E))) (
      pbind (pget (\<lambda>ls. token (lookahead ls))) (\<lambda>la.
      if la \<noteq> 61 then listfield E ex cc else recfield E ex cc))
    else if t = 91 then recfield E ex cc
    else listfield E ex cc)"

fun cons_loop :: "nat \<Rightarrow> 'r parenv \<Rightarrow> 'r expr \<Rightarrow> ConsControl \<Rightarrow> ('r, ConsControl) rule" where
  "cons_loop 0 E ex cc = plift (\<lambda>_. Inl (CFault Diverge))"
| "cons_loop (Suc n) E ex cc =
    pbind ptoken (\<lambda>t.
    if t = 125 then preturn cc
    else
      pbind (closelistfield E cc) (\<lambda>cc.
      pbind (cons_item E ex cc) (\<lambda>cc.
      pbind (testnext E 44) (\<lambda>b.
      pbind (if b then preturn True else testnext E 59) (\<lambda>b.
      if b then cons_loop n E ex cc else preturn cc)))))"

definition constructor :: "'r parenv \<Rightarrow> 'r expr \<Rightarrow> ('r, expdesc) rule" where
  "constructor E ex =
    pbind pline (\<lambda>line.
    pbind (code (\<lambda>fs. luaK_codeABC fs OP_NEWTABLE 0 0 0)) (\<lambda>pc.
    pbind (exp2nextreg E (init_exp VRELOCABLE pc)) (\<lambda>t.
    pseq (checknext E 123) (
    pbind (cons_loop (fuel E) E ex
      \<lparr>cc_v = init_exp VVOID 0, cc_info = e_info t, cc_nh = 0, cc_na = 0, cc_tostore = 0\<rparr>) (\<lambda>cc.
    pseq (check_match E 125 123 line) (
    pbind (lastlistfield E cc) (\<lambda>cc.
    pseq (codes (\<lambda>fs. set_icode fs pc (SETARG_B (int (luaO_int2fb (nat (cc_na cc))))))) (
    pseq (codes (\<lambda>fs. set_icode fs pc (SETARG_C (int (luaO_int2fb (nat (cc_nh cc))))))) (preturn t)))))))))"

section \<open>Functions and arguments\<close>

definition is_vararg :: "('r, byte) rule" where "is_vararg = fsget f_is_vararg"

definition set_vararg :: "(byte \<Rightarrow> byte) \<Rightarrow> ('r, unit) rule" where
  "set_vararg g = fsset (\<lambda>fs. fs\<lparr>f_is_vararg := g (f_is_vararg fs)\<rparr>)"

text \<open>One parameter; \<open>LUA_COMPAT_VARARG\<close> is defined.\<close>

definition param :: "'r parenv \<Rightarrow> int \<Rightarrow> ('r, unit) rule" where
  "param E nparams =
    pbind ptoken (\<lambda>t.
    if t = tk TK_NAME then pbind (str_checkname E) (\<lambda>ts. new_localvar ts nparams)
    else if t = tk TK_DOTS then
      pseq (pnext E) (
      pseq (new_localvarliteral E ''arg'' nparams) (
      pseq (set_vararg (\<lambda>_. VARARG_HASARG OR VARARG_NEEDSARG))
        (set_vararg (\<lambda>v. v OR VARARG_ISVARARG))))
    else syntaxerror (''<name> or '' @ quote ''...'' @ '' expected''))"

fun parlist_loop :: "nat \<Rightarrow> 'r parenv \<Rightarrow> int \<Rightarrow> ('r, int) rule" where
  "parlist_loop 0 E nparams = plift (\<lambda>_. Inl (CFault Diverge))"
| "parlist_loop (Suc n) E nparams =
    pseq (param E nparams) (
    pbind (incr nparams) (\<lambda>nparams.
    pbind is_vararg (\<lambda>va.
    pbind (if va = 0 then testnext E 44 else preturn False) (\<lambda>b.
    if b then parlist_loop n E nparams else preturn nparams))))"

definition parlist :: "'r parenv \<Rightarrow> ('r, unit) rule" where
  "parlist E =
    pseq (set_vararg (\<lambda>_. 0)) (
    pbind ptoken (\<lambda>t.
    pbind (if t \<noteq> 41 then parlist_loop (fuel E) E 0 else preturn 0) (\<lambda>nparams.
    pseq (adjustlocalvars nparams) (
    pseq (fsset (\<lambda>fs. fs\<lparr>f_numparams := word_of_int (nactvar fs - uint (f_is_vararg fs AND VARARG_HASARG))\<rparr>)) (
    pbind (fsget nactvar) (\<lambda>n. reserveregs n))))))"

definition body :: "'r parenv \<Rightarrow> 'r chunk \<Rightarrow> bool \<Rightarrow> int \<Rightarrow> ('r, expdesc) rule" where
  "body E ch needself line =
    pseq open_func (
    pseq (fsset (\<lambda>fs. fs\<lparr>f_linedefined := line\<rparr>)) (
    pseq (checknext E 40) (
    pseq (if needself then pseq (new_localvarliteral E ''self'' 0) (adjustlocalvars 1) else preturn ()) (
    pseq (parlist E) (
    pseq (checknext E 41) (
    pseq ch (
    pbind pline (\<lambda>last.
    pseq (fsset (\<lambda>fs. fs\<lparr>f_lastlinedefined := last\<rparr>)) (
    pseq (check_match E (tk TK_END) (tk TK_FUNCTION) line) (
    pbind (close_func E) pushclosure))))))))))"

text \<open>The number of expressions and the last of them.\<close>

fun explist_loop :: "nat \<Rightarrow> 'r parenv \<Rightarrow> 'r expr \<Rightarrow> int \<Rightarrow> expdesc \<Rightarrow> ('r, int \<times> expdesc) rule" where
  "explist_loop 0 E ex n v = plift (\<lambda>_. Inl (CFault Diverge))"
| "explist_loop (Suc f) E ex n v =
    pbind (testnext E 44) (\<lambda>b.
    if b then
      pseq (pbind (exp2nextreg E v) (\<lambda>_. preturn ())) (
      pbind ex (\<lambda>v.
      pbind (incr n) (\<lambda>n. explist_loop f E ex n v)))
    else preturn (n, v))"

definition explist1 :: "'r parenv \<Rightarrow> 'r expr \<Rightarrow> ('r, int \<times> expdesc) rule" where
  "explist1 E ex = pbind ex (\<lambda>v. explist_loop (fuel E) E ex 1 v)"

text \<open>The arguments of a call, as the last expression.\<close>

definition call_args :: "'r parenv \<Rightarrow> 'r expr \<Rightarrow> int \<Rightarrow> ('r, expdesc) rule" where
  "call_args E ex line =
    pbind ptoken (\<lambda>t.
    if t = 40 then
      pbind (pget lxlastline) (\<lambda>ll.
      pseq (if line \<noteq> ll then syntaxerror ''ambiguous syntax (function call x new statement)'' else preturn ()) (
      pseq (pnext E) (
      pbind ptoken (\<lambda>t.
      pbind (if t = 41 then preturn (init_exp VVOID 0)
             else pbind (explist1 E ex) (\<lambda>(_, args). pseq (setmultret args) (preturn args))) (\<lambda>args.
      pseq (check_match E 41 40 line) (preturn args))))))
    else if t = 123 then constructor E ex
    else if t = tk TK_STRING then
      pbind (plift (\<lambda>ls. case seminfo (tok ls) of SemTs ts \<Rightarrow> Inr ts | _ \<Rightarrow> Inl (CFault NullDeref))) (\<lambda>ts.
      pbind (codestring E ts) (\<lambda>args.
      pseq (pnext E) (preturn args)))
    else syntaxerror ''function arguments expected'')"

definition funcargs :: "'r parenv \<Rightarrow> 'r expr \<Rightarrow> expdesc \<Rightarrow> ('r, expdesc) rule" where
  "funcargs E ex f =
    pbind pline (\<lambda>line.
    pbind (call_args E ex line) (\<lambda>args.
    let base = e_info f in
    pbind (if hasmultret (e_k args) then preturn LUA_MULTRET
           else
             pseq (if e_k args \<noteq> VVOID then pbind (exp2nextreg E args) (\<lambda>_. preturn ()) else preturn ())
               (fsget (\<lambda>fs. freereg fs - (base + 1)))) (\<lambda>nparams.
    pbind (code (\<lambda>fs. luaK_codeABC fs OP_CALL base (nparams + 1) 2)) (\<lambda>pc.
    pseq (codes (\<lambda>fs. Inr (luaK_fixline fs line))) (
    pseq (fsset (\<lambda>fs. fs\<lparr>freereg := base + 1\<rparr>)) (preturn (init_exp VCALL pc)))))))"

section \<open>Expressions\<close>

definition prefixexp :: "'r parenv \<Rightarrow> 'r expr \<Rightarrow> ('r, expdesc) rule" where
  "prefixexp E ex =
    pbind ptoken (\<lambda>t.
    if t = 40 then
      pbind pline (\<lambda>line.
      pseq (pnext E) (
      pbind ex (\<lambda>v.
      pseq (check_match E 41 40 line)
        (code (\<lambda>fs. luaK_dischargevars fs v)))))
    else if t = tk TK_NAME then singlevar E
    else syntaxerror ''unexpected symbol'')"

fun primary_loop :: "nat \<Rightarrow> 'r parenv \<Rightarrow> 'r expr \<Rightarrow> expdesc \<Rightarrow> ('r, expdesc) rule" where
  "primary_loop 0 E ex v = plift (\<lambda>_. Inl (CFault Diverge))"
| "primary_loop (Suc n) E ex v =
    pbind ptoken (\<lambda>t.
    if t = 46 then pbind (field E v) (primary_loop n E ex)
    else if t = 91 then
      pbind (exp2anyreg E v) (\<lambda>v.
      pbind (yindex E ex) (\<lambda>key.
      pbind (indexed E v key) (primary_loop n E ex)))
    else if t = 58 then
      pseq (pnext E) (
      pbind (checkname E) (\<lambda>key.
      pbind (code (\<lambda>fs. luaK_self (phash E) fs v key)) (\<lambda>v.
      pbind (funcargs E ex v) (primary_loop n E ex))))
    else if t = 40 \<or> t = tk TK_STRING \<or> t = 123 then
      pbind (exp2nextreg E v) (\<lambda>v.
      pbind (funcargs E ex v) (primary_loop n E ex))
    else preturn v)"

definition primaryexp :: "'r parenv \<Rightarrow> 'r expr \<Rightarrow> ('r, expdesc) rule" where
  "primaryexp E ex = pbind (prefixexp E ex) (primary_loop (fuel E) E ex)"

definition simpleexp :: "'r parenv \<Rightarrow> 'r expr \<Rightarrow> 'r chunk \<Rightarrow> ('r, expdesc) rule" where
  "simpleexp E ex ch =
    (let endv = (\<lambda>v. pseq (pnext E) (preturn v)) in
     pbind ptoken (\<lambda>t.
     if t = tk TK_NUMBER then
       pbind (plift (\<lambda>ls. case seminfo (tok ls) of SemR r \<Rightarrow> Inr r | _ \<Rightarrow> Inl (CFault NullDeref))) (\<lambda>r.
         endv ((init_exp VKNUM 0)\<lparr>e_nval := r\<rparr>))
     else if t = tk TK_STRING then
       pbind (plift (\<lambda>ls. case seminfo (tok ls) of SemTs ts \<Rightarrow> Inr ts | _ \<Rightarrow> Inl (CFault NullDeref))) (\<lambda>ts.
       pbind (codestring E ts) endv)
     else if t = tk TK_NIL then endv (init_exp VNIL 0)
     else if t = tk TK_TRUE then endv (init_exp VTRUE 0)
     else if t = tk TK_FALSE then endv (init_exp VFALSE 0)
     else if t = tk TK_DOTS then
       pbind is_vararg (\<lambda>va.
       pseq (if va = 0 then syntaxerror (''cannot use '' @ quote ''...'' @ '' outside a vararg function'') else preturn ()) (
       pseq (set_vararg (\<lambda>v. v AND NOT VARARG_NEEDSARG)) (
       pbind (code (\<lambda>fs. luaK_codeABC fs OP_VARARG 0 1 0)) (\<lambda>pc. endv (init_exp VVARARG pc)))))
     else if t = 123 then constructor E ex
     else if t = tk TK_FUNCTION then
       pseq (pnext E) (
       pbind pline (\<lambda>line. body E ch False line))
     else primaryexp E ex))"

definition getunopr :: "int \<Rightarrow> UnOpr" where
  "getunopr t = (if t = tk TK_NOT then OPR_NOT else if t = 45 then OPR_MINUS else if t = 35 then OPR_LEN else OPR_NOUNOPR)"

definition getbinopr :: "int \<Rightarrow> BinOpr" where
  "getbinopr t =
    (if t = 43 then OPR_ADD else if t = 45 then OPR_SUB else if t = 42 then OPR_MUL else if t = 47 then OPR_DIV
     else if t = 37 then OPR_MOD else if t = 94 then OPR_POW else if t = tk TK_CONCAT then OPR_CONCAT
     else if t = tk TK_NE then OPR_NE else if t = tk TK_EQ then OPR_EQ else if t = 60 then OPR_LT
     else if t = tk TK_LE then OPR_LE else if t = 62 then OPR_GT else if t = tk TK_GE then OPR_GE
     else if t = tk TK_AND then OPR_AND else if t = tk TK_OR then OPR_OR else OPR_NOBINOPR)"

text \<open>Left and right priority.\<close>

fun priority :: "BinOpr \<Rightarrow> nat \<times> nat" where
  "priority OPR_ADD = (6, 6)" | "priority OPR_SUB = (6, 6)" | "priority OPR_MUL = (7, 7)" | "priority OPR_DIV = (7, 7)"
| "priority OPR_MOD = (7, 7)" | "priority OPR_POW = (10, 9)" | "priority OPR_CONCAT = (5, 4)"
| "priority OPR_NE = (3, 3)" | "priority OPR_EQ = (3, 3)"
| "priority OPR_LT = (3, 3)" | "priority OPR_LE = (3, 3)" | "priority OPR_GT = (3, 3)" | "priority OPR_GE = (3, 3)"
| "priority OPR_AND = (2, 2)" | "priority OPR_OR = (1, 1)" | "priority OPR_NOBINOPR = (0, 0)"

definition UNARY_PRIORITY :: nat where "UNARY_PRIORITY = 8"

text \<open>The loop of \<open>subexpr\<close>; \<open>sub\<close> reads a sub-expression with a limit.\<close>

fun binary_loop :: "nat \<Rightarrow> 'r parenv \<Rightarrow> (nat \<Rightarrow> ('r, BinOpr \<times> expdesc) rule) \<Rightarrow> nat \<Rightarrow> BinOpr \<Rightarrow> expdesc \<Rightarrow>
    ('r, BinOpr \<times> expdesc) rule" where
  "binary_loop 0 E sub limit op v = plift (\<lambda>_. Inl (CFault Diverge))"
| "binary_loop (Suc n) E sub limit op v =
    (if op \<noteq> OPR_NOBINOPR \<and> fst (priority op) > limit then
       pseq (pnext E) (
       pbind (code (\<lambda>fs. luaK_infix (phash E) fs op v)) (\<lambda>v.
       pbind (sub (snd (priority op))) (\<lambda>(nextop, v2).
       pbind (code (\<lambda>fs. luaK_posfix (phash E) (parith E) fs op v v2)) (\<lambda>v.
         binary_loop n E sub limit nextop v))))
     else preturn (op, v))"

definition subexpr_body :: "'r parenv \<Rightarrow> (nat \<Rightarrow> ('r, BinOpr \<times> expdesc) rule) \<Rightarrow> 'r chunk \<Rightarrow> nat \<Rightarrow>
    ('r, BinOpr \<times> expdesc) rule" where
  "subexpr_body E sub ch limit =
    pseq enterlevel (
    pbind ptoken (\<lambda>t.
    pbind (if getunopr t \<noteq> OPR_NOUNOPR then
             pseq (pnext E) (
             pbind (sub UNARY_PRIORITY) (\<lambda>(_, v).
               code (\<lambda>fs. luaK_prefix (phash E) (parith E) fs (getunopr t) v)))
           else simpleexp E (pbind (sub 0) (\<lambda>(_, v). preturn v)) ch) (\<lambda>v.
    pbind ptoken (\<lambda>t.
    pbind (binary_loop (fuel E) E sub limit (getbinopr t) v) (\<lambda>r.
    pseq leavelevel (preturn r))))))"

section \<open>Statements\<close>

definition block_follow :: "int \<Rightarrow> bool" where
  "block_follow t = (t = tk TK_ELSE \<or> t = tk TK_ELSEIF \<or> t = tk TK_END \<or> t = tk TK_UNTIL \<or> t = tk TK_EOS)"

definition block :: "'r chunk \<Rightarrow> ('r, unit) rule" where
  "block ch = pseq (enterblock False) (pseq ch leaveblock)"

text \<open>The chain \<open>LHS_assign\<close> is a list of variables, the last one read first.\<close>

definition conflict :: "expdesc \<Rightarrow> expdesc \<Rightarrow> bool" where
  "conflict v lh = (e_k lh = VINDEXED \<and> (e_info lh = e_info v \<or> e_aux lh = e_info v))"

definition use_copy :: "expdesc \<Rightarrow> int \<Rightarrow> expdesc \<Rightarrow> expdesc" where
  "use_copy v extra lh =
    (if e_k lh = VINDEXED then
       lh\<lparr>e_info := (if e_info lh = e_info v then extra else e_info lh),
          e_aux := (if e_aux lh = e_info v then extra else e_aux lh)\<rparr>
     else lh)"

definition check_conflict :: "expdesc list \<Rightarrow> expdesc \<Rightarrow> ('r, expdesc list) rule" where
  "check_conflict lhs v =
    pbind (fsget freereg) (\<lambda>extra.
    pseq (if list_ex (conflict v) lhs then pseq (emit OP_MOVE extra (e_info v) 0) (reserveregs 1) else preturn ())
      (preturn (map (use_copy v extra) lhs)))"

text \<open>The variables as they are after the assignment, which the inner calls may have changed, are returned.\<close>

fun assignment :: "nat \<Rightarrow> 'r parenv \<Rightarrow> 'r expr \<Rightarrow> expdesc list \<Rightarrow> int \<Rightarrow> ('r, expdesc list) rule" where
  "assignment 0 E ex lhs nvars = plift (\<lambda>_. Inl (CFault Diverge))"
| "assignment (Suc n) E ex lhs nvars =
    (let deflt = (\<lambda>lhs.
       pbind (fsget freereg) (\<lambda>r.
       pseq (storevar E (hd lhs) (init_exp VNONRELOC (r - 1))) (preturn lhs))) in
     pseq (if e_k (hd lhs) \<in> {VLOCAL, VUPVAL, VGLOBAL, VINDEXED} then preturn () else syntaxerror ''syntax error'') (
     pbind (testnext E 44) (\<lambda>b.
     if b then
       pbind (primaryexp E ex) (\<lambda>nv.
       pbind (if e_k nv = VLOCAL then check_conflict lhs nv else preturn lhs) (\<lambda>lhs.
       pbind (\<lambda>s. Inr (int LUAI_MAXCCALLS - int (nCcalls s), s)) (\<lambda>limit.
       pseq (checklimit nvars limit ''variables in assignment'') (
       pbind (assignment n E ex (nv # lhs) (nvars + 1)) (\<lambda>lhs. deflt (tl lhs))))))
     else
       pseq (checknext E 61) (
       pbind (explist1 E ex) (\<lambda>(nexps, e).
       if nexps \<noteq> nvars then
         pseq (adjust_assign E nvars nexps e) (
         pseq (if nexps > nvars then fsset (\<lambda>fs. fs\<lparr>freereg := freereg fs - (nexps - nvars)\<rparr>) else preturn ())
           (deflt lhs))
       else
         pbind (code (\<lambda>fs. luaK_setoneret fs e)) (\<lambda>e.
         pseq (storevar E (hd lhs) e) (preturn lhs)))))))"

definition cond :: "'r parenv \<Rightarrow> 'r expr \<Rightarrow> ('r, int) rule" where
  "cond E ex =
    pbind ex (\<lambda>v.
    pbind (code (\<lambda>fs. luaK_goiftrue (phash E) fs (if e_k v = VNIL then v\<lparr>e_k := VFALSE\<rparr> else v))) (\<lambda>v.
      preturn (e_f v)))"

text \<open>The first loop of a block list: how many blocks are inside it, and whether one of them has an upvalue.\<close>

fun find_loop :: "BlockCnt list \<Rightarrow> bool \<Rightarrow> (nat \<times> bool) option" where
  "find_loop [] u = None"
| "find_loop (bl # bls) u =
    (if isbreakable bl then Some (0, u) else map_option (\<lambda>(i, u). (Suc i, u)) (find_loop bls (u \<or> bl_upval bl)))"

definition breakstat :: "('r, unit) rule" where
  "breakstat =
    pbind (fsget f_bl) (\<lambda>bls.
    case find_loop bls False of
      None \<Rightarrow> syntaxerror ''no loop to break''
    | Some (i, upval) \<Rightarrow>
        pseq (if upval then emit OP_CLOSE (bl_nactvar (bls ! i)) 0 0 else preturn ()) (
        pbind (code luaK_jump) (\<lambda>j.
        pbind (concat_jumps (breaklist (bls ! i)) j) (\<lambda>l.
          fsset (\<lambda>fs. fs\<lparr>f_bl := (f_bl fs)[i := (f_bl fs ! i)\<lparr>breaklist := l\<rparr>]\<rparr>)))))"

definition whilestat :: "'r parenv \<Rightarrow> 'r expr \<Rightarrow> 'r chunk \<Rightarrow> int \<Rightarrow> ('r, unit) rule" where
  "whilestat E ex ch line =
    pseq (pnext E) (
    pbind getlabel (\<lambda>whileinit.
    pbind (cond E ex) (\<lambda>condexit.
    pseq (enterblock True) (
    pseq (checknext E (tk TK_DO)) (
    pseq (block ch) (
    pbind (code luaK_jump) (\<lambda>j.
    pseq (patchlist j whileinit) (
    pseq (check_match E (tk TK_END) (tk TK_WHILE) line) (
    pseq leaveblock
      (patchtohere condexit))))))))))"

definition repeatstat :: "'r parenv \<Rightarrow> 'r expr \<Rightarrow> 'r chunk \<Rightarrow> int \<Rightarrow> ('r, unit) rule" where
  "repeatstat E ex ch line =
    pbind getlabel (\<lambda>repeat_init.
    pseq (enterblock True) (
    pseq (enterblock False) (
    pseq (pnext E) (
    pseq ch (
    pseq (check_match E (tk TK_UNTIL) (tk TK_REPEAT) line) (
    pbind (cond E ex) (\<lambda>condexit.
    pbind (onfs (\<lambda>ls fs. case f_bl fs of [] \<Rightarrow> Inl (CFault NullDeref) | bl # _ \<Rightarrow> Inr (bl_upval bl, fs))) (\<lambda>upval.
    pseq (if \<not> upval then
            pseq leaveblock (patchlist condexit repeat_init)
          else
            pseq breakstat (
            pseq (patchtohere condexit) (
            pseq leaveblock (
            pbind (code luaK_jump) (\<lambda>j. patchlist j repeat_init)))))
      leaveblock))))))))"

definition exp1 :: "'r parenv \<Rightarrow> 'r expr \<Rightarrow> ('r, expkind) rule" where
  "exp1 E ex = pbind ex (\<lambda>e. pbind (exp2nextreg E e) (\<lambda>_. preturn (e_k e)))"

definition forbody :: "'r parenv \<Rightarrow> 'r chunk \<Rightarrow> int \<Rightarrow> int \<Rightarrow> int \<Rightarrow> bool \<Rightarrow> ('r, unit) rule" where
  "forbody E ch base line nvars isnum =
    pseq (adjustlocalvars 3) (
    pseq (checknext E (tk TK_DO)) (
    pbind (if isnum then code (\<lambda>fs. luaK_codeAsBx fs OP_FORPREP base NO_JUMP) else code luaK_jump) (\<lambda>prep.
    pseq (enterblock False) (
    pseq (adjustlocalvars nvars) (
    pseq (reserveregs nvars) (
    pseq (block ch) (
    pseq leaveblock (
    pseq (patchtohere prep) (
    pbind (if isnum then code (\<lambda>fs. luaK_codeAsBx fs OP_FORLOOP base NO_JUMP)
           else code (\<lambda>fs. luaK_codeABC fs OP_TFORLOOP base 0 nvars)) (\<lambda>endfor.
    pseq (codes (\<lambda>fs. Inr (luaK_fixline fs line))) (
    pbind (if isnum then preturn endfor else code luaK_jump) (\<lambda>j.
      patchlist j (prep + 1)))))))))))))"

definition fornum :: "'r parenv \<Rightarrow> 'r expr \<Rightarrow> 'r chunk \<Rightarrow> bytes \<Rightarrow> int \<Rightarrow> ('r, unit) rule" where
  "fornum E ex ch vname line =
    pbind (fsget freereg) (\<lambda>base.
    pseq (new_localvarliteral E ''(for index)'' 0) (
    pseq (new_localvarliteral E ''(for limit)'' 1) (
    pseq (new_localvarliteral E ''(for step)'' 2) (
    pseq (new_localvar vname 3) (
    pseq (checknext E 61) (
    pbind (exp1 E ex) (\<lambda>_.
    pseq (checknext E 44) (
    pbind (exp1 E ex) (\<lambda>_.
    pbind (testnext E 44) (\<lambda>b.
    pseq (if b then pbind (exp1 E ex) (\<lambda>_. preturn ())
          else
            pseq (codes (\<lambda>fs.
              sbind (luaK_numberK (phash E) fs (Nint 1)) (\<lambda>(k, fs).
              sbind (luaK_codeABx fs OP_LOADK (freereg fs) k) (\<lambda>(_, fs). Inr fs))))
              (reserveregs 1))
      (forbody E ch base line 1 True)))))))))))"

fun names_loop :: "nat \<Rightarrow> 'r parenv \<Rightarrow> int \<Rightarrow> ('r, int) rule" where
  "names_loop 0 E nvars = plift (\<lambda>_. Inl (CFault Diverge))"
| "names_loop (Suc n) E nvars =
    pbind (testnext E 44) (\<lambda>b.
    if b then
      pbind (str_checkname E) (\<lambda>ts.
      pseq (new_localvar ts nvars) (names_loop n E (nvars + 1)))
    else preturn nvars)"

definition forlist :: "'r parenv \<Rightarrow> 'r expr \<Rightarrow> 'r chunk \<Rightarrow> bytes \<Rightarrow> ('r, unit) rule" where
  "forlist E ex ch indexname =
    pbind (fsget freereg) (\<lambda>base.
    pseq (new_localvarliteral E ''(for generator)'' 0) (
    pseq (new_localvarliteral E ''(for state)'' 1) (
    pseq (new_localvarliteral E ''(for control)'' 2) (
    pseq (new_localvar indexname 3) (
    pbind (names_loop (fuel E) E 4) (\<lambda>nvars.
    pseq (checknext E (tk TK_IN)) (
    pbind pline (\<lambda>line.
    pbind (explist1 E ex) (\<lambda>(nexps, e).
    pseq (adjust_assign E 3 nexps e) (
    pseq (codes (\<lambda>fs. luaK_checkstack fs 3))
      (forbody E ch base line (nvars - 3) False)))))))))))"

definition forstat :: "'r parenv \<Rightarrow> 'r expr \<Rightarrow> 'r chunk \<Rightarrow> int \<Rightarrow> ('r, unit) rule" where
  "forstat E ex ch line =
    pseq (enterblock True) (
    pseq (pnext E) (
    pbind (str_checkname E) (\<lambda>vname.
    pbind ptoken (\<lambda>t.
    pseq (if t = 61 then fornum E ex ch vname line
          else if t = 44 \<or> t = tk TK_IN then forlist E ex ch vname
          else syntaxerror (quote ''='' @ '' or '' @ quote ''in'' @ '' expected'')) (
    pseq (check_match E (tk TK_END) (tk TK_FOR) line) leaveblock)))))"

definition test_then_block :: "'r parenv \<Rightarrow> 'r expr \<Rightarrow> 'r chunk \<Rightarrow> ('r, int) rule" where
  "test_then_block E ex ch =
    pseq (pnext E) (
    pbind (cond E ex) (\<lambda>condexit.
    pseq (checknext E (tk TK_THEN)) (
    pseq (block ch) (preturn condexit))))"

text \<open>A jump added to the list of exits, and the false exits patched to here.\<close>

definition escape_jump :: "int \<Rightarrow> int \<Rightarrow> ('r, int) rule" where
  "escape_jump escapelist flist =
    pbind (code luaK_jump) (\<lambda>j.
    pbind (concat_jumps escapelist j) (\<lambda>l.
    pseq (patchtohere flist) (preturn l)))"

fun elseif_loop :: "nat \<Rightarrow> 'r parenv \<Rightarrow> 'r expr \<Rightarrow> 'r chunk \<Rightarrow> int \<Rightarrow> int \<Rightarrow> ('r, int \<times> int) rule" where
  "elseif_loop 0 E ex ch escapelist flist = plift (\<lambda>_. Inl (CFault Diverge))"
| "elseif_loop (Suc n) E ex ch escapelist flist =
    pbind ptoken (\<lambda>t.
    if t = tk TK_ELSEIF then
      pbind (escape_jump escapelist flist) (\<lambda>escapelist.
      pbind (test_then_block E ex ch) (\<lambda>flist. elseif_loop n E ex ch escapelist flist))
    else preturn (escapelist, flist))"

definition ifstat :: "'r parenv \<Rightarrow> 'r expr \<Rightarrow> 'r chunk \<Rightarrow> int \<Rightarrow> ('r, unit) rule" where
  "ifstat E ex ch line =
    pbind (test_then_block E ex ch) (\<lambda>flist.
    pbind (elseif_loop (fuel E) E ex ch NO_JUMP flist) (\<lambda>(escapelist, flist).
    pbind ptoken (\<lambda>t.
    pbind (if t = tk TK_ELSE then
             pbind (escape_jump escapelist flist) (\<lambda>escapelist.
             pseq (pnext E) (
             pseq (block ch) (preturn escapelist)))
           else concat_jumps escapelist flist) (\<lambda>escapelist.
    pseq (patchtohere escapelist)
      (check_match E (tk TK_END) (tk TK_IF) line)))))"

definition localfunc :: "'r parenv \<Rightarrow> 'r chunk \<Rightarrow> ('r, unit) rule" where
  "localfunc E ch =
    pbind (str_checkname E) (\<lambda>ts.
    pseq (new_localvar ts 0) (
    pbind (fsget (\<lambda>fs. init_exp VLOCAL (freereg fs))) (\<lambda>v.
    pseq (reserveregs 1) (
    pseq (adjustlocalvars 1) (
    pbind pline (\<lambda>line.
    pbind (body E ch False line) (\<lambda>b.
    pseq (storevar E v b)
      (onfs (\<lambda>ls fs. sbind (updlocvar fs (nactvar fs - 1) (\<lambda>v. v\<lparr>startpc := int (fpc fs)\<rparr>)) (\<lambda>fs. Inr ((), fs)))))))))))"

definition localstat :: "'r parenv \<Rightarrow> 'r expr \<Rightarrow> ('r, unit) rule" where
  "localstat E ex =
    pbind (str_checkname E) (\<lambda>ts.
    pseq (new_localvar ts 0) (
    pbind (names_loop (fuel E) E 1) (\<lambda>nvars.
    pbind (testnext E 61) (\<lambda>b.
    pbind (if b then explist1 E ex else preturn (0, init_exp VVOID 0)) (\<lambda>(nexps, e).
    pseq (adjust_assign E nvars nexps e)
      (adjustlocalvars nvars))))))"

fun funcname_loop :: "nat \<Rightarrow> 'r parenv \<Rightarrow> expdesc \<Rightarrow> ('r, expdesc) rule" where
  "funcname_loop 0 E v = plift (\<lambda>_. Inl (CFault Diverge))"
| "funcname_loop (Suc n) E v = pbind ptoken (\<lambda>t. if t = 46 then pbind (field E v) (funcname_loop n E) else preturn v)"

definition funcname :: "'r parenv \<Rightarrow> ('r, bool \<times> expdesc) rule" where
  "funcname E =
    pbind (singlevar E) (\<lambda>v.
    pbind (funcname_loop (fuel E) E v) (\<lambda>v.
    pbind ptoken (\<lambda>t.
    if t = 58 then pbind (field E v) (\<lambda>v. preturn (True, v)) else preturn (False, v))))"

definition funcstat :: "'r parenv \<Rightarrow> 'r chunk \<Rightarrow> int \<Rightarrow> ('r, unit) rule" where
  "funcstat E ch line =
    pseq (pnext E) (
    pbind (funcname E) (\<lambda>(needself, v).
    pbind (body E ch needself line) (\<lambda>b.
    pseq (storevar E v b)
      (codes (\<lambda>fs. Inr (luaK_fixline fs line))))))"

definition exprstat :: "'r parenv \<Rightarrow> 'r expr \<Rightarrow> ('r, unit) rule" where
  "exprstat E ex =
    pbind (primaryexp E ex) (\<lambda>v.
    if e_k v = VCALL then codes (\<lambda>fs. set_icode fs (e_info v) (SETARG_C 1))
    else pbind (assignment (fuel E) E ex [v] 1) (\<lambda>_. preturn ()))"

text \<open>What is returned: the first register and the number of values.\<close>

definition return_values :: "'r parenv \<Rightarrow> 'r expr \<Rightarrow> ('r, int \<times> int) rule" where
  "return_values E ex =
    pbind (explist1 E ex) (\<lambda>(nret, e).
    if hasmultret (e_k e) then
      pseq (setmultret e) (
      pseq (if e_k e = VCALL \<and> nret = 1 then codes (\<lambda>fs. set_icode fs (e_info e) (SET_OPCODE (opnum OP_TAILCALL)))
            else preturn ())
        (fsget (\<lambda>fs. (nactvar fs, LUA_MULTRET))))
    else if nret = 1 then pbind (exp2anyreg E e) (\<lambda>e. preturn (e_info e, nret))
    else pbind (exp2nextreg E e) (\<lambda>_. fsget (\<lambda>fs. (nactvar fs, nret))))"

definition retstat :: "'r parenv \<Rightarrow> 'r expr \<Rightarrow> ('r, unit) rule" where
  "retstat E ex =
    pseq (pnext E) (
    pbind ptoken (\<lambda>t.
    pbind (if block_follow t \<or> t = 59 then preturn (0, 0) else return_values E ex) (\<lambda>(first, nret).
      codes (\<lambda>fs. luaK_ret fs first nret))))"

text \<open>Whether the statement must be the last.\<close>

definition statement :: "'r parenv \<Rightarrow> 'r expr \<Rightarrow> 'r chunk \<Rightarrow> ('r, bool) rule" where
  "statement E ex ch =
    pbind pline (\<lambda>line.
    pbind ptoken (\<lambda>t.
    if t = tk TK_IF then pseq (ifstat E ex ch line) (preturn False)
    else if t = tk TK_WHILE then pseq (whilestat E ex ch line) (preturn False)
    else if t = tk TK_DO then
      pseq (pnext E) (
      pseq (block ch) (
      pseq (check_match E (tk TK_END) (tk TK_DO) line) (preturn False)))
    else if t = tk TK_FOR then pseq (forstat E ex ch line) (preturn False)
    else if t = tk TK_REPEAT then pseq (repeatstat E ex ch line) (preturn False)
    else if t = tk TK_FUNCTION then pseq (funcstat E ch line) (preturn False)
    else if t = tk TK_LOCAL then
      pseq (pnext E) (
      pbind (testnext E (tk TK_FUNCTION)) (\<lambda>b.
      pseq (if b then localfunc E ch else localstat E ex) (preturn False)))
    else if t = tk TK_RETURN then pseq (retstat E ex) (preturn True)
    else if t = tk TK_BREAK then pseq (pnext E) (pseq breakstat (preturn True))
    else pseq (exprstat E ex) (preturn False)))"

fun chunk_loop :: "nat \<Rightarrow> 'r parenv \<Rightarrow> 'r expr \<Rightarrow> 'r chunk \<Rightarrow> ('r, unit) rule" where
  "chunk_loop 0 E ex ch = plift (\<lambda>_. Inl (CFault Diverge))"
| "chunk_loop (Suc n) E ex ch =
    pbind ptoken (\<lambda>t.
    if block_follow t then preturn ()
    else
      pbind (statement E ex ch) (\<lambda>islast.
      pbind (testnext E 59) (\<lambda>_.
      pseq (fsset (\<lambda>fs. fs\<lparr>freereg := nactvar fs\<rparr>))
        (if islast then preturn () else chunk_loop n E ex ch))))"

definition chunk_body :: "'r parenv \<Rightarrow> (nat \<Rightarrow> ('r, BinOpr \<times> expdesc) rule) \<Rightarrow> 'r chunk \<Rightarrow> ('r, unit) rule" where
  "chunk_body E sub ch =
    pseq enterlevel (
    pseq (chunk_loop (fuel E) E (pbind (sub 0) (\<lambda>(_, v). preturn v)) ch) leavelevel)"

section \<open>The recursion\<close>

text \<open>Sub-expressions and chunks nest as deep as \<open>enterlevel\<close> allows, which \<open>d\<close> must exceed.\<close>

fun subexpr :: "nat \<Rightarrow> 'r parenv \<Rightarrow> nat \<Rightarrow> ('r, BinOpr \<times> expdesc) rule"
and chunk :: "nat \<Rightarrow> 'r parenv \<Rightarrow> ('r, unit) rule" where
  "subexpr 0 E limit s = Inl (CFault Diverge)"
| "subexpr (Suc d) E limit s = subexpr_body E (\<lambda>l s. subexpr d E l s) (\<lambda>s. chunk d E s) limit s"
| "chunk 0 E s = Inl (CFault Diverge)"
| "chunk (Suc d) E s = chunk_body E (\<lambda>l s. subexpr d E l s) (\<lambda>s. chunk d E s) s"

definition expr :: "nat \<Rightarrow> 'r parenv \<Rightarrow> ('r, expdesc) rule" where
  "expr d E = pbind (subexpr d E 0) (\<lambda>(_, v). preturn v)"

text \<open>The main function.\<close>

definition main_func :: "nat \<Rightarrow> 'r parenv \<Rightarrow> ('r, Proto) rule" where
  "main_func d E =
    pseq open_func (
    pseq (set_vararg (\<lambda>_. VARARG_ISVARARG)) (
    pseq (pnext E) (
    pseq (chunk d E) (
    pseq (check_token (tk TK_EOS)) (
    pbind (close_func E) (\<lambda>fs. preturn (proto_of fs)))))))"

text \<open>\<open>ls0\<close> is the lexical state before \<open>luaX_setinput\<close> and \<open>c\<close> the C calls in progress.\<close>

definition luaY_parser :: "'r parenv \<Rightarrow> 'r PLex \<Rightarrow> nat \<Rightarrow> 'r ZIO \<Rightarrow> bytes \<Rightarrow> Proto lres" where
  "luaY_parser E ls0 c z name =
    sbind (luaX_setinput (plex E) z name ls0) (\<lambda>ls.
    sbind (main_func (LUAI_MAXCCALLS + 1) E \<lparr>pls = ls, nCcalls = c\<rparr>) (\<lambda>(pt, _). Inr pt))"

end
