(* ===== verification/LFrames.thy ===== *)
theory LFrames
  imports LGrammar LLexProps
begin

text \<open>
  What the scanner and the code generator leave alone: the scanner changes of a function only its table of constants; the
  code generator keeps the number of active variables, lets the stack size grow up to its limit and keeps instructions and
  lines together.
\<close>

section \<open>Values of successful operations\<close>

definition yields :: "('e + 'a) \<Rightarrow> ('a \<Rightarrow> bool) \<Rightarrow> bool" where
  "yields m Q = (\<forall>x. m = Inr x \<longrightarrow> Q x)"

named_theorems yields_intro "introduction rules for yields"

lemma yieldsD: "yields m Q \<Longrightarrow> m = Inr x \<Longrightarrow> Q x" by (simp add: yields_def)

lemma yields_conseq: "yields m P \<Longrightarrow> (\<And>x. P x \<Longrightarrow> Q x) \<Longrightarrow> yields m Q"
  by (auto simp: yields_def)

lemma yields_sbind [yields_intro]: "yields m P \<Longrightarrow> (\<And>x. P x \<Longrightarrow> yields (k x) Q) \<Longrightarrow> yields (sbind m k) Q"
  by (cases m) (auto simp: yields_def)

lemma yields_Inr [yields_intro]: "Q x \<Longrightarrow> yields (Inr x) Q" by (simp add: yields_def)
lemma yields_Inl [yields_intro]: "yields (Inl e) Q" by (simp add: yields_def)

lemma yields_if [yields_intro]: "(b \<Longrightarrow> yields m Q) \<Longrightarrow> (\<not> b \<Longrightarrow> yields n Q) \<Longrightarrow> yields (if b then m else n) Q"
  by simp

lemma yields_option [yields_intro]:
  "(v = None \<Longrightarrow> yields m Q) \<Longrightarrow> (\<And>a. v = Some a \<Longrightarrow> yields (f a) Q) \<Longrightarrow> yields (case v of None \<Rightarrow> m | Some a \<Rightarrow> f a) Q"
  by (cases v) auto

lemma yields_list [yields_intro]:
  "(xs = [] \<Longrightarrow> yields m Q) \<Longrightarrow> (\<And>y ys. xs = y # ys \<Longrightarrow> yields (f y ys) Q) \<Longrightarrow> yields (case xs of [] \<Rightarrow> m | y # ys \<Rightarrow> f y ys) Q"
  by (cases xs) auto

lemma yields_lift [yields_intro]: "yields (lift m) (\<lambda>_. True)" by (simp add: yields_def)

section \<open>The scanner\<close>

definition same_but_h :: "'f FuncState_scheme \<Rightarrow> 'f FuncState_scheme \<Rightarrow> bool" where
  "same_but_h f g = (\<exists>t. g = f\<lparr>fh := t\<rparr>)"

definition lframe :: "('r, 'f) LexState \<Rightarrow> ('r, 'f) LexState \<Rightarrow> bool" where
  "lframe l ls = list_all2 same_but_h (lfs l) (lfs ls)"

named_theorems lf "the scanner changes of functions only the table of constants"

lemma same_but_h_refl: "same_but_h f f" by (auto simp: same_but_h_def intro: exI [of _ "fh f"])

lemma same_but_h_upd: "same_but_h f g \<Longrightarrow> same_but_h f (g\<lparr>fh := t\<rparr>)" by (auto simp: same_but_h_def)

lemma lframe_refl: "lframe l l" by (simp add: lframe_def list.rel_refl same_but_h_refl)

lemma lframe_simps [simp]:
  "lframe l (ls\<lparr>current := a\<rparr>) = lframe l ls" "lframe l (ls\<lparr>linenumber := b\<rparr>) = lframe l ls"
  "lframe l (ls\<lparr>lxlastline := b\<rparr>) = lframe l ls" "lframe l (ls\<lparr>tok := c\<rparr>) = lframe l ls"
  "lframe l (ls\<lparr>lookahead := c\<rparr>) = lframe l ls" "lframe l (ls\<lparr>zio := d\<rparr>) = lframe l ls"
  "lframe l (ls\<lparr>buff := e\<rparr>) = lframe l ls" "lframe l (ls\<lparr>buffsize := f\<rparr>) = lframe l ls"
  "lframe l (ls\<lparr>decpoint := g\<rparr>) = lframe l ls"
  by (simp_all add: lframe_def)

text \<open>Errors give no value.\<close>

lemma yields_lexerror [yields_intro]: "yields (luaX_lexerror ls msg t) Q"
  by (auto simp: luaX_lexerror_def yields_def sbind_eq_Inr_iff)

lemma yields_syntaxerror [yields_intro]: "yields (luaX_syntaxerror ls msg) Q"
  by (simp add: luaX_syntaxerror_def yields_lexerror)

lemma yields_buff_number [yields_intro]: "yields (buff_number E ls) (\<lambda>_. True)" by (simp add: yields_def)

lemma lf_next_char [lf]: "lframe l ls \<Longrightarrow> yields (next_char E ls) (lframe l)"
  by (auto simp: next_char_def yields_def sbind_eq_Inr_iff)

lemma lf_save [lf]: "lframe l ls \<Longrightarrow> yields (save c ls) (lframe l)"
  by (auto simp: save_def yields_def)

lemma lf_save_and_next [lf]: "lframe l ls \<Longrightarrow> yields (save_and_next E ls) (lframe l)"
  unfolding save_and_next_def by (rule lf yields_intro | assumption)+

lemma yields_setstr [yields_intro]: "yields (luaH_setstr hfun t s) (\<lambda>_. True)" by (simp add: yields_def)

lemma lframe_hd: "lframe l ls \<Longrightarrow> lfs ls = f # fs \<Longrightarrow> lframe l (ls\<lparr>lfs := f\<lparr>fh := t\<rparr> # fs\<rparr>)"
  by (auto simp: lframe_def list_all2_Cons2 same_but_h_upd)

lemma lf_newstring [lf]: "lframe l ls \<Longrightarrow> yields (luaX_newstring E s ls) (\<lambda>r. lframe l (snd r))"
  unfolding luaX_newstring_def split_beta by (rule yields_intro | assumption | simp add: lframe_hd)+

lemma lf_inclinenumber [lf]: "lframe l ls \<Longrightarrow> yields (inclinenumber E ls) (lframe l)"
  unfolding inclinenumber_def Let_def by (rule lf yields_intro | assumption | simp)+

lemma lf_check_next [lf]: "lframe l ls \<Longrightarrow> yields (check_next S E ls) (\<lambda>r. lframe l (snd r))"
  unfolding check_next_def by (rule lf yields_intro | assumption | simp)+

lemma lf_save_while [lf]: "lframe l ls \<Longrightarrow> yields (save_while n P E ls) (lframe l)"
proof (induction n arbitrary: ls)
  case (Suc n)
  then show ?case by (subst save_while.simps) (rule lf yields_intro Suc.IH | assumption)+
qed (simp add: yields_intro)

lemma lf_skip_while [lf]: "lframe l ls \<Longrightarrow> yields (skip_while n P E ls) (lframe l)"
proof (induction n arbitrary: ls)
  case (Suc n)
  then show ?case by (subst skip_while.simps) (rule lf yields_intro Suc.IH | assumption)+
qed (simp add: yields_intro)

lemma lframe_buffreplace [simp]: "lframe l (buffreplace a b ls) = lframe l ls"
  by (simp add: buffreplace_def)

lemma lf_trydecpoint [lf]: "lframe l ls \<Longrightarrow> yields (trydecpoint E ls) (\<lambda>r. lframe l (snd r))"
  unfolding trydecpoint_def Let_def by (rule lf yields_intro | assumption | simp)+

lemma lf_read_numeral [lf]: "lframe l ls \<Longrightarrow> yields (read_numeral n E ls) (\<lambda>r. lframe l (snd r))"
  unfolding read_numeral_def Let_def split_beta by (rule lf yields_intro | assumption | simp)+

lemma lf_skip_eqs [lf]: "lframe l ls \<Longrightarrow> yields (skip_eqs n c E ls) (\<lambda>r. lframe l (snd r))"
proof (induction n arbitrary: c ls)
  case (Suc n)
  then show ?case by (subst skip_eqs.simps) (rule lf yields_intro Suc.IH | assumption | simp)+
qed (simp add: yields_intro)

lemma lf_skip_sep [lf]: "lframe l ls \<Longrightarrow> yields (skip_sep n E ls) (\<lambda>r. lframe l (snd r))"
  unfolding skip_sep_def Let_def split_beta by (rule lf yields_intro | assumption | simp)+

lemma lf_long_loop [lf]: "lframe l ls \<Longrightarrow> yields (long_loop n isstr sep E ls) (lframe l)"
proof (induction n arbitrary: ls)
  case (Suc n)
  then show ?case
    by (subst long_loop.simps) (unfold Let_def split_beta, (rule lf yields_intro Suc.IH | assumption | simp)+)
qed (simp add: yields_intro)

lemma lf_newstring_inside [lf]: "lframe l ls \<Longrightarrow> yields (newstring_inside E k ls) (\<lambda>r. lframe l (snd r))"
  unfolding newstring_inside_def by (rule lf yields_intro | assumption)+

lemma lf_read_long_string [lf]: "lframe l ls \<Longrightarrow> yields (read_long_string n isstr sep E ls) (\<lambda>r. lframe l (snd r))"
  unfolding read_long_string_def by (rule lf yields_intro | assumption | simp)+

lemma lf_read_digits [lf]: "lframe l ls \<Longrightarrow> yields (read_digits i c E ls) (\<lambda>r. lframe l (snd r))"
proof (induction i arbitrary: c ls)
  case (Suc i)
  then show ?case
    by (subst read_digits.simps) (unfold Let_def, (rule lf yields_intro Suc.IH | assumption | simp)+)
qed (simp add: yields_intro)

lemma lf_read_escape [lf]: "lframe l ls \<Longrightarrow> yields (read_escape E ls) (lframe l)"
  unfolding read_escape_def split_beta by (rule lf yields_intro | assumption | simp)+

lemma lf_string_loop [lf]: "lframe l ls \<Longrightarrow> yields (string_loop n del E ls) (lframe l)"
proof (induction n arbitrary: ls)
  case (Suc n)
  then show ?case by (subst string_loop.simps) (rule lf yields_intro Suc.IH | assumption)+
qed (simp add: yields_intro)

lemma lf_read_string [lf]: "lframe l ls \<Longrightarrow> yields (read_string n del E ls) (\<lambda>r. lframe l (snd r))"
  unfolding read_string_def by (rule lf yields_intro | assumption)+

lemma lf_read_comment [lf]: "lframe l ls \<Longrightarrow> yields (read_comment n E ls) (lframe l)"
  unfolding read_comment_def Let_def split_beta by (rule lf yields_intro | assumption | simp)+

lemma lf_with_equal [lf]: "lframe l ls \<Longrightarrow> yields (with_equal c two si E ls) (\<lambda>r. lframe l (snd r))"
  unfolding with_equal_def by (rule lf yields_intro | assumption | simp)+

lemma lf_string_token [lf]: "lframe l (snd r) \<Longrightarrow> yields (string_token r) (\<lambda>r. lframe l (snd r))"
  by (simp add: string_token_def yields_def)

lemma lf_number_token [lf]: "lframe l (snd r) \<Longrightarrow> yields (number_token r) (\<lambda>r. lframe l (snd r))"
  by (simp add: number_token_def yields_def)

lemma lf_long_bracket [lf]: "lframe l ls \<Longrightarrow> yields (long_bracket n si E ls) (\<lambda>r. lframe l (snd r))"
  unfolding long_bracket_def split_beta by (rule lf yields_intro | assumption | simp)+

lemma lf_dots [lf]: "lframe l ls \<Longrightarrow> yields (dots n si E ls) (\<lambda>r. lframe l (snd r))"
  unfolding dots_def split_beta by (rule lf yields_intro | assumption | simp)+

lemma lf_read_name [lf]: "lframe l ls \<Longrightarrow> yields (read_name n si E ls) (\<lambda>r. lframe l (snd r))"
  unfolding read_name_def split_beta by (rule lf yields_intro | assumption | simp)+

lemma lf_llex_loop [lf]: "lframe l ls \<Longrightarrow> yields (llex_loop n si E ls) (\<lambda>r. lframe l (snd r))"
proof (induction n arbitrary: ls)
  case (Suc n)
  then show ?case by (subst llex_loop.simps) (unfold Let_def, (rule lf yields_intro Suc.IH | assumption | simp)+)
qed (simp add: yields_intro)

lemma lf_llex [lf]: "lframe l ls \<Longrightarrow> yields (llex n si E ls) (\<lambda>r. lframe l (snd r))"
  by (simp add: llex_def lf_llex_loop)

lemma lf_luaX_next [lf]: "lframe l ls \<Longrightarrow> yields (luaX_next n E ls) (lframe l)"
  unfolding luaX_next_def Let_def split_beta by (rule lf yields_intro | assumption | simp)+

lemma lf_luaX_lookahead [lf]: "lframe l ls \<Longrightarrow> yields (luaX_lookahead n E ls) (lframe l)"
  unfolding luaX_lookahead_def split_beta by (rule lf yields_intro | assumption | simp)+

section \<open>The code generator\<close>

text \<open>The position to write is in the code or at its end, and each instruction has a line.\<close>

definition code_ok :: "FuncState \<Rightarrow> bool" where
  "code_ok fs \<longleftrightarrow> fpc fs \<le> length (fcode fs) \<and> length (flineinfo fs) = length (fcode fs)"

definition cframe :: "FuncState \<Rightarrow> FuncState \<Rightarrow> bool" where
  "cframe g fs \<longleftrightarrow> nactvar fs = nactvar g \<and> maxstacksize g \<le> maxstacksize fs
    \<and> (maxstacksize fs = maxstacksize g \<or> maxstacksize fs < MAXSTACK) \<and> (code_ok g \<longrightarrow> code_ok fs)"

named_theorems cf "frame of the operations of the code generator"

lemma cframe_refl: "cframe g g" by (simp add: cframe_def)

lemma cframe_trans: "cframe f g \<Longrightarrow> cframe g h \<Longrightarrow> cframe f h" by (auto simp: cframe_def)

lemma cframe_simps [simp]:
  "cframe g (fs\<lparr>fk := a\<rparr>) = cframe g fs" "cframe g (fs\<lparr>fh := b\<rparr>) = cframe g fs"
  "cframe g (fs\<lparr>lasttarget := c\<rparr>) = cframe g fs" "cframe g (fs\<lparr>jpc := c\<rparr>) = cframe g fs"
  "cframe g (fs\<lparr>freereg := c\<rparr>) = cframe g fs" "cframe g (fs\<lparr>lastline := c\<rparr>) = cframe g fs"
  "cframe g (snd (luaK_getlabel fs)) = cframe g fs" "cframe g (free_reg fs r) = cframe g fs" "cframe g (freeexp fs e) = cframe g fs"
  "cframe g (luaK_fixline fs l) = cframe g fs"
  by (auto simp: cframe_def code_ok_def luaK_getlabel_def free_reg_def freeexp_def luaK_fixline_def)

lemma yields_expkind [yields_intro]:
  "yields a1 Q \<Longrightarrow> yields a2 Q \<Longrightarrow> yields a3 Q \<Longrightarrow> yields a4 Q \<Longrightarrow> yields a5 Q \<Longrightarrow> yields a6 Q \<Longrightarrow> yields a7 Q \<Longrightarrow>
   yields a8 Q \<Longrightarrow> yields a9 Q \<Longrightarrow> yields a10 Q \<Longrightarrow> yields a11 Q \<Longrightarrow> yields a12 Q \<Longrightarrow> yields a13 Q \<Longrightarrow> yields a14 Q \<Longrightarrow>
   yields a15 Q \<Longrightarrow> yields (case_expkind a1 a2 a3 a4 a5 a6 a7 a8 a9 a10 a11 a12 a13 a14 a15 k) Q"
  by (cases k) simp_all

lemma yields_icode [yields_intro]: "yields (icode fs i) (\<lambda>_. True)" by (simp add: yields_def)
lemma yields_getjump [yields_intro]: "yields (getjump fs i) (\<lambda>_. True)" by (simp add: yields_def)
lemma yields_getjumpcontrol [yields_intro]: "yields (getjumpcontrol fs i) (\<lambda>_. True)" by (simp add: yields_def)
lemma yields_need_value [yields_intro]: "yields (need_value fs i) (\<lambda>_. True)" by (simp add: yields_def)
lemma yields_last_jump [yields_intro]: "yields (last_jump n fs i) (\<lambda>_. True)" by (simp add: yields_def)

lemma cf_set_icode [cf]: "cframe g fs \<Longrightarrow> yields (set_icode fs i f) (cframe g)"
  by (auto simp: set_icode_def yields_def sbind_eq_Inr_iff cframe_def code_ok_def)

lemma cf_fixjump [cf]: "cframe g fs \<Longrightarrow> yields (fixjump fs pc d) (cframe g)"
  unfolding fixjump_def Let_def by (rule cf yields_intro | assumption)+

lemma cf_patchtestreg [cf]: "cframe g fs \<Longrightarrow> yields (patchtestreg fs n r) (\<lambda>r. cframe g (snd r))"
  unfolding patchtestreg_def by (rule cf yields_intro | assumption | simp)+

lemma cf_removevalues_loop [cf]: "cframe g fs \<Longrightarrow> yields (removevalues_loop n fs l) (cframe g)"
proof (induction n arbitrary: fs l)
  case (Suc n)
  then show ?case by (subst removevalues_loop.simps) (unfold split_beta, (rule cf yields_intro Suc.IH | assumption)+)
qed (simp add: yields_intro)

lemma cf_removevalues [cf]: "cframe g fs \<Longrightarrow> yields (removevalues fs l) (cframe g)"
  unfolding removevalues_def by (rule cf | assumption)+

lemma cf_patchlist_loop [cf]: "cframe g fs \<Longrightarrow> yields (patchlist_loop n fs l v r d) (cframe g)"
proof (induction n arbitrary: fs l)
  case (Suc n)
  then show ?case by (subst patchlist_loop.simps) (unfold split_beta, (rule cf yields_intro Suc.IH | assumption)+)
qed (simp add: yields_intro)

lemma cf_patchlistaux [cf]: "cframe g fs \<Longrightarrow> yields (patchlistaux fs l v r d) (cframe g)"
  unfolding patchlistaux_def by (rule cf | assumption)+

lemma cf_dischargejpc [cf]: "cframe g fs \<Longrightarrow> yields (dischargejpc fs) (cframe g)"
  unfolding dischargejpc_def by (rule cf yields_intro | assumption | simp)+

lemma cf_concat [cf]: "cframe g fs \<Longrightarrow> yields (luaK_concat fs l1 l2) (\<lambda>r. cframe g (snd r))"
  unfolding luaK_concat_def by (rule cf yields_intro | assumption | simp)+

lemma cf_patchtohere [cf]: "cframe g fs \<Longrightarrow> yields (luaK_patchtohere fs l) (cframe g)"
  unfolding luaK_patchtohere_def Let_def split_beta by (rule cf yields_intro | assumption | simp)+

lemma cf_patchlist [cf]: "cframe g fs \<Longrightarrow> yields (luaK_patchlist fs l t) (cframe g)"
  unfolding luaK_patchlist_def by (rule cf yields_intro | assumption)+

lemma put_length: "i \<le> length xs \<Longrightarrow> length (put xs i x) = max (length xs) (i + 1)"
  by (simp add: put_def)

lemma cframe_put:
  "cframe g fs \<Longrightarrow> cframe g (fs\<lparr>fcode := put (fcode fs) (fpc fs) i, flineinfo := put (flineinfo fs) (fpc fs) l, fpc := Suc (fpc fs)\<rparr>)"
  by (auto simp: cframe_def code_ok_def put_length)

lemma cf_code [cf]: "cframe g fs \<Longrightarrow> yields (luaK_code fs i l) (\<lambda>r. cframe g (snd r))"
  unfolding luaK_code_def by (rule cf yields_intro | assumption | simp add: cframe_put)+

lemma cf_codeABC [cf]: "cframe g fs \<Longrightarrow> yields (luaK_codeABC fs op a b c) (\<lambda>r. cframe g (snd r))"
  unfolding luaK_codeABC_def by (rule cf | assumption)+

lemma cf_codeABx [cf]: "cframe g fs \<Longrightarrow> yields (luaK_codeABx fs op a b) (\<lambda>r. cframe g (snd r))"
  unfolding luaK_codeABx_def by (rule cf | assumption)+

lemma cf_codeAsBx [cf]: "cframe g fs \<Longrightarrow> yields (luaK_codeAsBx fs op a b) (\<lambda>r. cframe g (snd r))"
  unfolding luaK_codeAsBx_def by (rule cf | assumption)+

lemma cf_nil [cf]: "cframe g fs \<Longrightarrow> yields (luaK_nil fs a n) (cframe g)"
  unfolding luaK_nil_def Let_def split_beta by (rule cf yields_intro | assumption | simp)+

lemma cf_jump [cf]: "cframe g fs \<Longrightarrow> yields (luaK_jump fs) (\<lambda>r. cframe g (snd r))"
  unfolding luaK_jump_def Let_def split_beta by (rule cf yields_intro | assumption | simp)+

lemma cf_ret [cf]: "cframe g fs \<Longrightarrow> yields (luaK_ret fs a n) (cframe g)"
  unfolding luaK_ret_def split_beta by (rule cf yields_intro | assumption)+

lemma cf_condjump [cf]: "cframe g fs \<Longrightarrow> yields (condjump fs op a b c) (\<lambda>r. cframe g (snd r))"
  unfolding condjump_def split_beta by (rule cf yields_intro | assumption)+

lemma cf_checkstack [cf]: "cframe g fs \<Longrightarrow> yields (luaK_checkstack fs n) (cframe g)"
  by (auto simp: luaK_checkstack_def yields_def cframe_def code_ok_def Let_def)

lemma cf_reserveregs [cf]: "cframe g fs \<Longrightarrow> yields (luaK_reserveregs fs n) (cframe g)"
  unfolding luaK_reserveregs_def by (rule cf yields_intro | assumption | simp)+

lemma yields_set [yields_intro]: "yields (luaH_set hfun t k) (\<lambda>_. True)" by (simp add: yields_def)

lemma cf_addk [cf]: "cframe g fs \<Longrightarrow> yields (addk hfun fs k v) (\<lambda>r. cframe g (snd r))"
  unfolding addk_def split_beta
  by (rule yields_intro) (rule yields_intro, auto split: TValue.split lnum.split simp: yields_def)

lemma cf_stringK [cf]: "cframe g fs \<Longrightarrow> yields (luaK_stringK hfun fs x) (\<lambda>r. cframe g (snd r))"
  unfolding luaK_stringK_def by (rule cf | assumption)+
lemma cf_numberK [cf]: "cframe g fs \<Longrightarrow> yields (luaK_numberK hfun fs y) (\<lambda>r. cframe g (snd r))"
  unfolding luaK_numberK_def by (rule cf | assumption)+
lemma cf_boolK [cf]: "cframe g fs \<Longrightarrow> yields (boolK hfun fs z) (\<lambda>r. cframe g (snd r))"
  unfolding boolK_def by (rule cf | assumption)+
lemma cf_nilK [cf]: "cframe g fs \<Longrightarrow> yields (nilK hfun fs) (\<lambda>r. cframe g (snd r))"
  unfolding nilK_def by (rule cf | assumption)+

section \<open>The code of expressions\<close>

lemma yields_UnOpr [yields_intro]:
  "yields a1 Q \<Longrightarrow> yields a2 Q \<Longrightarrow> yields a3 Q \<Longrightarrow> yields a4 Q \<Longrightarrow> yields (case_UnOpr a1 a2 a3 a4 k) Q"
  by (cases k) simp_all

lemma yields_BinOpr [yields_intro]:
  "yields a1 Q \<Longrightarrow> yields a2 Q \<Longrightarrow> yields a3 Q \<Longrightarrow> yields a4 Q \<Longrightarrow> yields a5 Q \<Longrightarrow> yields a6 Q \<Longrightarrow> yields a7 Q \<Longrightarrow>
   yields a8 Q \<Longrightarrow> yields a9 Q \<Longrightarrow> yields a10 Q \<Longrightarrow> yields a11 Q \<Longrightarrow> yields a12 Q \<Longrightarrow> yields a13 Q \<Longrightarrow> yields a14 Q \<Longrightarrow>
   yields a15 Q \<Longrightarrow> yields a16 Q \<Longrightarrow> yields (case_BinOpr a1 a2 a3 a4 a5 a6 a7 a8 a9 a10 a11 a12 a13 a14 a15 a16 k) Q"
  by (cases k) simp_all

text \<open>The position moves back over an instruction that is dropped.\<close>

lemma cframe_back: "cframe g fs \<Longrightarrow> cframe g (fs\<lparr>fpc := fpc fs - 1\<rparr>)"
  by (auto simp: cframe_def code_ok_def)

text \<open>Results in which the state is the last component.\<close>

lemma cf_pair: "cframe g fs \<Longrightarrow> yields (Inr (a, fs)) (\<lambda>r. cframe g (snd r))"
  and cf_state: "cframe g fs \<Longrightarrow> yields (Inr fs) (cframe g)"
  and cf_bool: "yields (m :: 'e + bool) (\<lambda>_. True)"
  and cf_triple: "cframe g fs \<Longrightarrow> yields (Inr (a, b, fs)) (\<lambda>r. cframe g (snd (snd r)))"
  by (simp_all add: yields_def)

lemmas cf_first = cf_bool cf_pair cf_state cf_triple cframe_back

lemma cf_setreturns [cf]: "cframe g fs \<Longrightarrow> yields (luaK_setreturns fs e n) (cframe g)"
  unfolding luaK_setreturns_def Let_def split_beta by (rule cf_first | rule cf yields_intro | assumption | simp)+

lemma cf_setoneret [cf]: "cframe g fs \<Longrightarrow> yields (luaK_setoneret fs e) (\<lambda>r. cframe g (snd r))"
  unfolding luaK_setoneret_def Let_def split_beta by (rule cf_first | rule cf yields_intro | assumption | simp)+

lemma cf_dischargevars [cf]: "cframe g fs \<Longrightarrow> yields (luaK_dischargevars fs e) (\<lambda>r. cframe g (snd r))"
  unfolding luaK_dischargevars_def Let_def split_beta by (rule cf_first | rule cf yields_intro | assumption | simp)+

lemma cf_code_label [cf]: "cframe g fs \<Longrightarrow> yields (code_label fs a b j) (\<lambda>r. cframe g (snd r))"
  unfolding code_label_def Let_def split_beta by (rule cf_first | rule cf yields_intro | assumption | simp)+

lemma cf_discharge2reg [cf]: "cframe g fs \<Longrightarrow> yields (discharge2reg hfun fs e r) (\<lambda>r. cframe g (snd r))"
  unfolding discharge2reg_def Let_def split_beta by (rule cf_first | rule cf yields_intro | assumption | simp)+

lemma cf_discharge2anyreg [cf]: "cframe g fs \<Longrightarrow> yields (discharge2anyreg hfun fs e) (\<lambda>r. cframe g (snd r))"
  unfolding discharge2anyreg_def Let_def split_beta by (rule cf_first | rule cf yields_intro | assumption | simp)+

lemma cf_exp2reg [cf]: "cframe g fs \<Longrightarrow> yields (exp2reg hfun fs e r) (\<lambda>r. cframe g (snd r))"
  unfolding exp2reg_def Let_def split_beta by (rule cf_first | rule cf yields_intro | assumption | simp)+

lemma cf_exp2nextreg [cf]: "cframe g fs \<Longrightarrow> yields (luaK_exp2nextreg hfun fs e) (\<lambda>r. cframe g (snd r))"
  unfolding luaK_exp2nextreg_def Let_def split_beta by (rule cf_first | rule cf yields_intro | assumption | simp)+

lemma cf_exp2anyreg [cf]: "cframe g fs \<Longrightarrow> yields (luaK_exp2anyreg hfun fs e) (\<lambda>r. cframe g (snd r))"
  unfolding luaK_exp2anyreg_def Let_def split_beta by (rule cf_first | rule cf yields_intro | assumption | simp)+

lemma cf_exp2val [cf]: "cframe g fs \<Longrightarrow> yields (luaK_exp2val hfun fs e) (\<lambda>r. cframe g (snd r))"
  unfolding luaK_exp2val_def Let_def split_beta by (rule cf_first | rule cf yields_intro | assumption | simp)+

lemma cf_exp2RK [cf]: "cframe g fs \<Longrightarrow> yields (luaK_exp2RK hfun fs e) (\<lambda>r. cframe g (snd (snd r)))"
  unfolding luaK_exp2RK_def Let_def split_beta by (rule cf_first | rule cf yields_intro | assumption | simp)+

lemma cf_storevar [cf]: "cframe g fs \<Longrightarrow> yields (luaK_storevar hfun fs v e) (\<lambda>r. cframe g (snd r))"
  unfolding luaK_storevar_def Let_def split_beta by (rule cf_first | rule cf yields_intro | assumption | simp)+

lemma cf_self [cf]: "cframe g fs \<Longrightarrow> yields (luaK_self hfun fs e k) (\<lambda>r. cframe g (snd r))"
  unfolding luaK_self_def Let_def split_beta by (rule cf_first | rule cf yields_intro | assumption | simp)+

lemma cf_invertjump [cf]: "cframe g fs \<Longrightarrow> yields (invertjump fs e) (cframe g)"
  unfolding invertjump_def Let_def split_beta by (rule cf_first | rule cf yields_intro | assumption | simp)+

lemma cf_jumponcond [cf]: "cframe g fs \<Longrightarrow> yields (jumponcond hfun fs e c) (\<lambda>r. cframe g (snd (snd r)))"
  unfolding jumponcond_def Let_def split_beta by (rule cf_first | rule cf yields_intro | assumption | simp)+

lemma cf_goiftrue [cf]: "cframe g fs \<Longrightarrow> yields (luaK_goiftrue hfun fs e) (\<lambda>r. cframe g (snd r))"
  unfolding luaK_goiftrue_def Let_def split_beta by (rule cf_first | rule cf yields_intro | assumption | simp)+

lemma cf_goiffalse [cf]: "cframe g fs \<Longrightarrow> yields (luaK_goiffalse hfun fs e) (\<lambda>r. cframe g (snd r))"
  unfolding luaK_goiffalse_def Let_def split_beta by (rule cf_first | rule cf yields_intro | assumption | simp)+

lemma cf_codenot [cf]: "cframe g fs \<Longrightarrow> yields (codenot hfun fs e) (\<lambda>r. cframe g (snd r))"
  unfolding codenot_def Let_def split_beta by (rule cf_first | rule cf yields_intro | assumption | simp)+

lemma cf_indexed [cf]: "cframe g fs \<Longrightarrow> yields (luaK_indexed hfun fs t k) (\<lambda>r. cframe g (snd r))"
  unfolding luaK_indexed_def Let_def split_beta by (rule cf_first | rule cf yields_intro | assumption | simp)+

lemma cf_codearith [cf]: "cframe g fs \<Longrightarrow> yields (codearith hfun ar fs op e1 e2) (\<lambda>r. cframe g (snd r))"
  unfolding codearith_def Let_def split_beta by (rule cf_first | rule cf yields_intro | assumption | simp)+

lemma cf_codecomp [cf]: "cframe g fs \<Longrightarrow> yields (codecomp hfun fs op c e1 e2) (\<lambda>r. cframe g (snd r))"
  unfolding codecomp_def Let_def split_beta by (rule cf_first | rule cf yields_intro | assumption | simp)+

lemma cf_prefix [cf]: "cframe g fs \<Longrightarrow> yields (luaK_prefix hfun ar fs op e) (\<lambda>r. cframe g (snd r))"
  unfolding luaK_prefix_def Let_def split_beta by (rule cf_first | rule cf yields_intro | assumption | simp)+

lemma cf_infix [cf]: "cframe g fs \<Longrightarrow> yields (luaK_infix hfun fs op v) (\<lambda>r. cframe g (snd r))"
  unfolding luaK_infix_def Let_def split_beta by (rule cf_first | rule cf yields_intro | assumption | simp)+

lemma cf_posfix [cf]: "cframe g fs \<Longrightarrow> yields (luaK_posfix hfun ar fs op e1 e2) (\<lambda>r. cframe g (snd r))"
  unfolding luaK_posfix_def Let_def split_beta by (rule cf_first | rule cf yields_intro | assumption | simp)+

lemma cf_setlist [cf]: "cframe g fs \<Longrightarrow> yields (luaK_setlist fs b n t) (cframe g)"
  unfolding luaK_setlist_def Let_def split_beta by (rule cf_first | rule cf yields_intro | assumption | simp)+

end
