(* ===== verification/LScope.thy ===== *)
theory LScope
  imports LFrames "HOL-Library.Sublist"
begin

text \<open>
  What every rule of the parser keeps: functions under compilation stay well formed, expressions and blocks leave the
  variables in scope as they were, and statements only add variables.
\<close>

section \<open>Well-formed functions\<close>

text \<open>The prototype and all inside it pass the first checks of the code checker.\<close>

fun well_made :: "Proto \<Rightarrow> bool" where
  "well_made (Proto k c p li lv u src ld lld nu np va ms) =
    (precheck (Proto k c p li lv u src ld lld nu np va ms) = Inr (Some ()) \<and> (\<forall>q \<in> set p. well_made q))"

text \<open>The names of the active variables, and the number of those outside of each block.\<close>

definition visible :: "ParFunc \<Rightarrow> bytes option list" where
  "visible f = map (\<lambda>i. varname (f_locvars f ! (f_actvar f ! i))) [0..<nat (nactvar f)]"

definition levels :: "ParFunc \<Rightarrow> int list" where
  "levels f = map bl_nactvar (f_bl f)"

definition vars_ok :: "ParFunc \<Rightarrow> bool" where
  "vars_ok f \<longleftrightarrow> 0 \<le> nactvar f \<and> nactvar f \<le> LUAI_MAXVARS \<and> length (f_actvar f) = nat LUAI_MAXVARS
    \<and> (\<forall>i < nat (nactvar f). f_actvar f ! i < length (f_locvars f))
    \<and> sorted_wrt (\<ge>) (levels f) \<and> (\<forall>n \<in> set (levels f). 0 \<le> n \<and> n \<le> nactvar f)"

definition params_ok :: "ParFunc \<Rightarrow> bool" where
  "params_ok f \<longleftrightarrow> uint (f_numparams f) + uint (f_is_vararg f AND VARARG_HASARG) \<le> maxstacksize f
    \<and> (f_is_vararg f AND VARARG_NEEDSARG \<noteq> 0 \<longrightarrow> f_is_vararg f AND VARARG_HASARG \<noteq> 0)"

definition func_ok :: "ParFunc \<Rightarrow> bool" where
  "func_ok f \<longleftrightarrow> code_ok (FuncState.truncate f) \<and> 2 \<le> maxstacksize f \<and> maxstacksize f < MAXSTACK \<and> vars_ok f
    \<and> length (f_upvalues f) \<le> nat LUAI_MAXUPVALUES \<and> params_ok f \<and> (\<forall>p \<in> set (f_p f). well_made p)"

section \<open>How rules change the functions\<close>

definition same_scope :: "ParFunc \<Rightarrow> ParFunc \<Rightarrow> bool" where
  "same_scope f g \<longleftrightarrow> func_ok g \<and> visible g = visible f \<and> levels g = levels f"

text \<open>\<open>g\<close> is inside \<open>k\<close> blocks more than \<open>f\<close>, the outermost of which was entered at \<open>f\<close>.\<close>

definition inside :: "nat \<Rightarrow> ParFunc \<Rightarrow> ParFunc \<Rightarrow> bool" where
  "inside k f g \<longleftrightarrow> func_ok g \<and> prefix (visible f) (visible g)
    \<and> (\<exists>ns. length ns = k \<and> levels g = ns @ levels f \<and> (ns \<noteq> [] \<longrightarrow> last ns = nactvar f))"

abbreviation funcs :: "'r ParState \<Rightarrow> ParFunc list" where "funcs s \<equiv> lfs (pls s)"

definition state_ok :: "'r ParState \<Rightarrow> bool" where
  "state_ok s \<longleftrightarrow> funcs s \<noteq> [] \<and> (\<forall>f \<in> set (funcs s). func_ok f)"

definition Same :: "'r ParState \<Rightarrow> 'r ParState \<Rightarrow> bool" where
  "Same s0 s \<longleftrightarrow> state_ok s0 \<and> list_all2 same_scope (funcs s0) (funcs s)"

definition Inside :: "nat \<Rightarrow> 'r ParState \<Rightarrow> 'r ParState \<Rightarrow> bool" where
  "Inside k s0 s \<longleftrightarrow> state_ok s0 \<and> funcs s \<noteq> [] \<and> inside k (hd (funcs s0)) (hd (funcs s))
    \<and> list_all2 same_scope (tl (funcs s0)) (tl (funcs s))"

text \<open>Rules that leave the scope as it is, and rules that may add variables to it.\<close>

definition keeps :: "('r, 'a) rule \<Rightarrow> bool" where
  "keeps m = (\<forall>s x s'. state_ok s \<longrightarrow> m s = Inr (x, s') \<longrightarrow> Same s s')"

definition extends :: "('r, 'a) rule \<Rightarrow> bool" where
  "extends m = (\<forall>s x s'. state_ok s \<longrightarrow> m s = Inr (x, s') \<longrightarrow> Inside 0 s s')"

lemma same_scope_refl: "func_ok f \<Longrightarrow> same_scope f f" by (simp add: same_scope_def)

lemma same_scope_trans: "same_scope f g \<Longrightarrow> same_scope g h \<Longrightarrow> same_scope f h" by (simp add: same_scope_def)

lemma nactvar_visible: "func_ok f \<Longrightarrow> nactvar f = int (length (visible f))"
  by (simp add: visible_def func_ok_def vars_ok_def)

lemma inside_same: "inside k f g \<Longrightarrow> same_scope g h \<Longrightarrow> inside k f h"
  by (auto simp: inside_def same_scope_def)

lemma inside_inside: "inside k f g \<Longrightarrow> inside 0 g h \<Longrightarrow> inside k f h"
  by (auto simp: inside_def intro: prefix_order.trans)

lemma inside_refl: "func_ok f \<Longrightarrow> inside 0 f f" by (simp add: inside_def)

lemma scopes_refl: "(\<forall>f \<in> set fs. func_ok f) \<Longrightarrow> list_all2 same_scope fs fs"
  by (simp add: list.rel_refl_strong same_scope_refl)

lemma scopes_trans: "list_all2 same_scope fs gs \<Longrightarrow> list_all2 same_scope gs hs \<Longrightarrow> list_all2 same_scope fs hs"
  by (rule list_all2_trans [of same_scope same_scope same_scope, OF same_scope_trans])

lemma scopes_ok: "list_all2 same_scope fs gs \<Longrightarrow> \<forall>g \<in> set gs. func_ok g"
  by (auto simp: same_scope_def list_all2_conv_all_nth in_set_conv_nth)

lemma Same_refl: "state_ok s \<Longrightarrow> Same s s" by (simp add: Same_def state_ok_def scopes_refl)

lemma Same_ok: "Same s0 s \<Longrightarrow> state_ok s"
  using scopes_ok by (fastforce simp: Same_def state_ok_def)

lemma Inside_refl: "state_ok s \<Longrightarrow> Inside 0 s s"
  by (auto simp: Inside_def state_ok_def inside_refl scopes_refl list.set_sel)

lemma Inside_ok: "Inside k s0 s \<Longrightarrow> state_ok s"
  using scopes_ok [of "tl (funcs s0)" "tl (funcs s)"]
  by (cases "funcs s") (auto simp: Inside_def state_ok_def inside_def)

lemma Same_trans: "Same s0 s \<Longrightarrow> Same s s' \<Longrightarrow> Same s0 s'"
  by (auto simp: Same_def intro: scopes_trans)

lemma Inside_Same: "Inside k s0 s \<Longrightarrow> Same s s' \<Longrightarrow> Inside k s0 s'"
  by (cases "funcs s"; cases "funcs s'") (auto simp: Inside_def Same_def intro: inside_same scopes_trans)

lemma Inside_Inside: "Inside k s0 s \<Longrightarrow> Inside 0 s s' \<Longrightarrow> Inside k s0 s'"
  by (auto simp: Inside_def intro: inside_inside scopes_trans)

section \<open>Triples\<close>

definition trip :: "('r ParState \<Rightarrow> bool) \<Rightarrow> ('r, 'a) rule \<Rightarrow> ('r ParState \<Rightarrow> bool) \<Rightarrow> bool" where
  "trip P m Q = (\<forall>s x s'. P s \<longrightarrow> m s = Inr (x, s') \<longrightarrow> Q s')"

named_theorems kp "rules that leave the scope as it is or add to it"

lemma pbind_Inr: "pbind m k s = Inr r \<longleftrightarrow> (\<exists>x s1. m s = Inr (x, s1) \<and> k x s1 = Inr r)"
  by (auto simp: pbind_def sbind_eq_Inr_iff split_beta)

lemma trip_pbind: "trip P m Q \<Longrightarrow> (\<And>x. trip Q (k x) R) \<Longrightarrow> trip P (pbind m k) R"
  unfolding trip_def pbind_Inr by blast

lemma trip_pseq: "trip P m Q \<Longrightarrow> trip Q k R \<Longrightarrow> trip P (pseq m k) R"
  unfolding pseq_def by (rule trip_pbind)

text \<open>A bind whose value is known to have a property.\<close>

definition returns :: "('r, 'a) rule \<Rightarrow> ('a \<Rightarrow> bool) \<Rightarrow> bool" where
  "returns m \<phi> = (\<forall>s x s'. m s = Inr (x, s') \<longrightarrow> \<phi> x)"

lemma trip_pbind_value: "trip P m Q \<Longrightarrow> returns m \<phi> \<Longrightarrow> (\<And>x. \<phi> x \<Longrightarrow> trip Q (k x) R) \<Longrightarrow> trip P (pbind m k) R"
  unfolding trip_def pbind_Inr returns_def by blast

lemma trip_preturn: "trip P (preturn x) P" by (simp add: trip_def preturn_def)
lemma trip_pget: "trip P (pget f) P" by (simp add: trip_def pget_def)
lemma trip_plift: "trip P (plift f) P" by (auto simp: trip_def plift_def sbind_eq_Inr_iff)
lemma trip_fault: "trip P (\<lambda>s. Inl e) Q" by (simp add: trip_def)
lemma trip_syntaxerror: "trip P (syntaxerror m) Q"
  using yieldsD [OF yields_syntaxerror] by (auto simp: trip_def syntaxerror_def plift_def sbind_eq_Inr_iff)
lemma trip_error_expected: "trip P (error_expected t) Q"
  using yieldsD [OF yields_syntaxerror] by (auto simp: trip_def error_expected_def plift_def sbind_eq_Inr_iff)
lemma trip_if: "(b \<Longrightarrow> trip P m Q) \<Longrightarrow> (\<not> b \<Longrightarrow> trip P n Q) \<Longrightarrow> trip P (if b then m else n) Q" by simp
lemma trip_option: "trip P m Q \<Longrightarrow> (\<And>a. trip P (f a) Q) \<Longrightarrow> trip P (case v of None \<Rightarrow> m | Some a \<Rightarrow> f a) Q"
  by (cases v) auto

lemma trip_Same: "keeps m \<Longrightarrow> trip (Same s0) m (Same s0)"
  unfolding trip_def keeps_def using Same_ok Same_trans by blast

lemma trip_Inside: "keeps m \<Longrightarrow> trip (Inside k s0) m (Inside k s0)"
  unfolding trip_def keeps_def using Inside_ok Inside_Same by blast

lemma trip_extends: "extends m \<Longrightarrow> trip (Inside k s0) m (Inside k s0)"
  unfolding trip_def extends_def using Inside_ok Inside_Inside by blast

lemma keepsI: "(\<And>s0. trip (Same s0) m (Same s0)) \<Longrightarrow> keeps m"
  unfolding trip_def keeps_def using Same_refl by blast

lemma extendsI: "(\<And>s0. trip (Inside 0 s0) m (Inside 0 s0)) \<Longrightarrow> extends m"
  unfolding trip_def extends_def using Inside_refl by blast

lemmas trip_rules = trip_preturn trip_pget trip_plift trip_fault trip_syntaxerror trip_error_expected trip_if trip_option
  trip_pseq trip_pbind

section \<open>Steps of the scanner and of the code generator\<close>

lemma func_ok_fh [simp]: "func_ok (f\<lparr>fh := t\<rparr>) = func_ok f"
  by (simp add: func_ok_def vars_ok_def params_ok_def levels_def code_ok_def FuncState.defs)

lemma visible_fh [simp]: "visible (f\<lparr>fh := t\<rparr>) = visible f" "levels (f\<lparr>fh := t\<rparr>) = levels f"
  by (simp_all add: visible_def levels_def)

lemma same_but_h_scope: "func_ok f \<Longrightarrow> same_but_h f g \<Longrightarrow> same_scope f g"
  by (auto simp: same_but_h_def same_scope_def)

lemma lframe_scopes: "\<forall>f \<in> set (lfs l). func_ok f \<Longrightarrow> lframe l ls \<Longrightarrow> list_all2 same_scope (lfs l) (lfs ls)"
  by (auto simp: lframe_def same_but_h_scope elim!: list.rel_mono_strong)

lemma keeps_lexv:
  assumes "\<And>ls. yields (f ls) (\<lambda>r. lframe ls (snd r))"
  shows "keeps (lexv f)"
proof -
  have "Same s (s\<lparr>pls := ls'\<rparr>)" if "state_ok s" "f (pls s) = Inr (x, ls')" for s x ls'
    using lframe_scopes [of "pls s" ls'] yieldsD [OF assms that(2)] that(1) by (simp add: Same_def state_ok_def)
  then show ?thesis by (auto simp: keeps_def lexv_def sbind_eq_Inr_iff)
qed

lemma keeps_lexs: "(\<And>ls. yields (f ls) (lframe ls)) \<Longrightarrow> keeps (lexs f)"
  unfolding lexs_def by (rule keeps_lexv) (rule yields_sbind, assumption, simp add: yields_def)

lemma keeps_onfs:
  assumes "\<And>ls fs. func_ok fs \<Longrightarrow> yields (f ls fs) (\<lambda>r. same_scope fs (snd r))"
  shows "keeps (onfs f)"
proof -
  have "Same s (s\<lparr>pls := (pls s)\<lparr>lfs := fs' # fss\<rparr>\<rparr>)" if "state_ok s" "funcs s = fs # fss" "f (pls s) fs = Inr (x, fs')" for s fs fss fs' x
    using yieldsD [OF assms that(3)] that(1,2) scopes_refl [of fss] by (auto simp: Same_def state_ok_def)
  then show ?thesis by (fastforce simp: keeps_def onfs_def lexv_def sbind_eq_Inr_iff split: list.splits)
qed

lemma keeps_fsget [kp]: "keeps (fsget f)"
  unfolding fsget_def by (rule keeps_onfs) (simp add: yields_def same_scope_refl)

lemma keeps_fsset: "(\<And>fs. func_ok fs \<Longrightarrow> same_scope fs (f fs)) \<Longrightarrow> keeps (fsset f)"
  unfolding fsset_def by (rule keeps_onfs) (simp add: yields_def)

lemma code_ok_lastline [simp]: "code_ok (fs\<lparr>lastline := l\<rparr>) = code_ok fs" by (simp add: code_ok_def)

lemma extend_truncate:
  "f_bl (FuncState.extend g (FuncState.more fs)) = f_bl fs" "f_locvars (FuncState.extend g (FuncState.more fs)) = f_locvars fs"
  "f_actvar (FuncState.extend g (FuncState.more fs)) = f_actvar fs" "f_p (FuncState.extend g (FuncState.more fs)) = f_p fs"
  "f_upvalues (FuncState.extend g (FuncState.more fs)) = f_upvalues fs"
  "f_numparams (FuncState.extend g (FuncState.more fs)) = f_numparams fs"
  "f_is_vararg (FuncState.extend g (FuncState.more fs)) = f_is_vararg fs"
  "nactvar (FuncState.extend g (FuncState.more fs)) = nactvar g"
  "maxstacksize (FuncState.extend g (FuncState.more fs)) = maxstacksize g"
  "FuncState.truncate (FuncState.extend g (FuncState.more fs)) = g"
  "nactvar (FuncState.truncate fs) = nactvar fs" "maxstacksize (FuncState.truncate fs) = maxstacksize fs"
  by (cases fs; simp add: FuncState.defs)+

lemma cframe_scope:
  assumes "func_ok fs" "cframe ((FuncState.truncate fs)\<lparr>lastline := l\<rparr>) g"
  shows "same_scope fs (FuncState.extend g (FuncState.more fs))"
  using assms by (auto simp: same_scope_def func_ok_def vars_ok_def params_ok_def levels_def visible_def cframe_def extend_truncate)

lemma keeps_code:
  assumes "\<And>g. yields (f g) (\<lambda>r. cframe g (snd r))"
  shows "keeps (code f)"
  unfolding code_def
proof (rule keeps_onfs)
  fix ls fs assume "func_ok fs"
  then show "yields (code_step f ls fs) (\<lambda>r. same_scope fs (snd r))"
    using yieldsD [OF yields_syntaxerror] yieldsD [OF assms [of "(FuncState.truncate fs)\<lparr>lastline := lxlastline ls\<rparr>"]] cframe_scope [of fs]
    by (auto simp: yields_def code_step_def split: sum.splits lua_error.splits if_splits)
qed

lemma keeps_codes: "(\<And>g. yields (f g) (cframe g)) \<Longrightarrow> keeps (codes f)"
  unfolding codes_def by (rule keeps_code) (rule yields_sbind, assumption, simp add: yields_def)

text \<open>The operations the rules use.\<close>

lemma keeps_code_ops [kp]:
  "keeps (code (\<lambda>fs. luaK_stringK hfun fs name))"
  "keeps (code (\<lambda>fs. luaK_codeABC fs op a b c))" "keeps (code (\<lambda>fs. luaK_codeABx fs op a b))" "keeps (code (\<lambda>fs. luaK_codeAsBx fs op a b))"
  "keeps (code (\<lambda>fs. luaK_exp2nextreg hfun fs v))" "keeps (code (\<lambda>fs. luaK_exp2anyreg hfun fs v))" "keeps (code (\<lambda>fs. luaK_exp2val hfun fs v))"
  "keeps (code (\<lambda>fs. luaK_indexed hfun fs v key))" "keeps (code (\<lambda>fs. luaK_concat fs l1 l2))" "keeps (code luaK_jump)"
  "keeps (code (\<lambda>fs. luaK_dischargevars fs v))" "keeps (code (\<lambda>fs. luaK_self hfun fs v key))" "keeps (code (\<lambda>fs. luaK_infix hfun fs bop v))"
  "keeps (code (\<lambda>fs. luaK_posfix hfun ar fs bop v w))" "keeps (code (\<lambda>fs. luaK_prefix hfun ar fs uop v))" "keeps (code (\<lambda>fs. luaK_goiftrue hfun fs v))"
  "keeps (code (\<lambda>fs. luaK_setoneret fs v))"
  by (rule keeps_code, rule cf, rule cframe_refl)+

lemma keeps_codes_ops [kp]:
  "keeps (codes (\<lambda>fs. luaK_setreturns fs e n))" "keeps (codes (\<lambda>fs. luaK_reserveregs fs i))" "keeps (codes (\<lambda>fs. luaK_patchtohere fs i))"
  "keeps (codes (\<lambda>fs. luaK_patchlist fs i j))" "keeps (codes (\<lambda>fs. luaK_setlist fs i j l))" "keeps (codes (\<lambda>fs. set_icode fs i g))"
  "keeps (codes (\<lambda>fs. luaK_ret fs i j))" "keeps (codes (\<lambda>fs. luaK_nil fs i j))" "keeps (codes (\<lambda>fs. luaK_checkstack fs i))"
  by (rule keeps_codes, rule cf, rule cframe_refl)+

lemma keeps_getlabel [kp]: "keeps (code (\<lambda>fs. Inr (luaK_getlabel fs)))"
  by (rule keeps_code) (simp add: yields_def cframe_refl)

lemma keeps_fixline [kp]: "keeps (codes (\<lambda>fs. Inr (luaK_fixline fs l)))"
  by (rule keeps_codes) (simp add: yields_def cframe_refl)

lemma keeps_emit [kp]: "keeps (emit op a b c)"
  unfolding emit_def split_beta by (rule keeps_codes) (rule cf_first | rule cf yields_intro cframe_refl | assumption)+

lemma keeps_pnext [kp]: "keeps (pnext E)"
  unfolding pnext_def by (rule keeps_lexs, rule lf, rule lframe_refl)

lemma keeps_lookahead [kp]: "keeps (lexs (luaX_lookahead n E))"
  by (rule keeps_lexs, rule lf, rule lframe_refl)

lemma keeps_newstring [kp]: "keeps (lexv (luaX_newstring E v))"
  by (rule keeps_lexv, rule lf, rule lframe_refl)

section \<open>Variables\<close>

text \<open>A function with other local variables of the same names.\<close>

definition renamed :: "ParFunc \<Rightarrow> ParFunc \<Rightarrow> bool" where
  "renamed f g \<longleftrightarrow> (\<exists>L. g = f\<lparr>f_locvars := L\<rparr> \<and> map varname L = map varname (f_locvars f))"

lemma renamed_refl: "renamed f f" unfolding renamed_def by (rule exI [of _ "f_locvars f"]) simp

lemma renamed_nactvar: "renamed f g \<Longrightarrow> renamed (f\<lparr>nactvar := n\<rparr>) (g\<lparr>nactvar := n\<rparr>)"
  unfolding renamed_def by (rule exI [of _ "f_locvars g"]) (cases f; auto)

lemma renamed_trans: "renamed f g \<Longrightarrow> renamed g h \<Longrightarrow> renamed f h"
  by (auto simp: renamed_def)

lemma same_names: "map varname L = map varname M \<Longrightarrow> length L = length M \<and> (\<forall>j < length M. varname (L ! j) = varname (M ! j))"
  by (metis length_map nth_map)

lemma visible_names:
  assumes "vars_ok f" "map varname L = map varname (f_locvars f)"
  shows "visible (f\<lparr>f_locvars := L\<rparr>) = visible f"
  using assms same_names [OF assms(2)] by (auto simp: visible_def vars_ok_def)

lemma func_ok_locvars: "func_ok f \<Longrightarrow> length L = length (f_locvars f) \<Longrightarrow> func_ok (f\<lparr>f_locvars := L\<rparr>)"
  by (simp add: func_ok_def levels_def code_ok_def FuncState.defs vars_ok_def params_ok_def)

lemma renamed_same:
  assumes "func_ok f" "renamed f g"
  shows "same_scope f g"
proof -
  obtain L where L: "g = f\<lparr>f_locvars := L\<rparr>" "map varname L = map varname (f_locvars f)" using assms(2) by (auto simp: renamed_def)
  then have "length L = length (f_locvars f)" by (metis length_map)
  then have "func_ok g" using L(1) assms(1) by (simp add: func_ok_locvars)
  moreover have "visible g = visible f" using L assms(1) by (simp add: visible_names func_ok_def)
  ultimately show ?thesis using L(1) by (simp add: same_scope_def levels_def)
qed

lemma getlocvar_Inr:
  "getlocvar fs i = Inr v \<longleftrightarrow> 0 \<le> i \<and> nat i < length (f_actvar fs) \<and> f_actvar fs ! nat i < length (f_locvars fs)
    \<and> v = f_locvars fs ! (f_actvar fs ! nat i)"
  by (auto simp: getlocvar_def sbind_eq_Inr_iff rd_def lift_def split: if_splits)

lemma updlocvar_renamed:
  assumes "updlocvar fs i g = Inr fs'" "\<And>v. varname (g v) = varname v"
  shows "renamed fs fs'"
proof -
  let ?j = "f_actvar fs ! nat i"
  have "?j < length (f_locvars fs)" "fs' = fs\<lparr>f_locvars := (f_locvars fs)[?j := g (f_locvars fs ! ?j)]\<rparr>"
    using assms(1) by (auto simp: updlocvar_def sbind_eq_Inr_iff getlocvar_Inr)
  moreover from this have "map varname ((f_locvars fs)[?j := g (f_locvars fs ! ?j)]) = map varname (f_locvars fs)"
    by (simp add: map_update assms(2) list_update_same_conv)
  ultimately show ?thesis by (auto simp: renamed_def)
qed

lemma renamed_fields: "renamed f g \<Longrightarrow> nactvar g = nactvar f \<and> f_actvar g = f_actvar f \<and> fpc g = fpc f \<and> length (f_locvars g) = length (f_locvars f)"
  using map_eq_imp_length_eq [of varname _ varname "f_locvars f"] by (auto simp: renamed_def)

lemma start_vars_ok:
  "start_vars n fs = Inr fs' \<Longrightarrow> renamed fs fs'
    \<and> (\<forall>k. 0 < k \<longrightarrow> k \<le> n \<longrightarrow> int k \<le> nactvar fs \<and> nat (nactvar fs - int k) < length (f_actvar fs)
        \<and> f_actvar fs ! nat (nactvar fs - int k) < length (f_locvars fs))"
proof (induction n arbitrary: fs)
  case (Suc n)
  let ?u = "updlocvar fs (nactvar fs - int (Suc n)) (\<lambda>v. v\<lparr>startpc := int (fpc fs)\<rparr>)"
  obtain g where g: "?u = Inr g" "start_vars n g = Inr fs'"
    using Suc.prems by (simp only: start_vars.simps sbind_eq_Inr_iff) blast
  have r: "renamed fs g" by (rule updlocvar_renamed [OF g(1)]) simp
  have i: "int (Suc n) \<le> nactvar fs" "nat (nactvar fs - int (Suc n)) < length (f_actvar fs)"
    "f_actvar fs ! nat (nactvar fs - int (Suc n)) < length (f_locvars fs)"
    using g(1) by (auto simp: updlocvar_def sbind_eq_Inr_iff getlocvar_Inr)
  show ?case using Suc.IH [OF g(2)] renamed_fields [OF r] renamed_trans [OF r] i by (metis le_Suc_eq)
qed (simp add: renamed_refl)

lemma end_vars_ok:
  "end_vars n fs = Inr fs' \<Longrightarrow> renamed (fs\<lparr>nactvar := nactvar fs - int n\<rparr>) fs'"
proof (induction n arbitrary: fs)
  case (Suc n)
  let ?f = "fs\<lparr>nactvar := nactvar fs - 1\<rparr>"
  obtain g where g: "updlocvar ?f (nactvar ?f) (\<lambda>v. v\<lparr>endpc := int (fpc ?f)\<rparr>) = Inr g" "end_vars n g = Inr fs'"
    using Suc.prems by (simp only: end_vars.simps Let_def sbind_eq_Inr_iff) blast
  have r: "renamed ?f g" by (rule updlocvar_renamed [OF g(1)]) simp
  then have "renamed (?f\<lparr>nactvar := nactvar ?f - int n\<rparr>) (g\<lparr>nactvar := nactvar g - int n\<rparr>)"
    using renamed_nactvar [OF r] renamed_fields [OF r] by simp
  then have "renamed (fs\<lparr>nactvar := nactvar fs - int (Suc n)\<rparr>) (g\<lparr>nactvar := nactvar g - int n\<rparr>)" by (simp add: algebra_simps)
  with Suc.IH [OF g(2)] show ?case using renamed_trans by blast
qed (simp add: renamed_refl)

text \<open>Fewer variables, as at the end of a block.\<close>

lemma fewer_vars:
  assumes "func_ok f" "0 \<le> n" "n \<le> nactvar f" "\<forall>b \<in> set bls. bl_nactvar b \<le> n" "suffix bls (f_bl f)"
  shows "func_ok (f\<lparr>f_bl := bls, nactvar := n\<rparr>)" "visible (f\<lparr>f_bl := bls, nactvar := n\<rparr>) = take (nat n) (visible f)"
proof -
  obtain zs where z: "f_bl f = zs @ bls" using assms(5) by (auto simp: suffix_def)
  show "func_ok (f\<lparr>f_bl := bls, nactvar := n\<rparr>)"
    using assms(1-4) z by (auto simp: func_ok_def vars_ok_def levels_def params_ok_def code_ok_def FuncState.defs sorted_wrt_append)
  have "nat n \<le> nat (nactvar f)" using assms(3) by simp
  then show "visible (f\<lparr>f_bl := bls, nactvar := n\<rparr>) = take (nat n) (visible f)"
    by (simp add: visible_def take_map take_upt)
qed

lemma removevars_ok:
  assumes "func_ok f" "removevars (f\<lparr>f_bl := bls\<rparr>) n = Inr g" "0 \<le> n" "n \<le> nactvar f" "\<forall>b \<in> set bls. bl_nactvar b \<le> n" "suffix bls (f_bl f)"
  shows "func_ok g \<and> visible g = take (nat n) (visible f) \<and> levels g = map bl_nactvar bls"
proof -
  have "renamed (f\<lparr>f_bl := bls, nactvar := nactvar f - int (nat (nactvar f - n))\<rparr>) g"
    using end_vars_ok assms(2) by (fastforce simp: removevars_def)
  then have r: "renamed (f\<lparr>f_bl := bls, nactvar := n\<rparr>) g" using assms(4) by simp
  have "same_scope (f\<lparr>f_bl := bls, nactvar := n\<rparr>) g"
    by (rule renamed_same [OF fewer_vars(1) r]) (use assms in auto)
  then show ?thesis using fewer_vars(2) [OF assms(1,3-6)] by (simp add: same_scope_def levels_def)
qed

text \<open>New variables.\<close>

lemma wrap_256:
  fixes a n :: int
  assumes a: "0 \<le> a" "a \<le> 200" and n: "0 \<le> n" "n \<le> (a + n) mod 256" "(a + n) mod 256 \<le> 200"
  shows "(a + n) mod 256 = a + n \<and> a + n \<le> 200"
proof (cases "a + n < 256")
  case False
  have "(a + n) mod 256 = (a + n - 256) mod 256" by simp
  also have "\<dots> = a + n - 256" using False a n by (intro mod_pos_pos_trivial) simp_all
  finally show ?thesis using a n by simp
qed (use a n in simp)

lemma more_vars:
  assumes f: "func_ok f" and n: "0 \<le> n" and s: "start_vars (nat n) (f\<lparr>nactvar := (nactvar f + n) mod 256\<rparr>) = Inr g"
  shows "inside 0 f g \<and> nactvar g = nactvar f + n"
proof -
  let ?w = "(nactvar f + n) mod 256" and ?f = "f\<lparr>nactvar := (nactvar f + n) mod 256\<rparr>"
  note r = start_vars_ok [OF s]
  have b: "0 \<le> nactvar f" "nactvar f \<le> 200" "length (f_actvar f) = 200" using f by (auto simp: func_ok_def vars_ok_def LUAI_MAXVARS_def)
  have w: "?w = nactvar f + n \<and> nactvar f + n \<le> 200"
  proof (cases "n = 0")
    case False
    then have k: "0 < nat n" "1 \<le> nat n" using n by simp_all
    note r1 = r [THEN conjunct2, rule_format, OF k(1) order_refl] and r2 = r [THEN conjunct2, rule_format, OF zero_less_one k(2)]
    have "n \<le> ?w" "1 \<le> ?w" "nat (?w - 1) < 200" using r1 r2 n b by simp_all
    then have "n \<le> ?w" "1 \<le> ?w" "?w \<le> 200" by simp_all
    then show ?thesis using wrap_256 [OF b(1,2) n] by simp
  qed (use b in simp)
  have i: "f_actvar f ! i < length (f_locvars f)" if "i < nat (nactvar f + n)" for i
  proof (cases "i < nat (nactvar f)")
    case False
    define k where "k = nat (nactvar f + n) - i"
    have "0 < k" "k \<le> nat n" "nat (?w - int k) = i" using False that w b n by (auto simp: k_def)
    then show ?thesis using r by auto
  qed (use f in \<open>auto simp: func_ok_def vars_ok_def\<close>)
  have "vars_ok ?f"
    using f w i n by (auto simp: func_ok_def vars_ok_def levels_def LUAI_MAXVARS_def intro: order_trans)
  then have ok: "func_ok ?f" using f by (simp add: func_ok_def params_ok_def code_ok_def FuncState.defs)
  have "nat ?w = nat (nactvar f) + nat n" using w b n by auto
  then have "prefix (visible f) (visible ?f)" by (simp add: visible_def upt_add_eq_append [of 0 "nat (nactvar f)" "nat n"])
  moreover have "same_scope ?f g" by (rule renamed_same [OF ok]) (use r in simp)
  ultimately show ?thesis using w renamed_fields [of ?f g] r by (simp add: inside_def same_scope_def levels_def)
qed

lemma extends_adjustlocalvars [kp]:
  assumes "0 \<le> n" shows "extends (adjustlocalvars n)"
proof -
  have "Inside 0 s (s\<lparr>pls := (pls s)\<lparr>lfs := g # fss\<rparr>\<rparr>)"
    if "state_ok s" "funcs s = f # fss" "start_vars (nat n) (f\<lparr>nactvar := (nactvar f + n) mod 256\<rparr>) = Inr g" for s f fss g
    using more_vars [OF _ assms that(3)] that(1,2) scopes_refl [of fss] by (auto simp: Inside_def state_ok_def)
  then show ?thesis
    by (auto simp: extends_def adjustlocalvars_def onfs_def lexv_def sbind_eq_Inr_iff split: list.splits)
qed

lemma new_var:
  assumes f: "func_ok f" and i: "nactvar f \<le> i" "i < LUAI_MAXVARS"
  shows "same_scope f (f\<lparr>f_locvars := f_locvars f @ [v], f_actvar := (f_actvar f)[nat i := j]\<rparr>)" (is "same_scope f ?g")
proof -
  have "nat (nactvar f) \<le> nat i" using i by simp
  then have a: "(f_actvar f)[nat i := j] ! k = f_actvar f ! k" if "k < nat (nactvar f)" for k using that by simp
  have l: "f_actvar f ! k < length (f_locvars f)" if "k < nat (nactvar f)" for k using f that by (simp add: func_ok_def vars_ok_def)
  have "vars_ok ?g" using f a l by (auto simp: func_ok_def vars_ok_def levels_def less_SucI)
  then have "func_ok ?g" using f by (simp add: func_ok_def params_ok_def code_ok_def FuncState.defs)
  moreover have "visible ?g = visible f" using a l by (simp add: visible_def nth_append)
  ultimately show ?thesis by (simp add: same_scope_def levels_def)
qed

lemma yields_checklimit: "yields (luaY_checklimit ls fs v l m) (\<lambda>_. v \<le> l)"
  using yieldsD [OF yields_lexerror] by (auto simp: yields_def luaY_checklimit_def errorlimit_def)

lemma keeps_checklimit [kp]: "keeps (checklimit v l m)"
  unfolding checklimit_def by (rule keeps_onfs) (auto simp: yields_def sbind_eq_Inr_iff same_scope_refl)

lemma keeps_new_localvar [kp]:
  assumes "0 \<le> n" shows "keeps (new_localvar name n)"
  unfolding new_localvar_def
proof (rule keeps_onfs)
  fix ls fs assume f: "func_ok fs"
  have "same_scope fs g" if l: "luaY_checklimit ls fs (nactvar fs + n + 1) LUAI_MAXVARS ''local variables'' = Inr u"
    and r: "registerlocalvar fs name = Inr (j, h)" and s: "set_actvar h (nactvar h + n) j = Inr g" for u j h g
  proof -
    have "nactvar fs + n + 1 \<le> LUAI_MAXVARS" by (rule yieldsD [OF yields_checklimit l])
    then show ?thesis using new_var [OF f, of "nactvar fs + n"] r s assms by (auto simp: registerlocalvar_def set_actvar_def split: if_splits)
  qed
  then show "yields (sbind (luaY_checklimit ls fs (nactvar fs + n + 1) LUAI_MAXVARS ''local variables'') (\<lambda>_.
      sbind (registerlocalvar fs name) (\<lambda>(j, fs). sbind (set_actvar fs (nactvar fs + n) j) (\<lambda>fs. Inr ((), fs)))))
    (\<lambda>r. same_scope fs (snd r))"
    by (auto simp: yields_def sbind_eq_Inr_iff)
qed

section \<open>Blocks\<close>

lemma same_scope_bl:
  assumes "func_ok f" "map bl_nactvar bls = levels f" shows "same_scope f (f\<lparr>f_bl := bls\<rparr>)"
  using assms by (auto simp: same_scope_def func_ok_def vars_ok_def levels_def params_ok_def code_ok_def FuncState.defs visible_def)

lemma visible_bl [simp]: "visible (f\<lparr>f_bl := bls\<rparr>) = visible f" by (simp add: visible_def)

lemma enter_ok:
  assumes "func_ok f"
  shows "func_ok (f\<lparr>f_bl := \<lparr>breaklist = j, bl_nactvar = nactvar f, bl_upval = u, isbreakable = b\<rparr> # f_bl f\<rparr>)"
  using assms by (auto simp: func_ok_def vars_ok_def levels_def params_ok_def code_ok_def FuncState.defs)

lemma enter_Same: "trip (Same s0) (enterblock b) (Inside 1 s0)"
proof -
  have "inside 1 f (g\<lparr>f_bl := \<lparr>breaklist = NO_JUMP, bl_nactvar = nactvar g, bl_upval = False, isbreakable = b\<rparr> # f_bl g\<rparr>)"
    if "same_scope f g" "func_ok f" for f g
  proof -
    have "nactvar g = nactvar f" using that nactvar_visible [of f] nactvar_visible [of g] by (simp add: same_scope_def)
    then show ?thesis using that enter_ok [of g] by (auto simp: inside_def same_scope_def levels_def intro: exI [of _ "[nactvar f]"])
  qed
  then show ?thesis
    by (auto simp: trip_def enterblock_def fsset_def onfs_def lexv_def sbind_eq_Inr_iff Same_def Inside_def state_ok_def list_all2_Cons2 split: list.splits)
qed

lemma enter_Inside: "trip (Inside (Suc k) s0) (enterblock b) (Inside (Suc (Suc k)) s0)"
proof -
  have "inside (Suc (Suc k)) f (g\<lparr>f_bl := \<lparr>breaklist = NO_JUMP, bl_nactvar = nactvar g, bl_upval = False, isbreakable = b\<rparr> # f_bl g\<rparr>)"
    if i: "inside (Suc k) f g" for f g
  proof -
    obtain ns where "length ns = Suc k" "levels g = ns @ levels f" "last ns = nactvar f" using i by (auto simp: inside_def)
    then show ?thesis using i enter_ok [of g] by (auto simp: inside_def levels_def intro: exI [of _ "nactvar g # ns"])
  qed
  then show ?thesis
    by (auto simp: trip_def enterblock_def fsset_def onfs_def lexv_def sbind_eq_Inr_iff Inside_def split: list.splits)
qed

text \<open>The first step of \<open>leaveblock\<close>.\<close>

definition pop_block :: "('r, BlockCnt) rule" where
  "pop_block = onfs (\<lambda>ls fs. case f_bl fs of
     [] \<Rightarrow> Inl (CFault NullDeref)
   | bl # bls \<Rightarrow> sbind (removevars (fs\<lparr>f_bl := bls\<rparr>) (bl_nactvar bl)) (\<lambda>fs. Inr (bl, fs)))"

lemma pop_ok:
  assumes f: "func_ok f" "f_bl f = bl # bls" "removevars (f\<lparr>f_bl := bls\<rparr>) (bl_nactvar bl) = Inr g"
  shows "func_ok g \<and> visible g = take (nat (bl_nactvar bl)) (visible f) \<and> levels g = map bl_nactvar bls"
  by (rule removevars_ok [OF f(1,3)])
    (use f(1,2) in \<open>auto simp: func_ok_def vars_ok_def levels_def suffix_def\<close>)

lemma pop_Same:
  assumes i: "inside 1 f0 f" and f: "f_bl f = bl # bls" "removevars (f\<lparr>f_bl := bls\<rparr>) (bl_nactvar bl) = Inr g" and o: "func_ok f0"
  shows "same_scope f0 g"
proof -
  have p: "func_ok g \<and> visible g = take (nat (bl_nactvar bl)) (visible f) \<and> levels g = map bl_nactvar bls"
    by (rule pop_ok [OF _ f]) (use i in \<open>simp add: inside_def\<close>)
  have l: "bl_nactvar bl = nactvar f0" "map bl_nactvar bls = levels f0"
    using i f(1) by (auto simp: inside_def levels_def Suc_length_conv length_Suc_conv)
  then have "nat (bl_nactvar bl) = length (visible f0)" using nactvar_visible [OF o] by simp
  then show ?thesis using p l(2) i by (auto simp: same_scope_def inside_def prefix_def)
qed

lemma pop_Inside:
  assumes i: "inside (Suc (Suc k)) f0 f" and f: "f_bl f = bl # bls" "removevars (f\<lparr>f_bl := bls\<rparr>) (bl_nactvar bl) = Inr g" and o: "func_ok f0"
  shows "inside (Suc k) f0 g"
proof -
  have p: "func_ok g \<and> visible g = take (nat (bl_nactvar bl)) (visible f) \<and> levels g = map bl_nactvar bls"
    by (rule pop_ok [OF _ f]) (use i in \<open>simp add: inside_def\<close>)
  obtain ns where ns: "length ns = Suc (Suc k)" "levels f = ns @ levels f0" "last ns = nactvar f0" using i by (auto simp: inside_def)
  then obtain ms where m: "ns = bl_nactvar bl # ms" "map bl_nactvar bls = ms @ levels f0"
    using f(1) by (cases ns) (auto simp: levels_def)
  then have "ms \<noteq> []" using ns(1) by auto
  with m have ms: "ns = bl_nactvar bl # ms" "ms \<noteq> []" "map bl_nactvar bls = ms @ levels f0" by simp_all
  have "nactvar f0 \<in> set ms" using last_in_set [OF ms(2)] ns(3) ms(1,2) by (metis last_ConsR)
  then have "nactvar f0 \<le> bl_nactvar bl" using i ns ms by (auto simp: inside_def func_ok_def vars_ok_def)
  then have "length (visible f0) \<le> nat (bl_nactvar bl)" using nactvar_visible [OF o] by simp
  then have "prefix (visible f0) (visible g)" using p i by (auto simp: inside_def prefix_def)
  then show ?thesis using p ms ns by (auto simp: inside_def intro: exI [of _ ms])
qed

lemma trip_pop: "trip (Inside 1 s0) pop_block (Same s0)" "trip (Inside (Suc (Suc k)) s0) pop_block (Inside (Suc k) s0)"
  using pop_Same pop_Inside
  by (fastforce simp: trip_def pop_block_def onfs_def lexv_def sbind_eq_Inr_iff Same_def Inside_def state_ok_def neq_Nil_conv split: list.splits)+

lemma leaveblock_pop:
  "leaveblock = pbind pop_block (\<lambda>bl.
    pseq (if bl_upval bl then emit OP_CLOSE (bl_nactvar bl) 0 0 else preturn ()) (
    pseq (fsset (\<lambda>fs. fs\<lparr>freereg := nactvar fs\<rparr>))
      (codes (\<lambda>fs. luaK_patchtohere fs (breaklist bl)))))"
  by (simp add: leaveblock_def pop_block_def)

lemma same_scope_fields:
  "func_ok f \<Longrightarrow> same_scope f (f\<lparr>freereg := r\<rparr>)" "func_ok f \<Longrightarrow> same_scope f (f\<lparr>f_linedefined := l\<rparr>)"
  "func_ok f \<Longrightarrow> same_scope f (f\<lparr>f_lastlinedefined := l\<rparr>)"
  by (simp_all add: same_scope_def func_ok_def vars_ok_def levels_def params_ok_def code_ok_def FuncState.defs visible_def)

lemma keeps_fields [kp]:
  "keeps (fsset (\<lambda>fs. fs\<lparr>freereg := r fs\<rparr>))" "keeps (fsset (\<lambda>fs. fs\<lparr>f_linedefined := l\<rparr>))" "keeps (fsset (\<lambda>fs. fs\<lparr>f_lastlinedefined := l\<rparr>))"
  by (rule keeps_fsset, erule same_scope_fields)+

lemma leave_Same: "trip (Inside 1 s0) leaveblock (Same s0)"
  unfolding leaveblock_pop
  by (rule trip_pbind [OF trip_pop(1)]) ((rule trip_rules) | (rule trip_Same, rule kp))+

lemma leave_Inside: "trip (Inside (Suc (Suc k)) s0) leaveblock (Inside (Suc k) s0)"
  unfolding leaveblock_pop
  by (rule trip_pbind [OF trip_pop(2)]) ((rule trip_rules) | (rule trip_Inside, rule kp))+

text \<open>A rule inside a block of its own leaves the scope as it was.\<close>

lemma keeps_block: "extends ch \<Longrightarrow> keeps (block ch)"
  unfolding block_def
  by (rule keepsI) (rule trip_pseq [OF enter_Same], rule trip_pseq, erule trip_extends, simp add: leave_Same [simplified])

lemma keeps_enterlevel [kp]: "keeps enterlevel"
  using yieldsD [OF yields_lexerror]
  by (auto simp: keeps_def enterlevel_def Same_def state_ok_def scopes_refl split: if_splits)

lemma keeps_leavelevel [kp]: "keeps leavelevel"
  by (auto simp: keeps_def leavelevel_def Same_def state_ok_def scopes_refl)

section \<open>Tokens, upvalues and names\<close>

lemma keeps_testnext [kp]: "keeps (testnext E c)"
  unfolding testnext_def by (rule keepsI) ((rule trip_rules) | (rule trip_Same, rule kp))+

lemma keeps_check_token [kp]: "keeps (check_token c)"
  unfolding check_token_def by (rule keepsI) ((rule trip_rules) | (rule trip_Same, rule kp))+

lemma keeps_checknext [kp]: "keeps (checknext E c)"
  unfolding checknext_def by (rule keepsI) ((rule trip_rules) | (rule trip_Same, rule kp))+

lemma keeps_check_match [kp]: "keeps (check_match E a b c)"
  unfolding check_match_def by (rule keepsI) ((rule trip_rules) | (rule trip_Same, rule kp))+

lemma keeps_str_checkname [kp]: "keeps (str_checkname E)"
  unfolding str_checkname_def by (rule keepsI) ((rule trip_rules) | (rule trip_Same, rule kp))+

lemma keeps_codestring [kp]: "keeps (codestring E n)"
  unfolding codestring_def by (rule keepsI) ((rule trip_rules) | (rule trip_Same, rule kp))+

lemma keeps_checkname [kp]: "keeps (checkname E)"
  unfolding checkname_def by (rule keepsI) ((rule trip_rules) | (rule trip_Same, rule kp))+

lemma keeps_new_localvarliteral [kp]: "0 \<le> n \<Longrightarrow> keeps (new_localvarliteral E v n)"
  unfolding new_localvarliteral_def by (rule keepsI) ((rule trip_rules) | (rule trip_Same, rule kp) | assumption)+

lemma levels_mark: "map bl_nactvar (mark_block l bls) = map bl_nactvar bls"
  by (induction l bls rule: mark_block.induct) simp_all

lemma indexupvalue_scope:
  assumes "func_ok fs" "indexupvalue ls fs name v = Inr (i, gs)"
  shows "same_scope fs gs"
  using assms yieldsD [OF yields_checklimit [of ls fs "int (length (f_upvalues fs)) + 1" LUAI_MAXUPVALUES "''upvalues''"]]
  by (auto simp: indexupvalue_def sbind_eq_Inr_iff same_scope_def func_ok_def vars_ok_def params_ok_def levels_def code_ok_def FuncState.defs
      visible_def Let_def split: option.splits)

lemma singlevaraux_scope:
  "\<forall>f \<in> set fss. func_ok f \<Longrightarrow> singlevaraux ls fss name base = Inr (v, gss) \<Longrightarrow> list_all2 same_scope fss gss"
proof (induction ls fss name base arbitrary: v gss rule: singlevaraux.induct)
  case (2 ls fs fss name base)
  have f: "func_ok fs" "\<forall>f \<in> set fss. func_ok f" using "2.prems"(1) by simp_all
  obtain i where i: "searchvar fs name = Inr i" using "2.prems"(2) by (auto simp: sbind_eq_Inr_iff)
  show ?case
  proof (cases "0 \<le> i")
    case True
    have "same_scope fs (markupval i fs)" by (simp add: markupval_def same_scope_bl [OF f(1)] levels_mark levels_def)
    then show ?thesis using True "2.prems"(2) i same_scope_refl [OF f(1)] scopes_refl [OF f(2)] by auto
  next
    case False
    then obtain w hss where w: "singlevaraux ls fss name False = Inr (w, hss)" using "2.prems"(2) i by (auto simp: sbind_eq_Inr_iff)
    have "list_all2 same_scope fss hss" by (rule "2.IH" [OF i False f(2) w])
    then show ?thesis using "2.prems"(2) i False w indexupvalue_scope [OF f(1)] same_scope_refl [OF f(1)] scopes_refl [OF f(2)]
      by (auto simp: sbind_eq_Inr_iff split: if_splits)
  qed
qed simp

lemma keeps_singlevaraux: "keeps (lexv (\<lambda>ls. sbind (singlevaraux ls (lfs ls) name base) (\<lambda>(var, fss). Inr (var, ls\<lparr>lfs := fss\<rparr>))))"
  using singlevaraux_scope by (fastforce simp: keeps_def lexv_def sbind_eq_Inr_iff Same_def state_ok_def)

lemma keeps_singlevar [kp]: "keeps (singlevar E)"
  unfolding singlevar_def by (rule keepsI) ((rule trip_rules) | (rule trip_Same, rule kp keeps_singlevaraux))+

lemma keeps_adjust_assign [kp]: "keeps (adjust_assign E a b e)"
  unfolding adjust_assign_def Let_def
  by (rule keepsI) ((rule trip_rules) | (rule trip_Same, rule kp)
    | (rule trip_Same, rule keeps_codes, (rule cf_first | rule cf yields_intro cframe_refl | assumption | simp add: split_beta)+))+

section \<open>Parameters and functions\<close>

text \<open>The fields that are set up before the body of a function is read.\<close>

definition header :: "ParFunc \<Rightarrow> int \<times> byte \<times> byte" where
  "header f = (freereg f, f_numparams f, f_is_vararg f)"

definition quiet :: "('r, 'a) rule \<Rightarrow> bool" where
  "quiet m = (\<forall>s x s'. m s = Inr (x, s') \<longrightarrow> funcs s \<noteq> [] \<longrightarrow> funcs s' \<noteq> [] \<and> header (hd (funcs s')) = header (hd (funcs s)))"

definition Fresh :: "byte set \<Rightarrow> 'r ParState \<Rightarrow> 'r ParState \<Rightarrow> bool" where
  "Fresh A s0 s \<longleftrightarrow> Inside 0 s0 s \<and> (\<exists>va \<in> A. header (hd (funcs s)) = (0, 0, va))"

lemma trip_Fresh: "extends m \<Longrightarrow> quiet m \<Longrightarrow> trip (Fresh A s0) m (Fresh A s0)"
  using trip_extends [of m 0 s0] unfolding trip_def Fresh_def quiet_def Inside_def
  by (metis (no_types, lifting))

lemma extends_keeps: "keeps m \<Longrightarrow> extends m"
  by (rule extendsI) (rule trip_Inside)

lemma quiet_lexv: "(\<And>ls. yields (f ls) (\<lambda>r. lframe ls (snd r))) \<Longrightarrow> quiet (lexv f)"
  by (fastforce simp: quiet_def lexv_def sbind_eq_Inr_iff yields_def lframe_def neq_Nil_conv list_all2_Cons1 same_but_h_def header_def)

lemma quiet_lexs: "(\<And>ls. yields (f ls) (lframe ls)) \<Longrightarrow> quiet (lexs f)"
  unfolding lexs_def by (rule quiet_lexv) (rule yields_sbind, assumption, simp add: yields_def)

lemma quiet_pbind: "quiet m \<Longrightarrow> (\<And>x. quiet (k x)) \<Longrightarrow> quiet (pbind m k)"
  unfolding quiet_def pbind_Inr by metis

lemma quiet_pseq: "quiet m \<Longrightarrow> quiet k \<Longrightarrow> quiet (pseq m k)"
  unfolding pseq_def by (rule quiet_pbind)

lemma quiet_base:
  "quiet (preturn x)" "quiet (pget f)" "quiet (plift g)" "quiet (syntaxerror e)" "quiet (error_expected t)"
  by (auto simp: quiet_def preturn_def pget_def plift_def syntaxerror_def error_expected_def sbind_eq_Inr_iff)

lemma quiet_if: "quiet m \<Longrightarrow> quiet n \<Longrightarrow> quiet (if b then m else n)" by simp

lemma quiet_onfs: "(\<And>ls fs. yields (f ls fs) (\<lambda>r. header (snd r) = header fs)) \<Longrightarrow> quiet (onfs f)"
  by (fastforce simp: quiet_def onfs_def lexv_def sbind_eq_Inr_iff yields_def split: list.splits)

lemma quiet_pnext: "quiet (pnext E)"
  unfolding pnext_def by (rule quiet_lexs, rule lf, rule lframe_refl)

lemma quiet_newstring: "quiet (lexv (luaX_newstring E v))"
  by (rule quiet_lexv, rule lf, rule lframe_refl)

lemma quiet_new_localvar: "quiet (new_localvar v n)"
  unfolding new_localvar_def
  by (rule quiet_onfs) (auto simp: yields_def sbind_eq_Inr_iff registerlocalvar_def set_actvar_def header_def split: if_splits)

lemma quiet_adjustlocalvars: "quiet (adjustlocalvars n)"
proof -
  have "header g = header f" if "start_vars k (f\<lparr>nactvar := w\<rparr>) = Inr g" for f g k w
    using start_vars_ok [OF that] by (auto simp: renamed_def header_def)
  then show ?thesis unfolding adjustlocalvars_def by (intro quiet_onfs) (auto simp: yields_def sbind_eq_Inr_iff)
qed

lemma quiet_is_vararg: "quiet is_vararg" "quiet (fsget f)"
  by (simp_all add: is_vararg_def fsget_def quiet_onfs yields_def)

lemma quiet_linedefined: "quiet (fsset (\<lambda>fs. fs\<lparr>f_linedefined := l\<rparr>))"
  by (simp add: fsset_def quiet_onfs yields_def header_def)

lemmas quiet_rules = quiet_base quiet_if quiet_pnext quiet_newstring quiet_new_localvar quiet_adjustlocalvars quiet_is_vararg quiet_linedefined
  quiet_pseq quiet_pbind

lemma quiet_tokens: "quiet (testnext E c)" "quiet (check_token c)" "quiet (checknext E c)" "quiet (str_checkname E)"
    "quiet (new_localvarliteral E v n)" "quiet (incr i)"
  unfolding testnext_def check_token_def checknext_def str_checkname_def new_localvarliteral_def incr_def by (rule quiet_rules)+

text \<open>Marking a function as one of a variable number of arguments.\<close>

lemma set_vararg_Fresh:
  assumes "\<forall>v \<in> A. g v \<in> B" "\<forall>b \<in> B. b AND VARARG_NEEDSARG \<noteq> 0 \<longrightarrow> b AND VARARG_HASARG \<noteq> 0"
  shows "trip (Fresh A s0) (set_vararg g) (Fresh B s0)"
proof -
  have h: "uint (b AND VARARG_HASARG) \<le> 2" for b :: byte
    using word_and_le1 [of b VARARG_HASARG] by (simp add: VARARG_HASARG_def word_le_def)
  have "func_ok (f\<lparr>f_is_vararg := b\<rparr>)" if "func_ok f" "f_numparams f = 0" "b \<in> B" for f b
    using that assms(2) h [of b] by (auto simp: func_ok_def vars_ok_def params_ok_def levels_def code_ok_def FuncState.defs)
  moreover have "visible (f\<lparr>f_is_vararg := b\<rparr>) = visible f" "levels (f\<lparr>f_is_vararg := b\<rparr>) = levels f" for f b
    by (simp_all add: visible_def levels_def)
  ultimately show ?thesis using assms(1)
    by (fastforce simp: trip_def set_vararg_def fsset_def onfs_def lexv_def sbind_eq_Inr_iff Fresh_def Inside_def inside_def header_def split: list.splits)
qed

lemma fsget_Inr: "fsget f s = Inr (x, s') \<longleftrightarrow> s' = s \<and> funcs s \<noteq> [] \<and> x = f (hd (funcs s))"
proof -
  have "s\<lparr>pls := (pls s)\<lparr>lfs := funcs s\<rparr>\<rparr> = s" by simp
  then show ?thesis by (cases "funcs s") (auto simp: fsget_def onfs_def lexv_def)
qed

lemma trip_mono: "trip P m Q \<Longrightarrow> (\<And>s. P' s \<Longrightarrow> P s) \<Longrightarrow> (\<And>s. Q s \<Longrightarrow> Q' s) \<Longrightarrow> trip P' m Q'"
  unfolding trip_def by blast

lemma Fresh_mono: "Fresh A s0 s \<Longrightarrow> A \<subseteq> B \<Longrightarrow> Fresh B s0 s"
  by (auto simp: Fresh_def)

lemma param_Fresh:
  fixes s0 :: "'r ParState"
  assumes "0 \<le> n" shows "trip (Fresh {0} s0) (param E n) (Fresh {0, 7} s0)"
proof -
  have q: "trip (Fresh {0} s0) m (Fresh {0} s0)" if "keeps m" "quiet m" for m :: "('r, 'b) rule"
    by (rule trip_Fresh [OF extends_keeps [OF that(1)] that(2)])
  have name: "trip (Fresh {0} s0) (pbind (str_checkname E) (\<lambda>ts. new_localvar ts n)) (Fresh {0} s0)"
    by (rule trip_pbind) (rule q kp quiet_tokens quiet_rules assms)+
  have flags: "trip (Fresh {0} s0) (set_vararg (\<lambda>_. VARARG_HASARG OR VARARG_NEEDSARG)) (Fresh {5} s0)"
    "trip (Fresh {5} s0) (set_vararg (\<lambda>v. v OR VARARG_ISVARARG)) (Fresh {7} s0)"
    by (rule set_vararg_Fresh; simp add: VARARG_HASARG_def VARARG_NEEDSARG_def VARARG_ISVARARG_def)+
  have dots: "trip (Fresh {0} s0) (pseq (pnext E) (pseq (new_localvarliteral E ''arg'' n)
      (pseq (set_vararg (\<lambda>_. VARARG_HASARG OR VARARG_NEEDSARG)) (set_vararg (\<lambda>v. v OR VARARG_ISVARARG))))) (Fresh {7} s0)"
    by (rule trip_pseq, rule q, rule kp, rule quiet_rules, rule trip_pseq, rule q, rule kp, rule assms, rule quiet_tokens,
        rule trip_pseq [OF flags])
  show ?thesis unfolding param_def
    by (rule trip_mono [OF name] trip_mono [OF dots] | rule trip_rules | assumption | (erule Fresh_mono, simp))+
qed

lemma parlist_loop_Fresh:
  "parlist_loop n E k s = Inr (v, s') \<Longrightarrow> Fresh {0} s0 s \<Longrightarrow> 0 \<le> k \<Longrightarrow> Fresh {0, 7} s0 s' \<and> 1 \<le> v"
proof (induction n arbitrary: k s)
  case (Suc n)
  obtain s1 where s1: "param E k s = Inr ((), s1)" and r: "pbind (incr k) (\<lambda>nparams. pbind is_vararg (\<lambda>va.
    pbind (if va = 0 then testnext E 44 else preturn False) (\<lambda>b. if b then parlist_loop n E nparams else preturn nparams))) s1 = Inr (v, s')"
    using Suc.prems(1) by (auto simp: pseq_def pbind_Inr)
  have f1: "Fresh {0, 7} s0 s1" using param_Fresh [OF Suc.prems(3)] s1 Suc.prems(2) unfolding trip_def by blast
  let ?va = "f_is_vararg (hd (funcs s1))"
  have k: "incr k s1 = Inr (k + 1, s1)" "pbind (if ?va = 0 then testnext E 44 else preturn False)
      (\<lambda>b. if b then parlist_loop n E (k + 1) else preturn (k + 1)) s1 = Inr (v, s')"
    using r by (auto simp: pbind_Inr incr_def plift_def sbind_eq_Inr_iff chk32_def is_vararg_def fsget_Inr lift_def split: if_splits sum.splits)
  show ?case
  proof (cases "?va = 0")
    case False
    then show ?thesis using k(2) f1 Suc.prems(3) by (auto simp: pbind_Inr preturn_def)
  next
    case True
    then have "Fresh {0} s0 s1" using f1 by (auto simp: Fresh_def header_def)
    moreover obtain b s2 where s2: "testnext E 44 s1 = Inr (b, s2)" and l: "(if b then parlist_loop n E (k + 1) else preturn (k + 1)) s2 = Inr (v, s')"
      using True k(2) by (auto simp: pbind_Inr)
    ultimately have "Fresh {0} s0 s2"
      using trip_Fresh [OF extends_keeps [OF keeps_testnext] quiet_tokens(1), of "{0}" s0 E 44] unfolding trip_def by blast
    moreover from this have "Fresh {0, 7} s0 s2" by (rule Fresh_mono) simp
    ultimately show ?thesis using l Suc.IH [of "k + 1" s2] Suc.prems(3) by (cases b) (simp_all add: preturn_def)
  qed
qed (simp add: plift_def)

lemma yields_room: "yields (luaK_reserveregs fs n) (\<lambda>g. freereg fs + n \<le> maxstacksize g)"
  by (auto simp: yields_def luaK_reserveregs_def luaK_checkstack_def sbind_eq_Inr_iff Let_def split: if_splits)

text \<open>Registers for the parameters.\<close>

lemma params_reserved:
  assumes f: "func_ok f" "header f = (0, 0, va)" "va \<in> {0, 7}" "va \<noteq> 0 \<longrightarrow> 1 \<le> nactvar f"
    and n: "code_step (\<lambda>fs. sbind (luaK_reserveregs fs (nactvar f)) (\<lambda>fs. Inr ((), fs))) ls
      (f\<lparr>f_numparams := word_of_int (nactvar f - uint (va AND VARARG_HASARG))\<rparr>) = Inr (u, g)"
  shows "same_scope f g"
proof -
  define np :: byte where "np = word_of_int (nactvar f - uint (va AND VARARG_HASARG))"
  let ?f = "f\<lparr>f_numparams := np\<rparr>"
  let ?t = "(FuncState.truncate ?f)\<lparr>lastline := lxlastline ls\<rparr>"
  obtain h where h: "luaK_reserveregs ?t (nactvar f) = Inr h" "g = FuncState.extend h (FuncState.more ?f)"
    using n yieldsD [OF yields_syntaxerror, of ls] unfolding np_def [symmetric] by (auto simp: code_step_def sbind_eq_Inr_iff split: sum.splits lua_error.splits if_splits)
  have c: "cframe ?t h" by (rule yieldsD [OF cf_reserveregs [OF cframe_refl] h(1)])
  have "freereg ?t = freereg f" by (simp add: FuncState.defs)
  then have m: "nactvar f \<le> maxstacksize h" using yieldsD [OF yields_room h(1)] f(2) by (simp add: header_def)
  have b: "0 \<le> nactvar f - uint (va AND VARARG_HASARG)" "nactvar f \<le> 200"
    using f by (auto simp: VARARG_HASARG_def func_ok_def vars_ok_def LUAI_MAXVARS_def)
  have "uint np = (nactvar f - uint (va AND VARARG_HASARG)) mod 256" unfolding np_def uint_word_of_int by simp
  also have "\<dots> = nactvar f - uint (va AND VARARG_HASARG)" by (rule mod_pos_pos_trivial) (use b uint_ge_0 [of "va AND VARARG_HASARG"] in linarith)+
  finally have "uint (f_numparams ?f) = nactvar f - uint (va AND VARARG_HASARG)" by simp
  then have "params_ok g" using f(2,3) m h(2) by (auto simp: params_ok_def extend_truncate header_def VARARG_NEEDSARG_def VARARG_HASARG_def)
  moreover have "?t = (FuncState.truncate f)\<lparr>lastline := lxlastline ls\<rparr>" by (simp add: FuncState.defs)
  ultimately show ?thesis using f(1) c h(2)
    by (auto simp: same_scope_def func_ok_def vars_ok_def levels_def visible_def extend_truncate cframe_def)
qed

lemma adjustlocalvars_nactvar:
  assumes "adjustlocalvars n s = Inr (u, s')" "state_ok s" "0 \<le> n"
  shows "n \<le> nactvar (hd (funcs s'))"
proof -
  obtain f fss g where f: "funcs s = f # fss" "start_vars (nat n) (f\<lparr>nactvar := (nactvar f + n) mod 256\<rparr>) = Inr g" "funcs s' = g # fss"
    using assms(1) by (auto simp: adjustlocalvars_def onfs_def lexv_def sbind_eq_Inr_iff split: list.splits)
  have "func_ok f" using assms(2) f(1) by (simp add: state_ok_def)
  then show ?thesis using more_vars [OF _ assms(3) f(2)] f(3) by (simp add: func_ok_def vars_ok_def)
qed

lemma codes_Inr: "codes f s = Inr (u, s') \<longleftrightarrow> (\<exists>fs fss g. funcs s = fs # fss
    \<and> code_step (\<lambda>fs. sbind (f fs) (\<lambda>fs. Inr ((), fs))) (pls s) fs = Inr ((), g) \<and> s' = s\<lparr>pls := (pls s)\<lparr>lfs := g # fss\<rparr>\<rparr>)"
  by (auto simp: codes_def code_def onfs_def lexv_def sbind_eq_Inr_iff split: list.splits)

lemma fsset_Inr: "fsset f s = Inr (u, s') \<longleftrightarrow> (\<exists>fs fss. funcs s = fs # fss \<and> s' = s\<lparr>pls := (pls s)\<lparr>lfs := f fs # fss\<rparr>\<rparr>)"
  by (auto simp: fsset_def onfs_def lexv_def sbind_eq_Inr_iff split: list.splits)

lemma parlist_Inside: "trip (Fresh {0} s0) (parlist E) (Inside 0 s0)"
proof -
  have "Inside 0 s0 s'" if s: "Fresh {0} s0 s" and p: "parlist E s = Inr (u, s')" for s u s'
  proof -
    obtain s1 s2 s3 n where s1: "set_vararg (\<lambda>_. 0) s = Inr ((), s1)"
      and s2: "(if token (tok (pls s1)) \<noteq> 41 then parlist_loop (fuel E) E 0 else preturn 0) s1 = Inr (n, s2)"
      and s3: "adjustlocalvars n s2 = Inr ((), s3)"
      and r: "pseq (fsset (\<lambda>fs. fs\<lparr>f_numparams := word_of_int (nactvar fs - uint (f_is_vararg fs AND VARARG_HASARG))\<rparr>))
        (pbind (fsget nactvar) (\<lambda>n. reserveregs n)) s3 = Inr (u, s')"
      using p by (auto simp: parlist_def pseq_def pbind_Inr pget_def)
    have "trip (Fresh {0} s0) (set_vararg (\<lambda>_. 0)) (Fresh {0} s0)" by (rule set_vararg_Fresh) simp_all
    then have f1: "Fresh {0} s0 s1" using s s1 unfolding trip_def by blast
    have f2: "Fresh {0, 7} s0 s2 \<and> 1 \<le> n \<or> Fresh {0} s0 s2 \<and> n = 0"
      using s2 parlist_loop_Fresh [of "fuel E" E 0 s1 n s2 s0] f1 by (auto simp: preturn_def split: if_splits)
    then have f2': "Fresh {0, 7} s0 s2" "0 \<le> n" "state_ok s2" using Fresh_mono [of "{0}" s0 s2 "{0, 7}"] Inside_ok by (auto simp: Fresh_def)
    have f3: "Fresh {0, 7} s0 s3"
      using trip_Fresh [OF extends_adjustlocalvars [OF f2'(2)] quiet_adjustlocalvars] f2'(1) s3 unfolding trip_def by blast
    obtain f fss where f: "funcs s3 = f # fss" using f3 by (cases "funcs s3") (auto simp: Fresh_def Inside_def)
    have v: "header f = (0, 0, f_is_vararg f)" "f_is_vararg f \<in> {0, 7}" "func_ok f"
      using f3 f by (auto simp: Fresh_def header_def Inside_def inside_def)
    have na: "f_is_vararg f \<noteq> 0 \<longrightarrow> 1 \<le> nactvar f"
    proof (cases "n = 0")
      case True
      then have "Fresh {0} s0 s2" using f2 by auto
      then have "Fresh {0} s0 s3"
        using trip_Fresh [OF extends_adjustlocalvars [OF f2'(2)] quiet_adjustlocalvars] s3 unfolding trip_def by blast
      then show ?thesis using f by (auto simp: Fresh_def header_def)
    next
      case False
      then show ?thesis using adjustlocalvars_nactvar [OF s3 f2'(3,2)] f f2 by auto
    qed
    let ?f = "f\<lparr>f_numparams := word_of_int (nactvar f - uint (f_is_vararg f AND VARARG_HASARG))\<rparr>"
    let ?ls = "(pls s3)\<lparr>lfs := ?f # fss\<rparr>"
    obtain g where g: "code_step (\<lambda>fs. sbind (luaK_reserveregs fs (nactvar f)) (\<lambda>fs. Inr ((), fs))) ?ls ?f = Inr ((), g)" "funcs s' = g # fss"
      using r f by (auto simp: pseq_def pbind_Inr fsset_Inr fsget_Inr codes_Inr)
    have "same_scope f g" by (rule params_reserved [OF v(3,1,2) na g(1)])
    then have "Same s3 s'" using f3 f g(2) Inside_ok [of 0 s0 s3] scopes_refl [of fss] by (auto simp: Same_def Fresh_def state_ok_def)
    then show ?thesis using f3 Inside_Same by (auto simp: Fresh_def)
  qed
  then show ?thesis unfolding trip_def by blast
qed

end
