(* ===== verification/LScopeRules.thy ===== *)
theory LScopeRules
  imports LScope
begin

text \<open>
  Every rule of the grammar keeps the scope of names, and every function that is closed is a well-formed prototype.
\<close>

section \<open>Functions\<close>

lemma return_op: "GET_OPCODE (CREATE_ABC (opnum OP_RETURN) 0 1 0) = opnum OP_RETURN"
  by code_simp

lemma ret_emitted:
  assumes "luaK_ret f 0 0 = Inr g" "code_ok f"
  shows "code_ok g \<and> 0 < fpc g \<and> GET_OPCODE (fcode g ! (fpc g - 1)) = opnum OP_RETURN"
proof -
  obtain h where h: "dischargejpc f = Inr h" "g = h\<lparr>fcode := put (fcode h) (fpc h) (CREATE_ABC (opnum OP_RETURN) 0 1 0),
      flineinfo := put (flineinfo h) (fpc h) (lastline f), fpc := fpc h + 1\<rparr>"
    using assms(1) by (auto simp: luaK_ret_def luaK_codeABC_def luaK_code_def sbind_eq_Inr_iff split: if_splits)
  have "code_ok h" using yieldsD [OF cf_dischargejpc [OF cframe_refl] h(1)] assms(2) by (simp add: cframe_def)
  then show ?thesis using h(2) return_op by (simp add: code_ok_def put_length) (simp add: put_def nth_append)
qed

lemma closed_well_made:
  assumes f: "func_ok f" and r: "0 < fpc f" "GET_OPCODE (fcode f ! (fpc f - 1)) = opnum OP_RETURN"
  shows "well_made (proto_of f)"
proof -
  have c: "fpc f \<le> length (fcode f)" "length (flineinfo f) = length (fcode f)"
    using f by (simp_all add: func_ok_def code_ok_def FuncState.defs)
  have m: "uint (word_of_int (maxstacksize f) :: byte) = maxstacksize f"
    unfolding uint_word_of_int by (simp, rule mod_pos_pos_trivial) (use f in \<open>auto simp: func_ok_def MAXSTACK_def\<close>)
  have u: "int (length (f_upvalues f)) \<le> uint (word_of_nat (length (f_upvalues f)) :: byte)"
  proof -
    have "unat (word_of_nat (length (f_upvalues f)) :: byte) = length (f_upvalues f)"
      using f by (simp add: func_ok_def LUAI_MAXUPVALUES_def unsigned_of_nat take_bit_nat_eq_self)
    then show ?thesis by (metis of_nat_unat order_refl)
  qed
  have "code_at (proto_of f) (sizecode (proto_of f) - 1) = Inr (fcode f ! (fpc f - 1))"
    using c r(1) by (simp add: code_at_def rd_def proto_of_def)
  moreover have "f_is_vararg f AND VARARG_NEEDSARG = 0 \<or> f_is_vararg f AND VARARG_HASARG \<noteq> 0"
    using f by (auto simp: func_ok_def params_ok_def)
  ultimately have "precheck (proto_of f) = Inr (Some ())"
    using f r c m u by (simp add: precheck_def check_def proto_of_def func_ok_def params_ok_def is_op_def MAXSTACK_def)
  then show ?thesis using f by (simp add: proto_of_def func_ok_def)
qed

lemma anchor_scopes:
  assumes "anchor_token E s = Inr (u, s')" "\<forall>f \<in> set (funcs s). func_ok f"
  shows "list_all2 same_scope (funcs s) (funcs s')"
proof -
  define a :: "'a PLex \<Rightarrow> 'a PLex lres" where "a = (\<lambda>ls. if token (tok ls) = tk TK_NAME \<or> token (tok ls) = tk TK_STRING then
      (case seminfo (tok ls) of SemTs ts \<Rightarrow> sbind (luaX_newstring (plex E) ts ls) (\<lambda>(_, ls). Inr ls) | _ \<Rightarrow> Inl (CFault NullDeref))
    else Inr ls)"
  have y: "yields (a ls) (lframe ls)" for ls
    unfolding a_def
    by (rule yields_if, cases "seminfo (tok ls)", simp_all add: yields_Inl yields_Inr lframe_refl)
      (rule yields_sbind, rule lf_newstring, rule lframe_refl, simp add: split_beta yields_Inr)
  have "anchor_token E = lexs a" unfolding anchor_token_def a_def ..
  then have "a (pls s) = Inr (pls s')" using assms(1) by (auto simp: lexs_def lexv_def sbind_eq_Inr_iff)
  then show ?thesis using lframe_scopes [OF assms(2)] yieldsD [OF y] by simp
qed

text \<open>The function closed is a well-formed prototype, and the others are as they were.\<close>

lemma close_func_ok:
  assumes c: "close_func E s = Inr (fs, s')" and s: "state_ok s" "f_bl (hd (funcs s)) = []"
  shows "well_made (proto_of fs) \<and> list_all2 same_scope (tl (funcs s)) (funcs s')"
proof -
  obtain s1 where s1: "onfs (\<lambda>ls fs. sbind (removevars fs 0) (\<lambda>fs. Inr ((), fs))) s = Inr ((), s1)"
    and c1: "pseq (codes (\<lambda>fs. luaK_ret fs 0 0)) (pbind (lexv (\<lambda>ls. case lfs ls of
        [] \<Rightarrow> Inl (CFault NullDeref) | fs # fss \<Rightarrow> Inr (fs, ls\<lparr>lfs := fss\<rparr>))) (\<lambda>fs. pseq (anchor_token E) (preturn fs))) s1 = Inr (fs, s')"
    using c by (auto simp: close_func_def pseq_def pbind_Inr)
  obtain s2 where s2: "codes (\<lambda>fs. luaK_ret fs 0 0) s1 = Inr ((), s2)"
    and c2: "pbind (lexv (\<lambda>ls. case lfs ls of
        [] \<Rightarrow> Inl (CFault NullDeref) | fs # fss \<Rightarrow> Inr (fs, ls\<lparr>lfs := fss\<rparr>))) (\<lambda>fs. pseq (anchor_token E) (preturn fs)) s2 = Inr (fs, s')"
    using c1 by (auto simp: pseq_def pbind_Inr)
  obtain fss2 where s3: "funcs s2 = fs # fss2" and a: "anchor_token E (s2\<lparr>pls := (pls s2)\<lparr>lfs := fss2\<rparr>\<rparr>) = Inr ((), s')"
    using c2 by (cases "funcs s2") (auto simp: pseq_def pbind_Inr preturn_def lexv_def)
  obtain f fss where f: "funcs s = f # fss" using s(1) by (cases "funcs s") (auto simp: state_ok_def)
  have fo: "func_ok f" "f_bl f = []" "\<forall>f \<in> set fss. func_ok f" using s f by (auto simp: state_ok_def)
  obtain g where g: "removevars f 0 = Inr g" "funcs s1 = g # fss"
    using s1 f by (auto simp: onfs_def lexv_def sbind_eq_Inr_iff)
  have "f\<lparr>f_bl := []\<rparr> = f" "0 \<le> nactvar f" using fo(1,2) by (simp_all add: func_ok_def vars_ok_def)
  then have "func_ok g" using removevars_ok [OF fo(1), of "[]" 0 g] g(1) by simp
  moreover obtain h where h: "code_step (\<lambda>fs. sbind (luaK_ret fs 0 0) (\<lambda>fs. Inr ((), fs))) (pls s1) g = Inr ((), h)" "funcs s2 = h # fss"
    using s2 g(2) by (auto simp: codes_Inr)
  moreover obtain r where r: "luaK_ret ((FuncState.truncate g)\<lparr>lastline := lxlastline (pls s1)\<rparr>) 0 0 = Inr r" "h = FuncState.extend r (FuncState.more g)"
    using h(1) yieldsD [OF yields_syntaxerror, of "pls s1"] by (auto simp: code_step_def sbind_eq_Inr_iff split: sum.splits lua_error.splits if_splits)
  ultimately have "func_ok h" using cframe_scope [of g] yieldsD [OF cf_ret [OF cframe_refl] r(1)] by (auto simp: same_scope_def)
  moreover have "code_ok r \<and> 0 < fpc r \<and> GET_OPCODE (fcode r ! (fpc r - 1)) = opnum OP_RETURN"
    by (rule ret_emitted [OF r(1)]) (use \<open>func_ok g\<close> in \<open>simp add: func_ok_def\<close>)
  moreover have "fpc h = fpc r" "fcode h = fcode r" using r(2) by (simp_all add: FuncState.defs)
  ultimately have "well_made (proto_of h)" using closed_well_made [of h] by simp
  moreover have "fs = h" "fss2 = fss" using s3 h(2) by simp_all
  ultimately show ?thesis using anchor_scopes [OF a] fo(3) f by simp
qed

lemma open_func_ok:
  assumes "open_func s = Inr (u, s')" "\<forall>f \<in> set (funcs s). func_ok f"
  shows "state_ok s' \<and> tl (funcs s') = funcs s \<and> levels (hd (funcs s')) = [] \<and> Fresh {0} s' s'"
proof -
  obtain f where f: "funcs s' = f # funcs s" "f_bl f = []" "f_p f = []" "header f = (0, 0, 0)" "nactvar f = 0" "maxstacksize f = 2"
    "length (f_actvar f) = nat LUAI_MAXVARS" "f_upvalues f = []" "FuncState.truncate f = FuncState.truncate f\<lparr>fcode := [], flineinfo := [], fpc := 0\<rparr>"
    using assms(1) by (auto simp: open_func_def lexs_def lexv_def sbind_eq_Inr_iff header_def FuncState.defs)
  have "code_ok (FuncState.truncate f)" by (subst f(9)) (simp add: code_ok_def)
  then have "func_ok f" using f by (simp add: func_ok_def vars_ok_def levels_def params_ok_def header_def MAXSTACK_def LUAI_MAXVARS_def)
  then have "state_ok s'" using f(1) assms(2) by (simp add: state_ok_def)
  then show ?thesis using f Inside_refl by (auto simp: Fresh_def levels_def)
qed

lemma pushclosure_keeps:
  assumes "well_made (proto_of f)" shows "keeps (pushclosure f)"
proof -
  have p: "keeps (onfs (\<lambda>ls fs. if int (length (f_p fs)) \<ge> MAXARG_Bx then raise ''constant table overflow''
      else Inr (int (length (f_p fs)), fs\<lparr>f_p := f_p fs @ [proto_of f]\<rparr>)))"
    by (rule keeps_onfs) (use assms in \<open>auto simp: yields_def same_scope_def func_ok_def vars_ok_def levels_def params_ok_def code_ok_def FuncState.defs visible_def\<close>)
  have u: "keeps (emit_upvalues us)" for us
  proof (induction us)
    case (Cons x us)
    then show ?case by (cases x) (simp only: emit_upvalues.simps, rule keepsI, (rule trip_rules | (rule trip_Same, (rule kp Cons.IH)))+)
  qed (simp add: keepsI trip_preturn)
  show ?thesis unfolding pushclosure_def
    by (rule keepsI) (rule trip_pbind, rule trip_Same, rule p, (rule trip_rules | (rule trip_Same, rule kp u))+)
qed

text \<open>Rules for blocks with the number of blocks as a successor.\<close>

lemma enter_one: "trip (Same s0) (enterblock b) (Inside (Suc 0) s0)"
  using enter_Same by simp

lemma leave_one: "trip (Inside (Suc 0) s0) leaveblock (Same s0)"
  using leave_Same by simp

lemmas scope_rules = trip_preturn trip_pget trip_plift trip_fault trip_syntaxerror trip_error_expected
  enter_one enter_Inside leave_one leave_Inside trip_if trip_option trip_pseq trip_pbind

lemma body_keeps:
  assumes ch: "extends ch" shows "keeps (body E ch needself line)"
proof -
  have "Same s s'" if s: "state_ok s" and b: "body E ch needself line s = Inr (v, s')" for s v s'
  proof -
    let ?self = "if needself then pseq (new_localvarliteral E ''self'' 0) (adjustlocalvars 1) else preturn ()"
    let ?rest = "pseq (checknext E 41) (pseq ch (pbind pline (\<lambda>last. pseq (fsset (\<lambda>fs. fs\<lparr>f_lastlinedefined := last\<rparr>))
      (check_match E (tk TK_END) (tk TK_FUNCTION) line))))"
    obtain s1 where s1: "open_func s = Inr ((), s1)" using b by (auto simp: body_def pseq_def pbind_Inr)
    have o: "state_ok s1" "tl (funcs s1) = funcs s" "levels (hd (funcs s1)) = []" "Fresh {0} s1 s1"
      using open_func_ok [OF s1] s by (simp_all add: state_ok_def)
    have q: "trip (Fresh {0} s1) m (Fresh {0} s1)" if "extends m" "quiet m" for m :: "('a, unit) rule"
      by (rule trip_Fresh [OF that])
    have head: "trip (Fresh {0} s1) (pseq (fsset (\<lambda>fs. fs\<lparr>f_linedefined := line\<rparr>)) (pseq (checknext E 40) (pseq ?self (parlist E)))) (Inside 0 s1)"
      by (rule trip_pseq [OF q], rule extends_keeps, rule kp, rule quiet_rules, rule trip_pseq [OF q], rule extends_keeps, rule kp,
          rule quiet_tokens, rule trip_pseq [OF _ parlist_Inside], rule trip_if, rule trip_pseq [OF q],
          rule extends_keeps, rule kp, simp, rule quiet_tokens, rule q, rule kp, simp, rule quiet_rules, rule trip_preturn)
    have tail: "trip (Inside 0 s1) ?rest (Inside 0 s1)"
      by (rule scope_rules | (rule trip_Inside, rule kp) | (rule trip_extends, rule ch))+
    obtain s2 f s3 where s2: "pseq (pseq (fsset (\<lambda>fs. fs\<lparr>f_linedefined := line\<rparr>)) (pseq (checknext E 40) (pseq ?self (parlist E)))) ?rest s1 = Inr ((), s2)"
      and s3: "close_func E s2 = Inr (f, s3)" and p: "pushclosure f s3 = Inr (v, s')"
      using b s1 by (force simp: body_def pseq_def pbind_Inr pget_def)
    have i: "Inside 0 s1 s2" using trip_pseq [OF head tail] s2 o(4) unfolding trip_def by blast
    then have "f_bl (hd (funcs s2)) = []" "state_ok s2"
      using o(3) by (auto simp: Inside_def inside_def levels_def intro: Inside_ok [OF i])
    then have c: "well_made (proto_of f)" "list_all2 same_scope (tl (funcs s2)) (funcs s3)" using close_func_ok [OF s3] by simp_all
    have "list_all2 same_scope (funcs s) (tl (funcs s2))" using i o(2) by (simp add: Inside_def)
    then have "Same s s3" using c(2) s scopes_trans by (auto simp: Same_def)
    moreover have "Same s3 s'" using p pushclosure_keeps [OF c(1)] Same_ok [OF calculation] unfolding keeps_def by blast
    ultimately show ?thesis by (rule Same_trans)
  qed
  then show ?thesis by (simp add: keeps_def)
qed

section \<open>Expressions\<close>

lemma kg_exp2nextreg [kp]: "keeps (exp2nextreg E v)"
  unfolding exp2nextreg_def split_beta Let_def
  by (rule keepsI) (rule scope_rules | assumption | (rule trip_Same, (assumption | rule kp)))+

lemma kg_exp2anyreg [kp]: "keeps (exp2anyreg E v)"
  unfolding exp2anyreg_def split_beta Let_def
  by (rule keepsI) (rule scope_rules | assumption | (rule trip_Same, (assumption | rule kp)))+

lemma kg_exp2RK [kp]: "keeps (exp2RK E v)"
  unfolding exp2RK_def split_beta
  by (rule keeps_code) (rule cf_first | rule cf yields_intro cframe_refl | assumption | simp)+

lemma kg_indexed [kp]: "keeps (indexed E v key)"
  unfolding indexed_def split_beta Let_def
  by (rule keepsI) (rule scope_rules | assumption | (rule trip_Same, (assumption | rule kp)))+

lemma kg_storevar [kp]: "keeps (storevar E v e)"
  unfolding storevar_def split_beta
  by (rule keeps_codes) (rule cf_first | rule cf yields_intro cframe_refl | assumption | simp)+

lemma kg_setmultret [kp]: "keeps (setmultret e)"
  unfolding setmultret_def split_beta Let_def
  by (rule keepsI) (rule scope_rules | assumption | (rule trip_Same, (assumption | rule kp)))+

lemma kg_field [kp]: "keeps (field E v)"
  unfolding field_def split_beta Let_def
  by (rule keepsI) (rule scope_rules | assumption | (rule trip_Same, (assumption | rule kp)))+

lemma kg_yindex [kp]: "keeps ex \<Longrightarrow> keeps (yindex E ex)"
  unfolding yindex_def split_beta Let_def
  by (rule keepsI) (rule scope_rules | assumption | (rule trip_Same, (assumption | rule kp)))+

lemma kg_incr [kp]: "keeps (incr i)"
  unfolding incr_def split_beta Let_def
  by (rule keepsI) (rule scope_rules | assumption | (rule trip_Same, (assumption | rule kp)))+

lemma kg_recfield [kp]: "keeps ex \<Longrightarrow> keeps (recfield E ex cc)"
  unfolding recfield_def split_beta Let_def
  by (rule keepsI) (rule scope_rules | assumption | (rule trip_Same, (assumption | rule kp)))+

lemma kg_closelistfield [kp]: "keeps (closelistfield E cc)"
  unfolding closelistfield_def split_beta Let_def
  by (rule keepsI) (rule scope_rules | assumption | (rule trip_Same, (assumption | rule kp)))+

lemma kg_lastlistfield [kp]: "keeps (lastlistfield E cc)"
  unfolding lastlistfield_def split_beta Let_def
  by (rule keepsI) (rule scope_rules | assumption | (rule trip_Same, (assumption | rule kp)))+

lemma kg_listfield [kp]: "keeps ex \<Longrightarrow> keeps (listfield E ex cc)"
  unfolding listfield_def split_beta Let_def
  by (rule keepsI) (rule scope_rules | assumption | (rule trip_Same, (assumption | rule kp)))+

lemma kg_lookahead [kp]: "keeps (lexs (luaX_lookahead n E))" by (rule keeps_lookahead)

lemma kg_cons_item [kp]: "keeps ex \<Longrightarrow> keeps (cons_item E ex cc)"
  unfolding cons_item_def split_beta Let_def
  by (rule keepsI) (rule scope_rules | assumption | (rule trip_Same, (assumption | rule kp)))+

lemma kg_cons_loop [kp]: "keeps ex \<Longrightarrow> keeps (cons_loop n E ex cc)"
proof (induction n arbitrary: cc)
  case (Suc n)
  then show ?case unfolding cons_loop.simps split_beta Let_def
    by (intro keepsI) (rule scope_rules | assumption | (rule trip_Same, (assumption | rule kp Suc.IH)))+
qed (simp add: keepsI trip_plift)

lemma kg_constructor [kp]: "keeps ex \<Longrightarrow> keeps (constructor E ex)"
  unfolding constructor_def split_beta Let_def
  by (rule keepsI) (rule scope_rules | assumption | (rule trip_Same, (assumption | rule kp)))+

lemma kg_is_vararg [kp]: "keeps is_vararg" unfolding is_vararg_def by (rule kp)

lemma kg_explist_loop [kp]: "keeps ex \<Longrightarrow> keeps (explist_loop n E ex k v)"
proof (induction n arbitrary: k v)
  case (Suc n)
  then show ?case unfolding explist_loop.simps split_beta Let_def
    by (intro keepsI) (rule scope_rules | assumption | (rule trip_Same, (assumption | rule kp Suc.IH)))+
qed (simp add: keepsI trip_plift)

lemma kg_explist1 [kp]: "keeps ex \<Longrightarrow> keeps (explist1 E ex)"
  unfolding explist1_def split_beta Let_def
  by (rule keepsI) (rule scope_rules | assumption | (rule trip_Same, (assumption | rule kp)))+

lemma kg_call_args [kp]: "keeps ex \<Longrightarrow> keeps (call_args E ex line)"
  unfolding call_args_def split_beta Let_def
  by (rule keepsI) (rule scope_rules | assumption | (rule trip_Same, (assumption | rule kp)))+

lemma kg_funcargs [kp]: "keeps ex \<Longrightarrow> keeps (funcargs E ex f)"
  unfolding funcargs_def split_beta Let_def
  by (rule keepsI) (rule scope_rules | assumption | (rule trip_Same, (assumption | rule kp)))+

lemma kg_prefixexp [kp]: "keeps ex \<Longrightarrow> keeps (prefixexp E ex)"
  unfolding prefixexp_def split_beta Let_def
  by (rule keepsI) (rule scope_rules | assumption | (rule trip_Same, (assumption | rule kp)))+

lemma kg_primary_loop [kp]: "keeps ex \<Longrightarrow> keeps (primary_loop n E ex v)"
proof (induction n arbitrary: v)
  case (Suc n)
  then show ?case unfolding primary_loop.simps split_beta Let_def
    by (intro keepsI) (rule scope_rules | assumption | (rule trip_Same, (assumption | rule kp Suc.IH)))+
qed (simp add: keepsI trip_plift)

lemma kg_primaryexp [kp]: "keeps ex \<Longrightarrow> keeps (primaryexp E ex)"
  unfolding primaryexp_def split_beta Let_def
  by (rule keepsI) (rule scope_rules | assumption | (rule trip_Same, (assumption | rule kp)))+

lemma kg_needsarg [kp]: "keeps (set_vararg (\<lambda>v. v AND NOT VARARG_NEEDSARG))"
proof -
  have "(v AND NOT VARARG_NEEDSARG) AND VARARG_HASARG = v AND VARARG_HASARG" "(v AND NOT VARARG_NEEDSARG) AND VARARG_NEEDSARG = 0" for v :: byte
    by (simp_all add: VARARG_HASARG_def VARARG_NEEDSARG_def and.assoc)
  then show ?thesis unfolding set_vararg_def
    by (intro keeps_fsset) (simp add: same_scope_def func_ok_def vars_ok_def levels_def params_ok_def code_ok_def FuncState.defs visible_def)
qed

lemmas body_keeps_kp [kp] = body_keeps

lemma kg_simpleexp [kp]: "keeps ex \<Longrightarrow> extends ch \<Longrightarrow> keeps (simpleexp E ex ch)"
  unfolding simpleexp_def split_beta Let_def
  by (rule keepsI) (rule scope_rules | assumption | (rule trip_Same, (assumption | rule kp)) | (rule trip_Inside, (assumption | rule kp)) | (rule trip_extends, (assumption | rule kp)) | simp)+

lemma kg_binary_loop [kp]: "(\<And>l. keeps (sub l)) \<Longrightarrow> keeps (binary_loop n E sub limit op v)"
proof (induction n arbitrary: op v)
  case (Suc n)
  then show ?case unfolding binary_loop.simps split_beta
    by (intro keepsI) (rule scope_rules | (rule trip_Same, (rule Suc.prems | rule kp Suc.IH)) | rule Suc.prems)+
qed (simp add: keepsI trip_plift)

lemma kg_expr_of: "(\<And>l. keeps (sub l)) \<Longrightarrow> keeps (pbind (sub 0) (\<lambda>(_, v). preturn v))"
  unfolding split_beta by (rule keepsI) (rule scope_rules | (rule trip_Same, assumption))+

lemma kg_subexpr_body:
  assumes "\<And>l. keeps (sub l)" "extends ch" shows "keeps (subexpr_body E sub ch limit)"
  unfolding subexpr_body_def
  by (rule keepsI) (rule scope_rules | (rule trip_Same, (rule assms | rule kp)) | rule assms kg_expr_of | simp add: split_beta)+

section \<open>Statements\<close>

lemma kg_block [kp]: "extends ch \<Longrightarrow> keeps (block ch)" by (rule keeps_block)

lemma kg_check_conflict [kp]: "keeps (check_conflict lhs v)"
  unfolding check_conflict_def split_beta Let_def
  by (rule keepsI) (rule scope_rules | assumption | (rule trip_Same, (assumption | rule kp)) | (rule trip_Inside, (assumption | rule kp)) | (rule trip_extends, (assumption | rule kp)) | simp)+

lemma kg_assignment [kp]: "keeps ex \<Longrightarrow> keeps (assignment n E ex lhs nvars)"
proof (induction n arbitrary: lhs nvars)
  case (Suc n)
  have l: "keeps (\<lambda>s. Inr (f s, s))" for f :: "'a ParState \<Rightarrow> int" by (simp add: keeps_def Same_refl)
  show ?case unfolding assignment.simps split_beta Let_def
    by (rule keepsI) (rule scope_rules | rule Suc.prems | (rule trip_Same, (rule l | rule kp Suc.IH Suc.prems)))+
qed (simp add: keepsI trip_plift)

lemma kg_cond [kp]: "keeps ex \<Longrightarrow> keeps (cond E ex)"
  unfolding cond_def split_beta Let_def
  by (rule keepsI) (rule scope_rules | assumption | (rule trip_Same, (assumption | rule kp)) | (rule trip_Inside, (assumption | rule kp)) | (rule trip_extends, (assumption | rule kp)) | simp)+

lemma kg_breaklist: "keeps (fsset (\<lambda>fs. fs\<lparr>f_bl := (f_bl fs)[i := (f_bl fs ! i)\<lparr>breaklist := l\<rparr>]\<rparr>))"
proof (rule keeps_fsset)
  fix fs assume "func_ok fs"
  then show "same_scope fs (fs\<lparr>f_bl := (f_bl fs)[i := (f_bl fs ! i)\<lparr>breaklist := l\<rparr>]\<rparr>)"
    by (rule same_scope_bl) (cases "i < length (f_bl fs)", simp_all add: levels_def map_update list_update_same_conv list_update_beyond)
qed

lemma kg_breakstat [kp]: "keeps breakstat"
  unfolding breakstat_def split_beta
  by (rule keepsI) (rule scope_rules | (rule trip_Same, (rule kp kg_breaklist)))+

lemma kg_whilestat [kp]: "keeps ex \<Longrightarrow> extends ch \<Longrightarrow> keeps (whilestat E ex ch line)"
  unfolding whilestat_def split_beta Let_def
  by (rule keepsI) (rule scope_rules | assumption | (rule trip_Same, (assumption | rule kp)) | (rule trip_Inside, (assumption | rule kp)) | (rule trip_extends, (assumption | rule kp)) | simp)+

lemma kg_block_upval [kp]: "keeps (onfs (\<lambda>ls fs. case f_bl fs of [] \<Rightarrow> Inl (CFault NullDeref) | bl # _ \<Rightarrow> Inr (bl_upval bl, fs)))"
  by (rule keeps_onfs) (auto simp: yields_def same_scope_refl split: list.splits)

lemma kg_repeatstat [kp]: "keeps ex \<Longrightarrow> extends ch \<Longrightarrow> keeps (repeatstat E ex ch line)"
  unfolding repeatstat_def split_beta Let_def
  by (rule keepsI) (rule scope_rules | assumption | (rule trip_Same, (assumption | rule kp)) | (rule trip_Inside, (assumption | rule kp)) | (rule trip_extends, (assumption | rule kp)) | simp)+

lemma kg_exp1 [kp]: "keeps ex \<Longrightarrow> keeps (exp1 E ex)"
  unfolding exp1_def split_beta Let_def
  by (rule keepsI) (rule scope_rules | assumption | (rule trip_Same, (assumption | rule kp)) | (rule trip_Inside, (assumption | rule kp)) | (rule trip_extends, (assumption | rule kp)) | simp)+

text \<open>The loops with control variables, inside a block of their own.\<close>

lemma kg_forbody:
  assumes "extends ch" "0 \<le> nvars"
  shows "trip (Inside (Suc k) s0) (forbody E ch base line nvars isnum) (Inside (Suc k) s0)"
  unfolding forbody_def
  by (rule scope_rules | rule assms | (rule trip_Inside, (rule kp assms)) | (rule trip_extends, rule kp) | simp)+

lemma kg_numberK [kp]: "keeps (codes (\<lambda>fs. sbind (luaK_numberK hfun fs v) (\<lambda>(k, fs).
    sbind (luaK_codeABx fs OP_LOADK (freereg fs) k) (\<lambda>(_, fs). Inr fs))))"
  unfolding split_beta
  by (rule keeps_codes) (rule cf_first | rule cf yields_intro | assumption | rule cframe_refl | simp)+

lemma kg_fornum:
  assumes "keeps ex" "extends ch"
  shows "trip (Inside (Suc k) s0) (fornum E ex ch name line) (Inside (Suc k) s0)"
  unfolding fornum_def
  by (rule scope_rules kg_forbody | rule assms | (rule trip_Inside, (rule kp assms)) | simp)+

lemma names_loop_returns: "names_loop n E k s = Inr (v, s') \<Longrightarrow> k \<le> v"
proof (induction n arbitrary: k s)
  case (Suc n)
  then obtain b s1 where "(if b then pbind (str_checkname E) (\<lambda>ts. pseq (new_localvar ts k) (names_loop n E (k + 1))) else preturn k) s1 = Inr (v, s')"
    by (auto simp: pbind_Inr)
  then show ?case using Suc.IH [of "k + 1"] by (cases b) (auto simp: pbind_Inr pseq_def preturn_def, fastforce)
qed (simp add: plift_def)

lemma kg_names_loop [kp]: "0 \<le> k \<Longrightarrow> keeps (names_loop n E k)"
proof (induction n arbitrary: k)
  case (Suc n)
  then show ?case unfolding names_loop.simps
    by (intro keepsI) (rule scope_rules | (rule trip_Same, (rule kp Suc.IH)) | simp)+
qed (simp add: keepsI trip_plift)

lemma returns_names: "returns (names_loop n E k) (\<lambda>v. k \<le> v)"
  using names_loop_returns by (auto simp: returns_def)

lemma kg_forlist:
  assumes "keeps ex" "extends ch"
  shows "trip (Inside (Suc k) s0) (forlist E ex ch name) (Inside (Suc k) s0)"
proof -
  have "trip (Inside (Suc k) s0) (pseq (checknext E (tk TK_IN)) (pbind pline (\<lambda>line. pbind (explist1 E ex) (\<lambda>(nexps, e).
      pseq (adjust_assign E 3 nexps e) (pseq (codes (\<lambda>fs. luaK_checkstack fs 3))
        (forbody E ch base line (nvars - 3) False)))))) (Inside (Suc k) s0)" if "4 \<le> nvars" for nvars base
    unfolding split_beta
    by (rule scope_rules kg_forbody | rule assms | (rule trip_Inside, (rule kp assms)) | simp add: order_trans [OF _ that])+
  note rest = this
  show ?thesis unfolding forlist_def
    by (rule trip_pbind, rule trip_Inside, rule kp, rule trip_pseq, rule trip_Inside, rule kp, simp, rule trip_pseq, rule trip_Inside, rule kp, simp,
        rule trip_pseq, rule trip_Inside, rule kp, simp, rule trip_pseq, rule trip_Inside, rule kp, simp,
        rule trip_pbind_value [OF _ returns_names], rule trip_Inside, rule kp, simp, rule rest, simp)
qed

lemma kg_forstat [kp]:
  assumes "keeps ex" "extends ch" shows "keeps (forstat E ex ch line)"
  unfolding forstat_def
  by (rule keepsI) (rule scope_rules kg_fornum kg_forlist | rule assms | (rule trip_Inside, rule kp) | simp)+

lemma kg_test_then_block [kp]: "keeps ex \<Longrightarrow> extends ch \<Longrightarrow> keeps (test_then_block E ex ch)"
  unfolding test_then_block_def split_beta Let_def
  by (rule keepsI) (rule scope_rules | assumption | (rule trip_Same, (assumption | rule kp)) | (rule trip_Inside, (assumption | rule kp)) | (rule trip_extends, (assumption | rule kp)) | simp)+

lemma kg_escape_jump [kp]: "keeps (escape_jump a b)"
  unfolding escape_jump_def split_beta Let_def
  by (rule keepsI) (rule scope_rules | assumption | (rule trip_Same, (assumption | rule kp)) | (rule trip_Inside, (assumption | rule kp)) | (rule trip_extends, (assumption | rule kp)) | simp)+

lemma kg_elseif_loop [kp]: "keeps ex \<Longrightarrow> extends ch \<Longrightarrow> keeps (elseif_loop n E ex ch a b)"
proof (induction n arbitrary: a b)
  case (Suc n)
  show ?case unfolding elseif_loop.simps
    by (rule keepsI) (rule scope_rules | rule Suc.prems | (rule trip_Same, rule kp Suc.IH))+
qed (simp add: keepsI trip_plift)

lemma kg_ifstat [kp]: "keeps ex \<Longrightarrow> extends ch \<Longrightarrow> keeps (ifstat E ex ch line)"
  unfolding ifstat_def split_beta Let_def
  by (rule keepsI) (rule scope_rules | assumption | (rule trip_Same, (assumption | rule kp)) | (rule trip_Inside, (assumption | rule kp)) | (rule trip_extends, (assumption | rule kp)) | simp)+

lemma kg_startpc [kp]:
  "keeps (onfs (\<lambda>ls fs. sbind (updlocvar fs (nactvar fs - 1) (\<lambda>v. v\<lparr>startpc := int (fpc fs)\<rparr>)) (\<lambda>fs. Inr ((), fs))))"
proof (rule keeps_onfs)
  fix ls fs assume f: "func_ok fs"
  have "same_scope fs g" if "updlocvar fs (nactvar fs - 1) (\<lambda>v. v\<lparr>startpc := int (fpc fs)\<rparr>) = Inr g" for g
    by (rule renamed_same [OF f], rule updlocvar_renamed [OF that]) simp
  then show "yields (sbind (updlocvar fs (nactvar fs - 1) (\<lambda>v. v\<lparr>startpc := int (fpc fs)\<rparr>)) (\<lambda>fs. Inr ((), fs)))
      (\<lambda>r. same_scope fs (snd r))"
    by (auto simp: yields_def sbind_eq_Inr_iff)
qed

lemma extends_of_keeps: "keeps m \<Longrightarrow> trip (Inside k s0) m (Inside k s0)" by (rule trip_Inside)

lemma kg_localfunc:
  assumes "extends ch" shows "extends (localfunc E ch)"
  unfolding localfunc_def
  by (rule extendsI) (rule scope_rules | rule assms | (rule trip_Inside, rule kp) | (rule trip_extends, rule kp) | simp)+

lemma kg_localstat:
  assumes "keeps ex" shows "extends (localstat E ex)"
proof -
  have "trip (Inside 0 s0) (pbind (testnext E 61) (\<lambda>b. pbind (if b then explist1 E ex else preturn (0, init_exp VVOID 0)) (\<lambda>(nexps, e).
      pseq (adjust_assign E nvars nexps e) (adjustlocalvars nvars)))) (Inside 0 s0)" if "1 \<le> nvars" for nvars s0
    unfolding split_beta
    by (rule scope_rules | rule assms | (rule trip_Inside, (rule kp assms)) | (rule trip_extends, rule kp) | simp add: order_trans [OF _ that])+
  note rest = this
  show ?thesis unfolding localstat_def
    by (rule extendsI, rule trip_pbind, rule trip_Inside, rule kp, rule trip_pseq, rule trip_Inside, rule kp, simp,
        rule trip_pbind_value [OF _ returns_names], rule trip_Inside, rule kp, simp, rule rest, simp)
qed

lemma kg_funcname_loop [kp]: "keeps (funcname_loop n E v)"
proof (induction n arbitrary: v)
  case (Suc n)
  show ?case unfolding funcname_loop.simps
    by (rule keepsI) (rule scope_rules | (rule trip_Same, rule kp Suc.IH))+
qed (simp add: keepsI trip_plift)

lemma kg_funcname [kp]: "keeps (funcname E)"
  unfolding funcname_def split_beta Let_def
  by (rule keepsI) (rule scope_rules | assumption | (rule trip_Same, (assumption | rule kp)) | (rule trip_Inside, (assumption | rule kp)) | (rule trip_extends, (assumption | rule kp)) | simp)+

lemma kg_funcstat [kp]: "extends ch \<Longrightarrow> keeps (funcstat E ch line)"
  unfolding funcstat_def split_beta Let_def
  by (rule keepsI) (rule scope_rules | assumption | (rule trip_Same, (assumption | rule kp)) | (rule trip_Inside, (assumption | rule kp)) | (rule trip_extends, (assumption | rule kp)) | simp)+

lemma kg_exprstat [kp]: "keeps ex \<Longrightarrow> keeps (exprstat E ex)"
  unfolding exprstat_def split_beta Let_def
  by (rule keepsI) (rule scope_rules | assumption | (rule trip_Same, (assumption | rule kp)) | (rule trip_Inside, (assumption | rule kp)) | (rule trip_extends, (assumption | rule kp)) | simp)+

lemma kg_return_values [kp]: "keeps ex \<Longrightarrow> keeps (return_values E ex)"
  unfolding return_values_def split_beta Let_def
  by (rule keepsI) (rule scope_rules | assumption | (rule trip_Same, (assumption | rule kp)) | (rule trip_Inside, (assumption | rule kp)) | (rule trip_extends, (assumption | rule kp)) | simp)+

lemma kg_retstat [kp]: "keeps ex \<Longrightarrow> keeps (retstat E ex)"
  unfolding retstat_def split_beta Let_def
  by (rule keepsI) (rule scope_rules | assumption | (rule trip_Same, (assumption | rule kp)) | (rule trip_Inside, (assumption | rule kp)) | (rule trip_extends, (assumption | rule kp)) | simp)+

lemma kg_statement:
  assumes "keeps ex" "extends ch" shows "extends (statement E ex ch)"
  unfolding statement_def
  by (rule extendsI) (rule scope_rules | rule assms | (rule trip_Inside, rule kp) | (rule trip_extends, rule kg_localfunc kg_localstat))+

lemma kg_chunk_loop:
  assumes "keeps ex" "extends ch" shows "extends (chunk_loop n E ex ch)"
proof (induction n)
  case (Suc n)
  show ?case unfolding chunk_loop.simps
    by (rule extendsI) (rule scope_rules | rule assms | (rule trip_Inside, rule kp) | (rule trip_extends, rule kg_statement Suc.IH))+
qed (simp add: extendsI trip_plift)

lemma kg_chunk_body:
  assumes "\<And>l. keeps (sub l)" "extends ch" shows "extends (chunk_body E sub ch)"
  unfolding chunk_body_def
  by (rule extendsI) (rule scope_rules | rule assms kg_expr_of | (rule trip_Inside, rule kp) | (rule trip_extends, rule kg_chunk_loop))+

text \<open>The recursion.\<close>

lemma rules_scope: "keeps (\<lambda>s. subexpr d E l s) \<and> extends (\<lambda>s. chunk d E s)"
proof (induction d arbitrary: l)
  case (Suc d)
  have "keeps (subexpr_body E (\<lambda>l s. subexpr d E l s) (\<lambda>s. chunk d E s) l)" for l by (rule kg_subexpr_body) (use Suc in auto)
  moreover have "extends (chunk_body E (\<lambda>l s. subexpr d E l s) (\<lambda>s. chunk d E s))" by (rule kg_chunk_body) (use Suc in auto)
  ultimately show ?case by simp
qed (simp add: keeps_def extends_def)

section \<open>Names and their variables\<close>

lemma search_from_visible:
  assumes "func_ok f" "i \<le> nat (nactvar f)"
  shows "search_from i f n = Inr (case find_pos (\<lambda>x. x = Some n) (rev (take i (visible f))) of None \<Rightarrow> - 1 | Some k \<Rightarrow> int (i - 1 - k))"
  using assms(2)
proof (induction i)
  case (Suc i)
  have l: "length (visible f) = nat (nactvar f)" "visible f ! i = varname (f_locvars f ! (f_actvar f ! i))"
    using Suc.prems by (simp_all add: visible_def)
  have "getlocvar f (int i) = Inr (f_locvars f ! (f_actvar f ! i))"
    using assms(1) Suc.prems by (auto simp: getlocvar_Inr func_ok_def vars_ok_def)
  moreover have "rev (take (Suc i) (visible f)) = visible f ! i # rev (take i (visible f))"
    using Suc.prems l(1) by (simp add: take_Suc_conv_app_nth)
  ultimately show ?case using Suc.IH Suc.prems l(2) by (auto split: option.splits)
qed simp

lemma same_scope_search:
  assumes "func_ok f" "same_scope f g"
  shows "nactvar g = nactvar f \<and> searchvar g n = searchvar f n"
proof -
  have g: "func_ok g" "visible g = visible f" using assms(2) by (simp_all add: same_scope_def)
  have "nactvar g = nactvar f" using nactvar_visible [OF assms(1)] nactvar_visible [OF g(1)] g(2) by simp
  then show ?thesis using search_from_visible [OF assms(1) order_refl, of n] search_from_visible [OF g(1) order_refl, of n] g(2)
    by (simp add: searchvar_def split: option.splits)
qed

text \<open>In every function being compiled a name stands for the same variable as before.\<close>

definition same_bindings :: "'r ParState \<Rightarrow> 'r ParState \<Rightarrow> bool" where
  "same_bindings s s' \<longleftrightarrow> list_all2 (\<lambda>f g. nactvar g = nactvar f \<and> (\<forall>n. searchvar g n = searchvar f n)) (funcs s) (funcs s')"

lemma Same_bindings: "Same s s' \<Longrightarrow> same_bindings s s'"
  unfolding same_bindings_def Same_def state_ok_def
  by (elim conjE, rule list.rel_mono_strong, assumption) (simp add: same_scope_search)

end
