(* ===== verification/LNest.thy ===== *)
theory LNest
  imports LGrammar
begin

text \<open>
  How deep the rules of the parser call each other: two versions of \<open>expr\<close> and \<open>chunk\<close> that agree inside make every rule agree,
  and at the limit of levels none of them is called.
\<close>

section \<open>Rules that agree\<close>

text \<open>From states with \<open>c\<close> C calls in progress both give the same, and a success leaves \<open>c'\<close>.\<close>

definition agree :: "nat \<Rightarrow> nat \<Rightarrow> ('r, 'a) rule \<Rightarrow> ('r, 'a) rule \<Rightarrow> bool" where
  "agree c c' m m' = (\<forall>s. nCcalls s = c \<longrightarrow> m' s = m s \<and> (\<forall>x s'. m s = Inr (x, s') \<longrightarrow> nCcalls s' = c'))"

named_theorems ag "rules that agree when those they call do"

lemma agreeD: "agree c c' m m' \<Longrightarrow> nCcalls s = c \<Longrightarrow> m' s = m s" by (simp add: agree_def)

lemma agree_pbind:
  assumes m: "agree c c1 m m'" and k: "\<And>x. agree c1 c2 (k x) (k' x)"
  shows "agree c c2 (pbind m k) (pbind m' k')"
  unfolding agree_def
proof (intro allI impI)
  fix s :: "'a ParState" assume c: "nCcalls s = c"
  show "pbind m' k' s = pbind m k s \<and> (\<forall>x s'. pbind m k s = Inr (x, s') \<longrightarrow> nCcalls s' = c2)"
  proof (cases "m s")
    case (Inl e)
    then show ?thesis using agreeD [OF m c] by (simp add: pbind_def)
  next
    case (Inr r)
    then obtain x s1 where r: "m s = Inr (x, s1)" by (cases r) auto
    have a: "m' s = Inr (x, s1)" "nCcalls s1 = c1" using m c r unfolding agree_def by metis+
    have "k' x s1 = k x s1" by (rule agreeD [OF k a(2)])
    moreover have "k x s1 = Inr (y, s') \<Longrightarrow> nCcalls s' = c2" for y s' using k a(2) unfolding agree_def by blast
    ultimately show ?thesis using a(1) r by (simp add: pbind_def)
  qed
qed

lemma agree_pseq: "agree c c1 m m' \<Longrightarrow> agree c1 c2 k k' \<Longrightarrow> agree c c2 (pseq m k) (pseq m' k')"
  unfolding pseq_def by (rule agree_pbind)

lemma agree_if: "(b \<Longrightarrow> agree c c' m m') \<Longrightarrow> (\<not> b \<Longrightarrow> agree c c' n n') \<Longrightarrow> agree c c' (if b then m else n) (if b then m' else n')"
  by simp

lemma agree_option:
  "agree c c' m m' \<Longrightarrow> (\<And>a. agree c c' (f a) (f' a)) \<Longrightarrow>
   agree c c' (case v of None \<Rightarrow> m | Some a \<Rightarrow> f a) (case v of None \<Rightarrow> m' | Some a \<Rightarrow> f' a)"
  by (cases v) auto

lemma agree_lexv: "agree c c (lexv f) (lexv f)"
  by (auto simp: agree_def lexv_def sbind_eq_Inr_iff)

lemma agree_base:
  "agree c c (preturn x) (preturn x)" "agree c c (pget g) (pget g)" "agree c c (plift h) (plift h)"
  "agree c c (\<lambda>s. Inr (k s, s)) (\<lambda>s. Inr (k s, s))" "agree c c (syntaxerror e) (syntaxerror e)" "agree c c (error_expected t) (error_expected t)"
  by (auto simp: agree_def preturn_def pget_def plift_def syntaxerror_def error_expected_def sbind_eq_Inr_iff)

lemma agree_steps:
  "agree c c (lexs f1) (lexs f1)" "agree c c (onfs f2) (onfs f2)" "agree c c (fsget f3) (fsget f3)" "agree c c (fsset f4) (fsset f4)"
  "agree c c (code f5) (code f5)" "agree c c (codes f6) (codes f6)" "agree c c (emit op a b d) (emit op a b d)"
  unfolding lexs_def fsget_def fsset_def codes_def emit_def code_def onfs_def by (rule agree_lexv)+

lemma agree_leavelevel: "agree (Suc c) c leavelevel leavelevel"
  by (simp add: agree_def leavelevel_def)

text \<open>Behind \<open>enterlevel\<close> the level is within the limit.\<close>

lemma agree_enterlevel:
  assumes "Suc c \<le> LUAI_MAXCCALLS \<Longrightarrow> agree (Suc c) c' k k'"
  shows "agree c c' (pseq enterlevel k) (pseq enterlevel k')"
proof (cases "Suc c \<le> LUAI_MAXCCALLS")
  case True
  then have "agree c (Suc c) enterlevel enterlevel" by (simp add: agree_def enterlevel_def)
  then show ?thesis using assms [OF True] by (rule agree_pseq)
next
  case False
  have "luaX_lexerror l ''chunk has too many syntax levels'' 0 \<noteq> Inr r" for l :: "'a PLex" and r :: "unit \<times> 'a ParState"
    by (simp add: luaX_lexerror_def)
  then show ?thesis using False by (auto simp: agree_def pseq_def pbind_def enterlevel_def sbind_eq_Inr_iff luaX_lexerror_def)
qed

lemmas ag_rules = agree_base agree_steps agree_lexv agree_if agree_option agree_pseq agree_pbind

section \<open>The grammar\<close>

lemma ag_pnext [ag]: "agree c c (pnext E) (pnext E)"
  unfolding pnext_def split_beta Let_def by (rule ag_rules ag | assumption)+

lemma ag_anchor_token [ag]: "agree c c (anchor_token E) (anchor_token E)"
  unfolding anchor_token_def split_beta Let_def by (rule ag_rules ag | assumption)+

lemma ag_testnext [ag]: "agree c c (testnext E t) (testnext E t)"
  unfolding testnext_def split_beta Let_def by (rule ag_rules ag | assumption)+

lemma ag_check_token [ag]: "agree c c (check_token t) (check_token t)"
  unfolding check_token_def split_beta Let_def by (rule ag_rules ag | assumption)+

lemma ag_checknext [ag]: "agree c c (checknext E t) (checknext E t)"
  unfolding checknext_def split_beta Let_def by (rule ag_rules ag | assumption)+

lemma ag_check_match [ag]: "agree c c (check_match E a b l) (check_match E a b l)"
  unfolding check_match_def split_beta Let_def by (rule ag_rules ag | assumption)+

lemma ag_str_checkname [ag]: "agree c c (str_checkname E) (str_checkname E)"
  unfolding str_checkname_def split_beta Let_def by (rule ag_rules ag | assumption)+

lemma ag_codestring [ag]: "agree c c (codestring E v) (codestring E v)"
  unfolding codestring_def split_beta Let_def by (rule ag_rules ag | assumption)+

lemma ag_checkname [ag]: "agree c c (checkname E) (checkname E)"
  unfolding checkname_def split_beta Let_def by (rule ag_rules ag | assumption)+

lemma ag_checklimit [ag]: "agree c c (checklimit v l m) (checklimit v l m)"
  unfolding checklimit_def split_beta Let_def by (rule ag_rules ag | assumption)+

lemma ag_new_localvar [ag]: "agree c c (new_localvar v n) (new_localvar v n)"
  unfolding new_localvar_def split_beta Let_def by (rule ag_rules ag | assumption)+

lemma ag_new_localvarliteral [ag]: "agree c c (new_localvarliteral E v n) (new_localvarliteral E v n)"
  unfolding new_localvarliteral_def split_beta Let_def by (rule ag_rules ag | assumption)+

lemma ag_adjustlocalvars [ag]: "agree c c (adjustlocalvars n) (adjustlocalvars n)"
  unfolding adjustlocalvars_def split_beta Let_def by (rule ag_rules ag | assumption)+

lemma ag_singlevar [ag]: "agree c c (singlevar E) (singlevar E)"
  unfolding singlevar_def split_beta Let_def by (rule ag_rules ag | assumption)+

lemma ag_adjust_assign [ag]: "agree c c (adjust_assign E a b e) (adjust_assign E a b e)"
  unfolding adjust_assign_def split_beta Let_def by (rule ag_rules ag | assumption)+

lemma ag_enterblock [ag]: "agree c c (enterblock b) (enterblock b)"
  unfolding enterblock_def split_beta Let_def by (rule ag_rules ag | assumption)+

lemma ag_leaveblock [ag]: "agree c c (leaveblock) (leaveblock)"
  unfolding leaveblock_def split_beta Let_def by (rule ag_rules ag | assumption)+

lemma ag_emit_upvalues [ag]: "agree c c (emit_upvalues us) (emit_upvalues us)"
proof (induction us)
  case (Cons u us)
  then show ?case by (cases u) (simp only: emit_upvalues.simps, (rule ag_rules | assumption)+)
qed (simp add: agree_base)

lemma ag_pushclosure [ag]: "agree c c (pushclosure f) (pushclosure f)"
  unfolding pushclosure_def split_beta Let_def by (rule ag_rules ag | assumption)+

lemma ag_open_func [ag]: "agree c c (open_func) (open_func)"
  unfolding open_func_def split_beta Let_def by (rule ag_rules ag | assumption)+

lemma ag_close_func [ag]: "agree c c (close_func E) (close_func E)"
  unfolding close_func_def split_beta Let_def by (rule ag_rules ag | assumption)+

lemma ag_exp2nextreg [ag]: "agree c c (exp2nextreg E v) (exp2nextreg E v)"
  unfolding exp2nextreg_def split_beta Let_def by (rule ag_rules ag | assumption)+

lemma ag_exp2anyreg [ag]: "agree c c (exp2anyreg E v) (exp2anyreg E v)"
  unfolding exp2anyreg_def split_beta Let_def by (rule ag_rules ag | assumption)+

lemma ag_exp2RK [ag]: "agree c c (exp2RK E v) (exp2RK E v)"
  unfolding exp2RK_def split_beta Let_def by (rule ag_rules ag | assumption)+

lemma ag_indexed [ag]: "agree c c (indexed E v k) (indexed E v k)"
  unfolding indexed_def split_beta Let_def by (rule ag_rules ag | assumption)+

lemma ag_storevar [ag]: "agree c c (storevar E v e) (storevar E v e)"
  unfolding storevar_def split_beta Let_def by (rule ag_rules ag | assumption)+

lemma ag_setmultret [ag]: "agree c c (setmultret e) (setmultret e)"
  unfolding setmultret_def split_beta Let_def by (rule ag_rules ag | assumption)+

lemma ag_field [ag]: "agree c c (field E v) (field E v)"
  unfolding field_def split_beta Let_def by (rule ag_rules ag | assumption)+

lemma ag_yindex [ag]: "agree c c ex ex2 \<Longrightarrow> agree c c (yindex E ex) (yindex E ex2)"
  unfolding yindex_def split_beta Let_def by (rule ag_rules ag | assumption)+

lemma ag_incr [ag]: "agree c c (incr i) (incr i)"
  unfolding incr_def split_beta Let_def by (rule ag_rules ag | assumption)+

lemma ag_recfield [ag]: "agree c c ex ex2 \<Longrightarrow> agree c c (recfield E ex cc) (recfield E ex2 cc)"
  unfolding recfield_def split_beta Let_def by (rule ag_rules ag | assumption)+

lemma ag_closelistfield [ag]: "agree c c (closelistfield E cc) (closelistfield E cc)"
  unfolding closelistfield_def split_beta Let_def by (rule ag_rules ag | assumption)+

lemma ag_lastlistfield [ag]: "agree c c (lastlistfield E cc) (lastlistfield E cc)"
  unfolding lastlistfield_def split_beta Let_def by (rule ag_rules ag | assumption)+

lemma ag_listfield [ag]: "agree c c ex ex2 \<Longrightarrow> agree c c (listfield E ex cc) (listfield E ex2 cc)"
  unfolding listfield_def split_beta Let_def by (rule ag_rules ag | assumption)+

lemma ag_cons_item [ag]: "agree c c ex ex2 \<Longrightarrow> agree c c (cons_item E ex cc) (cons_item E ex2 cc)"
  unfolding cons_item_def split_beta Let_def by (rule ag_rules ag | assumption)+

lemma ag_cons_loop [ag]: "agree c c ex ex2 \<Longrightarrow> agree c c (cons_loop n E ex cc) (cons_loop n E ex2 cc)"
proof (induction n arbitrary: cc)
  case (Suc n)
  then show ?case unfolding cons_loop.simps split_beta Let_def by - (rule ag_rules ag Suc.IH | assumption)+
qed (simp add: agree_base)

lemma ag_constructor [ag]: "agree c c ex ex2 \<Longrightarrow> agree c c (constructor E ex) (constructor E ex2)"
  unfolding constructor_def split_beta Let_def by (rule ag_rules ag | assumption)+

lemma ag_is_vararg [ag]: "agree c c (is_vararg) (is_vararg)"
  unfolding is_vararg_def split_beta Let_def by (rule ag_rules ag | assumption)+

lemma ag_set_vararg [ag]: "agree c c (set_vararg g) (set_vararg g)"
  unfolding set_vararg_def split_beta Let_def by (rule ag_rules ag | assumption)+

lemma ag_param [ag]: "agree c c (param E n) (param E n)"
  unfolding param_def split_beta Let_def by (rule ag_rules ag | assumption)+

lemma ag_parlist_loop [ag]: "agree c c (parlist_loop n E k) (parlist_loop n E k)"
proof (induction n arbitrary: k)
  case (Suc n)
  then show ?case unfolding parlist_loop.simps split_beta Let_def by - (rule ag_rules ag Suc.IH | assumption)+
qed (simp add: agree_base)

lemma ag_parlist [ag]: "agree c c (parlist E) (parlist E)"
  unfolding parlist_def split_beta Let_def by (rule ag_rules ag | assumption)+

lemma ag_body [ag]: "agree c c ch ch2 \<Longrightarrow> agree c c (body E ch b l) (body E ch2 b l)"
  unfolding body_def split_beta Let_def by (rule ag_rules ag | assumption)+

lemma ag_explist_loop [ag]: "agree c c ex ex2 \<Longrightarrow> agree c c (explist_loop n E ex k v) (explist_loop n E ex2 k v)"
proof (induction n arbitrary: k v)
  case (Suc n)
  then show ?case unfolding explist_loop.simps split_beta Let_def by - (rule ag_rules ag Suc.IH | assumption)+
qed (simp add: agree_base)

lemma ag_explist1 [ag]: "agree c c ex ex2 \<Longrightarrow> agree c c (explist1 E ex) (explist1 E ex2)"
  unfolding explist1_def split_beta Let_def by (rule ag_rules ag | assumption)+

lemma ag_call_args [ag]: "agree c c ex ex2 \<Longrightarrow> agree c c (call_args E ex l) (call_args E ex2 l)"
  unfolding call_args_def split_beta Let_def by (rule ag_rules ag | assumption)+

lemma ag_funcargs [ag]: "agree c c ex ex2 \<Longrightarrow> agree c c (funcargs E ex f) (funcargs E ex2 f)"
  unfolding funcargs_def split_beta Let_def by (rule ag_rules ag | assumption)+

lemma ag_prefixexp [ag]: "agree c c ex ex2 \<Longrightarrow> agree c c (prefixexp E ex) (prefixexp E ex2)"
  unfolding prefixexp_def split_beta Let_def by (rule ag_rules ag | assumption)+

lemma ag_primary_loop [ag]: "agree c c ex ex2 \<Longrightarrow> agree c c (primary_loop n E ex v) (primary_loop n E ex2 v)"
proof (induction n arbitrary: v)
  case (Suc n)
  then show ?case unfolding primary_loop.simps split_beta Let_def by - (rule ag_rules ag Suc.IH | assumption)+
qed (simp add: agree_base)

lemma ag_primaryexp [ag]: "agree c c ex ex2 \<Longrightarrow> agree c c (primaryexp E ex) (primaryexp E ex2)"
  unfolding primaryexp_def split_beta Let_def by (rule ag_rules ag | assumption)+

lemma ag_simpleexp [ag]: "agree c c ex ex2 \<Longrightarrow> agree c c ch ch2 \<Longrightarrow> agree c c (simpleexp E ex ch) (simpleexp E ex2 ch2)"
  unfolding simpleexp_def split_beta Let_def by (rule ag_rules ag | assumption)+

lemma ag_binary_loop [ag]: "(\<And>l. agree c c (sub l) (sub2 l)) \<Longrightarrow> agree c c (binary_loop n E sub limit op v) (binary_loop n E sub2 limit op v)"
proof (induction n arbitrary: op v)
  case (Suc n)
  show ?case unfolding binary_loop.simps split_beta by (rule ag_rules ag Suc.IH Suc.prems)+
qed (simp add: agree_base)

lemma ag_expr_of: "(\<And>l. agree c c (sub l) (sub2 l)) \<Longrightarrow> agree c c (pbind (sub 0) (\<lambda>(_, v). preturn v)) (pbind (sub2 0) (\<lambda>(_, v). preturn v))"
  unfolding split_beta by (rule ag_rules | assumption)+

lemma ag_subexpr_body:
  assumes "\<And>l. Suc c \<le> LUAI_MAXCCALLS \<Longrightarrow> agree (Suc c) (Suc c) (sub l) (sub2 l)" "Suc c \<le> LUAI_MAXCCALLS \<Longrightarrow> agree (Suc c) (Suc c) ch ch2"
  shows "agree c c (subexpr_body E sub ch limit) (subexpr_body E sub2 ch2 limit)"
  unfolding subexpr_body_def
proof (rule agree_enterlevel)
  assume l: "Suc c \<le> LUAI_MAXCCALLS"
  note e = ag_expr_of [of "Suc c" sub sub2, OF assms(1) [OF l]]
  have u: "agree (Suc c) (Suc c) (pbind (sub UNARY_PRIORITY) (\<lambda>(_, v). code (f v))) (pbind (sub2 UNARY_PRIORITY) (\<lambda>(_, v). code (f v)))" for f :: "expdesc \<Rightarrow> FuncState \<Rightarrow> (expdesc \<times> FuncState) lres"
    unfolding split_beta by (rule ag_rules assms(1) [OF l])+
  show "agree (Suc c) c
    (pbind ptoken (\<lambda>t. pbind (if getunopr t \<noteq> OPR_NOUNOPR then pseq (pnext E) (pbind (sub UNARY_PRIORITY) (\<lambda>(_, v).
        code (\<lambda>fs. luaK_prefix (phash E) (parith E) fs (getunopr t) v))) else simpleexp E (pbind (sub 0) (\<lambda>(_, v). preturn v)) ch)
      (\<lambda>v. pbind ptoken (\<lambda>t. pbind (binary_loop (fuel E) E sub limit (getbinopr t) v) (\<lambda>r. pseq leavelevel (preturn r))))))
    (pbind ptoken (\<lambda>t. pbind (if getunopr t \<noteq> OPR_NOUNOPR then pseq (pnext E) (pbind (sub2 UNARY_PRIORITY) (\<lambda>(_, v).
        code (\<lambda>fs. luaK_prefix (phash E) (parith E) fs (getunopr t) v))) else simpleexp E (pbind (sub2 0) (\<lambda>(_, v). preturn v)) ch2)
      (\<lambda>v. pbind ptoken (\<lambda>t. pbind (binary_loop (fuel E) E sub2 limit (getbinopr t) v) (\<lambda>r. pseq leavelevel (preturn r))))))"
    by (intro agree_pbind [of "Suc c" "Suc c"] agree_if agree_base agree_pseq [of "Suc c" "Suc c"] u ag_simpleexp e assms(2) [OF l] ag_pnext
        ag_binary_loop assms(1) [OF l] agree_pseq [OF agree_leavelevel])
qed

lemma ag_block [ag]: "agree c c ch ch2 \<Longrightarrow> agree c c (block ch) (block ch2)"
  unfolding block_def split_beta Let_def by (rule ag_rules ag | assumption)+

lemma ag_check_conflict [ag]: "agree c c (check_conflict lhs v) (check_conflict lhs v)"
  unfolding check_conflict_def split_beta Let_def by (rule ag_rules ag | assumption)+

lemma ag_assignment [ag]: "agree c c ex ex2 \<Longrightarrow> agree c c (assignment n E ex lhs nvars) (assignment n E ex2 lhs nvars)"
proof (induction n arbitrary: lhs nvars)
  case (Suc n)
  show ?case unfolding assignment.simps split_beta Let_def by (rule ag_rules | rule ag Suc.IH Suc.prems)+
qed (simp add: agree_base)

lemma ag_cond [ag]: "agree c c ex ex2 \<Longrightarrow> agree c c (cond E ex) (cond E ex2)"
  unfolding cond_def split_beta Let_def by (rule ag_rules ag | assumption)+

lemma ag_breakstat [ag]: "agree c c (breakstat) (breakstat)"
  unfolding breakstat_def split_beta Let_def by (rule ag_rules ag | assumption)+

lemma ag_whilestat [ag]: "agree c c ex ex2 \<Longrightarrow> agree c c ch ch2 \<Longrightarrow> agree c c (whilestat E ex ch l) (whilestat E ex2 ch2 l)"
  unfolding whilestat_def split_beta Let_def by (rule ag_rules ag | assumption)+

lemma ag_repeatstat [ag]: "agree c c ex ex2 \<Longrightarrow> agree c c ch ch2 \<Longrightarrow> agree c c (repeatstat E ex ch l) (repeatstat E ex2 ch2 l)"
  unfolding repeatstat_def split_beta Let_def by (rule ag_rules ag | assumption)+

lemma ag_exp1 [ag]: "agree c c ex ex2 \<Longrightarrow> agree c c (exp1 E ex) (exp1 E ex2)"
  unfolding exp1_def split_beta Let_def by (rule ag_rules ag | assumption)+

lemma ag_forbody [ag]: "agree c c ch ch2 \<Longrightarrow> agree c c (forbody E ch b l nv isnum) (forbody E ch2 b l nv isnum)"
  unfolding forbody_def split_beta Let_def by (rule ag_rules ag | assumption)+

lemma ag_fornum [ag]: "agree c c ex ex2 \<Longrightarrow> agree c c ch ch2 \<Longrightarrow> agree c c (fornum E ex ch v l) (fornum E ex2 ch2 v l)"
  unfolding fornum_def split_beta Let_def by (rule ag_rules ag | assumption)+

lemma ag_names_loop [ag]: "agree c c (names_loop n E k) (names_loop n E k)"
proof (induction n arbitrary: k)
  case (Suc n)
  then show ?case unfolding names_loop.simps split_beta Let_def by - (rule ag_rules ag Suc.IH | assumption)+
qed (simp add: agree_base)

lemma ag_forlist [ag]: "agree c c ex ex2 \<Longrightarrow> agree c c ch ch2 \<Longrightarrow> agree c c (forlist E ex ch v) (forlist E ex2 ch2 v)"
  unfolding forlist_def split_beta Let_def by (rule ag_rules ag | assumption)+

lemma ag_forstat [ag]: "agree c c ex ex2 \<Longrightarrow> agree c c ch ch2 \<Longrightarrow> agree c c (forstat E ex ch l) (forstat E ex2 ch2 l)"
  unfolding forstat_def split_beta Let_def by (rule ag_rules ag | assumption)+

lemma ag_test_then_block [ag]: "agree c c ex ex2 \<Longrightarrow> agree c c ch ch2 \<Longrightarrow> agree c c (test_then_block E ex ch) (test_then_block E ex2 ch2)"
  unfolding test_then_block_def split_beta Let_def by (rule ag_rules ag | assumption)+

lemma ag_escape_jump [ag]: "agree c c (escape_jump a b) (escape_jump a b)"
  unfolding escape_jump_def split_beta Let_def by (rule ag_rules ag | assumption)+

lemma ag_elseif_loop [ag]: "agree c c ex ex2 \<Longrightarrow> agree c c ch ch2 \<Longrightarrow> agree c c (elseif_loop n E ex ch a b) (elseif_loop n E ex2 ch2 a b)"
proof (induction n arbitrary: a b)
  case (Suc n)
  then show ?case unfolding elseif_loop.simps split_beta Let_def by - (rule ag_rules ag Suc.IH | assumption)+
qed (simp add: agree_base)

lemma ag_ifstat [ag]: "agree c c ex ex2 \<Longrightarrow> agree c c ch ch2 \<Longrightarrow> agree c c (ifstat E ex ch l) (ifstat E ex2 ch2 l)"
  unfolding ifstat_def split_beta Let_def by (rule ag_rules ag | assumption)+

lemma ag_localfunc [ag]: "agree c c ch ch2 \<Longrightarrow> agree c c (localfunc E ch) (localfunc E ch2)"
  unfolding localfunc_def split_beta Let_def by (rule ag_rules ag | assumption)+

lemma ag_localstat [ag]: "agree c c ex ex2 \<Longrightarrow> agree c c (localstat E ex) (localstat E ex2)"
  unfolding localstat_def split_beta Let_def by (rule ag_rules ag | assumption)+

lemma ag_funcname_loop [ag]: "agree c c (funcname_loop n E v) (funcname_loop n E v)"
proof (induction n arbitrary: v)
  case (Suc n)
  then show ?case unfolding funcname_loop.simps split_beta Let_def by - (rule ag_rules ag Suc.IH | assumption)+
qed (simp add: agree_base)

lemma ag_funcname [ag]: "agree c c (funcname E) (funcname E)"
  unfolding funcname_def split_beta Let_def by (rule ag_rules ag | assumption)+

lemma ag_funcstat [ag]: "agree c c ch ch2 \<Longrightarrow> agree c c (funcstat E ch l) (funcstat E ch2 l)"
  unfolding funcstat_def split_beta Let_def by (rule ag_rules ag | assumption)+

lemma ag_exprstat [ag]: "agree c c ex ex2 \<Longrightarrow> agree c c (exprstat E ex) (exprstat E ex2)"
  unfolding exprstat_def split_beta Let_def by (rule ag_rules ag | assumption)+

lemma ag_return_values [ag]: "agree c c ex ex2 \<Longrightarrow> agree c c (return_values E ex) (return_values E ex2)"
  unfolding return_values_def split_beta Let_def by (rule ag_rules ag | assumption)+

lemma ag_retstat [ag]: "agree c c ex ex2 \<Longrightarrow> agree c c (retstat E ex) (retstat E ex2)"
  unfolding retstat_def split_beta Let_def by (rule ag_rules ag | assumption)+

lemma ag_statement [ag]: "agree c c ex ex2 \<Longrightarrow> agree c c ch ch2 \<Longrightarrow> agree c c (statement E ex ch) (statement E ex2 ch2)"
  unfolding statement_def split_beta Let_def by (rule ag_rules ag | assumption)+

lemma ag_chunk_loop [ag]: "agree c c ex ex2 \<Longrightarrow> agree c c ch ch2 \<Longrightarrow> agree c c (chunk_loop n E ex ch) (chunk_loop n E ex2 ch2)"
proof (induction n arbitrary: )
  case (Suc n)
  then show ?case unfolding chunk_loop.simps split_beta Let_def by - (rule ag_rules ag Suc.IH | assumption)+
qed (simp add: agree_base)

lemma ag_chunk_body:
  assumes "\<And>l. Suc c \<le> LUAI_MAXCCALLS \<Longrightarrow> agree (Suc c) (Suc c) (sub l) (sub2 l)" "Suc c \<le> LUAI_MAXCCALLS \<Longrightarrow> agree (Suc c) (Suc c) ch ch2"
  shows "agree c c (chunk_body E sub ch) (chunk_body E sub2 ch2)"
  unfolding chunk_body_def
proof (rule agree_enterlevel)
  assume l: "Suc c \<le> LUAI_MAXCCALLS"
  show "agree (Suc c) c (pseq (chunk_loop (fuel E) E (pbind (sub 0) (\<lambda>(_, v). preturn v)) ch) leavelevel)
    (pseq (chunk_loop (fuel E) E (pbind (sub2 0) (\<lambda>(_, v). preturn v)) ch2) leavelevel)"
    by (rule agree_pseq [OF ag_chunk_loop agree_leavelevel], rule ag_expr_of, rule assms(1) [OF l], rule assms(2) [OF l])
qed

section \<open>The limit of levels\<close>

lemma rules_agree:
  "0 < d \<Longrightarrow> LUAI_MAXCCALLS < d + c \<Longrightarrow>
    agree c c (\<lambda>s. subexpr d E l s) (\<lambda>s. subexpr (d + k) E l s) \<and> agree c c (\<lambda>s. chunk d E s) (\<lambda>s. chunk (d + k) E s)"
proof (induction d arbitrary: c l)
  case (Suc d)
  have ih: "agree (Suc c) (Suc c) (\<lambda>s. subexpr d E l s) (\<lambda>s. subexpr (d + k) E l s) \<and> agree (Suc c) (Suc c) (\<lambda>s. chunk d E s) (\<lambda>s. chunk (d + k) E s)"
    if "Suc c \<le> LUAI_MAXCCALLS" for l
    by (rule Suc.IH) (use that Suc.prems in simp_all)
  have "agree c c (subexpr_body E (\<lambda>l s. subexpr d E l s) (\<lambda>s. chunk d E s) l) (subexpr_body E (\<lambda>l s. subexpr (d + k) E l s) (\<lambda>s. chunk (d + k) E s) l)"
    by (rule ag_subexpr_body) (use ih in blast)+
  moreover have "agree c c (chunk_body E (\<lambda>l s. subexpr d E l s) (\<lambda>s. chunk d E s)) (chunk_body E (\<lambda>l s. subexpr (d + k) E l s) (\<lambda>s. chunk (d + k) E s))"
    by (rule ag_chunk_body) (use ih in blast)+
  ultimately show ?case by simp
qed simp

end
