(* ===== verification/LParserProps.thy ===== *)
theory LParserProps
  imports LScopeRules LNest
begin

text \<open>
  Properties of the parser: blocks and names, the prototypes it makes, and the depth of its recursion.
\<close>

section \<open>Examples\<close>

definition blank_lex :: "bytes PLex" where
  "blank_lex = \<lparr>current = 0, linenumber = 0, lxlastline = 0, tok = \<lparr>token = 0, seminfo = NoInfo\<rparr>, lookahead = \<lparr>token = 0, seminfo = NoInfo\<rparr>,
    lfs = [], zio = luaZ_init [], buff = [], buffsize = 0, source = [], decpoint = 0\<rparr>"
definition penv :: "nat \<Rightarrow> bytes parenv" where
  "penv n = \<lparr>plex = plain_env, parith = (\<lambda>op a b. Nnan), fuel = n\<rparr>"

lemma pbind_step: "m s = Inr (x, s1) \<Longrightarrow> pbind m k s = k x s1" by (simp add: pbind_def)
lemma pseq_step: "m s = Inr ((), s1) \<Longrightarrow> pseq m k s = k s1" by (simp add: pseq_def pbind_def)

text \<open>The states in the compilation of the empty text: the lexical state at its end, and the main function.\<close>

definition empty_fs :: ParFunc where
  "empty_fs = \<lparr>fcode = [], flineinfo = [], fk = [], fh = \<lparr>flags = 255, lsizenode = 0, array = [], nodes = [dummynode], dummy = True, lastfree = 0\<rparr>,
      fh_addr = 0, fpc = 0, lasttarget = - 1, jpc = NO_JUMP, freereg = 0, nactvar = 0, maxstacksize = 2, lastline = 0,
      f_bl = [], f_locvars = [], f_actvar = replicate (nat LUAI_MAXVARS) 0, f_p = [], f_upvalues = [], f_updescs = [],
      f_linedefined = 0, f_lastlinedefined = 0, f_numparams = 0, f_is_vararg = 2, f_source = []\<rparr>"

definition at_end :: "ParFunc list \<Rightarrow> bytes PLex" where
  "at_end fss = \<lparr>current = - 1, linenumber = 1, lxlastline = 1, tok = \<lparr>token = tk TK_EOS, seminfo = NoInfo\<rparr>,
    lookahead = \<lparr>token = tk TK_EOS, seminfo = NoInfo\<rparr>, lfs = fss, zio = \<lparr>zn = 2 ^ 64 - 1, zp = [], zdata = []\<rparr>, buff = [], buffsize = 32, source = [], decpoint = 46\<rparr>"

lemma input_empty: "luaX_setinput plain_env (luaZ_init []) [] blank_lex = Inr ((at_end [])\<lparr>tok := \<lparr>token = 0, seminfo = NoInfo\<rparr>\<rparr>)"
  by (simp add: luaX_setinput_def next_char_def zgetc_def luaZ_fill_def luaZ_init_def getS_def blank_lex_def at_end_def EOZ_def LUA_MINBUFFER_def)

lemma new_table: "luaH_new 0 0 = Inr \<lparr>flags = 255, lsizenode = 0, array = [], nodes = [dummynode], dummy = True, lastfree = 0\<rparr>" by code_simp

lemma ret_empty: "luaK_ret ((FuncState.truncate empty_fs)\<lparr>lastline := 1\<rparr>) 0 0
  = Inr ((FuncState.truncate empty_fs)\<lparr>lastline := 1, fcode := [CREATE_ABC (opnum OP_RETURN) 0 1 0], flineinfo := [1], fpc := 1\<rparr>)"
  by (simp add: luaK_ret_def luaK_codeABC_def luaK_code_def dischargejpc_def patchlistaux_def put_def empty_fs_def FuncState.defs MAX_INT_def int_max_def)

lemma empty_main:
  "main_func (Suc d) (penv 1) \<lparr>pls = (at_end [])\<lparr>tok := \<lparr>token = 0, seminfo = NoInfo\<rparr>\<rparr>, nCcalls = 0\<rparr>
    = Inr (Proto [] [CREATE_ABC (opnum OP_RETURN) 0 1 0] [] [1] [] [] (Some []) 0 0 0 0 2 2, \<lparr>pls = at_end [], nCcalls = 0\<rparr>)"
proof -
  let ?T = "\<lambda>ls. ls\<lparr>tok := \<lparr>token = 0, seminfo = NoInfo\<rparr>\<rparr> :: bytes PLex"
  let ?S = "\<lparr>pls = at_end [empty_fs], nCcalls = 0\<rparr>"
  let ?g = "empty_fs\<lparr>lastline := 1, fcode := [CREATE_ABC (opnum OP_RETURN) 0 1 0], flineinfo := [1], fpc := 1\<rparr>"
  have 1: "open_func \<lparr>pls = ?T (at_end []), nCcalls = 0\<rparr> = Inr ((), \<lparr>pls = ?T (at_end [empty_fs\<lparr>f_is_vararg := 0\<rparr>]), nCcalls = 0\<rparr>)"
    by (simp add: open_func_def lexs_def lexv_def new_table at_end_def empty_fs_def)
  have 2: "set_vararg (\<lambda>_. VARARG_ISVARARG) \<lparr>pls = ?T (at_end [empty_fs\<lparr>f_is_vararg := 0\<rparr>]), nCcalls = 0\<rparr> = Inr ((), \<lparr>pls = ?T (at_end [empty_fs]), nCcalls = 0\<rparr>)"
    by (simp add: set_vararg_def fsset_def onfs_def lexv_def at_end_def empty_fs_def VARARG_ISVARARG_def)
  have 3: "pnext (penv 1) \<lparr>pls = ?T (at_end [empty_fs]), nCcalls = 0\<rparr> = Inr ((), ?S)"
    by (simp add: pnext_def penv_def lexs_def lexv_def luaX_next_def at_end_def llex_def currIsNewline_def EOZ_def)
  have e: "enterlevel ?S = Inr ((), ?S\<lparr>nCcalls := 1\<rparr>)" by (simp add: enterlevel_def LUAI_MAXCCALLS_def)
  have l: "chunk_loop (fuel (penv 1)) (penv 1) x c (?S\<lparr>nCcalls := 1\<rparr>) = Inr ((), ?S\<lparr>nCcalls := 1\<rparr>)" for x c
    by (simp add: penv_def pbind_def pget_def preturn_def at_end_def block_follow_def)
  have 4: "chunk (Suc d) (penv 1) ?S = Inr ((), ?S)"
    by (simp only: chunk.simps chunk_body_def pseq_step [where m = enterlevel, OF e] pseq_step [where m = "chunk_loop a b c d" for a b c d, OF l]) (simp add: leavelevel_def)
  have 5: "check_token (tk TK_EOS) ?S = Inr ((), ?S)" by (simp add: check_token_def pbind_def pget_def preturn_def at_end_def)
  have v: "onfs (\<lambda>ls fs. sbind (removevars fs 0) (\<lambda>fs. Inr ((), fs))) ?S = Inr ((), ?S)"
    by (simp add: onfs_def lexv_def at_end_def removevars_def empty_fs_def)
  have r: "codes (\<lambda>fs. luaK_ret fs 0 0) ?S = Inr ((), ?S\<lparr>pls := at_end [?g]\<rparr>)"
    by (subst codes_Inr) (simp add: code_step_def at_end_def ret_empty, simp add: empty_fs_def FuncState.defs)
  have 6: "close_func (penv 1) ?S = Inr (?g, \<lparr>pls = at_end [], nCcalls = 0\<rparr>)"
    by (simp only: close_func_def pseq_step [where m = "onfs a" for a, OF v] pseq_step [where m = "codes a" for a, OF r]) (simp add: pseq_def pbind_def lexv_def lexs_def at_end_def anchor_token_def preturn_def)
  show ?thesis
    by (simp only: main_func_def pseq_step [where m = open_func, OF 1] pseq_step [where m = "set_vararg g" for g, OF 2] pseq_step [where m = "pnext E" for E, OF 3] pseq_step [where m = "chunk a b" for a b, OF 4] pseq_step [where m = "check_token a" for a, OF 5] pbind_step [where m = "close_func E" for E, OF 6])
      (simp add: preturn_def proto_of_def empty_fs_def)
qed
text \<open>The text \<open>local x\<close> to its end, in a function with a variable of the same name in the first register.\<close>

definition with_x :: ParFunc where
  "with_x = empty_fs\<lparr>nactvar := 1, freereg := 1, f_locvars := [\<lparr>varname = Some [120], startpc = 0, endpc = 0\<rparr>]\<rparr>"

definition at_local :: "bytes ParState" where
  "at_local = \<lparr>pls = (at_end [with_x])\<lparr>tok := \<lparr>token = tk TK_LOCAL, seminfo = NoInfo\<rparr>,
    lookahead := \<lparr>token = tk TK_NAME, seminfo = SemTs [120]\<rparr>\<rparr>, nCcalls = 0\<rparr>"

definition after_local :: "bytes ParState" where
  "after_local = \<lparr>pls = (at_end [with_x\<lparr>f_locvars := [\<lparr>varname = Some [120], startpc = 0, endpc = 0\<rparr>, \<lparr>varname = Some [120], startpc = 0, endpc = 0\<rparr>],
    f_actvar := (replicate (nat LUAI_MAXVARS) 0)[1 := 1], lasttarget := 0, lastline := 1\<rparr>])
    \<lparr>tok := \<lparr>token = tk TK_EOS, seminfo = SemTs [120]\<rparr>, lookahead := \<lparr>token = tk TK_EOS, seminfo = SemTs [120]\<rparr>\<rparr>, nCcalls = 0\<rparr>"

lemma at_local_ok: "state_ok at_local"
  by (simp add: at_local_def state_ok_def func_ok_def code_ok_def vars_ok_def params_ok_def levels_def with_x_def empty_fs_def at_end_def
      FuncState.defs LUAI_MAXVARS_def MAXSTACK_def VARARG_HASARG_def VARARG_NEEDSARG_def)

lemma block_local: "block (chunk (Suc d) (penv 3)) at_local = Inr ((), after_local)"
  by (simp add: block_def at_local_def after_local_def penv_def pseq_def pbind_def pget_def preturn_def plift_def onfs_def lexv_def lexs_def fsset_def fsget_def
      enterblock_def leaveblock_def removevars_def emit_def codes_def code_def code_step_def enterlevel_def leavelevel_def chunk_body_def
      statement_def localstat_def str_checkname_def check_token_def testnext_def pnext_def luaX_next_def llex_def currIsNewline_def EOZ_def
      new_localvar_def luaY_checklimit_def registerlocalvar_def set_actvar_def adjust_assign_def hasmultret_def adjustlocalvars_def
      block_follow_def luaK_reserveregs_def luaK_checkstack_def luaK_nil_def updlocvar_def getlocvar_def luaK_patchtohere_def luaK_getlabel_def luaK_concat_def
      init_exp_def with_x_def empty_fs_def at_end_def FuncState.defs rd_def LUAI_MAXCCALLS_def LUAI_MAXVARS_def SHRT_MAX_def MAXSTACK_def NO_JUMP_def
      numeral_3_eq_3 Let_def)

section \<open>Properties\<close>

text \<open>
  C38: lexical scope. A block leaves every name bound as it was, in the function being compiled and in those around it: what it
  declares is not visible after it, and what it hides is visible again.
\<close>

theorem block_scope:
  assumes "state_ok s" "block (chunk d E) s = Inr (u, s')"
  shows "same_bindings s s'"
proof -
  have "keeps (block (chunk d E))" by (rule keeps_block) (use rules_scope [of d E] in simp)
  then show ?thesis using assms Same_bindings unfolding keeps_def by blast
qed

theorem block_scope_witness: "\<exists>s'. block (chunk 201 (penv 3)) at_local = Inr ((), s') \<and> same_bindings at_local s'
    \<and> map varname (f_locvars (hd (funcs s'))) = [Some [120], Some [120]]"
  using block_scope [OF at_local_ok block_local [of 200]] block_local [of 200] by (simp add: after_local_def at_end_def with_x_def)

text \<open>
  C37: what the parser makes. If a text compiles, the prototype of the main function and those of all the functions in it pass
  the checks with which \<open>luaG_checkcode\<close> starts: the stack has room for the parameters and is within its limit, the flags of a
  vararg function are consistent, there is a line for each instruction, and the code ends with a return.
\<close>

theorem parser_well_made:
  assumes "luaY_parser E ls0 c z name = Inr pt"
  shows "well_made pt"
proof -
  obtain ls s' where ls: "luaX_setinput (plex E) z name ls0 = Inr ls" and m: "main_func (LUAI_MAXCCALLS + 1) E \<lparr>pls = ls, nCcalls = c\<rparr> = Inr (pt, s')"
    using assms by (auto simp: luaY_parser_def sbind_eq_Inr_iff)
  let ?s = "\<lparr>pls = ls, nCcalls = c\<rparr>" and ?d = "LUAI_MAXCCALLS + 1"
  have "funcs ?s = []" using ls by (auto simp: luaX_setinput_def next_char_def sbind_eq_Inr_iff)
  obtain s1 s2 f where s1: "open_func ?s = Inr ((), s1)"
    and s2: "pseq (set_vararg (\<lambda>_. VARARG_ISVARARG)) (pseq (pnext E) (pseq (chunk ?d E) (check_token (tk TK_EOS)))) s1 = Inr ((), s2)"
    and c: "close_func E s2 = Inr (f, s')" "pt = proto_of f"
    using m by (force simp: main_func_def pseq_def pbind_Inr preturn_def)
  have o: "state_ok s1" "levels (hd (funcs s1)) = []" "Fresh {0} s1 s1" using open_func_ok [OF s1] \<open>funcs ?s = []\<close> by simp_all
  have v: "trip (Fresh {0} s1) (set_vararg (\<lambda>_. VARARG_ISVARARG)) (Fresh {2} s1)"
    by (rule set_vararg_Fresh) (simp_all add: VARARG_ISVARARG_def VARARG_NEEDSARG_def)
  have ch: "extends (chunk ?d E)" by (rule rules_scope [THEN conjunct2])
  have "trip (Inside 0 s1) (pseq (pnext E) (pseq (chunk ?d E) (check_token (tk TK_EOS)))) (Inside 0 s1)"
    by (rule trip_pseq | (rule trip_extends, rule ch) | (rule trip_Inside, rule kp))+
  then have "trip (Fresh {0} s1) (pseq (set_vararg (\<lambda>_. VARARG_ISVARARG)) (pseq (pnext E) (pseq (chunk ?d E) (check_token (tk TK_EOS))))) (Inside 0 s1)"
    by (intro trip_pseq [OF v]) (rule trip_mono, assumption, simp_all add: Fresh_def)
  then have i: "Inside 0 s1 s2" using s2 o(3) unfolding trip_def by blast
  then have "f_bl (hd (funcs s2)) = []" using o(2) by (simp add: Inside_def inside_def levels_def)
  then show ?thesis using close_func_ok [OF c(1) Inside_ok [OF i]] c(2) by simp
qed

theorem parser_well_made_witness: "well_made (Proto [] [CREATE_ABC (opnum OP_RETURN) 0 1 0] [] [1] [] [] (Some []) 0 0 0 0 2 2)"
  using parser_well_made [of "penv 1" blank_lex 0 "luaZ_init []" "[]"] empty_main [of 200]
  by (simp add: luaY_parser_def input_empty penv_def LUAI_MAXCCALLS_def)

text \<open>
  C39: the recursion of the parser is bounded. With \<open>c\<close> C calls in progress expressions and chunks nest at most \<open>200 - c\<close>
  deep, whatever the text is: a model that allows more levels than are left gives the same prototype or the same error.
\<close>

theorem nesting_bounded:
  assumes "0 < d" "LUAI_MAXCCALLS < d + nCcalls s"
  shows "chunk (d + k) E s = chunk d E s \<and> expr (d + k) E s = expr d E s"
proof -
  have a: "agree (nCcalls s) (nCcalls s) (subexpr d E 0) (subexpr (d + k) E 0)" "agree (nCcalls s) (nCcalls s) (chunk d E) (chunk (d + k) E)"
    using rules_agree [OF assms, of E 0 k] by simp_all
  have "agree (nCcalls s) (nCcalls s) (expr d E) (expr (d + k) E)"
    unfolding expr_def split_beta by (rule ag_rules a)+
  then show ?thesis using agreeD [OF a(2)] agreeD by blast
qed

theorem nesting_bounded_witness:
  "chunk (201 + 7) (penv 3) at_local = chunk 201 (penv 3) at_local \<and> expr (201 + 7) (penv 3) at_local = expr 201 (penv 3) at_local"
  using nesting_bounded [of 201 at_local 7 "penv 3"] by (simp add: at_local_def LUAI_MAXCCALLS_def)

end
