(* ===== verification/LGC.thy ===== *)
theory LGC
  imports LObject
begin

text \<open>
  The incremental mark and sweep collector, \<open>lgc.c\<close>, with the functions of \<open>lfunc.c\<close> and \<open>lstring.c\<close> that it calls
  or that allocate objects. The heap maps addresses to objects; the lists that run through the fields \<open>next\<close> and
  \<open>gclist\<close> are lists of addresses. Using an object that is not there is a fault.
\<close>

section \<open>Objects\<close>

text \<open>A value is nil, another value that is not collectable, or the reference to an object; a key of a node may be dead.\<close>

datatype gvalue = VNil | VPlain | VRef nat

datatype gkey = KVal gvalue | KDead nat

record gnode =
  g_key :: gkey
  g_val :: gvalue

record gtable =
  tb_meta :: "nat option"
  tb_array :: "gvalue list"
  tb_nodes :: "gnode list"
  tb_flags :: byte

text \<open>Of the calls of a thread the collector uses the tops; the stack has \<open>stacksize\<close> elements.\<close>

record gthread =
  th_gt :: gvalue
  th_stack :: "gvalue list"
  th_top :: nat
  th_citops :: "nat list"
  th_size_ci :: nat
  th_open :: "nat list"

record gudata =
  ud_meta :: "nat option"
  ud_env :: nat
  ud_len :: nat

datatype gclosure = CClosure nat "gvalue list" | LClosure nat nat "nat option list"

record gproto =
  pr_source :: "nat option"
  pr_k :: "gvalue list"
  pr_upvalues :: "nat option list"
  pr_p :: "nat option list"
  pr_locvars :: "nat option list"
  pr_sizecode :: nat
  pr_sizelineinfo :: nat

text \<open>An open upvalue is a place in the stack of a thread.\<close>

datatype uvloc = Closed gvalue | Open nat nat

datatype gcbody = BString bytes | BUdata gudata | BUpVal uvloc | BFunction gclosure | BTable gtable | BThread gthread | BProto gproto

record gcobj =
  marked :: byte
  body :: gcbody

text \<open>The sizes in bytes: of \<open>TString\<close> 24, \<open>Udata\<close> 40, \<open>Table\<close> 64, \<open>TValue\<close> 16, \<open>Node\<close> 40, \<open>UpVal\<close> 40, \<open>Proto\<close> 120, \<open>lua_State\<close> 184.\<close>

fun object_size :: "gcbody \<Rightarrow> nat" where
  "object_size (BString s) = 24 + (length s + 1)"
| "object_size (BUdata u) = 40 + ud_len u"
| "object_size (BUpVal _) = 40"
| "object_size (BFunction (CClosure _ vs)) = 40 + 16 * length vs"
| "object_size (BFunction (LClosure _ _ us)) = 40 + 8 * length us"
| "object_size (BTable t) = 64 + 16 * length (tb_array t) + 40 * length (tb_nodes t)"
| "object_size (BThread t) = 184 + 16 * length (th_stack t) + 40 * th_size_ci t"
| "object_size (BProto p) = 120 + 4 * pr_sizecode p + 8 * length (pr_p p) + 16 * length (pr_k p) + 4 * pr_sizelineinfo p
    + 16 * length (pr_locvars p) + 8 * length (pr_upvalues p)"

section \<open>Marks\<close>

definition WHITEBITS :: byte where "WHITEBITS = 3"
definition BLACKBIT :: byte where "BLACKBIT = 4"
definition FINALIZEDBIT :: byte where "FINALIZEDBIT = 8"
definition KEYWEAK :: byte where "KEYWEAK = 8"
definition VALUEWEAK :: byte where "VALUEWEAK = 16"
definition FIXEDBIT :: byte where "FIXEDBIT = 32"
definition SFIXEDBIT :: byte where "SFIXEDBIT = 64"

definition iswhite :: "byte \<Rightarrow> bool" where "iswhite m = (m AND WHITEBITS \<noteq> 0)"
definition isblack :: "byte \<Rightarrow> bool" where "isblack m = (m AND BLACKBIT \<noteq> 0)"
definition isgray :: "byte \<Rightarrow> bool" where "isgray m = (\<not> isblack m \<and> \<not> iswhite m)"

definition white2gray :: "byte \<Rightarrow> byte" where "white2gray m = m AND NOT WHITEBITS"
definition gray2black :: "byte \<Rightarrow> byte" where "gray2black m = m OR BLACKBIT"
definition black2gray :: "byte \<Rightarrow> byte" where "black2gray m = m AND NOT BLACKBIT"
definition changewhite :: "byte \<Rightarrow> byte" where "changewhite m = m XOR WHITEBITS"

datatype gcphase = GCSpause | GCSpropagate | GCSsweepstring | GCSsweep | GCSfinalize

text \<open>
  The lists that are swept: all objects, the strings of a bucket, the open upvalues of a thread. A position in one is the
  object after whose field \<open>next\<close> it is, or None for the head.
\<close>

datatype gclist = LRoot | LBucket nat | LOpen nat

record gstate =
  heap :: "nat \<Rightarrow> gcobj option"
  strt :: "nat list list"
  strt_nuse :: nat
  currentwhite :: byte
  gcstate :: gcphase
  sweepstrgc :: nat
  rootgc :: "nat list"
  sweepgc :: "nat option"
  gray :: "nat list"
  grayagain :: "nat list"
  weak :: "nat list"
  tmudata :: "nat list"
  gbuff_size :: nat
  GCthreshold :: "64 word"
  totalbytes :: "64 word"
  estimate :: "64 word"
  gcdept :: "64 word"
  gcpause :: int
  gcstepmul :: int
  registry :: gvalue
  mainthread :: nat
  uvhead :: "nat list"
  mt :: "nat option list"
  tmname :: "nat list"

definition otherwhite :: "gstate \<Rightarrow> byte" where "otherwhite g = currentwhite g XOR WHITEBITS"
definition luaC_white :: "gstate \<Rightarrow> byte" where "luaC_white g = currentwhite g AND WHITEBITS"
definition isdead :: "gstate \<Rightarrow> byte \<Rightarrow> bool" where "isdead g m = (m AND otherwhite g AND WHITEBITS \<noteq> 0)"
definition makewhite :: "gstate \<Rightarrow> byte \<Rightarrow> byte" where "makewhite g m = (m AND NOT (BLACKBIT OR WHITEBITS)) OR luaC_white g"

text \<open>Reading an object, and changing its marks or its body.\<close>

definition obj :: "gstate \<Rightarrow> nat \<Rightarrow> gcobj lres" where
  "obj g a = (case heap g a of None \<Rightarrow> Inl (CFault ReadOOB) | Some x \<Rightarrow> Inr x)"

definition put_obj :: "nat \<Rightarrow> gcobj \<Rightarrow> gstate \<Rightarrow> gstate" where
  "put_obj a x g = g\<lparr>heap := (heap g)(a \<mapsto> x)\<rparr>"

definition remark :: "(byte \<Rightarrow> byte) \<Rightarrow> nat \<Rightarrow> gstate \<Rightarrow> gstate lres" where
  "remark f a g = sbind (obj g a) (\<lambda>x. Inr (put_obj a (x\<lparr>marked := f (marked x)\<rparr>) g))"

definition set_body :: "gcbody \<Rightarrow> nat \<Rightarrow> gstate \<Rightarrow> gstate lres" where
  "set_body b a g = sbind (obj g a) (\<lambda>x. Inr (put_obj a (x\<lparr>body := b\<rparr>) g))"

text \<open>The accounting of \<open>luaM_realloc_\<close>, for a block of one size that gets another.\<close>

definition account :: "nat \<Rightarrow> nat \<Rightarrow> gstate \<Rightarrow> gstate" where
  "account osize nsize g = g\<lparr>totalbytes := (totalbytes g - of_nat osize) + of_nat nsize\<rparr>"

text \<open>An operation for every element of a list.\<close>

fun each :: "('x \<Rightarrow> 's \<Rightarrow> 's lres) \<Rightarrow> 'x list \<Rightarrow> 's \<Rightarrow> 's lres" where
  "each f [] s = Inr s"
| "each f (x # xs) s = sbind (f x s) (each f xs)"

text \<open>The value at which an upvalue points.\<close>

definition uv_value :: "gstate \<Rightarrow> uvloc \<Rightarrow> gvalue lres" where
  "uv_value g u = (case u of
      Closed v \<Rightarrow> Inr v
    | Open th i \<Rightarrow> sbind (obj g th) (\<lambda>x. case body x of BThread t \<Rightarrow> lift (rd (th_stack t) i) | _ \<Rightarrow> Inl (CFault ReadOOB)))"

section \<open>Marking\<close>

text \<open>The calls nest: an upvalue, its value that is a userdata, the metatable of that.\<close>

fun reallymark :: "nat \<Rightarrow> nat \<Rightarrow> gstate \<Rightarrow> gstate lres" where
  "reallymark 0 a g = Inl (CFault Diverge)"
| "reallymark (Suc d) a g =
    (let markobject = (\<lambda>b g. sbind (obj g b) (\<lambda>y. if iswhite (marked y) then reallymark d b g else Inr g)) in
     sbind (remark white2gray a g) (\<lambda>g.
     sbind (obj g a) (\<lambda>x.
     case body x of
       BString _ \<Rightarrow> Inr g
     | BUdata u \<Rightarrow>
         sbind (remark gray2black a g) (\<lambda>g.
         sbind (case ud_meta u of Some b \<Rightarrow> markobject b g | None \<Rightarrow> Inr g) (markobject (ud_env u)))
     | BUpVal l \<Rightarrow>
         sbind (uv_value g l) (\<lambda>v.
         sbind (case v of VRef b \<Rightarrow> markobject b g | _ \<Rightarrow> Inr g) (\<lambda>g.
         case l of Closed _ \<Rightarrow> remark gray2black a g | Open _ _ \<Rightarrow> Inr g))
     | _ \<Rightarrow> Inr (g\<lparr>gray := a # gray g\<rparr>))))"

definition reallymarkobject :: "nat \<Rightarrow> gstate \<Rightarrow> gstate lres" where
  "reallymarkobject = reallymark 3"

definition markobject :: "nat \<Rightarrow> gstate \<Rightarrow> gstate lres" where
  "markobject a g = sbind (obj g a) (\<lambda>x. if iswhite (marked x) then reallymarkobject a g else Inr g)"

definition markvalue :: "gvalue \<Rightarrow> gstate \<Rightarrow> gstate lres" where
  "markvalue v g = (case v of VRef a \<Rightarrow> markobject a g | _ \<Rightarrow> Inr g)"

definition markopt :: "nat option \<Rightarrow> gstate \<Rightarrow> gstate lres" where
  "markopt p g = (case p of Some a \<Rightarrow> markobject a g | None \<Rightarrow> Inr g)"

definition stringmark :: "nat \<Rightarrow> gstate \<Rightarrow> gstate lres" where
  "stringmark = remark white2gray"

definition stringmark_opt :: "nat option \<Rightarrow> gstate \<Rightarrow> gstate lres" where
  "stringmark_opt p g = (case p of Some a \<Rightarrow> stringmark a g | None \<Rightarrow> Inr g)"

text \<open>A dead key still refers to its object, which may be gone.\<close>

definition key_value :: "gkey \<Rightarrow> gvalue" where
  "key_value k = (case k of KVal v \<Rightarrow> v | KDead a \<Rightarrow> VRef a)"

section \<open>Tag methods\<close>

definition TM_GC :: nat where "TM_GC = 2"
definition TM_MODE :: nat where "TM_MODE = 3"

text \<open>\<open>luaH_getstr\<close>: the value of the key that is this string.\<close>

definition node_getstr :: "gtable \<Rightarrow> nat \<Rightarrow> gvalue" where
  "node_getstr t a = (case find (\<lambda>n. g_key n = KVal (VRef a)) (tb_nodes t) of Some n \<Rightarrow> g_val n | None \<Rightarrow> VNil)"

definition as_table :: "gstate \<Rightarrow> nat \<Rightarrow> gtable lres" where
  "as_table g a = sbind (obj g a) (\<lambda>x. case body x of BTable t \<Rightarrow> Inr t | _ \<Rightarrow> Inl (CFault ReadOOB))"

definition luaT_gettm :: "nat \<Rightarrow> nat \<Rightarrow> nat \<Rightarrow> gstate \<Rightarrow> (gvalue option \<times> gstate) lres" where
  "luaT_gettm events event ename g =
    sbind (as_table g events) (\<lambda>t.
    let tm = node_getstr t ename in
    if tm = VNil then
      sbind (set_body (BTable (t\<lparr>tb_flags := tb_flags t OR push_bit event 1\<rparr>)) events g) (\<lambda>g. Inr (None, g))
    else Inr (Some tm, g))"

definition gfasttm :: "nat option \<Rightarrow> nat \<Rightarrow> gstate \<Rightarrow> (gvalue option \<times> gstate) lres" where
  "gfasttm et e g = (case et of
      None \<Rightarrow> Inr (None, g)
    | Some m \<Rightarrow>
        sbind (as_table g m) (\<lambda>t.
        if tb_flags t AND push_bit e 1 \<noteq> 0 then Inr (None, g)
        else sbind (lift (rd (tmname g) e)) (\<lambda>ename. luaT_gettm m e ename g)))"

section \<open>Traversing\<close>

text \<open>\<open>setttype(gkey(n), LUA_TDEADKEY)\<close> for a key that is collectable.\<close>

definition removeentry :: "gnode \<Rightarrow> gnode" where
  "removeentry n = n\<lparr>g_key := (case g_key n of KVal (VRef a) \<Rightarrow> KDead a | k \<Rightarrow> k)\<rparr>"

text \<open>Whether there is a \<open>k\<close> or a \<open>v\<close> in the mode, when that is a string.\<close>

definition weak_mode :: "gvalue option \<Rightarrow> gstate \<Rightarrow> (bool \<times> bool) lres" where
  "weak_mode mode g = (case mode of
      Some (VRef a) \<Rightarrow>
        sbind (obj g a) (\<lambda>x. case body x of
          BString s \<Rightarrow> (let c = takeWhile (\<lambda>b. b \<noteq> 0) s in Inr (107 \<in> set c, 118 \<in> set c))
        | _ \<Rightarrow> Inr (False, False))
    | _ \<Rightarrow> Inr (False, False))"

definition traverse_node :: "bool \<Rightarrow> bool \<Rightarrow> gnode \<Rightarrow> gstate \<Rightarrow> gstate lres" where
  "traverse_node weakkey weakvalue n g =
    (if g_val n = VNil then Inr g
     else
       sbind (if weakkey then Inr g else markvalue (key_value (g_key n)) g) (\<lambda>g.
       if weakvalue then Inr g else markvalue (g_val n) g))"

definition clear_empty :: "gtable \<Rightarrow> gtable" where
  "clear_empty t = t\<lparr>tb_nodes := map (\<lambda>n. if g_val n = VNil then removeentry n else n) (tb_nodes t)\<rparr>"

definition traversetable :: "nat \<Rightarrow> gstate \<Rightarrow> (bool \<times> gstate) lres" where
  "traversetable h g =
    sbind (as_table g h) (\<lambda>t0.
    sbind (markopt (tb_meta t0) g) (\<lambda>g.
    sbind (gfasttm (tb_meta t0) TM_MODE g) (\<lambda>(mode, g).
    sbind (weak_mode mode g) (\<lambda>(weakkey, weakvalue).
    sbind (if weakkey \<or> weakvalue then
             sbind (remark (\<lambda>m. (m AND NOT (KEYWEAK OR VALUEWEAK)) OR (if weakkey then KEYWEAK else 0) OR (if weakvalue then VALUEWEAK else 0)) h g)
               (\<lambda>g. Inr (g\<lparr>weak := h # weak g\<rparr>))
           else Inr g) (\<lambda>g.
    if weakkey \<and> weakvalue then Inr (True, g)
    else
      sbind (as_table g h) (\<lambda>t.
      sbind (if weakvalue then Inr g else each markvalue (rev (tb_array t)) g) (\<lambda>g.
      sbind (each (traverse_node weakkey weakvalue) (rev (tb_nodes t)) g) (\<lambda>g.
      sbind (as_table g h) (\<lambda>t.
      sbind (set_body (BTable (clear_empty t)) h g) (\<lambda>g. Inr (weakkey \<or> weakvalue, g)))))))))))"

definition traverseproto :: "gproto \<Rightarrow> gstate \<Rightarrow> gstate lres" where
  "traverseproto f g =
    sbind (stringmark_opt (pr_source f) g) (\<lambda>g.
    sbind (each markvalue (pr_k f) g) (\<lambda>g.
    sbind (each stringmark_opt (pr_upvalues f) g) (\<lambda>g.
    sbind (each markopt (pr_p f) g) (each stringmark_opt (pr_locvars f)))))"

text \<open>An upvalue that is missing is a null pointer.\<close>

definition markupval :: "nat option \<Rightarrow> gstate \<Rightarrow> gstate lres" where
  "markupval u g = (case u of Some a \<Rightarrow> markobject a g | None \<Rightarrow> Inl (CFault NullDeref))"

fun traverseclosure :: "gclosure \<Rightarrow> gstate \<Rightarrow> gstate lres" where
  "traverseclosure (CClosure env vs) g = sbind (markobject env g) (each markvalue vs)"
| "traverseclosure (LClosure env p us) g = sbind (markobject env g) (\<lambda>g. sbind (markobject p g) (each markupval us))"

definition EXTRA_STACK :: nat where "EXTRA_STACK = 5"
definition BASIC_STACK_SIZE :: nat where "BASIC_STACK_SIZE = 40"
definition BASIC_CI_SIZE :: nat where "BASIC_CI_SIZE = 8"
definition LUAI_MAXCALLS :: nat where "LUAI_MAXCALLS = 20000"

definition checkstacksizes :: "nat \<Rightarrow> gthread \<Rightarrow> gthread" where
  "checkstacksizes s_used t =
    (let ci_used = length (th_citops t) - 1 in
     if th_size_ci t > LUAI_MAXCALLS then t
     else
       (let t = (if 4 * ci_used < th_size_ci t \<and> 2 * BASIC_CI_SIZE < th_size_ci t then t\<lparr>th_size_ci := th_size_ci t div 2\<rparr> else t);
            stacksize = length (th_stack t)
        in if 4 * s_used < stacksize \<and> 2 * (BASIC_STACK_SIZE + EXTRA_STACK) < stacksize
           then t\<lparr>th_stack := take (stacksize div 2 + 1 + EXTRA_STACK) (th_stack t)\<rparr> else t))"

text \<open>The part of the stack from \<open>top\<close> to the limit, that one too, becomes nil.\<close>

fun nil_from :: "nat \<Rightarrow> nat \<Rightarrow> gvalue list \<Rightarrow> gvalue list lres" where
  "nil_from o' 0 st = Inr st"
| "nil_from o' (Suc k) st = sbind (lift (wr st o' VNil)) (nil_from (o' + 1) k)"

definition traversestack :: "nat \<Rightarrow> gstate \<Rightarrow> gstate lres" where
  "traversestack a g =
    sbind (obj g a) (\<lambda>x. case body x of
      BThread t \<Rightarrow>
        sbind (markvalue (th_gt t) g) (\<lambda>g.
        let lim = fold max (th_citops t) (th_top t) in
        if th_top t \<le> length (th_stack t) then
          sbind (each markvalue (take (th_top t) (th_stack t)) g) (\<lambda>g.
          sbind (nil_from (th_top t) (lim + 1 - th_top t) (th_stack t)) (\<lambda>st.
          (let t' = checkstacksizes lim (t\<lparr>th_stack := st\<rparr>) in
           set_body (BThread t') a (account (object_size (BThread t)) (object_size (BThread t')) g))))
        else Inl (CFault ReadOOB))
    | _ \<Rightarrow> Inl (CFault ReadOOB))"

text \<open>One gray object is traversed; the number of bytes traversed.\<close>

definition propagatemark :: "gstate \<Rightarrow> (nat \<times> gstate) lres" where
  "propagatemark g =
    (case gray g of
       [] \<Rightarrow> Inl (CFault NullDeref)
     | a # rest \<Rightarrow>
         sbind (remark gray2black a g) (\<lambda>g.
         sbind (obj g a) (\<lambda>x.
         let g = g\<lparr>gray := rest\<rparr> in
         case body x of
           BTable _ \<Rightarrow>
             sbind (traversetable a g) (\<lambda>(w, g).
             sbind (if w then remark black2gray a g else Inr g) (\<lambda>g. Inr (object_size (body x), g)))
         | BFunction cl \<Rightarrow> sbind (traverseclosure cl g) (\<lambda>g. Inr (object_size (body x), g))
         | BThread _ \<Rightarrow>
             sbind (remark black2gray a (g\<lparr>grayagain := a # grayagain g\<rparr>)) (\<lambda>g.
             sbind (traversestack a g) (\<lambda>g.
             sbind (obj g a) (\<lambda>y. Inr (object_size (body y), g))))
         | BProto p \<Rightarrow> sbind (traverseproto p g) (\<lambda>g. Inr (object_size (body x), g))
         | _ \<Rightarrow> Inr (0, g))))"

text \<open>Fuel: a number above that of the objects that are white or in the list.\<close>

fun propagateall :: "nat \<Rightarrow> gstate \<Rightarrow> (nat \<times> gstate) lres" where
  "propagateall 0 g = Inl (CFault Diverge)"
| "propagateall (Suc n) g =
    (if gray g = [] then Inr (0, g)
     else
       sbind (propagatemark g) (\<lambda>(m, g).
       sbind (propagateall n g) (\<lambda>(m', g). Inr (m + m', g))))"

section \<open>Weak tables\<close>

text \<open>The mark of a string is set on the way.\<close>

definition iscleared :: "gvalue \<Rightarrow> bool \<Rightarrow> gstate \<Rightarrow> (bool \<times> gstate) lres" where
  "iscleared v iskey g = (case v of
      VRef a \<Rightarrow>
        sbind (obj g a) (\<lambda>x. case body x of
          BString _ \<Rightarrow> sbind (stringmark a g) (\<lambda>g. Inr (False, g))
        | BUdata _ \<Rightarrow> Inr (iswhite (marked x) \<or> \<not> iskey \<and> marked x AND FINALIZEDBIT \<noteq> 0, g)
        | _ \<Rightarrow> Inr (iswhite (marked x), g))
    | _ \<Rightarrow> Inr (False, g))"

fun clear_values :: "gvalue list \<Rightarrow> gstate \<Rightarrow> (gvalue list \<times> gstate) lres" where
  "clear_values [] g = Inr ([], g)"
| "clear_values (v # vs) g =
    sbind (clear_values vs g) (\<lambda>(vs, g).
    sbind (iscleared v False g) (\<lambda>(c, g). Inr ((if c then VNil else v) # vs, g)))"

definition clear_node :: "gnode \<Rightarrow> gstate \<Rightarrow> (gnode \<times> gstate) lres" where
  "clear_node n g =
    (if g_val n = VNil then Inr (n, g)
     else
       sbind (iscleared (key_value (g_key n)) True g) (\<lambda>(c, g).
       if c then Inr (removeentry (n\<lparr>g_val := VNil\<rparr>), g)
       else
         sbind (iscleared (g_val n) False g) (\<lambda>(c, g).
         Inr (if c then removeentry (n\<lparr>g_val := VNil\<rparr>) else n, g))))"

fun clear_nodes :: "gnode list \<Rightarrow> gstate \<Rightarrow> (gnode list \<times> gstate) lres" where
  "clear_nodes [] g = Inr ([], g)"
| "clear_nodes (n # ns) g =
    sbind (clear_nodes ns g) (\<lambda>(ns, g). sbind (clear_node n g) (\<lambda>(n, g). Inr (n # ns, g)))"

definition clear_one :: "nat \<Rightarrow> gstate \<Rightarrow> gstate lres" where
  "clear_one h g =
    sbind (obj g h) (\<lambda>x. case body x of
      BTable t \<Rightarrow>
        sbind (if marked x AND VALUEWEAK \<noteq> 0 then clear_values (tb_array t) g else Inr (tb_array t, g)) (\<lambda>(vs, g).
        sbind (clear_nodes (tb_nodes t) g) (\<lambda>(ns, g).
        set_body (BTable (t\<lparr>tb_array := vs, tb_nodes := ns\<rparr>)) h g))
    | _ \<Rightarrow> Inl (CFault ReadOOB))"

definition cleartable :: "nat list \<Rightarrow> gstate \<Rightarrow> gstate lres" where
  "cleartable = each clear_one"

section \<open>Barriers and new objects\<close>

definition luaC_barrierf :: "nat \<Rightarrow> nat \<Rightarrow> gstate \<Rightarrow> gstate lres" where
  "luaC_barrierf a v g = (if gcstate g = GCSpropagate then reallymarkobject v g else remark (makewhite g) a g)"

definition luaC_barrierback :: "nat \<Rightarrow> gstate \<Rightarrow> gstate lres" where
  "luaC_barrierback a g = sbind (remark black2gray a g) (\<lambda>g. Inr (g\<lparr>grayagain := a # grayagain g\<rparr>))"

text \<open>The macros: \<open>luaC_objbarrier\<close> and \<open>luaC_objbarriert\<close>, and the same for values.\<close>

definition luaC_objbarrier :: "nat \<Rightarrow> nat \<Rightarrow> gstate \<Rightarrow> gstate lres" where
  "luaC_objbarrier a v g =
    sbind (obj g v) (\<lambda>y. sbind (obj g a) (\<lambda>x.
    if iswhite (marked y) \<and> isblack (marked x) then luaC_barrierf a v g else Inr g))"

definition luaC_objbarriert :: "nat \<Rightarrow> nat \<Rightarrow> gstate \<Rightarrow> gstate lres" where
  "luaC_objbarriert a v g =
    sbind (obj g v) (\<lambda>y. sbind (obj g a) (\<lambda>x.
    if iswhite (marked y) \<and> isblack (marked x) then luaC_barrierback a g else Inr g))"

definition luaC_barrier :: "nat \<Rightarrow> gvalue \<Rightarrow> gstate \<Rightarrow> gstate lres" where
  "luaC_barrier a v g = (case v of VRef b \<Rightarrow> luaC_objbarrier a b g | _ \<Rightarrow> Inr g)"

definition luaC_barriert :: "nat \<Rightarrow> gvalue \<Rightarrow> gstate \<Rightarrow> gstate lres" where
  "luaC_barriert a v g = (case v of VRef b \<Rightarrow> luaC_objbarriert a b g | _ \<Rightarrow> Inr g)"

text \<open>A new object with its body, at an address that is free.\<close>

definition alloc :: "nat \<Rightarrow> gcbody \<Rightarrow> gstate \<Rightarrow> gstate" where
  "alloc a b g = account 0 (object_size b) (put_obj a \<lparr>marked = luaC_white g, body = b\<rparr> g)"

definition luaC_link :: "nat \<Rightarrow> gcbody \<Rightarrow> gstate \<Rightarrow> gstate" where
  "luaC_link a b g = (alloc a b g)\<lparr>rootgc := a # rootgc g\<rparr>"

definition luaC_linkupval :: "nat \<Rightarrow> gvalue \<Rightarrow> gstate \<Rightarrow> gstate lres" where
  "luaC_linkupval a v g =
    (let g = g\<lparr>rootgc := a # rootgc g\<rparr> in
     sbind (obj g a) (\<lambda>x.
     if isgray (marked x) then
       (if gcstate g = GCSpropagate then sbind (remark gray2black a g) (luaC_barrier a v)
        else remark (makewhite g) a g)
     else Inr g))"

section \<open>Upvalues\<close>

text \<open>An object is freed: using it after that is a fault.\<close>

definition release :: "nat \<Rightarrow> gstate \<Rightarrow> gstate lres" where
  "release a g = sbind (obj g a) (\<lambda>x. Inr (account (object_size (body x)) 0 (g\<lparr>heap := (heap g)(a := None)\<rparr>)))"

definition as_upval :: "gstate \<Rightarrow> nat \<Rightarrow> uvloc lres" where
  "as_upval g a = sbind (obj g a) (\<lambda>x. case body x of BUpVal u \<Rightarrow> Inr u | _ \<Rightarrow> Inl (CFault ReadOOB))"

definition as_thread :: "gstate \<Rightarrow> nat \<Rightarrow> gthread lres" where
  "as_thread g a = sbind (obj g a) (\<lambda>x. case body x of BThread t \<Rightarrow> Inr t | _ \<Rightarrow> Inl (CFault ReadOOB))"

definition unlinkupval :: "nat \<Rightarrow> gstate \<Rightarrow> gstate" where
  "unlinkupval a g = g\<lparr>uvhead := remove1 a (uvhead g)\<rparr>"

definition luaF_freeupval :: "nat \<Rightarrow> gstate \<Rightarrow> gstate lres" where
  "luaF_freeupval a g =
    sbind (as_upval g a) (\<lambda>u. release a (case u of Open _ _ \<Rightarrow> unlinkupval a g | Closed _ \<Rightarrow> g))"

text \<open>The open upvalues of a thread, given as a list, down to a level of its stack.\<close>

fun close_loop :: "nat \<Rightarrow> nat list \<Rightarrow> nat \<Rightarrow> gstate \<Rightarrow> gstate lres" where
  "close_loop th [] level g = Inr g"
| "close_loop th (a # us) level g =
    sbind (as_upval g a) (\<lambda>u.
    case u of
      Closed _ \<Rightarrow> Inl (CFault ReadOOB)
    | Open _ i \<Rightarrow>
        if i \<ge> level then
          sbind (as_thread g th) (\<lambda>t.
          sbind (set_body (BThread (t\<lparr>th_open := us\<rparr>)) th g) (\<lambda>g.
          sbind (obj g a) (\<lambda>x.
          if isdead g (marked x) then sbind (luaF_freeupval a g) (close_loop th us level)
          else
            sbind (uv_value g u) (\<lambda>v.
            sbind (set_body (BUpVal (Closed v)) a (unlinkupval a g)) (\<lambda>g.
            sbind (luaC_linkupval a v g) (close_loop th us level))))))
        else Inr g)"

definition luaF_close :: "nat \<Rightarrow> nat \<Rightarrow> gstate \<Rightarrow> gstate lres" where
  "luaF_close th level g = sbind (as_thread g th) (\<lambda>t. close_loop th (th_open t) level g)"

text \<open>The upvalue of a level, which is a dead one that is made live again or a new one, at the address \<open>a\<close>.\<close>

fun find_loop :: "nat list \<Rightarrow> nat list \<Rightarrow> nat \<Rightarrow> gstate \<Rightarrow> (nat option \<times> nat list \<times> nat list) lres" where
  "find_loop before [] level g = Inr (None, rev before, [])"
| "find_loop before (p # ps) level g =
    sbind (as_upval g p) (\<lambda>u.
    case u of
      Closed _ \<Rightarrow> Inl (CFault ReadOOB)
    | Open _ i \<Rightarrow>
        if i \<ge> level then (if i = level then Inr (Some p, rev before, p # ps) else find_loop (p # before) ps level g)
        else Inr (None, rev before, p # ps))"

definition luaF_findupval :: "nat \<Rightarrow> nat \<Rightarrow> nat \<Rightarrow> gstate \<Rightarrow> (nat \<times> gstate) lres" where
  "luaF_findupval a th level g =
    sbind (as_thread g th) (\<lambda>t.
    sbind (find_loop [] (th_open t) level g) (\<lambda>(r, before, after).
    case r of
      Some p \<Rightarrow>
        sbind (obj g p) (\<lambda>x.
        sbind (if isdead g (marked x) then remark changewhite p g else Inr g) (\<lambda>g. Inr (p, g)))
    | None \<Rightarrow>
        sbind (set_body (BThread (t\<lparr>th_open := before @ a # after\<rparr>)) th (alloc a (BUpVal (Open th level)) g)) (\<lambda>g.
        Inr (a, g\<lparr>uvhead := a # uvhead g\<rparr>))))"

definition luaF_newupval :: "nat \<Rightarrow> gstate \<Rightarrow> gstate" where
  "luaF_newupval a = luaC_link a (BUpVal (Closed VNil))"

definition luaF_newCclosure :: "nat \<Rightarrow> nat \<Rightarrow> nat \<Rightarrow> gstate \<Rightarrow> gstate" where
  "luaF_newCclosure a n env = luaC_link a (BFunction (CClosure env (replicate (n mod 256) VNil)))"

definition luaF_newLclosure :: "nat \<Rightarrow> nat \<Rightarrow> nat \<Rightarrow> nat \<Rightarrow> gstate \<Rightarrow> gstate" where
  "luaF_newLclosure a n p env = luaC_link a (BFunction (LClosure env p (replicate n None)))"

definition luaF_newproto :: "nat \<Rightarrow> gstate \<Rightarrow> gstate" where
  "luaF_newproto a = luaC_link a (BProto \<lparr>pr_source = None, pr_k = [], pr_upvalues = [], pr_p = [], pr_locvars = [], pr_sizecode = 0, pr_sizelineinfo = 0\<rparr>)"

section \<open>Strings\<close>

definition lmod :: "32 word \<Rightarrow> nat \<Rightarrow> nat" where
  "lmod h n = unat (h AND (word_of_nat (n - 1)))"

definition string_at :: "gstate \<Rightarrow> nat \<Rightarrow> bytes lres" where
  "string_at g a = sbind (obj g a) (\<lambda>x. case body x of BString s \<Rightarrow> Inr s | _ \<Rightarrow> Inl (CFault ReadOOB))"

text \<open>The strings of the old table, in its order, are put at the front of their new buckets.\<close>

definition rechain :: "nat \<Rightarrow> nat \<Rightarrow> nat list list \<times> gstate \<Rightarrow> (nat list list \<times> gstate) lres" where
  "rechain newsize a r =
    (case r of (newhash, g) \<Rightarrow>
      sbind (string_at g a) (\<lambda>s.
      let h1 = lmod (str_hash s) newsize in
      sbind (lift (rd newhash h1)) (\<lambda>chain. Inr (newhash[h1 := a # chain], g))))"

definition luaS_resize :: "nat \<Rightarrow> gstate \<Rightarrow> gstate lres" where
  "luaS_resize newsize g =
    (if gcstate g = GCSsweepstring then Inr g
     else
       sbind (each (rechain newsize) (concat (strt g)) (replicate newsize [], g)) (\<lambda>(newhash, g).
       Inr (account (8 * length (strt g)) (8 * newsize) (g\<lparr>strt := newhash\<rparr>))))"

definition newlstr :: "nat \<Rightarrow> bytes \<Rightarrow> gstate \<Rightarrow> gstate lres" where
  "newlstr a s g =
    (let g = alloc a (BString s) g; h = lmod (str_hash s) (length (strt g)) in
     sbind (lift (rd (strt g) h)) (\<lambda>chain.
     let g = g\<lparr>strt := (strt g)[h := a # chain], strt_nuse := strt_nuse g + 1\<rparr> in
     if strt_nuse g > length (strt g) \<and> length (strt g) \<le> 2 ^ 30 - 2 then luaS_resize (length (strt g) * 2) g else Inr g))"

fun find_string :: "bytes \<Rightarrow> nat list \<Rightarrow> gstate \<Rightarrow> nat option lres" where
  "find_string s [] g = Inr None"
| "find_string s (a # chain) g = sbind (string_at g a) (\<lambda>s'. if s' = s then Inr (Some a) else find_string s chain g)"

text \<open>The address of the string, which is a new one, at \<open>a\<close>, when it was not there; a dead one is made live again.\<close>

definition luaS_newlstr :: "nat \<Rightarrow> bytes \<Rightarrow> gstate \<Rightarrow> (nat \<times> gstate) lres" where
  "luaS_newlstr a s g =
    sbind (lift (rd (strt g) (lmod (str_hash s) (length (strt g))))) (\<lambda>chain.
    sbind (find_string s chain g) (\<lambda>r.
    case r of
      Some p \<Rightarrow>
        sbind (obj g p) (\<lambda>x.
        sbind (if isdead g (marked x) then remark changewhite p g else Inr g) (\<lambda>g. Inr (p, g)))
    | None \<Rightarrow> sbind (newlstr a s g) (\<lambda>g. Inr (a, g))))"

text \<open>Userdata are in the list after the main thread.\<close>

fun insert_after :: "nat \<Rightarrow> nat \<Rightarrow> nat list \<Rightarrow> nat list" where
  "insert_after x a [] = []"
| "insert_after x a (y # ys) = (if y = x then y # a # ys else y # insert_after x a ys)"

definition rest_after :: "nat option \<Rightarrow> nat list \<Rightarrow> nat list" where
  "rest_after p xs = (case p of None \<Rightarrow> xs | Some x \<Rightarrow> tl (dropWhile (\<lambda>y. y \<noteq> x) xs))"

definition luaS_newudata :: "nat \<Rightarrow> nat \<Rightarrow> nat \<Rightarrow> gstate \<Rightarrow> gstate" where
  "luaS_newudata a s env g =
    (let g = alloc a (BUdata \<lparr>ud_meta = None, ud_env = env, ud_len = s\<rparr>) g in
     g\<lparr>rootgc := insert_after (mainthread g) a (rootgc g)\<rparr>)"

section \<open>Sweeping\<close>

definition luaE_freethread :: "nat \<Rightarrow> gstate \<Rightarrow> gstate lres" where
  "luaE_freethread a g = sbind (luaF_close a 0 g) (release a)"

definition freeobj :: "nat \<Rightarrow> gstate \<Rightarrow> gstate lres" where
  "freeobj a g =
    sbind (obj g a) (\<lambda>x. case body x of
      BUpVal _ \<Rightarrow> luaF_freeupval a g
    | BThread _ \<Rightarrow> luaE_freethread a g
    | BString _ \<Rightarrow> release a (g\<lparr>strt_nuse := strt_nuse g - 1\<rparr>)
    | _ \<Rightarrow> release a g)"

fun get_list :: "gclist \<Rightarrow> gstate \<Rightarrow> nat list lres" where
  "get_list LRoot g = Inr (rootgc g)"
| "get_list (LBucket i) g = lift (rd (strt g) i)"
| "get_list (LOpen th) g = sbind (as_thread g th) (\<lambda>t. Inr (th_open t))"

fun set_list :: "gclist \<Rightarrow> nat list \<Rightarrow> gstate \<Rightarrow> gstate lres" where
  "set_list LRoot xs g = Inr (g\<lparr>rootgc := xs\<rparr>)"
| "set_list (LBucket i) xs g = sbind (lift (wr (strt g) i xs)) (\<lambda>b. Inr (g\<lparr>strt := b\<rparr>))"
| "set_list (LOpen th) xs g = sbind (as_thread g th) (\<lambda>t. set_body (BThread (t\<lparr>th_open := xs\<rparr>)) th g)"

definition MAX_LUMEM :: nat where "MAX_LUMEM = 2 ^ 64 - 3"

text \<open>
  At most \<open>count\<close> objects of a list from a position on, and the position reached. The fuel \<open>n\<close> is above their number; the
  open upvalues of a thread, which are in a list of its own, are swept before it.
\<close>

fun sweeplist :: "nat \<Rightarrow> gclist \<Rightarrow> nat option \<Rightarrow> nat \<Rightarrow> gstate \<Rightarrow> (nat option \<times> gstate) lres" where
  "sweeplist 0 l p count g = Inl (CFault Diverge)"
| "sweeplist (Suc n) l p count g =
    sbind (get_list l g) (\<lambda>xs.
    case rest_after p xs of
      [] \<Rightarrow> Inr (p, g)
    | cur # _ \<Rightarrow>
        if count > 0 then
          sbind (obj g cur) (\<lambda>x.
          sbind (case body x of BThread _ \<Rightarrow> sbind (sweeplist n (LOpen cur) None MAX_LUMEM g) (\<lambda>(_, g). Inr g) | _ \<Rightarrow> Inr g) (\<lambda>g.
          if (marked x XOR WHITEBITS) AND otherwhite g \<noteq> 0 then
            sbind (remark (makewhite g) cur g) (sweeplist n l (Some cur) (count - 1))
          else
            sbind (set_list l (remove1 cur xs) g) (\<lambda>g.
            sbind (freeobj cur g) (sweeplist n l p (count - 1)))))
        else Inr (p, g))"

definition sweepwholelist :: "nat \<Rightarrow> gclist \<Rightarrow> gstate \<Rightarrow> gstate lres" where
  "sweepwholelist n l g = sbind (sweeplist n l None MAX_LUMEM g) (\<lambda>(_, g). Inr g)"

definition MINSTRTABSIZE :: nat where "MINSTRTABSIZE = 32"
definition LUA_MINBUFFER :: nat where "LUA_MINBUFFER = 32"

definition checkSizes :: "gstate \<Rightarrow> gstate lres" where
  "checkSizes g =
    sbind (if strt_nuse g < length (strt g) div 4 \<and> length (strt g) > MINSTRTABSIZE * 2 then luaS_resize (length (strt g) div 2) g else Inr g) (\<lambda>g.
    Inr (if gbuff_size g > LUA_MINBUFFER * 2
         then account (gbuff_size g) (gbuff_size g div 2) (g\<lparr>gbuff_size := gbuff_size g div 2\<rparr>) else g))"

section \<open>Finalizers\<close>

text \<open>The userdata that stay, those that are moved to \<open>tmudata\<close>, and the bytes of these.\<close>

definition as_udata :: "gstate \<Rightarrow> nat \<Rightarrow> gudata lres" where
  "as_udata g a = sbind (obj g a) (\<lambda>x. case body x of BUdata u \<Rightarrow> Inr u | _ \<Rightarrow> Inl (CFault ReadOOB))"

fun separate :: "bool \<Rightarrow> nat list \<Rightarrow> gstate \<Rightarrow> (nat list \<times> nat list \<times> nat \<times> gstate) lres" where
  "separate al [] g = Inr ([], [], 0, g)"
| "separate al (a # as) g =
    sbind (obj g a) (\<lambda>x.
    if \<not> (iswhite (marked x) \<or> al) \<or> marked x AND FINALIZEDBIT \<noteq> 0 then
      sbind (separate al as g) (\<lambda>(k, m, d, g). Inr (a # k, m, d, g))
    else
      sbind (as_udata g a) (\<lambda>u.
      sbind (gfasttm (ud_meta u) TM_GC g) (\<lambda>(tm, g).
      sbind (remark (\<lambda>b. b OR FINALIZEDBIT) a g) (\<lambda>g.
      sbind (separate al as g) (\<lambda>(k, m, d, g).
      Inr (if tm = None then (a # k, m, d, g) else (k, a # m, object_size (BUdata u) + d, g)))))))"

definition luaC_separateudata :: "bool \<Rightarrow> gstate \<Rightarrow> (nat \<times> gstate) lres" where
  "luaC_separateudata al g =
    (let us = rest_after (Some (mainthread g)) (rootgc g);
         front = take (length (rootgc g) - length us) (rootgc g)
     in sbind (separate al us g) (\<lambda>(k, m, d, g). Inr (d, g\<lparr>rootgc := front @ k, tmudata := tmudata g @ m\<rparr>)))"

definition marktmu :: "gstate \<Rightarrow> gstate lres" where
  "marktmu g = each (\<lambda>a g. sbind (remark (makewhite g) a g) (reallymarkobject a)) (tmudata g) g"

text \<open>The call of a tag method is a parameter: it runs Lua code, which may do anything that the program can do.\<close>

type_synonym caller = "gvalue \<Rightarrow> nat \<Rightarrow> gstate \<Rightarrow> gstate lres"

definition GCTM :: "caller \<Rightarrow> gstate \<Rightarrow> gstate lres" where
  "GCTM call g =
    (case tmudata g of
       [] \<Rightarrow> Inl (CFault NullDeref)
     | a # as \<Rightarrow>
         (let g = g\<lparr>tmudata := as, rootgc := insert_after (mainthread g) a (rootgc g)\<rparr> in
          sbind (remark (makewhite g) a g) (\<lambda>g.
          sbind (as_udata g a) (\<lambda>u.
          sbind (gfasttm (ud_meta u) TM_GC g) (\<lambda>(tm, g).
          case tm of
            None \<Rightarrow> Inr g
          | Some f \<Rightarrow>
              (let oldt = GCthreshold g in
               sbind (call f a (g\<lparr>GCthreshold := 2 * totalbytes g\<rparr>)) (\<lambda>g. Inr (g\<lparr>GCthreshold := oldt\<rparr>))))))))"

fun luaC_callGCTM :: "nat \<Rightarrow> caller \<Rightarrow> gstate \<Rightarrow> gstate lres" where
  "luaC_callGCTM 0 call g = Inl (CFault Diverge)"
| "luaC_callGCTM (Suc n) call g = (if tmudata g = [] then Inr g else sbind (GCTM call g) (luaC_callGCTM n call))"

definition luaC_freeall :: "nat \<Rightarrow> gstate \<Rightarrow> gstate lres" where
  "luaC_freeall n g =
    sbind (sweepwholelist n LRoot (g\<lparr>currentwhite := WHITEBITS OR SFIXEDBIT\<rparr>)) (\<lambda>g.
    each (\<lambda>i. sweepwholelist n (LBucket i)) [0..<length (strt g)] g)"

section \<open>The phases\<close>

definition markmt :: "gstate \<Rightarrow> gstate lres" where
  "markmt g = each markopt (mt g) g"

definition markroot :: "gstate \<Rightarrow> gstate lres" where
  "markroot g =
    sbind (markobject (mainthread g) (g\<lparr>gray := [], grayagain := [], weak := []\<rparr>)) (\<lambda>g.
    sbind (as_thread g (mainthread g)) (\<lambda>t.
    sbind (markvalue (th_gt t) g) (\<lambda>g.
    sbind (markvalue (registry g) g) (\<lambda>g.
    sbind (markmt g) (\<lambda>g. Inr (g\<lparr>gcstate := GCSpropagate\<rparr>))))))"

definition remarkupval :: "nat \<Rightarrow> gstate \<Rightarrow> gstate lres" where
  "remarkupval a g =
    sbind (obj g a) (\<lambda>x.
    if isgray (marked x) then sbind (as_upval g a) (\<lambda>u. sbind (uv_value g u) (\<lambda>v. markvalue v g)) else Inr g)"

definition remarkupvals :: "gstate \<Rightarrow> gstate lres" where
  "remarkupvals g = each remarkupval (uvhead g) g"

text \<open>\<open>L\<close> is the running thread.\<close>

definition atomic :: "nat \<Rightarrow> nat \<Rightarrow> gstate \<Rightarrow> gstate lres" where
  "atomic n L g =
    sbind (remarkupvals g) (\<lambda>g.
    sbind (propagateall n g) (\<lambda>(_, g).
    sbind (markobject L (g\<lparr>gray := weak g, weak := []\<rparr>)) (\<lambda>g.
    sbind (markmt g) (\<lambda>g.
    sbind (propagateall n g) (\<lambda>(_, g).
    sbind (propagateall n (g\<lparr>gray := grayagain g, grayagain := []\<rparr>)) (\<lambda>(_, g).
    sbind (luaC_separateudata False g) (\<lambda>(udsize, g).
    sbind (marktmu g) (\<lambda>g.
    sbind (propagateall n g) (\<lambda>(m, g).
    sbind (cleartable (weak g) g) (\<lambda>g.
    Inr (g\<lparr>currentwhite := otherwhite g, sweepstrgc := 0, sweepgc := None, gcstate := GCSsweepstring,
           estimate := totalbytes g - of_nat (udsize + m)\<rparr>)))))))))))"

definition GCSTEPSIZE :: nat where "GCSTEPSIZE = 1024"
definition GCSWEEPMAX :: nat where "GCSWEEPMAX = 40"
definition GCSWEEPCOST :: nat where "GCSWEEPCOST = 10"
definition GCFINALIZECOST :: nat where "GCFINALIZECOST = 100"

text \<open>The work done, and the state.\<close>

definition singlestep :: "nat \<Rightarrow> caller \<Rightarrow> nat \<Rightarrow> gstate \<Rightarrow> (nat \<times> gstate) lres" where
  "singlestep n call L g =
    (case gcstate g of
       GCSpause \<Rightarrow> sbind (markroot g) (\<lambda>g. Inr (0, g))
     | GCSpropagate \<Rightarrow> (if gray g \<noteq> [] then propagatemark g else sbind (atomic n L g) (\<lambda>g. Inr (0, g)))
     | GCSsweepstring \<Rightarrow>
         (let old = totalbytes g; i = sweepstrgc g in
          sbind (sweepwholelist n (LBucket i) (g\<lparr>sweepstrgc := i + 1\<rparr>)) (\<lambda>g.
          let g = (if sweepstrgc g \<ge> length (strt g) then g\<lparr>gcstate := GCSsweep\<rparr> else g) in
          Inr (GCSWEEPCOST, g\<lparr>estimate := estimate g - (old - totalbytes g)\<rparr>)))
     | GCSsweep \<Rightarrow>
         (let old = totalbytes g in
          sbind (sweeplist n LRoot (sweepgc g) GCSWEEPMAX g) (\<lambda>(p, g).
          let g = g\<lparr>sweepgc := p\<rparr> in
          sbind (if rest_after p (rootgc g) = [] then sbind (checkSizes g) (\<lambda>g. Inr (g\<lparr>gcstate := GCSfinalize\<rparr>)) else Inr g) (\<lambda>g.
          Inr (GCSWEEPMAX * GCSWEEPCOST, g\<lparr>estimate := estimate g - (old - totalbytes g)\<rparr>))))
     | GCSfinalize \<Rightarrow>
         (if tmudata g \<noteq> [] then
            sbind (GCTM call g) (\<lambda>g.
            Inr (GCFINALIZECOST, if estimate g > of_nat GCFINALIZECOST then g\<lparr>estimate := estimate g - of_nat GCFINALIZECOST\<rparr> else g))
          else Inr (0, g\<lparr>gcstate := GCSpause, gcdept := 0\<rparr>)))"

definition setthreshold :: "gstate \<Rightarrow> gstate" where
  "setthreshold g = g\<lparr>GCthreshold := (estimate g div 100) * word_of_int (gcpause g)\<rparr>"

text \<open>\<open>do ... while (lim > 0)\<close>: at most \<open>n\<close> steps.\<close>

fun step_loop :: "nat \<Rightarrow> caller \<Rightarrow> nat \<Rightarrow> int \<Rightarrow> gstate \<Rightarrow> gstate lres" where
  "step_loop 0 call L lim g = Inl (CFault Diverge)"
| "step_loop (Suc n) call L lim g =
    sbind (singlestep n call L g) (\<lambda>(w, g).
    if gcstate g = GCSpause then Inr g
    else if lim - int w > 0 then step_loop n call L (lim - int w) g
    else Inr g)"

definition luaC_step :: "nat \<Rightarrow> caller \<Rightarrow> nat \<Rightarrow> gstate \<Rightarrow> gstate lres" where
  "luaC_step n call L g =
    (let lim = uint (of_nat (GCSTEPSIZE div 100) * word_of_int (gcstepmul g) :: 32 word);
         lim = (if lim = 0 then int ((MAX_LUMEM - 1) div 2) else lim)
     in sbind (step_loop n call L lim (g\<lparr>gcdept := gcdept g + (totalbytes g - GCthreshold g)\<rparr>)) (\<lambda>g.
        Inr (if gcstate g \<noteq> GCSpause then
               (if gcdept g < of_nat GCSTEPSIZE then g\<lparr>GCthreshold := totalbytes g + of_nat GCSTEPSIZE\<rparr>
                else g\<lparr>gcdept := gcdept g - of_nat GCSTEPSIZE, GCthreshold := totalbytes g\<rparr>)
             else setthreshold g)))"

text \<open>Steps until a phase is reached.\<close>

fun run_until :: "nat \<Rightarrow> gcphase \<Rightarrow> caller \<Rightarrow> nat \<Rightarrow> gstate \<Rightarrow> gstate lres" where
  "run_until 0 ph call L g = Inl (CFault Diverge)"
| "run_until (Suc n) ph call L g = (if gcstate g = ph then Inr g else sbind (singlestep n call L g) (\<lambda>(_, g). run_until n ph call L g))"

definition luaC_fullgc :: "nat \<Rightarrow> caller \<Rightarrow> nat \<Rightarrow> gstate \<Rightarrow> gstate lres" where
  "luaC_fullgc n call L g =
    (let g = (if gcstate g = GCSpause \<or> gcstate g = GCSpropagate
              then g\<lparr>sweepstrgc := 0, sweepgc := None, gray := [], grayagain := [], weak := [], gcstate := GCSsweepstring\<rparr> else g) in
     sbind (run_until n GCSfinalize call L g) (\<lambda>g.
     sbind (markroot g) (\<lambda>g.
     sbind (run_until n GCSpause call L g) (\<lambda>g. Inr (setthreshold g)))))"

end
