(* ===== verification/LGCInv.thy ===== *)
theory LGCInv
  imports LGC
begin

text \<open>
  The colours of objects and the references they hold, the three-colour invariant of the mark phase, and what marking
  does: it makes white objects gray or black, and never breaks the invariant.
\<close>

section \<open>Colours\<close>

lemma bits_exp: "WHITEBITS = 2 ^ 0 OR 2 ^ 1" "BLACKBIT = 2 ^ 2" "FINALIZEDBIT = 2 ^ 3" "FIXEDBIT = 2 ^ 5" "KEYWEAK = 2 ^ 3" "VALUEWEAK = 2 ^ 4"
  by (simp_all add: WHITEBITS_def BLACKBIT_def FINALIZEDBIT_def FIXEDBIT_def KEYWEAK_def VALUEWEAK_def)

lemma iswhite_bits: "iswhite m \<longleftrightarrow> bit m 0 \<or> bit m 1"
  by (simp only: iswhite_def bits_exp bit.conj_disj_distrib or_eq_0_iff and_exp_eq_0_iff_not_bit) blast

lemma isblack_bits: "isblack m \<longleftrightarrow> bit m 2"
  by (simp only: isblack_def bits_exp and_exp_eq_0_iff_not_bit) blast

lemma bit_masks: "bit WHITEBITS n \<longleftrightarrow> n = 0 \<or> n = 1" "bit BLACKBIT n \<longleftrightarrow> n = 2" "bit FINALIZEDBIT n \<longleftrightarrow> n = 3"
  "bit KEYWEAK n \<longleftrightarrow> n = 3" "bit VALUEWEAK n \<longleftrightarrow> n = 4"
  by (auto simp only: bits_exp bit_or_iff bit_exp_iff possible_bit_word; simp)+

lemma colours [simp]:
  "\<not> iswhite (white2gray m)" "isblack (white2gray m) = isblack m"
  "iswhite (gray2black m) = iswhite m" "isblack (gray2black m)"
  "iswhite (black2gray m) = iswhite m" "\<not> isblack (black2gray m)"
  "\<not> isblack (makewhite g m)" "iswhite (makewhite g m) = iswhite (currentwhite g)"
  "iswhite (m OR FINALIZEDBIT) = iswhite m" "isblack (m OR FINALIZEDBIT) = isblack m"
  by (simp_all add: iswhite_bits isblack_bits white2gray_def gray2black_def black2gray_def makewhite_def bit_simps bit_masks luaC_white_def)

text \<open>The marks of an object of the heap.\<close>

definition nw :: "gstate \<Rightarrow> nat \<Rightarrow> bool" where
  "nw g a = (case heap g a of Some x \<Rightarrow> \<not> iswhite (marked x) | None \<Rightarrow> False)"

definition blk :: "gstate \<Rightarrow> nat \<Rightarrow> bool" where
  "blk g a = (case heap g a of Some x \<Rightarrow> isblack (marked x) | None \<Rightarrow> False)"

abbreviation NW :: "gstate \<Rightarrow> nat set" where "NW g \<equiv> {a. nw g a}"
abbreviation D :: "gstate \<Rightarrow> nat set" where "D g \<equiv> dom (heap g)"

lemma nw_D: "nw g a \<Longrightarrow> a \<in> D g"
  by (auto simp: nw_def split: option.splits)

section \<open>Kinds and references\<close>

datatype kind = KString | KUdata | KUpVal | KOpenUv | KFunction | KTable | KThread | KProto

fun kind_of :: "gcbody \<Rightarrow> kind" where
  "kind_of (BString _) = KString" | "kind_of (BUdata _) = KUdata" | "kind_of (BUpVal (Closed _)) = KUpVal" | "kind_of (BUpVal (Open _ _)) = KOpenUv"
| "kind_of (BFunction _) = KFunction" | "kind_of (BTable _) = KTable" | "kind_of (BThread _) = KThread" | "kind_of (BProto _) = KProto"

definition kindat :: "gstate \<Rightarrow> nat \<Rightarrow> kind option" where
  "kindat g a = map_option (\<lambda>x. kind_of (body x)) (heap g a)"

lemma kind_simps: "kind_of b = KString \<longleftrightarrow> (\<exists>s. b = BString s)" "kind_of b = KUdata \<longleftrightarrow> (\<exists>u. b = BUdata u)"
  "kind_of b = KUpVal \<longleftrightarrow> (\<exists>v. b = BUpVal (Closed v))" "kind_of b = KOpenUv \<longleftrightarrow> (\<exists>th i. b = BUpVal (Open th i))"
  "kind_of b = KFunction \<longleftrightarrow> (\<exists>f. b = BFunction f)" "kind_of b = KTable \<longleftrightarrow> (\<exists>t. b = BTable t)"
  "kind_of b = KThread \<longleftrightarrow> (\<exists>t. b = BThread t)" "kind_of b = KProto \<longleftrightarrow> (\<exists>p. b = BProto p)"
  by (cases b rule: kind_of.cases; simp)+

lemma kindat_D: "kindat g a = Some k \<Longrightarrow> a \<in> D g"
  by (auto simp: kindat_def)

definition value_kinds :: "kind option set" where
  "value_kinds = {Some KString, Some KUdata, Some KFunction, Some KTable, Some KThread}"

fun vrefs :: "gvalue \<Rightarrow> nat set" where
  "vrefs (VRef a) = {a}" | "vrefs _ = {}"

definition vsrefs :: "gvalue list \<Rightarrow> nat set" where "vsrefs vs = (\<Union>v \<in> set vs. vrefs v)"

definition osrefs :: "nat option list \<Rightarrow> nat set" where "osrefs os = {a. Some a \<in> set os}"

definition noderefs :: "gnode \<Rightarrow> nat set" where
  "noderefs n = (if g_val n = VNil then {} else vrefs (key_value (g_key n)) \<union> vrefs (g_val n))"

text \<open>The value in the stack where an open upvalue is.\<close>

definition slot :: "gstate \<Rightarrow> nat \<Rightarrow> nat \<Rightarrow> gvalue" where
  "slot g th i = (case heap g th of Some x \<Rightarrow> (case body x of BThread t \<Rightarrow> if i < length (th_stack t) then th_stack t ! i else VNil | _ \<Rightarrow> VNil)
    | None \<Rightarrow> VNil)"

fun brefs :: "gstate \<Rightarrow> gcbody \<Rightarrow> nat set" where
  "brefs g (BString _) = {}"
| "brefs g (BUdata u) = set_option (ud_meta u) \<union> {ud_env u}"
| "brefs g (BUpVal (Closed v)) = vrefs v"
| "brefs g (BUpVal (Open th i)) = vrefs (slot g th i)"
| "brefs g (BFunction (CClosure e vs)) = {e} \<union> vsrefs vs"
| "brefs g (BFunction (LClosure e p us)) = {e, p} \<union> osrefs us"
| "brefs g (BTable t) = set_option (tb_meta t) \<union> vsrefs (tb_array t) \<union> (\<Union>n \<in> set (tb_nodes t). noderefs n)"
| "brefs g (BThread t) = vrefs (th_gt t) \<union> vsrefs (take (th_top t) (th_stack t))"
| "brefs g (BProto p) = set_option (pr_source p) \<union> vsrefs (pr_k p) \<union> osrefs (pr_upvalues p) \<union> osrefs (pr_p p) \<union> osrefs (pr_locvars p)"

definition refs :: "gstate \<Rightarrow> nat \<Rightarrow> nat set" where
  "refs g a = (case heap g a of Some x \<Rightarrow> brefs g (body x) | None \<Rightarrow> {})"

section \<open>Well-formed heaps\<close>

text \<open>A value, or the body of an object, all of whose references are to objects of \<open>S\<close> of the right kinds.\<close>

definition vok :: "nat set \<Rightarrow> gstate \<Rightarrow> gvalue \<Rightarrow> bool" where
  "vok S g v \<longleftrightarrow> (\<forall>a \<in> vrefs v. a \<in> S \<and> kindat g a \<in> value_kinds)"

definition ook :: "nat set \<Rightarrow> gstate \<Rightarrow> kind set \<Rightarrow> nat option list \<Rightarrow> bool" where
  "ook S g K os \<longleftrightarrow> (\<forall>a \<in> osrefs os. a \<in> S \<and> (\<exists>k \<in> K. kindat g a = Some k))"

fun wtb :: "nat set \<Rightarrow> gstate \<Rightarrow> gcbody \<Rightarrow> bool" where
  "wtb S g (BString _) \<longleftrightarrow> True"
| "wtb S g (BUdata u) \<longleftrightarrow> ook S g {KTable} [ud_meta u, Some (ud_env u)]"
| "wtb S g (BUpVal (Closed v)) \<longleftrightarrow> vok S g v"
| "wtb S g (BUpVal (Open th i)) \<longleftrightarrow> vok S g (slot g th i) \<and> (\<exists>x t. heap g th = Some x \<and> body x = BThread t \<and> i < th_top t \<and> th_top t < length (th_stack t))"
| "wtb S g (BFunction (CClosure e vs)) \<longleftrightarrow> ook S g {KTable} [Some e] \<and> (\<forall>v \<in> set vs. vok S g v)"
| "wtb S g (BFunction (LClosure e p us)) \<longleftrightarrow> ook S g {KTable} [Some e] \<and> ook S g {KProto} [Some p] \<and> ook S g {KUpVal, KOpenUv} us \<and> None \<notin> set us"
| "wtb S g (BTable t) \<longleftrightarrow> ook S g {KTable} [tb_meta t] \<and> (\<forall>v \<in> set (tb_array t). vok S g v)
    \<and> (\<forall>n \<in> set (tb_nodes t). g_val n \<noteq> VNil \<longrightarrow> vok S g (key_value (g_key n)) \<and> vok S g (g_val n))"
| "wtb S g (BThread t) \<longleftrightarrow> vok S g (th_gt t) \<and> (\<forall>v \<in> set (take (th_top t) (th_stack t)). vok S g v)
    \<and> th_top t < length (th_stack t) \<and> (\<forall>c \<in> set (th_citops t). c < length (th_stack t))"
| "wtb S g (BProto p) \<longleftrightarrow> ook S g {KString} (pr_source p # pr_upvalues p @ pr_locvars p) \<and> (\<forall>v \<in> set (pr_k p). vok S g v) \<and> ook S g {KProto} (pr_p p)"

definition closed :: "nat set \<Rightarrow> gstate \<Rightarrow> bool" where
  "closed S g \<longleftrightarrow> (\<forall>a \<in> S. \<exists>x. heap g a = Some x \<and> wtb S g (body x))"

definition roots_ok :: "nat set \<Rightarrow> gstate \<Rightarrow> bool" where
  "roots_ok S g \<longleftrightarrow> mainthread g \<in> S \<and> kindat g (mainthread g) = Some KThread \<and> vok S g (registry g) \<and> ook S g {KTable} (mt g)
    \<and> 4 \<le> length (tmname g) \<and> (\<forall>a \<in> set (uvhead g). a \<in> D g \<and> kindat g a = Some KOpenUv) \<and> (\<forall>a \<in> set (tmudata g). a \<in> S \<and> kindat g a = Some KUdata)
    \<and> (\<forall>a \<in> set (rest_after (Some (mainthread g)) (rootgc g)). kindat g a = Some KUdata)"

lemma wtb_refs: "wtb S g b \<Longrightarrow> brefs g b \<subseteq> S"
  by (induction S g b rule: wtb.induct) (fastforce simp: vok_def ook_def vsrefs_def osrefs_def noderefs_def split: if_splits)+

lemma closedD: "closed S g \<Longrightarrow> a \<in> S \<Longrightarrow> heap g a = Some x \<Longrightarrow> wtb S g (body x)"
  by (auto simp: closed_def)

lemma refs_at: "heap g a = Some x \<Longrightarrow> refs g a = brefs g (body x)"
  by (simp add: refs_def)

lemma closed_refs: "closed S g \<Longrightarrow> a \<in> S \<Longrightarrow> refs g a \<subseteq> S"
  by (fastforce simp: closed_def refs_def dest: wtb_refs)

section \<open>What marking changes\<close>

definition frame :: "gstate \<Rightarrow> gstate" where
  "frame g = g\<lparr>heap := \<lambda>_. None, gray := [], grayagain := [], weak := [], totalbytes := 0\<rparr>"

lemma frame_fields: "frame g' = frame g \<Longrightarrow> strt g' = strt g \<and> strt_nuse g' = strt_nuse g \<and> currentwhite g' = currentwhite g \<and> gcstate g' = gcstate g
    \<and> rootgc g' = rootgc g \<and> tmudata g' = tmudata g \<and> registry g' = registry g \<and> mainthread g' = mainthread g \<and> uvhead g' = uvhead g
    \<and> mt g' = mt g \<and> tmname g' = tmname g"
  by (cases g; cases g') (simp add: frame_def)

definition sane :: "gstate \<Rightarrow> bool" where
  "sane g \<longleftrightarrow> (\<forall>a x. heap g a = Some x \<longrightarrow> \<not> (iswhite (marked x) \<and> isblack (marked x)))"

definition mok :: "gstate \<Rightarrow> bool" where
  "mok g \<longleftrightarrow> closed (D g) g \<and> roots_ok (D g) g \<and> sane g"

text \<open>
  Objects only change from white to another colour; those that change, \<open>X\<close> apart, are strings, or all of their references are
  marked too, or they are put in front of the gray list. References may only go.
\<close>

definition settled :: "gstate \<Rightarrow> nat \<Rightarrow> bool" where
  "settled g a \<longleftrightarrow> kindat g a = Some KString \<and> \<not> blk g a
    \<or> refs g a \<subseteq> NW g \<and> (kindat g a \<in> {Some KUdata, Some KUpVal} \<and> blk g a \<or> kindat g a = Some KOpenUv \<and> \<not> blk g a)"

definition gray_kinds :: "kind option set" where
  "gray_kinds = {Some KFunction, Some KTable, Some KThread, Some KProto}"

definition marks :: "nat set \<Rightarrow> gstate \<Rightarrow> gstate \<Rightarrow> bool" where
  "marks X g g' \<longleftrightarrow> frame g' = frame g \<and> (\<forall>a. kindat g' a = kindat g a) \<and> (\<forall>a. refs g' a \<subseteq> refs g a)
    \<and> (\<forall>a. nw g a \<longrightarrow> nw g' a \<and> blk g' a = blk g a) \<and> grayagain g' = grayagain g \<and> weak g' = weak g
    \<and> (\<exists>ns. gray g' = ns @ gray g \<and> distinct ns \<and> (\<forall>a \<in> set ns. \<not> nw g a \<and> nw g' a \<and> \<not> blk g' a \<and> kindat g a \<in> gray_kinds)
        \<and> (\<forall>a. nw g' a \<longrightarrow> \<not> nw g a \<longrightarrow> a \<in> X \<or> a \<in> set ns \<or> settled g' a))"

lemma marksD:
  assumes "marks X g g'"
  shows "frame g' = frame g" "kindat g' a = kindat g a" "refs g' a \<subseteq> refs g a" "nw g a \<Longrightarrow> nw g' a" "nw g a \<Longrightarrow> blk g' a = blk g a"
    "grayagain g' = grayagain g" "weak g' = weak g" "D g' = D g"
proof -
  show "frame g' = frame g" "kindat g' a = kindat g a" "refs g' a \<subseteq> refs g a" "nw g a \<Longrightarrow> nw g' a" "nw g a \<Longrightarrow> blk g' a = blk g a"
    "grayagain g' = grayagain g" "weak g' = weak g" using assms by (auto simp: marks_def)
  have "a \<in> D g' \<longleftrightarrow> a \<in> D g" for a
  proof -
    have "kindat g' a = kindat g a" using assms by (simp add: marks_def)
    then show ?thesis by (cases "heap g' a"; cases "heap g a") (auto simp: kindat_def domIff)
  qed
  then show "D g' = D g" by blast
qed

lemma settled_mono:
  assumes "settled g a" "nw g a" "marks X g g'"
  shows "settled g' a"
proof -
  have "refs g a \<subseteq> NW g \<Longrightarrow> refs g' a \<subseteq> NW g'" using marksD(3,4) [OF assms(3)] by blast
  then show ?thesis using assms(1) marksD(2,5) [OF assms(3)] assms(2) unfolding settled_def by metis
qed

lemma marks_refl: "marks X g g"
  unfolding marks_def by (intro conjI exI [of _ "[]"]) auto

lemma marks_trans:
  assumes 1: "marks X g g1" and 2: "marks X g1 g2"
  shows "marks X g g2"
proof -
  obtain ns where ns: "gray g1 = ns @ gray g" "distinct ns" "\<forall>a \<in> set ns. \<not> nw g a \<and> nw g1 a \<and> \<not> blk g1 a \<and> kindat g a \<in> gray_kinds"
    "\<forall>a. nw g1 a \<longrightarrow> \<not> nw g a \<longrightarrow> a \<in> X \<or> a \<in> set ns \<or> settled g1 a" using 1 unfolding marks_def by blast
  obtain ms where ms: "gray g2 = ms @ gray g1" "distinct ms" "\<forall>a \<in> set ms. \<not> nw g1 a \<and> nw g2 a \<and> \<not> blk g2 a \<and> kindat g1 a \<in> gray_kinds"
    "\<forall>a. nw g2 a \<longrightarrow> \<not> nw g1 a \<longrightarrow> a \<in> X \<or> a \<in> set ms \<or> settled g2 a" using 2 unfolding marks_def by blast
  note a = marksD [OF 1] and b = marksD [OF 2]
  show ?thesis
    unfolding marks_def
  proof (intro conjI allI impI exI [of _ "ms @ ns"])
    show "frame g2 = frame g" using a(1) b(1) by simp
    show "kindat g2 x = kindat g x" for x using a(2) b(2) by simp
    show "refs g2 x \<subseteq> refs g x" for x using a(3) [of x] b(3) [of x] by blast
    show "grayagain g2 = grayagain g" "weak g2 = weak g" using a(6,7) b(6,7) by simp_all
    show "nw g2 x" "blk g2 x = blk g x" if "nw g x" for x using a(4,5) b(4,5) that by blast+
    show "gray g2 = (ms @ ns) @ gray g" using ns(1) ms(1) by simp
    show "distinct (ms @ ns)" using ns(2,3) ms(2,3) by auto
    show "\<forall>x \<in> set (ms @ ns). \<not> nw g x \<and> nw g2 x \<and> \<not> blk g2 x \<and> kindat g x \<in> gray_kinds"
      using ns(3) ms(3) a(2,4) b(4,5) by (metis Un_iff set_append)
    show "x \<in> X \<or> x \<in> set (ms @ ns) \<or> settled g2 x" if "nw g2 x" "\<not> nw g x" for x
      using ns(4) ms(4) that settled_mono [OF _ _ 2] by (cases "nw g1 x") auto
  qed
qed

lemma marks_mono: "marks X g g' \<Longrightarrow> X \<subseteq> Y \<Longrightarrow> marks Y g g'"
  unfolding marks_def by blast

text \<open>The exceptions that are settled in the end can go.\<close>

lemma marks_settle: "marks X g g' \<Longrightarrow> (\<And>a. a \<in> X \<Longrightarrow> nw g' a \<Longrightarrow> \<not> nw g a \<Longrightarrow> settled g' a) \<Longrightarrow> marks {} g g'"
  unfolding marks_def by blast

section \<open>Changing marks and bodies\<close>

definition vweak :: "gstate \<Rightarrow> nat \<Rightarrow> bool" where
  "vweak g a = (case heap g a of Some x \<Rightarrow> bit (marked x) 4 | None \<Rightarrow> False)"

text \<open>The bodies, and the marks of tables whose values are weak, are the same.\<close>

definition same_bodies :: "gstate \<Rightarrow> gstate \<Rightarrow> bool" where
  "same_bodies g g' \<longleftrightarrow> (\<forall>a. map_option body (heap g' a) = map_option body (heap g a)) \<and> (\<forall>a. vweak g' a = vweak g a)"

lemma weakbit [simp]: "bit (white2gray m) 4 = bit m 4" "bit (gray2black m) 4 = bit m 4" "bit (black2gray m) 4 = bit m 4"
  "bit (makewhite g m) 4 = bit m 4" "bit (m OR FINALIZEDBIT) 4 = bit m 4"
  by (simp_all add: white2gray_def gray2black_def black2gray_def makewhite_def bit_simps bit_masks luaC_white_def)

lemma same_kindat: "same_bodies g g' \<Longrightarrow> kindat g' a = kindat g a"
proof -
  have "kindat h a = map_option kind_of (map_option body (heap h a))" for h by (simp add: kindat_def option.map_comp comp_def)
  then show "same_bodies g g' \<Longrightarrow> ?thesis" unfolding same_bodies_def by metis
qed

lemma same_body_at: "same_bodies g g' \<Longrightarrow> heap g a = Some x \<Longrightarrow> \<exists>y. heap g' a = Some y \<and> body y = body x"
proof -
  assume s: "same_bodies g g'" and x: "heap g a = Some x"
  have "map_option body (heap g' a) = Some (body x)" using s x unfolding same_bodies_def by simp
  then show ?thesis by (cases "heap g' a") auto
qed

lemma same_sym: "same_bodies g g' \<Longrightarrow> same_bodies g' g"
  by (simp add: same_bodies_def)

lemma same_slot: "same_bodies g g' \<Longrightarrow> slot g' th i = slot g th i"
  by (cases "heap g th"; cases "heap g' th") (auto simp: slot_def dest: same_body_at same_body_at [OF same_sym])

lemma same_brefs: "same_bodies g g' \<Longrightarrow> brefs g' b = brefs g b"
  by (cases "(g, b)" rule: brefs.cases) (simp_all add: same_slot)

lemma same_refs: "same_bodies g g' \<Longrightarrow> refs g' a = refs g a"
  by (cases "heap g a"; cases "heap g' a") (auto simp: refs_def same_brefs dest: same_body_at same_body_at [OF same_sym])

lemma same_D: "same_bodies g g' \<Longrightarrow> D g' = D g"
  by (auto dest: same_body_at same_body_at [OF same_sym])

lemma same_vok: "same_bodies g g' \<Longrightarrow> vok S g' v = vok S g v"
  by (simp add: vok_def same_kindat)

lemma same_ook: "same_bodies g g' \<Longrightarrow> ook S g' K os = ook S g K os"
  by (simp add: ook_def same_kindat)

lemma same_wtb: "same_bodies g g' \<Longrightarrow> wtb S g' b = wtb S g b"
proof (cases "(S, g, b)" rule: wtb.cases)
  case (4 S' g0 th i)
  assume s: "same_bodies g g'"
  have "(\<exists>x t. heap g' th = Some x \<and> body x = BThread t \<and> i < th_top t \<and> th_top t < length (th_stack t))
      = (\<exists>x t. heap g th = Some x \<and> body x = BThread t \<and> i < th_top t \<and> th_top t < length (th_stack t))"
    using same_body_at [OF s, of th] same_body_at [OF same_sym [OF s], of th] by metis
  then show ?thesis using 4 s by (simp add: same_vok same_slot)
qed (simp_all add: same_vok same_ook)

lemma same_closed: "same_bodies g g' \<Longrightarrow> closed S g' = closed S g"
proof -
  have *: "closed S g' \<Longrightarrow> same_bodies g g' \<Longrightarrow> closed S g" for g g'
    by (fastforce simp: closed_def same_wtb dest: same_body_at [OF same_sym])
  then show "same_bodies g g' \<Longrightarrow> ?thesis" using same_sym by blast
qed

lemma put_mark_same: "heap g a = Some x \<Longrightarrow> bit m 4 = bit (marked x) 4 \<Longrightarrow> same_bodies g (put_obj a (x\<lparr>marked := m\<rparr>) g)"
  by (simp add: same_bodies_def put_obj_def vweak_def)

lemma put_colours [simp]: "nw (put_obj a x g) b = (if b = a then \<not> iswhite (marked x) else nw g b)"
  "blk (put_obj a x g) b = (if b = a then isblack (marked x) else blk g b)"
  by (simp_all add: nw_def blk_def put_obj_def)

lemma put_frame [simp]: "frame (put_obj a x g) = frame g" "gray (put_obj a x g) = gray g" "grayagain (put_obj a x g) = grayagain g"
  "weak (put_obj a x g) = weak g" "heap (put_obj a x g) = (heap g)(a \<mapsto> x)"
  by (simp_all add: frame_def put_obj_def)

lemma remark_eq: "heap g a = Some x \<Longrightarrow> remark f a g = Inr (put_obj a (x\<lparr>marked := f (marked x)\<rparr>) g)"
  by (simp add: remark_def obj_def)

lemma list_fields [simp]: "nw (g\<lparr>gray := xs\<rparr>) = nw g" "blk (g\<lparr>gray := xs\<rparr>) = blk g" "kindat (g\<lparr>gray := xs\<rparr>) = kindat g"
  "refs (g\<lparr>gray := xs\<rparr>) = refs g" "frame (g\<lparr>gray := xs\<rparr>) = frame g" "sane (g\<lparr>gray := xs\<rparr>) = sane g" "settled (g\<lparr>gray := xs\<rparr>) = settled g"
  "nw (g\<lparr>grayagain := xs\<rparr>) = nw g" "blk (g\<lparr>grayagain := xs\<rparr>) = blk g" "kindat (g\<lparr>grayagain := xs\<rparr>) = kindat g"
  "refs (g\<lparr>grayagain := xs\<rparr>) = refs g" "frame (g\<lparr>grayagain := xs\<rparr>) = frame g" "sane (g\<lparr>grayagain := xs\<rparr>) = sane g"
  "nw (g\<lparr>weak := xs\<rparr>) = nw g" "blk (g\<lparr>weak := xs\<rparr>) = blk g" "kindat (g\<lparr>weak := xs\<rparr>) = kindat g"
  "refs (g\<lparr>weak := xs\<rparr>) = refs g" "frame (g\<lparr>weak := xs\<rparr>) = frame g" "sane (g\<lparr>weak := xs\<rparr>) = sane g"
proof -
  have s: "same_bodies g (g\<lparr>gray := xs\<rparr>)" "same_bodies g (g\<lparr>grayagain := xs\<rparr>)" "same_bodies g (g\<lparr>weak := xs\<rparr>)"
    by (simp_all add: same_bodies_def vweak_def)
  show n: "nw (g\<lparr>gray := xs\<rparr>) = nw g" "blk (g\<lparr>gray := xs\<rparr>) = blk g" "nw (g\<lparr>grayagain := xs\<rparr>) = nw g" "blk (g\<lparr>grayagain := xs\<rparr>) = blk g"
    "nw (g\<lparr>weak := xs\<rparr>) = nw g" "blk (g\<lparr>weak := xs\<rparr>) = blk g" by (intro ext; simp add: nw_def blk_def)+
  show k: "kindat (g\<lparr>gray := xs\<rparr>) = kindat g" "kindat (g\<lparr>grayagain := xs\<rparr>) = kindat g" "kindat (g\<lparr>weak := xs\<rparr>) = kindat g"
    by (intro ext; simp add: kindat_def)+
  show r: "refs (g\<lparr>gray := xs\<rparr>) = refs g" "refs (g\<lparr>grayagain := xs\<rparr>) = refs g" "refs (g\<lparr>weak := xs\<rparr>) = refs g"
    using s same_refs by blast+
  show "frame (g\<lparr>gray := xs\<rparr>) = frame g" "sane (g\<lparr>gray := xs\<rparr>) = sane g" "frame (g\<lparr>grayagain := xs\<rparr>) = frame g" "sane (g\<lparr>grayagain := xs\<rparr>) = sane g"
    "frame (g\<lparr>weak := xs\<rparr>) = frame g" "sane (g\<lparr>weak := xs\<rparr>) = sane g" by (simp_all add: frame_def sane_def)
  show "settled (g\<lparr>gray := xs\<rparr>) = settled g" by (intro ext) (simp only: settled_def n k r)
qed

lemma list_same [simp]: "same_bodies g (g\<lparr>gray := xs\<rparr>)" "same_bodies g (g\<lparr>grayagain := xs\<rparr>)" "same_bodies g (g\<lparr>weak := xs\<rparr>)"
  by (simp_all add: same_bodies_def vweak_def)

lemma roots_frame: "frame g' = frame g \<Longrightarrow> (\<And>a. kindat g' a = kindat g a) \<Longrightarrow> D g' = D g \<Longrightarrow> roots_ok S g' = roots_ok S g"
  using frame_fields [of g' g] by (simp add: roots_ok_def vok_def ook_def)

lemma mok_marks: "mok g \<Longrightarrow> marks X g g' \<Longrightarrow> closed (D g') g' \<Longrightarrow> sane g' \<Longrightarrow> mok g'"
  using roots_frame [of g' g] marksD(1,2,8) [of X g g'] by (auto simp: mok_def)

lemma mok_same: "mok g \<Longrightarrow> same_bodies g g' \<Longrightarrow> frame g' = frame g \<Longrightarrow> sane g' \<Longrightarrow> mok g'"
  using roots_frame [of g' g] same_kindat same_D [of g g'] same_closed [of g g'] by (auto simp: mok_def)

lemma mok_wtb: "mok g \<Longrightarrow> heap g a = Some x \<Longrightarrow> wtb (D g) g (body x)"
  unfolding mok_def by (blast intro: closedD)

lemma sane_put: "sane g \<Longrightarrow> \<not> (iswhite (marked x) \<and> isblack (marked x)) \<Longrightarrow> sane (put_obj a x g)"
  by (simp add: sane_def)

section \<open>Marking an object\<close>

definition mark_with :: "nat \<Rightarrow> nat \<Rightarrow> gstate \<Rightarrow> gstate lres" where
  "mark_with d b g = sbind (obj g b) (\<lambda>y. if iswhite (marked y) then reallymark d b g else Inr g)"

lemma markobject_with: "markobject = mark_with 3"
  unfolding markobject_def mark_with_def reallymarkobject_def fun_eq_iff by blast

text \<open>The contract of a marking operation: it ends, and the object is marked.\<close>

definition marker :: "(gstate \<Rightarrow> gstate lres) \<Rightarrow> nat set \<Rightarrow> gstate \<Rightarrow> bool" where
  "marker f A g \<longleftrightarrow> (\<exists>g'. f g = Inr g' \<and> marks {} g g' \<and> mok g' \<and> A \<subseteq> NW g' \<and> same_bodies g g')"

lemma same_trans: "same_bodies g g1 \<Longrightarrow> same_bodies g1 g2 \<Longrightarrow> same_bodies g g2"
  by (simp add: same_bodies_def)

lemma marker_seq:
  assumes "marker f A g" "\<And>g'. marks {} g g' \<Longrightarrow> mok g' \<Longrightarrow> same_bodies g g' \<Longrightarrow> A \<subseteq> NW g' \<Longrightarrow> marker h B g'"
  shows "marker (\<lambda>g. sbind (f g) h) (A \<union> B) g"
proof -
  obtain g1 where 1: "f g = Inr g1" "marks {} g g1" "mok g1" "A \<subseteq> NW g1" "same_bodies g g1" using assms(1) by (auto simp: marker_def)
  obtain g2 where 2: "h g1 = Inr g2" "marks {} g1 g2" "mok g2" "B \<subseteq> NW g2" "same_bodies g1 g2" using assms(2) [OF 1(2,3,5,4)] by (auto simp: marker_def)
  have "A \<subseteq> NW g2" using 1(4) marksD(4) [OF 2(2)] by blast
  then show ?thesis using 1 2 marks_trans same_trans [OF 1(5) 2(5)] by (auto simp: marker_def)
qed

lemma same_refl [simp]: "same_bodies g g"
  by (simp add: same_bodies_def)

lemma marker_none: "mok g \<Longrightarrow> marker Inr {} g"
  by (auto simp: marker_def marks_refl)

text \<open>An object that becomes gray, and is put into the list.\<close>

lemma reallymark_gray:
  assumes g: "mok g" and x: "heap g a = Some x" "iswhite (marked x)" and k: "kindat g a \<in> gray_kinds"
  shows "marker (reallymark (Suc d) a) {a} g"
proof -
  let ?x = "x\<lparr>marked := white2gray (marked x)\<rparr>"
  let ?g = "put_obj a ?x g"
  have b: "\<not> isblack (marked x)" using g x by (auto simp: mok_def sane_def)
  have s: "same_bodies g ?g" by (simp add: put_mark_same [OF x(1)])
  have r: "reallymark (Suc d) a g = Inr (?g\<lparr>gray := a # gray g\<rparr>)"
    using k x by (cases "body x" rule: kind_of.cases) (auto simp: gray_kinds_def kindat_def remark_eq [OF x(1)] obj_def)
  have m: "marks {} g (?g\<lparr>gray := a # gray g\<rparr>)"
    unfolding marks_def
    by (intro conjI exI [of _ "[a]"]) (use x b k same_kindat [OF s] same_refs [OF s] in \<open>auto simp: nw_def\<close>)
  have "mok (?g\<lparr>gray := a # gray g\<rparr>)"
    by (rule mok_same [OF g]) (use g b s in \<open>auto simp: mok_def same_bodies_def vweak_def intro: sane_put\<close>)
  moreover have "same_bodies g (?g\<lparr>gray := a # gray g\<rparr>)" using s by (simp add: same_bodies_def vweak_def)
  ultimately show ?thesis using r m by (simp add: marker_def)
qed

lemma reallymark_string:
  assumes g: "mok g" and x: "heap g a = Some x" "iswhite (marked x)" and k: "kindat g a = Some KString"
  shows "marker (reallymark (Suc d) a) {a} g"
proof -
  let ?g = "put_obj a (x\<lparr>marked := white2gray (marked x)\<rparr>) g"
  have b: "\<not> isblack (marked x)" using g x by (auto simp: mok_def sane_def)
  have s: "same_bodies g ?g" by (simp add: put_mark_same [OF x(1)])
  have r: "reallymark (Suc d) a g = Inr ?g"
    using k x by (auto simp: kindat_def remark_eq [OF x(1)] obj_def kind_simps)
  have m: "marks {} g ?g"
    unfolding marks_def
    by (intro conjI exI [of _ "[]"]) (use x b k same_kindat [OF s] same_refs [OF s] in \<open>auto simp: nw_def settled_def\<close>)
  have "mok ?g" by (rule mok_same [OF g s]) (use g b in \<open>auto simp: mok_def intro: sane_put\<close>)
  then show ?thesis using r m s by (simp add: marker_def)
qed

lemma marker_with: "mok g \<Longrightarrow> a \<in> D g \<Longrightarrow> (\<And>x. heap g a = Some x \<Longrightarrow> iswhite (marked x) \<Longrightarrow> marker (reallymark d a) {a} g) \<Longrightarrow> marker (mark_with d a) {a} g"
  by (auto simp: mark_with_def obj_def marker_def marks_refl nw_def)

lemma mark_with_gray: "mok g \<Longrightarrow> kindat g a \<in> insert (Some KString) gray_kinds \<Longrightarrow> marker (mark_with (Suc d) a) {a} g"
  by (rule marker_with) (auto intro: reallymark_gray reallymark_string simp: gray_kinds_def dest: kindat_D)

lemma obj_put: "obj (put_obj a x g) b = (if b = a then Inr x else obj g b)"
  by (simp add: obj_def put_obj_def)

lemma remark_put: "remark f a (put_obj a x g) = Inr (put_obj a (x\<lparr>marked := f (marked x)\<rparr>) g)"
  by (simp add: remark_def obj_put) (simp add: put_obj_def)

lemma reallymark_Suc:
  "reallymark (Suc d) a g = sbind (remark white2gray a g) (\<lambda>g. sbind (obj g a) (\<lambda>x.
     case body x of
       BString _ \<Rightarrow> Inr g
     | BUdata u \<Rightarrow> sbind (remark gray2black a g) (\<lambda>g.
         sbind (case ud_meta u of Some b \<Rightarrow> mark_with d b g | None \<Rightarrow> Inr g) (mark_with d (ud_env u)))
     | BUpVal l \<Rightarrow> sbind (uv_value g l) (\<lambda>v.
         sbind (case v of VRef b \<Rightarrow> mark_with d b g | _ \<Rightarrow> Inr g) (\<lambda>g.
         case l of Closed _ \<Rightarrow> remark gray2black a g | Open _ _ \<Rightarrow> Inr g))
     | _ \<Rightarrow> Inr (g\<lparr>gray := a # gray g\<rparr>)))"
  unfolding reallymark.simps Let_def mark_with_def [abs_def] by (rule refl)

declare reallymark.simps [simp del]

lemma reallymark_udata_eq:
  assumes "heap g a = Some x" "body x = BUdata u"
  shows "reallymark (Suc d) a g = (let g2 = put_obj a (x\<lparr>marked := gray2black (white2gray (marked x))\<rparr>) g in
    sbind (case ud_meta u of Some b \<Rightarrow> mark_with d b g2 | None \<Rightarrow> Inr g2) (mark_with d (ud_env u)))"
  using assms by (simp add: reallymark_Suc remark_eq [OF assms(1)] obj_put remark_put Let_def)

lemma reallymark_upval_eq:
  assumes "heap g a = Some x" "body x = BUpVal l"
  shows "reallymark (Suc d) a g = (let g1 = put_obj a (x\<lparr>marked := white2gray (marked x)\<rparr>) g in
    sbind (uv_value g1 l) (\<lambda>v. sbind (case v of VRef b \<Rightarrow> mark_with d b g1 | _ \<Rightarrow> Inr g1)
      (\<lambda>g. case l of Closed _ \<Rightarrow> remark gray2black a g | Open _ _ \<Rightarrow> Inr g)))"
  using assms by (simp add: reallymark_Suc remark_eq [OF assms(1)] obj_put Let_def)

lemma reallymark_udata:
  assumes g: "mok g" and x: "heap g a = Some x" "iswhite (marked x)" and k: "kindat g a = Some KUdata"
  shows "marker (reallymark (Suc (Suc d)) a) {a} g"
proof -
  obtain u where u: "body x = BUdata u" using k x by (auto simp: kindat_def kind_simps)
  let ?g = "put_obj a (x\<lparr>marked := gray2black (white2gray (marked x))\<rparr>) g"
  have s: "same_bodies g ?g" by (simp add: put_mark_same [OF x(1)])
  have m: "marks {a} g ?g"
    unfolding marks_def
    by (intro conjI exI [of _ "[]"]) (use x same_kindat [OF s] same_refs [OF s] in \<open>auto simp: nw_def\<close>)
  have o: "mok ?g" by (rule mok_same [OF g s]) (use g in \<open>auto simp: mok_def intro: sane_put\<close>)
  have w: "ook (D g) g {KTable} [ud_meta u, Some (ud_env u)]" using mok_wtb [OF g x(1)] u by simp
  have env: "kindat g (ud_env u) = Some KTable" and mt: "\<And>b. ud_meta u = Some b \<Longrightarrow> kindat g b = Some KTable"
    using w by (auto simp: ook_def osrefs_def)
  have 1: "marker (\<lambda>g. case ud_meta u of Some b \<Rightarrow> mark_with (Suc d) b g | None \<Rightarrow> Inr g) (set_option (ud_meta u)) ?g"
    using mt marker_none [OF o] mark_with_gray [OF o, of _ d] same_kindat [OF s] by (cases "ud_meta u") (auto simp: gray_kinds_def)
  have 2: "marker (mark_with (Suc d) (ud_env u)) {ud_env u} g'" if "marks {} ?g g'" "mok g'" "same_bodies ?g g'" for g'
    using env mark_with_gray [OF that(2), of _ d] marksD(2) [OF that(1)] same_kindat [OF s] by (simp add: gray_kinds_def)
  from marker_seq [OF 1 2] obtain g' where
    g': "reallymark (Suc (Suc d)) a g = Inr g'" "marks {} ?g g'" "mok g'" "set_option (ud_meta u) \<union> {ud_env u} \<subseteq> NW g'" "same_bodies ?g g'"
    unfolding marker_def reallymark_udata_eq [OF x(1) u] Let_def by blast
  have n: "nw g' a" "blk g' a" using marksD(4,5) [OF g'(2), of a] by simp_all
  have r: "refs g' a \<subseteq> NW g'" using marksD(3) [OF g'(2), of a] same_refs [OF s] g'(4) x u by (auto simp: refs_def)
  have k': "kindat g' a = Some KUdata" using marksD(2) [OF g'(2)] same_kindat [OF s] k by simp
  have "marks {a} g g'" using marks_trans [OF m marks_mono [OF g'(2)]] by blast
  then have "marks {} g g'" by (rule marks_settle) (use n r k' in \<open>auto simp: settled_def\<close>)
  then show ?thesis using g' n same_trans [OF s g'(5)] by (simp add: marker_def)
qed

lemma mark_with_value: "mok g \<Longrightarrow> kindat g a \<in> value_kinds \<Longrightarrow> marker (mark_with (Suc (Suc d)) a) {a} g"
  by (rule marker_with) (auto intro: reallymark_gray reallymark_string reallymark_udata simp: value_kinds_def gray_kinds_def dest: kindat_D)

lemma vok_cases: "vok S g v \<Longrightarrow> (\<exists>b. v = VRef b \<and> b \<in> S \<and> kindat g b \<in> value_kinds) \<or> (\<forall>b. v \<noteq> VRef b)"
  by (cases v) (auto simp: vok_def)

lemma uv_value_slot: "wtb S g (BUpVal (Open th i)) \<Longrightarrow> uv_value g (Open th i) = Inr (slot g th i)"
  by (auto simp: uv_value_def obj_def slot_def)

lemma marks_recolour:
  assumes m: "marks X g g1" and a: "\<not> nw g a" "a \<in> X" "kindat g a \<notin> gray_kinds" and y: "heap g1 a = Some y"
    and nw: "nw g1 a" "\<not> iswhite c" "bit c 4 = bit (marked y) 4"
  shows "marks X g (put_obj a (y\<lparr>marked := c\<rparr>) g1)"
proof -
  let ?h = "put_obj a (y\<lparr>marked := c\<rparr>) g1"
  obtain ns where ns: "gray g1 = ns @ gray g" "distinct ns" "\<forall>b \<in> set ns. \<not> nw g b \<and> nw g1 b \<and> \<not> blk g1 b \<and> kindat g b \<in> gray_kinds"
    "\<forall>b. nw g1 b \<longrightarrow> \<not> nw g b \<longrightarrow> b \<in> X \<or> b \<in> set ns \<or> settled g1 b" using m unfolding marks_def by blast
  have s: "same_bodies g1 ?h" using nw(3) by (simp add: put_mark_same [OF y])
  have nh: "nw ?h = nw g1" using nw by (intro ext) simp
  have st: "settled ?h b = settled g1 b" if "b \<noteq> a" for b
    using that by (simp add: settled_def nh same_kindat [OF s] same_refs [OF s])
  have an: "a \<notin> set ns" using ns(3) a(3) by blast
  show ?thesis
    unfolding marks_def
  proof (intro conjI allI impI exI [of _ ns])
    show "nw ?h b" "blk ?h b = blk g b" if "nw g b" for b using marksD(4,5) [OF m that] nh a(1) that by auto
    show "\<forall>b \<in> set ns. \<not> nw g b \<and> nw ?h b \<and> \<not> blk ?h b \<and> kindat g b \<in> gray_kinds" using ns(3) nh an by auto
    show "b \<in> X \<or> b \<in> set ns \<or> settled ?h b" if "nw ?h b" "\<not> nw g b" for b
      using ns(4) that a(2) st [of b] unfolding nh by (cases "b = a") auto
  qed (use marksD(1-3,6,7) [OF m] same_kindat [OF s] same_refs [OF s] ns in auto)
qed

lemma reallymark_upval:
  assumes g: "mok g" and x: "heap g a = Some x" "iswhite (marked x)" and k: "kindat g a \<in> {Some KUpVal, Some KOpenUv}"
  shows "marker (reallymark (Suc (Suc (Suc d))) a) {a} g"
proof -
  obtain l where l: "body x = BUpVal l" using k x by (auto simp: kindat_def kind_simps)
  let ?g = "put_obj a (x\<lparr>marked := white2gray (marked x)\<rparr>) g"
  have b: "\<not> isblack (marked x)" using g x by (auto simp: mok_def sane_def)
  have s: "same_bodies g ?g" by (simp add: put_mark_same [OF x(1)])
  have m: "marks {a} g ?g"
    unfolding marks_def
    by (intro conjI exI [of _ "[]"]) (use x b same_kindat [OF s] same_refs [OF s] in \<open>auto simp: nw_def\<close>)
  have o: "mok ?g" by (rule mok_same [OF g s]) (use g b in \<open>auto simp: mok_def intro: sane_put\<close>)
  have w: "wtb (D g) g (BUpVal l)" using mok_wtb [OF g x(1)] l by simp
  define v where "v = (case l of Closed v \<Rightarrow> v | Open th i \<Rightarrow> slot g th i)"
  have v: "uv_value ?g l = Inr v" "vok (D g) g v" "brefs g (BUpVal l) = vrefs v"
    using w uv_value_slot [of "D g" ?g] same_slot [OF s] same_wtb [OF s, of "D g" "BUpVal l"]
    by (cases l; auto simp: v_def uv_value_def)+
  have "marker (\<lambda>g. case v of VRef b \<Rightarrow> mark_with (Suc (Suc d)) b g | _ \<Rightarrow> Inr g) (vrefs v) ?g"
    using vok_cases [OF v(2)] marker_none [OF o] mark_with_value [OF o, of _ d] same_kindat [OF s] by (cases v) auto
  then obtain g1 where g1: "(case v of VRef b \<Rightarrow> mark_with (Suc (Suc d)) b ?g | _ \<Rightarrow> Inr ?g) = Inr g1" "marks {} ?g g1" "mok g1" "vrefs v \<subseteq> NW g1" "same_bodies ?g g1"
    by (auto simp: marker_def)
  have n: "nw g1 a" "\<not> blk g1 a" using marksD(4,5) [OF g1(2), of a] b by simp_all
  have r: "refs g1 a \<subseteq> NW g1" using marksD(3) [OF g1(2), of a] same_refs [OF s, of a] g1(4) refs_at [OF x(1)] l v(3) by simp
  have k1: "kindat g1 a = kindat g a" using marksD(2) [OF g1(2)] same_kindat [OF s] by simp
  have m1: "marks {a} g g1" using marks_trans [OF m marks_mono [OF g1(2)]] by blast
  show ?thesis
  proof (cases l)
    case (Open th i)
    then have "kindat g1 a = Some KOpenUv" using k1 x l by (simp add: kindat_def)
    then have "marks {} g g1" by (intro marks_settle [OF m1]) (use n r in \<open>auto simp: settled_def\<close>)
    then show ?thesis using g1 v(1) n Open l same_trans [OF s g1(5)] by (simp add: marker_def reallymark_upval_eq [OF x(1)])
  next
    case (Closed v')
    obtain y where y: "heap g1 a = Some y" using n(1) by (auto simp: nw_def split: option.splits)
    let ?h = "put_obj a (y\<lparr>marked := gray2black (marked y)\<rparr>) g1"
    have y': "\<not> iswhite (marked y)" using n(1) y by (simp add: nw_def)
    have s1: "same_bodies g1 ?h" by (simp add: put_mark_same [OF y])
    have nh: "nw ?h = nw g1" using n(1) y' by (intro ext) simp
    have "kindat g a = Some KUpVal" using x l Closed by (simp add: kindat_def)
    then have kh: "kindat ?h a = Some KUpVal" using k1 same_kindat [OF s1, of a] by (simp only:)
    have nx: "\<not> nw g a" using x by (simp add: nw_def)
    have "kindat g a \<notin> gray_kinds" using k by (auto simp: gray_kinds_def)
    then have "marks {a} g ?h" using marks_recolour [OF m1 nx _ _ y n(1)] y' by simp
    then have "marks {} g ?h" by (rule marks_settle) (use nh kh r same_refs [OF s1] in \<open>auto simp: settled_def\<close>)
    moreover have "mok ?h" by (rule mok_same [OF g1(3) s1]) (use g1(3) y' in \<open>auto simp: mok_def intro: sane_put\<close>)
    ultimately show ?thesis using g1 v(1) n nh Closed l same_trans [OF same_trans [OF s g1(5)] s1] by (auto simp: marker_def reallymark_upval_eq [OF x(1)] remark_eq [OF y])
  qed
qed

lemma mark_any: "mok g \<Longrightarrow> a \<in> D g \<Longrightarrow> marker (mark_with (Suc (Suc (Suc d))) a) {a} g"
proof (rule marker_with)
  fix x
  assume g: "mok g" and x: "heap g a = Some x" "iswhite (marked x)"
  show "marker (reallymark (Suc (Suc (Suc d))) a) {a} g"
    using reallymark_gray [OF g x] reallymark_string [OF g x] reallymark_udata [OF g x] reallymark_upval [OF g x]
    by (cases "body x" rule: kind_of.cases) (auto simp: kindat_def gray_kinds_def x)
qed

lemma markobject_spec: "mok g \<Longrightarrow> a \<in> D g \<Longrightarrow> marker (markobject a) {a} g"
  unfolding markobject_with numeral_3_eq_3 by (rule mark_any)

section \<open>Marking what an object refers to\<close>

lemma marks_vok: "marks X g g' \<Longrightarrow> vok (D g') g' v = vok (D g) g v"
  by (simp add: vok_def marksD(2) marksD(8))

lemma marks_ook: "marks X g g' \<Longrightarrow> ook (D g') g' K os = ook (D g) g K os"
  by (simp add: ook_def marksD(2) marksD(8))

lemma markvalue_spec: "mok g \<Longrightarrow> vok (D g) g v \<Longrightarrow> marker (markvalue v) (vrefs v) g"
  using markobject_spec [of g] marker_none [of g] by (cases v) (auto simp: markvalue_def [abs_def] vok_def)

lemma markopt_spec: "mok g \<Longrightarrow> ook (D g) g K [p] \<Longrightarrow> marker (markopt p) (set_option p) g"
  using markobject_spec [of g] marker_none [of g] by (cases p) (auto simp: markopt_def [abs_def] ook_def osrefs_def)

lemma stringmark_spec:
  assumes g: "mok g" and k: "kindat g a = Some KString"
  shows "marker (stringmark a) {a} g"
proof -
  obtain x where x: "heap g a = Some x" using k by (auto simp: kindat_def)
  let ?g = "put_obj a (x\<lparr>marked := white2gray (marked x)\<rparr>) g"
  have s: "same_bodies g ?g" by (simp add: put_mark_same [OF x])
  have b: "blk ?g = blk g" using x by (intro ext) (simp add: blk_def)
  have m: "marks {} g ?g"
    unfolding marks_def
    by (intro conjI exI [of _ "[]"]) (use x k same_kindat [OF s] same_refs [OF s] b g in \<open>auto simp: nw_def blk_def settled_def mok_def sane_def\<close>)
  have "mok ?g" by (rule mok_same [OF g s]) (use g in \<open>auto simp: mok_def intro: sane_put\<close>)
  then show ?thesis using m s by (simp add: marker_def stringmark_def remark_eq [OF x])
qed

lemma stringmark_opt_spec: "mok g \<Longrightarrow> ook (D g) g {KString} [p] \<Longrightarrow> marker (stringmark_opt p) (set_option p) g"
  using stringmark_spec [of g] marker_none [of g] by (cases p) (auto simp: stringmark_opt_def [abs_def] ook_def osrefs_def)

lemma marker_each:
  assumes "mok g" "\<And>x g'. x \<in> set xs \<Longrightarrow> marks {} g g' \<Longrightarrow> mok g' \<Longrightarrow> marker (f x) (R x) g'"
  shows "marker (each f xs) (\<Union>x \<in> set xs. R x) g"
  using assms
proof (induction xs arbitrary: g)
  case Nil
  then show ?case using marker_none by (simp add: each.simps(1) [abs_def])
next
  case (Cons x xs)
  have "marker (\<lambda>g. sbind (f x g) (each f xs)) (R x \<union> (\<Union>x \<in> set xs. R x)) g"
  proof (rule marker_seq)
    show "marker (f x) (R x) g" using Cons.prems(2) [OF _ marks_refl Cons.prems(1)] by simp
    show "marker (each f xs) (\<Union>x \<in> set xs. R x) g'" if "marks {} g g'" "mok g'" for g'
      using that by (intro Cons.IH Cons.prems(2)) (auto intro: marks_trans)
  qed
  then show ?case by (simp add: each.simps(2) [abs_def] Un_commute)
qed

lemma each_markvalue: "mok g \<Longrightarrow> \<forall>v \<in> set vs. vok (D g) g v \<Longrightarrow> marker (each markvalue vs) (vsrefs vs) g"
  unfolding vsrefs_def by (rule marker_each) (auto intro!: markvalue_spec simp: marks_vok)

lemma osrefs_Union: "osrefs os = (\<Union>p \<in> set os. set_option p)"
  by (auto simp: osrefs_def)

lemma ook_elem: "ook S g K os \<Longrightarrow> p \<in> set os \<Longrightarrow> ook S g K [p]"
  by (auto simp: ook_def osrefs_def)

lemma each_markopt: "mok g \<Longrightarrow> ook (D g) g K os \<Longrightarrow> marker (each markopt os) (osrefs os) g"
  unfolding osrefs_Union by (rule marker_each) (auto intro!: markopt_spec [of _ K] simp: marks_ook intro: ook_elem)

lemma each_stringmark: "mok g \<Longrightarrow> ook (D g) g {KString} os \<Longrightarrow> marker (each stringmark_opt os) (osrefs os) g"
  unfolding osrefs_Union by (rule marker_each) (auto intro!: stringmark_opt_spec simp: marks_ook intro: ook_elem)

text \<open>In any state after \<open>g\<close> in which only marking went on.\<close>

definition later :: "gstate \<Rightarrow> gstate \<Rightarrow> bool" where
  "later g g' \<longleftrightarrow> marks {} g g' \<and> mok g'"

lemma later_refl: "mok g \<Longrightarrow> later g g"
  by (simp add: later_def marks_refl)

lemma laterD: "later g g' \<Longrightarrow> mok g'" "later g g' \<Longrightarrow> D g' = D g" "later g g' \<Longrightarrow> kindat g' a = kindat g a"
  "later g g' \<Longrightarrow> ook (D g) g K os \<Longrightarrow> ook (D g') g' K os" "later g g' \<Longrightarrow> vok (D g) g v \<Longrightarrow> vok (D g') g' v"
  "later g g' \<Longrightarrow> a \<in> D g \<Longrightarrow> a \<in> D g'"
  unfolding later_def using marksD(8) [of "{}" g g'] marksD(2) [of "{}" g g'] marks_ook [of "{}" g g'] marks_vok [of "{}" g g'] by blast+

lemma later_seq:
  assumes "\<And>g'. later g g' \<Longrightarrow> marker f A g'" "\<And>g'. later g g' \<Longrightarrow> marker h B g'" "later g g1"
  shows "marker (\<lambda>g. sbind (f g) h) (A \<union> B) g1"
  by (rule marker_seq [OF assms(1) [OF assms(3)] assms(2)]) (use assms(3) in \<open>auto simp: later_def intro: marks_trans\<close>)

text \<open>Prototypes and closures.\<close>

lemma ook_append: "ook S g K (xs @ ys) \<longleftrightarrow> ook S g K xs \<and> ook S g K ys"
  by (auto simp: ook_def osrefs_def)

lemma ook_Cons: "ook S g K (x # xs) \<longleftrightarrow> ook S g K [x] \<and> ook S g K xs"
  by (auto simp: ook_def osrefs_def)

lemma traverseproto_spec:
  assumes g: "mok g" and w: "wtb (D g) g (BProto p)"
  shows "marker (traverseproto p) (brefs g (BProto p)) g"
proof -
  have o: "ook (D g) g {KString} [pr_source p]" "ook (D g) g {KString} (pr_upvalues p)" "ook (D g) g {KString} (pr_locvars p)"
    "\<forall>v \<in> set (pr_k p). vok (D g) g v" "ook (D g) g {KProto} (pr_p p)"
    using w by (simp_all add: ook_def osrefs_def)
  have s: "marker (stringmark_opt q) (set_option q) g'" if "ook (D g) g {KString} [q]" "later g g'" for q g'
    using stringmark_opt_spec [OF laterD(1,4) [OF that(2)]] that(1) by blast
  have ss: "marker (each stringmark_opt qs) (osrefs qs) g'" if "ook (D g) g {KString} qs" "later g g'" for qs g'
    using each_stringmark [OF laterD(1,4) [OF that(2)]] that(1) by blast
  have vs: "marker (each markvalue (pr_k p)) (vsrefs (pr_k p)) g'" if "later g g'" for g'
    using each_markvalue [OF laterD(1) [OF that]] laterD(5) [OF that] o(4) by blast
  have os: "marker (each markopt (pr_p p)) (osrefs (pr_p p)) g'" if "later g g'" for g'
    using each_markopt [OF laterD(1,4) [OF that]] o(5) by blast
  have 1: "marker (\<lambda>g. sbind (each markopt (pr_p p) g) (each stringmark_opt (pr_locvars p))) (osrefs (pr_p p) \<union> osrefs (pr_locvars p)) g'"
    if "later g g'" for g' using os ss [OF o(3)] that by (rule later_seq)
  have 2: "marker (\<lambda>g. sbind (each stringmark_opt (pr_upvalues p) g) (\<lambda>g. sbind (each markopt (pr_p p) g) (each stringmark_opt (pr_locvars p))))
      (osrefs (pr_upvalues p) \<union> (osrefs (pr_p p) \<union> osrefs (pr_locvars p))) g'"
    if "later g g'" for g' using ss [OF o(2)] 1 that by (rule later_seq)
  have 3: "marker (\<lambda>g. sbind (each markvalue (pr_k p) g) (\<lambda>g. sbind (each stringmark_opt (pr_upvalues p) g)
      (\<lambda>g. sbind (each markopt (pr_p p) g) (each stringmark_opt (pr_locvars p)))))
      (vsrefs (pr_k p) \<union> (osrefs (pr_upvalues p) \<union> (osrefs (pr_p p) \<union> osrefs (pr_locvars p)))) g'"
    if "later g g'" for g' using vs 2 that by (rule later_seq)
  have "marker (traverseproto p) (set_option (pr_source p) \<union> (vsrefs (pr_k p) \<union> (osrefs (pr_upvalues p) \<union> (osrefs (pr_p p) \<union> osrefs (pr_locvars p))))) g"
    unfolding traverseproto_def [abs_def] using s [OF o(1)] 3 later_refl [OF g] by (rule later_seq)
  then show ?thesis by (simp only: brefs.simps Un_assoc)
qed

lemma markupval_spec: "mok g \<Longrightarrow> ook (D g) g K [u] \<Longrightarrow> u \<noteq> None \<Longrightarrow> marker (markupval u) (set_option u) g"
  using markobject_spec [of g] by (cases u) (auto simp: markupval_def [abs_def] ook_def osrefs_def)

lemma traverseclosure_spec:
  assumes g: "mok g" and w: "wtb (D g) g (BFunction f)"
  shows "marker (traverseclosure f) (brefs g (BFunction f)) g"
proof (cases f)
  case (CClosure e vs)
  have e: "e \<in> D g" "\<forall>v \<in> set vs. vok (D g) g v" using w CClosure by (auto simp: ook_def osrefs_def)
  have "marker (\<lambda>g. sbind (markobject e g) (each markvalue vs)) ({e} \<union> vsrefs vs) g"
    by (rule marker_seq [OF markobject_spec [OF g e(1)] each_markvalue]) (use e in \<open>simp_all add: marks_vok\<close>)
  then show ?thesis using CClosure by (simp add: traverseclosure.simps(1) [abs_def])
next
  case (LClosure e p us)
  have e: "e \<in> D g" "p \<in> D g" "ook (D g) g {KUpVal, KOpenUv} us" "None \<notin> set us" using w LClosure by (auto simp: ook_def osrefs_def)
  have u: "marker (markupval u) (set_option u) g'" if "later g g'" "u \<in> set us" for u g'
    using markupval_spec [OF laterD(1,4) [OF that(1)] ] ook_elem [OF e(3) that(2)] e(4) that(2) by metis
  have us: "marker (each markupval us) (osrefs us) g'" if "later g g'" for g'
    unfolding osrefs_Union using that by (intro marker_each u) (auto simp: later_def intro: marks_trans)
  have m: "marker (markobject a) {a} g'" if "later g g'" "a \<in> D g" for a g'
    using markobject_spec [OF laterD(1,6) [OF that(1)]] that(2) by blast
  have 1: "marker (\<lambda>g. sbind (markobject p g) (each markupval us)) ({p} \<union> osrefs us) g'" if "later g g'" for g'
    using m [OF _ e(2)] us that by (rule later_seq)
  have "marker (\<lambda>g. sbind (markobject e g) (\<lambda>g. sbind (markobject p g) (each markupval us))) ({e} \<union> ({p} \<union> osrefs us)) g"
    using m [OF _ e(1)] 1 later_refl [OF g] by (rule later_seq)
  then show ?thesis using LClosure by (simp add: traverseclosure.simps(2) [abs_def] insert_commute)
qed

end
