(* ===== verification/LGCTrav.thy ===== *)
theory LGCTrav
  imports LGCInv
begin

text \<open>
  The traversal of gray objects: of tables, whose empty nodes lose their keys, of stacks, and of one object of the gray list.
\<close>

section \<open>Tables that lose entries\<close>

text \<open>What the collector does to a table: elements become nil, nodes become empty, flags are set.\<close>

definition shrunk :: "gtable \<Rightarrow> gtable \<Rightarrow> bool" where
  "shrunk t t' \<longleftrightarrow> tb_meta t' = tb_meta t \<and> (\<forall>v \<in> set (tb_array t'). v = VNil \<or> v \<in> set (tb_array t))
    \<and> (\<forall>n \<in> set (tb_nodes t'). g_val n = VNil \<or> n \<in> set (tb_nodes t))"

definition bshrunk :: "gcbody \<Rightarrow> gcbody \<Rightarrow> bool" where
  "bshrunk b b' \<longleftrightarrow> b' = b \<or> (\<exists>t t'. b = BTable t \<and> b' = BTable t' \<and> shrunk t t')"

definition tab_shrunk :: "gstate \<Rightarrow> gstate \<Rightarrow> bool" where
  "tab_shrunk g g' \<longleftrightarrow> D g' = D g \<and> (\<forall>a x y. heap g a = Some x \<longrightarrow> heap g' a = Some y \<longrightarrow> bshrunk (body x) (body y))"

lemma shrunk_refl [simp]: "shrunk t t"
  by (simp add: shrunk_def)

lemma bshrunk_refl [simp]: "bshrunk b b"
  by (simp add: bshrunk_def)

lemma shrunk_trans: "shrunk t t' \<Longrightarrow> shrunk t' t'' \<Longrightarrow> shrunk t t''"
  by (auto simp: shrunk_def)

lemma bshrunk_trans: "bshrunk b b' \<Longrightarrow> bshrunk b' b'' \<Longrightarrow> bshrunk b b''"
  by (auto simp: bshrunk_def intro: shrunk_trans)

lemma tab_shrunkD: "tab_shrunk g g' \<Longrightarrow> heap g a = Some x \<Longrightarrow> \<exists>y. heap g' a = Some y \<and> bshrunk (body x) (body y)"
  unfolding tab_shrunk_def by (metis domD domI)

lemma tab_shrunk_trans:
  assumes 1: "tab_shrunk g g'" and 2: "tab_shrunk g' g''"
  shows "tab_shrunk g g''"
  unfolding tab_shrunk_def
proof (intro conjI allI impI)
  show "D g'' = D g" using 1 2 by (simp only: tab_shrunk_def)
  fix a x z
  assume x: "heap g a = Some x" and z: "heap g'' a = Some z"
  obtain y where y: "heap g' a = Some y" "bshrunk (body x) (body y)" using tab_shrunkD [OF 1 x] by blast
  have "bshrunk (body y) (body z)" using tab_shrunkD [OF 2 y(1)] z by simp
  then show "bshrunk (body x) (body z)" using y(2) bshrunk_trans by blast
qed

lemma same_shrunk: "same_bodies g g' \<Longrightarrow> tab_shrunk g g'"
  unfolding tab_shrunk_def by (intro conjI allI impI) (rule same_D, assumption, auto dest: same_body_at)

lemma bshrunk_kind: "bshrunk b b' \<Longrightarrow> kind_of b' = kind_of b"
  by (auto simp: bshrunk_def)

lemma bshrunk_thread: "bshrunk b b' \<Longrightarrow> b = BThread t \<longleftrightarrow> b' = BThread t"
  by (auto simp: bshrunk_def)

lemma shrunk_kindat: "tab_shrunk g g' \<Longrightarrow> kindat g' a = kindat g a"
proof (cases "heap g a")
  case None
  moreover assume "tab_shrunk g g'"
  ultimately have "heap g' a = None" unfolding tab_shrunk_def by (metis domIff)
  then show ?thesis using None by (simp add: kindat_def)
qed (auto simp: kindat_def bshrunk_kind dest: tab_shrunkD)

lemma shrunk_thread: "tab_shrunk g g' \<Longrightarrow> (\<exists>x. heap g th = Some x \<and> body x = BThread t) \<longleftrightarrow> (\<exists>x. heap g' th = Some x \<and> body x = BThread t)"
  using tab_shrunkD [of g g' th] bshrunk_thread unfolding tab_shrunk_def by (metis domD domI)

lemma slot_thread: "heap g th = Some x \<Longrightarrow> body x = BThread t \<Longrightarrow> slot g th i = (if i < length (th_stack t) then th_stack t ! i else VNil)"
  by (simp add: slot_def)

lemma slot_none: "\<nexists>t x. heap g th = Some x \<and> body x = BThread t \<Longrightarrow> slot g th i = VNil"
  by (auto simp: slot_def split: option.splits gcbody.splits)

lemma shrunk_slot: "tab_shrunk g g' \<Longrightarrow> slot g' th i = slot g th i"
proof -
  assume s: "tab_shrunk g g'"
  show ?thesis
  proof (cases "\<exists>t x. heap g th = Some x \<and> body x = BThread t")
    case True
    then obtain t x where x: "heap g th = Some x" "body x = BThread t" by blast
    obtain y where y: "heap g' th = Some y" "body y = BThread t" using shrunk_thread [OF s, of th t] x by blast
    show ?thesis using slot_thread [OF x, of i] slot_thread [OF y, of i] by simp
  next
    case False
    then have "\<nexists>t x. heap g' th = Some x \<and> body x = BThread t" using shrunk_thread [OF s, of th] by blast
    then show ?thesis using slot_none [OF False, of i] slot_none [of g' th i] by simp
  qed
qed

lemma shrunk_vok: "tab_shrunk g g' \<Longrightarrow> vok S g' v = vok S g v"
  by (simp add: vok_def shrunk_kindat)

lemma shrunk_ook: "tab_shrunk g g' \<Longrightarrow> ook S g' K os = ook S g K os"
  by (simp add: ook_def shrunk_kindat)

lemma shrunk_wtb: "tab_shrunk g g' \<Longrightarrow> wtb S g' b = wtb S g b"
proof (cases "(S, g, b)" rule: wtb.cases)
  case (4 S' g0 th i)
  assume s: "tab_shrunk g g'"
  have "(\<exists>x t. heap g' th = Some x \<and> body x = BThread t \<and> i < th_top t \<and> th_top t < length (th_stack t))
      = (\<exists>x t. heap g th = Some x \<and> body x = BThread t \<and> i < th_top t \<and> th_top t < length (th_stack t))"
    using shrunk_thread [OF s, of th] by metis
  then show ?thesis using 4 s by (simp add: shrunk_vok shrunk_slot)
qed (simp_all add: shrunk_vok shrunk_ook)

lemma vok_nil [simp]: "vok S g VNil" "vok S g VPlain"
  by (simp_all add: vok_def)

lemma bshrunk_wtb: "bshrunk b b' \<Longrightarrow> wtb S g b \<Longrightarrow> wtb S g b'"
  unfolding bshrunk_def shrunk_def
proof (elim disjE exE conjE)
  fix t t'
  assume *: "b = BTable t" "b' = BTable t'" "tb_meta t' = tb_meta t" "\<forall>v \<in> set (tb_array t'). v = VNil \<or> v \<in> set (tb_array t)"
    "\<forall>n \<in> set (tb_nodes t'). g_val n = VNil \<or> n \<in> set (tb_nodes t)" "wtb S g b"
  show "wtb S g b'"
    unfolding *(2) wtb.simps
  proof (intro conjI ballI impI)
    show "ook S g {KTable} [tb_meta t']" using *(1,3,6) by simp
    show "vok S g v" if "v \<in> set (tb_array t')" for v using *(1,4,6) that by auto
    show "vok S g (key_value (g_key n))" "vok S g (g_val n)" if "n \<in> set (tb_nodes t')" "g_val n \<noteq> VNil" for n
    proof -
      have "n \<in> set (tb_nodes t)" using *(5) that by blast
      then show "vok S g (key_value (g_key n))" "vok S g (g_val n)" using *(1,6) that(2) by simp_all
    qed
  qed
qed simp

lemma bshrunk_brefs: "bshrunk b b' \<Longrightarrow> brefs g b' \<subseteq> brefs g b"
  unfolding bshrunk_def shrunk_def
proof (elim disjE exE conjE)
  fix t t'
  assume *: "b = BTable t" "b' = BTable t'" "tb_meta t' = tb_meta t" "\<forall>v \<in> set (tb_array t'). v = VNil \<or> v \<in> set (tb_array t)"
    "\<forall>n \<in> set (tb_nodes t'). g_val n = VNil \<or> n \<in> set (tb_nodes t)"
  have "vsrefs (tb_array t') \<subseteq> vsrefs (tb_array t)" using *(4) by (fastforce simp: vsrefs_def)
  moreover have "(\<Union>n \<in> set (tb_nodes t'). noderefs n) \<subseteq> (\<Union>n \<in> set (tb_nodes t). noderefs n)" using *(5) by (fastforce simp: noderefs_def)
  ultimately show "brefs g b' \<subseteq> brefs g b" using *(1-3) by auto
qed simp

lemma shrunk_brefs: "tab_shrunk g g' \<Longrightarrow> brefs g' b = brefs g b"
  by (cases "(g, b)" rule: brefs.cases) (simp_all add: shrunk_slot)

lemma shrunk_refs: "tab_shrunk g g' \<Longrightarrow> refs g' a \<subseteq> refs g a"
proof (cases "heap g a")
  case None
  moreover assume "tab_shrunk g g'"
  ultimately have "heap g' a = None" unfolding tab_shrunk_def by (metis domIff)
  then show ?thesis by (simp add: refs_def)
next
  case (Some x)
  assume s: "tab_shrunk g g'"
  obtain y where "heap g' a = Some y" "bshrunk (body x) (body y)" using tab_shrunkD [OF s Some] by blast
  then show ?thesis using Some bshrunk_brefs [of "body x" "body y" g] shrunk_brefs [OF s] by (simp add: refs_def)
qed

lemma shrunk_closed: "tab_shrunk g g' \<Longrightarrow> closed S g \<Longrightarrow> closed S g'"
proof -
  assume s: "tab_shrunk g g'" and c: "closed S g"
  show "closed S g'"
    unfolding closed_def
  proof
    fix a
    assume "a \<in> S"
    then obtain x where x: "heap g a = Some x" "wtb S g (body x)" using c by (auto simp: closed_def)
    obtain y where "heap g' a = Some y" "bshrunk (body x) (body y)" using tab_shrunkD [OF s x(1)] by blast
    then show "\<exists>x. heap g' a = Some x \<and> wtb S g' (body x)" using bshrunk_wtb [OF _ x(2)] shrunk_wtb [OF s] by simp
  qed
qed

lemma mok_shrunk: "mok g \<Longrightarrow> tab_shrunk g g' \<Longrightarrow> frame g' = frame g \<Longrightarrow> sane g' \<Longrightarrow> mok g'"
  using roots_frame [of g' g "D g"] shrunk_closed [of g g' "D g"] shrunk_kindat [of g g']
  by (auto simp: mok_def tab_shrunk_def)

lemma shrunk_put:
  assumes "heap g a = Some x" "bshrunk (body x) (body y)"
  shows "tab_shrunk g (put_obj a y g)"
  using assms by (auto simp: tab_shrunk_def put_obj_def)

section \<open>Steps of a traversal\<close>

text \<open>Marking, and tables that lose entries; \<open>weak\<close> may grow and the weakness of \<open>Y\<close> change.\<close>

definition adv :: "nat set \<Rightarrow> gstate \<Rightarrow> gstate \<Rightarrow> bool" where
  "adv Y g g' \<longleftrightarrow> marks {} g (g'\<lparr>weak := weak g\<rparr>) \<and> mok g' \<and> tab_shrunk g g' \<and> (\<forall>a. a \<notin> Y \<longrightarrow> vweak g' a = vweak g a)"

lemma settled_weak [simp]: "settled (g\<lparr>weak := xs\<rparr>) = settled g"
  by (intro ext) (simp only: settled_def list_fields)

lemma mok_weak [simp]: "mok (g\<lparr>weak := xs\<rparr>) = mok g"
proof
  assume m: "mok (g\<lparr>weak := xs\<rparr>)"
  have "same_bodies (g\<lparr>weak := xs\<rparr>) g" by (rule same_sym) (rule list_same(3))
  moreover have "sane g" using m unfolding mok_def list_fields by blast
  moreover have "frame g = frame (g\<lparr>weak := xs\<rparr>)" by simp
  ultimately show "mok g" using mok_same [OF m] by blast
next
  assume m: "mok g"
  have "sane (g\<lparr>weak := xs\<rparr>)" using m by (simp add: mok_def)
  then show "mok (g\<lparr>weak := xs\<rparr>)" using mok_same [OF m] by simp
qed

lemma weak_id: "weak g = xs \<Longrightarrow> g\<lparr>weak := xs\<rparr> = g"
  by simp

lemma marks_weak: "marks X g g' \<Longrightarrow> marks X (g\<lparr>weak := xs\<rparr>) (g'\<lparr>weak := xs\<rparr>)"
  unfolding marks_def by simp

lemma adv_marker: "marks {} g g' \<Longrightarrow> mok g' \<Longrightarrow> same_bodies g g' \<Longrightarrow> adv Y g g'"
  using same_shrunk [of g g'] marksD(7) [of "{}" g g'] by (auto simp: adv_def same_bodies_def weak_id)

lemma adv_trans:
  assumes 1: "adv Y g g1" and 2: "adv Y g1 g2"
  shows "adv Y g g2"
proof -
  have "marks {} (g1\<lparr>weak := weak g\<rparr>) (g2\<lparr>weak := weak g\<rparr>)"
    using marks_weak [of "{}" g1 "g2\<lparr>weak := weak g1\<rparr>" "weak g"] 2 by (simp add: adv_def)
  then show ?thesis using 1 2 by (auto simp: adv_def intro: marks_trans tab_shrunk_trans)
qed

lemma adv_mono: "adv Y g g' \<Longrightarrow> Y \<subseteq> Z \<Longrightarrow> adv Z g g'"
  unfolding adv_def by blast

lemma adv_vweak: "adv Y g g' \<Longrightarrow> a \<notin> Y \<Longrightarrow> vweak g' a = vweak g a"
  unfolding adv_def by blast

lemma advD:
  assumes "adv Y g g'"
  shows "frame g' = frame g" "kindat g' a = kindat g a" "refs g' a \<subseteq> refs g a" "nw g a \<Longrightarrow> nw g' a" "nw g a \<Longrightarrow> blk g' a = blk g a"
    "D g' = D g" "mok g'" "tab_shrunk g g'" "ook (D g) g K os \<Longrightarrow> ook (D g') g' K os" "vok (D g) g v \<Longrightarrow> vok (D g') g' v"
    "grayagain g' = grayagain g"
proof -
  have m: "marks {} g (g'\<lparr>weak := weak g\<rparr>)" and s: "tab_shrunk g g'" using assms by (simp_all add: adv_def)
  show "frame g' = frame g" "kindat g' a = kindat g a" "refs g' a \<subseteq> refs g a" "nw g a \<Longrightarrow> nw g' a" "nw g a \<Longrightarrow> blk g' a = blk g a"
    "grayagain g' = grayagain g"
    using marksD(1-6) [OF m] by simp_all
  show "D g' = D g" "mok g'" "tab_shrunk g g'" using assms by (simp_all add: adv_def tab_shrunk_def)
  then show "ook (D g) g K os \<Longrightarrow> ook (D g') g' K os" "vok (D g) g v \<Longrightarrow> vok (D g') g' v"
    using shrunk_ook [OF s] shrunk_vok [OF s] by simp_all
qed

lemma adv_refl: "mok g \<Longrightarrow> adv Y g g"
  by (rule adv_marker) (auto intro: marks_refl)

text \<open>A new body of a table.\<close>

lemma adv_table:
  assumes g: "mok g" and x: "heap g a = Some x" "body x = BTable t" and t: "shrunk t t'"
  shows "set_body (BTable t') a g = Inr (put_obj a (x\<lparr>body := BTable t'\<rparr>) g)" "adv Y g (put_obj a (x\<lparr>body := BTable t'\<rparr>) g)"
    "weak (put_obj a (x\<lparr>body := BTable t'\<rparr>) g) = weak g"
proof -
  let ?h = "put_obj a (x\<lparr>body := BTable t'\<rparr>) g"
  show "set_body (BTable t') a g = Inr ?h" by (simp add: set_body_def obj_def x)
  show w: "weak ?h = weak g" by simp
  have b: "bshrunk (BTable t) (BTable t')" using t by (simp add: bshrunk_def)
  have s: "tab_shrunk g ?h" by (rule shrunk_put) (use x b in auto)
  have c: "nw ?h = nw g" "blk ?h = blk g" using x by (auto simp: nw_def blk_def fun_eq_iff)
  have "sane ?h" using g x by (intro sane_put) (auto simp: mok_def sane_def)
  then have m: "mok ?h" using g s by (auto intro: mok_shrunk)
  have "marks {} g ?h"
    unfolding marks_def
    by (intro conjI exI [of _ "[]"]) (use c shrunk_kindat [OF s] shrunk_refs [OF s] in auto)
  then have "marks {} g (?h\<lparr>weak := weak g\<rparr>)" by (simp only: weak_id [OF w])
  moreover have "vweak ?h = vweak g" using x by (auto simp: vweak_def fun_eq_iff)
  ultimately show "adv Y g ?h" using s m unfolding adv_def by simp
qed

lemma as_table_at: "kindat g a = Some KTable \<Longrightarrow> \<exists>x t. heap g a = Some x \<and> body x = BTable t \<and> as_table g a = Inr t"
  by (auto simp: kindat_def as_table_def obj_def kind_simps)

lemma as_table_eq: "heap g a = Some x \<Longrightarrow> body x = BTable t \<Longrightarrow> as_table g a = Inr t"
  by (simp add: as_table_def obj_def)

lemma node_getstr_ok: "wtb S g (BTable t) \<Longrightarrow> vok S g (node_getstr t a)"
proof (cases "find (\<lambda>n. g_key n = KVal (VRef a)) (tb_nodes t)")
  case (Some n)
  assume w: "wtb S g (BTable t)"
  have "n \<in> set (tb_nodes t)" using Some by (auto simp: find_Some_iff)
  then show ?thesis using w Some by (cases "g_val n = VNil") (auto simp: node_getstr_def)
qed (simp add: node_getstr_def)

text \<open>Looking for a tag method marks nothing, and may set a flag of the metatable.\<close>

lemma gfasttm_spec:
  assumes g: "mok g" and k: "ook (D g) g {KTable} [et]" and e: "e < 4"
  obtains tm g' where "gfasttm et e g = Inr (tm, g')" "adv {} g g'" "nw g' = nw g" "blk g' = blk g" "gray g' = gray g" "weak g' = weak g"
    "\<And>v. tm = Some v \<Longrightarrow> vok (D g) g v"
proof (cases et)
  case None
  then show ?thesis using that [of None g] adv_refl [OF g] by (simp add: gfasttm_def)
next
  case (Some m)
  have "kindat g m = Some KTable" using k Some by (simp add: ook_def osrefs_def)
  then obtain x t where x: "heap g m = Some x" "body x = BTable t" "as_table g m = Inr t" using as_table_at by blast
  have "e < length (tmname g)" using g e by (auto simp: mok_def roots_ok_def)
  then have n: "lift (rd (tmname g) e) = Inr (tmname g ! e)" by (simp add: lift_def rd_def)
  let ?v = "node_getstr t (tmname g ! e)" and ?t = "t\<lparr>tb_flags := tb_flags t OR push_bit e 1\<rparr>"
  have v: "vok (D g) g ?v" using node_getstr_ok mok_wtb [OF g x(1)] x(2) by simp
  have t: "shrunk t ?t" by (simp add: shrunk_def)
  let ?h = "put_obj m (x\<lparr>body := BTable ?t\<rparr>) g"
  have c: "nw ?h = nw g" "blk ?h = blk g" using x by (auto simp: nw_def blk_def fun_eq_iff)
  show ?thesis
  proof (cases "tb_flags t AND push_bit e 1 \<noteq> 0")
    case True
    then show ?thesis using that [of None g] adv_refl [OF g] Some x by (simp add: gfasttm_def)
  next
    case False
    then have *: "gfasttm et e g = luaT_gettm m e (tmname g ! e) g" using Some x n by (simp add: gfasttm_def)
    show ?thesis
    proof (cases "?v = VNil")
      case True
      then have "gfasttm et e g = Inr (None, ?h)" using * x adv_table(1) [OF g x(1,2) t] by (simp add: luaT_gettm_def Let_def)
      then show ?thesis using that [of None ?h] adv_table(2,3) [OF g x(1,2) t] c by simp
    next
      case False
      then have "gfasttm et e g = Inr (Some ?v, g)" using * x by (simp add: luaT_gettm_def Let_def)
      then show ?thesis using that [of "Some ?v" g] adv_refl [OF g] v by simp
    qed
  qed
qed

lemma weak_mode_ok: "(\<And>v. mode = Some v \<Longrightarrow> vok (D g) g v) \<Longrightarrow> \<exists>k v. weak_mode mode g = Inr (k, v)"
  by (cases mode) (auto simp: weak_mode_def obj_def vok_def Let_def ex_bool_eq split: gvalue.splits gcbody.splits)

section \<open>Traversing a table\<close>

definition live_refs :: "bool \<Rightarrow> bool \<Rightarrow> gnode \<Rightarrow> nat set" where
  "live_refs wk wv n = (if g_val n = VNil then {} else (if wk then {} else vrefs (key_value (g_key n))) \<union> (if wv then {} else vrefs (g_val n)))"

lemma traverse_node_spec:
  assumes g: "mok g" and n: "g_val n \<noteq> VNil \<Longrightarrow> vok (D g) g (key_value (g_key n)) \<and> vok (D g) g (g_val n)"
  shows "marker (traverse_node wk wv n) (live_refs wk wv n) g"
proof (cases "g_val n = VNil")
  case True
  then show ?thesis using marker_none [OF g] by (simp add: traverse_node_def [abs_def] live_refs_def)
next
  case False
  have 1: "marker (\<lambda>g. if wk then Inr g else markvalue (key_value (g_key n)) g) (if wk then {} else vrefs (key_value (g_key n))) g"
    using marker_none [OF g] markvalue_spec [OF g] n [OF False] by (cases wk) (auto simp: eta_contract_eq)
  have 2: "marker (\<lambda>g. if wv then Inr g else markvalue (g_val n) g) (if wv then {} else vrefs (g_val n)) g'"
    if "marks {} g g'" "mok g'" for g'
    using marker_none [OF that(2)] markvalue_spec [OF that(2)] n [OF False] marks_vok [OF that(1)] by (cases wv) auto
  show ?thesis using marker_seq [OF 1 2] False by (simp add: traverse_node_def [abs_def] live_refs_def)
qed

lemma clear_empty_shrunk: "shrunk t (clear_empty t)"
  by (auto simp: shrunk_def clear_empty_def removeentry_def)

lemma clear_empty_refs: "(\<Union>n \<in> set (tb_nodes (clear_empty t)). live_refs a b n) \<subseteq> (\<Union>n \<in> set (tb_nodes t). live_refs a b n)"
  by (auto simp: clear_empty_def live_refs_def removeentry_def split: if_splits)

lemma live_refs_all: "live_refs False False n = noderefs n"
  by (simp add: live_refs_def noderefs_def)

text \<open>What is marked of a weak table: its metatable, and the array part unless its values are weak.\<close>

definition wk_ok :: "gstate \<Rightarrow> nat \<Rightarrow> bool" where
  "wk_ok g h \<longleftrightarrow> (\<exists>x t. heap g h = Some x \<and> body x = BTable t \<and> set_option (tb_meta t) \<subseteq> NW g \<and> (\<not> bit (marked x) 4 \<longrightarrow> vsrefs (tb_array t) \<subseteq> NW g))"

lemma wk_ok_adv:
  assumes w: "wk_ok g h" and a: "adv Y g g'" and h: "h \<notin> Y"
  shows "wk_ok g' h"
proof -
  obtain x t where x: "heap g h = Some x" "body x = BTable t" "set_option (tb_meta t) \<subseteq> NW g" "\<not> bit (marked x) 4 \<longrightarrow> vsrefs (tb_array t) \<subseteq> NW g"
    using w by (auto simp: wk_ok_def)
  obtain y where y: "heap g' h = Some y" "bshrunk (body x) (body y)" using tab_shrunkD [OF advD(8) [OF a] x(1)] by blast
  obtain t' where t: "body y = BTable t'" "shrunk t t'" using y(2) x(2) by (auto simp: bshrunk_def)
  have n: "NW g \<subseteq> NW g'" using advD(4) [OF a] by blast
  have v: "vsrefs (tb_array t') \<subseteq> vsrefs (tb_array t)" using t(2) by (fastforce simp: shrunk_def vsrefs_def)
  have "bit (marked y) 4 = bit (marked x) 4" using a h x(1) y(1) unfolding adv_def vweak_def by (metis option.simps(5))
  then show ?thesis using x(3,4) y(1) t n v unfolding wk_ok_def shrunk_def by (metis order_trans)
qed

lemma bits_both: "n < 8 \<Longrightarrow> bit ((m AND NOT (KEYWEAK OR VALUEWEAK)) OR (if k then KEYWEAK else 0) OR (if v then VALUEWEAK else 0)) n
    = (if n = 3 then k else if n = 4 then v else bit m n)" for m :: byte
  by (auto simp: bit_simps bit_masks)

lemma weak_bits [simp]:
  "iswhite ((m AND NOT (KEYWEAK OR VALUEWEAK)) OR (if k then KEYWEAK else 0) OR (if v then VALUEWEAK else 0)) = iswhite m"
  "isblack ((m AND NOT (KEYWEAK OR VALUEWEAK)) OR (if k then KEYWEAK else 0) OR (if v then VALUEWEAK else 0)) = isblack m"
  by (cases k; cases v; simp add: iswhite_bits isblack_bits bit_simps bit_masks)+

text \<open>The second part, when the elements are traversed.\<close>

definition table_rest :: "bool \<Rightarrow> bool \<Rightarrow> nat \<Rightarrow> gstate \<Rightarrow> (bool \<times> gstate) lres" where
  "table_rest weakkey weakvalue h g =
    sbind (as_table g h) (\<lambda>t.
    sbind (if weakvalue then Inr g else each markvalue (rev (tb_array t)) g) (\<lambda>g.
    sbind (each (traverse_node weakkey weakvalue) (rev (tb_nodes t)) g) (\<lambda>g.
    sbind (as_table g h) (\<lambda>t.
    sbind (set_body (BTable (clear_empty t)) h g) (\<lambda>g. Inr (weakkey \<or> weakvalue, g))))))"

lemma table_rest_spec:
  assumes g: "mok g" and x: "heap g h = Some x" "body x = BTable t"
  obtains g' where "table_rest wk wv h g = Inr (wk \<or> wv, g')" "adv {} g g'" "weak g' = weak g"
    "\<not> wv \<Longrightarrow> vsrefs (tb_array t) \<subseteq> NW g'" "\<not> wk \<Longrightarrow> \<not> wv \<Longrightarrow> (\<Union>n \<in> set (tb_nodes t). noderefs n) \<subseteq> NW g'"
proof -
  have w: "wtb (D g) g (BTable t)" using mok_wtb [OF g x(1)] x(2) by simp
  have 1: "marker (\<lambda>g. if wv then Inr g else each markvalue (rev (tb_array t)) g) (if wv then {} else vsrefs (tb_array t)) g"
    using marker_none [OF g] each_markvalue [OF g, of "rev (tb_array t)"] w by (cases wv) (auto simp: vsrefs_def)
  have 2: "marker (each (traverse_node wk wv) (rev (tb_nodes t))) (\<Union>n \<in> set (rev (tb_nodes t)). live_refs wk wv n) g'"
    if "marks {} g g'" "mok g'" for g'
  proof (rule marker_each [OF that(2)])
    fix n g''
    assume n: "n \<in> set (rev (tb_nodes t))" and m: "marks {} g' g''" "mok g''"
    have "marks {} g g''" using that(1) m(1) by (rule marks_trans)
    from marks_vok [OF this] show "marker (traverse_node wk wv n) (live_refs wk wv n) g''"
      using w n by (intro traverse_node_spec m) auto
  qed
  from marker_seq [OF 1 2] obtain g1 where g1: "sbind (if wv then Inr g else each markvalue (rev (tb_array t)) g) (each (traverse_node wk wv) (rev (tb_nodes t))) = Inr g1"
    "marks {} g g1" "mok g1" "same_bodies g g1"
    "(if wv then {} else vsrefs (tb_array t)) \<union> (\<Union>n \<in> set (rev (tb_nodes t)). live_refs wk wv n) \<subseteq> NW g1" unfolding marker_def by blast
  obtain y where y: "heap g1 h = Some y" "body y = BTable t" using same_body_at [OF g1(4) x(1)] x(2) by auto
  let ?h = "put_obj h (y\<lparr>body := BTable (clear_empty t)\<rparr>) g1"
  note s = adv_table [OF g1(3) y clear_empty_shrunk]
  have "sbind (if wv then Inr g else each markvalue (rev (tb_array t)) g) (\<lambda>g. sbind (each (traverse_node wk wv) (rev (tb_nodes t)) g) k)
      = sbind (sbind (if wv then Inr g else each markvalue (rev (tb_array t)) g) (each (traverse_node wk wv) (rev (tb_nodes t)))) k" for k :: "gstate \<Rightarrow> (bool \<times> gstate) lres"
    by (cases wv; cases "each markvalue (rev (tb_array t)) g") simp_all
  then have "table_rest wk wv h g = Inr (wk \<or> wv, ?h)"
    unfolding table_rest_def using g1(1) as_table_eq [OF x] as_table_eq [OF y] s(1) by simp
  moreover have "adv {} g ?h" using adv_marker [OF g1(2-4)] s(2) by (rule adv_trans)
  moreover have "NW g1 \<subseteq> NW ?h" using advD(4) [OF s(2)] by blast
  moreover have "weak ?h = weak g" using s(3) marksD(7) [OF g1(2)] by simp
  ultimately show ?thesis using that g1(5) by (cases wk; cases wv) (auto simp: live_refs_all subset_iff)
qed

lemma traversetable_spec:
  assumes g: "mok g" and x: "heap g h = Some x" "body x = BTable t"
  obtains w g' where "traversetable h g = Inr (w, g')" "adv {h} g g'" "weak g' = (if w then h # weak g else weak g)"
    "w \<Longrightarrow> wk_ok g' h" "\<not> w \<Longrightarrow> refs g' h \<subseteq> NW g'" "\<not> w \<Longrightarrow> vweak g' h = vweak g h"
proof -
  have w: "wtb (D g) g (BTable t)" using mok_wtb [OF g x(1)] x(2) by simp
  then have k: "ook (D g) g {KTable} [tb_meta t]" by simp
  obtain g1 where g1: "markopt (tb_meta t) g = Inr g1" "marks {} g g1" "mok g1" "set_option (tb_meta t) \<subseteq> NW g1" "same_bodies g g1"
    using markopt_spec [OF g k] unfolding marker_def by blast
  have a1: "adv {} g g1" by (rule adv_marker) (use g1 in auto)
  obtain mode g2 where g2: "gfasttm (tb_meta t) TM_MODE g1 = Inr (mode, g2)" "adv {} g1 g2" "weak g2 = weak g1" "\<And>v. mode = Some v \<Longrightarrow> vok (D g1) g1 v"
  proof (rule gfasttm_spec [OF g1(3) advD(9) [OF a1 k], of TM_MODE])
    show "TM_MODE < 4" by (simp add: TM_MODE_def)
  qed blast
  have v2: "\<And>v. mode = Some v \<Longrightarrow> vok (D g2) g2 v" using g2(4) advD(10) [OF g2(2)] by blast
  obtain wk wv where m: "weak_mode mode g2 = Inr (wk, wv)" using weak_mode_ok [OF v2] by blast
  have a2: "adv {} g g2" using a1 g2(2) by (rule adv_trans)
  have o2: "mok g2" using advD(7) [OF a2] .
  obtain y where y: "heap g2 h = Some y" "bshrunk (body x) (body y)" using tab_shrunkD [OF advD(8) [OF a2] x(1)] by blast
  obtain t2 where t2: "body y = BTable t2" "shrunk t t2" using y(2) x(2) by (auto simp: bshrunk_def)
  have w2: "weak g2 = weak g" using g2(3) marksD(7) [OF g1(2)] by simp
  have n2: "set_option (tb_meta t2) \<subseteq> NW g2" using g1(4) advD(4) [OF g2(2)] t2(2) by (auto simp: shrunk_def)
  have T: "traversetable h g = sbind (if wk \<or> wv then
             sbind (remark (\<lambda>m. (m AND NOT (KEYWEAK OR VALUEWEAK)) OR (if wk then KEYWEAK else 0) OR (if wv then VALUEWEAK else 0)) h g2)
               (\<lambda>g. Inr (g\<lparr>weak := h # weak g\<rparr>))
           else Inr g2) (\<lambda>g. if wk \<and> wv then Inr (True, g) else table_rest wk wv h g)"
    unfolding traversetable_def table_rest_def by (simp add: as_table_eq [OF x] g1(1) g2(1) m)
  show ?thesis
  proof (cases "wk \<or> wv")
    case False
    obtain g3 where g3: "table_rest wk wv h g2 = Inr (wk \<or> wv, g3)" "adv {} g2 g3" "weak g3 = weak g2"
      "\<not> wv \<Longrightarrow> vsrefs (tb_array t2) \<subseteq> NW g3" "\<not> wk \<Longrightarrow> \<not> wv \<Longrightarrow> (\<Union>n \<in> set (tb_nodes t2). noderefs n) \<subseteq> NW g3"
      using table_rest_spec [OF o2 y(1) t2(1), of wk wv] by blast
    have a: "adv {} g g3" using a2 g3(2) by (rule adv_trans)
    have "refs g3 h \<subseteq> refs g2 h" by (rule advD(3) [OF g3(2)])
    moreover have "refs g2 h \<subseteq> NW g3" using g3(4,5) False n2 advD(4) [OF g3(2)] y(1) t2(1) by (auto simp: refs_def)
    moreover have "adv {h} g g3" using a by (rule adv_mono) simp
    moreover have "vweak g3 h = vweak g h" using a by (rule adv_vweak) simp
    ultimately show ?thesis using that [of False g3] T False g3(1,3) w2 by simp
  next
    case True
    obtain m' where md: "m' = (marked y AND NOT (KEYWEAK OR VALUEWEAK)) OR (if wk then KEYWEAK else 0) OR (if wv then VALUEWEAK else 0)"
      and mi: "iswhite m' = iswhite (marked y)" "isblack m' = isblack (marked y)" "bit m' 4 = wv"
      using weak_bits [of "marked y" wk wv] bits_both [of 4 "marked y" wk wv] by fastforce
    let ?y = "y\<lparr>marked := m'\<rparr>"
    let ?h = "put_obj h ?y g2"
    let ?g = "?h\<lparr>weak := h # weak g2\<rparr>"
    have r: "remark (\<lambda>m. (m AND NOT (KEYWEAK OR VALUEWEAK)) OR (if wk then KEYWEAK else 0) OR (if wv then VALUEWEAK else 0)) h g2 = Inr ?h"
      unfolding md by (rule remark_eq [OF y(1)])
    have c: "nw ?h = nw g2" "blk ?h = blk g2" using y(1) mi by (auto simp: nw_def blk_def fun_eq_iff)
    have s: "tab_shrunk g2 ?h" using y(1) by (rule shrunk_put) simp
    have "sane ?h" using o2 y(1) mi by (intro sane_put) (auto simp: mok_def sane_def)
    then have o: "mok ?h" using o2 s by (auto intro: mok_shrunk)
    have "marks {} g2 ?h"
      unfolding marks_def
      by (intro conjI exI [of _ "[]"]) (use c shrunk_kindat [OF s] shrunk_refs [OF s] in auto)
    moreover have "?g\<lparr>weak := weak g2\<rparr> = ?h" by (cases g2) (simp add: put_obj_def)
    ultimately have "marks {} g2 (?g\<lparr>weak := weak g2\<rparr>)" by (simp only:)
    moreover have sg: "tab_shrunk g2 ?g" using s same_shrunk [OF list_same(3)] by (rule tab_shrunk_trans)
    moreover have "vweak ?g a = vweak g2 a" if "a \<noteq> h" for a using that by (simp add: vweak_def)
    ultimately have a3: "adv {h} g2 ?g" using o unfolding adv_def by simp
    have "adv {h} g g2" using a2 by (rule adv_mono) simp
    then have a: "adv {h} g ?g" using a3 by (rule adv_trans)
    have og: "mok ?g" using o by simp
    have hg: "heap ?g h = Some ?y" "body ?y = BTable t2" using t2(1) by simp_all
    note b = mi(3)
    show ?thesis
    proof (cases "wk \<and> wv")
      case True
      have "wk_ok ?g h" unfolding wk_ok_def using hg b True n2 c by simp
      then show ?thesis using that [of True ?g] T True r a w2 by simp
    next
      case False
      obtain g3 where g3: "table_rest wk wv h ?g = Inr (wk \<or> wv, g3)" "adv {} ?g g3" "weak g3 = weak ?g"
        "\<not> wv \<Longrightarrow> vsrefs (tb_array t2) \<subseteq> NW g3"
        by (rule table_rest_spec [OF og hg, of wk wv]) (rule that)
      have "adv {h} ?g g3" using g3(2) by (rule adv_mono) simp
      with a have a4: "adv {h} g g3" by (rule adv_trans)
      obtain z where z: "heap g3 h = Some z" "bshrunk (body ?y) (body z)" using tab_shrunkD [OF advD(8) [OF g3(2)] hg(1)] by blast
      obtain t3 where t3: "body z = BTable t3" "shrunk t2 t3" using z(2) t2(1) by (auto simp: bshrunk_def)
      have "vweak g3 h = vweak ?g h" using g3(2) by (rule adv_vweak) simp
      then have bz: "bit (marked z) 4 = wv" using z(1) b by (simp add: vweak_def)
      have nn: "NW g2 \<subseteq> NW g3" using advD(4) [OF g3(2)] c by auto
      have "vsrefs (tb_array t3) \<subseteq> vsrefs (tb_array t2)" using t3(2) by (fastforce simp: shrunk_def vsrefs_def)
      then have "\<not> wv \<longrightarrow> vsrefs (tb_array t3) \<subseteq> NW g3" using g3(4) order_trans by metis
      moreover have "set_option (tb_meta t3) \<subseteq> NW g3" using n2 nn t3(2) by (auto simp: shrunk_def)
      ultimately have "wk_ok g3 h" using z(1) t3(1) bz by (simp add: wk_ok_def)
      then show ?thesis using that [of True g3] T True False r a4 w2 g3(1,3) by simp
    qed
  qed
qed

section \<open>Traversing a stack\<close>

definition same_frame :: "gthread \<Rightarrow> gthread \<Rightarrow> bool" where
  "same_frame t t' \<longleftrightarrow> th_gt t' = th_gt t \<and> th_top t' = th_top t \<and> th_citops t' = th_citops t \<and> th_open t' = th_open t
    \<and> take (th_top t) (th_stack t') = take (th_top t) (th_stack t)
    \<and> th_top t < length (th_stack t') \<and> (\<forall>c \<in> set (th_citops t). c < length (th_stack t'))"

lemma nil_from_spec: "i + k \<le> length st \<Longrightarrow> \<exists>st'. nil_from i k st = Inr st' \<and> length st' = length st \<and> take i st' = take i st"
proof (induction k arbitrary: i st)
  case (Suc k)
  then have "lift (wr st i VNil) = Inr (st[i := VNil])" by (simp add: lift_def wr_def)
  moreover obtain st' where "nil_from (i + 1) k (st[i := VNil]) = Inr st'" "length st' = length st" "take (i + 1) st' = take (i + 1) (st[i := VNil])"
    using Suc.IH [of "i + 1" "st[i := VNil]"] Suc.prems by auto
  moreover from this(3) have "take i st' = take i st"
  proof -
    have "take i st' = take i (take (i + 1) st')" by simp
    also have "\<dots> = take i (take (i + 1) (st[i := VNil]))" by (simp only: \<open>take (i + 1) st' = take (i + 1) (st[i := VNil])\<close>)
    finally show ?thesis by simp
  qed
  ultimately show ?case by simp
qed simp

lemma fold_max_less: "(x :: nat) < n \<Longrightarrow> \<forall>c \<in> set cs. c < n \<Longrightarrow> fold max cs x < n"
  by (induction cs arbitrary: x) auto

lemma fold_max_ge: "(x :: nat) \<le> fold max cs x" "c \<in> set cs \<Longrightarrow> c \<le> fold max cs x"
  by (induction cs arbitrary: x) (auto, meson max.boundedE, meson max.boundedE)

lemma checkstacksizes_spec:
  assumes "th_top t \<le> lim" "lim < length (th_stack t)" "\<forall>c \<in> set (th_citops t). c \<le> lim"
  shows "same_frame t (checkstacksizes lim t)"
proof -
  have "min (th_top t) (length (th_stack t) div 2 + 1 + EXTRA_STACK) = th_top t" if "4 * lim < length (th_stack t)"
    using assms(1) that by simp
  moreover have "lim < length (th_stack t) div 2 + 1 + EXTRA_STACK" if "4 * lim < length (th_stack t)" using that by simp
  ultimately show ?thesis
    using assms by (fastforce simp: same_frame_def checkstacksizes_def Let_def EXTRA_STACK_def)
qed

lemma same_frame_slot: "same_frame t t' \<Longrightarrow> i < th_top t \<Longrightarrow> th_stack t' ! i = th_stack t ! i \<and> i < length (th_stack t')"
  unfolding same_frame_def by (metis nth_take order_less_trans)

text \<open>A thread with a new stack: the open upvalues are below the top.\<close>

lemma put_thread:
  assumes g: "mok g" and x: "heap g a = Some x" "body x = BThread t" and t: "same_frame t t'"
  defines "h \<equiv> put_obj a (x\<lparr>body := BThread t'\<rparr>) g"
  shows "marks {} g h" "mok h" "\<And>b. vweak h b = vweak g b" "weak h = weak g" "refs h b = refs g b"
proof -
  have c: "nw h = nw g" "blk h = blk g" "\<And>b. vweak h b = vweak g b" using x by (auto simp: nw_def blk_def vweak_def fun_eq_iff h_def)
  show "\<And>b. vweak h b = vweak g b" "weak h = weak g" using c(3) by (simp_all add: h_def)
  have k: "kindat h b = kindat g b" for b using x by (simp add: kindat_def h_def)
  have dd: "D h = D g" using x by (auto simp: h_def)
  have fr: "frame h = frame g" by (simp add: h_def)
  have tw: "wtb (D g) g (BThread t)" using mok_wtb [OF g x(1)] x(2) by simp
  have tp: "th_top t < length (th_stack t)" using tw by simp
  have sl: "slot h th i = slot g th i" if "\<exists>x t. heap g th = Some x \<and> body x = BThread t \<and> i < th_top t \<and> th_top t < length (th_stack t)" for th i
    using that x same_frame_slot [OF t, of i] by (auto simp: slot_def h_def)
  have br: "brefs h b = brefs g b" if "wtb (D g) g b" for b
    using that sl by (cases "(g, b)" rule: brefs.cases) auto
  have vo: "vok S h v = vok S g v" for S v by (simp add: vok_def k)
  have oo: "ook S h K os = ook S g K os" for S K os by (simp add: ook_def k)
  have wt: "wtb S h b" if "wtb S g b" for S b
  proof (cases "(S, g, b)" rule: wtb.cases)
    case (4 S' g0 th i)
    then have w: "vok S g (slot g th i)" "\<exists>x t. heap g th = Some x \<and> body x = BThread t \<and> i < th_top t \<and> th_top t < length (th_stack t)"
      using that by auto
    have "\<exists>x t. heap h th = Some x \<and> body x = BThread t \<and> i < th_top t \<and> th_top t < length (th_stack t)"
      using w(2) x t by (cases "th = a") (auto simp: h_def same_frame_def)
    then show ?thesis using 4 w(1) sl [OF w(2)] by (simp add: vo)
  qed (use that in \<open>simp_all add: vo oo\<close>)
  have wt': "wtb S h (BThread t')" if "wtb S g (BThread t)" for S
    using that t by (auto simp: same_frame_def vo)
  have cl: "closed (D g) h"
    unfolding closed_def
  proof
    fix b
    assume "b \<in> D g"
    then obtain y where y: "heap g b = Some y" by blast
    show "\<exists>y. heap h b = Some y \<and> wtb (D g) h (body y)"
    proof (cases "b = a")
      case True
      then show ?thesis using wt' [OF tw] by (simp add: h_def)
    next
      case False
      then show ?thesis using wt [OF mok_wtb [OF g y]] y by (simp add: h_def)
    qed
  qed
  have "sane h" using g x unfolding h_def by (intro sane_put) (auto simp: mok_def sane_def)
  then show "mok h" using g cl dd roots_frame [OF fr k dd] by (simp add: mok_def)
  have r: "refs h b = refs g b" for b
  proof (cases "b = a")
    case True
    have "brefs g (BThread t') = brefs g (BThread t)" using t by (auto simp: same_frame_def)
    then show ?thesis using True x br [OF tw] unfolding refs_def by (simp add: h_def)
  next
    case False
    show ?thesis
    proof (cases "heap g b")
      case (Some y)
      then show ?thesis using br [OF mok_wtb [OF g Some]] False by (simp add: refs_def h_def)
    qed (use False in \<open>simp add: refs_def h_def\<close>)
  qed
  then show "refs h b = refs g b" .
  show "marks {} g h"
    unfolding marks_def
    by (intro conjI exI [of _ "[]"]) (use c k r fr in \<open>auto simp: h_def\<close>)
qed

lemma account_fields [simp]: "nw (account m n g) = nw g" "blk (account m n g) = blk g" "kindat (account m n g) = kindat g"
  "refs (account m n g) = refs g" "frame (account m n g) = frame g" "gray (account m n g) = gray g" "grayagain (account m n g) = grayagain g"
  "weak (account m n g) = weak g" "heap (account m n g) = heap g" "same_bodies g (account m n g)" "sane (account m n g) = sane g"
proof -
  show s: "same_bodies g (account m n g)" by (simp add: same_bodies_def account_def vweak_def)
  show "nw (account m n g) = nw g" "blk (account m n g) = blk g" "kindat (account m n g) = kindat g" "refs (account m n g) = refs g"
    using same_refs [OF s] by (auto simp: nw_def blk_def kindat_def account_def fun_eq_iff)
qed (simp_all add: account_def frame_def sane_def)

lemma account_spec: "mok g \<Longrightarrow> marks {} g (account m n g) \<and> mok (account m n g)"
proof
  assume g: "mok g"
  show "marks {} g (account m n g)" unfolding marks_def by (intro conjI exI [of _ "[]"]) auto
  show "mok (account m n g)" by (rule mok_same [OF g]) (use g in \<open>simp_all add: mok_def\<close>)
qed

lemma set_body_eq: "heap g a = Some x \<Longrightarrow> set_body b a g = Inr (put_obj a (x\<lparr>body := b\<rparr>) g)"
  by (simp add: set_body_def obj_def)

lemma traversestack_spec:
  assumes g: "mok g" and x: "heap g a = Some x" "body x = BThread t"
  obtains g' where "traversestack a g = Inr g'" "marks {} g g'" "mok g'" "refs g' a \<subseteq> NW g'" "\<And>b. vweak g' b = vweak g b"
    "\<And>b y. b \<noteq> a \<Longrightarrow> heap g b = Some y \<Longrightarrow> \<exists>z. heap g' b = Some z \<and> body z = body y"
proof -
  have w: "wtb (D g) g (BThread t)" using mok_wtb [OF g x(1)] x(2) by simp
  have 1: "marker (markvalue (th_gt t)) (vrefs (th_gt t)) g" using markvalue_spec [OF g] w by simp
  have 2: "marker (each markvalue (take (th_top t) (th_stack t))) (vsrefs (take (th_top t) (th_stack t))) g'" if "marks {} g g'" "mok g'" for g'
    using each_markvalue [OF that(2)] marks_vok [OF that(1)] w by simp
  obtain g1 where g1: "markvalue (th_gt t) g = Inr g1" "marks {} g g1" "mok g1" "vrefs (th_gt t) \<subseteq> NW g1" "same_bodies g g1"
    using 1 unfolding marker_def by blast
  obtain g2 where g2: "each markvalue (take (th_top t) (th_stack t)) g1 = Inr g2" "marks {} g1 g2" "mok g2"
    "vsrefs (take (th_top t) (th_stack t)) \<subseteq> NW g2" "same_bodies g1 g2"
    using 2 [OF g1(2,3)] unfolding marker_def by blast
  define lim where "lim = fold max (th_citops t) (th_top t)"
  have lim: "th_top t \<le> lim" "lim < length (th_stack t)" "\<forall>c \<in> set (th_citops t). c \<le> lim"
    using w fold_max_ge fold_max_less unfolding lim_def by auto
  obtain st where st: "nil_from (th_top t) (lim + 1 - th_top t) (th_stack t) = Inr st" "length st = length (th_stack t)" "take (th_top t) st = take (th_top t) (th_stack t)"
    using nil_from_spec [of "th_top t" "lim + 1 - th_top t" "th_stack t"] lim by auto
  define t' where "t' = checkstacksizes lim (t\<lparr>th_stack := st\<rparr>)"
  have "same_frame (t\<lparr>th_stack := st\<rparr>) t'" unfolding t'_def by (rule checkstacksizes_spec) (use lim st in auto)
  then have f: "same_frame t t'" using st by (simp add: same_frame_def)
  let ?n = "account (object_size (BThread t)) (object_size (BThread t'))"
  let ?g = "?n g2"
  have s: "same_bodies g ?g" using same_trans [OF g1(5) g2(5)] account_fields(10) by (rule same_trans)
  obtain y where y: "heap ?g a = Some y" "body y = BThread t" using same_body_at [OF s x(1)] x(2) by auto
  note o = account_spec [OF g2(3), of "object_size (BThread t)" "object_size (BThread t')"]
  let ?h = "put_obj a (y\<lparr>body := BThread t'\<rparr>) ?g"
  note P = put_thread [OF conjunct2 [OF o] y f]
  have top: "th_top t \<le> length (th_stack t)" using lim by simp
  have "traversestack a g = Inr ?h"
    unfolding traversestack_def obj_def
    by (simp only: x option.case gcbody.case sbind_Inr g1(1) g2(1) lim_def [symmetric] st(1) t'_def [symmetric] Let_def top if_True set_body_eq [OF y(1)])
  moreover have m: "marks {} g ?g" using marks_trans [OF marks_trans [OF g1(2) g2(2)] conjunct1 [OF o]] .
  moreover have "refs ?h a \<subseteq> NW ?h"
  proof -
    have "refs ?h a = vrefs (th_gt t) \<union> vsrefs (take (th_top t) (th_stack t))" using P(5) [of a] y by (simp add: refs_def)
    moreover have "NW g1 \<subseteq> NW g2" using marksD(4) [OF g2(2)] by blast
    moreover have "NW ?g = NW g2" by simp
    moreover have "NW ?g \<subseteq> NW ?h" using marksD(4) [OF P(1)] by blast
    ultimately show ?thesis using g1(4) g2(4) by blast
  qed
  moreover have "vweak ?h b = vweak g b" for b using P(3) s by (simp add: same_bodies_def)
  moreover have "\<exists>z. heap ?h b = Some z \<and> body z = body v" if "b \<noteq> a" "heap g b = Some v" for b v
    using same_body_at [OF s that(2)] that(1) by simp
  ultimately show ?thesis using that P(2) marks_trans [OF m P(1)] by blast
qed

section \<open>One gray object\<close>

text \<open>
  The object \<open>a\<close> was in front of the gray list. It is black now and all it refers to is marked, or it is a weak table in its list,
  or a thread in \<open>grayagain\<close>. The objects \<open>ns\<close> are new in the gray list.
\<close>

definition stepped :: "nat \<Rightarrow> nat list \<Rightarrow> nat list \<Rightarrow> gstate \<Rightarrow> gstate \<Rightarrow> bool" where
  "stepped a rest ns g g' \<longleftrightarrow> frame g' = frame g \<and> (\<forall>b. kindat g' b = kindat g b) \<and> (\<forall>b. refs g' b \<subseteq> refs g b) \<and> mok g'
    \<and> (\<forall>b. nw g b \<longrightarrow> nw g' b) \<and> (\<forall>b. b \<noteq> a \<longrightarrow> nw g b \<longrightarrow> blk g' b = blk g b)
    \<and> gray g' = ns @ rest \<and> distinct ns \<and> (\<forall>b \<in> set ns. \<not> nw g b \<and> nw g' b \<and> \<not> blk g' b \<and> kindat g b \<in> gray_kinds)
    \<and> (\<forall>b. nw g' b \<longrightarrow> \<not> nw g b \<longrightarrow> b \<in> set ns \<or> settled g' b) \<and> (\<forall>h. h \<noteq> a \<longrightarrow> wk_ok g h \<longrightarrow> wk_ok g' h)
    \<and> (blk g' a \<and> refs g' a \<subseteq> NW g' \<and> weak g' = weak g \<and> grayagain g' = grayagain g
      \<or> \<not> blk g' a \<and> wk_ok g' a \<and> weak g' = a # weak g \<and> grayagain g' = grayagain g
      \<or> \<not> blk g' a \<and> refs g' a \<subseteq> NW g' \<and> weak g' = weak g \<and> grayagain g' = a # grayagain g)"

text \<open>Before its references are followed, \<open>a\<close> leaves the list and may change its colour.\<close>

lemma stepped_from:
  assumes g: "nw g a" and 1: "same_bodies g g1" "frame g1 = frame g" "nw g1 = nw g" "\<And>b. b \<noteq> a \<Longrightarrow> blk g1 b = blk g b" "gray g1 = rest"
    and m: "marks {} g1 (g2\<lparr>weak := weak g1\<rparr>)" and 2: "same_bodies g2 g3" "frame g3 = frame g2" "nw g3 = nw g2" "\<And>b. b \<noteq> a \<Longrightarrow> blk g3 b = blk g2 b"
      "gray g3 = gray g2" "mok g3"
    and w: "\<And>h. h \<noteq> a \<Longrightarrow> wk_ok g1 h \<Longrightarrow> wk_ok g2 h"
    and e: "blk g3 a \<and> refs g3 a \<subseteq> NW g3 \<and> weak g3 = weak g \<and> grayagain g3 = grayagain g
      \<or> \<not> blk g3 a \<and> wk_ok g3 a \<and> weak g3 = a # weak g \<and> grayagain g3 = grayagain g
      \<or> \<not> blk g3 a \<and> refs g3 a \<subseteq> NW g3 \<and> weak g3 = weak g \<and> grayagain g3 = a # grayagain g"
  shows "\<exists>ns. stepped a rest ns g g3"
proof -
  obtain ns where ns: "gray g2 = ns @ rest" "distinct ns" "\<forall>b \<in> set ns. \<not> nw g b \<and> nw g2 b \<and> \<not> blk g2 b \<and> kindat g1 b \<in> gray_kinds"
    "\<forall>b. nw g2 b \<longrightarrow> \<not> nw g b \<longrightarrow> b \<in> set ns \<or> settled g2 b" using m 1(3,5) unfolding marks_def by auto
  have k: "kindat g3 b = kindat g b" for b using same_kindat [OF 2(1)] same_kindat [OF 1(1)] marksD(2) [OF m] by simp
  have r: "refs g3 b \<subseteq> refs g b" for b using same_refs [OF 2(1), of b] same_refs [OF 1(1), of b] marksD(3) [OF m, of b] by simp
  have an: "a \<notin> set ns" using ns(3) g by blast
  have st: "settled g3 b = settled g2 b" if "b \<noteq> a" for b
    using that 2(3,4) by (simp add: settled_def same_kindat [OF 2(1)] same_refs [OF 2(1)])
  have wk: "wk_ok g' h = wk_ok g h" if "same_bodies g g'" "nw g' = nw g" for g g' h
  proof -
    have "wk_ok g h \<Longrightarrow> wk_ok g' h" if s: "same_bodies g g'" "nw g' = nw g" for g g'
    proof -
      assume "wk_ok g h"
      then obtain x t where x: "heap g h = Some x" "body x = BTable t" "set_option (tb_meta t) \<subseteq> NW g" "\<not> bit (marked x) 4 \<longrightarrow> vsrefs (tb_array t) \<subseteq> NW g"
        unfolding wk_ok_def by blast
      obtain y where y: "heap g' h = Some y" "body y = BTable t" using same_body_at [OF s(1) x(1)] x(2) by auto
      have "vweak g' h = vweak g h" using s(1) by (simp add: same_bodies_def)
      then have "bit (marked y) 4 = bit (marked x) 4" using x(1) y(1) by (simp add: vweak_def)
      then show "wk_ok g' h" using x y s(2) by (simp add: wk_ok_def)
    qed
    then show ?thesis using that same_sym [OF that(1)] by metis
  qed
  have ww: "wk_ok g3 h" if "h \<noteq> a" "wk_ok g h" for h
    using w [OF that(1)] that(2) wk [OF 1(1,3)] wk [OF 2(1,3)] by simp
  have n: "nw g b \<Longrightarrow> nw g3 b" for b using marksD(4) [OF m, of b] 1(3) 2(3) by simp
  have bb: "blk g3 b = blk g b" if "b \<noteq> a" "nw g b" for b using marksD(5) [OF m, of b] 1(3,4) 2(4) that by simp
  have "stepped a rest ns g g3"
    unfolding stepped_def
  proof (intro conjI allI impI)
    show "frame g3 = frame g" using marksD(1) [OF m] 1(2) 2(2) by simp
    show "gray g3 = ns @ rest" using ns 2 by simp
    show "\<forall>b \<in> set ns. \<not> nw g b \<and> nw g3 b \<and> \<not> blk g3 b \<and> kindat g b \<in> gray_kinds"
      using ns(3) an 2(3,4) same_kindat [OF 1(1)] by metis
    show "b \<in> set ns \<or> settled g3 b" if "nw g3 b" "\<not> nw g b" for b
      using ns(4) that st [of b] g 2(3) by (cases "b = a") auto
  qed (fact k r 2(6) n bb ns(2) ww e)+
  then show ?thesis ..
qed

lemma wk_ok_adv_others: "adv {a} g g' \<Longrightarrow> h \<noteq> a \<Longrightarrow> wk_ok g h \<Longrightarrow> wk_ok g' h"
  by (rule wk_ok_adv) auto

lemma wk_ok_bodies:
  assumes w: "wk_ok g h" and v: "vweak g' h = vweak g h" and y: "\<And>x. heap g h = Some x \<Longrightarrow> \<exists>z. heap g' h = Some z \<and> body z = body x"
    and n: "NW g \<subseteq> NW g'"
  shows "wk_ok g' h"
proof -
  obtain x t where x: "heap g h = Some x" "body x = BTable t" "set_option (tb_meta t) \<subseteq> NW g" "\<not> bit (marked x) 4 \<longrightarrow> vsrefs (tb_array t) \<subseteq> NW g"
    using w unfolding wk_ok_def by blast
  obtain z where z: "heap g' h = Some z" "body z = BTable t" using y [OF x(1)] x(2) by auto
  have "bit (marked z) 4 = bit (marked x) 4" using v x(1) z(1) by (simp add: vweak_def)
  then show ?thesis using x(3,4) z n unfolding wk_ok_def by blast
qed

lemma markerE:
  assumes "marker f A g"
  obtains g' where "f g = Inr g'" "adv {} g g'" "A \<subseteq> NW g'" "weak g' = weak g" "grayagain g' = grayagain g"
    "marks {} g (g'\<lparr>weak := weak g\<rparr>)" "same_bodies g g'"
proof -
  obtain g' where "f g = Inr g'" "marks {} g g'" "mok g'" "A \<subseteq> NW g'" "same_bodies g g'" using assms unfolding marker_def by blast
  then show ?thesis using that [of g'] adv_marker [of g g'] marksD(6,7) [of "{}" g g'] unfolding adv_def by blast
qed

text \<open>A black object that stays black.\<close>

lemma stepped_black:
  assumes g: "nw g a" and 1: "same_bodies g g1" "frame g1 = frame g" "nw g1 = nw g" "\<And>b. b \<noteq> a \<Longrightarrow> blk g1 b = blk g b" "gray g1 = rest"
      "weak g1 = weak g" "grayagain g1 = grayagain g" "blk g1 a"
    and m: "adv {a} g1 g2" and w: "weak g2 = weak g1" "refs g2 a \<subseteq> NW g2"
  shows "\<exists>ns. stepped a rest ns g g2"
proof (rule stepped_from [OF g 1(1-5)])
  show "marks {} g1 (g2\<lparr>weak := weak g1\<rparr>)" using m unfolding adv_def by blast
  show "mok g2" by (rule advD(7) [OF m])
  show "wk_ok g2 h" if "h \<noteq> a" "wk_ok g1 h" for h using wk_ok_adv_others [OF m that] .
  have "blk g2 a" using advD(5) [OF m, of a] 1(3,8) g by simp
  then show "blk g2 a \<and> refs g2 a \<subseteq> NW g2 \<and> weak g2 = weak g \<and> grayagain g2 = grayagain g
      \<or> \<not> blk g2 a \<and> wk_ok g2 a \<and> weak g2 = a # weak g \<and> grayagain g2 = grayagain g
      \<or> \<not> blk g2 a \<and> refs g2 a \<subseteq> NW g2 \<and> weak g2 = weak g \<and> grayagain g2 = a # grayagain g"
    using w 1(6,7) advD(11) [OF m] by simp
qed simp_all

lemma propagatemark_spec:
  assumes g: "mok g" "gray g = a # rest" "nw g a" "kindat g a \<in> gray_kinds"
  obtains m ns g' where "propagatemark g = Inr (m, g')" "stepped a rest ns g g'"
proof -
  note main = that
  obtain x where x: "heap g a = Some x" using g(3) by (auto simp: nw_def split: option.splits)
  have wx: "\<not> iswhite (marked x)" using g(3) x by (simp add: nw_def)
  let ?x = "x\<lparr>marked := gray2black (marked x)\<rparr>"
  define g0 where "g0 = put_obj a ?x g"
  define g1 where "g1 = g0\<lparr>gray := rest\<rparr>"
  have r0: "remark gray2black a g = Inr g0" unfolding g0_def by (rule remark_eq [OF x])
  have s0: "same_bodies g g0" unfolding g0_def by (simp add: put_mark_same [OF x])
  then have s: "same_bodies g g1" unfolding g1_def by (rule same_trans) simp
  have n1: "nw g1 = nw g" using x by (auto simp: g1_def g0_def fun_eq_iff nw_def)
  have b1: "blk g1 b = (b = a \<or> blk g b)" for b by (simp add: g1_def g0_def)
  have f1: "frame g1 = frame g" "weak g1 = weak g" "grayagain g1 = grayagain g" "gray g1 = rest" by (simp_all add: g1_def g0_def)
  have x1: "heap g1 a = Some ?x" by (simp add: g1_def g0_def)
  have "sane g0" unfolding g0_def using g(1) wx by (intro sane_put) (auto simp: mok_def)
  then have o1: "mok g1" by (intro mok_same [OF g(1) s f1(1)]) (simp add: g1_def)
  have w1: "wtb (D g1) g1 (body x)" using mok_wtb [OF o1 x1] by simp
  have p: "propagatemark g = (case body x of
           BTable _ \<Rightarrow> sbind (traversetable a g1) (\<lambda>(w, g). sbind (if w then remark black2gray a g else Inr g) (\<lambda>g. Inr (object_size (body x), g)))
         | BFunction cl \<Rightarrow> sbind (traverseclosure cl g1) (\<lambda>g. Inr (object_size (body x), g))
         | BThread _ \<Rightarrow> sbind (remark black2gray a (g1\<lparr>grayagain := a # grayagain g1\<rparr>)) (\<lambda>g.
             sbind (traversestack a g) (\<lambda>g. sbind (obj g a) (\<lambda>y. Inr (object_size (body y), g))))
         | BProto p \<Rightarrow> sbind (traverseproto p g1) (\<lambda>g. Inr (object_size (body x), g))
         | _ \<Rightarrow> Inr (0, g1))"
  proof -
    have "obj g0 a = Inr ?x" by (simp add: g0_def obj_put)
    then show ?thesis unfolding propagatemark_def g(2) by (simp add: r0 g1_def Let_def cong: gcbody.case_cong)
  qed
  have rf: "refs g1 a = brefs g1 (body x)" using refs_at [OF x1] by simp
  have plain: thesis if k: "marker f (brefs g1 (body x)) g1" and e: "\<And>h. f g1 = Inr h \<Longrightarrow> propagatemark g = Inr (object_size (body x), h)" for f
  proof -
    obtain h where h: "f g1 = Inr h" "adv {} g1 h" "brefs g1 (body x) \<subseteq> NW h" "weak h = weak g1" using markerE [OF k] by blast
    have a: "adv {a} g1 h" using h(2) by (rule adv_mono) simp
    have "refs h a \<subseteq> NW h" using advD(3) [OF h(2), of a] h(3) rf by blast
    then have "\<exists>ns. stepped a rest ns g h" using b1 by (intro stepped_black [OF g(3) s f1(1) n1 _ f1(4) f1(2,3) _ a h(4)]) auto
    then show thesis using main e [OF h(1)] by blast
  qed
  consider t where "body x = BTable t" | c where "body x = BFunction c" | t where "body x = BThread t" | q where "body x = BProto q"
    using g(4) x by (auto simp: kindat_def gray_kinds_def kind_simps)
  then show thesis
  proof cases
    case 2
    show thesis by (rule plain [of "traverseclosure c"]) (use traverseclosure_spec [OF o1] w1 2 p in simp_all)
  next
    case 4
    show thesis by (rule plain [of "traverseproto q"]) (use traverseproto_spec [OF o1] w1 4 p in simp_all)
  next
    case 1
    obtain w h where h: "traversetable a g1 = Inr (w, h)" "adv {a} g1 h" "weak h = (if w then a # weak g1 else weak g1)"
      "w \<Longrightarrow> wk_ok h a" "\<not> w \<Longrightarrow> refs h a \<subseteq> NW h"
    proof (rule traversetable_spec [OF o1 x1])
      show "body ?x = BTable t" using 1 by simp
    qed (rule that)
    show thesis
    proof (cases w)
      case False
      have "\<exists>ns. stepped a rest ns g h" using b1 by (intro stepped_black [OF g(3) s f1(1) n1 _ f1(4) f1(2,3) _ h(2)]) (use h(3,5) False in auto)
      then show thesis using that p 1 h(1) False by auto
    next
      case True
      have "nw h a" using advD(4) [OF h(2), of a] n1 g(3) by simp
      then obtain y where y: "heap h a = Some y" "\<not> iswhite (marked y)" by (auto simp: nw_def split: option.splits)
      define h' where "h' = put_obj a (y\<lparr>marked := black2gray (marked y)\<rparr>) h"
      have sh: "same_bodies h h'" unfolding h'_def by (simp add: put_mark_same [OF y(1)])
      have nh: "nw h' = nw h" "\<And>b. b \<noteq> a \<Longrightarrow> blk h' b = blk h b" "\<not> blk h' a" using y by (auto simp: h'_def fun_eq_iff nw_def)
      have fh: "frame h' = frame h" "gray h' = gray h" "weak h' = weak h" "grayagain h' = grayagain h" by (simp_all add: h'_def)
      have oh: "mok h" by (rule advD(7) [OF h(2)])
      have "sane h'" unfolding h'_def using oh by (intro sane_put) (auto simp: mok_def)
      then have oh': "mok h'" using mok_same [OF oh sh] fh by simp
      have wk: "wk_ok h' a"
        using h(4) [OF True] by (rule wk_ok_bodies) (use sh nh same_body_at [OF sh] in \<open>auto simp: same_bodies_def\<close>)
      have "\<exists>ns. stepped a rest ns g h'"
      proof (rule stepped_from [OF g(3) s f1(1) n1 _ f1(4) _ sh fh(1) nh(1,2) fh(2) oh'])
        show "marks {} g1 (h\<lparr>weak := weak g1\<rparr>)" using h(2) unfolding adv_def by blast
        show "wk_ok h b" if "b \<noteq> a" "wk_ok g1 b" for b using wk_ok_adv_others [OF h(2) that] .
        show "blk h' a \<and> refs h' a \<subseteq> NW h' \<and> weak h' = weak g \<and> grayagain h' = grayagain g
          \<or> \<not> blk h' a \<and> wk_ok h' a \<and> weak h' = a # weak g \<and> grayagain h' = grayagain g
          \<or> \<not> blk h' a \<and> refs h' a \<subseteq> NW h' \<and> weak h' = weak g \<and> grayagain h' = a # grayagain g"
          using nh(3) wk fh h(3) True f1 advD(11) [OF h(2)] by simp
      qed (use b1 in auto)
      moreover have "propagatemark g = Inr (object_size (body x), h')" using p 1 h(1) True remark_eq [OF y(1)] by (simp add: h'_def)
      ultimately show thesis using that by blast
    qed
  next
    case 3
    define g2 where "g2 = put_obj a (?x\<lparr>marked := black2gray (marked ?x)\<rparr>) (g1\<lparr>grayagain := a # grayagain g1\<rparr>)"
    have r2: "remark black2gray a (g1\<lparr>grayagain := a # grayagain g1\<rparr>) = Inr g2" unfolding g2_def by (rule remark_eq) (simp add: x1)
    have "same_bodies (g1\<lparr>grayagain := a # grayagain g1\<rparr>) g2" unfolding g2_def by (rule put_mark_same) (simp_all add: x1)
    then have s2: "same_bodies g g2" using s list_same(2) same_trans by blast
    have f2: "frame g2 = frame g" "weak g2 = weak g" "grayagain g2 = a # grayagain g" "gray g2 = rest" by (simp_all add: g2_def f1)
    have n2: "nw g2 = nw g" "\<And>b. b \<noteq> a \<Longrightarrow> blk g2 b = blk g b" "\<not> blk g2 a" using wx n1 b1 x by (auto simp: g2_def fun_eq_iff nw_def)
    have "sane (g1\<lparr>grayagain := a # grayagain g1\<rparr>)" using o1 by (simp add: mok_def)
    then have "sane g2" unfolding g2_def by (rule sane_put) simp
    then have o2: "mok g2" by (intro mok_same [OF g(1) s2 f2(1)])
    obtain y where y: "heap g2 a = Some y" "body y = BThread t" using same_body_at [OF s2 x] 3 by auto
    obtain h where h: "traversestack a g2 = Inr h" "marks {} g2 h" "mok h" "refs h a \<subseteq> NW h" "\<And>b. vweak h b = vweak g2 b"
      "\<And>b y. b \<noteq> a \<Longrightarrow> heap g2 b = Some y \<Longrightarrow> \<exists>z. heap h b = Some z \<and> body z = body y"
      using traversestack_spec [OF o2 y] by blast
    have na: "nw h a" "\<not> blk h a" using marksD(4,5) [OF h(2), of a] n2 g(3) by simp_all
    then obtain z where z: "heap h a = Some z" by (auto simp: nw_def split: option.splits)
    have "propagatemark g = Inr (object_size (body z), h)" using p 3 r2 h(1) z by (simp add: obj_def)
    moreover have "\<exists>ns. stepped a rest ns g h"
    proof (rule stepped_from [OF g(3) s2 f2(1) n2(1,2) f2(4)])
      have "h\<lparr>weak := weak g2\<rparr> = h" using marksD(7) [OF h(2)] by (rule weak_id)
      then show "marks {} g2 (h\<lparr>weak := weak g2\<rparr>)" using h(2) by (simp only:)
      show "wk_ok h b" if "b \<noteq> a" "wk_ok g2 b" for b
        using that(2) h(5) h(6) [OF that(1)] by (rule wk_ok_bodies) (assumption, intro subsetI CollectI, elim CollectE, rule marksD(4) [OF h(2)])
      show "blk h a \<and> refs h a \<subseteq> NW h \<and> weak h = weak g \<and> grayagain h = grayagain g
          \<or> \<not> blk h a \<and> wk_ok h a \<and> weak h = a # weak g \<and> grayagain h = grayagain g
          \<or> \<not> blk h a \<and> refs h a \<subseteq> NW h \<and> weak h = weak g \<and> grayagain h = a # grayagain g"
        using na h(4) marksD(6,7) [OF h(2)] f2 by simp
    qed (use h(3) in simp_all)
    ultimately show thesis using that by blast
  qed
qed

end
