(* ===== verification/LGCMark.thy ===== *)
theory LGCMark
  imports LGCTrav
begin

text \<open>
  The mark phase: the three-colour invariant, that every step of the propagation keeps it, that the propagation ends, and
  that after the atomic phase everything reachable is marked.
\<close>

section \<open>The invariant\<close>

abbreviation lists :: "gstate \<Rightarrow> nat set" where "lists g \<equiv> set (gray g) \<union> set (grayagain g) \<union> set (weak g)"

text \<open>
  A black object, those of \<open>E\<close> apart, refers to no white one; an object that is neither white nor black is a string, an open
  upvalue or in one of the lists, which are disjoint. One of the two white bits is current; other
  bits of \<open>currentwhite\<close> (\<open>lstate.c\<close> sets \<open>FIXEDBIT\<close> there) stay as they are.
\<close>

definition tri :: "nat set \<Rightarrow> gstate \<Rightarrow> bool" where
  "tri E g \<longleftrightarrow> mok g \<and> distinct (gray g @ grayagain g @ weak g)
    \<and> (\<forall>a \<in> lists g. nw g a \<and> \<not> blk g a \<and> kindat g a \<in> gray_kinds)
    \<and> (\<forall>a. nw g a \<longrightarrow> blk g a \<longrightarrow> a \<notin> E \<longrightarrow> refs g a \<subseteq> NW g)
    \<and> (\<forall>a. nw g a \<longrightarrow> \<not> blk g a \<longrightarrow> kindat g a \<in> {Some KString, Some KOpenUv} \<or> a \<in> lists g)
    \<and> (\<forall>a. kindat g a = Some KOpenUv \<longrightarrow> a \<in> set (uvhead g) \<and> \<not> blk g a)
    \<and> nw g (mainthread g) \<and> vrefs (registry g) \<subseteq> NW g \<and> currentwhite g AND WHITEBITS \<in> {1, 2}"

lemma triD:
  assumes "tri E g"
  shows "mok g" "distinct (gray g @ grayagain g @ weak g)" "a \<in> lists g \<Longrightarrow> nw g a \<and> \<not> blk g a \<and> kindat g a \<in> gray_kinds"
    "nw g a \<Longrightarrow> blk g a \<Longrightarrow> a \<notin> E \<Longrightarrow> refs g a \<subseteq> NW g"
    "nw g a \<Longrightarrow> \<not> blk g a \<Longrightarrow> kindat g a \<in> {Some KString, Some KOpenUv} \<or> a \<in> lists g"
    "kindat g a = Some KOpenUv \<Longrightarrow> a \<in> set (uvhead g) \<and> \<not> blk g a" "nw g (mainthread g)" "vrefs (registry g) \<subseteq> NW g" "currentwhite g AND WHITEBITS \<in> {1, 2}"
  using assms unfolding tri_def by blast+

text \<open>What holds besides in parts of the atomic phase: of open upvalues, of weak tables, and of the threads in \<open>grayagain\<close>.\<close>

definition upok :: "gstate \<Rightarrow> bool" where
  "upok g \<longleftrightarrow> (\<forall>a. kindat g a = Some KOpenUv \<longrightarrow> nw g a \<longrightarrow> refs g a \<subseteq> NW g)"

definition wok :: "gstate \<Rightarrow> bool" where "wok g \<longleftrightarrow> (\<forall>h \<in> set (weak g). wk_ok g h)"

definition gok :: "gstate \<Rightarrow> bool" where "gok g \<longleftrightarrow> (\<forall>a \<in> set (grayagain g). refs g a \<subseteq> NW g)"

definition grows :: "gstate \<Rightarrow> gstate \<Rightarrow> bool" where
  "grows g g' \<longleftrightarrow> currentwhite g' = currentwhite g \<and> mainthread g' = mainthread g \<and> registry g' = registry g \<and> mt g' = mt g \<and> set (tmudata g) \<subseteq> set (tmudata g') \<and> (\<forall>b. kindat g' b = kindat g b) \<and> (\<forall>b. refs g' b \<subseteq> refs g b) \<and> (\<forall>b. nw g b \<longrightarrow> nw g' b)
    \<and> (upok g \<longrightarrow> upok g') \<and> (wok g \<longrightarrow> wok g') \<and> (gok g \<longrightarrow> gok g')"

lemma grows_refl: "grows g g"
  by (simp add: grows_def)

lemma grows_trans: "grows g g' \<Longrightarrow> grows g' g'' \<Longrightarrow> grows g g''"
  unfolding grows_def by (metis (no_types, opaque_lifting) order_trans)

lemma kindat_dom: "(\<And>b. kindat g' b = kindat g b) \<Longrightarrow> D g' = D g"
  by (auto simp: kindat_def dom_def) (metis map_option_is_None not_Some_eq)+

lemma grows_D: "grows g g' \<Longrightarrow> D g' = D g"
  unfolding grows_def by (intro kindat_dom) blast

lemma blk_nw: "mok g \<Longrightarrow> blk g b \<Longrightarrow> nw g b"
  by (auto simp: mok_def sane_def blk_def nw_def split: option.splits)

lemma not_gray_kinds: "Some KString \<notin> gray_kinds" "Some KOpenUv \<notin> gray_kinds" "Some KUdata \<notin> gray_kinds" "Some KUpVal \<notin> gray_kinds"
  by (simp_all add: gray_kinds_def)

section \<open>Steps keep it\<close>

lemma tri_stepped:
  assumes t: "tri E g" and gr: "gray g = a # rest" and s: "stepped a rest ns g g'"
  shows "tri E g'" "grows g g'"
proof -
  have S: "frame g' = frame g" "\<And>b. kindat g' b = kindat g b" "\<And>b. refs g' b \<subseteq> refs g b" "mok g'" "\<And>b. nw g b \<Longrightarrow> nw g' b"
    "\<And>b. b \<noteq> a \<Longrightarrow> nw g b \<Longrightarrow> blk g' b = blk g b" "gray g' = ns @ rest" "distinct ns"
    "\<And>b. b \<in> set ns \<Longrightarrow> \<not> nw g b \<and> nw g' b \<and> \<not> blk g' b \<and> kindat g b \<in> gray_kinds"
    "\<And>b. nw g' b \<Longrightarrow> \<not> nw g b \<Longrightarrow> b \<in> set ns \<or> settled g' b" "\<And>h. h \<noteq> a \<Longrightarrow> wk_ok g h \<Longrightarrow> wk_ok g' h"
    using s unfolding stepped_def by blast+
  have c: "blk g' a \<and> refs g' a \<subseteq> NW g' \<and> weak g' = weak g \<and> grayagain g' = grayagain g
      \<or> \<not> blk g' a \<and> wk_ok g' a \<and> weak g' = a # weak g \<and> grayagain g' = grayagain g
      \<or> \<not> blk g' a \<and> refs g' a \<subseteq> NW g' \<and> weak g' = weak g \<and> grayagain g' = a # grayagain g"
    using s unfolding stepped_def by blast
  note T = triD [OF t]
  have na: "nw g a" "a \<notin> set rest" "a \<notin> set (grayagain g)" "a \<notin> set (weak g)" using T(2) T(3) [of a] gr by auto
  have nsa: "a \<notin> set ns" using S(9) na(1) by blast
  have NW: "NW g \<subseteq> NW g'" using S(5) by blast
  have ns: "b \<notin> set ns" if "b \<in> lists g" for b using S(9) T(3) [OF that] by blast
  have fr: "uvhead g' = uvhead g" "mainthread g' = mainthread g" "registry g' = registry g" "currentwhite g' = currentwhite g"
    using frame_fields [OF S(1)] by simp_all
  have stl: "settled g' b \<Longrightarrow> kindat g b = Some KOpenUv \<Longrightarrow> refs g' b \<subseteq> NW g' \<and> \<not> blk g' b" for b
    using S(2) by (auto simp: settled_def)
  show "tri E g'"
    unfolding tri_def
  proof (intro conjI allI impI ballI)
    show "distinct (gray g' @ grayagain g' @ weak g')"
      using c T(2) S(7,8) na nsa ns gr by auto
    fix b
    assume b: "b \<in> lists g'"
    have o: "b = a \<and> \<not> blk g' a \<or> b \<in> set ns \<or> b \<noteq> a \<and> b \<in> lists g" using b c S(7) gr na by auto
    then show "nw g' b" using S(5,9) T(3) na(1) by blast
    show "\<not> blk g' b" using o S(6,9) T(3) [of b] by blast
    show "kindat g' b \<in> gray_kinds" using o S(2,9) T(3) [of b] T(3) [of a] gr by auto
  next
    fix b
    assume b: "nw g' b" "blk g' b" "b \<notin> E"
    show "refs g' b \<subseteq> NW g'"
    proof (cases "b = a")
      case True
      then show ?thesis using c b(2) by blast
    next
      case False
      show ?thesis
      proof (cases "nw g b")
        case True
        then show ?thesis using T(4) [OF True] S(6) [OF False True] b S(3) NW by blast
      next
        case n: False
        then show ?thesis using S(9,10) b by (auto simp: settled_def)
      qed
    qed
  next
    fix b
    assume b: "nw g' b" "\<not> blk g' b"
    show "kindat g' b \<in> {Some KString, Some KOpenUv} \<or> b \<in> lists g'"
    proof (cases "b = a")
      case True
      then show ?thesis using c b(2) by auto
    next
      case False
      show ?thesis
      proof (cases "nw g b")
        case True
        then have "kindat g b \<in> {Some KString, Some KOpenUv} \<or> b \<in> lists g" using T(5) S(6) [OF False True] b by blast
        then show ?thesis using c S(2,7) gr False by auto
      next
        case n: False
        then show ?thesis using S(7,10) b by (auto simp: settled_def)
      qed
    qed
  next
    fix b
    assume b: "kindat g' b = Some KOpenUv"
    then show "b \<in> set (uvhead g')" using T(6) S(2) fr by simp
    have "b \<noteq> a" using b S(2) T(3) [of a] gr by (auto simp: gray_kinds_def)
    moreover have "\<not> blk g b" using T(6) b S(2) by simp
    ultimately show "\<not> blk g' b"
      using S(6,9,10) stl b S(2) blk_nw [OF S(4)] by metis
  qed (use S(4,5) T(7-9) fr NW in auto)
  show "grows g g'"
    unfolding grows_def
  proof (intro conjI allI impI)
    show "upok g'" if u: "upok g"
      unfolding upok_def
    proof (intro allI impI)
      fix b
      assume b: "kindat g' b = Some KOpenUv" "nw g' b"
      show "refs g' b \<subseteq> NW g'"
      proof (cases "nw g b")
        case True
        then show ?thesis using u b S(2,3) NW unfolding upok_def by (metis order_trans)
      next
        case False
        then have "b \<in> set ns \<or> settled g' b" using S(10) b by blast
        then show ?thesis using stl b S(2,9) not_gray_kinds(2) by metis
      qed
    qed
    show "wok g'" if w: "wok g" using w c S(11) na unfolding wok_def by (metis set_ConsD)
    show "gok g'" if w: "gok g" using w c S(3) NW unfolding gok_def by (metis order_trans set_ConsD)
  qed (use frame_fields [OF S(1)] S(2,3,5) in auto)
qed

text \<open>Marking keeps it too.\<close>

lemma tri_marks_gen:
  assumes t: "tri E g" and f: "frame g' = frame g" and sb: "same_bodies g g'" and o: "mok g'"
    and nw: "\<And>b. nw g b \<Longrightarrow> nw g' b" and bl: "\<And>b. b \<notin> A \<Longrightarrow> nw g b \<Longrightarrow> blk g' b = blk g b"
    and ls: "grayagain g' = grayagain g" "weak g' = weak g" "gray g' = ns @ gray g" "distinct ns"
    and ns: "\<And>b. b \<in> set ns \<Longrightarrow> \<not> nw g b \<and> nw g' b \<and> \<not> blk g' b \<and> kindat g b \<in> gray_kinds"
    and new: "\<And>b. b \<notin> A \<Longrightarrow> nw g' b \<Longrightarrow> \<not> nw g b \<Longrightarrow> b \<in> set ns \<or> settled g' b"
    and A: "\<And>b. b \<in> A \<Longrightarrow> blk g' b \<and> kindat g b = Some KUdata \<and> refs g' b \<subseteq> NW g'"
  shows "tri (E - A) g'" "grows g g'"
proof -
  note T = triD [OF t]
  have NW: "NW g \<subseteq> NW g'" using nw by blast
  have k: "kindat g' b = kindat g b" and r: "refs g' b = refs g b" for b using same_kindat [OF sb] same_refs [OF sb] by blast+
  have fr: "uvhead g' = uvhead g" "mainthread g' = mainthread g" "registry g' = registry g" "currentwhite g' = currentwhite g"
    using frame_fields [OF f] by simp_all
  have nl: "b \<notin> set ns" if "b \<in> lists g" for b using ns T(3) [OF that] by blast
  have uvA: "b \<notin> A" if "kindat g b = Some KOpenUv" for b using A [of b] that by auto
  have lA: "b \<notin> A" if "kindat g b \<in> gray_kinds" for b using A [of b] that by (auto simp: gray_kinds_def)
  have nu: "kindat g b = Some KOpenUv \<Longrightarrow> nw g' b \<Longrightarrow> \<not> nw g b \<Longrightarrow> \<not> blk g' b \<and> refs g' b \<subseteq> NW g'" for b
  proof -
    assume b: "kindat g b = Some KOpenUv" "nw g' b" "\<not> nw g b"
    have "b \<notin> set ns" using ns b(1) not_gray_kinds(2) by metis
    then show ?thesis using new [OF uvA [OF b(1)] b(2,3)] b(1) k by (auto simp: settled_def)
  qed
  show "tri (E - A) g'"
    unfolding tri_def
  proof (intro conjI allI impI ballI)
    show "distinct (gray g' @ grayagain g' @ weak g')" using T(2) ls nl by auto
    fix b
    assume b: "b \<in> lists g'"
    have o: "b \<in> set ns \<or> b \<in> lists g" using b ls by auto
    then show "nw g' b" "\<not> blk g' b" "kindat g' b \<in> gray_kinds" using ns T(3) [of b] k nw bl lA by metis+
  next
    fix b
    assume b: "nw g' b" "blk g' b" "b \<notin> E - A"
    show "refs g' b \<subseteq> NW g'"
    proof (cases "b \<in> A")
      case True
      then show ?thesis using A by blast
    next
      case bA: False
      show ?thesis
      proof (cases "nw g b")
        case True
        then show ?thesis using T(4) [OF True] b bA r bl NW by blast
      next
        case False
        then show ?thesis using ns new [OF bA b(1) False] b by (auto simp: settled_def)
      qed
    qed
  next
    fix b
    assume b: "nw g' b" "\<not> blk g' b"
    then have bA: "b \<notin> A" using A by blast
    show "kindat g' b \<in> {Some KString, Some KOpenUv} \<or> b \<in> lists g'"
    proof (cases "nw g b")
      case True
      then have "kindat g b \<in> {Some KString, Some KOpenUv} \<or> b \<in> lists g" using T(5) bl bA b by blast
      then show ?thesis using k ls by auto
    next
      case False
      then show ?thesis using ls new [OF bA b(1) False] b by (auto simp: settled_def)
    qed
  next
    fix b
    assume b: "kindat g' b = Some KOpenUv"
    then show "b \<in> set (uvhead g')" using T(6) k fr by simp
    have "kindat g b = Some KOpenUv" "\<not> blk g b" using T(6) b k by simp_all
    then show "\<not> blk g' b" using nu blk_nw [OF o] bl uvA by metis
  qed (use o nw T(7-9) fr NW in auto)
  show "grows g g'"
    unfolding grows_def
  proof (intro conjI allI impI)
    show "upok g'" if u: "upok g"
      unfolding upok_def
    proof (intro allI impI)
      fix b
      assume b: "kindat g' b = Some KOpenUv" "nw g' b"
      show "refs g' b \<subseteq> NW g'"
      proof (cases "nw g b")
        case True
        then have "refs g b \<subseteq> NW g" using u b(1) k unfolding upok_def by simp
        then show ?thesis using r NW by blast
      next
        case False
        then show ?thesis using nu b k by simp
      qed
    qed
    show "wok g'" if w: "wok g"
      unfolding wok_def
    proof
      fix h
      assume "h \<in> set (weak g')"
      then have "wk_ok g h" using w ls by (simp add: wok_def)
      then show "wk_ok g' h" by (rule wk_ok_bodies) (use sb same_body_at [OF sb] NW in \<open>auto simp: same_bodies_def\<close>)
    qed
    show "gok g'" if w: "gok g" using w r ls NW unfolding gok_def by (metis order_trans)
  qed (use frame_fields [OF f] k r nw in auto)
qed

lemma tri_marks:
  assumes t: "tri E g" and m: "marks {} g g'" "mok g'" "same_bodies g g'"
  shows "tri E g'" "grows g g'"
proof -
  obtain ns where ns: "gray g' = ns @ gray g" "distinct ns" "\<forall>a \<in> set ns. \<not> nw g a \<and> nw g' a \<and> \<not> blk g' a \<and> kindat g a \<in> gray_kinds"
    "\<forall>a. nw g' a \<longrightarrow> \<not> nw g a \<longrightarrow> a \<in> set ns \<or> settled g' a" using m(1) unfolding marks_def by blast
  note M = marksD [OF m(1)]
  have "tri (E - {}) g' \<and> grows g g'"
    using tri_marks_gen [OF t M(1) m(3,2) M(4) M(5) M(6,7) ns(1,2), of "{}"] ns(3,4) by blast
  then show "tri E g'" "grows g g'" by simp_all
qed

lemma tri_marker:
  assumes "tri E g" "marker f A g"
  obtains g' where "f g = Inr g'" "tri E g'" "grows g g'" "A \<subseteq> NW g'" "marks {} g g'" "same_bodies g g'"
  using assms tri_marks [OF assms(1)] unfolding marker_def by blast

section \<open>The propagation ends\<close>

definition todo :: "gstate \<Rightarrow> nat" where
  "todo g = card {a \<in> D g. \<not> nw g a} + length (gray g)"

lemma todo_stepped:
  assumes f: "finite (D g)" and gr: "gray g = a # rest" and s: "stepped a rest ns g g'"
  shows "todo g' < todo g"
proof -
  have S: "\<And>b. kindat g' b = kindat g b" "\<And>b. nw g b \<Longrightarrow> nw g' b" "gray g' = ns @ rest" "distinct ns" "\<And>b. b \<in> set ns \<Longrightarrow> \<not> nw g b \<and> nw g' b"
    using s unfolding stepped_def by blast+
  have d: "D g' = D g" using S(1) by (rule kindat_dom)
  let ?w = "{a \<in> D g. \<not> nw g a}" and ?w' = "{a \<in> D g'. \<not> nw g' a}"
  have "?w' \<subseteq> ?w - set ns" using S(2,5) d by blast
  then have "card ?w' \<le> card (?w - set ns)" using f by (intro card_mono) auto
  also have "\<dots> = card ?w - card (set ns)" using S(5) f d nw_D by (intro card_Diff_subset) (auto, blast)
  finally have "card ?w' \<le> card ?w - length ns" using S(4) by (simp add: distinct_card)
  moreover have "set ns \<subseteq> ?w" using S(5) nw_D d by blast
  then have "card (set ns) \<le> card ?w" using f by (intro card_mono) auto
  ultimately show ?thesis using S(3,4) gr by (simp add: todo_def distinct_card)
qed

lemma todo_bound:
  assumes t: "tri E g" and f: "finite (D g)"
  shows "todo g \<le> card (D g)"
proof -
  have "set (gray g) \<subseteq> {a \<in> D g. nw g a}" using triD(3) [OF t] nw_D by blast
  then have "card (set (gray g)) \<le> card {a \<in> D g. nw g a}" using f by (intro card_mono) auto
  moreover have "card (set (gray g)) = length (gray g)" using triD(2) [OF t] by (simp add: distinct_card)
  moreover have "card {a \<in> D g. \<not> nw g a} + card {a \<in> D g. nw g a} = card (D g)"
    using f by (subst card_Un_disjoint [symmetric]) (auto intro!: arg_cong [of _ _ card])
  ultimately show ?thesis by (simp add: todo_def)
qed

lemma propagateall_spec:
  assumes "tri E g" "finite (D g)" "todo g < n"
  obtains m g' where "propagateall n g = Inr (m, g')" "gray g' = []" "tri E g'" "grows g g'" "tmudata g' = tmudata g"
  using assms
proof (induction n arbitrary: g thesis)
  case (Suc n)
  show ?case
  proof (cases "gray g")
    case Nil
    then show ?thesis using Suc.prems grows_refl by simp
  next
    case (Cons a rest)
    note T = triD [OF Suc.prems(2)]
    have a: "nw g a" "kindat g a \<in> gray_kinds" using T(3) [of a] Cons by auto
    obtain m ns g1 where p: "propagatemark g = Inr (m, g1)" "stepped a rest ns g g1" using propagatemark_spec [OF T(1) Cons a] .
    note t = tri_stepped [OF Suc.prems(2) Cons p(2)]
    have "finite (D g1)" "todo g1 < n"
      using grows_D [OF t(2)] todo_stepped [OF Suc.prems(3) Cons p(2)] Suc.prems(3,4) by simp_all
    then obtain m' g2 where g2: "propagateall n g1 = Inr (m', g2)" "gray g2 = []" "tri E g2" "grows g1 g2" "tmudata g2 = tmudata g1"
      using Suc.IH t(1) by blast
    moreover have "tmudata g1 = tmudata g" using p(2) frame_fields [of g1 g] unfolding stepped_def by blast
    ultimately show ?thesis using Suc.prems(1) p(1) Cons grows_trans [OF t(2) g2(4)] by simp
  qed
qed simp

section \<open>Open upvalues\<close>

lemma remarkupval_spec:
  assumes g: "mok g" and k: "kindat g a = Some KOpenUv" and b: "\<not> blk g a"
  shows "marker (remarkupval a) (if nw g a then refs g a else {}) g"
proof -
  obtain x th i where x: "heap g a = Some x" "body x = BUpVal (Open th i)" using k by (auto simp: kindat_def kind_simps)
  have w: "wtb (D g) g (BUpVal (Open th i))" using mok_wtb [OF g x(1)] x(2) by simp
  have v: "uv_value g (Open th i) = Inr (slot g th i)" by (rule uv_value_slot [OF w])
  have r: "refs g a = vrefs (slot g th i)" using x by (simp add: refs_def)
  have n: "nw g a = isgray (marked x)" using x b by (auto simp: nw_def blk_def isgray_def)
  show ?thesis
  proof (cases "nw g a")
    case True
    then have "remarkupval a g = markvalue (slot g th i) g" using n x v by (simp add: remarkupval_def obj_def as_upval_def)
    then show ?thesis using markvalue_spec [OF g] w True r unfolding marker_def by simp
  next
    case False
    then have "remarkupval a g = Inr g" using n x by (simp add: remarkupval_def obj_def)
    then show ?thesis using False marks_refl [of "{}" g] g by (simp add: marker_def)
  qed
qed

lemma remarkupvals_spec:
  assumes t: "tri E g"
  obtains g' where "remarkupvals g = Inr g'" "tri E g'" "grows g g'" "upok g'" "gray g = [] \<Longrightarrow> D g' = D g"
proof -
  have "\<exists>g'. each remarkupval us g = Inr g' \<and> marks {} g g' \<and> mok g' \<and> same_bodies g g' \<and> (\<forall>a \<in> set us. nw g' a \<longrightarrow> refs g' a \<subseteq> NW g')"
    if "tri E g" "\<forall>a \<in> set us. kindat g a = Some KOpenUv" for us g
    using that
  proof (induction us arbitrary: g)
    case Nil
    then show ?case using triD(1) [OF Nil.prems(1)] marks_refl by (auto intro!: exI [of _ g])
  next
    case (Cons a us)
    have ka: "kindat g a = Some KOpenUv" using Cons.prems(2) by simp
    note T = triD [OF Cons.prems(1)]
    obtain g1 where g1: "remarkupval a g = Inr g1" "tri E g1" "(if nw g a then refs g a else {}) \<subseteq> NW g1" "marks {} g g1" "same_bodies g g1"
      using tri_marker [OF Cons.prems(1) remarkupval_spec [OF T(1) ka]] T(6) [OF ka] by metis
    obtain g2 where g2: "each remarkupval us g1 = Inr g2" "marks {} g1 g2" "mok g2" "same_bodies g1 g2" "\<forall>a \<in> set us. nw g2 a \<longrightarrow> refs g2 a \<subseteq> NW g2"
      using Cons.IH [OF g1(2)] Cons.prems(2) marksD(2) [OF g1(4)] by auto
    have m: "marks {} g g2" using g1(4) g2(2) by (rule marks_trans)
    have "refs g2 a \<subseteq> NW g2" if n: "nw g2 a"
    proof (cases "nw g a")
      case True
      then have "refs g a \<subseteq> NW g1" using g1(3) by simp
      then show ?thesis using marksD(3) [OF m, of a] marksD(4) [OF g2(2)] by blast
    next
      case False
      obtain ns where ns: "\<forall>a \<in> set ns. kindat g a \<in> gray_kinds" "\<forall>a. nw g2 a \<longrightarrow> \<not> nw g a \<longrightarrow> a \<in> set ns \<or> settled g2 a"
        using m unfolding marks_def by blast
      have "settled g2 a" using ns n False ka not_gray_kinds(2) by metis
      then show ?thesis using ka marksD(2) [OF m] by (auto simp: settled_def)
    qed
    then show ?case using g1(1) g2 m same_trans [OF g1(5) g2(4)] by auto
  qed
  moreover have "\<forall>a \<in> set (uvhead g). kindat g a = Some KOpenUv" using triD(1) [OF t] by (auto simp: mok_def roots_ok_def)
  ultimately obtain g' where g': "remarkupvals g = Inr g'" "marks {} g g'" "mok g'" "same_bodies g g'" "\<forall>a \<in> set (uvhead g). nw g' a \<longrightarrow> refs g' a \<subseteq> NW g'"
    using t unfolding remarkupvals_def by blast
  note t' = tri_marks [OF t g'(2-4)]
  have "uvhead g' = uvhead g" using frame_fields [OF marksD(1) [OF g'(2)]] by simp
  then have "upok g'" using g'(5) triD(6) [OF t'(1)] unfolding upok_def by metis
  then show ?thesis using that g'(1) t' grows_D [OF t'(2)] by blast
qed

section \<open>Userdata with finalizers\<close>

text \<open>Nothing is marked: tables lose flags or entries, and marks other than the colours may change.\<close>

definition quiet :: "gstate \<Rightarrow> gstate \<Rightarrow> bool" where
  "quiet g g' \<longleftrightarrow> frame g' = frame g \<and> tab_shrunk g g' \<and> mok g' \<and> nw g' = nw g \<and> blk g' = blk g \<and> (\<forall>a. vweak g' a = vweak g a)
    \<and> gray g' = gray g \<and> grayagain g' = grayagain g \<and> weak g' = weak g"

lemma quiet_trans: "quiet g g' \<Longrightarrow> quiet g' g'' \<Longrightarrow> quiet g g''"
  unfolding quiet_def by (metis tab_shrunk_trans)

lemma quiet_refl: "mok g \<Longrightarrow> quiet g g"
  by (simp add: quiet_def same_shrunk)

lemma quiet_wk_ok: "quiet g g' \<Longrightarrow> wk_ok g h \<Longrightarrow> wk_ok g' h"
proof -
  assume q: "quiet g g'" and w: "wk_ok g h"
  obtain x t where x: "heap g h = Some x" "body x = BTable t" "set_option (tb_meta t) \<subseteq> NW g" "\<not> bit (marked x) 4 \<longrightarrow> vsrefs (tb_array t) \<subseteq> NW g"
    using w by (auto simp: wk_ok_def)
  obtain y where y: "heap g' h = Some y" "bshrunk (body x) (body y)" using q tab_shrunkD [OF _ x(1)] unfolding quiet_def by blast
  obtain t' where t: "body y = BTable t'" "shrunk t t'" using y(2) x(2) by (auto simp: bshrunk_def)
  have v: "vsrefs (tb_array t') \<subseteq> vsrefs (tb_array t)" using t(2) by (fastforce simp: shrunk_def vsrefs_def)
  have "vweak g' h = vweak g h" using q by (simp add: quiet_def)
  then have "bit (marked y) 4 = bit (marked x) 4" using x(1) y(1) by (simp add: vweak_def)
  then show ?thesis using x(3,4) y(1) t v q unfolding wk_ok_def quiet_def shrunk_def by (metis order_trans)
qed

lemma quietD:
  assumes "quiet g g'"
  shows "frame g' = frame g" "kindat g' b = kindat g b" "refs g' b \<subseteq> refs g b" "nw g' = nw g" "blk g' = blk g" "gray g' = gray g"
    "grayagain g' = grayagain g" "weak g' = weak g" "mok g'" "D g' = D g"
  using assms shrunk_kindat [of g g' b] shrunk_refs [of g g' b] unfolding quiet_def tab_shrunk_def by blast+

lemma tri_quiet:
  assumes t: "tri E g" and q: "quiet g g'"
  shows "tri E g'" "grows g g'"
proof -
  note Q = quietD [OF q] and T = triD [OF t]
  have fr: "uvhead g' = uvhead g" "mainthread g' = mainthread g" "registry g' = registry g" "currentwhite g' = currentwhite g"
    using frame_fields [OF Q(1)] by simp_all
  show "tri E g'"
    unfolding tri_def Q(4-8) fr
  proof (intro conjI allI impI ballI)
    show "refs g' a \<subseteq> NW g" if "nw g a" "blk g a" "a \<notin> E" for a using Q(3) [of a] T(4) [OF that] by blast
  qed (use T Q(2,9) in auto)
  have r: "refs g b \<subseteq> NW g \<Longrightarrow> refs g' b \<subseteq> NW g" for b using Q(3) [of b] by blast
  show "grows g g'"
    unfolding grows_def upok_def wok_def gok_def Q(2,4,7,8) using Q(3) quiet_wk_ok [OF q] r frame_fields [OF Q(1)] by auto
qed

lemma separate_spec:
  assumes "mok g" "\<forall>a \<in> set as. kindat g a = Some KUdata"
  obtains k m d g' where "separate al as g = Inr (k, m, d, g')" "quiet g g'" "set k \<union> set m = set as" "length k \<le> length as"
  using assms
proof (induction as arbitrary: g thesis)
  case Nil
  then show ?case using quiet_refl by simp
next
  case (Cons a as)
  have ka: "kindat g a = Some KUdata" using Cons.prems(3) by simp
  obtain x u where x: "heap g a = Some x" "body x = BUdata u" using ka by (auto simp: kindat_def kind_simps)
  have w: "ook (D g) g {KTable} [ud_meta u]" using mok_wtb [OF Cons.prems(2) x(1)] x(2) by (simp add: ook_def osrefs_def)
  show ?case
  proof (cases "\<not> (iswhite (marked x) \<or> al) \<or> marked x AND FINALIZEDBIT \<noteq> 0")
    case True
    obtain k m d g' where "separate al as g = Inr (k, m, d, g')" "quiet g g'" "set k \<union> set m = set as" "length k \<le> length as"
      using Cons.IH Cons.prems(2,3) by (metis list.set_intros(2))
    then show ?thesis using Cons.prems(1) [of "a # k" m d g'] x True by (simp add: obj_def)
  next
    case False
    have "TM_GC < 4" by (simp add: TM_GC_def)
    then obtain tm g1 where g1: "gfasttm (ud_meta u) TM_GC g = Inr (tm, g1)" "adv {} g g1" "nw g1 = nw g" "blk g1 = blk g" "gray g1 = gray g" "weak g1 = weak g"
      using gfasttm_spec [OF Cons.prems(2) w] by metis
    have q1: "quiet g g1" unfolding quiet_def using g1 advD(1,7,8,11) [OF g1(2)] adv_vweak [OF g1(2)] by simp
    have "kindat g1 a = Some KUdata" using quietD(2) [OF q1] ka by simp
    then obtain y where y: "heap g1 a = Some y" by (auto simp: kindat_def)
    define g2 where "g2 = put_obj a (y\<lparr>marked := marked y OR FINALIZEDBIT\<rparr>) g1"
    have r: "remark (\<lambda>b. b OR FINALIZEDBIT) a g1 = Inr g2" unfolding g2_def by (rule remark_eq [OF y])
    have s2: "same_bodies g1 g2" unfolding g2_def by (simp add: put_mark_same [OF y])
    have c2: "nw g2 = nw g1" "blk g2 = blk g1" using y by (auto simp: g2_def nw_def blk_def fun_eq_iff)
    have "sane g2" unfolding g2_def using quietD(9) [OF q1] y by (intro sane_put) (auto simp: mok_def sane_def)
    then have "mok g2" using mok_same [OF quietD(9) [OF q1] s2] by (simp add: g2_def)
    then have q2: "quiet g1 g2" using s2 c2 same_shrunk [OF s2] unfolding quiet_def by (simp add: same_bodies_def g2_def)
    have q: "quiet g g2" using q1 q2 by (rule quiet_trans)
    have "\<forall>a \<in> set as. kindat g2 a = Some KUdata" using Cons.prems(3) quietD(2) [OF q] by simp
    then obtain k m d g' where s: "separate al as g2 = Inr (k, m, d, g')" "quiet g2 g'" "set k \<union> set m = set as" "length k \<le> length as"
      using Cons.IH [OF _ quietD(9) [OF q]] by blast
    have e: "separate al (a # as) g = Inr (if tm = None then (a # k, m, d, g') else (k, a # m, object_size (BUdata u) + d, g'))"
    proof -
      have "(if \<not> (iswhite (marked x) \<or> al) \<or> marked x AND FINALIZEDBIT \<noteq> 0 then p else q) = q" for p q :: "(nat list \<times> nat list \<times> nat \<times> gstate) lres"
        using False by simp
      then show ?thesis using x g1(1) r s(1) by (simp only: separate.simps obj_def as_udata_def option.case gcbody.case sbind_Inr prod.case)
    qed
    note qq = quiet_trans [OF q s(2)]
    show ?thesis
    proof (cases "tm = None")
      case True
      then show ?thesis using Cons.prems(1) [of "a # k" m d g'] e qq s(3,4) by simp
    next
      case False
      then show ?thesis using Cons.prems(1) [of k "a # m"] e qq s(3,4) by simp
    qed
  qed
qed

lemma rest_after_split: "x \<notin> set ys \<Longrightarrow> rest_after (Some x) (ys @ x # zs) = zs"
  by (induction ys) (auto simp: rest_after_def)

lemma rest_after_notin: "x \<notin> set xs \<Longrightarrow> rest_after (Some x) xs = []"
  by (induction xs) (auto simp: rest_after_def)

lemma rest_after_front: "rest_after (Some x) (take (length xs - length (rest_after (Some x) xs)) xs @ k) = k"
  if "x \<in> set xs \<or> k = []"
proof (cases "x \<in> set xs")
  case True
  then obtain ys zs where "xs = ys @ x # zs" "x \<notin> set ys" by (meson split_list_first)
  then show ?thesis using rest_after_split [of x ys zs] rest_after_split [of x ys k] by simp
next
  case False
  then show ?thesis using that rest_after_notin [OF False] by simp
qed

lemma list_refs: "heap g' = heap g \<Longrightarrow> same_bodies g g' \<and> nw g' = nw g \<and> blk g' = blk g \<and> sane g' = sane g"
  by (auto simp: same_bodies_def vweak_def nw_def blk_def sane_def fun_eq_iff)

lemma luaC_separateudata_spec:
  assumes t: "tri (set (tmudata g)) g"
  obtains d g' where "luaC_separateudata al g = Inr (d, g')" "tri (set (tmudata g')) g'" "grows g g'" "gray g' = gray g"
    "set (tmudata g') \<union> set (rest_after (Some (mainthread g)) (rootgc g')) = set (tmudata g) \<union> set (rest_after (Some (mainthread g)) (rootgc g))"
proof -
  note T = triD [OF t]
  let ?us = "rest_after (Some (mainthread g)) (rootgc g)"
  have us: "\<forall>a \<in> set ?us. kindat g a = Some KUdata" using T(1) by (simp add: mok_def roots_ok_def)
  obtain k m d g1 where s: "separate al ?us g = Inr (k, m, d, g1)" "quiet g g1" "set k \<union> set m = set ?us" "length k \<le> length ?us"
    using separate_spec [OF T(1) us] .
  note q = tri_quiet [OF t s(2)] and Q = quietD [OF s(2)]
  let ?front = "take (length (rootgc g) - length ?us) (rootgc g)"
  define g2 where "g2 = g1\<lparr>rootgc := ?front @ k, tmudata := tmudata g @ m\<rparr>"
  have e: "luaC_separateudata al g = Inr (d, g2)"
    unfolding luaC_separateudata_def Let_def g2_def using s(1) frame_fields [OF Q(1)] by simp
  have "mainthread g \<in> set (rootgc g) \<or> k = []"
  proof (cases "mainthread g \<in> set (rootgc g)")
    case False
    then have "?us = []" by (rule rest_after_notin)
    then show ?thesis using s(3) by simp
  qed simp
  then have ra: "rest_after (Some (mainthread g)) (?front @ k) = k" by (rule rest_after_front)
  have F: "mainthread g2 = mainthread g" "registry g2 = registry g" "mt g2 = mt g" "uvhead g2 = uvhead g" "tmname g2 = tmname g"
    "currentwhite g2 = currentwhite g" "tmudata g2 = tmudata g @ m" "rootgc g2 = ?front @ k"
    using frame_fields [OF Q(1)] by (simp_all add: g2_def)
  have h: "heap g2 = heap g1" by (simp add: g2_def)
  note H = conjunct1 [OF list_refs [OF h]] conjunct2 [OF list_refs [OF h]]
  have kk: "kindat g2 a = kindat g a" for a using same_kindat [OF H(1)] Q(2) by simp
  have rr: "refs g2 a = refs g1 a" for a using same_refs [OF H(1)] by simp
  have dd: "D g2 = D g" using same_D [OF H(1)] Q(10) by simp
  have vo: "vok (D g) g2 v = vok (D g) g v" for v by (simp add: vok_def kk)
  have oo: "ook (D g) g2 K os = ook (D g) g K os" for K os by (simp add: ook_def kk)
  have "roots_ok (D g2) g2"
    using T(1) us s(3) unfolding mok_def roots_ok_def dd F ra vo oo kk by (auto dest: kindat_D)
  moreover have "closed (D g2) g2" using same_closed [OF H(1), of "D g"] Q(9,10) dd by (simp add: mok_def)
  ultimately have o: "mok g2" using Q(9) H(2) by (simp add: mok_def)
  have L: "gray g2 = gray g" "grayagain g2 = grayagain g" "weak g2 = weak g" "nw g2 = nw g" "blk g2 = blk g"
    using Q(4-8) H(2) by (simp_all add: g2_def)
  note T1 = triD [OF q(1)]
  have "tri (set (tmudata g2)) g2"
    unfolding tri_def L F
  proof (intro conjI allI impI ballI)
    fix a
    assume "nw g a" "blk g a" "a \<notin> set (tmudata g @ m)"
    then show "refs g2 a \<subseteq> NW g" using T1(4) [of a] Q(4,5) rr by simp
  qed (use T o kk in auto)
  moreover have "grows g g2"
  proof -
    have "wk_ok g1 h \<Longrightarrow> wk_ok g2 h" for h using H h by (simp add: wk_ok_def)
    then show ?thesis using q(2) L F kk rr Q H unfolding grows_def upok_def wok_def gok_def by auto
  qed
  moreover have "set (tmudata g2) \<union> set (rest_after (Some (mainthread g)) (rootgc g2)) = set (tmudata g) \<union> set ?us"
    unfolding F ra using s(3) by auto
  ultimately show ?thesis using that e L(1) by blast
qed

lemma tri_mono: "tri E g \<Longrightarrow> E \<subseteq> E' \<Longrightarrow> tri E' g"
  unfolding tri_def by blast

lemma white_current: "currentwhite g AND WHITEBITS \<in> {1, 2} \<Longrightarrow> iswhite (currentwhite g)"
  by (auto simp: iswhite_def)

text \<open>A userdata that is marked once more, whatever its colour was.\<close>

lemma remade:
  assumes t: "tri E g" and k: "kindat g a = Some KUdata"
  obtains g' where "sbind (remark (makewhite g) a g) (reallymarkobject a) = Inr g'" "tri (E - {a}) g'" "grows g g'"
    "tmudata g' = tmudata g" "nw g' a"
proof -
  note T = triD [OF t]
  obtain x where x: "heap g a = Some x" using k by (auto simp: kindat_def)
  define g0 where "g0 = put_obj a (x\<lparr>marked := makewhite g (marked x)\<rparr>) g"
  have r: "remark (makewhite g) a g = Inr g0" unfolding g0_def by (rule remark_eq [OF x])
  have s: "same_bodies g g0" unfolding g0_def by (simp add: put_mark_same [OF x])
  have "sane g0" unfolding g0_def using T(1) by (intro sane_put) (simp_all add: mok_def)
  then have o: "mok g0" using mok_same [OF T(1) s] by (simp add: g0_def)
  have w: "iswhite (makewhite g (marked x))" using white_current [OF T(9)] by simp
  have x0: "heap g0 a = Some (x\<lparr>marked := makewhite g (marked x)\<rparr>)" by (simp add: g0_def)
  have "marker (reallymarkobject a) {a} g0"
    unfolding reallymarkobject_def numeral_3_eq_3
    by (rule reallymark_udata [OF o x0]) (use w k same_kindat [OF s] in simp_all)
  then obtain g' where g': "reallymarkobject a g0 = Inr g'" "marks {} g0 g'" "mok g'" "nw g' a" "same_bodies g0 g'"
    unfolding marker_def by blast
  obtain ns where ns: "gray g' = ns @ gray g0" "distinct ns" "\<forall>a \<in> set ns. \<not> nw g0 a \<and> nw g' a \<and> \<not> blk g' a \<and> kindat g0 a \<in> gray_kinds"
    "\<forall>a. nw g' a \<longrightarrow> \<not> nw g0 a \<longrightarrow> a \<in> set ns \<or> settled g' a" using g'(2) unfolding marks_def by blast
  note M = marksD [OF g'(2)]
  have n0: "\<not> nw g0 a" "\<And>b. b \<noteq> a \<Longrightarrow> nw g0 b = nw g b" "\<And>b. b \<noteq> a \<Longrightarrow> blk g0 b = blk g b" using w by (simp_all add: g0_def)
  have k0: "kindat g0 b = kindat g b" for b using same_kindat [OF s] .
  have an: "a \<notin> set ns" using ns(3) k0 k not_gray_kinds(3) by metis
  have "settled g' a" using ns(4) g'(4) n0(1) an by blast
  then have sa: "blk g' a \<and> refs g' a \<subseteq> NW g'" using k k0 M(2) by (auto simp: settled_def)
  have fr: "frame g' = frame g" using M(1) by (simp add: g0_def)
  have ls: "grayagain g' = grayagain g" "weak g' = weak g" "gray g' = ns @ gray g" using M(6,7) ns(1) by (simp_all add: g0_def)
  have 1: "nw g' b" if "nw g b" for b using that g'(4) M(4) [of b] n0 by (cases "b = a") auto
  have 2: "blk g' b = blk g b" if "b \<notin> {a}" "nw g b" for b using that M(5) [of b] n0 by auto
  have 3: "\<not> nw g b \<and> nw g' b \<and> \<not> blk g' b \<and> kindat g b \<in> gray_kinds" if "b \<in> set ns" for b
    using ns(3) that an n0 k0 by metis
  have 4: "b \<in> set ns \<or> settled g' b" if "b \<notin> {a}" "nw g' b" "\<not> nw g b" for b using ns(4) that n0 by auto
  have 5: "blk g' b \<and> kindat g b = Some KUdata \<and> refs g' b \<subseteq> NW g'" if "b \<in> {a}" for b using that sa k by simp
  note G = tri_marks_gen [OF t fr same_trans [OF s g'(5)] g'(3) 1 _ ls ns(2) 3, of "{a}"]
  have "tri (E - {a}) g'" by (rule G(1)) (use 2 4 5 in blast)+
  moreover have "grows g g'" by (rule G(2)) (use 2 4 5 in blast)+
  moreover have "sbind (remark (makewhite g) a g) (reallymarkobject a) = Inr g'" using r g'(1) by simp
  moreover have "tmudata g' = tmudata g" using frame_fields [OF fr] by simp
  ultimately show ?thesis using that g'(4) by blast
qed

lemma marktmu_spec:
  assumes t: "tri (set (tmudata g)) g"
  obtains g' where "marktmu g = Inr g'" "tri {} g'" "grows g g'" "tmudata g' = tmudata g" "set (tmudata g) \<subseteq> NW g'"
proof -
  have "\<exists>g'. each (\<lambda>a g. sbind (remark (makewhite g) a g) (reallymarkobject a)) us g = Inr g' \<and> tri {} g' \<and> grows g g' \<and> tmudata g' = tmudata g \<and> set us \<subseteq> NW g'"
    if "tri (set us) g" "\<forall>a \<in> set us. kindat g a = Some KUdata" for us g
    using that
  proof (induction us arbitrary: g)
    case Nil
    then show ?case using grows_refl by simp
  next
    case (Cons a us)
    obtain g1 where g1: "sbind (remark (makewhite g) a g) (reallymarkobject a) = Inr g1" "tri (set (a # us) - {a}) g1" "grows g g1" "tmudata g1 = tmudata g" "nw g1 a"
      using remade [OF Cons.prems(1), of a] Cons.prems(2) by auto
    have "tri (set us) g1" using g1(2) by (rule tri_mono) auto
    moreover have "\<forall>a \<in> set us. kindat g1 a = Some KUdata" using Cons.prems(2) g1(3) unfolding grows_def by simp
    ultimately obtain g2 where g2: "each (\<lambda>a g. sbind (remark (makewhite g) a g) (reallymarkobject a)) us g1 = Inr g2" "tri {} g2" "grows g1 g2" "tmudata g2 = tmudata g1" "set us \<subseteq> NW g2"
      using Cons.IH by blast
    have "nw g2 a" using g1(5) g2(3) by (simp add: grows_def)
    then show ?case using g1(1,4) g2 grows_trans [OF g1(3) g2(3)] by simp
  qed
  moreover have "\<forall>a \<in> set (tmudata g). kindat g a = Some KUdata" using triD(1) [OF t] by (simp add: mok_def roots_ok_def)
  ultimately show ?thesis using that t unfolding marktmu_def by blast
qed

section \<open>Clearing weak tables\<close>

text \<open>Only strings are marked, and nothing becomes gray.\<close>

definition cleared :: "gstate \<Rightarrow> gstate \<Rightarrow> bool" where
  "cleared g g' \<longleftrightarrow> adv {} g g' \<and> weak g' = weak g \<and> gray g' = gray g"

definition clears :: "gstate \<Rightarrow> gstate \<Rightarrow> bool" where
  "clears g g' \<longleftrightarrow> adv {} g g' \<and> weak g' = weak g \<and> gray g' = gray g \<and> same_bodies g g'"

lemma cleared_trans: "cleared g g' \<Longrightarrow> cleared g' g'' \<Longrightarrow> cleared g g''"
  unfolding cleared_def by (metis adv_trans)

lemma clears_trans: "clears g g' \<Longrightarrow> clears g' g'' \<Longrightarrow> clears g g''"
  unfolding clears_def by (metis adv_trans same_trans)

lemma clears_refl: "mok g \<Longrightarrow> clears g g"
  by (simp add: clears_def adv_refl)

lemma stringmark_clears:
  assumes g: "mok g" and k: "kindat g a = Some KString"
  obtains g' where "stringmark a g = Inr g'" "clears g g'" "nw g' a"
proof -
  obtain x where x: "heap g a = Some x" using k by (auto simp: kindat_def)
  have e: "stringmark a g = Inr (put_obj a (x\<lparr>marked := white2gray (marked x)\<rparr>) g)" unfolding stringmark_def by (rule remark_eq [OF x])
  obtain g' where g': "stringmark a g = Inr g'" "adv {} g g'" "{a} \<subseteq> NW g'" "weak g' = weak g" "same_bodies g g'"
    using markerE [OF stringmark_spec [OF g k]] by metis
  then show ?thesis using that e unfolding clears_def by auto
qed

lemma iscleared_spec:
  assumes g: "mok g" and v: "vok (D g) g v"
  obtains c g' where "iscleared v k g = Inr (c, g')" "clears g g'" "\<not> c \<Longrightarrow> vrefs v \<subseteq> NW g'"
proof (cases v)
  case (VRef a)
  obtain x where x: "heap g a = Some x" using v VRef by (auto simp: vok_def)
  show ?thesis
  proof (cases "\<exists>s. body x = BString s")
    case True
    then have "kindat g a = Some KString" using x by (auto simp: kindat_def)
    then obtain g' where "stringmark a g = Inr g'" "clears g g'" "nw g' a" using stringmark_clears [OF g] by metis
    then show ?thesis using that [of False g'] True VRef x by (auto simp: iscleared_def obj_def)
  next
    case False
    then have "\<exists>c. iscleared v k g = Inr (c, g) \<and> (\<not> c \<longrightarrow> \<not> iswhite (marked x))"
      using VRef x by (cases "body x") (simp_all add: iscleared_def obj_def)
    then show ?thesis using that clears_refl [OF g] VRef x by (auto simp: nw_def)
  qed
qed (use that [of False g] clears_refl [OF g] in \<open>simp_all add: iscleared_def\<close>)

lemma clears_vok: "clears g g' \<Longrightarrow> vok (D g) g v \<Longrightarrow> vok (D g') g' v"
  unfolding clears_def using advD(10) by blast

lemma clears_nw: "clears g g' \<Longrightarrow> NW g \<subseteq> NW g'"
  unfolding clears_def using advD(4) by blast

lemma clears_mok: "clears g g' \<Longrightarrow> mok g'"
  unfolding clears_def using advD(7) by blast

lemma clear_values_spec:
  assumes "mok g" "\<forall>v \<in> set vs. vok (D g) g v"
  obtains vs' g' where "clear_values vs g = Inr (vs', g')" "clears g g'" "\<forall>v \<in> set vs'. v = VNil \<or> v \<in> set vs" "vsrefs vs' \<subseteq> NW g'"
  using assms
proof (induction vs arbitrary: thesis)
  case Nil
  then show ?case using clears_refl by (simp add: vsrefs_def)
next
  case (Cons v vs)
  obtain vs' g1 where 1: "clear_values vs g = Inr (vs', g1)" "clears g g1" "\<forall>v \<in> set vs'. v = VNil \<or> v \<in> set vs" "vsrefs vs' \<subseteq> NW g1"
    using Cons.IH Cons.prems(2,3) by auto
  have v: "vok (D g1) g1 v" using clears_vok [OF 1(2)] Cons.prems(3) by simp
  obtain c g2 where 2: "iscleared v False g1 = Inr (c, g2)" "clears g1 g2" "\<not> c \<Longrightarrow> vrefs v \<subseteq> NW g2"
    using iscleared_spec [OF clears_mok [OF 1(2)] v] by metis
  show ?case
    by (rule Cons.prems(1) [of "(if c then VNil else v) # vs'" g2])
      (use 1 2 clears_trans [OF 1(2) 2(2)] clears_nw [OF 2(2)] in \<open>auto simp: vsrefs_def\<close>)
qed

lemma clear_node_spec:
  assumes g: "mok g" and n: "g_val n \<noteq> VNil \<Longrightarrow> vok (D g) g (key_value (g_key n)) \<and> vok (D g) g (g_val n)"
  obtains n' g' where "clear_node n g = Inr (n', g')" "clears g g'" "g_val n' = VNil \<or> n' = n" "noderefs n' \<subseteq> NW g'"
proof (cases "g_val n = VNil")
  case True
  then show ?thesis using that [of n g] clears_refl [OF g] by (simp add: clear_node_def noderefs_def)
next
  case False
  obtain c g1 where 1: "iscleared (key_value (g_key n)) True g = Inr (c, g1)" "clears g g1" "\<not> c \<Longrightarrow> vrefs (key_value (g_key n)) \<subseteq> NW g1"
    using iscleared_spec [OF g conjunct1 [OF n [OF False]]] by metis
  obtain c' g2 where 2: "iscleared (g_val n) False g1 = Inr (c', g2)" "clears g1 g2" "\<not> c' \<Longrightarrow> vrefs (g_val n) \<subseteq> NW g2"
    using iscleared_spec [OF clears_mok [OF 1(2)] clears_vok [OF 1(2) conjunct2 [OF n [OF False]]]] by metis
  let ?m = "removeentry (n\<lparr>g_val := VNil\<rparr>)"
  have m: "g_val ?m = VNil" "noderefs ?m = {}" by (simp_all add: removeentry_def noderefs_def)
  show ?thesis
  proof (cases c)
    case True
    then show ?thesis using that [of ?m g1] 1 m False by (simp add: clear_node_def)
  next
    case c: False
    show ?thesis
    proof (cases c')
      case True
      then show ?thesis using that [of ?m g2] 1 2 c m False clears_trans [OF 1(2) 2(2)] by (simp add: clear_node_def)
    next
      case False
      have "noderefs n \<subseteq> NW g2" using 1(3) [OF c] 2(3) [OF False] clears_nw [OF 2(2)] by (auto simp: noderefs_def)
      then show ?thesis using that [of n g2] 1 2 c False \<open>g_val n \<noteq> VNil\<close> clears_trans [OF 1(2) 2(2)] by (simp add: clear_node_def)
    qed
  qed
qed

lemma clear_nodes_spec:
  assumes "mok g" "\<forall>n \<in> set ns. g_val n \<noteq> VNil \<longrightarrow> vok (D g) g (key_value (g_key n)) \<and> vok (D g) g (g_val n)"
  obtains ns' g' where "clear_nodes ns g = Inr (ns', g')" "clears g g'" "\<forall>n \<in> set ns'. g_val n = VNil \<or> n \<in> set ns" "(\<Union>n \<in> set ns'. noderefs n) \<subseteq> NW g'"
  using assms
proof (induction ns arbitrary: thesis)
  case Nil
  then show ?case using clears_refl by simp
next
  case (Cons n ns)
  obtain ns' g1 where 1: "clear_nodes ns g = Inr (ns', g1)" "clears g g1" "\<forall>n \<in> set ns'. g_val n = VNil \<or> n \<in> set ns" "(\<Union>n \<in> set ns'. noderefs n) \<subseteq> NW g1"
    using Cons.IH Cons.prems(2,3) by auto
  have v: "g_val n \<noteq> VNil \<Longrightarrow> vok (D g1) g1 (key_value (g_key n)) \<and> vok (D g1) g1 (g_val n)" using clears_vok [OF 1(2)] Cons.prems(3) by simp
  obtain n' g2 where 2: "clear_node n g1 = Inr (n', g2)" "clears g1 g2" "g_val n' = VNil \<or> n' = n" "noderefs n' \<subseteq> NW g2"
    using clear_node_spec [OF clears_mok [OF 1(2)] v] by metis
  show ?case
    by (rule Cons.prems(1) [of "n' # ns'" g2])
      (use 1 2 clears_trans [OF 1(2) 2(2)] clears_nw [OF 2(2)] in auto)
qed

lemma clear_one_spec:
  assumes g: "mok g" and w: "wk_ok g h"
  obtains g' where "clear_one h g = Inr g'" "cleared g g'" "refs g' h \<subseteq> NW g'"
proof -
  obtain x t where x: "heap g h = Some x" "body x = BTable t" "set_option (tb_meta t) \<subseteq> NW g" "\<not> bit (marked x) 4 \<longrightarrow> vsrefs (tb_array t) \<subseteq> NW g"
    using w by (auto simp: wk_ok_def)
  have t: "wtb (D g) g (BTable t)" using mok_wtb [OF g x(1)] x(2) by simp
  have vw: "marked x AND VALUEWEAK \<noteq> 0 \<longleftrightarrow> bit (marked x) 4" by (simp only: bits_exp and_exp_eq_0_iff_not_bit not_not)
  obtain vs g1 where 1: "(if marked x AND VALUEWEAK \<noteq> 0 then clear_values (tb_array t) g else Inr (tb_array t, g)) = Inr (vs, g1)"
    "clears g g1" "\<forall>v \<in> set vs. v = VNil \<or> v \<in> set (tb_array t)" "vsrefs vs \<subseteq> NW g1"
  proof (cases "bit (marked x) 4")
    case True
    obtain vs g1 where "clear_values (tb_array t) g = Inr (vs, g1)" "clears g g1" "\<forall>v \<in> set vs. v = VNil \<or> v \<in> set (tb_array t)" "vsrefs vs \<subseteq> NW g1"
      using clear_values_spec [OF g, of "tb_array t"] t by auto
    then show ?thesis using that True vw by simp
  next
    case False
    then show ?thesis using that [of "tb_array t" g] vw x(4) clears_refl [OF g] by simp
  qed
  have "\<forall>n \<in> set (tb_nodes t). g_val n \<noteq> VNil \<longrightarrow> vok (D g1) g1 (key_value (g_key n)) \<and> vok (D g1) g1 (g_val n)"
    using t clears_vok [OF 1(2)] by simp
  then obtain ns g2 where 2: "clear_nodes (tb_nodes t) g1 = Inr (ns, g2)" "clears g1 g2" "\<forall>n \<in> set ns. g_val n = VNil \<or> n \<in> set (tb_nodes t)"
    "(\<Union>n \<in> set ns. noderefs n) \<subseteq> NW g2" using clear_nodes_spec [OF clears_mok [OF 1(2)]] by metis
  have c: "clears g g2" using 1(2) 2(2) by (rule clears_trans)
  have sb: "same_bodies g g2" using c by (simp add: clears_def)
  obtain y where y: "heap g2 h = Some y" "body y = BTable t" using same_body_at [OF sb x(1)] x(2) by auto
  let ?t = "t\<lparr>tb_array := vs, tb_nodes := ns\<rparr>"
  have sh: "shrunk t ?t" using 1(3) 2(3) by (simp add: shrunk_def)
  let ?h = "put_obj h (y\<lparr>body := BTable ?t\<rparr>) g2"
  note s = adv_table(1) [OF clears_mok [OF c] y sh] adv_table(2) [OF clears_mok [OF c] y sh, of "{}"] adv_table(3) [OF clears_mok [OF c] y sh]
  have e: "clear_one h g = Inr ?h"
    using x(1,2) 1(1) 2(1) s(1) by (simp add: clear_one_def obj_def)
  have "cleared g2 ?h" unfolding cleared_def using s(2,3) by simp
  then have cl: "cleared g ?h" using c cleared_trans unfolding clears_def cleared_def by blast
  have n: "NW g2 \<subseteq> NW ?h" using advD(4) [OF s(2)] by blast
  have "refs ?h h = brefs g (BTable ?t)" by (simp add: refs_def)
  also have "\<dots> = set_option (tb_meta t) \<union> vsrefs vs \<union> (\<Union>n \<in> set ns. noderefs n)" by simp
  also have "\<dots> \<subseteq> NW g2" using x(3) 1(4) 2(4) clears_nw [OF c] clears_nw [OF 2(2)] by blast
  also note n
  finally show ?thesis using that e cl by blast
qed

lemma cleared_refs: "cleared g g' \<Longrightarrow> refs g a \<subseteq> NW g \<Longrightarrow> refs g' a \<subseteq> NW g'"
  unfolding cleared_def using advD(3,4) by blast

text \<open>After all tables of the list have been cleared.\<close>

lemma cleartable_spec:
  assumes "mok g" "\<forall>h \<in> set hs. wk_ok g h"
  obtains g' where "cleartable hs g = Inr g'" "cleared g g'" "\<forall>h \<in> set hs. refs g' h \<subseteq> NW g'"
  using assms
proof (induction hs arbitrary: g thesis)
  case Nil
  then show ?case by (simp add: cleartable_def cleared_def adv_refl)
next
  case (Cons h hs)
  obtain g1 where 1: "clear_one h g = Inr g1" "cleared g g1" "refs g1 h \<subseteq> NW g1" using clear_one_spec [OF Cons.prems(2), of h] Cons.prems(3) by auto
  have a: "adv {} g g1" using 1(2) by (simp add: cleared_def)
  have "\<forall>h \<in> set hs. wk_ok g1 h" using wk_ok_adv [OF _ a] Cons.prems(3) by simp
  then obtain g2 where 2: "cleartable hs g1 = Inr g2" "cleared g1 g2" "\<forall>h \<in> set hs. refs g2 h \<subseteq> NW g2" using Cons.IH advD(7) [OF a] by blast
  show ?case
    by (rule Cons.prems(1) [of g2]) (use 1 2 cleared_trans [OF 1(2) 2(2)] cleared_refs [OF 2(2) 1(3)] in \<open>auto simp: cleartable_def\<close>)
qed

section \<open>The atomic phase\<close>

text \<open>The list of weak tables, or \<open>grayagain\<close>, becomes the gray list.\<close>

lemma relist_fields [simp]:
  "nw (g\<lparr>gray := xs, weak := ys\<rparr>) = nw g" "blk (g\<lparr>gray := xs, weak := ys\<rparr>) = blk g" "kindat (g\<lparr>gray := xs, weak := ys\<rparr>) = kindat g"
  "refs (g\<lparr>gray := xs, weak := ys\<rparr>) = refs g" "frame (g\<lparr>gray := xs, weak := ys\<rparr>) = frame g"
  "nw (g\<lparr>gray := xs, grayagain := ys\<rparr>) = nw g" "blk (g\<lparr>gray := xs, grayagain := ys\<rparr>) = blk g" "kindat (g\<lparr>gray := xs, grayagain := ys\<rparr>) = kindat g"
  "refs (g\<lparr>gray := xs, grayagain := ys\<rparr>) = refs g" "frame (g\<lparr>gray := xs, grayagain := ys\<rparr>) = frame g"
  using list_fields by (simp_all only: list_fields)

lemma mok_gray [simp]: "mok g \<Longrightarrow> mok (g\<lparr>gray := xs\<rparr>)"
proof -
  assume g: "mok g"
  then have "sane g" by (simp add: mok_def)
  then show ?thesis using mok_same [OF g, of "g\<lparr>gray := xs\<rparr>"] by simp
qed

lemma mok_lists [simp]: "mok g \<Longrightarrow> mok (g\<lparr>gray := xs, weak := ys\<rparr>)" "mok g \<Longrightarrow> mok (g\<lparr>gray := xs, grayagain := ys\<rparr>)"
proof -
  assume g: "mok g"
  have s: "sane g" using g by (simp add: mok_def)
  show "mok (g\<lparr>gray := xs, weak := ys\<rparr>)"
    by (rule mok_same [OF g]) (use s in \<open>simp_all add: same_bodies_def vweak_def sane_def\<close>)
  show "mok (g\<lparr>gray := xs, grayagain := ys\<rparr>)"
    by (rule mok_same [OF g]) (use s in \<open>simp_all add: same_bodies_def vweak_def sane_def\<close>)
qed

lemma wk_ok_heap: "heap g' = heap g \<Longrightarrow> wk_ok g' h = wk_ok g h"
  by (simp add: wk_ok_def nw_def)

lemma tri_relist:
  assumes t: "tri E g" and e: "frame h = frame g" "nw h = nw g" "blk h = blk g" "kindat h = kindat g" "refs h = refs g" "mok h"
    "lists h = lists g" "distinct (gray h @ grayagain h @ weak h)"
  shows "tri E h"
proof -
  have f: "uvhead h = uvhead g" "mainthread h = mainthread g" "registry h = registry g" "currentwhite h = currentwhite g"
    using frame_fields [OF e(1)] by simp_all
  show ?thesis using t e(6,8) unfolding tri_def e(2-5,7) f by blast
qed

lemma tri_weak:
  assumes t: "tri E g" and e: "gray g = []"
  shows "tri E (g\<lparr>gray := weak g, weak := []\<rparr>)" "grows g (g\<lparr>gray := weak g, weak := []\<rparr>)" "wok (g\<lparr>gray := weak g, weak := []\<rparr>)"
proof -
  have d: "distinct (gray g @ grayagain g @ weak g)" using triD(2) [OF t] .
  show "tri E (g\<lparr>gray := weak g, weak := []\<rparr>)"
    by (rule tri_relist [OF t]) (use d e triD(1) [OF t] in auto)
  show "grows g (g\<lparr>gray := weak g, weak := []\<rparr>)" "wok (g\<lparr>gray := weak g, weak := []\<rparr>)"
    by (simp_all add: grows_def upok_def wok_def gok_def)
qed

lemma tri_again:
  assumes t: "tri E g" and e: "gray g = []"
  shows "tri E (g\<lparr>gray := grayagain g, grayagain := []\<rparr>)" "grows g (g\<lparr>gray := grayagain g, grayagain := []\<rparr>)"
    "gok (g\<lparr>gray := grayagain g, grayagain := []\<rparr>)"
proof -
  have d: "distinct (gray g @ grayagain g @ weak g)" using triD(2) [OF t] .
  have "distinct (grayagain g @ [] @ weak g)" "set (grayagain g) \<union> {} \<union> set (weak g) = lists g" using d e by auto
  then show "tri E (g\<lparr>gray := grayagain g, grayagain := []\<rparr>)"
    by (intro tri_relist [OF t] mok_lists triD(1) [OF t]) simp_all
  show "grows g (g\<lparr>gray := grayagain g, grayagain := []\<rparr>)" "gok (g\<lparr>gray := grayagain g, grayagain := []\<rparr>)"
    by (simp_all add: grows_def upok_def wok_def gok_def wk_ok_heap [of "g\<lparr>gray := grayagain g, grayagain := []\<rparr>" g])
qed

text \<open>What can be reached, from the objects that the program can use directly and those with a finalizer to be called.\<close>

inductive reach :: "gstate \<Rightarrow> nat set \<Rightarrow> nat \<Rightarrow> bool" for g R where
  root: "a \<in> R \<Longrightarrow> reach g R a"
| step: "reach g R a \<Longrightarrow> b \<in> refs g a \<Longrightarrow> reach g R b"

definition roots :: "nat \<Rightarrow> gstate \<Rightarrow> nat set" where
  "roots L g = {mainthread g, L} \<union> vrefs (registry g) \<union> osrefs (mt g) \<union> set (tmudata g)"

lemma reach_closed: "reach g R a \<Longrightarrow> R \<subseteq> S \<Longrightarrow> (\<And>a. a \<in> S \<Longrightarrow> refs g a \<subseteq> S) \<Longrightarrow> a \<in> S"
  by (induction rule: reach.induct) blast+

lemma nw_not_dead: "\<not> iswhite m \<Longrightarrow> \<not> isdead g m"
proof -
  have "m AND otherwhite g AND WHITEBITS = otherwhite g AND (m AND WHITEBITS)" by (simp only: ac_simps)
  then show "\<not> iswhite m \<Longrightarrow> \<not> isdead g m" by (simp add: iswhite_def isdead_def)
qed

text \<open>When nothing is gray any more, and the tables of the list are cleared, everything that is marked refers to marked objects only.\<close>

lemma all_marked:
  assumes t: "tri {} g" and e: "gray g = []" and u: "upok g" "gok g" and c: "cleared g g'" "\<forall>h \<in> set (weak g). refs g' h \<subseteq> NW g'"
    and a: "nw g' a"
  shows "refs g' a \<subseteq> NW g'"
proof (cases "nw g a")
  case True
  note T = triD [OF t]
  have s: "kindat g a = Some KString \<Longrightarrow> refs g a = {}" for a by (auto simp: kindat_def refs_def kind_simps)
  have "refs g a \<subseteq> NW g \<or> a \<in> set (weak g)"
    using T(4,5) [OF True] e u True s [of a] unfolding upok_def gok_def by auto
  then show ?thesis using c cleared_refs by blast
next
  case False
  have m: "marks {} g (g'\<lparr>weak := weak g\<rparr>)" and "gray g' = gray g" using c(1) unfolding cleared_def adv_def by blast+
  then have "settled g' a" using a False unfolding marks_def by simp
  then show ?thesis by (auto simp: settled_def kindat_def refs_def kind_simps)
qed

lemma atomic_spec:
  assumes t: "tri (set (tmudata g)) g" and f: "finite (D g)" "card (D g) < n" and L: "L \<in> D g"
  obtains g' where "atomic n L g = Inr g'" "gcstate g' = GCSsweepstring" "currentwhite g' = otherwhite g" "D g' = D g"
    "\<And>a. kindat g' a = kindat g a" "\<And>a. nw g' a \<Longrightarrow> refs g' a \<subseteq> NW g'" "roots L g' \<subseteq> NW g'"
proof -
  let ?E = "set (tmudata g)"
  obtain g1 where 1: "remarkupvals g = Inr g1" "tri ?E g1" "grows g g1" "upok g1" using remarkupvals_spec [OF t] by metis
  have small: "finite (D h)" "todo h < n" if "tri E h" "grows g h" for E h
    using todo_bound [OF that(1)] f grows_D [OF that(2)] by simp_all
  obtain m2 g2 where 2: "propagateall n g1 = Inr (m2, g2)" "gray g2 = []" "tri ?E g2" "grows g1 g2"
    using propagateall_spec [OF 1(2) small [OF 1(2,3)]] .
  note G2 = grows_trans [OF 1(3) 2(4)]
  define g3 where "g3 = g2\<lparr>gray := weak g2, weak := []\<rparr>"
  note t3 = tri_weak [OF 2(3,2), folded g3_def]
  note G3 = grows_trans [OF G2 t3(2)]
  have "L \<in> D g3" using L grows_D [OF G3] by simp
  then obtain g4 where 4: "markobject L g3 = Inr g4" "tri ?E g4" "grows g3 g4" "{L} \<subseteq> NW g4"
    using tri_marker [OF t3(1) markobject_spec [OF triD(1) [OF t3(1)]]] by metis
  note G4 = grows_trans [OF G3 4(3)]
  have "ook (D g4) g4 {KTable} (mt g4)" using triD(1) [OF 4(2)] by (simp add: mok_def roots_ok_def)
  then have "marker (each markopt (mt g4)) (osrefs (mt g4)) g4" using each_markopt [OF triD(1) [OF 4(2)]] by blast
  then obtain g5 where 5: "each markopt (mt g4) g4 = Inr g5" "tri ?E g5" "grows g4 g5" "osrefs (mt g4) \<subseteq> NW g5"
    using tri_marker [OF 4(2)] by metis
  note G5 = grows_trans [OF G4 5(3)]
  obtain m6 g6 where 6: "propagateall n g5 = Inr (m6, g6)" "gray g6 = []" "tri ?E g6" "grows g5 g6"
    using propagateall_spec [OF 5(2) small [OF 5(2) G5]] .
  note G6 = grows_trans [OF G5 6(4)]
  define g7 where "g7 = g6\<lparr>gray := grayagain g6, grayagain := []\<rparr>"
  note t7 = tri_again [OF 6(3,2), folded g7_def]
  note G7 = grows_trans [OF G6 t7(2)]
  obtain m8 g8 where 8: "propagateall n g7 = Inr (m8, g8)" "gray g8 = []" "tri ?E g8" "grows g7 g8"
    using propagateall_spec [OF t7(1) small [OF t7(1) G7]] .
  note G8 = grows_trans [OF G7 8(4)]
  have "tri (set (tmudata g8)) g8" using 8(3) by (rule tri_mono) (use G8 in \<open>simp add: grows_def\<close>)
  then obtain ud g9 where 9: "luaC_separateudata False g8 = Inr (ud, g9)" "tri (set (tmudata g9)) g9" "grows g8 g9" "gray g9 = gray g8"
    using luaC_separateudata_spec [of g8 False] by metis
  note G9 = grows_trans [OF G8 9(3)]
  obtain g10 where 10: "marktmu g9 = Inr g10" "tri {} g10" "grows g9 g10" "tmudata g10 = tmudata g9" "set (tmudata g9) \<subseteq> NW g10"
    using marktmu_spec [OF 9(2)] .
  note G10 = grows_trans [OF G9 10(3)]
  obtain m g11 where 11: "propagateall n g10 = Inr (m, g11)" "gray g11 = []" "tri {} g11" "grows g10 g11" "tmudata g11 = tmudata g10"
    using propagateall_spec [OF 10(2) small [OF 10(2) G10]] .
  note G11 = grows_trans [OF G10 11(4)]
  note H9 = grows_trans [OF 10(3) 11(4)]
  note H8 = grows_trans [OF 9(3) H9]
  note H7 = grows_trans [OF 8(4) H8]
  note H5 = grows_trans [OF 6(4) grows_trans [OF t7(2) H7]]
  note H4 = grows_trans [OF 5(3) H5]
  note H3 = grows_trans [OF 4(3) H4]
  note H1 = grows_trans [OF 2(4) grows_trans [OF t3(2) H3]]
  have ok: "upok g11" "wok g11" "gok g11" using H1 H3 H7 1(4) t3(3) t7(3) unfolding grows_def by blast+
  obtain g12 where 12: "cleartable (weak g11) g11 = Inr g12" "cleared g11 g12" "\<forall>h \<in> set (weak g11). refs g12 h \<subseteq> NW g12"
    using cleartable_spec [OF triD(1) [OF 11(3)], of "weak g11"] ok(2) unfolding wok_def by blast
  define g' where "g' = g12\<lparr>currentwhite := otherwhite g12, sweepstrgc := 0, sweepgc := None, gcstate := GCSsweepstring,
           estimate := totalbytes g12 - of_nat (ud + m)\<rparr>"
  have at: "atomic n L g = Inr g'"
    unfolding atomic_def markmt_def g'_def
    by (simp only: 1(1) 2(1) g3_def [symmetric] 4(1) 5(1) 6(1) g7_def [symmetric] 8(1) 9(1) 10(1) 11(1) 12(1) sbind_Inr prod.case)
  have a: "adv {} g11 g12" using 12(2) by (simp add: cleared_def)
  have h: "heap g' = heap g12" by (simp add: g'_def)
  have nr: "nw g' = nw g12" "refs g' = refs g12" "kindat g' = kindat g12"
    using list_refs [OF h] same_refs [of g12 g'] same_kindat [of g12 g'] by (auto simp: fun_eq_iff)
  have F: "currentwhite g12 = currentwhite g" "mainthread g' = mainthread g11" "registry g' = registry g11" "mt g' = mt g11" "tmudata g' = tmudata g11"
    using frame_fields [OF advD(1) [OF a]] G11 unfolding g'_def grows_def by simp_all
  have am: "refs g12 b \<subseteq> NW g12" if "nw g12 b" for b using all_marked [OF 11(3,2) ok(1,3) 12(2,3) that] .
  have NW: "NW g11 \<subseteq> NW g12" using advD(4) [OF a] by blast
  have sub: "NW g4 \<subseteq> NW g11" "NW g5 \<subseteq> NW g11" "NW g10 \<subseteq> NW g11" using H4 H5 11(4) unfolding grows_def by blast+
  have "mt g11 = mt g4" using H4 unfolding grows_def by (elim conjE)
  then have R: "osrefs (mt g11) \<subseteq> NW g11" using 5(4) sub(2) by (simp only: order_trans)
  have "L \<in> NW g11" using 4(4) sub(1) by blast
  moreover have "set (tmudata g11) \<subseteq> NW g11" using 10(5) sub(3) unfolding 11(5) 10(4) by (rule order_trans)
  moreover have "mainthread g11 \<in> NW g11" using triD(7) [OF 11(3)] by (rule CollectI)
  ultimately have "roots L g' \<subseteq> NW g11"
    using triD(8) [OF 11(3)] R unfolding roots_def F by (simp only: Un_subset_iff insert_subset empty_subsetI simp_thms)
  then have r: "roots L g' \<subseteq> NW g'" using NW unfolding nr by (rule order_trans)
  show ?thesis
  proof (rule that [OF at])
    show "gcstate g' = GCSsweepstring" by (simp add: g'_def)
    show "currentwhite g' = otherwhite g" using F(1) by (simp add: g'_def otherwhite_def)
    show "D g' = D g" using grows_D [OF G11] advD(6) [OF a] h by simp
    show "kindat g' b = kindat g b" for b using G11 advD(2) [OF a] nr unfolding grows_def by simp
    show "refs g' b \<subseteq> NW g'" if "nw g' b" for b using am [of b] that nr by simp
  qed (rule r)
qed

end
