(* ===== verification/LGCProps.thy ===== *)
theory LGCProps
  imports LGCMark
begin

text \<open>
  Properties of the collector: the marking of the roots establishes the invariant of the mark phase, the barriers keep it,
  the atomic phase marks all that can be reached, and the sweep of a list of strings frees the dead ones.
\<close>

section \<open>A small heap\<close>

text \<open>
  The main thread, its table of globals, with a string in its array part, and a table that nothing refers to. The current white
  and the marks of the main thread are those that \<open>lua_newstate\<close> sets.
\<close>

definition small_thread :: gthread where
  "small_thread = \<lparr>th_gt = VRef 1, th_stack = [VNil, VNil], th_top = 1, th_citops = [1], th_size_ci = 8, th_open = []\<rparr>"

definition small_table :: "gvalue list \<Rightarrow> gtable" where
  "small_table vs = \<lparr>tb_meta = None, tb_array = vs, tb_nodes = [], tb_flags = 0\<rparr>"

definition small_heap :: gstate where
  "small_heap = \<lparr>heap = [0 \<mapsto> \<lparr>marked = 97, body = BThread small_thread\<rparr>, 1 \<mapsto> \<lparr>marked = 1, body = BTable (small_table [VRef 2])\<rparr>,
      2 \<mapsto> \<lparr>marked = 1, body = BString [65]\<rparr>, 3 \<mapsto> \<lparr>marked = 1, body = BTable (small_table [])\<rparr>],
    strt = [[], [2]], strt_nuse = 1, currentwhite = 33, gcstate = GCSpause, sweepstrgc = 0, rootgc = [3, 1, 0], sweepgc = None,
    gray = [], grayagain = [], weak = [], tmudata = [], gbuff_size = 0, GCthreshold = 0, totalbytes = 500, estimate = 0, gcdept = 0,
    gcpause = 200, gcstepmul = 200, registry = VRef 1, mainthread = 0, uvhead = [], mt = [None], tmname = [2, 2, 2, 2]\<rparr>"

section \<open>Writing to an object\<close>

definition mark_inv :: "gstate \<Rightarrow> bool" where
  "mark_inv g \<longleftrightarrow> tri (set (tmudata g)) g"

text \<open>The body of an object that is not a thread, nor an open upvalue, is changed.\<close>

lemma put_body:
  assumes g: "mok g" and x: "heap g a = Some x" and k: "kind_of b' = kind_of (body x)" "kind_of b' \<notin> {KThread, KOpenUv}" and w: "wtb (D g) g b'"
  defines "h \<equiv> put_obj a (x\<lparr>body := b'\<rparr>) g"
  shows "mok h" "nw h = nw g" "blk h = blk g" "kindat h = kindat g" "\<And>b. b \<noteq> a \<Longrightarrow> refs h b = refs g b" "refs h a = brefs g b'"
proof -
  show c: "nw h = nw g" "blk h = blk g" using x by (auto simp: nw_def blk_def h_def fun_eq_iff)
  show kk: "kindat h = kindat g" using x k by (auto simp: kindat_def h_def fun_eq_iff)
  have nt: "\<nexists>t. b' = BThread t" "\<nexists>t. body x = BThread t" using k by auto
  have th: "heap g th = Some y \<and> body y = BThread t \<longleftrightarrow> heap h th = Some y \<and> body y = BThread t" for th y t
    using nt x by (auto simp: h_def)
  have sl: "slot h th i = slot g th i" for th i
  proof (cases "\<exists>y t. heap g th = Some y \<and> body y = BThread t")
    case True
    then obtain y t where y: "heap g th = Some y" "body y = BThread t" by blast
    then have "heap h th = Some y" using th by blast
    then show ?thesis using slot_thread [OF y] slot_thread [of h th y t] y(2) by simp
  next
    case False
    then have "\<nexists>t y. heap g th = Some y \<and> body y = BThread t" "\<nexists>t y. heap h th = Some y \<and> body y = BThread t" using th by blast+
    then show ?thesis using slot_none by metis
  qed
  have br: "brefs h b = brefs g b" for b by (cases "(g, b)" rule: brefs.cases) (simp_all add: sl)
  have vo: "vok S h v = vok S g v" and oo: "ook S h K os = ook S g K os" for S v K os by (simp_all add: vok_def ook_def kk)
  have wt: "wtb S h b = wtb S g b" for S b
  proof (cases "(S, g, b)" rule: wtb.cases)
    case (4 S' g0 th' i)
    have "(\<exists>x t. heap h th' = Some x \<and> body x = BThread t \<and> i < th_top t \<and> th_top t < length (th_stack t))
        = (\<exists>x t. heap g th' = Some x \<and> body x = BThread t \<and> i < th_top t \<and> th_top t < length (th_stack t))" using th by blast
    then show ?thesis using 4 by (simp add: vo sl)
  qed (simp_all add: vo oo)
  have dd: "D h = D g" using x by (auto simp: h_def)
  have "closed (D g) h"
    unfolding closed_def
  proof
    fix c
    assume "c \<in> D g"
    then obtain y where y: "heap g c = Some y" by blast
    show "\<exists>y. heap h c = Some y \<and> wtb (D g) h (body y)"
      using mok_wtb [OF g y] y w wt by (cases "c = a") (simp_all add: h_def)
  qed
  moreover have "sane h" using g x unfolding h_def by (intro sane_put) (auto simp: mok_def sane_def)
  moreover have "frame h = frame g" by (simp add: h_def)
  ultimately show "mok h" using g dd roots_frame [of h g "D g"] kk by (simp add: mok_def)
  show "refs h b = refs g b" if "b \<noteq> a" for b
  proof (cases "heap g b")
    case (Some y)
    then have "heap h b = Some y" using that by (simp add: h_def)
    then show ?thesis using Some br by (simp add: refs_def)
  qed (use that in \<open>simp add: refs_def h_def\<close>)
  show "refs h a = brefs g b'" using br by (simp add: refs_def h_def)
qed

text \<open>The object that is written is an exception until its barrier.\<close>

lemma tri_put:
  assumes t: "tri E g" and x: "heap g a = Some x" and k: "kind_of b' = kind_of (body x)" "kind_of b' \<notin> {KThread, KOpenUv}" and w: "wtb (D g) g b'"
  shows "tri (insert a E) (put_obj a (x\<lparr>body := b'\<rparr>) g)"
proof -
  note T = triD [OF t] and P = put_body [OF triD(1) [OF t] x k w]
  let ?h = "put_obj a (x\<lparr>body := b'\<rparr>) g"
  have f: "uvhead ?h = uvhead g" "mainthread ?h = mainthread g" "registry ?h = registry g" "currentwhite ?h = currentwhite g"
    "gray ?h = gray g" "grayagain ?h = grayagain g" "weak ?h = weak g" by (simp_all add: put_obj_def)
  show ?thesis
    unfolding tri_def P(2-4) f
  proof (intro conjI allI impI ballI)
    show "refs ?h b \<subseteq> NW g" if "nw g b" "blk g b" "b \<notin> insert a E" for b using T(4) [of b] P(5) [of b] that by simp
  qed (use T P(1) in auto)
qed

lemma tri_drop: "tri (insert a E) g \<Longrightarrow> (blk g a \<Longrightarrow> refs g a \<subseteq> NW g) \<Longrightarrow> tri E g"
  unfolding tri_def by blast

lemma tri_back:
  assumes t: "tri (insert a E) g" and x: "heap g a = Some x" and b: "blk g a" and k: "kindat g a \<in> gray_kinds"
  obtains g' where "luaC_barrierback a g = Inr g'" "tri E g'" "tmudata g' = tmudata g"
proof -
  note T = triD [OF t]
  let ?h = "put_obj a (x\<lparr>marked := black2gray (marked x)\<rparr>) g"
  define g' where "g' = ?h\<lparr>grayagain := a # grayagain ?h\<rparr>"
  have na: "nw g a" using blk_nw [OF T(1) b] .
  have s: "same_bodies g ?h" by (simp add: put_mark_same [OF x])
  have c: "nw ?h = nw g" "\<And>b. blk ?h b = (b \<noteq> a \<and> blk g b)" using x by (auto simp: nw_def fun_eq_iff)
  have "sane ?h" using T(1) na x by (intro sane_put) (auto simp: mok_def nw_def)
  then have o: "mok ?h" using mok_same [OF T(1) s] by simp
  have "same_bodies ?h g'" "sane g'" using o by (simp_all add: g'_def mok_def)
  then have o': "mok g'" using mok_same [OF o] by (simp add: g'_def)
  have L: "a \<notin> lists g" using T(3) [of a] b by blast
  have kk: "kindat g' = kindat g" "refs g' = refs g" "nw g' = nw g" "blk g' = blk ?h"
    using same_kindat [OF s] same_refs [OF s] c by (auto simp: g'_def fun_eq_iff)
  have f: "uvhead g' = uvhead g" "mainthread g' = mainthread g" "registry g' = registry g" "currentwhite g' = currentwhite g"
    "gray g' = gray g" "grayagain g' = a # grayagain g" "weak g' = weak g" by (simp_all add: g'_def put_obj_def)
  have "tri E g'"
    unfolding tri_def kk f c
  proof (intro conjI allI impI ballI)
    show "distinct (gray g @ (a # grayagain g) @ weak g)" using T(2) L by auto
    show "nw g c" "\<not> (c \<noteq> a \<and> blk g c)" "kindat g c \<in> gray_kinds" if "c \<in> set (gray g) \<union> set (a # grayagain g) \<union> set (weak g)" for c
      using that T(3) [of c] na k by auto
    show "refs g c \<subseteq> NW g" if "nw g c" "c \<noteq> a \<and> blk g c" "c \<notin> E" for c using T(4) [of c] that by blast
    show "kindat g c \<in> {Some KString, Some KOpenUv} \<or> c \<in> set (gray g) \<union> set (a # grayagain g) \<union> set (weak g)"
      if "nw g c" "\<not> (c \<noteq> a \<and> blk g c)" for c using that T(5) [of c] by auto
    show "c \<in> set (uvhead g)" "\<not> (c \<noteq> a \<and> blk g c)" if "kindat g c = Some KOpenUv" for c using T(6) [OF that] by blast+
  qed (use T(7-9) o' in auto)
  moreover have "luaC_barrierback a g = Inr g'" by (simp add: luaC_barrierback_def remark_eq [OF x] g'_def)
  moreover have "tmudata g' = tmudata g" by (simp add: g'_def put_obj_def)
  ultimately show ?thesis using that by blast
qed

lemma set_body_put: "heap g a = Some x \<Longrightarrow> set_body b a g = Inr (put_obj a (x\<lparr>body := b\<rparr>) g)"
  by (rule set_body_eq)

text \<open>The backward barrier, of tables.\<close>

lemma barriert_spec:
  assumes t: "tri (insert a E) g" and x: "heap g a = Some x" and k: "kindat g a \<in> gray_kinds" and v: "vok (D g) g v"
    and r: "blk g a \<Longrightarrow> vrefs v \<subseteq> NW g \<Longrightarrow> refs g a \<subseteq> NW g"
  obtains g' where "luaC_barriert a v g = Inr g'" "tri E g'" "tmudata g' = tmudata g"
proof (cases "\<exists>b y. v = VRef b \<and> heap g b = Some y \<and> iswhite (marked y) \<and> blk g a")
  case True
  then obtain b y where y: "v = VRef b" "heap g b = Some y" "iswhite (marked y)" "blk g a" by blast
  then have "luaC_barriert a v g = luaC_barrierback a g" using x by (simp add: luaC_barriert_def luaC_objbarriert_def obj_def blk_def)
  then show ?thesis using tri_back [OF t x y(4) k] that by metis
next
  case False
  have "luaC_barriert a v g = Inr g" and "blk g a \<Longrightarrow> vrefs v \<subseteq> NW g"
    using False x v by (cases v; auto simp: luaC_barriert_def luaC_objbarriert_def obj_def blk_def vok_def nw_def)+
  then show ?thesis using that tri_drop [OF t] r by blast
qed

text \<open>The forward barrier.\<close>

lemma barrier_spec:
  assumes t: "tri (insert a E) g" and x: "heap g a = Some x" and p: "gcstate g = GCSpropagate" and v: "vok (D g) g v"
    and r: "blk g a \<Longrightarrow> refs g a \<subseteq> NW g \<union> vrefs v"
  obtains g' where "luaC_barrier a v g = Inr g'" "tri E g'" "tmudata g' = tmudata g"
proof (cases "\<exists>b y. v = VRef b \<and> heap g b = Some y \<and> iswhite (marked y) \<and> blk g a")
  case True
  then obtain b y where y: "v = VRef b" "heap g b = Some y" "iswhite (marked y)" "blk g a" by blast
  then have e: "luaC_barrier a v g = markobject b g"
    using x p by (simp add: luaC_barrier_def luaC_objbarrier_def luaC_barrierf_def markobject_def obj_def blk_def)
  have "b \<in> D g" using y(2) by blast
  then obtain g' where g': "markobject b g = Inr g'" "tri (insert a E) g'" "{b} \<subseteq> NW g'" "marks {} g g'"
    using tri_marker [OF t markobject_spec [OF triD(1) [OF t]]] by metis
  have n: "NW g \<subseteq> NW g'" using marksD(4) [OF g'(4)] by blast
  have "refs g' a \<subseteq> NW g'" using marksD(3) [OF g'(4), of a] r [OF y(4)] n g'(3) y(1) by auto
  then show ?thesis using that e g'(1) tri_drop [OF g'(2)] frame_fields [OF marksD(1) [OF g'(4)]] by simp
next
  case False
  have "luaC_barrier a v g = Inr g" and "blk g a \<Longrightarrow> vrefs v \<subseteq> NW g"
    using False x v by (cases v; auto simp: luaC_barrier_def luaC_objbarrier_def obj_def blk_def vok_def nw_def)+
  then show ?thesis using that tri_drop [OF t] r by blast
qed

lemma put_refs:
  assumes t: "tri E g" and x: "heap g a = Some x" and e: "a \<notin> E" and k: "kind_of b' = kind_of (body x)" "kind_of b' \<notin> {KThread, KOpenUv}"
    and w: "wtb (D g) g b'" and r: "brefs g b' \<subseteq> brefs g (body x) \<union> V" and b: "blk g a"
  shows "refs (put_obj a (x\<lparr>body := b'\<rparr>) g) a \<subseteq> NW g \<union> V"
proof -
  note P = put_body [OF triD(1) [OF t] x k w]
  have "refs g a \<subseteq> NW g" using triD(4) [OF t, of a] e blk_nw [OF triD(1) [OF t] b] b by blast
  then show ?thesis using P(6) r refs_at [OF x] by auto
qed

text \<open>
  C20: after a write to a table, with the backward barrier that follows it (\<open>luaC_objbarriert\<close>), no black object refers to a
  white one: the table is gray again when it was black and the value white. This holds in every phase of the marking.
\<close>

theorem table_write_keeps_mark_inv:
  assumes "mark_inv g" "heap g a = Some x" "body x = BTable t" "wtb (D g) g (BTable t')" "vok (D g) g v"
    and "brefs g (BTable t') \<subseteq> brefs g (BTable t) \<union> vrefs v"
  shows "\<exists>g'. sbind (set_body (BTable t') a g) (luaC_barriert a v) = Inr g' \<and> mark_inv g'"
proof -
  let ?E = "set (tmudata g)" and ?h = "put_obj a (x\<lparr>body := BTable t'\<rparr>) g"
  have t: "tri ?E g" using assms(1) by (simp add: mark_inv_def)
  have k: "kind_of (BTable t') = kind_of (body x)" "kind_of (BTable t') \<notin> {KThread, KOpenUv}" using assms(3) by simp_all
  note P = put_body [OF triD(1) [OF t] assms(2) k assms(4)]
  have "kindat g a = Some KTable" using assms(2,3) by (simp add: kindat_def)
  then have ka: "kindat ?h a \<in> gray_kinds" "a \<notin> ?E" using P(4) triD(1) [OF t] by (auto simp: gray_kinds_def mok_def roots_ok_def)
  have v: "vok (D ?h) ?h v" using assms(2,5) P(4) by (auto simp: vok_def)
  obtain g' where g': "luaC_barriert a v ?h = Inr g'" "tri ?E g'" "tmudata g' = tmudata ?h"
  proof (rule barriert_spec [OF tri_put [OF t assms(2) k assms(4)] _ ka(1) v])
    show "heap ?h a = Some (x\<lparr>body := BTable t'\<rparr>)" by simp
    show "refs ?h a \<subseteq> NW ?h" if "blk ?h a" "vrefs v \<subseteq> NW ?h"
      using put_refs [OF t assms(2) ka(2) k assms(4) _ , of "vrefs v"] assms(3,6) that P(2,3) by auto
  qed (rule that)
  have "tmudata ?h = tmudata g" by (simp add: put_obj_def)
  then show ?thesis using set_body_eq [OF assms(2)] g' by (simp add: mark_inv_def)
qed

text \<open>
  C21: after a write to an object that is not a thread (a closure, a closed upvalue, a userdata, a prototype or a table), with
  the forward barrier that follows it (\<open>luaC_objbarrier\<close>), no black object refers to a white one while marking goes on.
\<close>

theorem write_keeps_mark_inv:
  assumes "mark_inv g" "gcstate g = GCSpropagate" "heap g a = Some x" "a \<notin> set (tmudata g)"
    and "kind_of b' = kind_of (body x)" "kind_of b' \<notin> {KThread, KOpenUv}" "wtb (D g) g b'" "vok (D g) g v"
    and "brefs g b' \<subseteq> brefs g (body x) \<union> vrefs v"
  shows "\<exists>g'. sbind (set_body b' a g) (luaC_barrier a v) = Inr g' \<and> mark_inv g'"
proof -
  let ?E = "set (tmudata g)" and ?h = "put_obj a (x\<lparr>body := b'\<rparr>) g"
  have t: "tri ?E g" using assms(1) by (simp add: mark_inv_def)
  note P = put_body [OF triD(1) [OF t] assms(3,5-7)]
  have v: "vok (D ?h) ?h v" using assms(3,8) P(4) by (auto simp: vok_def)
  obtain g' where g': "luaC_barrier a v ?h = Inr g'" "tri ?E g'" "tmudata g' = tmudata ?h"
  proof (rule barrier_spec [OF tri_put [OF t assms(3,5-7)] _ _ v])
    show "heap ?h a = Some (x\<lparr>body := b'\<rparr>)" by simp
    show "gcstate ?h = GCSpropagate" using assms(2) by (simp add: put_obj_def)
    show "refs ?h a \<subseteq> NW ?h \<union> vrefs v" if "blk ?h a"
      using put_refs [OF t assms(3,4-7,9)] that P(2,3) by simp
  qed (rule that)
  have "tmudata ?h = tmudata g" by (simp add: put_obj_def)
  then show ?thesis using set_body_eq [OF assms(3)] g' by (simp add: mark_inv_def)
qed

text \<open>Traversing one gray object always succeeds and keeps the invariant of the mark phase.\<close>

theorem propagatemark_keeps_mark_inv:
  assumes "mark_inv g" "gray g \<noteq> []"
  shows "\<exists>m g'. propagatemark g = Inr (m, g') \<and> mark_inv g' \<and> NW g \<subseteq> NW g'"
proof -
  obtain a rest where gr: "gray g = a # rest" using assms(2) by (cases "gray g") auto
  have t: "tri (set (tmudata g)) g" using assms(1) by (simp add: mark_inv_def)
  have a: "nw g a" "kindat g a \<in> gray_kinds" using triD(3) [OF t, of a] gr by auto
  obtain m ns g' where p: "propagatemark g = Inr (m, g')" "stepped a rest ns g g'" using propagatemark_spec [OF triD(1) [OF t] gr a] .
  have "tmudata g' = tmudata g" using p(2) frame_fields [of g' g] unfolding stepped_def by blast
  moreover have "NW g \<subseteq> NW g'" using p(2) unfolding stepped_def by blast
  ultimately show ?thesis using p(1) tri_stepped(1) [OF t gr p(2)] by (simp add: mark_inv_def)
qed

section \<open>The roots\<close>

text \<open>The heap before a cycle: everything is white, but for the userdata whose finalizers have still to be called.\<close>

definition idle :: "gstate \<Rightarrow> bool" where
  "idle g \<longleftrightarrow> mok g \<and> (\<forall>a. nw g a \<longrightarrow> a \<in> set (tmudata g) \<and> blk g a) \<and> (\<forall>a. kindat g a = Some KOpenUv \<longrightarrow> a \<in> set (uvhead g))
    \<and> currentwhite g AND WHITEBITS \<in> {1, 2}"

lemma tri_start:
  assumes i: "idle g" and l: "gray g = []" "grayagain g = []" "weak g = []" and m: "marks {} g g'" "mok g'"
    and r: "nw g' (mainthread g)" "vrefs (registry g) \<subseteq> NW g'"
  shows "tri (set (tmudata g')) g'"
proof -
  obtain ns where ns: "gray g' = ns @ gray g" "distinct ns" "\<forall>a \<in> set ns. \<not> nw g a \<and> nw g' a \<and> \<not> blk g' a \<and> kindat g a \<in> gray_kinds"
    "\<forall>a. nw g' a \<longrightarrow> \<not> nw g a \<longrightarrow> a \<in> set ns \<or> settled g' a" using m(1) unfolding marks_def by blast
  note M = marksD [OF m(1)]
  have F: "uvhead g' = uvhead g" "mainthread g' = mainthread g" "registry g' = registry g" "currentwhite g' = currentwhite g" "tmudata g' = tmudata g"
    using frame_fields [OF M(1)] by simp_all
  have I: "mok g" "\<And>a. nw g a \<Longrightarrow> a \<in> set (tmudata g) \<and> blk g a" "\<And>a. kindat g a = Some KOpenUv \<Longrightarrow> a \<in> set (uvhead g)" "currentwhite g AND WHITEBITS \<in> {1, 2}"
    using i unfolding idle_def by blast+
  show ?thesis
    unfolding tri_def F
  proof (intro conjI allI impI ballI)
    show "distinct (gray g' @ grayagain g' @ weak g')" using ns l M(6,7) by simp
    fix b
    assume "b \<in> lists g'"
    then have "b \<in> set ns" using ns(1) l M(6,7) by simp
    then show "nw g' b" "\<not> blk g' b" "kindat g' b \<in> gray_kinds" using ns(3) M(2) by simp_all
  next
    fix b
    assume b: "nw g' b" "blk g' b" "b \<notin> set (tmudata g)"
    then have "\<not> nw g b" using I(2) by blast
    then show "refs g' b \<subseteq> NW g'" using ns(3,4) b by (auto simp: settled_def)
  next
    fix b
    assume b: "nw g' b" "\<not> blk g' b"
    then have "\<not> nw g b" using I(2) M(5) by blast
    then show "kindat g' b \<in> {Some KString, Some KOpenUv} \<or> b \<in> lists g'" using ns(1,4) b by (auto simp: settled_def)
  next
    fix b
    assume b: "kindat g' b = Some KOpenUv"
    then show "b \<in> set (uvhead g)" using I(3) M(2) by simp
    have "b \<notin> set (tmudata g)" using I(1) b M(2) by (auto simp: mok_def roots_ok_def)
    then have nb: "\<not> nw g b" using I(2) by blast
    have nn: "b \<notin> set ns" using ns(3) b M(2) not_gray_kinds(2) by metis
    show "\<not> blk g' b"
    proof
      assume bb: "blk g' b"
      then have "settled g' b" using ns(4) nb nn blk_nw [OF m(2)] by blast
      then show False using b bb by (auto simp: settled_def)
    qed
  qed (use m(2) r I(4) in auto)
qed

lemma markroot_spec:
  assumes "idle g"
  shows "\<exists>g'. markroot g = Inr g' \<and> mark_inv g' \<and> gcstate g' = GCSpropagate"
proof -
  let ?g = "g\<lparr>gray := [], grayagain := [], weak := []\<rparr>"
  have I: "mok g" using assms by (simp add: idle_def)
  have sg: "sane g" using I by (simp add: mok_def)
  have s: "same_bodies g ?g" by (simp add: same_bodies_def vweak_def)
  have fr: "frame ?g = frame g" by (simp add: frame_def)
  have o: "mok ?g" by (rule mok_same [OF I s fr]) (use sg in \<open>simp add: sane_def\<close>)
  have c: "nw ?g = nw g" "blk ?g = blk g" "kindat ?g = kindat g" by (auto simp: nw_def blk_def kindat_def)
  have i: "idle ?g" using assms o unfolding idle_def c by simp
  define M where "M = mainthread ?g"
  have R: "M \<in> D ?g" "kindat ?g M = Some KThread" "vok (D ?g) ?g (registry ?g)" "ook (D ?g) ?g {KTable} (mt ?g)"
    using o unfolding M_def mok_def roots_ok_def by blast+
  obtain g1 where 1: "markobject M ?g = Inr g1" "marks {} ?g g1" "mok g1" "{M} \<subseteq> NW g1" "same_bodies ?g g1"
    using markobject_spec [OF o R(1)] unfolding marker_def by blast
  obtain x t where x: "heap g1 M = Some x" "body x = BThread t"
    using R(2) same_kindat [OF 1(5), of M] by (auto simp: kindat_def kind_simps)
  have w: "vok (D g1) g1 (th_gt t)" using mok_wtb [OF 1(3) x(1)] x(2) by simp
  obtain g2 where 2: "markvalue (th_gt t) g1 = Inr g2" "marks {} g1 g2" "mok g2" "same_bodies g1 g2"
    using markvalue_spec [OF 1(3) w] unfolding marker_def by blast
  have m2: "marks {} ?g g2" using 1(2) 2(2) by (rule marks_trans)
  have "vok (D g2) g2 (registry ?g)" using R(3) marks_vok [OF m2] by blast
  then obtain g3 where 3: "markvalue (registry ?g) g2 = Inr g3" "marks {} g2 g3" "mok g3" "vrefs (registry ?g) \<subseteq> NW g3"
    using markvalue_spec [OF 2(3)] unfolding marker_def by blast
  have m3: "marks {} ?g g3" using m2 3(2) by (rule marks_trans)
  have "ook (D g3) g3 {KTable} (mt ?g)" using R(4) marks_ook [OF m3] by blast
  then obtain g4 where 4: "each markopt (mt ?g) g3 = Inr g4" "marks {} g3 g4" "mok g4"
    using each_markopt [OF 3(3)] unfolding marker_def by blast
  have m4: "marks {} ?g g4" using m3 4(2) by (rule marks_trans)
  have "nw g4 (mainthread ?g)" "vrefs (registry ?g) \<subseteq> NW g4"
    using 1(4) 3(4) marksD(4) [OF 2(2)] marksD(4) [OF 3(2)] marksD(4) [OF 4(2)] unfolding M_def by blast+
  then have t4: "tri (set (tmudata g4)) g4" using tri_start [OF i _ _ _ m4 4(3)] by simp
  define g' where "g' = g4\<lparr>gcstate := GCSpropagate\<rparr>"
  have F: "mainthread g1 = M" "registry g2 = registry ?g" "mt g3 = mt ?g"
    using frame_fields [OF marksD(1) [OF 1(2)]] frame_fields [OF marksD(1) [OF m2]] frame_fields [OF marksD(1) [OF m3]]
    by (simp_all add: M_def)
  have M: "mainthread g = M" by (simp add: M_def)
  have "markroot g = Inr g'"
    using x unfolding markroot_def markmt_def g'_def M
    by (simp only: 1(1) F as_thread_def obj_def option.case gcbody.case sbind_Inr 2(1) 3(1) 4(1))
  moreover have "mark_inv g'"
  proof -
    have h: "heap g' = heap g4" by (simp add: g'_def)
    note L = list_refs [OF h]
    have sb: "same_bodies g4 g'" using L by blast
    have kr: "kindat g' = kindat g4" "refs g' = refs g4" using same_kindat [OF sb] same_refs [OF sb] by (auto simp: fun_eq_iff)
    have f: "uvhead g' = uvhead g4" "mainthread g' = mainthread g4" "registry g' = registry g4" "currentwhite g' = currentwhite g4"
      "gray g' = gray g4" "grayagain g' = grayagain g4" "weak g' = weak g4" "tmudata g' = tmudata g4" by (simp_all add: g'_def)
    have "roots_ok (D g') g' = roots_ok (D g4) g4"
      unfolding roots_ok_def vok_def ook_def kr h by (simp add: g'_def)
    then have o': "mok g'" using 4(3) same_closed [OF sb, of "D g4"] L h unfolding mok_def by simp
    show ?thesis using t4 o' unfolding mark_inv_def tri_def kr f conjunct1 [OF conjunct2 [OF L]] conjunct1 [OF conjunct2 [OF conjunct2 [OF L]]] by simp
  qed
  moreover have "gcstate g' = GCSpropagate" by (simp add: g'_def)
  ultimately show ?thesis by blast
qed

text \<open>
  C19: marking the roots of a heap where everything is white succeeds, and establishes the invariant of the mark phase: no black
  object refers to a white one, and every object that is gray is in just one of the lists.
\<close>

theorem markroot_establishes_mark_inv:
  assumes "idle g"
  shows "\<exists>g'. markroot g = Inr g' \<and> mark_inv g' \<and> gcstate g' = GCSpropagate"
  using assms by (rule markroot_spec)

text \<open>
  C22: the atomic phase ends with enough fuel, faults nowhere, frees nothing and turns to the sweep with the other white; after it,
  no object that can be reached from the main thread, the running thread, the registry, the metatables of the basic types or
  the userdata with a finalizer to call is dead, so that the sweep keeps it.
\<close>

theorem atomic_marks_reachable:
  assumes "mark_inv g" "finite (D g)" "card (D g) < n" "L \<in> D g"
  shows "\<exists>g'. atomic n L g = Inr g' \<and> gcstate g' = GCSsweepstring \<and> currentwhite g' = otherwhite g \<and> D g' = D g
    \<and> (\<forall>a. reach g' (roots L g') a \<longrightarrow> (\<exists>x. heap g' a = Some x \<and> \<not> isdead g' (marked x)))"
proof -
  obtain g' where g': "atomic n L g = Inr g'" "gcstate g' = GCSsweepstring" "currentwhite g' = otherwhite g" "D g' = D g"
    "\<And>a. nw g' a \<Longrightarrow> refs g' a \<subseteq> NW g'" "roots L g' \<subseteq> NW g'"
    using atomic_spec [OF assms(1) [unfolded mark_inv_def] assms(2-4)] by metis
  have "nw g' a" if "reach g' (roots L g') a" for a using reach_closed [OF that g'(6)] g'(5) by blast
  then have "\<exists>x. heap g' a = Some x \<and> \<not> isdead g' (marked x)" if "reach g' (roots L g') a" for a
    using that nw_not_dead by (fastforce simp: nw_def split: option.splits)
  then show ?thesis using g'(1-4) by blast
qed

section \<open>The small heap\<close>

text \<open>The same, with the roots marked and the table traversed.\<close>

definition marked_heap :: gstate where
  "marked_heap = small_heap\<lparr>heap := [0 \<mapsto> \<lparr>marked = 96, body = BThread small_thread\<rparr>, 1 \<mapsto> \<lparr>marked = 4, body = BTable (small_table [VRef 2])\<rparr>,
      2 \<mapsto> \<lparr>marked = 0, body = BString [65]\<rparr>, 3 \<mapsto> \<lparr>marked = 1, body = BTable (small_table [])\<rparr>], gray := [0], gcstate := GCSpropagate\<rparr>"

lemmas small_defs = small_heap_def marked_heap_def small_thread_def small_table_def

lemma small_closed: "closed {0, 1, 2, 3} small_heap" "closed {0, 1, 2, 3} marked_heap"
  by (simp_all add: closed_def small_defs vok_def ook_def osrefs_def kindat_def value_kinds_def)

lemma small_dom: "D small_heap = {0, 1, 2, 3}" "D marked_heap = {0, 1, 2, 3}"
  by (auto simp: small_defs)

lemma small_mok: "mok small_heap" "mok marked_heap"
  unfolding mok_def small_dom
  using small_closed by (simp_all add: roots_ok_def sane_def small_defs vok_def ook_def osrefs_def kindat_def value_kinds_def
      rest_after_def iswhite_def isblack_def luaC_white_def WHITEBITS_def BLACKBIT_def)

lemma small_idle: "idle small_heap"
  unfolding idle_def using small_mok by (simp add: small_defs nw_def kindat_def iswhite_def luaC_white_def WHITEBITS_def)

lemma marked_mark_inv: "mark_inv marked_heap"
  unfolding mark_inv_def tri_def using small_mok
  by (simp add: small_defs nw_def blk_def kindat_def refs_def vsrefs_def gray_kinds_def iswhite_def isblack_def luaC_white_def WHITEBITS_def BLACKBIT_def)

theorem markroot_establishes_mark_inv_witness: "\<exists>g'. markroot small_heap = Inr g' \<and> mark_inv g' \<and> gcstate g' = GCSpropagate"
  using markroot_establishes_mark_inv [OF small_idle] .

theorem atomic_marks_reachable_witness:
  "\<exists>g'. atomic 5 0 marked_heap = Inr g' \<and> gcstate g' = GCSsweepstring \<and> currentwhite g' = otherwhite marked_heap \<and> D g' = D marked_heap
    \<and> (\<forall>a. reach g' (roots 0 g') a \<longrightarrow> (\<exists>x. heap g' a = Some x \<and> \<not> isdead g' (marked x)))"
  by (rule atomic_marks_reachable [OF marked_mark_inv]) (simp_all add: small_dom)

theorem propagatemark_keeps_mark_inv_witness:
  "\<exists>m g'. propagatemark marked_heap = Inr (m, g') \<and> mark_inv g' \<and> NW marked_heap \<subseteq> NW g'"
  by (rule propagatemark_keeps_mark_inv [OF marked_mark_inv]) (simp add: small_defs)

theorem table_write_keeps_mark_inv_witness:
  "\<exists>g'. sbind (set_body (BTable (small_table [VRef 3])) 1 marked_heap) (luaC_barriert 1 (VRef 3)) = Inr g' \<and> mark_inv g'"
  by (rule table_write_keeps_mark_inv [OF marked_mark_inv, where t = "small_table [VRef 2]"])
    (auto simp: small_defs vok_def ook_def osrefs_def kindat_def value_kinds_def vsrefs_def)

theorem write_keeps_mark_inv_witness:
  "\<exists>g'. sbind (set_body (BTable (small_table [VRef 3])) 1 marked_heap) (luaC_barrier 1 (VRef 3)) = Inr g' \<and> mark_inv g'"
  by (rule write_keeps_mark_inv [OF marked_mark_inv])
    (auto simp: small_defs vok_def ook_def osrefs_def kindat_def value_kinds_def vsrefs_def)

end
