(* ===== verification/LGCSweep.thy ===== *)
theory LGCSweep
  imports LGCProps
begin

text \<open>The sweep of a bucket of the string table, as one function of the bucket.\<close>

definition is_live :: "gstate \<Rightarrow> nat \<Rightarrow> bool" where
  "is_live g a \<longleftrightarrow> (\<exists>x. heap g a = Some x \<and> (marked x XOR WHITEBITS) AND otherwhite g \<noteq> 0)"

definition bytes_of :: "gstate \<Rightarrow> nat \<Rightarrow> nat" where
  "bytes_of g a = (case heap g a of Some x \<Rightarrow> object_size (body x) | None \<Rightarrow> 0)"

text \<open>The specification: the live strings stay, in their order, with the current white; the dead ones are freed and accounted.\<close>

definition swept_heap :: "nat list \<Rightarrow> gstate \<Rightarrow> nat \<Rightarrow> gcobj option" where
  "swept_heap as g a = (if a \<in> set as then
      (if is_live g a then map_option (\<lambda>x. x\<lparr>marked := makewhite g (marked x)\<rparr>) (heap g a) else None) else heap g a)"

definition swept :: "nat list \<Rightarrow> nat \<Rightarrow> nat list \<Rightarrow> gstate \<Rightarrow> gstate" where
  "swept pre i as g = g\<lparr>heap := swept_heap as g, strt := (strt g)[i := pre @ filter (is_live g) as],
     strt_nuse := strt_nuse g - length (filter (\<lambda>a. \<not> is_live g a) as),
     totalbytes := totalbytes g - of_nat (sum_list (map (bytes_of g) (filter (\<lambda>a. \<not> is_live g a) as)))\<rparr>"

definition pos_after :: "nat list \<Rightarrow> nat option" where
  "pos_after pre = (if pre = [] then None else Some (last pre))"

lemma rest_after_pos: "distinct (pre @ as) \<Longrightarrow> rest_after (pos_after pre) (pre @ as) = as"
proof (cases pre rule: rev_cases)
  case (snoc ys y)
  moreover assume "distinct (pre @ as)"
  ultimately have "y \<notin> set ys" by simp
  then have "rest_after (Some y) (ys @ y # as) = as" by (induction ys) (auto simp: rest_after_def)
  then show ?thesis using snoc by (simp add: pos_after_def)
qed (simp add: pos_after_def rest_after_def)

lemma remove1_middle: "distinct (pre @ a # as) \<Longrightarrow> remove1 a (pre @ a # as) = pre @ as"
  by (simp add: remove1_append)

lemma live_eq: "heap g a = Some x \<Longrightarrow> is_live g a \<longleftrightarrow> (marked x XOR WHITEBITS) AND otherwhite g \<noteq> 0"
  by (simp add: is_live_def)

text \<open>One string that lives, and one that does not.\<close>

lemma sweep_live:
  assumes "i < length (strt g)" "strt g ! i = pre @ a # as" "distinct (pre @ a # as)" "heap g a = Some x" "body x = BString s" "is_live g a" "count > 0"
  shows "sweeplist (Suc n) (LBucket i) (pos_after pre) count g
    = sweeplist n (LBucket i) (pos_after (pre @ [a])) (count - 1) (put_obj a (x\<lparr>marked := makewhite g (marked x)\<rparr>) g)"
  using assms rest_after_pos [OF assms(3)] live_eq [OF assms(4)]
  by (simp add: lift_def rd_def obj_def remark_eq [OF assms(4)] pos_after_def)

lemma sweep_dead:
  assumes "i < length (strt g)" "strt g ! i = pre @ a # as" "distinct (pre @ a # as)" "heap g a = Some x" "body x = BString s" "\<not> is_live g a" "count > 0"
  shows "sweeplist (Suc n) (LBucket i) (pos_after pre) count g
    = sweeplist n (LBucket i) (pos_after pre) (count - 1)
       (g\<lparr>strt := (strt g)[i := pre @ as], strt_nuse := strt_nuse g - 1, heap := (heap g)(a := None),
          totalbytes := totalbytes g - of_nat (object_size (body x))\<rparr>)"
  using assms rest_after_pos [OF assms(3)] live_eq [OF assms(4)] remove1_middle [OF assms(3)]
  by (simp add: lift_def rd_def wr_def obj_def freeobj_def release_def account_def)

lemma otherwhite_cong: "currentwhite g' = currentwhite g \<Longrightarrow> otherwhite g' = otherwhite g \<and> makewhite g' m = makewhite g m"
  by (simp add: otherwhite_def makewhite_def luaC_white_def)

lemma sweeplist_strings:
  assumes "i < length (strt g)" "strt g ! i = pre @ as" "distinct (pre @ as)" "\<forall>a \<in> set as. kindat g a = Some KString" "length as < n" "length as \<le> count"
  shows "\<exists>p. sweeplist n (LBucket i) (pos_after pre) count g = Inr (p, swept pre i as g)"
  using assms
proof (induction as arbitrary: n pre count g)
  case Nil
  obtain n' where "n = Suc n'" using Nil.prems(5) by (cases n) auto
  moreover have "swept pre i [] g = g"
    using Nil.prems(1,2) by (simp add: swept_def swept_heap_def fun_eq_iff list_update_same_conv)
  ultimately show ?case using Nil.prems rest_after_pos [OF Nil.prems(3)] by (simp add: lift_def rd_def)
next
  case (Cons a as)
  obtain n' where n: "n = Suc n'" "length as < n'" using Cons.prems(5) by (cases n) auto
  obtain x s where x: "heap g a = Some x" "body x = BString s" using Cons.prems(4) by (auto simp: kindat_def kind_simps)
  have c: "count > 0" "length as \<le> count - 1" using Cons.prems(6) by auto
  have d: "distinct (pre @ as)" "a \<notin> set as" "a \<notin> set pre" using Cons.prems(3) by auto
  show ?case
  proof (cases "is_live g a")
    case True
    let ?g = "put_obj a (x\<lparr>marked := makewhite g (marked x)\<rparr>) g"
    have F: "strt ?g = strt g" "strt_nuse ?g = strt_nuse g" "totalbytes ?g = totalbytes g" "currentwhite ?g = currentwhite g" by (simp_all add: put_obj_def)
    have l: "is_live ?g b = is_live g b" "bytes_of ?g b = bytes_of g b" "heap ?g b = heap g b" if "b \<noteq> a" for b
      using that otherwhite_cong [OF F(4)] by (simp_all add: is_live_def bytes_of_def)
    have lv: "\<forall>b \<in> set as. is_live ?g b = is_live g b" using l(1) d(2) by metis
    have fl: "filter (is_live ?g) as = filter (is_live g) as" "filter (\<lambda>b. \<not> is_live ?g b) as = filter (\<lambda>b. \<not> is_live g b) as"
      using lv by (auto cong: filter_cong)
    have sb: "map (bytes_of ?g) (filter (\<lambda>b. \<not> is_live g b) as) = map (bytes_of g) (filter (\<lambda>b. \<not> is_live g b) as)"
      using l(2) d(2) by (intro map_cong refl) (metis (no_types, lifting) mem_Collect_eq set_filter)
    have "\<exists>p. sweeplist n' (LBucket i) (pos_after (pre @ [a])) (count - 1) ?g = Inr (p, swept (pre @ [a]) i as ?g)"
      by (rule Cons.IH) (use Cons.prems F n c x in \<open>auto simp: kindat_def\<close>)
    moreover have "swept_heap as ?g = swept_heap (a # as) g"
      using l True x d(2) otherwhite_cong [OF F(4)] by (auto simp: swept_heap_def fun_eq_iff)
    then have "swept (pre @ [a]) i as ?g = swept pre i (a # as) g"
      unfolding swept_def fl sb F using True by (intro gstate.equality) (simp_all add: put_obj_def)
    ultimately show ?thesis using sweep_live [OF Cons.prems(1-3) x True c(1)] n by simp
  next
    case False
    let ?g = "g\<lparr>strt := (strt g)[i := pre @ as], strt_nuse := strt_nuse g - 1, heap := (heap g)(a := None),
          totalbytes := totalbytes g - of_nat (object_size (body x))\<rparr>"
    have F: "currentwhite ?g = currentwhite g" by simp
    have l: "is_live ?g b = is_live g b" "bytes_of ?g b = bytes_of g b" "heap ?g b = heap g b" if "b \<noteq> a" for b
      using that otherwhite_cong [OF F] by (simp_all add: is_live_def bytes_of_def)
    have lv: "\<forall>b \<in> set as. is_live ?g b = is_live g b" using l(1) d(2) by metis
    have fl: "filter (is_live ?g) as = filter (is_live g) as" "filter (\<lambda>b. \<not> is_live ?g b) as = filter (\<lambda>b. \<not> is_live g b) as"
      using lv by (auto cong: filter_cong)
    have sb: "map (bytes_of ?g) (filter (\<lambda>b. \<not> is_live g b) as) = map (bytes_of g) (filter (\<lambda>b. \<not> is_live g b) as)"
      using l(2) d(2) by (intro map_cong refl) (metis (no_types, lifting) mem_Collect_eq set_filter)
    have "\<exists>p. sweeplist n' (LBucket i) (pos_after pre) (count - 1) ?g = Inr (p, swept pre i as ?g)"
      by (rule Cons.IH) (use Cons.prems n c d in \<open>auto simp: kindat_def\<close>)
    moreover have "swept_heap as ?g = swept_heap (a # as) g"
      using l False d(2) otherwhite_cong [OF F] by (auto simp: swept_heap_def fun_eq_iff)
    moreover have "bytes_of g a = object_size (body x)" using x(1) by (simp add: bytes_of_def)
    then have eq: "swept pre i as ?g = swept pre i (a # as) g"
      unfolding swept_def fl sb using False Cons.prems(1) \<open>swept_heap as ?g = swept_heap (a # as) g\<close> by (intro gstate.equality) simp_all
    ultimately have "\<exists>p. sweeplist n' (LBucket i) (pos_after pre) (count - 1) ?g = Inr (p, swept pre i (a # as) g)"
      using False fl sb Cons.prems(1) eq by simp
    then show ?thesis using sweep_dead [OF Cons.prems(1-3) x False c(1)] n by simp
  qed
qed

text \<open>
  C23: the sweep of a bucket of the string table is exactly its specification: the live strings stay in their order and turn to
  the current white, the dead ones leave the bucket and are freed, and the counts of strings and bytes follow.
\<close>

theorem sweep_bucket:
  assumes "i < length (strt g)" "distinct (strt g ! i)" "\<forall>a \<in> set (strt g ! i). kindat g a = Some KString"
    and "length (strt g ! i) < n" "length (strt g ! i) \<le> MAX_LUMEM"
  shows "sweepwholelist n (LBucket i) g = Inr (swept [] i (strt g ! i) g)"
proof -
  obtain p where "sweeplist n (LBucket i) None MAX_LUMEM g = Inr (p, swept [] i (strt g ! i) g)"
    using sweeplist_strings [of i g "[]" "strt g ! i" n MAX_LUMEM] assms by (auto simp: pos_after_def)
  then show ?thesis by (simp add: sweepwholelist_def)
qed

text \<open>A bucket with a dead string and one that lives.\<close>

definition sweep_heap :: gstate where
  "sweep_heap = small_heap\<lparr>heap := [2 \<mapsto> \<lparr>marked = 1, body = BString [65]\<rparr>, 4 \<mapsto> \<lparr>marked = 2, body = BString [66]\<rparr>],
     strt := [[], [2, 4]], strt_nuse := 2, currentwhite := 34, gcstate := GCSsweepstring\<rparr>"

theorem sweep_bucket_witness: "sweepwholelist 3 (LBucket 1) sweep_heap = Inr (swept [] 1 [2, 4] sweep_heap)"
  using sweep_bucket [of 1 sweep_heap 3] by (simp add: sweep_heap_def small_heap_def kindat_def MAX_LUMEM_def)

end
