(* ===== verification/Spec2Isabelle.thy ===== *)
theory Spec2Isabelle
  imports Prelude Base64 Hex Tools Mainframe Message Log Des LuaBase Opcodes StrMatch StrLib LObject LTable LTableInv LTableOps LTableProps LCode LCodeExp LCodeProps TabLib TabLibProps LApiTab LDebug LDebugProps LZio LUndump LUndumpProps LNum LLex LLexProps LParser LGrammar LFrames LScope LScopeRules LNest LParserProps LGC LGCInv LGCTrav LGCMark LGCProps LGCSweep
begin

text \<open>
  A model of this repository in Isabelle/HOL: a small framework that runs Lua scripts as the handlers of a Unix
  worker process, with its own C and C++ libraries (\<open>src/src\<close>), and the Lua 5.1.4 interpreter it is built
  on (\<open>src/dep/lua-5.1.4/src\<close>), whose sources are in the repository.

  The program. \<open>mainframe/test.cpp\<close> starts a worker; the worker opens a Lua state, loads the scripts of a
  configuration table, and calls their functions until a signal tells it to stop or to load them again. The
  scripts share numbered values and sequence numbers through it, and use three libraries: \<open>libtools\<close> (base64 and
  percent escapes), \<open>libmsg\<close> (System V message queues) and \<open>liblog\<close> (an asynchronous log file). A
  script is text or a precompiled chunk. \<open>lzio.c\<close> hands its bytes to the scanner (\<open>llex.c\<close>), whose
  tokens the parser (\<open>lparser.c\<close>) turns into calls of the code generator (\<open>lcode.c\<close>), or to the loader (\<open>lundump.c\<close>), which has the code checked
  (\<open>ldebug.c\<close>) before it may run. What runs works on tables (\<open>ltable.c\<close>), through the raw accesses of
  \<open>lapi.c\<close>, with the string and the table library, on a heap kept by the collector (\<open>lgc.c\<close>).

  \<^bold>\<open>Conventions.\<close> Theory \<open>Prelude\<close> has the type of results: \<open>Inl\<close> is a fault of the C program (an access
  outside its object, a signed overflow, a missing object), \<open>Inr\<close> a value. In the theories of the interpreter
  (\<open>LuaBase\<close>) the left side is a Lua error with its message or a fault. Each theorem that says an operation is
  safe therefore says that no fault is its value. Machine integers are kept at their width: words where the code
  masks and shifts them, \<open>int\<close> with a check of the range where a signed overflow would be undefined. A buffer is a
  list of bytes with checked access. The interpreter's objects are found by identity: strings by their bytes (they are
  interned), tables and functions in tables and the collector by a number that stands for the address.
  Definitions have the names of the C functions; what is added to a name keeps it apart from one of HOL.

  \<^bold>\<open>The framework.\<close>
  \<^item> \<open>Base64\<close>: \<open>tools/base64.c\<close>. The two tables, the coders of one group, \<open>Base64_Encode\<close> and
    \<open>Base64_Decode\<close> with their cursors and return codes. The encoder refines the text form of base64, decoding
    undoes it, and a buffer of three quarters of the length is enough for any input, well formed or not.
  \<^item> \<open>Hex\<close>: \<open>tools/hex.cpp\<close>. The encoders and decoders of percent escapes; the round trip, and exactly which
    strings the decoders read past.
  \<^item> \<open>Tools\<close>: \<open>tools/tools.cpp\<close>. The Lua functions over both, with their buffers and return codes.
  \<^item> \<open>Mainframe\<close>: \<open>mainframe/test.cpp\<close>. \<open>seqno\<close> and its stack, the value store, the signal handler and
    the worker's loop as a step relation in which a signal may arrive between any two steps. Numbers in use are
    exclusive; a signal in the loop stops it within a bound; one during loading is lost.
  \<^item> \<open>Message\<close>: \<open>message/message.cpp\<close> over a kernel that is a parameter, with the documented promises of
    \<open>msgsnd\<close> and \<open>msgrcv\<close> on a queue of bounded size; the library refines a bounded queue of strings.
  \<^item> \<open>Log\<close>: \<open>log/log.cpp\<close>. The state of the library and of the asynchronous write, as a step relation over
    messages and completions; its bounds, what it writes when messages do not overlap, and what is lost when they do.
  \<^item> \<open>Des\<close>: \<open>tools/test/3des.c\<close>. Masking, padding and text form around a cipher that is a parameter.

  \<^bold>\<open>The interpreter.\<close>
  \<^item> \<open>Opcodes\<close> (\<open>lopcodes\<close>): instructions as 32-bit words with their fields and modes.
    \<open>LCode\<close>, \<open>LCodeExp\<close> (\<open>lcode.c\<close>): the state of a function under compilation and every operation of the
    generator: jump lists, constants, registers, expressions, operators. \<open>LCodeProps\<close>: patching sets the targets of a
    list and nothing else, pending jumps arrive, constants are shared; what becomes of a list that is too long for one instruction.
  \<^item> \<open>LDebug\<close> (\<open>ldebug.c\<close>, \<open>lobject.h\<close>, \<open>lfunc.c\<close>): prototypes, \<open>precheck\<close> and \<open>symbexec\<close>.
    \<open>LDebugProps\<close> has a machine that abstracts the control flow of \<open>luaV_execute\<close>, and shows that code which is
    accepted stays inside; and that the checker itself is safe on any code.
  \<^item> \<open>LZio\<close>, \<open>LUndump\<close> (\<open>lzio.c\<close>, \<open>ldump.c\<close>, \<open>lundump.c\<close>): streams over readers, writing and loading
    chunks. \<open>LUndumpProps\<close>: loading what was written, however the reader cuts it; any other bytes give an error or
    code the checker accepts.
  \<^item> \<open>LNum\<close>, \<open>LLex\<close> (\<open>lobject.c\<close>, \<open>llex.c\<close>): text to number, and the scanner with its buffer, names,
    numbers, strings, long brackets and look-ahead. \<open>LLexProps\<close>: it is safe on any text and reads back what
    \<open>%q\<close> writes.
  \<^item> \<open>LParser\<close>, \<open>LGrammar\<close> (\<open>lparser.c\<close>): the whole parser. \<open>LParser\<close> has its state (the scanner and
    the stack of functions under compilation, the innermost first), local variables, upvalues, blocks, and opening and
    closing functions; \<open>LGrammar\<close> the rules of expressions and statements, each a function of that state that
    returns an error or the new state, up to \<open>luaY_parser\<close>. \<open>LFrames\<close>: what scanner and generator leave alone.
    \<open>LScope\<close>, \<open>LScopeRules\<close>: the scope invariant (blocks, active variables and upvalues of each function agree)
    through every rule. \<open>LNest\<close>: more levels of recursion than the limit of C calls change nothing.
    \<open>LParserProps\<close>: prototypes are well made, a block restores the scope, nesting is bounded.
  \<^item> \<open>LObject\<close>, \<open>LTable\<close> (\<open>lobject.c\<close>, \<open>ltable.c\<close>): values, raw equality, the array and the hash part, all operations
    of tables. \<open>LTableInv\<close>, \<open>LTableOps\<close>, \<open>LTableProps\<close>: the invariant of the chains, tables refine maps,
    resizing keeps the map, the length is a boundary, a traversal visits each entry once.
  \<^item> \<open>TabLib\<close>, \<open>LApiTab\<close> (\<open>ltablib.c\<close>, the raw accesses of \<open>lapi.c\<close>): the library is written over the
    contract \<open>int_table\<close> and proved there (\<open>TabLibProps\<close>); \<open>LApiTab\<close> interprets it with the real tables.
  \<^item> \<open>StrMatch\<close>, \<open>StrLib\<close> (\<open>lstrlib.c\<close>): the matcher, with a declarative relation of patterns that it refines,
    and the library's functions.
  \<^item> \<open>LGC\<close> (\<open>lgc.c\<close>, parts of \<open>lfunc.c\<close> and \<open>lstring.c\<close>): the heap, marking, barriers, the steps of the
    incremental collector, sweeping, finalizers. \<open>LGCInv\<close>, \<open>LGCTrav\<close>, \<open>LGCMark\<close>: the three-colour invariant through
    every step of the mark phase. \<open>LGCProps\<close>, \<open>LGCSweep\<close>: roots, barriers, the atomic phase, the sweep of a bucket
    of strings against its specification.

  \<^bold>\<open>Loops and fuel.\<close> Where a loop follows data that could be cyclic or depends on a stream, the model takes
  a number of rounds and running out of it is a fault of its own, so that the safety theorems show the number is
  enough: chains of a table, as many rounds as nodes (\<open>LTable\<close>), and two attempts of a new key, since
  a resized table has room; a jump list, as many as instructions; \<open>auxsort\<close>, the size of the list;
  \<open>LoadFunction\<close>, 201 levels, since C calls nest at most 200 deep; the scanner, the bytes left and one;
  the loops of the parser, the bytes of the text and one, as each turn reads a token; its recursion, 201 levels, which
  \<open>nesting_bounded\<close> shows to be enough;
  \<open>reallymarkobject\<close>, three levels (an upvalue, a userdata, its metatable); the propagation of the gray list, more
  rounds than objects, since each round blackens one; sweeping, more than the length of the list.
  Everything else, the matcher of patterns among it, is total with a measure of its own.

  \<^bold>\<open>Parameters.\<close> The hash of a number, its bytes, its comparison and the arithmetic on constants; \<open>strtod\<close> and the
  decimal point of the locale; the reader of a stream; the call of a finalizer; the kernel's queues; the block
  cipher. Where a theorem relies on what they do the assumption is a hypothesis of the theorem.

  \<^bold>\<open>Not modelled.\<close> The virtual machine (\<open>lvm.c\<close>), calls and errors (\<open>ldo.c\<close>) and the stack functions of
  \<open>lapi.c\<close>: they work on one Lua stack with pointers into it, reallocated as they run, over \<open>setjmp\<close>. States and the allocator
  (\<open>lstate.c\<close>, \<open>lmem.c\<close>) apart from what the collector uses of them; memory never runs out in the model. The base, input/output,
  operating system, debug and mathematical libraries and \<open>loadlib.c\<close>: wrappers of that interface and of
  the C library. The programs \<open>lua.c\<close> and \<open>luac.c\<close>. Of the framework, \<open>portal_encrypt_api\<close>, the extension stub and
  the shared-object experiment, which only call libraries that are not in the repository; the real processes, signal masks and
  files behind \<open>Mainframe\<close> and \<open>Log\<close>.
\<close>

end
